(* ===== verification/Prelude.thy ===== *)
theory Prelude
  imports Main "HOL-Library.Monad_Syntax" "HOL-Library.Word" "HOL-Library.Multiset"
begin

unbundle bit_operations_syntax

text \<open>
  Shared vocabulary of the development.

  \<^item> Fallible code is an \<open>option\<close>: \<open>None\<close> is a run that a debug build stops (a failed
    \<^verbatim>\<open>Assert\<close> or \<^verbatim>\<open>AssertStore\<close>, see \<^verbatim>\<open>seam/Base.hh\<close>) or that reads or writes outside of a block.
    The correctness theorems of the components show that well-formed states never reach \<open>None\<close>,
    so the release build, where the assertions are compiled out, takes the same path.
  \<^item> The argument vector of a block is a list of words; \<open>Block_GetArg\<close> and \<open>Block_SetArg\<close> are the
    bounds-checked accessors of \<^verbatim>\<open>seam/store/Value.hh\<close>, \<open>copy_words\<close> is the C library's
    \<^verbatim>\<open>memcpy\<close>/\<^verbatim>\<open>memmove\<close> on words.
  \<^item> The collections \<open>run_simps\<close> (how the primitives evaluate when they are in bounds) and
    \<open>run_elims\<close> (how a successful run decomposes) carry the component proofs.
\<close>

named_theorems run_simps "evaluation of the primitive operations inside their bounds"
named_theorems run_elims "decomposition of a successful run"

type_synonym u_int = "32 word"
type_synonym addr = nat

section \<open>Assertions\<close>

definition Assert :: "bool \<Rightarrow> unit option" where
  "Assert c = (if c then Some () else None)"

lemma Assert_True [simp]: "Assert True = Some ()"
  by (simp add: Assert_def)

lemma Assert_False [simp]: "Assert False = None"
  by (simp add: Assert_def)

lemma Assert_Some [run_elims]: "Assert c = Some u \<longleftrightarrow> c"
  by (simp add: Assert_def)

lemma Assert_run [run_simps]: "c \<Longrightarrow> Assert c = Some ()"
  by (simp add: Assert_def)

lemmas [run_elims] = bind_eq_Some_conv

section \<open>Block arguments\<close>

definition Block_GetArg :: "'w list \<Rightarrow> nat \<Rightarrow> 'w option" where
  "Block_GetArg b f = (if f < length b then Some (b ! f) else None)"

definition Block_SetArg :: "'w list \<Rightarrow> nat \<Rightarrow> 'w \<Rightarrow> 'w list option" where
  "Block_SetArg b f v = (if f < length b then Some (b[f := v]) else None)"

definition copy_words :: "'w list \<Rightarrow> nat \<Rightarrow> 'w list \<Rightarrow> nat \<Rightarrow> nat \<Rightarrow> 'w list option" where
  "copy_words dst d src s n =
     (if d + n \<le> length dst \<and> s + n \<le> length src
      then Some (take d dst @ take n (drop s src) @ drop (d + n) dst) else None)"

lemma Block_GetArg_run [run_simps]: "f < length b \<Longrightarrow> Block_GetArg b f = Some (b ! f)"
  by (simp add: Block_GetArg_def)

lemma Block_SetArg_run [run_simps]: "f < length b \<Longrightarrow> Block_SetArg b f v = Some (b[f := v])"
  by (simp add: Block_SetArg_def)

lemma copy_words_run [run_simps]:
  "d + n \<le> length dst \<Longrightarrow> s + n \<le> length src \<Longrightarrow>
   copy_words dst d src s n = Some (take d dst @ take n (drop s src) @ drop (d + n) dst)"
  by (simp add: copy_words_def)

lemma Block_GetArg_Some [run_elims]:
  "Block_GetArg b f = Some v \<longleftrightarrow> f < length b \<and> v = b ! f"
  by (auto simp: Block_GetArg_def)

lemma Block_SetArg_Some [run_elims]:
  "Block_SetArg b f v = Some b' \<longleftrightarrow> f < length b \<and> b' = b[f := v]"
  by (auto simp: Block_SetArg_def)

lemma length_copy_words: "copy_words dst d src s n = Some b \<Longrightarrow> length b = length dst"
  by (auto simp: copy_words_def split: if_splits)

section \<open>Lists\<close>

lemma nth_copied:
  assumes "d + n \<le> length dst" and "s + n \<le> length src" and "i < length dst"
  shows "(take d dst @ take n (drop s src) @ drop (d + n) dst) ! i =
         (if d \<le> i \<and> i < d + n then src ! (s + (i - d)) else dst ! i)"
proof -
  have "length (take n (drop s src)) = n" using assms by simp
  then show ?thesis using assms by (auto simp: nth_append)
qed

text \<open>The slice of \<open>n\<close> elements from index \<open>i\<close>.\<close>

definition slice :: "nat \<Rightarrow> nat \<Rightarrow> 'a list \<Rightarrow> 'a list" where
  "slice i n xs = take n (drop i xs)"

lemma length_slice [simp]: "i + n \<le> length xs \<Longrightarrow> length (slice i n xs) = n"
  by (simp add: slice_def)

lemma nth_slice [simp]: "i + n \<le> length xs \<Longrightarrow> k < n \<Longrightarrow> slice i n xs ! k = xs ! (i + k)"
  by (simp add: slice_def)

lemma slice_0 [simp]: "slice i 0 xs = []"
  by (simp add: slice_def)

end
