(* ===== verification/Store_Config.thy ===== *)
theory Store_Config
  imports Prelude
begin

text \<open>
  The configuration of the store: the field widths of \<^verbatim>\<open>seam/store/Parameter.hh\<close> and what the
  generator \<^verbatim>\<open>seam/store/StoreConfig.cc\<close> computes from them (the bit positions, masks and size
  limits of the block header, and the numbering of the block labels).
  The model fixes the 32 bit build (\<^verbatim>\<open>sizeof(void *) = 4\<close>), so \<^verbatim>\<open>MIN_WIDTH = 4\<close>,
  \<^verbatim>\<open>header_size_width = HEADER_SIZE_WIDTH\<close> and \<^verbatim>\<open>STORE_WORD_WIDTH = 32\<close>.
\<close>

section \<open>Header fields (Parameter.hh)\<close>

definition HEADER_FULL_WIDTH :: nat where "HEADER_FULL_WIDTH = 32"
definition HEADER_GEN_GC_MARK_WIDTH :: nat where "HEADER_GEN_GC_MARK_WIDTH = 2"
definition HEADER_SIZESHIFT_WIDTH :: nat where "HEADER_SIZESHIFT_WIDTH = 1"
definition HEADER_SIZE_WIDTH :: nat where "HEADER_SIZE_WIDTH = 20"
definition HEADER_TAG_WIDTH :: nat where "HEADER_TAG_WIDTH = 7"
definition HEADER_MUTABLE_WIDTH :: nat where "HEADER_MUTABLE_WIDTH = 1"
definition HEADER_CHILDISH_WIDTH :: nat where "HEADER_CHILDISH_WIDTH = 1"

definition STORE_MEMCHUNK_SIZE :: nat where "STORE_MEMCHUNK_SIZE = 1024 * 128"

text \<open>
  \<^verbatim>\<open>Parameter.hh\<close> counts three generations; the generated header adds the shadow generation the
  major collection copies into, which is the number the compiled store sees.
\<close>

definition PARAMETER_GENERATION_NUM :: nat where
  "PARAMETER_GENERATION_NUM = 2 ^ HEADER_GEN_GC_MARK_WIDTH - 1"
definition STORE_GENERATION_NUM :: nat where
  "STORE_GENERATION_NUM = PARAMETER_GENERATION_NUM + 1"
definition STORE_GEN_OLDEST :: nat where
  "STORE_GEN_OLDEST = PARAMETER_GENERATION_NUM - 1"

section \<open>Header layout (StoreConfig.cc, CreateHeader)\<close>

fun ComputeMask :: "nat \<Rightarrow> nat \<Rightarrow> u_int" where
  "ComputeMask pos 0 = 0"
| "ComputeMask pos (Suc i) = ComputeMask pos i + push_bit (pos + i) 1"

definition GEN_GC_SHIFT :: nat where "GEN_GC_SHIFT = 0"
definition SIZESHIFT_SHIFT :: nat where "SIZESHIFT_SHIFT = HEADER_GEN_GC_MARK_WIDTH"
definition SIZE_SHIFT :: nat where "SIZE_SHIFT = SIZESHIFT_SHIFT + HEADER_SIZESHIFT_WIDTH"
definition TAG_SHIFT :: nat where "TAG_SHIFT = SIZE_SHIFT + HEADER_SIZE_WIDTH"
definition MUTABLE_SHIFT :: nat where "MUTABLE_SHIFT = TAG_SHIFT + HEADER_TAG_WIDTH"
definition CHILDISH_SHIFT :: nat where "CHILDISH_SHIFT = MUTABLE_SHIFT + HEADER_MUTABLE_WIDTH"

definition MAX_TAGSIZE :: u_int where "MAX_TAGSIZE = push_bit HEADER_TAG_WIDTH 1 - 1"
definition MAX_BLOCKSIZE :: u_int where "MAX_BLOCKSIZE = push_bit HEADER_SIZE_WIDTH 1 - 1"
definition GEN_GC_MASK :: u_int where
  "GEN_GC_MASK = ComputeMask GEN_GC_SHIFT HEADER_GEN_GC_MARK_WIDTH"
definition SIZESHIFT_MASK :: u_int where
  "SIZESHIFT_MASK = ComputeMask SIZESHIFT_SHIFT HEADER_SIZESHIFT_WIDTH"
definition SIZE_MASK :: u_int where "SIZE_MASK = ComputeMask SIZE_SHIFT HEADER_SIZE_WIDTH"
definition TAG_MASK :: u_int where "TAG_MASK = ComputeMask TAG_SHIFT HEADER_TAG_WIDTH"
definition MUTABLE_MASK :: u_int where "MUTABLE_MASK = ComputeMask MUTABLE_SHIFT HEADER_MUTABLE_WIDTH"
definition CHILDISH_MASK :: u_int where
  "CHILDISH_MASK = ComputeMask CHILDISH_SHIFT HEADER_CHILDISH_WIDTH"
definition BIGSIZE_MIN :: u_int where "BIGSIZE_MIN = push_bit (unat SIZESHIFT_MASK) 1"
definition MAX_BIGBLOCKSIZE :: u_int where
  "MAX_BIGBLOCKSIZE = push_bit (unat SIZESHIFT_MASK) MAX_BLOCKSIZE"
definition MAX_DYNBLOCKSIZE :: u_int where "MAX_DYNBLOCKSIZE = MAX_BIGBLOCKSIZE - 1"

lemma ComputeMask_eq: "ComputeMask pos w = push_bit pos (mask w)"
proof (induction w)
  case (Suc w)
  have "push_bit pos (mask (Suc w)) = push_bit pos (mask w :: u_int) + push_bit (pos + w) 1"
    by (simp add: push_bit_eq_mult mask_eq_exp_minus_1 power_add algebra_simps)
  with Suc show ?case by simp
qed simp

lemmas config_widths =
  HEADER_FULL_WIDTH_def HEADER_GEN_GC_MARK_WIDTH_def HEADER_SIZESHIFT_WIDTH_def
  HEADER_SIZE_WIDTH_def HEADER_TAG_WIDTH_def HEADER_MUTABLE_WIDTH_def HEADER_CHILDISH_WIDTH_def

lemma config_shifts [simp]:
  "GEN_GC_SHIFT = 0" "SIZESHIFT_SHIFT = 2" "SIZE_SHIFT = 3" "TAG_SHIFT = 23"
  "MUTABLE_SHIFT = 30" "CHILDISH_SHIFT = 31"
  by (simp_all add: GEN_GC_SHIFT_def SIZESHIFT_SHIFT_def SIZE_SHIFT_def TAG_SHIFT_def
      MUTABLE_SHIFT_def CHILDISH_SHIFT_def config_widths)

lemma config_masks:
  "GEN_GC_MASK = push_bit 0 (mask 2)" "SIZESHIFT_MASK = push_bit 2 (mask 1)"
  "SIZE_MASK = push_bit 3 (mask 20)" "TAG_MASK = push_bit 23 (mask 7)"
  "MUTABLE_MASK = push_bit 30 (mask 1)" "CHILDISH_MASK = push_bit 31 (mask 1)"
  by (simp_all add: GEN_GC_MASK_def SIZESHIFT_MASK_def SIZE_MASK_def TAG_MASK_def
      MUTABLE_MASK_def CHILDISH_MASK_def config_widths ComputeMask_eq)

lemma SIZESHIFT_MASK_val [simp]: "SIZESHIFT_MASK = 4"
  by (simp add: config_masks push_bit_eq_mult)

lemma config_limits [simp]:
  "MAX_TAGSIZE = 127" "MAX_BLOCKSIZE = 1048575" "BIGSIZE_MIN = 16"
  "MAX_BIGBLOCKSIZE = 16777200" "MAX_DYNBLOCKSIZE = 16777199"
  by (simp_all add: MAX_TAGSIZE_def MAX_BLOCKSIZE_def BIGSIZE_MIN_def MAX_BIGBLOCKSIZE_def
      MAX_DYNBLOCKSIZE_def config_widths push_bit_eq_mult)

lemma generation_numbers [simp]:
  "PARAMETER_GENERATION_NUM = 3" "STORE_GENERATION_NUM = 4" "STORE_GEN_OLDEST = 2"
  by (simp_all add: PARAMETER_GENERATION_NUM_def STORE_GENERATION_NUM_def STORE_GEN_OLDEST_def
      config_widths)

section \<open>Block labels (StoreConfig.cc, CreateLabel; Parameter.hh)\<close>

definition helper_arr :: "string list" where
  "helper_arr =
     [''GENSET'', ''INT_MAP'', ''CHUNK_MAP'', ''MAP'', ''HASHNODEARRAY'', ''HASHNODE'', ''QUEUE'',
      ''STACK'', ''ROOTSETELEMENT'', ''UNIQUESTRING'', ''THREAD'', ''TASKSTACK'', ''CLOSURE'',
      ''TUPLE'', ''CONCRETE'', ''TRANSFORM'', ''ARGS'', ''IODESC'', ''DEBUG_ENVIRONMENT'']"

definition label_size :: nat where "label_size = 2 ^ HEADER_TAG_WIDTH - 1"

definition CreateLabel_helper :: "nat \<Rightarrow> (string \<times> nat) list" where
  "CreateLabel_helper sz =
     map (\<lambda>i. (helper_arr ! i, sz - 7 - (length helper_arr - i))) [0..<length helper_arr]"

definition CreateLabel_fixed :: "nat \<Rightarrow> (string \<times> nat) list" where
  "CreateLabel_fixed sz =
     [(''HOLE'', sz - 7), (''FUTURE'', sz - 6), (''REF'', sz - 5), (''CANCELLED'', sz - 4),
      (''BYNEED'', sz - 3), (''CHUNK'', sz - 2), (''WEAK_MAP'', sz - 1), (''DYNAMIC'', sz)]"

definition MIN_DATA_LABEL :: nat where "MIN_DATA_LABEL = 0"
definition MAX_DATA_LABEL :: nat where "MAX_DATA_LABEL = label_size - 8 - length helper_arr"
definition MIN_HELPER_LABEL :: nat where "MIN_HELPER_LABEL = label_size - 7 - length helper_arr"
definition MAX_HELPER_LABEL :: nat where "MAX_HELPER_LABEL = label_size - 8"
definition MIN_TRANSIENT_LABEL :: nat where "MIN_TRANSIENT_LABEL = label_size - 7"
definition MAX_TRANSIENT_LABEL :: nat where "MAX_TRANSIENT_LABEL = label_size - 3"
definition MAX_STORE_LABEL :: nat where "MAX_STORE_LABEL = label_size"

definition HOLE_LABEL :: nat where "HOLE_LABEL = label_size - 7"
definition FUTURE_LABEL :: nat where "FUTURE_LABEL = label_size - 6"
definition REF_LABEL :: nat where "REF_LABEL = label_size - 5"
definition CANCELLED_LABEL :: nat where "CANCELLED_LABEL = label_size - 4"
definition BYNEED_LABEL :: nat where "BYNEED_LABEL = label_size - 3"
definition CHUNK_LABEL :: nat where "CHUNK_LABEL = label_size - 2"
definition WEAK_MAP_LABEL :: nat where "WEAK_MAP_LABEL = label_size - 1"
definition DYNAMIC_LABEL :: nat where "DYNAMIC_LABEL = label_size"

lemma label_vals [simp]:
  "label_size = 127" "MIN_DATA_LABEL = 0" "MAX_DATA_LABEL = 100" "MIN_HELPER_LABEL = 101"
  "MAX_HELPER_LABEL = 119" "MIN_TRANSIENT_LABEL = 120" "MAX_TRANSIENT_LABEL = 124"
  "MAX_STORE_LABEL = 127" "HOLE_LABEL = 120" "FUTURE_LABEL = 121" "REF_LABEL = 122"
  "CANCELLED_LABEL = 123" "BYNEED_LABEL = 124" "CHUNK_LABEL = 125" "WEAK_MAP_LABEL = 126"
  "DYNAMIC_LABEL = 127"
  by (simp_all add: label_size_def HEADER_TAG_WIDTH_def MIN_DATA_LABEL_def MAX_DATA_LABEL_def
      MIN_HELPER_LABEL_def MAX_HELPER_LABEL_def MIN_TRANSIENT_LABEL_def MAX_TRANSIENT_LABEL_def
      MAX_STORE_LABEL_def HOLE_LABEL_def FUTURE_LABEL_def REF_LABEL_def CANCELLED_LABEL_def
      BYNEED_LABEL_def CHUNK_LABEL_def WEAK_MAP_LABEL_def DYNAMIC_LABEL_def helper_arr_def)

lemma CreateLabel_vals:
  "map snd (CreateLabel_helper label_size @ CreateLabel_fixed label_size) = [101..<128]"
  by (simp add: CreateLabel_helper_def CreateLabel_fixed_def helper_arr_def upt_rec)

end
