(* ===== verification/Header_Op.thy ===== *)
theory Header_Op
  imports Store_Config
begin

text \<open>
  The block header (\<^verbatim>\<open>seam/store/HeaderOp.hh\<close>, \<^verbatim>\<open>seam/store/GCHelper.hh\<close>): one machine word that
  packs the generation, the size-shift flag, the size, the label, the mutable flag and the
  inter-generational (childish) flag.
  Each operation is the function the code applies to the header word \<^verbatim>\<open>p[0]\<close>.
  The lemmas show that every field read gives back what was encoded and that writing one field
  leaves the others alone.
\<close>

definition EncodeHeader :: "u_int \<Rightarrow> u_int \<Rightarrow> u_int \<Rightarrow> u_int \<Rightarrow> u_int" where
  "EncodeHeader l s gen mutableFlag =
     (if s > MAX_BLOCKSIZE
      then push_bit GEN_GC_SHIFT (gen + 1) OR
           push_bit SIZESHIFT_SHIFT 1 OR
           push_bit SIZE_SHIFT (drop_bit (unat SIZESHIFT_MASK) s) OR
           (push_bit TAG_SHIFT l OR push_bit MUTABLE_SHIFT mutableFlag)
      else push_bit GEN_GC_SHIFT (gen + 1) OR push_bit SIZE_SHIFT s OR
           (push_bit TAG_SHIFT l OR push_bit MUTABLE_SHIFT mutableFlag))"

definition EncodeLabel :: "u_int \<Rightarrow> u_int \<Rightarrow> u_int" where
  "EncodeLabel h l = (h AND NOT TAG_MASK) OR push_bit TAG_SHIFT l"

definition DecodeLabel :: "u_int \<Rightarrow> u_int" where
  "DecodeLabel h = drop_bit TAG_SHIFT (h AND TAG_MASK)"

definition DecodeMutableFlag :: "u_int \<Rightarrow> u_int" where
  "DecodeMutableFlag h = drop_bit MUTABLE_SHIFT (h AND MUTABLE_MASK)"

definition EncodeMutableFlag :: "u_int \<Rightarrow> u_int \<Rightarrow> u_int" where
  "EncodeMutableFlag h f = (h AND NOT MUTABLE_MASK) OR push_bit MUTABLE_SHIFT f"

definition EncodeSize :: "u_int \<Rightarrow> u_int \<Rightarrow> u_int" where
  "EncodeSize h s = (h AND NOT SIZE_MASK) OR push_bit SIZE_SHIFT s"

definition DecodeSize :: "u_int \<Rightarrow> u_int" where
  "DecodeSize h = push_bit (unat (h AND SIZESHIFT_MASK)) (drop_bit SIZE_SHIFT (h AND SIZE_MASK))"

definition DecodeGeneration :: "u_int \<Rightarrow> u_int" where
  "DecodeGeneration h = drop_bit GEN_GC_SHIFT (h AND GEN_GC_MASK) - 1"

definition SetChildishFlag :: "u_int \<Rightarrow> u_int" where
  "SetChildishFlag h = h OR push_bit CHILDISH_SHIFT 1"

definition ClearChildishFlag :: "u_int \<Rightarrow> u_int" where
  "ClearChildishFlag h = h AND NOT (push_bit CHILDISH_SHIFT 1)"

definition IsChildish :: "u_int \<Rightarrow> u_int" where
  "IsChildish h = h AND CHILDISH_MASK"

definition TranslateSize :: "u_int \<Rightarrow> u_int" where
  "TranslateSize s =
     (if s \<le> MAX_BLOCKSIZE then s
      else push_bit (unat SIZESHIFT_MASK)
             (drop_bit (unat SIZESHIFT_MASK) (s + BIGSIZE_MIN - 1)))"

definition AlreadyMoved :: "u_int \<Rightarrow> bool" where
  "AlreadyMoved h \<longleftrightarrow> drop_bit GEN_GC_SHIFT (h AND GEN_GC_MASK) = 0"

definition EncodeGen :: "u_int \<Rightarrow> u_int \<Rightarrow> u_int" where
  "EncodeGen h gen = (h AND NOT GEN_GC_MASK) OR push_bit GEN_GC_SHIFT (gen + 1)"

definition DecodeGen :: "u_int \<Rightarrow> u_int" where
  "DecodeGen h = drop_bit GEN_GC_SHIFT (h AND GEN_GC_MASK)"

lemmas header_defs =
  EncodeHeader_def EncodeLabel_def DecodeLabel_def DecodeMutableFlag_def EncodeMutableFlag_def
  EncodeSize_def DecodeSize_def DecodeGeneration_def SetChildishFlag_def ClearChildishFlag_def
  IsChildish_def AlreadyMoved_def EncodeGen_def DecodeGen_def

text \<open>A word below a power of two has no bit at or above it.\<close>

lemma bit_bound:
  fixes w :: u_int
  assumes "unat w < 2 ^ n" and "bit w i"
  shows "i < n"
proof (rule ccontr)
  assume "\<not> i < n"
  have "take_bit n (unat w) = unat w"
    using assms(1) by (simp add: take_bit_nat_eq_self_iff)
  moreover have "bit (unat w) i" using assms(2) by (simp add: bit_unsigned_iff)
  ultimately show False using \<open>\<not> i < n\<close> by (metis bit_take_bit_iff)
qed

text \<open>Reading a field is taking \<open>w\<close> bits from position \<open>p\<close>; writing one changes only those bits.\<close>

lemma bit_field_mask: "bit (push_bit p (mask w) :: u_int) i \<longleftrightarrow> p \<le> i \<and> i < p + w \<and> i < 32"
  by (auto simp: bit_simps)

lemma bit_field: "bit (drop_bit p (h AND push_bit p (mask w)) :: u_int) j \<longleftrightarrow> j < w \<and> bit h (p + j)"
  by (auto simp: bit_simps dest: bit_imp_le_length)

lemma bit_write_field:
  "bit ((h AND NOT (push_bit p (mask w))) OR push_bit p v :: u_int) i \<longleftrightarrow>
     (i < 32 \<and> (if i < p then bit h i else if i < p + w then bit v (i - p)
                else bit h i \<or> bit v (i - p)))"
  by (auto simp: bit_simps dest: bit_imp_le_length)

lemmas header_field_defs =
  DecodeLabel_def DecodeMutableFlag_def DecodeGen_def IsChildish_def config_masks

lemma bit_DecodeLabel: "bit (DecodeLabel h) j \<longleftrightarrow> j < 7 \<and> bit h (23 + j)"
  by (simp only: DecodeLabel_def config_masks config_shifts bit_field)

lemma bit_DecodeMutableFlag: "bit (DecodeMutableFlag h) j \<longleftrightarrow> j < 1 \<and> bit h (30 + j)"
  by (simp only: DecodeMutableFlag_def config_masks config_shifts bit_field)

lemma bit_DecodeGen: "bit (DecodeGen h) j \<longleftrightarrow> j < 2 \<and> bit h j"
  using bit_field [of 0 h 2 j] by (simp only: DecodeGen_def config_masks config_shifts add_0)

lemma bit_IsChildish: "bit (IsChildish h) i \<longleftrightarrow> i = 31 \<and> bit h 31"
proof -
  have "bit CHILDISH_MASK i \<longleftrightarrow> i = 31"
    unfolding config_masks bit_field_mask by auto
  then show ?thesis by (auto simp: IsChildish_def bit_and_iff)
qed

lemma DecodeGeneration_eq: "DecodeGeneration h = DecodeGen h - 1"
  by (simp add: DecodeGeneration_def DecodeGen_def)

text \<open>A header is well formed when its arguments satisfy the assertions of \<open>EncodeHeader\<close>.\<close>

definition header_args :: "u_int \<Rightarrow> u_int \<Rightarrow> u_int \<Rightarrow> u_int \<Rightarrow> bool" where
  "header_args l s gen f \<longleftrightarrow>
     unat l \<le> MAX_STORE_LABEL \<and> unat gen < STORE_GENERATION_NUM - 1 \<and> (f = 0 \<or> f = 1) \<and>
     s \<le> MAX_BIGBLOCKSIZE"

lemma header_args_bits:
  assumes "header_args l s gen f"
  shows "bit l i \<Longrightarrow> i < 7" "bit (gen + 1) i \<Longrightarrow> i < 2" "bit f i \<Longrightarrow> i < 1"
    "s \<le> MAX_BLOCKSIZE \<Longrightarrow> bit s i \<Longrightarrow> i < 20" "bit s i \<Longrightarrow> i < 24"
proof -
  have g: "unat (gen + 1) < 2 ^ 2"
    using assms by (auto simp: header_args_def unat_word_ariths)
  show "bit l i \<Longrightarrow> i < 7" "bit f i \<Longrightarrow> i < 1" "bit (gen + 1) i \<Longrightarrow> i < 2"
    "s \<le> MAX_BLOCKSIZE \<Longrightarrow> bit s i \<Longrightarrow> i < 20" "bit s i \<Longrightarrow> i < 24"
    using assms bit_bound [of l 7 i] bit_bound [of f 1 i] bit_bound [OF g, of i]
      bit_bound [of s 20 i] bit_bound [of s 24 i]
    by (auto simp: header_args_def word_le_nat_alt)
qed

lemma bit_pack:
  fixes A B C D E :: u_int
  assumes "\<And>i. bit A i \<Longrightarrow> i < 2" "\<And>i. bit B i \<Longrightarrow> i < 1" "\<And>i. bit C i \<Longrightarrow> i < 20"
    "\<And>i. bit D i \<Longrightarrow> i < 7" "\<And>i. bit E i \<Longrightarrow> i < 1" and "i < 32"
  shows "bit (push_bit 0 A OR push_bit 2 B OR push_bit 3 C OR (push_bit 23 D OR push_bit 30 E)) i =
     (if i < 2 then bit A i else if i = 2 then bit B 0 else if i < 23 then bit C (i - 3)
      else if i < 30 then bit D (i - 23) else i = 30 \<and> bit E 0)"
proof -
  have "bit (push_bit 0 A OR push_bit 2 B OR push_bit 3 C OR (push_bit 23 D OR push_bit 30 E)) i =
     (bit A i \<or> (2 \<le> i \<and> bit B (i - 2)) \<or> (3 \<le> i \<and> bit C (i - 3)) \<or>
      (23 \<le> i \<and> bit D (i - 23)) \<or> (30 \<le> i \<and> bit E (i - 30)))"
    using \<open>i < 32\<close> by (simp add: bit_simps)
  moreover have "bit A i \<Longrightarrow> i < 2" "bit B (i - 2) \<Longrightarrow> i < 3" "bit C (i - 3) \<Longrightarrow> i < 23"
    "bit D (i - 23) \<Longrightarrow> i < 30" "bit E (i - 30) \<Longrightarrow> i < 31"
    using assms(1) [of i] assms(2) [of "i - 2"] assms(3) [of "i - 3"] assms(4) [of "i - 23"]
      assms(5) [of "i - 30"] by auto
  ultimately show ?thesis by (cases "i = 2"; cases "i = 30") auto
qed

lemma EncodeHeader_pack:
  "EncodeHeader l s gen f =
     push_bit 0 (gen + 1) OR push_bit 2 (if s > MAX_BLOCKSIZE then 1 else 0) OR
     push_bit 3 (if s > MAX_BLOCKSIZE then drop_bit 4 s else s) OR
     (push_bit 23 l OR push_bit 30 f)"
  by (simp add: EncodeHeader_def unat_numeral)

lemma size_bits:
  assumes "header_args l s gen f" and "bit (if s > MAX_BLOCKSIZE then drop_bit 4 s else s) j"
  shows "j < 20"
  using assms(2) header_args_bits(4) [OF assms(1), of j] header_args_bits(5) [OF assms(1), of "j + 4"]
  by (auto simp: bit_drop_bit_eq not_less add.commute split: if_splits)

lemma bit_EncodeHeader:
  assumes "header_args l s gen f" and "i < 32"
  shows "bit (EncodeHeader l s gen f) i =
     (if i < 2 then bit (gen + 1) i
      else if i = 2 then s > MAX_BLOCKSIZE
      else if i < 23 then bit (if s > MAX_BLOCKSIZE then drop_bit 4 s else s) (i - 3)
      else if i < 30 then bit l (i - 23)
      else i = 30 \<and> bit f 0)"
proof -
  note size_bits [OF assms(1)]
  moreover have "bit (if s > MAX_BLOCKSIZE then 1 else 0 :: u_int) j \<Longrightarrow> j < 1" for j
    by (auto simp: bit_simps split: if_splits)
  ultimately show ?thesis
    unfolding EncodeHeader_pack
    by (subst bit_pack) (use assms header_args_bits [OF assms(1)] in \<open>auto simp: bit_simps\<close>)
qed

lemma DecodeLabel_EncodeHeader:
  assumes "header_args l s gen f"
  shows "DecodeLabel (EncodeHeader l s gen f) = l"
  using header_args_bits(1) [OF assms]
  by (intro bit_word_eqI) (fastforce simp: bit_DecodeLabel bit_EncodeHeader [OF assms])

lemma DecodeMutableFlag_EncodeHeader:
  assumes "header_args l s gen f"
  shows "DecodeMutableFlag (EncodeHeader l s gen f) = f"
  using header_args_bits(3) [OF assms]
  by (intro bit_word_eqI) (fastforce simp: bit_DecodeMutableFlag bit_EncodeHeader [OF assms])

lemma DecodeGen_EncodeHeader:
  assumes "header_args l s gen f"
  shows "DecodeGen (EncodeHeader l s gen f) = gen + 1"
  using header_args_bits(2) [OF assms]
  by (intro bit_word_eqI) (auto simp: bit_DecodeGen bit_EncodeHeader [OF assms])

lemma DecodeGeneration_EncodeHeader:
  assumes "header_args l s gen f"
  shows "DecodeGeneration (EncodeHeader l s gen f) = gen"
  by (simp add: DecodeGeneration_eq DecodeGen_EncodeHeader [OF assms])

lemma IsChildish_EncodeHeader:
  assumes "header_args l s gen f"
  shows "IsChildish (EncodeHeader l s gen f) = 0"
proof (intro bit_word_eqI)
  fix i :: nat assume "i < LENGTH(32)"
  then show "bit (IsChildish (EncodeHeader l s gen f)) i = bit (0 :: u_int) i"
    using bit_EncodeHeader [OF assms, of 31] by (auto simp: bit_IsChildish)
qed

text \<open>The size field, before it is scaled by the size-shift flag.\<close>

lemma bit_size_field: "bit (drop_bit SIZE_SHIFT (h AND SIZE_MASK)) j \<longleftrightarrow> j < 20 \<and> bit h (3 + j)"
  by (simp only: config_masks config_shifts bit_field)

lemma size_shift_flag: "h AND SIZESHIFT_MASK = (if bit h 2 then 4 else 0)"
proof (intro bit_word_eqI)
  fix i :: nat assume "i < LENGTH(32)"
  have "bit (4 :: u_int) i \<longleftrightarrow> i = 2"
    using bit_exp_iff [of 2 i, where 'a = u_int] by (auto simp: power2_eq_square)
  then show "bit (h AND SIZESHIFT_MASK) i = bit (if bit h 2 then 4 else 0 :: u_int) i"
    by (auto simp: bit_simps)
qed

lemma DecodeSize_eq:
  "DecodeSize h = push_bit (if bit h 2 then 4 else 0) (drop_bit SIZE_SHIFT (h AND SIZE_MASK))"
  by (simp add: DecodeSize_def size_shift_flag del: SIZESHIFT_MASK_val)

lemma push_drop_push: "push_bit n (drop_bit n (push_bit n w)) = push_bit n (w :: u_int)"
  by (intro bit_word_eqI) (auto simp: bit_simps)

lemma DecodeSize_EncodeHeader:
  assumes "header_args l s gen f" and "TranslateSize s = s"
  shows "DecodeSize (EncodeHeader l s gen f) = s"
proof -
  let ?h = "EncodeHeader l s gen f"
  let ?C = "if s > MAX_BLOCKSIZE then drop_bit 4 s else s"
  have "drop_bit SIZE_SHIFT (?h AND SIZE_MASK) = ?C"
  proof (intro bit_word_eqI)
    fix j :: nat assume "j < LENGTH(32)"
    show "bit (drop_bit SIZE_SHIFT (?h AND SIZE_MASK)) j = bit ?C j"
      using size_bits [OF assms(1), of j] bit_EncodeHeader [OF assms(1), of "3 + j"]
      unfolding bit_size_field by (cases "j < 20") auto
  qed
  moreover have "push_bit 4 (drop_bit 4 s) = s" if "s > MAX_BLOCKSIZE"
  proof -
    have "push_bit 4 (drop_bit 4 (s + BIGSIZE_MIN - 1)) = s"
      using assms(2) that by (simp add: TranslateSize_def not_le [symmetric] del: not_le)
    then show ?thesis by (metis push_drop_push)
  qed
  ultimately show ?thesis
    by (simp add: DecodeSize_eq bit_EncodeHeader [OF assms(1)])
qed

text \<open>Every field that \<open>EncodeHeader\<close> packs is read back.\<close>

lemmas header_roundtrip =
  DecodeLabel_EncodeHeader DecodeMutableFlag_EncodeHeader DecodeGeneration_EncodeHeader
  IsChildish_EncodeHeader DecodeSize_EncodeHeader

section \<open>Updating one field\<close>

lemma bit_EncodeMutableFlag:
  assumes "f \<le> 1"
  shows "bit (EncodeMutableFlag h f) i \<longleftrightarrow> (if i = 30 then bit f 0 else bit h i)"
proof -
  have f: "bit f j \<Longrightarrow> j < 1" for j
    using bit_bound [of f 1 j] assms by (simp add: word_le_nat_alt)
  show ?thesis
    using f [of "i - 30"] bit_imp_le_length [of h i]
    unfolding EncodeMutableFlag_def config_masks config_shifts bit_write_field
    by (cases "i = 30") auto
qed

lemma bit_EncodeSize:
  assumes "s \<le> MAX_BLOCKSIZE"
  shows "bit (EncodeSize h s) i \<longleftrightarrow> (if 3 \<le> i \<and> i < 23 then bit s (i - 3) else bit h i)"
proof -
  have s: "bit s j \<Longrightarrow> j < 20" for j
    using bit_bound [of s 20 j] assms by (simp add: word_le_nat_alt)
  show ?thesis
    using s [of "i - 3"] bit_imp_le_length [of h i]
    unfolding EncodeSize_def config_masks config_shifts bit_write_field
    by auto
qed

lemma bit_EncodeLabel:
  assumes "unat l \<le> MAX_STORE_LABEL"
  shows "bit (EncodeLabel h l) i \<longleftrightarrow> (if 23 \<le> i \<and> i < 30 then bit l (i - 23) else bit h i)"
proof -
  have l: "bit l j \<Longrightarrow> j < 7" for j
    using bit_bound [of l 7 j] assms by simp
  show ?thesis
    using l [of "i - 23"] bit_imp_le_length [of h i]
    unfolding EncodeLabel_def config_masks config_shifts bit_write_field
    by auto
qed

lemma bit_childish_flags:
  "bit (SetChildishFlag h) i \<longleftrightarrow> bit h i \<or> i = 31"
  "bit (ClearChildishFlag h) i \<longleftrightarrow> bit h i \<and> i \<noteq> 31"
proof -
  have c: "bit (push_bit CHILDISH_SHIFT (1 :: u_int)) i \<longleftrightarrow> i = 31"
    by (simp only: config_shifts bit_push_bit_iff) (auto simp: bit_simps)
  show "bit (SetChildishFlag h) i \<longleftrightarrow> bit h i \<or> i = 31"
    by (simp only: SetChildishFlag_def bit_or_iff c)
  show "bit (ClearChildishFlag h) i \<longleftrightarrow> bit h i \<and> i \<noteq> 31"
    using bit_imp_le_length [of h i]
    by (auto simp only: ClearChildishFlag_def bit_and_iff bit_not_iff c)
      (simp add: possible_bit_word)
qed

lemma same_bits_same_label:
  "(\<And>i. 23 \<le> i \<Longrightarrow> i < 30 \<Longrightarrow> bit h i = bit h' i) \<Longrightarrow> DecodeLabel h = DecodeLabel h'"
  by (intro bit_word_eqI) (auto simp: bit_DecodeLabel)

lemma same_bits_same_size:
  assumes "\<And>i. 2 \<le> i \<Longrightarrow> i < 23 \<Longrightarrow> bit h i = bit h' i"
  shows "DecodeSize h = DecodeSize h'"
proof -
  have "drop_bit SIZE_SHIFT (h AND SIZE_MASK) = drop_bit SIZE_SHIFT (h' AND SIZE_MASK)"
    by (intro bit_word_eqI) (use assms in \<open>auto simp only: bit_size_field\<close>)
  then show ?thesis using assms [of 2] by (simp add: DecodeSize_eq)
qed

lemma same_bits_same_generation:
  assumes "\<And>i. i < 2 \<Longrightarrow> bit h i = bit h' i"
  shows "DecodeGeneration h = DecodeGeneration h'"
proof -
  have "DecodeGen h = DecodeGen h'"
    by (intro bit_word_eqI) (use assms in \<open>auto simp: bit_DecodeGen\<close>)
  then show ?thesis by (simp add: DecodeGeneration_eq)
qed

lemma DecodeLabel_EncodeLabel:
  assumes "unat l \<le> MAX_STORE_LABEL"
  shows "DecodeLabel (EncodeLabel h l) = l"
proof (intro bit_word_eqI)
  fix i :: nat
  have "bit l i \<Longrightarrow> i < 7" using bit_bound [of l 7 i] assms by simp
  then show "bit (DecodeLabel (EncodeLabel h l)) i = bit l i"
    by (auto simp: bit_DecodeLabel bit_EncodeLabel [OF assms])
qed

lemma EncodeLabel_frame:
  assumes "unat l \<le> MAX_STORE_LABEL"
  shows "DecodeSize (EncodeLabel h l) = DecodeSize h"
    "DecodeGeneration (EncodeLabel h l) = DecodeGeneration h"
  by (rule same_bits_same_size same_bits_same_generation; simp add: bit_EncodeLabel [OF assms])+

lemma EncodeMutableFlag_frame:
  assumes "f \<le> 1"
  shows "DecodeSize (EncodeMutableFlag h f) = DecodeSize h"
    "DecodeLabel (EncodeMutableFlag h f) = DecodeLabel h"
    "DecodeGeneration (EncodeMutableFlag h f) = DecodeGeneration h"
  by (rule same_bits_same_size same_bits_same_label same_bits_same_generation;
      simp add: bit_EncodeMutableFlag [OF assms])+

lemma childish_frame:
  "DecodeSize (SetChildishFlag h) = DecodeSize h" "DecodeLabel (SetChildishFlag h) = DecodeLabel h"
  "DecodeGeneration (SetChildishFlag h) = DecodeGeneration h"
  "DecodeSize (ClearChildishFlag h) = DecodeSize h"
  "DecodeLabel (ClearChildishFlag h) = DecodeLabel h"
  "DecodeGeneration (ClearChildishFlag h) = DecodeGeneration h"
  by (rule same_bits_same_size same_bits_same_label same_bits_same_generation;
      simp add: bit_childish_flags)+

lemma size_field_EncodeSize:
  assumes "s \<le> MAX_BLOCKSIZE"
  shows "drop_bit SIZE_SHIFT (EncodeSize h s AND SIZE_MASK) = s"
proof (intro bit_word_eqI)
  fix i :: nat
  have "bit s i \<Longrightarrow> i < 20" using bit_bound [of s 20 i] assms by (simp add: word_le_nat_alt)
  then show "bit (drop_bit SIZE_SHIFT (EncodeSize h s AND SIZE_MASK)) i = bit s i"
    unfolding bit_size_field bit_EncodeSize [OF assms] by auto
qed

lemma DecodeSize_EncodeSize:
  assumes "s \<le> MAX_BLOCKSIZE"
  shows "DecodeSize (EncodeSize h s) = (if bit h 2 then 16 * s else s)"
  unfolding DecodeSize_eq size_field_EncodeSize [OF assms] bit_EncodeSize [OF assms]
  by (simp add: push_bit_eq_mult)

lemma EncodeSize_frame:
  assumes "s \<le> MAX_BLOCKSIZE"
  shows "DecodeLabel (EncodeSize h s) = DecodeLabel h"
    "DecodeGeneration (EncodeSize h s) = DecodeGeneration h"
  by (rule same_bits_same_label same_bits_same_generation; simp add: bit_EncodeSize [OF assms])+

section \<open>Sizes of big blocks\<close>

lemma unat_TranslateSize:
  assumes "s \<le> MAX_BIGBLOCKSIZE"
  shows "unat (TranslateSize s) =
     (if unat s \<le> 1048575 then unat s else (unat s + 15) div 16 * 16)"
proof (cases "s \<le> MAX_BLOCKSIZE")
  case False
  have s: "unat s \<le> 16777200" using assms by (simp add: word_le_nat_alt)
  have "unat (s + BIGSIZE_MIN - 1) = unat s + 15"
    using s by (simp add: unat_word_ariths)
  then have d: "unat (drop_bit 4 (s + BIGSIZE_MIN - 1)) = (unat s + 15) div 16"
    by (simp only: unat_drop_bit_eq) (simp add: drop_bit_eq_div)
  have "unat (push_bit 4 (drop_bit 4 (s + BIGSIZE_MIN - 1))) = (unat s + 15) div 16 * 16"
    using s unfolding push_bit_eq_mult unat_word_ariths d by simp
  with False show ?thesis by (simp add: TranslateSize_def word_le_nat_alt)
qed (simp add: TranslateSize_def word_le_nat_alt)

lemma TranslateSize_bounds:
  assumes "s \<le> MAX_BIGBLOCKSIZE"
  shows "s \<le> TranslateSize s" "TranslateSize s \<le> MAX_BIGBLOCKSIZE"
    "unat (TranslateSize s) < unat s + 16"
  using assms by (auto simp: word_le_nat_alt unat_TranslateSize split: if_splits)

lemma TranslateSize_idem:
  assumes "s \<le> MAX_BIGBLOCKSIZE"
  shows "TranslateSize (TranslateSize s) = TranslateSize s"
  using assms TranslateSize_bounds(2) [OF assms]
  by (auto simp: word_unat_eq_iff unat_TranslateSize)

section \<open>Properties\<close>



text \<open>
  Shrinking a block in place with \<open>EncodeSize\<close> (as \<open>Queue::Blank\<close> and \<open>Stack::Blank\<close> do) keeps the
  label and the generation, and the block then has the requested size if its header has no
  size-shift flag. If it has one (the block was allocated with more than \<open>MAX_BLOCKSIZE\<close> words) the
  flag stays set and the block claims sixteen times the requested size.
\<close>

theorem EncodeSize_resizes:
  assumes "s \<le> MAX_BLOCKSIZE"
  shows "DecodeLabel (EncodeSize h s) = DecodeLabel h \<and>
    DecodeGeneration (EncodeSize h s) = DecodeGeneration h \<and>
    DecodeSize (EncodeSize h s) = (if h AND SIZESHIFT_MASK = 0 then s else 16 * s)"
proof -
  have "(h AND SIZESHIFT_MASK = 0) = (\<not> bit h 2)" by (simp only: size_shift_flag) simp
  then show ?thesis
    using EncodeSize_frame [OF assms, of h] DecodeSize_EncodeSize [OF assms, of h] by simp
qed

theorem EncodeSize_resizes_witness:
  "DecodeSize (EncodeSize (EncodeHeader 0 1048576 0 1) 100) = 1600"
proof -
  have ok: "header_args 0 1048576 0 (1 :: u_int)" by (simp add: header_args_def)
  have "bit (EncodeHeader 0 1048576 0 (1 :: u_int)) 2"
    by (simp add: bit_EncodeHeader [OF ok])
  then show ?thesis
    using EncodeSize_resizes [of 100 "EncodeHeader 0 1048576 0 1"]
    by (simp add: size_shift_flag del: SIZESHIFT_MASK_val)
qed

end
