(* ===== verification/Pointer_Op.thy ===== *)
theory Pointer_Op
  imports Header_Op
begin

text \<open>
  Tagged machine words (\<^verbatim>\<open>seam/store/PointerOp.hh\<close>, \<^verbatim>\<open>seam/store/Types.hh\<close>): bit 0 marks an integer,
  the two lowest bits \<^verbatim>\<open>10\<close> a transient and \<^verbatim>\<open>00\<close> a block. The first part is the bit-level code on
  32 bit words; the second gives the decoded view \<open>store_word\<close> that the rest of the development uses,
  with the proof that the two agree.
\<close>

section \<open>Bit-level operations\<close>

definition EMPTYTAG :: u_int where "EMPTYTAG = 0"
definition BLKTAG :: u_int where "BLKTAG = 0"
definition INTTAG :: u_int where "INTTAG = 1"
definition TRTAG :: u_int where "TRTAG = 2"
definition INTMASK :: u_int where "INTMASK = 1"
definition TAGMASK :: u_int where "TAGMASK = 3"
definition INVALID_POINTER :: u_int where "INVALID_POINTER = 0"

definition STORE_WORD_WIDTH :: nat where "STORE_WORD_WIDTH = 32"
definition INT_PRECISION :: nat where "INT_PRECISION = 31"
definition INVALID_INT :: int where
  "INVALID_INT = sint (push_bit (STORE_WORD_WIDTH - 1) 1 :: u_int)"
definition MIN_VALID_INT :: int where
  "MIN_VALID_INT = sint (- push_bit (INT_PRECISION - 1) 1 :: u_int)"
definition MAX_VALID_INT :: int where
  "MAX_VALID_INT = sint (push_bit (INT_PRECISION - 1) 1 - 1 :: u_int)"

definition EncodeTag :: "u_int \<Rightarrow> u_int \<Rightarrow> u_int" where
  "EncodeTag p tag = p OR tag"

definition DecodeTag :: "u_int \<Rightarrow> u_int" where
  "DecodeTag p = p AND TAGMASK"

definition RemoveTag :: "u_int \<Rightarrow> u_int" where
  "RemoveTag p = p AND NOT TAGMASK"

definition EncodeBlock :: "u_int \<Rightarrow> u_int" where
  "EncodeBlock p = p OR BLKTAG"

definition DirectDecodeBlock :: "u_int \<Rightarrow> u_int" where
  "DirectDecodeBlock p = p - BLKTAG"

definition DecodeBlock :: "u_int \<Rightarrow> u_int" where
  "DecodeBlock p = (if p AND TAGMASK = BLKTAG then DirectDecodeBlock p else INVALID_POINTER)"

definition EncodeTransient :: "u_int \<Rightarrow> u_int" where
  "EncodeTransient p = p OR TRTAG"

definition DirectDecodeTransient :: "u_int \<Rightarrow> u_int" where
  "DirectDecodeTransient p = p - TRTAG"

definition DecodeTransient :: "u_int \<Rightarrow> u_int" where
  "DecodeTransient p = (if p AND TAGMASK = TRTAG then DirectDecodeTransient p else INVALID_POINTER)"

definition IsInt :: "u_int \<Rightarrow> bool" where
  "IsInt v \<longleftrightarrow> v AND INTMASK \<noteq> 0"

definition IsTransient :: "u_int \<Rightarrow> bool" where
  "IsTransient v \<longleftrightarrow> v AND TAGMASK = TRTAG"

definition EncodeInt :: "int \<Rightarrow> u_int" where
  "EncodeInt v = push_bit 1 (word_of_int v) OR INTTAG"

definition DirectDecodeInt :: "u_int \<Rightarrow> int" where
  "DirectDecodeInt v =
     sint (if v AND push_bit (STORE_WORD_WIDTH - 1) 1 \<noteq> 0
           then push_bit (STORE_WORD_WIDTH - 1) 1 OR drop_bit 1 v
           else drop_bit 1 v)"

definition DecodeInt :: "u_int \<Rightarrow> int" where
  "DecodeInt v = (if v AND INTMASK = INTTAG then DirectDecodeInt v else INVALID_INT)"

definition EncodeUnmanagedPointer :: "u_int \<Rightarrow> u_int" where
  "EncodeUnmanagedPointer v = v OR INTTAG"

definition DirectDecodeUnmanagedPointer :: "u_int \<Rightarrow> u_int" where
  "DirectDecodeUnmanagedPointer v = v XOR INTTAG"

lemma valid_int_range [simp]:
  "MIN_VALID_INT = - 1073741824" "MAX_VALID_INT = 1073741823" "INVALID_INT = - 2147483648"
  by (simp_all add: MIN_VALID_INT_def MAX_VALID_INT_def INVALID_INT_def INT_PRECISION_def
      STORE_WORD_WIDTH_def push_bit_eq_mult)

lemmas tag_defs = EMPTYTAG_def BLKTAG_def INTTAG_def TRTAG_def INTMASK_def TAGMASK_def
  INVALID_POINTER_def

text \<open>The shape of words by their two lowest bits.\<close>

lemma bit_tags:
  "bit TAGMASK i \<longleftrightarrow> i < 2" "bit TRTAG i \<longleftrightarrow> i = 1" "bit INTTAG i \<longleftrightarrow> i = 0" "bit INTMASK i \<longleftrightarrow> i = 0"
  using bit_mask_iff [of 2 i, where 'a = u_int] bit_exp_iff [of 1 i, where 'a = u_int]
    bit_1_iff [of i, where 'a = u_int]
  by (auto simp: tag_defs mask_eq_exp_minus_1)

lemma and_INTMASK: "v AND INTMASK = (if bit v 0 then INTTAG else 0)"
  by (intro bit_word_eqI) (auto simp: bit_and_iff bit_tags intro: gr0I)

lemma and_TAGMASK:
  "v AND TAGMASK = (if bit v 0 then INTTAG else 0) OR (if bit v 1 then TRTAG else 0)"
proof (intro bit_word_eqI)
  fix i :: nat
  have "i < 2 \<longleftrightarrow> i = 0 \<or> i = 1" by auto
  then show "bit (v AND TAGMASK) i =
      bit ((if bit v 0 then INTTAG else 0) OR (if bit v 1 then TRTAG else 0)) i"
    by (auto simp: bit_and_iff bit_or_iff bit_tags)
qed

lemma EncodeInt_eq: "EncodeInt v = 2 * word_of_int v + 1"
proof -
  have e: "even (2 * (word_of_int v :: u_int))" by simp
  have "push_bit 1 (word_of_int v) OR 1 = 2 * (word_of_int v :: u_int) OR 1"
    by (simp add: push_bit_eq_mult mult.commute)
  also have "\<dots> = 2 * word_of_int v + 1"
    using e by (simp add: or_one_eq)
  finally show ?thesis by (simp add: EncodeInt_def INTTAG_def)
qed

lemma sign_extended_shift:
  fixes v P :: u_int
  assumes "\<And>i. i < 32 \<Longrightarrow> bit P i \<longleftrightarrow> i = 31"
  shows "(if bit v 31 then P OR drop_bit 1 v else drop_bit 1 v) = signed_drop_bit 1 v"
proof (intro bit_word_eqI)
  fix i :: nat assume i: "i < LENGTH(32)"
  have "\<not> bit v 32" using bit_imp_le_length [of v 32] by auto
  then show "bit (if bit v 31 then P OR drop_bit 1 v else drop_bit 1 v) i = bit (signed_drop_bit 1 v) i"
    using i assms [of i]
    by (cases "i = 31") (auto simp: bit_or_iff bit_drop_bit_eq bit_signed_drop_bit_iff)
qed

lemma DirectDecodeInt_eq: "DirectDecodeInt v = sint v div 2"
proof -
  define P :: u_int where "P = push_bit (STORE_WORD_WIDTH - 1) 1"
  have P: "bit P i \<longleftrightarrow> i = 31" if "i < 32" for i
    using that unfolding P_def STORE_WORD_WIDTH_def bit_push_bit_iff by (auto simp: bit_1_iff)
  have "v AND P \<noteq> 0 \<longleftrightarrow> bit v 31"
    unfolding P_def STORE_WORD_WIDTH_def by (simp add: bit_iff_and_push_bit_not_eq_0)
  then have "DirectDecodeInt v = sint (signed_drop_bit 1 v)"
    unfolding DirectDecodeInt_def P_def [symmetric] using sign_extended_shift [of P v] P by simp
  then show ?thesis by (simp add: sint_signed_drop_bit_eq drop_bit_eq_div)
qed

lemma DirectDecodeInt_EncodeInt:
  assumes "MIN_VALID_INT \<le> v" and "v \<le> MAX_VALID_INT"
  shows "DirectDecodeInt (EncodeInt v) = v"
proof -
  have e: "EncodeInt v = word_of_int (2 * v + 1)" by (simp add: EncodeInt_eq)
  have "sint (EncodeInt v) = signed_take_bit 31 (2 * v + 1)"
    unfolding e sint_sbintrunc' by simp
  also have "\<dots> = 2 * v + 1"
    using assms by (intro signed_take_bit_int_eq_self) auto
  finally show ?thesis by (simp add: DirectDecodeInt_eq)
qed

lemma low_bits_tagged:
  "bit (EncodeInt v) 0" "bit (EncodeUnmanagedPointer p) 0"
  "\<not> bit p 0 \<Longrightarrow> \<not> bit p 1 \<Longrightarrow> \<not> bit (EncodeTransient p) 0 \<and> bit (EncodeTransient p) 1"
  "EncodeBlock p = p"
  by (auto simp: EncodeInt_def EncodeUnmanagedPointer_def EncodeTransient_def EncodeBlock_def
      BLKTAG_def bit_or_iff bit_tags)

lemma IsInt_bit: "IsInt v \<longleftrightarrow> bit v 0"
  using bit_tags(3) [of 0] by (auto simp: IsInt_def and_INTMASK)

lemma tag_cases:
  "v AND TAGMASK = BLKTAG \<longleftrightarrow> \<not> bit v 0 \<and> \<not> bit v 1"
  "v AND TAGMASK = TRTAG \<longleftrightarrow> \<not> bit v 0 \<and> bit v 1"
  unfolding and_TAGMASK by (auto simp: tag_defs)

section \<open>The decoded view\<close>

text \<open>
  A word of the store is an integer, a block pointer or a transient pointer. Unmanaged pointers are
  encoded with the integer tag and are integers for the store. \<open>word_bits\<close> is the machine word of a
  decoded word and \<open>decode_word\<close> its inverse, composed of the accessors above in the order in which
  \<^verbatim>\<open>Store::WordToInt\<close>, \<^verbatim>\<open>Store::WordToBlock\<close> and \<^verbatim>\<open>Store::WordToTransient\<close> test.
\<close>

datatype store_word = IntW int | BlkW addr | TrW addr

definition word_bits :: "store_word \<Rightarrow> u_int" where
  "word_bits w = (case w of IntW i \<Rightarrow> EncodeInt i
                          | BlkW a \<Rightarrow> EncodeBlock (word_of_nat a)
                          | TrW a \<Rightarrow> EncodeTransient (word_of_nat a))"

definition decode_word :: "u_int \<Rightarrow> store_word" where
  "decode_word v = (if IsInt v then IntW (DecodeInt v)
                    else if IsTransient v then TrW (unat (DecodeTransient v))
                    else BlkW (unat (DecodeBlock v)))"

text \<open>Integers the code may encode; addresses of blocks are word aligned and fit a word.\<close>

definition valid_word :: "store_word \<Rightarrow> bool" where
  "valid_word w = (case w of IntW i \<Rightarrow> MIN_VALID_INT \<le> i \<and> i \<le> MAX_VALID_INT
                           | BlkW a \<Rightarrow> a mod 4 = 0 \<and> a < 2 ^ 32
                           | TrW a \<Rightarrow> a mod 4 = 0 \<and> a < 2 ^ 32)"

lemma aligned_bits:
  assumes "a mod 4 = 0" and "a < 2 ^ 32"
  shows "\<not> bit (word_of_nat a :: u_int) 0" "\<not> bit (word_of_nat a :: u_int) 1"
proof -
  have "even a" "even (a div 2)" using assms(1) by presburger+
  then show "\<not> bit (word_of_nat a :: u_int) 0" "\<not> bit (word_of_nat a :: u_int) 1"
    by (simp_all only: bit_of_nat_iff) (simp_all add: bit_iff_odd)
qed

lemma EncodeTransient_plus:
  assumes "\<not> bit p 0" and "\<not> bit p 1"
  shows "EncodeTransient p = p + TRTAG"
  unfolding EncodeTransient_def
proof (rule disjunctive_add [symmetric])
  fix n show "\<not> bit p n \<or> \<not> bit TRTAG n" using assms by (auto simp: bit_tags)
qed

lemma decode_word_bits:
  assumes "valid_word w"
  shows "decode_word (word_bits w) = w"
proof (cases w)
  case (IntW i)
  have "EncodeInt i AND INTMASK = INTTAG" by (simp add: and_INTMASK low_bits_tagged)
  with IntW assms show ?thesis
    by (simp add: word_bits_def decode_word_def valid_word_def IsInt_bit low_bits_tagged DecodeInt_def
        DirectDecodeInt_EncodeInt)
next
  case (BlkW a)
  with assms have a: "a mod 4 = 0" "a < 2 ^ 32" by (simp_all add: valid_word_def)
  then have "word_of_nat a AND TAGMASK = BLKTAG" using aligned_bits [OF a] by (simp add: tag_cases)
  with BlkW a aligned_bits [OF a] show ?thesis
    by (simp add: word_bits_def decode_word_def low_bits_tagged IsInt_bit IsTransient_def tag_cases
        DecodeBlock_def DirectDecodeBlock_def unat_of_nat)
      (simp add: BLKTAG_def unat_of_nat)
next
  case (TrW a)
  with assms have a: "a mod 4 = 0" "a < 2 ^ 32" by (simp_all add: valid_word_def)
  with TrW aligned_bits [OF a] low_bits_tagged(3) [of "word_of_nat a"] show ?thesis
    by (simp add: word_bits_def decode_word_def IsInt_bit IsTransient_def tag_cases
        DecodeTransient_def DirectDecodeTransient_def EncodeTransient_plus unat_of_nat)
qed

section \<open>Properties\<close>

text \<open>
  C3. The tagged representation is faithful: a valid integer, an aligned block address or an aligned
  transient address survives encoding and decoding, so distinct decoded words have distinct machine
  words and the pointer comparisons of the code are comparisons of decoded words.
\<close>

theorem tagged_words_faithful:
  assumes "valid_word v" and "valid_word w"
  shows "decode_word (word_bits v) = v \<and> (word_bits v = word_bits w \<longleftrightarrow> v = w)"
  using decode_word_bits [OF assms(1)] decode_word_bits [OF assms(2)] by metis

theorem tagged_words_faithful_witness:
  "decode_word (word_bits (IntW (- 1073741824))) = IntW (- 1073741824) \<and>
   word_bits (TrW 8) \<noteq> word_bits (BlkW 8)"
  using tagged_words_faithful [of "IntW (- 1073741824)" "BlkW 8"]
    tagged_words_faithful [of "TrW 8" "BlkW 8"] by (simp add: valid_word_def)

end
