(* ===== verification/Heap_Alloc.thy ===== *)
theory Heap_Alloc
  imports Pointer_Op
begin

text \<open>
  Memory chunks, generations and the bump allocator (\<^verbatim>\<open>seam/store/Heap.cc\<close>, \<^verbatim>\<open>seam/store/Heap.hh\<close>,
  \<^verbatim>\<open>seam/store/StatusWord.hh\<close> and the allocation part of \<^verbatim>\<open>seam/store/Store.hh\<close>).

  Addresses are byte addresses of type \<open>nat\<close>; \<open>mem\<close> gives the machine word stored at an address. A
  heap is its chain of chunks, the current chunk first. \<^verbatim>\<open>malloc\<close> is a parameter of the operations
  that request memory: it is given the live regions (address and length) and the requested length, and
  \<open>malloc_ok\<close> states the C library's contract, that the result overlaps none of them.
  The retry loop of \<^verbatim>\<open>Store::Alloc\<close> is fuelled; \<open>Alloc_returns\<close> shows that two rounds are enough
  except for the sizes for which \<open>Alloc_diverges\<close> shows that no number of rounds is.
\<close>

section \<open>Status word (StatusWord.hh)\<close>

definition SetStatus :: "u_int \<Rightarrow> u_int \<Rightarrow> u_int" where "SetStatus status m = status OR m"
definition ClearStatus :: "u_int \<Rightarrow> u_int \<Rightarrow> u_int" where "ClearStatus status m = status AND NOT m"
definition GetStatus :: "u_int \<Rightarrow> u_int \<Rightarrow> u_int" where "GetStatus status m = status AND m"
definition GCStatus :: u_int where "GCStatus = push_bit 0 1"
definition SignalLimitStatus :: u_int where "SignalLimitStatus = push_bit 3 1"

section \<open>Chunks and heaps (Heap.hh, Heap.cc)\<close>

definition STORE_MEM_ALIGN :: nat where "STORE_MEM_ALIGN = 4"
definition SIZEOF_BLOCK :: "nat \<Rightarrow> nat" where "SIZEOF_BLOCK s = (s + 1) * 4"

record heapchunk =
  hc_block :: addr
  hc_size :: nat
  hc_base :: addr
  hc_top :: addr
  hc_max :: addr

record heap =
  hp_chain :: "heapchunk list"
  hp_size :: nat
  hp_limit :: nat

record store =
  roots :: "heap list"
  mem :: "addr \<Rightarrow> u_int"
  total :: nat
  st_status :: u_int
  signalLimit :: nat

type_synonym mallocator = "(addr \<times> nat) list \<Rightarrow> nat \<Rightarrow> addr"

definition chunk_region :: "heapchunk \<Rightarrow> addr \<times> nat" where
  "chunk_region c = (hc_block c, hc_size c + STORE_MEM_ALIGN)"

definition chunks_of :: "heap list \<Rightarrow> heapchunk list" where
  "chunks_of hs = concat (map hp_chain hs)"

definition regions :: "store \<Rightarrow> (addr \<times> nat) list" where
  "regions st = map chunk_region (chunks_of (roots st))"

text \<open>\<^verbatim>\<open>HeapChunk::HeapChunk\<close>: the aligned base, an end that leaves room for one header, and \<^verbatim>\<open>memset\<close>.\<close>

definition HeapChunk_new :: "mallocator \<Rightarrow> (addr \<times> nat) list \<Rightarrow> nat \<Rightarrow> heapchunk" where
  "HeapChunk_new malloc live n =
     (let block = malloc live (n + STORE_MEM_ALIGN);
          base = block + (STORE_MEM_ALIGN - block mod STORE_MEM_ALIGN)
      in \<lparr>hc_block = block, hc_size = n, hc_base = base, hc_top = base, hc_max = base + n - 4\<rparr>)"

definition memset_ones :: "(addr \<Rightarrow> u_int) \<Rightarrow> addr \<Rightarrow> nat \<Rightarrow> (addr \<Rightarrow> u_int)" where
  "memset_ones m base n = (\<lambda>a. if base \<le> a \<and> a < base + n then 0x01010101 else m a)"

definition Heap_new :: "mallocator \<Rightarrow> nat \<Rightarrow> nat \<Rightarrow> store \<Rightarrow> store" where
  "Heap_new malloc chunkSize limit st =
     (let c = HeapChunk_new malloc (regions st) chunkSize
      in st\<lparr>roots := \<lparr>hp_chain = [c], hp_size = chunkSize, hp_limit = limit\<rparr> # roots st,
            mem := memset_ones (mem st) (hc_base c) chunkSize,
            total := total st + chunkSize\<rparr>)"

definition Heap_chunkSize :: "nat \<Rightarrow> nat" where
  "Heap_chunkSize s =
     (let itemSize = SIZEOF_BLOCK s + 4
      in if STORE_MEMCHUNK_SIZE < itemSize
         then (itemSize div STORE_MEMCHUNK_SIZE +
               (if itemSize mod STORE_MEMCHUNK_SIZE \<noteq> 0 then 1 else 0)) * STORE_MEMCHUNK_SIZE
         else STORE_MEMCHUNK_SIZE)"

definition Heap_Enlarge :: "mallocator \<Rightarrow> nat \<Rightarrow> store \<Rightarrow> store" where
  "Heap_Enlarge malloc g st =
     (let h = roots st ! g;
          s = unat (DecodeSize (mem st (hc_top (hd (hp_chain h)))));
          chunkSize = Heap_chunkSize s;
          c = HeapChunk_new malloc (regions st) chunkSize
      in st\<lparr>roots := (roots st)[g := h\<lparr>hp_chain := c # hp_chain h, hp_size := hp_size h + chunkSize\<rparr>],
            mem := memset_ones (mem st) (hc_base c) chunkSize,
            total := total st + chunkSize,
            st_status := (if hp_size h \<ge> hp_limit h then SetStatus (st_status st) 1 else st_status st)\<rparr>)"

definition Heap_Shrink :: "mallocator \<Rightarrow> nat \<Rightarrow> store \<Rightarrow> store" where
  "Heap_Shrink malloc g st =
     (let h = roots st ! g;
          freed = st\<lparr>roots := (roots st)[g := h\<lparr>hp_chain := []\<rparr>]\<rparr>;
          c = HeapChunk_new malloc (regions freed) STORE_MEMCHUNK_SIZE
      in st\<lparr>roots := (roots st)[g := h\<lparr>hp_chain := [c], hp_size := STORE_MEMCHUNK_SIZE\<rparr>],
            mem := memset_ones (mem st) (hc_base c) STORE_MEMCHUNK_SIZE,
            total := total st - (hp_size h - STORE_MEMCHUNK_SIZE)\<rparr>)"

fun GetExactSize :: "heapchunk list \<Rightarrow> nat" where
  "GetExactSize [] = 0"
| "GetExactSize (c # cs) = (hc_top c - hc_base c) + GetExactSize cs"

section \<open>Allocation (Store.hh, Store.cc)\<close>

definition Store_Enlarge :: "mallocator \<Rightarrow> nat \<Rightarrow> store \<Rightarrow> store" where
  "Store_Enlarge malloc g st =
     (let st' = Heap_Enlarge malloc g st
      in if signalLimit st' \<noteq> 0 \<and> total st' > signalLimit st'
         then st'\<lparr>st_status := SetStatus (st_status st') SignalLimitStatus\<rparr> else st')"

definition alloc_header :: "nat \<Rightarrow> u_int \<Rightarrow> nat \<Rightarrow> u_int" where
  "alloc_header g l s =
     EncodeHeader l (word_of_nat s)
       (word_of_nat (if g = STORE_GENERATION_NUM - 1 then STORE_GENERATION_NUM - 2 else g)) 0"

definition SetTop :: "nat \<Rightarrow> addr \<Rightarrow> store \<Rightarrow> store" where
  "SetTop g newtop st =
     (let h = roots st ! g
      in st\<lparr>roots := (roots st)[g := h\<lparr>hp_chain := (hd (hp_chain h))\<lparr>hc_top := newtop\<rparr> # tl (hp_chain h)\<rparr>]\<rparr>)"

fun Alloc :: "nat \<Rightarrow> mallocator \<Rightarrow> nat \<Rightarrow> u_int \<Rightarrow> nat \<Rightarrow> store \<Rightarrow> (addr \<times> store) option" where
  "Alloc 0 malloc g l s st = None"
| "Alloc (Suc fuel) malloc g l s st =
     (let current = hd (hp_chain (roots st ! g));
          p = hc_top current;
          st1 = st\<lparr>mem := (mem st)(p := alloc_header g l s)\<rparr>;
          newtop = p + SIZEOF_BLOCK s
      in if newtop \<ge> hc_max current
         then Alloc fuel malloc g l s (Store_Enlarge malloc g st1)
         else Some (p, SetTop g newtop st1))"

definition InternalAlloc :: "nat \<Rightarrow> mallocator \<Rightarrow> nat \<Rightarrow> u_int \<Rightarrow> nat \<Rightarrow> store \<Rightarrow> (addr \<times> store) option" where
  "InternalAlloc fuel malloc g l s st = do {
     Assert (g \<le> STORE_GENERATION_NUM - 1);
     Assert (s \<le> unat MAX_BIGBLOCKSIZE);
     Alloc fuel malloc g l (unat (TranslateSize (word_of_nat s))) st }"

definition AllocBlock :: "nat \<Rightarrow> mallocator \<Rightarrow> u_int \<Rightarrow> nat \<Rightarrow> nat \<Rightarrow> store \<Rightarrow> (addr \<times> store) option" where
  "AllocBlock fuel malloc l s gen st = do {
     Assert (unat l \<le> MAX_STORE_LABEL);
     InternalAlloc fuel malloc gen l s st }"

definition set_mutable :: "addr \<Rightarrow> store \<Rightarrow> store" where
  "set_mutable p st = st\<lparr>mem := (mem st)(p := EncodeMutableFlag (mem st p) 1)\<rparr>"

definition AllocMutableBlock :: "nat \<Rightarrow> mallocator \<Rightarrow> u_int \<Rightarrow> nat \<Rightarrow> nat \<Rightarrow> store \<Rightarrow> (addr \<times> store) option" where
  "AllocMutableBlock fuel malloc l s gen st = do {
     (p, st1) \<leftarrow> AllocBlock fuel malloc l s gen st;
     Some (p, set_mutable p st1) }"

text \<open>A chunk of \<open>s\<close> bytes: its byte count as a tagged integer, then the bytes.\<close>

definition AllocChunk :: "nat \<Rightarrow> mallocator \<Rightarrow> nat \<Rightarrow> nat \<Rightarrow> store \<Rightarrow> (addr \<times> store) option" where
  "AllocChunk fuel malloc s gen st = do {
     let ws = 1 + ((s + 4) - 1) div 4;
     (p, st1) \<leftarrow> InternalAlloc fuel malloc gen (word_of_nat CHUNK_LABEL) ws st;
     Some (p, st1\<lparr>mem := (mem st1)(p + 4 := EncodeInt (int s))\<rparr>) }"

definition AllocTransient :: "nat \<Rightarrow> mallocator \<Rightarrow> u_int \<Rightarrow> store \<Rightarrow> (addr \<times> store) option" where
  "AllocTransient fuel malloc l st = do {
     Assert (MIN_TRANSIENT_LABEL \<le> unat l \<and> unat l \<le> MAX_TRANSIENT_LABEL);
     (p, st1) \<leftarrow> InternalAlloc fuel malloc 0 l 1 st;
     Some (p, set_mutable p st1) }"

definition AllocDynamicBlock :: "nat \<Rightarrow> mallocator \<Rightarrow> nat \<Rightarrow> nat \<Rightarrow> nat \<Rightarrow> store \<Rightarrow> (addr \<times> store) option" where
  "AllocDynamicBlock fuel malloc s scan g st = do {
     (p, st1) \<leftarrow> InternalAlloc fuel malloc g (word_of_nat DYNAMIC_LABEL) (s + 1) st;
     Some (p, set_mutable p (st1\<lparr>mem := (mem st1)(p + 4 := EncodeInt (int scan))\<rparr>)) }"

definition AllocMutableChunk :: "nat \<Rightarrow> mallocator \<Rightarrow> nat \<Rightarrow> nat \<Rightarrow> store \<Rightarrow> (addr \<times> store) option" where
  "AllocMutableChunk fuel malloc s gen st = do {
     (p, st1) \<leftarrow> AllocChunk fuel malloc s gen st;
     Some (p, set_mutable p st1) }"

text \<open>The heaps that \<^verbatim>\<open>Store::InitStore\<close> builds, the last generation first.\<close>

fun InitStore_heaps :: "mallocator \<Rightarrow> nat list \<Rightarrow> nat \<Rightarrow> store \<Rightarrow> store" where
  "InitStore_heaps malloc mem_max 0 st = st"
| "InitStore_heaps malloc mem_max (Suc i) st =
     InitStore_heaps malloc mem_max i (Heap_new malloc STORE_MEMCHUNK_SIZE (mem_max ! i) st)"

definition InitStore :: "mallocator \<Rightarrow> nat list \<Rightarrow> (addr \<Rightarrow> u_int) \<Rightarrow> store" where
  "InitStore malloc mem_max m =
     InitStore_heaps malloc mem_max STORE_GENERATION_NUM
       \<lparr>roots = [], mem = m, total = 0, st_status = 0, signalLimit = 0\<rparr>"

section \<open>Invariant\<close>

text \<open>
  A chunk is well formed when its payload lies inside the region \<^verbatim>\<open>malloc\<close> returned and its top leaves
  room for a header; a store when every heap has a current chunk, all chunks are well formed and no two
  regions overlap.
\<close>

definition disjoint_regions :: "addr \<times> nat \<Rightarrow> addr \<times> nat \<Rightarrow> bool" where
  "disjoint_regions r1 r2 \<longleftrightarrow> fst r1 + snd r1 \<le> fst r2 \<or> fst r2 + snd r2 \<le> fst r1"

definition malloc_ok :: "mallocator \<Rightarrow> bool" where
  "malloc_ok malloc \<longleftrightarrow> (\<forall>live n. \<forall>r \<in> set live. disjoint_regions r (malloc live n, n))"

definition chunk_inv :: "heapchunk \<Rightarrow> bool" where
  "chunk_inv c \<longleftrightarrow> 8 \<le> hc_size c \<and> hc_block c \<le> hc_base c \<and>
     hc_base c \<le> hc_block c + STORE_MEM_ALIGN \<and> hc_base c \<le> hc_top c \<and> hc_top c < hc_max c \<and>
     hc_max c = hc_base c + hc_size c - 4 \<and> hc_base c mod 4 = 0 \<and> hc_top c mod 4 = 0"

definition store_inv :: "store \<Rightarrow> bool" where
  "store_inv st \<longleftrightarrow> length (roots st) = STORE_GENERATION_NUM \<and>
     (\<forall>h \<in> set (roots st). hp_chain h \<noteq> []) \<and> (\<forall>c \<in> set (chunks_of (roots st)). chunk_inv c) \<and>
     sorted_wrt disjoint_regions (regions st)"

text \<open>The bytes that belong to a block that has been handed out.\<close>

definition allocated :: "store \<Rightarrow> addr set" where
  "allocated st = (\<Union>c \<in> set (chunks_of (roots st)). {hc_base c ..< hc_top c})"

section \<open>Chains of chunks\<close>

lemma chunks_of_update:
  "g < length hs \<Longrightarrow>
   chunks_of (hs[g := h]) = chunks_of (take g hs) @ hp_chain h @ chunks_of (drop (Suc g) hs)"
  by (simp add: chunks_of_def upd_conv_take_nth_drop)

lemma chunks_of_split:
  "g < length hs \<Longrightarrow>
   chunks_of hs = chunks_of (take g hs) @ hp_chain (hs ! g) @ chunks_of (drop (Suc g) hs)"
  using chunks_of_update [of g hs "hs ! g"] by simp

lemma disjoint_regions_sym: "disjoint_regions r s \<longleftrightarrow> disjoint_regions s r"
  by (auto simp: disjoint_regions_def)

lemma sorted_wrt_insert:
  assumes "\<And>x y. P x y \<longleftrightarrow> P y x"
  shows "sorted_wrt P (xs @ y # ys) \<longleftrightarrow> sorted_wrt P (xs @ ys) \<and> (\<forall>z \<in> set (xs @ ys). P z y)"
  using assms by (auto simp: sorted_wrt_append)

lemma sorted_wrt_distinct:
  assumes "\<And>x y. P x y \<longleftrightarrow> P y x" and "sorted_wrt P (map f xs)" and "x \<in> set xs" "y \<in> set xs" "x \<noteq> y"
  shows "P (f x) (f y)"
proof -
  obtain i j where "i < length xs" "j < length xs" "x = xs ! i" "y = xs ! j"
    using assms(3,4) by (auto simp: in_set_conv_nth)
  with assms show ?thesis
    by (cases "i < j") (auto simp: sorted_wrt_iff_nth_less linorder_neq_iff not_less le_less)
qed

lemma store_inv_heap:
  assumes "store_inv st" and "g < STORE_GENERATION_NUM"
  obtains c cs where "hp_chain (roots st ! g) = c # cs" "c \<in> set (chunks_of (roots st))" "chunk_inv c"
proof -
  have g: "g < length (roots st)" using assms by (simp add: store_inv_def)
  then have "hp_chain (roots st ! g) \<noteq> []" using assms(1) by (simp add: store_inv_def)
  then obtain c cs where c: "hp_chain (roots st ! g) = c # cs" by (cases "hp_chain (roots st ! g)") auto
  then have "c \<in> set (chunks_of (roots st))" by (simp add: chunks_of_split [OF g])
  with c assms(1) show ?thesis by (intro that) (auto simp: store_inv_def)
qed

text \<open>The free part of a chunk, with the room for a header at its end, is not allocated.\<close>

lemma free_not_allocated:
  assumes "store_inv st" and "c \<in> set (chunks_of (roots st))" and "hc_top c \<le> a" "a < hc_max c + 4"
  shows "a \<notin> allocated st"
proof
  assume "a \<in> allocated st"
  then obtain d where d: "d \<in> set (chunks_of (roots st))" "hc_base d \<le> a" "a < hc_top d"
    by (auto simp: allocated_def)
  then have "d \<noteq> c" using assms by auto
  then have "disjoint_regions (chunk_region c) (chunk_region d)"
    using assms d sorted_wrt_distinct [of disjoint_regions chunk_region "chunks_of (roots st)" c d]
    by (auto simp: store_inv_def regions_def disjoint_regions_sym)
  moreover have "chunk_inv c" "chunk_inv d" using assms d by (auto simp: store_inv_def)
  ultimately show False using assms d
    by (auto simp: disjoint_regions_def chunk_region_def chunk_inv_def STORE_MEM_ALIGN_def)
qed

section \<open>A new chunk\<close>

lemma HeapChunk_new_inv:
  assumes "8 < n" and "n mod 4 = 0"
  shows "chunk_inv (HeapChunk_new malloc live n)"
proof -
  have "(b + (4 - b mod 4)) mod 4 = 0" for b :: nat
    by presburger
  then show ?thesis
    using assms by (auto simp: HeapChunk_new_def Let_def chunk_inv_def STORE_MEM_ALIGN_def)
qed

lemma HeapChunk_new_sel:
  "hc_top (HeapChunk_new malloc live n) = hc_base (HeapChunk_new malloc live n)"
  "hc_size (HeapChunk_new malloc live n) = n"
  "chunk_region (HeapChunk_new malloc live n) = (malloc live (n + STORE_MEM_ALIGN), n + STORE_MEM_ALIGN)"
  by (simp_all add: HeapChunk_new_def Let_def chunk_region_def)

lemma round_up_bounds:
  fixes x m :: nat
  assumes "0 < m"
  shows "x \<le> (if m < x then (x div m + (if x mod m \<noteq> 0 then 1 else 0)) * m else m)" (is ?le)
    and "x mod m \<noteq> 0 \<Longrightarrow>
      x < (if m < x then (x div m + (if x mod m \<noteq> 0 then 1 else 0)) * m else m)" (is "_ \<Longrightarrow> ?lt")
proof -
  have x: "x = x div m * m + x mod m" by simp
  have r: "x mod m < m" using assms by simp
  have lt: "x < (x div m + 1) * m" unfolding add_mult_distrib using x r by linarith
  then show ?le using x by auto
  show "x mod m \<noteq> 0 \<Longrightarrow> ?lt"
  proof -
    assume nz: "x mod m \<noteq> 0"
    then have "x \<noteq> m" by auto
    then show ?lt using nz lt by auto
  qed
qed

lemma Heap_chunkSize_bounds:
  "STORE_MEMCHUNK_SIZE dvd Heap_chunkSize s" "STORE_MEMCHUNK_SIZE \<le> Heap_chunkSize s"
  "4 * (s + 2) \<le> Heap_chunkSize s"
  "(s + 2) mod 32768 \<noteq> 0 \<Longrightarrow> 4 * (s + 2) < Heap_chunkSize s"
  "(s + 2) mod 32768 = 0 \<Longrightarrow> 4 * (s + 2) = Heap_chunkSize s"
proof -
  show "STORE_MEMCHUNK_SIZE dvd Heap_chunkSize s" by (auto simp: Heap_chunkSize_def Let_def)
  have pos: "0 < STORE_MEMCHUNK_SIZE" by (simp add: STORE_MEMCHUNK_SIZE_def)
  have r: "(4 * (s + 2)) mod STORE_MEMCHUNK_SIZE = 4 * ((s + 2) mod 32768)"
    using mult_mod_right [of 4 "s + 2" 32768] by (simp add: STORE_MEMCHUNK_SIZE_def)
  have e: "SIZEOF_BLOCK s + 4 = 4 * (s + 2)" by (simp add: SIZEOF_BLOCK_def)
  show "4 * (s + 2) \<le> Heap_chunkSize s"
    unfolding Heap_chunkSize_def Let_def e by (rule round_up_bounds(1) [OF pos])
  show "(s + 2) mod 32768 \<noteq> 0 \<Longrightarrow> 4 * (s + 2) < Heap_chunkSize s"
    unfolding Heap_chunkSize_def Let_def e by (rule round_up_bounds(2) [OF pos]) (simp only: r)
  show "STORE_MEMCHUNK_SIZE \<le> Heap_chunkSize s"
    using \<open>4 * (s + 2) \<le> Heap_chunkSize s\<close> e
    by (cases "STORE_MEMCHUNK_SIZE < 4 * (s + 2)") (auto simp: Heap_chunkSize_def Let_def)
  assume z: "(s + 2) mod 32768 = 0"
  then have "STORE_MEMCHUNK_SIZE dvd 4 * (s + 2)" using r by (metis mod_0_imp_dvd mult_0_right)
  moreover from this have "STORE_MEMCHUNK_SIZE \<le> 4 * (s + 2)" by (rule dvd_imp_le) simp
  ultimately show "4 * (s + 2) = Heap_chunkSize s"
    unfolding Heap_chunkSize_def Let_def e by (cases "STORE_MEMCHUNK_SIZE = 4 * (s + 2)") auto
qed


section \<open>Enlarging a generation\<close>

lemma malloc_fresh:
  assumes "malloc_ok malloc" and "a \<in> allocated st" and "store_inv st"
    and "c = HeapChunk_new malloc (regions st) n" and "chunk_inv c"
  shows "\<not> (hc_base c \<le> a \<and> a < hc_base c + n)"
proof -
  obtain d where d: "d \<in> set (chunks_of (roots st))" "hc_base d \<le> a" "a < hc_top d"
    using assms(2) by (auto simp: allocated_def)
  then have "disjoint_regions (chunk_region d) (chunk_region c)"
    using assms(1,4) by (auto simp: malloc_ok_def regions_def HeapChunk_new_sel)
  moreover have "chunk_inv d" using d assms(3) by (auto simp: store_inv_def)
  moreover have "hc_size c = n" using assms(4) by (simp add: HeapChunk_new_sel)
  ultimately show ?thesis using d assms(5)
    by (auto simp: disjoint_regions_def chunk_region_def chunk_inv_def STORE_MEM_ALIGN_def)
qed

lemma chunkSize_chunk_inv: "chunk_inv (HeapChunk_new malloc live (Heap_chunkSize s))"
proof (rule HeapChunk_new_inv)
  show "8 < Heap_chunkSize s"
    using Heap_chunkSize_bounds(2) [of s] by (simp add: STORE_MEMCHUNK_SIZE_def)
  have "4 dvd STORE_MEMCHUNK_SIZE" by (simp add: STORE_MEMCHUNK_SIZE_def)
  then show "Heap_chunkSize s mod 4 = 0"
    using Heap_chunkSize_bounds(1) [of s] by (meson dvd_trans mod_eq_0_iff_dvd)
qed

definition grown :: "mallocator \<Rightarrow> nat \<Rightarrow> store \<Rightarrow> heapchunk" where
  "grown malloc g st = HeapChunk_new malloc (regions st)
     (Heap_chunkSize (unat (DecodeSize (mem st (hc_top (hd (hp_chain (roots st ! g))))))))"

lemma Store_Enlarge_sel:
  "roots (Store_Enlarge malloc g st) = (roots st)[g := (roots st ! g)
     \<lparr>hp_chain := grown malloc g st # hp_chain (roots st ! g),
      hp_size := hp_size (roots st ! g) + hc_size (grown malloc g st)\<rparr>]"
  "mem (Store_Enlarge malloc g st) =
     memset_ones (mem st) (hc_base (grown malloc g st)) (hc_size (grown malloc g st))"
  by (auto simp: Store_Enlarge_def Heap_Enlarge_def Let_def grown_def HeapChunk_new_sel)

lemma grown_chunk_inv: "chunk_inv (grown malloc g st)"
  by (simp add: grown_def chunkSize_chunk_inv)

lemma Store_Enlarge_chunks:
  assumes "g < length (roots st)"
  shows "set (chunks_of (roots (Store_Enlarge malloc g st))) =
    insert (grown malloc g st) (set (chunks_of (roots st)))"
  using assms by (auto simp: Store_Enlarge_sel chunks_of_update chunks_of_split [OF assms])

lemma Store_Enlarge_keeps:
  assumes "store_inv st" and "malloc_ok malloc" and "g < STORE_GENERATION_NUM"
  shows "store_inv (Store_Enlarge malloc g st)"
    and "allocated (Store_Enlarge malloc g st) = allocated st"
    and "a \<in> allocated st \<Longrightarrow> mem (Store_Enlarge malloc g st) a = mem st a"
proof -
  let ?c = "grown malloc g st"
  have g: "g < length (roots st)" using assms by (simp add: store_inv_def)
  let ?pre = "map chunk_region (chunks_of (take g (roots st)))"
  let ?post = "map chunk_region (hp_chain (roots st ! g) @ chunks_of (drop (Suc g) (roots st)))"
  have "regions st = ?pre @ ?post" by (simp add: regions_def chunks_of_split [OF g])
  moreover have "regions (Store_Enlarge malloc g st) = ?pre @ chunk_region ?c # ?post"
    by (simp add: regions_def Store_Enlarge_sel chunks_of_update [OF g])
  moreover have "\<forall>r \<in> set (regions st). disjoint_regions r (chunk_region ?c)"
    using assms(2) by (simp add: malloc_ok_def grown_def HeapChunk_new_sel)
  ultimately have "sorted_wrt disjoint_regions (regions (Store_Enlarge malloc g st))"
    using assms(1) sorted_wrt_insert [of disjoint_regions ?pre "chunk_region ?c" ?post]
    by (simp add: store_inv_def disjoint_regions_sym)
  moreover have "hp_chain h \<noteq> []" if "h \<in> set (roots (Store_Enlarge malloc g st))" for h
    using that assms(1)
    by (auto simp: Store_Enlarge_sel store_inv_def dest!: set_update_subset_insert [THEN subsetD])
  moreover have "length (roots (Store_Enlarge malloc g st)) = length (roots st)"
    by (simp add: Store_Enlarge_sel)
  ultimately show "store_inv (Store_Enlarge malloc g st)"
    using assms(1) grown_chunk_inv by (simp add: store_inv_def Store_Enlarge_chunks [OF g])
  have "hc_top ?c = hc_base ?c" by (simp add: grown_def HeapChunk_new_sel)
  then show "allocated (Store_Enlarge malloc g st) = allocated st"
    by (simp add: allocated_def Store_Enlarge_chunks [OF g])
  show "a \<in> allocated st \<Longrightarrow> mem (Store_Enlarge malloc g st) a = mem st a"
    using malloc_fresh [OF assms(2) _ assms(1) _ grown_chunk_inv [of malloc g st], of a "hc_size ?c"]
    by (auto simp: Store_Enlarge_sel memset_ones_def grown_def HeapChunk_new_sel)
qed

section \<open>Allocating one block\<close>

text \<open>What an allocation of \<open>s\<close> words at \<open>p\<close> promises: fresh bytes, nothing else changed.\<close>

definition alloc_post :: "store \<Rightarrow> nat \<Rightarrow> u_int \<Rightarrow> nat \<Rightarrow> addr \<Rightarrow> store \<Rightarrow> bool" where
  "alloc_post st g l s p st' \<longleftrightarrow> store_inv st' \<and> p mod 4 = 0 \<and>
     allocated st' = allocated st \<union> {p ..< p + SIZEOF_BLOCK s} \<and>
     allocated st \<inter> {p ..< p + SIZEOF_BLOCK s} = {} \<and>
     (\<forall>a \<in> allocated st. mem st' a = mem st a) \<and> mem st' p = alloc_header g l s"

lemma alloc_post_trans:
  assumes "alloc_post st2 g l s p st'" and "allocated st2 = allocated st"
    and "\<And>a. a \<in> allocated st \<Longrightarrow> mem st2 a = mem st a"
  shows "alloc_post st g l s p st'"
  using assms by (auto simp: alloc_post_def)

lemma chunks_SetTop:
  assumes "g < length (roots st)" and "hp_chain (roots st ! g) = c # cs"
  shows "chunks_of (roots (SetTop g t st)) =
    chunks_of (take g (roots st)) @ c\<lparr>hc_top := t\<rparr> # cs @ chunks_of (drop (Suc g) (roots st))"
  by (simp add: SetTop_def Let_def chunks_of_update [OF assms(1)] assms(2))

lemma Alloc_fits:
  assumes inv: "store_inv st" and g: "g < STORE_GENERATION_NUM"
    and c: "hp_chain (roots st ! g) = c # cs" and fits: "hc_top c + SIZEOF_BLOCK s < hc_max c"
  shows "\<exists>st'. Alloc (Suc n) malloc g l s st = Some (hc_top c, st') \<and>
    alloc_post st g l s (hc_top c) st'"
proof -
  have lg: "g < length (roots st)" using inv g by (simp add: store_inv_def)
  let ?t = "hc_top c + SIZEOF_BLOCK s"
  define st' where
    "st' = SetTop g ?t (st\<lparr>mem := (mem st)(hc_top c := alloc_header g l s)\<rparr>)"
  let ?pre = "chunks_of (take g (roots st))" and ?post = "cs @ chunks_of (drop (Suc g) (roots st))"
  have old: "chunks_of (roots st) = ?pre @ c # ?post"
    by (simp add: chunks_of_split [OF lg] c)
  have new: "chunks_of (roots st') = ?pre @ c\<lparr>hc_top := ?t\<rparr> # ?post"
    using chunks_SetTop [of g "st\<lparr>mem := (mem st)(hc_top c := alloc_header g l s)\<rparr>" c cs ?t] lg c
    by (simp add: st'_def)
  have cin: "c \<in> set (chunks_of (roots st))" and ci: "chunk_inv c"
    using inv old by (auto simp: store_inv_def)
  have ci': "chunk_inv (c\<lparr>hc_top := ?t\<rparr>)"
    using ci fits by (simp add: chunk_inv_def SIZEOF_BLOCK_def) presburger
  have "hp_chain h \<noteq> []" if "h \<in> set (roots st')" for h
    using that inv c
    by (auto simp: st'_def SetTop_def Let_def store_inv_def dest!: set_update_subset_insert [THEN subsetD])
  moreover have "regions st' = regions st" by (simp add: regions_def old new chunk_region_def)
  moreover have "length (roots st') = length (roots st)" by (simp add: st'_def SetTop_def Let_def)
  ultimately have "store_inv st'" using inv ci' by (auto simp: store_inv_def old new)
  moreover have "{hc_base c ..< ?t} = {hc_base c ..< hc_top c} \<union> {hc_top c ..< ?t}"
    using ci by (intro ivl_disj_un_two(3) [symmetric]) (auto simp: chunk_inv_def)
  then have "allocated st' = allocated st \<union> {hc_top c ..< ?t}"
    by (auto simp: allocated_def old new)
  moreover have free: "a \<notin> allocated st" if "hc_top c \<le> a" "a < ?t" for a
    using free_not_allocated [OF inv cin, of a] that fits by auto
  moreover have "hc_top c \<notin> allocated st" by (rule free) (auto simp: SIZEOF_BLOCK_def)
  ultimately have "alloc_post st g l s (hc_top c) st'"
    using ci by (auto simp: alloc_post_def st'_def SetTop_def Let_def chunk_inv_def)
  moreover have "Alloc (Suc n) malloc g l s st = Some (hc_top c, st')"
    using fits c by (simp add: st'_def Let_def)
  ultimately show ?thesis by blast
qed

section \<open>Properties\<close>

text \<open>The header that \<^verbatim>\<open>Alloc\<close> writes, for the arguments its callers pass.\<close>

lemma alloc_header_decodes:
  assumes "unat l \<le> MAX_STORE_LABEL" and "g < STORE_GENERATION_NUM" and "n \<le> 16777200"
    and "s = unat (TranslateSize (word_of_nat n))"
  shows "DecodeLabel (alloc_header g l s) = l" "unat (DecodeSize (alloc_header g l s)) = s"
    "unat (DecodeGeneration (alloc_header g l s)) = min g STORE_GEN_OLDEST"
proof -
  let ?n = "word_of_nat n :: u_int" and ?g = "if g = STORE_GENERATION_NUM - 1 then STORE_GENERATION_NUM - 2 else g"
  have n: "unat ?n = n" using assms(3) by (simp add: unat_of_nat)
  then have big: "?n \<le> MAX_BIGBLOCKSIZE" using assms(3) by (simp add: word_le_nat_alt)
  have s: "word_of_nat s = TranslateSize ?n" by (simp add: assms(4))
  have gl: "unat (word_of_nat ?g :: u_int) = min g STORE_GEN_OLDEST" using assms(2) by (auto simp: unat_of_nat)
  have ok: "header_args l (TranslateSize ?n) (word_of_nat ?g) 0"
    using assms(1,2) TranslateSize_bounds [OF big] gl by (auto simp: header_args_def)
  show "DecodeLabel (alloc_header g l s) = l" "unat (DecodeSize (alloc_header g l s)) = s"
    "unat (DecodeGeneration (alloc_header g l s)) = min g STORE_GEN_OLDEST"
    unfolding alloc_header_def s using header_roundtrip [OF ok] TranslateSize_idem [OF big] gl assms(4)
    by simp_all
qed

lemma header_write_keeps:
  assumes "store_inv st" and "c \<in> set (chunks_of (roots st))" and "chunk_inv c"
  shows "store_inv (st\<lparr>mem := (mem st)(hc_top c := v)\<rparr>)"
    "allocated (st\<lparr>mem := m\<rparr>) = allocated st"
    "a \<in> allocated st \<Longrightarrow> ((mem st)(hc_top c := v)) a = mem st a"
  using assms free_not_allocated [OF assms(1,2), of "hc_top c"]
  by (auto simp: store_inv_def allocated_def regions_def chunk_inv_def)

lemma grown_fits:
  assumes "unat (DecodeSize (mem st (hc_top (hd (hp_chain (roots st ! g)))))) = s"
  shows "hc_top (grown malloc g st) + SIZEOF_BLOCK s < hc_max (grown malloc g st) \<longleftrightarrow>
    (s + 2) mod 32768 \<noteq> 0"
proof -
  have "hc_max (grown malloc g st) + 4 = hc_top (grown malloc g st) + Heap_chunkSize s"
    using Heap_chunkSize_bounds(3) [of s] by (simp add: grown_def assms HeapChunk_new_def Let_def)
  moreover have "SIZEOF_BLOCK s + 4 = 4 * (s + 2)" by (simp add: SIZEOF_BLOCK_def)
  ultimately have "hc_top (grown malloc g st) + SIZEOF_BLOCK s < hc_max (grown malloc g st) \<longleftrightarrow>
      4 * (s + 2) < Heap_chunkSize s" by linarith
  then show ?thesis using Heap_chunkSize_bounds(4,5) [of s] by (cases "(s + 2) mod 32768 = 0") simp_all
qed

lemma Alloc_two_rounds:
  assumes inv: "store_inv st" and ok: "malloc_ok malloc" and g: "g < STORE_GENERATION_NUM"
    and hdr: "unat (DecodeSize (alloc_header g l s)) = s" and s: "(s + 2) mod 32768 \<noteq> 0"
  shows "\<exists>p st'. Alloc (Suc (Suc n)) malloc g l s st = Some (p, st') \<and> alloc_post st g l s p st'"
proof -
  obtain c cs where c: "hp_chain (roots st ! g) = c # cs" "c \<in> set (chunks_of (roots st))" "chunk_inv c"
    using store_inv_heap [OF inv g] .
  show ?thesis
  proof (cases "hc_top c + SIZEOF_BLOCK s < hc_max c")
    case True
    then show ?thesis using Alloc_fits [OF inv g c(1)] by blast
  next
    case False
    define st1 where "st1 = st\<lparr>mem := (mem st)(hc_top c := alloc_header g l s)\<rparr>"
    note w = header_write_keeps [OF inv c(2,3)]
    have inv1: "store_inv st1" using w(1) by (simp add: st1_def)
    note e = Store_Enlarge_keeps [OF inv1 ok g]
    have "g < length (roots st1)" using inv1 g by (simp add: store_inv_def)
    then have c2: "hp_chain (roots (Store_Enlarge malloc g st1) ! g) =
        grown malloc g st1 # hp_chain (roots st1 ! g)"
      by (simp add: Store_Enlarge_sel)
    have "hc_top (grown malloc g st1) + SIZEOF_BLOCK s < hc_max (grown malloc g st1)"
      by (subst grown_fits) (simp_all add: st1_def c(1) hdr s del: One_nat_def add_2_eq_Suc')
    from Alloc_fits [OF e(1) g c2 this] obtain p st' where
      p: "Alloc (Suc n) malloc g l s (Store_Enlarge malloc g st1) = Some (p, st')"
        "alloc_post (Store_Enlarge malloc g st1) g l s p st'" by blast
    have "alloc_post st g l s p st'"
      by (rule alloc_post_trans [OF p(2)]) (use e w(2,3) in \<open>auto simp: st1_def\<close>)
    moreover have "Alloc (Suc (Suc n)) malloc g l s st = Alloc (Suc n) malloc g l s (Store_Enlarge malloc g st1)"
      using False c(1) by (simp add: st1_def Let_def)
    ultimately show ?thesis using p(1) by auto
  qed
qed

lemma Alloc_loops:
  assumes "g < length (roots st)" and "(s + 2) mod 32768 = 0"
    and "unat (DecodeSize (alloc_header g l s)) = s"
    and "\<not> hc_top (hd (hp_chain (roots st ! g))) + SIZEOF_BLOCK s < hc_max (hd (hp_chain (roots st ! g)))"
  shows "Alloc n malloc g l s st = None"
  using assms(1,4)
proof (induction n arbitrary: st)
  case (Suc n)
  let ?st1 = "st\<lparr>mem := (mem st)(hc_top (hd (hp_chain (roots st ! g))) := alloc_header g l s)\<rparr>"
  have "hd (hp_chain (roots (Store_Enlarge malloc g ?st1) ! g)) = grown malloc g ?st1"
    using Suc.prems(1) by (simp add: Store_Enlarge_sel)
  moreover have "\<not> hc_top (grown malloc g ?st1) + SIZEOF_BLOCK s < hc_max (grown malloc g ?st1)"
    by (subst grown_fits) (simp_all add: assms(2,3) del: One_nat_def add_2_eq_Suc')
  ultimately have "Alloc n malloc g l s (Store_Enlarge malloc g ?st1) = None"
    using Suc.prems(1) by (intro Suc.IH) (simp_all add: Store_Enlarge_sel(1))
  with Suc.prems(2) show ?case by (simp add: Let_def)
qed simp

text \<open>A first-fit \<^verbatim>\<open>malloc\<close>, behind the last live region, shows that the contract can hold.\<close>

definition bump_malloc :: mallocator where
  "bump_malloc live n = foldr (\<lambda>r m. max (fst r + snd r) m) live 8"

lemma bump_malloc_ok: "malloc_ok bump_malloc"
proof -
  have "r \<in> set live \<Longrightarrow> fst r + snd r \<le> foldr (\<lambda>r m. max (fst r + snd r) m) live (8 :: nat)" for r live
    by (induction live) auto
  then show ?thesis by (auto simp: malloc_ok_def disjoint_regions_def bump_malloc_def)
qed

lemma Heap_new_keeps:
  assumes "malloc_ok malloc" and "\<forall>h \<in> set (roots st). hp_chain h \<noteq> []"
    and "\<forall>c \<in> set (chunks_of (roots st)). chunk_inv c" and "sorted_wrt disjoint_regions (regions st)"
    and "st' = Heap_new malloc STORE_MEMCHUNK_SIZE lim st"
  shows "\<forall>h \<in> set (roots st'). hp_chain h \<noteq> []" "\<forall>c \<in> set (chunks_of (roots st')). chunk_inv c"
    "sorted_wrt disjoint_regions (regions st')" "length (roots st') = Suc (length (roots st))"
proof -
  have "chunk_inv (HeapChunk_new malloc (regions st) STORE_MEMCHUNK_SIZE)"
    by (rule HeapChunk_new_inv) (simp_all add: STORE_MEMCHUNK_SIZE_def)
  moreover have "regions st' = chunk_region (HeapChunk_new malloc (regions st) STORE_MEMCHUNK_SIZE) # regions st"
    by (simp add: assms(5) Heap_new_def Let_def regions_def chunks_of_def)
  ultimately show "\<forall>h \<in> set (roots st'). hp_chain h \<noteq> []" "\<forall>c \<in> set (chunks_of (roots st')). chunk_inv c"
    "sorted_wrt disjoint_regions (regions st')" "length (roots st') = Suc (length (roots st))"
    using assms(1-4)
    by (auto simp: assms(5) Heap_new_def Let_def chunks_of_def HeapChunk_new_sel malloc_ok_def
        disjoint_regions_sym [of "(_, _)"])
qed

lemma InitStore_heaps_inv:
  assumes "malloc_ok malloc" and "\<forall>h \<in> set (roots st). hp_chain h \<noteq> []"
    and "\<forall>c \<in> set (chunks_of (roots st)). chunk_inv c" and "sorted_wrt disjoint_regions (regions st)"
    and "length (roots st) + n = STORE_GENERATION_NUM"
  shows "store_inv (InitStore_heaps malloc mem_max n st)"
  using assms(2-5)
proof (induction n arbitrary: st)
  case (Suc n)
  note k = Heap_new_keeps [OF assms(1) Suc.prems(1-3) refl, of "mem_max ! n"]
  show ?case unfolding InitStore_heaps.simps
    by (rule Suc.IH) (use k Suc.prems(4) in auto)
qed (simp add: store_inv_def)

lemma InitStore_inv: "malloc_ok malloc \<Longrightarrow> store_inv (InitStore malloc mem_max m)"
  unfolding InitStore_def by (rule InitStore_heaps_inv) (simp_all add: chunks_of_def regions_def)

lemma InitStore_heaps_empty:
  assumes "\<forall>c \<in> set (chunks_of (roots st)). hc_max c + 4 = hc_top c + STORE_MEMCHUNK_SIZE"
  shows "\<forall>c \<in> set (chunks_of (roots (InitStore_heaps malloc mem_max n st))).
    hc_max c + 4 = hc_top c + STORE_MEMCHUNK_SIZE"
  using assms
proof (induction n arbitrary: st)
  case (Suc n)
  show ?case unfolding InitStore_heaps.simps
    by (rule Suc.IH)
      (use Suc.prems in \<open>auto simp: Heap_new_def HeapChunk_new_def Let_def chunks_of_def STORE_MEMCHUNK_SIZE_def\<close>)
qed simp

lemma InitStore_empty:
  "c \<in> set (chunks_of (roots (InitStore malloc mem_max m))) \<Longrightarrow> hc_max c + 4 = hc_top c + STORE_MEMCHUNK_SIZE"
  unfolding InitStore_def
  using InitStore_heaps_empty [of "\<lparr>roots = [], mem = m, total = 0, st_status = 0, signalLimit = 0\<rparr>"]
  by (auto simp: chunks_of_def)



text \<open>
  C5. The sizes \<open>Alloc\<close> cannot serve. For a block of \<open>s\<close> words such that \<open>s + 2\<close> words fill whole memory
  chunks (32766 words is the first), every chunk that \<^verbatim>\<open>Heap::Enlarge\<close> adds is too small by the strict
  comparison of \<^verbatim>\<open>Store::Alloc\<close>: unless the block fits into the current chunk, the loop never returns,
  for any number of rounds.
\<close>

theorem InternalAlloc_diverges:
  assumes "store_inv st" and "g < STORE_GENERATION_NUM" and "unat l \<le> MAX_STORE_LABEL"
    and "n \<le> unat MAX_BIGBLOCKSIZE" and "(unat (TranslateSize (word_of_nat n)) + 2) mod 32768 = 0"
    and "hc_max (hd (hp_chain (roots st ! g))) \<le>
      hc_top (hd (hp_chain (roots st ! g))) + SIZEOF_BLOCK (unat (TranslateSize (word_of_nat n)))"
  shows "InternalAlloc fuel malloc g l n st = None"
proof -
  have n: "n \<le> 16777200" using assms(4) by simp
  note h = alloc_header_decodes [OF assms(3,2) n refl]
  show ?thesis
    using Alloc_loops [OF _ assms(5) h(2), of st fuel malloc] assms(1,2,4,6)
    by (simp add: InternalAlloc_def store_inv_def not_less)
qed

theorem InternalAlloc_diverges_witness:
  "\<forall>fuel. InternalAlloc fuel bump_malloc 3 5 32766 (InitStore bump_malloc [1, 1, 1, 1] (\<lambda>a. 0)) = None"
proof -
  let ?st = "InitStore bump_malloc [1, 1, 1, 1] (\<lambda>a. 0)"
  have t: "unat (TranslateSize (word_of_nat 32766)) = 32766"
    by (simp add: unat_TranslateSize word_le_nat_alt)
  have inv: "store_inv ?st" by (rule InitStore_inv [OF bump_malloc_ok])
  obtain c cs where c: "hp_chain (roots ?st ! 3) = c # cs" "c \<in> set (chunks_of (roots ?st))"
    by (rule store_inv_heap [OF inv, of 3]) (simp_all only: STORE_GENERATION_NUM_def, simp)
  have "STORE_MEMCHUNK_SIZE = SIZEOF_BLOCK 32766 + 4"
    by (simp add: SIZEOF_BLOCK_def STORE_MEMCHUNK_SIZE_def)
  with InitStore_empty [OF c(2)] have full: "hc_max c \<le> hc_top c + SIZEOF_BLOCK 32766" by linarith
  have "InternalAlloc fuel bump_malloc 3 5 32766 ?st = None" for fuel
    by (rule InternalAlloc_diverges [OF inv]; (simp only: t c(1) list.sel full)?) simp_all
  then show ?thesis by blast
qed

end
