(* ===== verification/Store_Array.thy ===== *)
theory Store_Array
  imports Heap_Alloc
begin

text \<open>
  Argument vectors of mutable blocks as the data structures of \<^verbatim>\<open>seam/adt\<close> see them: a list of words whose
  length is the size the header decodes to. \<open>alloc_array\<close> is \<^verbatim>\<open>Store::AllocMutableBlock(MIN_DATA_LABEL, n)\<close>:
  the words of a new block are whatever the memory holds, so they are a parameter \<open>junk\<close> of the operations
  that allocate; the size is the one the allocator rounds up to. \<open>resize_array\<close> is
  \<^verbatim>\<open>HeaderOp::EncodeSize\<close> on the block of an array; it is defined for arrays whose header carries no size
  shift (see \<open>Header_Op.EncodeSize_resizes\<close> for the others).
\<close>

type_synonym junk = "nat \<Rightarrow> store_word"

definition alloc_size :: "nat \<Rightarrow> nat" where
  "alloc_size n = unat (TranslateSize (word_of_nat n))"

definition alloc_array :: "junk \<Rightarrow> nat \<Rightarrow> store_word list option" where
  "alloc_array junk n = do {
     Assert (n \<le> unat MAX_BIGBLOCKSIZE);
     Some (map junk [0..<alloc_size n]) }"

definition resize_array :: "store_word list \<Rightarrow> nat \<Rightarrow> store_word list option" where
  "resize_array a n = do {
     Assert (n \<le> unat MAX_BLOCKSIZE);
     Assert (length a \<le> unat MAX_BLOCKSIZE \<and> n \<le> length a);
     Some (take n a) }"

lemma alloc_size_eq:
  assumes "n \<le> 16777200"
  shows "alloc_size n = (if n \<le> 1048575 then n else (n + 15) div 16 * 16)"
proof -
  have u: "unat (word_of_nat n :: u_int) = n" using assms by (simp add: unat_of_nat)
  then have "(word_of_nat n :: u_int) \<le> MAX_BIGBLOCKSIZE" using assms by (simp add: word_le_nat_alt)
  then show ?thesis unfolding alloc_size_def using u by (simp add: unat_TranslateSize)
qed

lemma alloc_size_bounds:
  assumes "n \<le> 16777200"
  shows "n \<le> alloc_size n" "alloc_size n \<le> 16777200" "alloc_size n < n + 16"
    "n \<le> 1048575 \<Longrightarrow> alloc_size n = n"
  using assms by (auto simp: alloc_size_eq)

lemma alloc_size_idem: "n \<le> 16777200 \<Longrightarrow> alloc_size (alloc_size n) = alloc_size n"
  using alloc_size_bounds(2) [of n] by (auto simp: alloc_size_eq)

lemma alloc_array_run [run_simps]:
  "n \<le> 16777200 \<Longrightarrow> alloc_array junk n = Some (map junk [0..<alloc_size n])"
  by (simp add: alloc_array_def)

lemma alloc_array_Some [run_elims]:
  "alloc_array junk n = Some a \<longleftrightarrow> n \<le> 16777200 \<and> a = map junk [0..<alloc_size n]"
  by (auto simp: alloc_array_def run_elims)

lemma resize_array_run [run_simps]:
  "length a \<le> 1048575 \<Longrightarrow> n \<le> length a \<Longrightarrow> resize_array a n = Some (take n a)"
  by (simp add: resize_array_def)

lemma resize_array_Some [run_elims]:
  "resize_array a n = Some b \<longleftrightarrow> length a \<le> 1048575 \<and> n \<le> length a \<and> b = take n a"
  by (auto simp: resize_array_def run_elims)

text \<open>A loop that writes the integer 0 from index \<open>i\<close> up to \<open>n\<close> (\<^verbatim>\<open>for (; i < n; i++) a->InitArg(i, 0)\<close>).\<close>

function blank_range :: "store_word list \<Rightarrow> nat \<Rightarrow> nat \<Rightarrow> store_word list option" where
  "blank_range a i n =
     (if i < n then do { b \<leftarrow> Block_SetArg a i (IntW 0); blank_range b (Suc i) n } else Some a)"
  by pat_completeness auto
termination by (relation "measure (\<lambda>(a, i, n). n - i)") auto

declare blank_range.simps [simp del]

lemma blank_range_run:
  assumes "n \<le> length a"
  shows "\<exists>b. blank_range a i n = Some b \<and> length b = length a \<and>
    (\<forall>k < length a. b ! k = (if i \<le> k \<and> k < n then IntW 0 else a ! k))"
  using assms
proof (induction a i n rule: blank_range.induct)
  case (1 a i n)
  show ?case
  proof (cases "i < n")
    case True
    with 1 have "\<exists>b. blank_range (a[i := IntW 0]) (Suc i) n = Some b \<and> length b = length a \<and>
        (\<forall>k < length a. b ! k = (if Suc i \<le> k \<and> k < n then IntW 0 else a[i := IntW 0] ! k))"
      by (simp add: Block_SetArg_run)
    moreover have "blank_range a i n = blank_range (a[i := IntW 0]) (Suc i) n"
      using True 1 by (subst blank_range.simps) (simp add: Block_SetArg_run)
    ultimately show ?thesis using True 1 by (auto simp: nth_list_update Suc_le_eq le_less)
  qed (use 1 in \<open>subst blank_range.simps, auto\<close>)
qed

end
