(* ===== verification/Queue_Adt.thy ===== *)
theory Queue_Adt
  imports Store_Array
begin

text \<open>
  The ring-buffer queue of \<^verbatim>\<open>seam/adt/Queue.hh\<close>. The state is the block's three arguments: read index,
  write index and array; one slot of the array always stays free, so that equal indices mean an empty
  queue. \<open>queue_elems\<close> abstracts a queue to the list of its elements; the locale \<open>fifo_queue\<close> states what
  the clients of a queue (the thread queue and the scheduler) rely on, and the interpretation \<open>ring\<close> proves
  it for the operations of the code.
\<close>

section \<open>Interface\<close>

locale fifo_queue =
  fixes elems :: "'q \<Rightarrow> 'a list" and inv :: "'q \<Rightarrow> bool" and room :: "'q \<Rightarrow> bool"
    and enq :: "'a \<Rightarrow> 'q \<Rightarrow> 'q option" and deq :: "'q \<Rightarrow> ('a \<times> 'q) option"
    and rem :: "'a \<Rightarrow> 'q \<Rightarrow> 'q option" and empty :: "'q \<Rightarrow> bool"
  assumes enq_law: "inv q \<Longrightarrow> room q \<Longrightarrow> \<exists>q'. enq x q = Some q' \<and> inv q' \<and> elems q' = elems q @ [x]"
    and deq_law: "inv q \<Longrightarrow> elems q = x # xs \<Longrightarrow> \<exists>q'. deq q = Some (x, q') \<and> inv q' \<and> elems q' = xs"
    and rem_law: "inv q \<Longrightarrow> \<exists>q'. rem x q = Some q' \<and> inv q' \<and> elems q' = remove1 x (elems q)"
    and empty_law: "inv q \<Longrightarrow> empty q \<longleftrightarrow> elems q = []"
begin

lemma deq_fails_only_empty:
  assumes "inv q" and "\<not> empty q"
  shows "\<exists>x q'. deq q = Some (x, q') \<and> inv q' \<and> elems q = x # elems q'"
proof -
  from assms obtain x xs where "elems q = x # xs" by (cases "elems q") (auto simp: empty_law)
  with deq_law [OF assms(1) this] show ?thesis by auto
qed

lemma rem_forgets:
  assumes "inv q" and "distinct (elems q)" and "rem x q = Some q'"
  shows "x \<notin> set (elems q') \<and> set (elems q') = set (elems q) - {x} \<and> distinct (elems q')"
  using rem_law [OF assms(1), of x] assms(2,3) by auto

lemma enq_keeps_distinct:
  assumes "inv q" and "room q" and "distinct (elems q)" and "x \<notin> set (elems q)" and "enq x q = Some q'"
  shows "distinct (elems q') \<and> set (elems q') = insert x (set (elems q))"
  using enq_law [OF assms(1,2), of x] assms(3-5) by auto

end

section \<open>The operations\<close>

record queue =
  readIndex :: nat
  writeIndex :: nat
  q_array :: "store_word list"

definition Queue_SetWriteIndex :: "nat \<Rightarrow> queue \<Rightarrow> queue option" where
  "Queue_SetWriteIndex i q = do { Assert (i < length (q_array q)); Some (q\<lparr>writeIndex := i\<rparr>) }"

definition Queue_SetReadIndex :: "nat \<Rightarrow> queue \<Rightarrow> queue option" where
  "Queue_SetReadIndex i q = do { Assert (i < length (q_array q)); Some (q\<lparr>readIndex := i\<rparr>) }"

definition Queue_Enlarge :: "junk \<Rightarrow> nat \<Rightarrow> queue \<Rightarrow> queue option" where
  "Queue_Enlarge junk threshold q = do {
     let oldArray = q_array q;
     let oldSize = length oldArray;
     newArray \<leftarrow> alloc_array junk (oldSize + threshold);
     let index = readIndex q;
     Assert (index = writeIndex q);
     a1 \<leftarrow> copy_words newArray 0 oldArray index (oldSize - index);
     a2 \<leftarrow> copy_words a1 (oldSize - index) oldArray 0 index;
     q1 \<leftarrow> Queue_SetReadIndex 0 (q\<lparr>q_array := a2\<rparr>);
     Queue_SetWriteIndex oldSize q1 }"

definition Queue_GetNumberOfElements :: "queue \<Rightarrow> nat" where
  "Queue_GetNumberOfElements q =
     (let s = length (q_array q); nentries = writeIndex q + s - readIndex q
      in if nentries \<ge> s then nentries - s else nentries)"

definition Queue_GetNthElement :: "nat \<Rightarrow> queue \<Rightarrow> store_word option" where
  "Queue_GetNthElement n q = do {
     Assert (n < Queue_GetNumberOfElements q);
     let s = length (q_array q);
     let index = readIndex q + n;
     Block_GetArg (q_array q) (if index \<ge> s then index - s else index) }"

definition Queue_RemoveNthElement :: "nat \<Rightarrow> queue \<Rightarrow> queue option" where
  "Queue_RemoveNthElement n q = do {
     Assert (n < Queue_GetNumberOfElements q);
     let base = q_array q;
     let s = length base;
     let index = readIndex q + n;
     if index \<ge> s then do {
       let index = index - s;
       a \<leftarrow> copy_words base index base (index + 1) (writeIndex q - index - 1);
       Queue_SetWriteIndex (writeIndex q - 1) (q\<lparr>q_array := a\<rparr>)
     } else do {
       a \<leftarrow> copy_words base (readIndex q + 1) base (readIndex q) (index - readIndex q);
       Queue_SetReadIndex (if readIndex q + 1 = s then 0 else readIndex q + 1) (q\<lparr>q_array := a\<rparr>)
     } }"

definition Queue_New :: "junk \<Rightarrow> nat \<Rightarrow> queue option" where
  "Queue_New junk initialSize = do {
     a \<leftarrow> alloc_array junk initialSize;
     Some \<lparr>readIndex = 0, writeIndex = 0, q_array = a\<rparr> }"

definition Queue_Enqueue :: "junk \<Rightarrow> store_word \<Rightarrow> queue \<Rightarrow> queue option" where
  "Queue_Enqueue junk w q = do {
     a \<leftarrow> Block_SetArg (q_array q) (writeIndex q) w;
     let s = length a;
     let wi = (if writeIndex q + 1 = s then 0 else writeIndex q + 1);
     q1 \<leftarrow> Queue_SetWriteIndex wi (q\<lparr>q_array := a\<rparr>);
     if wi = readIndex q1 then Queue_Enlarge junk (s div 2) q1 else Some q1 }"

definition Queue_IsEmpty :: "queue \<Rightarrow> bool" where
  "Queue_IsEmpty q \<longleftrightarrow> writeIndex q = readIndex q"

definition Queue_Dequeue :: "queue \<Rightarrow> (store_word \<times> queue) option" where
  "Queue_Dequeue q = do {
     Assert (\<not> Queue_IsEmpty q);
     Assert (readIndex q \<noteq> writeIndex q);
     result \<leftarrow> Block_GetArg (q_array q) (readIndex q);
     let r = readIndex q + 1;
     q1 \<leftarrow> Queue_SetReadIndex (if r = length (q_array q) then 0 else r) q;
     Some (result, q1) }"

text \<open>The scan loops of \<^verbatim>\<open>Remove\<close>: the first index from \<open>i\<close> below \<open>n\<close> that holds \<open>w\<close>.\<close>

function scan_array :: "store_word list \<Rightarrow> store_word \<Rightarrow> nat \<Rightarrow> nat \<Rightarrow> nat option option" where
  "scan_array a w i n =
     (if i < n then do { v \<leftarrow> Block_GetArg a i; if v = w then Some (Some i) else scan_array a w (Suc i) n }
      else Some None)"
  by pat_completeness auto
termination by (relation "measure (\<lambda>(a, w, i, n). n - i)") auto

declare scan_array.simps [simp del]

definition Queue_Remove_end :: "store_word \<Rightarrow> nat \<Rightarrow> queue \<Rightarrow> queue option" where
  "Queue_Remove_end w start q = do {
     found \<leftarrow> scan_array (q_array q) w start (writeIndex q);
     case found of None \<Rightarrow> Some q
     | Some i \<Rightarrow> do {
         a \<leftarrow> copy_words (q_array q) i (q_array q) (i + 1) (writeIndex q - i);
         Queue_SetWriteIndex (writeIndex q - 1) (q\<lparr>q_array := a\<rparr>) } }"

definition Queue_Remove :: "store_word \<Rightarrow> queue \<Rightarrow> queue option" where
  "Queue_Remove w q =
     (if readIndex q = writeIndex q then Some q
      else if readIndex q > writeIndex q then do {
        let s = length (q_array q);
        found \<leftarrow> scan_array (q_array q) w (readIndex q) s;
        case found of
          Some i \<Rightarrow> do {
            a \<leftarrow> copy_words (q_array q) (readIndex q + 1) (q_array q) (readIndex q) (i - readIndex q);
            Queue_SetReadIndex ((readIndex q + 1) mod s) (q\<lparr>q_array := a\<rparr>) }
        | None \<Rightarrow> Queue_Remove_end w 0 q
      } else Queue_Remove_end w (readIndex q) q)"

text \<open>\<^verbatim>\<open>Blank\<close>: shrink the array, moving the entries into the part that is kept, and zero the rest.\<close>

definition Queue_Blank_entries :: "queue \<Rightarrow> nat" where
  "Queue_Blank_entries q =
     (let oldSize = length (q_array q); n = writeIndex q + oldSize - readIndex q
      in if n > oldSize then n - oldSize else n)"

definition Queue_Blank_size :: "nat \<Rightarrow> nat \<Rightarrow> nat" where
  "Queue_Blank_size nentries oldSize = ((nentries * 3 div 2 + 1) + oldSize) div 2"

definition Queue_Blank_move :: "nat \<Rightarrow> nat \<Rightarrow> queue \<Rightarrow> queue option" where
  "Queue_Blank_move nentries newSize q =
     (let base = q_array q; oldSize = length base
      in if readIndex q < writeIndex q then
           if writeIndex q \<ge> newSize then do {
             a \<leftarrow> copy_words base 0 base (readIndex q) nentries;
             q1 \<leftarrow> Queue_SetReadIndex 0 (q\<lparr>q_array := a\<rparr>);
             Queue_SetWriteIndex nentries q1
           } else Some q
         else do {
           let len = oldSize - readIndex q;
           Assert (len \<le> newSize);
           a \<leftarrow> copy_words base (newSize - len) base (readIndex q) len;
           Queue_SetReadIndex (newSize - len) (q\<lparr>q_array := a\<rparr>) })"

definition Queue_Blank :: "queue \<Rightarrow> queue option" where
  "Queue_Blank q = do {
     let oldSize = length (q_array q);
     let nentries = Queue_Blank_entries q;
     let newSize = Queue_Blank_size nentries oldSize;
     Assert (newSize \<noteq> 0 \<and> newSize > nentries);
     let newSize = (if newSize < 2 then 2 else newSize);
     q1 \<leftarrow> (if newSize \<ge> oldSize then Some q
            else do {
              q1 \<leftarrow> Queue_Blank_move nentries newSize q;
              a \<leftarrow> resize_array (q_array q1) newSize;
              Some (q1\<lparr>q_array := a\<rparr>) });
     let newSize = (if newSize \<ge> oldSize then oldSize else newSize);
     a \<leftarrow> (if readIndex q1 < writeIndex q1 then do {
            a \<leftarrow> blank_range (q_array q1) 0 (readIndex q1);
            blank_range a (writeIndex q1) newSize
          } else blank_range (q_array q1) (writeIndex q1) (readIndex q1));
     Some (q1\<lparr>q_array := a\<rparr>) }"

definition Queue_Clone :: "junk \<Rightarrow> queue \<Rightarrow> queue option" where
  "Queue_Clone junk q = do {
     clone \<leftarrow> Queue_New junk (length (q_array q));
     c1 \<leftarrow> Queue_SetReadIndex (readIndex q) clone;
     c2 \<leftarrow> Queue_SetWriteIndex (writeIndex q) c1;
     a \<leftarrow> copy_words (q_array c2) 0 (q_array q) 0 (length (q_array q));
     Some (c2\<lparr>q_array := a\<rparr>) }"

section \<open>Abstraction and invariant\<close>

definition queue_inv :: "queue \<Rightarrow> bool" where
  "queue_inv q \<longleftrightarrow> 2 \<le> length (q_array q) \<and> length (q_array q) \<le> 16777200 \<and>
     alloc_size (length (q_array q)) = length (q_array q) \<and>
     readIndex q < length (q_array q) \<and> writeIndex q < length (q_array q)"

definition queue_elems :: "queue \<Rightarrow> store_word list" where
  "queue_elems q =
     (if readIndex q \<le> writeIndex q then slice (readIndex q) (writeIndex q - readIndex q) (q_array q)
      else drop (readIndex q) (q_array q) @ take (writeIndex q) (q_array q))"

text \<open>An array of at most two thirds of the largest block can still be enlarged.\<close>

definition queue_room :: "queue \<Rightarrow> bool" where
  "queue_room q \<longleftrightarrow> length (q_array q) + length (q_array q) div 2 \<le> 16777200"

lemmas queue_index_ops [simp] = Queue_SetReadIndex_def Queue_SetWriteIndex_def

lemma number_of_elements:
  assumes "queue_inv q"
  shows "Queue_GetNumberOfElements q =
    (if readIndex q \<le> writeIndex q then writeIndex q - readIndex q
     else writeIndex q + length (q_array q) - readIndex q)"
  using assms by (auto simp: Queue_GetNumberOfElements_def Let_def queue_inv_def)

lemma length_queue_elems:
  assumes "queue_inv q"
  shows "length (queue_elems q) = Queue_GetNumberOfElements q"
  using assms by (auto simp: number_of_elements queue_elems_def queue_inv_def)

text \<open>The array index of the \<open>k\<close>-th element.\<close>

definition ring_index :: "nat \<Rightarrow> nat \<Rightarrow> nat \<Rightarrow> nat" where
  "ring_index s r k = (if r + k \<ge> s then r + k - s else r + k)"

lemma ring_index_less: "r < s \<Longrightarrow> k < s \<Longrightarrow> ring_index s r k < s"
  by (auto simp: ring_index_def)

lemma ring_index_Suc:
  "r < s \<Longrightarrow> Suc k < s \<Longrightarrow> ring_index s (if r + 1 = s then 0 else r + 1) k = ring_index s r (Suc k)"
  by (auto simp: ring_index_def)

lemma number_less_size: "queue_inv q \<Longrightarrow> Queue_GetNumberOfElements q < length (q_array q)"
  by (auto simp: number_of_elements queue_inv_def)

lemma ring_index_write:
  assumes "queue_inv q" and "k \<le> Queue_GetNumberOfElements q"
  shows "ring_index (length (q_array q)) (readIndex q) k = writeIndex q \<longleftrightarrow> k = Queue_GetNumberOfElements q"
  using assms by (auto simp: number_of_elements ring_index_def queue_inv_def split: if_splits)

lemma queue_elems_nth:
  assumes "queue_inv q" and "k < Queue_GetNumberOfElements q"
  shows "queue_elems q ! k = q_array q ! ring_index (length (q_array q)) (readIndex q) k"
proof (cases "readIndex q \<le> writeIndex q")
  case True
  with assms show ?thesis by (auto simp: number_of_elements queue_elems_def queue_inv_def ring_index_def)
next
  case False
  with assms show ?thesis
    by (auto simp: number_of_elements queue_elems_def queue_inv_def nth_append ring_index_def add.commute)
qed

text \<open>A queue has the elements of a list when the ring holds them index by index.\<close>

lemma queue_elems_eqI:
  assumes "queue_inv q" and "length xs = Queue_GetNumberOfElements q"
    and "\<And>k. k < length xs \<Longrightarrow> q_array q ! ring_index (length (q_array q)) (readIndex q) k = xs ! k"
  shows "queue_elems q = xs"
  using assms by (intro nth_equalityI) (auto simp: length_queue_elems queue_elems_nth)

lemma queue_empty_iff: "queue_inv q \<Longrightarrow> Queue_IsEmpty q \<longleftrightarrow> queue_elems q = []"
  using length_queue_elems [of q] by (auto simp: Queue_IsEmpty_def number_of_elements queue_inv_def split: if_splits)

lemma Queue_Dequeue_spec:
  assumes "queue_inv q" and "queue_elems q = x # xs"
  shows "\<exists>q'. Queue_Dequeue q = Some (x, q') \<and> queue_inv q' \<and> queue_elems q' = xs"
proof -
  let ?s = "length (q_array q)" and ?r = "readIndex q"
  define q' where "q' = q\<lparr>readIndex := (if ?r + 1 = ?s then 0 else ?r + 1)\<rparr>"
  have len: "Queue_GetNumberOfElements q = Suc (length xs)"
    using length_queue_elems [OF assms(1)] assms(2) by simp
  then have ne: "?r \<noteq> writeIndex q" by (auto simp: number_of_elements [OF assms(1)])
  have x: "x = q_array q ! ?r"
    using queue_elems_nth [OF assms(1), of 0] len assms by (simp add: queue_inv_def ring_index_def)
  have inv: "queue_inv q'" using assms(1) by (auto simp: queue_inv_def q'_def)
  have "queue_elems q' = xs"
  proof (rule queue_elems_eqI [OF inv])
    show "length xs = Queue_GetNumberOfElements q'"
      using len ne assms(1) unfolding number_of_elements [OF inv] number_of_elements [OF assms(1)]
      by (auto simp: q'_def queue_inv_def split: if_splits)
    fix k assume "k < length xs"
    then show "q_array q' ! ring_index (length (q_array q')) (readIndex q') k = xs ! k"
      using queue_elems_nth [OF assms(1), of "Suc k"] len assms ring_index_Suc [of ?r ?s k]
        number_less_size [OF assms(1)]
      by (simp add: q'_def queue_inv_def)
  qed
  moreover have "Queue_Dequeue q = Some (x, q')"
    using assms(1) ne x by (auto simp: Queue_Dequeue_def Queue_IsEmpty_def queue_inv_def q'_def Assert_def run_simps)
  ultimately show ?thesis using inv by blast
qed

text \<open>Writing behind the last element: the ring without the enlargement.\<close>

lemma enqueue_slot:
  assumes "queue_inv q" and q1: "q1 = q\<lparr>q_array := (q_array q)[writeIndex q := w],
      writeIndex := (if writeIndex q + 1 = length (q_array q) then 0 else writeIndex q + 1)\<rparr>"
    and "writeIndex q1 \<noteq> readIndex q1"
  shows "queue_inv q1" "queue_elems q1 = queue_elems q @ [w]"
proof -
  show inv: "queue_inv q1" using assms by (auto simp: queue_inv_def)
  note len = length_queue_elems [OF assms(1)]
  have n: "Queue_GetNumberOfElements q1 = Suc (Queue_GetNumberOfElements q)"
    using assms(1,3) unfolding number_of_elements [OF inv] number_of_elements [OF assms(1)]
    by (auto simp: q1 queue_inv_def split: if_splits)
  show "queue_elems q1 = queue_elems q @ [w]"
  proof (rule queue_elems_eqI [OF inv])
    show "length (queue_elems q @ [w]) = Queue_GetNumberOfElements q1" by (simp add: n len)
    fix k assume "k < length (queue_elems q @ [w])"
    then show "q_array q1 ! ring_index (length (q_array q1)) (readIndex q1) k = (queue_elems q @ [w]) ! k"
      using ring_index_write [OF assms(1), of k] ring_index_less [of "readIndex q" "length (q_array q)" k]
        assms(1) number_less_size [OF assms(1)]
      by (auto simp: q1 nth_append len queue_elems_nth [OF assms(1)] queue_inv_def)
  qed
qed

lemma Queue_Enlarge_spec:
  assumes "readIndex q = writeIndex q" and "readIndex q < length (q_array q)" and "0 < t"
    and "length (q_array q) + t \<le> 16777200" and "2 \<le> length (q_array q)"
  shows "\<exists>q'. Queue_Enlarge junk t q = Some q' \<and> queue_inv q' \<and>
    queue_elems q' = map (\<lambda>k. q_array q ! ring_index (length (q_array q)) (readIndex q) k) [0..<length (q_array q)]"
proof -
  let ?a = "q_array q" and ?s = "length (q_array q)" and ?i = "readIndex q"
  let ?n = "map junk [0..<alloc_size (?s + t)]"
  have big: "?s < length ?n" using alloc_size_bounds [OF assms(4)] assms(3) by simp
  define a1 where "a1 = take (?s - ?i) (drop ?i ?a) @ drop (?s - ?i) ?n"
  define a2 where "a2 = take (?s - ?i) a1 @ take ?i ?a @ drop ?s a1"
  have l1: "length a1 = length ?n" using big by (simp add: a1_def)
  have l2: "length a2 = length ?n" using big l1 assms(2) by (simp add: a2_def)
  have c1: "copy_words ?n 0 ?a ?i (?s - ?i) = Some a1"
    using big assms(2) by (simp add: run_simps a1_def)
  have "copy_words a1 (?s - ?i) ?a 0 ?i = Some (take (?s - ?i) a1 @ take ?i ?a @ drop (?s - ?i + ?i) a1)"
    using big assms(2) l1 copy_words_run [of "?s - ?i" ?i a1 0 ?a] by simp
  then have c2: "copy_words a1 (?s - ?i) ?a 0 ?i = Some a2" using assms(2) by (simp add: a2_def)
  have ne: "a2 \<noteq> []" using l2 big by auto
  let ?q = "q\<lparr>q_array := a2, readIndex := 0, writeIndex := ?s\<rparr>"
  have "Queue_Enlarge junk t q = Some ?q"
    using assms big l2 c1 c2 ne by (simp add: Queue_Enlarge_def run_simps Let_def Assert_def)
  moreover have inv: "queue_inv ?q"
    using assms big l2 alloc_size_bounds(2) [OF assms(4)] alloc_size_idem [OF assms(4)] by (simp add: queue_inv_def)
  moreover have "queue_elems ?q = map (\<lambda>k. ?a ! ring_index ?s ?i k) [0..<?s]"
  proof (rule queue_elems_eqI [OF inv])
    fix k assume "k < length (map (\<lambda>k. ?a ! ring_index ?s ?i k) [0..<?s])"
    then have k: "k < ?s" by simp
    have "a2 ! k = ?a ! ring_index ?s ?i k"
      using k assms(2) l1 big by (auto simp: a2_def a1_def nth_append ring_index_def add.commute)
    then show "q_array ?q ! ring_index (length (q_array ?q)) (readIndex ?q) k =
        map (\<lambda>k. ?a ! ring_index ?s ?i k) [0..<?s] ! k"
      using k l2 big by (simp add: ring_index_def)
  qed (simp add: number_of_elements [OF inv])
  ultimately show ?thesis by blast
qed

lemma Queue_Enqueue_spec:
  assumes "queue_inv q" and "queue_room q"
  shows "\<exists>q'. Queue_Enqueue junk w q = Some q' \<and> queue_inv q' \<and> queue_elems q' = queue_elems q @ [w]"
proof -
  let ?s = "length (q_array q)" and ?wi = "if writeIndex q + 1 = length (q_array q) then 0 else writeIndex q + 1"
  define q1 where "q1 = q\<lparr>q_array := (q_array q)[writeIndex q := w], writeIndex := ?wi\<rparr>"
  have run: "Queue_Enqueue junk w q = (if ?wi = readIndex q then Queue_Enlarge junk (?s div 2) q1 else Some q1)"
    using assms(1) by (auto simp: Queue_Enqueue_def q1_def queue_inv_def run_simps Let_def Assert_def)
  show ?thesis
  proof (cases "?wi = readIndex q")
    case False
    then show ?thesis using run enqueue_slot [OF assms(1) q1_def] by (simp add: q1_def)
  next
    case True
    have full: "Queue_GetNumberOfElements q + 1 = ?s"
      using True assms(1) by (auto simp: number_of_elements queue_inv_def split: if_splits)
    have "map (\<lambda>k. q_array q1 ! ring_index (length (q_array q1)) (readIndex q1) k) [0..<length (q_array q1)] =
        queue_elems q @ [w]"
    proof (rule nth_equalityI)
      fix k assume "k < length (map (\<lambda>k. q_array q1 ! ring_index (length (q_array q1)) (readIndex q1) k)
          [0..<length (q_array q1)])"
      then have "k \<le> Queue_GetNumberOfElements q" using full by (simp add: q1_def)
      with full show "map (\<lambda>k. q_array q1 ! ring_index (length (q_array q1)) (readIndex q1) k)
          [0..<length (q_array q1)] ! k = (queue_elems q @ [w]) ! k"
        using ring_index_write [OF assms(1), of k] assms(1)
        by (auto simp: q1_def nth_append length_queue_elems [OF assms(1)] queue_elems_nth [OF assms(1)] queue_inv_def)
    qed (use full in \<open>simp add: q1_def length_queue_elems [OF assms(1)]\<close>)
    moreover have "\<exists>q'. Queue_Enlarge junk (?s div 2) q1 = Some q' \<and> queue_inv q' \<and>
        queue_elems q' = map (\<lambda>k. q_array q1 ! ring_index (length (q_array q1)) (readIndex q1) k) [0..<length (q_array q1)]"
      by (rule Queue_Enlarge_spec) (use True assms in \<open>auto simp: q1_def queue_inv_def queue_room_def\<close>)
    ultimately show ?thesis using run True by simp
  qed
qed

section \<open>Removing an element from the middle\<close>

definition without :: "nat \<Rightarrow> 'a list \<Rightarrow> 'a list" where
  "without n xs = take n xs @ drop (Suc n) xs"

lemma length_without: "n < length xs \<Longrightarrow> length (without n xs) = length xs - 1"
  by (simp add: without_def)

lemma nth_without: "n < length xs \<Longrightarrow> k < length xs - 1 \<Longrightarrow> without n xs ! k = (if k < n then xs ! k else xs ! Suc k)"
  by (auto simp: without_def nth_append)

text \<open>The elements before it move up by one slot and the queue starts one slot later.\<close>

lemma shorten_front:
  assumes "queue_inv q" and "n < Queue_GetNumberOfElements q" and "readIndex q + n < length (q_array q)"
    and a': "a' = take (readIndex q + 1) (q_array q) @ take n (drop (readIndex q) (q_array q)) @
        drop (readIndex q + 1 + n) (q_array q)"
    and q': "q' = q\<lparr>q_array := a', readIndex := (if readIndex q + 1 = length (q_array q) then 0 else readIndex q + 1)\<rparr>"
  shows "queue_inv q'" "queue_elems q' = without n (queue_elems q)"
proof -
  let ?s = "length (q_array q)" and ?r = "readIndex q"
  have la: "length a' = ?s" using assms(3) by (simp add: a')
  show inv: "queue_inv q'" using assms(1) la by (auto simp: queue_inv_def q')
  note len = length_queue_elems [OF assms(1)]
  have num: "Queue_GetNumberOfElements q = Suc (Queue_GetNumberOfElements q')"
    using assms(1,2) la unfolding number_of_elements [OF inv] number_of_elements [OF assms(1)]
    by (auto simp: q' queue_inv_def split: if_splits)
  show "queue_elems q' = without n (queue_elems q)"
  proof (rule queue_elems_eqI [OF inv])
    show "length (without n (queue_elems q)) = Queue_GetNumberOfElements q'"
      using assms(2) num by (simp add: length_without len)
    fix k assume "k < length (without n (queue_elems q))"
    then have k: "Suc k < Queue_GetNumberOfElements q" using assms(2) by (simp add: length_without len)
    let ?j = "ring_index ?s ?r (Suc k)"
    have j: "?j < ?s" by (rule ring_index_less) (use k number_less_size [OF assms(1)] assms(1) in \<open>auto simp: queue_inv_def\<close>)
    have "a' ! ?j = (if ?r + 1 \<le> ?j \<and> ?j < ?r + 1 + n then q_array q ! (?r + (?j - (?r + 1))) else q_array q ! ?j)"
      unfolding a' using j assms(3) by (intro nth_copied) auto
    also have "\<dots> = q_array q ! (if k < n then ring_index ?s ?r k else ?j)"
      using k number_less_size [OF assms(1)] assms(1,3) by (auto simp: ring_index_def queue_inv_def)
    also have "\<dots> = without n (queue_elems q) ! k"
      using k assms(2) by (simp add: nth_without len queue_elems_nth [OF assms(1)])
    finally show "q_array q' ! ring_index (length (q_array q')) (readIndex q') k = without n (queue_elems q) ! k"
      using ring_index_Suc [of ?r ?s k] k number_less_size [OF assms(1)] assms(1) la
      by (simp add: q' queue_inv_def)
  qed
qed

text \<open>The elements behind it move down by one slot and the queue ends one slot earlier.\<close>

lemma shorten_back:
  assumes "queue_inv q" and "n < Queue_GetNumberOfElements q"
    and i: "i = ring_index (length (q_array q)) (readIndex q) n" and "i < writeIndex q"
    and "writeIndex q - i - 1 \<le> c" "c \<le> writeIndex q - i"
    and a': "a' = take i (q_array q) @ take c (drop (i + 1) (q_array q)) @ drop (i + c) (q_array q)"
    and q': "q' = q\<lparr>q_array := a', writeIndex := writeIndex q - 1\<rparr>"
  shows "queue_inv q'" "queue_elems q' = without n (queue_elems q)"
proof -
  let ?s = "length (q_array q)" and ?r = "readIndex q"
  have la: "length a' = ?s" using assms(1,4,6) by (auto simp: a' queue_inv_def min_def)
  show inv: "queue_inv q'" using assms(1) la by (auto simp: queue_inv_def q')
  note len = length_queue_elems [OF assms(1)]
  have num: "Queue_GetNumberOfElements q = Suc (Queue_GetNumberOfElements q')"
    using assms(1,2,4) i la unfolding number_of_elements [OF inv] number_of_elements [OF assms(1)]
    by (auto simp: q' queue_inv_def ring_index_def split: if_splits)
  show "queue_elems q' = without n (queue_elems q)"
  proof (rule queue_elems_eqI [OF inv])
    show "length (without n (queue_elems q)) = Queue_GetNumberOfElements q'"
      using assms(2) num by (simp add: length_without len)
    fix k assume "k < length (without n (queue_elems q))"
    then have k: "Suc k < Queue_GetNumberOfElements q" using assms(2) by (simp add: length_without len)
    let ?j = "ring_index ?s ?r k"
    have j: "?j < ?s" by (rule ring_index_less) (use k number_less_size [OF assms(1)] assms(1) in \<open>auto simp: queue_inv_def\<close>)
    have "a' ! ?j = (if i \<le> ?j \<and> ?j < i + c then q_array q ! (i + 1 + (?j - i)) else q_array q ! ?j)"
      unfolding a' using j assms(1,4,6) by (intro nth_copied) (auto simp: queue_inv_def)
    also have "\<dots> = q_array q ! (if k < n then ?j else ring_index ?s ?r (Suc k))"
      using k assms(1-6) unfolding number_of_elements [OF assms(1)]
      by (auto simp: ring_index_def queue_inv_def Suc_diff_le split: if_splits)
    also have "\<dots> = without n (queue_elems q) ! k"
      using k assms(2) by (simp add: nth_without len queue_elems_nth [OF assms(1)])
    finally show "q_array q' ! ring_index (length (q_array q')) (readIndex q') k = without n (queue_elems q) ! k"
      using la by (simp add: q')
  qed
qed

lemma Queue_RemoveNthElement_spec:
  assumes "queue_inv q" and "n < Queue_GetNumberOfElements q"
  shows "\<exists>q'. Queue_RemoveNthElement n q = Some q' \<and> queue_inv q' \<and> queue_elems q' = without n (queue_elems q)"
proof (cases "readIndex q + n < length (q_array q)")
  case True
  note front = shorten_front [OF assms True refl refl]
  have "Queue_RemoveNthElement n q = Some (q\<lparr>q_array := take (readIndex q + 1) (q_array q) @
      take n (drop (readIndex q) (q_array q)) @ drop (readIndex q + 1 + n) (q_array q),
      readIndex := (if readIndex q + 1 = length (q_array q) then 0 else readIndex q + 1)\<rparr>)"
    using True assms(1) front(1) assms(2)
    by (auto simp: Queue_RemoveNthElement_def Let_def Assert_def copy_words_def queue_inv_def)
  with front show ?thesis by blast
next
  case False
  let ?i = "readIndex q + n - length (q_array q)"
  have i: "?i = ring_index (length (q_array q)) (readIndex q) n" "?i < writeIndex q"
    using False assms by (auto simp: ring_index_def number_of_elements queue_inv_def split: if_splits)
  note bk = shorten_back [OF assms i order_refl diff_le_self refl refl]
  have "Queue_RemoveNthElement n q = Some (q\<lparr>q_array := take ?i (q_array q) @
      take (writeIndex q - ?i - 1) (drop (?i + 1) (q_array q)) @ drop (?i + (writeIndex q - ?i - 1)) (q_array q),
      writeIndex := writeIndex q - 1\<rparr>)"
    using False assms i(2) by (auto simp: Queue_RemoveNthElement_def Let_def Assert_def copy_words_def queue_inv_def)
  with bk show ?thesis by auto
qed

lemma scan_array_cases:
  assumes "n \<le> length a"
  obtains j where "scan_array a w i n = Some (Some j)" "i \<le> j" "j < n" "a ! j = w" "\<And>k. i \<le> k \<Longrightarrow> k < j \<Longrightarrow> a ! k \<noteq> w"
  | "scan_array a w i n = Some None" "\<And>k. i \<le> k \<Longrightarrow> k < n \<Longrightarrow> a ! k \<noteq> w"
proof -
  have "(\<exists>j. scan_array a w i n = Some (Some j) \<and> i \<le> j \<and> j < n \<and> a ! j = w \<and> (\<forall>k. i \<le> k \<and> k < j \<longrightarrow> a ! k \<noteq> w)) \<or>
    (scan_array a w i n = Some None \<and> (\<forall>k. i \<le> k \<and> k < n \<longrightarrow> a ! k \<noteq> w))"
    using assms
  proof (induction a w i n rule: scan_array.induct)
    case (1 a w i n)
    show ?case
    proof (cases "i < n \<and> a ! i \<noteq> w")
      case True
      then have "scan_array a w i n = scan_array a w (Suc i) n"
        using 1 by (subst scan_array.simps) (simp add: run_simps)
      moreover have "i \<le> k \<longleftrightarrow> k = i \<or> Suc i \<le> k" for k by auto
      ultimately show ?thesis using 1 True by (auto simp: run_simps)
    qed (use 1 in \<open>subst scan_array.simps, subst (2) scan_array.simps, auto simp: run_simps\<close>)
  qed
  then show thesis using that by blast
qed

lemma remove1_without:
  "n < length xs \<Longrightarrow> xs ! n = w \<Longrightarrow> (\<And>k. k < n \<Longrightarrow> xs ! k \<noteq> w) \<Longrightarrow> remove1 w xs = without n xs"
proof (induction xs arbitrary: n)
  case (Cons x xs)
  show ?case
  proof (cases n)
    case (Suc m)
    then have "x \<noteq> w" and "\<And>k. k < m \<Longrightarrow> xs ! k \<noteq> w" using Cons.prems(3) [of 0] Cons.prems(3) [of "Suc k" for k] by auto
    then show ?thesis using Cons.IH [of m] Cons.prems Suc by (simp add: without_def)
  qed (use Cons.prems in \<open>simp add: without_def\<close>)
qed simp

lemma remove1_queue:
  assumes "queue_inv q" and "n < Queue_GetNumberOfElements q"
    and "q_array q ! ring_index (length (q_array q)) (readIndex q) n = w"
    and "\<And>k. k < n \<Longrightarrow> q_array q ! ring_index (length (q_array q)) (readIndex q) k \<noteq> w"
  shows "remove1 w (queue_elems q) = without n (queue_elems q)"
  by (rule remove1_without) (use assms in \<open>auto simp: length_queue_elems queue_elems_nth\<close>)

lemma remove1_queue_absent:
  assumes "queue_inv q"
    and "\<And>k. k < Queue_GetNumberOfElements q \<Longrightarrow> q_array q ! ring_index (length (q_array q)) (readIndex q) k \<noteq> w"
  shows "remove1 w (queue_elems q) = queue_elems q"
  by (rule remove1_idem) (use assms in \<open>auto simp: in_set_conv_nth length_queue_elems queue_elems_nth\<close>)

lemma Queue_Remove_end_spec:
  assumes "queue_inv q" and "start \<le> writeIndex q"
    and d: "\<And>i. start \<le> i \<Longrightarrow> i < writeIndex q \<Longrightarrow> d + i < Queue_GetNumberOfElements q + start \<and>
      ring_index (length (q_array q)) (readIndex q) (d + i - start) = i"
    and "d + writeIndex q = Queue_GetNumberOfElements q + start"
    and before: "\<And>k. k < d \<Longrightarrow> q_array q ! ring_index (length (q_array q)) (readIndex q) k \<noteq> w"
  shows "\<exists>q'. Queue_Remove_end w start q = Some q' \<and> queue_inv q' \<and> queue_elems q' = remove1 w (queue_elems q)"
proof -
  let ?ri = "ring_index (length (q_array q)) (readIndex q)"
  have bound: "writeIndex q \<le> length (q_array q)" using assms(1) by (simp add: queue_inv_def)
  have at: "?ri k = start + (k - d)" if "d \<le> k" "k < Queue_GetNumberOfElements q" for k
    using d [of "start + (k - d)"] that assms(4) by simp
  show ?thesis
  proof (rule scan_array_cases [OF bound, of w start])
    fix j assume j: "scan_array (q_array q) w start (writeIndex q) = Some (Some j)" "start \<le> j" "j < writeIndex q"
      "q_array q ! j = w" "\<And>k. start \<le> k \<Longrightarrow> k < j \<Longrightarrow> q_array q ! k \<noteq> w"
    let ?n = "d + j - start"
    have n: "?n < Queue_GetNumberOfElements q" "?ri ?n = j" using d [OF j(2,3)] j(2) by auto
    have "q_array q ! ?ri k \<noteq> w" if "k < ?n" for k
      using before [of k] at [of k] j(5) [of "start + (k - d)"] that n by (cases "k < d") auto
    then have r: "remove1 w (queue_elems q) = without ?n (queue_elems q)"
      by (intro remove1_queue [OF assms(1) n(1)]) (simp_all add: n(2) j(4))
    note sb = shorten_back [OF assms(1) n(1) n(2) [symmetric] j(3) diff_le_self order_refl refl refl]
    have "Queue_Remove_end w start q = Some (q\<lparr>q_array := take j (q_array q) @
        take (writeIndex q - j) (drop (j + 1) (q_array q)) @ drop (j + (writeIndex q - j)) (q_array q),
        writeIndex := writeIndex q - 1\<rparr>)"
      using j(1,3) assms(1) by (auto simp: Queue_Remove_end_def copy_words_def queue_inv_def Assert_def)
    with sb r show ?thesis by simp
  next
    assume n: "scan_array (q_array q) w start (writeIndex q) = Some None"
      "\<And>k. start \<le> k \<Longrightarrow> k < writeIndex q \<Longrightarrow> q_array q ! k \<noteq> w"
    have "q_array q ! ?ri k \<noteq> w" if "k < Queue_GetNumberOfElements q" for k
      using before [of k] at [of k] n(2) [of "start + (k - d)"] that assms(4) by (cases "k < d") auto
    then show ?thesis using n assms(1) by (simp add: Queue_Remove_end_def remove1_queue_absent)
  qed
qed

lemma Queue_Remove_spec:
  assumes "queue_inv q"
  shows "\<exists>q'. Queue_Remove w q = Some q' \<and> queue_inv q' \<and> queue_elems q' = remove1 w (queue_elems q)"
proof -
  let ?s = "length (q_array q)" and ?r = "readIndex q"
  consider "?r = writeIndex q" | "?r < writeIndex q" | "writeIndex q < ?r" by linarith
  then show ?thesis
  proof cases
    case 1
    then have "queue_elems q = []" using queue_empty_iff [OF assms] by (simp add: Queue_IsEmpty_def)
    then show ?thesis using 1 assms by (simp add: Queue_Remove_def)
  next
    case 2
    then have "\<exists>q'. Queue_Remove_end w ?r q = Some q' \<and> queue_inv q' \<and> queue_elems q' = remove1 w (queue_elems q)"
      by (intro Queue_Remove_end_spec [OF assms, where d = 0])
        (use assms in \<open>auto simp: number_of_elements ring_index_def queue_inv_def\<close>)
    with 2 show ?thesis by (simp add: Queue_Remove_def)
  next
    case 3
    show ?thesis
    proof (rule scan_array_cases [of ?s "q_array q" w ?r])
      fix j assume j: "scan_array (q_array q) w ?r ?s = Some (Some j)" "?r \<le> j" "j < ?s"
        "q_array q ! j = w" "\<And>k. ?r \<le> k \<Longrightarrow> k < j \<Longrightarrow> q_array q ! k \<noteq> w"
      have n: "j - ?r < Queue_GetNumberOfElements q" using j 3 assms by (auto simp: number_of_elements queue_inv_def)
      have r: "remove1 w (queue_elems q) = without (j - ?r) (queue_elems q)"
        by (rule remove1_queue [OF assms n]) (use j in \<open>auto simp: ring_index_def\<close>)
      note sf = shorten_front [OF assms n _ refl refl]
      have m: "(?r + 1) mod ?s = (if ?r + 1 = ?s then 0 else ?r + 1)" using assms by (auto simp: queue_inv_def)
      have "Queue_Remove w q = Some (q\<lparr>q_array := take (?r + 1) (q_array q) @
          take (j - ?r) (drop ?r (q_array q)) @ drop (?r + 1 + (j - ?r)) (q_array q),
          readIndex := (if ?r + 1 = ?s then 0 else ?r + 1)\<rparr>)"
        using j(1-3) 3 assms unfolding Queue_Remove_def Let_def m
        by (auto simp: copy_words_def queue_inv_def Assert_def)
      with sf r j(2,3) show ?thesis by auto
    next
      assume n: "scan_array (q_array q) w ?r ?s = Some None" "\<And>k. ?r \<le> k \<Longrightarrow> k < ?s \<Longrightarrow> q_array q ! k \<noteq> w"
      have "\<exists>q'. Queue_Remove_end w 0 q = Some q' \<and> queue_inv q' \<and> queue_elems q' = remove1 w (queue_elems q)"
        by (intro Queue_Remove_end_spec [OF assms, where d = "?s - ?r"])
          (use assms 3 n in \<open>auto simp: number_of_elements ring_index_def queue_inv_def\<close>)
      with n 3 show ?thesis by (simp add: Queue_Remove_def Let_def)
    qed simp
  qed
qed

interpretation ring: fifo_queue queue_elems queue_inv queue_room "Queue_Enqueue junk" Queue_Dequeue
  Queue_Remove Queue_IsEmpty
  by unfold_locales (simp_all add: Queue_Enqueue_spec Queue_Dequeue_spec Queue_Remove_spec queue_empty_iff)

section \<open>Blanking, cloning and creation\<close>

text \<open>The slots of the array that hold an element.\<close>

definition occupied :: "queue \<Rightarrow> nat \<Rightarrow> bool" where
  "occupied q i \<longleftrightarrow> (if readIndex q \<le> writeIndex q then readIndex q \<le> i \<and> i < writeIndex q
     else i < writeIndex q \<or> readIndex q \<le> i)"

lemma occupied_ring_index:
  assumes "queue_inv q" and "k < Queue_GetNumberOfElements q"
  shows "occupied q (ring_index (length (q_array q)) (readIndex q) k)"
  using assms by (auto simp: occupied_def number_of_elements ring_index_def queue_inv_def)

lemma queue_elems_cong:
  assumes "queue_inv q" and "queue_inv q'" and "length (q_array q') = length (q_array q)"
    and "readIndex q' = readIndex q" and "writeIndex q' = writeIndex q"
    and "\<And>i. occupied q i \<Longrightarrow> i < length (q_array q) \<Longrightarrow> q_array q' ! i = q_array q ! i"
  shows "queue_elems q' = queue_elems q"
proof (rule queue_elems_eqI [OF assms(2)])
  show n: "length (queue_elems q) = Queue_GetNumberOfElements q'"
    using assms by (simp add: length_queue_elems number_of_elements)
  fix k assume "k < length (queue_elems q)"
  then have k: "k < Queue_GetNumberOfElements q" using length_queue_elems [OF assms(1)] by simp
  let ?i = "ring_index (length (q_array q)) (readIndex q) k"
  have "?i < length (q_array q)"
    by (rule ring_index_less) (use k number_less_size [OF assms(1)] assms(1) in \<open>auto simp: queue_inv_def\<close>)
  with assms(6) occupied_ring_index [OF assms(1) k] queue_elems_nth [OF assms(1) k]
  show "q_array q' ! ring_index (length (q_array q')) (readIndex q') k = queue_elems q ! k"
    using assms(3,4) by simp
qed

lemma blank_entries: "queue_inv q \<Longrightarrow> \<not> Queue_IsEmpty q \<Longrightarrow> Queue_Blank_entries q = Queue_GetNumberOfElements q"
  by (auto simp: Queue_Blank_entries_def Queue_IsEmpty_def Let_def number_of_elements queue_inv_def)

lemma Queue_Blank_move_spec:
  assumes "queue_inv q" and "\<not> Queue_IsEmpty q" and n: "n = Queue_GetNumberOfElements q"
    and "n < newSize" and "newSize < length (q_array q)" and "2 \<le> newSize" and "alloc_size newSize = newSize"
  shows "\<exists>q1. Queue_Blank_move n newSize q = Some q1 \<and> length (q_array q1) = length (q_array q) \<and>
    queue_inv (q1\<lparr>q_array := take newSize (q_array q1)\<rparr>) \<and> \<not> Queue_IsEmpty q1 \<and>
    queue_elems (q1\<lparr>q_array := take newSize (q_array q1)\<rparr>) = queue_elems q"
proof -
  let ?a = "q_array q" and ?r = "readIndex q" and ?w = "writeIndex q" and ?s = "length (q_array q)"
  have len: "length (queue_elems q) = n" using length_queue_elems [OF assms(1)] n by simp
  have ne: "?r \<noteq> ?w" using assms(2) by (simp add: Queue_IsEmpty_def)
  have elems: "queue_elems q' = queue_elems q"
    if "queue_inv q'" "Queue_GetNumberOfElements q' = n"
      "\<And>k. k < n \<Longrightarrow> q_array q' ! ring_index (length (q_array q')) (readIndex q') k = ?a ! ring_index ?s ?r k" for q'
    by (rule queue_elems_eqI [OF that(1)]) (use that len n queue_elems_nth [OF assms(1)] in auto)
  consider "?r < ?w" "?w < newSize" | "?r < ?w" "newSize \<le> ?w" | "?w < ?r" using ne by linarith
  then show ?thesis
  proof cases
    case 1
    let ?q = "q\<lparr>q_array := take newSize ?a\<rparr>"
    have inv: "queue_inv ?q" using assms 1 by (auto simp: queue_inv_def)
    have "queue_elems ?q = queue_elems q"
      by (rule elems [OF inv]) (use 1 assms n in \<open>auto simp: number_of_elements [OF inv] number_of_elements ring_index_def\<close>)
    with 1 inv assms(2) show ?thesis by (auto simp: Queue_Blank_move_def Let_def)
  next
    case 2
    define b where "b = take n (drop ?r ?a) @ drop n ?a"
    let ?q = "q\<lparr>q_array := b, readIndex := 0, writeIndex := n\<rparr>"
    let ?q' = "q\<lparr>readIndex := 0, writeIndex := n, q_array := take newSize b\<rparr>"
    have nw: "n = ?w - ?r" using 2 n assms(1) by (simp add: number_of_elements)
    have w: "?w < ?s" using assms(1) by (simp add: queue_inv_def)
    have lb: "length b = ?s" using nw 2 w by (auto simp: b_def)
    have bk: "b ! k = ?a ! (?r + k)" if "k < n" for k using that nw 2 w by (auto simp: b_def nth_append)
    have inv: "queue_inv ?q'" using assms lb by (auto simp: queue_inv_def)
    have num: "Queue_GetNumberOfElements ?q' = n" using number_of_elements [OF inv] by simp
    have "queue_elems ?q' = queue_elems q"
      by (rule elems [OF inv num]) (use nw w lb bk assms(4,5) in \<open>auto simp: ring_index_def\<close>)
    moreover have "copy_words ?a 0 ?a ?r n = Some b" using nw w 2 by (simp add: copy_words_def b_def)
    moreover have "0 < length b" "n < length b" using lb assms(4,5) by auto
    ultimately have "Queue_Blank_move n newSize q = Some ?q" "queue_elems ?q' = queue_elems q"
      using 2 by (simp_all add: Queue_Blank_move_def Let_def Assert_def)
    then show ?thesis using inv lb nw 2 by (auto simp: Queue_IsEmpty_def)
  next
    case 3
    let ?l = "?s - ?r"
    define b where "b = take (newSize - ?l) ?a @ take ?l (drop ?r ?a) @ drop (newSize - ?l + ?l) ?a"
    let ?q = "q\<lparr>q_array := b, readIndex := newSize - ?l\<rparr>"
    let ?q' = "q\<lparr>readIndex := newSize - ?l, q_array := take newSize b\<rparr>"
    have r: "?r < ?s" using assms(1) by (simp add: queue_inv_def)
    have nw: "n = ?w + ?l" using 3 n r assms(1) by (simp add: number_of_elements)
    have lb: "length b = ?s" using nw assms(4,5) r by (auto simp: b_def)
    have bk: "b ! i = (if newSize - ?l \<le> i \<and> i < newSize then ?a ! (?r + (i - (newSize - ?l))) else ?a ! i)"
      if "i < ?s" for i
      using nth_copied [of "newSize - ?l" ?l ?a ?r ?a i] that nw assms(4,5) r by (simp add: b_def)
    have inv: "queue_inv ?q'" using assms lb nw by (auto simp: queue_inv_def)
    have num: "Queue_GetNumberOfElements ?q' = n"
      using nw assms(4,5) lb number_of_elements [OF inv] by auto
    have "queue_elems ?q' = queue_elems q"
    proof (rule elems [OF inv num])
      fix k assume k: "k < n"
      have "take newSize b ! ring_index newSize (newSize - ?l) k = ?a ! ring_index ?s ?r k"
        using k nw assms(4,5) lb r by (cases "k < ?l") (auto simp: ring_index_def bk)
      then show "q_array ?q' ! ring_index (length (q_array ?q')) (readIndex ?q') k = ?a ! ring_index ?s ?r k"
        using lb assms(5) by simp
    qed
    moreover have "copy_words ?a (newSize - ?l) ?a ?r ?l = Some b"
      using nw r assms(4,5) by (simp add: copy_words_def b_def)
    moreover have "newSize - ?l < length b" "?l \<le> newSize" using lb nw assms(4,5) by auto
    ultimately have "Queue_Blank_move n newSize q = Some ?q" "queue_elems ?q' = queue_elems q"
      using 3 by (simp_all add: Queue_Blank_move_def Let_def Assert_def)
    then show ?thesis using inv lb nw assms(4) by (auto simp: Queue_IsEmpty_def)
  qed
qed

text \<open>The loops that write zeros into the free slots.\<close>

lemma zero_free_slots:
  assumes "queue_inv q" and "\<not> Queue_IsEmpty q" and "s = length (q_array q)"
  shows "\<exists>a. (if readIndex q < writeIndex q then do {
            a \<leftarrow> blank_range (q_array q) 0 (readIndex q);
            blank_range a (writeIndex q) s
          } else blank_range (q_array q) (writeIndex q) (readIndex q)) = Some a \<and> length a = s \<and>
    (\<forall>i < s. a ! i = (if occupied q i then q_array q ! i else IntW 0))"
proof (cases "readIndex q < writeIndex q")
  case True
  have r: "readIndex q \<le> length (q_array q)" using assms(1) by (simp add: queue_inv_def)
  obtain b where b: "blank_range (q_array q) 0 (readIndex q) = Some b" "length b = s"
    "\<And>k. k < s \<Longrightarrow> b ! k = (if k < readIndex q then IntW 0 else q_array q ! k)"
    using blank_range_run [OF r, of 0] assms(3) by auto
  obtain a where "blank_range b (writeIndex q) s = Some a" "length a = s"
    "\<And>k. k < s \<Longrightarrow> a ! k = (if writeIndex q \<le> k \<and> k < s then IntW 0 else b ! k)"
    using blank_range_run [of s b "writeIndex q"] b(2) by auto
  then show ?thesis using True b by (auto simp: occupied_def)
next
  case False
  then have lt: "writeIndex q < readIndex q" using assms(2) by (simp add: Queue_IsEmpty_def)
  have r: "readIndex q \<le> length (q_array q)" using assms(1) by (simp add: queue_inv_def)
  then show ?thesis using blank_range_run [OF r, of "writeIndex q"] lt assms(3) by (auto simp: occupied_def)
qed

lemma Queue_Blank_spec:
  assumes "queue_inv q" and "length (q_array q) \<le> 1048575" and ne: "\<not> Queue_IsEmpty q"
  shows "\<exists>q'. Queue_Blank q = Some q' \<and> queue_inv q' \<and> queue_elems q' = queue_elems q \<and>
    length (q_array q') \<le> length (q_array q) \<and>
    (\<forall>i < length (q_array q'). occupied q' i \<or> q_array q' ! i = IntW 0)"
proof -
  let ?s = "length (q_array q)" and ?n = "Queue_GetNumberOfElements q"
  define m where "m = (if Queue_Blank_size ?n ?s < 2 then 2 else Queue_Blank_size ?n ?s)"
  have lt: "?n < ?s" by (rule number_less_size [OF assms(1)])
  then have big: "Queue_Blank_size ?n ?s \<noteq> 0 \<and> ?n < Queue_Blank_size ?n ?s"
    by (auto simp: Queue_Blank_size_def)
  have "\<exists>q1. (if m \<ge> ?s then Some q else do {
              q1 \<leftarrow> Queue_Blank_move ?n m q;
              a \<leftarrow> resize_array (q_array q1) m;
              Some (q1\<lparr>q_array := a\<rparr>) }) = Some q1 \<and>
      queue_inv q1 \<and> \<not> Queue_IsEmpty q1 \<and> queue_elems q1 = queue_elems q \<and>
      length (q_array q1) = (if m \<ge> ?s then ?s else m)"
  proof (cases "m \<ge> ?s")
    case False
    have "\<exists>q1. Queue_Blank_move ?n m q = Some q1 \<and> length (q_array q1) = ?s \<and>
        queue_inv (q1\<lparr>q_array := take m (q_array q1)\<rparr>) \<and> \<not> Queue_IsEmpty q1 \<and>
        queue_elems (q1\<lparr>q_array := take m (q_array q1)\<rparr>) = queue_elems q"
      by (rule Queue_Blank_move_spec [OF assms(1) ne refl]) (use False big assms(2) alloc_size_bounds(4) [of m] in \<open>auto simp: m_def\<close>)
    then obtain q1 where "Queue_Blank_move ?n m q = Some q1" "length (q_array q1) = ?s"
      "queue_inv (q1\<lparr>q_array := take m (q_array q1)\<rparr>)" "\<not> Queue_IsEmpty q1"
      "queue_elems (q1\<lparr>q_array := take m (q_array q1)\<rparr>) = queue_elems q" by blast
    then show ?thesis using False assms(2) by (simp add: run_simps Queue_IsEmpty_def)
  qed (use assms ne in auto)
  then obtain q1 where q1: "(if m \<ge> ?s then Some q else do {
              q1 \<leftarrow> Queue_Blank_move ?n m q;
              a \<leftarrow> resize_array (q_array q1) m;
              Some (q1\<lparr>q_array := a\<rparr>) }) = Some q1"
      "queue_inv q1" "\<not> Queue_IsEmpty q1" "queue_elems q1 = queue_elems q"
      "length (q_array q1) = (if m \<ge> ?s then ?s else m)" by blast
  obtain a where a: "(if readIndex q1 < writeIndex q1 then do {
            a \<leftarrow> blank_range (q_array q1) 0 (readIndex q1);
            blank_range a (writeIndex q1) (if m \<ge> ?s then ?s else m)
          } else blank_range (q_array q1) (writeIndex q1) (readIndex q1)) = Some a"
    "length a = (if m \<ge> ?s then ?s else m)"
    "\<forall>i < (if m \<ge> ?s then ?s else m). a ! i = (if occupied q1 i then q_array q1 ! i else IntW 0)"
    using zero_free_slots [OF q1(2,3) q1(5) [symmetric]] by blast
  have run: "Queue_Blank q = Some (q1\<lparr>q_array := a\<rparr>)"
    unfolding Queue_Blank_def Let_def blank_entries [OF assms(1) ne] m_def [symmetric] q1(1)
    using big a(1) by simp
  have inv: "queue_inv (q1\<lparr>q_array := a\<rparr>)" using q1(2,5) a(2) by (simp add: queue_inv_def)
  have "queue_elems (q1\<lparr>q_array := a\<rparr>) = queue_elems q1"
    by (rule queue_elems_cong [OF q1(2) inv]) (use a q1(5) in auto)
  then show ?thesis using run inv q1(4) a by (auto simp: occupied_def)
qed

lemma Queue_Blank_empty:
  assumes "queue_inv q" and "Queue_IsEmpty q"
  shows "Queue_Blank q = Some q"
proof -
  have n: "Queue_Blank_entries q = length (q_array q)"
    using assms by (auto simp: Queue_Blank_entries_def Queue_IsEmpty_def Let_def)
  have "length (q_array q) < Queue_Blank_size (length (q_array q)) (length (q_array q))"
    using assms(1) by (auto simp: Queue_Blank_size_def queue_inv_def)
  then show ?thesis using assms(2)
    by (auto simp: Queue_Blank_def n Queue_IsEmpty_def Let_def blank_range.simps)
qed

lemma Queue_New_spec:
  assumes "2 \<le> n" and "n \<le> 16777200"
  shows "\<exists>q. Queue_New junk n = Some q \<and> queue_inv q \<and> queue_elems q = []"
  using assms alloc_size_bounds(1,2) [OF assms(2)] alloc_size_idem [OF assms(2)]
  by (auto simp: Queue_New_def run_simps queue_inv_def queue_elems_def)

lemma Queue_GetNthElement_spec:
  assumes "queue_inv q" and "n < Queue_GetNumberOfElements q"
  shows "Queue_GetNthElement n q = Some (queue_elems q ! n)"
proof -
  have "ring_index (length (q_array q)) (readIndex q) n < length (q_array q)"
    by (rule ring_index_less) (use assms number_less_size [OF assms(1)] in \<open>auto simp: queue_inv_def\<close>)
  then show ?thesis
    using assms(2) unfolding queue_elems_nth [OF assms] Queue_GetNthElement_def ring_index_def Let_def
    by (auto simp: Block_GetArg_def split: if_splits)
qed

lemma Queue_Clone_spec:
  assumes "queue_inv q"
  shows "\<exists>c. Queue_Clone junk q = Some c \<and> queue_inv c \<and> queue_elems c = queue_elems q"
proof -
  have "Queue_Clone junk q = Some \<lparr>readIndex = readIndex q, writeIndex = writeIndex q, q_array = q_array q\<rparr>"
    using assms by (auto simp: Queue_Clone_def Queue_New_def run_simps copy_words_def queue_inv_def Assert_def)
  then show ?thesis using assms by (simp add: queue_inv_def queue_elems_def)
qed

section \<open>Properties\<close>



text \<open>
  \<^verbatim>\<open>Blank\<close>, which runs before a queue is pickled or collected, keeps the elements and their order, never
  makes the array bigger and leaves the integer 0 in every slot that holds no element, so no stale
  reference survives; only on an empty queue it changes nothing at all, and stale entries do survive.
\<close>

theorem queue_blank_safe:
  assumes "queue_inv q" and "length (q_array q) \<le> 1048575"
  shows "\<exists>q'. Queue_Blank q = Some q' \<and> queue_inv q' \<and> queue_elems q' = queue_elems q \<and>
    length (q_array q') \<le> length (q_array q) \<and>
    (if Queue_IsEmpty q then q' = q
     else \<forall>i < length (q_array q'). occupied q' i \<or> q_array q' ! i = IntW 0)"
  using Queue_Blank_spec [OF assms] Queue_Blank_empty [OF assms(1)] assms(1) by (cases "Queue_IsEmpty q") auto

theorem queue_blank_safe_witness:
  "(\<exists>q'. Queue_Blank \<lparr>readIndex = 1, writeIndex = 1, q_array = [IntW 9, IntW 9]\<rparr> = Some q' \<and> q_array q' ! 0 = IntW 9) \<and>
   (\<exists>q'. Queue_Blank \<lparr>readIndex = 1, writeIndex = 2, q_array = [IntW 9, IntW 9, IntW 9, IntW 9, IntW 9, IntW 9, IntW 9, IntW 9]\<rparr> = Some q' \<and> queue_elems q' = [IntW 9])"
proof
  let ?q = "\<lparr>readIndex = 1, writeIndex = 1, q_array = [IntW 9, IntW 9]\<rparr>"
  have "queue_inv ?q" by (simp add: queue_inv_def alloc_size_eq)
  then show "\<exists>q'. Queue_Blank ?q = Some q' \<and> q_array q' ! 0 = IntW 9"
    using queue_blank_safe [of ?q] by (auto simp: Queue_IsEmpty_def)
  let ?q = "\<lparr>readIndex = 1, writeIndex = 2, q_array = [IntW 9, IntW 9, IntW 9, IntW 9, IntW 9, IntW 9, IntW 9, IntW 9]\<rparr>"
  have "queue_inv ?q" "queue_elems ?q = [IntW 9]"
    by (simp_all add: queue_inv_def alloc_size_eq queue_elems_def slice_def)
  then show "\<exists>q'. Queue_Blank ?q = Some q' \<and> queue_elems q' = [IntW 9]"
    using queue_blank_safe [of ?q] by auto
qed

end
