(* ===== verification/Stack_Adt.thy ===== *)
theory Stack_Adt
  imports Store_Array
begin

text \<open>
  The growable stack of \<^verbatim>\<open>seam/adt/Stack.hh\<close>: a top index and an array. \<open>stack_elems\<close> lists the
  elements from the bottom to the top. \<^verbatim>\<open>Push\<close> relies on a frame that \<^verbatim>\<open>AllocFrame\<close> reserved, \<^verbatim>\<open>SlowPush\<close>
  enlarges the array on its own; the locale \<open>lifo_stack\<close> is the contract of both.
\<close>

section \<open>Interface\<close>

locale lifo_stack =
  fixes elems :: "'s \<Rightarrow> 'a list" and inv :: "'s \<Rightarrow> bool" and room :: "'s \<Rightarrow> bool"
    and push :: "'a \<Rightarrow> 's \<Rightarrow> 's option" and pop :: "'s \<Rightarrow> ('a \<times> 's) option"
  assumes push_law: "inv s \<Longrightarrow> room s \<Longrightarrow> \<exists>s'. push x s = Some s' \<and> inv s' \<and> elems s' = elems s @ [x]"
    and pop_law: "inv s \<Longrightarrow> elems s = xs @ [x] \<Longrightarrow> \<exists>s'. pop s = Some (x, s') \<and> inv s' \<and> elems s' = xs"
begin

lemma pop_push:
  assumes "inv s" and "room s"
  shows "\<exists>s1 s2. push x s = Some s1 \<and> pop s1 = Some (x, s2) \<and> inv s2 \<and> elems s2 = elems s"
  using push_law [OF assms, of x] pop_law by blast

end

section \<open>The operations\<close>

record stack =
  stk_top :: nat
  stk_array :: "store_word list"

definition Stack_Enlarge :: "junk \<Rightarrow> nat \<Rightarrow> nat \<Rightarrow> stack \<Rightarrow> stack option" where
  "Stack_Enlarge junk oldsize newsize s = do {
     na \<leftarrow> alloc_array junk newsize;
     na \<leftarrow> copy_words na 0 (stk_array s) 0 oldsize;
     Some (s\<lparr>stk_array := na\<rparr>) }"

definition AllocArgFrame :: "junk \<Rightarrow> nat \<Rightarrow> stack \<Rightarrow> stack option" where
  "AllocArgFrame junk fsize s = do {
     let max = length (stk_array s);
     let sz = stk_top s + fsize;
     let s1 = s\<lparr>stk_top := sz\<rparr>;
     if sz \<ge> max then Stack_Enlarge junk max (sz * 3 div 2) s1 else Some s1 }"

definition ClearArgFrame :: "nat \<Rightarrow> stack \<Rightarrow> stack option" where
  "ClearArgFrame fsize s = do {
     Assert (stk_top s \<ge> fsize);
     let newtop = stk_top s - fsize;
     Assert (stk_top s \<noteq> 0 \<and> newtop \<noteq> 0);
     v \<leftarrow> Block_GetArg (stk_array s) (stk_top s - 1);
     a \<leftarrow> Block_SetArg (stk_array s) (newtop - 1) v;
     Some (s\<lparr>stk_top := newtop, stk_array := a\<rparr>) }"

definition ClearArgFrameZero :: "nat \<Rightarrow> stack \<Rightarrow> stack option" where
  "ClearArgFrameZero fsize s = do {
     Assert (stk_top s \<ge> fsize);
     Some (s\<lparr>stk_top := stk_top s - fsize\<rparr>) }"

definition AllocFrame :: "junk \<Rightarrow> nat \<Rightarrow> stack \<Rightarrow> stack option" where
  "AllocFrame junk fsize s = do {
     let max = length (stk_array s);
     let sz = stk_top s + fsize;
     if sz \<ge> max then Stack_Enlarge junk max (sz * 3 div 2) s else Some s }"

definition ClearFrame :: "nat \<Rightarrow> stack \<Rightarrow> stack option" where
  "ClearFrame fsize s = do {
     Assert (stk_top s > fsize);
     Some (s\<lparr>stk_top := stk_top s - fsize\<rparr>) }"

definition Push :: "store_word \<Rightarrow> stack \<Rightarrow> stack option" where
  "Push v s = do {
     Assert (stk_top s < length (stk_array s));
     a \<leftarrow> Block_SetArg (stk_array s) (stk_top s) v;
     Some (s\<lparr>stk_top := stk_top s + 1, stk_array := a\<rparr>) }"

definition SlowPush :: "junk \<Rightarrow> store_word \<Rightarrow> stack \<Rightarrow> stack option" where
  "SlowPush junk v s = do {
     let top = stk_top s;
     let max = length (stk_array s);
     let s1 = s\<lparr>stk_top := top + 1\<rparr>;
     s2 \<leftarrow> (if top < max then Some s1 else Stack_Enlarge junk max (max * 3 div 2) s1);
     a \<leftarrow> Block_SetArg (stk_array s2) top v;
     Some (s2\<lparr>stk_array := a\<rparr>) }"

definition Top :: "stack \<Rightarrow> store_word option" where
  "Top s = (if stk_top s = 0 then None else Block_GetArg (stk_array s) (stk_top s - 1))"

definition GetFrameArg :: "nat \<Rightarrow> stack \<Rightarrow> store_word option" where
  "GetFrameArg f s = do {
     Assert (stk_top s \<ge> f + 1);
     Block_GetArg (stk_array s) (stk_top s - 1 - f) }"

definition GetAbsoluteArg :: "nat \<Rightarrow> stack \<Rightarrow> store_word option" where
  "GetAbsoluteArg f s = do { Assert (f < stk_top s); Block_GetArg (stk_array s) f }"

definition PutFrameArg :: "nat \<Rightarrow> store_word \<Rightarrow> stack \<Rightarrow> stack option" where
  "PutFrameArg f v s = do {
     Assert (stk_top s \<ge> f + 1);
     a \<leftarrow> Block_SetArg (stk_array s) (stk_top s - 1 - f) v;
     Some (s\<lparr>stk_array := a\<rparr>) }"

definition Pop :: "stack \<Rightarrow> (store_word \<times> stack) option" where
  "Pop s = do {
     v \<leftarrow> Top s;
     Some (v, s\<lparr>stk_top := stk_top s - 1\<rparr>) }"

definition SlowPop :: "stack \<Rightarrow> (store_word \<times> stack) option" where
  "SlowPop s = do {
     v \<leftarrow> Top s;
     a \<leftarrow> Block_SetArg (stk_array s) (stk_top s - 1) (IntW 0);
     Some (v, s\<lparr>stk_top := stk_top s - 1, stk_array := a\<rparr>) }"

definition Stack_IsEmpty :: "stack \<Rightarrow> bool" where
  "Stack_IsEmpty s \<longleftrightarrow> stk_top s = 0"

definition Stack_Blank :: "nat \<Rightarrow> stack \<Rightarrow> stack option" where
  "Stack_Blank threshold s = do {
     let max = length (stk_array s);
     let newmax = stk_top s + threshold;
     let newmax = (if newmax \<le> max then newmax else max);
     a \<leftarrow> blank_range (stk_array s) (stk_top s) newmax;
     a \<leftarrow> resize_array a newmax;
     Some (s\<lparr>stk_array := a\<rparr>) }"

definition Stack_New :: "junk \<Rightarrow> nat \<Rightarrow> stack option" where
  "Stack_New junk n = do { a \<leftarrow> alloc_array junk n; Some \<lparr>stk_top = 0, stk_array = a\<rparr> }"

lemmas stack_ops = Stack_Enlarge_def AllocArgFrame_def ClearArgFrame_def ClearArgFrameZero_def
  AllocFrame_def ClearFrame_def Push_def SlowPush_def Top_def GetFrameArg_def GetAbsoluteArg_def
  PutFrameArg_def Pop_def SlowPop_def Stack_IsEmpty_def Stack_New_def

section \<open>Invariant and abstraction\<close>

definition stack_inv :: "stack \<Rightarrow> bool" where
  "stack_inv s \<longleftrightarrow> stk_top s \<le> length (stk_array s)"

definition stack_elems :: "stack \<Rightarrow> store_word list" where
  "stack_elems s = take (stk_top s) (stk_array s)"

lemma length_stack_elems: "stack_inv s \<Longrightarrow> length (stack_elems s) = stk_top s"
  by (simp add: stack_inv_def stack_elems_def)

lemma Stack_Enlarge_run:
  assumes "n \<le> 16777200" and "length (stk_array s) \<le> n"
  obtains a where "Stack_Enlarge junk (length (stk_array s)) n s = Some (s\<lparr>stk_array := stk_array s @ a\<rparr>)"
    "n \<le> length (stk_array s @ a)"
proof
  let ?a = "drop (length (stk_array s)) (map junk [0..<alloc_size n])"
  show "Stack_Enlarge junk (length (stk_array s)) n s = Some (s\<lparr>stk_array := stk_array s @ ?a\<rparr>)"
    "n \<le> length (stk_array s @ ?a)"
    using assms alloc_size_bounds(1) [OF assms(1)] by (auto simp: Stack_Enlarge_def run_simps copy_words_def)
qed

text \<open>\<^verbatim>\<open>AllocFrame\<close> keeps the elements and makes room for the whole frame.\<close>

lemma AllocFrame_spec:
  assumes "stack_inv s" and "(stk_top s + n) * 3 div 2 \<le> 16777200"
  shows "\<exists>s'. AllocFrame junk n s = Some s' \<and> stack_inv s' \<and> stack_elems s' = stack_elems s \<and>
    stk_top s' = stk_top s \<and> stk_top s + n \<le> length (stk_array s')"
proof (cases "length (stk_array s) \<le> stk_top s + n")
  case True
  obtain a where "Stack_Enlarge junk (length (stk_array s)) ((stk_top s + n) * 3 div 2) s =
      Some (s\<lparr>stk_array := stk_array s @ a\<rparr>)" "(stk_top s + n) * 3 div 2 \<le> length (stk_array s @ a)"
    by (rule Stack_Enlarge_run [OF assms(2)]) (use True in auto)
  then show ?thesis using True assms(1)
    by (auto simp: AllocFrame_def stack_inv_def stack_elems_def)
qed (use assms in \<open>auto simp: AllocFrame_def Let_def\<close>)

lemma Push_spec:
  assumes "stack_inv s" and "stk_top s < length (stk_array s)"
  shows "\<exists>s'. Push v s = Some s' \<and> stack_inv s' \<and> stack_elems s' = stack_elems s @ [v] \<and>
    stk_top s' = stk_top s + 1 \<and> length (stk_array s') = length (stk_array s)"
  using assms by (auto simp: Push_def run_simps stack_inv_def stack_elems_def take_Suc_conv_app_nth)

lemma SlowPush_spec:
  assumes "stack_inv s" and "stk_top s < length (stk_array s) \<or> 2 \<le> length (stk_array s)"
    and "length (stk_array s) * 3 div 2 \<le> 16777200"
  shows "\<exists>s'. SlowPush junk v s = Some s' \<and> stack_inv s' \<and> stack_elems s' = stack_elems s @ [v]"
proof (cases "stk_top s < length (stk_array s)")
  case True
  then show ?thesis using assms(1)
    by (auto simp: SlowPush_def Let_def run_simps stack_inv_def stack_elems_def take_Suc_conv_app_nth)
next
  case False
  let ?s1 = "s\<lparr>stk_top := stk_top s + 1\<rparr>" and ?n = "length (stk_array s) * 3 div 2"
  have le: "length (stk_array ?s1) \<le> ?n" by auto
  obtain a where a: "Stack_Enlarge junk (length (stk_array ?s1)) ?n ?s1 =
      Some (?s1\<lparr>stk_array := stk_array ?s1 @ a\<rparr>)" "?n \<le> length (stk_array ?s1 @ a)"
    using Stack_Enlarge_run [OF assms(3) le] by blast
  have "length (stk_array s) < ?n" using assms(2) False by auto
  with a have "a \<noteq> []" by auto
  with a False assms(1) show ?thesis
    by (auto simp: SlowPush_def Let_def run_simps stack_inv_def stack_elems_def nth_append list_update_append
        neq_Nil_conv)
qed

lemma Pop_spec:
  assumes "stack_inv s" and "stack_elems s = xs @ [v]"
  shows "\<exists>s'. Pop s = Some (v, s') \<and> stack_inv s' \<and> stack_elems s' = xs"
    "\<exists>s'. SlowPop s = Some (v, s') \<and> stack_inv s' \<and> stack_elems s' = xs \<and> stk_array s' ! length xs = IntW 0"
proof -
  have t: "stk_top s = Suc (length xs)" using length_stack_elems [OF assms(1)] assms(2) by simp
  then have "take (length xs) (stk_array s) = xs" "stk_array s ! length xs = v" "length xs < length (stk_array s)"
    using assms by (auto simp: stack_elems_def stack_inv_def take_Suc_conv_app_nth)
  then show "\<exists>s'. Pop s = Some (v, s') \<and> stack_inv s' \<and> stack_elems s' = xs"
    "\<exists>s'. SlowPop s = Some (v, s') \<and> stack_inv s' \<and> stack_elems s' = xs \<and> stk_array s' ! length xs = IntW 0"
    by (auto simp: Pop_def SlowPop_def Top_def t run_simps stack_inv_def stack_elems_def)
qed

interpretation frame_stack: lifo_stack stack_elems stack_inv "\<lambda>s. stk_top s < length (stk_array s)" Push Pop
  by unfold_locales (use Push_spec Pop_spec in blast)+

interpretation slow_stack: lifo_stack stack_elems stack_inv
  "\<lambda>s. 2 \<le> length (stk_array s) \<and> length (stk_array s) * 3 div 2 \<le> 16777200" "SlowPush junk" SlowPop
  by unfold_locales (use SlowPush_spec Pop_spec in blast)+

text \<open>Pushing a whole frame after \<^verbatim>\<open>AllocFrame\<close>.\<close>

fun Push_all :: "store_word list \<Rightarrow> stack \<Rightarrow> stack option" where
  "Push_all [] s = Some s"
| "Push_all (v # vs) s = do { s1 \<leftarrow> Push v s; Push_all vs s1 }"

lemma Push_all_spec:
  assumes "stack_inv s" and "stk_top s + length vs \<le> length (stk_array s)"
  shows "\<exists>s'. Push_all vs s = Some s' \<and> stack_inv s' \<and> stack_elems s' = stack_elems s @ vs"
  using assms
proof (induction vs arbitrary: s)
  case (Cons v vs)
  obtain s1 where s1: "Push v s = Some s1" "stack_inv s1" "stack_elems s1 = stack_elems s @ [v]"
    "stk_top s1 = stk_top s + 1" "length (stk_array s1) = length (stk_array s)"
    using Push_spec [of s v] Cons.prems by auto
  then show ?case using Cons.IH [of s1] Cons.prems by auto
qed simp

lemma Stack_Blank_spec:
  assumes "stack_inv s" and "length (stk_array s) \<le> 1048575"
  shows "\<exists>s'. Stack_Blank n s = Some s' \<and> stack_inv s' \<and> stack_elems s' = stack_elems s \<and>
    length (stk_array s') = min (stk_top s + n) (length (stk_array s)) \<and>
    (\<forall>i < length (stk_array s'). stk_top s \<le> i \<longrightarrow> stk_array s' ! i = IntW 0)"
proof -
  define m where "m = (if stk_top s + n \<le> length (stk_array s) then stk_top s + n else length (stk_array s))"
  have m: "m \<le> length (stk_array s)" "stk_top s \<le> m" "m = min (stk_top s + n) (length (stk_array s))"
    using assms(1) by (auto simp: m_def stack_inv_def)
  obtain b where b: "blank_range (stk_array s) (stk_top s) m = Some b" "length b = length (stk_array s)"
    "\<forall>k < length (stk_array s). b ! k = (if stk_top s \<le> k \<and> k < m then IntW 0 else stk_array s ! k)"
    using blank_range_run [OF m(1), of "stk_top s"] by blast
  have "take (stk_top s) (take m b) = take (stk_top s) (stk_array s)"
    by (rule nth_equalityI) (use b m in auto)
  moreover have "Stack_Blank n s = Some (s\<lparr>stk_array := take m b\<rparr>)"
    unfolding Stack_Blank_def Let_def m_def [symmetric] using b(1,2) m assms(2) by (simp add: run_simps)
  ultimately show ?thesis using b m by (simp add: stack_inv_def stack_elems_def)
qed

section \<open>Properties\<close>

text \<open>
  C8. Frames on the stack. After \<^verbatim>\<open>AllocFrame\<close> for a frame, pushing all its words succeeds without any
  further check, the words lie on top of the unchanged older elements, \<^verbatim>\<open>GetFrameArg\<close> addresses the
  frame from its last word down, and \<^verbatim>\<open>ClearFrame\<close> of the frame gives the older elements back when the
  stack was not empty.
\<close>

theorem stack_frame_roundtrip:
  assumes "stack_inv s" and "(stk_top s + length vs) * 3 div 2 \<le> 16777200"
  shows "\<exists>s1 s2. AllocFrame junk (length vs) s = Some s1 \<and> Push_all vs s1 = Some s2 \<and> stack_inv s2 \<and>
    stack_elems s2 = stack_elems s @ vs \<and>
    (\<forall>f < length vs. GetFrameArg f s2 = Some (rev vs ! f)) \<and>
    (0 < stk_top s \<longrightarrow> (\<exists>s3. ClearFrame (length vs) s2 = Some s3 \<and> stack_inv s3 \<and> stack_elems s3 = stack_elems s))"
proof -
  obtain s1 where s1: "AllocFrame junk (length vs) s = Some s1" "stack_inv s1" "stack_elems s1 = stack_elems s"
    "stk_top s + length vs \<le> length (stk_array s1)" "stk_top s1 = stk_top s"
    using AllocFrame_spec [OF assms, of junk] by auto
  then obtain s2 where s2: "Push_all vs s1 = Some s2" "stack_inv s2" "stack_elems s2 = stack_elems s @ vs"
    using Push_all_spec [of s1 vs] by auto
  have t: "stk_top s2 = stk_top s + length vs"
    using length_stack_elems [OF s2(2)] length_stack_elems [OF assms(1)] s2(3) by simp
  have at: "stk_array s2 ! i = (stack_elems s @ vs) ! i" if "i < stk_top s2" for i
    unfolding s2(3) [symmetric] using that by (simp add: stack_elems_def)
  have "GetFrameArg f s2 = Some (rev vs ! f)" if f: "f < length vs" for f
  proof -
    have "stk_array s2 ! (stk_top s2 - 1 - f) = rev vs ! f"
      using at [of "stk_top s2 - 1 - f"] t f length_stack_elems [OF assms(1)]
      by (auto simp: nth_append rev_nth)
    then show ?thesis using f t s2(2) by (simp add: GetFrameArg_def run_simps stack_inv_def)
  qed
  moreover have "take (stk_top s) (stk_array s2) = stack_elems s"
  proof -
    have "take (stk_top s) (stk_array s2) = take (stk_top s) (stack_elems s2)"
      by (simp add: stack_elems_def t)
    then show ?thesis unfolding s2(3) by (simp add: length_stack_elems [OF assms(1)])
  qed
  moreover from this have "stack_elems (s2\<lparr>stk_top := stk_top s\<rparr>) = stack_elems s"
    by (simp add: stack_elems_def [of "s2\<lparr>stk_top := stk_top s\<rparr>"])
  moreover have "stack_inv (s2\<lparr>stk_top := stk_top s\<rparr>)" using s2(2) t by (simp add: stack_inv_def)
  moreover have "0 < stk_top s \<Longrightarrow> ClearFrame (length vs) s2 = Some (s2\<lparr>stk_top := stk_top s\<rparr>)"
    by (simp add: ClearFrame_def t)
  ultimately show ?thesis using s1(1) s2 by (intro exI [of _ s1] exI [of _ s2]) simp
qed

theorem stack_frame_roundtrip_witness:
  "\<exists>s1 s2. AllocFrame (\<lambda>i. IntW 5) 2 \<lparr>stk_top = 1, stk_array = [IntW 8]\<rparr> = Some s1 \<and>
     Push_all [BlkW 4, IntW 3] s1 = Some s2 \<and> GetFrameArg 1 s2 = Some (BlkW 4)"
proof -
  have "stack_inv \<lparr>stk_top = 1, stk_array = [IntW 8]\<rparr>" by (simp add: stack_inv_def)
  from stack_frame_roundtrip [OF this, of "[BlkW 4, IntW 3]" "\<lambda>i. IntW 5"]
  obtain s1 s2 where "AllocFrame (\<lambda>i. IntW 5) (length [BlkW 4, IntW 3]) \<lparr>stk_top = 1, stk_array = [IntW 8]\<rparr> = Some s1"
    "Push_all [BlkW 4, IntW 3] s1 = Some s2" "\<forall>f < length [BlkW 4, IntW 3]. GetFrameArg f s2 = Some (rev [BlkW 4, IntW 3] ! f)"
    by auto
  then show ?thesis by (intro exI [of _ s1] exI [of _ s2]) (simp add: numeral_2_eq_2)
qed

text \<open>
  C9. \<^verbatim>\<open>SlowPush\<close> and \<^verbatim>\<open>SlowPop\<close> are inverse on every stack whose array has at least two slots, and
  \<^verbatim>\<open>SlowPop\<close> leaves no reference behind; on a full array of at most one slot \<^verbatim>\<open>SlowPush\<close> runs out of the
  array, because three halves of its size is not more than its size.
\<close>

theorem slow_push_pop:
  assumes "stack_inv s" and "length (stk_array s) * 3 div 2 \<le> 16777200"
  shows "if 2 \<le> length (stk_array s)
    then \<exists>s1 s2. SlowPush junk v s = Some s1 \<and> SlowPop s1 = Some (v, s2) \<and> stack_inv s2 \<and> stack_elems s2 = stack_elems s
    else stk_top s = length (stk_array s) \<longrightarrow> SlowPush junk v s = None"
proof (cases "2 \<le> length (stk_array s)")
  case True
  then show ?thesis using slow_stack.pop_push [OF assms(1), of junk v] assms(2) by auto
next
  case False
  then have "length (stk_array s) * 3 div 2 = length (stk_array s)" "length (stk_array s) \<le> 1048575" by auto
  then show ?thesis using False
    by (auto simp: SlowPush_def Stack_Enlarge_def run_elims run_simps copy_words_def Block_SetArg_def alloc_size_bounds(4)
        Let_def)
qed

theorem slow_push_pop_witness:
  "(\<exists>s1 s2. SlowPush (\<lambda>i. IntW 0) (BlkW 8) \<lparr>stk_top = 2, stk_array = [IntW 1, IntW 2]\<rparr> = Some s1 \<and>
     SlowPop s1 = Some (BlkW 8, s2) \<and> stack_elems s2 = [IntW 1, IntW 2]) \<and>
   SlowPush (\<lambda>i. IntW 0) (BlkW 8) \<lparr>stk_top = 1, stk_array = [IntW 1]\<rparr> = None"
  using slow_push_pop [of "\<lparr>stk_top = 2, stk_array = [IntW 1, IntW 2]\<rparr>" "\<lambda>i. IntW 0" "BlkW 8"]
    slow_push_pop [of "\<lparr>stk_top = 1, stk_array = [IntW 1]\<rparr>" "\<lambda>i. IntW 0" "BlkW 8"]
  by (auto simp: stack_inv_def stack_elems_def)

end
