(* ===== verification/Dynamic_Array.thy ===== *)
theory Dynamic_Array
  imports Store_Array
begin

text \<open>
  The unbounded array of \<^verbatim>\<open>seam/adt/DynamicArray.cc\<close> and the growable set of \<^verbatim>\<open>seam/store/Set.hh\<close>, which is a
  \<^verbatim>\<open>DynamicBlock\<close> (\<^verbatim>\<open>seam/store/Value.hh\<close>): a block whose first argument counts the active ones. The word
  \<^verbatim>\<open>INVALID_ARRAY_ELEM\<close> is an argument, since it is the address of a block that \<^verbatim>\<open>Init\<close> allocates.
\<close>

section \<open>DynamicArray\<close>

record dynarray =
  da_size :: nat
  da_init :: store_word
  da_array :: "store_word list"

text \<open>The loops \<^verbatim>\<open>for (i = n; i--;) a->InitArg(i, v)\<close> and \<^verbatim>\<open>for (i = n; i--;) newA->InitArg(i, a->GetArg(i))\<close>.\<close>

primrec fill_down :: "store_word list \<Rightarrow> nat \<Rightarrow> store_word \<Rightarrow> store_word list option" where
  "fill_down a 0 v = Some a"
| "fill_down a (Suc i) v = do { b \<leftarrow> Block_SetArg a i v; fill_down b i v }"

primrec copy_down :: "store_word list \<Rightarrow> store_word list \<Rightarrow> nat \<Rightarrow> store_word list option" where
  "copy_down dst src 0 = Some dst"
| "copy_down dst src (Suc i) = do { v \<leftarrow> Block_GetArg src i; b \<leftarrow> Block_SetArg dst i v; copy_down b src i }"

function fill_up :: "store_word list \<Rightarrow> nat \<Rightarrow> nat \<Rightarrow> store_word \<Rightarrow> store_word list option" where
  "fill_up a i n v = (if i < n then do { b \<leftarrow> Block_SetArg a i v; fill_up b (Suc i) n v } else Some a)"
  by pat_completeness auto
termination by (relation "measure (\<lambda>(a, i, n, v). n - i)") auto

declare fill_up.simps [simp del]

definition DynamicArray_New :: "junk \<Rightarrow> store_word \<Rightarrow> nat \<Rightarrow> dynarray option" where
  "DynamicArray_New junk invalid n = do {
     a \<leftarrow> alloc_array junk n;
     Some \<lparr>da_size = n, da_init = invalid, da_array = a\<rparr> }"

definition DynamicArray_NewInit :: "junk \<Rightarrow> nat \<Rightarrow> store_word \<Rightarrow> dynarray option" where
  "DynamicArray_NewInit junk n initElem = do {
     a \<leftarrow> alloc_array junk n;
     a \<leftarrow> fill_down a n initElem;
     Some \<lparr>da_size = n, da_init = initElem, da_array = a\<rparr> }"

definition DynamicArray_GetLength :: "dynarray \<Rightarrow> nat" where
  "DynamicArray_GetLength d = da_size d"

definition EnlargeArray :: "junk \<Rightarrow> nat \<Rightarrow> dynarray \<Rightarrow> dynarray option" where
  "EnlargeArray junk upTo d = do {
     let len = DynamicArray_GetLength d;
     let newLength = (if len * 2 \<le> upTo then upTo + 1 else len * 2);
     newA \<leftarrow> alloc_array junk newLength;
     newA \<leftarrow> copy_down newA (da_array d) len;
     newA \<leftarrow> fill_up newA len newLength (da_init d);
     Some (d\<lparr>da_array := newA, da_size := newLength\<rparr>) }"

definition DynamicArray_Init :: "junk \<Rightarrow> nat \<Rightarrow> store_word \<Rightarrow> dynarray \<Rightarrow> dynarray option" where
  "DynamicArray_Init junk index v d = do {
     d1 \<leftarrow> (if index \<ge> DynamicArray_GetLength d then EnlargeArray junk 0 d else Some d);
     a \<leftarrow> Block_SetArg (da_array d1) index v;
     Some (d1\<lparr>da_array := a\<rparr>) }"

definition DynamicArray_Update :: "junk \<Rightarrow> nat \<Rightarrow> store_word \<Rightarrow> dynarray \<Rightarrow> dynarray option" where
  "DynamicArray_Update junk index v d = do {
     d1 \<leftarrow> (if index \<ge> DynamicArray_GetLength d then EnlargeArray junk index d else Some d);
     a \<leftarrow> Block_SetArg (da_array d1) index v;
     Some (d1\<lparr>da_array := a\<rparr>) }"

definition DynamicArray_Sub :: "store_word \<Rightarrow> nat \<Rightarrow> dynarray \<Rightarrow> store_word option" where
  "DynamicArray_Sub invalid index d =
     (if index \<ge> DynamicArray_GetLength d then Some invalid else Block_GetArg (da_array d) index)"

definition DynamicArray_Clear :: "dynarray \<Rightarrow> dynarray option" where
  "DynamicArray_Clear d = do {
     a \<leftarrow> fill_down (da_array d) (DynamicArray_GetLength d) (da_init d);
     Some (d\<lparr>da_array := a\<rparr>) }"

definition dynarray_inv :: "dynarray \<Rightarrow> bool" where
  "dynarray_inv d \<longleftrightarrow> da_size d \<le> length (da_array d)"

subsection \<open>The loops\<close>

lemma fill_down_run:
  "n \<le> length a \<Longrightarrow> fill_down a n v = Some (replicate n v @ drop n a)"
proof (induction n arbitrary: a)
  case (Suc n)
  then show ?case
    by (auto simp: run_simps intro!: nth_equalityI simp: nth_append nth_Cons' nth_list_update)
qed simp

lemma copy_down_run:
  "n \<le> length dst \<Longrightarrow> n \<le> length src \<Longrightarrow> copy_down dst src n = Some (take n src @ drop n dst)"
proof (induction n arbitrary: dst)
  case (Suc n)
  then show ?case
    by (auto simp: run_simps intro!: nth_equalityI simp: nth_append nth_list_update min_def)
qed simp

lemma fill_up_run:
  "i \<le> n \<Longrightarrow> n \<le> length a \<Longrightarrow> fill_up a i n v = Some (take i a @ replicate (n - i) v @ drop n a)"
proof (induction a i n v rule: fill_up.induct)
  case (1 a i n v)
  show ?case
  proof (cases "i < n")
    case True
    then have "fill_up a i n v = fill_up (a[i := v]) (Suc i) n v"
      using "1.prems" by (subst fill_up.simps) (simp add: run_simps)
    also have "\<dots> = Some (take (Suc i) (a[i := v]) @ replicate (n - Suc i) v @ drop n (a[i := v]))"
      using 1 True by (simp add: run_simps)
    also have "take (Suc i) (a[i := v]) @ replicate (n - Suc i) v @ drop n (a[i := v]) =
        take i a @ replicate (n - i) v @ drop n a"
      using True "1.prems" Suc_diff_Suc [of i n, symmetric] by (simp add: take_Suc_conv_app_nth)
    finally show ?thesis .
  qed (use "1.prems" in \<open>subst fill_up.simps, simp\<close>)
qed

lemma EnlargeArray_spec:
  assumes "dynarray_inv d" and "2 * da_size d \<le> 16777200" and "upTo < 16777200"
    and m: "m = (if da_size d * 2 \<le> upTo then upTo + 1 else da_size d * 2)"
  shows "\<exists>d'. EnlargeArray junk upTo d = Some d' \<and> dynarray_inv d' \<and> da_size d' = m \<and> da_init d' = da_init d \<and>
    (\<forall>i < m. da_array d' ! i = (if i < da_size d then da_array d ! i else da_init d))"
proof -
  have b: "m \<le> 16777200" "da_size d \<le> m" using assms(2,3) m by auto
  let ?n = "map junk [0..<alloc_size m]"
  let ?a = "take (da_size d) (da_array d) @ replicate (m - da_size d) (da_init d) @ drop m ?n"
  have l: "m \<le> length ?n" using alloc_size_bounds(1) [OF b(1)] by simp
  have s: "length (take (da_size d) (da_array d)) = da_size d" using assms(1) by (simp add: dynarray_inv_def)
  have "copy_down ?n (da_array d) (da_size d) = Some (take (da_size d) (da_array d) @ drop (da_size d) ?n)"
    by (rule copy_down_run) (use assms(1) l b in \<open>auto simp: dynarray_inv_def\<close>)
  moreover have "fill_up (take (da_size d) (da_array d) @ drop (da_size d) ?n) (da_size d) m (da_init d) = Some ?a"
    using b l s by (subst fill_up_run) (simp_all add: drop_map)
  ultimately have "EnlargeArray junk upTo d = Some (d\<lparr>da_array := ?a, da_size := m\<rparr>)"
    unfolding EnlargeArray_def Let_def DynamicArray_GetLength_def m [symmetric] using b by (simp add: run_simps)
  then show ?thesis using l b s by (auto simp: dynarray_inv_def nth_append)
qed

section \<open>Set\<close>

text \<open>A dynamic block: the number of active arguments and all arguments behind it.\<close>

record dynblock =
  db_active :: nat
  db_args :: "store_word list"

definition AllocDynamic :: "junk \<Rightarrow> nat \<Rightarrow> nat \<Rightarrow> dynblock option" where
  "AllocDynamic junk n scan = do {
     a \<leftarrow> alloc_array junk (n + 1);
     Some \<lparr>db_active = scan, db_args = tl a\<rparr> }"

definition SetActiveSize :: "nat \<Rightarrow> dynblock \<Rightarrow> dynblock option" where
  "SetActiveSize n p = do { Assert (n \<le> length (db_args p)); Some (p\<lparr>db_active := n\<rparr>) }"

definition DynamicBlock_GetArg :: "nat \<Rightarrow> dynblock \<Rightarrow> store_word option" where
  "DynamicBlock_GetArg f p = do { Assert (f < db_active p); Block_GetArg (db_args p) f }"

definition DynamicBlock_InitArg :: "nat \<Rightarrow> store_word \<Rightarrow> dynblock \<Rightarrow> dynblock option" where
  "DynamicBlock_InitArg f v p = do {
     Assert (f < db_active p);
     a \<leftarrow> Block_SetArg (db_args p) f v;
     Some (p\<lparr>db_args := a\<rparr>) }"

text \<open>\<^verbatim>\<open>memcpy\<close> of \<^verbatim>\<open>oldsize + 1\<close> words copies the active count together with the arguments.\<close>

definition Set_Enlarge :: "junk \<Rightarrow> nat \<Rightarrow> nat \<Rightarrow> dynblock \<Rightarrow> dynblock option" where
  "Set_Enlarge junk oldsize newsize p = do {
     n \<leftarrow> AllocDynamic junk newsize 0;
     a \<leftarrow> copy_words (db_args n) 0 (db_args p) 0 oldsize;
     Some \<lparr>db_active = db_active p, db_args = a\<rparr> }"

definition Set_Clear :: "dynblock \<Rightarrow> dynblock option" where
  "Set_Clear p = SetActiveSize 0 p"

definition Set_AddUnchecked :: "store_word \<Rightarrow> dynblock \<Rightarrow> dynblock option" where
  "Set_AddUnchecked v p = do {
     let top = db_active p;
     p1 \<leftarrow> SetActiveSize (top + 1) p;
     DynamicBlock_InitArg top v p1 }"

definition Set_Add :: "junk \<Rightarrow> store_word \<Rightarrow> dynblock \<Rightarrow> dynblock option" where
  "Set_Add junk v p = do {
     let top = db_active p;
     let max = length (db_args p);
     p1 \<leftarrow> (if top + 1 < max then Some p else Set_Enlarge junk max (max * 3 div 2) p);
     p2 \<leftarrow> SetActiveSize (top + 1) p1;
     DynamicBlock_InitArg top v p2 }"

definition Set_Export :: "junk \<Rightarrow> dynblock \<Rightarrow> dynblock option" where
  "Set_Export junk p = Set_Enlarge junk (db_active p) (db_active p) p"

definition Set_New :: "junk \<Rightarrow> nat \<Rightarrow> dynblock option" where
  "Set_New junk n = AllocDynamic junk n 0"

definition set_inv :: "dynblock \<Rightarrow> bool" where
  "set_inv p \<longleftrightarrow> db_active p \<le> length (db_args p)"

definition set_members :: "dynblock \<Rightarrow> store_word list" where
  "set_members p = take (db_active p) (db_args p)"

lemma AllocDynamic_run:
  assumes "n < 16777200"
  shows "\<exists>a. AllocDynamic junk n k = Some \<lparr>db_active = k, db_args = a\<rparr> \<and> n \<le> length a"
  using alloc_size_bounds(1) [of "n + 1"] assms by (auto simp: AllocDynamic_def run_simps)

lemma Set_Enlarge_spec:
  assumes "set_inv p" and "newsize < 16777200" and "oldsize \<le> newsize" and "db_active p \<le> oldsize"
    and "oldsize \<le> length (db_args p)"
  shows "\<exists>p'. Set_Enlarge junk oldsize newsize p = Some p' \<and> set_inv p' \<and> db_active p' = db_active p \<and>
    set_members p' = set_members p \<and> newsize \<le> length (db_args p')"
proof -
  obtain a where "AllocDynamic junk newsize 0 = Some \<lparr>db_active = 0, db_args = a\<rparr>" "newsize \<le> length a"
    using AllocDynamic_run [OF assms(2), of junk 0] by blast
  then show ?thesis using assms
    by (auto simp: Set_Enlarge_def run_simps set_inv_def set_members_def min_def)
qed

lemma Set_AddUnchecked_spec:
  assumes "set_inv p" and "db_active p < length (db_args p)"
  shows "\<exists>p'. Set_AddUnchecked v p = Some p' \<and> set_inv p' \<and> set_members p' = set_members p @ [v]"
  using assms
  by (auto simp: Set_AddUnchecked_def SetActiveSize_def DynamicBlock_InitArg_def run_simps set_inv_def
      set_members_def take_Suc_conv_app_nth Let_def)

lemma Set_Add_unchecked:
  "Set_Add junk v p = (if db_active p + 1 < length (db_args p) then Set_AddUnchecked v p
     else do { p1 \<leftarrow> Set_Enlarge junk (length (db_args p)) (length (db_args p) * 3 div 2) p;
               p2 \<leftarrow> SetActiveSize (db_active p + 1) p1; DynamicBlock_InitArg (db_active p) v p2 })"
  by (simp add: Set_Add_def Set_AddUnchecked_def Let_def)

lemma Set_Add_spec:
  assumes "set_inv p" and "2 \<le> length (db_args p) \<or> db_active p < length (db_args p)"
    and "length (db_args p) * 3 div 2 < 16777200"
  shows "\<exists>p'. Set_Add junk v p = Some p' \<and> set_inv p' \<and> set_members p' = set_members p @ [v]"
proof (cases "db_active p + 1 < length (db_args p)")
  case True
  then show ?thesis using Set_AddUnchecked_spec [OF assms(1)] by (simp add: Set_Add_unchecked)
next
  case False
  let ?m = "length (db_args p)"
  have le: "?m \<le> ?m * 3 div 2" by simp
  obtain p1 where p1: "Set_Enlarge junk ?m (?m * 3 div 2) p = Some p1" "set_inv p1"
    "db_active p1 = db_active p" "set_members p1 = set_members p" "?m * 3 div 2 \<le> length (db_args p1)"
    using Set_Enlarge_spec [OF assms(1,3), of ?m junk] assms(1) le by (auto simp: set_inv_def)
  have "db_active p < ?m * 3 div 2" using assms(1,2) by (auto simp: set_inv_def)
  then have "\<exists>p'. Set_AddUnchecked v p1 = Some p' \<and> set_inv p' \<and> set_members p' = set_members p1 @ [v]"
    using p1 by (intro Set_AddUnchecked_spec) auto
  moreover have "Set_Add junk v p = Set_AddUnchecked v p1"
    using False p1(1,3) by (simp add: Set_Add_unchecked Set_AddUnchecked_def Let_def)
  ultimately show ?thesis using p1(4) by simp
qed

section \<open>Properties\<close>

lemma DynamicArray_Sub_eq:
  "dynarray_inv d \<Longrightarrow> DynamicArray_Sub invalid j d = Some (if j < da_size d then da_array d ! j else invalid)"
  by (auto simp: DynamicArray_Sub_def DynamicArray_GetLength_def dynarray_inv_def run_simps)



text \<open>
  C11. \<^verbatim>\<open>DynamicArray::Init\<close> only doubles the array, whatever the index: an index of twice the length or more
  (above 1 for an empty array) is written out of the bounds of the new array.
\<close>

theorem dynarray_init_out_of_bounds:
  assumes "dynarray_inv d" and "2 * da_size d \<le> 1048575" and "max 1 (2 * da_size d) \<le> i"
  shows "DynamicArray_Init junk i v d = None"
proof -
  define m where "m = (if da_size d * 2 \<le> 0 then 0 + 1 else da_size d * 2)"
  have m: "m \<le> 1048575" "m \<le> i" using assms(2,3) by (auto simp: m_def)
  then have "alloc_size m = m" by (simp add: alloc_size_eq)
  then have "length newA = m" if "EnlargeArray junk 0 d = Some d'" "newA = da_array d'" for d' newA
    using that m assms(1) unfolding EnlargeArray_def Let_def DynamicArray_GetLength_def m_def [symmetric]
    by (auto simp: run_elims copy_down_run fill_up_run dynarray_inv_def m_def split: if_splits)
  then have "Block_SetArg (da_array d') i v = None" if "EnlargeArray junk 0 d = Some d'" for d'
    using that m(2) by (auto simp: Block_SetArg_def)
  moreover have "da_size d \<le> i" using assms(3) by auto
  ultimately show ?thesis
    by (cases "EnlargeArray junk 0 d") (auto simp: DynamicArray_Init_def DynamicArray_GetLength_def)
qed

theorem dynarray_init_out_of_bounds_witness:
  "DynamicArray_Init (\<lambda>i. IntW 1) 4 (IntW 7) \<lparr>da_size = 2, da_init = IntW 0, da_array = [IntW 3, IntW 4]\<rparr> = None"
  by (rule dynarray_init_out_of_bounds) (simp_all add: dynarray_inv_def)

text \<open>
  The store's sets (inter-generational, weak dictionaries, finalization). \<^verbatim>\<open>Add\<close> appends a member to a
  set of capacity at least two or with a free slot, enlarging the block when the last slot is reached;
  \<^verbatim>\<open>Export\<close> copies exactly the members; but \<^verbatim>\<open>Add\<close> on a full set of capacity at most one violates the
  bound of the active size.
\<close>

theorem set_add_export:
  assumes "set_inv p" and "length (db_args p) * 3 div 2 < 16777200"
  shows "(if 2 \<le> length (db_args p) \<or> db_active p < length (db_args p)
      then \<exists>p'. Set_Add junk v p = Some p' \<and> set_inv p' \<and> set_members p' = set_members p @ [v]
      else Set_Add junk v p = None) \<and>
    (\<exists>p'. Set_Export junk p = Some p' \<and> set_inv p' \<and> set_members p' = set_members p)"
proof
  show "if 2 \<le> length (db_args p) \<or> db_active p < length (db_args p)
      then \<exists>p'. Set_Add junk v p = Some p' \<and> set_inv p' \<and> set_members p' = set_members p @ [v]
      else Set_Add junk v p = None"
  proof (cases "2 \<le> length (db_args p) \<or> db_active p < length (db_args p)")
    case True
    then show ?thesis using Set_Add_spec [OF assms(1) _ assms(2)] by simp
  next
    case False
    let ?m = "length (db_args p)"
    have m: "?m * 3 div 2 = ?m" "db_active p = ?m" "?m \<le> 1" using False assms(1) by (auto simp: set_inv_def)
    then have "alloc_size (?m + 1) = ?m + 1" by (simp add: alloc_size_eq)
    then have "length (db_args p1) = ?m" if "Set_Enlarge junk ?m ?m p = Some p1" for p1
      using that by (auto simp: Set_Enlarge_def AllocDynamic_def run_elims dest!: length_copy_words)
    then show ?thesis using m False
      by (cases "Set_Enlarge junk ?m ?m p") (auto simp: Set_Add_def Let_def SetActiveSize_def)
  qed
  have "db_active p < 16777200" using assms by (auto simp: set_inv_def)
  then show "\<exists>p'. Set_Export junk p = Some p' \<and> set_inv p' \<and> set_members p' = set_members p"
    using Set_Enlarge_spec [OF assms(1), of "db_active p" "db_active p" junk] assms(1)
    by (auto simp: Set_Export_def set_inv_def)
qed

theorem set_add_export_witness:
  "(\<exists>p'. Set_Add (\<lambda>i. IntW 1) (BlkW 12) \<lparr>db_active = 2, db_args = [BlkW 4, BlkW 8]\<rparr> = Some p' \<and>
      set_members p' = [BlkW 4, BlkW 8, BlkW 12]) \<and>
   Set_Add (\<lambda>i. IntW 1) (BlkW 12) \<lparr>db_active = 1, db_args = [BlkW 4]\<rparr> = None"
  using set_add_export [of "\<lparr>db_active = 2, db_args = [BlkW 4, BlkW 8]\<rparr>" "\<lambda>i. IntW 1" "BlkW 12"]
    set_add_export [of "\<lparr>db_active = 1, db_args = [BlkW 4]\<rparr>" "\<lambda>i. IntW 1" "BlkW 12"]
  by (auto simp: set_inv_def set_members_def)

end
