(* ===== verification/Base_Map.thy ===== *)
theory Base_Map
  imports Store_Array
begin

text \<open>
  The hash tables of the store (\<^verbatim>\<open>seam/store/BaseMap.cc\<close>, \<^verbatim>\<open>BaseMap.hh\<close>, \<^verbatim>\<open>MapNode.hh\<close>, \<^verbatim>\<open>Map.cc\<close>, \<^verbatim>\<open>WeakMap.hh\<close>,
  \<^verbatim>\<open>seam/adt/IntMap.hh\<close>, \<^verbatim>\<open>seam/adt/ChunkMap.cc\<close>).

  A map is its counter, the fill threshold and the table. The chain of \<^verbatim>\<open>MapNode\<close>s of an entry is the list of
  their keys and values (nodes are never shared), and \<^verbatim>\<open>FindKey\<close> returns the position of the node, so that
  \<^verbatim>\<open>prev\<close> is the node before it. An entry of the table is \<open>None\<close> as long as it is not initialized. The template
  argument \<open>T\<close> is a pair of functions, \<open>hash\<close> and \<open>equals\<close>, and \<open>key_ok\<close> is the assertion on keys; the
  locale \<open>map_key\<close> states what the table needs of them, and is interpreted for the four key classes of the
  code. The locale \<open>map_contract\<close> is what clients of a map rely on.
\<close>

section \<open>Data\<close>

type_synonym ('k, 'v) chain = "('k \<times> 'v) list"
type_synonym 'k hasher = "'k \<Rightarrow> nat \<Rightarrow> nat"

record ('k, 'v) basemap =
  bm_counter :: nat
  bm_percent :: nat
  bm_table :: "('k, 'v) chain option list"

section \<open>The operations of BaseMap\<close>

definition GetEntry :: "nat \<Rightarrow> ('k, 'v) basemap \<Rightarrow> ('k, 'v) chain option" where
  "GetEntry i m = (if i < length (bm_table m) then bm_table m ! i else None)"

definition SetEntry :: "nat \<Rightarrow> ('k, 'v) chain \<Rightarrow> ('k, 'v) basemap \<Rightarrow> ('k, 'v) basemap option" where
  "SetEntry i c m = do {
     Assert (i < length (bm_table m));
     Some (m\<lparr>bm_table := (bm_table m)[i := Some c]\<rparr>) }"

fun FindKey :: "('k \<Rightarrow> 'k \<Rightarrow> bool) \<Rightarrow> 'k \<Rightarrow> ('k, 'v) chain \<Rightarrow> nat option" where
  "FindKey equals key [] = None"
| "FindKey equals key ((k, v) # nodes) = (if equals key k then Some 0 else map_option Suc (FindKey equals key nodes))"

text \<open>Unlinking the node at position \<open>p\<close> of the chain of entry \<open>i\<close>.\<close>

definition RemoveEntry :: "nat \<Rightarrow> nat \<Rightarrow> ('k, 'v) basemap \<Rightarrow> ('k, 'v) basemap option" where
  "RemoveEntry i p m = do {
     nodes \<leftarrow> GetEntry i m;
     m1 \<leftarrow> SetEntry i (take p nodes @ drop (Suc p) nodes) m;
     Some (m1\<lparr>bm_counter := bm_counter m1 - 1\<rparr>) }"

text \<open>The reinsertion loops of \<^verbatim>\<open>Resize\<close>: entries from the last to the first, each chain from its head.\<close>

fun reinsert_chain :: "'k hasher \<Rightarrow> ('k, 'v) chain \<Rightarrow> ('k, 'v) basemap \<Rightarrow> ('k, 'v) basemap option" where
  "reinsert_chain hash [] m = Some m"
| "reinsert_chain hash ((k, v) # nodes) m = do {
     let h = hash k (length (bm_table m));
     keyNodes \<leftarrow> GetEntry h m;
     m1 \<leftarrow> SetEntry h ((k, v) # keyNodes) m;
     reinsert_chain hash nodes m1 }"

fun reinsert :: "'k hasher \<Rightarrow> ('k, 'v) chain option list \<Rightarrow> ('k, 'v) basemap \<Rightarrow> ('k, 'v) basemap option" where
  "reinsert hash [] m = Some m"
| "reinsert hash (e # es) m = do { nodes \<leftarrow> e; m1 \<leftarrow> reinsert_chain hash nodes m; reinsert hash es m1 }"

text \<open>The loop that initializes the entries of a table from entry \<open>n - 1\<close> down to the first.\<close>

primrec init_table :: "nat \<Rightarrow> ('k, 'v) chain option list \<Rightarrow> ('k, 'v) chain option list option" where
  "init_table 0 t = Some t"
| "init_table (Suc i) t = do { Assert (i < length t); init_table i (t[i := Some []]) }"

definition Resize :: "'k hasher \<Rightarrow> ('k, 'v) basemap \<Rightarrow> ('k, 'v) basemap option" where
  "Resize hash m = do {
     let oldsize = length (bm_table m);
     let newsize = 3 * oldsize div 2;
     Assert (newsize > oldsize);
     Assert (newsize \<le> unat MAX_BIGBLOCKSIZE);
     let newsize = alloc_size newsize;
     newp \<leftarrow> init_table newsize (replicate newsize None);
     reinsert hash (rev (bm_table m)) (m\<lparr>bm_percent := 1 + newsize * 3 div 4, bm_table := newp\<rparr>) }"

definition Map_Put :: "'k hasher \<Rightarrow> ('k \<Rightarrow> 'k \<Rightarrow> bool) \<Rightarrow> ('k \<Rightarrow> bool) \<Rightarrow> 'k \<Rightarrow> 'v \<Rightarrow>
    ('k, 'v) basemap \<Rightarrow> ('k, 'v) basemap option" where
  "Map_Put hash equals key_ok key v m = do {
     Assert (key_ok key);
     m1 \<leftarrow> (if bm_counter m > bm_percent m then Resize hash m else Some m);
     let h = hash key (length (bm_table m1));
     nodes \<leftarrow> GetEntry h m1;
     case FindKey equals key nodes of
       Some p \<Rightarrow> SetEntry h (nodes[p := (key, v)]) m1
     | None \<Rightarrow> do {
         m2 \<leftarrow> SetEntry h ((key, v) # nodes) m1;
         Some (m2\<lparr>bm_counter := bm_counter m2 + 1\<rparr>) } }"

definition Map_Remove :: "'k hasher \<Rightarrow> ('k \<Rightarrow> 'k \<Rightarrow> bool) \<Rightarrow> ('k \<Rightarrow> bool) \<Rightarrow> 'k \<Rightarrow>
    ('k, 'v) basemap \<Rightarrow> ('k, 'v) basemap option" where
  "Map_Remove hash equals key_ok key m = do {
     Assert (key_ok key);
     let h = hash key (length (bm_table m));
     nodes \<leftarrow> GetEntry h m;
     case FindKey equals key nodes of Some p \<Rightarrow> RemoveEntry h p m | None \<Rightarrow> Some m }"

definition Map_IsMember :: "'k hasher \<Rightarrow> ('k \<Rightarrow> 'k \<Rightarrow> bool) \<Rightarrow> ('k \<Rightarrow> bool) \<Rightarrow> 'k \<Rightarrow>
    ('k, 'v) basemap \<Rightarrow> bool option" where
  "Map_IsMember hash equals key_ok key m = do {
     Assert (key_ok key);
     nodes \<leftarrow> GetEntry (hash key (length (bm_table m))) m;
     Some (FindKey equals key nodes \<noteq> None) }"

definition Map_Get :: "'k hasher \<Rightarrow> ('k \<Rightarrow> 'k \<Rightarrow> bool) \<Rightarrow> ('k \<Rightarrow> bool) \<Rightarrow> 'k \<Rightarrow>
    ('k, 'v) basemap \<Rightarrow> 'v option" where
  "Map_Get hash equals key_ok key m = do {
     Assert (key_ok key);
     nodes \<leftarrow> GetEntry (hash key (length (bm_table m))) m;
     p \<leftarrow> FindKey equals key nodes;
     Some (snd (nodes ! p)) }"

definition Map_CondGet :: "'k hasher \<Rightarrow> ('k \<Rightarrow> 'k \<Rightarrow> bool) \<Rightarrow> ('k \<Rightarrow> bool) \<Rightarrow> 'k \<Rightarrow> 'v \<Rightarrow>
    ('k, 'v) basemap \<Rightarrow> 'v option" where
  "Map_CondGet hash equals key_ok key alternative m = do {
     Assert (key_ok key);
     nodes \<leftarrow> GetEntry (hash key (length (bm_table m))) m;
     Some (case FindKey equals key nodes of None \<Rightarrow> alternative | Some p \<Rightarrow> snd (nodes ! p)) }"

definition Map_GetSize :: "('k, 'v) basemap \<Rightarrow> nat" where
  "Map_GetSize m = bm_counter m"

definition Map_Clear :: "('k, 'v) basemap \<Rightarrow> ('k, 'v) basemap option" where
  "Map_Clear m = do {
     t \<leftarrow> init_table (length (bm_table m)) (bm_table m);
     Some (m\<lparr>bm_counter := 0, bm_table := t\<rparr>) }"

definition Map_IsEmpty :: "('k, 'v) basemap \<Rightarrow> bool" where
  "Map_IsEmpty m \<longleftrightarrow> bm_counter m = 0"

text \<open>\<^verbatim>\<open>Fold\<close> and \<^verbatim>\<open>Apply\<close> visit the entries from the last to the first; \<^verbatim>\<open>Apply\<close> is the sequence of its calls.\<close>

fun fold_table :: "('k \<Rightarrow> 'v \<Rightarrow> 'a \<Rightarrow> 'a) \<Rightarrow> ('k, 'v) chain option list \<Rightarrow> 'a \<Rightarrow> 'a option" where
  "fold_table f [] acc = Some acc"
| "fold_table f (e # es) acc = do { nodes \<leftarrow> e; fold_table f es (fold (\<lambda>(k, v). f k v) nodes acc) }"

definition Map_Fold :: "('k \<Rightarrow> 'v \<Rightarrow> 'a \<Rightarrow> 'a) \<Rightarrow> 'a \<Rightarrow> ('k, 'v) basemap \<Rightarrow> 'a option" where
  "Map_Fold f acc m = fold_table f (rev (bm_table m)) acc"

definition Map_Apply :: "('k, 'v) basemap \<Rightarrow> ('k \<times> 'v) list option" where
  "Map_Apply m = map_option rev (Map_Fold (\<lambda>k v calls. (k, v) # calls) [] m)"

text \<open>\<^verbatim>\<open>PartialMap\<close>: \<open>p\<close> is the number of nodes of the chain that are kept so far (the last of them is \<^verbatim>\<open>prev\<close>).\<close>

fun partial_chain :: "('k \<Rightarrow> 'v \<Rightarrow> 'v option) \<Rightarrow> nat \<Rightarrow> nat \<Rightarrow> ('k, 'v) chain \<Rightarrow>
    ('k, 'v) basemap \<Rightarrow> ('k, 'v) basemap option" where
  "partial_chain func i p [] m = Some m"
| "partial_chain func i p ((k, v) # cur) m =
     (case func k v of
        None \<Rightarrow> do { m1 \<leftarrow> RemoveEntry i p m; partial_chain func i p cur m1 }
      | Some newValue \<Rightarrow> do {
          nodes \<leftarrow> GetEntry i m;
          m1 \<leftarrow> SetEntry i (nodes[p := (k, newValue)]) m;
          partial_chain func i (Suc p) cur m1 })"

primrec partial_entries :: "('k \<Rightarrow> 'v \<Rightarrow> 'v option) \<Rightarrow> nat \<Rightarrow> ('k, 'v) basemap \<Rightarrow> ('k, 'v) basemap option" where
  "partial_entries func 0 m = Some m"
| "partial_entries func (Suc i) m = do {
     nodes \<leftarrow> GetEntry i m;
     m1 \<leftarrow> partial_chain func i 0 nodes m;
     partial_entries func i m1 }"

definition Map_PartialMap :: "('k \<Rightarrow> 'v \<Rightarrow> 'v option) \<Rightarrow> ('k, 'v) basemap \<Rightarrow> ('k, 'v) basemap option" where
  "Map_PartialMap func m = partial_entries func (length (bm_table m)) m"

text \<open>\<^verbatim>\<open>New\<close> asks for at least two entries and initializes as many as it asked for; the table may be bigger.\<close>

definition BaseMap_New :: "nat \<Rightarrow> ('k, 'v) basemap option" where
  "BaseMap_New n = do {
     let n = (if n < 2 then 2 else n);
     Assert (n \<le> unat MAX_BIGBLOCKSIZE);
     arr \<leftarrow> init_table n (replicate (alloc_size n) None);
     Some \<lparr>bm_counter = 0, bm_percent = n * 3 div 4, bm_table = arr\<rparr> }"

section \<open>Rehashing (Map.cc)\<close>

text \<open>
  The inner loop of \<^verbatim>\<open>Map::Rehash\<close> on the chain of entry \<open>i\<close>: \<open>kept\<close> are the nodes up to \<^verbatim>\<open>prev\<close>, the list
  argument those from \<^verbatim>\<open>nodes\<close> on.
\<close>

fun rehash_chain :: "'k hasher \<Rightarrow> nat \<Rightarrow> ('k, 'v) chain \<Rightarrow> ('k, 'v) chain \<Rightarrow>
    ('k, 'v) basemap \<Rightarrow> ('k, 'v) basemap option" where
  "rehash_chain hash i kept [] m = Some m"
| "rehash_chain hash i kept ((k, v) # nodes) m =
     (let h = hash k (length (bm_table m))
      in if h \<noteq> i then do {
           m1 \<leftarrow> SetEntry i (kept @ nodes) m;
           c \<leftarrow> GetEntry h m1;
           m2 \<leftarrow> SetEntry h ((k, v) # c) m1;
           rehash_chain hash i kept nodes m2
         } else rehash_chain hash i (kept @ [(k, v)]) nodes m)"

primrec rehash_entries :: "'k hasher \<Rightarrow> nat \<Rightarrow> ('k, 'v) basemap \<Rightarrow> ('k, 'v) basemap option" where
  "rehash_entries hash 0 m = Some m"
| "rehash_entries hash (Suc i) m = do {
     nodes \<leftarrow> GetEntry i m;
     m1 \<leftarrow> rehash_chain hash i [] nodes m;
     rehash_entries hash i m1 }"

definition Rehash :: "'k hasher \<Rightarrow> ('k, 'v) basemap \<Rightarrow> ('k, 'v) basemap option" where
  "Rehash hash m = rehash_entries hash (length (bm_table m)) m"

section \<open>Key classes\<close>

text \<open>\<^verbatim>\<open>WordKey\<close> and \<^verbatim>\<open>TokenKey\<close>: the bits of the word; \<^verbatim>\<open>IntKey\<close>: the integer, converted to unsigned by the mixed \<^verbatim>\<open>%\<close>.\<close>

definition WordKey_Hash :: "store_word hasher" where
  "WordKey_Hash key s = unat (word_bits key) mod s"

definition WordKey_Equals :: "store_word \<Rightarrow> store_word \<Rightarrow> bool" where
  "WordKey_Equals a b \<longleftrightarrow> word_bits a = word_bits b"

definition IntKey_Hash :: "store_word hasher" where
  "IntKey_Hash key s = unat (word_of_int (DirectDecodeInt (word_bits key)) :: u_int) mod s"

text \<open>
  The assertions on a key. Every operation asserts that it is no transient (so \<^verbatim>\<open>Deref\<close> leaves it as it is); the hash
  functions of \<^verbatim>\<open>TokenKey\<close> and \<^verbatim>\<open>IntKey\<close> assert that it is an integer, the latter in \<^verbatim>\<open>Store::DirectWordToInt\<close>.
\<close>

definition no_transient :: "store_word \<Rightarrow> bool" where
  "no_transient key \<longleftrightarrow> (case key of TrW p \<Rightarrow> False | _ \<Rightarrow> True)"

definition token_ok :: "store_word \<Rightarrow> bool" where
  "token_ok key \<longleftrightarrow> no_transient key \<and> IsInt (word_bits key)"

definition int_key_ok :: "store_word \<Rightarrow> bool" where
  "int_key_ok key \<longleftrightarrow> no_transient key \<and> word_bits key AND INTMASK = INTTAG"

text \<open>\<^verbatim>\<open>ChunkKey\<close>: the bytes of a chunk, hashed as in Aho, Sethi, Ullman; \<^verbatim>\<open>char\<close> is signed.\<close>

fun HashString_loop :: "8 word list \<Rightarrow> u_int \<Rightarrow> u_int" where
  "HashString_loop [] h = h"
| "HashString_loop (p # ps) h =
     (let h = push_bit 4 h + scast p;
          g = h AND 0xf0000000
      in HashString_loop ps (if g \<noteq> 0 then (h XOR drop_bit 24 g) XOR g else h))"

definition HashString :: "8 word list \<Rightarrow> nat \<Rightarrow> nat" where
  "HashString s n = unat (HashString_loop s 0) mod n"

definition ChunkKey_Equals :: "8 word list \<Rightarrow> 8 word list \<Rightarrow> bool" where
  "ChunkKey_Equals a b \<longleftrightarrow> (if length a = length b then a = b else False)"

section \<open>Abstraction and invariant\<close>

text \<open>All nodes of a table, and the abstract map they stand for.\<close>

definition table_entries :: "('k, 'v) chain option list \<Rightarrow> ('k \<times> 'v) list" where
  "table_entries t = concat (map the t)"

abbreviation map_entries :: "('k, 'v) basemap \<Rightarrow> ('k \<times> 'v) list" where
  "map_entries m \<equiv> table_entries (bm_table m)"

definition assoc :: "('k \<Rightarrow> 'k \<Rightarrow> bool) \<Rightarrow> 'k \<Rightarrow> ('k \<times> 'v) list \<Rightarrow> 'v option" where
  "assoc equals key xs = map_option snd (find (\<lambda>x. equals key (fst x)) xs)"

definition map_lookup :: "('k \<Rightarrow> 'k \<Rightarrow> bool) \<Rightarrow> ('k, 'v) basemap \<Rightarrow> 'k \<Rightarrow> 'v option" where
  "map_lookup equals m key = assoc equals key (map_entries m)"

definition keys_distinct :: "('k \<Rightarrow> 'k \<Rightarrow> bool) \<Rightarrow> ('k \<times> 'v) list \<Rightarrow> bool" where
  "keys_distinct equals xs \<longleftrightarrow> sorted_wrt (\<lambda>x y. \<not> equals (fst x) (fst y)) xs"

definition entry_ok :: "'k hasher \<Rightarrow> nat \<Rightarrow> nat \<Rightarrow> ('k, 'v) chain option \<Rightarrow> bool" where
  "entry_ok hash n i e = (case e of None \<Rightarrow> False | Some c \<Rightarrow> (\<forall>x \<in> set c. hash (fst x) n = i))"

definition table_ok :: "'k hasher \<Rightarrow> ('k, 'v) chain option list \<Rightarrow> bool" where
  "table_ok hash t \<longleftrightarrow> (\<forall>i < length t. entry_ok hash (length t) i (t ! i))"

definition map_inv :: "'k hasher \<Rightarrow> ('k \<Rightarrow> 'k \<Rightarrow> bool) \<Rightarrow> ('k, 'v) basemap \<Rightarrow> bool" where
  "map_inv hash equals m \<longleftrightarrow> 2 \<le> length (bm_table m) \<and> length (bm_table m) \<le> 16777200 \<and>
     table_ok hash (bm_table m) \<and> keys_distinct equals (map_entries m) \<and> bm_counter m = length (map_entries m)"

text \<open>The table can still be resized, or need not be.\<close>

definition map_room :: "('k, 'v) basemap \<Rightarrow> bool" where
  "map_room m \<longleftrightarrow> bm_counter m \<le> bm_percent m \<or> 3 * length (bm_table m) div 2 \<le> 16777200"

definition keys_ok :: "('k \<Rightarrow> bool) \<Rightarrow> ('k, 'v) basemap \<Rightarrow> bool" where
  "keys_ok key_ok m \<longleftrightarrow> (\<forall>x \<in> set (map_entries m). key_ok (fst x))"

lemma init_table_eq: "n \<le> length t \<Longrightarrow> init_table n t = Some (replicate n (Some []) @ drop n t)"
proof (induction n arbitrary: t)
  case (Suc n)
  then have "init_table n (t[n := Some []]) = Some (replicate n (Some []) @ drop n (t[n := Some []]))" by simp
  moreover have "drop n (t[n := Some []]) = Some [] # drop (Suc n) t"
    using Suc.prems by (simp add: drop_update_cancel flip: Cons_nth_drop_Suc)
  ultimately show ?case using Suc.prems by (simp add: replicate_app_Cons_same)
qed simp

lemma init_table_all [simp]: "init_table (length t) t = Some (replicate (length t) (Some []))" "init_table n (replicate n None) = Some (replicate n (Some []))"
  by (simp_all add: init_table_eq)

lemma Map_Clear_eq: "Map_Clear m = Some (m\<lparr>bm_counter := 0, bm_table := replicate (length (bm_table m)) (Some [])\<rparr>)"
  by (simp add: Map_Clear_def)

lemma assoc_simps [simp]:
  "assoc equals k [] = None"
  "assoc equals k (x # xs) = (if equals k (fst x) then Some (snd x) else assoc equals k xs)"
  by (simp_all add: assoc_def)

lemma assoc_append: "assoc equals k (xs @ ys) = (case assoc equals k xs of None \<Rightarrow> assoc equals k ys | Some v \<Rightarrow> Some v)"
  by (induction xs) auto

lemma assoc_None: "assoc equals k xs = None \<longleftrightarrow> (\<forall>x \<in> set xs. \<not> equals k (fst x))"
  by (induction xs) auto

lemma assoc_SomeD: "assoc equals k xs = Some v \<Longrightarrow> \<exists>k'. (k', v) \<in> set xs \<and> equals k k'"
  by (induction xs) (auto split: if_splits)

lemma FindKey_assoc:
  "FindKey equals k c = None \<longleftrightarrow> assoc equals k c = None"
  "FindKey equals k c = Some p \<Longrightarrow> p < length c \<and> equals k (fst (c ! p)) \<and> assoc equals k c = Some (snd (c ! p))"
  by (induction equals k c arbitrary: p rule: FindKey.induct) (auto split: if_splits)

text \<open>One entry inside the list of all nodes.\<close>

lemma table_entries_split:
  assumes "i < length t" and "t ! i = Some c"
  obtains pre post where "table_entries t = pre @ c @ post"
    and "\<And>c'. table_entries (t[i := Some c']) = pre @ c' @ post"
proof -
  let ?pre = "concat (map the (take i t))" and ?post = "concat (map the (drop (Suc i) t))"
  have "table_entries t = ?pre @ c @ ?post"
    unfolding table_entries_def using assms by (subst id_take_nth_drop [OF assms(1)]) simp
  moreover have "table_entries (t[i := Some c']) = ?pre @ c' @ ?post" for c'
    using assms(1) by (simp add: table_entries_def upd_conv_take_nth_drop)
  ultimately show thesis by (rule that)
qed

lemma table_ok_entry:
  assumes "table_ok hash t" and "i < length t"
  obtains c where "t ! i = Some c" "\<And>x. x \<in> set c \<Longrightarrow> hash (fst x) (length t) = i"
proof -
  have "entry_ok hash (length t) i (t ! i)" using assms by (simp add: table_ok_def)
  then show thesis using that by (cases "t ! i") (auto simp: entry_ok_def)
qed

lemma table_ok_update:
  assumes "table_ok hash t" and "\<And>x. x \<in> set c \<Longrightarrow> hash (fst x) (length t) = i"
  shows "table_ok hash (t[i := Some c])"
  unfolding table_ok_def
proof (intro allI impI, goal_cases)
  case (1 j)
  then show ?case using assms by (cases "j = i") (auto simp: entry_ok_def [of _ _ i] table_ok_def)
qed

lemma table_entries_mem:
  assumes "table_ok hash t" and "x \<in> set (table_entries t)" and "hash (fst x) (length t) = i"
  shows "i < length t \<and> x \<in> set (the (t ! i))"
proof -
  obtain j where j: "j < length t" "x \<in> set (the (t ! j))"
    using assms(2) unfolding table_entries_def by (auto simp: in_set_conv_nth [of _ t])
  obtain c where "t ! j = Some c" "\<And>x. x \<in> set c \<Longrightarrow> hash (fst x) (length t) = j"
    using table_ok_entry [OF assms(1) j(1)] by blast
  then have "j = i" using j(2) assms(3) by auto
  with j show ?thesis by simp
qed

lemma table_entries_empty [simp]: "table_entries (replicate n (Some [])) = []"
  by (simp add: table_entries_def)

lemma table_ok_empty [simp]: "table_ok hash (replicate n (Some []))"
  by (simp add: table_ok_def entry_ok_def)

lemma sorted_wrt_perm:
  assumes "\<And>x y. P x y \<longleftrightarrow> P y x" and "mset xs = mset ys" and "sorted_wrt P xs"
  shows "sorted_wrt P ys"
  using assms(2,3)
proof (induction xs arbitrary: ys)
  case (Cons x xs)
  then have "x \<in> set ys" by (metis list.set_intros(1) mset_eq_setD)
  then obtain l r where ys: "ys = l @ x # r" by (meson split_list)
  then have m: "mset xs = mset (l @ r)" using Cons.prems by simp
  then have "sorted_wrt P (l @ r)" "set (l @ r) = set xs"
    using Cons.IH [OF m] Cons.prems(2) mset_eq_setD [OF m] by auto
  then show ?case using Cons.prems(2) assms(1) unfolding ys by (auto simp: sorted_wrt_insert)
qed simp

section \<open>What clients rely on\<close>

locale map_contract =
  fixes inv :: "'m \<Rightarrow> bool" and room :: "'m \<Rightarrow> bool" and count :: "'m \<Rightarrow> nat"
    and same :: "'k \<Rightarrow> 'k \<Rightarrow> bool" and legal :: "'k \<Rightarrow> bool" and lookup :: "'m \<Rightarrow> 'k \<Rightarrow> 'v option"
    and put :: "'k \<Rightarrow> 'v \<Rightarrow> 'm \<Rightarrow> 'm option" and rem :: "'k \<Rightarrow> 'm \<Rightarrow> 'm option" and get :: "'k \<Rightarrow> 'm \<Rightarrow> 'v option"
  assumes put_law: "inv m \<Longrightarrow> room m \<Longrightarrow> legal k \<Longrightarrow> \<exists>m'. put k v m = Some m' \<and> inv m' \<and>
      (\<forall>q. lookup m' q = (if same q k then Some v else lookup m q)) \<and>
      count m' = count m + (if lookup m k = None then 1 else 0)"
    and rem_law: "inv m \<Longrightarrow> legal k \<Longrightarrow> \<exists>m'. rem k m = Some m' \<and> inv m' \<and>
      (\<forall>q. lookup m' q = (if same q k then None else lookup m q)) \<and>
      count m' = count m - (if lookup m k = None then 0 else 1)"
    and get_law: "inv m \<Longrightarrow> legal k \<Longrightarrow> get k m = lookup m k"
    and same_refl: "same k k"
begin

lemma get_after_put:
  assumes "inv m" and "room m" and "legal k" and "legal q" and "put k v m = Some m'"
  shows "get q m' = (if same q k then Some v else get q m)"
  using put_law [OF assms(1-3), of v] assms(4,5) get_law [OF assms(1,4)] get_law [of m' q] by auto

lemma put_rem_absent:
  assumes "inv m" and "room m" and "legal k" and "lookup m k = None"
    and "\<And>q. same q k \<Longrightarrow> lookup m q = None"
  shows "\<exists>m1 m2. put k v m = Some m1 \<and> rem k m1 = Some m2 \<and> inv m2 \<and> lookup m2 = lookup m \<and> count m2 = count m"
proof -
  obtain m1 where m1: "put k v m = Some m1" "inv m1" "\<forall>q. lookup m1 q = (if same q k then Some v else lookup m q)"
    "count m1 = count m + 1" using put_law [OF assms(1-3), of v] assms(4) by auto
  obtain m2 where m2: "rem k m1 = Some m2" "inv m2" "\<forall>q. lookup m2 q = (if same q k then None else lookup m1 q)"
    "count m2 = count m1 - (if lookup m1 k = None then 0 else 1)" using rem_law [OF m1(2) assms(3)] by blast
  have "lookup m2 = lookup m" using m1(3) m2(3) assms(5) by (intro ext) auto
  then show ?thesis using m1 m2 same_refl [of k] by auto
qed

end

section \<open>What the table needs of its keys\<close>

locale map_key =
  fixes hash :: "'k hasher" and equals :: "'k \<Rightarrow> 'k \<Rightarrow> bool" and key_ok :: "'k \<Rightarrow> bool"
  assumes equals_refl: "equals k k"
    and equals_sym: "equals k k' \<Longrightarrow> equals k' k"
    and equals_trans: "equals k k' \<Longrightarrow> equals k' k'' \<Longrightarrow> equals k k''"
    and hash_equals: "equals k k' \<Longrightarrow> hash k n = hash k' n"
    and hash_bound: "0 < n \<Longrightarrow> hash k n < n"
begin

lemma equals_commute: "equals k k' \<longleftrightarrow> equals k' k"
  using equals_sym by blast

lemma keys_distinct_perm: "mset xs = mset ys \<Longrightarrow> keys_distinct equals xs \<Longrightarrow> keys_distinct equals ys"
  unfolding keys_distinct_def by (rule sorted_wrt_perm) (auto simp: equals_commute)

lemma keys_distinct_same:
  assumes "keys_distinct equals xs" and "x \<in> set xs" "y \<in> set xs" and "equals (fst x) (fst y)"
  shows "x = y"
proof (rule ccontr)
  assume "x \<noteq> y"
  then have "\<not> equals (fst x) (fst y)"
    using assms sorted_wrt_distinct [of "\<lambda>x y. \<not> equals (fst x) (fst y)" "\<lambda>x. x" xs x y]
    by (simp add: keys_distinct_def equals_commute)
  with assms(4) show False by simp
qed

lemma assoc_Some:
  assumes "keys_distinct equals xs"
  shows "assoc equals k xs = Some v \<longleftrightarrow> (\<exists>k'. (k', v) \<in> set xs \<and> equals k k')"
proof
  assume "\<exists>k'. (k', v) \<in> set xs \<and> equals k k'"
  then obtain k' where k': "(k', v) \<in> set xs" "equals k k'" by blast
  then obtain w where w: "assoc equals k xs = Some w" using assoc_None [of equals k xs] by fastforce
  then obtain k'' where "(k'', w) \<in> set xs" "equals k k''" using assoc_SomeD by metis
  then have "(k', v) = (k'', w)"
    using keys_distinct_same [OF assms k'(1)] k'(2) equals_sym equals_trans by (metis fst_conv)
  then show "assoc equals k xs = Some v" using w by simp
qed (rule assoc_SomeD)

lemma assoc_perm: "keys_distinct equals xs \<Longrightarrow> mset xs = mset ys \<Longrightarrow> assoc equals k xs = assoc equals k ys"
  using assoc_Some [of xs k] assoc_Some [of ys k] keys_distinct_perm [of xs ys] mset_eq_setD [of xs ys]
  by (metis option.exhaust_sel)

text \<open>A lookup in the chain of the hashed entry sees the whole table.\<close>

lemma assoc_chain:
  assumes "table_ok hash t" and "keys_distinct equals (table_entries t)" and "0 < length t"
    and h: "h = hash k (length t)" and "t ! h = Some c"
  shows "assoc equals k c = assoc equals k (table_entries t)"
proof -
  have lt: "h < length t" using hash_bound [OF assms(3)] h by simp
  obtain pre post where sp: "table_entries t = pre @ c @ post" using table_entries_split [OF lt assms(5)] by metis
  have "keys_distinct equals c"
    using assms(2) by (simp add: sp keys_distinct_def sorted_wrt_append)
  moreover have "x \<in> set c" if "x \<in> set (table_entries t)" "equals k (fst x)" for x
    using table_entries_mem [OF assms(1) that(1), of h] hash_equals [OF that(2)] h assms(5) by auto
  ultimately have "assoc equals k c = Some v \<longleftrightarrow> assoc equals k (table_entries t) = Some v" for v
    using assoc_Some [OF assms(2), of k v] assoc_Some [of c k v] sp by fastforce
  then show ?thesis by (metis option.exhaust_sel)
qed

lemma map_inv_entry:
  assumes "map_inv hash equals m" and "h = hash k (length (bm_table m))"
  obtains c where "GetEntry h m = Some c" "h < length (bm_table m)" "bm_table m ! h = Some c"
    "\<And>x. x \<in> set c \<Longrightarrow> hash (fst x) (length (bm_table m)) = h" "assoc equals k c = map_lookup equals m k"
proof -
  have n: "0 < length (bm_table m)" "table_ok hash (bm_table m)" "keys_distinct equals (map_entries m)"
    using assms(1) by (auto simp: map_inv_def)
  have h: "h < length (bm_table m)" using hash_bound [OF n(1)] assms(2) by simp
  obtain c where c: "bm_table m ! h = Some c" "\<And>x. x \<in> set c \<Longrightarrow> hash (fst x) (length (bm_table m)) = h"
    using table_ok_entry [OF n(2) h] by blast
  show thesis
    using that [OF _ h c] assoc_chain [OF n(2,3,1) assms(2) c(1)] h c(1) by (simp add: GetEntry_def map_lookup_def)
qed

subsection \<open>Lookups\<close>

lemma lookups_spec:
  assumes "map_inv hash equals m" and "key_ok key"
  shows "Map_Get hash equals key_ok key m = map_lookup equals m key"
    "Map_CondGet hash equals key_ok key alt m =
       Some (case map_lookup equals m key of None \<Rightarrow> alt | Some v \<Rightarrow> v)"
    "Map_IsMember hash equals key_ok key m = Some (map_lookup equals m key \<noteq> None)"
proof -
  obtain c where c: "GetEntry (hash key (length (bm_table m))) m = Some c" "assoc equals key c = map_lookup equals m key"
    using map_inv_entry [OF assms(1) refl, of key] by metis
  show "Map_Get hash equals key_ok key m = map_lookup equals m key"
    "Map_CondGet hash equals key_ok key alt m = Some (case map_lookup equals m key of None \<Rightarrow> alt | Some v \<Rightarrow> v)"
    "Map_IsMember hash equals key_ok key m = Some (map_lookup equals m key \<noteq> None)"
    using c FindKey_assoc [of equals key c] assms(2)
    by (cases "FindKey equals key c"; auto simp: Map_Get_def Map_CondGet_def Map_IsMember_def)+
qed

subsection \<open>Resizing\<close>

lemma reinsert_chain_spec:
  assumes "table_ok hash (bm_table m)" and "0 < length (bm_table m)"
  shows "\<exists>m'. reinsert_chain hash nodes m = Some m' \<and> table_ok hash (bm_table m') \<and>
    length (bm_table m') = length (bm_table m) \<and> bm_counter m' = bm_counter m \<and> bm_percent m' = bm_percent m \<and>
    mset (map_entries m') = mset nodes + mset (map_entries m)"
  using assms
proof (induction nodes arbitrary: m)
  case (Cons x nodes)
  obtain k v where x: "x = (k, v)" by (cases x)
  let ?h = "hash k (length (bm_table m))"
  have h: "?h < length (bm_table m)" using hash_bound [OF Cons.prems(2)] by simp
  obtain c where c: "bm_table m ! ?h = Some c" "\<And>x. x \<in> set c \<Longrightarrow> hash (fst x) (length (bm_table m)) = ?h"
    using table_ok_entry [OF Cons.prems(1) h] by blast
  let ?m1 = "m\<lparr>bm_table := (bm_table m)[?h := Some ((k, v) # c)]\<rparr>"
  obtain pre post where e: "map_entries m = pre @ c @ post"
    "\<And>c'. table_entries ((bm_table m)[?h := Some c']) = pre @ c' @ post"
    using table_entries_split [OF h c(1)] by blast
  have "table_ok hash ((bm_table m)[?h := Some ((k, v) # c)])"
    by (rule table_ok_update [OF Cons.prems(1)]) (use c(2) in auto)
  then obtain m' where "reinsert_chain hash nodes ?m1 = Some m'" "table_ok hash (bm_table m')"
    "length (bm_table m') = length (bm_table ?m1)" "bm_counter m' = bm_counter ?m1" "bm_percent m' = bm_percent ?m1"
    "mset (map_entries m') = mset nodes + mset (map_entries ?m1)"
    using Cons.IH [of ?m1] Cons.prems(2) by auto
  then show ?case using h c(1) e by (simp add: x GetEntry_def SetEntry_def Let_def)
qed simp

lemma reinsert_spec:
  assumes "table_ok hash (bm_table m)" and "0 < length (bm_table m)" and "\<forall>e \<in> set es. e \<noteq> None"
  shows "\<exists>m'. reinsert hash es m = Some m' \<and> table_ok hash (bm_table m') \<and>
    length (bm_table m') = length (bm_table m) \<and> bm_counter m' = bm_counter m \<and> bm_percent m' = bm_percent m \<and>
    mset (map_entries m') = mset (table_entries es) + mset (map_entries m)"
  using assms
proof (induction es arbitrary: m)
  case (Cons e es)
  then obtain c where e: "e = Some c" by auto
  obtain m1 where m1: "reinsert_chain hash c m = Some m1" "table_ok hash (bm_table m1)"
    "length (bm_table m1) = length (bm_table m)" "bm_counter m1 = bm_counter m" "bm_percent m1 = bm_percent m"
    "mset (map_entries m1) = mset c + mset (map_entries m)"
    using reinsert_chain_spec [OF Cons.prems(1,2), of c] by blast
  then show ?case using Cons.IH [of m1] Cons.prems by (auto simp: e table_entries_def)
qed (simp add: table_entries_def)

lemma Resize_spec:
  assumes "map_inv hash equals m" and "3 * length (bm_table m) div 2 \<le> 16777200"
  shows "\<exists>m'. Resize hash m = Some m' \<and> map_inv hash equals m' \<and> bm_counter m' = bm_counter m \<and>
    mset (map_entries m') = mset (map_entries m) \<and> bm_percent m' = 1 + length (bm_table m') * 3 div 4 \<and>
    length (bm_table m) < length (bm_table m')"
proof -
  let ?n = "3 * length (bm_table m) div 2"
  let ?m0 = "m\<lparr>bm_percent := 1 + alloc_size ?n * 3 div 4, bm_table := replicate (alloc_size ?n) (Some [])\<rparr>"
  have inv: "2 \<le> length (bm_table m)" "table_ok hash (bm_table m)" "keys_distinct equals (map_entries m)"
    "bm_counter m = length (map_entries m)" using assms(1) by (auto simp: map_inv_def)
  then have big: "length (bm_table m) < ?n" by auto
  have al: "?n \<le> alloc_size ?n" "alloc_size ?n \<le> 16777200" using alloc_size_bounds [OF assms(2)] by auto
  have "e \<noteq> None" if "e \<in> set (rev (bm_table m))" for e
    using that table_ok_entry [OF inv(2)] by (fastforce simp: in_set_conv_nth)
  then obtain m' where m': "reinsert hash (rev (bm_table m)) ?m0 = Some m'" "table_ok hash (bm_table m')"
    "length (bm_table m') = alloc_size ?n" "bm_counter m' = bm_counter m" "bm_percent m' = 1 + alloc_size ?n * 3 div 4"
    "mset (map_entries m') = mset (table_entries (rev (bm_table m)))"
    using reinsert_spec [of ?m0 "rev (bm_table m)"] big al by auto
  have "mset (table_entries (rev t)) = mset (table_entries t)" for t :: "('k, 'v) chain option list"
    by (induction t) (auto simp: table_entries_def)
  with m' have ms: "mset (map_entries m') = mset (map_entries m)" by simp
  then have "map_inv hash equals m'"
    using m' inv big al keys_distinct_perm [OF ms [symmetric] inv(3)] mset_eq_length [OF ms]
    by (simp add: map_inv_def)
  moreover have "Resize hash m = Some m'"
    using m'(1) big assms(2) by (simp add: Resize_def Let_def)
  ultimately show ?thesis using m' ms big al by auto
qed

subsection \<open>Updates\<close>

text \<open>Replacing one node by one with an equal key, and dropping one, in the list of all nodes.\<close>

lemma keys_distinct_replace:
  assumes "keys_distinct equals (xs @ (k, v) # ys)" and "equals key k"
  shows "keys_distinct equals (xs @ (key, w) # ys)"
    "assoc equals q (xs @ (key, w) # ys) = (if equals q key then Some w else assoc equals q (xs @ (k, v) # ys))"
proof -
  have e: "equals q key \<longleftrightarrow> equals q k" "equals key q \<longleftrightarrow> equals k q" for q
    using assms(2) equals_sym equals_trans by blast+
  show d: "keys_distinct equals (xs @ (key, w) # ys)"
    using assms(1) by (auto simp: keys_distinct_def sorted_wrt_append e)
  show "assoc equals q (xs @ (key, w) # ys) = (if equals q key then Some w else assoc equals q (xs @ (k, v) # ys))"
    using assoc_Some [OF d, of q w] by (auto simp: assoc_append e split: option.splits)
qed

lemma keys_distinct_drop:
  assumes "keys_distinct equals (xs @ (k, v) # ys)" and "equals key k"
  shows "keys_distinct equals (xs @ ys)"
    "assoc equals q (xs @ ys) = (if equals q key then None else assoc equals q (xs @ (k, v) # ys))"
proof -
  have e: "equals q key \<longleftrightarrow> equals q k" for q using assms(2) equals_sym equals_trans by blast
  show "keys_distinct equals (xs @ ys)" using assms(1) by (auto simp: keys_distinct_def sorted_wrt_append)
  have "\<not> equals q (fst x)" if "x \<in> set (xs @ ys)" "equals q k" for x
  proof
    assume "equals q (fst x)"
    then have "equals (fst x) k" "equals k (fst x)" using that(2) equals_sym equals_trans by blast+
    then show False using that(1) assms(1) by (auto simp: keys_distinct_def sorted_wrt_append)
  qed
  then have "equals q k \<Longrightarrow> assoc equals q (xs @ ys) = None" by (simp add: assoc_None)
  then show "assoc equals q (xs @ ys) = (if equals q key then None else assoc equals q (xs @ (k, v) # ys))"
    by (auto simp: e assoc_append split: option.splits)
qed

lemma chain_at: "p < length c \<Longrightarrow> c = take p c @ c ! p # drop (Suc p) c"
  by (rule id_take_nth_drop)

lemma Put_no_resize:
  assumes "map_inv hash equals m" and h: "h = hash key (length (bm_table m))" and c: "GetEntry h m = Some c"
  shows "\<exists>m'. (case FindKey equals key c of Some p \<Rightarrow> SetEntry h (c[p := (key, v)]) m
      | None \<Rightarrow> do { m2 \<leftarrow> SetEntry h ((key, v) # c) m; Some (m2\<lparr>bm_counter := bm_counter m2 + 1\<rparr>) }) = Some m' \<and>
    map_inv hash equals m' \<and>
    (\<forall>q. map_lookup equals m' q = (if equals q key then Some v else map_lookup equals m q)) \<and>
    bm_counter m' = bm_counter m + (if map_lookup equals m key = None then 1 else 0)"
proof -
  note inv = assms(1) [unfolded map_inv_def]
  obtain c' where "GetEntry h m = Some c'" "h < length (bm_table m)" "bm_table m ! h = Some c'"
    "\<And>x. x \<in> set c' \<Longrightarrow> hash (fst x) (length (bm_table m)) = h" "assoc equals key c' = map_lookup equals m key"
    using map_inv_entry [OF assms(1) h] by blast
  then have e: "h < length (bm_table m)" "bm_table m ! h = Some c"
    "\<And>x. x \<in> set c \<Longrightarrow> hash (fst x) (length (bm_table m)) = h" "assoc equals key c = map_lookup equals m key"
    using c by auto
  obtain pre post where s: "map_entries m = pre @ c @ post"
    "\<And>c'. table_entries ((bm_table m)[h := Some c']) = pre @ c' @ post"
    using table_entries_split [OF e(1,2)] by blast
  show ?thesis
  proof (cases "FindKey equals key c")
    case None
    then have none: "map_lookup equals m key = None" using FindKey_assoc(1) [of equals key c] e(4) by simp
    have ok: "table_ok hash ((bm_table m)[h := Some ((key, v) # c)])"
      by (rule table_ok_update) (use inv e(3) h in auto)
    have "\<not> equals key (fst x)" if "x \<in> set (map_entries m)" for x
      using none that by (simp add: map_lookup_def assoc_None)
    then have kd: "keys_distinct equals ((key, v) # map_entries m)"
      using inv by (simp add: keys_distinct_def)
    have ms: "mset ((key, v) # map_entries m) = mset (pre @ ((key, v) # c) @ post)" by (simp add: s(1))
    have "assoc equals q (pre @ ((key, v) # c) @ post) = (if equals q key then Some v else map_lookup equals m q)" for q
      using assoc_perm [OF kd ms, of q, symmetric] by (simp add: map_lookup_def)
    then show ?thesis
      using None none ok e(1) inv keys_distinct_perm [OF ms kd]
      by (simp add: SetEntry_def map_inv_def s map_lookup_def)
  next
    case (Some p)
    then have p: "p < length c" "equals key (fst (c ! p))" "map_lookup equals m key = Some (snd (c ! p))"
      using FindKey_assoc(2) [OF Some] e(4) by auto
    obtain k0 v0 where kv: "c ! p = (k0, v0)" by (cases "c ! p")
    have ok: "table_ok hash ((bm_table m)[h := Some (c[p := (key, v)])])"
      by (rule table_ok_update) (use inv e(3) h in \<open>auto dest!: set_update_subset_insert [THEN subsetD]\<close>)
    have old: "map_entries m = (pre @ take p c) @ (k0, v0) # (drop (Suc p) c @ post)"
      using chain_at [OF p(1)] by (simp add: s(1) kv)
    have new: "pre @ c[p := (key, v)] @ post = (pre @ take p c) @ (key, v) # (drop (Suc p) c @ post)"
      using p(1) by (simp add: upd_conv_take_nth_drop)
    have "keys_distinct equals ((pre @ take p c) @ (k0, v0) # (drop (Suc p) c @ post))"
      using inv old by simp
    note r = keys_distinct_replace [OF this, where key = key and w = v]
    define m' where "m' = m\<lparr>bm_table := (bm_table m)[h := Some (c[p := (key, v)])]\<rparr>"
    have e': "map_entries m' = (pre @ take p c) @ (key, v) # (drop (Suc p) c @ post)"
      unfolding new [symmetric] by (simp add: m'_def s(2))
    have "map_inv hash equals m'"
      unfolding map_inv_def e' using inv ok r(1) p(2) old by (simp add: m'_def kv)
    moreover have "map_lookup equals m' q = (if equals q key then Some v else map_lookup equals m q)" for q
      unfolding map_lookup_def e' old using r(2) p(2) by (simp add: kv)
    ultimately show ?thesis using Some e(1) p(3) by (simp add: SetEntry_def m'_def)
  qed
qed

lemma Put_spec:
  assumes "map_inv hash equals m" and "map_room m" and "key_ok key"
  shows "\<exists>m'. Map_Put hash equals key_ok key v m = Some m' \<and> map_inv hash equals m' \<and>
    (\<forall>q. map_lookup equals m' q = (if equals q key then Some v else map_lookup equals m q)) \<and>
    bm_counter m' = bm_counter m + (if map_lookup equals m key = None then 1 else 0)"
proof -
  have "\<exists>m1. (if bm_counter m > bm_percent m then Resize hash m else Some m) = Some m1 \<and>
      map_inv hash equals m1 \<and> bm_counter m1 = bm_counter m \<and> (\<forall>q. map_lookup equals m1 q = map_lookup equals m q)"
  proof (cases "bm_counter m > bm_percent m")
    case True
    then obtain m1 where "Resize hash m = Some m1" "map_inv hash equals m1" "bm_counter m1 = bm_counter m"
      "mset (map_entries m1) = mset (map_entries m)"
      using Resize_spec [OF assms(1)] assms(2) by (auto simp: map_room_def)
    then show ?thesis using True assoc_perm [of "map_entries m1" "map_entries m"] by (simp add: map_lookup_def map_inv_def)
  qed (use assms(1) in simp)
  then obtain m1 where m1: "(if bm_counter m > bm_percent m then Resize hash m else Some m) = Some m1"
    "map_inv hash equals m1" "bm_counter m1 = bm_counter m" "\<forall>q. map_lookup equals m1 q = map_lookup equals m q" by blast
  obtain c where c: "GetEntry (hash key (length (bm_table m1))) m1 = Some c"
    using map_inv_entry [OF m1(2) refl] by metis
  have run: "Map_Put hash equals key_ok key v m =
      (let h = hash key (length (bm_table m1)) in case FindKey equals key c of Some p \<Rightarrow> SetEntry h (c[p := (key, v)]) m1
      | None \<Rightarrow> do { m2 \<leftarrow> SetEntry h ((key, v) # c) m1; Some (m2\<lparr>bm_counter := bm_counter m2 + 1\<rparr>) })"
    unfolding Map_Put_def m1(1) using c assms(3) by (simp add: Let_def)
  have same: "map_lookup equals m1 = map_lookup equals m" using m1(4) by (intro ext) simp
  show ?thesis
    unfolding run Let_def using Put_no_resize [OF m1(2) refl c, of v] unfolding same m1(3) .
qed

lemma Remove_spec:
  assumes "map_inv hash equals m" and "key_ok key"
  shows "\<exists>m'. Map_Remove hash equals key_ok key m = Some m' \<and> map_inv hash equals m' \<and>
    (\<forall>q. map_lookup equals m' q = (if equals q key then None else map_lookup equals m q)) \<and>
    bm_counter m' = bm_counter m - (if map_lookup equals m key = None then 0 else 1)"
proof -
  note inv = assms(1) [unfolded map_inv_def]
  let ?h = "hash key (length (bm_table m))"
  obtain c where e: "GetEntry ?h m = Some c" "?h < length (bm_table m)" "bm_table m ! ?h = Some c"
    "\<And>x. x \<in> set c \<Longrightarrow> hash (fst x) (length (bm_table m)) = ?h" "assoc equals key c = map_lookup equals m key"
    using map_inv_entry [OF assms(1) refl] by blast
  obtain pre post where s: "map_entries m = pre @ c @ post"
    "\<And>c'. table_entries ((bm_table m)[?h := Some c']) = pre @ c' @ post"
    using table_entries_split [OF e(2,3)] by blast
  show ?thesis
  proof (cases "FindKey equals key c")
    case None
    then have none: "map_lookup equals m key = None" using FindKey_assoc(1) [of equals key c] e(5) by simp
    then have "map_lookup equals m q = None" if "equals q key" for q
      using that equals_trans [OF equals_sym [OF that]] by (auto simp: map_lookup_def assoc_None)
    then show ?thesis using None none assms e(1) by (simp add: Map_Remove_def Let_def)
  next
    case (Some p)
    then have p: "p < length c" "equals key (fst (c ! p))" "map_lookup equals m key = Some (snd (c ! p))"
      using FindKey_assoc(2) [OF Some] e(5) by auto
    obtain k0 v0 where kv: "c ! p = (k0, v0)" by (cases "c ! p")
    let ?c = "take p c @ drop (Suc p) c"
    have ok: "table_ok hash ((bm_table m)[?h := Some ?c])"
      by (rule table_ok_update) (use inv e(4) in \<open>auto dest: in_set_takeD in_set_dropD\<close>)
    have old: "map_entries m = (pre @ take p c) @ (k0, v0) # (drop (Suc p) c @ post)"
      using chain_at [OF p(1)] by (simp add: s(1) kv)
    then have "keys_distinct equals ((pre @ take p c) @ (k0, v0) # (drop (Suc p) c @ post))" using inv by simp
    note r = keys_distinct_drop [OF this, of key]
    define m' where "m' = m\<lparr>bm_table := (bm_table m)[?h := Some ?c], bm_counter := bm_counter m - 1\<rparr>"
    have new: "map_entries m' = (pre @ take p c) @ (drop (Suc p) c @ post)" by (simp add: m'_def s(2))
    have "map_inv hash equals m'"
      unfolding map_inv_def new using inv ok r(1) p(2) old by (simp add: m'_def kv)
    moreover have "map_lookup equals m' q = (if equals q key then None else map_lookup equals m q)" for q
      unfolding map_lookup_def new old using r(2) p(2) by (simp add: kv)
    moreover have "Map_Remove hash equals key_ok key m = Some m'"
      using Some e(1,2) assms(2) by (simp add: Map_Remove_def Let_def RemoveEntry_def SetEntry_def m'_def)
    ultimately show ?thesis using p(3) by (simp add: m'_def)
  qed
qed

end

sublocale map_key \<subseteq> contract: map_contract "map_inv hash equals" map_room Map_GetSize equals key_ok
  "map_lookup equals" "Map_Put hash equals key_ok" "Map_Remove hash equals key_ok" "Map_Get hash equals key_ok"
  by unfold_locales (simp_all add: Put_spec Remove_spec lookups_spec equals_refl Map_GetSize_def)

section \<open>Traversals\<close>

lemma fold_table_spec:
  "\<forall>e \<in> set es. e \<noteq> None \<Longrightarrow> fold_table f es acc = Some (fold (\<lambda>(k, v). f k v) (table_entries es) acc)"
  by (induction es arbitrary: acc) (auto simp: table_entries_def)

lemma mset_table_entries_rev: "mset (table_entries (rev t)) = mset (table_entries t)"
  by (induction t) (auto simp: table_entries_def)

lemma table_ok_initialized: "table_ok hash t \<Longrightarrow> \<forall>e \<in> set t. e \<noteq> None"
  using table_ok_entry [of hash t] by (fastforce simp: in_set_conv_nth)

lemma Map_Apply_spec:
  assumes "table_ok hash (bm_table m)"
  shows "Map_Apply m = Some (table_entries (rev (bm_table m)))"
proof -
  have "fold (\<lambda>(k, v) calls. (k, v) # calls) xs acc = rev xs @ acc" for xs acc :: "('a \<times> 'b) list"
    by (induction xs arbitrary: acc) auto
  then show ?thesis
    using table_ok_initialized [OF assms] by (simp add: Map_Apply_def Map_Fold_def fold_table_spec case_prod_beta')
qed

definition partial_nodes :: "('k \<Rightarrow> 'v \<Rightarrow> 'v option) \<Rightarrow> ('k, 'v) chain \<Rightarrow> ('k, 'v) chain" where
  "partial_nodes func c = List.map_filter (\<lambda>x. map_option (Pair (fst x)) (func (fst x) (snd x))) c"

lemma partial_nodes_simps [simp]:
  "partial_nodes func [] = []"
  "partial_nodes func ((k, v) # c) = (case func k v of None \<Rightarrow> partial_nodes func c | Some w \<Rightarrow> (k, w) # partial_nodes func c)"
  "partial_nodes func (xs @ ys) = partial_nodes func xs @ partial_nodes func ys"
  by (auto simp: partial_nodes_def map_filter_def split: option.splits)

lemma length_partial_nodes: "length (partial_nodes func c) \<le> length c"
  by (induction c) (auto split: option.splits)

lemma table_entries_partial:
  "\<forall>e \<in> set t. e \<noteq> None \<Longrightarrow>
   table_entries (map (map_option (partial_nodes func)) t) = partial_nodes func (table_entries t)"
  by (induction t) (auto simp: table_entries_def)

lemma partial_chain_spec:
  assumes "i < length (bm_table m)" and "bm_table m ! i = Some (kept @ cur)" and "p = length kept"
  shows "\<exists>m'. partial_chain func i p cur m = Some m' \<and>
    bm_table m' = (bm_table m)[i := Some (kept @ partial_nodes func cur)] \<and> bm_percent m' = bm_percent m \<and>
    bm_counter m' = bm_counter m - (length cur - length (partial_nodes func cur))"
  using assms
proof (induction cur arbitrary: kept p m)
  case Nil
  then have "(bm_table m)[i := Some kept] = bm_table m" by (simp add: list_update_same_conv)
  then show ?case by simp
next
  case (Cons x cur)
  obtain k v where x: "x = (k, v)" by (cases x)
  note le = length_partial_nodes [of func cur]
  show ?case
  proof (cases "func k v")
    case None
    let ?m1 = "m\<lparr>bm_table := (bm_table m)[i := Some (kept @ cur)], bm_counter := bm_counter m - 1\<rparr>"
    have "RemoveEntry i p m = Some ?m1"
      using Cons.prems by (simp add: RemoveEntry_def GetEntry_def SetEntry_def)
    then show ?thesis using Cons.IH [of ?m1 kept p] Cons.prems None le by (auto simp: x)
  next
    case (Some w)
    let ?m1 = "m\<lparr>bm_table := (bm_table m)[i := Some (kept @ (k, w) # cur)]\<rparr>"
    have "(do { nodes \<leftarrow> GetEntry i m; SetEntry i (nodes[p := (k, w)]) m }) = Some ?m1"
      using Cons.prems by (simp add: GetEntry_def SetEntry_def)
    then show ?thesis using Cons.IH [of ?m1 "kept @ [(k, w)]" "Suc p"] Cons.prems Some
      by (auto simp: x GetEntry_def)
  qed
qed

lemma partial_entries_spec:
  assumes "n \<le> length (bm_table m)" and "\<forall>e \<in> set (bm_table m). e \<noteq> None"
  shows "\<exists>m'. partial_entries func n m = Some m' \<and> bm_percent m' = bm_percent m \<and>
    bm_table m' = map (map_option (partial_nodes func)) (take n (bm_table m)) @ drop n (bm_table m) \<and>
    bm_counter m' = bm_counter m - (length (table_entries (take n (bm_table m))) -
      length (partial_nodes func (table_entries (take n (bm_table m)))))"
  using assms
proof (induction n arbitrary: m)
  case (Suc n)
  then have n: "n < length (bm_table m)" by simp
  then obtain c where c: "bm_table m ! n = Some c" using Suc.prems(2) nth_mem by blast
  obtain m1 where m1: "partial_chain func n 0 c m = Some m1"
    "bm_table m1 = (bm_table m)[n := Some (partial_nodes func c)]" "bm_percent m1 = bm_percent m"
    "bm_counter m1 = bm_counter m - (length c - length (partial_nodes func c))"
    using partial_chain_spec [OF n, of "[]" c 0 func] c by auto
  have "\<forall>e \<in> set (bm_table m1). e \<noteq> None"
    using Suc.prems(2) by (auto simp: m1(2) dest!: set_update_subset_insert [THEN subsetD])
  then obtain m' where "partial_entries func n m1 = Some m'" "bm_percent m' = bm_percent m1"
    "bm_table m' = map (map_option (partial_nodes func)) (take n (bm_table m1)) @ drop n (bm_table m1)"
    "bm_counter m' = bm_counter m1 - (length (table_entries (take n (bm_table m1))) -
      length (partial_nodes func (table_entries (take n (bm_table m1)))))"
    using Suc.IH [of m1] n by (auto simp: m1(2))
  moreover have "drop n (bm_table m1) = Some (partial_nodes func c) # drop (Suc n) (bm_table m)"
    using n by (simp add: m1(2) drop_update_cancel flip: Cons_nth_drop_Suc)
  ultimately show ?case
    using n c m1 length_partial_nodes [of func c] length_partial_nodes [of func "table_entries (take n (bm_table m))"]
    by (simp add: GetEntry_def take_Suc_conv_app_nth table_entries_def)
qed (simp add: table_entries_def)

section \<open>Rehashing\<close>

lemma rehash_chain_spec:
  assumes "\<forall>e \<in> set (bm_table m). e \<noteq> None" and "i < length (bm_table m)" and "bm_table m ! i = Some (kept @ nodes)"
    and "\<forall>x \<in> set kept. hash (fst x) (length (bm_table m)) = i"
    and "\<And>j. i < j \<Longrightarrow> j < length (bm_table m) \<Longrightarrow> entry_ok hash (length (bm_table m)) j (bm_table m ! j)"
    and bound: "\<And>k. hash k (length (bm_table m)) < length (bm_table m)"
  shows "\<exists>m'. rehash_chain hash i kept nodes m = Some m' \<and> length (bm_table m') = length (bm_table m) \<and>
    bm_counter m' = bm_counter m \<and> bm_percent m' = bm_percent m \<and> (\<forall>e \<in> set (bm_table m'). e \<noteq> None) \<and>
    (\<forall>j. i \<le> j \<and> j < length (bm_table m) \<longrightarrow> entry_ok hash (length (bm_table m)) j (bm_table m' ! j)) \<and>
    mset (map_entries m') = mset (map_entries m)"
  using assms
proof (induction nodes arbitrary: kept m)
  case Nil
  then show ?case by (auto simp: entry_ok_def [of _ _ i] le_less)
next
  case (Cons x nodes)
  obtain k v where x: "x = (k, v)" by (cases x)
  let ?n = "length (bm_table m)" and ?h = "hash k (length (bm_table m))"
  show ?case
  proof (cases "?h = i")
    case True
    then show ?thesis using Cons.IH [of m "kept @ [(k, v)]"] Cons.prems by (simp add: x Let_def)
  next
    case False
    let ?t1 = "(bm_table m)[i := Some (kept @ nodes)]"
    obtain c where c: "bm_table m ! ?h = Some c" using Cons.prems(1) Cons.prems(6) [of k] nth_mem by blast
    let ?m2 = "m\<lparr>bm_table := ?t1[?h := Some ((k, v) # c)]\<rparr>"
    have run: "rehash_chain hash i kept (x # nodes) m = rehash_chain hash i kept nodes ?m2"
      using False Cons.prems(2,6) c by (simp add: x Let_def SetEntry_def GetEntry_def)
    have ok: "entry_ok hash ?n j (bm_table ?m2 ! j)" if "i < j" "j < ?n" for j
      using that Cons.prems(5) [OF that] c by (cases "j = ?h") (auto simp: entry_ok_def [of _ _ ?h])
    have none: "\<forall>e \<in> set (bm_table ?m2). e \<noteq> None"
      using Cons.prems(1) by (auto dest!: set_update_subset_insert [THEN subsetD])
    have ms: "mset (map_entries ?m2) = mset (map_entries m)"
    proof -
      obtain pre post where e1: "map_entries m = pre @ (kept @ x # nodes) @ post"
        "\<And>c'. table_entries ((bm_table m)[i := Some c']) = pre @ c' @ post"
        using table_entries_split [OF Cons.prems(2,3)] by blast
      obtain pre' post' where e2: "table_entries ?t1 = pre' @ c @ post'"
        "\<And>c'. table_entries (?t1[?h := Some c']) = pre' @ c' @ post'"
        using table_entries_split [of ?h ?t1 c] Cons.prems(6) [of k] c False by auto
      have "mset (table_entries (?t1[?h := Some ((k, v) # c)])) = add_mset (k, v) (mset (table_entries ?t1))"
        by (simp add: e2)
      then show ?thesis by (simp add: e1 x)
    qed
    have "bm_table ?m2 ! i = Some (kept @ nodes)" using False Cons.prems(2) by simp
    from Cons.IH [OF none _ this] show ?thesis
      unfolding run using Cons.prems(2,4,6) ok ms by simp
  qed
qed

lemma rehash_entries_spec:
  assumes "\<forall>e \<in> set (bm_table m). e \<noteq> None" and "n \<le> length (bm_table m)"
    and "\<And>j. n \<le> j \<Longrightarrow> j < length (bm_table m) \<Longrightarrow> entry_ok hash (length (bm_table m)) j (bm_table m ! j)"
    and "\<And>k. hash k (length (bm_table m)) < length (bm_table m)"
  shows "\<exists>m'. rehash_entries hash n m = Some m' \<and> length (bm_table m') = length (bm_table m) \<and>
    bm_counter m' = bm_counter m \<and> bm_percent m' = bm_percent m \<and> table_ok hash (bm_table m') \<and>
    mset (map_entries m') = mset (map_entries m)"
  using assms
proof (induction n arbitrary: m)
  case 0
  then show ?case by (simp add: table_ok_def)
next
  case (Suc n)
  then have n: "n < length (bm_table m)" by simp
  then obtain c where c: "bm_table m ! n = Some c" using Suc.prems(1) nth_mem by blast
  obtain m1 where m1: "rehash_chain hash n [] c m = Some m1" "length (bm_table m1) = length (bm_table m)"
    "bm_counter m1 = bm_counter m" "bm_percent m1 = bm_percent m" "\<forall>e \<in> set (bm_table m1). e \<noteq> None"
    "\<And>j. n \<le> j \<Longrightarrow> j < length (bm_table m) \<Longrightarrow> entry_ok hash (length (bm_table m)) j (bm_table m1 ! j)"
    "mset (map_entries m1) = mset (map_entries m)"
    using rehash_chain_spec [OF Suc.prems(1) n, of "[]" c hash] c Suc.prems(3,4) by auto
  then show ?case using Suc.IH [of m1] n c Suc.prems(4) by (simp add: GetEntry_def)
qed

section \<open>The key classes of the code\<close>

interpretation word_key: map_key WordKey_Hash WordKey_Equals no_transient
  by unfold_locales (auto simp: WordKey_Hash_def WordKey_Equals_def)

interpretation token_key: map_key WordKey_Hash WordKey_Equals token_ok
  by unfold_locales (auto simp: WordKey_Hash_def WordKey_Equals_def)

interpretation int_key: map_key IntKey_Hash WordKey_Equals int_key_ok
  by unfold_locales (auto simp: IntKey_Hash_def WordKey_Equals_def)

interpretation chunk_key: map_key HashString ChunkKey_Equals "\<lambda>k. True"
  by unfold_locales (auto simp: HashString_def ChunkKey_Equals_def split: if_splits)

lemma BaseMap_New_spec:
  assumes "n \<le> 16777200" and "alloc_size (max 2 n) = max 2 n"
  shows "\<exists>m. BaseMap_New n = Some m \<and> map_inv hash equals m \<and> map_room m \<and> (\<forall>q. map_lookup equals m q = None)"
proof -
  have e: "(if n < 2 then 2 else n) = max 2 n" by auto
  have "BaseMap_New n = Some \<lparr>bm_counter = 0, bm_percent = max 2 n * 3 div 4, bm_table = replicate (max 2 n) (Some [])\<rparr>"
    unfolding BaseMap_New_def e Let_def assms(2) using assms(1) by simp
  then show ?thesis using assms(1)
    by (intro exI conjI) (assumption, simp_all add: map_inv_def map_room_def keys_distinct_def map_lookup_def)
qed

text \<open>The keys of a table stay legal.\<close>

lemma SetEntry_keys:
  assumes "GetEntry h m = Some nodes" and "SetEntry h c m = Some m'" and "keys_ok key_ok m"
    and "\<And>x. x \<in> set c \<Longrightarrow> x \<in> set nodes \<or> key_ok (fst x)"
  shows "keys_ok key_ok (m'\<lparr>bm_counter := n\<rparr>)"
proof -
  have h: "h < length (bm_table m)" "bm_table m ! h = Some nodes" "m' = m\<lparr>bm_table := (bm_table m)[h := Some c]\<rparr>"
    using assms(1,2) by (auto simp: GetEntry_def SetEntry_def run_elims split: if_splits)
  obtain pre post where "map_entries m = pre @ nodes @ post" "\<And>c'. table_entries ((bm_table m)[h := Some c']) = pre @ c' @ post"
    using table_entries_split [OF h(1,2)] by blast
  then show ?thesis using assms(3,4) h(3) by (auto simp: keys_ok_def)
qed

lemma put_keys:
  assumes "Map_Put hash equals key_ok key v m = Some m'" and "keys_ok key_ok m"
    and resize: "\<And>m1. Resize hash m = Some m1 \<Longrightarrow> set (map_entries m1) = set (map_entries m)"
  shows "keys_ok key_ok m'"
proof -
  obtain m1 where m1: "(if bm_counter m > bm_percent m then Resize hash m else Some m) = Some m1" and ok: "key_ok key"
    using assms(1) by (auto simp: Map_Put_def run_elims)
  then have "set (map_entries m1) = set (map_entries m)" using resize by (auto split: if_splits)
  then have k1: "keys_ok key_ok m1" using assms(2) by (simp add: keys_ok_def)
  have old: "m2\<lparr>bm_counter := bm_counter m2\<rparr> = m2" for m2 :: "('a, 'b) basemap" by simp
  let ?h = "hash key (length (bm_table m1))"
  obtain nodes where nodes: "GetEntry ?h m1 = Some nodes" using assms(1) m1 by (auto simp: Map_Put_def run_elims Let_def)
  show ?thesis
  proof (cases "FindKey equals key nodes")
    case None
    then obtain m2 where m2: "SetEntry ?h ((key, v) # nodes) m1 = Some m2" "m' = m2\<lparr>bm_counter := bm_counter m2 + 1\<rparr>"
      using assms(1) m1 nodes ok by (auto simp: Map_Put_def run_elims Let_def)
    show ?thesis unfolding m2(2) by (rule SetEntry_keys [OF nodes m2(1) k1]) (use ok in auto)
  next
    case (Some p)
    then have m2: "SetEntry ?h (nodes[p := (key, v)]) m1 = Some m'"
      using assms(1) m1 nodes ok by (auto simp: Map_Put_def run_elims Let_def)
    have "keys_ok key_ok (m'\<lparr>bm_counter := bm_counter m'\<rparr>)"
      by (rule SetEntry_keys [OF nodes m2 k1]) (use ok in \<open>auto dest!: set_update_subset_insert [THEN subsetD]\<close>)
    then show ?thesis by simp
  qed
qed

lemma remove_keys:
  assumes "Map_Remove hash equals key_ok key m = Some m'" and "keys_ok key_ok m"
  shows "keys_ok key_ok m'"
proof -
  let ?h = "hash key (length (bm_table m))"
  obtain nodes where nodes: "GetEntry ?h m = Some nodes" using assms(1) by (auto simp: Map_Remove_def run_elims Let_def)
  show ?thesis
  proof (cases "FindKey equals key nodes")
    case (Some p)
    then obtain m1 where m1: "SetEntry ?h (take p nodes @ drop (Suc p) nodes) m = Some m1" "m' = m1\<lparr>bm_counter := bm_counter m1 - 1\<rparr>"
      using assms(1) nodes by (auto simp: Map_Remove_def RemoveEntry_def run_elims Let_def)
    show ?thesis unfolding m1(2) by (rule SetEntry_keys [OF nodes m1(1) assms(2)]) (auto dest: in_set_takeD in_set_dropD)
  qed (use assms nodes in \<open>simp add: Map_Remove_def Let_def Assert_def split: if_splits\<close>)
qed

text \<open>All operations of a key class on a legal key, and on any other.\<close>

context map_key
begin

lemma Put_keys:
  assumes "map_inv hash equals m" and "map_room m" and "keys_ok key_ok m" and "Map_Put hash equals key_ok key v m = Some m'"
  shows "keys_ok key_ok m'"
proof (rule put_keys [OF assms(4,3)])
  fix m1
  assume r: "Resize hash m = Some m1"
  show "set (map_entries m1) = set (map_entries m)"
  proof (cases "3 * length (bm_table m) div 2 \<le> 16777200")
    case True
    obtain m2 where "Resize hash m = Some m2" "mset (map_entries m2) = mset (map_entries m)" using Resize_spec [OF assms(1) True] by blast
    then show ?thesis using r mset_eq_setD [of "map_entries m1" "map_entries m"] by simp
  next
    case False
    then show ?thesis using r by (simp add: Resize_def Let_def Assert_def split: if_splits)
  qed
qed

lemma operations_spec:
  assumes "map_inv hash equals m" and "keys_ok key_ok m"
  shows "if key_ok key then
      (map_room m \<longrightarrow> (\<exists>m'. Map_Put hash equals key_ok key v m = Some m' \<and> map_inv hash equals m' \<and> keys_ok key_ok m' \<and>
        (\<forall>q. map_lookup equals m' q = (if equals q key then Some v else map_lookup equals m q)) \<and>
        Map_GetSize m' = Map_GetSize m + (if map_lookup equals m key = None then 1 else 0))) \<and>
      (\<exists>m'. Map_Remove hash equals key_ok key m = Some m' \<and> map_inv hash equals m' \<and> keys_ok key_ok m' \<and>
        (\<forall>q. map_lookup equals m' q = (if equals q key then None else map_lookup equals m q)) \<and>
        Map_GetSize m' = Map_GetSize m - (if map_lookup equals m key = None then 0 else 1)) \<and>
      Map_Get hash equals key_ok key m = map_lookup equals m key \<and>
      Map_CondGet hash equals key_ok key alt m = Some (case map_lookup equals m key of None \<Rightarrow> alt | Some v \<Rightarrow> v) \<and>
      Map_IsMember hash equals key_ok key m = Some (map_lookup equals m key \<noteq> None)
    else Map_Put hash equals key_ok key v m = None \<and> Map_Remove hash equals key_ok key m = None \<and>
      Map_Get hash equals key_ok key m = None \<and> Map_CondGet hash equals key_ok key alt m = None \<and>
      Map_IsMember hash equals key_ok key m = None"
proof (cases "key_ok key")
  case True
  have "map_room m \<Longrightarrow> \<exists>m'. Map_Put hash equals key_ok key v m = Some m' \<and> map_inv hash equals m' \<and> keys_ok key_ok m' \<and>
        (\<forall>q. map_lookup equals m' q = (if equals q key then Some v else map_lookup equals m q)) \<and>
        Map_GetSize m' = Map_GetSize m + (if map_lookup equals m key = None then 1 else 0)"
    using contract.put_law [OF assms(1) _ True, of v] Put_keys [OF assms(1) _ assms(2)] by blast
  moreover have "\<exists>m'. Map_Remove hash equals key_ok key m = Some m' \<and> map_inv hash equals m' \<and> keys_ok key_ok m' \<and>
        (\<forall>q. map_lookup equals m' q = (if equals q key then None else map_lookup equals m q)) \<and>
        Map_GetSize m' = Map_GetSize m - (if map_lookup equals m key = None then 0 else 1)"
    using contract.rem_law [OF assms(1) True] remove_keys [OF _ assms(2)] by blast
  ultimately show ?thesis using True lookups_spec [OF assms(1) True] by simp
qed (simp add: Map_Put_def Map_Remove_def Map_Get_def Map_CondGet_def Map_IsMember_def Assert_def)

lemma resizable:
  assumes "map_inv hash equals m" and "3 * length (bm_table m) div 2 \<le> 16777200"
  shows "\<exists>m'. Resize hash m = Some m' \<and> map_inv hash equals m' \<and> length (bm_table m) < length (bm_table m')"
  using Resize_spec [OF assms] by blast

end

lemma Map_Clear_spec:
  assumes "map_inv hash equals m"
  shows "\<exists>m'. Map_Clear m = Some m' \<and> map_inv hash equals m' \<and> map_entries m' = [] \<and> bm_counter m' = 0 \<and> bm_percent m' = bm_percent m"
  using assms by (simp add: Map_Clear_eq map_inv_def keys_distinct_def)

section \<open>Properties\<close>

text \<open>
  C13. \<^verbatim>\<open>Map\<close> and \<^verbatim>\<open>IntMap\<close> (\<^verbatim>\<open>WordKey\<close> and \<^verbatim>\<open>IntKey\<close> instances of \<^verbatim>\<open>BaseMap\<close>) implement finite maps: on every
  well-formed table and legal key (no transient; for \<^verbatim>\<open>IntMap\<close> an integer), \<^verbatim>\<open>Put\<close> succeeds as long as the table can
  still be resized, and afterwards the key maps to the value and every other key to what it mapped to; \<^verbatim>\<open>Remove\<close>
  makes exactly that key unmapped; \<^verbatim>\<open>Get\<close>, \<^verbatim>\<open>CondGet\<close> and \<^verbatim>\<open>IsMember\<close> read the abstract map, and \<^verbatim>\<open>GetSize\<close>
  changes with the keys. Every operation fails its assertion on any other key.
\<close>

theorem word_map_refines:
  assumes "hash = WordKey_Hash \<and> key_ok = no_transient \<or> hash = IntKey_Hash \<and> key_ok = int_key_ok"
    and "map_inv hash WordKey_Equals m" and "keys_ok key_ok m"
  shows "if key_ok key then
      (map_room m \<longrightarrow> (\<exists>m'. Map_Put hash WordKey_Equals key_ok key v m = Some m' \<and>
        map_inv hash WordKey_Equals m' \<and> keys_ok key_ok m' \<and>
        (\<forall>q. map_lookup WordKey_Equals m' q = (if WordKey_Equals q key then Some v else map_lookup WordKey_Equals m q)) \<and>
        Map_GetSize m' = Map_GetSize m + (if map_lookup WordKey_Equals m key = None then 1 else 0))) \<and>
      (\<exists>m'. Map_Remove hash WordKey_Equals key_ok key m = Some m' \<and> map_inv hash WordKey_Equals m' \<and> keys_ok key_ok m' \<and>
        (\<forall>q. map_lookup WordKey_Equals m' q = (if WordKey_Equals q key then None else map_lookup WordKey_Equals m q)) \<and>
        Map_GetSize m' = Map_GetSize m - (if map_lookup WordKey_Equals m key = None then 0 else 1)) \<and>
      Map_Get hash WordKey_Equals key_ok key m = map_lookup WordKey_Equals m key \<and>
      Map_CondGet hash WordKey_Equals key_ok key alt m =
        Some (case map_lookup WordKey_Equals m key of None \<Rightarrow> alt | Some v \<Rightarrow> v) \<and>
      Map_IsMember hash WordKey_Equals key_ok key m = Some (map_lookup WordKey_Equals m key \<noteq> None)
    else Map_Put hash WordKey_Equals key_ok key v m = None \<and> Map_Remove hash WordKey_Equals key_ok key m = None \<and>
      Map_Get hash WordKey_Equals key_ok key m = None \<and> Map_CondGet hash WordKey_Equals key_ok key alt m = None \<and>
      Map_IsMember hash WordKey_Equals key_ok key m = None"
  using assms(1)
proof
  assume h: "hash = WordKey_Hash \<and> key_ok = no_transient"
  show ?thesis using word_key.operations_spec [of m key v alt] assms(2,3) h by simp
next
  assume h: "hash = IntKey_Hash \<and> key_ok = int_key_ok"
  show ?thesis using int_key.operations_spec [of m key v alt] assms(2,3) h by simp
qed

theorem word_map_refines_witness:
  "\<exists>m m'. BaseMap_New 5 = Some m \<and> Map_Put IntKey_Hash WordKey_Equals int_key_ok (IntW 3) True m = Some m' \<and>
     map_lookup WordKey_Equals m' (IntW 3) = Some True \<and> Map_Get IntKey_Hash WordKey_Equals int_key_ok (BlkW 8) m = None"
proof -
  obtain m :: "(store_word, bool) basemap" where m: "BaseMap_New 5 = Some m" "map_inv IntKey_Hash WordKey_Equals m" "map_room m"
      "\<forall>q. map_lookup WordKey_Equals m q = None"
    using BaseMap_New_spec [of 5 IntKey_Hash WordKey_Equals] by (auto simp: alloc_size_eq)
  then have e: "keys_ok int_key_ok m" using m(1) by (auto simp: BaseMap_New_def run_elims keys_ok_def alloc_size_eq)
  have k: "int_key_ok (IntW 3)" "\<not> int_key_ok (BlkW 8)"
    by (simp_all add: int_key_ok_def no_transient_def word_bits_def EncodeInt_def INTMASK_def INTTAG_def EncodeBlock_def BLKTAG_def)
  have "\<exists>m'. Map_Put IntKey_Hash WordKey_Equals int_key_ok (IntW 3) True m = Some m' \<and> map_lookup WordKey_Equals m' (IntW 3) = Some True"
    using word_map_refines [of IntKey_Hash int_key_ok m "IntW 3" True undefined] m(2,3) e k(1) by (auto simp: WordKey_Equals_def)
  moreover have "Map_Get IntKey_Hash WordKey_Equals int_key_ok (BlkW 8) m = None"
    using word_map_refines [of IntKey_Hash int_key_ok m "BlkW 8" True undefined] m(2,3) e k(2) by auto
  ultimately show ?thesis using m(1) by blast
qed

text \<open>
  C14. \<^verbatim>\<open>ChunkMap\<close> implements finite maps whose keys are byte strings: two chunks are the same key exactly when their
  bytes are equal. \<^verbatim>\<open>Put\<close>, as long as the table can still be resized, updates the abstract map at these bytes and
  nowhere else, \<^verbatim>\<open>Remove\<close> restricts it, \<^verbatim>\<open>Get\<close>, \<^verbatim>\<open>CondGet\<close> and \<^verbatim>\<open>IsMember\<close> read it, and \<^verbatim>\<open>GetSize\<close> is the number
  of its keys.
\<close>

theorem chunk_map_refines:
  assumes "map_inv HashString ChunkKey_Equals m"
  shows "(map_room m \<longrightarrow> (\<exists>m'. Map_Put HashString ChunkKey_Equals (\<lambda>k. True) s v m = Some m' \<and>
      map_inv HashString ChunkKey_Equals m' \<and> map_lookup ChunkKey_Equals m' = (map_lookup ChunkKey_Equals m)(s \<mapsto> v))) \<and>
    (\<exists>m'. Map_Remove HashString ChunkKey_Equals (\<lambda>k. True) s m = Some m' \<and>
      map_inv HashString ChunkKey_Equals m' \<and> map_lookup ChunkKey_Equals m' = (map_lookup ChunkKey_Equals m)(s := None)) \<and>
    Map_Get HashString ChunkKey_Equals (\<lambda>k. True) s m = map_lookup ChunkKey_Equals m s \<and>
    Map_CondGet HashString ChunkKey_Equals (\<lambda>k. True) s alt m =
      Some (case map_lookup ChunkKey_Equals m s of None \<Rightarrow> alt | Some v \<Rightarrow> v) \<and>
    Map_IsMember HashString ChunkKey_Equals (\<lambda>k. True) s m = Some (s \<in> dom (map_lookup ChunkKey_Equals m)) \<and>
    Map_GetSize m = card (dom (map_lookup ChunkKey_Equals m))"
proof -
  have eq: "ChunkKey_Equals a b \<longleftrightarrow> a = b" for a b by (auto simp: ChunkKey_Equals_def)
  have k: "keys_ok (\<lambda>k. True) m" by (simp add: keys_ok_def)
  have ops: "(map_room m \<longrightarrow> (\<exists>m'. Map_Put HashString ChunkKey_Equals (\<lambda>k. True) s v m = Some m' \<and>
      map_inv HashString ChunkKey_Equals m' \<and> map_lookup ChunkKey_Equals m' = (map_lookup ChunkKey_Equals m)(s \<mapsto> v)))"
    "\<exists>m'. Map_Remove HashString ChunkKey_Equals (\<lambda>k. True) s m = Some m' \<and>
      map_inv HashString ChunkKey_Equals m' \<and> map_lookup ChunkKey_Equals m' = (map_lookup ChunkKey_Equals m)(s := None)"
    using chunk_key.operations_spec [OF assms k, of s v] by (fastforce simp: eq fun_eq_iff)+
  have dist: "sorted_wrt (\<lambda>x y. fst x \<noteq> fst y) xs \<Longrightarrow> distinct xs" for xs :: "(8 word list \<times> 'a) list" by (induction xs) auto
  have "inj_on fst (set (map_entries m))" "distinct (map_entries m)"
    using chunk_key.keys_distinct_same [of "map_entries m"] assms dist by (auto simp: map_inv_def inj_on_def eq keys_distinct_def)
  then have "length (map_entries m) = card (fst ` set (map_entries m))" by (simp add: card_image distinct_card)
  moreover have "q \<in> fst ` set (map_entries m) \<longleftrightarrow> q \<in> dom (map_lookup ChunkKey_Equals m)" for q
    using assoc_None [of ChunkKey_Equals q "map_entries m"] by (auto simp: domIff map_lookup_def eq)
  then have "fst ` set (map_entries m) = dom (map_lookup ChunkKey_Equals m)" by (rule set_eqI)
  ultimately have "Map_GetSize m = card (dom (map_lookup ChunkKey_Equals m))"
    using assms by (simp add: map_inv_def Map_GetSize_def)
  then show ?thesis using ops chunk_key.lookups_spec [OF assms, of s] by (simp add: dom_def)
qed

theorem chunk_map_refines_witness:
  "\<exists>m m'. BaseMap_New 2 = Some m \<and> Map_Put HashString ChunkKey_Equals (\<lambda>k. True) [97, 255] (7 :: nat) m = Some m' \<and>
     Map_Get HashString ChunkKey_Equals (\<lambda>k. True) [97, 255] m' = Some 7 \<and> Map_GetSize m' = 1"
proof -
  obtain m :: "(8 word list, nat) basemap" where m: "BaseMap_New 2 = Some m" "map_inv HashString ChunkKey_Equals m" "map_room m"
      "\<forall>q. map_lookup ChunkKey_Equals m q = None"
    using BaseMap_New_spec [of 2 HashString ChunkKey_Equals] by (auto simp: alloc_size_eq)
  obtain m' where m': "Map_Put HashString ChunkKey_Equals (\<lambda>k. True) [97, 255] 7 m = Some m'" "map_inv HashString ChunkKey_Equals m'"
      "map_lookup ChunkKey_Equals m' = (map_lookup ChunkKey_Equals m)([97, 255] \<mapsto> 7)"
    using chunk_map_refines [OF m(2), of "[97, 255]" 7 0] m(3) by (elim conjE) blast
  have "map_lookup ChunkKey_Equals m = (\<lambda>q. None)" using m(4) by (intro ext) simp
  then have "map_lookup ChunkKey_Equals m' = [[97, 255] \<mapsto> 7]" by (simp only: m'(3))
  then have "card (dom (map_lookup ChunkKey_Equals m')) = 1" "map_lookup ChunkKey_Equals m' [97, 255] = Some 7" by simp_all
  moreover have "Map_Get HashString ChunkKey_Equals (\<lambda>k. True) [97, 255] m' = map_lookup ChunkKey_Equals m' [97, 255]"
      "Map_GetSize m' = card (dom (map_lookup ChunkKey_Equals m'))"
    using chunk_map_refines [OF m'(2), of "[97, 255]" 0 0] by blast+
  ultimately have "Map_GetSize m' = 1" "Map_Get HashString ChunkKey_Equals (\<lambda>k. True) [97, 255] m' = Some 7" by (simp_all only:)
  then show ?thesis using m(1) m'(1) by blast
qed

text \<open>
  C15. \<^verbatim>\<open>Map::Rehash\<close>. The garbage collector moves blocks, so the words that are the keys of a map change and
  its nodes may lie in the wrong entries. From any initialized table whose keys are pairwise different,
  rehashing terminates without an out-of-bounds access, keeps exactly the same nodes and makes the
  table well formed again, so every key is found.
\<close>

theorem rehash_restores:
  assumes "2 \<le> length (bm_table m)" and "length (bm_table m) \<le> 16777200" and "\<forall>e \<in> set (bm_table m). e \<noteq> None"
    and "keys_distinct WordKey_Equals (map_entries m)" and "bm_counter m = length (map_entries m)"
  shows "\<exists>m'. Rehash WordKey_Hash m = Some m' \<and> map_inv WordKey_Hash WordKey_Equals m' \<and>
    mset (map_entries m') = mset (map_entries m) \<and>
    (\<forall>k v. (k, v) \<in> set (map_entries m) \<and> no_transient k \<longrightarrow>
      Map_Get WordKey_Hash WordKey_Equals no_transient k m' = Some v)"
proof -
  have b: "WordKey_Hash k (length (bm_table m)) < length (bm_table m)" for k
    using assms(1) by (intro word_key.hash_bound) linarith
  obtain m' where m': "Rehash WordKey_Hash m = Some m'" "length (bm_table m') = length (bm_table m)"
    "bm_counter m' = bm_counter m" "table_ok WordKey_Hash (bm_table m')" "mset (map_entries m') = mset (map_entries m)"
    using rehash_entries_spec [OF assms(3) order_refl, of WordKey_Hash] b by (auto simp: Rehash_def)
  have kd: "keys_distinct WordKey_Equals (map_entries m')"
    using word_key.keys_distinct_perm [OF m'(5) [symmetric] assms(4)] .
  have inv: "map_inv WordKey_Hash WordKey_Equals m'"
    using assms m' kd mset_eq_length [OF m'(5)] by (simp add: map_inv_def)
  have "Map_Get WordKey_Hash WordKey_Equals no_transient k m' = Some v"
    if "(k, v) \<in> set (map_entries m)" "no_transient k" for k v
    using word_key.lookups_spec(1) [OF inv that(2)] word_key.assoc_Some [OF kd, of k v] that(1)
      mset_eq_setD [OF m'(5)] by (auto simp: map_lookup_def WordKey_Equals_def)
  then show ?thesis using m' inv by blast
qed

theorem rehash_restores_witness:
  "\<exists>m'. Rehash WordKey_Hash \<lparr>bm_counter = 2, bm_percent = 1, bm_table = [Some [(IntW 1, ''a''), (IntW 0, ''b'')], Some []]\<rparr> = Some m' \<and>
     Map_Get WordKey_Hash WordKey_Equals no_transient (IntW 0) m' = Some ''b''"
proof -
  let ?m = "\<lparr>bm_counter = 2, bm_percent = 1, bm_table = [Some [(IntW 1, ''a''), (IntW 0, ''b'')], Some []]\<rparr>"
  have "\<not> WordKey_Equals (IntW 1) (IntW 0)" by (simp add: WordKey_Equals_def word_bits_def EncodeInt_def INTTAG_def)
  then have "\<exists>m'. Rehash WordKey_Hash ?m = Some m' \<and> map_inv WordKey_Hash WordKey_Equals m' \<and>
    mset (map_entries m') = mset (map_entries ?m) \<and>
    (\<forall>k v. (k, v) \<in> set (map_entries ?m) \<and> no_transient k \<longrightarrow>
      Map_Get WordKey_Hash WordKey_Equals no_transient k m' = Some v)"
    by (intro rehash_restores) (auto simp: table_entries_def keys_distinct_def)
  then show ?thesis by (auto simp: table_entries_def no_transient_def)
qed

text \<open>
  Traversal. \<^verbatim>\<open>Apply\<close> calls its function on every entry of a well-formed map exactly once. \<^verbatim>\<open>PartialMap\<close>
  replaces every value by the function's result, drops the keys for which the function returns no value,
  leaves no other key, and keeps the table well formed, its counter included.
\<close>

theorem map_traversals:
  assumes "map_inv WordKey_Hash WordKey_Equals m"
  shows "(\<exists>calls. Map_Apply m = Some calls \<and> mset calls = mset (map_entries m)) \<and>
    (\<exists>m'. Map_PartialMap func m = Some m' \<and> map_inv WordKey_Hash WordKey_Equals m' \<and>
      (\<forall>k w. (k, w) \<in> set (map_entries m') \<longleftrightarrow> (\<exists>v. (k, v) \<in> set (map_entries m) \<and> func k v = Some w)))"
proof
  note inv = assms [unfolded map_inv_def]
  show "\<exists>calls. Map_Apply m = Some calls \<and> mset calls = mset (map_entries m)"
    using Map_Apply_spec [of WordKey_Hash m] inv mset_table_entries_rev [of "bm_table m"] by auto
  have init: "\<forall>e \<in> set (bm_table m). e \<noteq> None" using inv table_ok_initialized by blast
  obtain m' where m': "Map_PartialMap func m = Some m'" "bm_table m' = map (map_option (partial_nodes func)) (bm_table m)"
    "bm_counter m' = bm_counter m - (length (map_entries m) - length (partial_nodes func (map_entries m)))"
    using partial_entries_spec [OF order_refl init, of func] by (auto simp: Map_PartialMap_def)
  have e: "map_entries m' = partial_nodes func (map_entries m)"
    unfolding m'(2) by (rule table_entries_partial [OF init])
  have mem: "(k, w) \<in> set (partial_nodes func xs) \<longleftrightarrow> (\<exists>v. (k, v) \<in> set xs \<and> func k v = Some w)" for k w xs
    by (induction xs) (auto split: option.splits)
  have "sorted_wrt (\<lambda>x y. \<not> WordKey_Equals (fst x) (fst y)) (partial_nodes func xs)"
    if "sorted_wrt (\<lambda>x y. \<not> WordKey_Equals (fst x) (fst y)) xs" for xs
    using that by (induction xs) (fastforce simp: mem split: option.splits)+
  then have "keys_distinct WordKey_Equals (map_entries m')" using inv by (simp add: e keys_distinct_def)
  moreover have "table_ok WordKey_Hash (bm_table m')"
    using inv unfolding table_ok_def m'(2)
    by (auto simp: entry_ok_def mem split: option.splits) (metis fst_conv mem option.inject surj_pair)
  moreover have "bm_counter m' = length (map_entries m')"
    using inv m'(3) length_partial_nodes [of func "map_entries m"] by (simp add: e)
  ultimately have "map_inv WordKey_Hash WordKey_Equals m'" using inv m'(2) by (simp add: map_inv_def)
  then show "\<exists>m'. Map_PartialMap func m = Some m' \<and> map_inv WordKey_Hash WordKey_Equals m' \<and>
      (\<forall>k w. (k, w) \<in> set (map_entries m') \<longleftrightarrow> (\<exists>v. (k, v) \<in> set (map_entries m) \<and> func k v = Some w))"
    using m'(1) by (auto simp: e mem)
qed

theorem map_traversals_witness:
  "\<exists>m'. Map_PartialMap (\<lambda>k v. if v then None else Some True)
       \<lparr>bm_counter = 1, bm_percent = 1, bm_table = [Some [], Some [(IntW 0, False)]]\<rparr> = Some m' \<and>
     (IntW 0, True) \<in> set (map_entries m')"
proof -
  let ?m = "\<lparr>bm_counter = 1, bm_percent = 1, bm_table = [Some [], Some [(IntW 0, False)]]\<rparr>"
  have "WordKey_Hash (IntW 0) 2 = 1"
    by (simp add: WordKey_Hash_def word_bits_def EncodeInt_def INTTAG_def)
  then have "map_inv WordKey_Hash WordKey_Equals ?m"
    by (auto simp: map_inv_def table_ok_def entry_ok_def keys_distinct_def table_entries_def less_Suc_eq numeral_2_eq_2)
  from map_traversals [OF this, of "\<lambda>k v. if v then None else Some True"] show ?thesis
    by (auto simp: table_entries_def)
qed

text \<open>
  C17. \<^verbatim>\<open>BaseMap::New\<close> asks for at least two entries, and its loop initializes those it asked for. For every size the
  allocator does not round up the new map is well formed and empty, and its table can be resized: with fewer than two
  entries the assertion that the table grows would fail. For the other sizes (above \<^verbatim>\<open>MAX_BLOCKSIZE\<close> and no multiple of
  sixteen) the entries behind are never initialized, although hashing uses the size of the whole table: whatever key
  hashes there cannot be put or looked up. Sizes above \<^verbatim>\<open>MAX_BIGBLOCKSIZE\<close> fail.
\<close>

theorem basemap_new:
  "let k = max 2 n in
   if 16777200 < k then (BaseMap_New n :: (store_word, 'v) basemap option) = None
   else \<exists>m :: (store_word, 'v) basemap. BaseMap_New n = Some m \<and> length (bm_table m) = alloc_size k \<and>
    (\<forall>i < alloc_size k. GetEntry i m = (if i < k then Some [] else None)) \<and> Map_IsEmpty m \<and>
    (if alloc_size k = k then map_inv WordKey_Hash WordKey_Equals m \<and> map_lookup WordKey_Equals m = (\<lambda>q. None) \<and>
       (3 * k div 2 \<le> 16777200 \<longrightarrow> (\<exists>m'. Resize WordKey_Hash m = Some m' \<and> length (bm_table m) < length (bm_table m') \<and>
         map_inv WordKey_Hash WordKey_Equals m'))
     else k < alloc_size k \<and> (\<forall>key v. k \<le> WordKey_Hash key (alloc_size k) \<longrightarrow>
       Map_Put WordKey_Hash WordKey_Equals no_transient key v m = None \<and> Map_Get WordKey_Hash WordKey_Equals no_transient key m = None))"
proof (cases "16777200 < max 2 n")
  case True
  then show ?thesis by (auto simp: BaseMap_New_def Let_def Assert_def)
next
  case False
  define k where "k = max 2 n"
  have k: "2 \<le> k" "k \<le> 16777200" "(if n < 2 then 2 else n) = k" using False by (auto simp: k_def)
  note al = alloc_size_bounds(1) [OF k(2)]
  define t :: "(store_word, 'v) chain option list" where "t = replicate k (Some []) @ replicate (alloc_size k - k) None"
  define m :: "(store_word, 'v) basemap" where "m = \<lparr>bm_counter = 0, bm_percent = k * 3 div 4, bm_table = t\<rparr>"
  have t: "length t = alloc_size k" "\<And>i. i < alloc_size k \<Longrightarrow> t ! i = (if i < k then Some [] else None)"
    using al by (auto simp: t_def nth_append)
  have new: "BaseMap_New n = Some m"
    unfolding BaseMap_New_def Let_def k(3) using k(2) al by (simp add: init_table_eq m_def t_def)
  have get: "GetEntry i m = (if i < k then Some [] else None)" if "i < alloc_size k" for i using t that by (simp add: GetEntry_def m_def)
  have whole: "map_inv WordKey_Hash WordKey_Equals m \<and> map_lookup WordKey_Equals m = (\<lambda>q. None)" if "alloc_size k = k"
    using k that by (simp add: m_def t_def map_inv_def keys_distinct_def map_lookup_def fun_eq_iff)
  have "Map_Put WordKey_Hash WordKey_Equals no_transient key v m = None \<and> Map_Get WordKey_Hash WordKey_Equals no_transient key m = None"
    if "k \<le> WordKey_Hash key (alloc_size k)" for key v
  proof -
    have "GetEntry (WordKey_Hash key (alloc_size k)) m = None" using that get t(1) by (auto simp: GetEntry_def m_def)
    then show ?thesis using t(1) by (simp add: Map_Put_def Map_Get_def Let_def m_def Assert_def)
  qed
  moreover have "\<exists>m'. Resize WordKey_Hash m = Some m' \<and> length (bm_table m) < length (bm_table m') \<and> map_inv WordKey_Hash WordKey_Equals m'"
    if "alloc_size k = k" "3 * k div 2 \<le> 16777200"
    using word_key.resizable [of m] whole that t(1) by (auto simp: m_def)
  ultimately show ?thesis
    unfolding Let_def k_def [symmetric] using k(2) new t(1) get whole al by (auto simp: Map_IsEmpty_def m_def)
qed

theorem basemap_new_witness:
  "(\<exists>m m' :: (store_word, nat) basemap. BaseMap_New 0 = Some m \<and> map_inv WordKey_Hash WordKey_Equals m \<and> Resize WordKey_Hash m = Some m') \<and>
   (\<exists>m :: (store_word, nat) basemap. BaseMap_New 1048577 = Some m \<and> length (bm_table m) = 1048592 \<and>
     Map_Put WordKey_Hash WordKey_Equals no_transient (IntW 524288) 7 m = None)"
proof
  have a: "alloc_size 2 = 2" by (simp add: alloc_size_eq)
  show "\<exists>m m' :: (store_word, nat) basemap. BaseMap_New 0 = Some m \<and> map_inv WordKey_Hash WordKey_Equals m \<and> Resize WordKey_Hash m = Some m'"
    using basemap_new [of 0, where 'v = nat] by (simp add: Let_def a) blast
next
  have a: "alloc_size 1048577 = 1048592" by (simp add: alloc_size_eq)
  have h: "WordKey_Hash (IntW 524288) 1048592 = 1048577" by (simp add: WordKey_Hash_def word_bits_def EncodeInt_def INTTAG_def)
  show "\<exists>m :: (store_word, nat) basemap. BaseMap_New 1048577 = Some m \<and> length (bm_table m) = 1048592 \<and>
     Map_Put WordKey_Hash WordKey_Equals no_transient (IntW 524288) 7 m = None"
    using basemap_new [of 1048577, where 'v = nat] h by (simp add: Let_def a del: split_paired_All) (metis order_refl)
qed

end
