(* ===== verification/Task_Stack.thy ===== *)
theory Task_Stack
  imports Dynamic_Array
begin

text \<open>
  The stacks of a thread: the task stack with its frames (\<^verbatim>\<open>seam/generic/TaskStack.cc\<close>, \<^verbatim>\<open>StackFrame.hh\<close>,
  the stack part of \<^verbatim>\<open>Scheduler.hh\<close>) and the stack of exception handlers (\<^verbatim>\<open>seam/generic/Thread.hh\<close>).

  A task stack is a dynamic block. \<^verbatim>\<open>GetFrame(i)\<close> is the address of its argument \<open>i\<close>; a frame is addressed
  by its last word, which holds the worker, and its arguments lie below. The scheduler keeps the top as a
  pointer; here it is the number of words from the base, so \<^verbatim>\<open>stackTop\<close> addresses the argument \<open>top - 1\<close> and
  \<^verbatim>\<open>stackMax\<close> the argument \<open>GetSize() - 1\<close>. An enlargement that exceeds the largest dynamic block is a stack
  overflow, which \<^verbatim>\<open>longjmp\<close>s into \<^verbatim>\<open>Scheduler::Run\<close>: a value of its own.

  The words of the handler stack are kept apart by their role (\<open>hslot\<close>): frame index, state, handler data
  or package of exception and backtrace.
\<close>

section \<open>Task stacks\<close>

datatype stack_result = Enlarged dynblock | StackOverflow

definition TASKSTACK_INITIAL_SIZE :: nat where "TASKSTACK_INITIAL_SIZE = 20"

definition TaskStack_New :: "junk \<Rightarrow> store_word \<Rightarrow> nat \<Rightarrow> dynblock option" where
  "TaskStack_New junk emptyTask n = do {
     Assert (n \<ge> 4);
     b \<leftarrow> AllocDynamic junk n 1;
     DynamicBlock_InitArg 0 emptyTask b }"

definition TaskStack_Enlarge :: "junk \<Rightarrow> store_word \<Rightarrow> dynblock \<Rightarrow> stack_result option" where
  "TaskStack_Enlarge junk emptyTask s = do {
     let n = length (db_args s);
     let newSize = n * 3 div 2;
     if newSize > unat MAX_DYNBLOCKSIZE \<and> \<not> n < unat MAX_DYNBLOCKSIZE then Some StackOverflow
     else do {
       let newSize = (if newSize > unat MAX_DYNBLOCKSIZE then unat MAX_DYNBLOCKSIZE else newSize);
       ns \<leftarrow> TaskStack_New junk emptyTask newSize;
       a \<leftarrow> copy_words (db_args ns) 0 (db_args s) 0 (n - 1);
       Some (Enlarged \<lparr>db_active = db_active s, db_args = a\<rparr>) } }"

text \<open>\<^verbatim>\<open>Thread::PushFrame\<close> enlarges once.\<close>

definition Thread_PushFrame :: "junk \<Rightarrow> store_word \<Rightarrow> nat \<Rightarrow> dynblock \<Rightarrow> stack_result option" where
  "Thread_PushFrame junk emptyTask n s = do {
     let newTop = db_active s + n;
     r \<leftarrow> (if newTop \<ge> length (db_args s) then TaskStack_Enlarge junk emptyTask s else Some (Enlarged s));
     case r of StackOverflow \<Rightarrow> Some StackOverflow
     | Enlarged s1 \<Rightarrow> do {
         Assert (newTop < length (db_args s1));
         s2 \<leftarrow> SetActiveSize newTop s1;
         Some (Enlarged s2) } }"

text \<open>A frame on the stack: its worker at the top index, its arguments below (\<^verbatim>\<open>StackFrame.hh\<close>).\<close>

definition Frame_GetWorker :: "nat \<Rightarrow> dynblock \<Rightarrow> store_word option" where
  "Frame_GetWorker tp s = (if tp = 0 then None else Block_GetArg (db_args s) (tp - 1))"

definition Frame_GetArg :: "nat \<Rightarrow> nat \<Rightarrow> dynblock \<Rightarrow> store_word option" where
  "Frame_GetArg tp pos s = (if tp < pos + 2 then None else Block_GetArg (db_args s) (tp - 2 - pos))"

definition Frame_New :: "nat \<Rightarrow> store_word \<Rightarrow> dynblock \<Rightarrow> dynblock option" where
  "Frame_New tp w s = (if tp = 0 then None else do {
     a \<leftarrow> Block_SetArg (db_args s) (tp - 1) w; Some (s\<lparr>db_args := a\<rparr>) })"

definition Frame_InitArg :: "nat \<Rightarrow> nat \<Rightarrow> store_word \<Rightarrow> dynblock \<Rightarrow> dynblock option" where
  "Frame_InitArg tp pos v s = (if tp < pos + 2 then None else do {
     a \<leftarrow> Block_SetArg (db_args s) (tp - 2 - pos) v; Some (s\<lparr>db_args := a\<rparr>) })"

text \<open>\<^verbatim>\<open>Scheduler::PushFrame\<close> enlarges as often as needed.\<close>

lemma TaskStack_Enlarge_grows:
  assumes "TaskStack_Enlarge junk e s = Some (Enlarged s')"
  shows "length (db_args s) < length (db_args s') \<and> length (db_args s') < 16777200 \<and> db_active s' = db_active s \<and>
    take (length (db_args s) - 1) (db_args s') = take (length (db_args s) - 1) (db_args s)"
proof -
  let ?n = "length (db_args s)"
  define m where "m = (if ?n * 3 div 2 > 16777199 then 16777199 else ?n * 3 div 2)"
  have "\<not> (?n * 3 div 2 > 16777199 \<and> \<not> ?n < 16777199)"
    using assms by (auto simp: TaskStack_Enlarge_def Let_def split: if_splits)
  then obtain ns a where ns: "TaskStack_New junk e m = Some ns" "copy_words (db_args ns) 0 (db_args s) 0 (?n - 1) = Some a"
    "s' = \<lparr>db_active = db_active s, db_args = a\<rparr>" and m: "?n * 3 div 2 > 16777199 \<longrightarrow> ?n < 16777199"
    using assms by (auto simp: TaskStack_Enlarge_def Let_def m_def bind_eq_Some_conv split: if_splits)
  have "4 \<le> m" "length (db_args ns) = alloc_size (m + 1) - 1"
    using ns(1) by (auto simp: TaskStack_New_def AllocDynamic_def DynamicBlock_InitArg_def run_elims)
  moreover have "m + 1 \<le> 16777200" by (simp add: m_def)
  note alloc_size_bounds(1,2) [OF this]
  moreover have "?n < m" using m \<open>4 \<le> m\<close> by (auto simp: m_def split: if_splits)
  ultimately have "?n < length (db_args ns)" "length (db_args ns) < 16777200" by auto
  then show ?thesis using ns(2) length_copy_words [OF ns(2)] by (auto simp: ns(3) copy_words_def split: if_splits)
qed

function Scheduler_PushFrame :: "junk \<Rightarrow> store_word \<Rightarrow> nat \<Rightarrow> nat \<Rightarrow> dynblock \<Rightarrow> (nat \<times> stack_result) option" where
  "Scheduler_PushFrame junk e n tp s =
     (if tp + n \<ge> length (db_args s)
      then do {
        Assert (tp < length (db_args s));
        r \<leftarrow> TaskStack_Enlarge junk e s;
        case r of StackOverflow \<Rightarrow> Some (tp, StackOverflow)
        | Enlarged s1 \<Rightarrow> Scheduler_PushFrame junk e n tp s1 }
      else Some (tp + n, Enlarged s))"
  by pat_completeness auto
termination
  by (relation "measure (\<lambda>(junk, e, n, tp, s). 16777200 - length (db_args s))")
    (auto dest: TaskStack_Enlarge_grows)

declare Scheduler_PushFrame.simps [simp del]

definition Scheduler_PopFrame :: "nat \<Rightarrow> nat \<Rightarrow> nat option" where
  "Scheduler_PopFrame n tp = do { Assert (n + 1 \<le> tp); Some (tp - n) }"

text \<open>
  \<^verbatim>\<open>TaskStack::Purge\<close> walks the frames from the top down. The sizes of the frames and what purging does to a
  frame are the workers' virtual functions: parameters \<open>fsize\<close> and \<open>purge\<close> that get the frame's top index.
  A worker that reports size 0 makes the loop diverge.
\<close>

partial_function (option) purge_frames ::
  "(nat \<Rightarrow> dynblock \<Rightarrow> nat option) \<Rightarrow> (nat \<Rightarrow> dynblock \<Rightarrow> dynblock option) \<Rightarrow> nat \<Rightarrow> dynblock \<Rightarrow> dynblock option" where
  "purge_frames fsize purge tp s =
     (if tp = 0 then Some s
      else Option.bind (fsize tp s) (\<lambda>n. Option.bind (purge tp s) (\<lambda>s1. purge_frames fsize purge (tp - n) s1)))"

declare purge_frames.simps [code]

definition TaskStack_Purge ::
  "(nat \<Rightarrow> dynblock \<Rightarrow> nat option) \<Rightarrow> (nat \<Rightarrow> dynblock \<Rightarrow> dynblock option) \<Rightarrow> dynblock \<Rightarrow> dynblock option" where
  "TaskStack_Purge fsize purge s = purge_frames fsize purge (db_active s) s"

section \<open>Handler stacks\<close>

datatype handler_state = TRYING | HANDLING

text \<open>A package is the word of a pair of an exception and a backtrace.\<close>

type_synonym package = store_word

datatype hslot = HFrame nat | HState handler_state | HData store_word | HPackage package

record hblock =
  hb_active :: nat
  hb_args :: "hslot list"

definition HANDLER_FRAME_SIZE :: nat where "HANDLER_FRAME_SIZE = 3"
definition INITIAL_HANDLERS_SIZE :: nat where "INITIAL_HANDLERS_SIZE = 10"

type_synonym hjunk = "nat \<Rightarrow> hslot"

definition hblock_alloc :: "hjunk \<Rightarrow> nat \<Rightarrow> nat \<Rightarrow> hblock option" where
  "hblock_alloc junk n scan = do {
     Assert (n + 1 \<le> unat MAX_BIGBLOCKSIZE);
     Some \<lparr>hb_active = scan, hb_args = map junk [0..<alloc_size (n + 1) - 1]\<rparr> }"

definition hblock_GetArg :: "nat \<Rightarrow> hblock \<Rightarrow> hslot option" where
  "hblock_GetArg f b = do { Assert (f < hb_active b); Block_GetArg (hb_args b) f }"

definition hblock_SetArg :: "nat \<Rightarrow> hslot \<Rightarrow> hblock \<Rightarrow> hblock option" where
  "hblock_SetArg f v b = do {
     Assert (f < hb_active b);
     a \<leftarrow> Block_SetArg (hb_args b) f v;
     Some (b\<lparr>hb_args := a\<rparr>) }"

definition hblock_SetActiveSize :: "nat \<Rightarrow> hblock \<Rightarrow> hblock option" where
  "hblock_SetActiveSize n b = do { Assert (n \<le> length (hb_args b)); Some (b\<lparr>hb_active := n\<rparr>) }"

text \<open>The handler part of \<^verbatim>\<open>Thread::New\<close>: the handler of the empty task.\<close>

definition Handlers_New :: "hjunk \<Rightarrow> hblock option" where
  "Handlers_New junk = do {
     b \<leftarrow> hblock_alloc junk INITIAL_HANDLERS_SIZE 3;
     b \<leftarrow> hblock_SetArg 0 (HFrame 0) b;
     b \<leftarrow> hblock_SetArg 1 (HState TRYING) b;
     hblock_SetArg 2 (HData (IntW 0)) b }"

definition PushHandler :: "hjunk \<Rightarrow> nat \<Rightarrow> store_word \<Rightarrow> hblock \<Rightarrow> hblock option" where
  "PushHandler junk frame data b = do {
     let top = hb_active b;
     let sz = length (hb_args b);
     b1 \<leftarrow> (if top + HANDLER_FRAME_SIZE \<ge> sz then do {
              n \<leftarrow> hblock_alloc junk (sz * 3 div 2) top;
              a \<leftarrow> copy_words (hb_args n) 0 (hb_args b) 0 (sz - 1);
              Some (n\<lparr>hb_args := a\<rparr>)
            } else Some b);
     Assert (top + HANDLER_FRAME_SIZE < length (hb_args b1));
     b2 \<leftarrow> hblock_SetActiveSize (top + HANDLER_FRAME_SIZE) b1;
     b3 \<leftarrow> hblock_SetArg top (HFrame frame) b2;
     b4 \<leftarrow> hblock_SetArg (top + 1) (HState TRYING) b3;
     hblock_SetArg (top + 2) (HData data) b4 }"

definition slot_frame :: "hslot \<Rightarrow> nat option" where
  "slot_frame v = (case v of HFrame f \<Rightarrow> Some f | _ \<Rightarrow> None)"

definition slot_state :: "hslot \<Rightarrow> handler_state option" where
  "slot_state v = (case v of HState s \<Rightarrow> Some s | _ \<Rightarrow> None)"

lemma hblock_SetActiveSize_Some [run_elims]:
  "hblock_SetActiveSize n b = Some b' \<longleftrightarrow> n \<le> length (hb_args b) \<and> b' = b\<lparr>hb_active := n\<rparr>"
  by (auto simp: hblock_SetActiveSize_def run_elims)

function ActivateNextHandler :: "package \<Rightarrow> hblock \<Rightarrow> (nat \<times> hslot \<times> hblock) option" where
  "ActivateNextHandler pkg b = do {
     let top = hb_active b;
     Assert (top \<ge> HANDLER_FRAME_SIZE);
     data \<leftarrow> hblock_GetArg (top - 1) b;
     v \<leftarrow> hblock_GetArg (top - 2) b;
     state \<leftarrow> slot_state v;
     f \<leftarrow> hblock_GetArg (top - 3) b;
     frame \<leftarrow> slot_frame f;
     if state = TRYING then do {
       b1 \<leftarrow> hblock_SetArg (top - 1) (HPackage pkg) b;
       b2 \<leftarrow> hblock_SetArg (top - 2) (HState HANDLING) b1;
       Some (frame, data, b2)
     } else do {
       b1 \<leftarrow> hblock_SetActiveSize (top - HANDLER_FRAME_SIZE) b;
       ActivateNextHandler pkg b1 } }"
  by pat_completeness auto
termination
  by (relation "measure (\<lambda>(pkg, b). hb_active b)") (auto simp: run_elims HANDLER_FRAME_SIZE_def)

declare ActivateNextHandler.simps [simp del]

function current_package_from :: "nat \<Rightarrow> hblock \<Rightarrow> package option option" where
  "current_package_from cur b =
     (if cur = 0 then Some None
      else do {
        Assert (cur \<ge> HANDLER_FRAME_SIZE);
        data \<leftarrow> hblock_GetArg (cur - 1) b;
        v \<leftarrow> hblock_GetArg (cur - 2) b;
        state \<leftarrow> slot_state v;
        if state = HANDLING
        then (case data of HPackage p \<Rightarrow> Some (Some p) | _ \<Rightarrow> None)
        else current_package_from (cur - 3) b })"
  by pat_completeness auto
termination by (relation "measure fst") auto

declare current_package_from.simps [simp del]

definition GetCurrentPackage :: "hblock \<Rightarrow> package option option" where
  "GetCurrentPackage b = current_package_from (hb_active b) b"

definition PopHandler :: "hblock \<Rightarrow> hblock option" where
  "PopHandler b = do {
     Assert (hb_active b \<ge> HANDLER_FRAME_SIZE);
     hblock_SetActiveSize (hb_active b - HANDLER_FRAME_SIZE) b }"

section \<open>Task stack properties\<close>

text \<open>A task stack in use: the top leaves room below the last argument.\<close>

definition task_stack_inv :: "dynblock \<Rightarrow> bool" where
  "task_stack_inv s \<longleftrightarrow> db_active s < length (db_args s) \<and> 4 \<le> length (db_args s) \<and> length (db_args s) < 16777200"

lemma TaskStack_New_spec:
  assumes "4 \<le> n" and "n < 16777200"
  shows "\<exists>s. TaskStack_New junk e n = Some s \<and> db_active s = 1 \<and> n \<le> length (db_args s) \<and>
    length (db_args s) < 16777200 \<and> db_args s ! 0 = e"
proof -
  have n: "n + 1 \<le> 16777200" using assms by simp
  have "AllocDynamic junk n 1 = Some \<lparr>db_active = 1, db_args = tl (map junk [0..<alloc_size (n + 1)])\<rparr>"
    using n by (simp add: AllocDynamic_def run_simps)
  moreover have "0 < length (tl (map junk [0..<alloc_size (n + 1)]))"
    using alloc_size_bounds(1) [OF n] assms by simp
  ultimately show ?thesis using assms alloc_size_bounds [OF n]
    by (auto simp: TaskStack_New_def DynamicBlock_InitArg_def run_simps)
qed

lemma TaskStack_Enlarge_total:
  assumes "4 \<le> length (db_args s)" and "length (db_args s) < 16777200"
  shows "if length (db_args s) = 16777199 then TaskStack_Enlarge junk e s = Some StackOverflow
    else \<exists>s'. TaskStack_Enlarge junk e s = Some (Enlarged s')"
proof (cases "length (db_args s) = 16777199")
  case False
  let ?n = "length (db_args s)"
  define m where "m = (if ?n * 3 div 2 > 16777199 then 16777199 else ?n * 3 div 2)"
  have m: "4 \<le> m" "m < 16777200" "?n \<le> m" using assms False by (auto simp: m_def)
  obtain ns where "TaskStack_New junk e m = Some ns" "m \<le> length (db_args ns)"
    using TaskStack_New_spec [OF m(1,2), of junk e] by blast
  then show ?thesis using False assms m
    by (auto simp: TaskStack_Enlarge_def Let_def copy_words_def m_def split: if_splits)
qed (simp add: TaskStack_Enlarge_def Let_def)

lemma Scheduler_PushFrame_total:
  assumes "4 \<le> length (db_args s)" and "length (db_args s) < 16777200" and "tp < length (db_args s)"
  shows "\<exists>r. Scheduler_PushFrame junk e n tp s = Some r \<and>
    (case r of (tp', StackOverflow) \<Rightarrow> tp' = tp \<and> 16777199 \<le> tp + n
     | (tp', Enlarged s') \<Rightarrow> tp' = tp + n \<and> tp' < length (db_args s') \<and> length (db_args s') < 16777200 \<and>
         db_active s' = db_active s \<and> take tp (db_args s') = take tp (db_args s))"
  using assms
proof (induction junk e n tp s rule: Scheduler_PushFrame.induct)
  case (1 junk e n tp s)
  let ?n = "length (db_args s)"
  show ?case
  proof (cases "tp + n \<ge> ?n")
    case False
    then show ?thesis using "1.prems" by (subst Scheduler_PushFrame.simps) simp
  next
    case True
    show ?thesis
    proof (cases "?n = 16777199")
      case full: True
      then have "TaskStack_Enlarge junk e s = Some StackOverflow"
        using TaskStack_Enlarge_total [OF "1.prems"(1,2), of junk e] by simp
      then show ?thesis using True full "1.prems" by (subst Scheduler_PushFrame.simps) simp
    next
      case False
      then obtain s1 where s1: "TaskStack_Enlarge junk e s = Some (Enlarged s1)"
        using TaskStack_Enlarge_total [OF "1.prems"(1,2), of junk e] by auto
      note g = TaskStack_Enlarge_grows [OF s1]
      have run: "Scheduler_PushFrame junk e n tp s = Scheduler_PushFrame junk e n tp s1"
        using True s1 "1.prems" by (subst Scheduler_PushFrame.simps) simp
      have "tp \<le> ?n - 1" using "1.prems"(3) by simp
      then have same: "take tp (db_args s1) = take tp (db_args s)"
        using g by (metis min.absorb1 take_take)
      have "\<exists>r. Scheduler_PushFrame junk e n tp s1 = Some r \<and>
        (case r of (tp', StackOverflow) \<Rightarrow> tp' = tp \<and> 16777199 \<le> tp + n
         | (tp', Enlarged s') \<Rightarrow> tp' = tp + n \<and> tp' < length (db_args s') \<and> length (db_args s') < 16777200 \<and>
             db_active s' = db_active s1 \<and> take tp (db_args s') = take tp (db_args s1))"
        by (rule "1.IH" [OF True]) (use "1.prems" g s1 in auto)
      then show ?thesis unfolding run same using g by auto
    qed
  qed
qed

section \<open>The handler stack as a list\<close>

text \<open>The handler frames, the innermost first: frame index, state and data.\<close>

fun parse_slots :: "hslot list \<Rightarrow> (nat \<times> handler_state \<times> hslot) list option" where
  "parse_slots [] = Some []"
| "parse_slots (d # HState st # HFrame f # rest) = map_option ((#) (f, st, d)) (parse_slots rest)"
| "parse_slots _ = None"

definition handlers_view :: "hblock \<Rightarrow> (nat \<times> handler_state \<times> hslot) list option" where
  "handlers_view b = parse_slots (rev (take (hb_active b) (hb_args b)))"

definition handlers_inv :: "hblock \<Rightarrow> bool" where
  "handlers_inv b \<longleftrightarrow> hb_active b < length (hb_args b) \<and> 6 \<le> length (hb_args b) \<and> length (hb_args b) < 16777200"

lemma parse_slots_Cons:
  "parse_slots xs = Some ((f, st, d) # fs) \<Longrightarrow> \<exists>rest. xs = d # HState st # HFrame f # rest \<and> parse_slots rest = Some fs"
  by (cases xs rule: parse_slots.cases) auto

lemma parse_slots_Nil: "parse_slots xs = Some [] \<longleftrightarrow> xs = []"
  by (cases xs rule: parse_slots.cases) auto

text \<open>The three topmost slots of a non-empty handler stack.\<close>

lemma handlers_top:
  assumes "handlers_inv b" and "handlers_view b = Some ((f, st, d) # fs)"
  obtains n where "hb_active b = n + 3" "hb_args b ! n = HFrame f" "hb_args b ! (n + 1) = HState st" "hb_args b ! (n + 2) = d"
    "parse_slots (rev (take n (hb_args b))) = Some fs" "n + 3 < length (hb_args b)"
proof -
  obtain rest where rest: "rev (take (hb_active b) (hb_args b)) = d # HState st # HFrame f # rest" "parse_slots rest = Some fs"
    using parse_slots_Cons assms(2) unfolding handlers_view_def by blast
  have lt: "hb_active b < length (hb_args b)" using assms(1) by (simp add: handlers_inv_def)
  have t: "take (hb_active b) (hb_args b) = rev rest @ [HFrame f, HState st, d]"
    using rest(1) by (simp add: rev_swap)
  define n where "n = length rest"
  have n: "hb_active b = n + 3" using arg_cong [OF t, of length] lt by (simp add: n_def)
  have at: "hb_args b ! i = (rev rest @ [HFrame f, HState st, d]) ! i" if "i < n + 3" for i
    using that unfolding t [symmetric] by (simp add: n)
  have "take n (hb_args b) = take n (take (hb_active b) (hb_args b))" by (simp add: n)
  then have "rev (take n (hb_args b)) = rest" unfolding t by (simp add: n_def)
  then show thesis
    using that [OF n] at [of n] at [of "n + 1"] at [of "n + 2"] rest(2) lt n by (simp add: n_def nth_append)
qed

lemma handlers_empty: "handlers_inv b \<Longrightarrow> handlers_view b = Some [] \<Longrightarrow> hb_active b = 0"
  by (auto simp: handlers_view_def parse_slots_Nil handlers_inv_def)

lemma PopHandler_spec:
  assumes "handlers_inv b" and "handlers_view b = Some (h # hs)"
  shows "\<exists>b'. PopHandler b = Some b' \<and> handlers_inv b' \<and> handlers_view b' = Some hs"
proof -
  obtain f st d where h: "h = (f, st, d)" by (cases h)
  obtain n where "hb_active b = n + 3" "parse_slots (rev (take n (hb_args b))) = Some hs" "n + 3 < length (hb_args b)"
    using handlers_top [OF assms(1) assms(2) [unfolded h]] by metis
  then show ?thesis using assms(1)
    by (auto simp: PopHandler_def HANDLER_FRAME_SIZE_def hblock_SetActiveSize_def handlers_inv_def handlers_view_def)
qed

lemma take_extend3:
  assumes "n + 3 \<le> length xs"
  shows "rev (take (n + 3) xs) = xs ! (n + 2) # xs ! (n + 1) # xs ! n # rev (take n xs)"
proof -
  have "take (n + 3) xs = take n xs @ [xs ! n, xs ! (n + 1), xs ! (n + 2)]"
    using assms by (simp add: numeral_3_eq_3 take_Suc_conv_app_nth)
  then show ?thesis by simp
qed

lemma PushHandler_spec:
  assumes "handlers_inv b" and "handlers_view b = Some hs" and "length (hb_args b) * 3 div 2 < 16777200"
  shows "\<exists>b'. PushHandler junk f w b = Some b' \<and> handlers_inv b' \<and> handlers_view b' = Some ((f, TRYING, HData w) # hs)"
proof -
  let ?t = "hb_active b" and ?n = "length (hb_args b)"
  have i: "?t < ?n" "6 \<le> ?n" "?n < 16777200" using assms(1) by (auto simp: handlers_inv_def)
  have "\<exists>b1. (if ?t + 3 \<ge> ?n then do {
              n \<leftarrow> hblock_alloc junk (?n * 3 div 2) ?t;
              a \<leftarrow> copy_words (hb_args n) 0 (hb_args b) 0 (?n - 1);
              Some (n\<lparr>hb_args := a\<rparr>)
            } else Some b) = Some b1 \<and> hb_active b1 = ?t \<and> ?t + 3 < length (hb_args b1) \<and> length (hb_args b1) < 16777200 \<and>
        6 \<le> length (hb_args b1) \<and> take ?t (hb_args b1) = take ?t (hb_args b)"
  proof (cases "?t + 3 \<ge> ?n")
    case True
    let ?m = "?n * 3 div 2"
    have m: "?m + 1 \<le> 16777200" using assms(3) by simp
    note al = alloc_size_bounds(1,2) [OF m]
    let ?a = "map junk [0..<alloc_size (?m + 1) - 1]"
    have la: "?m \<le> length ?a" "length ?a < 16777200" using al by auto
    have nm: "?n - 1 \<le> ?m" "?n + 2 < ?m" using i by auto
    have "copy_words ?a 0 (hb_args b) 0 (?n - 1) = Some (take (?n - 1) (hb_args b) @ drop (?n - 1) ?a)"
      using la nm i by (simp add: copy_words_def)
    then show ?thesis using True m la nm i
      by (auto simp: hblock_alloc_def min_def)
  qed (use i in auto)
  then obtain b1 where b1: "(if ?t + 3 \<ge> ?n then do {
              n \<leftarrow> hblock_alloc junk (?n * 3 div 2) ?t;
              a \<leftarrow> copy_words (hb_args n) 0 (hb_args b) 0 (?n - 1);
              Some (n\<lparr>hb_args := a\<rparr>)
            } else Some b) = Some b1" "hb_active b1 = ?t" "?t + 3 < length (hb_args b1)" "length (hb_args b1) < 16777200"
        "6 \<le> length (hb_args b1)" "take ?t (hb_args b1) = take ?t (hb_args b)" by blast
  define a where "a = (hb_args b1)[?t := HFrame f, ?t + 1 := HState TRYING, ?t + 2 := HData w]"
  have run: "PushHandler junk f w b = Some \<lparr>hb_active = ?t + 3, hb_args = a\<rparr>"
    unfolding PushHandler_def HANDLER_FRAME_SIZE_def Let_def b1(1)
    using b1(2,3) by (simp add: hblock_SetActiveSize_def hblock_SetArg_def run_simps a_def)
  have "length a = length (hb_args b1)" "take ?t a = take ?t (hb_args b)" "a ! ?t = HFrame f"
    "a ! (?t + 1) = HState TRYING" "a ! (?t + 2) = HData w"
    using b1(3,6) by (simp_all add: a_def)
  then show ?thesis unfolding run using b1(3,4,5) assms(2) i(2) take_extend3 [of ?t a]
    by (simp add: handlers_inv_def handlers_view_def)
qed

lemma Handlers_New_spec:
  "\<exists>b. Handlers_New junk = Some b \<and> handlers_inv b \<and> handlers_view b = Some [(0, TRYING, HData (IntW 0))]"
proof -
  let ?a = "map junk [0..<10]"
  define a where "a = ?a[0 := HFrame 0, 1 := HState TRYING, 2 := HData (IntW 0)]"
  have al: "alloc_size 11 = 11" by (simp add: alloc_size_eq)
  have "length a = 10" "a ! 0 = HFrame 0" "a ! 1 = HState TRYING" "a ! 2 = HData (IntW 0)" by (simp_all add: a_def)
  moreover have "Handlers_New junk = Some \<lparr>hb_active = 3, hb_args = a\<rparr>"
    by (simp add: Handlers_New_def hblock_alloc_def INITIAL_HANDLERS_SIZE_def hblock_SetArg_def run_simps al a_def)
  ultimately show ?thesis using take_extend3 [of 0 a] by (simp add: handlers_inv_def handlers_view_def numeral_2_eq_2)
qed

text \<open>Raising: the handlers that are being executed are skipped, the innermost one that is not gets the package.\<close>

fun is_trying :: "nat \<times> handler_state \<times> hslot \<Rightarrow> bool" where
  "is_trying (f, st, d) \<longleftrightarrow> st = TRYING"

lemma ActivateNextHandler_spec:
  assumes "handlers_inv b" and "handlers_view b = Some hs" and "dropWhile (\<lambda>h. \<not> is_trying h) hs = (f, st, d) # rest"
  shows "\<exists>b'. ActivateNextHandler pkg b = Some (f, d, b') \<and> handlers_inv b' \<and>
    handlers_view b' = Some ((f, HANDLING, HPackage pkg) # rest)"
  using assms
proof (induction hs arbitrary: b)
  case (Cons h hs)
  obtain f0 st0 d0 where h: "h = (f0, st0, d0)" by (cases h)
  obtain n where n: "hb_active b = n + 3" "hb_args b ! n = HFrame f0" "hb_args b ! (n + 1) = HState st0" "hb_args b ! (n + 2) = d0"
    "parse_slots (rev (take n (hb_args b))) = Some hs" "n + 3 < length (hb_args b)"
    using handlers_top [OF Cons.prems(1) Cons.prems(2) [unfolded h]] by metis
  have idx: "n + 3 - 1 = n + 2" "n + 3 - 2 = n + 1" "n + 3 - 3 = n" by simp_all
  show ?case
  proof (cases st0)
    case TRYING
    define a where "a = (hb_args b)[n + 2 := HPackage pkg, n + 1 := HState HANDLING]"
    have a: "length a = length (hb_args b)" "take n a = take n (hb_args b)" "a ! n = HFrame f0"
      "a ! (n + 1) = HState HANDLING" "a ! (n + 2) = HPackage pkg" using n(2,6) by (simp_all add: a_def)
    have "ActivateNextHandler pkg b = Some (f0, d0, b\<lparr>hb_args := a\<rparr>)"
      using n TRYING by (subst ActivateNextHandler.simps)
        (simp add: HANDLER_FRAME_SIZE_def hblock_GetArg_def hblock_SetArg_def run_simps slot_state_def slot_frame_def a_def)
    moreover have "(f0, TRYING, d0) # hs = (f, st, d) # rest" using Cons.prems(3) TRYING by (simp add: h)
    ultimately show ?thesis using Cons.prems(1) n(1,5,6) a take_extend3 [of n a]
      by (simp add: handlers_inv_def handlers_view_def)
  next
    case HANDLING
    have "ActivateNextHandler pkg b = ActivateNextHandler pkg (b\<lparr>hb_active := n\<rparr>)"
      using n HANDLING by (subst ActivateNextHandler.simps)
        (simp add: HANDLER_FRAME_SIZE_def hblock_GetArg_def hblock_SetActiveSize_def run_simps slot_state_def slot_frame_def)
    moreover have "handlers_inv (b\<lparr>hb_active := n\<rparr>)" "handlers_view (b\<lparr>hb_active := n\<rparr>) = Some hs"
      using Cons.prems(1) n by (simp_all add: handlers_inv_def handlers_view_def)
    moreover have "dropWhile (\<lambda>h. \<not> is_trying h) hs = (f, st, d) # rest"
      using Cons.prems(3) HANDLING by (simp add: h)
    ultimately show ?thesis using Cons.IH by simp
  qed
qed simp

text \<open>The package being handled is the one of the innermost active handler.\<close>

lemma current_package_spec:
  assumes "n < length (hb_args b)" and "n \<le> hb_active b" and "parse_slots (rev (take n (hb_args b))) = Some hs"
    and "\<forall>h \<in> set hs. \<not> is_trying h \<longrightarrow> (\<exists>p. snd (snd h) = HPackage p)"
  shows "current_package_from n b =
    (case dropWhile is_trying hs of [] \<Rightarrow> Some None | h # _ \<Rightarrow> (case snd (snd h) of HPackage p \<Rightarrow> Some (Some p) | _ \<Rightarrow> None))"
  using assms
proof (induction hs arbitrary: n)
  case Nil
  then show ?case by (simp add: parse_slots_Nil) (subst current_package_from.simps, auto)
next
  case (Cons h hs)
  obtain f st d where h: "h = (f, st, d)" by (cases h)
  let ?b = "b\<lparr>hb_active := n\<rparr>"
  obtain rest where rest: "rev (take n (hb_args b)) = d # HState st # HFrame f # rest" "parse_slots rest = Some hs"
    using parse_slots_Cons Cons.prems(3) unfolding h by blast
  have t: "take n (hb_args b) = rev rest @ [HFrame f, HState st, d]"
    using rest(1) by (simp add: rev_swap)
  define k where "k = length rest"
  have k: "n = k + 3" using arg_cong [OF t, of length] Cons.prems(1) by (simp add: k_def)
  have at: "hb_args b ! i = (rev rest @ [HFrame f, HState st, d]) ! i" if "i < n" for i
    using that unfolding t [symmetric] by simp
  have "take k (hb_args b) = take k (take n (hb_args b))" by (simp add: k)
  then have "rev (take k (hb_args b)) = rest" unfolding t by (simp add: k_def)
  then have view: "parse_slots (rev (take k (hb_args b))) = Some hs" using rest(2) by simp
  have v: "hb_args b ! (k + 1) = HState st" "hb_args b ! (k + 2) = d"
    using at [of "k + 1"] at [of "k + 2"] by (simp_all add: k k_def nth_append)
  have step: "current_package_from n b = (if st = HANDLING then (case d of HPackage p \<Rightarrow> Some (Some p) | _ \<Rightarrow> None)
      else current_package_from k b)"
    using Cons.prems(1,2) v by (subst current_package_from.simps)
      (simp add: k HANDLER_FRAME_SIZE_def hblock_GetArg_def run_simps slot_state_def)
  show ?case
  proof (cases st)
    case TRYING
    have "current_package_from k b = (case dropWhile is_trying hs of [] \<Rightarrow> Some None
        | h # _ \<Rightarrow> (case snd (snd h) of HPackage p \<Rightarrow> Some (Some p) | _ \<Rightarrow> None))"
      by (rule Cons.IH) (use Cons.prems k view in auto)
    then show ?thesis using TRYING step by (simp add: h)
  next
    case HANDLING
    then show ?thesis using step by (simp add: h)
  qed
qed

text \<open>The walk over the frames ends when every frame has a size and purging one changes no size.\<close>

lemma purge_frames_ends:
  assumes "\<And>t s. 0 < t \<Longrightarrow> I s \<Longrightarrow> \<exists>n s'. fsize t s = Some n \<and> 0 < n \<and> purge t s = Some s' \<and> I s'" and "I s"
  shows "\<exists>s'. purge_frames fsize purge tp s = Some s' \<and> I s'"
  using assms(2)
proof (induction tp arbitrary: s rule: less_induct)
  case (less tp)
  show ?case
  proof (cases "tp = 0")
    case False
    then obtain n s1 where "fsize tp s = Some n" "0 < n" "purge tp s = Some s1" "I s1"
      using assms(1) [OF _ less.prems] by blast
    moreover have "tp - n < tp" using False \<open>0 < n\<close> by simp
    ultimately show ?thesis using less.IH [of "tp - n" s1] False by (subst purge_frames.simps) simp
  qed (use less in \<open>subst purge_frames.simps, simp\<close>)
qed

section \<open>Properties\<close>

text \<open>
  C18: \<^verbatim>\<open>Scheduler::PushFrame\<close> always returns. It signals a stack overflow exactly when the frame does not fit
  below the last argument of the largest dynamic block; otherwise the new top lies inside the stack, the words below
  the old top are the same, the worker written into the frame is read back, and \<^verbatim>\<open>PopFrame\<close> of the same size restores
  the top.
\<close>

theorem push_frame_total:
  assumes "4 \<le> length (db_args s)" and "length (db_args s) < 16777200" and "tp < length (db_args s)"
  shows "if 16777199 \<le> tp + n then Scheduler_PushFrame junk e n tp s = Some (tp, StackOverflow)
    else \<exists>s'. Scheduler_PushFrame junk e n tp s = Some (tp + n, Enlarged s') \<and> tp + n < length (db_args s') \<and>
      take tp (db_args s') = take tp (db_args s) \<and>
      (0 < tp \<longrightarrow> Scheduler_PopFrame n (tp + n) = Some tp) \<and>
      (0 < n \<longrightarrow> (\<forall>w. \<exists>s''. Frame_New (tp + n) w s' = Some s'' \<and> Frame_GetWorker (tp + n) s'' = Some w \<and>
        take tp (db_args s'') = take tp (db_args s)))"
proof -
  obtain p where p: "Scheduler_PushFrame junk e n tp s = Some p" and
    c0: "case p of (tp', StackOverflow) \<Rightarrow> tp' = tp \<and> 16777199 \<le> tp + n
     | (tp', Enlarged s') \<Rightarrow> tp' = tp + n \<and> tp' < length (db_args s') \<and> length (db_args s') < 16777200 \<and>
         db_active s' = db_active s \<and> take tp (db_args s') = take tp (db_args s)"
    using Scheduler_PushFrame_total [OF assms, of junk e n] by blast
  obtain t r where tr: "p = (t, r)" by (cases p)
  note r = p [unfolded tr] and c = c0 [unfolded tr]
  show ?thesis
  proof (cases r)
    case (Enlarged s')
    have "take tp ((db_args s')[tp + n - Suc 0 := w]) = take tp (db_args s)" if "0 < n" for w
      using c Enlarged that by simp
    then show ?thesis using r c Enlarged
      by (auto simp: Scheduler_PopFrame_def Frame_New_def Frame_GetWorker_def run_simps)
  qed (use r c in auto)
qed

theorem push_frame_total_witness:
  "\<exists>s. TaskStack_New (\<lambda>_. IntW 7) (BlkW 64) 20 = Some s \<and>
    (\<exists>s'. Scheduler_PushFrame (\<lambda>_. IntW 7) (BlkW 64) 100 1 s = Some (101, Enlarged s') \<and> 101 < length (db_args s') \<and>
      take 1 (db_args s') = take 1 (db_args s)) \<and>
    Scheduler_PushFrame (\<lambda>_. IntW 7) (BlkW 64) 20000000 1 s = Some (1, StackOverflow)"
proof -
  obtain s where s: "TaskStack_New (\<lambda>_. IntW 7) (BlkW 64) 20 = Some s" "20 \<le> length (db_args s)" "length (db_args s) < 16777200"
    using TaskStack_New_spec [of 20 "\<lambda>_. IntW 7" "BlkW 64"] by auto
  have "4 \<le> length (db_args s)" "1 < length (db_args s)" using s by simp_all
  note p = push_frame_total [OF this(1) s(3) this(2), where junk = "\<lambda>_. IntW 7" and e = "BlkW 64"]
  show ?thesis using s(1) p [of 100] p [of 20000000] by auto
qed

text \<open>
  C19: the handler stack of a thread is a list of handler frames. A new thread has the frame of the empty task;
  \<^verbatim>\<open>PushHandler\<close> adds a waiting frame, \<^verbatim>\<open>PopHandler\<close> removes the innermost; \<^verbatim>\<open>ActivateNextHandler\<close> drops the frames
  that are already handling, marks the innermost waiting one as handling and stores the package in it, so that
  \<^verbatim>\<open>GetCurrentPackage\<close> then returns this package.
\<close>

theorem handler_stack_refines:
  assumes "handlers_inv b" and "handlers_view b = Some hs"
  shows "(length (hb_args b) * 3 div 2 < 16777200 \<longrightarrow>
      (\<exists>b'. PushHandler junk f w b = Some b' \<and> handlers_inv b' \<and> handlers_view b' = Some ((f, TRYING, HData w) # hs))) \<and>
    (hs \<noteq> [] \<longrightarrow> (\<exists>b'. PopHandler b = Some b' \<and> handlers_inv b' \<and> handlers_view b' = Some (tl hs))) \<and>
    (\<forall>g st d rest. dropWhile (\<lambda>h. \<not> is_trying h) hs = (g, st, d) # rest \<longrightarrow>
      (\<exists>b'. ActivateNextHandler pkg b = Some (g, d, b') \<and> handlers_inv b' \<and>
        handlers_view b' = Some ((g, HANDLING, HPackage pkg) # rest) \<and> GetCurrentPackage b' = Some (Some pkg)))"
proof (intro conjI impI allI)
  show "\<exists>b'. PushHandler junk f w b = Some b' \<and> handlers_inv b' \<and> handlers_view b' = Some ((f, TRYING, HData w) # hs)"
    if "length (hb_args b) * 3 div 2 < 16777200"
    using PushHandler_spec [OF assms that] .
  show "\<exists>b'. PopHandler b = Some b' \<and> handlers_inv b' \<and> handlers_view b' = Some (tl hs)" if "hs \<noteq> []"
    using PopHandler_spec [OF assms(1), of "hd hs" "tl hs"] assms(2) that by simp
  fix g st d rest assume "dropWhile (\<lambda>h. \<not> is_trying h) hs = (g, st, d) # rest"
  then obtain b' where b': "ActivateNextHandler pkg b = Some (g, d, b')" "handlers_inv b'"
      "handlers_view b' = Some ((g, HANDLING, HPackage pkg) # rest)"
    using ActivateNextHandler_spec [OF assms, of g st d rest pkg] by blast
  obtain n where n: "hb_active b' = n + 3" "hb_args b' ! (n + 1) = HState HANDLING" "hb_args b' ! (n + 2) = HPackage pkg"
    "n + 3 < length (hb_args b')" using handlers_top [OF b'(2,3)] by metis
  have "GetCurrentPackage b' = Some (Some pkg)"
    unfolding GetCurrentPackage_def using n by (subst current_package_from.simps)
      (simp add: HANDLER_FRAME_SIZE_def hblock_GetArg_def run_simps slot_state_def)
  then show "\<exists>b'. ActivateNextHandler pkg b = Some (g, d, b') \<and> handlers_inv b' \<and>
      handlers_view b' = Some ((g, HANDLING, HPackage pkg) # rest) \<and> GetCurrentPackage b' = Some (Some pkg)"
    using b' by blast
qed

theorem handler_stack_refines_witness:
  "\<exists>b b'. Handlers_New (\<lambda>_. HFrame 9) = Some b \<and> handlers_view b = Some [(0, TRYING, HData (IntW 0))] \<and>
    ActivateNextHandler (BlkW 64) b = Some (0, HData (IntW 0), b') \<and> GetCurrentPackage b' = Some (Some (BlkW 64)) \<and>
    handlers_view b' = Some [(0, HANDLING, HPackage (BlkW 64))]"
proof -
  obtain b where b: "Handlers_New (\<lambda>_. HFrame 9) = Some b" "handlers_inv b" "handlers_view b = Some [(0, TRYING, HData (IntW 0))]"
    using Handlers_New_spec [of "\<lambda>_. HFrame 9"] by blast
  have "dropWhile (\<lambda>h. \<not> is_trying h) [(0, TRYING, HData (IntW 0))] = (0, TRYING, HData (IntW 0)) # []" by simp
  then show ?thesis using handler_stack_refines [OF b(2,3), where pkg = "BlkW 64"] b(1,3) by blast
qed

end
