(* ===== verification/Transients.thy ===== *)
theory Transients
  imports Queue_Adt
begin

text \<open>
  Transients (\<^verbatim>\<open>seam/generic/Transients.hh\<close>, \<^verbatim>\<open>Transient\<close> of \<^verbatim>\<open>seam/store/Value.hh\<close>, \<^verbatim>\<open>Deref\<close> of
  \<^verbatim>\<open>seam/store/PointerOp.hh\<close> and the dereferencing untagging functions of \<^verbatim>\<open>seam/store/Store.hh\<close>).

  A transient is a block of one argument whose meaning depends on the label: one constructor per label. The wait
  queue of a future is reachable from the future only, so it is part of the constructor (\<open>None\<close> for the
  integer that stands for a queue not created yet). A transient store maps addresses to transients. \<open>Deref\<close>
  follows chains of bound transients and is a partial function: on a cyclic chain the loop does not end.
\<close>

section \<open>The operations\<close>

datatype transient =
    HoleT store_word
  | FutureT "queue option"
  | CancelledT store_word
  | ByneedT store_word
  | RefT store_word

type_synonym tstore = "addr \<Rightarrow> transient option"

partial_function (option) Deref :: "tstore \<Rightarrow> store_word \<Rightarrow> store_word option" where
  "Deref T v =
     (case v of TrW a \<Rightarrow>
        (case T a of None \<Rightarrow> None
         | Some t \<Rightarrow> (case t of RefT w \<Rightarrow> Deref T w | _ \<Rightarrow> Some v))
      | _ \<Rightarrow> Some v)"

declare Deref.simps [code]

text \<open>Untagging a word dereferences it first; the inner option is \<^verbatim>\<open>INVALID_POINTER\<close> or \<^verbatim>\<open>INVALID_INT\<close>.\<close>

definition WordToTransient :: "tstore \<Rightarrow> store_word \<Rightarrow> addr option option" where
  "WordToTransient T w = do { v \<leftarrow> Deref T w; Some (case v of TrW a \<Rightarrow> Some a | _ \<Rightarrow> None) }"

definition WordToBlock :: "tstore \<Rightarrow> store_word \<Rightarrow> addr option option" where
  "WordToBlock T w = do { v \<leftarrow> Deref T w; Some (case v of BlkW a \<Rightarrow> Some a | _ \<Rightarrow> None) }"

definition WordToInt :: "tstore \<Rightarrow> store_word \<Rightarrow> int option option" where
  "WordToInt T w = do { v \<leftarrow> Deref T w; Some (case v of IntW i \<Rightarrow> Some i | _ \<Rightarrow> None) }"

text \<open>
  \<^verbatim>\<open>Transient::Become\<close> sets the label, dereferences the word and stores the result. While the word is dereferenced
  the transient has its new label and its old argument: a word that leads back to a transient that becomes a reference
  is followed through the transient to that argument. The argument of a future is its wait queue or the integer 0;
  each transient keeps the address behind its own for its wait queue.
\<close>

definition wait_queue :: "addr \<Rightarrow> addr" where "wait_queue a = Suc a"

definition transient_arg :: "addr \<Rightarrow> transient \<Rightarrow> store_word" where
  "transient_arg a t = (case t of HoleT w \<Rightarrow> w
     | FutureT q \<Rightarrow> (case q of None \<Rightarrow> IntW 0 | Some _ \<Rightarrow> BlkW (wait_queue a))
     | CancelledT w \<Rightarrow> w | ByneedT w \<Rightarrow> w | RefT w \<Rightarrow> w)"

definition Become :: "tstore \<Rightarrow> addr \<Rightarrow> (store_word \<Rightarrow> transient) \<Rightarrow> store_word \<Rightarrow> tstore option" where
  "Become T a mk w = do {
     t \<leftarrow> T a;
     Assert (case t of RefT _ \<Rightarrow> False | _ \<Rightarrow> True);
     v \<leftarrow> Deref (T(a \<mapsto> mk (transient_arg a t))) w;
     Some (T(a \<mapsto> mk v)) }"

definition Become_future :: "tstore \<Rightarrow> addr \<Rightarrow> tstore option" where
  "Become_future T a = do {
     t \<leftarrow> T a;
     Assert (case t of RefT _ \<Rightarrow> False | _ \<Rightarrow> True);
     Some (T(a \<mapsto> FutureT None)) }"

definition initialWaitQueueSize :: nat where "initialWaitQueueSize = 2"

definition Future_queue :: "tstore \<Rightarrow> addr \<Rightarrow> queue option option" where
  "Future_queue T f = (case T f of Some (FutureT q) \<Rightarrow> Some q | _ \<Rightarrow> None)"

definition AddToWaitQueue :: "junk \<Rightarrow> store_word \<Rightarrow> addr \<Rightarrow> tstore \<Rightarrow> tstore option" where
  "AddToWaitQueue junk thread f T = do {
     wq \<leftarrow> Future_queue T f;
     q \<leftarrow> (case wq of None \<Rightarrow> Queue_New junk initialWaitQueueSize | Some q \<Rightarrow> Some q);
     q' \<leftarrow> Queue_Enqueue junk thread q;
     Some (T(f \<mapsto> FutureT (Some q'))) }"

definition RemoveFromWaitQueue :: "store_word \<Rightarrow> addr \<Rightarrow> tstore \<Rightarrow> tstore option" where
  "RemoveFromWaitQueue thread f T = do {
     wq \<leftarrow> Future_queue T f;
     q \<leftarrow> wq;
     q' \<leftarrow> Queue_Remove thread q;
     Some (T(f \<mapsto> FutureT (Some q'))) }"

section \<open>Dereferencing\<close>

lemma not_RefT [simp]: "(case t of RefT x \<Rightarrow> False | _ \<Rightarrow> True) \<longleftrightarrow> (\<forall>x. t \<noteq> RefT x)"
  by (cases t) auto

lemma Deref_simps [simp]:
  "Deref T (IntW i) = Some (IntW i)"
  "Deref T (BlkW a) = Some (BlkW a)"
  "T a = None \<Longrightarrow> Deref T (TrW a) = None"
  "T a = Some (RefT w) \<Longrightarrow> Deref T (TrW a) = Deref T w"
  by (subst Deref.simps; simp)+

lemma Deref_unbound: "T a = Some t \<Longrightarrow> (\<And>w. t \<noteq> RefT w) \<Longrightarrow> Deref T (TrW a) = Some (TrW a)"
  by (subst Deref.simps) (auto split: transient.splits)

lemma Deref_fixp_cases:
  assumes "Deref T v = Some w"
  shows "w = v \<or> (\<exists>a v'. v = TrW a \<and> T a = Some (RefT v') \<and> Deref T v' = Some w)"
  using assms by (subst (asm) Deref.simps) (auto split: store_word.splits option.splits transient.splits)

text \<open>A well-formed transient store has no dangling references and no cycle of bound transients.\<close>

definition ref_rank :: "tstore \<Rightarrow> (addr \<Rightarrow> nat) \<Rightarrow> bool" where
  "ref_rank T r \<longleftrightarrow> (\<forall>a b. T a = Some (RefT (TrW b)) \<longrightarrow> T b \<noteq> None \<and> r b < r a)"

definition refs_ok :: "tstore \<Rightarrow> bool" where
  "refs_ok T \<longleftrightarrow> (\<exists>r. ref_rank T r)"

definition closed_word :: "tstore \<Rightarrow> store_word \<Rightarrow> bool" where
  "closed_word T w \<longleftrightarrow> (case w of TrW a \<Rightarrow> T a \<noteq> None | _ \<Rightarrow> True)"

definition unbound :: "tstore \<Rightarrow> store_word \<Rightarrow> bool" where
  "unbound T w \<longleftrightarrow> (case w of TrW a \<Rightarrow> (\<exists>t. T a = Some t \<and> (\<forall>v. t \<noteq> RefT v)) | _ \<Rightarrow> True)"

lemma unbound_Deref [simp]: "unbound T w \<Longrightarrow> Deref T w = Some w"
  by (cases w) (auto simp: unbound_def Deref_unbound)

lemma Deref_addr_total:
  assumes "ref_rank T r" and "T a \<noteq> None"
  shows "\<exists>w. Deref T (TrW a) = Some w \<and> unbound T w"
  using assms(2)
proof (induction "r a" arbitrary: a rule: less_induct)
  case less
  then obtain t where t: "T a = Some t" by blast
  show ?case
  proof (cases "\<exists>b. t = RefT (TrW b)")
    case True
    then obtain b where b: "t = RefT (TrW b)" by blast
    then have "T b \<noteq> None" "r b < r a" using assms(1) t by (auto simp: ref_rank_def)
    then show ?thesis using less.hyps t b by simp
  next
    case False
    then show ?thesis using t
    proof (cases t)
      case (RefT w)
      then show ?thesis using t False by (cases w) (auto simp: unbound_def)
    qed (auto simp: Deref_unbound unbound_def)
  qed
qed

lemma Deref_total:
  assumes "refs_ok T" and "closed_word T w"
  shows "\<exists>v. Deref T w = Some v \<and> unbound T v"
proof (cases w)
  case (TrW a)
  then show ?thesis using assms Deref_addr_total by (auto simp: refs_ok_def closed_word_def)
qed (auto simp: unbound_def)

lemma Deref_unbound_result:
  assumes "refs_ok T" and "Deref T w = Some v"
  shows "unbound T v"
proof -
  have "closed_word T w" using assms(2) by (cases w) (auto simp: closed_word_def intro: ccontr)
  then show ?thesis using Deref_total [OF assms(1)] assms(2) by force
qed

text \<open>Induction along the chain of bound transients.\<close>

lemma Deref_induct [consumes 2, case_names stop link]:
  assumes "refs_ok T" and "Deref T w = Some v"
    and stop: "\<And>v. unbound T v \<Longrightarrow> P v v"
    and link: "\<And>b x v. T b = Some (RefT x) \<Longrightarrow> Deref T x = Some v \<Longrightarrow> P x v \<Longrightarrow> P (TrW b) v"
  shows "P w v"
proof -
  obtain r where r: "ref_rank T r" using assms(1) by (auto simp: refs_ok_def)
  have "P (TrW b) v" if "Deref T (TrW b) = Some v" for b
    using that
  proof (induction "r b" arbitrary: b rule: less_induct)
    case less
    obtain t where t: "T b = Some t" using less.prems by (cases "T b") auto
    show ?case
    proof (cases "\<exists>x. t = RefT x")
      case True
      then obtain x where x: "t = RefT x" by blast
      have "P x v"
      proof (cases x)
        case (TrW c)
        then have "r c < r b" using r t x by (auto simp: ref_rank_def)
        then show ?thesis using less t x TrW by simp
      qed (use less.prems t x stop in \<open>auto simp: unbound_def\<close>)
      then show ?thesis using link less.prems t x by simp
    next
      case False
      then have "unbound T (TrW b)" using t by (auto simp: unbound_def)
      then show ?thesis using less.prems stop by auto
    qed
  qed
  then show ?thesis using assms(2) stop by (cases w) (auto simp: unbound_def)
qed

text \<open>The result of dereferencing is not bound, whatever the store.\<close>

lemma Deref_result:
  assumes "Deref T w = Some v"
  shows "unbound T v"
proof (rule Deref.raw_induct [where P = "\<lambda>T w v. unbound T v", OF _ assms], goal_cases)
  case (1 rec T w v)
  show ?case
  proof (cases w)
    case (TrW a)
    then obtain t where "T a = Some t" using 1(2) by (auto split: option.splits)
    then show ?thesis using 1 TrW by (cases t) (auto simp: unbound_def)
  qed (use 1(2) in \<open>auto simp: unbound_def\<close>)
qed

text \<open>Changing an unbound transient changes only what leads to it.\<close>

lemma Deref_change:
  assumes "refs_ok T" and "unbound T (TrW a)" and "Deref T w = Some v"
  shows "Deref (T(a := x)) w = (if v = TrW a then Deref (T(a := x)) (TrW a) else Some v)"
  using assms(1,3)
proof (induction rule: Deref_induct)
  case (stop v)
  then show ?case by (cases v) (auto simp: unbound_def Deref_unbound)
next
  case (link b y v)
  have "b \<noteq> a" using link.hyps(1) assms(2) by (auto simp: unbound_def)
  then show ?case using link by simp
qed

lemma Deref_update:
  assumes "refs_ok T" and "unbound T (TrW a)" and "\<And>x. t \<noteq> RefT x" and "Deref T w = Some v"
  shows "Deref (T(a \<mapsto> t)) w = Some v"
  using Deref_change [OF assms(1,2,4)] assms(3) by (simp add: Deref_unbound)

lemma Deref_bind:
  assumes "refs_ok T" and "unbound T (TrW a)" and "unbound T u" and "u \<noteq> TrW a" and "Deref T w = Some v"
  shows "Deref (T(a \<mapsto> RefT u)) w = Some (if v = TrW a then u else v)"
proof -
  have "unbound (T(a \<mapsto> RefT u)) u" using assms(3,4) by (cases u) (auto simp: unbound_def)
  then show ?thesis using Deref_change [OF assms(1,2,5)] by simp
qed

lemma refs_ok_update:
  assumes "refs_ok T" and "\<And>x. t \<noteq> RefT x"
  shows "refs_ok (T(a \<mapsto> t))"
proof -
  obtain r where "ref_rank T r" using assms(1) by (auto simp: refs_ok_def)
  then have "ref_rank (T(a \<mapsto> t)) r" using assms(2) by (auto simp: ref_rank_def)
  then show ?thesis by (auto simp: refs_ok_def)
qed

text \<open>Binding to an unbound word closes no cycle: everything that leads to \<open>a\<close> moves above the target.\<close>

lemma refs_ok_bind:
  assumes "refs_ok T" and "unbound T (TrW a)" and "unbound T u" and "u \<noteq> TrW a"
  shows "refs_ok (T(a \<mapsto> RefT u))"
proof -
  obtain r where r: "ref_rank T r" using assms(1) by (auto simp: refs_ok_def)
  define k where "k = (case u of TrW c \<Rightarrow> r c | _ \<Rightarrow> 0)"
  define r' where "r' x = r x + (if Deref T (TrW x) = Some (TrW a) then k + 1 else 0)" for x
  have "T b \<noteq> None \<and> r b < r x \<and> Deref T (TrW x) = Deref T (TrW b)" if "T x = Some (RefT (TrW b))" for x b
    using r that by (auto simp: ref_rank_def)
  moreover have "r' c < r' a" if "u = TrW c" for c
    using assms that by (auto simp: r'_def k_def)
  moreover have "T c \<noteq> None" if "u = TrW c" for c using assms(3) that by (auto simp: unbound_def)
  ultimately have "ref_rank (T(a \<mapsto> RefT u)) r'"
    by (auto simp: ref_rank_def r'_def)
  then show ?thesis by (auto simp: refs_ok_def)
qed

text \<open>Where a binding leads: a word that leads back to the transient is followed to the old argument.\<close>

lemma Become_run:
  assumes "refs_ok T" and "unbound T (TrW a)" and "Deref T w = Some v" and "v \<noteq> TrW a"
  shows "Become T a mk w = Some (T(a \<mapsto> mk v))"
proof -
  obtain t where "T a = Some t" "\<forall>x. t \<noteq> RefT x" using assms(2) by (auto simp: unbound_def)
  then show ?thesis using Deref_change [OF assms(1-3)] assms(4) by (auto simp: Become_def Assert_def)
qed

text \<open>A reference to itself is followed for ever.\<close>

lemma Become_ref_self:
  assumes "refs_ok T" and t: "T a = Some t" "\<And>x. t \<noteq> RefT x" and "Deref T w = Some (TrW a)"
    and u: "Deref T (transient_arg a t) = Some u"
  shows "Become T a RefT w = (if u = TrW a then None else Some (T(a \<mapsto> RefT u)))"
proof -
  let ?T = "T(a \<mapsto> RefT (transient_arg a t))"
  have a: "unbound T (TrW a)" using t by (simp add: unbound_def)
  have w: "Deref ?T w = Deref ?T (transient_arg a t)" using Deref_change [OF assms(1) a assms(4)] by simp
  show ?thesis
  proof (cases "u = TrW a")
    case False
    then have "Deref ?T (transient_arg a t) = Some u" using Deref_change [OF assms(1) a u] by simp
    then show ?thesis using w t False by (simp add: Become_def)
  next
    case True
    have "Deref ?T (transient_arg a t) = None"
    proof (rule ccontr)
      assume "Deref ?T (transient_arg a t) \<noteq> None"
      then obtain v where v: "Deref ?T (transient_arg a t) = Some v" by blast
      have "\<not> (S = ?T \<and> Deref T x = Some (TrW a))" if "Deref S x = Some y" for S x y
      proof (rule Deref.raw_induct [where P = "\<lambda>S x y. \<not> (S = ?T \<and> Deref T x = Some (TrW a))", OF _ that], goal_cases)
        case (1 rec S x y)
        show ?case
        proof
          assume S: "S = ?T \<and> Deref T x = Some (TrW a)"
          then obtain b where b: "x = TrW b" by (cases x) auto
          show False
          proof (cases "b = a")
            case True
            then show ?thesis using 1 b S u \<open>u = TrW a\<close> by auto
          next
            case False
            then obtain y where "T b = Some (RefT y)" using S b Deref_fixp_cases [of T "TrW b" "TrW a"] by auto
            then show ?thesis using 1 b S False by auto
          qed
        qed
      qed
      then show False using v u True by blast
    qed
    then show ?thesis using w t True by (simp add: Become_def)
  qed
qed

text \<open>Whatever word is given, the stored word is not bound, and a reference is never one to the transient itself.\<close>

lemma Become_spec:
  assumes "Become T a mk w = Some T'"
  shows "\<exists>v. T' = T(a \<mapsto> mk v) \<and> unbound T (TrW a) \<and> (mk = RefT \<longrightarrow> v \<noteq> TrW a \<and> unbound T v)"
proof -
  obtain t v where t: "T a = Some t" "\<forall>x. t \<noteq> RefT x" and v: "Deref (T(a \<mapsto> mk (transient_arg a t))) w = Some v"
    and T': "T' = T(a \<mapsto> mk v)"
    using assms by (auto simp: Become_def run_elims)
  have u: "unbound (T(a \<mapsto> mk (transient_arg a t))) v" by (rule Deref_result [OF v])
  then have "v \<noteq> TrW a \<and> unbound T v" if "mk = RefT" using that by (cases v) (auto simp: unbound_def split: if_splits)
  then show ?thesis using t T' by (auto simp: unbound_def)
qed

lemma Become_refs_ok:
  assumes "refs_ok T" and "Become T a mk w = Some T'" and "mk = RefT \<or> mk = CancelledT"
  shows "refs_ok T'"
  using Become_spec [OF assms(2)] assms(1,3) refs_ok_bind refs_ok_update by auto

section \<open>Properties\<close>

text \<open>
  C20: binding a transient. In a store without cycles every word dereferences to a value or to an unbound transient.
  \<^verbatim>\<open>Become(REF_LABEL, w)\<close> on an unbound transient \<open>a\<close> binds it to what \<open>w\<close> leads to; if that is \<open>a\<close> itself, to what
  its old argument leads to: for a future the integer 0 or its wait queue, since the label is changed before \<open>w\<close> is
  followed. The store still has no cycles, whatever led to \<open>a\<close> now leads to that word, and nothing else has changed.
  Only a transient that is bound to itself while its old argument leads back to it is followed for ever.
\<close>

theorem become_ref_binds:
  assumes "refs_ok T" and "T a = Some t" and "\<And>x. t \<noteq> RefT x" and "closed_word T w" and "closed_word T (transient_arg a t)"
  shows "\<exists>v u. Deref T w = Some v \<and> Deref T (transient_arg a t) = Some u \<and>
    (let b = (if v = TrW a then u else v) in unbound T b \<and>
     (if b = TrW a then Become T a RefT w = None
      else \<exists>T'. Become T a RefT w = Some T' \<and> refs_ok T' \<and>
       (\<forall>x y. Deref T x = Some y \<longrightarrow> Deref T' x = Some (if y = TrW a then b else y))))"
proof -
  have a: "unbound T (TrW a)" using assms(2,3) by (simp add: unbound_def)
  obtain v where v: "Deref T w = Some v" "unbound T v" using Deref_total [OF assms(1,4)] by blast
  obtain u where u: "Deref T (transient_arg a t) = Some u" "unbound T u" using Deref_total [OF assms(1,5)] by blast
  define b where "b = (if v = TrW a then u else v)"
  have "unbound T b" "b = TrW a \<Longrightarrow> Become T a RefT w = None" "b \<noteq> TrW a \<Longrightarrow> Become T a RefT w = Some (T(a \<mapsto> RefT b))"
    using v u Become_run [OF assms(1) a v(1)] Become_ref_self [OF assms(1-3) _ u(1)] by (auto simp: b_def split: if_splits)
  then have "unbound T b \<and> (if b = TrW a then Become T a RefT w = None
      else \<exists>T'. Become T a RefT w = Some T' \<and> refs_ok T' \<and>
       (\<forall>x y. Deref T x = Some y \<longrightarrow> Deref T' x = Some (if y = TrW a then b else y)))"
    using refs_ok_bind [OF assms(1) a, of b] Deref_bind [OF assms(1) a, of b] by simp
  then show ?thesis using v(1) u(1) unfolding Let_def b_def by blast
qed

theorem become_ref_binds_witness:
  "\<exists>T T' T''. T = [1 \<mapsto> FutureT None, 2 \<mapsto> RefT (TrW 1), 3 \<mapsto> HoleT (TrW 1)] \<and>
    Become T 3 RefT (TrW 2) = Some T' \<and> refs_ok T' \<and> Deref T' (TrW 3) = Some (TrW 1) \<and>
    Become T 1 RefT (TrW 2) = Some T'' \<and> refs_ok T'' \<and> Deref T'' (TrW 2) = Some (IntW 0)"
proof -
  let ?T = "[1 \<mapsto> FutureT None, 2 \<mapsto> RefT (TrW 1), 3 \<mapsto> HoleT (TrW 1)] :: tstore"
  have "ref_rank ?T id" by (auto simp: ref_rank_def)
  then have ok: "refs_ok ?T" by (auto simp: refs_ok_def)
  have d: "Deref ?T (TrW 1) = Some (TrW 1)" "Deref ?T (TrW 2) = Some (TrW 1)" "Deref ?T (TrW 3) = Some (TrW 3)" by (simp_all add: Deref_unbound)
  have c: "closed_word ?T (TrW 2)" by (simp add: closed_word_def)
  obtain T' where "Become ?T 3 RefT (TrW 2) = Some T'" "refs_ok T'" "Deref T' (TrW 3) = Some (TrW 1)"
    using become_ref_binds [OF ok _ _ c, of 3 "HoleT (TrW 1)"] d by (auto simp: transient_arg_def closed_word_def Let_def)
  moreover obtain T'' where "Become ?T 1 RefT (TrW 2) = Some T''" "refs_ok T''" "Deref T'' (TrW 2) = Some (IntW 0)"
    using become_ref_binds [OF ok _ _ c, of 1 "FutureT None"] d by (auto simp: transient_arg_def closed_word_def Let_def)
  ultimately show ?thesis by blast
qed

end
