(* ===== verification/Scheduler.thy ===== *)
theory Scheduler
  imports Task_Stack Transients Base_Map
begin

text \<open>
  Threads, the scheduler and its built-in workers (\<^verbatim>\<open>seam/generic/Thread.hh\<close>, \<^verbatim>\<open>ThreadQueue.hh\<close>, \<^verbatim>\<open>Scheduler.hh\<close>,
  \<^verbatim>\<open>Scheduler.cc\<close>, \<^verbatim>\<open>Worker.cc\<close>, \<^verbatim>\<open>PushCallWorker.cc\<close>, \<^verbatim>\<open>BindFutureWorker.cc\<close>, the workers of \<^verbatim>\<open>TaskStack.cc\<close>, the
  scheduling part of \<^verbatim>\<open>Transients.hh\<close>).

  The state \<open>sched\<close> holds the scheduler's static members and the objects it works on: threads, transients,
  blocks (tuples, closures, data, cloned frames), chunks, hash maps and backtraces, each a map from addresses. New objects get the address
  \<open>sc_next\<close>: all the allocator promises to its clients is that the address is fresh. The assertions are the ones of
  a checking build, in which \<^verbatim>\<open>Thread::GetTaskStack\<close> takes the stack out of the thread (\<open>th_stack\<close> is then \<open>None\<close>).

  Workers are virtual classes: the built-in ones are modelled, the functions of the others (interpreters and
  primitives) are fields of the environment \<open>senv\<close>. A stack overflow inside a worker \<^verbatim>\<open>longjmp\<close>s to \<^verbatim>\<open>Scheduler::Run\<close>:
  it is the additional worker result \<open>OVERFLOW\<close>. \<^verbatim>\<open>Scheduler::Run\<close> itself is cut into the steps of a machine
  (\<open>sched_step\<close>) whose control state \<open>run_mode\<close> names the positions in the two nested loops.
\<close>

section \<open>Threads\<close>

datatype priority = HIGH | NORMAL | LOW

datatype thread_state = BLOCKED | RUNNABLE | TERMINATED

datatype thread_args = ArgW store_word | ArgsBlk "store_word list"

record thread =
  th_priority :: priority
  th_state :: thread_state
  th_suspended :: bool
  th_stack :: "dynblock option"
  th_nargs :: nat
  th_args :: thread_args
  th_future :: store_word
  th_handlers :: hblock

definition Thread_New :: "junk \<Rightarrow> hjunk \<Rightarrow> store_word \<Rightarrow> nat \<Rightarrow> thread_args \<Rightarrow> thread option" where
  "Thread_New junk hjunk emptyTask nArgs args = do {
     s \<leftarrow> TaskStack_New junk emptyTask TASKSTACK_INITIAL_SIZE;
     h \<leftarrow> Handlers_New hjunk;
     Some \<lparr>th_priority = NORMAL, th_state = RUNNABLE, th_suspended = False, th_stack = Some s,
       th_nargs = nArgs, th_args = args, th_future = IntW 0, th_handlers = h\<rparr> }"

definition Thread_SetState :: "thread_state \<Rightarrow> thread \<Rightarrow> thread" where
  "Thread_SetState st th = th\<lparr>th_state := st, th_future := IntW 0\<rparr>"

definition Thread_Suspend :: "thread \<Rightarrow> thread" where
  "Thread_Suspend th = th\<lparr>th_suspended := True\<rparr>"

definition Thread_Resume :: "thread \<Rightarrow> thread" where
  "Thread_Resume th = th\<lparr>th_suspended := False\<rparr>"

definition Thread_GetTaskStack :: "thread \<Rightarrow> (dynblock \<times> thread) option" where
  "Thread_GetTaskStack th = do { s \<leftarrow> th_stack th; Some (s, th\<lparr>th_stack := None\<rparr>) }"

definition Thread_SetTaskStack :: "dynblock \<Rightarrow> thread \<Rightarrow> thread option" where
  "Thread_SetTaskStack s th = do { Assert (th_stack th = None); Some (th\<lparr>th_stack := Some s\<rparr>) }"

definition Thread_SetArgs :: "nat \<Rightarrow> thread_args \<Rightarrow> thread \<Rightarrow> thread" where
  "Thread_SetArgs n a th = th\<lparr>th_nargs := n, th_args := a\<rparr>"

definition Thread_SetTerminated :: "thread \<Rightarrow> thread" where
  "Thread_SetTerminated th = Thread_SetState TERMINATED (Thread_SetArgs 0 (ArgW (IntW 0)) th)"

definition Thread_BlockOn :: "store_word \<Rightarrow> thread \<Rightarrow> thread" where
  "Thread_BlockOn future th = (Thread_SetState BLOCKED th)\<lparr>th_future := future\<rparr>"

definition Thread_Wakeup :: "thread \<Rightarrow> thread" where
  "Thread_Wakeup th = Thread_SetState RUNNABLE (th\<lparr>th_future := IntW 0\<rparr>)"

definition Thread_PushHandler :: "hjunk \<Rightarrow> store_word \<Rightarrow> thread \<Rightarrow> thread option" where
  "Thread_PushHandler hjunk data th = do {
     s \<leftarrow> th_stack th;
     Assert (db_active s \<ge> HANDLER_FRAME_SIZE);
     h \<leftarrow> PushHandler hjunk (db_active s - 1) data (th_handlers th);
     Some (th\<lparr>th_handlers := h\<rparr>) }"

text \<open>A frame of a worker with one argument, pushed on the stack of another thread; the inner \<open>None\<close> is an overflow.\<close>

definition new_thread_frame :: "junk \<Rightarrow> store_word \<Rightarrow> store_word \<Rightarrow> store_word \<Rightarrow> thread \<Rightarrow> thread option option" where
  "new_thread_frame junk emptyTask worker arg th = do {
     s \<leftarrow> th_stack th;
     r \<leftarrow> Thread_PushFrame junk emptyTask 2 s;
     case r of StackOverflow \<Rightarrow> Some None
     | Enlarged s1 \<Rightarrow> do {
         s2 \<leftarrow> Frame_New (db_active s1) worker s1;
         s3 \<leftarrow> Frame_InitArg (db_active s1) 0 arg s2;
         Some (Some (th\<lparr>th_stack := Some s3\<rparr>)) } }"

section \<open>The scheduler state\<close>

datatype worker_result = CONTINUE | PREEMPT | SUSPEND | RAISE | REQUEST | RERAISE | TERMINATE | EXIT | OVERFLOW

datatype block_label = TUPLE_LABEL | CLOSURE_LABEL | CONCRETE_LABEL | TRANSFORM_LABEL | UNIQUESTRING_LABEL | DATA_LABEL nat

definition maxArgs :: nat where "maxArgs = 16"

record sched =
  sc_threads :: "addr \<Rightarrow> thread option"
  sc_trans :: tstore
  sc_blocks :: "addr \<Rightarrow> (block_label \<times> store_word list) option"
  sc_chunks :: "addr \<Rightarrow> 8 word list option"
  sc_maps :: "addr \<Rightarrow> (store_word, store_word) basemap option"
  sc_backtraces :: "addr \<Rightarrow> queue option"
  sc_next :: addr
  sc_queue :: queue
  sc_current :: "addr option"
  sc_nArgs :: nat
  sc_args :: "store_word list"
  sc_data :: store_word
  sc_backtrace :: addr
  sc_stack :: dynblock
  sc_top :: nat
  sc_uncaught :: store_word

record senv =
  ev_junk :: junk
  ev_hjunk :: hjunk
  ev_emptyTask :: store_word
  ev_pushCall :: store_word
  ev_bindFuture :: store_word
  ev_uncaught :: store_word
  ev_holeExn :: store_word
  ev_cyclicExn :: store_word
  ev_stackError :: store_word
  ev_run :: "store_word \<Rightarrow> sched \<Rightarrow> (worker_result \<times> sched) option"
  ev_handle :: "store_word \<Rightarrow> hslot \<Rightarrow> package \<Rightarrow> sched \<Rightarrow> (worker_result \<times> sched) option"
  ev_size :: "store_word \<Rightarrow> nat \<Rightarrow> dynblock \<Rightarrow> nat option"
  ev_purge :: "store_word \<Rightarrow> nat \<Rightarrow> dynblock \<Rightarrow> dynblock option"
  ev_traceable :: "store_word \<Rightarrow> bool"
  ev_enter :: "addr \<Rightarrow> sched \<Rightarrow> sched option option"
  ev_status :: "sched \<Rightarrow> bool"
  ev_needGC :: "sched \<Rightarrow> bool"
  ev_poll :: "sched \<Rightarrow> sched option"
  ev_block :: "sched \<Rightarrow> sched option"

text \<open>Allocation of the objects.\<close>

definition new_block :: "block_label \<Rightarrow> store_word list \<Rightarrow> sched \<Rightarrow> addr \<times> sched" where
  "new_block l ws s = (sc_next s, s\<lparr>sc_blocks := (sc_blocks s)(sc_next s \<mapsto> (l, ws)), sc_next := Suc (sc_next s)\<rparr>)"

definition new_chunk :: "8 word list \<Rightarrow> sched \<Rightarrow> addr \<times> sched" where
  "new_chunk bs s = (sc_next s, s\<lparr>sc_chunks := (sc_chunks s)(sc_next s \<mapsto> bs), sc_next := Suc (sc_next s)\<rparr>)"

definition new_map :: "nat \<Rightarrow> sched \<Rightarrow> (addr \<times> sched) option" where
  "new_map n s = do {
     m \<leftarrow> BaseMap_New n;
     Some (sc_next s, s\<lparr>sc_maps := (sc_maps s)(sc_next s \<mapsto> m), sc_next := Suc (sc_next s)\<rparr>) }"

definition new_transient :: "transient \<Rightarrow> sched \<Rightarrow> addr \<times> sched" where
  "new_transient t s =
     (sc_next s, s\<lparr>sc_trans := (sc_trans s)(sc_next s \<mapsto> t), sc_next := Suc (wait_queue (sc_next s))\<rparr>)"

definition initialBacktraceSize :: nat where "initialBacktraceSize = 12"

definition Backtrace_New :: "senv \<Rightarrow> sched \<Rightarrow> (addr \<times> sched) option" where
  "Backtrace_New env s = do {
     q \<leftarrow> Queue_New (ev_junk env) initialBacktraceSize;
     Some (sc_next s, s\<lparr>sc_backtraces := (sc_backtraces s)(sc_next s \<mapsto> q), sc_next := Suc (sc_next s)\<rparr>) }"

definition Backtrace_Clone :: "senv \<Rightarrow> addr \<Rightarrow> sched \<Rightarrow> (addr \<times> sched) option" where
  "Backtrace_Clone env b s = do {
     q0 \<leftarrow> sc_backtraces s b;
     q \<leftarrow> Queue_Clone (ev_junk env) q0;
     Some (sc_next s, s\<lparr>sc_backtraces := (sc_backtraces s)(sc_next s \<mapsto> q), sc_next := Suc (sc_next s)\<rparr>) }"

definition Backtrace_Enqueue :: "senv \<Rightarrow> store_word \<Rightarrow> sched \<Rightarrow> sched option" where
  "Backtrace_Enqueue env w s = do {
     q0 \<leftarrow> sc_backtraces s (sc_backtrace s);
     q \<leftarrow> Queue_Enqueue (ev_junk env) w q0;
     Some (s\<lparr>sc_backtraces := (sc_backtraces s)(sc_backtrace s \<mapsto> q)\<rparr>) }"

definition upd_thread :: "addr \<Rightarrow> (thread \<Rightarrow> thread) \<Rightarrow> sched \<Rightarrow> sched option" where
  "upd_thread t f s = do { th \<leftarrow> sc_threads s t; Some (s\<lparr>sc_threads := (sc_threads s)(t \<mapsto> f th)\<rparr>) }"

section \<open>Argument registers\<close>

definition SetNArgs :: "nat \<Rightarrow> sched \<Rightarrow> sched option" where
  "SetNArgs n s = do { Assert (n \<le> maxArgs); Some (s\<lparr>sc_nArgs := n\<rparr>) }"

definition SetCurrentArg :: "nat \<Rightarrow> store_word \<Rightarrow> sched \<Rightarrow> sched option" where
  "SetCurrentArg n w s = do {
     Assert (n < sc_nArgs s);
     a \<leftarrow> Block_SetArg (sc_args s) n w;
     Some (s\<lparr>sc_args := a\<rparr>) }"

definition GetCurrentArg :: "nat \<Rightarrow> sched \<Rightarrow> store_word option" where
  "GetCurrentArg n s = do { Assert (n < sc_nArgs s); Block_GetArg (sc_args s) n }"

text \<open>\<^verbatim>\<open>Worker::Construct\<close>: any number of arguments as one.\<close>

definition Construct :: "sched \<Rightarrow> sched option" where
  "Construct s =
     (if sc_nArgs s = 0 then do { s1 \<leftarrow> SetNArgs 1 s; SetCurrentArg 0 (IntW 0) s1 }
      else if sc_nArgs s = 1 then Some s
      else do {
        Assert (sc_nArgs s \<le> length (sc_args s));
        let (t, s1) = new_block TUPLE_LABEL (take (sc_nArgs s) (sc_args s)) s;
        s2 \<leftarrow> SetNArgs 1 s1;
        SetCurrentArg 0 (BlkW t) s2 })"

text \<open>\<^verbatim>\<open>Worker::Deconstruct\<close>: one argument, a tuple, as its components; the flag says that it must be requested.\<close>

definition Deconstruct :: "sched \<Rightarrow> (bool \<times> sched) option" where
  "Deconstruct s =
     (if sc_nArgs s = 1 then do {
        arg \<leftarrow> GetCurrentArg 0 s;
        t \<leftarrow> WordToTransient (sc_trans s) arg;
        case t of Some _ \<Rightarrow> Some (True, s\<lparr>sc_data := arg\<rparr>)
        | None \<Rightarrow> do {
            b \<leftarrow> WordToBlock (sc_trans s) arg;
            a \<leftarrow> b;
            (l, ws) \<leftarrow> sc_blocks s a;
            Assert (l = TUPLE_LABEL);
            s1 \<leftarrow> SetNArgs (length ws) s;
            Assert (length ws \<le> length (sc_args s));
            Some (False, s1\<lparr>sc_args := ws @ drop (length ws) (sc_args s)\<rparr>) } }
      else Some (False, s))"

section \<open>Scheduling threads\<close>

definition ThreadQueue_threshold :: nat where "ThreadQueue_threshold = 8"

definition ThreadQueue_New :: "senv \<Rightarrow> queue option" where
  "ThreadQueue_New env = Queue_New (ev_junk env) ThreadQueue_threshold"

definition ThreadQueue_Enqueue :: "senv \<Rightarrow> addr \<Rightarrow> sched \<Rightarrow> sched option" where
  "ThreadQueue_Enqueue env t s = do {
     q \<leftarrow> Queue_Enqueue (ev_junk env) (BlkW t) (sc_queue s);
     Some (s\<lparr>sc_queue := q\<rparr>) }"

definition word_thread :: "sched \<Rightarrow> store_word \<Rightarrow> addr option" where
  "word_thread s w = (case w of BlkW t \<Rightarrow> do { Assert (sc_threads s t \<noteq> None); Some t } | _ \<Rightarrow> None)"

definition ThreadQueue_Dequeue :: "sched \<Rightarrow> (addr option \<times> sched) option" where
  "ThreadQueue_Dequeue s =
     (if Queue_IsEmpty (sc_queue s) then Some (None, s)
      else do {
        (w, q) \<leftarrow> Queue_Dequeue (sc_queue s);
        t \<leftarrow> word_thread s w;
        Some (Some t, s\<lparr>sc_queue := q\<rparr>) })"

definition ThreadQueue_Remove :: "addr \<Rightarrow> sched \<Rightarrow> sched option" where
  "ThreadQueue_Remove t s = do { q \<leftarrow> Queue_Remove (BlkW t) (sc_queue s); Some (s\<lparr>sc_queue := q\<rparr>) }"

text \<open>Frame sizes and purging of frames, by worker.\<close>

definition worker_size :: "senv \<Rightarrow> nat \<Rightarrow> dynblock \<Rightarrow> nat option" where
  "worker_size env tp st = do {
     w \<leftarrow> Frame_GetWorker tp st;
     if w = ev_emptyTask env then Some 1
     else if w = ev_pushCall env then Some 2
     else if w = ev_bindFuture env then Some 2
     else if w = ev_uncaught env then Some 4
     else ev_size env w tp st }"

definition worker_purge :: "senv \<Rightarrow> nat \<Rightarrow> dynblock \<Rightarrow> dynblock option" where
  "worker_purge env tp st = do {
     w \<leftarrow> Frame_GetWorker tp st;
     if w \<in> {ev_emptyTask env, ev_pushCall env, ev_bindFuture env, ev_uncaught env} then Some st
     else ev_purge env w tp st }"

definition worker_traceable :: "senv \<Rightarrow> store_word \<Rightarrow> bool" where
  "worker_traceable env w \<longleftrightarrow>
     w \<notin> {ev_emptyTask env, ev_pushCall env, ev_bindFuture env, ev_uncaught env} \<and> ev_traceable env w"

definition Thread_Purge :: "senv \<Rightarrow> addr \<Rightarrow> sched \<Rightarrow> sched option" where
  "Thread_Purge env t s = do {
     th \<leftarrow> sc_threads s t;
     st \<leftarrow> th_stack th;
     st' \<leftarrow> TaskStack_Purge (worker_size env) (worker_purge env) st;
     upd_thread t (\<lambda>th. th\<lparr>th_stack := Some st'\<rparr>) s }"

fun purge_from :: "senv \<Rightarrow> nat \<Rightarrow> sched \<Rightarrow> sched option" where
  "purge_from env 0 s = Some s"
| "purge_from env (Suc i) s = do {
     w \<leftarrow> Queue_GetNthElement i (sc_queue s);
     t \<leftarrow> word_thread s w;
     s1 \<leftarrow> Thread_Purge env t s;
     purge_from env i s1 }"

definition ThreadQueue_Purge :: "senv \<Rightarrow> sched \<Rightarrow> sched option" where
  "ThreadQueue_Purge env s = do {
     q \<leftarrow> Queue_Blank (sc_queue s);
     purge_from env (Queue_GetNumberOfElements q) (s\<lparr>sc_queue := q\<rparr>) }"

definition NewThread :: "senv \<Rightarrow> nat \<Rightarrow> thread_args \<Rightarrow> sched \<Rightarrow> (addr \<times> sched) option" where
  "NewThread env nArgs args s = do {
     th \<leftarrow> Thread_New (ev_junk env) (ev_hjunk env) (ev_emptyTask env) nArgs args;
     let t = sc_next s;
     s1 \<leftarrow> ThreadQueue_Enqueue env t (s\<lparr>sc_threads := (sc_threads s)(t \<mapsto> th), sc_next := Suc t\<rparr>);
     Some (t, s1) }"

definition ScheduleThread :: "senv \<Rightarrow> addr \<Rightarrow> sched \<Rightarrow> sched option" where
  "ScheduleThread env t s = do {
     th \<leftarrow> sc_threads s t;
     Assert (th_state th = RUNNABLE);
     ThreadQueue_Enqueue env t s }"

definition WakeupThread :: "senv \<Rightarrow> addr \<Rightarrow> sched \<Rightarrow> sched option" where
  "WakeupThread env t s = do {
     th \<leftarrow> sc_threads s t;
     Assert (th_state th = BLOCKED);
     s1 \<leftarrow> upd_thread t Thread_Wakeup s;
     if \<not> th_suspended th then ScheduleThread env t s1 else Some s1 }"

definition SuspendThread :: "senv \<Rightarrow> addr \<Rightarrow> sched \<Rightarrow> sched option" where
  "SuspendThread env t s = do {
     s1 \<leftarrow> upd_thread t Thread_Suspend s;
     s2 \<leftarrow> Thread_Purge env t s1;
     th \<leftarrow> sc_threads s2 t;
     if th_state th = RUNNABLE then ThreadQueue_Remove t s2 else Some s2 }"

definition ResumeThread :: "senv \<Rightarrow> addr \<Rightarrow> sched \<Rightarrow> sched option" where
  "ResumeThread env t s = do {
     th \<leftarrow> sc_threads s t;
     if th_suspended th then do {
       s1 \<leftarrow> upd_thread t Thread_Resume s;
       if th_state th = RUNNABLE then ScheduleThread env t s1 else Some s1
     } else Some s }"

text \<open>The built-in frames pushed on other threads.\<close>

definition PushCall_PushFrame :: "senv \<Rightarrow> addr \<Rightarrow> store_word \<Rightarrow> sched \<Rightarrow> sched option option" where
  "PushCall_PushFrame env t closure s = do {
     th \<leftarrow> sc_threads s t;
     r \<leftarrow> new_thread_frame (ev_junk env) (ev_emptyTask env) (ev_pushCall env) closure th;
     case r of None \<Rightarrow> Some None
     | Some th' \<Rightarrow> Some (Some (s\<lparr>sc_threads := (sc_threads s)(t \<mapsto> th')\<rparr>)) }"

definition BindFuture_PushFrame :: "senv \<Rightarrow> addr \<Rightarrow> addr \<Rightarrow> sched \<Rightarrow> sched option option" where
  "BindFuture_PushFrame env t future s = do {
     th \<leftarrow> sc_threads s t;
     r \<leftarrow> new_thread_frame (ev_junk env) (ev_emptyTask env) (ev_bindFuture env) (TrW future) th;
     case r of None \<Rightarrow> Some None
     | Some th' \<Rightarrow> do {
         th'' \<leftarrow> Thread_PushHandler (ev_hjunk env) (IntW 0) th';
         Some (Some (s\<lparr>sc_threads := (sc_threads s)(t \<mapsto> th'')\<rparr>)) } }"

definition NewThread_closure :: "senv \<Rightarrow> store_word \<Rightarrow> nat \<Rightarrow> thread_args \<Rightarrow> sched \<Rightarrow> (addr \<times> sched) option option" where
  "NewThread_closure env closure nArgs args s = do {
     (t, s1) \<leftarrow> NewThread env nArgs args s;
     r \<leftarrow> PushCall_PushFrame env t closure s1;
     Some (map_option (Pair t) r) }"

text \<open>\<^verbatim>\<open>Future::ScheduleWaitingThreads\<close>: the loop dequeues until the queue is empty.\<close>

partial_function (option) wake_all :: "senv \<Rightarrow> addr \<Rightarrow> queue \<Rightarrow> sched \<Rightarrow> sched option" where
  "wake_all env f q s =
     (if Queue_IsEmpty q then Some s
      else Option.bind (Queue_Dequeue q) (\<lambda>(w, q').
        Option.bind (word_thread s w) (\<lambda>t.
        Option.bind (WakeupThread env t (s\<lparr>sc_trans := (sc_trans s)(f \<mapsto> FutureT (Some q'))\<rparr>)) (\<lambda>s1.
        wake_all env f q' s1))))"

declare wake_all.simps [code]

definition ScheduleWaitingThreads :: "senv \<Rightarrow> addr \<Rightarrow> sched \<Rightarrow> sched option" where
  "ScheduleWaitingThreads env f s = do {
     wq \<leftarrow> Future_queue (sc_trans s) f;
     case wq of None \<Rightarrow> Some s | Some q \<Rightarrow> wake_all env f q s }"

section \<open>The stack of the current thread\<close>

definition Sched_PushFrame :: "senv \<Rightarrow> nat \<Rightarrow> sched \<Rightarrow> sched option option" where
  "Sched_PushFrame env n s = do {
     (tp, r) \<leftarrow> Scheduler_PushFrame (ev_junk env) (ev_emptyTask env) n (sc_top s) (sc_stack s);
     case r of StackOverflow \<Rightarrow> Some None
     | Enlarged st \<Rightarrow> Some (Some (s\<lparr>sc_stack := st, sc_top := tp\<rparr>)) }"

text \<open>A new frame with its worker and arguments.\<close>

fun init_frame_args :: "nat \<Rightarrow> nat \<Rightarrow> store_word list \<Rightarrow> dynblock \<Rightarrow> dynblock option" where
  "init_frame_args tp pos [] st = Some st"
| "init_frame_args tp pos (v # vs) st = do {
     st1 \<leftarrow> Frame_InitArg tp pos v st;
     init_frame_args tp (Suc pos) vs st1 }"

definition new_frame :: "senv \<Rightarrow> store_word \<Rightarrow> store_word list \<Rightarrow> sched \<Rightarrow> sched option option" where
  "new_frame env worker args s = do {
     r \<leftarrow> Sched_PushFrame env (length args + 1) s;
     case r of None \<Rightarrow> Some None
     | Some s1 \<Rightarrow> do {
         st1 \<leftarrow> Frame_New (sc_top s1) worker (sc_stack s1);
         st2 \<leftarrow> init_frame_args (sc_top s1) 0 args st1;
         Some (Some (s1\<lparr>sc_stack := st2\<rparr>)) } }"

definition Sched_PopFrame :: "nat \<Rightarrow> sched \<Rightarrow> sched option" where
  "Sched_PopFrame n s = do { tp \<leftarrow> Scheduler_PopFrame n (sc_top s); Some (s\<lparr>sc_top := tp\<rparr>) }"

definition upd_current :: "(thread \<Rightarrow> thread option) \<Rightarrow> sched \<Rightarrow> sched option" where
  "upd_current f s = do {
     t \<leftarrow> sc_current s;
     th \<leftarrow> sc_threads s t;
     th' \<leftarrow> f th;
     Some (s\<lparr>sc_threads := (sc_threads s)(t \<mapsto> th')\<rparr>) }"

definition Sched_PushHandler :: "senv \<Rightarrow> store_word \<Rightarrow> sched \<Rightarrow> sched option" where
  "Sched_PushHandler env data s =
     upd_current (\<lambda>th. do {
       Assert (sc_top s < length (db_args (sc_stack s)));
       h \<leftarrow> PushHandler (ev_hjunk env) (sc_top s - 1) data (th_handlers th);
       Some (th\<lparr>th_handlers := h\<rparr>) }) s"

definition Sched_PopHandler :: "sched \<Rightarrow> sched option" where
  "Sched_PopHandler s =
     upd_current (\<lambda>th. do { h \<leftarrow> PopHandler (th_handlers th); Some (th\<lparr>th_handlers := h\<rparr>) }) s"

section \<open>Switching threads\<close>

definition SwitchToThread :: "sched \<Rightarrow> sched option" where
  "SwitchToThread s = do {
     t \<leftarrow> sc_current s;
     th \<leftarrow> sc_threads s t;
     Assert (th_state th = RUNNABLE);
     Assert (\<not> th_suspended th);
     (st, th1) \<leftarrow> Thread_GetTaskStack th;
     let n = th_nargs th;
     Assert (n = 1 \<or> n < maxArgs);
     args \<leftarrow> (if n = 0 then Some (sc_args s)
             else if n = 1 then (case th_args th of ArgW w \<Rightarrow> Block_SetArg (sc_args s) 0 w | _ \<Rightarrow> None)
             else (case th_args th of ArgsBlk ws \<Rightarrow> copy_words (sc_args s) 0 ws 0 n | _ \<Rightarrow> None));
     Some (s\<lparr>sc_threads := (sc_threads s)(t \<mapsto> th1), sc_stack := st, sc_top := db_active st,
       sc_nArgs := n, sc_args := args\<rparr>) }"

definition FlushThread :: "sched \<Rightarrow> sched option" where
  "FlushThread s = do {
     Assert (sc_top s < length (db_args (sc_stack s)));
     st \<leftarrow> SetActiveSize (sc_top s) (sc_stack s);
     Assert (sc_nArgs s = 1 \<or> sc_nArgs s < maxArgs);
     args \<leftarrow> (if sc_nArgs s = 0 then Some (ArgW (IntW 0))
             else if sc_nArgs s = 1 then map_option ArgW (Block_GetArg (sc_args s) 0)
             else do { Assert (sc_nArgs s \<le> length (sc_args s)); Some (ArgsBlk (take (sc_nArgs s) (sc_args s))) });
     upd_current (\<lambda>th. do {
       th1 \<leftarrow> Thread_SetTaskStack st th;
       Some (Thread_SetArgs (sc_nArgs s) args th1) }) s }"

section \<open>The built-in workers\<close>

definition EmptyTask_Run :: "sched \<Rightarrow> (worker_result \<times> sched) option" where
  "EmptyTask_Run s = do { s1 \<leftarrow> SetNArgs 0 s; Some (TERMINATE, s1) }"

definition UncaughtException_PushFrame :: "senv \<Rightarrow> store_word \<Rightarrow> store_word \<Rightarrow> store_word \<Rightarrow> sched \<Rightarrow> sched option option" where
  "UncaughtException_PushFrame env exn backtrace exnHandlers s = do {
     r \<leftarrow> new_frame env (ev_uncaught env) [exn, backtrace, exnHandlers] s;
     case r of None \<Rightarrow> Some None
     | Some s1 \<Rightarrow> map_option Some (Sched_PushHandler env (IntW 0) s1) }"

definition EmptyTask_Handle :: "senv \<Rightarrow> sched \<Rightarrow> (worker_result \<times> sched) option" where
  "EmptyTask_Handle env s =
     (if sc_uncaught s = IntW 0 then Some (EXIT, s\<lparr>sc_data := IntW 1\<rparr>)
      else do {
        r \<leftarrow> UncaughtException_PushFrame env (sc_data s) (BlkW (sc_backtrace s)) (sc_uncaught s) s;
        case r of None \<Rightarrow> Some (OVERFLOW, s)
        | Some s1 \<Rightarrow> do { s2 \<leftarrow> SetNArgs 0 s1; Some (CONTINUE, s2) } })"

definition AddExnClosure :: "store_word \<Rightarrow> sched \<Rightarrow> sched" where
  "AddExnClosure closure s =
     (let (cons, s1) = new_block TUPLE_LABEL [closure, sc_uncaught s] s in s1\<lparr>sc_uncaught := BlkW cons\<rparr>)"

text \<open>\<^verbatim>\<open>Scheduler::PushCall\<close>; entering the interpreter of a determined closure is the parameter \<open>ev_enter\<close>.\<close>

definition request_call :: "senv \<Rightarrow> store_word \<Rightarrow> addr \<Rightarrow> sched \<Rightarrow> (worker_result \<times> sched) option" where
  "request_call env closure transient s = do {
     r \<leftarrow> new_frame env (ev_pushCall env) [closure] s;
     case r of None \<Rightarrow> Some (OVERFLOW, s)
     | Some s1 \<Rightarrow> Some (REQUEST, s1\<lparr>sc_data := TrW transient\<rparr>) }"

definition PushCall :: "senv \<Rightarrow> store_word \<Rightarrow> sched \<Rightarrow> (worker_result \<times> sched) option" where
  "PushCall env wClosure s = do {
     i \<leftarrow> WordToInt (sc_trans s) wClosure;
     Assert (i = None);
     t \<leftarrow> WordToTransient (sc_trans s) wClosure;
     case t of Some a \<Rightarrow> request_call env wClosure a s
     | None \<Rightarrow> do {
         b \<leftarrow> WordToBlock (sc_trans s) wClosure;
         closure \<leftarrow> b;
         (l, ws) \<leftarrow> sc_blocks s closure;
         Assert (l = CLOSURE_LABEL);
         code \<leftarrow> Block_GetArg ws 0;
         t' \<leftarrow> WordToTransient (sc_trans s) code;
         case t' of Some a \<Rightarrow> request_call env wClosure a s
         | None \<Rightarrow> do {
             r \<leftarrow> ev_enter env closure s;
             case r of None \<Rightarrow> Some (OVERFLOW, s)
             | Some s1 \<Rightarrow> Some (if ev_status env s1 then PREEMPT else CONTINUE, s1) } } }"

definition PushCall_Run :: "senv \<Rightarrow> sched \<Rightarrow> (worker_result \<times> sched) option" where
  "PushCall_Run env s = do {
     wClosure \<leftarrow> Frame_GetArg (sc_top s) 0 (sc_stack s);
     s1 \<leftarrow> Sched_PopFrame 2 s;
     PushCall env wClosure s1 }"

definition UncaughtException_Run :: "senv \<Rightarrow> sched \<Rightarrow> (worker_result \<times> sched) option" where
  "UncaughtException_Run env s = do {
     exnHandlers \<leftarrow> Frame_GetArg (sc_top s) 2 (sc_stack s);
     if exnHandlers = IntW 0 then do {
       s1 \<leftarrow> Sched_PopFrame 4 s;
       s2 \<leftarrow> Sched_PopHandler s1;
       Some (EXIT, s2\<lparr>sc_data := IntW 1\<rparr>)
     } else do {
       c \<leftarrow> (case exnHandlers of BlkW a \<Rightarrow> Some a | _ \<Rightarrow> None);
       (l, ws) \<leftarrow> sc_blocks s c;
       Assert (l = TUPLE_LABEL);
       rest \<leftarrow> Block_GetArg ws 1;
       st \<leftarrow> Frame_InitArg (sc_top s) 2 rest (sc_stack s);
       s1 \<leftarrow> SetNArgs 2 (s\<lparr>sc_stack := st\<rparr>);
       exn \<leftarrow> Frame_GetArg (sc_top s1) 0 (sc_stack s1);
       s2 \<leftarrow> SetCurrentArg 0 exn s1;
       bt \<leftarrow> Frame_GetArg (sc_top s2) 1 (sc_stack s2);
       s3 \<leftarrow> SetCurrentArg 1 bt s2;
       closure \<leftarrow> Block_GetArg ws 0;
       PushCall env closure s3 } }"

definition UncaughtException_Handle :: "senv \<Rightarrow> sched \<Rightarrow> (worker_result \<times> sched) option" where
  "UncaughtException_Handle env s = do {
     s1 \<leftarrow> Sched_PushHandler env (IntW 0) s;
     s2 \<leftarrow> SetNArgs 0 s1;
     Some (CONTINUE, s2) }"

definition frame_future :: "sched \<Rightarrow> addr option" where
  "frame_future s = do {
     w \<leftarrow> Frame_GetArg (sc_top s) 0 (sc_stack s);
     t \<leftarrow> WordToTransient (sc_trans s) w;
     f \<leftarrow> t;
     wq \<leftarrow> Future_queue (sc_trans s) f;
     Some f }"

definition become :: "addr \<Rightarrow> (store_word \<Rightarrow> transient) \<Rightarrow> store_word \<Rightarrow> sched \<Rightarrow> sched option" where
  "become f mk w s = do { T \<leftarrow> Become (sc_trans s) f mk w; Some (s\<lparr>sc_trans := T\<rparr>) }"

definition new_package :: "senv \<Rightarrow> store_word \<Rightarrow> sched \<Rightarrow> (addr \<times> sched) option" where
  "new_package env exn s = do {
     (b, s1) \<leftarrow> Backtrace_New env s;
     Some (new_block TUPLE_LABEL [exn, BlkW b] s1) }"

definition BindFuture_Run :: "senv \<Rightarrow> sched \<Rightarrow> (worker_result \<times> sched) option" where
  "BindFuture_Run env s = do {
     s1 \<leftarrow> Sched_PopHandler s;
     future \<leftarrow> frame_future s1;
     s2 \<leftarrow> Sched_PopFrame 2 s1;
     s3 \<leftarrow> ScheduleWaitingThreads env future s2;
     s4 \<leftarrow> Construct s3;
     arg \<leftarrow> GetCurrentArg 0 s4;
     t \<leftarrow> WordToTransient (sc_trans s4) arg;
     if t = Some future then do {
       (p, s5) \<leftarrow> new_package env (ev_cyclicExn env) s4;
       s6 \<leftarrow> become future CancelledT (BlkW p) s5;
       Assert (sc_nArgs s6 = 1);
       s7 \<leftarrow> SetCurrentArg 0 (TrW future) s6;
       Some (CONTINUE, s7)
     } else do {
       s5 \<leftarrow> become future RefT arg s4;
       Assert (sc_nArgs s5 = 1);
       Some (CONTINUE, s5) } }"

definition BindFuture_Handle :: "package \<Rightarrow> senv \<Rightarrow> sched \<Rightarrow> (worker_result \<times> sched) option" where
  "BindFuture_Handle package env s = do {
     future \<leftarrow> frame_future s;
     s1 \<leftarrow> Sched_PopFrame 2 s;
     s2 \<leftarrow> ScheduleWaitingThreads env future s1;
     s3 \<leftarrow> become future CancelledT package s2;
     s4 \<leftarrow> SetNArgs 1 s3;
     s5 \<leftarrow> SetCurrentArg 0 (TrW future) s4;
     Some (CONTINUE, s5) }"

definition worker_run :: "senv \<Rightarrow> store_word \<Rightarrow> sched \<Rightarrow> (worker_result \<times> sched) option" where
  "worker_run env w s =
     (if w = ev_emptyTask env then EmptyTask_Run s
      else if w = ev_pushCall env then PushCall_Run env s
      else if w = ev_bindFuture env then BindFuture_Run env s
      else if w = ev_uncaught env then UncaughtException_Run env s
      else ev_run env w s)"

text \<open>The default \<^verbatim>\<open>Worker::Handle\<close> passes the exception on; the push-call worker inherits it.\<close>

definition worker_handle :: "senv \<Rightarrow> store_word \<Rightarrow> hslot \<Rightarrow> package \<Rightarrow> sched \<Rightarrow> (worker_result \<times> sched) option" where
  "worker_handle env w data package s =
     (if w = ev_emptyTask env then EmptyTask_Handle env s
      else if w = ev_pushCall env then Some (RAISE, s)
      else if w = ev_bindFuture env then BindFuture_Handle package env s
      else if w = ev_uncaught env then UncaughtException_Handle env s
      else ev_handle env w data package s)"

section \<open>Raising exceptions\<close>

text \<open>\<^verbatim>\<open>StackFrame::Clone\<close>: the words of the frame, the worker first.\<close>

definition Frame_Clone :: "nat \<Rightarrow> nat \<Rightarrow> dynblock \<Rightarrow> store_word list option" where
  "Frame_Clone tp n st = do {
     Assert (n \<le> tp \<and> tp \<le> length (db_args st));
     Some (map (\<lambda>i. db_args st ! (tp - 1 - i)) [0..<n]) }"

definition trace_frame :: "senv \<Rightarrow> bool \<Rightarrow> sched \<Rightarrow> sched option" where
  "trace_frame env skip s = do {
     w \<leftarrow> Frame_GetWorker (sc_top s) (sc_stack s);
     if \<not> skip \<and> worker_traceable env w then do {
       n \<leftarrow> worker_size env (sc_top s) (sc_stack s);
       ws \<leftarrow> Frame_Clone (sc_top s) n (sc_stack s);
       let (b, s1) = new_block (DATA_LABEL 0) ws s;
       Backtrace_Enqueue env (BlkW b) s1
     } else Some s }"

partial_function (option) unroll :: "senv \<Rightarrow> bool \<Rightarrow> nat \<Rightarrow> nat \<Rightarrow> sched \<Rightarrow> sched option" where
  "unroll env reraise start handler s =
     Option.bind (trace_frame env (sc_top s = start \<and> reraise) s) (\<lambda>s1.
       if sc_top s > handler + 1
       then Option.bind (worker_size env (sc_top s1) (sc_stack s1)) (\<lambda>n.
              unroll env reraise start handler (s1\<lparr>sc_top := sc_top s1 - n\<rparr>))
       else Some s1)"

declare unroll.simps [code]

definition DoRaise :: "senv \<Rightarrow> bool \<Rightarrow> sched \<Rightarrow> (worker_result \<times> sched) option" where
  "DoRaise env reraise s = do {
     let (p, s1) = new_block TUPLE_LABEL [sc_data s, BlkW (sc_backtrace s)] s;
     t \<leftarrow> sc_current s1;
     th \<leftarrow> sc_threads s1 t;
     (handler, data, h) \<leftarrow> ActivateNextHandler (BlkW p) (th_handlers th);
     let s2 = s1\<lparr>sc_threads := (sc_threads s1)(t \<mapsto> th\<lparr>th_handlers := h\<rparr>)\<rparr>;
     Assert (sc_top s2 < length (db_args (sc_stack s2)));
     Assert (sc_top s2 \<ge> handler);
     s3 \<leftarrow> unroll env reraise (sc_top s2) handler s2;
     w \<leftarrow> Frame_GetWorker (sc_top s3) (sc_stack s3);
     worker_handle env w data (BlkW p) s3 }"

section \<open>The main loop\<close>

datatype run_mode = Dispatch | Running | Interpret worker_result | SliceEnd | Idle | Exited int

text \<open>A thread blocks on a future: flush, purge, wait.\<close>

definition block_current :: "senv \<Rightarrow> addr \<Rightarrow> sched \<Rightarrow> sched option" where
  "block_current env f s = do {
     s1 \<leftarrow> FlushThread s;
     t \<leftarrow> sc_current s1;
     s2 \<leftarrow> Thread_Purge env t s1;
     T \<leftarrow> AddToWaitQueue (ev_junk env) (BlkW t) f (sc_trans s2);
     upd_thread t (Thread_BlockOn (TrW f)) (s2\<lparr>sc_trans := T\<rparr>) }"

definition interpret_request :: "senv \<Rightarrow> sched \<Rightarrow> (run_mode \<times> sched) option" where
  "interpret_request env s = do {
     t \<leftarrow> WordToTransient (sc_trans s) (sc_data s);
     a \<leftarrow> t;
     tr \<leftarrow> sc_trans s a;
     case tr of
       HoleT _ \<Rightarrow> do {
         (b, s1) \<leftarrow> Backtrace_New env (s\<lparr>sc_data := ev_holeExn env\<rparr>);
         (r, s2) \<leftarrow> DoRaise env False (s1\<lparr>sc_backtrace := b\<rparr>);
         Some (Interpret r, s2) }
     | FutureT _ \<Rightarrow> do { s1 \<leftarrow> block_current env a s; Some (SliceEnd, s1) }
     | CancelledT w \<Rightarrow> do {
         pb \<leftarrow> WordToBlock (sc_trans s) w;
         p \<leftarrow> pb;
         (l, ws) \<leftarrow> sc_blocks s p;
         Assert (l = TUPLE_LABEL);
         exn \<leftarrow> Block_GetArg ws 0;
         bw \<leftarrow> Block_GetArg ws 1;
         bb \<leftarrow> WordToBlock (sc_trans s) bw;
         b0 \<leftarrow> bb;
         (b, s1) \<leftarrow> Backtrace_Clone env b0 (s\<lparr>sc_data := exn\<rparr>);
         (r, s2) \<leftarrow> DoRaise env False (s1\<lparr>sc_backtrace := b\<rparr>);
         Some (Interpret r, s2) }
     | ByneedT closure \<Rightarrow> do {
         (t, s1) \<leftarrow> NewThread env 0 (ArgW (IntW 0)) s;
         r2 \<leftarrow> BindFuture_PushFrame env t a s1;
         s2 \<leftarrow> r2;
         c \<leftarrow> (case closure of BlkW c \<Rightarrow> Some c | _ \<Rightarrow> None);
         (l, ws) \<leftarrow> sc_blocks s2 c;
         Assert (l = CLOSURE_LABEL);
         r3 \<leftarrow> PushCall_PushFrame env t closure s2;
         s3 \<leftarrow> r3;
         T \<leftarrow> Become_future (sc_trans s3) a;
         s4 \<leftarrow> block_current env a (s3\<lparr>sc_trans := T\<rparr>);
         Some (SliceEnd, s4) }
     | RefT _ \<Rightarrow> None }"

definition interpret_result :: "senv \<Rightarrow> worker_result \<Rightarrow> sched \<Rightarrow> (run_mode \<times> sched) option" where
  "interpret_result env result s =
     (case result of
        CONTINUE \<Rightarrow> do { Assert (sc_nArgs s = 1 \<or> sc_nArgs s < maxArgs); Some (Running, s) }
      | PREEMPT \<Rightarrow> do {
          s1 \<leftarrow> FlushThread s;
          t \<leftarrow> sc_current s1;
          s2 \<leftarrow> ThreadQueue_Enqueue env t s1;
          Some (SliceEnd, s2) }
      | SUSPEND \<Rightarrow> do {
          s1 \<leftarrow> FlushThread s;
          t \<leftarrow> sc_current s1;
          s2 \<leftarrow> Thread_Purge env t s1;
          s3 \<leftarrow> upd_thread t Thread_Suspend s2;
          Some (SliceEnd, s3) }
      | RERAISE \<Rightarrow> do { (r, s1) \<leftarrow> DoRaise env True s; Some (Interpret r, s1) }
      | RAISE \<Rightarrow> do { (r, s1) \<leftarrow> DoRaise env False s; Some (Interpret r, s1) }
      | REQUEST \<Rightarrow> interpret_request env s
      | TERMINATE \<Rightarrow> do {
          s1 \<leftarrow> FlushThread s;
          t \<leftarrow> sc_current s1;
          s2 \<leftarrow> upd_thread t Thread_SetTerminated s1;
          Some (SliceEnd, s2) }
      | EXIT \<Rightarrow> (case sc_data s of IntW i \<Rightarrow> Some (Exited i, s) | _ \<Rightarrow> None)
      | OVERFLOW \<Rightarrow> do {
          (b, s1) \<leftarrow> Backtrace_New env (s\<lparr>sc_data := ev_stackError env\<rparr>);
          (r, s2) \<leftarrow> DoRaise env False (s1\<lparr>sc_backtrace := b\<rparr>);
          Some (Interpret r, s2) })"

definition sched_step :: "senv \<Rightarrow> run_mode \<times> sched \<Rightarrow> (run_mode \<times> sched) option" where
  "sched_step env ms = (case ms of (m, s) \<Rightarrow>
     (case m of
        Dispatch \<Rightarrow> do {
          (c, s1) \<leftarrow> ThreadQueue_Dequeue s;
          let s2 = s1\<lparr>sc_current := c\<rparr>;
          case c of None \<Rightarrow> Some (Idle, s2)
          | Some t \<Rightarrow> do { s3 \<leftarrow> SwitchToThread s2; Some (Running, s3) } }
      | Running \<Rightarrow> do {
          w \<leftarrow> Frame_GetWorker (sc_top s) (sc_stack s);
          (r, s1) \<leftarrow> worker_run env w s;
          Some (Interpret r, s1) }
      | Interpret r \<Rightarrow> interpret_result env r s
      | SliceEnd \<Rightarrow> do {
          s1 \<leftarrow> (if ev_needGC env s then ThreadQueue_Purge env s else Some s);
          s2 \<leftarrow> ev_poll env s1;
          Some (Dispatch, s2) }
      | Idle \<Rightarrow> do { s1 \<leftarrow> ev_block env s; Some (Dispatch, s1) }
      | Exited i \<Rightarrow> Some (Exited i, s)))"

end
