(* ===== verification/Scheduler_Inv.thy ===== *)
theory Scheduler_Inv
  imports Scheduler
begin

text \<open>
  The invariant of the scheduler. What it says of a thread depends on four facts only, the thread's view: its state,
  whether it is suspended, the future it waits for and whether the scheduler has taken its stack. \<open>sched_ok r s\<close>
  holds when

  \<^item> the ready queue holds, once each, exactly the threads that are runnable, not suspended and not the running
    thread \<open>r\<close>;
  \<^item> the wait queue of every future holds, once each, exactly the threads that are blocked on it, and every blocked
    thread is blocked on some future;
  \<^item> the stack of a thread has been taken exactly when it is the running thread, which is runnable and not suspended;
  \<^item> bound transients form no cycle, and new addresses are fresh.
\<close>

type_synonym thread_view = "thread_state \<times> bool \<times> store_word \<times> bool"

definition view :: "thread \<Rightarrow> thread_view" where
  "view th = (th_state th, th_suspended th, th_future th, th_stack th = None)"

definition tview :: "sched \<Rightarrow> addr \<Rightarrow> thread_view option" where
  "tview s t = map_option view (sc_threads s t)"

definition ready_of :: "addr option \<Rightarrow> (addr \<Rightarrow> thread_view option) \<Rightarrow> store_word set" where
  "ready_of r V = {BlkW t | t. (\<exists>w d. V t = Some (RUNNABLE, False, w, d)) \<and> r \<noteq> Some t}"

definition waiting_of :: "addr \<Rightarrow> (addr \<Rightarrow> thread_view option) \<Rightarrow> store_word set" where
  "waiting_of f V = {BlkW t | t. \<exists>b d. V t = Some (BLOCKED, b, TrW f, d)}"

definition ok_view :: "addr option \<Rightarrow> (addr \<Rightarrow> thread_view option) \<Rightarrow> tstore \<Rightarrow> queue \<Rightarrow> addr \<Rightarrow> bool" where
  "ok_view r V T q n \<longleftrightarrow>
     (\<forall>t v. V t = Some v \<longrightarrow> t < n) \<and> (\<forall>f v. T f = Some v \<longrightarrow> f < n) \<and> refs_ok T \<and>
     queue_inv q \<and> distinct (queue_elems q) \<and> set (queue_elems q) = ready_of r V \<and>
     (\<forall>f w. T f = Some (FutureT (Some w)) \<longrightarrow> queue_inv w \<and> distinct (queue_elems w) \<and> set (queue_elems w) = waiting_of f V) \<and>
     (\<forall>t b w d. V t = Some (BLOCKED, b, w, d) \<longrightarrow> (\<exists>f q. w = TrW f \<and> T f = Some (FutureT (Some q)))) \<and>
     (\<forall>t st b w d. V t = Some (st, b, w, d) \<longrightarrow> (d \<longleftrightarrow> r = Some t)) \<and>
     (\<forall>t. r = Some t \<longrightarrow> (\<exists>w. V t = Some (RUNNABLE, False, w, True)))"

definition sched_ok :: "addr option \<Rightarrow> sched \<Rightarrow> bool" where
  "sched_ok r s \<longleftrightarrow> ok_view r (tview s) (sc_trans s) (sc_queue s) (sc_next s)"

section \<open>Decomposition of runs\<close>

lemma stack_result_Some [run_elims]:
  "(case r of Enlarged s \<Rightarrow> f s | StackOverflow \<Rightarrow> Some None) = Some (Some y) \<longleftrightarrow> (\<exists>s. r = Enlarged s \<and> f s = Some (Some y))"
  by (cases r) auto

lemma overflow_Some [run_elims]:
  "(case x of None \<Rightarrow> Some None | Some z \<Rightarrow> f z) = Some (Some y) \<longleftrightarrow> (\<exists>z. x = Some z \<and> f z = Some (Some y))"
  by (cases x) auto

lemma if_else_self [run_elims]:
  "(if b then m else Some s) = Some s' \<longleftrightarrow> (if b then m = Some s' else s' = s)"
  by auto

section \<open>Queues\<close>

lemma enqueue_done:
  assumes "queue_inv q" and "Queue_Enqueue junk w q = Some q'"
  shows "queue_inv q' \<and> queue_elems q' = queue_elems q @ [w]"
proof (cases "queue_room q")
  case True
  then show ?thesis using Queue_Enqueue_spec [OF assms(1), of junk w] assms(2) by auto
next
  case False
  let ?s = "length (q_array q)" and ?wi = "if writeIndex q + 1 = length (q_array q) then 0 else writeIndex q + 1"
  define q1 where "q1 = q\<lparr>q_array := (q_array q)[writeIndex q := w], writeIndex := ?wi\<rparr>"
  have run: "Queue_Enqueue junk w q = (if ?wi = readIndex q then Queue_Enlarge junk (?s div 2) q1 else Some q1)"
    using assms(1) by (auto simp: Queue_Enqueue_def q1_def queue_inv_def run_simps Let_def Assert_def)
  have "Queue_Enlarge junk (?s div 2) q1 = None"
    using False by (auto simp: Queue_Enlarge_def queue_room_def q1_def alloc_array_def Assert_def)
  then have ne: "?wi \<noteq> readIndex q" and "q' = q1" using run assms(2) by (auto split: if_splits)
  then show ?thesis using enqueue_slot [OF assms(1) q1_def] by (simp add: q1_def)
qed

lemma dequeue_done:
  assumes "queue_inv q" and "Queue_Dequeue q = Some (w, q')"
  shows "queue_inv q' \<and> queue_elems q = w # queue_elems q'"
proof -
  have "\<not> Queue_IsEmpty q" using assms(2) by (auto simp: Queue_Dequeue_def run_elims)
  then obtain x xs where "queue_elems q = x # xs" using queue_empty_iff [OF assms(1)] by (cases "queue_elems q") auto
  then show ?thesis using Queue_Dequeue_spec [OF assms(1)] assms(2) by fastforce
qed

lemma remove_done:
  assumes "queue_inv q" and "Queue_Remove w q = Some q'"
  shows "queue_inv q' \<and> queue_elems q' = remove1 w (queue_elems q)"
  using Queue_Remove_spec [OF assms(1), of w] assms(2) by auto

section \<open>Views\<close>

lemma tview_upd [simp]:
  "tview (s\<lparr>sc_threads := (sc_threads s0)(t \<mapsto> th)\<rparr>) = (tview s0)(t \<mapsto> view th)"
  "tview (s\<lparr>sc_trans := T\<rparr>) = tview s" "tview (s\<lparr>sc_queue := q\<rparr>) = tview s" "tview (s\<lparr>sc_blocks := b\<rparr>) = tview s"
  "tview (s\<lparr>sc_backtraces := bt\<rparr>) = tview s" "tview (s\<lparr>sc_next := n\<rparr>) = tview s" "tview (s\<lparr>sc_current := c\<rparr>) = tview s"
  "tview (s\<lparr>sc_nArgs := k\<rparr>) = tview s" "tview (s\<lparr>sc_args := a\<rparr>) = tview s" "tview (s\<lparr>sc_data := w\<rparr>) = tview s"
  "tview (s\<lparr>sc_backtrace := x\<rparr>) = tview s" "tview (s\<lparr>sc_stack := st\<rparr>) = tview s" "tview (s\<lparr>sc_top := tp\<rparr>) = tview s"
  "tview (s\<lparr>sc_uncaught := w\<rparr>) = tview s"
  by (auto simp: tview_def)

lemma tview_Some: "sc_threads s t = Some th \<Longrightarrow> tview s t = Some (view th)"
  by (simp add: tview_def)

text \<open>Two states the scheduler cannot tell apart.\<close>

definition same_sched :: "sched \<Rightarrow> sched \<Rightarrow> bool" where
  "same_sched s s' \<longleftrightarrow> tview s' = tview s \<and> sc_trans s' = sc_trans s \<and> sc_queue s' = sc_queue s \<and>
     sc_current s' = sc_current s \<and> sc_next s \<le> sc_next s'"

lemma same_sched_refl [simp]: "same_sched s s"
  by (simp add: same_sched_def)

lemma same_sched_trans: "same_sched s s1 \<Longrightarrow> same_sched s1 s2 \<Longrightarrow> same_sched s s2"
  by (auto simp: same_sched_def)

lemma ok_view_next: "ok_view r V T q n \<Longrightarrow> n \<le> n' \<Longrightarrow> ok_view r V T q n'"
  unfolding ok_view_def by (meson le_trans less_le_trans)

lemma sched_ok_same: "sched_ok r s \<Longrightarrow> same_sched s s' \<Longrightarrow> sched_ok r s'"
  by (auto simp: sched_ok_def same_sched_def intro: ok_view_next)

section \<open>Operations that only move data\<close>

lemma same_sched_data [simp]:
  "same_sched s0 (s\<lparr>sc_data := w\<rparr>) \<longleftrightarrow> same_sched s0 s" "same_sched s0 (s\<lparr>sc_backtrace := x\<rparr>) \<longleftrightarrow> same_sched s0 s"
  "same_sched s0 (s\<lparr>sc_stack := st\<rparr>) \<longleftrightarrow> same_sched s0 s" "same_sched s0 (s\<lparr>sc_top := tp\<rparr>) \<longleftrightarrow> same_sched s0 s"
  "same_sched s0 (s\<lparr>sc_args := a\<rparr>) \<longleftrightarrow> same_sched s0 s" "same_sched s0 (s\<lparr>sc_nArgs := k\<rparr>) \<longleftrightarrow> same_sched s0 s"
  "same_sched s0 (s\<lparr>sc_uncaught := w\<rparr>) \<longleftrightarrow> same_sched s0 s"
  by (simp_all add: same_sched_def)

lemma same_sched_data_left [simp]:
  "same_sched (s\<lparr>sc_data := w\<rparr>) s0 \<longleftrightarrow> same_sched s s0" "same_sched (s\<lparr>sc_backtrace := x\<rparr>) s0 \<longleftrightarrow> same_sched s s0"
  "same_sched (s\<lparr>sc_stack := st\<rparr>) s0 \<longleftrightarrow> same_sched s s0" "same_sched (s\<lparr>sc_top := tp\<rparr>) s0 \<longleftrightarrow> same_sched s s0"
  by (simp_all add: same_sched_def)

lemma same_new_block [simp]: "same_sched s (snd (new_block l ws s))"
  by (simp add: same_sched_def new_block_def)

lemma same_new_block': "new_block l ws s = (a, s') \<Longrightarrow> same_sched s s'"
  using same_new_block [of s l ws] by simp

lemma same_SetNArgs: "SetNArgs n s = Some s' \<Longrightarrow> same_sched s s'"
  by (auto simp: SetNArgs_def run_elims)

lemma same_SetCurrentArg: "SetCurrentArg n w s = Some s' \<Longrightarrow> same_sched s s'"
  by (auto simp: SetCurrentArg_def run_elims)

lemma same_Construct: "Construct s = Some s' \<Longrightarrow> same_sched s s'"
  unfolding Construct_def
  by (auto simp: run_elims split: if_splits prod.splits dest!: same_SetNArgs same_SetCurrentArg same_new_block'
      intro: same_sched_trans)

lemma same_Deconstruct: "Deconstruct s = Some (b, s') \<Longrightarrow> same_sched s s'"
  by (auto simp: Deconstruct_def run_elims SetNArgs_def same_sched_def split: if_splits option.splits)

lemma same_Backtrace_New: "Backtrace_New env s = Some (b, s') \<Longrightarrow> same_sched s s'"
  by (auto simp: Backtrace_New_def run_elims same_sched_def)

lemma same_Backtrace_Clone: "Backtrace_Clone env b0 s = Some (b, s') \<Longrightarrow> same_sched s s'"
  by (auto simp: Backtrace_Clone_def run_elims same_sched_def)

lemma same_Backtrace_Enqueue: "Backtrace_Enqueue env w s = Some s' \<Longrightarrow> same_sched s s'"
  by (auto simp: Backtrace_Enqueue_def run_elims same_sched_def)

lemma same_Sched_PushFrame: "Sched_PushFrame env n s = Some (Some s') \<Longrightarrow> same_sched s s'"
  by (auto simp: Sched_PushFrame_def run_elims same_sched_def)

lemma same_new_frame: "new_frame env w args s = Some (Some s') \<Longrightarrow> same_sched s s'"
  by (auto simp: new_frame_def run_elims split: option.splits dest!: same_Sched_PushFrame intro: same_sched_trans)

lemma same_Sched_PopFrame: "Sched_PopFrame n s = Some s' \<Longrightarrow> same_sched s s'"
  by (auto simp: Sched_PopFrame_def run_elims)

lemma same_thread_data:
  "sc_threads s t = Some th \<Longrightarrow> view th' = view th \<Longrightarrow> same_sched s (s\<lparr>sc_threads := (sc_threads s)(t \<mapsto> th')\<rparr>)"
  by (auto simp: same_sched_def tview_Some fun_upd_idem)

lemma same_Sched_PushHandler: "Sched_PushHandler env w s = Some s' \<Longrightarrow> same_sched s s'"
  by (auto simp: Sched_PushHandler_def upd_current_def run_elims view_def intro!: same_thread_data)

lemma same_Sched_PopHandler: "Sched_PopHandler s = Some s' \<Longrightarrow> same_sched s s'"
  by (auto simp: Sched_PopHandler_def upd_current_def run_elims view_def intro!: same_thread_data)

lemma same_Thread_Purge: "Thread_Purge env t s = Some s' \<Longrightarrow> same_sched s s'"
  by (auto simp: Thread_Purge_def upd_thread_def run_elims view_def intro!: same_thread_data)

lemma same_new_package: "new_package env exn s = Some (p, s') \<Longrightarrow> same_sched s s'"
  by (auto simp: new_package_def run_elims dest!: same_Backtrace_New same_new_block' intro: same_sched_trans)

lemma new_thread_frame_view: "new_thread_frame junk e w a th = Some (Some th') \<Longrightarrow> view th' = view th"
  by (auto simp: new_thread_frame_def run_elims view_def)

lemma same_PushCall_PushFrame: "PushCall_PushFrame env t c s = Some (Some s') \<Longrightarrow> same_sched s s'"
  by (auto simp: PushCall_PushFrame_def run_elims split: option.splits dest: new_thread_frame_view intro!: same_thread_data)

lemma same_BindFuture_PushFrame: "BindFuture_PushFrame env t f s = Some (Some s') \<Longrightarrow> same_sched s s'"
proof -
  assume "BindFuture_PushFrame env t f s = Some (Some s')"
  then obtain th th' th'' where "sc_threads s t = Some th"
      "new_thread_frame (ev_junk env) (ev_emptyTask env) (ev_bindFuture env) (TrW f) th = Some (Some th')"
      "Thread_PushHandler (ev_hjunk env) (IntW 0) th' = Some th''" "s' = s\<lparr>sc_threads := (sc_threads s)(t \<mapsto> th'')\<rparr>"
    by (auto simp: BindFuture_PushFrame_def run_elims split: option.splits)
  moreover have "view th'' = view th'" using calculation(3) by (auto simp: Thread_PushHandler_def run_elims view_def)
  ultimately show ?thesis using new_thread_frame_view by (auto intro!: same_thread_data)
qed

lemma same_UncaughtException_PushFrame:
  "UncaughtException_PushFrame env e b h s = Some (Some s') \<Longrightarrow> same_sched s s'"
  by (auto simp: UncaughtException_PushFrame_def run_elims split: option.splits
      dest!: same_new_frame same_Sched_PushHandler intro: same_sched_trans)

lemmas same_ops = same_SetNArgs same_SetCurrentArg same_Construct same_Deconstruct same_Backtrace_New same_Backtrace_Clone
  same_Backtrace_Enqueue same_Sched_PushFrame same_new_frame same_Sched_PopFrame same_Sched_PushHandler
  same_Sched_PopHandler same_Thread_Purge same_new_package same_PushCall_PushFrame same_BindFuture_PushFrame
  same_UncaughtException_PushFrame same_new_block'

lemma same_trace_frame: "trace_frame env b s = Some s' \<Longrightarrow> same_sched s s'"
  by (auto simp: trace_frame_def run_elims new_block_def Backtrace_Enqueue_def same_sched_def split: if_splits)

lemma same_unroll:
  assumes "unroll env b st h s = Some s'"
  shows "same_sched s s'"
  using assms
proof (rule unroll.raw_induct [where P = "\<lambda>env b st h s s'. same_sched s s'", rotated], goal_cases)
  case (1 rec env b st h s s')
  then obtain y where y: "trace_frame env (sc_top s = st \<and> b) s = Some y" "same_sched s y"
    and go: "(if h + 1 < sc_top s then worker_size env (sc_top y) (sc_stack y) \<bind> (\<lambda>n. rec env b st h (y\<lparr>sc_top := sc_top y - n\<rparr>))
      else Some y) = Some s'"
    using same_trace_frame by (fastforce simp: run_elims)
  then have "same_sched y s'" using 1(1) by (fastforce simp: run_elims split: if_splits)
  then show ?case using y(2) same_sched_trans by blast
qed

section \<open>The view under the scheduling operations\<close>

lemma mem_ready_of: "BlkW t \<in> ready_of r V \<longleftrightarrow> (\<exists>w d. V t = Some (RUNNABLE, False, w, d)) \<and> r \<noteq> Some t"
  by (auto simp: ready_of_def)

lemma mem_waiting_of: "BlkW t \<in> waiting_of f V \<longleftrightarrow> (\<exists>b d. V t = Some (BLOCKED, b, TrW f, d))"
  by (auto simp: waiting_of_def)

lemma ready_of_upd:
  "ready_of r (V(t \<mapsto> (st, b, w, d))) = (if st = RUNNABLE \<and> \<not> b \<and> r \<noteq> Some t then insert (BlkW t) (ready_of r V) else ready_of r V - {BlkW t})"
  by (auto simp: ready_of_def)

lemma waiting_of_upd:
  "waiting_of f (V(t \<mapsto> (st, b, w, d))) = (if st = BLOCKED \<and> w = TrW f then insert (BlkW t) (waiting_of f V) else waiting_of f V - {BlkW t})"
  by (auto simp: waiting_of_def)

lemmas view_sets = mem_ready_of mem_waiting_of ready_of_upd waiting_of_upd

lemma ok_viewD:
  assumes "ok_view r V T q n"
  shows "\<And>t v. V t = Some v \<Longrightarrow> t < n" "\<And>f v. T f = Some v \<Longrightarrow> f < n" "refs_ok T"
    "queue_inv q" "distinct (queue_elems q)" "set (queue_elems q) = ready_of r V"
    "\<And>f w. T f = Some (FutureT (Some w)) \<Longrightarrow> queue_inv w"
    "\<And>f w. T f = Some (FutureT (Some w)) \<Longrightarrow> distinct (queue_elems w)"
    "\<And>f w. T f = Some (FutureT (Some w)) \<Longrightarrow> set (queue_elems w) = waiting_of f V"
    "\<And>t b w d. V t = Some (BLOCKED, b, w, d) \<Longrightarrow> \<exists>f q. w = TrW f \<and> T f = Some (FutureT (Some q))"
    "\<And>t st b w d. V t = Some (st, b, w, d) \<Longrightarrow> d \<longleftrightarrow> r = Some t"
    "\<And>t. r = Some t \<Longrightarrow> \<exists>w. V t = Some (RUNNABLE, False, w, True)"
  using assms [unfolded ok_view_def] by blast+

lemma ok_viewI:
  assumes "\<And>t v. V t = Some v \<Longrightarrow> t < n" "\<And>f v. T f = Some v \<Longrightarrow> f < n" "refs_ok T"
    "queue_inv q" "distinct (queue_elems q)" "set (queue_elems q) = ready_of r V"
    "\<And>f w. T f = Some (FutureT (Some w)) \<Longrightarrow> queue_inv w \<and> distinct (queue_elems w) \<and> set (queue_elems w) = waiting_of f V"
    "\<And>t b w d. V t = Some (BLOCKED, b, w, d) \<Longrightarrow> \<exists>f q. w = TrW f \<and> T f = Some (FutureT (Some q))"
    "\<And>t st b w d. V t = Some (st, b, w, d) \<Longrightarrow> d \<longleftrightarrow> r = Some t"
    "\<And>t. r = Some t \<Longrightarrow> \<exists>w. V t = Some (RUNNABLE, False, w, True)"
  shows "ok_view r V T q n"
  unfolding ok_view_def using assms by blast

text \<open>A thread leaves a wait queue and becomes runnable.\<close>

lemma ok_view_wake:
  assumes ok: "ok_view r V T q n" and t: "V t = Some (BLOCKED, b, TrW f, d)" and f: "T f = Some (FutureT (Some w))"
    and w': "queue_inv w'" "queue_elems w' = remove1 (BlkW t) (queue_elems w)"
    and q': "if b then q' = q else queue_inv q' \<and> queue_elems q' = queue_elems q @ [BlkW t]"
  shows "ok_view r (V(t \<mapsto> (RUNNABLE, b, x, d))) (T(f \<mapsto> FutureT (Some w'))) q' n"
proof (rule ok_viewI)
  note D = ok_viewD [OF ok]
  have nr: "r \<noteq> Some t" using D(12) [of t] t by auto
  have notin: "BlkW t \<notin> set (queue_elems q)" using t D(6) by (simp add: mem_ready_of)
  show "refs_ok (T(f \<mapsto> FutureT (Some w')))" using D(3) refs_ok_update by blast
  show "queue_inv q'" using q' D(4) by (auto split: if_splits)
  show "distinct (queue_elems q')" using q' D(5) notin by (auto split: if_splits)
  show "set (queue_elems q') = ready_of r (V(t \<mapsto> (RUNNABLE, b, x, d)))"
    using q' D(6) nr notin by (auto simp: ready_of_upd split: if_splits)
  show "\<exists>w. (V(t \<mapsto> (RUNNABLE, b, x, d))) u = Some (RUNNABLE, False, w, True)" if "r = Some u" for u
    using that nr D(12) by auto
  show "\<exists>g p. w0 = TrW g \<and> (T(f \<mapsto> FutureT (Some w'))) g = Some (FutureT (Some p))"
    if "(V(t \<mapsto> (RUNNABLE, b, x, d))) u = Some (BLOCKED, b0, w0, d0)" for u b0 w0 d0
    using that D(10) [of u b0 w0 d0] by (auto split: if_splits)
  fix g u assume g: "(T(f \<mapsto> FutureT (Some w'))) g = Some (FutureT (Some u))"
  show "queue_inv u \<and> distinct (queue_elems u) \<and> set (queue_elems u) = waiting_of g (V(t \<mapsto> (RUNNABLE, b, x, d)))"
  proof (cases "g = f")
    case True
    then show ?thesis using g w' D(8,9) [OF f] by (auto simp: waiting_of_upd)
  next
    case False
    then have "BlkW t \<notin> waiting_of g V" using t by (simp add: mem_waiting_of)
    then show ?thesis using g False D(7,8,9) [of g u] by (auto simp: waiting_of_upd)
  qed
qed (use ok_viewD(1,2,11) [OF ok] t f in \<open>auto split: if_splits\<close>)

text \<open>A thread changes between runnable states; the ready queue follows.\<close>

lemma ok_view_move:
  assumes ok: "ok_view r V T q n" and t: "V t = Some (st, b, x, d)" "st \<noteq> BLOCKED" and st': "st' \<noteq> BLOCKED"
    and q': "queue_inv q'" "distinct (queue_elems q')" "set (queue_elems q') = ready_of r' (V(t \<mapsto> (st', b', x', d')))"
    and r': "\<And>u v. u \<noteq> t \<Longrightarrow> V u = Some v \<Longrightarrow> r' = Some u \<longleftrightarrow> r = Some u" "\<And>u. r' = Some u \<Longrightarrow> V u \<noteq> None"
      "d' \<longleftrightarrow> r' = Some t" "d' \<longrightarrow> st' = RUNNABLE \<and> \<not> b'"
  shows "ok_view r' (V(t \<mapsto> (st', b', x', d'))) T q' n"
proof (rule ok_viewI)
  note D = ok_viewD [OF ok]
  fix f w assume f: "T f = Some (FutureT (Some w))"
  have "BlkW t \<notin> waiting_of f V" using t by (simp add: mem_waiting_of)
  then show "queue_inv w \<and> distinct (queue_elems w) \<and> set (queue_elems w) = waiting_of f (V(t \<mapsto> (st', b', x', d')))"
    using D(7,8,9) [OF f] st' by (simp add: waiting_of_upd)
next
  note D = ok_viewD [OF ok]
  show "\<exists>w. (V(t \<mapsto> (st', b', x', d'))) u = Some (RUNNABLE, False, w, True)" if "r' = Some u" for u
  proof (cases "u = t")
    case True
    then show ?thesis using that r'(3,4) by auto
  next
    case False
    then have "r = Some u" using that r'(1,2) by blast
    then show ?thesis using D(12) False by auto
  qed
  show "d0 \<longleftrightarrow> r' = Some u" if "(V(t \<mapsto> (st', b', x', d'))) u = Some (s0, b0, w0, d0)" for u s0 b0 w0 d0
    using that D(11) [of u] r'(1) [of u] r'(3) by (auto split: if_splits)
qed (use ok_viewD [OF ok] t st' q' in \<open>auto split: if_splits\<close>)

text \<open>A new thread.\<close>

lemma ok_view_new:
  assumes ok: "ok_view r V T q n" and q': "queue_inv q'" "queue_elems q' = queue_elems q @ [BlkW n]"
  shows "ok_view r (V(n \<mapsto> (RUNNABLE, False, x, False))) T q' (Suc n)"
proof (rule ok_viewI)
  note D = ok_viewD [OF ok]
  have n: "V n = None" using D(1) [of n] by (cases "V n") auto
  have nr: "r \<noteq> Some n" using D(12) [of n] n by auto
  have notin: "BlkW n \<notin> set (queue_elems q)" using n D(6) by (simp add: mem_ready_of)
  show "distinct (queue_elems q')" using q' D(5) notin by simp
  show "set (queue_elems q') = ready_of r (V(n \<mapsto> (RUNNABLE, False, x, False)))"
    using q' D(6) nr by (simp add: ready_of_upd)
  show "d \<longleftrightarrow> r = Some t" if "(V(n \<mapsto> (RUNNABLE, False, x, False))) t = Some (st, b, w, d)" for t st b w d
    using that D(11) [of t] nr by (auto split: if_splits)
  show "\<exists>w. (V(n \<mapsto> (RUNNABLE, False, x, False))) t = Some (RUNNABLE, False, w, True)" if "r = Some t" for t
    using that D(12) [of t] nr by auto
  fix f w assume f: "T f = Some (FutureT (Some w))"
  have "BlkW n \<notin> waiting_of f V" using n by (simp add: mem_waiting_of)
  then show "queue_inv w \<and> distinct (queue_elems w) \<and> set (queue_elems w) = waiting_of f (V(n \<mapsto> (RUNNABLE, False, x, False)))"
    using D(7,8,9) [OF f] by (simp add: waiting_of_upd)
qed (use ok_viewD [OF ok] q' in \<open>auto split: if_splits intro: less_SucI\<close>)

text \<open>A transient on which no thread waits changes.\<close>

lemma ok_view_trans:
  assumes ok: "ok_view r V T q n" and f: "f < n'" "n \<le> n'" and none: "waiting_of f V = {}" and t: "\<And>w. t \<noteq> FutureT (Some w)"
    and refs: "refs_ok (T(f \<mapsto> t))"
  shows "ok_view r V (T(f \<mapsto> t)) q n'"
proof (rule ok_viewI)
  note D = ok_viewD [OF ok]
  show "\<exists>g q. w = TrW g \<and> (T(f \<mapsto> t)) g = Some (FutureT (Some q))" if v: "V u = Some (BLOCKED, b, w, d)" for u b w d
  proof -
    obtain g q where g: "w = TrW g" "T g = Some (FutureT (Some q))" using D(10) [OF v] by blast
    then have "g \<noteq> f" using none v by (auto simp: waiting_of_def)
    then show ?thesis using g by auto
  qed
  show "\<And>g w. (T(f \<mapsto> t)) g = Some (FutureT (Some w)) \<Longrightarrow>
      queue_inv w \<and> distinct (queue_elems w) \<and> set (queue_elems w) = waiting_of g V"
    using D(7,8,9) t by (auto split: if_splits)
  show "\<And>g v. (T(f \<mapsto> t)) g = Some v \<Longrightarrow> g < n'" using D(2) f by (auto split: if_splits intro: less_le_trans)
  show "\<And>u v. V u = Some v \<Longrightarrow> u < n'" using D(1) f(2) less_le_trans by blast
qed (use ok_viewD [OF ok] refs in auto)

text \<open>The running thread blocks on a future.\<close>

lemma ok_view_block:
  assumes ok: "ok_view (Some t) V T q n" and f: "T f = Some (FutureT wq)"
    and w': "queue_inv w'" "queue_elems w' = (case wq of None \<Rightarrow> [] | Some w \<Rightarrow> queue_elems w) @ [BlkW t]"
  shows "ok_view None (V(t \<mapsto> (BLOCKED, b, TrW f, False))) (T(f \<mapsto> FutureT (Some w'))) q n"
proof (rule ok_viewI)
  note D = ok_viewD [OF ok]
  obtain x where t: "V t = Some (RUNNABLE, False, x, True)" using D(12) by blast
  have nw: "BlkW t \<notin> waiting_of g V" for g using t by (simp add: mem_waiting_of)
  have wait: "set (case wq of None \<Rightarrow> [] | Some w \<Rightarrow> queue_elems w) = waiting_of f V"
    using f D(9) [of f] D(10) by (cases wq) (fastforce simp: waiting_of_def)+
  show "refs_ok (T(f \<mapsto> FutureT (Some w')))" using D(3) refs_ok_update by blast
  have "ready_of None (V(t \<mapsto> (BLOCKED, b, TrW f, False))) = ready_of (Some t) V"
    by (auto simp: ready_of_upd ready_of_def)
  then show "set (queue_elems q) = ready_of None (V(t \<mapsto> (BLOCKED, b, TrW f, False)))" using D(6) by simp
  show "d \<longleftrightarrow> None = Some u" if "(V(t \<mapsto> (BLOCKED, b, TrW f, False))) u = Some (st, b0, w, d)" for u st b0 w d
    using that D(11) [of u] by (auto split: if_splits)
  show "\<And>u b0 w d. (V(t \<mapsto> (BLOCKED, b, TrW f, False))) u = Some (BLOCKED, b0, w, d) \<Longrightarrow>
      \<exists>g q. w = TrW g \<and> (T(f \<mapsto> FutureT (Some w'))) g = Some (FutureT (Some q))"
    using D(10) by (fastforce split: if_splits)
  fix g u assume g: "(T(f \<mapsto> FutureT (Some w'))) g = Some (FutureT (Some u))"
  show "queue_inv u \<and> distinct (queue_elems u) \<and> set (queue_elems u) = waiting_of g (V(t \<mapsto> (BLOCKED, b, TrW f, False)))"
  proof (cases "g = f")
    case True
    have "distinct (case wq of None \<Rightarrow> [] | Some w \<Rightarrow> queue_elems w)" using f D(8) by (auto split: option.splits)
    then show ?thesis using g True w' wait nw [of f] by (auto simp: waiting_of_upd)
  next
    case False
    then show ?thesis using g D(7,8,9) [of g u] nw [of g] by (simp add: waiting_of_upd)
  qed
qed (use ok_viewD [OF ok] f in \<open>auto split: if_splits\<close>)

text \<open>A blocked thread is suspended or resumed.\<close>

lemma ok_view_flag:
  assumes ok: "ok_view r V T q n" and t: "V t = Some (BLOCKED, b, w, d)"
  shows "ok_view r (V(t \<mapsto> (BLOCKED, b', w, d))) T q n"
proof (rule ok_viewI)
  note D = ok_viewD [OF ok]
  have nr: "r \<noteq> Some t" using D(12) [of t] t by auto
  have "BlkW t \<notin> ready_of r V" using t by (simp add: mem_ready_of)
  then show "set (queue_elems q) = ready_of r (V(t \<mapsto> (BLOCKED, b', w, d)))" using D(6) by (simp add: ready_of_upd)
  show "\<exists>x. (V(t \<mapsto> (BLOCKED, b', w, d))) u = Some (RUNNABLE, False, x, True)" if "r = Some u" for u
    using that nr D(12) by auto
  show "\<exists>f p. w0 = TrW f \<and> T f = Some (FutureT (Some p))"
    if "(V(t \<mapsto> (BLOCKED, b', w, d))) u = Some (BLOCKED, b0, w0, d0)" for u b0 w0 d0
    using that t D(10) [of t b w d] D(10) [of u b0 w0 d0] by (auto split: if_splits)
  fix f u assume f: "T f = Some (FutureT (Some u))"
  have "waiting_of f (V(t \<mapsto> (BLOCKED, b', w, d))) = waiting_of f V"
    using t by (auto simp: waiting_of_upd mem_waiting_of)
  then show "queue_inv u \<and> distinct (queue_elems u) \<and> set (queue_elems u) = waiting_of f (V(t \<mapsto> (BLOCKED, b', w, d)))"
    using D(7,8,9) [OF f] by simp
qed (use ok_viewD(1,2,3,4,5,11) [OF ok] t in \<open>auto split: if_splits\<close>)

end
