(* ===== verification/Scheduler_Ops.thy ===== *)
theory Scheduler_Ops
  imports Scheduler_Inv
begin

text \<open>
  The scheduling operations keep the invariant. \<open>keeps r s s'\<close> says that \<open>s'\<close> is again a good state with the same
  running thread; a locale states what the scheduler relies on from the workers it does not know, and every step of
  the main loop is shown to keep the invariant under it.
\<close>

definition keeps :: "addr option \<Rightarrow> sched \<Rightarrow> sched \<Rightarrow> bool" where
  "keeps r s s' \<longleftrightarrow> sched_ok r s' \<and> sc_current s' = sc_current s"

lemma keeps_same: "sched_ok r s \<Longrightarrow> same_sched s s' \<Longrightarrow> keeps r s s'"
  by (auto simp: keeps_def sched_ok_same) (simp add: same_sched_def)

lemma keeps_trans: "keeps r s s1 \<Longrightarrow> keeps r s1 s2 \<Longrightarrow> keeps r s s2"
  by (simp add: keeps_def)

lemma keeps_ok: "keeps r s s' \<Longrightarrow> sched_ok r s'"
  by (simp add: keeps_def)

lemma keeps_current: "keeps r s s' \<Longrightarrow> sc_current s = c \<Longrightarrow> sc_current s' = c"
  by (simp add: keeps_def)

lemma Future_queue_Some [run_elims]: "Future_queue T f = Some wq \<longleftrightarrow> T f = Some (FutureT wq)"
  by (auto simp: Future_queue_def split: option.splits transient.splits)

lemma enqueue_ready:
  assumes "ThreadQueue_Enqueue env t s = Some s'" and "queue_inv (sc_queue s)"
  shows "\<exists>q. s' = s\<lparr>sc_queue := q\<rparr> \<and> queue_inv q \<and> queue_elems q = queue_elems (sc_queue s) @ [BlkW t]"
  using assms enqueue_done by (auto simp: ThreadQueue_Enqueue_def run_elims)

lemma blank_done:
  assumes "queue_inv q" and "Queue_Blank q = Some q'"
  shows "queue_inv q' \<and> queue_elems q' = queue_elems q"
proof (cases "Queue_IsEmpty q \<or> length (q_array q) \<le> 1048575")
  case True
  then show ?thesis using Queue_Blank_empty [OF assms(1)] Queue_Blank_spec [OF assms(1)] assms by fastforce
next
  case False
  then have ne: "\<not> Queue_IsEmpty q" and big: "1048575 < length (q_array q)" by auto
  let ?s = "length (q_array q)" and ?n = "Queue_GetNumberOfElements q"
  define m where "m = (if Queue_Blank_size ?n ?s < 2 then 2 else Queue_Blank_size ?n ?s)"
  have len: "length (q_array q1) = ?s" if "Queue_Blank_move ?n m q = Some q1" for q1
    using that by (auto simp: Queue_Blank_move_def run_elims Let_def split: if_splits dest!: length_copy_words)
  have none: "(do { q1 \<leftarrow> Queue_Blank_move ?n m q; a \<leftarrow> resize_array (q_array q1) m; Some (q1\<lparr>q_array := a\<rparr>) }) = None"
    using len big by (cases "Queue_Blank_move ?n m q") (auto simp: resize_array_def)
  have m: "m \<ge> ?s"
  proof (rule ccontr)
    assume "\<not> m \<ge> ?s"
    then have "Queue_Blank q = None"
      unfolding Queue_Blank_def Let_def blank_entries [OF assms(1) ne] m_def [symmetric] by (simp add: none)
    then show False using assms(2) by simp
  qed
  obtain a where a: "(if readIndex q < writeIndex q then do {
            a \<leftarrow> blank_range (q_array q) 0 (readIndex q);
            blank_range a (writeIndex q) ?s
          } else blank_range (q_array q) (writeIndex q) (readIndex q)) = Some a" "length a = ?s"
    "\<forall>i < ?s. a ! i = (if occupied q i then q_array q ! i else IntW 0)"
    using zero_free_slots [OF assms(1) ne refl] by blast
  have q': "q' = q\<lparr>q_array := a\<rparr>"
    using assms(2) m a(1) unfolding Queue_Blank_def Let_def blank_entries [OF assms(1) ne] m_def [symmetric] if_P [OF m]
    by (auto simp: run_elims simp del: if_split split del: if_split)
  have inv: "queue_inv q'" using assms(1) a(2) by (simp add: queue_inv_def q')
  have "queue_elems q' = queue_elems q"
    by (rule queue_elems_cong [OF assms(1) inv]) (use a q' in auto)
  then show ?thesis using inv by simp
qed

section \<open>Threads are created, woken, suspended and resumed\<close>

lemma Thread_New_view: "Thread_New junk hjunk e k a = Some th \<Longrightarrow> view th = (RUNNABLE, False, IntW 0, False)"
  by (auto simp: Thread_New_def run_elims view_def)

lemma NewThread_ok:
  assumes ok: "sched_ok r s" and run: "NewThread env k a s = Some (t, s')"
  shows "keeps r s s'" "sc_trans s' = sc_trans s" "tview s' = (tview s)(t \<mapsto> (RUNNABLE, False, IntW 0, False))"
proof -
  obtain th where th: "Thread_New (ev_junk env) (ev_hjunk env) (ev_emptyTask env) k a = Some th"
    and t: "t = sc_next s" and e: "ThreadQueue_Enqueue env t (s\<lparr>sc_threads := (sc_threads s)(t \<mapsto> th), sc_next := Suc t\<rparr>) = Some s'"
    using run by (auto simp: NewThread_def run_elims Let_def)
  note D = ok_viewD [OF ok [unfolded sched_ok_def]]
  obtain q where q: "s' = s\<lparr>sc_threads := (sc_threads s)(t \<mapsto> th), sc_next := Suc t, sc_queue := q\<rparr>" "queue_inv q"
      "queue_elems q = queue_elems (sc_queue s) @ [BlkW t]"
    using enqueue_ready [OF e] D(4) by auto
  show "tview s' = (tview s)(t \<mapsto> (RUNNABLE, False, IntW 0, False))" using Thread_New_view [OF th] by (simp add: q(1))
  then show "keeps r s s'" using ok_view_new [OF ok [unfolded sched_ok_def] q(2) q(3) [unfolded t], of "IntW 0"]
    by (simp add: keeps_def sched_ok_def q(1) t)
  show "sc_trans s' = sc_trans s" by (simp add: q(1))
qed

text \<open>A blocked thread leaves the wait queue of its future and is woken.\<close>

lemma WakeupThread_ok:
  assumes ok: "sched_ok r s" and f: "sc_trans s f = Some (FutureT (Some w))" and t: "BlkW t \<in> set (queue_elems w)"
    and w': "queue_inv w'" "queue_elems w' = remove1 (BlkW t) (queue_elems w)"
    and run: "WakeupThread env t (s\<lparr>sc_trans := (sc_trans s)(f \<mapsto> FutureT (Some w'))\<rparr>) = Some s'"
  shows "keeps r s s'" "sc_trans s' = (sc_trans s)(f \<mapsto> FutureT (Some w'))"
    "\<exists>b d. tview s t = Some (BLOCKED, b, TrW f, d) \<and> tview s' = (tview s)(t \<mapsto> (RUNNABLE, b, IntW 0, d)) \<and>
      queue_elems (sc_queue s') = queue_elems (sc_queue s) @ (if b then [] else [BlkW t])"
proof -
  note okv = ok [unfolded sched_ok_def]
  note D = ok_viewD [OF okv]
  obtain b d where v: "tview s t = Some (BLOCKED, b, TrW f, d)" using t D(9) [OF f] by (auto simp: mem_waiting_of)
  then obtain th where th: "sc_threads s t = Some th" "view th = (BLOCKED, b, TrW f, d)" by (auto simp: tview_def)
  have wk: "view (Thread_Wakeup th) = (RUNNABLE, b, IntW 0, d)"
    using th(2) by (simp add: view_def Thread_Wakeup_def Thread_SetState_def)
  let ?s = "s\<lparr>sc_trans := (sc_trans s)(f \<mapsto> FutureT (Some w')), sc_threads := (sc_threads s)(t \<mapsto> Thread_Wakeup th)\<rparr>"
  have "\<exists>q. s' = ?s\<lparr>sc_queue := q\<rparr> \<and> (if b then q = sc_queue s else queue_inv q \<and> queue_elems q = queue_elems (sc_queue s) @ [BlkW t])"
  proof (cases b)
    case True
    then show ?thesis using run th by (auto simp: WakeupThread_def run_elims upd_thread_def view_def intro!: exI [of _ "sc_queue s"])
  next
    case False
    then have "ThreadQueue_Enqueue env t ?s = Some s'"
      using run th by (auto simp: WakeupThread_def ScheduleThread_def run_elims upd_thread_def view_def)
    then show ?thesis using enqueue_ready D(4) False by fastforce
  qed
  then obtain q where q: "s' = ?s\<lparr>sc_queue := q\<rparr>"
    "if b then q = sc_queue s else queue_inv q \<and> queue_elems q = queue_elems (sc_queue s) @ [BlkW t]" by blast
  have "ok_view r ((tview s)(t \<mapsto> (RUNNABLE, b, IntW 0, d))) ((sc_trans s)(f \<mapsto> FutureT (Some w'))) q (sc_next s)"
    by (rule ok_view_wake [OF okv v f w' q(2)])
  then show "keeps r s s'" by (simp add: keeps_def sched_ok_def q(1) wk)
  show "sc_trans s' = (sc_trans s)(f \<mapsto> FutureT (Some w'))" by (simp add: q(1))
  show "\<exists>b d. tview s t = Some (BLOCKED, b, TrW f, d) \<and> tview s' = (tview s)(t \<mapsto> (RUNNABLE, b, IntW 0, d)) \<and>
      queue_elems (sc_queue s') = queue_elems (sc_queue s) @ (if b then [] else [BlkW t])"
    using v q wk by (auto split: if_splits)
qed

lemma wake_all_ok:
  assumes "sched_ok r s" and "sc_trans s f = Some (FutureT (Some q))" and "wake_all env f q s = Some s'"
  shows "keeps r s s' \<and> waiting_of f (tview s') = {} \<and> (\<exists>q'. sc_trans s' = (sc_trans s)(f \<mapsto> FutureT (Some q')))"
  using assms
proof (induction "length (queue_elems q)" arbitrary: q s rule: less_induct)
  case less
  note D = ok_viewD [OF less.prems(1) [unfolded sched_ok_def]]
  show ?case
  proof (cases "Queue_IsEmpty q")
    case True
    then have "s' = s" using less.prems(3) by (subst (asm) wake_all.simps) simp
    moreover have "waiting_of f (tview s) = {}" using True D(7,9) [OF less.prems(2)] by (simp add: queue_empty_iff)
    moreover have "(sc_trans s)(f \<mapsto> FutureT (Some q)) = sc_trans s" using less.prems(2) by (rule fun_upd_idem)
    ultimately show ?thesis using less.prems(1) by (auto simp: keeps_def intro!: exI [of _ q])
  next
    case False
    then obtain w q' t s1 where dq: "Queue_Dequeue q = Some (w, q')" and t: "word_thread s w = Some t"
      and wk: "WakeupThread env t (s\<lparr>sc_trans := (sc_trans s)(f \<mapsto> FutureT (Some q'))\<rparr>) = Some s1"
      and go: "wake_all env f q' s1 = Some s'"
      using less.prems(3) by (subst (asm) wake_all.simps) (auto simp: run_elims)
    have q': "queue_inv q'" "queue_elems q = w # queue_elems q'" using dequeue_done [OF D(7) [OF less.prems(2)] dq] by auto
    have w: "w = BlkW t" using t by (auto simp: word_thread_def run_elims split: store_word.splits)
    have "BlkW t \<in> set (queue_elems q)" "queue_elems q' = remove1 (BlkW t) (queue_elems q)" by (simp_all add: q'(2) w)
    note s1 = WakeupThread_ok(1,2) [OF less.prems(1,2) this(1) q'(1) this(2) wk]
    have "keeps r s1 s' \<and> waiting_of f (tview s') = {} \<and> (\<exists>q'. sc_trans s' = (sc_trans s1)(f \<mapsto> FutureT (Some q')))"
      by (rule less.hyps [OF _ keeps_ok [OF s1(1)] _ go]) (simp_all add: q' s1)
    then show ?thesis using keeps_trans [OF s1(1)] s1(2) by auto
  qed
qed

lemma ScheduleWaitingThreads_ok:
  assumes "sched_ok r s" and "ScheduleWaitingThreads env f s = Some s'"
  shows "keeps r s s'" "waiting_of f (tview s') = {}" "f < sc_next s'"
    "\<exists>wq. sc_trans s' = (sc_trans s)(f \<mapsto> FutureT wq) \<and> (\<forall>wq0. sc_trans s f = Some (FutureT wq0) \<longrightarrow> wq = None \<longleftrightarrow> wq0 = None)"
proof -
  note D = ok_viewD [OF assms(1) [unfolded sched_ok_def]]
  obtain wq where wq: "sc_trans s f = Some (FutureT wq)"
    "(case wq of None \<Rightarrow> Some s | Some q \<Rightarrow> wake_all env f q s) = Some s'"
    using assms(2) by (auto simp: ScheduleWaitingThreads_def Future_queue_def run_elims split: option.splits transient.splits)
  have "keeps r s s' \<and> waiting_of f (tview s') = {} \<and> (\<exists>wq'. sc_trans s' = (sc_trans s)(f \<mapsto> FutureT wq') \<and> (wq' = None \<longleftrightarrow> wq = None))"
  proof (cases wq)
    case None
    have "waiting_of f (tview s) = {}" using D(10) wq(1) None by (fastforce simp: waiting_of_def)
    then show ?thesis using wq None assms(1) by (auto simp: keeps_def intro!: exI [of _ None])
  next
    case (Some q)
    then show ?thesis using wake_all_ok [OF assms(1), of f q env s'] wq by auto
  qed
  then show "keeps r s s'" "waiting_of f (tview s') = {}" "\<exists>wq. sc_trans s' = (sc_trans s)(f \<mapsto> FutureT wq) \<and>
      (\<forall>wq0. sc_trans s f = Some (FutureT wq0) \<longrightarrow> wq = None \<longleftrightarrow> wq0 = None)" using wq(1) by auto
  then show "f < sc_next s'" using ok_viewD(2) [OF keeps_ok [unfolded sched_ok_def]] by fastforce
qed

text \<open>Binding or cancelling a transient that nobody waits for.\<close>

lemma become_ok:
  assumes "sched_ok r s" and "waiting_of f (tview s) = {}" and "become f mk w s = Some s'" and "mk = RefT \<or> mk = CancelledT"
  shows "keeps r s s'"
proof -
  note okv = assms(1) [unfolded sched_ok_def]
  obtain T where T: "Become (sc_trans s) f mk w = Some T" "s' = s\<lparr>sc_trans := T\<rparr>"
    using assms(3) by (auto simp: become_def run_elims)
  obtain v where v: "T = (sc_trans s)(f \<mapsto> mk v)" "unbound (sc_trans s) (TrW f)"
    using Become_spec [OF T(1)] by blast
  have "refs_ok T" by (rule Become_refs_ok [OF ok_viewD(3) [OF okv] T(1) assms(4)])
  moreover have "f < sc_next s" using v(2) ok_viewD(2) [OF okv] by (auto simp: unbound_def)
  ultimately have "ok_view r (tview s) T (sc_queue s) (sc_next s)"
    using ok_view_trans [OF okv _ _ assms(2), of "sc_next s" "mk v"] assms(4) v(1) by auto
  then show ?thesis by (simp add: keeps_def sched_ok_def T(2))
qed

lemma purge_view:
  assumes "Thread_Purge env t s = Some s'" and "sched_ok r s"
  shows "r \<noteq> Some t"
proof -
  obtain th st where "sc_threads s t = Some th" "th_stack th = Some st" using assms(1) by (auto simp: Thread_Purge_def run_elims)
  then have "tview s t = Some (th_state th, th_suspended th, th_future th, False)" by (simp add: tview_def view_def)
  then show ?thesis using ok_viewD(11) [OF assms(2) [unfolded sched_ok_def]] by blast
qed

lemma SuspendThread_ok:
  assumes ok: "sched_ok r s" and run: "SuspendThread env t s = Some s'"
  shows "keeps r s s'"
proof -
  note okv = ok [unfolded sched_ok_def]
  note D = ok_viewD [OF okv]
  obtain th s2 th2 where th: "sc_threads s t = Some th"
    and pu: "Thread_Purge env t (s\<lparr>sc_threads := (sc_threads s)(t \<mapsto> Thread_Suspend th)\<rparr>) = Some s2"
    and th2: "sc_threads s2 t = Some th2" and re: "(if th_state th2 = RUNNABLE then ThreadQueue_Remove t s2 else Some s2) = Some s'"
    using run by (auto simp: SuspendThread_def upd_thread_def run_elims)
  let ?s1 = "s\<lparr>sc_threads := (sc_threads s)(t \<mapsto> Thread_Suspend th)\<rparr>"
  obtain st b w d where v: "view th = (st, b, w, d)" by (cases "view th") auto
  have vt: "tview s t = Some (st, b, w, d)" using th v by (simp add: tview_def)
  have v1: "tview ?s1 = (tview s)(t \<mapsto> (st, True, w, d))" using v by (simp add: view_def Thread_Suspend_def)
  have same: "same_sched ?s1 s2" by (rule same_Thread_Purge [OF pu])
  have "d = False" using pu v by (auto simp: Thread_Purge_def run_elims view_def Thread_Suspend_def)
  then have nr: "r \<noteq> Some t" using D(11) vt by blast
  have "tview s2 t = Some (st, True, w, d)" using same v1 by (simp add: same_sched_def)
  then have st2: "th_state th2 = st" using th2 by (simp add: tview_def view_def)
  have same': "tview s2 = tview ?s1" "sc_trans s2 = sc_trans s" "sc_queue s2 = sc_queue s" "sc_current s2 = sc_current s" "sc_next s \<le> sc_next s2"
    using same by (auto simp: same_sched_def)
  note okn = ok_view_next [OF okv same'(5)]
  have sub: "set (queue_elems (sc_queue s)) = ready_of r (tview s)" using D(6) .
  show ?thesis
  proof (cases "st = RUNNABLE")
    case True
    then obtain q where q: "s' = s2\<lparr>sc_queue := q\<rparr>" "queue_inv q" "queue_elems q = remove1 (BlkW t) (queue_elems (sc_queue s))"
      using re st2 remove_done [OF D(4)] by (auto simp: ThreadQueue_Remove_def run_elims same'(3))
    have "ok_view r ((tview s)(t \<mapsto> (st, True, w, d))) (sc_trans s) q (sc_next s2)"
      by (rule ok_view_move [OF okn vt]) (use True q D(5) sub nr \<open>d = False\<close> in \<open>auto simp: ready_of_upd dest!: ok_viewD(12) [OF okv]\<close>)
    then show ?thesis by (simp add: keeps_def sched_ok_def q(1) same'(1,2,4) v1 [simplified])
  next
    case False
    then have s': "s' = s2" using re st2 by simp
    have "ok_view r ((tview s)(t \<mapsto> (st, True, w, d))) (sc_trans s) (sc_queue s) (sc_next s2)"
    proof (cases "st = BLOCKED")
      case True
      then show ?thesis using ok_view_flag [OF okn, of t b w d True] vt by simp
    next
      case nb: False
      have "BlkW t \<notin> ready_of r (tview s)" using vt False by (simp add: mem_ready_of)
      then show ?thesis
        by (intro ok_view_move [OF okn vt]) (use nb D(4,5) sub nr \<open>d = False\<close> in \<open>auto simp: ready_of_upd dest!: ok_viewD(12) [OF okv]\<close>)
    qed
    then show ?thesis by (simp add: keeps_def sched_ok_def s' same' v1 [simplified])
  qed
qed

lemma ResumeThread_ok:
  assumes ok: "sched_ok r s" and run: "ResumeThread env t s = Some s'"
  shows "keeps r s s'"
proof -
  note okv = ok [unfolded sched_ok_def]
  note D = ok_viewD [OF okv]
  obtain th where th: "sc_threads s t = Some th" using run by (auto simp: ResumeThread_def run_elims)
  obtain st b w d where v: "view th = (st, b, w, d)" by (cases "view th") auto
  have vt: "tview s t = Some (st, b, w, d)" using th v by (simp add: tview_def)
  let ?s1 = "s\<lparr>sc_threads := (sc_threads s)(t \<mapsto> Thread_Resume th)\<rparr>"
  have v1: "view (Thread_Resume th) = (st, False, w, d)" using v by (simp add: view_def Thread_Resume_def)
  show ?thesis
  proof (cases b)
    case False
    then have "s' = s" using run th v by (simp add: ResumeThread_def view_def)
    then show ?thesis using ok by (simp add: keeps_def)
  next
    case b: True
    have nr: "r \<noteq> Some t" using D(12) [of t] vt b by auto
    then have d: "\<not> d" using D(11) vt by blast
    have notin: "BlkW t \<notin> ready_of r (tview s)" using vt b by (simp add: mem_ready_of)
    show ?thesis
    proof (cases "st = RUNNABLE")
      case True
      then have "ThreadQueue_Enqueue env t ?s1 = Some s'"
        using run th v b by (auto simp: ResumeThread_def ScheduleThread_def upd_thread_def view_def run_elims)
      then obtain q where q: "s' = ?s1\<lparr>sc_queue := q\<rparr>" "queue_inv q" "queue_elems q = queue_elems (sc_queue s) @ [BlkW t]"
        using enqueue_ready D(4) by fastforce
      have "ok_view r ((tview s)(t \<mapsto> (st, False, w, d))) (sc_trans s) q (sc_next s)"
        by (rule ok_view_move [OF okv vt]) (use True q D(5,6) nr d notin in \<open>auto simp: ready_of_upd dest!: ok_viewD(12) [OF okv]\<close>)
      then show ?thesis by (simp add: keeps_def sched_ok_def q(1) v1)
    next
      case False
      then have s': "s' = ?s1" using run th v b by (auto simp: ResumeThread_def upd_thread_def view_def run_elims)
      have "ok_view r ((tview s)(t \<mapsto> (st, False, w, d))) (sc_trans s) (sc_queue s) (sc_next s)"
      proof (cases "st = BLOCKED")
        case True
        then show ?thesis using ok_view_flag [OF okv, of t b w d False] vt by simp
      next
        case nb: False
        show ?thesis
          by (rule ok_view_move [OF okv vt]) (use False nb D(4,5,6) nr d notin in \<open>auto simp: ready_of_upd dest!: ok_viewD(12) [OF okv]\<close>)
      qed
      then show ?thesis by (simp add: keeps_def sched_ok_def s' v1)
    qed
  qed
qed

section \<open>Switching\<close>

text \<open>The first ready thread becomes the running one.\<close>

lemma dispatch_ok:
  assumes ok: "sched_ok None s" and dq: "ThreadQueue_Dequeue s = Some (Some t, s1)"
    and sw: "SwitchToThread (s1\<lparr>sc_current := Some t\<rparr>) = Some s'"
  shows "sched_ok (Some t) s'" "sc_current s' = Some t" "queue_elems (sc_queue s) = BlkW t # queue_elems (sc_queue s')"
proof -
  note okv = ok [unfolded sched_ok_def]
  note D = ok_viewD [OF okv]
  obtain w q where q: "Queue_Dequeue (sc_queue s) = Some (w, q)" "word_thread s w = Some t" "s1 = s\<lparr>sc_queue := q\<rparr>"
    using dq by (auto simp: ThreadQueue_Dequeue_def run_elims split: if_splits)
  have w: "w = BlkW t" using q(2) by (auto simp: word_thread_def run_elims split: store_word.splits)
  note Q = dequeue_done [OF D(4) q(1), unfolded w]
  obtain th st args k where th: "sc_threads s t = Some th" "th_stack th = Some st" "th_state th = RUNNABLE" "\<not> th_suspended th"
    and s': "s' = s1\<lparr>sc_current := Some t, sc_threads := (sc_threads s)(t \<mapsto> th\<lparr>th_stack := None\<rparr>), sc_stack := st, sc_top := db_active st,
       sc_nArgs := k, sc_args := args\<rparr>"
    using sw by (auto simp: SwitchToThread_def Thread_GetTaskStack_def run_elims q(3) Let_def)
  have vt: "tview s t = Some (RUNNABLE, False, th_future th, False)" using th by (simp add: tview_def view_def)
  have notin: "BlkW t \<notin> set (queue_elems q)" using D(5) Q by auto
  have "ok_view (Some t) ((tview s)(t \<mapsto> (RUNNABLE, False, th_future th, True))) (sc_trans s) q (sc_next s)"
  proof (rule ok_view_move [OF okv vt])
    have "set (queue_elems q) = ready_of None (tview s) - {BlkW t}" using D(5,6) Q notin by auto
    also have "\<dots> = ready_of (Some t) ((tview s)(t \<mapsto> (RUNNABLE, False, th_future th, True)))"
      by (auto simp: ready_of_def)
    finally show "set (queue_elems q) = ready_of (Some t) ((tview s)(t \<mapsto> (RUNNABLE, False, th_future th, True)))" .
  qed (use D(5) Q vt in auto)
  then show "sched_ok (Some t) s'" using th by (simp add: sched_ok_def s' q(3) view_def)
  show "sc_current s' = Some t" "queue_elems (sc_queue s) = BlkW t # queue_elems (sc_queue s')" using Q by (simp_all add: s' q(3))
qed

lemma FlushThread_view:
  assumes ok: "sched_ok (Some t) s" and c: "sc_current s = Some t" and run: "FlushThread s = Some s1"
  shows "\<exists>w. tview s1 = (tview s)(t \<mapsto> (RUNNABLE, False, w, False)) \<and> tview s t = Some (RUNNABLE, False, w, True) \<and>
    sc_trans s1 = sc_trans s \<and> sc_queue s1 = sc_queue s \<and> sc_current s1 = Some t \<and> sc_next s1 = sc_next s"
proof -
  obtain w where w: "tview s t = Some (RUNNABLE, False, w, True)"
    using ok_viewD(12) [OF ok [unfolded sched_ok_def], of t] by blast
  then obtain th where th: "sc_threads s t = Some th" "view th = (RUNNABLE, False, w, True)" by (auto simp: tview_def)
  have "\<exists>st args k. s1 = s\<lparr>sc_threads := (sc_threads s)(t \<mapsto> th\<lparr>th_stack := Some st, th_nargs := k, th_args := args\<rparr>)\<rparr>"
    using run c th by (auto simp: FlushThread_def upd_current_def Thread_SetTaskStack_def Thread_SetArgs_def run_elims)
  then show ?thesis using w th c by (auto simp: view_def)
qed

text \<open>The running thread stops with another view; the ready queue follows.\<close>

lemma stop_ok:
  assumes ok: "ok_view (Some t) V T q n" and st: "st \<noteq> BLOCKED"
    and q': "queue_inv q'" "queue_elems q' = queue_elems q @ (if st = RUNNABLE \<and> \<not> b then [BlkW t] else [])"
  shows "ok_view None (V(t \<mapsto> (st, b, w, False))) T q' n"
proof -
  note D = ok_viewD [OF ok]
  obtain x where x: "V t = Some (RUNNABLE, False, x, True)" using D(12) by blast
  have notin: "BlkW t \<notin> set (queue_elems q)" using D(6) by (simp add: mem_ready_of)
  show ?thesis
  proof (rule ok_view_move [OF ok x])
    have "ready_of None (V(t \<mapsto> (st, b, w, False))) = ready_of (Some t) V \<union> (if st = RUNNABLE \<and> \<not> b then {BlkW t} else {})"
      by (auto simp: ready_of_def)
    then show "set (queue_elems q') = ready_of None (V(t \<mapsto> (st, b, w, False)))" using q' D(6) by (auto split: if_splits)
  qed (use st q' D(5) notin in \<open>auto split: if_splits\<close>)
qed

lemma preempt_ok:
  assumes "sched_ok (Some t) s" and "sc_current s = Some t" and "FlushThread s = Some s1" and "ThreadQueue_Enqueue env t s1 = Some s'"
  shows "sched_ok None s'" "queue_elems (sc_queue s') = queue_elems (sc_queue s) @ [BlkW t]"
proof -
  note okv = assms(1) [unfolded sched_ok_def]
  obtain w where w: "tview s1 = (tview s)(t \<mapsto> (RUNNABLE, False, w, False))" "sc_trans s1 = sc_trans s" "sc_queue s1 = sc_queue s" "sc_next s1 = sc_next s"
    using FlushThread_view [OF assms(1-3)] by blast
  obtain q where q: "s' = s1\<lparr>sc_queue := q\<rparr>" "queue_inv q" "queue_elems q = queue_elems (sc_queue s) @ [BlkW t]"
    using enqueue_ready [OF assms(4)] w(3) ok_viewD(4) [OF okv] by auto
  show "sched_ok None s'" using stop_ok [OF okv _ q(2), of RUNNABLE False w] q w by (simp add: sched_ok_def)
  show "queue_elems (sc_queue s') = queue_elems (sc_queue s) @ [BlkW t]" by (simp add: q)
qed

lemma suspend_current_ok:
  assumes "sched_ok (Some t) s" and "sc_current s = Some t" and "FlushThread s = Some s1" and "Thread_Purge env t s1 = Some s2"
    and "upd_thread t Thread_Suspend s2 = Some s'"
  shows "sched_ok None s'"
proof -
  note okv = assms(1) [unfolded sched_ok_def]
  obtain w where w: "tview s1 = (tview s)(t \<mapsto> (RUNNABLE, False, w, False))" "sc_trans s1 = sc_trans s" "sc_queue s1 = sc_queue s" "sc_next s1 = sc_next s"
    using FlushThread_view [OF assms(1-3)] by blast
  have same: "tview s2 = tview s1" "sc_trans s2 = sc_trans s1" "sc_queue s2 = sc_queue s1" "sc_next s1 \<le> sc_next s2"
    using same_Thread_Purge [OF assms(4)] by (auto simp: same_sched_def)
  obtain th where th: "sc_threads s2 t = Some th" "s' = s2\<lparr>sc_threads := (sc_threads s2)(t \<mapsto> Thread_Suspend th)\<rparr>"
    using assms(5) by (auto simp: upd_thread_def run_elims)
  have "view th = (RUNNABLE, False, w, False)" using tview_Some [OF th(1)] same(1) w(1) by simp
  then have "tview s' = (tview s)(t \<mapsto> (RUNNABLE, True, w, False))"
    using same(1) w(1) by (auto simp: th(2) view_def Thread_Suspend_def)
  moreover have "ok_view None ((tview s)(t \<mapsto> (RUNNABLE, True, w, False))) (sc_trans s) (sc_queue s) (sc_next s)"
    by (rule stop_ok [OF okv]) (use ok_viewD(4) [OF okv] in simp_all)
  ultimately show ?thesis using ok_view_next same w by (simp add: sched_ok_def th(2))
qed

lemma terminate_ok:
  assumes "sched_ok (Some t) s" and "sc_current s = Some t" and "FlushThread s = Some s1" and "upd_thread t Thread_SetTerminated s1 = Some s'"
  shows "sched_ok None s'"
proof -
  note okv = assms(1) [unfolded sched_ok_def]
  obtain w where w: "tview s1 = (tview s)(t \<mapsto> (RUNNABLE, False, w, False))" "sc_trans s1 = sc_trans s" "sc_queue s1 = sc_queue s" "sc_next s1 = sc_next s"
    using FlushThread_view [OF assms(1-3)] by blast
  obtain th where th: "sc_threads s1 t = Some th" "s' = s1\<lparr>sc_threads := (sc_threads s1)(t \<mapsto> Thread_SetTerminated th)\<rparr>"
    using assms(4) by (auto simp: upd_thread_def run_elims)
  have "view th = (RUNNABLE, False, w, False)" using tview_Some [OF th(1)] w(1) by simp
  then have "tview s' = (tview s)(t \<mapsto> (TERMINATED, False, IntW 0, False))"
    using w(1) by (auto simp: th(2) view_def Thread_SetTerminated_def Thread_SetState_def Thread_SetArgs_def)
  moreover have "ok_view None ((tview s)(t \<mapsto> (TERMINATED, False, IntW 0, False))) (sc_trans s) (sc_queue s) (sc_next s)"
    by (rule stop_ok [OF okv]) (use ok_viewD(4) [OF okv] in simp_all)
  ultimately show ?thesis using w by (simp add: sched_ok_def th(2))
qed

lemma block_current_ok:
  assumes "sched_ok (Some t) s" and "sc_current s = Some t" and "block_current env f s = Some s'"
  shows "sched_ok None s'"
proof -
  note okv = assms(1) [unfolded sched_ok_def]
  obtain s1 s2 T where s1: "FlushThread s = Some s1" "sc_current s1 = Some t" "Thread_Purge env t s1 = Some s2"
      "AddToWaitQueue (ev_junk env) (BlkW t) f (sc_trans s2) = Some T"
      "upd_thread t (Thread_BlockOn (TrW f)) (s2\<lparr>sc_trans := T\<rparr>) = Some s'"
    using assms(3) FlushThread_view [OF assms(1,2)] by (auto simp: block_current_def run_elims)
  obtain w where w: "tview s1 = (tview s)(t \<mapsto> (RUNNABLE, False, w, False))" "sc_trans s1 = sc_trans s" "sc_queue s1 = sc_queue s" "sc_next s1 = sc_next s"
    using FlushThread_view [OF assms(1,2) s1(1)] by blast
  have same: "tview s2 = tview s1" "sc_trans s2 = sc_trans s1" "sc_queue s2 = sc_queue s1" "sc_next s1 \<le> sc_next s2"
    using same_Thread_Purge [OF s1(3)] by (auto simp: same_sched_def)
  obtain th where th: "sc_threads s2 t = Some th" "s' = s2\<lparr>sc_trans := T, sc_threads := (sc_threads s2)(t \<mapsto> Thread_BlockOn (TrW f) th)\<rparr>"
    using s1(5) by (auto simp: upd_thread_def run_elims)
  have "view th = (RUNNABLE, False, w, False)" using tview_Some [OF th(1)] same(1) w(1) by simp
  then have v: "tview s' = (tview s)(t \<mapsto> (BLOCKED, False, TrW f, False))"
    using same(1) w(1) by (auto simp: th(2) view_def Thread_BlockOn_def Thread_SetState_def)
  obtain wq q0 q where wq: "sc_trans s f = Some (FutureT wq)" and q0: "(case wq of None \<Rightarrow> Queue_New (ev_junk env) initialWaitQueueSize | Some q \<Rightarrow> Some q) = Some q0"
    and q: "Queue_Enqueue (ev_junk env) (BlkW t) q0 = Some q" and T: "T = (sc_trans s)(f \<mapsto> FutureT (Some q))"
    using s1(4) same(2) w(2) by (auto simp: AddToWaitQueue_def run_elims)
  have "queue_inv q0 \<and> queue_elems q0 = (case wq of None \<Rightarrow> [] | Some w \<Rightarrow> queue_elems w)"
  proof (cases wq)
    case None
    then show ?thesis using q0 Queue_New_spec [of initialWaitQueueSize "ev_junk env"] by (auto simp: initialWaitQueueSize_def)
  qed (use q0 wq ok_viewD(7) [OF okv] in auto)
  then have "queue_inv q" "queue_elems q = (case wq of None \<Rightarrow> [] | Some w \<Rightarrow> queue_elems w) @ [BlkW t]"
    using enqueue_done [OF _ q] by auto
  then have "ok_view None ((tview s)(t \<mapsto> (BLOCKED, False, TrW f, False))) T (sc_queue s) (sc_next s)"
    unfolding T by (rule ok_view_block [OF okv wq])
  then show ?thesis using ok_view_next same w v by (simp add: sched_ok_def th(2))
qed

section \<open>Workers\<close>

text \<open>The invariant of the machine: in the modes in which a thread runs it is the current one.\<close>

definition mode_ok :: "run_mode \<times> sched \<Rightarrow> bool" where
  "mode_ok ms \<longleftrightarrow> (case ms of (m, s) \<Rightarrow>
     (case m of Running \<Rightarrow> sc_current s \<noteq> None \<and> sched_ok (sc_current s) s
      | Interpret r \<Rightarrow> sc_current s \<noteq> None \<and> sched_ok (sc_current s) s
      | Exited i \<Rightarrow> sched_ok (sc_current s) s
      | _ \<Rightarrow> sched_ok None s))"


text \<open>The states the machine reaches.\<close>

inductive sched_reach :: "senv \<Rightarrow> run_mode \<times> sched \<Rightarrow> run_mode \<times> sched \<Rightarrow> bool" for env a where
  here: "sched_reach env a a"
| step: "sched_reach env a (m, s) \<Longrightarrow> sched_step env (m, s) = Some c \<Longrightarrow> sched_reach env a c"

inductive_cases sched_reachE: "sched_reach env a b"

text \<open>
  What the scheduler relies on from the workers it does not know, from the interpreters that enter a closure and from
  the input and output between two time slices: they change the scheduler through its operations only, so they keep
  the invariant and do not change the running thread.
\<close>

locale scheduler_client =
  fixes env :: senv
  assumes run_keeps: "sched_ok (Some t) s \<Longrightarrow> sc_current s = Some t \<Longrightarrow> ev_run env w s = Some (r, s') \<Longrightarrow> keeps (Some t) s s'"
    and handle_keeps: "sched_ok (Some t) s \<Longrightarrow> sc_current s = Some t \<Longrightarrow> ev_handle env w d p s = Some (r, s') \<Longrightarrow> keeps (Some t) s s'"
    and enter_keeps: "sched_ok (Some t) s \<Longrightarrow> sc_current s = Some t \<Longrightarrow> ev_enter env c s = Some (Some s') \<Longrightarrow> keeps (Some t) s s'"
    and poll_keeps: "sched_ok None s \<Longrightarrow> ev_poll env s = Some s' \<Longrightarrow> sched_ok None s'"
    and block_keeps: "sched_ok None s \<Longrightarrow> ev_block env s = Some s' \<Longrightarrow> sched_ok None s'"
begin

lemma request_call_keeps:
  assumes "sched_ok r s" and "request_call env c a s = Some (res, s')"
  shows "keeps r s s'"
proof -
  have "same_sched s s'"
    using assms(2) by (auto simp: request_call_def run_elims split: option.split_asm) (erule same_new_frame)
  then show ?thesis using assms(1) keeps_same by blast
qed

lemma PushCall_keeps:
  assumes ok: "sched_ok (Some t) s" "sc_current s = Some t" and run: "PushCall env c s = Some (res, s')"
  shows "keeps (Some t) s s'"
proof -
  obtain tr where tr: "WordToTransient (sc_trans s) c = Some tr" using run by (auto simp: PushCall_def run_elims)
  show ?thesis
  proof (cases tr)
    case (Some a)
    then show ?thesis using run tr request_call_keeps [OF ok(1)] by (auto simp: PushCall_def run_elims)
  next
    case None
    then obtain cl l ws code tr' where c: "WordToTransient (sc_trans s) code = Some tr'" and
      go: "(case tr' of Some a \<Rightarrow> request_call env c a s
        | None \<Rightarrow> do { r \<leftarrow> ev_enter env cl s; case r of None \<Rightarrow> Some (OVERFLOW, s)
             | Some s1 \<Rightarrow> Some (if ev_status env s1 then PREEMPT else CONTINUE, s1) }) = Some (res, s')"
      using run tr by (auto simp: PushCall_def run_elims)
    show ?thesis
    proof (cases tr')
      case (Some a)
      then show ?thesis using go request_call_keeps [OF ok(1)] by auto
    next
      case None
      then obtain r where r: "ev_enter env cl s = Some r" using go by (auto simp: run_elims)
      show ?thesis
      proof (cases r)
        case (Some s1)
        then show ?thesis using go None r enter_keeps [OF ok, of cl s1] by auto
      qed (use go None r ok in \<open>auto simp: keeps_def\<close>)
    qed
  qed
qed

lemma BindFuture_Run_keeps:
  assumes ok: "sched_ok r s" and run: "BindFuture_Run env s = Some (res, s')"
  shows "keeps r s s'"
proof -
  obtain s1 future s2 s3 s4 arg tr where s: "Sched_PopHandler s = Some s1" "Sched_PopFrame 2 s1 = Some s2"
      "ScheduleWaitingThreads env future s2 = Some s3" "Construct s3 = Some s4" "WordToTransient (sc_trans s4) arg = Some tr"
    and go: "(if tr = Some future then do {
       (p, s5) \<leftarrow> new_package env (ev_cyclicExn env) s4;
       s6 \<leftarrow> become future CancelledT (BlkW p) s5;
       Assert (sc_nArgs s6 = 1);
       s7 \<leftarrow> SetCurrentArg 0 (TrW future) s6;
       Some (CONTINUE, s7)
     } else do {
       s5 \<leftarrow> become future RefT arg s4;
       Assert (sc_nArgs s5 = 1);
       Some (CONTINUE, s5) }) = Some (res, s')"
    using run by (auto simp: BindFuture_Run_def run_elims)
  have "same_sched s s2" using s(1,2) same_Sched_PopHandler same_Sched_PopFrame same_sched_trans by blast
  then have k2: "keeps r s s2" using ok keeps_same by blast
  note W = ScheduleWaitingThreads_ok [OF keeps_ok [OF k2] s(3)]
  have k4: "keeps r s3 s4" "tview s4 = tview s3"
    using keeps_same [OF keeps_ok [OF W(1)]] same_Construct [OF s(4)] by (auto simp: same_sched_def)
  have k: "keeps r s s4" using k2 W(1) k4(1) keeps_trans by blast
  have none: "waiting_of future (tview s4) = {}" using W(2) k4(2) by simp
  show ?thesis
  proof (cases "tr = Some future")
    case True
    then obtain p s5 s6 where s5: "new_package env (ev_cyclicExn env) s4 = Some (p, s5)" "become future CancelledT (BlkW p) s5 = Some s6"
        "SetCurrentArg 0 (TrW future) s6 = Some s'" using go by (auto simp: run_elims)
    have same: "same_sched s4 s5" by (rule same_new_package [OF s5(1)])
    have k5: "keeps r s4 s5" by (rule keeps_same [OF keeps_ok [OF k] same])
    have "waiting_of future (tview s5) = {}" using none same by (simp add: same_sched_def)
    then have k6: "keeps r s5 s6" using become_ok [OF keeps_ok [OF k5] _ s5(2)] by simp
    have "keeps r s6 s'" by (rule keeps_same [OF keeps_ok [OF k6] same_SetCurrentArg [OF s5(3)]])
    then show ?thesis using k k5 k6 keeps_trans by blast
  next
    case False
    then have "become future RefT arg s4 = Some s'" using go by (auto simp: run_elims)
    then have "keeps r s4 s'" using become_ok [OF keeps_ok [OF k] none] by simp
    then show ?thesis using k keeps_trans by blast
  qed
qed

lemma BindFuture_Handle_keeps:
  assumes ok: "sched_ok r s" and run: "BindFuture_Handle p env s = Some (res, s')"
  shows "keeps r s s'"
proof -
  obtain future s1 s2 s3 s4 where s: "Sched_PopFrame 2 s = Some s1" "ScheduleWaitingThreads env future s1 = Some s2"
      "become future CancelledT p s2 = Some s3" "SetNArgs 1 s3 = Some s4" "SetCurrentArg 0 (TrW future) s4 = Some s'"
    using run by (auto simp: BindFuture_Handle_def run_elims)
  have k1: "keeps r s s1" by (rule keeps_same [OF ok same_Sched_PopFrame [OF s(1)]])
  note W = ScheduleWaitingThreads_ok [OF keeps_ok [OF k1] s(2)]
  have k3: "keeps r s2 s3" using become_ok [OF keeps_ok [OF W(1)] W(2) s(3)] by simp
  have "same_sched s3 s'" using same_SetNArgs [OF s(4)] same_SetCurrentArg [OF s(5)] same_sched_trans by blast
  then have "keeps r s3 s'" using keeps_same keeps_ok [OF k3] by blast
  then show ?thesis using k1 W(1) k3 keeps_trans by blast
qed

lemma worker_run_keeps:
  assumes ok: "sched_ok (Some t) s" "sc_current s = Some t" and run: "worker_run env w s = Some (res, s')"
  shows "keeps (Some t) s s'"
proof -
  have E: "keeps (Some t) s s'" if "EmptyTask_Run s = Some (res, s')"
    using that keeps_same [OF ok(1)] same_SetNArgs by (auto simp: EmptyTask_Run_def run_elims)
  have P: "keeps (Some t) s s'" if pc: "PushCall_Run env s = Some (res, s')"
  proof -
    obtain c s1 where s1: "Sched_PopFrame 2 s = Some s1" "PushCall env c s1 = Some (res, s')"
      using pc by (auto simp: PushCall_Run_def run_elims)
    have k: "keeps (Some t) s s1" by (rule keeps_same [OF ok(1) same_Sched_PopFrame [OF s1(1)]])
    then have "keeps (Some t) s1 s'" using PushCall_keeps [OF keeps_ok keeps_current [OF _ ok(2)] s1(2)] by blast
    then show ?thesis using k keeps_trans by blast
  qed
  have U: "keeps (Some t) s s'" if un: "UncaughtException_Run env s = Some (res, s')"
  proof -
    obtain h where h: "Frame_GetArg (sc_top s) 2 (sc_stack s) = Some h" using un
      by (cases "Frame_GetArg (sc_top s) 2 (sc_stack s)") (auto simp: UncaughtException_Run_def)
    show ?thesis
    proof (cases "h = IntW 0")
      case True
      then obtain s1 s2 where "Sched_PopFrame 4 s = Some s1" "Sched_PopHandler s1 = Some s2" "s' = s2\<lparr>sc_data := IntW 1\<rparr>"
        using un h by (auto simp: UncaughtException_Run_def run_elims)
      then have "same_sched s s'" using same_Sched_PopFrame same_Sched_PopHandler same_sched_trans by fastforce
      then show ?thesis using keeps_same ok(1) by blast
    next
      case False
      then obtain st s1 exn s2 bt s3 closure where "SetNArgs 2 (s\<lparr>sc_stack := st\<rparr>) = Some s1" "SetCurrentArg 0 exn s1 = Some s2"
          "SetCurrentArg 1 bt s2 = Some s3" and go: "PushCall env closure s3 = Some (res, s')"
        using un h by (auto simp: UncaughtException_Run_def run_elims)
      then have "same_sched (s\<lparr>sc_stack := st\<rparr>) s3" using same_SetNArgs same_SetCurrentArg same_sched_trans by metis
      then have k: "keeps (Some t) s s3" using keeps_same ok(1) by simp
      then have "keeps (Some t) s3 s'" using PushCall_keeps [OF keeps_ok keeps_current [OF _ ok(2)] go] by blast
      then show ?thesis using k keeps_trans by blast
    qed
  qed
  show ?thesis using run E P U BindFuture_Run_keeps [OF ok(1)] run_keeps [OF ok] by (auto simp: worker_run_def split: if_splits)
qed

lemma worker_handle_keeps:
  assumes ok: "sched_ok (Some t) s" "sc_current s = Some t" and run: "worker_handle env w d p s = Some (res, s')"
  shows "keeps (Some t) s s'"
proof -
  have E: "keeps (Some t) s s'" if he: "EmptyTask_Handle env s = Some (res, s')"
  proof (cases "sc_uncaught s = IntW 0")
    case True
    then have "same_sched s s'" using he by (auto simp: EmptyTask_Handle_def)
    then show ?thesis using keeps_same ok(1) by blast
  next
    case False
    then obtain r where r: "UncaughtException_PushFrame env (sc_data s) (BlkW (sc_backtrace s)) (sc_uncaught s) s = Some r"
      "(case r of None \<Rightarrow> Some (OVERFLOW, s) | Some s1 \<Rightarrow> do { s2 \<leftarrow> SetNArgs 0 s1; Some (CONTINUE, s2) }) = Some (res, s')"
      using he by (auto simp: EmptyTask_Handle_def run_elims)
    have "same_sched s s'"
    proof (cases r)
      case (Some s1)
      then have "same_sched s s1" "same_sched s1 s'"
        using r same_UncaughtException_PushFrame same_SetNArgs by (auto simp: run_elims)
      then show ?thesis using same_sched_trans by blast
    qed (use r in auto)
    then show ?thesis using keeps_same ok(1) by blast
  qed
  have U: "keeps (Some t) s s'" if "UncaughtException_Handle env s = Some (res, s')"
  proof -
    have "same_sched s s'" using that same_Sched_PushHandler same_SetNArgs same_sched_trans
      by (auto simp: UncaughtException_Handle_def run_elims) blast
    then show ?thesis using keeps_same ok(1) by blast
  qed
  have "keeps (Some t) s s" using ok(1) by (simp add: keeps_def)
  then show ?thesis using run E U BindFuture_Handle_keeps [OF ok(1)] handle_keeps [OF ok]
    by (auto simp: worker_handle_def split: if_splits)
qed

lemma DoRaise_keeps:
  assumes ok: "sched_ok (Some t) s" "sc_current s = Some t" and run: "DoRaise env b s = Some (res, s')"
  shows "keeps (Some t) s s'"
proof -
  define s1 where "s1 = snd (new_block TUPLE_LABEL [sc_data s, BlkW (sc_backtrace s)] s)"
  define p where "p = fst (new_block TUPLE_LABEL [sc_data s, BlkW (sc_backtrace s)] s)"
  have nb: "new_block TUPLE_LABEL [sc_data s, BlkW (sc_backtrace s)] s = (p, s1)" by (simp add: s1_def p_def)
  have s1: "same_sched s s1" by (simp add: s1_def)
  have c1: "sc_current s1 = Some t" using s1 ok(2) by (simp add: same_sched_def)
  obtain th hd d h s3 w where th: "sc_threads s1 t = Some th"
    and un: "unroll env b (sc_top (s1\<lparr>sc_threads := (sc_threads s1)(t \<mapsto> th\<lparr>th_handlers := h\<rparr>)\<rparr>)) hd
        (s1\<lparr>sc_threads := (sc_threads s1)(t \<mapsto> th\<lparr>th_handlers := h\<rparr>)\<rparr>) = Some s3"
    and go: "worker_handle env w d (BlkW p) s3 = Some (res, s')"
    using run c1 by (auto simp: DoRaise_def nb run_elims Let_def)
  have "same_sched s1 (s1\<lparr>sc_threads := (sc_threads s1)(t \<mapsto> th\<lparr>th_handlers := h\<rparr>)\<rparr>)"
    by (rule same_thread_data [OF th]) (simp add: view_def)
  then have "same_sched s s3" using s1 same_unroll [OF un] same_sched_trans by blast
  then have k: "keeps (Some t) s s3" using keeps_same ok(1) by blast
  then have "keeps (Some t) s3 s'" using worker_handle_keeps [OF keeps_ok keeps_current [OF _ ok(2)] go] by blast
  then show ?thesis using k keeps_trans by blast
qed

section \<open>Steps of the main loop\<close>

lemma raise_new_keeps:
  assumes ok: "sched_ok (Some t) s" "sc_current s = Some t" and b: "Backtrace_New env (s\<lparr>sc_data := w\<rparr>) = Some (b, s1)"
    and run: "DoRaise env False (s1\<lparr>sc_backtrace := b\<rparr>) = Some (res, s')"
  shows "keeps (Some t) s s'"
proof -
  have "same_sched s (s1\<lparr>sc_backtrace := b\<rparr>)" using same_Backtrace_New [OF b] by simp
  then have k: "keeps (Some t) s (s1\<lparr>sc_backtrace := b\<rparr>)" using keeps_same ok(1) by blast
  have "keeps (Some t) (s1\<lparr>sc_backtrace := b\<rparr>) s'" by (rule DoRaise_keeps [OF keeps_ok [OF k] keeps_current [OF k ok(2)] run])
  then show ?thesis using k keeps_trans by blast
qed

lemma cancelled_keeps:
  assumes ok: "sched_ok (Some t) s" "sc_current s = Some t" and b: "Backtrace_Clone env b0 (s\<lparr>sc_data := w\<rparr>) = Some (b, s1)"
    and run: "DoRaise env False (s1\<lparr>sc_backtrace := b\<rparr>) = Some (res, s')"
  shows "keeps (Some t) s s'"
proof -
  have "same_sched s (s1\<lparr>sc_backtrace := b\<rparr>)" using same_Backtrace_Clone [OF b] by simp
  then have k: "keeps (Some t) s (s1\<lparr>sc_backtrace := b\<rparr>)" using keeps_same ok(1) by blast
  have "keeps (Some t) (s1\<lparr>sc_backtrace := b\<rparr>) s'" by (rule DoRaise_keeps [OF keeps_ok [OF k] keeps_current [OF k ok(2)] run])
  then show ?thesis using k keeps_trans by blast
qed

lemma byneed_ok:
  assumes ok: "sched_ok (Some t) s" "sc_current s = Some t" and a: "sc_trans s a = Some (ByneedT c)"
    and run: "NewThread env 0 (ArgW (IntW 0)) s = Some (t', s1)" "BindFuture_PushFrame env t' a s1 = Some (Some s2)"
      "PushCall_PushFrame env t' c s2 = Some (Some s3)" "Become_future (sc_trans s3) a = Some T"
      "block_current env a (s3\<lparr>sc_trans := T\<rparr>) = Some s'"
  shows "sched_ok None s'"
proof -
  note N = NewThread_ok [OF ok(1) run(1)]
  have same: "same_sched s1 s3"
    using same_BindFuture_PushFrame [OF run(2)] same_PushCall_PushFrame [OF run(3)] same_sched_trans by blast
  have k3: "keeps (Some t) s s3" using N(1) keeps_same [OF keeps_ok [OF N(1)] same] keeps_trans by blast
  note okv = keeps_ok [OF k3, unfolded sched_ok_def]
  have a3: "sc_trans s3 a = Some (ByneedT c)" using same N(2) a by (simp add: same_sched_def)
  have T: "T = (sc_trans s3)(a \<mapsto> FutureT None)" using run(4) by (auto simp: Become_future_def run_elims)
  have none: "waiting_of a (tview s3) = {}" using ok_viewD(10) [OF okv] a3 by (fastforce simp: waiting_of_def)
  have "ok_view (Some t) (tview s3) T (sc_queue s3) (sc_next s3)"
    unfolding T by (rule ok_view_trans [OF okv ok_viewD(2) [OF okv a3] le_refl none])
      (simp_all add: refs_ok_update [OF ok_viewD(3) [OF okv]])
  then have "sched_ok (Some t) (s3\<lparr>sc_trans := T\<rparr>)" by (simp add: sched_ok_def)
  then show ?thesis using block_current_ok [OF _ _ run(5)] keeps_current [OF k3 ok(2)] by simp
qed

lemma mode_ok_run: "keeps (Some t) s s' \<Longrightarrow> sc_current s = Some t \<Longrightarrow> mode_ok (Interpret r, s') \<and> mode_ok (Running, s') \<and> mode_ok (Exited i, s')"
  by (simp add: mode_ok_def keeps_def)

lemma interpret_request_ok:
  assumes ok: "sched_ok (Some t) s" "sc_current s = Some t" and run: "interpret_request env s = Some ms"
  shows "mode_ok ms"
proof -
  obtain a tr where a: "WordToTransient (sc_trans s) (sc_data s) = Some (Some a)" "sc_trans s a = Some tr"
    using run by (auto simp: interpret_request_def run_elims)
  show ?thesis
  proof (cases tr)
    case (HoleT x)
    then obtain b s1 r s2 where "Backtrace_New env (s\<lparr>sc_data := ev_holeExn env\<rparr>) = Some (b, s1)"
        "DoRaise env False (s1\<lparr>sc_backtrace := b\<rparr>) = Some (r, s2)" "ms = (Interpret r, s2)"
      using run a by (auto simp: interpret_request_def run_elims)
    then show ?thesis using raise_new_keeps [OF ok] mode_ok_run ok(2) by blast
  next
    case (FutureT x)
    then obtain s1 where "block_current env a s = Some s1" "ms = (SliceEnd, s1)"
      using run a by (auto simp: interpret_request_def run_elims)
    then show ?thesis using block_current_ok [OF ok] by (simp add: mode_ok_def)
  next
    case (CancelledT x)
    then obtain e b0 b s1 r s2 where "Backtrace_Clone env b0 (s\<lparr>sc_data := e\<rparr>) = Some (b, s1)"
        "DoRaise env False (s1\<lparr>sc_backtrace := b\<rparr>) = Some (r, s2)" "ms = (Interpret r, s2)"
      using run a by (auto simp: interpret_request_def run_elims)
    then show ?thesis using cancelled_keeps [OF ok] mode_ok_run ok(2) by blast
  next
    case (ByneedT c)
    then obtain t' s1 s2 s3 T s4 where "NewThread env 0 (ArgW (IntW 0)) s = Some (t', s1)" "BindFuture_PushFrame env t' a s1 = Some (Some s2)"
        "PushCall_PushFrame env t' c s2 = Some (Some s3)" "Become_future (sc_trans s3) a = Some T"
        "block_current env a (s3\<lparr>sc_trans := T\<rparr>) = Some s4" "ms = (SliceEnd, s4)"
      using run a by (auto simp: interpret_request_def run_elims)
    then show ?thesis using byneed_ok [OF ok a(2) [unfolded ByneedT]] by (simp add: mode_ok_def)
  qed (use run a in \<open>simp add: interpret_request_def\<close>)
qed

lemma interpret_result_ok:
  assumes ok: "sched_ok (Some t) s" "sc_current s = Some t" and run: "interpret_result env r s = Some ms"
  shows "mode_ok ms"
proof (cases r)
  case CONTINUE
  then show ?thesis using run ok by (auto simp: interpret_result_def run_elims mode_ok_def)
next
  case PREEMPT
  then obtain s1 t' s2 where s: "FlushThread s = Some s1" "sc_current s1 = Some t'" "ThreadQueue_Enqueue env t' s1 = Some s2" "ms = (SliceEnd, s2)"
    using run by (auto simp: interpret_result_def run_elims)
  then have "t' = t" using FlushThread_view [OF ok s(1)] by auto
  then show ?thesis using preempt_ok(1) [OF ok s(1)] s(3,4) by (simp add: mode_ok_def)
next
  case SUSPEND
  then obtain s1 t' s2 s3 where s: "FlushThread s = Some s1" "sc_current s1 = Some t'" "Thread_Purge env t' s1 = Some s2"
      "upd_thread t' Thread_Suspend s2 = Some s3" "ms = (SliceEnd, s3)"
    using run by (auto simp: interpret_result_def run_elims)
  then have "t' = t" using FlushThread_view [OF ok s(1)] by auto
  then show ?thesis using suspend_current_ok [OF ok s(1)] s(3,4,5) by (simp add: mode_ok_def)
next
  case TERMINATE
  then obtain s1 t' s2 where s: "FlushThread s = Some s1" "sc_current s1 = Some t'" "upd_thread t' Thread_SetTerminated s1 = Some s2" "ms = (SliceEnd, s2)"
    using run by (auto simp: interpret_result_def run_elims)
  then have "t' = t" using FlushThread_view [OF ok s(1)] by auto
  then show ?thesis using terminate_ok [OF ok s(1)] s(3,4) by (simp add: mode_ok_def)
next
  case OVERFLOW
  then obtain b s1 res s2 where "Backtrace_New env (s\<lparr>sc_data := ev_stackError env\<rparr>) = Some (b, s1)"
      "DoRaise env False (s1\<lparr>sc_backtrace := b\<rparr>) = Some (res, s2)" "ms = (Interpret res, s2)"
    using run by (auto simp: interpret_result_def run_elims)
  then show ?thesis using raise_new_keeps [OF ok] mode_ok_run ok(2) by blast
next
  case EXIT
  then show ?thesis using run ok by (auto simp: interpret_result_def mode_ok_def split: store_word.splits)
next
  case REQUEST
  then show ?thesis using run interpret_request_ok [OF ok] by (simp add: interpret_result_def)
next
  case RAISE
  then obtain res s1 where "DoRaise env False s = Some (res, s1)" "ms = (Interpret res, s1)"
    using run by (auto simp: interpret_result_def run_elims)
  then show ?thesis using DoRaise_keeps [OF ok] mode_ok_run ok(2) by blast
next
  case RERAISE
  then obtain res s1 where "DoRaise env True s = Some (res, s1)" "ms = (Interpret res, s1)"
    using run by (auto simp: interpret_result_def run_elims)
  then show ?thesis using DoRaise_keeps [OF ok] mode_ok_run ok(2) by blast
qed

lemma purge_queue_ok:
  assumes "sched_ok r s" and "ThreadQueue_Purge env s = Some s'"
  shows "sched_ok r s'"
proof -
  note okv = assms(1) [unfolded sched_ok_def]
  have same: "same_sched s0 s1" if "purge_from env i s0 = Some s1" for i s0 s1
    using that by (induction i arbitrary: s0) (auto simp: run_elims dest!: same_Thread_Purge intro: same_sched_trans)
  obtain q where q: "Queue_Blank (sc_queue s) = Some q" "purge_from env (Queue_GetNumberOfElements q) (s\<lparr>sc_queue := q\<rparr>) = Some s'"
    using assms(2) by (auto simp: ThreadQueue_Purge_def run_elims)
  have "queue_inv q \<and> queue_elems q = queue_elems (sc_queue s)"
    using blank_done [OF ok_viewD(4) [OF okv] q(1)] .
  then have "ok_view r (tview s) (sc_trans s) q (sc_next s)" using okv by (auto simp: ok_view_def)
  then have "sched_ok r (s\<lparr>sc_queue := q\<rparr>)" by (simp add: sched_ok_def)
  then show ?thesis using sched_ok_same same [OF q(2)] by blast
qed

lemma step_ok:
  assumes ok: "mode_ok (m, s)" and run: "sched_step env (m, s) = Some ms"
  shows "mode_ok ms"
proof (cases m)
  case Dispatch
  then have ok0: "sched_ok None s" using ok by (simp add: mode_ok_def)
  obtain c s1 where c: "ThreadQueue_Dequeue s = Some (c, s1)" using run Dispatch by (auto simp: sched_step_def run_elims)
  show ?thesis
  proof (cases c)
    case None
    then have "s1 = s" using c by (auto simp: ThreadQueue_Dequeue_def run_elims split: if_splits)
    then show ?thesis using run Dispatch c None ok0 by (auto simp: sched_step_def mode_ok_def sched_ok_def)
  next
    case (Some t)
    then obtain s3 where "SwitchToThread (s1\<lparr>sc_current := Some t\<rparr>) = Some s3" "ms = (Running, s3)"
      using run Dispatch c by (auto simp: sched_step_def run_elims)
    then show ?thesis using dispatch_ok(1,2) [OF ok0 c [unfolded Some]] by (simp add: mode_ok_def)
  qed
next
  case Running
  then obtain t where t: "sched_ok (Some t) s" "sc_current s = Some t" using ok by (auto simp: mode_ok_def)
  obtain w r s1 where "worker_run env w s = Some (r, s1)" "ms = (Interpret r, s1)"
    using run Running by (auto simp: sched_step_def run_elims)
  then show ?thesis using worker_run_keeps [OF t] mode_ok_run t(2) by blast
next
  case (Interpret r)
  then obtain t where "sched_ok (Some t) s" "sc_current s = Some t" using ok by (auto simp: mode_ok_def)
  then show ?thesis using run Interpret interpret_result_ok by (simp add: sched_step_def)
next
  case SliceEnd
  then obtain s1 s2 where s: "(if ev_needGC env s then ThreadQueue_Purge env s else Some s) = Some s1" "ev_poll env s1 = Some s2" "ms = (Dispatch, s2)"
    using run by (auto simp: sched_step_def run_elims)
  have "sched_ok None s1" using s(1) ok SliceEnd purge_queue_ok by (auto simp: mode_ok_def split: if_splits)
  then show ?thesis using poll_keeps s(2,3) by (simp add: mode_ok_def)
next
  case Idle
  then show ?thesis using run ok block_keeps by (auto simp: sched_step_def run_elims mode_ok_def)
next
  case (Exited i)
  then show ?thesis using run ok by (simp add: sched_step_def)
qed

lemma reach_ok:
  assumes "sched_reach env a b" and "mode_ok a"
  shows "mode_ok b"
  using assms by (induction rule: sched_reach.induct) (auto intro: step_ok)

end

end
