(* ===== verification/Thread_Prims.thy ===== *)
theory Thread_Prims
  imports Scheduler_Ops
begin

text \<open>
  The primitives for concurrency (\<^verbatim>\<open>alice/vm-seam/alice/primitives/Thread.cc\<close>, \<^verbatim>\<open>Future.cc\<close>, \<^verbatim>\<open>Hole.cc\<close>, \<^verbatim>\<open>Promise.cc\<close>,
  \<^verbatim>\<open>Ref.cc\<close>, parts of \<^verbatim>\<open>Exn.cc\<close>; \<^verbatim>\<open>Promise\<close> and \<^verbatim>\<open>Cell\<close> of \<^verbatim>\<open>Data.hh\<close>), the macros they are written with
  (\<^verbatim>\<open>seam/generic/Authoring.hh\<close>) and the interpreter that runs them (\<^verbatim>\<open>seam/generic/Primitive.cc\<close>).

  A primitive gets the environment and the state in which its frame is on the stack. The environment of the machine
  that runs them, \<open>prim_env\<close>, interprets the locale of the scheduler's clients.
\<close>

section \<open>The macros\<close>

definition POP_PRIM_SELF :: "nat \<Rightarrow> sched \<Rightarrow> (store_word \<times> sched) option" where
  "POP_PRIM_SELF n s = do {
     Assert (sc_nArgs s = n);
     self \<leftarrow> Frame_GetWorker (sc_top s) (sc_stack s);
     s1 \<leftarrow> Sched_PopFrame 1 s;
     Some (self, s1) }"

definition RETURN0 :: "sched \<Rightarrow> (worker_result \<times> sched) option" where
  "RETURN0 s = do { s1 \<leftarrow> SetNArgs 0 s; Some (CONTINUE, s1) }"

definition RETURN1 :: "store_word \<Rightarrow> sched \<Rightarrow> (worker_result \<times> sched) option" where
  "RETURN1 w s = do { s1 \<leftarrow> SetNArgs 1 s; s2 \<leftarrow> SetCurrentArg 0 w s1; Some (CONTINUE, s2) }"

definition RETURN_BOOL :: "bool \<Rightarrow> sched \<Rightarrow> (worker_result \<times> sched) option" where
  "RETURN_BOOL b s = RETURN1 (IntW (if b then 1 else 0)) s"

definition prim_RAISE :: "senv \<Rightarrow> store_word \<Rightarrow> store_word \<Rightarrow> sched \<Rightarrow> (worker_result \<times> sched) option" where
  "prim_RAISE env self w s = do {
     r \<leftarrow> new_frame env self [] s;
     case r of None \<Rightarrow> Some (OVERFLOW, s)
     | Some s1 \<Rightarrow> do {
         (b, s2) \<leftarrow> Backtrace_New env (s1\<lparr>sc_data := w\<rparr>);
         Some (RAISE, s2\<lparr>sc_backtrace := b\<rparr>) } }"

definition prim_REQUEST :: "senv \<Rightarrow> store_word \<Rightarrow> store_word \<Rightarrow> sched \<Rightarrow> (worker_result \<times> sched) option" where
  "prim_REQUEST env self w s = do {
     t \<leftarrow> WordToTransient (sc_trans s) w;
     Assert (t \<noteq> None);
     let s1 = s\<lparr>sc_data := w\<rparr>;
     r \<leftarrow> new_frame env self [] s1;
     case r of None \<Rightarrow> Some (OVERFLOW, s1)
     | Some s2 \<Rightarrow> Some (REQUEST, s2) }"

text \<open>\<^verbatim>\<open>DECLARE_BLOCKTYPE\<close> for threads and for blocks with a label.\<close>

definition DECLARE_THREAD :: "senv \<Rightarrow> store_word \<Rightarrow> store_word \<Rightarrow> sched \<Rightarrow> (addr \<Rightarrow> (worker_result \<times> sched) option) \<Rightarrow> (worker_result \<times> sched) option" where
  "DECLARE_THREAD env self x s k = do {
     b \<leftarrow> WordToBlock (sc_trans s) x;
     case b of None \<Rightarrow> prim_REQUEST env self x s
     | Some t \<Rightarrow> do { Assert (sc_threads s t \<noteq> None); k t } }"

definition DECLARE_BLOCK :: "block_label \<Rightarrow> senv \<Rightarrow> store_word \<Rightarrow> store_word \<Rightarrow> sched \<Rightarrow> (addr \<Rightarrow> (worker_result \<times> sched) option) \<Rightarrow> (worker_result \<times> sched) option" where
  "DECLARE_BLOCK lbl env self x s k = do {
     b \<leftarrow> WordToBlock (sc_trans s) x;
     case b of None \<Rightarrow> prim_REQUEST env self x s
     | Some a \<Rightarrow> do { (l, ws) \<leftarrow> sc_blocks s a; Assert (l = lbl); k a } }"

text \<open>Arguments of labelled blocks.\<close>

definition block_get :: "addr \<Rightarrow> nat \<Rightarrow> sched \<Rightarrow> store_word option" where
  "block_get a i s = do { (l, ws) \<leftarrow> sc_blocks s a; Block_GetArg ws i }"

definition block_set :: "addr \<Rightarrow> nat \<Rightarrow> store_word \<Rightarrow> sched \<Rightarrow> sched option" where
  "block_set a i w s = do {
     (l, ws) \<leftarrow> sc_blocks s a;
     ws' \<leftarrow> Block_SetArg ws i w;
     Some (s\<lparr>sc_blocks := (sc_blocks s)(a \<mapsto> (l, ws'))\<rparr>) }"

section \<open>Threads\<close>

definition Raise_PushFrame :: "senv \<Rightarrow> store_word \<Rightarrow> addr \<Rightarrow> store_word \<Rightarrow> sched \<Rightarrow> sched option option" where
  "Raise_PushFrame env raiseWorker t exn s = do {
     th \<leftarrow> sc_threads s t;
     r \<leftarrow> new_thread_frame (ev_junk env) (ev_emptyTask env) raiseWorker exn th;
     case r of None \<Rightarrow> Some None
     | Some th' \<Rightarrow> Some (Some (s\<lparr>sc_threads := (sc_threads s)(t \<mapsto> th')\<rparr>)) }"

definition Raise_Run :: "senv \<Rightarrow> sched \<Rightarrow> (worker_result \<times> sched) option" where
  "Raise_Run env s = do {
     exn \<leftarrow> Frame_GetArg (sc_top s) 0 (sc_stack s);
     (b, s1) \<leftarrow> Backtrace_New env (s\<lparr>sc_data := exn\<rparr>);
     Some (RAISE, s1\<lparr>sc_backtrace := b\<rparr>) }"

definition Thread_current :: "sched \<Rightarrow> (worker_result \<times> sched) option" where
  "Thread_current s = do {
     (self, s1) \<leftarrow> POP_PRIM_SELF 0 s;
     t \<leftarrow> sc_current s1;
     RETURN1 (BlkW t) s1 }"

definition Thread_isSuspended :: "senv \<Rightarrow> sched \<Rightarrow> (worker_result \<times> sched) option" where
  "Thread_isSuspended env s = do {
     (self, s1) \<leftarrow> POP_PRIM_SELF 1 s;
     x0 \<leftarrow> GetCurrentArg 0 s1;
     DECLARE_THREAD env self x0 s1 (\<lambda>t. do {
       th \<leftarrow> sc_threads s1 t;
       RETURN_BOOL (th_suspended th) s1 }) }"

definition Thread_raiseIn :: "senv \<Rightarrow> store_word \<Rightarrow> store_word \<Rightarrow> sched \<Rightarrow> (worker_result \<times> sched) option" where
  "Thread_raiseIn env raiseWorker terminatedExn s = do {
     (self, s1) \<leftarrow> POP_PRIM_SELF 2 s;
     x0 \<leftarrow> GetCurrentArg 0 s1;
     x1 \<leftarrow> GetCurrentArg 1 s1;
     DECLARE_THREAD env self x0 s1 (\<lambda>t. do {
       tr \<leftarrow> WordToTransient (sc_trans s1) x1;
       case tr of Some a \<Rightarrow> prim_REQUEST env self (TrW a) s1
       | None \<Rightarrow>
         if sc_current s1 = Some t then prim_RAISE env self x1 s1
         else do {
           th \<leftarrow> sc_threads s1 t;
           if th_state th = TERMINATED then prim_RAISE env self terminatedExn s1
           else do {
             r \<leftarrow> Raise_PushFrame env raiseWorker t x1 s1;
             case r of None \<Rightarrow> Some (OVERFLOW, s1)
             | Some s2 \<Rightarrow> do {
                 s3 \<leftarrow> upd_thread t (Thread_SetArgs 0 (ArgW (IntW 0))) s2;
                 if th_state th = BLOCKED then do {
                   fw \<leftarrow> WordToTransient (sc_trans s3) (th_future th);
                   f \<leftarrow> fw;
                   T \<leftarrow> RemoveFromWaitQueue (BlkW t) f (sc_trans s3);
                   s4 \<leftarrow> WakeupThread env t (s3\<lparr>sc_trans := T\<rparr>);
                   RETURN1 (IntW 0) s4
                 } else RETURN1 (IntW 0) s3 } } } }) }"

definition Thread_resume :: "senv \<Rightarrow> sched \<Rightarrow> (worker_result \<times> sched) option" where
  "Thread_resume env s = do {
     (self, s1) \<leftarrow> POP_PRIM_SELF 1 s;
     x0 \<leftarrow> GetCurrentArg 0 s1;
     DECLARE_THREAD env self x0 s1 (\<lambda>t. do {
       s2 \<leftarrow> ResumeThread env t s1;
       RETURN1 (IntW 0) s2 }) }"

definition Thread_state :: "senv \<Rightarrow> sched \<Rightarrow> (worker_result \<times> sched) option" where
  "Thread_state env s = do {
     (self, s1) \<leftarrow> POP_PRIM_SELF 1 s;
     x0 \<leftarrow> GetCurrentArg 0 s1;
     DECLARE_THREAD env self x0 s1 (\<lambda>t. do {
       th \<leftarrow> sc_threads s1 t;
       RETURN1 (IntW (case th_state th of BLOCKED \<Rightarrow> 0 | RUNNABLE \<Rightarrow> 1 | TERMINATED \<Rightarrow> 2)) s1 }) }"

definition Thread_suspend :: "senv \<Rightarrow> sched \<Rightarrow> (worker_result \<times> sched) option" where
  "Thread_suspend env s = do {
     (self, s1) \<leftarrow> POP_PRIM_SELF 1 s;
     x0 \<leftarrow> GetCurrentArg 0 s1;
     DECLARE_THREAD env self x0 s1 (\<lambda>t.
       if sc_current s1 = Some t then do { s2 \<leftarrow> SetNArgs 0 s1; Some (SUSPEND, s2) }
       else do {
         s2 \<leftarrow> SuspendThread env t s1;
         RETURN1 (IntW 0) s2 }) }"

definition Thread_yield :: "sched \<Rightarrow> (worker_result \<times> sched) option" where
  "Thread_yield s = do {
     (self, s1) \<leftarrow> POP_PRIM_SELF 1 s;
     s2 \<leftarrow> SetNArgs 0 s1;
     Some (PREEMPT, s2) }"

section \<open>Futures\<close>

definition Future_await :: "senv \<Rightarrow> sched \<Rightarrow> (worker_result \<times> sched) option" where
  "Future_await env s = do {
     (self, s1) \<leftarrow> POP_PRIM_SELF 1 s;
     x0 \<leftarrow> GetCurrentArg 0 s1;
     t \<leftarrow> WordToTransient (sc_trans s1) x0;
     if t \<noteq> None then prim_REQUEST env self x0 s1 else RETURN1 x0 s1 }"

definition Future_byneed :: "sched \<Rightarrow> (worker_result \<times> sched) option" where
  "Future_byneed s = do {
     (self, s1) \<leftarrow> POP_PRIM_SELF 1 s;
     x0 \<leftarrow> GetCurrentArg 0 s1;
     let (a, s2) = new_transient (ByneedT x0) s1;
     RETURN1 (TrW a) s2 }"

definition Future_concur :: "senv \<Rightarrow> sched \<Rightarrow> (worker_result \<times> sched) option" where
  "Future_concur env s = do {
     (self, s1) \<leftarrow> POP_PRIM_SELF 1 s;
     x0 \<leftarrow> GetCurrentArg 0 s1;
     let (f, s2) = new_transient (FutureT None) s1;
     (t, s3) \<leftarrow> NewThread env 0 (ArgW (IntW 0)) s2;
     r4 \<leftarrow> BindFuture_PushFrame env t f s3;
     s4 \<leftarrow> r4;
     r5 \<leftarrow> PushCall_PushFrame env t x0 s4;
     s5 \<leftarrow> r5;
     RETURN1 (TrW f) s5 }"

definition Future_isByneed :: "sched \<Rightarrow> (worker_result \<times> sched) option" where
  "Future_isByneed s = do {
     (self, s1) \<leftarrow> POP_PRIM_SELF 1 s;
     x0 \<leftarrow> GetCurrentArg 0 s1;
     t \<leftarrow> WordToTransient (sc_trans s1) x0;
     RETURN_BOOL (case t of None \<Rightarrow> False | Some a \<Rightarrow> (case sc_trans s1 a of Some (ByneedT _) \<Rightarrow> True | _ \<Rightarrow> False)) s1 }"

definition Future_status :: "senv \<Rightarrow> sched \<Rightarrow> (worker_result \<times> sched) option" where
  "Future_status env s = do {
     (self, s1) \<leftarrow> POP_PRIM_SELF 1 s;
     x0 \<leftarrow> GetCurrentArg 0 s1;
     t \<leftarrow> WordToTransient (sc_trans s1) x0;
     case t of None \<Rightarrow> RETURN1 (IntW 0) s1
     | Some a \<Rightarrow> do {
         tr \<leftarrow> sc_trans s1 a;
         case tr of HoleT _ \<Rightarrow> prim_RAISE env self (ev_holeExn env) s1
         | FutureT _ \<Rightarrow> RETURN1 (IntW 2) s1
         | ByneedT _ \<Rightarrow> RETURN1 (IntW 2) s1
         | CancelledT _ \<Rightarrow> RETURN1 (IntW 1) s1
         | RefT _ \<Rightarrow> None } }"

section \<open>Holes\<close>

definition hole_arg :: "tstore \<Rightarrow> addr \<Rightarrow> store_word option" where
  "hole_arg T h = (case T h of Some (HoleT w) \<Rightarrow> Some w | _ \<Rightarrow> None)"

definition Hole_GetFuture :: "addr \<Rightarrow> sched \<Rightarrow> (addr \<times> sched) option" where
  "Hole_GetFuture h s = do {
     w \<leftarrow> hole_arg (sc_trans s) h;
     fu \<leftarrow> WordToTransient (sc_trans s) w;
     case fu of Some f \<Rightarrow> Some (f, s)
     | None \<Rightarrow> do {
         let (f, s1) = new_transient (FutureT None) s;
         Some (f, s1\<lparr>sc_trans := (sc_trans s1)(h \<mapsto> HoleT (TrW f))\<rparr>) } }"

definition Hole_Fill :: "senv \<Rightarrow> addr \<Rightarrow> store_word \<Rightarrow> sched \<Rightarrow> (bool \<times> sched) option" where
  "Hole_Fill env h w s = do {
     t \<leftarrow> WordToTransient (sc_trans s) w;
     if t = Some h then Some (False, s)
     else do {
       a \<leftarrow> hole_arg (sc_trans s) h;
       fu \<leftarrow> WordToTransient (sc_trans s) a;
       case fu of None \<Rightarrow> do { s1 \<leftarrow> become h RefT w s; Some (True, s1) }
       | Some f \<Rightarrow>
         if t = Some f then Some (False, s)
         else do {
           s1 \<leftarrow> ScheduleWaitingThreads env f s;
           s2 \<leftarrow> become f RefT w s1;
           s3 \<leftarrow> become h RefT w s2;
           Some (True, s3) } } }"

definition Hole_Fail :: "senv \<Rightarrow> addr \<Rightarrow> store_word \<Rightarrow> sched \<Rightarrow> sched option" where
  "Hole_Fail env h exn s = do {
     a \<leftarrow> hole_arg (sc_trans s) h;
     fu \<leftarrow> WordToTransient (sc_trans s) a;
     (p, s1) \<leftarrow> new_package env exn s;
     case fu of None \<Rightarrow> become h CancelledT (BlkW p) s1
     | Some f \<Rightarrow> do {
         s2 \<leftarrow> ScheduleWaitingThreads env f s1;
         s3 \<leftarrow> become f CancelledT (BlkW p) s2;
         become h CancelledT (BlkW p) s3 } }"

definition is_hole :: "tstore \<Rightarrow> addr option \<Rightarrow> bool" where
  "is_hole T t = (case t of None \<Rightarrow> False | Some a \<Rightarrow> (case T a of Some (HoleT _) \<Rightarrow> True | _ \<Rightarrow> False))"

definition Hole_fail :: "senv \<Rightarrow> sched \<Rightarrow> (worker_result \<times> sched) option" where
  "Hole_fail env s = do {
     (self, s1) \<leftarrow> POP_PRIM_SELF 2 s;
     x0 \<leftarrow> GetCurrentArg 0 s1;
     x1 \<leftarrow> GetCurrentArg 1 s1;
     t \<leftarrow> WordToTransient (sc_trans s1) x0;
     if \<not> is_hole (sc_trans s1) t then prim_RAISE env self (ev_holeExn env) s1
     else do {
       e \<leftarrow> WordToTransient (sc_trans s1) x1;
       case e of Some a \<Rightarrow> prim_REQUEST env self (TrW a) s1
       | None \<Rightarrow> do {
           h \<leftarrow> t;
           s2 \<leftarrow> Hole_Fail env h x1 s1;
           RETURN1 (IntW 0) s2 } } }"

definition Hole_fill :: "senv \<Rightarrow> sched \<Rightarrow> (worker_result \<times> sched) option" where
  "Hole_fill env s = do {
     (self, s1) \<leftarrow> POP_PRIM_SELF 2 s;
     x0 \<leftarrow> GetCurrentArg 0 s1;
     x1 \<leftarrow> GetCurrentArg 1 s1;
     t \<leftarrow> WordToTransient (sc_trans s1) x0;
     if \<not> is_hole (sc_trans s1) t then prim_RAISE env self (ev_holeExn env) s1
     else do {
       h \<leftarrow> t;
       (ok, s2) \<leftarrow> Hole_Fill env h x1 s1;
       if \<not> ok then prim_RAISE env self (ev_cyclicExn env) s2
       else RETURN1 (IntW 0) s2 } }"

definition Hole_future :: "sched \<Rightarrow> (worker_result \<times> sched) option" where
  "Hole_future s = do {
     (self, s1) \<leftarrow> POP_PRIM_SELF 1 s;
     x0 \<leftarrow> GetCurrentArg 0 s1;
     t \<leftarrow> WordToTransient (sc_trans s1) x0;
     if \<not> is_hole (sc_trans s1) t then RETURN1 x0 s1
     else do {
       h \<leftarrow> t;
       (f, s2) \<leftarrow> Hole_GetFuture h s1;
       RETURN1 (TrW f) s2 } }"

definition Hole_hole :: "sched \<Rightarrow> (worker_result \<times> sched) option" where
  "Hole_hole s = do {
     (self, s1) \<leftarrow> POP_PRIM_SELF 0 s;
     let (h, s2) = new_transient (HoleT (IntW 0)) s1;
     RETURN1 (TrW h) s2 }"

definition Hole_isHole :: "sched \<Rightarrow> (worker_result \<times> sched) option" where
  "Hole_isHole s = do {
     (self, s1) \<leftarrow> POP_PRIM_SELF 1 s;
     x0 \<leftarrow> GetCurrentArg 0 s1;
     t \<leftarrow> WordToTransient (sc_trans s1) x0;
     RETURN_BOOL (is_hole (sc_trans s1) t) s1 }"

section \<open>Promises\<close>

abbreviation Promise_label :: block_label where "Promise_label \<equiv> DATA_LABEL 1"

definition Promise_New :: "sched \<Rightarrow> addr \<times> sched" where
  "Promise_New s = (let (f, s1) = new_transient (FutureT None) s in new_block Promise_label [IntW 0, TrW f] s1)"

definition Promise_IsFulfilled :: "addr \<Rightarrow> sched \<Rightarrow> bool option" where
  "Promise_IsFulfilled p s = do {
     w \<leftarrow> block_get p 0 s;
     i \<leftarrow> WordToInt (sc_trans s) w;
     n \<leftarrow> i;
     Some (n \<noteq> 0) }"

definition Promise_Fulfill :: "senv \<Rightarrow> addr \<Rightarrow> store_word \<Rightarrow> sched \<Rightarrow> (bool \<times> sched) option" where
  "Promise_Fulfill env p v s = do {
     done \<leftarrow> Promise_IsFulfilled p s;
     if done then Some (False, s)
     else do {
       s1 \<leftarrow> block_set p 0 (IntW 1) s;
       w \<leftarrow> block_get p 1 s1;
       fu \<leftarrow> WordToTransient (sc_trans s1) w;
       f \<leftarrow> fu;
       s2 \<leftarrow> ScheduleWaitingThreads env f s1;
       s3 \<leftarrow> become f RefT v s2;
       Some (True, s3) } }"

definition Promise_Fail :: "senv \<Rightarrow> addr \<Rightarrow> store_word \<Rightarrow> sched \<Rightarrow> (bool \<times> sched) option" where
  "Promise_Fail env p exn s = do {
     done \<leftarrow> Promise_IsFulfilled p s;
     if done then Some (False, s)
     else do {
       s1 \<leftarrow> block_set p 0 (IntW 1) s;
       w \<leftarrow> block_get p 1 s1;
       fu \<leftarrow> WordToTransient (sc_trans s1) w;
       f \<leftarrow> fu;
       (k, s2) \<leftarrow> new_package env exn s1;
       s3 \<leftarrow> ScheduleWaitingThreads env f s2;
       s4 \<leftarrow> become f CancelledT (BlkW k) s3;
       Some (True, s4) } }"

definition Promise_fail :: "senv \<Rightarrow> store_word \<Rightarrow> sched \<Rightarrow> (worker_result \<times> sched) option" where
  "Promise_fail env promiseExn s = do {
     (self, s1) \<leftarrow> POP_PRIM_SELF 2 s;
     x0 \<leftarrow> GetCurrentArg 0 s1;
     x1 \<leftarrow> GetCurrentArg 1 s1;
     DECLARE_BLOCK Promise_label env self x0 s1 (\<lambda>p. do {
       e \<leftarrow> WordToTransient (sc_trans s1) x1;
       case e of Some a \<Rightarrow> prim_REQUEST env self (TrW a) s1
       | None \<Rightarrow> do {
           (ok, s2) \<leftarrow> Promise_Fail env p x1 s1;
           if \<not> ok then prim_RAISE env self promiseExn s2 else RETURN1 (IntW 0) s2 } }) }"

definition Promise_fulfill :: "senv \<Rightarrow> store_word \<Rightarrow> sched \<Rightarrow> (worker_result \<times> sched) option" where
  "Promise_fulfill env promiseExn s = do {
     (self, s1) \<leftarrow> POP_PRIM_SELF 2 s;
     x0 \<leftarrow> GetCurrentArg 0 s1;
     x1 \<leftarrow> GetCurrentArg 1 s1;
     DECLARE_BLOCK Promise_label env self x0 s1 (\<lambda>p. do {
       (ok, s2) \<leftarrow> Promise_Fulfill env p x1 s1;
       if \<not> ok then prim_RAISE env self promiseExn s2 else RETURN1 (IntW 0) s2 }) }"

definition Promise_future :: "senv \<Rightarrow> sched \<Rightarrow> (worker_result \<times> sched) option" where
  "Promise_future env s = do {
     (self, s1) \<leftarrow> POP_PRIM_SELF 1 s;
     x0 \<leftarrow> GetCurrentArg 0 s1;
     DECLARE_BLOCK Promise_label env self x0 s1 (\<lambda>p. do {
       w \<leftarrow> block_get p 1 s1;
       RETURN1 w s1 }) }"

definition Promise_isFulfilled :: "senv \<Rightarrow> sched \<Rightarrow> (worker_result \<times> sched) option" where
  "Promise_isFulfilled env s = do {
     (self, s1) \<leftarrow> POP_PRIM_SELF 1 s;
     x0 \<leftarrow> GetCurrentArg 0 s1;
     DECLARE_BLOCK Promise_label env self x0 s1 (\<lambda>p. do {
       b \<leftarrow> Promise_IsFulfilled p s1;
       RETURN_BOOL b s1 }) }"

definition Promise_promise :: "sched \<Rightarrow> (worker_result \<times> sched) option" where
  "Promise_promise s = do {
     (self, s1) \<leftarrow> POP_PRIM_SELF 0 s;
     let (p, s2) = Promise_New s1;
     RETURN1 (BlkW p) s2 }"

section \<open>Cells and packets\<close>

abbreviation Cell_label :: block_label where "Cell_label \<equiv> DATA_LABEL 2"

definition Ref_equal :: "senv \<Rightarrow> sched \<Rightarrow> (worker_result \<times> sched) option" where
  "Ref_equal env s = do {
     (self, s1) \<leftarrow> POP_PRIM_SELF 2 s;
     x0 \<leftarrow> GetCurrentArg 0 s1;
     x1 \<leftarrow> GetCurrentArg 1 s1;
     DECLARE_BLOCK Cell_label env self x0 s1 (\<lambda>c0.
       DECLARE_BLOCK Cell_label env self x1 s1 (\<lambda>c1.
         RETURN_BOOL (c0 = c1) s1)) }"

definition Ref_assign :: "senv \<Rightarrow> sched \<Rightarrow> (worker_result \<times> sched) option" where
  "Ref_assign env s = do {
     (self, s1) \<leftarrow> POP_PRIM_SELF 2 s;
     x0 \<leftarrow> GetCurrentArg 0 s1;
     x1 \<leftarrow> GetCurrentArg 1 s1;
     DECLARE_BLOCK Cell_label env self x0 s1 (\<lambda>c. do {
       s2 \<leftarrow> block_set c 0 x1 s1;
       RETURN1 (IntW 0) s2 }) }"

definition Ref_exchange :: "senv \<Rightarrow> sched \<Rightarrow> (worker_result \<times> sched) option" where
  "Ref_exchange env s = do {
     (self, s1) \<leftarrow> POP_PRIM_SELF 2 s;
     x0 \<leftarrow> GetCurrentArg 0 s1;
     x1 \<leftarrow> GetCurrentArg 1 s1;
     DECLARE_BLOCK Cell_label env self x0 s1 (\<lambda>c. do {
       old \<leftarrow> block_get c 0 s1;
       s2 \<leftarrow> block_set c 0 x1 s1;
       RETURN1 old s2 }) }"

definition Exn_currentPacket :: "senv \<Rightarrow> store_word \<Rightarrow> sched \<Rightarrow> (worker_result \<times> sched) option" where
  "Exn_currentPacket env noPacketExn s = do {
     (self, s1) \<leftarrow> POP_PRIM_SELF 0 s;
     t \<leftarrow> sc_current s1;
     th \<leftarrow> sc_threads s1 t;
     p \<leftarrow> GetCurrentPackage (th_handlers th);
     case p of None \<Rightarrow> prim_RAISE env self noPacketExn s1
     | Some w \<Rightarrow> RETURN1 w s1 }"

definition Exn_reraise :: "sched \<Rightarrow> (worker_result \<times> sched) option" where
  "Exn_reraise s = do {
     (self, s1) \<leftarrow> POP_PRIM_SELF 2 s;
     exn \<leftarrow> GetCurrentArg 0 s1;
     backtrace \<leftarrow> GetCurrentArg 1 s1;
     s2 \<leftarrow> SetNArgs 0 s1;
     b \<leftarrow> WordToBlock (sc_trans s2) backtrace;
     bt \<leftarrow> b;
     Some (RERAISE, s2\<lparr>sc_data := exn, sc_backtrace := bt\<rparr>) }"

section \<open>The interpreter of primitives\<close>

datatype prim =
    P_Thread_current | P_Thread_isSuspended | P_Thread_raiseIn | P_Thread_resume | P_Thread_state | P_Thread_suspend
  | P_Thread_yield | P_Future_await | P_Future_byneed | P_Future_concur | P_Future_isByneed | P_Future_status
  | P_Hole_fail | P_Hole_fill | P_Hole_future | P_Hole_hole | P_Hole_isHole | P_Promise_fail | P_Promise_fulfill
  | P_Promise_future | P_Promise_isFulfilled | P_Promise_promise | P_Ref_equal | P_Ref_assign | P_Ref_exchange
  | P_Exn_currentPacket | P_Exn_reraise

text \<open>The table of primitives: their numbers of arguments (the \<^verbatim>\<open>Register\<close> calls) and their functions.\<close>

definition prim_arity :: "prim \<Rightarrow> nat" where
  "prim_arity p = (case p of
       P_Thread_current \<Rightarrow> 0 | P_Hole_hole \<Rightarrow> 0 | P_Promise_promise \<Rightarrow> 0 | P_Exn_currentPacket \<Rightarrow> 0
     | P_Thread_raiseIn \<Rightarrow> 2 | P_Hole_fail \<Rightarrow> 2 | P_Hole_fill \<Rightarrow> 2 | P_Promise_fail \<Rightarrow> 2 | P_Promise_fulfill \<Rightarrow> 2
     | P_Ref_equal \<Rightarrow> 2 | P_Ref_assign \<Rightarrow> 2 | P_Ref_exchange \<Rightarrow> 2 | P_Exn_reraise \<Rightarrow> 2
     | _ \<Rightarrow> 1)"

record prim_names =
  pn_table :: "store_word \<Rightarrow> prim option"
  pn_raise :: store_word
  pn_terminated :: store_word
  pn_promise :: store_word
  pn_noPacket :: store_word

definition prim_function :: "senv \<Rightarrow> prim_names \<Rightarrow> prim \<Rightarrow> sched \<Rightarrow> (worker_result \<times> sched) option" where
  "prim_function env pn p s = (case p of
       P_Thread_current \<Rightarrow> Thread_current s
     | P_Thread_isSuspended \<Rightarrow> Thread_isSuspended env s
     | P_Thread_raiseIn \<Rightarrow> Thread_raiseIn env (pn_raise pn) (pn_terminated pn) s
     | P_Thread_resume \<Rightarrow> Thread_resume env s
     | P_Thread_state \<Rightarrow> Thread_state env s
     | P_Thread_suspend \<Rightarrow> Thread_suspend env s
     | P_Thread_yield \<Rightarrow> Thread_yield s
     | P_Future_await \<Rightarrow> Future_await env s
     | P_Future_byneed \<Rightarrow> Future_byneed s
     | P_Future_concur \<Rightarrow> Future_concur env s
     | P_Future_isByneed \<Rightarrow> Future_isByneed s
     | P_Future_status \<Rightarrow> Future_status env s
     | P_Hole_fail \<Rightarrow> Hole_fail env s
     | P_Hole_fill \<Rightarrow> Hole_fill env s
     | P_Hole_future \<Rightarrow> Hole_future s
     | P_Hole_hole \<Rightarrow> Hole_hole s
     | P_Hole_isHole \<Rightarrow> Hole_isHole s
     | P_Promise_fail \<Rightarrow> Promise_fail env (pn_promise pn) s
     | P_Promise_fulfill \<Rightarrow> Promise_fulfill env (pn_promise pn) s
     | P_Promise_future \<Rightarrow> Promise_future env s
     | P_Promise_isFulfilled \<Rightarrow> Promise_isFulfilled env s
     | P_Promise_promise \<Rightarrow> Promise_promise s
     | P_Ref_equal \<Rightarrow> Ref_equal env s
     | P_Ref_assign \<Rightarrow> Ref_assign env s
     | P_Ref_exchange \<Rightarrow> Ref_exchange env s
     | P_Exn_currentPacket \<Rightarrow> Exn_currentPacket env (pn_noPacket pn) s
     | P_Exn_reraise \<Rightarrow> Exn_reraise s)"

definition PrimitiveInterpreter_Run ::
  "nat \<Rightarrow> (sched \<Rightarrow> (worker_result \<times> sched) option) \<Rightarrow> sched \<Rightarrow> (worker_result \<times> sched) option" where
  "PrimitiveInterpreter_Run inArity f s =
     (if inArity = 0 then
        (if sc_nArgs s = 1 then do {
           x0 \<leftarrow> GetCurrentArg 0 s;
           t \<leftarrow> WordToTransient (sc_trans s) x0;
           if t = None then do { s1 \<leftarrow> SetNArgs 0 s; f s1 }
           else Some (REQUEST, s\<lparr>sc_data := x0\<rparr>) }
         else do { Assert (sc_nArgs s = 0); f s })
      else if inArity = 1 then do { s1 \<leftarrow> Construct s; f s1 }
      else do {
        (request, s1) \<leftarrow> Deconstruct s;
        if request then Some (REQUEST, s1)
        else do { Assert (sc_nArgs s1 = inArity); f s1 } })"

text \<open>\<^verbatim>\<open>PrimitiveInterpreter::PushCall\<close>: the interpreter of the closure's code is the worker of the new frame.\<close>

definition PrimitiveInterpreter_PushCall :: "senv \<Rightarrow> addr \<Rightarrow> sched \<Rightarrow> sched option option" where
  "PrimitiveInterpreter_PushCall env closure s = do {
     code \<leftarrow> block_get closure 0 s;
     b \<leftarrow> WordToBlock (sc_trans s) code;
     c \<leftarrow> b;
     (l, ws) \<leftarrow> sc_blocks s c;
     Assert (l = CONCRETE_LABEL);
     interpreter \<leftarrow> Block_GetArg ws 0;
     new_frame env interpreter [] s }"

text \<open>The environment of a machine whose workers are the built-in ones and the primitives, without input and output.\<close>

definition prim_base :: "senv \<Rightarrow> prim_names \<Rightarrow> senv" where
  "prim_base env pn = env\<lparr>
     ev_handle := (\<lambda>w d p s. Some (RAISE, s)),
     ev_size := (\<lambda>w tp st. Some (if w = pn_raise pn then 2 else 1)),
     ev_purge := (\<lambda>w tp st. Some st),
     ev_traceable := (\<lambda>w. True),
     ev_poll := Some,
     ev_block := Some\<rparr>"

definition prim_env :: "senv \<Rightarrow> prim_names \<Rightarrow> senv" where
  "prim_env env0 pn = (let env = prim_base env0 pn in env\<lparr>
     ev_run := (\<lambda>w s. if w = pn_raise pn then Raise_Run env s
       else (case pn_table pn w of None \<Rightarrow> None
         | Some p \<Rightarrow> PrimitiveInterpreter_Run (prim_arity p) (prim_function env pn p) s)),
     ev_enter := PrimitiveInterpreter_PushCall env\<rparr>)"

section \<open>The primitives keep the scheduler's invariant\<close>

lemma same_POP: "POP_PRIM_SELF n s = Some (self, s1) \<Longrightarrow> same_sched s s1"
  by (auto simp: POP_PRIM_SELF_def run_elims dest: same_Sched_PopFrame)

lemma same_RETURN: "RETURN0 s = Some (r, s') \<Longrightarrow> same_sched s s'" "RETURN1 w s = Some (r, s') \<Longrightarrow> same_sched s s'"
  "RETURN_BOOL b s = Some (r, s') \<Longrightarrow> same_sched s s'"
  by (auto simp: RETURN0_def RETURN1_def RETURN_BOOL_def run_elims dest!: same_SetNArgs same_SetCurrentArg intro: same_sched_trans)

lemma same_prim_RAISE:
  assumes "prim_RAISE env self w s = Some (r, s')"
  shows "same_sched s s'"
proof -
  obtain f where f: "new_frame env self [] s = Some f" using assms by (auto simp: prim_RAISE_def run_elims)
  show ?thesis
  proof (cases f)
    case (Some s1)
    then obtain b s2 where "Backtrace_New env (s1\<lparr>sc_data := w\<rparr>) = Some (b, s2)" "s' = s2\<lparr>sc_backtrace := b\<rparr>"
      using assms f by (auto simp: prim_RAISE_def run_elims)
    then show ?thesis using same_new_frame [OF f [unfolded Some]] same_Backtrace_New same_sched_trans by fastforce
  qed (use assms f in \<open>auto simp: prim_RAISE_def\<close>)
qed

lemma same_prim_REQUEST:
  assumes "prim_REQUEST env self w s = Some (r, s')"
  shows "same_sched s s'"
proof -
  obtain f where f: "new_frame env self [] (s\<lparr>sc_data := w\<rparr>) = Some f" using assms by (auto simp: prim_REQUEST_def run_elims Let_def)
  show ?thesis
  proof (cases f)
    case (Some s1)
    then have "s' = s1" using assms f by (auto simp: prim_REQUEST_def run_elims Let_def)
    then show ?thesis using same_new_frame [OF f [unfolded Some]] by simp
  qed (use assms f in \<open>auto simp: prim_REQUEST_def run_elims Let_def\<close>)
qed

lemmas keeps_end = keeps_same [OF _ same_RETURN(1)] keeps_same [OF _ same_RETURN(2)] keeps_same [OF _ same_RETURN(3)]
  keeps_same [OF _ same_prim_RAISE] keeps_same [OF _ same_prim_REQUEST]

lemma keeps_body:
  assumes "sched_ok R s" and "POP_PRIM_SELF n s = Some (self, s1)" and "sched_ok R s1 \<Longrightarrow> sc_current s1 = sc_current s \<Longrightarrow> keeps R s1 s'"
  shows "keeps R s s'"
proof -
  have "keeps R s s1" by (rule keeps_same [OF assms(1) same_POP [OF assms(2)]])
  then show ?thesis using assms(3) keeps_trans by (auto simp: keeps_def)
qed

lemma keeps_DECLARE_THREAD:
  assumes "sched_ok R s" and "DECLARE_THREAD env self x s k = Some (r, s')" and "\<And>t. k t = Some (r, s') \<Longrightarrow> keeps R s s'"
  shows "keeps R s s'"
  using assms by (auto simp: DECLARE_THREAD_def run_elims split: option.split_asm intro: keeps_end)

lemma keeps_DECLARE_BLOCK:
  assumes "sched_ok R s" and "DECLARE_BLOCK l env self x s k = Some (r, s')" and "\<And>t. k t = Some (r, s') \<Longrightarrow> keeps R s s'"
  shows "keeps R s s'"
  using assms by (auto simp: DECLARE_BLOCK_def run_elims split: option.split_asm intro: keeps_end)

lemma same_block_set: "block_set a i w s = Some s' \<Longrightarrow> same_sched s s'"
  by (auto simp: block_set_def run_elims same_sched_def)

text \<open>Nobody waits for a transient that is no future with a queue.\<close>

lemma no_wait: "sched_ok R s \<Longrightarrow> (\<And>q. sc_trans s a \<noteq> Some (FutureT (Some q))) \<Longrightarrow> waiting_of a (tview s) = {}"
  unfolding sched_ok_def by (fastforce simp: waiting_of_def dest: ok_viewD(10))

lemma keeps_new_transient:
  assumes "sched_ok R s" and "new_transient t s = (a, s')" and "\<And>w. t \<noteq> FutureT (Some w)" and "\<And>w. t \<noteq> RefT w"
  shows "keeps R s s'"
proof -
  note okv = assms(1) [unfolded sched_ok_def]
  have a: "a = sc_next s" "s' = s\<lparr>sc_trans := (sc_trans s)(a \<mapsto> t), sc_next := Suc (wait_queue a)\<rparr>" using assms(2) by (auto simp: new_transient_def)
  have "sc_trans s a = None" using ok_viewD(2) [OF okv, of a] a(1) by (cases "sc_trans s a") auto
  then have "waiting_of a (tview s) = {}" using no_wait [OF assms(1)] by simp
  then have "ok_view R (tview s) ((sc_trans s)(a \<mapsto> t)) (sc_queue s) (Suc (wait_queue a))"
    by (intro ok_view_trans [OF okv]) (use a assms(3,4) refs_ok_update ok_viewD(3) [OF okv] in \<open>auto simp: wait_queue_def\<close>)
  then show ?thesis by (simp add: keeps_def sched_ok_def a(2))
qed

lemma keeps_hole_set:
  assumes "sched_ok R s" and "sc_trans s h = Some (HoleT w)"
  shows "keeps R s (s\<lparr>sc_trans := (sc_trans s)(h \<mapsto> HoleT w')\<rparr>)"
proof -
  note okv = assms(1) [unfolded sched_ok_def]
  have "waiting_of h (tview s) = {}" using no_wait [OF assms(1)] assms(2) by simp
  then have "ok_view R (tview s) ((sc_trans s)(h \<mapsto> HoleT w')) (sc_queue s) (sc_next s)"
    by (intro ok_view_trans [OF okv]) (use ok_viewD(2) [OF okv assms(2)] refs_ok_update ok_viewD(3) [OF okv] in auto)
  then show ?thesis by (simp add: keeps_def sched_ok_def)
qed

lemma hole_arg_Some [run_elims]: "hole_arg T h = Some w \<longleftrightarrow> T h = Some (HoleT w)"
  by (auto simp: hole_arg_def split: option.splits transient.splits)

lemma keeps_GetFuture:
  assumes "sched_ok R s" and "Hole_GetFuture h s = Some (f, s')"
  shows "keeps R s s'"
proof -
  obtain w fu where w: "sc_trans s h = Some (HoleT w)" "WordToTransient (sc_trans s) w = Some fu"
    using assms(2) by (auto simp: Hole_GetFuture_def run_elims)
  show ?thesis
  proof (cases fu)
    case None
    define s1 where "s1 = snd (new_transient (FutureT None) s)"
    have s1: "new_transient (FutureT None) s = (sc_next s, s1)" by (simp add: s1_def new_transient_def)
    then have s': "s' = s1\<lparr>sc_trans := (sc_trans s1)(h \<mapsto> HoleT (TrW f))\<rparr>"
      using assms(2) w None by (auto simp: Hole_GetFuture_def run_elims)
    have k: "keeps R s s1" by (rule keeps_new_transient [OF assms(1) s1]) simp_all
    have "h < sc_next s" using w(1) ok_viewD(2) [OF assms(1) [unfolded sched_ok_def]] by blast
    then have "sc_trans s1 h = Some (HoleT w)" using s1 w(1) by (auto simp: new_transient_def)
    then show ?thesis using keeps_hole_set [OF keeps_ok [OF k]] k keeps_trans s' by blast
  qed (use assms w in \<open>auto simp: Hole_GetFuture_def keeps_def run_elims\<close>)
qed

text \<open>Binding a future and then the hole it belongs to.\<close>

lemma keeps_bind_both:
  assumes "sched_ok R s" and h: "sc_trans s h = Some (HoleT a)" and "ScheduleWaitingThreads env f s = Some s1"
    and "become f mk w s1 = Some s2" and "become h mk' w' s2 = Some s3" and mk: "mk = RefT \<or> mk = CancelledT" "mk' = RefT \<or> mk' = CancelledT"
  shows "keeps R s s3"
proof -
  note W = ScheduleWaitingThreads_ok [OF assms(1,3)]
  have k2: "keeps R s1 s2" by (rule become_ok [OF keeps_ok [OF W(1)] W(2) assms(4) mk(1)])
  have "f \<noteq> h" using assms(3) h by (auto simp: ScheduleWaitingThreads_def run_elims)
  moreover obtain v where "sc_trans s2 = (sc_trans s1)(f \<mapsto> mk v)" using assms(4) by (auto simp: become_def Become_def run_elims)
  ultimately have "sc_trans s2 h = Some (HoleT a)" using W(4) h by auto
  then have "waiting_of h (tview s2) = {}" using no_wait [OF keeps_ok [OF k2]] by simp
  then have "keeps R s2 s3" using become_ok [OF keeps_ok [OF k2] _ assms(5) mk(2)] by simp
  then show ?thesis using W(1) k2 keeps_trans by blast
qed

lemma keeps_Fill:
  assumes "sched_ok R s" and "Hole_Fill env h w s = Some (b, s')"
  shows "keeps R s s'"
proof -
  have refl: "keeps R s s" using assms(1) by (simp add: keeps_def)
  obtain t where t: "WordToTransient (sc_trans s) w = Some t" using assms(2) by (auto simp: Hole_Fill_def run_elims)
  show ?thesis
  proof (cases "t = Some h")
    case False
    then obtain a fu where a: "sc_trans s h = Some (HoleT a)" "WordToTransient (sc_trans s) a = Some fu"
      using assms(2) t by (auto simp: Hole_Fill_def run_elims)
    show ?thesis
    proof (cases fu)
      case None
      then have "become h RefT w s = Some s'" using assms(2) t False a by (auto simp: Hole_Fill_def run_elims)
      then show ?thesis using become_ok [OF assms(1)] no_wait [OF assms(1), of h] a(1) by simp
    next
      case (Some f)
      then show ?thesis using assms(2) t False a refl keeps_bind_both [OF assms(1) a(1)]
        by (auto simp: Hole_Fill_def run_elims split: if_splits)
    qed
  qed (use assms(2) t refl in \<open>auto simp: Hole_Fill_def\<close>)
qed

lemma keeps_Fail:
  assumes "sched_ok R s" and "Hole_Fail env h e s = Some s'"
  shows "keeps R s s'"
proof -
  obtain a fu p s1 where a: "sc_trans s h = Some (HoleT a)" "WordToTransient (sc_trans s) a = Some fu"
      "new_package env e s = Some (p, s1)" using assms(2) by (auto simp: Hole_Fail_def run_elims)
  have same: "same_sched s s1" by (rule same_new_package [OF a(3)])
  have k: "keeps R s s1" by (rule keeps_same [OF assms(1) same])
  have h: "sc_trans s1 h = Some (HoleT a)" using same a(1) by (simp add: same_sched_def)
  have "keeps R s1 s'"
  proof (cases fu)
    case None
    then have "become h CancelledT (BlkW p) s1 = Some s'" using assms(2) a by (auto simp: Hole_Fail_def run_elims)
    then show ?thesis using become_ok [OF keeps_ok [OF k]] no_wait [OF keeps_ok [OF k], of h] h by simp
  next
    case (Some f)
    then show ?thesis using assms(2) a keeps_bind_both [OF keeps_ok [OF k] h] by (auto simp: Hole_Fail_def run_elims)
  qed
  then show ?thesis using k keeps_trans by blast
qed

lemma keeps_Promise_Fulfill:
  assumes "sched_ok R s" and "Promise_Fulfill env p v s = Some (b, s')"
  shows "keeps R s s'"
proof -
  obtain d where d: "Promise_IsFulfilled p s = Some d" using assms(2) by (auto simp: Promise_Fulfill_def run_elims)
  show ?thesis
  proof (cases d)
    case False
    then obtain s1 f s2 where s: "block_set p 0 (IntW 1) s = Some s1" "ScheduleWaitingThreads env f s1 = Some s2" "become f RefT v s2 = Some s'"
      using assms(2) d by (auto simp: Promise_Fulfill_def run_elims)
    have k: "keeps R s s1" by (rule keeps_same [OF assms(1) same_block_set [OF s(1)]])
    note W = ScheduleWaitingThreads_ok [OF keeps_ok [OF k] s(2)]
    have "keeps R s2 s'" by (rule become_ok [OF keeps_ok [OF W(1)] W(2) s(3)]) simp
    then show ?thesis using k W(1) keeps_trans by blast
  qed (use assms d in \<open>auto simp: Promise_Fulfill_def keeps_def\<close>)
qed

lemma keeps_Promise_Fail:
  assumes "sched_ok R s" and "Promise_Fail env p v s = Some (b, s')"
  shows "keeps R s s'"
proof -
  obtain d where d: "Promise_IsFulfilled p s = Some d" using assms(2) by (auto simp: Promise_Fail_def run_elims)
  show ?thesis
  proof (cases d)
    case False
    then obtain s1 f k s2 s3 where s: "block_set p 0 (IntW 1) s = Some s1" "new_package env v s1 = Some (k, s2)"
        "ScheduleWaitingThreads env f s2 = Some s3" "become f CancelledT (BlkW k) s3 = Some s'"
      using assms(2) d by (auto simp: Promise_Fail_def run_elims)
    have "same_sched s s2" using same_block_set [OF s(1)] same_new_package [OF s(2)] same_sched_trans by blast
    then have k: "keeps R s s2" using keeps_same assms(1) by blast
    note W = ScheduleWaitingThreads_ok [OF keeps_ok [OF k] s(3)]
    have "keeps R s3 s'" by (rule become_ok [OF keeps_ok [OF W(1)] W(2) s(4)]) simp
    then show ?thesis using k W(1) keeps_trans by blast
  qed (use assms d in \<open>auto simp: Promise_Fail_def keeps_def\<close>)
qed

lemma keeps_Promise_New:
  assumes "sched_ok R s" and "Promise_New s = (p, s')"
  shows "keeps R s s'"
proof -
  define s1 where "s1 = snd (new_transient (FutureT None) s)"
  have s1: "new_transient (FutureT None) s = (sc_next s, s1)" by (simp add: s1_def new_transient_def)
  have k: "keeps R s s1" by (rule keeps_new_transient [OF assms(1) s1]) simp_all
  have "same_sched s1 s'" using assms(2) s1 same_new_block' by (simp add: Promise_New_def)
  then show ?thesis using k keeps_same keeps_ok keeps_trans by blast
qed

lemma keeps_concur:
  assumes ok: "sched_ok R s" and n: "new_transient (FutureT None) s = (f, s2)" and t: "NewThread env k a s2 = Some (t, s3)"
    and p: "BindFuture_PushFrame env t f s3 = Some (Some s4)" "PushCall_PushFrame env t x s4 = Some (Some s5)"
  shows "keeps R s s5"
proof -
  have k2: "keeps R s s2" by (rule keeps_new_transient [OF ok n]) simp_all
  note k3 = NewThread_ok(1) [OF keeps_ok [OF k2] t]
  have "same_sched s3 s5" using same_BindFuture_PushFrame [OF p(1)] same_PushCall_PushFrame [OF p(2)] same_sched_trans by blast
  then have "keeps R s3 s5" using keeps_same keeps_ok [OF k3] by blast
  then show ?thesis using k2 k3 keeps_trans by blast
qed

text \<open>Raising an exception in another thread takes it off the wait queue it is in.\<close>

lemma keeps_raiseIn:
  assumes ok: "sched_ok R s" and th: "sc_threads s t = Some th" and p: "Raise_PushFrame env w t x s = Some (Some s2)"
    and a: "upd_thread t (Thread_SetArgs 0 (ArgW (IntW 0))) s2 = Some s3"
  shows "keeps R s s3"
    and "th_state th = BLOCKED \<Longrightarrow> WordToTransient (sc_trans s3) (th_future th) = Some (Some f) \<Longrightarrow>
      RemoveFromWaitQueue (BlkW t) f (sc_trans s3) = Some T \<Longrightarrow> WakeupThread env t (s3\<lparr>sc_trans := T\<rparr>) = Some s4 \<Longrightarrow> keeps R s s4"
proof -
  have "same_sched s s2"
    using p by (auto simp: Raise_PushFrame_def run_elims dest: new_thread_frame_view intro!: same_thread_data)
  moreover have "same_sched s2 s3"
    using a by (auto simp: upd_thread_def run_elims Thread_SetArgs_def view_def intro!: same_thread_data)
  ultimately have same: "same_sched s s3" using same_sched_trans by blast
  then show k: "keeps R s s3" using keeps_same ok by blast
  show "keeps R s s4" if b: "th_state th = BLOCKED" and fw: "WordToTransient (sc_trans s3) (th_future th) = Some (Some f)"
    and rm: "RemoveFromWaitQueue (BlkW t) f (sc_trans s3) = Some T" and wk: "WakeupThread env t (s3\<lparr>sc_trans := T\<rparr>) = Some s4"
  proof -
    note okv = keeps_ok [OF k, unfolded sched_ok_def]
    have v: "tview s3 t = Some (BLOCKED, th_suspended th, th_future th, th_stack th = None)"
      using same th b by (simp add: same_sched_def tview_def view_def)
    obtain g q where g: "th_future th = TrW g" "sc_trans s3 g = Some (FutureT (Some q))" using ok_viewD(10) [OF okv v] by blast
    have "Deref (sc_trans s3) (TrW g) = Some (TrW g)" using g(2) by (simp add: Deref_unbound)
    then have "f = g" using fw g(1) by (auto simp: WordToTransient_def run_elims)
    then obtain q' where q': "Queue_Remove (BlkW t) q = Some q'" "T = (sc_trans s3)(f \<mapsto> FutureT (Some q'))"
      using rm g(2) by (auto simp: RemoveFromWaitQueue_def run_elims)
    have r: "queue_inv q'" "queue_elems q' = remove1 (BlkW t) (queue_elems q)"
      using remove_done [OF ok_viewD(7) [OF okv g(2)] q'(1)] by auto
    have m: "BlkW t \<in> set (queue_elems q)" using ok_viewD(9) [OF okv g(2)] v g(1) by (simp add: mem_waiting_of)
    have "keeps R s3 s4"
      by (rule WakeupThread_ok(1) [OF keeps_ok [OF k] g(2) m r]) (use wk q'(2) \<open>f = g\<close> in simp)
    then show ?thesis using k keeps_trans by blast
  qed
qed

lemma prim_Thread_raiseIn:
  assumes ok: "sched_ok R s" and run: "Thread_raiseIn env w e s = Some (r, s')"
  shows "keeps R s s'"
proof -
  obtain self s1 x0 x1 where s1: "POP_PRIM_SELF 2 s = Some (self, s1)" and go: "DECLARE_THREAD env self x0 s1 (\<lambda>t. do {
       tr \<leftarrow> WordToTransient (sc_trans s1) x1;
       case tr of Some a \<Rightarrow> prim_REQUEST env self (TrW a) s1
       | None \<Rightarrow>
         if sc_current s1 = Some t then prim_RAISE env self x1 s1
         else do {
           th \<leftarrow> sc_threads s1 t;
           if th_state th = TERMINATED then prim_RAISE env self e s1
           else do {
             r \<leftarrow> Raise_PushFrame env w t x1 s1;
             case r of None \<Rightarrow> Some (OVERFLOW, s1)
             | Some s2 \<Rightarrow> do {
                 s3 \<leftarrow> upd_thread t (Thread_SetArgs 0 (ArgW (IntW 0))) s2;
                 if th_state th = BLOCKED then do {
                   fw \<leftarrow> WordToTransient (sc_trans s3) (th_future th);
                   f \<leftarrow> fw;
                   T \<leftarrow> RemoveFromWaitQueue (BlkW t) f (sc_trans s3);
                   s4 \<leftarrow> WakeupThread env t (s3\<lparr>sc_trans := T\<rparr>);
                   RETURN1 (IntW 0) s4
                 } else RETURN1 (IntW 0) s3 } } } }) = Some (r, s')" (is "DECLARE_THREAD _ _ _ _ ?k = _")
    using run by (auto simp: Thread_raiseIn_def run_elims)
  show ?thesis
  proof (rule keeps_body [OF ok s1], rule keeps_DECLARE_THREAD [OF _ go])
    assume ok1: "sched_ok R s1"
    fix t assume k: "?k t = Some (r, s')"
    obtain tr where tr: "WordToTransient (sc_trans s1) x1 = Some tr" using k by (auto simp: run_elims)
    show "keeps R s1 s'"
    proof (cases "tr \<noteq> None \<or> sc_current s1 = Some t")
      case True
      then show ?thesis using k tr keeps_end [OF ok1] by (auto split: if_splits option.split_asm)
    next
      case False
      then obtain th where th: "sc_threads s1 t = Some th" using k tr by (auto simp: run_elims)
      show ?thesis
      proof (cases "th_state th = TERMINATED")
        case True
        then show ?thesis using k tr False th keeps_end [OF ok1] by auto
      next
        case live: False
        then obtain f where f: "Raise_PushFrame env w t x1 s1 = Some f" using k tr False th by (auto simp: run_elims)
        show ?thesis
        proof (cases f)
          case None
          then show ?thesis using k tr False th live f ok1 by (auto simp: keeps_def)
        next
          case (Some s2)
          then obtain s3 where s3: "upd_thread t (Thread_SetArgs 0 (ArgW (IntW 0))) s2 = Some s3" using k tr False th live f by (auto simp: run_elims)
          note K = keeps_raiseIn [OF ok1 th f [unfolded Some] s3]
          show ?thesis
          proof (cases "th_state th = BLOCKED")
            case True
            then obtain g T s4 where g: "WordToTransient (sc_trans s3) (th_future th) = Some (Some g)"
                "RemoveFromWaitQueue (BlkW t) g (sc_trans s3) = Some T" "WakeupThread env t (s3\<lparr>sc_trans := T\<rparr>) = Some s4"
                "RETURN1 (IntW 0) s4 = Some (r, s')"
              using k tr False th live f Some s3 by (auto simp: run_elims)
            have "keeps R s1 s4" by (rule K(2) [OF True g(1-3)])
            then show ?thesis using keeps_end(2) [OF keeps_ok g(4)] keeps_trans by blast
          next
            case nb: False
            then have "RETURN1 (IntW 0) s3 = Some (r, s')" using k tr False th live f Some s3 by auto
            then show ?thesis using keeps_end(2) [OF keeps_ok [OF K(1)]] K(1) keeps_trans by blast
          qed
        qed
      qed
    qed
  qed
qed

text \<open>
  The bodies of the primitives, rule by rule: \<open>kp R s m\<close> says that whatever state the run \<open>m\<close> returns keeps the
  invariant of \<open>s\<close>. One rule per construct of the option monad and per way a primitive ends; the operations on
  the way are steps from a state that keeps the invariant to the next.
\<close>

definition kp :: "addr option \<Rightarrow> sched \<Rightarrow> (worker_result \<times> sched) option \<Rightarrow> bool" where
  "kp R s m \<longleftrightarrow> (\<forall>r s'. m = Some (r, s') \<longrightarrow> keeps R s s')"

lemma kp_rules:
  "\<And>m f. (\<And>x. m = Some x \<Longrightarrow> kp R s (f x)) \<Longrightarrow> kp R s (m \<bind> f)"
  "\<And>f x. (\<And>a b. x = (a, b) \<Longrightarrow> kp R s (f a b)) \<Longrightarrow> kp R s (case_prod f x)"
  "\<And>b m m'. (b \<Longrightarrow> kp R s m) \<Longrightarrow> (\<not> b \<Longrightarrow> kp R s m') \<Longrightarrow> kp R s (if b then m else m')"
  "\<And>x m f. (x = None \<Longrightarrow> kp R s m) \<Longrightarrow> (\<And>y. x = Some y \<Longrightarrow> kp R s (f y)) \<Longrightarrow> kp R s (case_option m f x)"
  "\<And>t f1 f2 f3 f4 f5. (\<And>w. kp R s (f1 w)) \<Longrightarrow> (\<And>w. kp R s (f2 w)) \<Longrightarrow> (\<And>w. kp R s (f3 w)) \<Longrightarrow> (\<And>w. kp R s (f4 w)) \<Longrightarrow> (\<And>w. kp R s (f5 w)) \<Longrightarrow>
    kp R s (case_transient f1 f2 f3 f4 f5 t)"
  "kp R s None"
  "\<And>r s1. keeps R s s1 \<Longrightarrow> kp R s (Some (r, s1))"
  by (auto simp: kp_def bind_eq_Some_conv split: prod.splits option.splits transient.splits)

lemma keeps_step_same: "same_sched s1 s2 \<Longrightarrow> keeps R s s1 \<Longrightarrow> keeps R s s2"
  using keeps_same keeps_ok keeps_trans by blast

lemma keeps_step_ok: "(sched_ok R s1 \<Longrightarrow> keeps R s1 s2) \<Longrightarrow> keeps R s s1 \<Longrightarrow> keeps R s s2"
  using keeps_ok keeps_trans by blast

lemma kp_end: "(\<And>r s'. m = Some (r, s') \<Longrightarrow> same_sched s1 s') \<Longrightarrow> keeps R s s1 \<Longrightarrow> kp R s m"
  unfolding kp_def using keeps_step_same by blast

lemma kp_ends:
  "keeps R s s1 \<Longrightarrow> kp R s (RETURN0 s1)" "keeps R s s1 \<Longrightarrow> kp R s (RETURN1 w s1)" "keeps R s s1 \<Longrightarrow> kp R s (RETURN_BOOL b s1)"
  "keeps R s s1 \<Longrightarrow> kp R s (prim_RAISE env self w s1)" "keeps R s s1 \<Longrightarrow> kp R s (prim_REQUEST env self w s1)"
  by (rule kp_end, erule same_RETURN same_prim_RAISE same_prim_REQUEST, assumption)+

lemma kp_declare:
  "keeps R s s1 \<Longrightarrow> (\<And>t. kp R s (k t)) \<Longrightarrow> kp R s (DECLARE_THREAD env self x s1 k)"
  "keeps R s s1 \<Longrightarrow> (\<And>t. kp R s (k t)) \<Longrightarrow> kp R s (DECLARE_BLOCK l env self x s1 k)"
  unfolding DECLARE_THREAD_def DECLARE_BLOCK_def by (auto intro!: kp_rules kp_ends)

text \<open>The steps.\<close>

lemma keeps_step_ops:
  "ResumeThread env t s1 = Some s2 \<Longrightarrow> keeps R s s1 \<Longrightarrow> keeps R s s2"
  "SuspendThread env t s1 = Some s2 \<Longrightarrow> keeps R s s1 \<Longrightarrow> keeps R s s2"
  "Hole_GetFuture h s1 = Some (f, s2) \<Longrightarrow> keeps R s s1 \<Longrightarrow> keeps R s s2"
  "Hole_Fill env h w s1 = Some (b, s2) \<Longrightarrow> keeps R s s1 \<Longrightarrow> keeps R s s2"
  "Hole_Fail env h w s1 = Some s2 \<Longrightarrow> keeps R s s1 \<Longrightarrow> keeps R s s2"
  "Promise_Fulfill env p w s1 = Some (b, s2) \<Longrightarrow> keeps R s s1 \<Longrightarrow> keeps R s s2"
  "Promise_Fail env p w s1 = Some (b, s2) \<Longrightarrow> keeps R s s1 \<Longrightarrow> keeps R s s2"
  "Promise_New s1 = (p, s2) \<Longrightarrow> keeps R s s1 \<Longrightarrow> keeps R s s2"
  by (erule keeps_step_ok [rotated], erule ResumeThread_ok [rotated] SuspendThread_ok [rotated] keeps_GetFuture [rotated] keeps_Fill [rotated] keeps_Fail [rotated] keeps_Promise_Fulfill [rotated] keeps_Promise_Fail [rotated] keeps_Promise_New [rotated], assumption)+

lemma keeps_step_transient:
  "new_transient (ByneedT w) s1 = (a, s2) \<Longrightarrow> keeps R s s1 \<Longrightarrow> keeps R s s2"
  "new_transient (HoleT w) s1 = (a, s2) \<Longrightarrow> keeps R s s1 \<Longrightarrow> keeps R s s2"
  by (erule keeps_step_ok [rotated], erule keeps_new_transient [rotated], simp_all)+

lemmas keeps_steps = keeps_step_ops keeps_step_transient
  keeps_step_same [OF same_POP] keeps_step_same [OF same_SetNArgs] keeps_step_same [OF same_block_set]
  keeps_step_same [OF same_Backtrace_New] keeps_step_same [OF same_Construct] keeps_step_same [OF same_Deconstruct]

lemma keeps_data [simp]: "keeps R s (s1\<lparr>sc_data := w\<rparr>) \<longleftrightarrow> keeps R s s1" "keeps R s (s1\<lparr>sc_backtrace := b\<rparr>) \<longleftrightarrow> keeps R s s1"
  by (simp_all add: keeps_def sched_ok_def)

lemma keeps_refl: "sched_ok R s \<Longrightarrow> keeps R s s"
  by (simp add: keeps_def)

lemmas kp_all = kp_rules kp_ends kp_declare

lemma prim_threads:
  assumes "sched_ok R s"
  shows "kp R s (Thread_current s)" "kp R s (Thread_isSuspended env s)" "kp R s (Thread_resume env s)"
    "kp R s (Thread_state env s)" "kp R s (Thread_suspend env s)" "kp R s (Thread_yield s)" "kp R s (Raise_Run env s)"
  unfolding Thread_current_def Thread_isSuspended_def Thread_resume_def Thread_state_def Thread_suspend_def Thread_yield_def Raise_Run_def
  using keeps_refl [OF assms] by (intro kp_all; auto intro: keeps_steps)+

lemma prim_holes:
  assumes "sched_ok R s"
  shows "kp R s (Hole_fail env s)" "kp R s (Hole_fill env s)" "kp R s (Hole_future s)" "kp R s (Hole_hole s)" "kp R s (Hole_isHole s)"
  unfolding Hole_fail_def Hole_fill_def Hole_future_def Hole_hole_def Hole_isHole_def Let_def
  using keeps_refl [OF assms] by (intro kp_all; auto intro: keeps_steps)+

lemma prim_promises:
  assumes "sched_ok R s"
  shows "kp R s (Promise_fail env e s)" "kp R s (Promise_fulfill env e s)" "kp R s (Promise_future env s)"
    "kp R s (Promise_isFulfilled env s)" "kp R s (Promise_promise s)"
  unfolding Promise_fail_def Promise_fulfill_def Promise_future_def Promise_isFulfilled_def Promise_promise_def Let_def
  using keeps_refl [OF assms] by (intro kp_all; auto intro: keeps_steps)+

lemma prim_cells:
  assumes "sched_ok R s"
  shows "kp R s (Ref_equal env s)" "kp R s (Ref_assign env s)" "kp R s (Ref_exchange env s)"
    "kp R s (Exn_currentPacket env e s)" "kp R s (Exn_reraise s)"
  unfolding Ref_equal_def Ref_assign_def Ref_exchange_def Exn_currentPacket_def Exn_reraise_def Let_def
  using keeps_refl [OF assms] by (intro kp_all; auto intro: keeps_steps)+

lemma prim_futures:
  assumes "sched_ok R s"
  shows "kp R s (Future_await env s)" "kp R s (Future_byneed s)" "kp R s (Future_isByneed s)" "kp R s (Future_status env s)"
  unfolding Future_await_def Future_byneed_def Future_isByneed_def Future_status_def Let_def
  using keeps_refl [OF assms] by (intro kp_all; auto intro: keeps_steps)+

lemma prim_Future_concur:
  assumes "sched_ok R s"
  shows "kp R s (Future_concur env s)"
  unfolding kp_def
proof (intro allI impI)
  fix r s' assume "Future_concur env s = Some (r, s')"
  then obtain self s1 x0 t s3 s4 s5 where p: "POP_PRIM_SELF 1 s = Some (self, s1)"
      "NewThread env 0 (ArgW (IntW 0)) (snd (new_transient (FutureT None) s1)) = Some (t, s3)"
      "BindFuture_PushFrame env t (fst (new_transient (FutureT None) s1)) s3 = Some (Some s4)"
      "PushCall_PushFrame env t x0 s4 = Some (Some s5)" "RETURN1 (TrW (fst (new_transient (FutureT None) s1))) s5 = Some (r, s')"
    by (auto simp: Future_concur_def run_elims case_prod_beta)
  have k: "keeps R s s1" using p(1) keeps_refl [OF assms] by (rule keeps_steps)
  have "keeps R s1 s5"
    by (rule keeps_concur [OF keeps_ok [OF k] _ p(2-4)]) simp
  then show "keeps R s s'" using k p(5) same_RETURN(2) keeps_step_same keeps_trans by blast
qed

lemma prim_function_keeps:
  assumes "sched_ok R s"
  shows "kp R s (prim_function env pn p s)"
proof -
  have "kp R s (Thread_raiseIn env w e s)" for w e using prim_Thread_raiseIn [OF assms] by (auto simp: kp_def)
  then show ?thesis
    using prim_threads [OF assms] prim_futures [OF assms] prim_Future_concur [OF assms] prim_holes [OF assms]
      prim_promises [OF assms] prim_cells [OF assms]
    by (cases p) (simp_all add: prim_function_def)
qed

lemma PrimitiveInterpreter_Run_keeps:
  assumes "sched_ok R s" and f: "\<And>s1. sched_ok R s1 \<Longrightarrow> kp R s1 (f s1)"
  shows "kp R s (PrimitiveInterpreter_Run n f s)"
proof -
  have step: "kp R s (f s1)" if "keeps R s s1" for s1
    using f [OF keeps_ok [OF that]] keeps_trans that by (auto simp: kp_def)
  show ?thesis unfolding PrimitiveInterpreter_Run_def using keeps_refl [OF assms(1)]
    by (intro kp_rules step; auto intro: keeps_steps)
qed

text \<open>The machine of the built-in workers and the primitives is a client of the scheduler.\<close>

interpretation prim: scheduler_client "prim_env env pn" for env pn
proof unfold_locales
  let ?b = "prim_base env pn"
  fix t s s' r w
  assume ok: "sched_ok (Some t) s" "sc_current s = Some t"
  show "keeps (Some t) s s'" if run: "ev_run (prim_env env pn) w s = Some (r, s')"
  proof (cases "w = pn_raise pn")
    case True
    then have "Raise_Run ?b s = Some (r, s')" using run by (simp add: prim_env_def Let_def)
    then show ?thesis using prim_threads(7) [OF ok(1)] by (auto simp: kp_def)
  next
    case False
    then obtain p where "PrimitiveInterpreter_Run (prim_arity p) (prim_function ?b pn p) s = Some (r, s')"
      using run by (auto simp: prim_env_def Let_def split: option.splits)
    then show ?thesis using PrimitiveInterpreter_Run_keeps [OF ok(1) prim_function_keeps] by (auto simp: kp_def)
  qed
  show "keeps (Some t) s s'" if "ev_handle (prim_env env pn) w d p s = Some (r, s')" for d p
    using that ok(1) by (auto simp: prim_env_def prim_base_def Let_def keeps_def)
  show "keeps (Some t) s s'" if run: "ev_enter (prim_env env pn) c s = Some (Some s')" for c
  proof -
    have "same_sched s s'"
      using run by (auto simp: prim_env_def Let_def PrimitiveInterpreter_PushCall_def run_elims) (erule same_new_frame)
    then show ?thesis using keeps_same ok(1) by blast
  qed
next
  fix s s'
  show "sched_ok None s \<Longrightarrow> ev_poll (prim_env env pn) s = Some s' \<Longrightarrow> sched_ok None s'"
    "sched_ok None s \<Longrightarrow> ev_block (prim_env env pn) s = Some s' \<Longrightarrow> sched_ok None s'"
    by (simp_all add: prim_env_def prim_base_def Let_def)
qed

end
