(* ===== verification/Scheduler_Props.thy ===== *)
theory Scheduler_Props
  imports Thread_Prims
begin

text \<open>
  What the scheduler guarantees: the properties of the machine that runs the built-in workers and the concurrency
  primitives, of waking, suspending and switching threads, and of binding holes and promises.
\<close>

section \<open>The start\<close>

text \<open>\<^verbatim>\<open>Scheduler::Init\<close>: an empty ready queue and no objects yet.\<close>

definition Scheduler_Init :: "senv \<Rightarrow> sched \<Rightarrow> sched option" where
  "Scheduler_Init env s = do { q \<leftarrow> ThreadQueue_New env; Some (s\<lparr>sc_queue := q\<rparr>) }"

definition no_objects :: sched where
  "no_objects = \<lparr>sc_threads = Map.empty, sc_trans = Map.empty, sc_blocks = Map.empty, sc_chunks = Map.empty, sc_maps = Map.empty, sc_backtraces = Map.empty, sc_next = 1,
     sc_queue = \<lparr>readIndex = 0, writeIndex = 0, q_array = []\<rparr>, sc_current = None, sc_nArgs = 0, sc_args = replicate 16 (IntW 0),
     sc_data = IntW 0, sc_backtrace = 0, sc_stack = \<lparr>db_active = 0, db_args = []\<rparr>, sc_top = 0, sc_uncaught = IntW 0\<rparr>"

lemma Scheduler_Init_ok: "\<exists>s. Scheduler_Init env no_objects = Some s \<and> sched_ok None s \<and> queue_elems (sc_queue s) = []"
proof -
  obtain q where q: "Queue_New (ev_junk env) ThreadQueue_threshold = Some q" "queue_inv q" "queue_elems q = []"
    using Queue_New_spec [of ThreadQueue_threshold "ev_junk env"] by (auto simp: ThreadQueue_threshold_def)
  have "ref_rank Map.empty (\<lambda>_. 0)" by (simp add: ref_rank_def)
  then have "refs_ok Map.empty" by (auto simp: refs_ok_def)
  moreover have "tview no_objects = Map.empty" by (auto simp: tview_def no_objects_def)
  ultimately have "ok_view None (tview no_objects) Map.empty q 1" using q by (auto simp: ok_view_def ready_of_def)
  moreover have "sc_trans no_objects = Map.empty" "sc_next no_objects = 1" by (simp_all add: no_objects_def)
  ultimately show ?thesis using q by (simp add: Scheduler_Init_def ThreadQueue_New_def sched_ok_def)
qed

section \<open>The ready queue does not run full\<close>

text \<open>
  Queues grow by half when they are full. A queue in a block of unscaled size that holds fewer than two thirds of the
  greatest number of entries accepts another element and stays within the bound.
\<close>

definition queue_bound :: "queue \<Rightarrow> bool" where
  "queue_bound q \<longleftrightarrow> length (q_array q) \<le> 1048575"

lemma enqueue_bound:
  assumes "queue_inv q" and "queue_bound q" and "length (queue_elems q) < 699049"
  shows "\<exists>q'. Queue_Enqueue junk w q = Some q' \<and> queue_inv q' \<and> queue_bound q' \<and> queue_elems q' = queue_elems q @ [w]"
proof -
  let ?s = "length (q_array q)" and ?wi = "if writeIndex q + 1 = length (q_array q) then 0 else writeIndex q + 1"
  define q1 where "q1 = q\<lparr>q_array := (q_array q)[writeIndex q := w], writeIndex := ?wi\<rparr>"
  have run: "Queue_Enqueue junk w q = (if ?wi = readIndex q then Queue_Enlarge junk (?s div 2) q1 else Some q1)"
    using assms(1) by (auto simp: Queue_Enqueue_def q1_def queue_inv_def run_simps Let_def Assert_def)
  have "queue_room q" using assms(2) by (simp add: queue_room_def queue_bound_def)
  then obtain q' where q': "Queue_Enqueue junk w q = Some q'" "queue_inv q'" "queue_elems q' = queue_elems q @ [w]"
    using Queue_Enqueue_spec [OF assms(1)] by blast
  have "queue_bound q'"
  proof (cases "?wi = readIndex q")
    case False
    then have "q' = q1" using run q'(1) by simp
    then show ?thesis using assms(2) by (simp add: q1_def queue_bound_def)
  next
    case True
    have full: "length (queue_elems q) + 1 = ?s"
      using True assms(1) length_queue_elems [OF assms(1)] by (auto simp: number_of_elements queue_inv_def split: if_splits)
    then have small: "?s + ?s div 2 \<le> 1048575" using assms(3) by simp
    have "Queue_Enlarge junk (?s div 2) q1 = Some q'" using run q'(1) True by simp
    then have "length (q_array q') = alloc_size (?s + ?s div 2)"
      by (auto simp: Queue_Enlarge_def run_elims Let_def q1_def dest!: length_copy_words)
    then show ?thesis using alloc_size_bounds(4) [of "?s + ?s div 2"] small by (simp add: queue_bound_def)
  qed
  then show ?thesis using q' by blast
qed

section \<open>Waking threads\<close>

definition awake_words :: "sched \<Rightarrow> store_word list \<Rightarrow> store_word list" where
  "awake_words s ws = filter (\<lambda>w. case w of BlkW t \<Rightarrow> (case sc_threads s t of Some th \<Rightarrow> \<not> th_suspended th | None \<Rightarrow> False) | _ \<Rightarrow> False) ws"

lemma WakeupThread_total:
  assumes ok: "sched_ok r s" and f: "sc_trans s f = Some (FutureT (Some w))" and t: "BlkW t \<in> set (queue_elems w)"
    and b: "queue_bound (sc_queue s)" "length (queue_elems (sc_queue s)) < 699049"
  shows "\<exists>s'. WakeupThread env t (s\<lparr>sc_trans := T\<rparr>) = Some s' \<and> queue_bound (sc_queue s') \<and>
    sc_threads s' = (sc_threads s)(t \<mapsto> Thread_Wakeup (the (sc_threads s t))) \<and>
    queue_elems (sc_queue s') = queue_elems (sc_queue s) @ awake_words s [BlkW t]"
proof -
  note D = ok_viewD [OF ok [unfolded sched_ok_def]]
  obtain x d where "tview s t = Some (BLOCKED, x, TrW f, d)" using t D(9) [OF f] by (auto simp: mem_waiting_of)
  then obtain th where th: "sc_threads s t = Some th" "th_state th = BLOCKED" "th_suspended th = x" by (auto simp: tview_def view_def)
  obtain q where q: "Queue_Enqueue (ev_junk env) (BlkW t) (sc_queue s) = Some q" "queue_bound q" "queue_elems q = queue_elems (sc_queue s) @ [BlkW t]"
    using enqueue_bound [OF D(4) b] by blast
  show ?thesis
    using th q b by (cases x) (auto simp: WakeupThread_def upd_thread_def ScheduleThread_def ThreadQueue_Enqueue_def
        Thread_Wakeup_def Thread_SetState_def awake_words_def)
qed

lemma wake_all_total:
  assumes "sched_ok r s" and "sc_trans s f = Some (FutureT (Some q))" and "queue_bound (sc_queue s)"
    and "length (queue_elems (sc_queue s)) + length (queue_elems q) \<le> 699049"
  shows "\<exists>s'. wake_all env f q s = Some s' \<and> queue_bound (sc_queue s') \<and>
    queue_elems (sc_queue s') = queue_elems (sc_queue s) @ awake_words s (queue_elems q) \<and>
    (\<forall>t. sc_threads s' t = (if BlkW t \<in> set (queue_elems q) then map_option Thread_Wakeup (sc_threads s t) else sc_threads s t))"
  using assms
proof (induction "length (queue_elems q)" arbitrary: q s rule: less_induct)
  case less
  note D = ok_viewD [OF less.prems(1) [unfolded sched_ok_def]]
  note qi = D(7) [OF less.prems(2)]
  show ?case
  proof (cases "Queue_IsEmpty q")
    case True
    then have "queue_elems q = []" using queue_empty_iff [OF qi] by simp
    then show ?thesis using True less.prems by (subst wake_all.simps) (simp add: awake_words_def)
  next
    case False
    then obtain w ws where ws: "queue_elems q = w # ws" using queue_empty_iff [OF qi] by (cases "queue_elems q") auto
    obtain q' where q': "Queue_Dequeue q = Some (w, q')" "queue_inv q'" "queue_elems q' = ws"
      using Queue_Dequeue_spec [OF qi ws] by blast
    have "w \<in> waiting_of f (tview s)" using D(9) [OF less.prems(2)] ws by auto
    then obtain t th where t: "w = BlkW t" "sc_threads s t = Some th" by (auto simp: waiting_of_def tview_def)
    then have tin: "BlkW t \<in> set (queue_elems q)" and wt: "word_thread s w = Some t" using ws by (auto simp: word_thread_def)
    have nin: "BlkW t \<notin> set ws" using D(8) [OF less.prems(2)] ws t(1) by simp
    let ?s0 = "s\<lparr>sc_trans := (sc_trans s)(f \<mapsto> FutureT (Some q'))\<rparr>"
    have "length (queue_elems (sc_queue s)) < 699049" using less.prems(4) ws by simp
    then obtain s1 where s1: "WakeupThread env t ?s0 = Some s1" "queue_bound (sc_queue s1)"
        "sc_threads s1 = (sc_threads s)(t \<mapsto> Thread_Wakeup th)"
        "queue_elems (sc_queue s1) = queue_elems (sc_queue s) @ awake_words s [BlkW t]"
      using WakeupThread_total [OF less.prems(1,2) tin less.prems(3)] t(2) by fastforce
    have "queue_elems q' = remove1 (BlkW t) (queue_elems q)" using ws q'(3) t(1) by simp
    note W = WakeupThread_ok [OF less.prems(1,2) tin q'(2) this s1(1)]
    have len: "length (awake_words s [BlkW t]) \<le> 1" by (simp add: awake_words_def)
    have "\<exists>s'. wake_all env f q' s1 = Some s' \<and> queue_bound (sc_queue s') \<and>
      queue_elems (sc_queue s') = queue_elems (sc_queue s1) @ awake_words s1 (queue_elems q') \<and>
      (\<forall>u. sc_threads s' u = (if BlkW u \<in> set (queue_elems q') then map_option Thread_Wakeup (sc_threads s1 u) else sc_threads s1 u))"
      by (rule less.hyps [OF _ keeps_ok [OF W(1)]]) (use ws q'(3) W(2) s1 less.prems(4) len in auto)
    then obtain s' where s': "wake_all env f q' s1 = Some s'" "queue_bound (sc_queue s')"
      "queue_elems (sc_queue s') = queue_elems (sc_queue s1) @ awake_words s1 ws"
      "\<And>u. sc_threads s' u = (if BlkW u \<in> set ws then map_option Thread_Wakeup (sc_threads s1 u) else sc_threads s1 u)"
      unfolding q'(3) by blast
    have "awake_words s1 ws = awake_words s ws"
      unfolding awake_words_def by (rule filter_cong) (use nin s1(3) in \<open>auto split: store_word.splits\<close>)
    moreover have "wake_all env f q s = Some s'" using False q'(1) wt s1(1) s'(1) by (subst wake_all.simps) simp
    moreover have "awake_words s (queue_elems q) = awake_words s [BlkW t] @ awake_words s ws" using ws t(1) by (simp add: awake_words_def)
    ultimately show ?thesis using s' s1(3,4) ws t nin by auto
  qed
qed

lemma ScheduleWaitingThreads_total:
  assumes "sched_ok r s" and "sc_trans s f = Some (FutureT wq)" and "queue_bound (sc_queue s)"
    and "length (queue_elems (sc_queue s)) + length (case wq of None \<Rightarrow> [] | Some q \<Rightarrow> queue_elems q) \<le> 699049"
  shows "\<exists>s'. ScheduleWaitingThreads env f s = Some s' \<and> queue_bound (sc_queue s') \<and>
    queue_elems (sc_queue s') = queue_elems (sc_queue s) @ awake_words s (case wq of None \<Rightarrow> [] | Some q \<Rightarrow> queue_elems q) \<and>
    (\<forall>t. sc_threads s' t = (if BlkW t \<in> set (case wq of None \<Rightarrow> [] | Some q \<Rightarrow> queue_elems q)
       then map_option Thread_Wakeup (sc_threads s t) else sc_threads s t))"
proof (cases wq)
  case None
  then show ?thesis using assms by (simp add: ScheduleWaitingThreads_def Future_queue_def awake_words_def)
next
  case (Some q)
  then show ?thesis using wake_all_total [OF assms(1), of f q env] assms
    by (simp add: ScheduleWaitingThreads_def Future_queue_def)
qed

section \<open>Purging, suspending and resuming\<close>

text \<open>In the machine of the primitives every frame has a positive size and purging leaves it as it is.\<close>

lemma purge_prim:
  assumes "tp \<le> length (db_args st)"
  shows "purge_frames (worker_size (prim_base env pn)) (worker_purge (prim_base env pn)) tp st = Some st"
  using assms
proof (induction tp rule: less_induct)
  case (less tp)
  show ?case
  proof (cases "tp = 0")
    case False
    let ?w = "db_args st ! (tp - 1)"
    have w: "Frame_GetWorker tp st = Some ?w" using False less.prems by (simp add: Frame_GetWorker_def run_simps)
    have "\<exists>n. worker_size (prim_base env pn) tp st = Some n \<and> 0 < n"
      using w by (simp add: worker_size_def prim_base_def)
    then obtain n where n: "worker_size (prim_base env pn) tp st = Some n" "0 < n" by blast
    have "worker_purge (prim_base env pn) tp st = Some st" using w by (auto simp: worker_purge_def prim_base_def)
    then show ?thesis using False n less.IH [of "tp - n"] less.prems by (subst purge_frames.simps) simp
  qed (subst purge_frames.simps, simp)
qed

lemma Thread_Purge_prim:
  assumes "sc_threads s t = Some th" and "th_stack th = Some st" and "db_active st \<le> length (db_args st)"
  shows "Thread_Purge (prim_base env pn) t s = Some s"
proof -
  have "TaskStack_Purge (worker_size (prim_base env pn)) (worker_purge (prim_base env pn)) st = Some st"
    using purge_prim [OF assms(3)] by (simp add: TaskStack_Purge_def)
  moreover have e1: "th\<lparr>th_stack := Some st\<rparr> = th" using assms(2) by (cases th) simp
  have e2: "(sc_threads s)(t \<mapsto> th) = sc_threads s" using assms(1) by (rule fun_upd_idem)
  have "s\<lparr>sc_threads := (sc_threads s)(t \<mapsto> th\<lparr>th_stack := Some st\<rparr>)\<rparr> = s" unfolding e1 e2 by simp
  ultimately show ?thesis using assms(1,2) by (simp add: Thread_Purge_def upd_thread_def)
qed

definition running :: "run_mode \<Rightarrow> sched \<Rightarrow> addr option" where
  "running m s = (case m of Running \<Rightarrow> sc_current s | Interpret r \<Rightarrow> sc_current s | Exited i \<Rightarrow> sc_current s | _ \<Rightarrow> None)"

lemma mode_ok_running: "mode_ok (m, s) \<Longrightarrow> sched_ok (running m s) s"
  by (cases m) (auto simp: mode_ok_def running_def)

lemma mode_ok_queues:
  assumes "mode_ok (m, s)"
  shows "sched_ok (running m s) s \<and> distinct (queue_elems (sc_queue s)) \<and> refs_ok (sc_trans s) \<and>
    (\<forall>t th. sc_threads s t = Some th \<longrightarrow>
      (BlkW t \<in> set (queue_elems (sc_queue s)) \<longleftrightarrow> th_state th = RUNNABLE \<and> \<not> th_suspended th \<and> running m s \<noteq> Some t) \<and>
      (th_state th = BLOCKED \<longrightarrow> (\<exists>f q. th_future th = TrW f \<and> sc_trans s f = Some (FutureT (Some q)) \<and> BlkW t \<in> set (queue_elems q))))"
proof -
  have ok: "sched_ok (running m s) s" using assms by (rule mode_ok_running)
  note D = ok_viewD [OF ok [unfolded sched_ok_def]]
  have v: "tview s t = Some (th_state th, th_suspended th, th_future th, th_stack th = None)" if "sc_threads s t = Some th" for t th
    using that by (simp add: tview_def view_def)
  show ?thesis
  proof (intro conjI allI impI)
    fix t th assume th: "sc_threads s t = Some th"
    show "BlkW t \<in> set (queue_elems (sc_queue s)) \<longleftrightarrow> th_state th = RUNNABLE \<and> \<not> th_suspended th \<and> running m s \<noteq> Some t"
      using D(6) v [OF th] by (auto simp: mem_ready_of)
    assume b: "th_state th = BLOCKED"
    then obtain f q where f: "th_future th = TrW f" "sc_trans s f = Some (FutureT (Some q))"
      using D(10) [of t "th_suspended th" "th_future th" "th_stack th = None"] v [OF th] by auto
    then have "BlkW t \<in> set (queue_elems q)" using D(9) [OF f(2)] v [OF th] b by (simp add: mem_waiting_of)
    then show "\<exists>f q. th_future th = TrW f \<and> sc_trans s f = Some (FutureT (Some q)) \<and> BlkW t \<in> set (queue_elems q)"
      using f by blast
  qed (use ok D(3,5) in auto)
qed

section \<open>Properties\<close>


lemma NewThread_total:
  assumes "sched_ok r s" and "queue_bound (sc_queue s)" and "length (queue_elems (sc_queue s)) < 699049"
  shows "\<exists>s' th st. NewThread env k a s = Some (sc_next s, s') \<and> sched_ok r s' \<and> sc_threads s' (sc_next s) = Some th \<and>
    th_state th = RUNNABLE \<and> \<not> th_suspended th \<and> th_nargs th = k \<and> th_args th = a \<and>
    th_stack th = Some st \<and> db_active st \<le> length (db_args st) \<and>
    queue_bound (sc_queue s') \<and> queue_elems (sc_queue s') = queue_elems (sc_queue s) @ [BlkW (sc_next s)]"
proof -
  obtain st where st: "TaskStack_New (ev_junk env) (ev_emptyTask env) TASKSTACK_INITIAL_SIZE = Some st" "db_active st \<le> length (db_args st)"
    using TaskStack_New_spec [of 20 "ev_junk env" "ev_emptyTask env"] by (fastforce simp: TASKSTACK_INITIAL_SIZE_def)
  obtain h where h: "Handlers_New (ev_hjunk env) = Some h" using Handlers_New_spec by blast
  have "queue_inv (sc_queue s)" using ok_viewD(4) [OF assms(1) [unfolded sched_ok_def]] .
  then obtain q where "Queue_Enqueue (ev_junk env) (BlkW (sc_next s)) (sc_queue s) = Some q" "queue_bound q"
      "queue_elems q = queue_elems (sc_queue s) @ [BlkW (sc_next s)]" using enqueue_bound assms(2,3) by blast
  then obtain s' th where "NewThread env k a s = Some (sc_next s, s')" "sc_threads s' (sc_next s) = Some th"
    "th_state th = RUNNABLE" "\<not> th_suspended th" "th_nargs th = k" "th_args th = a" "th_stack th = Some st"
    "queue_bound (sc_queue s')" "queue_elems (sc_queue s') = queue_elems (sc_queue s) @ [BlkW (sc_next s)]"
    using st h by (auto simp: NewThread_def Thread_New_def ThreadQueue_Enqueue_def Let_def)
  then show ?thesis using NewThread_ok(1) [OF assms(1)] keeps_ok st by blast
qed

text \<open>A machine without primitives, for concrete runs.\<close>

definition bare_env :: senv where
  "bare_env = \<lparr>ev_junk = (\<lambda>_. IntW 0), ev_hjunk = (\<lambda>_. HFrame 0), ev_emptyTask = IntW 1, ev_pushCall = IntW 2, ev_bindFuture = IntW 3,
     ev_uncaught = IntW 4, ev_holeExn = IntW 5, ev_cyclicExn = IntW 6, ev_stackError = IntW 7, ev_run = (\<lambda>w s. None),
     ev_handle = (\<lambda>w d p s. None), ev_size = (\<lambda>w tp st. None), ev_purge = (\<lambda>w tp st. None), ev_traceable = (\<lambda>w. False),
     ev_enter = (\<lambda>c s. None), ev_status = (\<lambda>s. False), ev_needGC = (\<lambda>s. False), ev_poll = Some, ev_block = Some\<rparr>"

definition no_prims :: prim_names where
  "no_prims = \<lparr>pn_table = Map.empty, pn_raise = IntW 8, pn_terminated = IntW 9, pn_promise = IntW 10, pn_noPacket = IntW 11\<rparr>"

lemma start_thread:
  "\<exists>s0 s. Scheduler_Init env no_objects = Some s0 \<and> sched_ok None s \<and> NewThread env 0 (ArgW (IntW 0)) s0 = Some (sc_next s0, s) \<and>
    (\<exists>th. sc_threads s (sc_next s0) = Some th \<and> th_state th = RUNNABLE \<and> \<not> th_suspended th)"
proof -
  obtain s0 where s0: "Scheduler_Init env no_objects = Some s0" "sched_ok None s0" "queue_elems (sc_queue s0) = []"
    using Scheduler_Init_ok by blast
  have "queue_bound (sc_queue s0)"
    using s0(1) alloc_size_bounds(4) [of 8] by (auto simp: Scheduler_Init_def ThreadQueue_New_def Queue_New_def run_elims ThreadQueue_threshold_def queue_bound_def)
  then show ?thesis using NewThread_total [OF s0(2), of env 0 "ArgW (IntW 0)"] s0 by auto
qed



lemma Scheduler_Init_bound: "Scheduler_Init env no_objects = Some s \<Longrightarrow> queue_bound (sc_queue s)"
  using alloc_size_bounds(4) [of 8]
  by (auto simp: Scheduler_Init_def ThreadQueue_New_def Queue_New_def run_elims ThreadQueue_threshold_def queue_bound_def)


lemma Queue_Remove_end_length: "Queue_Remove_end w i q = Some q' \<Longrightarrow> length (q_array q') = length (q_array q)"
  by (auto simp: Queue_Remove_end_def Queue_SetWriteIndex_def run_elims split: option.splits dest!: length_copy_words)

lemma Queue_Remove_length: "Queue_Remove w q = Some q' \<Longrightarrow> length (q_array q') = length (q_array q)"
  by (auto simp: Queue_Remove_def Queue_SetReadIndex_def Let_def run_elims Queue_Remove_end_length
      split: if_splits option.splits dest!: length_copy_words)

lemma word_ready_iff:
  assumes "sched_ok r s" and "sc_threads s t = Some th"
  shows "BlkW t \<in> set (queue_elems (sc_queue s)) \<longleftrightarrow> th_state th = RUNNABLE \<and> \<not> th_suspended th \<and> r \<noteq> Some t"
  using ok_viewD(6) [OF assms(1) [unfolded sched_ok_def]] assms(2) by (auto simp: mem_ready_of tview_def view_def)

text \<open>
  C23: suspending a thread that is not running returns, and the thread is then in no queue it could be dispatched from;
  resuming it returns, and a runnable thread is again ready, behind all others, with its state as it was.
\<close>

theorem suspend_resume:
  assumes "sched_ok r s" and "sc_threads s t = Some th" and "th_stack th = Some st" and "db_active st \<le> length (db_args st)"
    and "queue_bound (sc_queue s)" and "length (queue_elems (sc_queue s)) < 699049" and "\<not> th_suspended th"
  shows "\<exists>s1 s2. SuspendThread (prim_base env pn) t s = Some s1 \<and> sched_ok r s1 \<and>
    queue_elems (sc_queue s1) = removeAll (BlkW t) (queue_elems (sc_queue s)) \<and>
    ResumeThread (prim_base env pn) t s1 = Some s2 \<and> sched_ok r s2 \<and> sc_threads s2 = sc_threads s \<and>
    queue_elems (sc_queue s2) = removeAll (BlkW t) (queue_elems (sc_queue s)) @ (if th_state th = RUNNABLE then [BlkW t] else [])"
proof -
  let ?e = "prim_base env pn" and ?th = "th\<lparr>th_suspended := True\<rparr>"
  note D = ok_viewD [OF assms(1) [unfolded sched_ok_def]]
  let ?s0 = "s\<lparr>sc_threads := (sc_threads s)(t \<mapsto> ?th)\<rparr>"
  have pu: "Thread_Purge ?e t ?s0 = Some ?s0" by (rule Thread_Purge_prim [where th = ?th and st = st]) (use assms(3,4) in auto)
  define q1 where "q1 = (if th_state th = RUNNABLE then the (Queue_Remove (BlkW t) (sc_queue s)) else sc_queue s)"
  obtain q0 where q0: "Queue_Remove (BlkW t) (sc_queue s) = Some q0" "queue_inv q0" "queue_elems q0 = remove1 (BlkW t) (queue_elems (sc_queue s))"
    using Queue_Remove_spec [OF D(4)] by blast
  have nr: "r \<noteq> Some t" using D(11) [of t "th_state th" "th_suspended th" "th_future th" "th_stack th = None"] assms(2,3) by (simp add: tview_def view_def)
  have "BlkW t \<notin> set (queue_elems (sc_queue s))" if "th_state th \<noteq> RUNNABLE" using word_ready_iff [OF assms(1,2)] that by simp
  then have q1: "queue_inv q1" "queue_elems q1 = removeAll (BlkW t) (queue_elems (sc_queue s))"
    using q0 D(4,5) by (auto simp: q1_def distinct_remove1_removeAll)
  have s1: "SuspendThread ?e t s = Some (?s0\<lparr>sc_queue := q1\<rparr>)"
    using assms(2) pu q0(1) by (simp add: SuspendThread_def upd_thread_def Thread_Suspend_def ThreadQueue_Remove_def q1_def)
  have ok1: "sched_ok r (?s0\<lparr>sc_queue := q1\<rparr>)" using keeps_ok [OF SuspendThread_ok [OF assms(1) s1]] .
  have "length (q_array q0) = length (q_array (sc_queue s))"
    using Queue_Remove_length [OF q0(1)] .
  then have b1: "queue_bound q1" using assms(5) q0(1) by (simp add: q1_def queue_bound_def)
  have l1: "length (queue_elems q1) < 699049" using q1(2) assms(6) length_removeAll_less_eq le_less_trans by metis
  obtain q2 where q2: "Queue_Enqueue (ev_junk ?e) (BlkW t) q1 = Some q2" "queue_elems q2 = queue_elems q1 @ [BlkW t]"
    using enqueue_bound [OF q1(1) b1 l1] by blast
  have back_th: "?th\<lparr>th_suspended := False\<rparr> = th" using assms(7) by (cases th) simp
  have back_map: "(sc_threads s)(t \<mapsto> th) = sc_threads s" using assms(2) by (rule fun_upd_idem)
  define s2 where "s2 = s\<lparr>sc_queue := (if th_state th = RUNNABLE then q2 else q1)\<rparr>"
  have r2: "ResumeThread ?e t (?s0\<lparr>sc_queue := q1\<rparr>) = Some s2"
    using q2(1) back_th back_map assms(2)
    by (cases "th_state th = RUNNABLE") (simp_all add: ResumeThread_def upd_thread_def ScheduleThread_def ThreadQueue_Enqueue_def Thread_Resume_def s2_def)
  have "sched_ok r s2" using keeps_ok [OF ResumeThread_ok [OF ok1 r2]] .
  then show ?thesis using s1 ok1 q1(2) r2 q2(2) by (simp add: s2_def)
qed

theorem suspend_resume_witness:
  "\<exists>s0 s s1 s2. Scheduler_Init (prim_base bare_env no_prims) no_objects = Some s0 \<and>
    NewThread (prim_base bare_env no_prims) 0 (ArgW (IntW 0)) s0 = Some (1, s) \<and> queue_elems (sc_queue s) = [BlkW 1] \<and>
    SuspendThread (prim_base bare_env no_prims) 1 s = Some s1 \<and> queue_elems (sc_queue s1) = [] \<and>
    ResumeThread (prim_base bare_env no_prims) 1 s1 = Some s2 \<and> queue_elems (sc_queue s2) = [BlkW 1]"
proof -
  let ?e = "prim_base bare_env no_prims"
  obtain s0 where s0: "Scheduler_Init ?e no_objects = Some s0" "sched_ok None s0" "queue_elems (sc_queue s0) = []"
    using Scheduler_Init_ok by blast
  have n: "sc_next s0 = 1" using s0(1) by (auto simp: Scheduler_Init_def no_objects_def run_elims)
  obtain s th st where s: "NewThread ?e 0 (ArgW (IntW 0)) s0 = Some (1, s)" "sched_ok None s" "sc_threads s 1 = Some th"
      "th_state th = RUNNABLE" "\<not> th_suspended th" "th_stack th = Some st" "db_active st \<le> length (db_args st)"
      "queue_bound (sc_queue s)" "queue_elems (sc_queue s) = [BlkW 1]"
    using NewThread_total [OF s0(2) Scheduler_Init_bound [OF s0(1)], of ?e 0 "ArgW (IntW 0)"] s0(3) n by auto
  show ?thesis using suspend_resume [OF s(2,3,6,7,8) _ s(5), of bare_env no_prims] s0(1) s by fastforce
qed

section \<open>Switching threads\<close>

text \<open>
  C24: a thread that is flushed and later switched to finds its stack, its stack top and its arguments as they were,
  whatever the registers of the scheduler held in between; only the thread's own copies of them have changed.
\<close>

theorem flush_switch:
  assumes "sc_current s = Some t" and "sc_threads s t = Some th" and "th_stack th = None"
    and "th_state th = RUNNABLE" and "\<not> th_suspended th"
    and "sc_top s < length (db_args (sc_stack s))" and "sc_nArgs s < maxArgs" and "length (sc_args s) = maxArgs"
  shows "\<exists>s1. FlushThread s = Some s1 \<and> (\<forall>n args st k. length args = maxArgs \<longrightarrow>
    (\<exists>s2. SwitchToThread (s1\<lparr>sc_nArgs := n, sc_args := args, sc_stack := st, sc_top := k\<rparr>) = Some s2 \<and>
      sc_top s2 = sc_top s \<and> db_args (sc_stack s2) = db_args (sc_stack s) \<and> db_active (sc_stack s2) = sc_top s \<and>
      sc_nArgs s2 = sc_nArgs s \<and> take (sc_nArgs s) (sc_args s2) = take (sc_nArgs s) (sc_args s) \<and>
      (\<forall>u. u \<noteq> t \<longrightarrow> sc_threads s2 u = sc_threads s u) \<and>
      (\<exists>a. sc_threads s2 t = Some (th\<lparr>th_nargs := sc_nArgs s, th_args := a\<rparr>))))"
proof -
  let ?n = "sc_nArgs s" and ?st = "(sc_stack s)\<lparr>db_active := sc_top s\<rparr>"
  define a where "a = (if ?n = 0 then ArgW (IntW 0) else if ?n = 1 then ArgW (sc_args s ! 0) else ArgsBlk (take ?n (sc_args s)))"
  define th1 where "th1 = th\<lparr>th_stack := Some ?st, th_nargs := ?n, th_args := a\<rparr>"
  have f: "FlushThread s = Some (s\<lparr>sc_threads := (sc_threads s)(t \<mapsto> th1)\<rparr>)"
    using assms by (auto simp: FlushThread_def SetActiveSize_def upd_current_def Thread_SetTaskStack_def Thread_SetArgs_def
        a_def th1_def run_simps maxArgs_def)
  have th1: "th1\<lparr>th_stack := None\<rparr> = th\<lparr>th_nargs := ?n, th_args := a\<rparr>" using assms(3) by (cases th) (simp add: th1_def)
  have tk: "take ?n ((args :: store_word list)[0 := sc_args s ! 0]) = take ?n (sc_args s)" if "?n = 1" "length args = maxArgs" for args
    using that assms(8) by (cases args; cases "sc_args s") (auto simp: maxArgs_def)
  have "\<exists>s2. SwitchToThread (s\<lparr>sc_threads := (sc_threads s)(t \<mapsto> th1), sc_nArgs := n, sc_args := args, sc_stack := st, sc_top := k\<rparr>) = Some s2 \<and>
      sc_top s2 = sc_top s \<and> sc_stack s2 = ?st \<and> sc_nArgs s2 = ?n \<and> take ?n (sc_args s2) = take ?n (sc_args s) \<and>
      sc_threads s2 = (sc_threads s)(t \<mapsto> th1\<lparr>th_stack := None\<rparr>)" if "length args = maxArgs" for n args st k
    using assms tk [OF _ that] that
    by (auto simp: SwitchToThread_def Thread_GetTaskStack_def th1_def a_def run_simps maxArgs_def Let_def)
  then show ?thesis using f th1 by fastforce
qed

theorem flush_switch_witness:
  "\<exists>s1 s2. FlushThread (no_objects\<lparr>sc_threads := [5 \<mapsto> \<lparr>th_priority = NORMAL, th_state = RUNNABLE, th_suspended = False, th_stack = None,
      th_nargs = 0, th_args = ArgW (IntW 0), th_future = IntW 0, th_handlers = \<lparr>hb_active = 0, hb_args = []\<rparr>\<rparr>],
      sc_current := Some 5, sc_nArgs := 2, sc_args := [IntW 7, IntW 8] @ replicate 14 (IntW 0),
      sc_stack := \<lparr>db_active = 1, db_args = [IntW 1, IntW 2, IntW 3]\<rparr>, sc_top := 2\<rparr>) = Some s1 \<and>
    SwitchToThread (s1\<lparr>sc_nArgs := 0, sc_args := replicate 16 (IntW 0), sc_stack := \<lparr>db_active = 0, db_args = []\<rparr>, sc_top := 0\<rparr>) = Some s2 \<and>
    sc_top s2 = 2 \<and> take 2 (sc_args s2) = [IntW 7, IntW 8]"
proof -
  define th where "th = \<lparr>th_priority = NORMAL, th_state = RUNNABLE, th_suspended = False, th_stack = None,
      th_nargs = 0, th_args = ArgW (IntW 0), th_future = IntW 0, th_handlers = \<lparr>hb_active = 0, hb_args = []\<rparr>\<rparr>"
  define s where "s = no_objects\<lparr>sc_threads := [5 \<mapsto> th],
      sc_current := Some 5, sc_nArgs := 2, sc_args := [IntW 7, IntW 8] @ replicate 14 (IntW 0),
      sc_stack := \<lparr>db_active = 1, db_args = [IntW 1, IntW 2, IntW 3]\<rparr>, sc_top := 2\<rparr>"
  have c: "sc_current s = Some 5" "sc_threads s 5 = Some th" "th_stack th = None" "th_state th = RUNNABLE" "\<not> th_suspended th"
    "sc_top s < length (db_args (sc_stack s))" "sc_nArgs s < maxArgs" "length (sc_args s) = maxArgs"
    by (simp_all add: s_def th_def maxArgs_def)
  have e: "sc_top s = 2" "sc_nArgs s = 2" "take 2 (sc_args s) = [IntW 7, IntW 8]" by (simp_all add: s_def)
  have "length (replicate 16 (IntW 0)) = maxArgs" by (simp add: maxArgs_def)
  then have "\<exists>s1 s2. FlushThread s = Some s1 \<and>
    SwitchToThread (s1\<lparr>sc_nArgs := 0, sc_args := replicate 16 (IntW 0), sc_stack := \<lparr>db_active = 0, db_args = []\<rparr>, sc_top := 0\<rparr>) = Some s2 \<and>
    sc_top s2 = 2 \<and> take 2 (sc_args s2) = [IntW 7, IntW 8]"
    using flush_switch [OF c] e by metis
  then show ?thesis by (simp only: s_def th_def)
qed

section \<open>Binding holes and promises\<close>

lemma ScheduleWaitingThreads_future:
  assumes "ScheduleWaitingThreads env f s = Some s'"
  shows "\<exists>wq. sc_trans s f = Some (FutureT wq)"
  using assms by (auto simp: ScheduleWaitingThreads_def Future_queue_def run_elims split: option.splits transient.splits)

text \<open>Waking the threads that wait for a future, then binding the future to what a word leads to.\<close>

lemma wake_and_bind:
  assumes ok: "sched_ok r s" and f: "sc_trans s f = Some (FutureT wq)" and v: "Deref (sc_trans s) w = Some v"
    and b: "b = (if v = TrW f then transient_arg f (FutureT wq) else v)"
    and q: "queue_bound (sc_queue s)"
    "length (queue_elems (sc_queue s)) + length (case wq of None \<Rightarrow> [] | Some q \<Rightarrow> queue_elems q) \<le> 699049"
  shows "\<exists>s1 s2. ScheduleWaitingThreads env f s = Some s1 \<and> become f RefT w s1 = Some s2 \<and> sched_ok r s2 \<and>
    queue_elems (sc_queue s2) = queue_elems (sc_queue s) @ awake_words s (case wq of None \<Rightarrow> [] | Some q \<Rightarrow> queue_elems q) \<and>
    sc_trans s2 = (sc_trans s)(f \<mapsto> RefT b) \<and> waiting_of f (tview s2) = {} \<and>
    (\<forall>x y. Deref (sc_trans s) x = Some y \<longrightarrow> Deref (sc_trans s2) x = Some (if y = TrW f then b else y))"
proof -
  obtain s1 where s1: "ScheduleWaitingThreads env f s = Some s1"
    "queue_elems (sc_queue s1) = queue_elems (sc_queue s) @ awake_words s (case wq of None \<Rightarrow> [] | Some q \<Rightarrow> queue_elems q)"
    using ScheduleWaitingThreads_total [OF ok f q, of env] by blast
  note W = ScheduleWaitingThreads_ok [OF ok s1(1)]
  obtain wq' where T1: "sc_trans s1 = (sc_trans s)(f \<mapsto> FutureT wq')" and wq': "wq' = None \<longleftrightarrow> wq = None" using W(4) f by blast
  note R = ok_viewD(3) [OF ok [unfolded sched_ok_def]] and R1 = ok_viewD(3) [OF keeps_ok [OF W(1), unfolded sched_ok_def]]
  have u: "unbound (sc_trans s) (TrW f)" "unbound (sc_trans s1) (TrW f)" using f T1 by (auto simp: unbound_def)
  have D1: "Deref (sc_trans s1) x = Some y" if "Deref (sc_trans s) x = Some y" for x y
    unfolding T1 by (rule Deref_update [OF R u(1) _ that]) simp
  have a: "transient_arg f (FutureT wq') = transient_arg f (FutureT wq)" using wq' by (cases wq; cases wq') (simp_all add: transient_arg_def)
  have ad: "Deref (sc_trans s1) (transient_arg f (FutureT wq)) = Some (transient_arg f (FutureT wq))" "transient_arg f (FutureT wq) \<noteq> TrW f"
    by (simp_all add: transient_arg_def split: option.splits)
  have uv: "unbound (sc_trans s1) b" "b \<noteq> TrW f"
    using Deref_unbound_result [OF R1 D1 [OF v]] Deref_unbound_result [OF R1 ad(1)] ad(2) b by auto
  have B: "Become (sc_trans s1) f RefT w = Some ((sc_trans s)(f \<mapsto> RefT b))"
  proof (cases "v = TrW f")
    case True
    then show ?thesis using Become_ref_self [OF R1, of f "FutureT wq'" w] D1 [OF v] ad a b by (simp add: T1)
  next
    case False
    then show ?thesis using Become_run [OF R1 u(2) D1 [OF v], of RefT] b by (simp add: T1)
  qed
  then have s2: "become f RefT w s1 = Some (s1\<lparr>sc_trans := (sc_trans s)(f \<mapsto> RefT b)\<rparr>)" by (simp add: become_def)
  have "keeps r s1 (s1\<lparr>sc_trans := (sc_trans s)(f \<mapsto> RefT b)\<rparr>)" by (rule become_ok [OF keeps_ok [OF W(1)] W(2) s2]) simp
  moreover have "Deref ((sc_trans s)(f \<mapsto> RefT b)) x = Some (if y = TrW f then b else y)" if "Deref (sc_trans s) x = Some y" for x y
    using Deref_bind [OF R1 u(2) uv D1 [OF that]] by (simp add: T1)
  moreover have "tview (s1\<lparr>sc_trans := T\<rparr>) = tview s1" for T by (simp add: tview_def)
  ultimately show ?thesis using s1 s2 keeps_ok W(2)
    by (intro exI [of _ s1] exI [of _ "s1\<lparr>sc_trans := (sc_trans s)(f \<mapsto> RefT b)\<rparr>"]) auto
qed

text \<open>
  C25: filling a hole whose future has been taken. If the word leads to the hole or to its future, the fill is refused and
  nothing changes. Otherwise it succeeds: the hole and the future lead to what the word leads to, every thread that waited
  for the future is woken, those that are not suspended in the order in which they came, and the invariant holds.
\<close>

theorem hole_fill_binds:
  assumes "sched_ok r s" and "sc_trans s h = Some (HoleT (TrW f))" and "sc_trans s f = Some (FutureT wq)"
    and "closed_word (sc_trans s) w" and "queue_bound (sc_queue s)"
    and "length (queue_elems (sc_queue s)) + length (case wq of None \<Rightarrow> [] | Some q \<Rightarrow> queue_elems q) \<le> 699049"
  shows "\<exists>v. Deref (sc_trans s) w = Some v \<and>
    (if v = TrW h \<or> v = TrW f then Hole_Fill env h w s = Some (False, s)
     else \<exists>s'. Hole_Fill env h w s = Some (True, s') \<and> sched_ok r s' \<and>
       Deref (sc_trans s') (TrW h) = Some v \<and> Deref (sc_trans s') (TrW f) = Some v \<and> waiting_of f (tview s') = {} \<and>
       queue_elems (sc_queue s') = queue_elems (sc_queue s) @ awake_words s (case wq of None \<Rightarrow> [] | Some q \<Rightarrow> queue_elems q))"
proof -
  note R = ok_viewD(3) [OF assms(1) [unfolded sched_ok_def]]
  obtain v where v: "Deref (sc_trans s) w = Some v" using Deref_total [OF R assms(4)] by blast
  have df: "Deref (sc_trans s) (TrW f) = Some (TrW f)" "Deref (sc_trans s) (TrW h) = Some (TrW h)" using assms(2,3) by (simp_all add: Deref_unbound)
  have t: "WordToTransient (sc_trans s) w = Some (case v of TrW a \<Rightarrow> Some a | _ \<Rightarrow> None)"
    using v by (cases v) (auto simp: WordToTransient_def)
  have fu: "WordToTransient (sc_trans s) (TrW f) = Some (Some f)" using df(1) by (simp add: WordToTransient_def)
  have ha: "hole_arg (sc_trans s) h = Some (TrW f)" using assms(2) by (simp add: hole_arg_def)
  show ?thesis
  proof (cases "v = TrW h \<or> v = TrW f")
    case True
    then show ?thesis using v t fu ha by (auto simp: Hole_Fill_def)
  next
    case False
    then have vf: "v = (if v = TrW f then transient_arg f (FutureT wq) else v)" by simp
    obtain s1 s2 where s: "ScheduleWaitingThreads env f s = Some s1" "become f RefT w s1 = Some s2" "sched_ok r s2"
      "queue_elems (sc_queue s2) = queue_elems (sc_queue s) @ awake_words s (case wq of None \<Rightarrow> [] | Some q \<Rightarrow> queue_elems q)"
      "sc_trans s2 = (sc_trans s)(f \<mapsto> RefT v)" "waiting_of f (tview s2) = {}"
      "\<And>x y. Deref (sc_trans s) x = Some y \<Longrightarrow> Deref (sc_trans s2) x = Some (if y = TrW f then v else y)"
      using wake_and_bind [OF assms(1,3) v vf assms(5,6), of env] by blast
    note R2 = ok_viewD(3) [OF s(3) [unfolded sched_ok_def]]
    have "h \<noteq> f" using assms(2,3) by auto
    then have uh: "unbound (sc_trans s2) (TrW h)" using assms(2) s(5) by (simp add: unbound_def)
    have d2: "Deref (sc_trans s2) w = Some v" "Deref (sc_trans s2) (TrW f) = Some v" using s(7) [OF v] s(7) [OF df(1)] by auto
    have uv: "unbound (sc_trans s2) v" using Deref_unbound_result [OF R2 d2(1)] .
    let ?s3 = "s2\<lparr>sc_trans := (sc_trans s2)(h \<mapsto> RefT v)\<rparr>"
    have s3: "become h RefT w s2 = Some ?s3" using Become_run [OF R2 uh d2(1), of RefT] False by (simp add: become_def)
    have run: "Hole_Fill env h w s = Some (True, ?s3)" using t fu ha s(1,2) s3 False by (cases v) (simp_all add: Hole_Fill_def)
    have vh: "v \<noteq> TrW h" using False by simp
    have d3: "Deref (sc_trans ?s3) (TrW h) = Some v" "Deref (sc_trans ?s3) (TrW f) = Some v"
      using Deref_bind [OF R2 uh uv vh unbound_Deref [OF uh]] Deref_bind [OF R2 uh uv vh d2(2)] vh by simp_all
    have "tview ?s3 = tview s2" by (simp add: tview_def)
    then show ?thesis using v False run keeps_ok [OF keeps_Fill [OF assms(1) run]] s(4,6) d3 by simp
  qed
qed

theorem hole_fill_binds_witness:
  "\<exists>s0 s s'. Scheduler_Init bare_env no_objects = Some s0 \<and>
    Hole_GetFuture 1 (snd (new_transient (HoleT (IntW 0)) s0)) = Some (3, s) \<and> Hole_Fill bare_env 1 (IntW 42) s = Some (True, s') \<and>
    Deref (sc_trans s') (TrW 1) = Some (IntW 42) \<and> Deref (sc_trans s') (TrW 3) = Some (IntW 42)"
proof -
  obtain s0 where s0: "Scheduler_Init bare_env no_objects = Some s0" "sched_ok None s0" "queue_elems (sc_queue s0) = []"
    using Scheduler_Init_ok by blast
  have n: "sc_next s0 = 1" using s0(1) by (auto simp: Scheduler_Init_def no_objects_def run_elims)
  let ?s1 = "snd (new_transient (HoleT (IntW 0)) s0)"
  have ok1: "sched_ok None ?s1" using keeps_new_transient [OF s0(2), of "HoleT (IntW 0)" 1 ?s1] n keeps_ok by (auto simp: new_transient_def)
  obtain s where s: "Hole_GetFuture 1 ?s1 = Some (3, s)" "sc_trans s 1 = Some (HoleT (TrW 3))" "sc_trans s 3 = Some (FutureT None)"
      "sc_queue s = sc_queue s0"
    using n by (auto simp: Hole_GetFuture_def hole_arg_def new_transient_def wait_queue_def WordToTransient_def)
  have ok: "sched_ok None s" using keeps_ok [OF keeps_GetFuture [OF ok1 s(1)]] .
  have "\<exists>v. Deref (sc_trans s) (IntW 42) = Some v \<and> (if v = TrW 1 \<or> v = TrW 3 then Hole_Fill bare_env 1 (IntW 42) s = Some (False, s)
     else \<exists>s'. Hole_Fill bare_env 1 (IntW 42) s = Some (True, s') \<and> sched_ok None s' \<and>
       Deref (sc_trans s') (TrW 1) = Some v \<and> Deref (sc_trans s') (TrW 3) = Some v \<and> waiting_of 3 (tview s') = {} \<and>
       queue_elems (sc_queue s') = queue_elems (sc_queue s) @ awake_words s (case None of None \<Rightarrow> [] | Some q \<Rightarrow> queue_elems q))"
    by (rule hole_fill_binds [OF ok s(2,3)]) (use Scheduler_Init_bound [OF s0(1)] s0(3) s(4) in \<open>simp_all add: closed_word_def\<close>)
  then show ?thesis using s0(1) s(1) by auto
qed

lemma WakeupThread_blocks: "WakeupThread env t s = Some s' \<Longrightarrow> sc_blocks s' = sc_blocks s"
  by (auto simp: run_elims WakeupThread_def upd_thread_def ScheduleThread_def ThreadQueue_Enqueue_def split: if_splits)

lemma wake_all_blocks: "wake_all env f q s = Some s' \<Longrightarrow> sc_blocks s' = sc_blocks s"
proof (rule wake_all.raw_induct [where P = "\<lambda>env f q s s'. sc_blocks s' = sc_blocks s"], goal_cases)
  case (1 wake env f q s s')
  then show ?case by (auto simp: run_elims dest!: WakeupThread_blocks split: if_splits)
qed

lemma ScheduleWaitingThreads_blocks: "ScheduleWaitingThreads env f s = Some s' \<Longrightarrow> sc_blocks s' = sc_blocks s"
  by (auto simp: ScheduleWaitingThreads_def run_elims wake_all_blocks split: option.splits)



end
