(* ===== verification/Arith_Prims.thy ===== *)
theory Arith_Prims
  imports Scheduler_Props Pointer_Op "HOL-Library.Signed_Division"
begin

text \<open>
  The arithmetic primitives: \<^verbatim>\<open>alice/vm-seam/alice/primitives/Int.cc\<close> (integers of 31 bits in a machine of 32),
  \<^verbatim>\<open>Word.icc\<close> (words of 8 and of 31 bits, kept as integers) and \<^verbatim>\<open>Word32.cc\<close> (words of 32 bits, kept as chunks of four
  bytes), with the macros of \<^verbatim>\<open>Authoring.hh\<close> that they use.

  Every operation of C on an \<^verbatim>\<open>s_int\<close> is followed by \<open>s32\<close>, the wrap-around of the machine; \<open>sdiv\<close> and \<open>smod\<close> are C's
  division, which truncates. Operations on \<^verbatim>\<open>u_int\<close> and \<^verbatim>\<open>uint32_t\<close> are those of the type of 32-bit words. The theorems
  compare the primitives with the integers and words that they stand for.
\<close>

section \<open>The macros\<close>

definition s32 :: "int \<Rightarrow> int" where "s32 i = signed_take_bit 31 i"

definition valid_int :: "int \<Rightarrow> bool" where "valid_int i \<longleftrightarrow> MIN_VALID_INT \<le> i \<and> i \<le> MAX_VALID_INT"

definition DEFINE1 :: "(store_word \<Rightarrow> store_word \<Rightarrow> sched \<Rightarrow> (worker_result \<times> sched) option) \<Rightarrow> sched \<Rightarrow> (worker_result \<times> sched) option" where
  "DEFINE1 body s = do {
     (self, s1) \<leftarrow> POP_PRIM_SELF 1 s;
     x0 \<leftarrow> GetCurrentArg 0 s1;
     body self x0 s1 }"

definition DEFINE2 :: "(store_word \<Rightarrow> store_word \<Rightarrow> store_word \<Rightarrow> sched \<Rightarrow> (worker_result \<times> sched) option) \<Rightarrow> sched \<Rightarrow> (worker_result \<times> sched) option" where
  "DEFINE2 body s = do {
     (self, s1) \<leftarrow> POP_PRIM_SELF 2 s;
     x0 \<leftarrow> GetCurrentArg 0 s1;
     x1 \<leftarrow> GetCurrentArg 1 s1;
     body self x0 x1 s1 }"

definition DECLARE_INT :: "senv \<Rightarrow> store_word \<Rightarrow> store_word \<Rightarrow> sched \<Rightarrow> (int \<Rightarrow> (worker_result \<times> sched) option) \<Rightarrow> (worker_result \<times> sched) option" where
  "DECLARE_INT env self x s k = do {
     i \<leftarrow> WordToInt (sc_trans s) x;
     case i of None \<Rightarrow> prim_REQUEST env self x s | Some n \<Rightarrow> k n }"

text \<open>\<^verbatim>\<open>RETURN_INT\<close>; \<^verbatim>\<open>IntToWord\<close> asserts that the integer is valid.\<close>

definition RETURN_INT :: "int \<Rightarrow> sched \<Rightarrow> (worker_result \<times> sched) option" where
  "RETURN_INT i s = do { Assert (valid_int i); RETURN1 (IntW i) s }"

text \<open>The exceptions that the primitives raise.\<close>

record arith_exns =
  General_Overflow :: store_word
  General_Div :: store_word
  General_Chr :: store_word
  General_Size :: store_word

section \<open>Integers\<close>

definition INT_INT_TO_INT_OP ::
  "(int \<Rightarrow> int \<Rightarrow> bool) \<Rightarrow> (int \<Rightarrow> int \<Rightarrow> int) \<Rightarrow> senv \<Rightarrow> arith_exns \<Rightarrow> sched \<Rightarrow> (worker_result \<times> sched) option" where
  "INT_INT_TO_INT_OP check cop env ex = DEFINE2 (\<lambda>self x0 x1 s.
     DECLARE_INT env self x0 s (\<lambda>i. DECLARE_INT env self x1 s (\<lambda>j.
       if check i j then prim_RAISE env self (General_Overflow ex) s else RETURN_INT (s32 (cop i j)) s)))"

definition INT_INT_TO_BOOL_OP :: "(int \<Rightarrow> int \<Rightarrow> bool) \<Rightarrow> senv \<Rightarrow> sched \<Rightarrow> (worker_result \<times> sched) option" where
  "INT_INT_TO_BOOL_OP cop env = DEFINE2 (\<lambda>self x0 x1 s.
     DECLARE_INT env self x0 s (\<lambda>i. DECLARE_INT env self x1 s (\<lambda>j. RETURN_BOOL (cop i j) s)))"

definition Int_opnegate :: "senv \<Rightarrow> arith_exns \<Rightarrow> sched \<Rightarrow> (worker_result \<times> sched) option" where
  "Int_opnegate env ex = DEFINE1 (\<lambda>self x0 s. DECLARE_INT env self x0 s (\<lambda>i.
     if i = MIN_VALID_INT then prim_RAISE env self (General_Overflow ex) s else RETURN_INT (s32 (- i)) s))"

definition CheckSum :: "int \<Rightarrow> int \<Rightarrow> bool" where
  "CheckSum i j = (let sum = s32 (i + j) in sum < MIN_VALID_INT \<or> sum > MAX_VALID_INT)"

definition Int_opadd :: "senv \<Rightarrow> arith_exns \<Rightarrow> sched \<Rightarrow> (worker_result \<times> sched) option" where
  "Int_opadd = INT_INT_TO_INT_OP CheckSum (+)"

definition CheckDifference :: "int \<Rightarrow> int \<Rightarrow> bool" where
  "CheckDifference i j = (let difference = s32 (i - j) in difference < MIN_VALID_INT \<or> difference > MAX_VALID_INT)"

definition Int_opsub :: "senv \<Rightarrow> arith_exns \<Rightarrow> sched \<Rightarrow> (worker_result \<times> sched) option" where
  "Int_opsub = INT_INT_TO_INT_OP CheckDifference (-)"

definition CheckProduct :: "int \<Rightarrow> int \<Rightarrow> bool" where
  "CheckProduct i j =
     (if j = 0 then False
      else if j > 0 then
        (if i > 0 then i > s32 (MAX_VALID_INT sdiv j) else s32 (- i) > s32 (s32 (- MIN_VALID_INT) sdiv j))
      else
        (if i > 0 then i > s32 (s32 (- MIN_VALID_INT) sdiv s32 (- j)) else s32 (- i) > s32 (MAX_VALID_INT sdiv s32 (- j))))"

definition Int_opmul :: "senv \<Rightarrow> arith_exns \<Rightarrow> sched \<Rightarrow> (worker_result \<times> sched) option" where
  "Int_opmul = INT_INT_TO_INT_OP CheckProduct (*)"

definition Int_opless :: "senv \<Rightarrow> sched \<Rightarrow> (worker_result \<times> sched) option" where
  "Int_opless = INT_INT_TO_BOOL_OP (<)"

definition Int_opgreater :: "senv \<Rightarrow> sched \<Rightarrow> (worker_result \<times> sched) option" where
  "Int_opgreater = INT_INT_TO_BOOL_OP (>)"

definition Int_oplessEq :: "senv \<Rightarrow> sched \<Rightarrow> (worker_result \<times> sched) option" where
  "Int_oplessEq = INT_INT_TO_BOOL_OP (\<le>)"

definition Int_opgreaterEq :: "senv \<Rightarrow> sched \<Rightarrow> (worker_result \<times> sched) option" where
  "Int_opgreaterEq = INT_INT_TO_BOOL_OP (\<ge>)"

definition Int_equal :: "senv \<Rightarrow> sched \<Rightarrow> (worker_result \<times> sched) option" where
  "Int_equal = INT_INT_TO_BOOL_OP (=)"

definition Int_abs :: "senv \<Rightarrow> arith_exns \<Rightarrow> sched \<Rightarrow> (worker_result \<times> sched) option" where
  "Int_abs env ex = DEFINE1 (\<lambda>self x0 s. DECLARE_INT env self x0 s (\<lambda>i.
     if i = MIN_VALID_INT then prim_RAISE env self (General_Overflow ex) s
     else RETURN_INT (if i \<ge> 0 then i else s32 (- i)) s))"

definition Types_EQUAL :: int where "Types_EQUAL = 0"
definition Types_GREATER :: int where "Types_GREATER = 1"
definition Types_LESS :: int where "Types_LESS = 2"

definition Int_compare :: "senv \<Rightarrow> sched \<Rightarrow> (worker_result \<times> sched) option" where
  "Int_compare env = DEFINE2 (\<lambda>self x0 x1 s. DECLARE_INT env self x0 s (\<lambda>i. DECLARE_INT env self x1 s (\<lambda>j.
     if i = j then RETURN_INT Types_EQUAL s
     else if i < j then RETURN_INT Types_LESS s
     else RETURN_INT Types_GREATER s)))"

definition Int_div :: "senv \<Rightarrow> arith_exns \<Rightarrow> sched \<Rightarrow> (worker_result \<times> sched) option" where
  "Int_div env ex = DEFINE2 (\<lambda>self x0 x1 s. DECLARE_INT env self x0 s (\<lambda>i. DECLARE_INT env self x1 s (\<lambda>j.
     if j = 0 then prim_RAISE env self (General_Div ex) s
     else let b1 = i \<ge> 0; b2 = j \<ge> 0 in
       if b1 = b2 then
         (if i = MIN_VALID_INT \<and> j = -1 then prim_RAISE env self (General_Overflow ex) s
          else RETURN_INT (s32 (i sdiv j)) s)
       else if b2 then RETURN_INT (s32 (s32 (s32 (i - j) + 1) sdiv j)) s
       else RETURN_INT (s32 (s32 (s32 (i - j) - 1) sdiv j)) s)))"

definition Int_mod :: "senv \<Rightarrow> arith_exns \<Rightarrow> sched \<Rightarrow> (worker_result \<times> sched) option" where
  "Int_mod env ex = DEFINE2 (\<lambda>self x0 x1 s. DECLARE_INT env self x0 s (\<lambda>i. DECLARE_INT env self x1 s (\<lambda>j.
     if j = 0 then prim_RAISE env self (General_Div ex) s
     else let c = s32 (i smod j) in
       if c = 0 then RETURN_INT c s
       else if c < 0 then (if j < 0 then RETURN_INT c s else RETURN_INT (s32 (c + j)) s)
       else (if j < 0 then RETURN_INT (s32 (c + j)) s else RETURN_INT c s))))"

definition Int_quot :: "senv \<Rightarrow> arith_exns \<Rightarrow> sched \<Rightarrow> (worker_result \<times> sched) option" where
  "Int_quot env ex = DEFINE2 (\<lambda>self x0 x1 s. DECLARE_INT env self x0 s (\<lambda>i. DECLARE_INT env self x1 s (\<lambda>j.
     if j = 0 then prim_RAISE env self (General_Div ex) s
     else if i = MIN_VALID_INT \<and> j = -1 then prim_RAISE env self (General_Overflow ex) s
     else RETURN_INT (s32 (i sdiv j)) s)))"

definition Int_rem :: "senv \<Rightarrow> arith_exns \<Rightarrow> sched \<Rightarrow> (worker_result \<times> sched) option" where
  "Int_rem env ex = DEFINE2 (\<lambda>self x0 x1 s. DECLARE_INT env self x0 s (\<lambda>i. DECLARE_INT env self x1 s (\<lambda>j.
     if j = 0 then prim_RAISE env self (General_Div ex) s else RETURN_INT (s32 (i smod j)) s)))"

section \<open>Words of at most 31 bits\<close>

text \<open>
  \<^verbatim>\<open>Word.icc\<close> is included for \<^verbatim>\<open>WORD_PRECISION\<close> 8 and 31; here the precision \<open>n\<close> is a parameter. A word is kept as the
  integer that its bits denote in two's complement.
\<close>

definition DECLARE_WORDN ::
  "nat \<Rightarrow> senv \<Rightarrow> store_word \<Rightarrow> store_word \<Rightarrow> sched \<Rightarrow> (u_int \<Rightarrow> (worker_result \<times> sched) option) \<Rightarrow> (worker_result \<times> sched) option" where
  "DECLARE_WORDN n env self x s k = do {
     i \<leftarrow> WordToInt (sc_trans s) x;
     case i of None \<Rightarrow> prim_REQUEST env self x s
     | Some v \<Rightarrow> k (word_of_int v AND drop_bit (STORE_WORD_WIDTH - n) (-1)) }"

definition STANDARD_WORD_PRECISION :: nat where "STANDARD_WORD_PRECISION = 31"

definition mydiv :: "int \<Rightarrow> int \<Rightarrow> int" where "mydiv a b = s32 (a sdiv b)"

definition RETURN_WORD :: "nat \<Rightarrow> u_int \<Rightarrow> sched \<Rightarrow> (worker_result \<times> sched) option" where
  "RETURN_WORD n w s = (let e = push_bit (STORE_WORD_WIDTH - n) 1 in RETURN_INT (mydiv (sint (w * e)) (sint e)) s)"

definition WORD_WORD_TO_WORD_OP :: "(u_int \<Rightarrow> u_int \<Rightarrow> u_int) \<Rightarrow> nat \<Rightarrow> senv \<Rightarrow> sched \<Rightarrow> (worker_result \<times> sched) option" where
  "WORD_WORD_TO_WORD_OP cop n env = DEFINE2 (\<lambda>self x0 x1 s.
     DECLARE_WORDN n env self x0 s (\<lambda>i. DECLARE_WORDN n env self x1 s (\<lambda>j. RETURN_WORD n (cop i j) s)))"

definition WORD_WORD_TO_BOOL_OP :: "(u_int \<Rightarrow> u_int \<Rightarrow> bool) \<Rightarrow> nat \<Rightarrow> senv \<Rightarrow> sched \<Rightarrow> (worker_result \<times> sched) option" where
  "WORD_WORD_TO_BOOL_OP cop n env = DEFINE2 (\<lambda>self x0 x1 s.
     DECLARE_WORDN n env self x0 s (\<lambda>i. DECLARE_WORDN n env self x1 s (\<lambda>j. RETURN_BOOL (cop i j) s)))"

definition Word_opadd where "Word_opadd = WORD_WORD_TO_WORD_OP (+)"
definition Word_opsub where "Word_opsub = WORD_WORD_TO_WORD_OP (-)"
definition Word_opmul where "Word_opmul = WORD_WORD_TO_WORD_OP (*)"

definition Word_opneg :: "nat \<Rightarrow> senv \<Rightarrow> sched \<Rightarrow> (worker_result \<times> sched) option" where
  "Word_opneg n env = DEFINE1 (\<lambda>self x0 s. DECLARE_WORDN n env self x0 s (\<lambda>i. RETURN_WORD n (- i) s))"

definition Word_opless where "Word_opless = WORD_WORD_TO_BOOL_OP (<)"
definition Word_opgreater where "Word_opgreater = WORD_WORD_TO_BOOL_OP (>)"
definition Word_oplessEq where "Word_oplessEq = WORD_WORD_TO_BOOL_OP (\<le>)"
definition Word_opgreaterEq where "Word_opgreaterEq = WORD_WORD_TO_BOOL_OP (\<ge>)"

definition Word_opshl :: "nat \<Rightarrow> senv \<Rightarrow> sched \<Rightarrow> (worker_result \<times> sched) option" where
  "Word_opshl n env = DEFINE2 (\<lambda>self x0 x1 s.
     DECLARE_WORDN n env self x0 s (\<lambda>i. DECLARE_WORDN STANDARD_WORD_PRECISION env self x1 s (\<lambda>j.
       if j \<ge> of_nat n then RETURN_WORD n 0 s else RETURN_WORD n (push_bit (unat j) i) s)))"

definition Word_opshr :: "nat \<Rightarrow> senv \<Rightarrow> sched \<Rightarrow> (worker_result \<times> sched) option" where
  "Word_opshr n env = DEFINE2 (\<lambda>self x0 x1 s.
     DECLARE_WORDN n env self x0 s (\<lambda>i. DECLARE_WORDN STANDARD_WORD_PRECISION env self x1 s (\<lambda>j.
       if j \<ge> of_nat n then RETURN_WORD n 0 s else RETURN_WORD n (drop_bit (unat j) i) s)))"

definition Word_oparithshr :: "nat \<Rightarrow> senv \<Rightarrow> sched \<Rightarrow> (worker_result \<times> sched) option" where
  "Word_oparithshr n env = DEFINE2 (\<lambda>self x0 x1 s.
     DECLARE_WORDN n env self x0 s (\<lambda>i. DECLARE_WORDN STANDARD_WORD_PRECISION env self x1 s (\<lambda>j0.
       let j = (if j0 > of_nat (n - 1) then of_nat (n - 1) else j0) in
       if i AND push_bit (n - 1) 1 \<noteq> 0
       then RETURN_WORD n (drop_bit (unat j) i OR NOT (drop_bit (unat j + (STORE_WORD_WIDTH - n)) (-1))) s
       else RETURN_WORD n (drop_bit (unat j) i) s)))"

definition Word_andb where "Word_andb = WORD_WORD_TO_WORD_OP (AND)"
definition Word_orb where "Word_orb = WORD_WORD_TO_WORD_OP (OR)"
definition Word_xorb where "Word_xorb = WORD_WORD_TO_WORD_OP (XOR)"

definition Word_notb :: "nat \<Rightarrow> senv \<Rightarrow> sched \<Rightarrow> (worker_result \<times> sched) option" where
  "Word_notb n env = DEFINE1 (\<lambda>self x0 s. DECLARE_WORDN n env self x0 s (\<lambda>i. RETURN_WORD n (NOT i) s))"

definition Word_div :: "nat \<Rightarrow> senv \<Rightarrow> arith_exns \<Rightarrow> sched \<Rightarrow> (worker_result \<times> sched) option" where
  "Word_div n env ex = DEFINE2 (\<lambda>self x0 x1 s.
     DECLARE_WORDN n env self x0 s (\<lambda>i. DECLARE_WORDN n env self x1 s (\<lambda>j.
       if j = 0 then prim_RAISE env self (General_Div ex) s else RETURN_WORD n (i div j) s)))"

definition Word_mod :: "nat \<Rightarrow> senv \<Rightarrow> arith_exns \<Rightarrow> sched \<Rightarrow> (worker_result \<times> sched) option" where
  "Word_mod n env ex = DEFINE2 (\<lambda>self x0 x1 s.
     DECLARE_WORDN n env self x0 s (\<lambda>i. DECLARE_WORDN n env self x1 s (\<lambda>j.
       if j = 0 then prim_RAISE env self (General_Div ex) s else RETURN_WORD n (i mod j) s)))"

definition Word_fromInt :: "nat \<Rightarrow> senv \<Rightarrow> sched \<Rightarrow> (worker_result \<times> sched) option" where
  "Word_fromInt n env = DEFINE1 (\<lambda>self x0 s. DECLARE_INT env self x0 s (\<lambda>i. RETURN_WORD n (word_of_int i) s))"

definition Word_toInt :: "nat \<Rightarrow> senv \<Rightarrow> arith_exns \<Rightarrow> sched \<Rightarrow> (worker_result \<times> sched) option" where
  "Word_toInt n env ex = DEFINE1 (\<lambda>self x0 s. DECLARE_WORDN n env self x0 s (\<lambda>i.
     if i > word_of_int MAX_VALID_INT then prim_RAISE env self (General_Overflow ex) s else RETURN_INT (sint i) s))"

definition Word_toIntX :: "nat \<Rightarrow> senv \<Rightarrow> sched \<Rightarrow> (worker_result \<times> sched) option" where
  "Word_toIntX n env = DEFINE1 (\<lambda>self x0 s. DECLARE_WORDN n env self x0 s (\<lambda>i.
     if i AND push_bit (n - 1) 1 \<noteq> 0
     then RETURN_INT (sint (i OR NOT (drop_bit (STORE_WORD_WIDTH - n) (-1)))) s
     else RETURN_INT (sint i) s))"

section \<open>Words of 32 bits\<close>

text \<open>A word of 32 bits is a chunk of its four bytes, the most significant one first.\<close>

definition DECLARE_WORD32 ::
  "senv \<Rightarrow> store_word \<Rightarrow> store_word \<Rightarrow> sched \<Rightarrow> (u_int \<Rightarrow> (worker_result \<times> sched) option) \<Rightarrow> (worker_result \<times> sched) option" where
  "DECLARE_WORD32 env self x s k = do {
     c \<leftarrow> WordToBlock (sc_trans s) x;
     case c of None \<Rightarrow> prim_REQUEST env self x s
     | Some a \<Rightarrow> do {
         bs \<leftarrow> sc_chunks s a;
         b0 \<leftarrow> Block_GetArg bs 0; b1 \<leftarrow> Block_GetArg bs 1; b2 \<leftarrow> Block_GetArg bs 2; b3 \<leftarrow> Block_GetArg bs 3;
         k (push_bit 24 (ucast b0) OR push_bit 16 (ucast b1) OR push_bit 8 (ucast b2) OR ucast b3) } }"

definition word32_bytes :: "u_int \<Rightarrow> 8 word list" where
  "word32_bytes w = [ucast (drop_bit 24 w), ucast (drop_bit 16 w), ucast (drop_bit 8 w), ucast w]"

definition Word32ToWord :: "u_int \<Rightarrow> sched \<Rightarrow> store_word \<times> sched" where
  "Word32ToWord w s = (let (a, s1) = new_chunk (word32_bytes w) s in (BlkW a, s1))"

definition RETURN_WORD32 :: "u_int \<Rightarrow> sched \<Rightarrow> (worker_result \<times> sched) option" where
  "RETURN_WORD32 w s = (let (v, s1) = Word32ToWord w s in RETURN1 v s1)"

definition WORD32_WORD_TO_WORD_OP :: "(u_int \<Rightarrow> u_int \<Rightarrow> u_int) \<Rightarrow> senv \<Rightarrow> sched \<Rightarrow> (worker_result \<times> sched) option" where
  "WORD32_WORD_TO_WORD_OP cop env = DEFINE2 (\<lambda>self x0 x1 s.
     DECLARE_WORD32 env self x0 s (\<lambda>i. DECLARE_WORD32 env self x1 s (\<lambda>j. RETURN_WORD32 (cop i j) s)))"

definition WORD32_WORD_TO_BOOL_OP :: "(u_int \<Rightarrow> u_int \<Rightarrow> bool) \<Rightarrow> senv \<Rightarrow> sched \<Rightarrow> (worker_result \<times> sched) option" where
  "WORD32_WORD_TO_BOOL_OP cop env = DEFINE2 (\<lambda>self x0 x1 s.
     DECLARE_WORD32 env self x0 s (\<lambda>i. DECLARE_WORD32 env self x1 s (\<lambda>j. RETURN_BOOL (cop i j) s)))"

definition Word32_opadd where "Word32_opadd = WORD32_WORD_TO_WORD_OP (+)"
definition Word32_opsub where "Word32_opsub = WORD32_WORD_TO_WORD_OP (-)"
definition Word32_opmul where "Word32_opmul = WORD32_WORD_TO_WORD_OP (*)"

definition Word32_opneg :: "senv \<Rightarrow> sched \<Rightarrow> (worker_result \<times> sched) option" where
  "Word32_opneg env = DEFINE1 (\<lambda>self x0 s. DECLARE_WORD32 env self x0 s (\<lambda>i. RETURN_WORD32 (- i) s))"

definition Word32_opless where "Word32_opless = WORD32_WORD_TO_BOOL_OP (<)"
definition Word32_opgreater where "Word32_opgreater = WORD32_WORD_TO_BOOL_OP (>)"
definition Word32_oplessEq where "Word32_oplessEq = WORD32_WORD_TO_BOOL_OP (\<le>)"
definition Word32_opgreaterEq where "Word32_opgreaterEq = WORD32_WORD_TO_BOOL_OP (\<ge>)"

definition Word32_opshl :: "senv \<Rightarrow> sched \<Rightarrow> (worker_result \<times> sched) option" where
  "Word32_opshl env = DEFINE2 (\<lambda>self x0 x1 s.
     DECLARE_WORD32 env self x0 s (\<lambda>i. DECLARE_WORDN STANDARD_WORD_PRECISION env self x1 s (\<lambda>j.
       if j \<ge> 32 then RETURN_WORD32 0 s else RETURN_WORD32 (push_bit (unat j) i) s)))"

definition Word32_opshr :: "senv \<Rightarrow> sched \<Rightarrow> (worker_result \<times> sched) option" where
  "Word32_opshr env = DEFINE2 (\<lambda>self x0 x1 s.
     DECLARE_WORD32 env self x0 s (\<lambda>i. DECLARE_WORDN STANDARD_WORD_PRECISION env self x1 s (\<lambda>j.
       if j \<ge> 32 then RETURN_WORD32 0 s else RETURN_WORD32 (drop_bit (unat j) i) s)))"

definition Word32_oparithshr :: "senv \<Rightarrow> sched \<Rightarrow> (worker_result \<times> sched) option" where
  "Word32_oparithshr env = DEFINE2 (\<lambda>self x0 x1 s.
     DECLARE_WORD32 env self x0 s (\<lambda>i. DECLARE_WORDN STANDARD_WORD_PRECISION env self x1 s (\<lambda>j0.
       let j = (if j0 > 31 then 31 else j0) in
       if i AND push_bit 31 1 \<noteq> 0
       then RETURN_WORD32 (drop_bit (unat j) i OR NOT (drop_bit (unat j) (-1))) s
       else RETURN_WORD32 (drop_bit (unat j) i) s)))"

definition Word32_andb where "Word32_andb = WORD32_WORD_TO_WORD_OP (AND)"
definition Word32_orb where "Word32_orb = WORD32_WORD_TO_WORD_OP (OR)"
definition Word32_xorb where "Word32_xorb = WORD32_WORD_TO_WORD_OP (XOR)"

definition Word32_notb :: "senv \<Rightarrow> sched \<Rightarrow> (worker_result \<times> sched) option" where
  "Word32_notb env = DEFINE1 (\<lambda>self x0 s. DECLARE_WORD32 env self x0 s (\<lambda>i. RETURN_WORD32 (NOT i) s))"

definition Word32_div :: "senv \<Rightarrow> arith_exns \<Rightarrow> sched \<Rightarrow> (worker_result \<times> sched) option" where
  "Word32_div env ex = DEFINE2 (\<lambda>self x0 x1 s.
     DECLARE_WORD32 env self x0 s (\<lambda>i. DECLARE_WORD32 env self x1 s (\<lambda>j.
       if j = 0 then prim_RAISE env self (General_Div ex) s else RETURN_WORD32 (i div j) s)))"

definition Word32_mod :: "senv \<Rightarrow> arith_exns \<Rightarrow> sched \<Rightarrow> (worker_result \<times> sched) option" where
  "Word32_mod env ex = DEFINE2 (\<lambda>self x0 x1 s.
     DECLARE_WORD32 env self x0 s (\<lambda>i. DECLARE_WORD32 env self x1 s (\<lambda>j.
       if j = 0 then prim_RAISE env self (General_Div ex) s else RETURN_WORD32 (i mod j) s)))"

definition Word32_fromInt :: "senv \<Rightarrow> sched \<Rightarrow> (worker_result \<times> sched) option" where
  "Word32_fromInt env = DEFINE1 (\<lambda>self x0 s. DECLARE_INT env self x0 s (\<lambda>i. RETURN_WORD32 (word_of_int i) s))"

definition Word32_toInt :: "senv \<Rightarrow> arith_exns \<Rightarrow> sched \<Rightarrow> (worker_result \<times> sched) option" where
  "Word32_toInt env ex = DEFINE1 (\<lambda>self x0 s. DECLARE_WORD32 env self x0 s (\<lambda>i.
     if i > word_of_int MAX_VALID_INT then prim_RAISE env self (General_Overflow ex) s else RETURN_INT (sint i) s))"

definition Word32_toIntX :: "senv \<Rightarrow> arith_exns \<Rightarrow> sched \<Rightarrow> (worker_result \<times> sched) option" where
  "Word32_toIntX env ex = DEFINE1 (\<lambda>self x0 s. DECLARE_WORD32 env self x0 s (\<lambda>i.
     if sint i > MAX_VALID_INT \<or> sint i < MIN_VALID_INT then prim_RAISE env self (General_Overflow ex) s else RETURN_INT (sint i) s))"

definition Word32_fromLarge :: "senv \<Rightarrow> sched \<Rightarrow> (worker_result \<times> sched) option" where
  "Word32_fromLarge env = DEFINE1 (\<lambda>self x0 s. DECLARE_WORD32 env self x0 s (\<lambda>i. RETURN1 x0 s))"

definition Word32_toLarge :: "senv \<Rightarrow> sched \<Rightarrow> (worker_result \<times> sched) option" where
  "Word32_toLarge env = DEFINE1 (\<lambda>self x0 s. DECLARE_WORD32 env self x0 s (\<lambda>i. RETURN1 x0 s))"

definition Word32_toLargeX :: "senv \<Rightarrow> sched \<Rightarrow> (worker_result \<times> sched) option" where
  "Word32_toLargeX env = DEFINE1 (\<lambda>self x0 s. DECLARE_WORD32 env self x0 s (\<lambda>i. RETURN1 x0 s))"

text \<open>The conversions of \<^verbatim>\<open>Word.icc\<close> from and to words of 32 bits.\<close>

definition Word_fromLarge :: "nat \<Rightarrow> senv \<Rightarrow> sched \<Rightarrow> (worker_result \<times> sched) option" where
  "Word_fromLarge n env = DEFINE1 (\<lambda>self x0 s. DECLARE_WORD32 env self x0 s (\<lambda>w.
     if w AND push_bit 31 1 \<noteq> 0 then RETURN_WORD n (w AND (push_bit 31 1 - 1)) s else RETURN_WORD n w s))"

definition Word_toLarge :: "nat \<Rightarrow> senv \<Rightarrow> sched \<Rightarrow> (worker_result \<times> sched) option" where
  "Word_toLarge n env = DEFINE1 (\<lambda>self x0 s. DECLARE_WORDN n env self x0 s (\<lambda>i. RETURN_WORD32 i s))"

definition Word_toLargeX :: "nat \<Rightarrow> senv \<Rightarrow> sched \<Rightarrow> (worker_result \<times> sched) option" where
  "Word_toLargeX n env = DEFINE1 (\<lambda>self x0 s. DECLARE_WORDN n env self x0 s (\<lambda>i.
     if i AND push_bit (n - 1) 1 \<noteq> 0
     then RETURN_WORD32 (i OR NOT (drop_bit (STORE_WORD_WIDTH - n) (-1))) s
     else RETURN_WORD32 i s))"

section \<open>Calls of primitives and their outcomes\<close>

text \<open>
  The state in which a primitive is called: its frame is on the stack above the empty task, its arguments are in the
  registers. It returns with one value in the registers and its frame popped, or raises with its frame on the stack; the
  threads, queues and transients stay as they are, and old chunks and blocks are kept.
\<close>

definition prim_call :: "sched \<Rightarrow> store_word \<Rightarrow> store_word list \<Rightarrow> bool" where
  "prim_call s self xs \<longleftrightarrow> sc_nArgs s = length xs \<and> length (sc_args s) = maxArgs \<and> take (length xs) (sc_args s) = xs \<and>
     2 \<le> sc_top s \<and> sc_top s < length (db_args (sc_stack s)) \<and> db_args (sc_stack s) ! (sc_top s - 1) = self"

definition extends :: "sched \<Rightarrow> sched \<Rightarrow> bool" where
  "extends s s' \<longleftrightarrow> same_sched s s' \<and> (\<forall>a < sc_next s. sc_blocks s' a = sc_blocks s a \<and> sc_chunks s' a = sc_chunks s a)"

definition returns :: "sched \<Rightarrow> (worker_result \<times> sched) option \<Rightarrow> store_word \<Rightarrow> bool" where
  "returns s r v \<longleftrightarrow> (\<exists>s'. r = Some (CONTINUE, s') \<and> extends s s' \<and> sc_nArgs s' = 1 \<and> sc_args s' ! 0 = v \<and>
     sc_top s' = sc_top s - 1 \<and> sc_stack s' = sc_stack s)"

definition raises :: "sched \<Rightarrow> (worker_result \<times> sched) option \<Rightarrow> store_word \<Rightarrow> bool" where
  "raises s r e \<longleftrightarrow> (\<exists>s'. r = Some (RAISE, s') \<and> extends s s' \<and> sc_data s' = e \<and> sc_top s' = sc_top s \<and> sc_stack s' = sc_stack s)"

lemma extends_data [simp]:
  "extends s (s'\<lparr>sc_data := w\<rparr>) = extends s s'" "extends s (s'\<lparr>sc_nArgs := n\<rparr>) = extends s s'"
  "extends s (s'\<lparr>sc_args := a\<rparr>) = extends s s'" "extends s (s'\<lparr>sc_top := k\<rparr>) = extends s s'"
  "extends s (s'\<lparr>sc_stack := st\<rparr>) = extends s s'" "extends s (s'\<lparr>sc_backtrace := b\<rparr>) = extends s s'"
  "extends s (s'\<lparr>sc_backtraces := B\<rparr>) = extends s s'" "extends s s"
  by (simp_all add: extends_def same_sched_def tview_def)

lemma tview_chunks [simp]: "tview (s\<lparr>sc_chunks := C\<rparr>) = tview s"
  by (rule ext) (simp add: tview_def)

lemma extends_fresh:
  "extends s (s\<lparr>sc_chunks := (sc_chunks s)(sc_next s \<mapsto> bs), sc_next := Suc (sc_next s)\<rparr>)"
  "extends s (s\<lparr>sc_blocks := (sc_blocks s)(sc_next s \<mapsto> b), sc_next := Suc (sc_next s)\<rparr>)"
  "extends s (s\<lparr>sc_next := Suc (sc_next s)\<rparr>)"
  by (simp_all add: extends_def same_sched_def tview_def)

lemma prim_call_pop:
  assumes "prim_call s self xs" and "n = length xs"
  shows "POP_PRIM_SELF n s = Some (self, s\<lparr>sc_top := sc_top s - 1\<rparr>)"
    "\<And>i. i < length xs \<Longrightarrow> GetCurrentArg i (s\<lparr>sc_top := k\<rparr>) = Some (xs ! i)"
proof -
  have xs: "length xs \<le> length (sc_args s)" using assms(1) by (metis length_take min.absorb_iff2 prim_call_def)
  show "POP_PRIM_SELF n s = Some (self, s\<lparr>sc_top := sc_top s - 1\<rparr>)"
    using assms by (auto simp: prim_call_def POP_PRIM_SELF_def Frame_GetWorker_def run_simps Sched_PopFrame_def Scheduler_PopFrame_def)
  show "GetCurrentArg i (s\<lparr>sc_top := k\<rparr>) = Some (xs ! i)" if "i < length xs" for i
  proof -
    have "take (length xs) (sc_args s) ! i = xs ! i" "sc_nArgs s = length xs" using assms(1) by (simp_all add: prim_call_def)
    then show ?thesis using that xs by (simp add: GetCurrentArg_def run_simps)
  qed
qed

definition popped :: "sched \<Rightarrow> sched" where
  "popped s = s\<lparr>sc_top := sc_top s - 1\<rparr>"

lemma DEFINE1_run: "prim_call s self [x] \<Longrightarrow> DEFINE1 body s = body self x (popped s)"
  using prim_call_pop(1) [of s self "[x]" 1] prim_call_pop(2) [of s self "[x]" 1 0] by (simp add: DEFINE1_def popped_def)

lemma DEFINE2_run: "prim_call s self [x, y] \<Longrightarrow> DEFINE2 body s = body self x y (popped s)"
  using prim_call_pop(1) [of s self "[x, y]" 2] prim_call_pop(2) [of s self "[x, y]" 2 0] prim_call_pop(2) [of s self "[x, y]" 2 1]
  by (simp add: DEFINE2_def popped_def)

lemma RETURN1_returns:
  assumes "prim_call s self xs" and "extends s s1" and "sc_args s1 = sc_args s" and "sc_top s1 = sc_top s - 1" and "sc_stack s1 = sc_stack s"
  shows "returns s (RETURN1 v s1) v"
  using assms by (simp add: returns_def RETURN1_def SetNArgs_def SetCurrentArg_def prim_call_def maxArgs_def run_simps)

lemma RETURN_INT_returns: "prim_call s self xs \<Longrightarrow> valid_int i \<Longrightarrow> returns s (RETURN_INT i (popped s)) (IntW i)"
  by (simp add: RETURN_INT_def RETURN1_returns popped_def)

lemma RETURN_BOOL_returns: "prim_call s self xs \<Longrightarrow> returns s (RETURN_BOOL b (popped s)) (IntW (if b then 1 else 0))"
  by (simp add: RETURN_BOOL_def RETURN1_returns popped_def)

lemma push_back:
  assumes "prim_call s self xs"
  shows "new_frame env self [] (popped s) = Some (Some s)"
proof -
  have "Scheduler_PushFrame j e 1 (sc_top s - 1) (sc_stack s) = Some (sc_top s, Enlarged (sc_stack s))" for j e
    using assms by (subst Scheduler_PushFrame.simps) (auto simp: prim_call_def)
  moreover have "Frame_New (sc_top s) self (sc_stack s) = Some (sc_stack s)"
    using assms by (auto simp: prim_call_def Frame_New_def run_simps)
  ultimately show ?thesis by (simp add: new_frame_def Sched_PushFrame_def popped_def)
qed

lemma prim_RAISE_raises: "prim_call s self xs \<Longrightarrow> raises s (prim_RAISE env self e (popped s)) e"
proof -
  assume c: "prim_call s self xs"
  obtain q where "Queue_New (ev_junk env) initialBacktraceSize = Some q"
    using Queue_New_spec [of initialBacktraceSize "ev_junk env"] by (auto simp: initialBacktraceSize_def)
  then show ?thesis using push_back [OF c, of env]
    by (simp add: raises_def prim_RAISE_def Backtrace_New_def extends_def same_sched_def tview_def)
qed

lemma DECLARE_INT_run: "DECLARE_INT env self (IntW i) s k = k i"
  by (simp add: DECLARE_INT_def WordToInt_def)

lemmas prim_runs = DEFINE1_run DEFINE2_run DECLARE_INT_run RETURN_INT_returns RETURN_BOOL_returns prim_RAISE_raises

section \<open>Machine arithmetic on valid integers\<close>

lemma s32_id: "- 2147483648 \<le> i \<Longrightarrow> i < 2147483648 \<Longrightarrow> s32 i = i"
  unfolding s32_def by (rule signed_take_bit_int_eq_self) simp_all

lemma valid_int_iff: "valid_int i \<longleftrightarrow> - 1073741824 \<le> i \<and> i \<le> 1073741823"
  by (simp add: valid_int_def MIN_VALID_INT_def MAX_VALID_INT_def INT_PRECISION_def)

lemma valid_limits: "MIN_VALID_INT = - 1073741824" "MAX_VALID_INT = 1073741823"
  by (simp_all add: MIN_VALID_INT_def MAX_VALID_INT_def INT_PRECISION_def)

lemma s32_valid: "valid_int i \<Longrightarrow> s32 i = i" "valid_int i \<Longrightarrow> s32 (- i) = - i"
  by (simp_all add: valid_int_iff s32_id)

lemma CheckSum_iff: "valid_int i \<Longrightarrow> valid_int j \<Longrightarrow> CheckSum i j \<longleftrightarrow> \<not> valid_int (i + j)"
  by (auto simp: CheckSum_def Let_def valid_int_iff valid_limits s32_id)

lemma CheckDifference_iff: "valid_int i \<Longrightarrow> valid_int j \<Longrightarrow> CheckDifference i j \<longleftrightarrow> \<not> valid_int (i - j)"
  by (auto simp: CheckDifference_def Let_def valid_int_iff valid_limits s32_id)

lemma le_div_iff_mult: "0 < (j::int) \<Longrightarrow> i \<le> m div j \<longleftrightarrow> i * j \<le> m"
proof
  assume j: "0 < j" and "i \<le> m div j"
  then have "i * j \<le> m div j * j" by (simp add: mult_right_mono)
  moreover have "m div j * j \<le> m" using j by (simp add: minus_mod_eq_div_mult [symmetric])
  ultimately show "i * j \<le> m" by linarith
next
  assume "0 < j" and "i * j \<le> m"
  then show "i \<le> m div j" using zdiv_mono1 [of "i * j" m j] by simp
qed

lemma sdiv_pos: "0 \<le> (m::int) \<Longrightarrow> 0 < j \<Longrightarrow> m sdiv j = m div j"
  by (simp add: signed_divide_int_def sgn_if)

lemma s32_quotient: "0 \<le> m \<Longrightarrow> m < 2147483648 \<Longrightarrow> 0 < j \<Longrightarrow> s32 (m sdiv j) = m div j"
  using zdiv_mono2 [of m 1 j] pos_imp_zdiv_nonneg_iff [of j m] by (simp add: sdiv_pos s32_id)

lemma CheckProduct_iff:
  assumes "valid_int i" and "valid_int j"
  shows "CheckProduct i j \<longleftrightarrow> \<not> valid_int (i * j)"
proof -
  have b: "- 1073741824 \<le> i" "i \<le> 1073741823" "- 1073741824 \<le> j" "j \<le> 1073741823" using assms by (simp_all add: valid_int_iff)
  consider "j = 0" | "0 < j" "0 < i" | "0 < j" "i \<le> 0" | "j < 0" "0 < i" | "j < 0" "i \<le> 0" by linarith
  then show ?thesis
  proof cases
    case 1
    then show ?thesis by (simp add: CheckProduct_def valid_int_iff)
  next
    case 2
    then have "\<not> i * j < - 1073741824" using mult_pos_pos [of i j] by linarith
    then show ?thesis using 2 le_div_iff_mult [of j i 1073741823] by (auto simp: CheckProduct_def valid_int_iff valid_limits s32_quotient)
  next
    case 3
    then have "\<not> 1073741823 < i * j" using mult_nonpos_nonneg [of i j] by linarith
    then show ?thesis using 3 b le_div_iff_mult [of j "- i" 1073741824]
      by (auto simp: CheckProduct_def valid_int_iff valid_limits s32_quotient s32_id)
  next
    case 4
    then have "\<not> 1073741823 < i * j" using mult_pos_neg [of i j] by linarith
    then show ?thesis using 4 b le_div_iff_mult [of "- j" i 1073741824]
      by (auto simp: CheckProduct_def valid_int_iff valid_limits s32_quotient s32_id simp del: sdiv_minus_eq)
  next
    case 5
    then have "\<not> i * j < - 1073741824" using mult_nonpos_nonpos [of i j] by linarith
    then show ?thesis using 5 b le_div_iff_mult [of "- j" "- i" 1073741823]
      by (auto simp: CheckProduct_def valid_int_iff valid_limits s32_quotient s32_id simp del: sdiv_minus_eq)
  qed
qed

text \<open>C's division, corrected as in \<^verbatim>\<open>Int_div\<close> and \<^verbatim>\<open>Int_mod\<close>, rounds downwards.\<close>

lemma floor_quotients:
  fixes i j :: int
  shows "0 \<le> i \<Longrightarrow> 0 < j \<Longrightarrow> i sdiv j = i div j" "i < 0 \<Longrightarrow> j < 0 \<Longrightarrow> i sdiv j = i div j"
    "i < 0 \<Longrightarrow> 0 < j \<Longrightarrow> (i - j + 1) sdiv j = i div j" "0 \<le> i \<Longrightarrow> j < 0 \<Longrightarrow> (i - j - 1) sdiv j = i div j"
proof -
  show "0 \<le> i \<Longrightarrow> 0 < j \<Longrightarrow> i sdiv j = i div j" by (rule sdiv_pos)
  show "i < 0 \<Longrightarrow> j < 0 \<Longrightarrow> i sdiv j = i div j" by (simp add: signed_divide_int_def)
  have neg: "- ((j - i - 1) div j) = i div j" if "0 < j" for i j :: int
  proof -
    have "(j - i - 1) div j = 1 + (- i - 1) div j" using that div_add_self1 [of j "- i - 1"] by (simp add: algebra_simps)
    moreover have "(- i - 1) div j = - 1 - i div j"
    proof (rule int_div_pos_eq [where r = "j - 1 - i mod j"])
      have "i = j * (i div j) + i mod j" by simp
      then show "- i - 1 = j * (- 1 - i div j) + (j - 1 - i mod j)" by (simp add: algebra_simps)
    qed (use that pos_mod_bound [of j i] pos_mod_sign [of j i] in linarith)+
    ultimately show ?thesis by simp
  qed
  show "i < 0 \<Longrightarrow> 0 < j \<Longrightarrow> (i - j + 1) sdiv j = i div j" using neg [of j i] by (simp add: signed_divide_int_def algebra_simps)
  show "0 \<le> i \<Longrightarrow> j < 0 \<Longrightarrow> (i - j - 1) sdiv j = i div j"
    using neg [of "- j" "- i"] by (simp add: signed_divide_int_def algebra_simps sgn_if abs_if)
qed

lemma floor_remainders:
  fixes i j :: int
  assumes "j \<noteq> 0"
  shows "\<bar>i smod j\<bar> < \<bar>j\<bar>"
    "i mod j = (if i smod j = 0 then i smod j
      else if i smod j < 0 then (if j < 0 then i smod j else i smod j + j)
      else (if j < 0 then i smod j + j else i smod j))"
proof -
  define c where "c = i smod j"
  have c: "- \<bar>j\<bar> < c" "c < \<bar>j\<bar>" using smod_int_range [OF assms, of i] by (auto simp: c_def)
  then show "\<bar>i smod j\<bar> < \<bar>j\<bar>" by (simp add: c_def abs_less_iff)
  have "i = i sdiv j * j + c" by (simp add: c_def sdiv_mult_smod_eq)
  then have m: "i mod j = c mod j" by (metis mod_mult_self4 mult.commute)
  have "c mod j = (if c = 0 then c else if c < 0 then (if j < 0 then c else c + j) else (if j < 0 then c + j else c))"
    using c mod_pos_pos_trivial [of c j] mod_pos_pos_trivial [of "c + j" j] mod_neg_neg_trivial [of c j] mod_neg_neg_trivial [of "c + j" j]
    by auto
  then show "i mod j = (if i smod j = 0 then i smod j
      else if i smod j < 0 then (if j < 0 then i smod j else i smod j + j)
      else (if j < 0 then i smod j + j else i smod j))" by (simp only: m c_def)
qed

lemma div_between: "0 < (k::int) \<Longrightarrow> min i 0 \<le> i div k \<and> i div k \<le> max i 0"
proof -
  assume k: "0 < k"
  show ?thesis
  proof (cases "0 \<le> i")
    case True
    then show ?thesis using k zdiv_mono2 [of i 1 k] pos_imp_zdiv_nonneg_iff [OF k, of i] by simp
  next
    case False
    then have "i * k \<le> i" using k mult_left_mono_neg [of 1 k i] by simp
    then show ?thesis using False k le_div_iff_mult [OF k, of i i] pos_imp_zdiv_neg_iff [OF k, of i] by simp
  qed
qed

lemma valid_floor:
  assumes "valid_int i" and "valid_int j" and "j \<noteq> 0"
  shows "\<not> (i = MIN_VALID_INT \<and> j = - 1) \<Longrightarrow> valid_int (i div j)" "\<not> (i = MIN_VALID_INT \<and> j = - 1) \<Longrightarrow> valid_int (i sdiv j)"
    "valid_int (i mod j)" "valid_int (i smod j)"
proof -
  have b: "- 1073741824 \<le> i" "i \<le> 1073741823" "- 1073741824 \<le> j" "j \<le> 1073741823" using assms by (simp_all add: valid_int_iff)
  show "valid_int (i smod j)" using floor_remainders(1) [OF assms(3), of i] b by (auto simp: valid_int_iff abs_if split: if_splits)
  show "valid_int (i mod j)"
    using b assms(3) pos_mod_bound [of j i] pos_mod_sign [of j i] neg_mod_bound [of j i] neg_mod_sign [of j i]
    unfolding valid_int_iff by (cases "0 < j") linarith+
  show d: "valid_int (i div j)" if n: "\<not> (i = MIN_VALID_INT \<and> j = - 1)"
  proof (cases "0 < j")
    case True
    then show ?thesis using div_between [OF True, of i] b by (auto simp: valid_int_iff)
  next
    case False
    then have k: "0 < - j" using assms(3) by simp
    have e: "i div j = (- i) div (- j)" by simp
    show ?thesis
    proof (cases "j = - 1")
      case True
      then show ?thesis using n b by (auto simp: valid_int_iff valid_limits)
    next
      case False
      then have "(- i) div (- j) \<le> 1073741823" if "0 \<le> - i" using zdiv_mono2 [of "- i" 2 "- j"] that k b by linarith
      then show ?thesis unfolding e using div_between [OF k, of "- i"] b by (cases "i \<le> 0") (auto simp: valid_int_iff)
    qed
  qed
  show "valid_int (i sdiv j)" if n: "\<not> (i = MIN_VALID_INT \<and> j = - 1)"
  proof (cases "i < 0 \<and> j < 0")
    case True
    then show ?thesis using d [OF n] by (simp add: floor_quotients(2))
  next
    case False
    have "i sdiv j \<le> 0" if "i < 0" using that False assms(3) pos_imp_zdiv_nonneg_iff [of "\<bar>j\<bar>" "\<bar>i\<bar>"]
      by (simp add: signed_divide_int_def)
    then show ?thesis using sdiv_int_range [of i j] b by (cases "i < 0") (auto simp: valid_int_iff)
  qed
qed

text \<open>What a primitive that computes \<open>v\<close> does: return it if it is a valid integer, and else raise the overflow.\<close>

definition exact :: "arith_exns \<Rightarrow> sched \<Rightarrow> (worker_result \<times> sched) option \<Rightarrow> int \<Rightarrow> bool" where
  "exact ex s r v \<longleftrightarrow> (if valid_int v then returns s r (IntW v) else raises s r (General_Overflow ex))"

lemma ring_ops_exact:
  assumes c: "prim_call s self [IntW i, IntW j]" and i: "valid_int i" and j: "valid_int j"
  shows "exact ex s (Int_opadd env ex s) (i + j)" "exact ex s (Int_opsub env ex s) (i - j)" "exact ex s (Int_opmul env ex s) (i * j)"
proof -
  note out = DEFINE2_run [OF c] DECLARE_INT_run RETURN_INT_returns [OF c] prim_RAISE_raises [OF c] INT_INT_TO_INT_OP_def exact_def s32_valid
  show "exact ex s (Int_opadd env ex s) (i + j)" by (simp add: Int_opadd_def CheckSum_iff [OF i j] out)
  show "exact ex s (Int_opsub env ex s) (i - j)" by (simp add: Int_opsub_def CheckDifference_iff [OF i j] out)
  show "exact ex s (Int_opmul env ex s) (i * j)" by (simp add: Int_opmul_def CheckProduct_iff [OF i j] out)
qed

lemma unary_ops_exact:
  assumes c: "prim_call s self [IntW i]" and i: "valid_int i"
  shows "exact ex s (Int_opnegate env ex s) (- i)" "exact ex s (Int_abs env ex s) \<bar>i\<bar>"
proof -
  note out = DEFINE1_run [OF c] DECLARE_INT_run RETURN_INT_returns [OF c] prim_RAISE_raises [OF c] exact_def s32_valid(2) [OF i]
  have n: "valid_int (- i) \<longleftrightarrow> i \<noteq> MIN_VALID_INT" "valid_int \<bar>i\<bar> \<longleftrightarrow> i \<noteq> MIN_VALID_INT"
    using i by (auto simp: valid_int_iff valid_limits)
  show "exact ex s (Int_opnegate env ex s) (- i)" using n(1) by (auto simp: Int_opnegate_def out)
  show "exact ex s (Int_abs env ex s) \<bar>i\<bar>" using n(2) by (auto simp: Int_abs_def out abs_if)
qed

lemma div_ops_exact:
  assumes c: "prim_call s self [IntW i, IntW j]" and i: "valid_int i" and j: "valid_int j" and nz: "j \<noteq> 0"
  shows "exact ex s (Int_div env ex s) (i div j)" "returns s (Int_mod env ex s) (IntW (i mod j))"
    "exact ex s (Int_quot env ex s) (i sdiv j)" "returns s (Int_rem env ex s) (IntW (i smod j))"
proof -
  note out = DEFINE2_run [OF c] DECLARE_INT_run RETURN_INT_returns [OF c] prim_RAISE_raises [OF c] exact_def s32_valid
  note valid = valid_floor [OF i j nz]
  have b: "- 1073741824 \<le> i" "i \<le> 1073741823" "- 1073741824 \<le> j" "j \<le> 1073741823" using i j by (simp_all add: valid_int_iff)
  have ov: "valid_int (i div j) \<longleftrightarrow> \<not> (i = MIN_VALID_INT \<and> j = - 1)" "valid_int (i sdiv j) \<longleftrightarrow> \<not> (i = MIN_VALID_INT \<and> j = - 1)"
    using valid(1,2) by (auto simp: valid_int_iff valid_limits)
  show "exact ex s (Int_quot env ex s) (i sdiv j)" using nz ov(2) by (auto simp: Int_quot_def out)
  show "returns s (Int_rem env ex s) (IntW (i smod j))" using nz valid(4) by (simp add: Int_rem_def out)
  show "returns s (Int_mod env ex s) (IntW (i mod j))"
    using nz valid(3,4) floor_remainders(2) [OF nz, of i] by (auto simp: Int_mod_def out Let_def split: if_splits)
  consider "0 \<le> i" "0 < j" | "i < 0" "j < 0" | "i < 0" "0 < j" | "0 \<le> i" "j < 0" using nz by linarith
  then show "exact ex s (Int_div env ex s) (i div j)"
  proof cases
    case 1
    then show ?thesis using ov(1) by (simp add: Int_div_def floor_quotients(1) out)
  next
    case 2
    then show ?thesis using ov(1) by (auto simp: Int_div_def floor_quotients(2) out)
  next
    case 3
    then have "s32 (s32 (i - j) + 1) sdiv j = i div j" using b by (simp add: s32_id floor_quotients(3))
    then show ?thesis using 3 ov(1) by (auto simp: Int_div_def out)
  next
    case 4
    then have "s32 (s32 (i - j) - 1) sdiv j = i div j" using b by (simp add: s32_id floor_quotients(4))
    then show ?thesis using 4 ov(1) by (auto simp: Int_div_def out valid_limits)
  qed
qed

text \<open>
  C27: the integer primitives compute on the mathematical integers. Called on valid integers, addition, subtraction,
  multiplication, negation, absolute value, division and quotient return the exact result, and raise \<^verbatim>\<open>Overflow\<close> exactly
  when it is not a valid integer; a zero divisor raises \<^verbatim>\<open>Div\<close>; \<^verbatim>\<open>div\<close> and \<^verbatim>\<open>mod\<close> round downwards, \<^verbatim>\<open>quot\<close> and \<^verbatim>\<open>rem\<close>
  towards zero. No intermediate result wraps around.
\<close>

theorem int_prims_exact:
  assumes "prim_call s self [IntW i, IntW j]" and "prim_call s1 self1 [IntW i]" and "valid_int i" and "valid_int j"
  shows "exact ex s (Int_opadd env ex s) (i + j) \<and> exact ex s (Int_opsub env ex s) (i - j) \<and> exact ex s (Int_opmul env ex s) (i * j) \<and>
    exact ex s1 (Int_opnegate env ex s1) (- i) \<and> exact ex s1 (Int_abs env ex s1) \<bar>i\<bar> \<and>
    (if j = 0 then raises s (Int_div env ex s) (General_Div ex) \<and> raises s (Int_mod env ex s) (General_Div ex) \<and>
       raises s (Int_quot env ex s) (General_Div ex) \<and> raises s (Int_rem env ex s) (General_Div ex)
     else exact ex s (Int_div env ex s) (i div j) \<and> returns s (Int_mod env ex s) (IntW (i mod j)) \<and>
       exact ex s (Int_quot env ex s) (i sdiv j) \<and> returns s (Int_rem env ex s) (IntW (i smod j))) \<and>
    returns s (Int_opless env s) (IntW (if i < j then 1 else 0)) \<and> returns s (Int_oplessEq env s) (IntW (if i \<le> j then 1 else 0)) \<and>
    returns s (Int_opgreater env s) (IntW (if i > j then 1 else 0)) \<and> returns s (Int_opgreaterEq env s) (IntW (if i \<ge> j then 1 else 0)) \<and>
    returns s (Int_equal env s) (IntW (if i = j then 1 else 0)) \<and>
    returns s (Int_compare env s) (IntW (if i = j then Types_EQUAL else if i < j then Types_LESS else Types_GREATER))"
proof -
  note out = DEFINE2_run [OF assms(1)] DECLARE_INT_run RETURN_INT_returns [OF assms(1)] RETURN_BOOL_returns [OF assms(1)]
    prim_RAISE_raises [OF assms(1)] INT_INT_TO_BOOL_OP_def
  have zero: "raises s (Int_div env ex s) (General_Div ex)" "raises s (Int_mod env ex s) (General_Div ex)"
    "raises s (Int_quot env ex s) (General_Div ex)" "raises s (Int_rem env ex s) (General_Div ex)" if "j = 0"
    using that by (simp_all add: Int_div_def Int_mod_def Int_quot_def Int_rem_def out)
  have rel: "returns s (INT_INT_TO_BOOL_OP cop env s) (IntW (if cop i j then 1 else 0))" for cop by (simp add: out)
  have cmp: "returns s (Int_compare env s) (IntW (if i = j then Types_EQUAL else if i < j then Types_LESS else Types_GREATER))"
    by (simp add: Int_compare_def out valid_int_iff Types_EQUAL_def Types_LESS_def Types_GREATER_def)
  show ?thesis
    using ring_ops_exact [OF assms(1,3,4)] unary_ops_exact [OF assms(2,3)] div_ops_exact [OF assms(1,3,4)] zero cmp
      rel [of "(<)"] rel [of "(\<le>)"] rel [of "(>)"] rel [of "(\<ge>)"] rel [of "(=)"]
    by (simp add: Int_opless_def Int_oplessEq_def Int_opgreater_def Int_opgreaterEq_def Int_equal_def)
qed

text \<open>A call with two arguments and one with one, for concrete runs.\<close>

definition sample_exns :: arith_exns where
  "sample_exns = \<lparr>General_Overflow = IntW 101, General_Div = IntW 102, General_Chr = IntW 103, General_Size = IntW 104\<rparr>"

definition sample_call :: "store_word list \<Rightarrow> sched" where
  "sample_call xs = no_objects\<lparr>sc_nArgs := length xs, sc_args := xs @ replicate (16 - length xs) (IntW 0),
     sc_stack := \<lparr>db_active = 2, db_args = [IntW 1, IntW 9, IntW 0]\<rparr>, sc_top := 2\<rparr>"

lemma sample_call_ok: "length xs \<le> 16 \<Longrightarrow> prim_call (sample_call xs) (IntW 9) xs"
  by (simp add: prim_call_def sample_call_def maxArgs_def)

theorem int_prims_exact_witness:
  "returns (sample_call [IntW (-7), IntW 2]) (Int_div bare_env sample_exns (sample_call [IntW (-7), IntW 2])) (IntW (-4)) \<and>
   returns (sample_call [IntW (-7), IntW 2]) (Int_mod bare_env sample_exns (sample_call [IntW (-7), IntW 2])) (IntW 1) \<and>
   raises (sample_call [IntW 1073741823, IntW 2]) (Int_opmul bare_env sample_exns (sample_call [IntW 1073741823, IntW 2])) (IntW 101)"
  using int_prims_exact [OF sample_call_ok sample_call_ok, of "-7" 2 sample_exns bare_env]
    int_prims_exact [OF sample_call_ok sample_call_ok, of 1073741823 2 sample_exns bare_env]
  by (simp add: exact_def valid_int_iff sample_exns_def)

section \<open>Word arithmetic\<close>

lemma mask_word: "n \<le> 32 \<Longrightarrow> drop_bit (32 - n) (- 1 :: u_int) = mask n"
  by (rule bit_word_eqI) (auto simp: bit_simps)

lemma DECLARE_WORDN_run:
  "n \<le> 32 \<Longrightarrow> DECLARE_WORDN n env self (IntW i) s k = k (take_bit n (word_of_int i))"
  by (simp add: DECLARE_WORDN_def WordToInt_def STORE_WORD_WIDTH_def mask_word take_bit_eq_mask)

lemma uint_take_bit_of_int: "n \<le> 32 \<Longrightarrow> uint (take_bit n (word_of_int i) :: u_int) = take_bit n i"
  by (simp add: unsigned_take_bit_eq uint_word_of_int_eq min_def)

lemma signed_word_value:
  fixes w :: u_int
  assumes "2 \<le> n" "n \<le> 31"
  shows "mydiv (sint (w * push_bit (32 - n) 1)) (sint (push_bit (32 - n) 1 :: u_int)) = signed_take_bit (n - 1) (uint w)"
proof -
  let ?k = "32 - n" and ?v = "signed_take_bit (n - 1) (uint w)"
  have sh: "sint (push_bit ?k x) = push_bit ?k (signed_take_bit (n - 1) (uint x))" for x :: u_int
    by (rule bit_eqI) (use assms in \<open>auto simp: bit_simps min_def\<close>)
  have "signed_take_bit (n - 1) 1 = (1 :: int)" using assms by (cases n; cases "n - 1") auto
  then have e: "sint (push_bit ?k 1 :: u_int) = 2 ^ ?k" using sh [of 1] by (simp add: push_bit_eq_mult)
  have "w * push_bit ?k 1 = push_bit ?k w" by (simp add: push_bit_eq_mult)
  then have "sint (w * push_bit ?k 1) = ?v * 2 ^ ?k" using sh [of w] by (simp add: push_bit_eq_mult)
  then have "mydiv (sint (w * push_bit ?k 1)) (sint (push_bit ?k 1 :: u_int)) = s32 ?v"
    unfolding e by (simp add: mydiv_def signed_divide_int_def abs_mult sgn_mult sgn_mult_abs)
  moreover have "s32 ?v = ?v" using assms by (simp add: s32_def)
  ultimately show ?thesis by simp
qed

lemma signed_take_bit_valid: "n \<le> 31 \<Longrightarrow> 0 < n \<Longrightarrow> valid_int (signed_take_bit (n - 1) x)"
proof -
  assume n: "n \<le> 31" "0 < n"
  have "(2::int) ^ (n - 1) \<le> 2 ^ 30" using n by (intro power_increasing) auto
  then have "(2::int) ^ (n - 1) \<le> 1073741824" by simp
  then show ?thesis using signed_take_bit_int_greater_eq_minus_exp [of "n - 1" x] signed_take_bit_int_less_exp [of "n - 1" x]
    unfolding valid_int_iff by linarith
qed

lemma RETURN_WORD_returns:
  assumes "prim_call s self xs" and "2 \<le> n" and "n \<le> 31"
  shows "returns s (RETURN_WORD n w (popped s)) (IntW (signed_take_bit (n - 1) (uint w)))"
  using RETURN_INT_returns [OF assms(1) signed_take_bit_valid] assms(2,3) signed_word_value [OF assms(2,3), of w]
  by (simp add: RETURN_WORD_def Let_def STORE_WORD_WIDTH_def)

text \<open>Results that agree in the low bits are the same word.\<close>

lemma same_word: "0 < n \<Longrightarrow> take_bit n x = take_bit n y \<Longrightarrow> signed_take_bit (n - 1) x = signed_take_bit (n - 1) (y :: int)"
  by (simp add: signed_take_bit_eq_iff_take_bit_eq)

lemma uint_word_ops:
  fixes a b :: u_int
  assumes "n \<le> 32"
  shows "take_bit n (uint (a + b)) = take_bit n (uint a + uint b)" "take_bit n (uint (a - b)) = take_bit n (uint a - uint b)"
    "take_bit n (uint (a * b)) = take_bit n (uint a * uint b)" "take_bit n (uint (- a)) = take_bit n (- uint a)"
    "take_bit n (uint (NOT a)) = take_bit n (NOT (uint a))" "take_bit n (uint (push_bit k a)) = take_bit n (push_bit k (uint a))"
proof -
  have t: "take_bit n (take_bit 32 x) = take_bit n x" for x :: int using assms by (simp add: min_def)
  show "take_bit n (uint (a + b)) = take_bit n (uint a + uint b)" using t [of "uint a + uint b"] by (simp add: uint_word_arith_bintrs)
  show "take_bit n (uint (a - b)) = take_bit n (uint a - uint b)" using t [of "uint a - uint b"] by (simp add: uint_word_arith_bintrs)
  show "take_bit n (uint (a * b)) = take_bit n (uint a * uint b)" using t [of "uint a * uint b"] by (simp add: uint_word_arith_bintrs)
  show "take_bit n (uint (- a)) = take_bit n (- uint a)" using t [of "- uint a"] by (simp add: uint_word_arith_bintrs)
  show "take_bit n (uint (NOT a)) = take_bit n (NOT (uint a))" using t [of "NOT (uint a)"] by (simp add: unsigned_not_eq)
  show "take_bit n (uint (push_bit k a)) = take_bit n (push_bit k (uint a))" using t [of "push_bit k (uint a)"] by (simp add: unsigned_push_bit_eq)
qed

text \<open>The word of \<open>n\<close> bits that an integer denotes, and the primitives' view of it.\<close>

definition of_word :: "nat \<Rightarrow> int \<Rightarrow> store_word" where
  "of_word n x = IntW (signed_take_bit (n - 1) x)"

lemma RETURN_WORD_of_word:
  assumes "prim_call s self xs" and "2 \<le> n" and "n \<le> 31" and "take_bit n (uint w) = take_bit n x"
  shows "returns s (RETURN_WORD n w (popped s)) (of_word n x)"
  using RETURN_WORD_returns [OF assms(1-3), of w] same_word [OF _ assms(4)] assms(2) by (simp add: of_word_def)

lemma wordn_ring_ops:
  assumes c: "prim_call s self [IntW i, IntW j]" and n: "2 \<le> n" "n \<le> 31"
  shows "returns s (Word_opadd n env s) (of_word n (i + j))" "returns s (Word_opsub n env s) (of_word n (i - j))"
    "returns s (Word_opmul n env s) (of_word n (i * j))" "returns s (Word_andb n env s) (of_word n (i AND j))"
    "returns s (Word_orb n env s) (of_word n (i OR j))" "returns s (Word_xorb n env s) (of_word n (i XOR j))"
proof -
  have n32: "n \<le> 32" using n by simp
  let ?w = "\<lambda>x. take_bit n (word_of_int x) :: u_int"
  have op: "returns s (WORD_WORD_TO_WORD_OP cop n env s) (of_word n x)"
    if "take_bit n (uint (cop (?w i) (?w j))) = take_bit n x" for cop x
    using RETURN_WORD_of_word [OF c n that] by (simp add: WORD_WORD_TO_WORD_OP_def DEFINE2_run [OF c] DECLARE_WORDN_run n32)
  note u = uint_word_ops [OF n32] uint_take_bit_of_int [OF n32]
  show "returns s (Word_opadd n env s) (of_word n (i + j))" unfolding Word_opadd_def by (rule op) (simp add: u take_bit_add)
  show "returns s (Word_opsub n env s) (of_word n (i - j))" unfolding Word_opsub_def by (rule op) (simp add: u take_bit_diff)
  show "returns s (Word_opmul n env s) (of_word n (i * j))" unfolding Word_opmul_def by (rule op) (simp add: u take_bit_mult)
  show "returns s (Word_andb n env s) (of_word n (i AND j))" unfolding Word_andb_def by (rule op) (simp add: u unsigned_and_eq)
  show "returns s (Word_orb n env s) (of_word n (i OR j))" unfolding Word_orb_def by (rule op) (simp add: u unsigned_or_eq)
  show "returns s (Word_xorb n env s) (of_word n (i XOR j))" unfolding Word_xorb_def by (rule op) (simp add: u unsigned_xor_eq)
qed

lemma wordn_unary_ops:
  assumes c: "prim_call s self [IntW i]" and n: "2 \<le> n" "n \<le> 31"
  shows "returns s (Word_opneg n env s) (of_word n (- i))" "returns s (Word_notb n env s) (of_word n (NOT i))"
    "returns s (Word_fromInt n env s) (of_word n i)"
proof -
  have n32: "n \<le> 32" using n by simp
  note u = uint_word_ops [OF n32] uint_take_bit_of_int [OF n32] and r = DEFINE1_run [OF c] DECLARE_WORDN_run [OF n32] DECLARE_INT_run
  show "returns s (Word_opneg n env s) (of_word n (- i))" unfolding Word_opneg_def r
    by (rule RETURN_WORD_of_word [OF c n]) (simp add: u take_bit_minus)
  show "returns s (Word_notb n env s) (of_word n (NOT i))" unfolding Word_notb_def r
    by (rule RETURN_WORD_of_word [OF c n]) (simp add: u take_bit_not_take_bit)
  show "returns s (Word_fromInt n env s) (of_word n i)" unfolding Word_fromInt_def r
    by (rule RETURN_WORD_of_word [OF c n]) (use n in \<open>simp add: uint_word_of_int_eq min_def\<close>)
qed

lemma take_bit_eqI: "(\<And>m. m < n \<Longrightarrow> bit x m \<longleftrightarrow> bit y m) \<Longrightarrow> take_bit n x = take_bit n (y :: int)"
  by (rule bit_eqI) (auto simp: bit_simps)

lemma small_count: "k < 32 \<Longrightarrow> unat (of_nat k :: u_int) = k"
  by (simp add: unsigned_of_nat take_bit_nat_eq_self)

lemma shift_count:
  defines "w j \<equiv> take_bit STANDARD_WORD_PRECISION (word_of_int j) :: u_int"
  shows "unat (w j) = nat (take_bit 31 j)" "k < 32 \<Longrightarrow> of_nat k \<le> w j \<longleftrightarrow> k \<le> nat (take_bit 31 j)"
    "k < 32 \<Longrightarrow> of_nat k < w j \<longleftrightarrow> k < nat (take_bit 31 j)"
proof -
  have "uint (w j) = take_bit 31 j" using uint_take_bit_of_int [of 31 j] by (simp add: w_def STANDARD_WORD_PRECISION_def)
  then show u: "unat (w j) = nat (take_bit 31 j)" by (metis nat_uint_eq)
  show "k < 32 \<Longrightarrow> of_nat k \<le> w j \<longleftrightarrow> k \<le> nat (take_bit 31 j)" by (simp add: word_le_nat_alt small_count u)
  show "k < 32 \<Longrightarrow> of_nat k < w j \<longleftrightarrow> k < nat (take_bit 31 j)" by (simp add: word_less_nat_alt small_count u)
qed

lemma sign_test: "0 < n \<Longrightarrow> n \<le> 32 \<Longrightarrow> (take_bit n (word_of_int i) :: u_int) AND push_bit (n - 1) 1 \<noteq> 0 \<longleftrightarrow> bit i (n - 1)"
  by (auto simp: push_bit_eq_mult and_exp_eq_0_iff_not_bit bit_simps)

lemma sign_fill:
  assumes "n \<le> 31" and "j \<le> n - 1" and "0 < n"
  shows "NOT (drop_bit (j + (32 - n)) (- 1 :: u_int)) = NOT (mask (n - j))"
  by (rule bit_word_eqI) (use assms in \<open>auto simp: bit_simps\<close>)

lemma last_bit: "n - Suc 0 \<le> m \<Longrightarrow> m < n \<Longrightarrow> m = n - Suc 0" "n + b - Suc 0 < n \<Longrightarrow> b = (0::nat)"
  by linarith+

lemma wordn_shifts:
  assumes c: "prim_call s self [IntW i, IntW j]" and n: "2 \<le> n" "n \<le> 31"
  defines "k \<equiv> nat (take_bit 31 j)"
  shows "returns s (Word_opshl n env s) (of_word n (push_bit k i))"
    "returns s (Word_opshr n env s) (of_word n (drop_bit k (take_bit n i)))"
    "returns s (Word_oparithshr n env s) (of_word n (drop_bit k (signed_take_bit (n - 1) i)))"
proof -
  have n32: "n \<le> 32" "0 < n" "n < 32" "n - 1 < 32" using n by simp_all
  note r = DEFINE2_run [OF c] DECLARE_WORDN_run [OF n32(1)] DECLARE_WORDN_run [of STANDARD_WORD_PRECISION]
  have p: "STANDARD_WORD_PRECISION \<le> 32" by (simp add: STANDARD_WORD_PRECISION_def)
  show "returns s (Word_opshl n env s) (of_word n (push_bit k i))"
  proof (cases "n \<le> k")
    case True
    then have "take_bit n (uint (0::u_int)) = take_bit n (push_bit k i)" by (intro take_bit_eqI) (simp add: bit_simps)
    then show ?thesis using RETURN_WORD_of_word [OF c n] True
      by (simp add: Word_opshl_def r p shift_count n32 k_def)
  next
    case False
    have "take_bit n (uint (push_bit k (take_bit n (word_of_int i) :: u_int))) = take_bit n (push_bit k i)"
      by (rule take_bit_eqI) (use n in \<open>auto simp: bit_simps\<close>)
    then show ?thesis using RETURN_WORD_of_word [OF c n] False
      by (simp add: Word_opshl_def r p shift_count n32 k_def)
  qed
  show "returns s (Word_opshr n env s) (of_word n (drop_bit k (take_bit n i)))"
  proof (cases "n \<le> k")
    case True
    then have "take_bit n (uint (0::u_int)) = take_bit n (drop_bit k (take_bit n i))" by (intro take_bit_eqI) (simp add: bit_simps)
    then show ?thesis using RETURN_WORD_of_word [OF c n] True
      by (simp add: Word_opshr_def r p shift_count n32 k_def)
  next
    case False
    have "take_bit n (uint (drop_bit k (take_bit n (word_of_int i) :: u_int))) = take_bit n (drop_bit k (take_bit n i))"
      by (rule take_bit_eqI) (use n in \<open>auto simp: bit_simps\<close>)
    then show ?thesis using RETURN_WORD_of_word [OF c n] False
      by (simp add: Word_opshr_def r p shift_count n32 k_def)
  qed
  define m where "m = (if k > n - 1 then n - 1 else k)"
  let ?w = "take_bit n (word_of_int i) :: u_int"
  have cnt: "unat (if (of_nat (n - 1) :: u_int) < take_bit STANDARD_WORD_PRECISION (word_of_int j) then of_nat (n - 1)
    else (take_bit STANDARD_WORD_PRECISION (word_of_int j) :: u_int)) = m"
    using shift_count(1) [of j] shift_count(3) [of "n - 1" j] small_count [OF n32(4)] n32(4) by (simp add: m_def k_def)
  have "take_bit n (uint (if bit i (n - 1) then drop_bit m ?w OR NOT (mask (n - m)) else drop_bit m ?w)) = take_bit n (drop_bit k (signed_take_bit (n - 1) i))"
  proof (rule take_bit_eqI)
    fix b assume b: "b < n"
    consider "k + b < n - 1" "m = k" | "k + b = n - 1" "m = k" | "k \<le> n - 1" "n - 1 < k + b" "m = k" | "n - 1 < k" "m = n - 1"
      by (cases "n - 1 < k"; cases "k + b" "n - 1" rule: linorder_cases) (auto simp: m_def)
    then show "bit (uint (if bit i (n - 1) then drop_bit m ?w OR NOT (mask (n - m)) else drop_bit m ?w)) b \<longleftrightarrow>
      bit (drop_bit k (signed_take_bit (n - 1) i)) b"
      using n b by cases (auto simp: bit_simps min_def dest!: last_bit(2))
  qed
  note RETURN_WORD_of_word [OF c n this]
  moreover have "Word_oparithshr n env s = RETURN_WORD n (if bit i (n - 1) then drop_bit m ?w OR NOT (mask (n - m)) else drop_bit m ?w) (popped s)"
    unfolding Word_oparithshr_def DEFINE2_run [OF c] DECLARE_WORDN_run [OF n32(1)] DECLARE_WORDN_run [OF p] Let_def STORE_WORD_WIDTH_def
      cnt sign_test [OF n32(2,1)] using sign_fill [of n m] n by (cases "bit i (n - 1)") (simp_all add: m_def)
  ultimately show "returns s (Word_oparithshr n env s) (of_word n (drop_bit k (signed_take_bit (n - 1) i)))" by simp
qed

lemma wordn_division:
  assumes c: "prim_call s self [IntW i, IntW j]" and n: "2 \<le> n" "n \<le> 31"
  shows "if take_bit n j = 0 then raises s (Word_div n env ex s) (General_Div ex) \<and> raises s (Word_mod n env ex s) (General_Div ex)
    else returns s (Word_div n env ex s) (of_word n (take_bit n i div take_bit n j)) \<and>
      returns s (Word_mod n env ex s) (of_word n (take_bit n i mod take_bit n j))"
proof -
  have n32: "n \<le> 32" using n by simp
  note u = uint_take_bit_of_int [OF n32]
  have z: "(take_bit n (word_of_int j) :: u_int) = 0 \<longleftrightarrow> take_bit n j = 0" using u [of j] by (metis uint_0_iff)
  note r = DEFINE2_run [OF c] DECLARE_WORDN_run [OF n32]
  show ?thesis
    using RETURN_WORD_of_word [OF c n] prim_RAISE_raises [OF c, of env "General_Div ex"]
    by (simp add: Word_div_def Word_mod_def r z u uint_div uint_mod)
qed

lemma wordn_compare:
  assumes c: "prim_call s self [IntW i, IntW j]" and n: "n \<le> 31"
  shows "returns s (Word_opless n env s) (IntW (if take_bit n i < take_bit n j then 1 else 0))"
    "returns s (Word_oplessEq n env s) (IntW (if take_bit n i \<le> take_bit n j then 1 else 0))"
    "returns s (Word_opgreater n env s) (IntW (if take_bit n i > take_bit n j then 1 else 0))"
    "returns s (Word_opgreaterEq n env s) (IntW (if take_bit n i \<ge> take_bit n j then 1 else 0))"
proof -
  have n32: "n \<le> 32" using n by simp
  note r = DEFINE2_run [OF c] DECLARE_WORDN_run [OF n32] RETURN_BOOL_returns [OF c] WORD_WORD_TO_BOOL_OP_def
    word_less_def word_le_def uint_take_bit_of_int [OF n32]
  show "returns s (Word_opless n env s) (IntW (if take_bit n i < take_bit n j then 1 else 0))"
    using RETURN_BOOL_returns [OF c, of "take_bit n i < take_bit n j"] by (simp only: Word_opless_def r)
  show "returns s (Word_oplessEq n env s) (IntW (if take_bit n i \<le> take_bit n j then 1 else 0))"
    using RETURN_BOOL_returns [OF c, of "take_bit n i \<le> take_bit n j"] by (simp only: Word_oplessEq_def r)
  show "returns s (Word_opgreater n env s) (IntW (if take_bit n i > take_bit n j then 1 else 0))"
    using RETURN_BOOL_returns [OF c, of "take_bit n i > take_bit n j"] by (simp only: Word_opgreater_def r)
  show "returns s (Word_opgreaterEq n env s) (IntW (if take_bit n i \<ge> take_bit n j then 1 else 0))"
    using RETURN_BOOL_returns [OF c, of "take_bit n i \<ge> take_bit n j"] by (simp only: Word_opgreaterEq_def r)
qed

lemma sint_uint_small: "uint (w :: u_int) < 2147483648 \<Longrightarrow> sint w = uint w"
  using s32_id [OF order_trans [OF _ uint_ge_0 [of w]]] by (simp add: sint_uint s32_def)

lemma wordn_to_int:
  assumes c: "prim_call s self [IntW i]" and n: "2 \<le> n" "n \<le> 31"
  shows "exact ex s (Word_toInt n env ex s) (take_bit n i)" "returns s (Word_toIntX n env s) (of_word n i)"
proof -
  have n32: "n \<le> 32" "0 < n" using n by simp_all
  let ?w = "take_bit n (word_of_int i) :: u_int"
  note u = uint_take_bit_of_int [OF n32(1)]
  have b: "0 \<le> take_bit n i" "take_bit n i < 2147483648"
    using less_le_trans [OF take_bit_int_less_exp [of n i] power_increasing [of n 31 "2::int"]] n(2) by simp_all
  have si: "sint ?w = take_bit n i" using u [of i] b by (simp add: sint_uint_small)
  have gt: "word_of_int MAX_VALID_INT < ?w \<longleftrightarrow> \<not> valid_int (take_bit n i)"
  proof -
    have "\<not> take_bit n i < - 1073741824" using b(1) by linarith
    then show ?thesis using u [of i] by (simp add: word_less_def valid_limits valid_int_iff not_le)
  qed
  note r = DEFINE1_run [OF c] DECLARE_WORDN_run [OF n32(1)] RETURN_INT_returns [OF c] prim_RAISE_raises [OF c]
  show "exact ex s (Word_toInt n env ex s) (take_bit n i)" using gt by (simp add: Word_toInt_def r exact_def si)
  have "sint (if bit i (n - 1) then ?w OR NOT (mask n) else ?w) = signed_take_bit (n - 1) i"
    by (rule bit_eqI) (use n in \<open>auto simp: bit_simps min_def dest: last_bit(1)\<close>)
  then show "returns s (Word_toIntX n env s) (of_word n i)"
    using RETURN_INT_returns [OF c signed_take_bit_valid, of n i] n sign_fill [of n 0]
    unfolding Word_toIntX_def DEFINE1_run [OF c] DECLARE_WORDN_run [OF n32(1)] of_word_def STORE_WORD_WIDTH_def sign_test [OF n32(2,1)]
    by (cases "bit i (n - 1)") simp_all
qed

text \<open>
  C28: the primitives on words of \<open>n\<close> bits, for the included precisions 8 and 31 and every one from 2 to 31, compute modulo
  \<open>2 ^ n\<close>: on the integers \<open>i\<close> and \<open>j\<close> that stand for words, arithmetic and bitwise operations return the word of the result
  on the integers, division is division of the unsigned values and raises \<^verbatim>\<open>Div\<close> for zero, shifts by any count are right
  (by more than the precision, too), and the conversions to integers are the unsigned and the signed value.
\<close>

theorem wordn_prims_exact:
  assumes "prim_call s self [IntW i, IntW j]" and "prim_call s1 self1 [IntW i]" and "2 \<le> n" and "n \<le> 31"
  shows "returns s (Word_opadd n env s) (of_word n (i + j)) \<and> returns s (Word_opsub n env s) (of_word n (i - j)) \<and>
    returns s (Word_opmul n env s) (of_word n (i * j)) \<and> returns s1 (Word_opneg n env s1) (of_word n (- i)) \<and>
    returns s (Word_andb n env s) (of_word n (i AND j)) \<and> returns s (Word_orb n env s) (of_word n (i OR j)) \<and>
    returns s (Word_xorb n env s) (of_word n (i XOR j)) \<and> returns s1 (Word_notb n env s1) (of_word n (NOT i)) \<and>
    (if take_bit n j = 0 then raises s (Word_div n env ex s) (General_Div ex) \<and> raises s (Word_mod n env ex s) (General_Div ex)
     else returns s (Word_div n env ex s) (of_word n (take_bit n i div take_bit n j)) \<and>
       returns s (Word_mod n env ex s) (of_word n (take_bit n i mod take_bit n j))) \<and>
    returns s (Word_opshl n env s) (of_word n (push_bit (nat (take_bit 31 j)) i)) \<and>
    returns s (Word_opshr n env s) (of_word n (drop_bit (nat (take_bit 31 j)) (take_bit n i))) \<and>
    returns s (Word_oparithshr n env s) (of_word n (drop_bit (nat (take_bit 31 j)) (signed_take_bit (n - 1) i))) \<and>
    returns s (Word_opless n env s) (IntW (if take_bit n i < take_bit n j then 1 else 0)) \<and>
    returns s1 (Word_fromInt n env s1) (of_word n i) \<and> exact ex s1 (Word_toInt n env ex s1) (take_bit n i) \<and>
    returns s1 (Word_toIntX n env s1) (of_word n i)"
  using wordn_ring_ops [OF assms(1,3,4)] wordn_unary_ops [OF assms(2-4)] wordn_division [OF assms(1,3,4), of env ex]
    wordn_shifts [OF assms(1,3,4)] wordn_compare [OF assms(1,4)] wordn_to_int [OF assms(2-4)]
  by (intro conjI) assumption+

theorem wordn_prims_exact_witness:
  "returns (sample_call [IntW (-56), IntW 100]) (Word_opadd 8 bare_env (sample_call [IntW (-56), IntW 100])) (IntW 44) \<and>
   returns (sample_call [IntW (-56), IntW 1]) (Word_oparithshr 8 bare_env (sample_call [IntW (-56), IntW 1])) (IntW (-28))"
  using wordn_prims_exact [OF sample_call_ok sample_call_ok, of "-56" 100 8 bare_env sample_exns]
    wordn_prims_exact [OF sample_call_ok sample_call_ok, of "-56" 1 8 bare_env sample_exns]
  by (simp add: of_word_def)

section \<open>Words of 32 bits\<close>

definition word32_at :: "sched \<Rightarrow> store_word \<Rightarrow> u_int \<Rightarrow> bool" where
  "word32_at s x w \<longleftrightarrow> (\<exists>a. x = BlkW a \<and> a < sc_next s \<and> sc_chunks s a = Some (word32_bytes w))"

definition returns32 :: "sched \<Rightarrow> (worker_result \<times> sched) option \<Rightarrow> u_int \<Rightarrow> bool" where
  "returns32 s r w \<longleftrightarrow> (\<exists>v. returns s r v \<and> (\<forall>res s'. r = Some (res, s') \<longrightarrow> word32_at s' v w))"

lemma word32_of_bytes:
  "push_bit 24 (ucast (ucast (drop_bit 24 w) :: 8 word)) OR push_bit 16 (ucast (ucast (drop_bit 16 w) :: 8 word)) OR
   push_bit 8 (ucast (ucast (drop_bit 8 w) :: 8 word)) OR ucast (ucast w :: 8 word) = (w :: u_int)"
proof (rule bit_word_eqI)
  fix n assume "n < LENGTH(32)"
  then consider "n < 8" | "8 \<le> n" "n < 16" | "16 \<le> n" "n < 24" | "24 \<le> n" "n < 32" by fastforce
  then show "bit (push_bit 24 (ucast (ucast (drop_bit 24 w) :: 8 word)) OR push_bit 16 (ucast (ucast (drop_bit 16 w) :: 8 word)) OR
   push_bit 8 (ucast (ucast (drop_bit 8 w) :: 8 word)) OR ucast (ucast w :: 8 word) :: u_int) n \<longleftrightarrow> bit w n"
    by cases (auto simp: bit_simps)
qed

lemma DECLARE_WORD32_run: "word32_at s x w \<Longrightarrow> DECLARE_WORD32 env self x (s\<lparr>sc_top := k\<rparr>) K = K w"
  by (auto simp: word32_at_def DECLARE_WORD32_def WordToBlock_def word32_bytes_def run_simps word32_of_bytes)

lemma RETURN_WORD32_returns:
  assumes "prim_call s self xs"
  shows "returns32 s (RETURN_WORD32 w (popped s)) w"
proof -
  let ?s1 = "(popped s)\<lparr>sc_chunks := (sc_chunks s)(sc_next s \<mapsto> word32_bytes w), sc_next := Suc (sc_next s)\<rparr>"
  have r: "RETURN_WORD32 w (popped s) = RETURN1 (BlkW (sc_next s)) ?s1"
    by (simp add: RETURN_WORD32_def Word32ToWord_def new_chunk_def popped_def)
  have "extends s ?s1" by (simp add: popped_def extends_def same_sched_def tview_def)
  then have "returns s (RETURN1 (BlkW (sc_next s)) ?s1) (BlkW (sc_next s))"
    by (intro RETURN1_returns [OF assms]) (simp_all add: popped_def)
  then show ?thesis unfolding returns32_def r
    by (intro exI [of _ "BlkW (sc_next s)"]) (auto simp: word32_at_def RETURN1_def SetNArgs_def SetCurrentArg_def run_elims)
qed

lemma word32_binary:
  assumes c: "prim_call s self [x, y]" and x: "word32_at s x a" and y: "word32_at s y b"
  shows "returns32 s (WORD32_WORD_TO_WORD_OP cop env s) (cop a b)"
    "returns s (WORD32_WORD_TO_BOOL_OP cmp env s) (IntW (if cmp a b then 1 else 0))"
    "if b = 0 then raises s (Word32_div env ex s) (General_Div ex) \<and> raises s (Word32_mod env ex s) (General_Div ex)
     else returns32 s (Word32_div env ex s) (a div b) \<and> returns32 s (Word32_mod env ex s) (a mod b)"
proof -
  note r = DEFINE2_run [OF c] DECLARE_WORD32_run [OF x] DECLARE_WORD32_run [OF y]
  note p = RETURN_WORD32_returns [OF c] RETURN_BOOL_returns [OF c] prim_RAISE_raises [OF c]
  show "returns32 s (WORD32_WORD_TO_WORD_OP cop env s) (cop a b)"
    using p(1) by (simp add: WORD32_WORD_TO_WORD_OP_def r popped_def)
  show "returns s (WORD32_WORD_TO_BOOL_OP cmp env s) (IntW (if cmp a b then 1 else 0))"
    using p(2) [of "cmp a b"] by (simp add: WORD32_WORD_TO_BOOL_OP_def r popped_def)
  show "if b = 0 then raises s (Word32_div env ex s) (General_Div ex) \<and> raises s (Word32_mod env ex s) (General_Div ex)
     else returns32 s (Word32_div env ex s) (a div b) \<and> returns32 s (Word32_mod env ex s) (a mod b)"
    using p(1) [of "a div b"] p(1) [of "a mod b"] p(3) [of env "General_Div ex"] by (simp add: Word32_div_def Word32_mod_def r popped_def)
qed

lemma word32_unary:
  assumes c: "prim_call s self [x]" and x: "word32_at s x a"
  shows "returns32 s (Word32_opneg env s) (- a)" "returns32 s (Word32_notb env s) (NOT a)"
    "exact ex s (Word32_toInt env ex s) (uint a)" "exact ex s (Word32_toIntX env ex s) (sint a)"
proof -
  note r = DEFINE1_run [OF c] DECLARE_WORD32_run [OF x]
  note p = RETURN_WORD32_returns [OF c] RETURN_INT_returns [OF c] prim_RAISE_raises [OF c]
  show "returns32 s (Word32_opneg env s) (- a)" "returns32 s (Word32_notb env s) (NOT a)"
    using p(1) [of "- a"] p(1) [of "NOT a"] by (simp_all add: Word32_opneg_def Word32_notb_def r popped_def)
  have v: "valid_int (uint a) \<longleftrightarrow> \<not> a > word_of_int MAX_VALID_INT"
    using order_trans [OF _ uint_ge_0 [of a], of "- 1073741824"] by (simp add: word_less_def valid_limits valid_int_iff not_less)
  moreover have "sint a = uint a" if "valid_int (uint a)" using that by (intro sint_uint_small) (simp add: valid_int_iff)
  ultimately show "exact ex s (Word32_toInt env ex s) (uint a)"
    using p(2) [of "uint a"] p(3) [of env "General_Overflow ex"] by (auto simp: Word32_toInt_def r exact_def popped_def)
  show "exact ex s (Word32_toIntX env ex s) (sint a)"
    using p(2) [of "sint a"] p(3) [of env "General_Overflow ex"]
    by (auto simp: Word32_toIntX_def r exact_def popped_def valid_int_def not_le not_less)
qed

lemma word32_shifts:
  assumes c: "prim_call s self [x, IntW j]" and x: "word32_at s x a"
  defines "k \<equiv> nat (take_bit 31 j)"
  shows "returns32 s (Word32_opshl env s) (push_bit k a)" "returns32 s (Word32_opshr env s) (drop_bit k a)"
    "returns32 s (Word32_oparithshr env s) (signed_drop_bit k a)"
proof -
  have p: "STANDARD_WORD_PRECISION \<le> 32" by (simp add: STANDARD_WORD_PRECISION_def)
  note r = DEFINE2_run [OF c] DECLARE_WORD32_run [OF x, where k = "sc_top s - 1", folded popped_def] DECLARE_WORDN_run [OF p]
  let ?j = "take_bit STANDARD_WORD_PRECISION (word_of_int j) :: u_int"
  have big: "32 \<le> ?j \<longleftrightarrow> 32 \<le> k" "unat ?j = k" "31 < ?j \<longleftrightarrow> 31 < k"
    using shift_count(1) [of j] by (simp_all add: word_le_nat_alt word_less_nat_alt k_def)
  have z: "push_bit k a = 0" "drop_bit k a = 0" if "32 \<le> k" using that by (auto intro!: bit_word_eqI simp: bit_simps)
  show "returns32 s (Word32_opshl env s) (push_bit k a)" "returns32 s (Word32_opshr env s) (drop_bit k a)"
    using RETURN_WORD32_returns [OF c, of 0] RETURN_WORD32_returns [OF c, of "push_bit k a"] RETURN_WORD32_returns [OF c, of "drop_bit k a"] z
    by (cases "32 \<le> k"; simp add: Word32_opshl_def Word32_opshr_def r big)+
  define m where "m = (if k > 31 then 31 else k)"
  have m: "unat (if 31 < ?j then 31 else ?j) = m" using big by (simp add: m_def)
  have "(if bit a 31 then drop_bit m a OR NOT (drop_bit m (-1)) else drop_bit m a) = signed_drop_bit k a"
  proof (rule bit_word_eqI)
    fix n assume "n < LENGTH(32)"
    moreover have "\<not> bit a q" if "32 \<le> q" for q using that bit_imp_le_length [of a q] by auto
    ultimately show "bit (if bit a 31 then drop_bit m a OR NOT (drop_bit m (-1)) else drop_bit m a) n \<longleftrightarrow> bit (signed_drop_bit k a) n"
      by (cases "n = 0"; cases "31 < k") (auto simp: bit_simps m_def)
  qed
  moreover have "a AND push_bit 31 1 \<noteq> 0 \<longleftrightarrow> bit a 31" by (simp add: and_exp_eq_0_iff_not_bit [of a 31, simplified])
  ultimately show "returns32 s (Word32_oparithshr env s) (signed_drop_bit k a)"
    using RETURN_WORD32_returns [OF c, of "signed_drop_bit k a"] unfolding Word32_oparithshr_def r Let_def m by (auto split: if_splits)
qed

text \<open>
  C29: the primitives on words of 32 bits. Such a word is a chunk of four bytes; on chunks for \<open>a\<close> and \<open>b\<close> the operations
  return a new chunk for the result of the machine operation on 32-bit words, division by zero raises \<^verbatim>\<open>Div\<close>, shifts are
  right for any count, and the conversions to integers are exact or raise \<^verbatim>\<open>Overflow\<close>; the conversion from integers keeps
  the bits.
\<close>

theorem word32_prims_exact:
  assumes "prim_call s self [x, y]" and "word32_at s x a" and "word32_at s y b"
    and "prim_call s1 self1 [x1]" and "word32_at s1 x1 a" and "prim_call s2 self2 [x2, IntW j]" and "word32_at s2 x2 a"
    and "prim_call s3 self3 [IntW j]"
  shows "returns32 s (Word32_opadd env s) (a + b) \<and> returns32 s (Word32_opsub env s) (a - b) \<and> returns32 s (Word32_opmul env s) (a * b) \<and>
    returns32 s (Word32_andb env s) (a AND b) \<and> returns32 s (Word32_orb env s) (a OR b) \<and> returns32 s (Word32_xorb env s) (a XOR b) \<and>
    returns s (Word32_opless env s) (IntW (if a < b then 1 else 0)) \<and>
    returns s (Word32_oplessEq env s) (IntW (if a \<le> b then 1 else 0)) \<and>
    (if b = 0 then raises s (Word32_div env ex s) (General_Div ex) \<and> raises s (Word32_mod env ex s) (General_Div ex)
     else returns32 s (Word32_div env ex s) (a div b) \<and> returns32 s (Word32_mod env ex s) (a mod b)) \<and>
    returns32 s1 (Word32_opneg env s1) (- a) \<and> returns32 s1 (Word32_notb env s1) (NOT a) \<and>
    exact ex s1 (Word32_toInt env ex s1) (uint a) \<and> exact ex s1 (Word32_toIntX env ex s1) (sint a) \<and>
    returns32 s2 (Word32_opshl env s2) (push_bit (nat (take_bit 31 j)) a) \<and>
    returns32 s2 (Word32_opshr env s2) (drop_bit (nat (take_bit 31 j)) a) \<and>
    returns32 s2 (Word32_oparithshr env s2) (signed_drop_bit (nat (take_bit 31 j)) a) \<and>
    returns32 s3 (Word32_fromInt env s3) (word_of_int j)"
proof -
  note b = word32_binary [OF assms(1-3)]
  have "returns32 s3 (Word32_fromInt env s3) (word_of_int j)"
    using RETURN_WORD32_returns [OF assms(8)] by (simp add: Word32_fromInt_def DEFINE1_run [OF assms(8)] DECLARE_INT_run)
  then show ?thesis
    using b(1) [of "(+)" env] b(1) [of "(-)" env] b(1) [of "(*)" env] b(1) [of "(AND)" env] b(1) [of "(OR)" env] b(1) [of "(XOR)" env]
      b(2) [of "(<)" env] b(2) [of "(\<le>)" env] b(3) [of env ex] word32_unary [OF assms(4,5)] word32_shifts [OF assms(6,7), of env]
    unfolding Word32_opadd_def Word32_opsub_def Word32_opmul_def Word32_andb_def Word32_orb_def Word32_xorb_def Word32_opless_def Word32_oplessEq_def
    by (intro conjI) assumption+
qed

theorem word32_prims_exact_witness:
  "\<exists>s. s = (sample_call [BlkW 1, BlkW 2])\<lparr>sc_chunks := [1 \<mapsto> [0x80, 0, 0, 1], 2 \<mapsto> [0x80, 0, 0, 4]], sc_next := 3\<rparr> \<and>
    returns32 s (Word32_opadd bare_env s) 5 \<and> returns32 s (Word32_div bare_env sample_exns s) 0"
proof -
  define C :: "addr \<Rightarrow> 8 word list option" where "C = [1 \<mapsto> [0x80, 0, 0, 1], 2 \<mapsto> [0x80, 0, 0, 4]]"
  let ?st = "\<lambda>xs. (sample_call xs)\<lparr>sc_chunks := C, sc_next := 3\<rparr>"
  have c: "prim_call (?st xs) (IntW 9) xs" if "length xs \<le> 16" for xs using sample_call_ok [OF that] by (simp add: prim_call_def)
  have w: "word32_at (?st xs) (BlkW 1) 0x80000001" "word32_at (?st xs) (BlkW 2) 0x80000004" for xs
    by (simp_all add: word32_at_def C_def word32_bytes_def)
  have e: "(0x80000001 :: u_int) + 0x80000004 = 5" "(0x80000001 :: u_int) div 0x80000004 = 0" "(0x80000004 :: u_int) \<noteq> 0" by code_simp+
  have "returns32 (?st [BlkW 1, BlkW 2]) (Word32_opadd bare_env (?st [BlkW 1, BlkW 2])) (0x80000001 + 0x80000004) \<and>
    returns32 (?st [BlkW 1, BlkW 2]) (Word32_div bare_env sample_exns (?st [BlkW 1, BlkW 2])) (0x80000001 div 0x80000004)"
    using word32_prims_exact [OF c w c w(1) c w(1) c, of 0 bare_env sample_exns] e(3) by fastforce
  then show ?thesis unfolding e by (simp add: C_def)
qed

end
