(* ===== verification/Alice_Data.thy ===== *)
theory Alice_Data
  imports Arith_Prims
begin

text \<open>
  The data of Alice on the store: the labels and block classes of \<^verbatim>\<open>alice/vm-seam/alice/Data.hh\<close> and \<^verbatim>\<open>Data.cc\<close>, with
  \<^verbatim>\<open>seam/generic/Tuple.hh\<close>, \<^verbatim>\<open>Closure.hh\<close>, \<^verbatim>\<open>UniqueString.hh\<close>, \<^verbatim>\<open>ConcreteRepresentation.hh\<close> and \<^verbatim>\<open>Transform.hh\<close>.

  A class of blocks is its label; its \<^verbatim>\<open>FromWordDirect\<close> untags a word and asserts the label, its \<^verbatim>\<open>FromWord\<close> dereferences
  the word first and answers \<open>None\<close> (\<^verbatim>\<open>INVALID_POINTER\<close>) when it is not a block. Here they give the arguments of the block.
  A constructor (\<^verbatim>\<open>New\<close> followed by \<^verbatim>\<open>Init\<close> of every argument) allocates a block of the given arguments. The shared empty
  vector and record, made once by \<^verbatim>\<open>Init\<close>, are fields of \<open>alice_consts\<close>.
\<close>

section \<open>Labels\<close>

definition Alice_Array :: block_label where "Alice_Array = DATA_LABEL 0"
definition Alice_Cell :: block_label where "Alice_Cell = DATA_LABEL 2"
definition Alice_ConVal :: block_label where "Alice_ConVal = DATA_LABEL 3"
definition Alice_Record :: block_label where "Alice_Record = DATA_LABEL 4"
definition Alice_Vector :: block_label where "Alice_Vector = DATA_LABEL 5"
definition Alice_BIG_TAG :: block_label where "Alice_BIG_TAG = DATA_LABEL 6"
definition Alice_MIN_TAG :: nat where "Alice_MIN_TAG = MIN_DATA_LABEL + 7"
definition Alice_MAX_TAG :: nat where "Alice_MAX_TAG = MAX_DATA_LABEL"

definition IsTag :: "block_label \<Rightarrow> bool" where
  "IsTag l = (case l of DATA_LABEL n \<Rightarrow> n \<ge> Alice_MIN_TAG \<and> n \<le> Alice_MAX_TAG | _ \<Rightarrow> False)"

definition IsBigTagVal :: "nat \<Rightarrow> bool" where
  "IsBigTagVal nLabels \<longleftrightarrow> Alice_MIN_TAG + nLabels > Alice_MAX_TAG"

definition TagToLabel :: "nat \<Rightarrow> block_label option" where
  "TagToLabel l = do { Assert (l \<le> Alice_MAX_TAG - Alice_MIN_TAG); Some (DATA_LABEL (Alice_MIN_TAG + l)) }"

definition LabelToTag :: "block_label \<Rightarrow> nat option" where
  "LabelToTag l = do { Assert (IsTag l); case l of DATA_LABEL n \<Rightarrow> Some (n - Alice_MIN_TAG) | _ \<Rightarrow> None }"

section \<open>Untagging\<close>

definition DirectWordToBlock :: "store_word \<Rightarrow> addr option" where
  "DirectWordToBlock w = (case w of BlkW a \<Rightarrow> Some a | _ \<Rightarrow> None)"

definition DirectWordToInt :: "store_word \<Rightarrow> int option" where
  "DirectWordToInt w = (case w of IntW i \<Rightarrow> Some i | _ \<Rightarrow> None)"

text \<open>An index or a length: an integer used as a \<^verbatim>\<open>u_int\<close>.\<close>

definition DirectWordToNat :: "store_word \<Rightarrow> nat option" where
  "DirectWordToNat w = do { i \<leftarrow> DirectWordToInt w; Some (unat (word_of_int i :: u_int)) }"

definition FromWordDirect :: "(block_label \<Rightarrow> bool) \<Rightarrow> sched \<Rightarrow> store_word \<Rightarrow> store_word list option" where
  "FromWordDirect ok s w = do {
     a \<leftarrow> DirectWordToBlock w;
     (l, ws) \<leftarrow> sc_blocks s a;
     Assert (ok l);
     Some ws }"

definition FromWord :: "(block_label \<Rightarrow> bool) \<Rightarrow> sched \<Rightarrow> store_word \<Rightarrow> store_word list option option" where
  "FromWord ok s w = do {
     b \<leftarrow> WordToBlock (sc_trans s) w;
     case b of None \<Rightarrow> Some None
     | Some a \<Rightarrow> do {
         (l, ws) \<leftarrow> sc_blocks s a;
         Assert (ok l);
         Some (Some ws) } }"

definition AssertWidth :: "nat \<Rightarrow> store_word list \<Rightarrow> unit option" where
  "AssertWidth n ws = Assert (alloc_size n = alloc_size (length ws))"

section \<open>Tuples, closures, cells\<close>

definition Tuple_FromWord where "Tuple_FromWord = FromWord (\<lambda>l. l = TUPLE_LABEL)"
definition Tuple_FromWordDirect where "Tuple_FromWordDirect = FromWordDirect (\<lambda>l. l = TUPLE_LABEL)"
definition Tuple_New where "Tuple_New = new_block TUPLE_LABEL"

definition Closure_FromWordDirect where "Closure_FromWordDirect = FromWordDirect (\<lambda>l. l = CLOSURE_LABEL)"

definition Closure_New :: "store_word \<Rightarrow> store_word list \<Rightarrow> sched \<Rightarrow> addr \<times> sched" where
  "Closure_New concreteCode vs = new_block CLOSURE_LABEL (concreteCode # vs)"

definition Closure_GetConcreteCode :: "store_word list \<Rightarrow> store_word option" where
  "Closure_GetConcreteCode ws = Block_GetArg ws 0"

definition Closure_Sub :: "store_word list \<Rightarrow> nat \<Rightarrow> store_word option" where
  "Closure_Sub ws i = Block_GetArg ws (1 + i)"

definition Cell_FromWord where "Cell_FromWord = FromWord (\<lambda>l. l = Alice_Cell)"

definition Cell_New :: "store_word \<Rightarrow> sched \<Rightarrow> addr \<times> sched" where
  "Cell_New v = new_block Alice_Cell [v]"

definition Cell_Access :: "store_word list \<Rightarrow> store_word option" where
  "Cell_Access ws = Block_GetArg ws 0"

section \<open>Tagged values\<close>

definition tagged :: "sched \<Rightarrow> addr \<Rightarrow> (nat \<times> store_word list) option" where
  "tagged s a = do { (l, ws) \<leftarrow> sc_blocks s a; tag \<leftarrow> LabelToTag l; Some (tag, ws) }"

definition TagVal_FromWordDirect :: "sched \<Rightarrow> store_word \<Rightarrow> (nat \<times> store_word list) option" where
  "TagVal_FromWordDirect s w = do { a \<leftarrow> DirectWordToBlock w; tagged s a }"

definition TagVal_FromWord :: "sched \<Rightarrow> store_word \<Rightarrow> (nat \<times> store_word list) option option" where
  "TagVal_FromWord s w = do {
     b \<leftarrow> WordToBlock (sc_trans s) w;
     case b of None \<Rightarrow> Some None | Some a \<Rightarrow> map_option Some (tagged s a) }"

definition TagVal_New :: "nat \<Rightarrow> store_word list \<Rightarrow> sched \<Rightarrow> (addr \<times> sched) option" where
  "TagVal_New tag vs s = do { l \<leftarrow> TagToLabel tag; Some (new_block l vs s) }"

definition BigTagVal_New :: "nat \<Rightarrow> store_word list \<Rightarrow> sched \<Rightarrow> addr \<times> sched" where
  "BigTagVal_New tag vs = new_block Alice_BIG_TAG (IntW (int tag) # vs)"

definition BigTagVal_FromWord where "BigTagVal_FromWord = FromWord (\<lambda>l. l = Alice_BIG_TAG)"

definition BigTagVal_GetTag :: "store_word list \<Rightarrow> nat option" where
  "BigTagVal_GetTag ws = do { w \<leftarrow> Block_GetArg ws 0; DirectWordToNat w }"

definition ConVal_New :: "addr \<Rightarrow> store_word list \<Rightarrow> sched \<Rightarrow> addr \<times> sched" where
  "ConVal_New constructor vs = new_block Alice_ConVal (BlkW constructor # vs)"

text \<open>\<^verbatim>\<open>ConVal::FromWord\<close>: a constructed value or, for a nullary constructor, the constructor itself.\<close>

definition ConVal_FromWord :: "sched \<Rightarrow> store_word \<Rightarrow> (addr \<times> block_label \<times> store_word list) option option" where
  "ConVal_FromWord s w = do {
     b \<leftarrow> WordToBlock (sc_trans s) w;
     case b of None \<Rightarrow> Some None
     | Some a \<Rightarrow> do {
         (l, ws) \<leftarrow> sc_blocks s a;
         Assert (l = Alice_ConVal \<or> l = UNIQUESTRING_LABEL \<or> l = CONCRETE_LABEL);
         Some (Some (a, l, ws)) } }"

definition ConVal_GetConstructor :: "store_word list \<Rightarrow> addr option" where
  "ConVal_GetConstructor ws = do { w \<leftarrow> Block_GetArg ws 0; DirectWordToBlock w }"

section \<open>Vectors and arrays\<close>

record alice_consts =
  ac_emptyVector :: store_word
  ac_emptyRecord :: store_word
  ac_constructorHandler :: store_word
  ac_gmpHandler :: store_word

definition Vector_FromWord where "Vector_FromWord = FromWord (\<lambda>l. l = Alice_Vector)"
definition Vector_FromWordDirect where "Vector_FromWordDirect = FromWordDirect (\<lambda>l. l = Alice_Vector)"

definition Vector_GetLength :: "store_word list \<Rightarrow> nat option" where
  "Vector_GetLength ws = do { w \<leftarrow> Block_GetArg ws 0; DirectWordToNat w }"

definition Vector_Sub :: "store_word list \<Rightarrow> nat \<Rightarrow> store_word option" where
  "Vector_Sub ws i = Block_GetArg ws (1 + i)"

text \<open>The elements that a loop over a vector reads.\<close>

definition Vector_elems :: "store_word list \<Rightarrow> store_word list option" where
  "Vector_elems ws = do {
     n \<leftarrow> Vector_GetLength ws;
     Assert (n < length ws);
     Some (take n (drop 1 ws)) }"

definition Vector_New :: "alice_consts \<Rightarrow> store_word list \<Rightarrow> sched \<Rightarrow> (store_word \<times> sched) option" where
  "Vector_New ac vs s =
     (if vs = [] then do { e \<leftarrow> Vector_FromWordDirect s (ac_emptyVector ac); Some (ac_emptyVector ac, s) }
      else let (a, s1) = new_block Alice_Vector (IntW (int (length vs)) # vs) s in Some (BlkW a, s1))"

definition Vector_Init :: "sched \<Rightarrow> store_word \<times> sched" where
  "Vector_Init s = (let (a, s1) = new_block Alice_Vector [IntW 0] s in (BlkW a, s1))"

definition Vector_Clone :: "alice_consts \<Rightarrow> store_word \<Rightarrow> sched \<Rightarrow> (store_word \<times> sched) option" where
  "Vector_Clone ac w s = do {
     ws \<leftarrow> Vector_FromWordDirect s w;
     vs \<leftarrow> Vector_elems ws;
     Vector_New ac vs s }"

text \<open>\<^verbatim>\<open>Vector::Flatten\<close>: the elements of the vectors in a vector, in order.\<close>

fun flatten_elems :: "sched \<Rightarrow> store_word list \<Rightarrow> store_word list option" where
  "flatten_elems s [] = Some []"
| "flatten_elems s (w # ws) = do {
     v \<leftarrow> Vector_FromWord s w;
     vec \<leftarrow> v;
     items \<leftarrow> Vector_elems vec;
     rest \<leftarrow> flatten_elems s ws;
     Some (items @ rest) }"

definition Vector_Flatten :: "alice_consts \<Rightarrow> store_word \<Rightarrow> sched \<Rightarrow> (store_word \<times> sched) option" where
  "Vector_Flatten ac w s = do {
     ws \<leftarrow> Vector_FromWordDirect s w;
     vs \<leftarrow> Vector_elems ws;
     flat \<leftarrow> flatten_elems s vs;
     Vector_New ac flat s }"

section \<open>Concrete representations\<close>

definition ConcreteRepresentation_New :: "store_word \<Rightarrow> store_word list \<Rightarrow> sched \<Rightarrow> addr \<times> sched" where
  "ConcreteRepresentation_New handler vs = new_block CONCRETE_LABEL (handler # vs)"

definition ConcreteRepresentation_FromWord where
  "ConcreteRepresentation_FromWord = FromWord (\<lambda>l. l = CONCRETE_LABEL)"

definition ConcreteRepresentation_FromWordDirect where
  "ConcreteRepresentation_FromWordDirect = FromWordDirect (\<lambda>l. l = CONCRETE_LABEL)"

definition ConcreteRepresentation_GetHandler :: "store_word list \<Rightarrow> store_word option" where
  "ConcreteRepresentation_GetHandler ws = Block_GetArg ws 0"

definition ConcreteRepresentation_Get :: "store_word list \<Rightarrow> nat \<Rightarrow> store_word option" where
  "ConcreteRepresentation_Get ws i = Block_GetArg ws (1 + i)"

definition Transform_New :: "store_word \<Rightarrow> store_word \<Rightarrow> sched \<Rightarrow> addr \<times> sched" where
  "Transform_New name argument = new_block TRANSFORM_LABEL [name, argument]"

definition Transform_GetArgument :: "sched \<Rightarrow> store_word \<Rightarrow> store_word option" where
  "Transform_GetArgument s w = do { ws \<leftarrow> FromWordDirect (\<lambda>l. l = TRANSFORM_LABEL) s w; Block_GetArg ws 1 }"

definition Constructor_New :: "alice_consts \<Rightarrow> store_word \<Rightarrow> sched \<Rightarrow> addr \<times> sched" where
  "Constructor_New ac name = ConcreteRepresentation_New (ac_constructorHandler ac) [name, IntW 0]"

section \<open>Records\<close>

definition UniqueString_FromWordDirect where
  "UniqueString_FromWordDirect = FromWordDirect (\<lambda>l. l = UNIQUESTRING_LABEL)"

definition UniqueString_Hash :: "sched \<Rightarrow> store_word \<Rightarrow> nat option" where
  "UniqueString_Hash s w = do {
     ws \<leftarrow> UniqueString_FromWordDirect s w;
     h \<leftarrow> Block_GetArg ws 1;
     DirectWordToNat h }"

definition Record_FromWord where "Record_FromWord = FromWord (\<lambda>l. l = Alice_Record)"

text \<open>A record is its width and then the labels and the values in turn; \<open>record_args\<close> are its arguments.\<close>

fun record_args :: "store_word list \<Rightarrow> store_word list \<Rightarrow> store_word list" where
  "record_args (l # ls) (v # vs) = l # v # record_args ls vs"
| "record_args _ _ = []"

fun check_labels :: "sched \<Rightarrow> store_word list \<Rightarrow> unit option" where
  "check_labels s [] = Some ()"
| "check_labels s (l # ls) = do { u \<leftarrow> UniqueString_FromWordDirect s l; check_labels s ls }"

definition Record_New :: "alice_consts \<Rightarrow> store_word list \<Rightarrow> store_word list \<Rightarrow> sched \<Rightarrow> (store_word \<times> sched) option" where
  "Record_New ac labels vs s =
     (if labels = [] then Some (ac_emptyRecord ac, s)
      else do {
        check_labels s labels;
        let (a, s1) = new_block Alice_Record (IntW (int (length labels)) # record_args labels vs) s;
        Some (BlkW a, s1) })"

text \<open>\<^verbatim>\<open>PolySel\<close> probes from the hash value of the label on; after a whole round without success the machine aborts.\<close>

partial_function (option) polysel_loop :: "store_word list \<Rightarrow> nat \<Rightarrow> store_word \<Rightarrow> nat \<Rightarrow> nat \<Rightarrow> store_word option" where
  "polysel_loop ws n wLabel index i =
     Option.bind (Block_GetArg ws (1 + i * 2)) (\<lambda>l.
       if l = wLabel then Block_GetArg ws (1 + i * 2 + 1)
       else if (i + 1) mod n = index then None
       else polysel_loop ws n wLabel index ((i + 1) mod n))"

declare polysel_loop.simps [code]

definition Record_PolySel :: "sched \<Rightarrow> store_word list \<Rightarrow> store_word \<Rightarrow> store_word option" where
  "Record_PolySel s ws label = do {
     w \<leftarrow> Block_GetArg ws 0;
     n \<leftarrow> DirectWordToNat w;
     Assert (n \<noteq> 0);
     h \<leftarrow> UniqueString_Hash s label;
     let index = h mod n;
     polysel_loop ws n label index index }"

text \<open>\<^verbatim>\<open>Record::Init(const char *, word)\<close>, given the unique string of the label: the next free field gets the label and the value.\<close>

partial_function (option) record_init_loop ::
  "store_word list \<Rightarrow> nat \<Rightarrow> store_word \<Rightarrow> store_word \<Rightarrow> nat \<Rightarrow> nat \<Rightarrow> store_word list option" where
  "record_init_loop ws n label v index i =
     Option.bind (Block_GetArg ws (1 + i * 2)) (\<lambda>l.
       if l = IntW 0 then Option.bind (Block_SetArg ws (1 + i * 2) label) (\<lambda>ws1. Block_SetArg ws1 (1 + i * 2 + 1) v)
       else if (i + 1) mod n = index then None
       else record_init_loop ws n label v index ((i + 1) mod n))"

declare record_init_loop.simps [code]

definition Record_Init :: "sched \<Rightarrow> store_word \<Rightarrow> store_word \<Rightarrow> store_word list \<Rightarrow> store_word list option" where
  "Record_Init s label v ws = do {
     w \<leftarrow> Block_GetArg ws 0;
     n \<leftarrow> DirectWordToNat w;
     Assert (n \<noteq> 0);
     h \<leftarrow> UniqueString_Hash s label;
     let index = h mod n;
     record_init_loop ws n label v index index }"

end
