(* ===== verification/Abstract_Code.thy ===== *)
theory Abstract_Code
  imports Alice_Data
begin

text \<open>
  The interpreter of abstract code: \<^verbatim>\<open>alice/vm-seam/alice/AbstractCodeInterpreter.cc\<close>, its frames \<^verbatim>\<open>AbstractCodeFrame.hh\<close>
  and \<^verbatim>\<open>AbstractCodeFrame.cc\<close>, the code objects \<^verbatim>\<open>AliceConcreteCode.hh\<close> and \<^verbatim>\<open>AliceConcreteCode.cc\<close>, the accessors of
  \<^verbatim>\<open>AbstractCode.hh\<close> and \<^verbatim>\<open>LazySelInterpreter.cc\<close>.

  Abstract code is data on the heap: an instruction is a tagged value whose arguments hold its operands and its
  continuations. The program counter is the word of an instruction. One definition per instruction gives what a case of
  the \<^verbatim>\<open>switch\<close> in \<^verbatim>\<open>Run\<close> does: go on at another instruction (\<open>Goto\<close>) or leave the interpreter with a result
  (\<open>Leave\<close>). The loop \<open>run_loop\<close> is a partial function, since code may jump back.

  The fields of \<open>aenv\<close> are the static members that the interpreter reads: itself and the other interpreters, shared
  constants and the constructor for code that the start-up chose (\<^verbatim>\<open>concreteCodeConstructor\<close>). The equality of two
  floating-point numbers, given as the bytes of their chunks, is that of the machine. An instruction that builds a block
  allocates it when its arguments are known; reading arguments does not allocate, so the new address is the same.
\<close>

section \<open>Tags of the code\<close>

datatype instr =
    AppPrim | AppVar | Close | CompactIntTest | CompactTagTest | ConTest | Coord | EndHandle | EndTry | Entry | Exit
  | GetRef | GetTup | IntTest | Kill | LazyPolySel | PutCon | PutNew | PutPolyRec | PutRef | PutTag | PutTup | PutVar
  | PutVec | Raise | RealTest | Reraise | Return | Sel | Shared | Specialize | StringTest | TagTest | Try | VecTest

definition instrs :: "instr list" where
  "instrs = [AppPrim, AppVar, Close, CompactIntTest, CompactTagTest, ConTest, Coord, EndHandle, EndTry, Entry, Exit,
     GetRef, GetTup, IntTest, Kill, LazyPolySel, PutCon, PutNew, PutPolyRec, PutRef, PutTag, PutTup, PutVar,
     PutVec, Raise, RealTest, Reraise, Return, Sel, Shared, Specialize, StringTest, TagTest, Try, VecTest]"

definition GetInstr :: "nat \<Rightarrow> instr option" where
  "GetInstr tag = Block_GetArg instrs tag"

datatype idRef = Global | Immediate | LastUseLocal | Local

definition idRefs_order :: "idRef list" where
  "idRefs_order = [Global, Immediate, LastUseLocal, Local]"

definition AbstractCode_GetIdRef :: "nat \<Rightarrow> idRef option" where
  "AbstractCode_GetIdRef tag = Block_GetArg idRefs_order tag"

definition idRef_tag :: "idRef \<Rightarrow> nat" where
  "idRef_tag r = (case r of Global \<Rightarrow> 0 | Immediate \<Rightarrow> 1 | LastUseLocal \<Rightarrow> 2 | Local \<Rightarrow> 3)"

definition functionWidth :: nat where "functionWidth = 7"

record aenv =
  ae_env :: senv
  ae_consts :: alice_consts
  ae_self :: store_word
  ae_bytecode :: store_word
  ae_hotspot :: store_word
  ae_lazySel :: store_word
  ae_lazySelCode :: store_word
  ae_functionName :: store_word
  ae_undefined :: store_word
  ae_dead :: store_word
  ae_construct :: "store_word \<Rightarrow> sched \<Rightarrow> (store_word \<times> sched) option"
  ae_real_eq :: "8 word list \<Rightarrow> 8 word list \<Rightarrow> bool"

section \<open>Code objects\<close>

definition GetNumberOfLocals :: "sched \<Rightarrow> store_word list \<Rightarrow> nat option" where
  "GetNumberOfLocals s abstractCode = do {
     w \<leftarrow> Block_GetArg abstractCode 2;
     (tag, annotation) \<leftarrow> TagVal_FromWordDirect s w;
     x \<leftarrow> Block_GetArg annotation 0;
     if tag = 1 then DirectWordToNat x
     else if tag = 0 then do { v \<leftarrow> Vector_FromWordDirect s x; Vector_GetLength v }
     else None }"

fun count_globals :: "sched \<Rightarrow> store_word list \<Rightarrow> nat option" where
  "count_globals s [] = Some 0"
| "count_globals s (w # ws) = do {
     (tag, idr) \<leftarrow> TagVal_FromWordDirect s w;
     r \<leftarrow> AbstractCode_GetIdRef tag;
     n \<leftarrow> count_globals s ws;
     Some (if r = Global then Suc n else n) }"

definition GetNumberOfGlobals :: "sched \<Rightarrow> store_word list \<Rightarrow> nat option" where
  "GetNumberOfGlobals s idRefs = do { vs \<leftarrow> Vector_elems idRefs; count_globals s vs }"

text \<open>\<^verbatim>\<open>AliceConcreteCode\<close>: the handler, the abstract code, the map of the code of its closures, the transform.\<close>

definition AliceConcreteCode_New :: "aenv \<Rightarrow> store_word \<Rightarrow> sched \<Rightarrow> (store_word \<times> sched) option" where
  "AliceConcreteCode_New ae abstractCode s = do {
     (tag, ac) \<leftarrow> TagVal_FromWordDirect s abstractCode;
     AssertWidth functionWidth ac;
     let (t, s1) = Transform_New (ae_functionName ae) abstractCode s;
     (m, s2) \<leftarrow> new_map 8 s1;
     let (c, s3) = ConcreteRepresentation_New (ae_self ae) [abstractCode, BlkW m, BlkW t] s2;
     Some (BlkW c, s3) }"

definition AliceConcreteCode_GetAbstractCode :: "sched \<Rightarrow> store_word list \<Rightarrow> store_word list option" where
  "AliceConcreteCode_GetAbstractCode s acc = do {
     w \<leftarrow> ConcreteRepresentation_Get acc 0;
     (tag, ac) \<leftarrow> TagVal_FromWordDirect s w;
     Some ac }"

definition AliceConcreteCode_GetNLocals :: "sched \<Rightarrow> store_word list \<Rightarrow> nat option" where
  "AliceConcreteCode_GetNLocals s acc = do { ac \<leftarrow> AliceConcreteCode_GetAbstractCode s acc; GetNumberOfLocals s ac }"

text \<open>\<^verbatim>\<open>GetAbstractRepresentation\<close> of the three interpreters: where the transform is.\<close>

definition transform_pos :: "aenv \<Rightarrow> store_word \<Rightarrow> nat option" where
  "transform_pos ae interpreter =
     (if interpreter = ae_self ae then Some 2
      else if interpreter = ae_hotspot ae \<or> interpreter = ae_bytecode ae then Some 0 else None)"

definition ConcreteToAbstractCode :: "aenv \<Rightarrow> store_word \<Rightarrow> sched \<Rightarrow> store_word list option" where
  "ConcreteToAbstractCode ae wConcreteCode s = do {
     c \<leftarrow> ConcreteRepresentation_FromWord s wConcreteCode;
     cc \<leftarrow> c;
     interpreter \<leftarrow> ConcreteRepresentation_GetHandler cc;
     p \<leftarrow> transform_pos ae interpreter;
     tr \<leftarrow> ConcreteRepresentation_Get cc p;
     arg \<leftarrow> Transform_GetArgument s tr;
     v \<leftarrow> TagVal_FromWord s arg;
     (tag, ac) \<leftarrow> v;
     Some ac }"

section \<open>Frames\<close>

definition frame_get :: "nat \<Rightarrow> sched \<Rightarrow> store_word option" where
  "frame_get pos s = Frame_GetArg (sc_top s) pos (sc_stack s)"

definition frame_set :: "nat \<Rightarrow> store_word \<Rightarrow> sched \<Rightarrow> sched option" where
  "frame_set pos v s = do { st \<leftarrow> Frame_InitArg (sc_top s) pos v (sc_stack s); Some (s\<lparr>sc_stack := st\<rparr>) }"

definition PC_POS :: nat where "PC_POS = 0"
definition COORD_POS :: nat where "COORD_POS = 1"
definition CLOSURE_POS :: nat where "CLOSURE_POS = 2"
definition FORMAL_ARGS_POS :: nat where "FORMAL_ARGS_POS = 3"
definition SIZE_POS :: nat where "SIZE_POS = 4"
definition FRAME_BASE_SIZE :: nat where "FRAME_BASE_SIZE = 5"

definition AbstractCodeFrame_GetSize :: "sched \<Rightarrow> nat option" where
  "AbstractCodeFrame_GetSize s = do { w \<leftarrow> frame_get SIZE_POS s; DirectWordToNat w }"

definition SetPC :: "store_word \<Rightarrow> sched \<Rightarrow> sched option" where "SetPC = frame_set PC_POS"
definition SetCoord :: "store_word \<Rightarrow> sched \<Rightarrow> sched option" where "SetCoord = frame_set COORD_POS"
definition SetFormalArgs :: "store_word \<Rightarrow> sched \<Rightarrow> sched option" where "SetFormalArgs = frame_set FORMAL_ARGS_POS"

text \<open>The identifier of a local variable: an integer, used as an index.\<close>

definition local_id :: "store_word \<Rightarrow> sched \<Rightarrow> nat option" where
  "local_id w s = do {
     i \<leftarrow> WordToInt (sc_trans s) w;
     n \<leftarrow> i;
     let k = unat (word_of_int n :: u_int);
     size \<leftarrow> AbstractCodeFrame_GetSize s;
     Assert (k < size - FRAME_BASE_SIZE - 1);
     Some k }"

definition GetLocal :: "aenv \<Rightarrow> store_word \<Rightarrow> sched \<Rightarrow> store_word option" where
  "GetLocal ae w s = do {
     k \<leftarrow> local_id w s;
     v \<leftarrow> frame_get (FRAME_BASE_SIZE + k) s;
     Assert (v \<noteq> ae_dead ae);
     Some v }"

definition SetLocal :: "store_word \<Rightarrow> store_word \<Rightarrow> sched \<Rightarrow> sched option" where
  "SetLocal w v s = do { k \<leftarrow> local_id w s; frame_set (FRAME_BASE_SIZE + k) v s }"

definition KillLocal :: "aenv \<Rightarrow> store_word \<Rightarrow> sched \<Rightarrow> sched option" where
  "KillLocal ae w s = do { k \<leftarrow> local_id w s; frame_set (FRAME_BASE_SIZE + k) (ae_dead ae) s }"

text \<open>A new frame for the code \<open>acc\<close> and a closure; the outer option fails, the inner one is a stack overflow.\<close>

definition AbstractCodeFrame_New :: "aenv \<Rightarrow> store_word list \<Rightarrow> store_word \<Rightarrow> sched \<Rightarrow> sched option option" where
  "AbstractCodeFrame_New ae acc closure s = do {
     abstractCode \<leftarrow> AliceConcreteCode_GetAbstractCode s acc;
     nbLocals \<leftarrow> AliceConcreteCode_GetNLocals s acc;
     pc \<leftarrow> Block_GetArg abstractCode 5;
     formalArgs \<leftarrow> Block_GetArg abstractCode 3;
     new_frame (ae_env ae) (ae_self ae)
       ([pc, IntW 0, closure, formalArgs, IntW (int (1 + FRAME_BASE_SIZE + nbLocals))] @ replicate nbLocals (ae_undefined ae)) s }"

definition AbstractCodeInterpreter_PushCall :: "aenv \<Rightarrow> addr \<Rightarrow> sched \<Rightarrow> sched option option" where
  "AbstractCodeInterpreter_PushCall ae closure s = do {
     cl \<leftarrow> Closure_FromWordDirect s (BlkW closure);
     code \<leftarrow> Closure_GetConcreteCode cl;
     c \<leftarrow> ConcreteRepresentation_FromWord s code;
     acc \<leftarrow> c;
     interpreter \<leftarrow> ConcreteRepresentation_GetHandler acc;
     Assert (interpreter = ae_self ae);
     AbstractCodeFrame_New ae acc (BlkW closure) s }"

section \<open>References to values\<close>

definition subst_value :: "aenv \<Rightarrow> store_word \<Rightarrow> store_word list \<Rightarrow> sched \<Rightarrow> store_word option" where
  "subst_value ae wSubst globalEnv s = do {
     (tag, substIdRef) \<leftarrow> TagVal_FromWordDirect s wSubst;
     r \<leftarrow> AbstractCode_GetIdRef tag;
     x \<leftarrow> Block_GetArg substIdRef 0;
     case r of Immediate \<Rightarrow> Some x
     | Global \<Rightarrow> do { j \<leftarrow> DirectWordToNat x; Closure_Sub globalEnv j }
     | _ \<Rightarrow> GetLocal ae x s }"

definition GetIdRef :: "aenv \<Rightarrow> store_word \<Rightarrow> addr \<Rightarrow> sched \<Rightarrow> store_word option" where
  "GetIdRef ae idr globalEnv s = do {
     (tag, tagVal) \<leftarrow> TagVal_FromWordDirect s idr;
     r \<leftarrow> AbstractCode_GetIdRef tag;
     x \<leftarrow> Block_GetArg tagVal 0;
     case r of Immediate \<Rightarrow> Some x
     | Global \<Rightarrow> do {
         cl \<leftarrow> Closure_FromWordDirect s (BlkW globalEnv);
         code \<leftarrow> Closure_GetConcreteCode cl;
         aac \<leftarrow> ConcreteToAbstractCode ae code s;
         wSubst \<leftarrow> Block_GetArg aac 1;
         subst \<leftarrow> Vector_FromWordDirect s wSubst;
         i \<leftarrow> WordToInt (sc_trans s) x;
         n \<leftarrow> i;
         wIdRef \<leftarrow> Vector_Sub subst (unat (word_of_int n :: u_int));
         subst_value ae wIdRef cl s }
     | _ \<Rightarrow> GetLocal ae x s }"

definition KillIdRef :: "aenv \<Rightarrow> store_word \<Rightarrow> sched \<Rightarrow> sched option" where
  "KillIdRef ae idr s = do {
     (tag, tagVal) \<leftarrow> TagVal_FromWordDirect s idr;
     r \<leftarrow> AbstractCode_GetIdRef tag;
     if r = LastUseLocal then do { x \<leftarrow> Block_GetArg tagVal 0; KillLocal ae x s } else Some s }"

definition GetIdRefKill :: "aenv \<Rightarrow> store_word \<Rightarrow> addr \<Rightarrow> sched \<Rightarrow> (store_word \<times> sched) option" where
  "GetIdRefKill ae idr globalEnv s = do {
     v \<leftarrow> GetIdRef ae idr globalEnv s;
     s1 \<leftarrow> KillIdRef ae idr s;
     Some (v, s1) }"

text \<open>The loops over vectors of references and of definitions run from the last element to the first.\<close>

fun read_refs :: "aenv \<Rightarrow> addr \<Rightarrow> store_word list \<Rightarrow> nat \<Rightarrow> store_word list \<Rightarrow> sched \<Rightarrow> (store_word list \<times> sched) option" where
  "read_refs ae cl refs 0 vs s = Some (vs, s)"
| "read_refs ae cl refs (Suc i) vs s = do {
     r \<leftarrow> Block_GetArg refs i;
     (v, s1) \<leftarrow> GetIdRefKill ae r cl s;
     read_refs ae cl refs i (v # vs) s1 }"

fun pass_args :: "aenv \<Rightarrow> addr \<Rightarrow> store_word list \<Rightarrow> nat \<Rightarrow> sched \<Rightarrow> sched option" where
  "pass_args ae cl refs 0 s = Some s"
| "pass_args ae cl refs (Suc i) s = do {
     r \<leftarrow> Block_GetArg refs i;
     (v, s1) \<leftarrow> GetIdRefKill ae r cl s;
     s2 \<leftarrow> SetCurrentArg i v s1;
     pass_args ae cl refs i s2 }"

fun bind_defs :: "store_word list \<Rightarrow> (nat \<Rightarrow> sched \<Rightarrow> store_word option) \<Rightarrow> nat \<Rightarrow> sched \<Rightarrow> sched option" where
  "bind_defs defs vals 0 s = Some s"
| "bind_defs defs vals (Suc i) s = do {
     d \<leftarrow> Block_GetArg defs i;
     idDef \<leftarrow> TagVal_FromWord s d;
     s1 \<leftarrow> (case idDef of None \<Rightarrow> Some s
       | Some (tag, a) \<Rightarrow> do { x \<leftarrow> Block_GetArg a 0; v \<leftarrow> vals i s; SetLocal x v s });
     bind_defs defs vals i s1 }"

fun kill_locals :: "aenv \<Rightarrow> store_word list \<Rightarrow> nat \<Rightarrow> sched \<Rightarrow> sched option" where
  "kill_locals ae ids 0 s = Some s"
| "kill_locals ae ids (Suc i) s = do {
     x \<leftarrow> Block_GetArg ids i;
     s1 \<leftarrow> KillLocal ae x s;
     kill_locals ae ids i s1 }"

definition vector_of :: "sched \<Rightarrow> store_word \<Rightarrow> store_word list option" where
  "vector_of s w = do { v \<leftarrow> Vector_FromWordDirect s w; Vector_elems v }"

end
