(* ===== verification/Abstract_Interp.thy ===== *)
theory Abstract_Interp
  imports Abstract_Code
begin

text \<open>
  The instructions of abstract code and the interpreter loop (\<^verbatim>\<open>AbstractCodeInterpreter::Run\<close>, \<^verbatim>\<open>Handle\<close>,
  \<^verbatim>\<open>GetCloseConcreteCode\<close>), and the interpreter of lazy selections (\<^verbatim>\<open>LazySelInterpreter.cc\<close>). An instruction gets the
  closure \<open>cl\<close> that runs, its own word \<open>pc\<close>, its arguments \<open>pa\<close> and the current coordinates.
\<close>

datatype exec = Goto store_word store_word sched | Leave worker_result sched

text \<open>\<^verbatim>\<open>pc = TagVal::FromWordDirect(...)\<close> and back to the loop.\<close>

definition goto :: "store_word \<Rightarrow> store_word option \<Rightarrow> sched \<Rightarrow> exec option" where
  "goto coord target s = do {
     w \<leftarrow> target;
     (tag, args) \<leftarrow> TagVal_FromWordDirect s w;
     Some (Goto w coord s) }"

text \<open>The macro \<^verbatim>\<open>REQUEST\<close> of the interpreter: save the state so that the instruction is run again.\<close>

definition exec_REQUEST :: "aenv \<Rightarrow> store_word \<Rightarrow> store_word \<Rightarrow> store_word \<Rightarrow> sched \<Rightarrow> exec option" where
  "exec_REQUEST ae pc coord w s = do {
     t \<leftarrow> WordToTransient (sc_trans s) w;
     Assert (t \<noteq> None);
     s1 \<leftarrow> SetPC pc s;
     s2 \<leftarrow> SetCoord coord s1;
     (e, s3) \<leftarrow> Vector_New (ae_consts ae) [] s2;
     s4 \<leftarrow> SetFormalArgs e s3;
     s5 \<leftarrow> SetNArgs 0 (s4\<lparr>sc_data := w\<rparr>);
     Some (Leave REQUEST s5) }"

definition pop_frame :: "sched \<Rightarrow> sched option" where
  "pop_frame s = do { n \<leftarrow> AbstractCodeFrame_GetSize s; Sched_PopFrame n s }"

section \<open>Moving values and building data\<close>

definition exec_Coord where
  "exec_Coord pa s = do { coord \<leftarrow> Block_GetArg pa 0; goto coord (Block_GetArg pa 1) s }"

definition exec_Entry where
  "exec_Entry pa s = do { coord \<leftarrow> Block_GetArg pa 0; goto coord (Block_GetArg pa 2) s }"

definition exec_Exit where
  "exec_Exit pa s = do { coord \<leftarrow> Block_GetArg pa 0; goto coord (Block_GetArg pa 3) s }"

definition exec_Kill where
  "exec_Kill ae pa coord s = do {
     w \<leftarrow> Block_GetArg pa 0;
     kills \<leftarrow> vector_of s w;
     s1 \<leftarrow> kill_locals ae kills (length kills) s;
     goto coord (Block_GetArg pa 1) s1 }"

definition exec_PutVar where
  "exec_PutVar ae cl pa coord s = do {
     x \<leftarrow> Block_GetArg pa 0;
     r \<leftarrow> Block_GetArg pa 1;
     (v, s1) \<leftarrow> GetIdRefKill ae r cl s;
     s2 \<leftarrow> SetLocal x v s1;
     goto coord (Block_GetArg pa 2) s2 }"

definition exec_PutNew where
  "exec_PutNew ae pa coord s = do {
     x \<leftarrow> Block_GetArg pa 0;
     name \<leftarrow> Block_GetArg pa 1;
     let (c, s1) = Constructor_New (ae_consts ae) name s;
     s2 \<leftarrow> SetLocal x (BlkW c) s1;
     goto coord (Block_GetArg pa 2) s2 }"

definition exec_PutTag where
  "exec_PutTag ae cl pa coord s = do {
     x \<leftarrow> Block_GetArg pa 0;
     wn \<leftarrow> Block_GetArg pa 1;
     nLabels \<leftarrow> DirectWordToNat wn;
     wt \<leftarrow> Block_GetArg pa 2;
     tag \<leftarrow> DirectWordToNat wt;
     wr \<leftarrow> Block_GetArg pa 3;
     idRefs \<leftarrow> vector_of s wr;
     (vs, s1) \<leftarrow> read_refs ae cl idRefs (length idRefs) [] s;
     (a, s2) \<leftarrow> (if IsBigTagVal nLabels then Some (BigTagVal_New tag vs s1) else TagVal_New tag vs s1);
     s3 \<leftarrow> SetLocal x (BlkW a) s2;
     goto coord (Block_GetArg pa 4) s3 }"

definition exec_PutCon where
  "exec_PutCon ae cl pc pa coord s = do {
     x \<leftarrow> Block_GetArg pa 0;
     rc \<leftarrow> Block_GetArg pa 1;
     wr \<leftarrow> Block_GetArg pa 2;
     idRefs \<leftarrow> vector_of s wr;
     requestWord \<leftarrow> GetIdRef ae rc cl s;
     c \<leftarrow> WordToBlock (sc_trans s) requestWord;
     case c of None \<Rightarrow> exec_REQUEST ae pc coord requestWord s
     | Some constructor \<Rightarrow> do {
         s1 \<leftarrow> KillIdRef ae rc s;
         (vs, s2) \<leftarrow> read_refs ae cl idRefs (length idRefs) [] s1;
         let (a, s3) = ConVal_New constructor vs s2;
         s4 \<leftarrow> SetLocal x (BlkW a) s3;
         goto coord (Block_GetArg pa 3) s4 } }"

definition exec_PutRef where
  "exec_PutRef ae cl pa coord s = do {
     x \<leftarrow> Block_GetArg pa 0;
     r \<leftarrow> Block_GetArg pa 1;
     (v, s1) \<leftarrow> GetIdRefKill ae r cl s;
     let (a, s2) = Cell_New v s1;
     s3 \<leftarrow> SetLocal x (BlkW a) s2;
     goto coord (Block_GetArg pa 2) s3 }"

definition exec_PutTup where
  "exec_PutTup ae cl pa coord s = do {
     x \<leftarrow> Block_GetArg pa 0;
     wr \<leftarrow> Block_GetArg pa 1;
     idRefs \<leftarrow> vector_of s wr;
     s3 \<leftarrow> (if idRefs = [] then SetLocal x (IntW 0) s
       else do {
         (vs, s1) \<leftarrow> read_refs ae cl idRefs (length idRefs) [] s;
         let (a, s2) = Tuple_New vs s1;
         SetLocal x (BlkW a) s2 });
     goto coord (Block_GetArg pa 2) s3 }"

definition exec_PutPolyRec where
  "exec_PutPolyRec ae cl pa coord s = do {
     x \<leftarrow> Block_GetArg pa 0;
     wl \<leftarrow> Block_GetArg pa 1;
     labels \<leftarrow> vector_of s wl;
     wr \<leftarrow> Block_GetArg pa 2;
     idRefs \<leftarrow> vector_of s wr;
     Assert (length labels = length idRefs);
     (vs, s1) \<leftarrow> read_refs ae cl idRefs (length idRefs) [] s;
     (r, s2) \<leftarrow> Record_New (ae_consts ae) labels vs s1;
     s3 \<leftarrow> SetLocal x r s2;
     goto coord (Block_GetArg pa 3) s3 }"

definition exec_PutVec where
  "exec_PutVec ae cl pa coord s = do {
     x \<leftarrow> Block_GetArg pa 0;
     wr \<leftarrow> Block_GetArg pa 1;
     idRefs \<leftarrow> vector_of s wr;
     (vs, s1) \<leftarrow> read_refs ae cl idRefs (length idRefs) [] s;
     (v, s2) \<leftarrow> Vector_New (ae_consts ae) vs s1;
     s3 \<leftarrow> SetLocal x v s2;
     goto coord (Block_GetArg pa 2) s3 }"

section \<open>Closures\<close>

text \<open>
  \<^verbatim>\<open>GetCloseConcreteCode\<close>. A \<^verbatim>\<open>Close\<close> instruction makes its code once per code object that runs it: a global variable
  whose value the substitution of the parent knows stays known, the others are numbered anew.
\<close>

fun inherit_subst :: "sched \<Rightarrow> store_word list \<Rightarrow> store_word list \<Rightarrow> nat \<Rightarrow> (store_word list \<times> sched) option" where
  "inherit_subst s parentSubst [] j = Some ([], s)"
| "inherit_subst s parentSubst (w # ws) j = do {
     r \<leftarrow> TagVal_FromWord s w;
     (tag, idr) \<leftarrow> r;
     kind \<leftarrow> AbstractCode_GetIdRef tag;
     known \<leftarrow> (if kind = Global then do {
         x \<leftarrow> Block_GetArg idr 0;
         i \<leftarrow> DirectWordToNat x;
         ps \<leftarrow> Block_GetArg parentSubst i;
         (ptag, p) \<leftarrow> TagVal_FromWordDirect s ps;
         pkind \<leftarrow> AbstractCode_GetIdRef ptag;
         Some (if pkind = Immediate then Some ps else None)
       } else Some None);
     case known of
       Some ps \<Rightarrow> do { (rest, s1) \<leftarrow> inherit_subst s parentSubst ws j; Some (ps # rest, s1) }
     | None \<Rightarrow> do {
         (g, s1) \<leftarrow> TagVal_New (idRef_tag Global) [IntW (int j)] s;
         (rest, s2) \<leftarrow> inherit_subst s1 parentSubst ws (Suc j);
         Some (BlkW g # rest, s2) } }"

text \<open>The abstract code of a function made from a template and a substitution.\<close>

definition instantiate :: "aenv \<Rightarrow> store_word list \<Rightarrow> store_word list \<Rightarrow> sched \<Rightarrow> (store_word \<times> sched) option" where
  "instantiate ae template subst s = do {
     AssertWidth functionWidth template;
     t0 \<leftarrow> Block_GetArg template 0;
     t2 \<leftarrow> Block_GetArg template 2;
     t3 \<leftarrow> Block_GetArg template 3;
     t4 \<leftarrow> Block_GetArg template 4;
     t5 \<leftarrow> Block_GetArg template 5;
     t6 \<leftarrow> Block_GetArg template 6;
     (wSubst, s1) \<leftarrow> Vector_New (ae_consts ae) subst s;
     (a, s2) \<leftarrow> TagVal_New 0 [t0, wSubst, t2, t3, t4, t5, t6] s1;
     ae_construct ae (BlkW a) s2 }"

text \<open>The abstract code and the map of closure codes of a code object, by its interpreter.\<close>

definition code_parts :: "aenv \<Rightarrow> store_word list \<Rightarrow> sched \<Rightarrow> (store_word list \<times> store_word) option" where
  "code_parts ae cc s = do {
     interpreter \<leftarrow> ConcreteRepresentation_GetHandler cc;
     if interpreter = ae_self ae then do {
       ac \<leftarrow> AliceConcreteCode_GetAbstractCode s cc;
       m \<leftarrow> ConcreteRepresentation_Get cc 1;
       Some (ac, m)
     } else if interpreter = ae_bytecode ae then do {
       tr \<leftarrow> ConcreteRepresentation_Get cc 0;
       arg \<leftarrow> Transform_GetArgument s tr;
       (tag, ac) \<leftarrow> TagVal_FromWordDirect s arg;
       m \<leftarrow> ConcreteRepresentation_Get cc 9;
       Some (ac, m)
     } else if interpreter = ae_hotspot ae then do {
       code \<leftarrow> ConcreteRepresentation_Get cc 3;
       acc \<leftarrow> ConcreteRepresentation_FromWordDirect s code;
       h \<leftarrow> ConcreteRepresentation_GetHandler acc;
       Assert (h = ae_self ae);
       ac \<leftarrow> AliceConcreteCode_GetAbstractCode s acc;
       m \<leftarrow> ConcreteRepresentation_Get acc 1;
       Some (ac, m)
     } else None }"

definition GetCloseConcreteCode :: "aenv \<Rightarrow> store_word \<Rightarrow> store_word \<Rightarrow> store_word list \<Rightarrow> sched \<Rightarrow> (store_word \<times> sched) option" where
  "GetCloseConcreteCode ae parent wCloseInstr closeInstr s = do {
     cc \<leftarrow> ConcreteRepresentation_FromWordDirect s parent;
     (abstractCode, wMap) \<leftarrow> code_parts ae cc s;
     ma \<leftarrow> DirectWordToBlock wMap;
     m \<leftarrow> sc_maps s ma;
     member \<leftarrow> Map_IsMember WordKey_Hash WordKey_Equals no_transient wCloseInstr m;
     if member then do { c \<leftarrow> Map_Get WordKey_Hash WordKey_Equals no_transient wCloseInstr m; Some (c, s) }
     else do {
       ps \<leftarrow> Block_GetArg abstractCode 1;
       parentSubst \<leftarrow> vector_of s ps;
       wr \<leftarrow> Block_GetArg closeInstr 1;
       idRefs \<leftarrow> vector_of s wr;
       (subst, s1) \<leftarrow> inherit_subst s parentSubst idRefs 0;
       wt \<leftarrow> Block_GetArg closeInstr 2;
       (tag, template) \<leftarrow> TagVal_FromWordDirect s1 wt;
       (code, s2) \<leftarrow> instantiate ae template subst s1;
       m1 \<leftarrow> sc_maps s2 ma;
       m2 \<leftarrow> Map_Put WordKey_Hash WordKey_Equals no_transient wCloseInstr code m1;
       Some (code, s2\<lparr>sc_maps := (sc_maps s2)(ma \<mapsto> m2)\<rparr>) } }"

text \<open>The loop of \<^verbatim>\<open>Close\<close>: all references are read, the ones with a global substitute go into the closure.\<close>

fun close_values :: "aenv \<Rightarrow> addr \<Rightarrow> store_word list \<Rightarrow> store_word list \<Rightarrow> sched \<Rightarrow> (store_word list \<times> sched) option" where
  "close_values ae cl [] subst s = Some ([], s)"
| "close_values ae cl (r # rs) subst s = do {
     (v, s1) \<leftarrow> GetIdRefKill ae r cl s;
     w \<leftarrow> Block_GetArg subst 0;
     (tag, si) \<leftarrow> TagVal_FromWordDirect s1 w;
     kind \<leftarrow> AbstractCode_GetIdRef tag;
     (rest, s2) \<leftarrow> close_values ae cl rs (drop 1 subst) s1;
     Some (if kind = Global then v # rest else rest, s2) }"

definition exec_Close where
  "exec_Close ae cl pc pa coord s = do {
     x \<leftarrow> Block_GetArg pa 0;
     wr \<leftarrow> Block_GetArg pa 1;
     idRefs \<leftarrow> vector_of s wr;
     env \<leftarrow> Closure_FromWordDirect s (BlkW cl);
     parent \<leftarrow> Closure_GetConcreteCode env;
     (code, s1) \<leftarrow> GetCloseConcreteCode ae parent pc pa s;
     abstractCode \<leftarrow> ConcreteToAbstractCode ae code s1;
     ws \<leftarrow> Block_GetArg abstractCode 1;
     v \<leftarrow> Vector_FromWord s1 ws;
     vec \<leftarrow> v;
     subst \<leftarrow> Vector_elems vec;
     closureSize \<leftarrow> GetNumberOfGlobals s1 vec;
     (vs, s2) \<leftarrow> close_values ae cl idRefs subst s1;
     Assert (length vs = closureSize);
     let (a, s3) = Closure_New code vs s2;
     s4 \<leftarrow> SetLocal x (BlkW a) s3;
     goto coord (Block_GetArg pa 3) s4 }"

text \<open>\<^verbatim>\<open>Specialize\<close>: all values are known, and the closure is empty.\<close>

fun immediates :: "store_word list \<Rightarrow> sched \<Rightarrow> (store_word list \<times> sched) option" where
  "immediates [] s = Some ([], s)"
| "immediates (v # vs) s = do {
     (rest, s1) \<leftarrow> immediates vs s;
     (a, s2) \<leftarrow> TagVal_New (idRef_tag Immediate) [v] s1;
     Some (BlkW a # rest, s2) }"

definition exec_Specialize where
  "exec_Specialize ae cl pa coord s = do {
     x \<leftarrow> Block_GetArg pa 0;
     wr \<leftarrow> Block_GetArg pa 1;
     idRefs \<leftarrow> vector_of s wr;
     wt \<leftarrow> Block_GetArg pa 2;
     (tag, template) \<leftarrow> TagVal_FromWordDirect s wt;
     wn \<leftarrow> Block_GetArg template 1;
     n \<leftarrow> DirectWordToNat wn;
     Assert (n = length idRefs);
     (vs, s1) \<leftarrow> read_refs ae cl idRefs (length idRefs) [] s;
     (subst, s2) \<leftarrow> immediates vs s1;
     (code, s3) \<leftarrow> instantiate ae template subst s2;
     let (a, s4) = Closure_New code [] s3;
     s5 \<leftarrow> SetLocal x (BlkW a) s4;
     goto coord (Block_GetArg pa 3) s5 }"

section \<open>Calls\<close>

text \<open>The continuation of a call, if it is no tail call, is saved in the frame; a tail call gives up the frame.\<close>

definition save_return :: "store_word \<Rightarrow> store_word \<Rightarrow> sched \<Rightarrow> sched option" where
  "save_return w coord s = do {
     r \<leftarrow> TagVal_FromWord s w;
     case r of
       Some (tag, sm) \<Rightarrow> do {
         t \<leftarrow> Block_GetArg sm 0;
         idDefInstr \<leftarrow> Tuple_FromWordDirect s t;
         pc \<leftarrow> Block_GetArg idDefInstr 1;
         s1 \<leftarrow> SetPC pc s;
         s2 \<leftarrow> SetCoord coord s1;
         defs \<leftarrow> Block_GetArg idDefInstr 0;
         SetFormalArgs defs s2 }
     | None \<Rightarrow> pop_frame s }"

definition leave :: "(worker_result \<times> sched) option \<Rightarrow> exec option" where
  "leave m = do { (r, s) \<leftarrow> m; Some (Leave r s) }"

definition exec_AppPrim where
  "exec_AppPrim ae cl pa coord s = do {
     wr \<leftarrow> Block_GetArg pa 1;
     idRefs \<leftarrow> vector_of s wr;
     s1 \<leftarrow> SetNArgs (length idRefs) s;
     s2 \<leftarrow> pass_args ae cl idRefs (length idRefs) s1;
     cont \<leftarrow> Block_GetArg pa 2;
     s3 \<leftarrow> save_return cont coord s2;
     closure \<leftarrow> Block_GetArg pa 0;
     leave (PushCall (ae_env ae) closure s3) }"

definition exec_AppVar where
  "exec_AppVar ae cl pa coord s = do {
     wr \<leftarrow> Block_GetArg pa 1;
     idRefs \<leftarrow> vector_of s wr;
     s1 \<leftarrow> SetNArgs (length idRefs) s;
     s2 \<leftarrow> pass_args ae cl idRefs (length idRefs) s1;
     rc \<leftarrow> Block_GetArg pa 0;
     (closure, s3) \<leftarrow> GetIdRefKill ae rc cl s2;
     cont \<leftarrow> Block_GetArg pa 3;
     s4 \<leftarrow> save_return cont coord s3;
     (r, s5) \<leftarrow> PushCall (ae_env ae) closure s4;
     Some (Leave (if ev_status (ae_env ae) s4 \<and> r = CONTINUE then PREEMPT else r) s5) }"

definition exec_Return where
  "exec_Return ae cl pa s = do {
     wr \<leftarrow> Block_GetArg pa 0;
     idRefs \<leftarrow> vector_of s wr;
     s1 \<leftarrow> SetNArgs (length idRefs) s;
     s2 \<leftarrow> pass_args ae cl idRefs (length idRefs) s1;
     s3 \<leftarrow> pop_frame s2;
     Some (Leave (if ev_status (ae_env ae) s3 then PREEMPT else CONTINUE) s3) }"


section \<open>Taking data apart\<close>

definition exec_GetRef where
  "exec_GetRef ae cl pc pa coord s = do {
     x \<leftarrow> Block_GetArg pa 0;
     r \<leftarrow> Block_GetArg pa 1;
     requestWord \<leftarrow> GetIdRef ae r cl s;
     c \<leftarrow> Cell_FromWord s requestWord;
     case c of None \<Rightarrow> exec_REQUEST ae pc coord requestWord s
     | Some cell \<Rightarrow> do {
         s1 \<leftarrow> KillIdRef ae r s;
         v \<leftarrow> Cell_Access cell;
         s2 \<leftarrow> SetLocal x v s1;
         goto coord (Block_GetArg pa 2) s2 } }"

definition exec_GetTup where
  "exec_GetTup ae cl pc pa coord s = do {
     r \<leftarrow> Block_GetArg pa 1;
     requestWord \<leftarrow> GetIdRef ae r cl s;
     wd \<leftarrow> Block_GetArg pa 0;
     idDefs \<leftarrow> vector_of s wd;
     if idDefs = [] then do {
       i \<leftarrow> WordToInt (sc_trans s) requestWord;
       case i of None \<Rightarrow> exec_REQUEST ae pc coord requestWord s
       | Some _ \<Rightarrow> do { s1 \<leftarrow> KillIdRef ae r s; goto coord (Block_GetArg pa 2) s1 }
     } else do {
       t \<leftarrow> Tuple_FromWord s requestWord;
       case t of None \<Rightarrow> exec_REQUEST ae pc coord requestWord s
       | Some tuple \<Rightarrow> do {
           s1 \<leftarrow> KillIdRef ae r s;
           AssertWidth (length idDefs) tuple;
           s2 \<leftarrow> bind_defs idDefs (\<lambda>i _. Block_GetArg tuple i) (length idDefs) s1;
           goto coord (Block_GetArg pa 2) s2 } } }"

definition exec_Sel where
  "exec_Sel ae cl pc pa coord s = do {
     x \<leftarrow> Block_GetArg pa 0;
     r \<leftarrow> Block_GetArg pa 1;
     requestWord \<leftarrow> GetIdRef ae r cl s;
     t \<leftarrow> Tuple_FromWord s requestWord;
     case t of None \<Rightarrow> exec_REQUEST ae pc coord requestWord s
     | Some tuple \<Rightarrow> do {
         s1 \<leftarrow> KillIdRef ae r s;
         wi \<leftarrow> Block_GetArg pa 2;
         i \<leftarrow> DirectWordToNat wi;
         v \<leftarrow> Block_GetArg tuple i;
         s2 \<leftarrow> SetLocal x v s1;
         goto coord (Block_GetArg pa 3) s2 } }"

text \<open>\<^verbatim>\<open>LazySelClosure::New\<close>, suspended in a by-need future.\<close>

definition LazySelClosure_New :: "aenv \<Rightarrow> store_word \<Rightarrow> store_word \<Rightarrow> sched \<Rightarrow> addr \<times> sched" where
  "LazySelClosure_New ae record label = Closure_New (ae_lazySelCode ae) [record, label]"

fun lazy_sels :: "aenv \<Rightarrow> store_word \<Rightarrow> store_word list \<Rightarrow> store_word list \<Rightarrow> nat \<Rightarrow> sched \<Rightarrow> sched option" where
  "lazy_sels ae wRecord ids labels 0 s = Some s"
| "lazy_sels ae wRecord ids labels (Suc i) s = do {
     l \<leftarrow> Block_GetArg labels i;
     u \<leftarrow> UniqueString_FromWordDirect s l;
     let (c, s1) = LazySelClosure_New ae wRecord l s;
     let (b, s2) = new_transient (ByneedT (BlkW c)) s1;
     x \<leftarrow> Block_GetArg ids i;
     s3 \<leftarrow> SetLocal x (TrW b) s2;
     lazy_sels ae wRecord ids labels i s3 }"

fun poly_sels :: "store_word list \<Rightarrow> store_word list \<Rightarrow> store_word list \<Rightarrow> nat \<Rightarrow> sched \<Rightarrow> sched option" where
  "poly_sels record ids labels 0 s = Some s"
| "poly_sels record ids labels (Suc i) s = do {
     l \<leftarrow> Block_GetArg labels i;
     v \<leftarrow> Record_PolySel s record l;
     x \<leftarrow> Block_GetArg ids i;
     s1 \<leftarrow> SetLocal x v s;
     poly_sels record ids labels i s1 }"

definition exec_LazyPolySel where
  "exec_LazyPolySel ae cl pa coord s = do {
     r \<leftarrow> Block_GetArg pa 1;
     (wRecord, s1) \<leftarrow> GetIdRefKill ae r cl s;
     rec \<leftarrow> Record_FromWord s1 wRecord;
     wi \<leftarrow> Block_GetArg pa 0;
     ids \<leftarrow> vector_of s1 wi;
     wl \<leftarrow> Block_GetArg pa 2;
     labels \<leftarrow> vector_of s1 wl;
     Assert (length ids = length labels);
     s2 \<leftarrow> (case rec of None \<Rightarrow> lazy_sels ae wRecord ids labels (length ids) s1
       | Some record \<Rightarrow> poly_sels record ids labels (length ids) s1);
     goto coord (Block_GetArg pa 3) s2 }"

section \<open>Exceptions\<close>

definition exec_Raise where
  "exec_Raise ae cl pc pa coord s = do {
     r \<leftarrow> Block_GetArg pa 0;
     requestWord \<leftarrow> GetIdRef ae r cl s;
     t \<leftarrow> WordToTransient (sc_trans s) requestWord;
     case t of Some a \<Rightarrow> exec_REQUEST ae pc coord (TrW a) s
     | None \<Rightarrow> do {
         s1 \<leftarrow> KillIdRef ae r s;
         s2 \<leftarrow> SetCoord coord s1;
         (b, s3) \<leftarrow> Backtrace_New (ae_env ae) (s2\<lparr>sc_data := requestWord\<rparr>);
         Some (Leave RAISE (s3\<lparr>sc_backtrace := b\<rparr>)) } }"

definition exec_Reraise where
  "exec_Reraise ae cl pa coord s = do {
     r \<leftarrow> Block_GetArg pa 0;
     (v, s1) \<leftarrow> GetIdRefKill ae r cl s;
     package \<leftarrow> Tuple_FromWordDirect s1 v;
     AssertWidth 2 package;
     s2 \<leftarrow> SetCoord coord s1;
     exn \<leftarrow> Block_GetArg package 0;
     wb \<leftarrow> Block_GetArg package 1;
     b \<leftarrow> DirectWordToBlock wb;
     Some (Leave RERAISE (s2\<lparr>sc_data := exn, sc_backtrace := b\<rparr>)) }"

definition exec_Try where
  "exec_Try ae pa coord s = do {
     d1 \<leftarrow> Block_GetArg pa 1;
     d2 \<leftarrow> Block_GetArg pa 2;
     (formalIdDefs, s1) \<leftarrow> Vector_New (ae_consts ae) [d1, d2] s;
     handler \<leftarrow> Block_GetArg pa 3;
     let (exnData, s2) = Tuple_New [handler, formalIdDefs] s1;
     s3 \<leftarrow> Sched_PushHandler (ae_env ae) (BlkW exnData) s2;
     goto coord (Block_GetArg pa 0) s3 }"

definition exec_EndTry where
  "exec_EndTry pa coord s = do { s1 \<leftarrow> Sched_PopHandler s; goto coord (Block_GetArg pa 0) s1 }"

definition exec_EndHandle where
  "exec_EndHandle pa coord s = do { s1 \<leftarrow> Sched_PopHandler s; goto coord (Block_GetArg pa 0) s1 }"

text \<open>\<^verbatim>\<open>AbstractCodeInterpreter::Handle\<close>; the data of the handler is the tuple that \<^verbatim>\<open>Try\<close> made.\<close>

definition AbstractCodeInterpreter_Handle :: "aenv \<Rightarrow> hslot \<Rightarrow> package \<Rightarrow> sched \<Rightarrow> (worker_result \<times> sched) option" where
  "AbstractCodeInterpreter_Handle ae data package s = do {
     w \<leftarrow> Frame_GetWorker (sc_top s) (sc_stack s);
     Assert (w = ae_self ae);
     s1 \<leftarrow> SetNArgs 2 s;
     s2 \<leftarrow> SetCurrentArg 0 package s1;
     p \<leftarrow> Tuple_FromWordDirect s2 package;
     exn \<leftarrow> Block_GetArg p 0;
     s3 \<leftarrow> SetCurrentArg 1 exn s2;
     d \<leftarrow> (case data of HData d \<Rightarrow> Some d | _ \<Rightarrow> None);
     exnData \<leftarrow> Tuple_FromWordDirect s3 d;
     pc \<leftarrow> Block_GetArg exnData 0;
     (tag, args) \<leftarrow> TagVal_FromWordDirect s3 pc;
     s4 \<leftarrow> SetPC pc s3;
     defs \<leftarrow> Block_GetArg exnData 1;
     s5 \<leftarrow> SetFormalArgs defs s4;
     Some (CONTINUE, s5) }"

section \<open>Tests\<close>

text \<open>The first of a list of cases whose key passes; its continuation.\<close>

fun find_case :: "sched \<Rightarrow> (store_word \<Rightarrow> bool option) \<Rightarrow> store_word list \<Rightarrow> store_word list option option" where
  "find_case s p [] = Some None"
| "find_case s p (t # ts) = do {
     pair \<leftarrow> Tuple_FromWordDirect s t;
     k \<leftarrow> Block_GetArg pair 0;
     b \<leftarrow> p k;
     if b then Some (Some pair) else find_case s p ts }"

definition int_key :: "int \<Rightarrow> store_word \<Rightarrow> bool option" where
  "int_key value k = do { i \<leftarrow> DirectWordToInt k; Some (i = value) }"

definition branch :: "store_word \<Rightarrow> store_word list option \<Rightarrow> store_word option \<Rightarrow> sched \<Rightarrow> exec option" where
  "branch coord found other s = (case found of Some pair \<Rightarrow> goto coord (Block_GetArg pair 1) s | None \<Rightarrow> goto coord other s)"

definition exec_IntTest where
  "exec_IntTest ae cl pc pa coord s = do {
     r \<leftarrow> Block_GetArg pa 0;
     requestWord \<leftarrow> GetIdRef ae r cl s;
     i \<leftarrow> WordToInt (sc_trans s) requestWord;
     case i of None \<Rightarrow> exec_REQUEST ae pc coord requestWord s
     | Some value \<Rightarrow> do {
         s1 \<leftarrow> KillIdRef ae r s;
         wt \<leftarrow> Block_GetArg pa 1;
         tests \<leftarrow> vector_of s1 wt;
         found \<leftarrow> find_case s1 (int_key value) tests;
         branch coord found (Block_GetArg pa 2) s1 } }"

definition exec_CompactIntTest where
  "exec_CompactIntTest ae cl pc pa coord s = do {
     r \<leftarrow> Block_GetArg pa 0;
     requestWord \<leftarrow> GetIdRef ae r cl s;
     i \<leftarrow> WordToInt (sc_trans s) requestWord;
     case i of None \<Rightarrow> exec_REQUEST ae pc coord requestWord s
     | Some value \<Rightarrow> do {
         s1 \<leftarrow> KillIdRef ae r s;
         wo \<leftarrow> Block_GetArg pa 1;
         offset \<leftarrow> DirectWordToInt wo;
         let index = unat (word_of_int (value - offset) :: u_int);
         wt \<leftarrow> Block_GetArg pa 2;
         tests \<leftarrow> vector_of s1 wt;
         if index < length tests then goto coord (Block_GetArg tests index) s1
         else goto coord (Block_GetArg pa 3) s1 } }"

text \<open>\<^verbatim>\<open>Real::FromWord\<close> and \<^verbatim>\<open>String::FromWord\<close>: the bytes of a chunk.\<close>

definition Chunk_FromWord :: "sched \<Rightarrow> store_word \<Rightarrow> 8 word list option option" where
  "Chunk_FromWord s w = do {
     b \<leftarrow> WordToBlock (sc_trans s) w;
     case b of None \<Rightarrow> Some None | Some a \<Rightarrow> map_option Some (sc_chunks s a) }"

definition Chunk_FromWordDirect :: "sched \<Rightarrow> store_word \<Rightarrow> 8 word list option" where
  "Chunk_FromWordDirect s w = do { a \<leftarrow> DirectWordToBlock w; sc_chunks s a }"

definition chunk_test where
  "chunk_test eq ae cl pc pa coord s = do {
     r \<leftarrow> Block_GetArg pa 0;
     requestWord \<leftarrow> GetIdRef ae r cl s;
     c \<leftarrow> Chunk_FromWord s requestWord;
     case c of None \<Rightarrow> exec_REQUEST ae pc coord requestWord s
     | Some value \<Rightarrow> do {
         s1 \<leftarrow> KillIdRef ae r s;
         wt \<leftarrow> Block_GetArg pa 1;
         tests \<leftarrow> vector_of s1 wt;
         found \<leftarrow> find_case s1 (\<lambda>k. do { bs \<leftarrow> Chunk_FromWordDirect s1 k; Some (eq bs value) }) tests;
         branch coord found (Block_GetArg pa 2) s1 } }"

definition exec_RealTest where
  "exec_RealTest ae = chunk_test (ae_real_eq ae) ae"

definition exec_StringTest where
  "exec_StringTest = chunk_test (\<lambda>string value. length string = length value \<and> take (length value) string = value)"

text \<open>\<^verbatim>\<open>TagTest\<close>: integers stand for nullary constructors, tagged values for the others.\<close>

definition tagval_of :: "nat \<Rightarrow> sched \<Rightarrow> store_word \<Rightarrow> (nat \<times> nat \<times> store_word list) option option" where
  "tagval_of nLabels s w =
     (if IsBigTagVal nLabels then do {
        b \<leftarrow> BigTagVal_FromWord s w;
        case b of None \<Rightarrow> Some None
        | Some ws \<Rightarrow> do { tag \<leftarrow> BigTagVal_GetTag ws; Some (Some (tag, 1, ws)) }
      } else do {
        v \<leftarrow> TagVal_FromWord s w;
        Some (case v of None \<Rightarrow> None | Some (tag, ws) \<Rightarrow> Some (tag, 0, ws)) })"

definition bind_args :: "store_word \<Rightarrow> nat \<Rightarrow> store_word list \<Rightarrow> sched \<Rightarrow> sched option" where
  "bind_args wDefs offset ws s = do {
     idDefs \<leftarrow> vector_of s wDefs;
     AssertWidth (length idDefs + offset) ws;
     bind_defs idDefs (\<lambda>i _. Block_GetArg ws (i + offset)) (length idDefs) s }"

definition exec_TagTest where
  "exec_TagTest ae cl pc pa coord s = do {
     r \<leftarrow> Block_GetArg pa 0;
     requestWord \<leftarrow> GetIdRef ae r cl s;
     wn \<leftarrow> Block_GetArg pa 1;
     nLabels \<leftarrow> DirectWordToNat wn;
     tv \<leftarrow> tagval_of nLabels s requestWord;
     case tv of
       None \<Rightarrow> do {
         i \<leftarrow> WordToInt (sc_trans s) requestWord;
         case i of None \<Rightarrow> exec_REQUEST ae pc coord requestWord s
         | Some tag \<Rightarrow> do {
             s1 \<leftarrow> KillIdRef ae r s;
             wt \<leftarrow> Block_GetArg pa 2;
             tests \<leftarrow> vector_of s1 wt;
             found \<leftarrow> find_case s1 (int_key tag) tests;
             branch coord found (Block_GetArg pa 4) s1 } }
     | Some (tag, offset, ws) \<Rightarrow> do {
         s1 \<leftarrow> KillIdRef ae r s;
         wt \<leftarrow> Block_GetArg pa 3;
         tests \<leftarrow> vector_of s1 wt;
         found \<leftarrow> find_case s1 (int_key (int tag)) tests;
         case found of None \<Rightarrow> goto coord (Block_GetArg pa 4) s1
         | Some triple \<Rightarrow> do {
             wd \<leftarrow> Block_GetArg triple 1;
             s2 \<leftarrow> bind_args wd offset ws s1;
             goto coord (Block_GetArg triple 2) s2 } } }"

definition exec_CompactTagTest where
  "exec_CompactTagTest ae cl pc pa coord s = do {
     r \<leftarrow> Block_GetArg pa 0;
     requestWord \<leftarrow> GetIdRef ae r cl s;
     wn \<leftarrow> Block_GetArg pa 1;
     nLabels \<leftarrow> DirectWordToNat wn;
     tv \<leftarrow> tagval_of nLabels s requestWord;
     let other = (\<lambda>s1. do {
       we \<leftarrow> Block_GetArg pa 3;
       (etag, someElse) \<leftarrow> TagVal_FromWordDirect s1 we;
       goto coord (Block_GetArg someElse 0) s1 });
     case tv of
       None \<Rightarrow> do {
         i \<leftarrow> WordToInt (sc_trans s) requestWord;
         case i of None \<Rightarrow> exec_REQUEST ae pc coord requestWord s
         | Some tag \<Rightarrow> do {
             s1 \<leftarrow> KillIdRef ae r s;
             wt \<leftarrow> Block_GetArg pa 2;
             tests \<leftarrow> vector_of s1 wt;
             let index = unat (word_of_int tag :: u_int);
             if index < length tests then do {
               t \<leftarrow> Block_GetArg tests index;
               tuple \<leftarrow> Tuple_FromWordDirect s1 t;
               none \<leftarrow> Block_GetArg tuple 0;
               Assert (none = IntW 0);
               goto coord (Block_GetArg tuple 1) s1
             } else other s1 } }
     | Some (tag, offset, ws) \<Rightarrow> do {
         s1 \<leftarrow> KillIdRef ae r s;
         wt \<leftarrow> Block_GetArg pa 2;
         tests \<leftarrow> vector_of s1 wt;
         if tag < length tests then do {
           t \<leftarrow> Block_GetArg tests tag;
           tuple \<leftarrow> Tuple_FromWordDirect s1 t;
           wo \<leftarrow> Block_GetArg tuple 0;
           (otag, idDefsOpt) \<leftarrow> TagVal_FromWordDirect s1 wo;
           wd \<leftarrow> Block_GetArg idDefsOpt 0;
           s2 \<leftarrow> bind_args wd offset ws s1;
           goto coord (Block_GetArg tuple 1) s2
         } else other s1 } }"

text \<open>\<^verbatim>\<open>ConTest\<close>: the constructors of the cases are values too, which may have to be requested.\<close>

datatype con_found = Undetermined store_word | Found "store_word list" | NotFound

fun find_con :: "aenv \<Rightarrow> addr \<Rightarrow> addr \<Rightarrow> store_word list \<Rightarrow> sched \<Rightarrow> con_found option" where
  "find_con ae cl constructor [] s = Some NotFound"
| "find_con ae cl constructor (t # ts) s = do {
     tuple \<leftarrow> Tuple_FromWordDirect s t;
     r \<leftarrow> Block_GetArg tuple 0;
     requestWord \<leftarrow> GetIdRef ae r cl s;
     b \<leftarrow> WordToBlock (sc_trans s) requestWord;
     case b of None \<Rightarrow> Some (Undetermined requestWord)
     | Some testConstructor \<Rightarrow>
         (if testConstructor = constructor then Some (Found tuple) else find_con ae cl constructor ts s) }"

definition exec_ConTest where
  "exec_ConTest ae cl pc pa coord s = do {
     r \<leftarrow> Block_GetArg pa 0;
     requestWord \<leftarrow> GetIdRef ae r cl s;
     c \<leftarrow> ConVal_FromWord s requestWord;
     case c of None \<Rightarrow> exec_REQUEST ae pc coord requestWord s
     | Some (a, l, ws) \<Rightarrow>
         (if l = Alice_ConVal then do {
            constructor \<leftarrow> ConVal_GetConstructor ws;
            wt \<leftarrow> Block_GetArg pa 2;
            tests \<leftarrow> vector_of s wt;
            f \<leftarrow> find_con ae cl constructor tests s;
            case f of Undetermined w \<Rightarrow> exec_REQUEST ae pc coord w s
            | NotFound \<Rightarrow> goto coord (Block_GetArg pa 3) s
            | Found triple \<Rightarrow> do {
                wd \<leftarrow> Block_GetArg triple 1;
                s1 \<leftarrow> bind_args wd 1 ws s;
                s2 \<leftarrow> KillIdRef ae r s1;
                goto coord (Block_GetArg triple 2) s2 }
          } else do {
            wt \<leftarrow> Block_GetArg pa 1;
            tests \<leftarrow> vector_of s wt;
            f \<leftarrow> find_con ae cl a tests s;
            case f of Undetermined w \<Rightarrow> exec_REQUEST ae pc coord w s
            | NotFound \<Rightarrow> goto coord (Block_GetArg pa 3) s
            | Found pair \<Rightarrow> do {
                s1 \<leftarrow> KillIdRef ae r s;
                goto coord (Block_GetArg pair 1) s1 } }) }"

definition length_key :: "sched \<Rightarrow> nat \<Rightarrow> store_word \<Rightarrow> bool option" where
  "length_key s value k = do { idDefs \<leftarrow> vector_of s k; Some (length idDefs = value) }"

definition exec_VecTest where
  "exec_VecTest ae cl pc pa coord s = do {
     r \<leftarrow> Block_GetArg pa 0;
     requestWord \<leftarrow> GetIdRef ae r cl s;
     v \<leftarrow> Vector_FromWord s requestWord;
     case v of None \<Rightarrow> exec_REQUEST ae pc coord requestWord s
     | Some vec \<Rightarrow> do {
         s1 \<leftarrow> KillIdRef ae r s;
         value \<leftarrow> Vector_GetLength vec;
         wt \<leftarrow> Block_GetArg pa 1;
         tests \<leftarrow> vector_of s1 wt;
         found \<leftarrow> find_case s1 (length_key s1 value) tests;
         case found of None \<Rightarrow> goto coord (Block_GetArg pa 2) s1
         | Some pair \<Rightarrow> do {
             wd \<leftarrow> Block_GetArg pair 0;
             idDefs \<leftarrow> vector_of s1 wd;
             s2 \<leftarrow> bind_defs idDefs (\<lambda>i _. Vector_Sub vec i) value s1;
             goto coord (Block_GetArg pair 1) s2 } } }"

definition exec_Shared where
  "exec_Shared pa coord s = goto coord (Block_GetArg pa 1) s"

section \<open>The interpreter\<close>

definition exec_instr :: "aenv \<Rightarrow> addr \<Rightarrow> store_word \<Rightarrow> store_word \<Rightarrow> sched \<Rightarrow> exec option" where
  "exec_instr ae cl pc coord s = do {
     (tag, pa) \<leftarrow> TagVal_FromWordDirect s pc;
     i \<leftarrow> GetInstr tag;
     case i of
       AppPrim \<Rightarrow> exec_AppPrim ae cl pa coord s
     | AppVar \<Rightarrow> exec_AppVar ae cl pa coord s
     | Close \<Rightarrow> exec_Close ae cl pc pa coord s
     | CompactIntTest \<Rightarrow> exec_CompactIntTest ae cl pc pa coord s
     | CompactTagTest \<Rightarrow> exec_CompactTagTest ae cl pc pa coord s
     | ConTest \<Rightarrow> exec_ConTest ae cl pc pa coord s
     | Coord \<Rightarrow> exec_Coord pa s
     | EndHandle \<Rightarrow> exec_EndHandle pa coord s
     | EndTry \<Rightarrow> exec_EndTry pa coord s
     | Entry \<Rightarrow> exec_Entry pa s
     | Exit \<Rightarrow> exec_Exit pa s
     | GetRef \<Rightarrow> exec_GetRef ae cl pc pa coord s
     | GetTup \<Rightarrow> exec_GetTup ae cl pc pa coord s
     | IntTest \<Rightarrow> exec_IntTest ae cl pc pa coord s
     | Kill \<Rightarrow> exec_Kill ae pa coord s
     | LazyPolySel \<Rightarrow> exec_LazyPolySel ae cl pa coord s
     | PutCon \<Rightarrow> exec_PutCon ae cl pc pa coord s
     | PutNew \<Rightarrow> exec_PutNew ae pa coord s
     | PutPolyRec \<Rightarrow> exec_PutPolyRec ae cl pa coord s
     | PutRef \<Rightarrow> exec_PutRef ae cl pa coord s
     | PutTag \<Rightarrow> exec_PutTag ae cl pa coord s
     | PutTup \<Rightarrow> exec_PutTup ae cl pa coord s
     | PutVar \<Rightarrow> exec_PutVar ae cl pa coord s
     | PutVec \<Rightarrow> exec_PutVec ae cl pa coord s
     | Raise \<Rightarrow> exec_Raise ae cl pc pa coord s
     | RealTest \<Rightarrow> exec_RealTest ae cl pc pa coord s
     | Reraise \<Rightarrow> exec_Reraise ae cl pa coord s
     | Return \<Rightarrow> exec_Return ae cl pa s
     | Sel \<Rightarrow> exec_Sel ae cl pc pa coord s
     | Shared \<Rightarrow> exec_Shared pa coord s
     | Specialize \<Rightarrow> exec_Specialize ae cl pa coord s
     | StringTest \<Rightarrow> exec_StringTest ae cl pc pa coord s
     | TagTest \<Rightarrow> exec_TagTest ae cl pc pa coord s
     | Try \<Rightarrow> exec_Try ae pa coord s
     | VecTest \<Rightarrow> exec_VecTest ae cl pc pa coord s }"

partial_function (option) run_loop :: "aenv \<Rightarrow> addr \<Rightarrow> store_word \<Rightarrow> store_word \<Rightarrow> sched \<Rightarrow> (worker_result \<times> sched) option" where
  "run_loop ae cl pc coord s =
     Option.bind (exec_instr ae cl pc coord s) (\<lambda>e.
       case e of Leave r s1 \<Rightarrow> Some (r, s1) | Goto pc1 coord1 s1 \<Rightarrow> run_loop ae cl pc1 coord1 s1)"

declare run_loop.simps [code]

text \<open>The conversion of the arguments to the formal arguments; the result \<open>Some r\<close> leaves the interpreter.\<close>

definition formal_args :: "store_word \<Rightarrow> sched \<Rightarrow> (bool \<times> sched) option" where
  "formal_args formalArgs s =
     (case formalArgs of IntW _ \<Rightarrow> Some (False, s)
      | _ \<Rightarrow> do {
          a \<leftarrow> DirectWordToBlock formalArgs;
          (l, bArgs) \<leftarrow> sc_blocks s a;
          if l = Alice_Vector then do {
            idDefs \<leftarrow> Vector_elems bArgs;
            if idDefs = [] then
              (if sc_nArgs s > 0 then do {
                 Assert (sc_nArgs s = 1);
                 u \<leftarrow> GetCurrentArg 0 s;
                 i \<leftarrow> WordToInt (sc_trans s) u;
                 Some (case i of None \<Rightarrow> (True, s\<lparr>sc_data := u\<rparr>) | Some _ \<Rightarrow> (False, s))
               } else Some (False, s))
            else if length idDefs = 1 then do {
              s1 \<leftarrow> Construct s;
              s2 \<leftarrow> bind_defs idDefs GetCurrentArg 1 s1;
              Some (False, s2)
            } else do {
              (request, s1) \<leftarrow> Deconstruct s;
              if request then Some (True, s1)
              else do {
                Assert (sc_nArgs s1 = length idDefs);
                s2 \<leftarrow> bind_defs idDefs GetCurrentArg (length idDefs) s1;
                Some (False, s2) } }
          } else do {
            s1 \<leftarrow> Construct s;
            x \<leftarrow> Block_GetArg bArgs 0;
            v \<leftarrow> GetCurrentArg 0 s1;
            s2 \<leftarrow> SetLocal x v s1;
            Some (False, s2) } })"

definition AbstractCodeInterpreter_Run :: "aenv \<Rightarrow> sched \<Rightarrow> (worker_result \<times> sched) option" where
  "AbstractCodeInterpreter_Run ae s = do {
     pc \<leftarrow> frame_get PC_POS s;
     (tag, pa) \<leftarrow> TagVal_FromWordDirect s pc;
     coord \<leftarrow> frame_get COORD_POS s;
     wcl \<leftarrow> frame_get CLOSURE_POS s;
     cl \<leftarrow> DirectWordToBlock wcl;
     env \<leftarrow> Closure_FromWordDirect s wcl;
     formalArgs \<leftarrow> frame_get FORMAL_ARGS_POS s;
     (request, s1) \<leftarrow> formal_args formalArgs s;
     if request then Some (REQUEST, s1) else run_loop ae cl pc coord s1 }"

definition AbstractCodeInterpreter_GetInArity :: "aenv \<Rightarrow> store_word list \<Rightarrow> sched \<Rightarrow> nat option" where
  "AbstractCodeInterpreter_GetInArity ae acc s = do {
     h \<leftarrow> ConcreteRepresentation_GetHandler acc;
     Assert (h = ae_self ae);
     ac \<leftarrow> AliceConcreteCode_GetAbstractCode s acc;
     w \<leftarrow> Block_GetArg ac 3;
     v \<leftarrow> Vector_FromWordDirect s w;
     Vector_GetLength v }"

text \<open>\<open>None\<close> inside is \<^verbatim>\<open>INVALID_INT\<close>: the number of results is not known.\<close>

definition AbstractCodeInterpreter_GetOutArity :: "aenv \<Rightarrow> store_word list \<Rightarrow> sched \<Rightarrow> nat option option" where
  "AbstractCodeInterpreter_GetOutArity ae acc s = do {
     h \<leftarrow> ConcreteRepresentation_GetHandler acc;
     Assert (h = ae_self ae);
     ac \<leftarrow> AliceConcreteCode_GetAbstractCode s acc;
     w \<leftarrow> Block_GetArg ac 4;
     outArityOpt \<leftarrow> TagVal_FromWord s w;
     case outArityOpt of None \<Rightarrow> Some None
     | Some (tag, sm) \<Rightarrow> do { x \<leftarrow> Block_GetArg sm 0; n \<leftarrow> DirectWordToNat x; Some (Some n) } }"

section \<open>Lazy selections\<close>

definition LazySelInterpreter_PushCall :: "aenv \<Rightarrow> addr \<Rightarrow> sched \<Rightarrow> sched option option" where
  "LazySelInterpreter_PushCall ae closure s = do {
     cl \<leftarrow> Closure_FromWordDirect s (BlkW closure);
     record \<leftarrow> Closure_Sub cl 0;
     label \<leftarrow> Closure_Sub cl 1;
     u \<leftarrow> UniqueString_FromWordDirect s label;
     new_frame (ae_env ae) (ae_lazySel ae) [record, label] s }"

definition LazySelInterpreter_Run :: "sched \<Rightarrow> (worker_result \<times> sched) option" where
  "LazySelInterpreter_Run s = do {
     wRecord \<leftarrow> frame_get 0 s;
     t \<leftarrow> WordToTransient (sc_trans s) wRecord;
     case t of
       None \<Rightarrow> do {
         label \<leftarrow> frame_get 1 s;
         s1 \<leftarrow> Sched_PopFrame 3 s;
         s2 \<leftarrow> SetNArgs 1 s1;
         r \<leftarrow> Record_FromWord s2 wRecord;
         record \<leftarrow> r;
         v \<leftarrow> Record_PolySel s2 record label;
         s3 \<leftarrow> SetCurrentArg 0 v s2;
         Some (CONTINUE, s3) }
     | Some _ \<Rightarrow> Some (REQUEST, s\<lparr>sc_data := wRecord\<rparr>) }"

end
