(* ===== verification/Abstract_Machine.thy ===== *)
theory Abstract_Machine
  imports Abstract_Interp
begin

text \<open>
  The machine whose threads run abstract code, lazy selections and the concurrency primitives: the virtual functions of
  the workers are dispatched to the definitions of the interpreters. The machine is a client of the scheduler, so that
  everything the scheduler guarantees holds for programs of the language.
\<close>

section \<open>The machine\<close>

text \<open>\<^verbatim>\<open>cc->GetInterpreter()->PushCall(closure)\<close>: the interpreter of the code object decides.\<close>

definition enter_closure :: "aenv \<Rightarrow> addr \<Rightarrow> sched \<Rightarrow> sched option option" where
  "enter_closure ae closure s = do {
     cl \<leftarrow> Closure_FromWordDirect s (BlkW closure);
     code \<leftarrow> Closure_GetConcreteCode cl;
     c \<leftarrow> ConcreteRepresentation_FromWord s code;
     cc \<leftarrow> c;
     interpreter \<leftarrow> ConcreteRepresentation_GetHandler cc;
     if interpreter = ae_self ae then AbstractCodeInterpreter_PushCall ae closure s
     else if interpreter = ae_lazySel ae then LazySelInterpreter_PushCall ae closure s
     else PrimitiveInterpreter_PushCall (ae_env ae) closure s }"

text \<open>\<^verbatim>\<open>GetFrameSize\<close> of the interpreters.\<close>

definition frame_size :: "aenv \<Rightarrow> prim_names \<Rightarrow> store_word \<Rightarrow> nat \<Rightarrow> dynblock \<Rightarrow> nat option" where
  "frame_size ae pn w tp st =
     (if w = ae_self ae then do { n \<leftarrow> Frame_GetArg tp SIZE_POS st; DirectWordToNat n }
      else if w = ae_lazySel ae then Some 3
      else if w = pn_raise pn then Some 2 else Some 1)"

text \<open>The environments: first without the interpreters, then with calls, then with the workers.\<close>

definition base_aenv :: "senv \<Rightarrow> prim_names \<Rightarrow> aenv \<Rightarrow> aenv" where
  "base_aenv env pn ae = ae\<lparr>ae_env := prim_base env pn\<rparr>"

definition code_aenv :: "senv \<Rightarrow> prim_names \<Rightarrow> aenv \<Rightarrow> aenv" where
  "code_aenv env pn ae = (let b = base_aenv env pn ae in
     b\<lparr>ae_env := (ae_env b)\<lparr>ev_enter := enter_closure b, ev_size := frame_size b pn\<rparr>, ae_construct := AliceConcreteCode_New b\<rparr>)"

definition abstract_env :: "senv \<Rightarrow> prim_names \<Rightarrow> aenv \<Rightarrow> senv" where
  "abstract_env env pn ae = (let c = code_aenv env pn ae in (ae_env c)\<lparr>
     ev_run := (\<lambda>w s. if w = ae_self c then AbstractCodeInterpreter_Run c s
       else if w = ae_lazySel c then LazySelInterpreter_Run s
       else if w = pn_raise pn then Raise_Run (ae_env c) s
       else (case pn_table pn w of None \<Rightarrow> None
         | Some p \<Rightarrow> PrimitiveInterpreter_Run (prim_arity p) (prim_function (ae_env c) pn p) s)),
     ev_handle := (\<lambda>w d p s. if w = ae_self c then AbstractCodeInterpreter_Handle c d p s else Some (RAISE, s))\<rparr>)"

section \<open>Operations of the interpreter that the scheduler does not notice\<close>

lemma tview_maps [simp]: "tview (s\<lparr>sc_maps := M\<rparr>) = tview s"
  by (rule ext) (simp add: tview_def)

lemma same_frame_set: "frame_set pos v s = Some s' \<Longrightarrow> same_sched s s'"
  by (auto simp: frame_set_def run_elims)

lemma same_locals:
  "SetLocal x v s = Some s' \<Longrightarrow> same_sched s s'" "KillLocal ae x s = Some s' \<Longrightarrow> same_sched s s'"
  "KillIdRef ae r s = Some s' \<Longrightarrow> same_sched s s'" "GetIdRefKill ae r cl s = Some (w, s') \<Longrightarrow> same_sched s s'"
  by (auto simp: SetLocal_def KillLocal_def KillIdRef_def GetIdRefKill_def run_elims dest: same_frame_set split: if_splits)

lemma same_frame_fields:
  "SetPC v s = Some s' \<Longrightarrow> same_sched s s'" "SetCoord v s = Some s' \<Longrightarrow> same_sched s s'" "SetFormalArgs v s = Some s' \<Longrightarrow> same_sched s s'"
  by (auto simp: SetPC_def SetCoord_def SetFormalArgs_def dest: same_frame_set)

lemma same_pop_frame: "pop_frame s = Some s' \<Longrightarrow> same_sched s s'"
  by (auto simp: pop_frame_def run_elims dest: same_Sched_PopFrame)

lemma same_loops:
  "read_refs ae cl refs i vs s = Some (us, s') \<Longrightarrow> same_sched s s'" "pass_args ae cl refs i s = Some s' \<Longrightarrow> same_sched s s'"
  "bind_defs defs vals i s = Some s' \<Longrightarrow> same_sched s s'" "kill_locals ae ids i s = Some s' \<Longrightarrow> same_sched s s'"
  "poly_sels rec ids labels i s = Some s' \<Longrightarrow> same_sched s s'"
proof -
  show "read_refs ae cl refs i vs s = Some (us, s') \<Longrightarrow> same_sched s s'"
    by (induction i arbitrary: vs s) (auto simp: run_elims dest!: same_locals(4) intro: same_sched_trans)
  show "pass_args ae cl refs i s = Some s' \<Longrightarrow> same_sched s s'"
    by (induction i arbitrary: s) (auto simp: run_elims dest!: same_locals(4) same_SetCurrentArg, blast intro: same_sched_trans)
  show "bind_defs defs vals i s = Some s' \<Longrightarrow> same_sched s s'"
    by (induction i arbitrary: s) (auto simp: run_elims dest!: same_locals(1) split: option.split_asm, blast intro: same_sched_trans)
  show "kill_locals ae ids i s = Some s' \<Longrightarrow> same_sched s s'"
    by (induction i arbitrary: s) (auto simp: run_elims dest!: same_locals(2) intro: same_sched_trans)
  show "poly_sels rec ids labels i s = Some s' \<Longrightarrow> same_sched s s'"
    by (induction i arbitrary: s) (auto simp: run_elims dest!: same_locals(1) intro: same_sched_trans)
qed

lemma same_allocs:
  "Tuple_New vs s = (a, s') \<Longrightarrow> same_sched s s'" "Closure_New c vs s = (a, s') \<Longrightarrow> same_sched s s'"
  "Cell_New v s = (a, s') \<Longrightarrow> same_sched s s'" "BigTagVal_New t vs s = (a, s') \<Longrightarrow> same_sched s s'"
  "ConVal_New c' vs s = (a, s') \<Longrightarrow> same_sched s s'" "Constructor_New ac v s = (a, s') \<Longrightarrow> same_sched s s'"
  "TagVal_New t vs s = Some (a, s') \<Longrightarrow> same_sched s s'" "Vector_New ac vs s = Some (v, s') \<Longrightarrow> same_sched s s'"
  "Record_New ac ls vs s = Some (v, s') \<Longrightarrow> same_sched s s'" "LazySelClosure_New ae r l s = (a, s') \<Longrightarrow> same_sched s s'"
  by (auto simp: Tuple_New_def Closure_New_def Cell_New_def BigTagVal_New_def ConVal_New_def Constructor_New_def TagVal_New_def
      Vector_New_def Record_New_def LazySelClosure_New_def ConcreteRepresentation_New_def run_elims Let_def dest: same_new_block'
      split: if_splits prod.split_asm)

lemma same_immediates: "immediates vs s = Some (us, s') \<Longrightarrow> same_sched s s'"
  by (induction vs arbitrary: us s') (auto simp: run_elims dest!: same_allocs(7) intro: same_sched_trans)

lemma same_inherit: "inherit_subst s ps ws j = Some (us, s') \<Longrightarrow> same_sched s s'"
proof (induction ws arbitrary: s j us)
  case (Cons w ws)
  then obtain known where k: "(case known of
       Some p \<Rightarrow> do { (rest, s1) \<leftarrow> inherit_subst s ps ws j; Some (p # rest, s1) }
     | None \<Rightarrow> do {
         (g, s1) \<leftarrow> TagVal_New (idRef_tag Global) [IntW (int j)] s;
         (rest, s2) \<leftarrow> inherit_subst s1 ps ws (Suc j);
         Some (BlkW g # rest, s2) }) = Some (us, s')"
    by (auto simp: run_elims)
  show ?case
  proof (cases known)
    case None
    then show ?thesis using k Cons.IH by (auto simp: run_elims dest!: same_allocs(7) intro: same_sched_trans)
  qed (use k Cons.IH in \<open>auto simp: run_elims\<close>)
qed simp

lemma same_close_values: "close_values ae cl rs subst s = Some (us, s') \<Longrightarrow> same_sched s s'"
  by (induction rs arbitrary: subst s us) (auto simp: run_elims dest!: same_locals(4) intro: same_sched_trans)

lemma same_construct: "AliceConcreteCode_New ae w s = Some (c, s') \<Longrightarrow> same_sched s s'"
  by (auto simp: AliceConcreteCode_New_def Transform_New_def ConcreteRepresentation_New_def new_map_def new_block_def run_elims Let_def
      same_sched_def tview_def split: prod.split_asm)


lemma same_instantiate:
  assumes "\<forall>w s1 c s2. ae_construct ae w s1 = Some (c, s2) \<longrightarrow> same_sched s1 s2" and "instantiate ae tm subst s = Some (c, s')"
  shows "same_sched s s'"
  using assms(2) by (auto simp: instantiate_def run_elims dest!: same_allocs(7,8) assms(1) [rule_format]) (meson same_sched_trans)

lemma same_GetCloseConcreteCode:
  assumes con: "\<forall>w s1 c s2. ae_construct ae w s1 = Some (c, s2) \<longrightarrow> same_sched s1 s2" and run: "GetCloseConcreteCode ae p pc pa s = Some (c, s')"
  shows "same_sched s s'"
proof -
  obtain ac wm ma m b where "(if b then do { c \<leftarrow> Map_Get WordKey_Hash WordKey_Equals no_transient pc m; Some (c, s) }
     else do {
       ps \<leftarrow> Block_GetArg ac 1;
       parentSubst \<leftarrow> vector_of s ps;
       wr \<leftarrow> Block_GetArg pa 1;
       idRefs \<leftarrow> vector_of s wr;
       (subst, s1) \<leftarrow> inherit_subst s parentSubst idRefs 0;
       wt \<leftarrow> Block_GetArg pa 2;
       (tag, template) \<leftarrow> TagVal_FromWordDirect s1 wt;
       (code, s2) \<leftarrow> instantiate ae template subst s1;
       m1 \<leftarrow> sc_maps s2 ma;
       m2 \<leftarrow> Map_Put WordKey_Hash WordKey_Equals no_transient pc code m1;
       Some (code, s2\<lparr>sc_maps := (sc_maps s2)(ma \<mapsto> m2)\<rparr>) }) = Some (c, s')"
    using run by (auto simp: GetCloseConcreteCode_def run_elims)
  then consider "s' = s" | ps ids subst s1 tm s2 M where "inherit_subst s ps ids 0 = Some (subst, s1)" "instantiate ae tm subst s1 = Some (c, s2)" "s' = s2\<lparr>sc_maps := M\<rparr>"
    by (auto simp: run_elims split: if_splits)
  then show ?thesis
  proof cases
    case 2
    then have "same_sched s s2" using same_inherit [OF 2(1)] same_instantiate [OF con 2(2)] same_sched_trans by blast
    then show ?thesis using 2(3) by (simp add: same_sched_def)
  qed simp
qed

section \<open>The interpreter keeps the scheduler's invariant\<close>

text \<open>\<open>ke R s m\<close>: whatever state the instruction \<open>m\<close> ends in keeps the invariant of \<open>s\<close>.\<close>

fun exec_state :: "exec \<Rightarrow> sched" where
  "exec_state (Goto pc coord s) = s"
| "exec_state (Leave r s) = s"

definition ke :: "addr option \<Rightarrow> sched \<Rightarrow> exec option \<Rightarrow> bool" where
  "ke R s m \<longleftrightarrow> (\<forall>e. m = Some e \<longrightarrow> keeps R s (exec_state e))"

lemma ke_rules:
  "\<And>m f. (\<And>a b. m = Some (a, b) \<Longrightarrow> ke R s (f a b)) \<Longrightarrow> ke R s (m \<bind> case_prod f)"
  "\<And>m f. (\<And>x. m = Some x \<Longrightarrow> ke R s (f x)) \<Longrightarrow> ke R s (m \<bind> f)"
  "\<And>f x. (\<And>a b. x = (a, b) \<Longrightarrow> ke R s (f a b)) \<Longrightarrow> ke R s (case_prod f x)"
  "\<And>b m m'. (b \<Longrightarrow> ke R s m) \<Longrightarrow> (\<not> b \<Longrightarrow> ke R s m') \<Longrightarrow> ke R s (if b then m else m')"
  "\<And>x m f. (x = None \<Longrightarrow> ke R s m) \<Longrightarrow> (\<And>y. x = Some y \<Longrightarrow> ke R s (f y)) \<Longrightarrow> ke R s (case_option m f x)"
  "\<And>c f1 f2 m3. (\<And>w. ke R s (f1 w)) \<Longrightarrow> (\<And>w. ke R s (f2 w)) \<Longrightarrow> ke R s m3 \<Longrightarrow> ke R s (case_con_found f1 f2 m3 c)"
  "ke R s None"
  "\<And>r s1. keeps R s s1 \<Longrightarrow> ke R s (Some (Leave r s1))"
  by (auto simp: ke_def bind_eq_Some_conv split: prod.splits option.splits con_found.splits)

lemma ke_goto: "keeps R s s1 \<Longrightarrow> ke R s (goto coord t s1)"
  by (auto simp: goto_def ke_def run_elims)

lemma ke_branch: "keeps R s s1 \<Longrightarrow> ke R s (branch coord f t s1)"
  by (auto simp: branch_def intro: ke_rules ke_goto)

lemma ke_leave: "kp R s m \<Longrightarrow> ke R s (leave m)"
  by (auto simp: leave_def ke_def kp_def run_elims)

lemma same_exec_REQUEST: "exec_REQUEST ae pc coord w s = Some e \<Longrightarrow> same_sched s (exec_state e)"
  by (auto simp: exec_REQUEST_def run_elims dest!: same_frame_fields same_SetNArgs same_allocs(8)) (meson same_sched_trans)

lemma ke_REQUEST: "keeps R s s1 \<Longrightarrow> ke R s (exec_REQUEST ae pc coord w s1)"
  unfolding ke_def by (blast intro: keeps_step_same same_exec_REQUEST)

lemma same_bind_args: "bind_args d k ws s = Some s' \<Longrightarrow> same_sched s s'"
  by (auto simp: bind_args_def run_elims dest: same_loops(3))

lemma same_save_return: "save_return w coord s = Some s' \<Longrightarrow> same_sched s s'"
  by (auto simp: save_return_def run_elims dest!: same_frame_fields same_pop_frame split: option.split_asm) (meson same_sched_trans)

text \<open>The same rules for runs that change nothing the scheduler sees.\<close>

definition ks :: "sched \<Rightarrow> ('a \<times> sched) option \<Rightarrow> bool" where
  "ks s m \<longleftrightarrow> (\<forall>x s'. m = Some (x, s') \<longrightarrow> same_sched s s')"

lemma ks_rules:
  "\<And>m f. (\<And>a b. m = Some (a, b) \<Longrightarrow> ks s (f a b)) \<Longrightarrow> ks s (m \<bind> case_prod f)"
  "\<And>m f. (\<And>x. m = Some x \<Longrightarrow> ks s (f x)) \<Longrightarrow> ks s (m \<bind> f)"
  "\<And>b m m'. (b \<Longrightarrow> ks s m) \<Longrightarrow> (\<not> b \<Longrightarrow> ks s m') \<Longrightarrow> ks s (if b then m else m')"
  "\<And>w f1 f2 f3. (\<And>x. ks s (f1 x)) \<Longrightarrow> (\<And>x. ks s (f2 x)) \<Longrightarrow> (\<And>x. ks s (f3 x)) \<Longrightarrow> ks s (case_store_word f1 f2 f3 w)"
  "\<And>x s1. same_sched s s1 \<Longrightarrow> ks s (Some (x, s1))"
  "\<And>x s1 y s2. same_sched s s1 \<Longrightarrow> same_sched s s2 \<Longrightarrow> ks s (Some (case x of None \<Rightarrow> (y, s1) | Some _ \<Rightarrow> (z, s2)))"
  by (auto simp: ks_def bind_eq_Some_conv split: store_word.splits option.splits)

lemma same_formal_args: "formal_args f s = Some (b, s') \<Longrightarrow> same_sched s s'"
proof -
  have "ks s (formal_args f s)" unfolding formal_args_def
    by (intro ks_rules; auto simp del: bind_defs.simps dest!: same_Construct same_Deconstruct same_loops(3) same_locals(1) intro: same_sched_trans)
  then show "formal_args f s = Some (b, s') \<Longrightarrow> same_sched s s'" by (simp add: ks_def)
qed

lemma keeps_lazy_sels:
  "lazy_sels ae w ids labels i s1 = Some s2 \<Longrightarrow> keeps R s s1 \<Longrightarrow> keeps R s s2"
proof (induction i arbitrary: s1)
  case (Suc i)
  then obtain l c s3 b s4 x s5 where "LazySelClosure_New ae w l s1 = (c, s3)" "new_transient (ByneedT (BlkW c)) s3 = (b, s4)"
      "SetLocal x (TrW b) s4 = Some s5" and r: "lazy_sels ae w ids labels i s5 = Some s2"
    by (auto simp: run_elims Let_def split: prod.split_asm)
  then have "keeps R s s5"
    using Suc.prems(2) keeps_step_same [OF same_allocs(10)] keeps_step_transient(1) keeps_step_same [OF same_locals(1)] by meson
  then show ?case using Suc.IH r by blast
qed simp

lemma same_put_tag: "(if b then Some (BigTagVal_New t vs s) else TagVal_New t vs s) = Some (a, s') \<Longrightarrow> same_sched s s'"
  by (auto dest: same_allocs(4,7) split: if_splits)

lemma same_put_tup:
  assumes "(if idRefs = [] then SetLocal x (IntW 0) s
       else do {
         (vs, s1) \<leftarrow> read_refs ae cl idRefs (length idRefs) [] s;
         case Tuple_New vs s1 of (a, s2) \<Rightarrow> SetLocal x (BlkW a) s2 }) = Some s'"
  shows "same_sched s s'"
proof (cases "idRefs = []")
  case False
  then obtain vs s1 where "read_refs ae cl idRefs (length idRefs) [] s = Some (vs, s1)"
      "SetLocal x (BlkW (fst (Tuple_New vs s1))) (snd (Tuple_New vs s1)) = Some s'"
    using assms by (auto simp: run_elims case_prod_beta)
  then show ?thesis using same_loops(1) same_allocs(1) [OF surjective_pairing] same_locals(1) same_sched_trans by meson
qed (use assms same_locals(1) in auto)

lemma keeps_sels:
  "(case r of None \<Rightarrow> lazy_sels ae w ids labels i s1 | Some rec \<Rightarrow> poly_sels rec ids labels i s1) = Some s2 \<Longrightarrow> keeps R s s1 \<Longrightarrow> keeps R s s2"
  by (auto split: option.split_asm intro: keeps_lazy_sels keeps_step_same [OF same_loops(5)])

lemmas exec_steps = keeps_sels keeps_step_same [OF same_put_tag] keeps_step_same [OF same_put_tup]
  keeps_step_same [OF same_locals(1)] keeps_step_same [OF same_locals(2)] keeps_step_same [OF same_locals(3)] keeps_step_same [OF same_locals(4)]
  keeps_step_same [OF same_frame_fields(1)] keeps_step_same [OF same_frame_fields(2)] keeps_step_same [OF same_frame_fields(3)]
  keeps_step_same [OF same_pop_frame] keeps_step_same [OF same_save_return] keeps_step_same [OF same_bind_args]
  keeps_step_same [OF same_loops(1)] keeps_step_same [OF same_loops(2)] keeps_step_same [OF same_loops(3)]
  keeps_step_same [OF same_loops(4)] keeps_step_same [OF same_loops(5)]
  keeps_step_same [OF same_allocs(1)] keeps_step_same [OF same_allocs(2)] keeps_step_same [OF same_allocs(3)]
  keeps_step_same [OF same_allocs(4)] keeps_step_same [OF same_allocs(5)] keeps_step_same [OF same_allocs(6)]
  keeps_step_same [OF same_allocs(7)] keeps_step_same [OF same_allocs(8)] keeps_step_same [OF same_allocs(9)]
  keeps_step_same [OF same_immediates] keeps_step_same [OF same_close_values] keeps_step_same [OF same_SetNArgs]
  keeps_step_same [OF same_SetCurrentArg] keeps_step_same [OF same_Sched_PushHandler] keeps_step_same [OF same_Sched_PopHandler]
  keeps_step_same [OF same_Backtrace_New] keeps_step_same [OF same_Sched_PopFrame]

lemmas ke_all = ke_REQUEST ke_goto ke_branch ke_rules

lemma ke_data:
  assumes "keeps R s s"
  shows "ke R s (exec_Coord pa s)" "ke R s (exec_Entry pa s)" "ke R s (exec_Exit pa s)" "ke R s (exec_Kill ae pa coord s)"
    "ke R s (exec_PutVar ae cl pa coord s)" "ke R s (exec_PutNew ae pa coord s)" "ke R s (exec_PutTag ae cl pa coord s)"
    "ke R s (exec_PutCon ae cl pc pa coord s)" "ke R s (exec_PutRef ae cl pa coord s)" "ke R s (exec_PutTup ae cl pa coord s)"
    "ke R s (exec_PutVec ae cl pa coord s)" "ke R s (exec_PutPolyRec ae cl pa coord s)"
    "ke R s (exec_GetRef ae cl pc pa coord s)" "ke R s (exec_GetTup ae cl pc pa coord s)" "ke R s (exec_Sel ae cl pc pa coord s)"
    "ke R s (exec_LazyPolySel ae cl pa coord s)" "ke R s (exec_Shared pa coord s)"
  unfolding exec_Coord_def exec_Entry_def exec_Exit_def exec_Kill_def exec_PutVar_def exec_PutNew_def exec_PutTag_def exec_PutCon_def
    exec_PutRef_def exec_PutTup_def exec_PutVec_def exec_PutPolyRec_def exec_GetRef_def exec_GetTup_def exec_Sel_def
    exec_LazyPolySel_def exec_Shared_def Let_def
  by (insert assms) (intro ke_all; ((erule exec_steps)+)?; assumption)+

lemma ke_tests:
  assumes "keeps R s s"
  shows "ke R s (exec_IntTest ae cl pc pa coord s)" "ke R s (exec_CompactIntTest ae cl pc pa coord s)"
    "ke R s (exec_RealTest ae cl pc pa coord s)" "ke R s (exec_StringTest ae cl pc pa coord s)"
    "ke R s (exec_TagTest ae cl pc pa coord s)" "ke R s (exec_CompactTagTest ae cl pc pa coord s)"
    "ke R s (exec_ConTest ae cl pc pa coord s)" "ke R s (exec_VecTest ae cl pc pa coord s)"
  unfolding exec_IntTest_def exec_CompactIntTest_def exec_RealTest_def exec_StringTest_def chunk_test_def exec_TagTest_def
    exec_CompactTagTest_def exec_ConTest_def exec_VecTest_def Let_def
  by (insert assms) (intro ke_all; ((erule exec_steps)+)?; assumption)+

lemma ke_exceptions:
  assumes "keeps R s s"
  shows "ke R s (exec_Raise ae cl pc pa coord s)" "ke R s (exec_Reraise ae cl pa coord s)" "ke R s (exec_Try ae pa coord s)" "ke R s (exec_EndTry pa coord s)"
    "ke R s (exec_EndHandle pa coord s)" "ke R s (exec_Return ae cl pa s)"
  unfolding exec_Raise_def exec_Reraise_def exec_Try_def exec_EndTry_def exec_EndHandle_def exec_Return_def Let_def
  by (insert assms) (intro ke_all; ((erule exec_steps | simp only: keeps_data)+)?; (assumption | simp only: keeps_data))+

lemma ke_closures:
  assumes "keeps R s s" and con: "\<forall>w s1 c s2. ae_construct ae w s1 = Some (c, s2) \<longrightarrow> same_sched s1 s2"
  shows "ke R s (exec_Close ae cl pc pa coord s)" "ke R s (exec_Specialize ae cl pa coord s)"
  unfolding exec_Close_def exec_Specialize_def Let_def
  by (insert assms(1))
    (intro ke_all; ((erule exec_steps keeps_step_same [OF same_instantiate [OF con]] keeps_step_same [OF same_GetCloseConcreteCode [OF con]])+)?; assumption)+

text \<open>The scheduler's \<^verbatim>\<open>PushCall\<close> relies on the interpreter that enters the closure only.\<close>

lemma kp_PushCall:
  assumes enter: "\<And>c s1 s2. ev_enter env c s1 = Some (Some s2) \<Longrightarrow> same_sched s1 s2" and k: "keeps (Some t) s s1" "sc_current s = Some t"
  shows "kp (Some t) s (PushCall env c s1)"
proof -
  let ?e = "env\<lparr>ev_run := \<lambda>w s. None, ev_handle := \<lambda>w d p s. None, ev_poll := Some, ev_block := Some\<rparr>"
  have client: "scheduler_client ?e" using keeps_same [OF _ enter] by unfold_locales auto
  have e: "new_frame ?e = new_frame env" by (intro ext) (simp add: new_frame_def Sched_PushFrame_def)
  have r: "request_call ?e = request_call env" by (intro ext) (simp only: request_call_def e, simp)
  have v: "ev_enter ?e = ev_enter env" "ev_status ?e = ev_status env" by simp_all
  have "PushCall env c s1 = PushCall ?e c s1" unfolding PushCall_def r v ..
  then show ?thesis unfolding kp_def
    using scheduler_client.PushCall_keeps [OF client keeps_ok [OF k(1)] keeps_current [OF k]] keeps_trans [OF k(1)] by auto
qed

lemma ke_calls:
  assumes "keeps (Some t) s s" and t: "sc_current s = Some t"
    and enter: "\<And>c s1 s2. ev_enter (ae_env ae) c s1 = Some (Some s2) \<Longrightarrow> same_sched s1 s2"
  shows "ke (Some t) s (exec_AppPrim ae cl pa coord s)" "ke (Some t) s (exec_AppVar ae cl pa coord s)"
proof -
  show "ke (Some t) s (exec_AppPrim ae cl pa coord s)" unfolding exec_AppPrim_def
    by (insert assms(1)) (intro ke_leave kp_PushCall [OF enter _ t] ke_all; ((erule exec_steps)+)?; assumption)
  have "keeps (Some t) s s2" if "PushCall (ae_env ae) c s1 = Some (r, s2)" "keeps (Some t) s s1" for c s1 r s2
    using kp_PushCall [OF enter that(2) t] that(1) by (auto simp: kp_def)
  note step = this
  show "ke (Some t) s (exec_AppVar ae cl pa coord s)" unfolding exec_AppVar_def
    by (insert assms(1)) (intro ke_all; ((erule step exec_steps)+)?; assumption)
qed

text \<open>What the machine needs of its parameters.\<close>

definition quiet :: "aenv \<Rightarrow> bool" where
  "quiet ae \<longleftrightarrow> (\<forall>w s1 c s2. ae_construct ae w s1 = Some (c, s2) \<longrightarrow> same_sched s1 s2) \<and>
     (\<forall>c s1 s2. ev_enter (ae_env ae) c s1 = Some (Some s2) \<longrightarrow> same_sched s1 s2)"

lemma exec_instr_keeps:
  assumes "sched_ok (Some t) s" and "sc_current s = Some t" and "quiet ae" and "exec_instr ae cl pc coord s = Some e"
  shows "keeps (Some t) s (exec_state e)"
proof -
  have k: "keeps (Some t) s s" using assms(1) by (rule keeps_refl)
  have con: "\<forall>w s1 c s2. ae_construct ae w s1 = Some (c, s2) \<longrightarrow> same_sched s1 s2"
    and en: "\<And>c s1 s2. ev_enter (ae_env ae) c s1 = Some (Some s2) \<Longrightarrow> same_sched s1 s2" using assms(3) by (auto simp: quiet_def)
  obtain tag pa i where i: "TagVal_FromWordDirect s pc = Some (tag, pa)" "GetInstr tag = Some i"
    using assms(4) by (auto simp: exec_instr_def run_elims)
  have "ke (Some t) s (exec_instr ae cl pc coord s)"
    using ke_data [OF k] ke_tests [OF k] ke_exceptions [OF k] ke_closures [OF k con] ke_calls [OF k assms(2) en]
    by (cases i) (simp_all add: exec_instr_def i)
  then show ?thesis using assms(4) by (simp add: ke_def)
qed

lemmas run_loop_induct = run_loop.raw_induct [rotated, consumes 1, case_names step]

lemma run_loop_keeps:
  assumes "run_loop ae cl pc coord s = Some rs" and "sched_ok (Some t) s" and "sc_current s = Some t" and "quiet ae"
  shows "keeps (Some t) s (snd rs)"
  using assms
proof (induction ae cl pc coord s rs rule: run_loop_induct)
  case (step run ae cl pc coord s rs)
  then obtain e where e: "exec_instr ae cl pc coord s = Some e" by (auto simp: run_elims)
  note k = exec_instr_keeps [OF step.prems e]
  show ?case
  proof (cases e)
    case (Goto pc1 coord1 s1)
    then have "run ae cl pc1 coord1 s1 = Some rs" using step.hyps e by simp
    moreover have k1: "keeps (Some t) s s1" using k Goto by simp
    ultimately have "keeps (Some t) s1 (snd rs)" using step.IH keeps_ok [OF k1] keeps_current [OF k1 step.prems(2)] step.prems(3) by blast
    then show ?thesis using k1 keeps_trans by blast
  next
    case (Leave r s1)
    then show ?thesis using step.hyps e k by auto
  qed
qed

lemma kp_code:
  assumes "sched_ok (Some t) s" and "sc_current s = Some t" and "quiet ae"
  shows "kp (Some t) s (AbstractCodeInterpreter_Run ae s)" "kp (Some t) s (LazySelInterpreter_Run s)"
    "kp (Some t) s (AbstractCodeInterpreter_Handle ae d p s)"
proof -
  have k: "keeps (Some t) s s" using assms(1) by (rule keeps_refl)
  have loop: "kp (Some t) s (run_loop ae cl pc coord s1)" if "keeps (Some t) s s1" for cl pc coord s1
    using run_loop_keeps [OF _ keeps_ok [OF that] keeps_current [OF that assms(2)] assms(3)] keeps_trans [OF that] by (fastforce simp: kp_def)
  note args = keeps_step_same [OF same_formal_args]
  show "kp (Some t) s (AbstractCodeInterpreter_Run ae s)" unfolding AbstractCodeInterpreter_Run_def using k
    by (intro loop kp_rules; auto intro: args)
  show "kp (Some t) s (LazySelInterpreter_Run s)" unfolding LazySelInterpreter_Run_def
    by (insert k) (intro kp_rules; ((erule exec_steps)+)?; simp)
  show "kp (Some t) s (AbstractCodeInterpreter_Handle ae d p s)" unfolding AbstractCodeInterpreter_Handle_def
    by (insert k) (intro kp_rules; clarify?; ((erule exec_steps)+)?; assumption)
qed

lemma same_enter: "enter_closure ae c s = Some (Some s') \<Longrightarrow> same_sched s s'"
  by (auto simp: enter_closure_def AbstractCodeInterpreter_PushCall_def AbstractCodeFrame_New_def LazySelInterpreter_PushCall_def
      PrimitiveInterpreter_PushCall_def run_elims dest: same_new_frame split: if_splits)

lemma quiet_code: "quiet (code_aenv env pn ae)"
  by (auto simp: quiet_def code_aenv_def Let_def dest: same_construct same_enter)

interpretation code: scheduler_client "abstract_env env pn ae" for env pn ae
proof unfold_locales
  let ?c = "code_aenv env pn ae"
  fix t s s' r w
  assume ok: "sched_ok (Some t) s" "sc_current s = Some t"
  note kp = kp_code [OF ok quiet_code, unfolded kp_def, rule_format]
  have enter: "ev_enter (abstract_env env pn ae) = enter_closure (base_aenv env pn ae)"
    by (simp add: abstract_env_def code_aenv_def Let_def)
  show "keeps (Some t) s s'" if run: "ev_run (abstract_env env pn ae) w s = Some (r, s')"
  proof -
    have "Raise_Run e s = Some (r, s') \<Longrightarrow> keeps (Some t) s s'" for e using prim_threads(7) [OF ok(1)] by (auto simp: kp_def)
    moreover have "PrimitiveInterpreter_Run (prim_arity p) (prim_function e pn p) s = Some (r, s') \<Longrightarrow> keeps (Some t) s s'" for e p
      using PrimitiveInterpreter_Run_keeps [OF ok(1) prim_function_keeps] by (auto simp: kp_def)
    ultimately show ?thesis using run kp(1,2) by (auto simp: abstract_env_def Let_def split: if_splits option.splits)
  qed
  show "keeps (Some t) s s'" if "ev_handle (abstract_env env pn ae) w d p s = Some (r, s')" for d p
    using that kp(3) ok(1) by (auto simp: abstract_env_def Let_def keeps_def split: if_splits)
  show "keeps (Some t) s s'" if "ev_enter (abstract_env env pn ae) c s = Some (Some s')" for c
    using that keeps_same [OF ok(1) same_enter] by (simp add: enter)
next
  fix s s'
  show "sched_ok None s \<Longrightarrow> ev_poll (abstract_env env pn ae) s = Some s' \<Longrightarrow> sched_ok None s'"
    "sched_ok None s \<Longrightarrow> ev_block (abstract_env env pn ae) s = Some s' \<Longrightarrow> sched_ok None s'"
    by (simp_all add: abstract_env_def code_aenv_def base_aenv_def prim_base_def Let_def)
qed

end
