(* ===== verification/Code_Props.thy ===== *)
theory Code_Props
  imports Abstract_Machine
begin

text \<open>
  What the interpreter of abstract code guarantees: threads that run it keep the scheduler's invariant, compact tests
  branch as the tests that they replace, closures capture the values of their free variables, and exceptions reach the
  code of their handlers.
\<close>

section \<open>The scheduler\<close>

definition bare_aenv :: aenv where
  "bare_aenv = \<lparr>ae_env = bare_env, ae_consts = \<lparr>ac_emptyVector = BlkW 1, ac_emptyRecord = BlkW 2, ac_constructorHandler = IntW 20, ac_gmpHandler = IntW 21\<rparr>,
     ae_self = IntW 12, ae_bytecode = IntW 13, ae_hotspot = IntW 14, ae_lazySel = IntW 15, ae_lazySelCode = BlkW 3, ae_functionName = BlkW 4,
     ae_undefined = IntW 42, ae_dead = BlkW 5, ae_construct = (\<lambda>w s. None), ae_real_eq = (=)\<rparr>"



section \<open>Tests\<close>

text \<open>Reading and killing variables touches the frame only.\<close>

lemma frame_set_heap:
  "frame_set pos v s = Some s' \<Longrightarrow> sc_blocks s' = sc_blocks s \<and> sc_trans s' = sc_trans s \<and> sc_chunks s' = sc_chunks s \<and> sc_maps s' = sc_maps s \<and> sc_next s' = sc_next s"
  by (auto simp: frame_set_def run_elims)

lemma KillIdRef_heap:
  "KillIdRef ae r s = Some s' \<Longrightarrow> sc_blocks s' = sc_blocks s \<and> sc_trans s' = sc_trans s \<and> sc_chunks s' = sc_chunks s \<and> sc_maps s' = sc_maps s \<and> sc_next s' = sc_next s"
  by (auto simp: KillIdRef_def KillLocal_def run_elims split: if_splits dest: frame_set_heap)

lemma heap_readers:
  assumes "sc_blocks s' = sc_blocks s"
  shows "vector_of s' w = vector_of s w" "Tuple_FromWordDirect s' w = Tuple_FromWordDirect s w"
    "TagVal_FromWordDirect s' w = TagVal_FromWordDirect s w"
  using assms by (simp_all add: vector_of_def Vector_FromWordDirect_def Tuple_FromWordDirect_def TagVal_FromWordDirect_def FromWordDirect_def tagged_def)

lemma int_key_IntW [simp]: "int_key x (IntW i) = Some (i = x)"
  by (simp add: int_key_def DirectWordToInt_def)

lemma find_case_consecutive:
  assumes "length pairs = length tests"
    and "\<And>i. i < length tests \<Longrightarrow> Tuple_FromWordDirect s (pairs ! i) = Some [IntW (offset + int i), tests ! i]"
  shows "find_case s (int_key x) pairs =
    Some (if offset \<le> x \<and> x < offset + int (length tests) then Some [IntW x, tests ! nat (x - offset)] else None)"
  using assms
proof (induction pairs arbitrary: tests offset)
  case (Cons p pairs)
  then obtain t ts where t: "tests = t # ts" by (cases tests) auto
  have p: "Tuple_FromWordDirect s p = Some [IntW offset, t]" using Cons.prems(2) [of 0] t by simp
  have "Tuple_FromWordDirect s (pairs ! i) = Some [IntW (offset + 1 + int i), ts ! i]" if "i < length ts" for i
    using Cons.prems(2) [of "Suc i"] that t by (simp add: algebra_simps)
  then have "find_case s (int_key x) pairs =
    Some (if offset + 1 \<le> x \<and> x < offset + 1 + int (length ts) then Some [IntW x, ts ! nat (x - (offset + 1))] else None)"
    using Cons.IH [of ts "offset + 1"] Cons.prems(1) t by simp
  moreover have "nat (x - offset) = Suc (nat (x - (offset + 1)))" if "offset < x" using that by linarith
  ultimately show ?case using p t by (auto simp: run_simps)
qed simp

lemma wrapped_index:
  assumes "valid_int x" and "valid_int offset" and "n \<le> 1073741824"
  shows "unat (word_of_int (x - offset) :: u_int) < n \<longleftrightarrow> offset \<le> x \<and> x < offset + int n"
    "offset \<le> x \<Longrightarrow> unat (word_of_int (x - offset) :: u_int) = nat (x - offset)"
proof -
  have u: "unat (word_of_int (x - offset) :: u_int) = nat ((x - offset) mod 4294967296)"
    unfolding unat_eq_nat_uint uint_word_of_int by simp
  have b: "- 2147483648 < x - offset" "x - offset < 2147483648" using assms(1,2) by (simp_all add: valid_int_iff)
  show "offset \<le> x \<Longrightarrow> unat (word_of_int (x - offset) :: u_int) = nat (x - offset)"
    using b unfolding u by (simp add: mod_pos_pos_trivial)
  show "unat (word_of_int (x - offset) :: u_int) < n \<longleftrightarrow> offset \<le> x \<and> x < offset + int n"
  proof (cases "offset \<le> x")
    case True
    then have "(x - offset) mod 4294967296 = x - offset" using b by (simp add: mod_pos_pos_trivial)
    then show ?thesis using True unfolding u by linarith
  next
    case False
    have "(x - offset) mod 4294967296 = (x - offset + 4294967296) mod 4294967296" by simp
    also have "\<dots> = x - offset + 4294967296" using False b by (intro mod_pos_pos_trivial) linarith+
    finally show ?thesis using False b assms(3) unfolding u by linarith
  qed
qed

text \<open>
  C31: a compact test on integers, which computes an index with wrap-around, is the same as the test that compares the
  value with the consecutive integers from the offset on, one after the other: both request an undetermined value in the
  same state, and both continue with the same instruction in the same state.
\<close>

theorem compact_int_test:
  assumes "vector_of s wt = Some tests" and "length tests \<le> 1073741824" and "vector_of s wp = Some pairs" and "length pairs = length tests"
    and "\<And>i. i < length tests \<Longrightarrow> Tuple_FromWordDirect s (pairs ! i) = Some [IntW (offset + int i), tests ! i]"
    and "\<And>v i. GetIdRef ae r cl s = Some v \<Longrightarrow> WordToInt (sc_trans s) v = Some (Some i) \<Longrightarrow> valid_int i" and "valid_int offset"
  shows "exec_CompactIntTest ae cl pc [r, IntW offset, wt, other] coord s = exec_IntTest ae cl pc [r, wp, other] coord s"
proof -
  have "do { s1 \<leftarrow> KillIdRef ae r s; tests \<leftarrow> vector_of s1 wt;
         if unat (word_of_int (x - offset) :: u_int) < length tests then goto coord (Block_GetArg tests (unat (word_of_int (x - offset) :: u_int))) s1
         else goto coord (Block_GetArg [r, IntW offset, wt, other] 3) s1 } =
       do { s1 \<leftarrow> KillIdRef ae r s; tests \<leftarrow> vector_of s1 wp; found \<leftarrow> find_case s1 (int_key x) tests; branch coord found (Some other) s1 }"
    if v: "valid_int x" for x
  proof (cases "KillIdRef ae r s")
    case (Some s1)
    note h = heap_readers [OF KillIdRef_heap [OF Some, THEN conjunct1]]
    have "find_case s1 (int_key x) pairs =
      Some (if offset \<le> x \<and> x < offset + int (length tests) then Some [IntW x, tests ! nat (x - offset)] else None)"
      using find_case_consecutive [OF assms(4), of s1 offset x] assms(5) h by simp
    then show ?thesis
      using Some assms(1,3) h wrapped_index [OF v assms(7,2)] by (auto simp: branch_def run_simps Block_GetArg_def)
  qed simp
  note same = this
  show ?thesis
  proof (cases "GetIdRef ae r cl s")
    case (Some v)
    then show ?thesis
    proof (cases "WordToInt (sc_trans s) v")
      case i: (Some i)
      then show ?thesis
      proof (cases i)
        case x: (Some x)
        have "valid_int x" using assms(6) [OF Some] i x by simp
        then show ?thesis
          using Some i x same [of x] by (simp add: exec_CompactIntTest_def exec_IntTest_def DirectWordToInt_def Block_GetArg_run Let_def del: of_int_diff)
      qed (use Some i in \<open>simp add: exec_CompactIntTest_def exec_IntTest_def Block_GetArg_def\<close>)
    qed (simp add: exec_CompactIntTest_def exec_IntTest_def Block_GetArg_def)
  qed (simp add: exec_CompactIntTest_def exec_IntTest_def Block_GetArg_def)
qed

text \<open>A heap with a test of the integers 5 and 6, in both forms, on an immediate operand.\<close>

definition test_heap :: "(addr \<times> block_label \<times> store_word list) list" where
  "test_heap = [(1, Alice_Vector, [IntW 2, BlkW 6, BlkW 7]), (2, Alice_Vector, [IntW 2, BlkW 3, BlkW 4]),
     (3, TUPLE_LABEL, [IntW 5, BlkW 6]), (4, TUPLE_LABEL, [IntW 6, BlkW 7]), (5, DATA_LABEL (Alice_MIN_TAG + 1), [IntW 6]),
     (6, DATA_LABEL Alice_MIN_TAG, []), (7, DATA_LABEL Alice_MIN_TAG, []), (8, DATA_LABEL Alice_MIN_TAG, [])]"

definition test_state :: sched where "test_state = no_objects\<lparr>sc_blocks := map_of test_heap\<rparr>"

lemmas heap_eval = DirectWordToInt_def DirectWordToNat_def DirectWordToBlock_def FromWordDirect_def FromWord_def
  Tuple_FromWordDirect_def Closure_FromWordDirect_def Vector_FromWordDirect_def Vector_FromWord_def Vector_GetLength_def Vector_elems_def
  Vector_Sub_def vector_of_def tagged_def TagVal_FromWordDirect_def TagVal_FromWord_def LabelToTag_def IsTag_def Alice_MIN_TAG_def Alice_MAX_TAG_def
  Alice_Vector_def Alice_BIG_TAG_def AbstractCode_GetIdRef_def idRefs_order_def Block_GetArg_def Assert_def
  MIN_DATA_LABEL_def MAX_DATA_LABEL_def label_size_def helper_arr_def WordToBlock_def WordToInt_def

theorem compact_int_test_witness:
  "exec_CompactIntTest bare_aenv 0 (IntW 0) [BlkW 5, IntW 5, BlkW 1, BlkW 8] (IntW 0) test_state =
     exec_IntTest bare_aenv 0 (IntW 0) [BlkW 5, BlkW 2, BlkW 8] (IntW 0) test_state \<and>
   exec_IntTest bare_aenv 0 (IntW 0) [BlkW 5, BlkW 2, BlkW 8] (IntW 0) test_state = Some (Goto (BlkW 7) (IntW 0) test_state)"
proof -
  have v: "GetIdRef bare_aenv (BlkW 5) 0 test_state = Some (IntW 6)"
    by (simp add: GetIdRef_def test_state_def test_heap_def heap_eval)
  have i: "WordToInt (sc_trans test_state) (IntW 6) = Some (Some 6)" by (simp add: WordToInt_def)
  have k: "KillIdRef bare_aenv (BlkW 5) test_state = Some test_state"
    by (simp add: KillIdRef_def) (simp add: test_state_def test_heap_def heap_eval)
  have t: "vector_of test_state (BlkW 2) = Some [BlkW 3, BlkW 4]" by (simp add: test_state_def test_heap_def heap_eval)
  have f: "find_case test_state (int_key 6) [BlkW 3, BlkW 4] = Some (Some [IntW 6, BlkW 7])"
    by (simp add: test_state_def test_heap_def heap_eval)
  have g: "goto (IntW 0) (Some (BlkW 7)) test_state = Some (Goto (BlkW 7) (IntW 0) test_state)"
    by (simp add: goto_def) (simp add: test_state_def test_heap_def heap_eval)
  have "exec_CompactIntTest bare_aenv 0 (IntW 0) [BlkW 5, IntW 5, BlkW 1, BlkW 8] (IntW 0) test_state =
     exec_IntTest bare_aenv 0 (IntW 0) [BlkW 5, BlkW 2, BlkW 8] (IntW 0) test_state"
  proof (rule compact_int_test)
    show "vector_of test_state (BlkW 1) = Some [BlkW 6, BlkW 7]" by (simp add: test_state_def test_heap_def heap_eval)
    show "vector_of test_state (BlkW 2) = Some [BlkW 3, BlkW 4]" by (rule t)
    show "Tuple_FromWordDirect test_state ([BlkW 3, BlkW 4] ! i) = Some [IntW (5 + int i), [BlkW 6, BlkW 7] ! i]"
      if "i < length [BlkW 6, BlkW 7]" for i
      using that by (auto simp: less_Suc_eq test_state_def test_heap_def heap_eval)
    show "valid_int i" if "GetIdRef bare_aenv (BlkW 5) 0 test_state = Some u" "WordToInt (sc_trans test_state) u = Some (Some i)" for u i
      using that v by (auto simp: WordToInt_def valid_int_iff)
  qed (simp_all add: valid_int_iff)
  moreover have "exec_IntTest bare_aenv 0 (IntW 0) [BlkW 5, BlkW 2, BlkW 8] (IntW 0) test_state = Some (Goto (BlkW 7) (IntW 0) test_state)"
    by (simp add: exec_IntTest_def v i k t f branch_def g Block_GetArg_def del: find_case.simps)
  ultimately show ?thesis by simp
qed

section \<open>Exceptions\<close>

text \<open>The frame on top belongs to abstract code; addresses from the next one on are free; the current backtrace has room.\<close>

definition code_frame :: "aenv \<Rightarrow> sched \<Rightarrow> nat \<Rightarrow> bool" where
  "code_frame ae s n \<longleftrightarrow> 1 + FRAME_BASE_SIZE \<le> n \<and> n \<le> sc_top s \<and> sc_top s < length (db_args (sc_stack s)) \<and> n < 2 ^ 31 \<and>
     Frame_GetWorker (sc_top s) (sc_stack s) = Some (ae_self ae) \<and> frame_get SIZE_POS s = Some (IntW (int n))"

definition heap_fresh :: "sched \<Rightarrow> bool" where
  "heap_fresh s \<longleftrightarrow> (\<forall>a \<ge> sc_next s. sc_blocks s a = None)"

definition trace_ready :: "sched \<Rightarrow> bool" where
  "trace_ready s \<longleftrightarrow> (\<exists>q. sc_backtraces s (sc_backtrace s) = Some q \<and> queue_inv q \<and> queue_room q)"

text \<open>The interpreter is a worker of its own.\<close>

definition own_worker :: "senv \<Rightarrow> aenv \<Rightarrow> bool" where
  "own_worker env ae \<longleftrightarrow> ae_self ae \<notin> {ev_emptyTask env, ev_pushCall env, ev_bindFuture env, ev_uncaught env}"

text \<open>The objects of the one heap are objects of the other.\<close>

definition heap_extends :: "sched \<Rightarrow> sched \<Rightarrow> bool" where
  "heap_extends s s' \<longleftrightarrow> sc_blocks s \<subseteq>\<^sub>m sc_blocks s'"

lemma heap_extends_readers:
  assumes "heap_extends s s'"
  shows "Tuple_FromWordDirect s w = Some ws \<Longrightarrow> Tuple_FromWordDirect s' w = Some ws"
    "vector_of s w = Some vs \<Longrightarrow> vector_of s' w = Some vs" "TagVal_FromWordDirect s w = Some x \<Longrightarrow> TagVal_FromWordDirect s' w = Some x"
proof -
  have b: "sc_blocks s a = Some x \<Longrightarrow> sc_blocks s' a = Some x" for a x
    using assms unfolding heap_extends_def map_le_def by (metis domI)
  show "Tuple_FromWordDirect s w = Some ws \<Longrightarrow> Tuple_FromWordDirect s' w = Some ws"
    by (auto simp: Tuple_FromWordDirect_def FromWordDirect_def run_elims dest: b)
  show "vector_of s w = Some vs \<Longrightarrow> vector_of s' w = Some vs"
    by (auto simp: vector_of_def Vector_FromWordDirect_def FromWordDirect_def run_elims dest: b)
  show "TagVal_FromWordDirect s w = Some x \<Longrightarrow> TagVal_FromWordDirect s' w = Some x"
    by (auto simp: TagVal_FromWordDirect_def tagged_def run_elims dest: b)
qed

lemma heap_extends_new:
  assumes "heap_fresh s" and "new_block l ws s = (a, s')"
  shows "heap_extends s s'" "heap_fresh s'" "sc_blocks s' a = Some (l, ws)"
  using assms by (auto simp: heap_extends_def heap_fresh_def new_block_def map_le_def)

lemma heap_extends_trans: "heap_extends s s' \<Longrightarrow> heap_extends s' s'' \<Longrightarrow> heap_extends s s''"
  unfolding heap_extends_def by (rule map_le_trans)

text \<open>What tracing a frame leaves as it is.\<close>

definition same_frame :: "sched \<Rightarrow> sched \<Rightarrow> bool" where
  "same_frame s s' \<longleftrightarrow> heap_extends s s' \<and> sc_stack s' = sc_stack s \<and> sc_top s' = sc_top s \<and> sc_threads s' = sc_threads s \<and>
     sc_current s' = sc_current s \<and> sc_args s' = sc_args s \<and> sc_data s' = sc_data s"

lemma trace_frame_total:
  assumes "code_frame ae s n" and "heap_fresh s" and "trace_ready s" and "own_worker env ae"
    and "ev_size env (ae_self ae) (sc_top s) (sc_stack s) = Some n"
  shows "\<exists>s'. trace_frame env skip s = Some s' \<and> same_frame s s'"
proof (cases "\<not> skip \<and> worker_traceable env (ae_self ae)")
  case True
  obtain q where q: "sc_backtraces s (sc_backtrace s) = Some q" "queue_inv q" "queue_room q" using assms(3) by (auto simp: trace_ready_def)
  obtain ws where ws: "Frame_Clone (sc_top s) n (sc_stack s) = Some ws" using assms(1) by (auto simp: Frame_Clone_def code_frame_def Assert_def)
  obtain a s1 where n: "new_block (DATA_LABEL 0) ws s = (a, s1)" by fastforce
  obtain q' where q': "Queue_Enqueue (ev_junk env) (BlkW a) q = Some q'" using Queue_Enqueue_spec [OF q(2,3)] by blast
  have size: "worker_size env (sc_top s) (sc_stack s) = Some n"
    using assms(1,4,5) by (simp add: worker_size_def code_frame_def own_worker_def)
  have s1: "sc_backtraces s1 = sc_backtraces s" "sc_backtrace s1 = sc_backtrace s" "same_frame s s1"
    using n heap_extends_new(1) [OF assms(2) n] by (auto simp: new_block_def same_frame_def)
  have "trace_frame env skip s = Some (s1\<lparr>sc_backtraces := (sc_backtraces s)(sc_backtrace s \<mapsto> q')\<rparr>)"
    using True assms(1) size ws n q' q(1) s1(1,2) by (simp add: trace_frame_def code_frame_def Backtrace_Enqueue_def)
  then show ?thesis using s1(3) by (auto simp: same_frame_def heap_extends_def)
next
  case False
  then have "trace_frame env skip s = Some s" using assms(1) by (auto simp: trace_frame_def code_frame_def)
  then show ?thesis by (auto simp: same_frame_def heap_extends_def)
qed

lemma frame_set_run:
  assumes "pos + 2 \<le> sc_top s" and "sc_top s \<le> length (db_args (sc_stack s))"
  shows "frame_set pos v s = Some (s\<lparr>sc_stack := (sc_stack s)\<lparr>db_args := (db_args (sc_stack s))[sc_top s - 2 - pos := v]\<rparr>\<rparr>)"
  using assms by (simp add: frame_set_def Frame_InitArg_def run_simps)

lemma frame_get_nth: "pos + 2 \<le> sc_top s \<Longrightarrow> sc_top s \<le> length (db_args (sc_stack s)) \<Longrightarrow> frame_get pos s = Some (db_args (sc_stack s) ! (sc_top s - 2 - pos))"
  by (simp add: frame_get_def Frame_GetArg_def run_simps)

lemma Handle_runs:
  assumes "code_frame ae s n" and "Tuple_FromWordDirect s package = Some [exn, b]" and "Tuple_FromWordDirect s d = Some [pc, defs]"
    and "TagVal_FromWordDirect s pc = Some x" and "length (sc_args s) = maxArgs"
  shows "\<exists>s'. AbstractCodeInterpreter_Handle ae (HData d) package s = Some (CONTINUE, s') \<and> frame_get PC_POS s' = Some pc \<and>
    frame_get FORMAL_ARGS_POS s' = Some defs \<and> sc_nArgs s' = 2 \<and> take 2 (sc_args s') = [package, exn] \<and> sc_blocks s' = sc_blocks s \<and>
    sc_threads s' = sc_threads s \<and> sc_current s' = sc_current s \<and> sc_top s' = sc_top s"
proof -
  define s3 where "s3 = s\<lparr>sc_nArgs := 2, sc_args := (sc_args s)[0 := package, 1 := exn]\<rparr>"
  define st where "st = (db_args (sc_stack s))[sc_top s - 2 := pc, sc_top s - 5 := defs]"
  obtain tag args where x: "x = (tag, args)" by fastforce
  have top: "6 \<le> sc_top s" "sc_top s < length (db_args (sc_stack s))" using assms(1) by (auto simp: code_frame_def FRAME_BASE_SIZE_def)
  define s2 where "s2 = s\<lparr>sc_nArgs := 2, sc_args := (sc_args s)[0 := package]\<rparr>"
  have args: "SetNArgs 2 s = Some (s\<lparr>sc_nArgs := 2\<rparr>)" "SetCurrentArg 0 package (s\<lparr>sc_nArgs := 2\<rparr>) = Some s2" "SetCurrentArg 1 exn s2 = Some s3"
    using assms(5) by (simp_all add: SetNArgs_def SetCurrentArg_def maxArgs_def run_simps s2_def s3_def)
  have reads: "Tuple_FromWordDirect s2 package = Some [exn, b]" "Tuple_FromWordDirect s3 d = Some [pc, defs]" "TagVal_FromWordDirect s3 pc = Some (tag, args)"
    using assms(2-4) x heap_readers [of s2 s] heap_readers [of s3 s] by (simp_all add: s2_def s3_def)
  have "SetPC pc s3 = Some (s3\<lparr>sc_stack := (sc_stack s)\<lparr>db_args := (db_args (sc_stack s))[sc_top s - 2 := pc]\<rparr>\<rparr>)"
    using top by (simp add: SetPC_def frame_set_run PC_POS_def s3_def)
  moreover have "SetFormalArgs defs (s3\<lparr>sc_stack := (sc_stack s)\<lparr>db_args := (db_args (sc_stack s))[sc_top s - 2 := pc]\<rparr>\<rparr>) =
    Some (s3\<lparr>sc_stack := (sc_stack s)\<lparr>db_args := st\<rparr>\<rparr>)"
    using top by (simp add: SetFormalArgs_def frame_set_run FORMAL_ARGS_POS_def s3_def st_def)
  ultimately have "AbstractCodeInterpreter_Handle ae (HData d) package s = Some (CONTINUE, s3\<lparr>sc_stack := (sc_stack s)\<lparr>db_args := st\<rparr>\<rparr>)"
    using assms(1) by (simp add: AbstractCodeInterpreter_Handle_def code_frame_def args [simplified] reads Block_GetArg_run)
  moreover have "take 2 ((sc_args s)[0 := package, 1 := exn]) = [package, exn]"
    using assms(5) by (cases "sc_args s"; cases "tl (sc_args s)") (auto simp: maxArgs_def)
  ultimately show ?thesis using top by (simp add: frame_get_nth PC_POS_def FORMAL_ARGS_POS_def s3_def st_def)
qed

lemma Try_runs:
  assumes "sc_current s = Some t" and "sc_threads s t = Some th" and "handlers_inv (th_handlers th)" and "handlers_view (th_handlers th) = Some hs"
    and "length (hb_args (th_handlers th)) * 3 div 2 < 16777200" and "heap_fresh s" and "sc_top s < length (db_args (sc_stack s))"
    and "TagVal_FromWordDirect s body = Some x"
  shows "\<exists>s1 th1 d defs. exec_Try ae [body, d1, d2, handler] coord s = Some (Goto body coord s1) \<and> sc_threads s1 t = Some th1 \<and>
    handlers_inv (th_handlers th1) \<and> handlers_view (th_handlers th1) = Some ((sc_top s - 1, TRYING, HData d) # hs) \<and>
    Tuple_FromWordDirect s1 d = Some [handler, defs] \<and> vector_of s1 defs = Some [d1, d2] \<and> heap_extends s s1 \<and> sc_current s1 = Some t \<and>
    heap_fresh s1 \<and> sc_top s1 = sc_top s \<and> sc_stack s1 = sc_stack s \<and> sc_args s1 = sc_args s \<and> sc_backtraces s1 = sc_backtraces s"
proof -
  obtain v s1 where v: "new_block Alice_Vector [IntW 2, d1, d2] s = (v, s1)" by fastforce
  obtain e s2 where e: "new_block TUPLE_LABEL [handler, BlkW v] s1 = (e, s2)" by fastforce
  note h1 = heap_extends_new [OF assms(6) v] and h2 = heap_extends_new [OF heap_extends_new(2) [OF assms(6) v] e]
  obtain h where h: "PushHandler (ev_hjunk (ae_env ae)) (sc_top s - 1) (BlkW e) (th_handlers th) = Some h" "handlers_inv h"
    "handlers_view h = Some ((sc_top s - 1, TRYING, HData (BlkW e)) # hs)" using PushHandler_spec [OF assms(3-5)] by blast
  define s3 where "s3 = s2\<lparr>sc_threads := (sc_threads s2)(t \<mapsto> th\<lparr>th_handlers := h\<rparr>)\<rparr>"
  have fields: "sc_threads s2 = sc_threads s" "sc_current s2 = sc_current s" "sc_top s2 = sc_top s" "sc_stack s2 = sc_stack s"
    "sc_args s2 = sc_args s" "sc_backtraces s2 = sc_backtraces s"
    using v e by (auto simp: new_block_def)
  have vec: "Vector_New (ae_consts ae) [d1, d2] s = Some (BlkW v, s1)" "Tuple_New [handler, BlkW v] s1 = (e, s2)"
    using v e by (simp_all add: Vector_New_def Tuple_New_def)
  have push: "Sched_PushHandler (ae_env ae) (BlkW e) s2 = Some s3"
    using h(1) assms(1,2,7) fields by (simp add: Sched_PushHandler_def upd_current_def run_simps s3_def)
  have ext: "heap_extends s s3" "heap_extends s1 s3" using heap_extends_trans [OF h1(1) h2(1)] h2(1) by (simp_all add: heap_extends_def s3_def)
  have "goto coord (Some body) s3 = Some (Goto body coord s3)"
    using heap_extends_readers(3) [OF ext(1) assms(8)] by (cases x) (simp add: goto_def)
  then have "exec_Try ae [body, d1, d2, handler] coord s = Some (Goto body coord s3)"
    using vec push by (simp add: exec_Try_def Block_GetArg_run)
  moreover have "Tuple_FromWordDirect s3 (BlkW e) = Some [handler, BlkW v]"
    using h2(3) by (simp add: Tuple_FromWordDirect_def FromWordDirect_def DirectWordToBlock_def s3_def run_simps)
  moreover have "vector_of s3 (BlkW v) = Some [d1, d2]"
    using heap_extends_readers(2) [OF ext(2), of "BlkW v"] h1(3)
    by (simp add: vector_of_def Vector_FromWordDirect_def FromWordDirect_def DirectWordToBlock_def Vector_elems_def Vector_GetLength_def
      DirectWordToNat_def DirectWordToInt_def run_simps)
  ultimately show ?thesis using h(2,3) ext(1) fields assms(1) h2(2)
    by (intro exI [of _ s3] exI [of _ "th\<lparr>th_handlers := h\<rparr>"] exI [of _ "BlkW e"] exI [of _ "BlkW v"]) (simp add: s3_def heap_fresh_def)
qed

lemma PopHandler_goto:
  assumes "sc_current s = Some t" and "sc_threads s t = Some th" and "handlers_inv (th_handlers th)" and "handlers_view (th_handlers th) = Some (h # hs)"
    and "TagVal_FromWordDirect s k = Some x"
  shows "\<exists>s' th'. do { s1 \<leftarrow> Sched_PopHandler s; goto coord (Some k) s1 } = Some (Goto k coord s') \<and> sc_threads s' t = Some th' \<and>
    handlers_view (th_handlers th') = Some hs \<and> sc_stack s' = sc_stack s \<and> sc_top s' = sc_top s"
proof -
  obtain b where b: "PopHandler (th_handlers th) = Some b" "handlers_view b = Some hs" using PopHandler_spec [OF assms(3,4)] by blast
  let ?s = "s\<lparr>sc_threads := (sc_threads s)(t \<mapsto> th\<lparr>th_handlers := b\<rparr>)\<rparr>"
  have "TagVal_FromWordDirect ?s k = Some x" using assms(5) heap_readers(3) [of ?s s] by simp
  then have "do { s1 \<leftarrow> Sched_PopHandler s; goto coord (Some k) s1 } = Some (Goto k coord ?s)"
    using b(1) assms(1,2) by (cases x) (simp add: Sched_PopHandler_def upd_current_def goto_def)
  then show ?thesis using b(2) by (intro exI [of _ ?s]) simp
qed

lemma abstract_env_fields:
  "ae_self (code_aenv env pn ae) = ae_self ae" "own_worker (abstract_env env pn ae) ae' = own_worker env ae'"
  "ev_emptyTask (abstract_env env pn ae) = ev_emptyTask env" "ev_pushCall (abstract_env env pn ae) = ev_pushCall env"
  "ev_bindFuture (abstract_env env pn ae) = ev_bindFuture env" "ev_uncaught (abstract_env env pn ae) = ev_uncaught env"
  "ev_size (abstract_env env pn ae) = frame_size (base_aenv env pn ae) pn"
  "ev_handle (abstract_env env pn ae) (ae_self ae) = AbstractCodeInterpreter_Handle (code_aenv env pn ae)"
  by (simp_all add: abstract_env_def code_aenv_def base_aenv_def prim_base_def own_worker_def Let_def fun_eq_iff)

lemma code_frame_size:
  "code_frame ae s n \<Longrightarrow> ev_size (abstract_env env pn ae) (ae_self ae) (sc_top s) (sc_stack s) = Some n"
  by (simp add: abstract_env_fields frame_size_def base_aenv_def code_frame_def frame_get_def DirectWordToNat_def DirectWordToInt_def
    unat_of_nat)

lemma same_frame_code: "same_frame s s' \<Longrightarrow> code_frame ae s n \<Longrightarrow> code_frame ae s' n"
  by (simp add: same_frame_def code_frame_def frame_get_def)

lemma DoRaise_handles:
  assumes "own_worker env ae" and "sc_current s = Some t" and "sc_threads s t = Some th" and "handlers_inv (th_handlers th)"
    and "handlers_view (th_handlers th) = Some ((sc_top s - 1, TRYING, HData d) # hs)" and "heap_fresh s" and "trace_ready s" and "code_frame ae s n"
    and "Tuple_FromWordDirect s d = Some [handler, defs]" and "TagVal_FromWordDirect s handler = Some y" and "length (sc_args s) = maxArgs"
  shows "\<exists>s' th' p. DoRaise (abstract_env env pn ae) reraise s = Some (CONTINUE, s') \<and> frame_get PC_POS s' = Some handler \<and>
    frame_get FORMAL_ARGS_POS s' = Some defs \<and> sc_nArgs s' = 2 \<and> take 2 (sc_args s') = [BlkW p, sc_data s] \<and>
    Tuple_FromWordDirect s' (BlkW p) = Some [sc_data s, BlkW (sc_backtrace s)] \<and> heap_extends s s' \<and> sc_current s' = Some t \<and>
    sc_top s' = sc_top s \<and> sc_threads s' t = Some th' \<and> handlers_inv (th_handlers th') \<and>
    handlers_view (th_handlers th') = Some ((sc_top s - 1, HANDLING, HPackage (BlkW p)) # hs)"
proof -
  let ?e = "abstract_env env pn ae"
  obtain p s1 where p: "new_block TUPLE_LABEL [sc_data s, BlkW (sc_backtrace s)] s = (p, s1)" by fastforce
  note h1 = heap_extends_new [OF assms(6) p]
  obtain h where h: "ActivateNextHandler (BlkW p) (th_handlers th) = Some (sc_top s - 1, HData d, h)" "handlers_inv h"
    "handlers_view h = Some ((sc_top s - 1, HANDLING, HPackage (BlkW p)) # hs)"
    using ActivateNextHandler_spec [OF assms(4,5), of "sc_top s - 1" TRYING "HData d" hs "BlkW p"] by auto
  define s2 where "s2 = s1\<lparr>sc_threads := (sc_threads s1)(t \<mapsto> th\<lparr>th_handlers := h\<rparr>)\<rparr>"
  have f: "sc_stack s2 = sc_stack s" "sc_top s2 = sc_top s" "sc_current s2 = Some t" "sc_threads s1 = sc_threads s" "sc_current s1 = sc_current s"
    "sc_args s2 = sc_args s" "sc_backtrace s2 = sc_backtrace s" "sc_backtraces s2 = sc_backtraces s"
    using p assms(2) by (auto simp: new_block_def s2_def)
  have c2: "code_frame ae s2 n" "trace_ready s2" "heap_fresh s2" "heap_extends s s2"
    using assms(7,8) f h1 by (simp_all add: code_frame_def frame_get_def trace_ready_def heap_fresh_def heap_extends_def s2_def)
  obtain s3 where s3: "trace_frame ?e (sc_top s2 = sc_top s2 \<and> reraise) s2 = Some s3" "same_frame s2 s3"
    using trace_frame_total [OF c2(1,3,2), of ?e reraise] assms(1) code_frame_size [OF c2(1)] by (auto simp: abstract_env_fields)
  have top: "0 < sc_top s" using assms(8) by (auto simp: code_frame_def FRAME_BASE_SIZE_def)
  have un: "unroll ?e reraise (sc_top s2) (sc_top s - 1) s2 = Some s3"
    by (subst unroll.simps) (use s3(1) f(2) top in simp)
  have ext: "heap_extends s s3" "heap_extends s2 s3" using s3(2) heap_extends_trans [OF c2(4)] by (auto simp: same_frame_def)
  have tup: "Tuple_FromWordDirect s3 (BlkW p) = Some [sc_data s, BlkW (sc_backtrace s)]"
    by (rule heap_extends_readers(1) [OF ext(2)])
      (use h1(3) in \<open>simp add: Tuple_FromWordDirect_def FromWordDirect_def DirectWordToBlock_def s2_def run_simps\<close>)
  have "code_frame (code_aenv env pn ae) s3 n" using same_frame_code [OF s3(2) c2(1)] by (simp add: code_frame_def abstract_env_fields)
  from Handle_runs [OF this tup heap_extends_readers(1) [OF ext(1) assms(9)] heap_extends_readers(3) [OF ext(1) assms(10)]]
  obtain s4 where s4: "AbstractCodeInterpreter_Handle (code_aenv env pn ae) (HData d) (BlkW p) s3 = Some (CONTINUE, s4)"
    "frame_get PC_POS s4 = Some handler" "frame_get FORMAL_ARGS_POS s4 = Some defs" "sc_nArgs s4 = 2" "take 2 (sc_args s4) = [BlkW p, sc_data s]"
    "sc_blocks s4 = sc_blocks s3" "sc_threads s4 = sc_threads s3" "sc_current s4 = sc_current s3" "sc_top s4 = sc_top s3"
    using assms(11) s3(2) f(6) by (auto simp: same_frame_def)
  have w: "worker_handle ?e (ae_self ae) (HData d) (BlkW p) s3 = Some (CONTINUE, s4)"
    using s4(1) assms(1) by (simp add: worker_handle_def abstract_env_fields own_worker_def)
  have "Frame_GetWorker (sc_top s3) (sc_stack s3) = Some (ae_self ae)" using same_frame_code [OF s3(2) c2(1)] by (simp add: code_frame_def)
  then have "DoRaise ?e reraise s = Some (CONTINUE, s4)"
    using p h(1) f assms(2,3,8) un w by (simp add: DoRaise_def Let_def s2_def code_frame_def run_simps)
  moreover have "sc_threads s4 t = Some (th\<lparr>th_handlers := h\<rparr>)" using s4(7) s3(2) by (simp add: same_frame_def s2_def)
  moreover have "Tuple_FromWordDirect s4 (BlkW p) = Some [sc_data s, BlkW (sc_backtrace s)]" using tup heap_readers(2) [OF s4(6)] by simp
  moreover have "heap_extends s s4" using ext(1) s4(6) by (simp add: heap_extends_def)
  ultimately show ?thesis using s4 s3(2) f(2,3) h(2,3)
    by (intro exI [of _ s4] exI [of _ "th\<lparr>th_handlers := h\<rparr>"] exI [of _ p]) (simp add: same_frame_def)
qed

text \<open>
  C32: \<^verbatim>\<open>Try\<close> enters the protected code with a new handler for this frame. When the protected code raises an exception
  in this frame, the scheduler goes on in the frame at the handler's code, with the package (the exception and its
  backtrace) and the exception as arguments and the two formal arguments of the handler; \<^verbatim>\<open>EndHandle\<close> restores the
  handlers from before \<^verbatim>\<open>Try\<close>, and so does \<^verbatim>\<open>EndTry\<close> when there was no exception.
\<close>

theorem try_raise_handle:
  assumes "own_worker env ae" and "sc_current s = Some t" and "sc_threads s t = Some th" and "handlers_inv (th_handlers th)"
    and "handlers_view (th_handlers th) = Some hs" and "length (hb_args (th_handlers th)) * 3 div 2 < 16777200" and "heap_fresh s"
    and "sc_top s < length (db_args (sc_stack s))" and "TagVal_FromWordDirect s body = Some x" and "TagVal_FromWordDirect s handler = Some y"
  shows "\<exists>s1 th1. exec_Try (code_aenv env pn ae) [body, d1, d2, handler] coord s = Some (Goto body coord s1) \<and> sc_threads s1 t = Some th1 \<and>
    sc_current s1 = Some t \<and> heap_fresh s1 \<and> sc_top s1 = sc_top s \<and> sc_stack s1 = sc_stack s \<and> sc_args s1 = sc_args s \<and> sc_backtraces s1 = sc_backtraces s \<and>
    (\<forall>s2 th2 n reraise. sc_current s2 = Some t \<and> sc_threads s2 t = Some th2 \<and> th_handlers th2 = th_handlers th1 \<and> heap_extends s1 s2 \<and>
       heap_fresh s2 \<and> sc_top s2 = sc_top s \<and> code_frame ae s2 n \<and> trace_ready s2 \<and> length (sc_args s2) = maxArgs \<longrightarrow>
       (\<exists>s3 p defs. DoRaise (abstract_env env pn ae) reraise s2 = Some (CONTINUE, s3) \<and> sc_top s3 = sc_top s \<and> frame_get PC_POS s3 = Some handler \<and>
         frame_get FORMAL_ARGS_POS s3 = Some defs \<and> vector_of s3 defs = Some [d1, d2] \<and> sc_nArgs s3 = 2 \<and>
         take 2 (sc_args s3) = [BlkW p, sc_data s2] \<and> Tuple_FromWordDirect s3 (BlkW p) = Some [sc_data s2, BlkW (sc_backtrace s2)] \<and>
         (\<exists>s4 th4. exec_EndHandle [body] coord s3 = Some (Goto body coord s4) \<and> sc_threads s4 t = Some th4 \<and>
           handlers_view (th_handlers th4) = Some hs))) \<and>
    (\<exists>s4 th4. exec_EndTry [body] coord s1 = Some (Goto body coord s4) \<and> sc_threads s4 t = Some th4 \<and> handlers_view (th_handlers th4) = Some hs)"
proof -
  obtain s1 th1 d defs where s1: "exec_Try (code_aenv env pn ae) [body, d1, d2, handler] coord s = Some (Goto body coord s1)" "sc_threads s1 t = Some th1"
    "handlers_inv (th_handlers th1)" "handlers_view (th_handlers th1) = Some ((sc_top s - 1, TRYING, HData d) # hs)"
    "Tuple_FromWordDirect s1 d = Some [handler, defs]" "vector_of s1 defs = Some [d1, d2]" "heap_extends s s1" "sc_current s1 = Some t"
    "heap_fresh s1 \<and> sc_top s1 = sc_top s \<and> sc_stack s1 = sc_stack s \<and> sc_args s1 = sc_args s \<and> sc_backtraces s1 = sc_backtraces s"
    using Try_runs [OF assms(2-9)] by blast
  have pop: "\<exists>s4 th4. exec_EndHandle [body] coord s' = Some (Goto body coord s4) \<and> exec_EndTry [body] coord s' = Some (Goto body coord s4) \<and>
      sc_threads s4 t = Some th4 \<and> handlers_view (th_handlers th4) = Some hs"
    if "sc_current s' = Some t" "sc_threads s' t = Some th'" "handlers_inv (th_handlers th')" "handlers_view (th_handlers th') = Some (h # hs)"
      "heap_extends s s'" for s' th' h
    using PopHandler_goto [OF that(1-4) heap_extends_readers(3) [OF that(5) assms(9)], of coord] by (auto simp: exec_EndHandle_def exec_EndTry_def Block_GetArg_run)
  have "\<exists>s3 p defs. DoRaise (abstract_env env pn ae) reraise s2 = Some (CONTINUE, s3) \<and> sc_top s3 = sc_top s \<and> frame_get PC_POS s3 = Some handler \<and>
         frame_get FORMAL_ARGS_POS s3 = Some defs \<and> vector_of s3 defs = Some [d1, d2] \<and> sc_nArgs s3 = 2 \<and>
         take 2 (sc_args s3) = [BlkW p, sc_data s2] \<and> Tuple_FromWordDirect s3 (BlkW p) = Some [sc_data s2, BlkW (sc_backtrace s2)] \<and>
         (\<exists>s4 th4. exec_EndHandle [body] coord s3 = Some (Goto body coord s4) \<and> sc_threads s4 t = Some th4 \<and>
           handlers_view (th_handlers th4) = Some hs)"
    if a: "sc_current s2 = Some t" "sc_threads s2 t = Some th2" "th_handlers th2 = th_handlers th1" "heap_extends s1 s2" "heap_fresh s2"
      "sc_top s2 = sc_top s" "code_frame ae s2 n" "trace_ready s2" "length (sc_args s2) = maxArgs" for s2 th2 n reraise
  proof -
    note ext = heap_extends_trans [OF s1(7) a(4)]
    have "handlers_view (th_handlers th2) = Some ((sc_top s2 - 1, TRYING, HData d) # hs)" "handlers_inv (th_handlers th2)"
      using s1(3,4) a(3,6) by simp_all
    from DoRaise_handles [OF assms(1) a(1,2) this(2,1) a(5,8,7) heap_extends_readers(1) [OF a(4) s1(5)] heap_extends_readers(3) [OF ext assms(10)] a(9)]
    obtain s3 th3 p where s3: "DoRaise (abstract_env env pn ae) reraise s2 = Some (CONTINUE, s3)" "frame_get PC_POS s3 = Some handler"
      "frame_get FORMAL_ARGS_POS s3 = Some defs" "sc_nArgs s3 = 2" "take 2 (sc_args s3) = [BlkW p, sc_data s2]"
      "Tuple_FromWordDirect s3 (BlkW p) = Some [sc_data s2, BlkW (sc_backtrace s2)]" "heap_extends s2 s3" "sc_current s3 = Some t"
      "sc_top s3 = sc_top s2" "sc_threads s3 t = Some th3" "handlers_inv (th_handlers th3)"
      "handlers_view (th_handlers th3) = Some ((sc_top s2 - 1, HANDLING, HPackage (BlkW p)) # hs)" by blast
    have "vector_of s3 defs = Some [d1, d2]" by (rule heap_extends_readers(2) [OF heap_extends_trans [OF a(4) s3(7)] s1(6)])
    then show ?thesis using s3 a(6) pop [OF s3(8,10,11,12) heap_extends_trans [OF ext s3(7)]] by auto
  qed
  then show ?thesis using s1(1,2,8,9) pop [OF s1(8,2,3,4,7)] by blast
qed

definition sample_thread :: thread where
  "sample_thread = \<lparr>th_priority = NORMAL, th_state = RUNNABLE, th_suspended = False, th_stack = None, th_nargs = 0, th_args = ArgW (IntW 0),
     th_future = IntW 0, th_handlers = \<lparr>hb_active = 3, hb_args = [HFrame 0, HState TRYING, HData (IntW 0)] @ replicate 8 (HFrame 0)\<rparr>\<rparr>"

definition try_state :: sched where
  "try_state = test_state\<lparr>sc_next := 20, sc_threads := [9 \<mapsto> sample_thread], sc_current := Some 9, sc_backtrace := 19, sc_data := IntW 77,
     sc_backtraces := [19 \<mapsto> \<lparr>readIndex = 0, writeIndex = 0, q_array = replicate 4 (IntW 0)\<rparr>],
     sc_stack := \<lparr>db_active = 7, db_args = [IntW 1, IntW 6, IntW 0, IntW 0, IntW 0, BlkW 6, IntW 12, IntW 0]\<rparr>, sc_top := 7\<rparr>"

theorem try_raise_handle_witness:
  "\<exists>s1 s3 p. exec_Try (code_aenv bare_env no_prims bare_aenv) [BlkW 6, BlkW 8, BlkW 8, BlkW 7] (IntW 0) try_state = Some (Goto (BlkW 6) (IntW 0) s1) \<and>
    DoRaise (abstract_env bare_env no_prims bare_aenv) False (s1\<lparr>sc_data := IntW 78, sc_backtrace := 19\<rparr>) = Some (CONTINUE, s3) \<and>
    frame_get PC_POS s3 = Some (BlkW 7) \<and> take 2 (sc_args s3) = [BlkW p, IntW 78]"
proof -
  have st: "own_worker bare_env bare_aenv" "sc_current try_state = Some 9" "sc_threads try_state 9 = Some sample_thread" "handlers_inv (th_handlers sample_thread)"
    "handlers_view (th_handlers sample_thread) = Some [(0, TRYING, HData (IntW 0))]" "length (hb_args (th_handlers sample_thread)) * 3 div 2 < 16777200"
    by (simp_all add: own_worker_def bare_env_def bare_aenv_def try_state_def sample_thread_def handlers_inv_def handlers_view_def)
  have fresh: "heap_fresh try_state" by (simp add: heap_fresh_def try_state_def test_state_def test_heap_def)
  have room: "sc_top try_state < length (db_args (sc_stack try_state))" by (simp add: try_state_def)
  have code: "TagVal_FromWordDirect try_state (BlkW 6) = Some (0, [])" "TagVal_FromWordDirect try_state (BlkW 7) = Some (0, [])"
    by (simp_all add: try_state_def test_state_def test_heap_def heap_eval)
  obtain s1 th1 where s1: "exec_Try (code_aenv bare_env no_prims bare_aenv) [BlkW 6, BlkW 8, BlkW 8, BlkW 7] (IntW 0) try_state = Some (Goto (BlkW 6) (IntW 0) s1)"
    "sc_threads s1 9 = Some th1" "sc_current s1 = Some 9" "heap_fresh s1" "sc_top s1 = sc_top try_state" "sc_stack s1 = sc_stack try_state"
    "sc_args s1 = sc_args try_state" "sc_backtraces s1 = sc_backtraces try_state" and
    raise: "\<And>s2 th2 n reraise. sc_current s2 = Some 9 \<and> sc_threads s2 9 = Some th2 \<and> th_handlers th2 = th_handlers th1 \<and> heap_extends s1 s2 \<and>
       heap_fresh s2 \<and> sc_top s2 = sc_top try_state \<and> code_frame bare_aenv s2 n \<and> trace_ready s2 \<and> length (sc_args s2) = maxArgs \<Longrightarrow>
       \<exists>s3 p. DoRaise (abstract_env bare_env no_prims bare_aenv) reraise s2 = Some (CONTINUE, s3) \<and> frame_get PC_POS s3 = Some (BlkW 7) \<and>
         take 2 (sc_args s3) = [BlkW p, sc_data s2]"
    using try_raise_handle [OF st fresh room code, of no_prims "BlkW 8" "BlkW 8" "IntW 0"] by blast
  let ?s2 = "s1\<lparr>sc_data := IntW 78, sc_backtrace := 19\<rparr>"
  have "code_frame bare_aenv ?s2 6"
    using s1(5,6) by (simp add: code_frame_def FRAME_BASE_SIZE_def frame_get_def Frame_GetArg_def Frame_GetWorker_def SIZE_POS_def try_state_def
      bare_aenv_def Block_GetArg_def)
  moreover have "trace_ready ?s2"
    using s1(8) alloc_size_idem [of 4] by (simp add: trace_ready_def try_state_def queue_inv_def queue_room_def alloc_size_eq)
  moreover have "heap_extends s1 ?s2" "heap_fresh ?s2" "length (sc_args ?s2) = maxArgs"
    using s1(4,7) by (simp_all add: heap_extends_def heap_fresh_def try_state_def test_state_def no_objects_def maxArgs_def)
  ultimately show ?thesis using s1(1-3,5) raise [of ?s2 th1 6 False] by auto
qed

end
