(* ===== verification/Pickle_Stream.thy ===== *)
theory Pickle_Stream
  imports Scheduler
begin

text \<open>
  The byte streams of pickles: the tags of \<^verbatim>\<open>seam/generic/Pickle.hh\<close>, the output streams and the output buffer of
  \<^verbatim>\<open>seam/generic/Pickler.cc\<close> and the input streams of \<^verbatim>\<open>seam/generic/Unpickler.cc\<close>.

  A compressed file is the sequence of its uncompressed bytes: \<^verbatim>\<open>gzputc\<close> and \<^verbatim>\<open>gzwrite\<close> append, \<^verbatim>\<open>gzread\<close> reads from a
  position. The bytes of a new chunk are whatever the memory holds, so they are a parameter. The block of local variables
  of the output buffer, two words for each variable, is a list of pairs.
\<close>

type_synonym u_char = "8 word"
type_synonym bytes = "u_char list"
type_synonym byte_junk = "nat \<Rightarrow> u_char"

section \<open>Tags\<close>

datatype pickle_tag =
    INIT | STORE | LOAD | POSINT | NEGINT | CHUNK | MCHUNK | UNIQUE | BLOCK | MBLOCK | TUPLE | CLOSURE | TRANSFORM
  | aBLOCK | aMBLOCK | aTUPLE | aCLOSURE | aTRANSFORM | FULFILL | ENDOFSTREAM

definition pickle_tags :: "pickle_tag list" where
  "pickle_tags = [INIT, STORE, LOAD, POSINT, NEGINT, CHUNK, MCHUNK, UNIQUE, BLOCK, MBLOCK, TUPLE, CLOSURE, TRANSFORM,
     aBLOCK, aMBLOCK, aTUPLE, aCLOSURE, aTRANSFORM, FULFILL, ENDOFSTREAM]"

fun tag_byte :: "pickle_tag \<Rightarrow> u_char" where
  "tag_byte INIT = 0" | "tag_byte STORE = 1" | "tag_byte LOAD = 2" | "tag_byte POSINT = 3" | "tag_byte NEGINT = 4"
| "tag_byte CHUNK = 5" | "tag_byte MCHUNK = 6" | "tag_byte UNIQUE = 7" | "tag_byte BLOCK = 8" | "tag_byte MBLOCK = 9"
| "tag_byte TUPLE = 10" | "tag_byte CLOSURE = 11" | "tag_byte TRANSFORM = 12" | "tag_byte aBLOCK = 13" | "tag_byte aMBLOCK = 14"
| "tag_byte aTUPLE = 15" | "tag_byte aCLOSURE = 16" | "tag_byte aTRANSFORM = 17" | "tag_byte FULFILL = 18" | "tag_byte ENDOFSTREAM = 19"

text \<open>The cast of a byte to a tag; other bytes take the default branch.\<close>

definition byte_tag :: "u_char \<Rightarrow> pickle_tag option" where
  "byte_tag b = Block_GetArg pickle_tags (unat b)"

definition majorVersion :: u_int where "majorVersion = 5"
definition minorVersion :: u_int where "minorVersion = 0"

section \<open>Output streams\<close>

definition CanPickle :: "u_int \<Rightarrow> bool" where
  "CanPickle i \<longleftrightarrow> i AND (push_bit INT_PRECISION 1 - 1) = i"

text \<open>\<^verbatim>\<open>String::New\<close>: a chunk has a word for its size and room for the bytes.\<close>

definition String_New :: "byte_junk \<Rightarrow> nat \<Rightarrow> bytes option" where
  "String_New bj n = do {
     Assert (1 + (n + 3) div 4 \<le> unat MAX_BIGBLOCKSIZE);
     Some (map bj [0..<n]) }"

record sout =
  so_pos :: nat
  so_size :: nat
  so_string :: bytes

datatype ostream = FILE_OUTPUT_STREAM bytes | STRING_OUTPUT_STREAM sout

definition INITIAL_SIZE :: nat where "INITIAL_SIZE = 256"

definition StringOutputStream_New :: "byte_junk \<Rightarrow> ostream option" where
  "StringOutputStream_New bj = do {
     s \<leftarrow> String_New bj INITIAL_SIZE;
     Some (STRING_OUTPUT_STREAM \<lparr>so_pos = 0, so_size = INITIAL_SIZE, so_string = s\<rparr>) }"

definition StringOutputStream_Enlarge :: "byte_junk \<Rightarrow> sout \<Rightarrow> sout option" where
  "StringOutputStream_Enlarge bj st = do {
     let newSize = so_size st * 3 div 2;
     newString \<leftarrow> String_New bj newSize;
     s \<leftarrow> copy_words newString 0 (so_string st) 0 (so_pos st);
     Some (st\<lparr>so_size := newSize, so_string := s\<rparr>) }"

definition StringOutputStream_PutByte :: "byte_junk \<Rightarrow> u_char \<Rightarrow> sout \<Rightarrow> sout option" where
  "StringOutputStream_PutByte bj byte st = do {
     c \<leftarrow> Block_SetArg (so_string st) (so_pos st) byte;
     let pos = so_pos st + 1;
     let st1 = st\<lparr>so_string := c, so_pos := pos\<rparr>;
     if pos = so_size st then StringOutputStream_Enlarge bj st1 else Some st1 }"

partial_function (option) enlarge_for :: "byte_junk \<Rightarrow> nat \<Rightarrow> sout \<Rightarrow> sout option" where
  "enlarge_for bj n st =
     (if n \<ge> so_size st then Option.bind (StringOutputStream_Enlarge bj st) (enlarge_for bj n) else Some st)"

declare enlarge_for.simps [code]

definition StringOutputStream_PutBytes :: "byte_junk \<Rightarrow> bytes \<Rightarrow> sout \<Rightarrow> sout option" where
  "StringOutputStream_PutBytes bj buf st = do {
     let pos = so_pos st;
     st1 \<leftarrow> enlarge_for bj (pos + length buf) st;
     s \<leftarrow> copy_words (so_string st1) pos buf 0 (length buf);
     Some (st1\<lparr>so_string := s, so_pos := pos + length buf\<rparr>) }"

text \<open>
  \<^verbatim>\<open>StringOutputStream::Close\<close> returns the string with the header size set to the number of bytes written; the byte
  count of the string stays that of the buffer.
\<close>

definition StringOutputStream_Close :: "sout \<Rightarrow> (bytes \<times> nat) option" where
  "StringOutputStream_Close st = do { Assert (so_pos st \<le> unat MAX_BLOCKSIZE); Some (so_string st, so_pos st) }"

definition OutputStream_PutByte :: "byte_junk \<Rightarrow> u_char \<Rightarrow> ostream \<Rightarrow> ostream option" where
  "OutputStream_PutByte bj byte os = (case os of
     FILE_OUTPUT_STREAM f \<Rightarrow> Some (FILE_OUTPUT_STREAM (f @ [byte]))
   | STRING_OUTPUT_STREAM st \<Rightarrow> map_option STRING_OUTPUT_STREAM (StringOutputStream_PutByte bj byte st))"

definition OutputStream_PutBytes :: "byte_junk \<Rightarrow> bytes \<Rightarrow> ostream \<Rightarrow> ostream option" where
  "OutputStream_PutBytes bj buf os = (case os of
     FILE_OUTPUT_STREAM f \<Rightarrow> Some (FILE_OUTPUT_STREAM (f @ buf))
   | STRING_OUTPUT_STREAM st \<Rightarrow> map_option STRING_OUTPUT_STREAM (StringOutputStream_PutBytes bj buf st))"

lemma seven_bits_less:
  assumes "0x80 \<le> (i :: u_int)"
  shows "unat (drop_bit 7 i) < unat i"
proof -
  have "unat (drop_bit 7 i) = drop_bit 7 (unat i)" by (rule unat_drop_bit_eq)
  also have "\<dots> = unat i div 128" by (simp add: drop_bit_eq_div)
  finally show ?thesis using assms by (simp add: word_le_nat_alt)
qed

function put_uint :: "byte_junk \<Rightarrow> u_int \<Rightarrow> ostream \<Rightarrow> ostream option" where
  "put_uint bj i os =
     (if i \<ge> 0x80 then do {
        os1 \<leftarrow> OutputStream_PutByte bj (ucast ((i AND 0x7F) OR 0x80)) os;
        put_uint bj (drop_bit 7 i) os1 }
      else OutputStream_PutByte bj (ucast i) os)"
  by pat_completeness auto
termination by (relation "measure (\<lambda>(bj, i, os). unat i)") (simp_all add: seven_bits_less)

declare put_uint.simps [simp del]

definition OutputStream_PutUInt :: "byte_junk \<Rightarrow> u_int \<Rightarrow> ostream \<Rightarrow> ostream option" where
  "OutputStream_PutUInt bj i os = do { Assert (CanPickle i); put_uint bj i os }"

section \<open>The output buffer\<close>

record obuf =
  ob_buffer :: bytes
  ob_locals :: "(nat \<times> nat) list"
  ob_pos :: nat
  ob_size :: nat
  ob_count :: nat
  ob_lsize :: nat

definition initialSize :: nat where "initialSize = 8192"
definition locInitialSize :: nat where "locInitialSize = 64"

type_synonym local_junk = "nat \<Rightarrow> nat \<times> nat"

text \<open>A block of \<open>n\<close> words for local variables.\<close>

definition locals_New :: "local_junk \<Rightarrow> nat \<Rightarrow> (nat \<times> nat) list option" where
  "locals_New lj n = do { Assert (n \<le> unat MAX_BIGBLOCKSIZE); Some (map lj [0..<n div 2]) }"

definition OutputBuffer_New :: "byte_junk \<Rightarrow> local_junk \<Rightarrow> obuf option" where
  "OutputBuffer_New bj lj = do {
     b \<leftarrow> String_New bj initialSize;
     l \<leftarrow> locals_New lj (locInitialSize * 2);
     l1 \<leftarrow> Block_SetArg l 0 (0, 0);
     Some \<lparr>ob_buffer = b, ob_locals = l1, ob_pos = 0, ob_size = initialSize, ob_count = 0, ob_lsize = locInitialSize * 2\<rparr> }"

definition OutputBuffer_Reset :: "obuf \<Rightarrow> obuf option" where
  "OutputBuffer_Reset ob = do {
     l \<leftarrow> Block_SetArg (ob_locals ob) 0 (0, 0);
     Some (ob\<lparr>ob_locals := l, ob_pos := 0, ob_count := 0\<rparr>) }"

definition ResizeBuffer :: "byte_junk \<Rightarrow> obuf \<Rightarrow> obuf option" where
  "ResizeBuffer bj ob = do {
     let newSize = ob_size ob * 3 div 2;
     newBuf \<leftarrow> String_New bj newSize;
     b \<leftarrow> copy_words newBuf 0 (ob_buffer ob) 0 (ob_pos ob);
     Some (ob\<lparr>ob_size := newSize, ob_buffer := b\<rparr>) }"

definition ResizeLocals :: "local_junk \<Rightarrow> obuf \<Rightarrow> obuf option" where
  "ResizeLocals lj ob = do {
     let newSize = ob_lsize ob * 3 * 2 div 2;
     newBuf \<leftarrow> locals_New lj newSize;
     b \<leftarrow> copy_words newBuf 0 (ob_locals ob) 0 (ob_count ob + 1);
     Some (ob\<lparr>ob_lsize := newSize, ob_locals := b\<rparr>) }"

definition OutputBuffer_PutByte :: "byte_junk \<Rightarrow> u_char \<Rightarrow> obuf \<Rightarrow> obuf option" where
  "OutputBuffer_PutByte bj byte ob = do {
     let pos = ob_pos ob;
     ob1 \<leftarrow> (if pos \<ge> ob_size ob then ResizeBuffer bj ob else Some ob);
     c \<leftarrow> Block_SetArg (ob_buffer ob1) pos byte;
     Some (ob1\<lparr>ob_buffer := c, ob_pos := pos + 1\<rparr>) }"

partial_function (option) resize_for :: "byte_junk \<Rightarrow> nat \<Rightarrow> obuf \<Rightarrow> obuf option" where
  "resize_for bj n ob = (if n \<ge> ob_size ob then Option.bind (ResizeBuffer bj ob) (resize_for bj n) else Some ob)"

declare resize_for.simps [code]

definition OutputBuffer_PutBytes :: "byte_junk \<Rightarrow> bytes \<Rightarrow> obuf \<Rightarrow> obuf option" where
  "OutputBuffer_PutBytes bj c ob = do {
     let pos = ob_pos ob;
     ob1 \<leftarrow> resize_for bj (pos + length c) ob;
     b \<leftarrow> copy_words (ob_buffer ob1) pos c 0 (length c);
     Some (ob1\<lparr>ob_buffer := b, ob_pos := pos + length c\<rparr>) }"

function write_uint :: "u_int \<Rightarrow> nat \<Rightarrow> bytes \<Rightarrow> (nat \<times> bytes) option" where
  "write_uint i pos c =
     (if i \<ge> 0x80 then do {
        c1 \<leftarrow> Block_SetArg c pos (ucast ((i AND 0x7F) OR 0x80));
        write_uint (drop_bit 7 i) (pos + 1) c1 }
      else do {
        c1 \<leftarrow> Block_SetArg c pos (ucast i);
        Some (pos + 1, c1) })"
  by pat_completeness auto
termination by (relation "measure (\<lambda>(i, pos, c). unat i)") (simp_all add: seven_bits_less)

declare write_uint.simps [simp del]

definition OutputBuffer_PutUInt :: "byte_junk \<Rightarrow> u_int \<Rightarrow> obuf \<Rightarrow> obuf option" where
  "OutputBuffer_PutUInt bj i ob = do {
     Assert (CanPickle i);
     ob1 \<leftarrow> (if ob_pos ob + 5 \<ge> ob_size ob then ResizeBuffer bj ob else Some ob);
     (pos, c) \<leftarrow> write_uint i (ob_pos ob) (ob_buffer ob1);
     Some (ob1\<lparr>ob_buffer := c, ob_pos := pos\<rparr>) }"

definition PutLocal :: "byte_junk \<Rightarrow> local_junk \<Rightarrow> nat \<Rightarrow> obuf \<Rightarrow> (nat \<times> obuf) option" where
  "PutLocal bj lj ref ob = do {
     let lpos = ob_count ob + 1;
     ob1 \<leftarrow> (if lpos * 2 + 1 \<ge> ob_lsize ob then ResizeLocals lj ob else Some ob);
     l \<leftarrow> Block_SetArg (ob_locals ob1) lpos (ref, lpos);
     ob2 \<leftarrow> OutputBuffer_PutUInt bj (word_of_nat lpos) (ob1\<lparr>ob_locals := l\<rparr>);
     Some (lpos, ob2\<lparr>ob_count := lpos\<rparr>) }"

section \<open>Sorting the local variables\<close>

definition entry :: "(nat \<times> nat) list \<Rightarrow> int \<Rightarrow> (nat \<times> nat) option" where
  "entry b i = (if i < 0 then None else Block_GetArg b (nat i))"

definition Swap :: "int \<Rightarrow> int \<Rightarrow> (nat \<times> nat) list \<Rightarrow> (nat \<times> nat) list option" where
  "Swap i j b = do {
     x \<leftarrow> entry b i;
     y \<leftarrow> entry b j;
     b1 \<leftarrow> Block_SetArg b (nat i) y;
     Block_SetArg b1 (nat j) x }"

partial_function (option) scan_up :: "(nat \<times> nat) list \<Rightarrow> nat \<Rightarrow> int \<Rightarrow> int option" where
  "scan_up b v i = Option.bind (entry b (i + 1)) (\<lambda>x. if fst x < v then scan_up b v (i + 1) else Some (i + 1))"

declare scan_up.simps [code]

partial_function (option) scan_down :: "(nat \<times> nat) list \<Rightarrow> nat \<Rightarrow> int \<Rightarrow> int \<Rightarrow> int option" where
  "scan_down b v l j = Option.bind (entry b (j - 1)) (\<lambda>x.
     if v < fst x then (if j - 1 = l then Some (j - 1) else scan_down b v l (j - 1)) else Some (j - 1))"

declare scan_down.simps [code]

partial_function (option) partition_loop :: "nat \<Rightarrow> int \<Rightarrow> int \<Rightarrow> int \<Rightarrow> (nat \<times> nat) list \<Rightarrow> (int \<times> (nat \<times> nat) list) option" where
  "partition_loop v l i j b =
     Option.bind (scan_up b v i) (\<lambda>i'.
     Option.bind (scan_down b v l j) (\<lambda>j'.
     if i' \<ge> j' then Some (i', b)
     else Option.bind (Swap i' j' b) (\<lambda>b'. partition_loop v l i' j' b')))"

declare partition_loop.simps [code]

definition Partition :: "int \<Rightarrow> int \<Rightarrow> (nat \<times> nat) list \<Rightarrow> (int \<times> (nat \<times> nat) list) option" where
  "Partition l r b = do {
     x \<leftarrow> entry b r;
     (i, b1) \<leftarrow> partition_loop (fst x) l (l - 1) r b;
     b2 \<leftarrow> Swap i r b1;
     Some (i, b2) }"

partial_function (option) Sort :: "int \<Rightarrow> int \<Rightarrow> (nat \<times> nat) list \<Rightarrow> (nat \<times> nat) list option" where
  "Sort l r b =
     (if r \<le> l then Some b
      else Option.bind (Partition l r b) (\<lambda>(i, b1).
           Option.bind (Sort l (i - 1) b1) (\<lambda>b2. Sort (i + 1) r b2)))"

declare Sort.simps [code]

definition GetLocals :: "obuf \<Rightarrow> ((nat \<times> nat) list \<times> obuf) option" where
  "GetLocals ob = do {
     let b = ob_locals ob;
     b1 \<leftarrow> (if ob_count ob > 0 then Sort 0 (int (ob_count ob)) b else Some b);
     Some (b1, ob\<lparr>ob_locals := b1\<rparr>) }"

section \<open>Input streams\<close>

record gzfile =
  gz_data :: bytes
  gz_pos :: nat
  gz_error :: bool

definition gzread :: "gzfile \<Rightarrow> nat \<Rightarrow> (bytes \<times> gzfile) option" where
  "gzread f n = (if gz_error f then None
     else let bs = take n (drop (gz_pos f) (gz_data f)) in Some (bs, f\<lparr>gz_pos := gz_pos f + length bs\<rparr>))"

record istream =
  is_hd :: nat
  is_tl :: nat
  is_rd :: nat
  is_eob :: bool
  is_buffer :: bytes
  is_file :: "gzfile option"

definition READ_BUFFER_SIZE :: nat where "READ_BUFFER_SIZE = 8192"
definition READ_BUFFER_OVERSHOOT :: nat where "READ_BUFFER_OVERSHOOT = 20"

definition NewFromFile :: "byte_junk \<Rightarrow> gzfile \<Rightarrow> istream option" where
  "NewFromFile bj f = do {
     b \<leftarrow> String_New bj (READ_BUFFER_SIZE + READ_BUFFER_OVERSHOOT);
     Some \<lparr>is_hd = 0, is_tl = 0, is_rd = 0, is_eob = False, is_buffer = b, is_file = Some f\<rparr> }"

definition NewFromString :: "bytes \<Rightarrow> istream" where
  "NewFromString s = \<lparr>is_hd = 0, is_tl = length s, is_rd = 0, is_eob = False, is_buffer = s, is_file = None\<rparr>"

text \<open>
  \<^verbatim>\<open>InputStream::IsEOF\<close>. On a file whose buffer is read, \<^verbatim>\<open>gzgetc\<close> consumes a byte unless there is none; then \<^verbatim>\<open>gzseek\<close>
  goes back by one.
\<close>

definition IsEOF :: "istream \<Rightarrow> bool \<times> istream" where
  "IsEOF s = (case is_file s of
     Some f \<Rightarrow>
       if is_rd s \<ge> is_tl s then
         (if gz_error f \<or> gz_pos f \<ge> length (gz_data f) then (True, s\<lparr>is_file := Some (f\<lparr>gz_pos := gz_pos f - 1\<rparr>)\<rparr>)
          else (False, s\<lparr>is_file := Some (f\<lparr>gz_pos := gz_pos f + 1\<rparr>)\<rparr>))
       else (False, s)
   | None \<Rightarrow> (is_rd s \<ge> is_tl s, s))"

definition GetByte :: "istream \<Rightarrow> (u_char \<times> istream) option" where
  "GetByte s =
     (if is_rd s \<ge> is_tl s then Some (0, s\<lparr>is_eob := True\<rparr>)
      else do { b \<leftarrow> Block_GetArg (is_buffer s) (is_rd s); Some (b, s\<lparr>is_rd := is_rd s + 1\<rparr>) })"

text \<open>The bytes are those at the old position; at the end of the buffer they are not used.\<close>

definition GetBytes :: "nat \<Rightarrow> istream \<Rightarrow> bytes \<times> istream" where
  "GetBytes n s =
     (take n (drop (is_rd s) (is_buffer s)),
      if is_rd s + n \<ge> is_tl s then s\<lparr>is_eob := True\<rparr> else s\<lparr>is_rd := is_rd s + n\<rparr>)"

text \<open>
  \<^verbatim>\<open>InputStream::GetUInt\<close>. An integer out of range ends the program; so does, in this model, the shift by a negative
  number that a sixth byte leads to, which C++ leaves undefined.
\<close>

function get_uint :: "int \<Rightarrow> nat \<Rightarrow> u_int \<Rightarrow> istream \<Rightarrow> (u_int \<times> istream) option" where
  "get_uint freeBits shift v s =
     (if freeBits < 0 then None
      else do {
        (b, s1) \<leftarrow> GetByte s;
        if is_eob s1 then Some (0, s1)
        else do {
          let c = b AND 0x7F;
          Assert (\<not> ucast c \<ge> (push_bit (nat freeBits) 1 :: u_int));
          let v1 = v OR push_bit shift (ucast c);
          if b AND 0x80 \<noteq> 0 then get_uint (freeBits - 7) (shift + 7) v1 s1 else Some (v1, s1) } })"
  by pat_completeness auto
termination by (relation "measure (\<lambda>(freeBits, shift, v, s). nat (freeBits + 1))") auto

declare get_uint.simps [simp del]

definition GetUInt :: "istream \<Rightarrow> (u_int \<times> istream) option" where
  "GetUInt s = get_uint (int INT_PRECISION) 0 0 s"

definition Commit :: "istream \<Rightarrow> istream" where "Commit s = s\<lparr>is_hd := is_rd s\<rparr>"

definition Rewind :: "istream \<Rightarrow> istream" where
  "Rewind s = (case is_file s of
     Some f \<Rightarrow> s\<lparr>is_file := Some (f\<lparr>gz_pos := 0\<rparr>), is_tl := 0, is_hd := 0, is_rd := 0, is_eob := False\<rparr>
   | None \<Rightarrow> s\<lparr>is_tl := length (is_buffer s), is_hd := 0, is_rd := 0, is_eob := False\<rparr>)"

datatype fill_result = Filled istream | FillIOError istream | FillCorrupt istream

definition FillBuffer :: "byte_junk \<Rightarrow> istream \<Rightarrow> fill_result option" where
  "FillBuffer bj s = (case is_file s of
     None \<Rightarrow> Some (FillCorrupt s)
   | Some f \<Rightarrow> do {
       let size = length (is_buffer s);
       (s1, off, tl) \<leftarrow>
         (if is_hd s > 0 then do {
            Assert (is_hd s \<le> is_tl s);
            let tl = is_tl s - is_hd s;
            b \<leftarrow> copy_words (is_buffer s) 0 (is_buffer s) (is_hd s) tl;
            Some (s\<lparr>is_buffer := b, is_hd := 0\<rparr>, tl, tl) }
          else if is_tl s = size then do {
            nb \<leftarrow> String_New bj (size + READ_BUFFER_SIZE);
            b \<leftarrow> copy_words nb 0 (is_buffer s) 0 size;
            Some (s\<lparr>is_buffer := b\<rparr>, size, is_tl s) }
          else Some (s, is_tl s, is_tl s));
       let s2 = s1\<lparr>is_rd := is_hd s1, is_eob := False\<rparr>;
       case gzread f (length (is_buffer s2) - off) of
         None \<Rightarrow> Some (FillIOError s2)
       | Some (bs, f') \<Rightarrow>
           if bs = [] then Some (FillCorrupt (s2\<lparr>is_file := Some f'\<rparr>))
           else do {
             b \<leftarrow> copy_words (is_buffer s2) off bs 0 (length bs);
             Some (Filled (s2\<lparr>is_buffer := b, is_tl := tl + length bs, is_file := Some f'\<rparr>)) } })"

end
