(* ===== verification/Pickler.thy ===== *)
theory Pickler
  imports Pickle_Stream
begin

text \<open>
  The pickler: \<^verbatim>\<open>seam/generic/Pickler.cc\<close>. It walks over the graph of a value in depth-first order and writes code for
  a stack machine that builds the value again. \<open>Again\<close> is another round of the loop in \<^verbatim>\<open>PickleWorker::Run\<close>, \<open>Ret\<close> leaves
  the worker with a result.

  The graph is a heap of objects with their label and mutability, and the store of the transients. The arguments that the
  workers keep in the scheduler's registers (\<^verbatim>\<open>PickleArgs\<close>), the data register and the frames of the pickling workers are
  the record \<open>pstate\<close>. The table of the sharing detector maps blocks to their two words. \<^verbatim>\<open>GetAbstractRepresentation\<close>
  belongs to the handler of a concrete representation and is a parameter; so is the status word. Backtraces of the
  exceptions are not part of this state.
\<close>

section \<open>The heap\<close>

definition label_of :: "string \<Rightarrow> nat" where
  "label_of n = (case map_of (CreateLabel_helper label_size @ CreateLabel_fixed label_size) n of Some l \<Rightarrow> l | None \<Rightarrow> 0)"

definition UNIQUESTRING_NO :: nat where "UNIQUESTRING_NO = label_of ''UNIQUESTRING''"
definition CONCRETE_NO :: nat where "CONCRETE_NO = label_of ''CONCRETE''"
definition TRANSFORM_NO :: nat where "TRANSFORM_NO = label_of ''TRANSFORM''"
definition CLOSURE_NO :: nat where "CLOSURE_NO = label_of ''CLOSURE''"
definition TUPLE_NO :: nat where "TUPLE_NO = label_of ''TUPLE''"
definition CHUNK_NO :: nat where "CHUNK_NO = label_of ''CHUNK''"

definition sited_labels :: "nat list" where
  "sited_labels = map label_of [''WEAK_MAP'', ''MAP'', ''INT_MAP'', ''CHUNK_MAP'', ''THREAD'', ''TASKSTACK'', ''IODESC'']"

datatype pobj = PBlock nat bool "store_word list" | PChunk bool bytes

record pheap =
  ph_objs :: "addr \<Rightarrow> pobj option"
  ph_next :: addr
  ph_trans :: tstore
  ph_unique :: "bytes \<Rightarrow> addr option"

fun obj_label :: "pobj \<Rightarrow> nat" where
  "obj_label (PBlock l m ws) = l"
| "obj_label (PChunk m bs) = CHUNK_NO"

section \<open>The sharing detector\<close>

type_synonym seen = "addr \<Rightarrow> (int \<times> nat) option"

definition NOT_WRITTEN :: int where "NOT_WRITTEN = -1"
definition NOT_FOUND :: int where "NOT_FOUND = -2"

definition Seen_Add :: "addr \<Rightarrow> int \<Rightarrow> seen \<Rightarrow> seen" where
  "Seen_Add v index seen = seen(v \<mapsto> (index, 0))"

definition Seen_SetIndex :: "addr \<Rightarrow> int \<Rightarrow> seen \<Rightarrow> seen option" where
  "Seen_SetIndex v index seen = do { (i, n) \<leftarrow> seen v; Some (seen(v \<mapsto> (index, n))) }"

definition Seen_Find :: "addr \<Rightarrow> seen \<Rightarrow> int" where
  "Seen_Find v seen = (case seen v of Some (i, n) \<Rightarrow> i | None \<Rightarrow> NOT_FOUND)"

definition Seen_SetVarNo :: "addr \<Rightarrow> nat \<Rightarrow> seen \<Rightarrow> seen option" where
  "Seen_SetVarNo v varNo seen = do { (i, n) \<leftarrow> seen v; Some (seen(v \<mapsto> (i, varNo))) }"

definition Seen_GetVarNo :: "addr \<Rightarrow> seen \<Rightarrow> nat option" where
  "Seen_GetVarNo v seen = do { (i, n) \<leftarrow> seen v; Some n }"

section \<open>The stack\<close>

type_synonym pstack = "(store_word \<times> bool) list"

definition PickleStack_Push :: "store_word \<Rightarrow> pstack \<Rightarrow> pstack" where
  "PickleStack_Push w st = (w, False) # st"

definition PickleStack_SetBack :: "pstack \<Rightarrow> pstack option" where
  "PickleStack_SetBack st = (case st of [] \<Rightarrow> None | (w, b) # r \<Rightarrow> Some ((w, True) # r))"

definition PickleStack_PopTopFrame :: "pstack \<Rightarrow> pstack option" where
  "PickleStack_PopTopFrame st = (case st of [] \<Rightarrow> None | f # r \<Rightarrow> Some r)"

section \<open>The arguments of the workers\<close>

datatype ptask = PickleTask | PickleSaveTask | PicklePackTask

record pstate =
  pi_stream :: ostream
  pi_buffer :: obuf
  pi_seen :: seen
  pi_stack :: pstack
  pi_root :: store_word
  pi_cur :: int
  pi_max :: int
  pi_found :: bool
  pi_tasks :: "ptask list"
  pi_data :: store_word

record penv =
  pe_bj :: byte_junk
  pe_lj :: local_junk
  pe_abstract :: "store_word list \<Rightarrow> addr option"
  pe_status :: bool
  pe_Sited :: store_word
  pe_IOError :: store_word

definition PickleArgs_New :: "penv \<Rightarrow> ostream \<Rightarrow> store_word \<Rightarrow> ptask list \<Rightarrow> store_word \<Rightarrow> pstate option" where
  "PickleArgs_New pe stream root tasks data = do {
     ob \<leftarrow> OutputBuffer_New (pe_bj pe) (pe_lj pe);
     Some \<lparr>pi_stream = stream, pi_buffer = ob, pi_seen = Map.empty, pi_stack = PickleStack_Push root [], pi_root = root,
       pi_cur = 0, pi_max = 0, pi_found = False, pi_tasks = tasks, pi_data = data\<rparr> }"

definition PickleArgs_Reset :: "pstate \<Rightarrow> pstate option" where
  "PickleArgs_Reset st = do {
     ob \<leftarrow> OutputBuffer_Reset (pi_buffer st);
     Some (st\<lparr>pi_buffer := ob, pi_seen := Map.empty, pi_stack := PickleStack_Push (pi_root st) [], pi_cur := 0, pi_max := 0, pi_found := False\<rparr>) }"

text \<open>
  The height of the unpickler's stack. The argument of \<^verbatim>\<open>SimulatePop\<close> is the size of a block less one, computed with
  wrap-around; the subtraction wraps back, so the heights are integers here.
\<close>

definition SimulatePush :: "pstate \<Rightarrow> pstate" where
  "SimulatePush st = (let cur = pi_cur st + 1 in st\<lparr>pi_cur := cur, pi_max := (if cur > pi_max st then cur else pi_max st)\<rparr>)"

definition SimulatePop :: "int \<Rightarrow> pstate \<Rightarrow> pstate option" where
  "SimulatePop i st = do { Assert (pi_cur st > 0); Some (st\<lparr>pi_cur := pi_cur st - i\<rparr>) }"

section \<open>PickleWorker\<close>

datatype pickle_out = Again pstate | Ret worker_result pstate

text \<open>A tag and its operands, written one after the other.\<close>

fun put_uints :: "penv \<Rightarrow> u_int list \<Rightarrow> obuf \<Rightarrow> obuf option" where
  "put_uints pe [] ob = Some ob"
| "put_uints pe (i # is) ob = do { ob1 \<leftarrow> OutputBuffer_PutUInt (pe_bj pe) i ob; put_uints pe is ob1 }"

definition emit :: "penv \<Rightarrow> pickle_tag \<Rightarrow> u_int list \<Rightarrow> pstate \<Rightarrow> pstate option" where
  "emit pe tag is st = do {
     ob \<leftarrow> OutputBuffer_PutByte (pe_bj pe) (tag_byte tag) (pi_buffer st);
     ob1 \<leftarrow> put_uints pe is ob;
     Some (st\<lparr>pi_buffer := ob1\<rparr>) }"

definition pop_again :: "pstate \<Rightarrow> pickle_out option" where
  "pop_again st = do { s \<leftarrow> PickleStack_PopTopFrame (pi_stack st); Some (Again (st\<lparr>pi_stack := s\<rparr>)) }"

definition set_index :: "addr \<Rightarrow> pstate \<Rightarrow> pstate option" where
  "set_index v st = do { s \<leftarrow> Seen_SetIndex v (int (ob_pos (pi_buffer st))) (pi_seen st); Some (st\<lparr>pi_seen := s\<rparr>) }"

definition sited :: "penv \<Rightarrow> pstate \<Rightarrow> pickle_out option" where
  "sited pe st = Some (Ret RAISE (st\<lparr>pi_data := pe_Sited pe\<rparr>))"

text \<open>Back from the arguments of the block \<open>v\<close>.\<close>

definition pickle_back :: "penv \<Rightarrow> pheap \<Rightarrow> addr \<Rightarrow> pstate \<Rightarrow> pickle_out option" where
  "pickle_back pe h v st = do {
     var \<leftarrow> Seen_GetVarNo v (pi_seen st);
     ob \<leftarrow> ph_objs h v;
     case ob of PChunk m bs \<Rightarrow> None
     | PBlock l m ws \<Rightarrow> do {
         let size = length ws;
         if var \<noteq> 0 then do {
           st1 \<leftarrow> emit pe FULFILL [word_of_nat var] st;
           st2 \<leftarrow> SimulatePop (int size - 1) st1;
           pop_again st2 }
         else if l = UNIQUESTRING_NO then do {
           st1 \<leftarrow> emit pe UNIQUE [] st;
           st2 \<leftarrow> set_index v st1;
           pop_again st2 }
         else if l = CONCRETE_NO then do {
           st1 \<leftarrow> emit pe TRANSFORM [] st;
           st2 \<leftarrow> SimulatePop 1 st1;
           st3 \<leftarrow> set_index v st2;
           pop_again st3 }
         else if l = CLOSURE_NO then do {
           st1 \<leftarrow> emit pe CLOSURE [word_of_nat size] st;
           st2 \<leftarrow> SimulatePop (int size - 1) st1;
           st3 \<leftarrow> set_index v st2;
           pop_again st3 }
         else if l = TUPLE_NO then do {
           st1 \<leftarrow> emit pe TUPLE [word_of_nat size] st;
           st2 \<leftarrow> SimulatePop (int size - 1) st1;
           st3 \<leftarrow> set_index v st2;
           pop_again st3 }
         else do {
           st1 \<leftarrow> emit pe (if m then MBLOCK else BLOCK) [word_of_nat l, word_of_nat size] st;
           st2 \<leftarrow> SimulatePop (int size - 1) st1;
           st3 \<leftarrow> set_index v st2;
           pop_again st3 } } }"

text \<open>\<^verbatim>\<open>PutLocal\<close>, with the number of the variable noted for \<open>v\<close>.\<close>

definition new_local :: "penv \<Rightarrow> addr \<Rightarrow> nat \<Rightarrow> pstate \<Rightarrow> pstate option" where
  "new_local pe v ref st = do {
     (ann, ob) \<leftarrow> PutLocal (pe_bj pe) (pe_lj pe) ref (pi_buffer st);
     s \<leftarrow> Seen_SetVarNo v ann (pi_seen st);
     Some (st\<lparr>pi_buffer := ob, pi_seen := s\<rparr>) }"

definition pickle_announce :: "penv \<Rightarrow> pheap \<Rightarrow> addr \<Rightarrow> pstate \<Rightarrow> pstate option" where
  "pickle_announce pe h v st = do {
     ob \<leftarrow> ph_objs h v;
     case ob of PChunk m bs \<Rightarrow> None
     | PBlock l m ws \<Rightarrow> do {
         let size = word_of_nat (length ws);
         st1 \<leftarrow> (if l = CONCRETE_NO then emit pe aTRANSFORM [] st
                 else if l = CLOSURE_NO then emit pe aCLOSURE [size] st
                 else if l = TUPLE_NO then emit pe aTUPLE [size] st
                 else emit pe (if m then aMBLOCK else aBLOCK) [word_of_nat l, size] st);
         st2 \<leftarrow> new_local pe v 0 st1;
         Some (SimulatePush st2) } }"

text \<open>A block that has been seen: on the way (\<^verbatim>\<open>NOT_WRITTEN\<close>) or written.\<close>

definition pickle_known :: "penv \<Rightarrow> pheap \<Rightarrow> addr \<Rightarrow> int \<Rightarrow> pstate \<Rightarrow> pickle_out option" where
  "pickle_known pe h v ref st = do {
     vn \<leftarrow> Seen_GetVarNo v (pi_seen st);
     st1 \<leftarrow>
       (if ref = NOT_WRITTEN then
          (if vn > 0 then do {
             st1 \<leftarrow> emit pe LOAD [word_of_nat vn] st;
             Some (SimulatePush st1) }
           else pickle_announce pe h v st)
        else do {
          st1 \<leftarrow> emit pe LOAD [] st;
          let st2 = SimulatePush st1;
          if vn > 0 then do {
            ob \<leftarrow> put_uints pe [word_of_nat vn] (pi_buffer st2);
            Some (st2\<lparr>pi_buffer := ob\<rparr>) }
          else new_local pe v (nat ref) st2 });
     pop_again st1 }"

text \<open>A new block: note it and push what it refers to, or write a chunk.\<close>

definition visit :: "addr \<Rightarrow> store_word list \<Rightarrow> pstate \<Rightarrow> pickle_out option" where
  "visit v ws st = do {
     s \<leftarrow> PickleStack_SetBack (pi_stack st);
     Some (Again (st\<lparr>pi_seen := Seen_Add v NOT_WRITTEN (pi_seen st), pi_stack := fold PickleStack_Push ws s\<rparr>)) }"

definition pickle_new :: "penv \<Rightarrow> pheap \<Rightarrow> addr \<Rightarrow> pstate \<Rightarrow> pickle_out option" where
  "pickle_new pe h v st = do {
     ob \<leftarrow> ph_objs h v;
     case ob of
       PChunk m bs \<Rightarrow> do {
         st1 \<leftarrow> emit pe (if m then MCHUNK else CHUNK) [word_of_nat (length bs)] st;
         ob \<leftarrow> OutputBuffer_PutBytes (pe_bj pe) bs (pi_buffer st1);
         let st2 = st1\<lparr>pi_buffer := ob, pi_seen := Seen_Add v (int (ob_pos ob)) (pi_seen st1)\<rparr>;
         pop_again (SimulatePush st2) }
     | PBlock l m ws \<Rightarrow>
         if l \<in> set sited_labels then sited pe st
         else if l = UNIQUESTRING_NO then do { w \<leftarrow> Block_GetArg ws 0; visit v [w] st }
         else if l = CONCRETE_NO then
           (case pe_abstract pe ws of
              None \<Rightarrow> do {
                s \<leftarrow> PickleStack_SetBack (pi_stack st);
                sited pe (st\<lparr>pi_stack := s, pi_seen := Seen_Add v NOT_WRITTEN (pi_seen st)\<rparr>) }
            | Some ablock \<Rightarrow> do {
                tr \<leftarrow> ph_objs h ablock;
                case tr of PChunk m bs \<Rightarrow> None
                | PBlock tlab tm ts \<Rightarrow> do {
                    Assert (tlab = TRANSFORM_NO);
                    name \<leftarrow> Block_GetArg ts 0;
                    arg \<leftarrow> Block_GetArg ts 1;
                    s \<leftarrow> PickleStack_SetBack (pi_stack st);
                    let seen = Seen_Add ablock NOT_WRITTEN (Seen_Add v NOT_WRITTEN (pi_seen st));
                    Some (Again (st\<lparr>pi_seen := seen, pi_stack := PickleStack_Push arg (PickleStack_Push name s)\<rparr>)) } })
         else if l = TRANSFORM_NO then sited pe st
         else visit v ws st }"

text \<open>One round of the loop.\<close>

definition pickle_round :: "penv \<Rightarrow> pheap \<Rightarrow> pstate \<Rightarrow> pickle_out option" where
  "pickle_round pe h st = (case pi_stack st of
     [] \<Rightarrow> do {
       Assert (pi_tasks st \<noteq> []);
       Some (Ret (if pe_status pe then PREEMPT else CONTINUE) (st\<lparr>pi_tasks := tl (pi_tasks st)\<rparr>)) }
   | (x0, back) # rest \<Rightarrow>
       if back then do {
         b \<leftarrow> WordToBlock (ph_trans h) x0;
         v \<leftarrow> b;
         pickle_back pe h v st }
       else do {
         t \<leftarrow> WordToTransient (ph_trans h) x0;
         case t of Some a \<Rightarrow> Some (Ret REQUEST (st\<lparr>pi_found := True, pi_data := x0\<rparr>))
         | None \<Rightarrow> do {
             n \<leftarrow> WordToInt (ph_trans h) x0;
             case n of
               Some i \<Rightarrow> do {
                 st1 \<leftarrow> (if i \<ge> 0 then emit pe POSINT [word_of_int i] st else emit pe NEGINT [word_of_int (- (i + 1))] st);
                 pop_again (SimulatePush st1) }
             | None \<Rightarrow> do {
                 b \<leftarrow> WordToBlock (ph_trans h) x0;
                 v \<leftarrow> b;
                 let ref = Seen_Find v (pi_seen st);
                 if ref \<noteq> NOT_FOUND then pickle_known pe h v ref st else pickle_new pe h v st } } })"

partial_function (option) PickleWorker_Run :: "penv \<Rightarrow> pheap \<Rightarrow> pstate \<Rightarrow> (worker_result \<times> pstate) option" where
  "PickleWorker_Run pe h st = Option.bind (pickle_round pe h st) (\<lambda>r.
     case r of Again st1 \<Rightarrow> PickleWorker_Run pe h st1 | Ret w st1 \<Rightarrow> Some (w, st1))"

declare PickleWorker_Run.simps [code]

section \<open>Writing the pickle\<close>

definition magic :: bytes where "magic = [0x73, 0x65, 0x61, 0x6D]"

text \<open>The bytes from \<open>a\<close> to \<open>b\<close> of the buffer.\<close>

definition put_range :: "byte_junk \<Rightarrow> bytes \<Rightarrow> nat \<Rightarrow> nat \<Rightarrow> ostream \<Rightarrow> ostream option" where
  "put_range bj ibf a b os = do { Assert (a \<le> b \<and> b \<le> length ibf); OutputStream_PutBytes bj (take (b - a) (drop a ibf)) os }"

fun write_stores :: "byte_junk \<Rightarrow> bytes \<Rightarrow> (nat \<times> nat) list \<Rightarrow> nat \<Rightarrow> ostream \<Rightarrow> (nat \<times> ostream) option" where
  "write_stores bj ibf [] curPos os = Some (curPos, os)"
| "write_stores bj ibf ((nextLoc, nextVar) # ls) curPos os =
     (if nextLoc > 0 then do {
        Assert (nextLoc > curPos);
        os1 \<leftarrow> put_range bj ibf curPos nextLoc os;
        os2 \<leftarrow> OutputStream_PutByte bj (tag_byte STORE) os1;
        os3 \<leftarrow> OutputStream_PutUInt bj (word_of_nat nextVar) os2;
        write_stores bj ibf ls nextLoc os3 }
      else write_stores bj ibf ls curPos os)"

definition WriteToStream :: "byte_junk \<Rightarrow> pstate \<Rightarrow> pstate option" where
  "WriteToStream bj st = do {
     let c = ob_buffer (pi_buffer st);
     (vars, ob) \<leftarrow> GetLocals (pi_buffer st);
     let pos = ob_pos ob;
     let noOfLoc = ob_count ob;
     os1 \<leftarrow> OutputStream_PutBytes bj magic (pi_stream st);
     os2 \<leftarrow> OutputStream_PutUInt bj majorVersion os1;
     os3 \<leftarrow> OutputStream_PutUInt bj minorVersion os2;
     os4 \<leftarrow> OutputStream_PutByte bj (tag_byte INIT) os3;
     os5 \<leftarrow> OutputStream_PutUInt bj (word_of_int (pi_max st)) os4;
     os6 \<leftarrow> OutputStream_PutUInt bj (word_of_nat (noOfLoc + 1)) os5;
     Assert (noOfLoc < length vars);
     (curPos, os7) \<leftarrow> write_stores bj c (take noOfLoc (drop 1 vars)) 0 os6;
     os8 \<leftarrow> put_range bj c curPos pos os7;
     os9 \<leftarrow> OutputStream_PutByte bj (tag_byte STORE) os8;
     os10 \<leftarrow> OutputStream_PutUInt bj 0 os9;
     os11 \<leftarrow> OutputStream_PutByte bj (tag_byte ENDOFSTREAM) os10;
     Some (st\<lparr>pi_buffer := ob, pi_stream := os11\<rparr>) }"

text \<open>A transient was found: start again.\<close>

definition pickle_again :: "pstate \<Rightarrow> (worker_result \<times> pstate) option" where
  "pickle_again st = do {
     st1 \<leftarrow> PickleArgs_Reset st;
     Some (CONTINUE, st1\<lparr>pi_tasks := PickleTask # pi_tasks st1\<rparr>) }"

text \<open>The result of saving is the file; that of packing is the string, in the data register here.\<close>

definition PickleSaveWorker_Run :: "penv \<Rightarrow> pstate \<Rightarrow> (worker_result \<times> pstate) option" where
  "PickleSaveWorker_Run pe st =
     (if pi_found st then pickle_again st
      else do {
        st1 \<leftarrow> WriteToStream (pe_bj pe) st;
        Some (CONTINUE, st1\<lparr>pi_tasks := tl (pi_tasks st1)\<rparr>) })"

definition PicklePackWorker_Run :: "penv \<Rightarrow> pstate \<Rightarrow> ((worker_result \<times> pstate) \<times> (bytes \<times> nat) option) option" where
  "PicklePackWorker_Run pe st =
     (if pi_found st then map_option (\<lambda>r. (r, None)) (pickle_again st)
      else do {
        st1 \<leftarrow> WriteToStream (pe_bj pe) st;
        s \<leftarrow> (case pi_stream st1 of STRING_OUTPUT_STREAM so \<Rightarrow> StringOutputStream_Close so | _ \<Rightarrow> None);
        Some ((CONTINUE, st1\<lparr>pi_tasks := tl (pi_tasks st1)\<rparr>), Some s) })"

definition Pickler_Pack :: "penv \<Rightarrow> store_word \<Rightarrow> store_word \<Rightarrow> pstate option" where
  "Pickler_Pack pe x data = do {
     os \<leftarrow> StringOutputStream_New (pe_bj pe);
     PickleArgs_New pe os x [PickleTask, PicklePackTask] data }"

text \<open>\<^verbatim>\<open>Pickler::Save\<close>: the file could be opened or not.\<close>

definition Pickler_Save :: "penv \<Rightarrow> bool \<Rightarrow> store_word \<Rightarrow> store_word \<Rightarrow> (worker_result \<times> pstate option \<times> store_word) option" where
  "Pickler_Save pe opened x data =
     (if \<not> opened then Some (RAISE, None, pe_IOError pe)
      else do {
        st \<leftarrow> PickleArgs_New pe (FILE_OUTPUT_STREAM []) x [PickleTask, PickleSaveTask] data;
        Some (CONTINUE, Some st, data) })"

end
