(* ===== verification/Unpickler.thy ===== *)
theory Unpickler
  imports Pickler
begin

text \<open>
  The unpickler: \<^verbatim>\<open>seam/generic/Unpickler.cc\<close>. A pickle is a program for a stack machine. \<^verbatim>\<open>PickleCheckWorker\<close> reads the
  header, \<^verbatim>\<open>UnpickleWorker\<close> runs the program on a frame with local variables and a stack, \<^verbatim>\<open>InputWorker\<close> refills the
  buffer of the stream, \<^verbatim>\<open>TransformWorker\<close> applies the handler of a transform when its language layer has been loaded, and
  \<^verbatim>\<open>PickleLoadWorker\<close> returns the result.

  The frames of these workers are the list \<open>u_tasks\<close>; the contents of the frame of \<^verbatim>\<open>UnpickleWorker\<close> are \<open>u_frame\<close>. The
  handlers of transforms and \<^verbatim>\<open>Broker::Load\<close>, which loads a library of the operating system, are parameters. A frame has
  the layout of the checked build, with three words before the local variables.
\<close>

section \<open>The frame\<close>

record uframe =
  uf_size :: nat
  uf_top :: nat
  uf_locals :: nat
  uf_args :: "store_word list"

definition UF_SIZE :: nat where "UF_SIZE = 3"

definition UnpickleFrame_New :: "nat \<Rightarrow> nat \<Rightarrow> uframe" where
  "UnpickleFrame_New stackSize locals =
     \<lparr>uf_size = 1 + (UF_SIZE + stackSize + locals), uf_top = UF_SIZE + locals, uf_locals = locals,
      uf_args = replicate (stackSize + locals) (IntW 0)\<rparr>"

definition uf_get :: "nat \<Rightarrow> uframe \<Rightarrow> store_word option" where
  "uf_get i f = do { Assert (i \<ge> UF_SIZE); Block_GetArg (uf_args f) (i - UF_SIZE) }"

definition uf_set :: "nat \<Rightarrow> store_word \<Rightarrow> uframe \<Rightarrow> uframe option" where
  "uf_set i v f = do { Assert (i \<ge> UF_SIZE); a \<leftarrow> Block_SetArg (uf_args f) (i - UF_SIZE) v; Some (f\<lparr>uf_args := a\<rparr>) }"

definition uf_Push :: "store_word \<Rightarrow> uframe \<Rightarrow> uframe option" where
  "uf_Push v f = do {
     Assert (uf_top f \<ge> uf_locals f);
     Assert (uf_top f < uf_size f);
     f1 \<leftarrow> uf_set (uf_top f) v f;
     Some (f1\<lparr>uf_top := uf_top f + 1\<rparr>) }"

definition uf_Pop :: "uframe \<Rightarrow> (store_word \<times> uframe) option" where
  "uf_Pop f = do {
     Assert (uf_top f > uf_locals f);
     v \<leftarrow> uf_get (uf_top f - 1) f;
     Some (v, f\<lparr>uf_top := uf_top f - 1\<rparr>) }"

definition uf_Top :: "uframe \<Rightarrow> store_word option" where
  "uf_Top f = do { Assert (uf_top f > uf_locals f); uf_get (uf_top f - 1) f }"

definition uf_Store :: "tstore \<Rightarrow> nat \<Rightarrow> store_word \<Rightarrow> uframe \<Rightarrow> uframe option" where
  "uf_Store T i v f = do {
     Assert (i < uf_locals f);
     old \<leftarrow> uf_get (UF_SIZE + i) f;
     n \<leftarrow> WordToInt T old;
     Assert (n = Some 0);
     uf_set (UF_SIZE + i) v f }"

definition uf_Load :: "tstore \<Rightarrow> nat \<Rightarrow> uframe \<Rightarrow> store_word option" where
  "uf_Load T i f = do {
     Assert (i < uf_locals f);
     v \<leftarrow> uf_get (UF_SIZE + i) f;
     n \<leftarrow> WordToInt T v;
     Assert (i = 0 \<or> n = None);
     Some v }"

definition uf_PushStore :: "tstore \<Rightarrow> nat \<Rightarrow> store_word \<Rightarrow> uframe \<Rightarrow> uframe option" where
  "uf_PushStore T i v f = do { f1 \<leftarrow> uf_Store T i v f; uf_Push v f1 }"

section \<open>The state of the workers\<close>

datatype utask = CheckTask | InputTask | LoadTask | UnpickleTask | TransformTask addr bytes store_word

record ustate =
  u_heap :: pheap
  u_stream :: istream
  u_result :: store_word
  u_frame :: uframe
  u_tasks :: "utask list"
  u_data :: store_word

type_synonym handler = "store_word \<Rightarrow> pheap \<Rightarrow> (store_word \<times> pheap) option"

record uenv =
  ue_junk :: junk
  ue_bj :: byte_junk
  ue_handlers :: "bytes \<Rightarrow> handler option"
  ue_broker :: "bytes \<Rightarrow> ustate \<Rightarrow> ustate option"
  ue_status :: "ustate \<Rightarrow> bool"
  ue_Corrupt :: store_word
  ue_IOError :: store_word
  ue_hash :: "bytes \<Rightarrow> int"

definition new_obj :: "pobj \<Rightarrow> pheap \<Rightarrow> addr \<times> pheap" where
  "new_obj ob h = (ph_next h, h\<lparr>ph_objs := (ph_objs h)(ph_next h \<mapsto> ob), ph_next := Suc (ph_next h)\<rparr>)"

definition Future_New :: "pheap \<Rightarrow> addr \<times> pheap" where
  "Future_New h =
     (ph_next h, h\<lparr>ph_trans := (ph_trans h)(ph_next h \<mapsto> FutureT None), ph_next := Suc (wait_queue (ph_next h))\<rparr>)"

text \<open>The bytes of a string.\<close>

definition String_FromWordDirect :: "pheap \<Rightarrow> store_word \<Rightarrow> bytes option" where
  "String_FromWordDirect h w = (case w of BlkW a \<Rightarrow> (case ph_objs h a of Some (PChunk m bs) \<Rightarrow> Some bs | _ \<Rightarrow> None) | _ \<Rightarrow> None)"

definition UniqueString_New :: "(bytes \<Rightarrow> int) \<Rightarrow> store_word \<Rightarrow> pheap \<Rightarrow> (store_word \<times> pheap) option" where
  "UniqueString_New hash key h = do {
     bs \<leftarrow> String_FromWordDirect h key;
     case ph_unique h bs of Some a \<Rightarrow> Some (BlkW a, h)
     | None \<Rightarrow> (let (a, h1) = new_obj (PBlock UNIQUESTRING_NO False [key, IntW (hash bs)]) h
                in Some (BlkW a, h1\<lparr>ph_unique := (ph_unique h1)(bs \<mapsto> a)\<rparr>)) }"

section \<open>Transforms\<close>

text \<open>The prefix of the name up to the first dot.\<close>

fun language_id :: "bytes \<Rightarrow> bytes option" where
  "language_id [] = None"
| "language_id (c # cs) = (if c = 0x2E then Some [] else map_option ((#) c) (language_id cs))"

definition ApplyTransform :: "uenv \<Rightarrow> bytes \<Rightarrow> store_word \<Rightarrow> addr \<Rightarrow> ustate \<Rightarrow> (bool \<times> store_word \<times> ustate) option" where
  "ApplyTransform ue name argument f st = (case ue_handlers ue name of
     Some handler \<Rightarrow> do {
       (w, h) \<leftarrow> handler argument (u_heap st);
       Some (False, w, st\<lparr>u_heap := h\<rparr>) }
   | None \<Rightarrow> do {
       lang \<leftarrow> language_id name;
       st1 \<leftarrow> ue_broker ue lang (st\<lparr>u_tasks := TransformTask f name argument # u_tasks st\<rparr>);
       Some (True, TrW f, st1) })"

definition TransformWorker_Run :: "uenv \<Rightarrow> addr \<Rightarrow> bytes \<Rightarrow> store_word \<Rightarrow> ustate \<Rightarrow> (worker_result \<times> ustate) option" where
  "TransformWorker_Run ue f name argument st = (case ue_handlers ue name of
     Some handler \<Rightarrow> do {
       (w, h) \<leftarrow> handler argument (u_heap st);
       T \<leftarrow> Become (ph_trans h) f RefT w;
       let st1 = st\<lparr>u_heap := h\<lparr>ph_trans := T\<rparr>, u_tasks := tl (u_tasks st)\<rparr>;
       Some (if ue_status ue st1 then PREEMPT else CONTINUE, st1) }
   | None \<Rightarrow> Some (RAISE, st\<lparr>u_data := ue_Corrupt ue\<rparr>))"

section \<open>StoreAbstraction\<close>

text \<open>Pop the arguments of a block, the first one from the top.\<close>

fun pop_args :: "nat \<Rightarrow> nat \<Rightarrow> store_word list \<Rightarrow> uframe \<Rightarrow> (store_word list \<times> uframe) option" where
  "pop_args i 0 ws f = Some (ws, f)"
| "pop_args i (Suc n) ws f = do {
     (v, f1) \<leftarrow> uf_Pop f;
     ws1 \<leftarrow> Block_SetArg ws i v;
     pop_args (Suc i) n ws1 f1 }"

text \<open>A new block of the given size, with any contents.\<close>

definition raw_block :: "uenv \<Rightarrow> nat \<Rightarrow> bool \<Rightarrow> nat \<Rightarrow> pobj option" where
  "raw_block ue label mutable sz = do {
     Assert (label \<le> MAX_STORE_LABEL);
     ws \<leftarrow> alloc_array (ue_junk ue) sz;
     Some (PBlock label mutable ws) }"

text \<open>A new closure, whose code will be replaced: the first word is the integer 0.\<close>

definition raw_closure :: "uenv \<Rightarrow> nat \<Rightarrow> pobj option" where
  "raw_closure ue sz = do {
     Assert (sz > 0);
     ws \<leftarrow> alloc_array (ue_junk ue) sz;
     ws1 \<leftarrow> Block_SetArg ws 0 (IntW 0);
     Some (PBlock CLOSURE_NO True ws1) }"

definition fill_block :: "addr \<Rightarrow> nat \<Rightarrow> ustate \<Rightarrow> ustate option" where
  "fill_block a sz st = do {
     ob \<leftarrow> ph_objs (u_heap st) a;
     case ob of PChunk m bs \<Rightarrow> None
     | PBlock l m ws \<Rightarrow> do {
         (ws1, f) \<leftarrow> pop_args 0 sz ws (u_frame st);
         Some (st\<lparr>u_frame := f, u_heap := (u_heap st)\<lparr>ph_objs := (ph_objs (u_heap st))(a \<mapsto> PBlock l m ws1)\<rparr>\<rparr>) } }"

definition AllocBlock :: "uenv \<Rightarrow> nat \<Rightarrow> nat \<Rightarrow> bool \<Rightarrow> ustate \<Rightarrow> (bool \<times> store_word \<times> ustate) option" where
  "AllocBlock ue label sz allocMutable st =
     (if label = TRANSFORM_NO then do {
        Assert (sz = 2);
        (w, f1) \<leftarrow> uf_Pop (u_frame st);
        name \<leftarrow> String_FromWordDirect (u_heap st) w;
        (argument, f2) \<leftarrow> uf_Pop f1;
        let (f, h) = Future_New (u_heap st);
        ApplyTransform ue name argument f (st\<lparr>u_frame := f2, u_heap := h\<rparr>) }
      else do {
        ob \<leftarrow> (if label = CLOSURE_NO then raw_closure ue sz else raw_block ue label allocMutable sz);
        let (a, h) = new_obj ob (u_heap st);
        st1 \<leftarrow> fill_block a sz (st\<lparr>u_heap := h\<rparr>);
        Some (False, BlkW a, st1) })"

definition AnnounceBlock :: "uenv \<Rightarrow> nat \<Rightarrow> nat \<Rightarrow> bool \<Rightarrow> ustate \<Rightarrow> (store_word \<times> ustate) option" where
  "AnnounceBlock ue label sz allocMutable st =
     (if label = TRANSFORM_NO then (let (f, h) = Future_New (u_heap st) in Some (TrW f, st\<lparr>u_heap := h\<rparr>))
      else do {
        ob \<leftarrow> (if label = CLOSURE_NO then raw_closure ue sz else raw_block ue label allocMutable sz);
        let (a, h) = new_obj ob (u_heap st);
        Some (BlkW a, st\<lparr>u_heap := h\<rparr>) })"

definition MakeFulfilledBlock :: "uenv \<Rightarrow> store_word \<Rightarrow> ustate \<Rightarrow> (bool \<times> store_word \<times> ustate) option" where
  "MakeFulfilledBlock ue future st = do {
     t \<leftarrow> WordToTransient (ph_trans (u_heap st)) future;
     case t of
       None \<Rightarrow> do {
         a \<leftarrow> (case future of BlkW a \<Rightarrow> Some a | _ \<Rightarrow> None);
         ob \<leftarrow> ph_objs (u_heap st) a;
         case ob of PChunk m bs \<Rightarrow> None
         | PBlock l m ws \<Rightarrow> do {
             st1 \<leftarrow> fill_block a (length ws) st;
             Some (False, BlkW a, st1) } }
     | Some _ \<Rightarrow> do {
         f \<leftarrow> (case future of TrW f \<Rightarrow> Some f | _ \<Rightarrow> None);
         (argument, f1) \<leftarrow> uf_Pop (u_frame st);
         (w, f2) \<leftarrow> uf_Pop f1;
         name \<leftarrow> String_FromWordDirect (u_heap st) w;
         ApplyTransform ue name argument f (st\<lparr>u_frame := f2\<rparr>) } }"

section \<open>UnpickleWorker\<close>

datatype unpickle_out = UAgain ustate | URet worker_result ustate

definition corrupt :: "uenv \<Rightarrow> ustate \<Rightarrow> unpickle_out option" where
  "corrupt ue st = Some (URet RAISE (st\<lparr>u_data := ue_Corrupt ue\<rparr>))"

text \<open>\<^verbatim>\<open>NCHECK_EOB\<close> after a read; the read goes on with the rest otherwise.\<close>

definition read_uint :: "ustate \<Rightarrow> (u_int \<Rightarrow> ustate \<Rightarrow> unpickle_out option) \<Rightarrow> unpickle_out option" where
  "read_uint st k = do {
     (v, s) \<leftarrow> GetUInt (u_stream st);
     if is_eob s then Some (URet CONTINUE (st\<lparr>u_stream := s, u_tasks := InputTask # u_tasks st\<rparr>))
     else k v (st\<lparr>u_stream := s\<rparr>) }"

definition read_byte :: "ustate \<Rightarrow> (u_char \<Rightarrow> ustate \<Rightarrow> unpickle_out option) \<Rightarrow> unpickle_out option" where
  "read_byte st k = do {
     (v, s) \<leftarrow> GetByte (u_stream st);
     if is_eob s then Some (URet CONTINUE (st\<lparr>u_stream := s, u_tasks := InputTask # u_tasks st\<rparr>))
     else k v (st\<lparr>u_stream := s\<rparr>) }"

definition read_bytes :: "nat \<Rightarrow> ustate \<Rightarrow> (bytes \<Rightarrow> ustate \<Rightarrow> unpickle_out option) \<Rightarrow> unpickle_out option" where
  "read_bytes n st k =
     (let (v, s) = GetBytes n (u_stream st) in
      if is_eob s then Some (URet CONTINUE (st\<lparr>u_stream := s, u_tasks := InputTask # u_tasks st\<rparr>))
      else k v (st\<lparr>u_stream := s\<rparr>))"

definition u_commit :: "ustate \<Rightarrow> ustate" where
  "u_commit st = st\<lparr>u_stream := Commit (u_stream st)\<rparr>"

text \<open>The end of a round: the status word and a transform that has to be waited for.\<close>

definition end_round :: "uenv \<Rightarrow> bool \<Rightarrow> ustate \<Rightarrow> unpickle_out option" where
  "end_round ue mustContinue st =
     Some (if ue_status ue st then URet PREEMPT st else if mustContinue then URet CONTINUE st else UAgain st)"

definition push_round :: "uenv \<Rightarrow> bool \<Rightarrow> store_word \<Rightarrow> ustate \<Rightarrow> unpickle_out option" where
  "push_round ue mustContinue w st = do {
     f \<leftarrow> uf_Push w (u_frame st);
     end_round ue mustContinue (st\<lparr>u_frame := f\<rparr>) }"

definition u_chunk :: "uenv \<Rightarrow> bool \<Rightarrow> ustate \<Rightarrow> unpickle_out option" where
  "u_chunk ue mutable st =
     read_uint st (\<lambda>size st. read_bytes (unat size) st (\<lambda>bytes st. do {
       let st = u_commit st;
       y \<leftarrow> String_New (ue_bj ue) (unat size);
       y1 \<leftarrow> copy_words y 0 bytes 0 (unat size);
       let (a, h) = new_obj (PChunk mutable y1) (u_heap st);
       push_round ue False (BlkW a) (st\<lparr>u_heap := h\<rparr>) }))"

definition u_build :: "uenv \<Rightarrow> nat \<Rightarrow> nat \<Rightarrow> bool \<Rightarrow> ustate \<Rightarrow> unpickle_out option" where
  "u_build ue label sz allocMutable st = do {
     (must, w, st1) \<leftarrow> AllocBlock ue label sz allocMutable (u_commit st);
     push_round ue must w st1 }"

definition u_announce :: "uenv \<Rightarrow> nat \<Rightarrow> nat \<Rightarrow> bool \<Rightarrow> nat \<Rightarrow> ustate \<Rightarrow> unpickle_out option" where
  "u_announce ue label sz allocMutable addr st = do {
     (w, st1) \<leftarrow> AnnounceBlock ue label sz allocMutable (u_commit st);
     f \<leftarrow> uf_PushStore (ph_trans (u_heap st1)) addr w (u_frame st1);
     end_round ue False (st1\<lparr>u_frame := f\<rparr>) }"

text \<open>\<^verbatim>\<open>addr > MAX_VALID_INT\<close>, a comparison of unsigned integers.\<close>

definition too_big :: "u_int \<Rightarrow> bool" where
  "too_big y \<longleftrightarrow> y > word_of_int MAX_VALID_INT"

definition unpickle_round :: "uenv \<Rightarrow> ustate \<Rightarrow> unpickle_out option" where
  "unpickle_round ue st = read_byte st (\<lambda>tag st. case byte_tag tag of
     None \<Rightarrow> corrupt ue st
   | Some t \<Rightarrow> (case t of
       INIT \<Rightarrow> corrupt ue st
     | STORE \<Rightarrow> read_uint st (\<lambda>addr st. let st = u_commit st in
         if too_big addr then corrupt ue st
         else do {
           w \<leftarrow> uf_Top (u_frame st);
           f \<leftarrow> uf_Store (ph_trans (u_heap st)) (unat addr) w (u_frame st);
           end_round ue False (st\<lparr>u_frame := f\<rparr>) })
     | LOAD \<Rightarrow> read_uint st (\<lambda>addr st. let st = u_commit st in
         if too_big addr then corrupt ue st
         else do {
           w \<leftarrow> uf_Load (ph_trans (u_heap st)) (unat addr) (u_frame st);
           push_round ue False w st })
     | POSINT \<Rightarrow> read_uint st (\<lambda>y st. let st = u_commit st in
         if too_big y then corrupt ue st else push_round ue False (IntW (sint y)) st)
     | NEGINT \<Rightarrow> read_uint st (\<lambda>y st. let st = u_commit st in
         if too_big y then corrupt ue st else push_round ue False (IntW (sint (- (y + 1)))) st)
     | CHUNK \<Rightarrow> u_chunk ue False st
     | MCHUNK \<Rightarrow> u_chunk ue True st
     | UNIQUE \<Rightarrow> do {
         let st = u_commit st;
         (top, f) \<leftarrow> uf_Pop (u_frame st);
         (w, h) \<leftarrow> UniqueString_New (ue_hash ue) top (u_heap st);
         push_round ue False w (st\<lparr>u_frame := f, u_heap := h\<rparr>) }
     | MBLOCK \<Rightarrow> read_uint st (\<lambda>label st. read_uint st (\<lambda>size st. u_build ue (unat label) (unat size) True st))
     | BLOCK \<Rightarrow> read_uint st (\<lambda>label st. read_uint st (\<lambda>size st. u_build ue (unat label) (unat size) False st))
     | TUPLE \<Rightarrow> read_uint st (\<lambda>size st. u_build ue TUPLE_NO (unat size) False st)
     | CLOSURE \<Rightarrow> read_uint st (\<lambda>size st. u_build ue CLOSURE_NO (unat size) False st)
     | TRANSFORM \<Rightarrow> u_build ue TRANSFORM_NO 2 False st
     | aBLOCK \<Rightarrow> read_uint st (\<lambda>label st. read_uint st (\<lambda>size st. read_uint st (\<lambda>addr st.
         u_announce ue (unat label) (unat size) False (unat addr) st)))
     | aMBLOCK \<Rightarrow> read_uint st (\<lambda>label st. read_uint st (\<lambda>size st. read_uint st (\<lambda>addr st.
         u_announce ue (unat label) (unat size) True (unat addr) st)))
     | aTUPLE \<Rightarrow> read_uint st (\<lambda>size st. read_uint st (\<lambda>addr st. u_announce ue TUPLE_NO (unat size) False (unat addr) st))
     | aCLOSURE \<Rightarrow> read_uint st (\<lambda>size st. read_uint st (\<lambda>addr st. u_announce ue CLOSURE_NO (unat size) False (unat addr) st))
     | aTRANSFORM \<Rightarrow> read_uint st (\<lambda>addr st. u_announce ue TRANSFORM_NO 2 False (unat addr) st)
     | FULFILL \<Rightarrow> read_uint st (\<lambda>addr st. let st = u_commit st in
         if too_big addr then corrupt ue st
         else do {
           future \<leftarrow> uf_Load (ph_trans (u_heap st)) (unat addr) (u_frame st);
           (must, w, st1) \<leftarrow> MakeFulfilledBlock ue future st;
           push_round ue must w st1 })
     | ENDOFSTREAM \<Rightarrow> do {
         w \<leftarrow> uf_Load (ph_trans (u_heap st)) 0 (u_frame st);
         let st1 = st\<lparr>u_result := w, u_tasks := tl (u_tasks st)\<rparr>;
         Some (URet (if ue_status ue st1 then PREEMPT else CONTINUE) st1) }))"

partial_function (option) UnpickleWorker_Run :: "uenv \<Rightarrow> ustate \<Rightarrow> (worker_result \<times> ustate) option" where
  "UnpickleWorker_Run ue st = Option.bind (unpickle_round ue st) (\<lambda>r.
     case r of UAgain st1 \<Rightarrow> UnpickleWorker_Run ue st1 | URet w st1 \<Rightarrow> Some (w, st1))"

declare UnpickleWorker_Run.simps [code]

section \<open>The other workers\<close>

definition InputWorker_Run :: "uenv \<Rightarrow> ustate \<Rightarrow> (worker_result \<times> ustate) option" where
  "InputWorker_Run ue st = do {
     r \<leftarrow> FillBuffer (ue_bj ue) (u_stream st);
     Some (case r of
       Filled s \<Rightarrow> (CONTINUE, st\<lparr>u_stream := s, u_tasks := tl (u_tasks st)\<rparr>)
     | FillIOError s \<Rightarrow> (RAISE, st\<lparr>u_stream := s, u_data := ue_IOError ue\<rparr>)
     | FillCorrupt s \<Rightarrow> (RAISE, st\<lparr>u_stream := s, u_data := ue_Corrupt ue\<rparr>)) }"

definition PickleLoadWorker_Run :: "ustate \<Rightarrow> (worker_result \<times> ustate) option" where
  "PickleLoadWorker_Run st = Some (CONTINUE, st\<lparr>u_tasks := tl (u_tasks st), u_data := u_result st\<rparr>)"

definition check_done :: "uenv \<Rightarrow> nat \<Rightarrow> nat \<Rightarrow> ustate \<Rightarrow> unpickle_out option" where
  "check_done ue stackSize localsSize st =
     Some (URet CONTINUE (st\<lparr>u_tasks := UnpickleTask # LoadTask # tl (u_tasks st), u_frame := UnpickleFrame_New stackSize localsSize\<rparr>))"

text \<open>\<^verbatim>\<open>PickleCheckWorker::Run\<close>.\<close>

definition check_round :: "uenv \<Rightarrow> ustate \<Rightarrow> unpickle_out option" where
  "check_round ue st = read_bytes 4 st (\<lambda>m st.
     if m \<noteq> magic then corrupt ue st
     else read_uint (u_commit st) (\<lambda>major st. let st = u_commit st in
       if major \<noteq> majorVersion then corrupt ue st
       else read_uint st (\<lambda>minor st. let st = u_commit st in
         if \<not> minor \<le> minorVersion then corrupt ue st
         else read_byte st (\<lambda>tag st.
           if byte_tag tag \<noteq> Some INIT then corrupt ue st
           else read_uint (u_commit st) (\<lambda>stackSize st. let st = u_commit st in
             if too_big stackSize then corrupt ue st
             else let (eof, s) = IsEOF (u_stream st); st = st\<lparr>u_stream := s\<rparr> in
               if eof then corrupt ue st
               else read_uint st (\<lambda>localsSize st. let st = u_commit st in
                 if too_big localsSize then corrupt ue st
                 else check_done ue (unat stackSize) (unat localsSize) st))))))"

definition unpack_out :: "unpickle_out option \<Rightarrow> (worker_result \<times> ustate) option" where
  "unpack_out r = do { x \<leftarrow> r; case x of URet w st \<Rightarrow> Some (w, st) | UAgain st \<Rightarrow> None }"

text \<open>The worker of the frame on top.\<close>

definition unpickle_task :: "uenv \<Rightarrow> ustate \<Rightarrow> (worker_result \<times> ustate) option" where
  "unpickle_task ue st = (case u_tasks st of
     [] \<Rightarrow> None
   | t # _ \<Rightarrow> (case t of
       CheckTask \<Rightarrow> unpack_out (check_round ue st)
     | InputTask \<Rightarrow> InputWorker_Run ue st
     | LoadTask \<Rightarrow> PickleLoadWorker_Run st
     | UnpickleTask \<Rightarrow> UnpickleWorker_Run ue st
     | TransformTask f name arg \<Rightarrow> TransformWorker_Run ue f name arg st))"

text \<open>Run the frames of the unpickler until they are gone or one of them raises an exception.\<close>

partial_function (option) unpickle_tasks :: "uenv \<Rightarrow> ustate \<Rightarrow> (worker_result \<times> ustate) option" where
  "unpickle_tasks ue st =
     (if u_tasks st = [] then Some (CONTINUE, st)
      else Option.bind (unpickle_task ue st) (\<lambda>(r, st1).
        if r = CONTINUE \<or> r = PREEMPT then unpickle_tasks ue st1 else Some (r, st1)))"

declare unpickle_tasks.simps [code]

definition Unpickler_Unpack :: "bytes \<Rightarrow> pheap \<Rightarrow> store_word \<Rightarrow> ustate" where
  "Unpickler_Unpack s h data =
     \<lparr>u_heap = h, u_stream = NewFromString s, u_result = IntW 0, u_frame = UnpickleFrame_New 0 0, u_tasks = [CheckTask], u_data = data\<rparr>"

definition Unpickler_Load :: "uenv \<Rightarrow> gzfile option \<Rightarrow> pheap \<Rightarrow> store_word \<Rightarrow> (worker_result \<times> ustate option \<times> store_word) option" where
  "Unpickler_Load ue file h data = (case file of
     None \<Rightarrow> Some (RAISE, None, ue_IOError ue)
   | Some f \<Rightarrow> do {
       s \<leftarrow> NewFromFile (ue_bj ue) f;
       Some (CONTINUE, Some \<lparr>u_heap = h, u_stream = s, u_result = IntW 0, u_frame = UnpickleFrame_New 0 0, u_tasks = [CheckTask], u_data = data\<rparr>, data) })"

end
