(* ===== verification/Stream_Props.thy ===== *)
theory Stream_Props
  imports Unpickler "HOL-Library.Multiset"
begin

text \<open>
  What the byte streams of pickles guarantee: unsigned integers are read as they were written, output streams and the
  output buffer append bytes, and the local variables of a pickle are sorted.
\<close>

section \<open>Unsigned integers\<close>

text \<open>The bytes of an integer: groups of seven bits, the lowest first, all but the last one marked.\<close>

function uint_bytes :: "u_int \<Rightarrow> bytes" where
  "uint_bytes i = (if i \<ge> 0x80 then ucast ((i AND 0x7F) OR 0x80) # uint_bytes (drop_bit 7 i) else [ucast i])"
  by pat_completeness auto
termination by (relation "measure unat") (simp_all add: seven_bits_less)

declare uint_bytes.simps [simp del]

lemma take_bit_self: "take_bit n i = i \<longleftrightarrow> unat (i :: u_int) < 2 ^ n"
  by (metis unsigned_take_bit_eq take_bit_nat_eq_self_iff unsigned_word_eqI)

lemma small_bits: "unat (i :: u_int) < 2 ^ n \<Longrightarrow> bit i m \<Longrightarrow> m < n"
  by (metis take_bit_self bit_take_bit_iff)

lemma CanPickle_iff: "CanPickle i \<longleftrightarrow> unat i < 2 ^ 31"
proof -
  have "(push_bit INT_PRECISION 1 - 1 :: u_int) = mask 31" by (simp add: INT_PRECISION_def mask_eq_exp_minus_1 push_bit_of_1)
  then show ?thesis by (simp only: CanPickle_def take_bit_eq_mask [symmetric] take_bit_self)
qed

lemma bit_limits [simp]: "bit (0x80 :: int) n \<longleftrightarrow> n = 7" "bit (0x7F :: int) n \<longleftrightarrow> n < 7"
  using bit_push_bit_iff [of 7 "1 :: int" n] bit_mask_iff [where 'a = int, of 7 n]
  by (auto simp: push_bit_of_1 bit_1_iff mask_eq_exp_minus_1)

lemma drop7_bound: "unat (i :: u_int) < 2 ^ (n + 7) \<Longrightarrow> unat (drop_bit 7 i) < 2 ^ n"
  unfolding unat_drop_bit_eq by (simp add: drop_bit_eq_div power_add less_mult_imp_div_less)

lemma length_uint_bytes: "unat i < 2 ^ (7 * n) \<Longrightarrow> 0 < n \<Longrightarrow> length (uint_bytes i) \<le> n"
proof (induction n arbitrary: i)
  case (Suc n)
  show ?case
  proof (cases "i \<ge> 0x80")
    case True
    have "128 \<le> unat i" using True by (simp add: word_le_nat_alt)
    then have "n \<noteq> 0" using Suc.prems(1) by (cases n) auto
    moreover have "unat (drop_bit 7 i) < 2 ^ (7 * n)" using Suc.prems(1) by (intro drop7_bound) (simp add: add.commute)
    ultimately show ?thesis using Suc.IH [of "drop_bit 7 i"] True by (simp add: uint_bytes.simps [of i])
  qed (simp add: uint_bytes.simps [of i])
qed simp

lemma uint_bytes_short: "CanPickle i \<Longrightarrow> length (uint_bytes i) \<le> 5"
  by (rule length_uint_bytes) (auto simp: CanPickle_iff elim: less_le_trans)

lemma uint_bytes_nonempty [simp]: "uint_bytes i \<noteq> []" "0 < length (uint_bytes i)"
  by (subst uint_bytes.simps, simp)+

text \<open>The bytes that a stream has not read yet.\<close>

definition is_rest :: "istream \<Rightarrow> bytes" where
  "is_rest s = drop (is_rd s) (take (is_tl s) (is_buffer s))"

definition is_ok :: "istream \<Rightarrow> bool" where
  "is_ok s \<longleftrightarrow> is_hd s \<le> is_rd s \<and> is_rd s \<le> is_tl s \<and> is_tl s \<le> length (is_buffer s) \<and> \<not> is_eob s"

lemma GetByte_rest:
  assumes "is_ok s" and "is_rest s = b # bs"
  shows "GetByte s = Some (b, s\<lparr>is_rd := is_rd s + 1\<rparr>)" "is_ok (s\<lparr>is_rd := is_rd s + 1\<rparr>)" "is_rest (s\<lparr>is_rd := is_rd s + 1\<rparr>) = bs"
proof -
  have l: "is_rd s < is_tl s" "is_tl s \<le> length (is_buffer s)" using assms by (auto simp: is_ok_def is_rest_def intro: ccontr)
  have r: "is_rest s = is_buffer s ! is_rd s # drop (Suc (is_rd s)) (take (is_tl s) (is_buffer s))"
    using l Cons_nth_drop_Suc [of "is_rd s" "take (is_tl s) (is_buffer s)"] by (simp add: is_rest_def)
  show "GetByte s = Some (b, s\<lparr>is_rd := is_rd s + 1\<rparr>)" using l r assms(2) by (simp add: GetByte_def run_simps)
  show "is_ok (s\<lparr>is_rd := is_rd s + 1\<rparr>)" using l assms(1) by (simp add: is_ok_def)
  show "is_rest (s\<lparr>is_rd := is_rd s + 1\<rparr>) = bs" using r assms(2) by (simp add: is_rest_def)
qed

lemma marked_byte:
  fixes i :: u_int
  defines "b \<equiv> (ucast ((i AND 0x7F) OR 0x80) :: u_char)"
  shows "ucast (b AND 0x7F) = i AND 0x7F" "b AND 0x80 \<noteq> 0"
proof -
  show "ucast (b AND 0x7F) = i AND 0x7F" unfolding b_def by (rule bit_word_eqI) (auto simp: bit_simps)
  have "bit (b AND 0x80) 7" unfolding b_def by (simp add: bit_simps)
  then show "b AND 0x80 \<noteq> 0" by auto
qed

lemma last_byte:
  fixes i :: u_int
  assumes "\<not> i \<ge> 0x80"
  defines "b \<equiv> (ucast i :: u_char)"
  shows "ucast (b AND 0x7F) = i" "b AND 0x80 = 0"
proof -
  have i: "bit i n \<Longrightarrow> n < 7" for n using assms(1) small_bits [of i 7 n] by (simp add: not_le word_less_nat_alt)
  show "ucast (b AND 0x7F) = i" unfolding b_def by (rule bit_word_eqI) (auto simp: bit_simps dest: i)
  show "b AND 0x80 = 0" unfolding b_def by (rule bit_word_eqI) (auto simp: bit_simps dest: i)
qed

lemma seven_bits_join: "(v OR push_bit n (i AND 0x7F)) OR push_bit (n + 7) (drop_bit 7 i) = v OR push_bit n (i :: u_int)"
proof (rule bit_word_eqI)
  fix k
  have "n + 7 \<le> k \<Longrightarrow> 7 + (k - (n + 7)) = k - n" by simp
  then show "bit ((v OR push_bit n (i AND 0x7F)) OR push_bit (n + 7) (drop_bit 7 i)) k \<longleftrightarrow> bit (v OR push_bit n i) k" if "k < LENGTH(32)"
    using that by (cases "n + 7 \<le> k") (auto simp: bit_simps)
qed

lemma unat_seven_bits: "unat (i AND 0x7F :: u_int) < 128"
proof -
  have "i AND 0x7F = take_bit 7 i" by (rule bit_word_eqI) (auto simp: bit_simps)
  then show ?thesis using take_bit_nat_less_exp [of 7 "unat i"] by (simp add: unsigned_take_bit_eq)
qed

lemma unat_push_bit_1: "n < 32 \<Longrightarrow> unat (push_bit n 1 :: u_int) = 2 ^ n"
  using unat_of_nat [of "2 ^ n", where 'a = 32] power_strict_increasing [of n 32 "2 :: nat"] by (simp add: push_bit_of_1)

lemma get_uint_rest:
  assumes "is_ok s" and "is_rest s = uint_bytes i @ rest" and "unat i < 2 ^ fb" and "fb < 32"
  shows "\<exists>s'. get_uint (int fb) sh v s = Some (v OR push_bit sh i, s') \<and> is_ok s' \<and> is_rest s' = rest \<and>
    s' = s\<lparr>is_rd := is_rd s + length (uint_bytes i)\<rparr>"
  using assms
proof (induction i arbitrary: s v fb sh rule: uint_bytes.induct)
  case (1 i)
  note pb = unat_push_bit_1 [OF 1(5)]
  show ?case
  proof (cases "i \<ge> 0x80")
    case True
    have "128 \<le> unat i" using True by (simp add: word_le_nat_alt)
    then have fb: "7 \<le> fb" using 1(4) power_increasing [of fb 7 "2 :: nat"] by (intro leI notI) (auto simp: not_le)
    let ?b = "ucast ((i AND 0x7F) OR 0x80) :: u_char"
    have r: "is_rest s = ?b # (uint_bytes (drop_bit 7 i) @ rest)" using 1(3) True by (simp add: uint_bytes.simps [of i])
    note g = GetByte_rest [OF 1(2) r]
    have d: "unat (drop_bit 7 i) < 2 ^ (fb - 7)" "fb - 7 < 32" using 1(4,5) fb by (auto intro: drop7_bound)
    from 1(1) [OF True g(2,3) d, of "sh + 7" "v OR push_bit sh (i AND 0x7F)"]
    obtain s' where s': "get_uint (int (fb - 7)) (sh + 7) (v OR push_bit sh (i AND 0x7F)) (s\<lparr>is_rd := is_rd s + 1\<rparr>) =
        Some ((v OR push_bit sh (i AND 0x7F)) OR push_bit (sh + 7) (drop_bit 7 i), s')"
      "is_ok s'" "is_rest s' = rest" "s' = s\<lparr>is_rd := is_rd s + 1 + length (uint_bytes (drop_bit 7 i))\<rparr>"
      by auto
    have c: "\<not> push_bit fb 1 \<le> i AND 0x7F"
      using unat_seven_bits [of i] pb power_increasing [OF fb, of "2 :: nat"] by (simp add: not_le word_less_nat_alt)
    have "get_uint (int fb) sh v s = get_uint (int fb - 7) (sh + 7) (v OR push_bit sh (i AND 0x7F)) (s\<lparr>is_rd := is_rd s + 1\<rparr>)"
      using g(1) 1(2) c marked_byte [of i] by (subst get_uint.simps) (simp add: is_ok_def Let_def)
    then have "get_uint (int fb) sh v s = Some (v OR push_bit sh i, s')" using s'(1) [unfolded seven_bits_join] fb by (simp add: of_nat_diff)
    then show ?thesis using s'(2-4) True by (simp add: uint_bytes.simps [of i])
  next
    case False
    have r: "is_rest s = ucast i # rest" using 1(3) False by (simp add: uint_bytes.simps [of i])
    note g = GetByte_rest [OF 1(2) r]
    have c: "\<not> push_bit fb 1 \<le> i" using pb 1(4) by (simp add: not_le word_less_nat_alt)
    have "get_uint (int fb) sh v s = Some (v OR push_bit sh i, s\<lparr>is_rd := is_rd s + 1\<rparr>)"
      using g(1) 1(2) c last_byte [OF False] by (subst get_uint.simps) (simp add: is_ok_def Let_def)
    then show ?thesis using g(2,3) False by (simp add: uint_bytes.simps [of i])
  qed
qed

lemma GetUInt_rest:
  assumes "is_ok s" and "is_rest s = uint_bytes i @ rest" and "CanPickle i"
  shows "GetUInt s = Some (i, s\<lparr>is_rd := is_rd s + length (uint_bytes i)\<rparr>)" "is_ok (s\<lparr>is_rd := is_rd s + length (uint_bytes i)\<rparr>)"
    "is_rest (s\<lparr>is_rd := is_rd s + length (uint_bytes i)\<rparr>) = rest"
  using get_uint_rest [OF assms(1,2), of 31 0 0] assms(3) by (auto simp: GetUInt_def INT_PRECISION_def CanPickle_iff)

section \<open>Output streams\<close>

text \<open>What a stream holds, and when it is well formed. Up to the limit every string can be enlarged.\<close>

definition STREAM_LIMIT :: nat where "STREAM_LIMIT = 44739190"

fun os_bytes :: "ostream \<Rightarrow> bytes" where
  "os_bytes (FILE_OUTPUT_STREAM f) = f"
| "os_bytes (STRING_OUTPUT_STREAM st) = take (so_pos st) (so_string st)"

fun os_ok :: "ostream \<Rightarrow> bool" where
  "os_ok (FILE_OUTPUT_STREAM f) \<longleftrightarrow> True"
| "os_ok (STRING_OUTPUT_STREAM st) \<longleftrightarrow> length (so_string st) = so_size st \<and> so_pos st < so_size st \<and> 2 \<le> so_size st"

text \<open>The outcome of writing \<open>bs\<close>: they are appended, or there is no room.\<close>

definition appends :: "ostream \<Rightarrow> bytes \<Rightarrow> ostream option \<Rightarrow> bool" where
  "appends os bs r = (case r of Some os' \<Rightarrow> os_ok os' \<and> os_bytes os' = os_bytes os @ bs
     | None \<Rightarrow> STREAM_LIMIT < length (os_bytes os) + length bs)"

lemma appends_bind:
  assumes "appends os bs r" and "\<And>os'. r = Some os' \<Longrightarrow> os_ok os' \<Longrightarrow> os_bytes os' = os_bytes os @ bs \<Longrightarrow> appends os' cs (k os')"
  shows "appends os (bs @ cs) (Option.bind r k)"
  using assms by (cases r) (auto simp: appends_def split: option.splits)

lemma String_New_room: "n \<le> 67108796 \<Longrightarrow> String_New bj n = Some (map bj [0..<n])"
  by (simp add: String_New_def Assert_def)

lemma Enlarge_room:
  assumes "length (so_string st) = so_size st" and "so_pos st \<le> so_size st" and "so_size st \<le> STREAM_LIMIT" and "2 \<le> so_size st"
  shows "\<exists>st'. StringOutputStream_Enlarge bj st = Some st' \<and> so_size st < so_size st' \<and> length (so_string st') = so_size st' \<and>
    so_pos st' = so_pos st \<and> take (so_pos st) (so_string st') = take (so_pos st) (so_string st)"
  using assms by (auto simp: StringOutputStream_Enlarge_def String_New_room STREAM_LIMIT_def run_simps Let_def)

lemma Enlarge_fields:
  assumes "StringOutputStream_Enlarge bj st = Some st'" and "2 \<le> so_size st"
  shows "so_size st < so_size st' \<and> length (so_string st') = so_size st' \<and> so_pos st' = so_pos st \<and>
    take (so_pos st) (so_string st') = take (so_pos st) (so_string st) \<and> so_pos st \<le> length (so_string st)"
  using assms by (auto simp: StringOutputStream_Enlarge_def String_New_def copy_words_def run_elims Let_def split: if_splits)

lemma appends_PutByte: "os_ok os \<Longrightarrow> appends os [b] (OutputStream_PutByte bj b os)"
proof (cases os)
  case (STRING_OUTPUT_STREAM st)
  assume ok: "os_ok os"
  let ?st = "st\<lparr>so_string := (so_string st)[so_pos st := b], so_pos := so_pos st + 1\<rparr>"
  have t: "take (Suc (so_pos st)) ((so_string st)[so_pos st := b]) = take (so_pos st) (so_string st) @ [b]"
    using ok STRING_OUTPUT_STREAM by (simp add: take_Suc_conv_app_nth)
  show ?thesis
  proof (cases "so_pos st + 1 = so_size st")
    case True
    have run: "OutputStream_PutByte bj b os = map_option STRING_OUTPUT_STREAM (StringOutputStream_Enlarge bj ?st)"
      using ok STRING_OUTPUT_STREAM True by (simp add: OutputStream_PutByte_def StringOutputStream_PutByte_def run_simps)
    show ?thesis
    proof (cases "StringOutputStream_Enlarge bj ?st")
      case None
      then have "STREAM_LIMIT < so_size st" using Enlarge_room [of ?st bj] ok STRING_OUTPUT_STREAM True by (auto simp: not_le [symmetric])
      then show ?thesis using None run ok STRING_OUTPUT_STREAM True by (simp add: appends_def)
    next
      case (Some st')
      then show ?thesis using Enlarge_fields [OF Some] run ok STRING_OUTPUT_STREAM True t by (auto simp: appends_def)
    qed
  next
    case False
    then show ?thesis using ok STRING_OUTPUT_STREAM t
      by (simp add: OutputStream_PutByte_def StringOutputStream_PutByte_def run_simps appends_def)
  qed
qed (simp add: OutputStream_PutByte_def appends_def)

lemma enlarge_for_cases:
  assumes "length (so_string st) = so_size st" and "so_pos st < so_size st" and "2 \<le> so_size st"
  shows "case enlarge_for bj n st of
     Some st' \<Rightarrow> n < so_size st' \<and> so_size st \<le> so_size st' \<and> length (so_string st') = so_size st' \<and> so_pos st' = so_pos st \<and>
       take (so_pos st) (so_string st') = take (so_pos st) (so_string st)
   | None \<Rightarrow> STREAM_LIMIT < n"
  using assms
proof (induction "Suc n - so_size st" arbitrary: st rule: less_induct)
  case less
  show ?case
  proof (cases "n \<ge> so_size st")
    case True
    note run = enlarge_for.simps [of bj n st]
    show ?thesis
    proof (cases "StringOutputStream_Enlarge bj st")
      case None
      then have "STREAM_LIMIT < so_size st" using Enlarge_room [of st bj] less.prems by (auto simp: not_le [symmetric])
      then show ?thesis using None True run by simp
    next
      case (Some st1)
      note f = Enlarge_fields [OF Some less.prems(3)]
      have "Suc n - so_size st1 < Suc n - so_size st" using f True by linarith
      from less.hyps [OF this] f less.prems have "case enlarge_for bj n st1 of
           Some st' \<Rightarrow> n < so_size st' \<and> so_size st1 \<le> so_size st' \<and> length (so_string st') = so_size st' \<and> so_pos st' = so_pos st1 \<and>
             take (so_pos st1) (so_string st') = take (so_pos st1) (so_string st1)
         | None \<Rightarrow> STREAM_LIMIT < n" by linarith
      then show ?thesis using Some True run f by (auto split: option.splits)
    qed
  next
    case False
    then show ?thesis using enlarge_for.simps [of bj n st] less.prems by simp
  qed
qed

lemma appends_PutBytes: "os_ok os \<Longrightarrow> appends os bs (OutputStream_PutBytes bj bs os)"
proof (cases os)
  case (STRING_OUTPUT_STREAM st)
  assume ok: "os_ok os"
  note room = enlarge_for_cases [of st "so_pos st + length bs" bj]
  show ?thesis
  proof (cases "enlarge_for bj (so_pos st + length bs) st")
    case None
    then show ?thesis using room ok STRING_OUTPUT_STREAM by (simp add: OutputStream_PutBytes_def StringOutputStream_PutBytes_def appends_def)
  next
    case (Some st')
    then show ?thesis using room ok STRING_OUTPUT_STREAM
      by (auto simp: OutputStream_PutBytes_def StringOutputStream_PutBytes_def appends_def run_simps Let_def)
  qed
qed (simp add: OutputStream_PutBytes_def appends_def)

lemma appends_put_uint: "os_ok os \<Longrightarrow> appends os (uint_bytes i) (put_uint bj i os)"
proof (induction i arbitrary: os rule: uint_bytes.induct)
  case (1 i)
  show ?case
  proof (cases "i \<ge> 0x80")
    case True
    have "appends os ([ucast ((i AND 0x7F) OR 0x80)] @ uint_bytes (drop_bit 7 i))
        (OutputStream_PutByte bj (ucast ((i AND 0x7F) OR 0x80)) os \<bind> put_uint bj (drop_bit 7 i))"
      by (rule appends_bind [OF appends_PutByte [OF 1(2)]]) (rule 1(1) [OF True])
    then show ?thesis using True by (simp add: uint_bytes.simps [of i] put_uint.simps [of bj i])
  next
    case False
    then show ?thesis using appends_PutByte [OF 1(2)] by (simp add: uint_bytes.simps [of i] put_uint.simps [of bj i])
  qed
qed

lemma appends_PutUInt: "os_ok os \<Longrightarrow> CanPickle i \<Longrightarrow> appends os (uint_bytes i) (OutputStream_PutUInt bj i os)"
  using appends_put_uint by (simp add: OutputStream_PutUInt_def run_simps)

section \<open>The output buffer\<close>

definition ob_bytes :: "obuf \<Rightarrow> bytes" where
  "ob_bytes ob = take (ob_pos ob) (ob_buffer ob)"

text \<open>The local variables, from the first one on, with the position after which each is to be stored.\<close>

definition ob_vars :: "obuf \<Rightarrow> (nat \<times> nat) list" where
  "ob_vars ob = take (ob_count ob) (drop 1 (ob_locals ob))"

definition ob_ok :: "obuf \<Rightarrow> bool" where
  "ob_ok ob \<longleftrightarrow> length (ob_buffer ob) = ob_size ob \<and> ob_pos ob \<le> ob_size ob \<and> 8192 \<le> ob_size ob \<and>
     2 * length (ob_locals ob) = ob_lsize ob \<and> 2 * ob_count ob + 1 < ob_lsize ob \<and> 128 \<le> ob_lsize ob \<and> ob_lsize ob \<le> 16777200 \<and>
     ob_locals ob ! 0 = (0, 0)"

lemma ob_ok_pos: "ob_ok ob \<Longrightarrow> length (ob_bytes ob) = ob_pos ob" "ob_ok ob \<Longrightarrow> length (ob_vars ob) = ob_count ob"
  by (auto simp: ob_ok_def ob_bytes_def ob_vars_def)

definition writes :: "obuf \<Rightarrow> bytes \<Rightarrow> obuf option \<Rightarrow> bool" where
  "writes ob bs r = (case r of
     Some ob' \<Rightarrow> ob_ok ob' \<and> ob_bytes ob' = ob_bytes ob @ bs \<and> ob_locals ob' = ob_locals ob \<and> ob_count ob' = ob_count ob \<and> ob_lsize ob' = ob_lsize ob
   | None \<Rightarrow> STREAM_LIMIT < length (ob_bytes ob) + length bs)"

lemma writes_bind:
  assumes "writes ob bs r" and "\<And>ob'. r = Some ob' \<Longrightarrow> ob_ok ob' \<Longrightarrow> writes ob' cs (k ob')"
  shows "writes ob (bs @ cs) (Option.bind r k)"
  using assms by (cases r) (auto simp: writes_def split: option.splits)

lemma writes_same:
  "ob_bytes ob1 = ob_bytes ob \<Longrightarrow> ob_locals ob1 = ob_locals ob \<Longrightarrow> ob_count ob1 = ob_count ob \<Longrightarrow> ob_lsize ob1 = ob_lsize ob \<Longrightarrow>
   writes ob1 bs r \<Longrightarrow> writes ob bs r"
  by (cases r) (simp_all add: writes_def)

lemma ResizeBuffer_cases:
  assumes "ob_ok ob"
  shows "case ResizeBuffer bj ob of
     Some ob' \<Rightarrow> ob_ok ob' \<and> ob_size ob' = ob_size ob * 3 div 2 \<and> ob_bytes ob' = ob_bytes ob \<and> ob_pos ob' = ob_pos ob \<and> ob_locals ob' = ob_locals ob \<and>
       ob_count ob' = ob_count ob \<and> ob_lsize ob' = ob_lsize ob
   | None \<Rightarrow> STREAM_LIMIT + 5 < ob_size ob"
proof (cases "String_New bj (ob_size ob * 3 div 2)")
  case None
  then have "\<not> ob_size ob * 3 div 2 \<le> 67108796" using String_New_room [of "ob_size ob * 3 div 2" bj] by auto
  then have "STREAM_LIMIT + 5 < ob_size ob" by (simp add: STREAM_LIMIT_def)
  then show ?thesis using None by (simp add: ResizeBuffer_def Let_def)
next
  case (Some b)
  then have "length b = ob_size ob * 3 div 2" by (auto simp: String_New_def run_elims)
  then show ?thesis using Some assms by (auto simp: ResizeBuffer_def Let_def ob_ok_def ob_bytes_def run_simps)
qed

lemma writes_PutByte:
  assumes "ob_ok ob"
  shows "writes ob [b] (OutputBuffer_PutByte bj b ob)"
proof -
  have w: "writes ob1 [b] (do { c \<leftarrow> Block_SetArg (ob_buffer ob1) (ob_pos ob1) b; Some (ob1\<lparr>ob_buffer := c, ob_pos := ob_pos ob1 + 1\<rparr>) })"
    if "ob_ok ob1" "ob_pos ob1 < ob_size ob1" for ob1
    using that by (simp add: writes_def ob_ok_def ob_bytes_def run_simps take_Suc_conv_app_nth)
  show ?thesis
  proof (cases "ob_pos ob \<ge> ob_size ob")
    case True
    show ?thesis
    proof (cases "ResizeBuffer bj ob")
      case None
      then show ?thesis using True ResizeBuffer_cases [OF assms, of bj] ob_ok_pos(1) [OF assms]
        by (simp add: OutputBuffer_PutByte_def writes_def Let_def)
    next
      case (Some ob1)
      note r = ResizeBuffer_cases [OF assms, of bj, unfolded Some, simplified]
      have "ob_pos ob1 < ob_size ob1" using r assms by (auto simp: ob_ok_def)
      from w [OF _ this] show ?thesis using r Some True by (intro writes_same [of ob1 ob]) (simp_all add: OutputBuffer_PutByte_def Let_def)
    qed
  next
    case False
    then show ?thesis using w [OF assms] by (simp add: OutputBuffer_PutByte_def Let_def)
  qed
qed

lemma write_uint_run:
  "pos + length (uint_bytes i) \<le> length c \<Longrightarrow>
   write_uint i pos c = Some (pos + length (uint_bytes i), take pos c @ uint_bytes i @ drop (pos + length (uint_bytes i)) c)"
proof (induction i arbitrary: pos c rule: uint_bytes.induct)
  case (1 i)
  have set: "take (Suc pos) (c[pos := b]) = take pos c @ [b]" "drop (Suc pos + k) (c[pos := b]) = drop (Suc pos + k) c" if "pos < length c" for b k
    using that by (simp_all add: take_Suc_conv_app_nth)
  have pos: "pos < length c" using 1(2) uint_bytes_nonempty(2) [of i] by linarith
  show ?case
  proof (cases "i \<ge> 0x80")
    case True
    then show ?thesis
      using 1(1) [OF True, of "Suc pos" "c[pos := ucast ((i AND 0x7F) OR 0x80)]"] 1(2) pos set(1) [OF pos] set(2) [OF pos]
      by (simp add: uint_bytes.simps [of i] write_uint.simps [of i] run_simps)
  next
    case False
    then show ?thesis using pos by (simp add: uint_bytes.simps [of i] write_uint.simps [of i] run_simps upd_conv_take_nth_drop)
  qed
qed

lemma writes_PutUInt:
  assumes "ob_ok ob" and "CanPickle i"
  shows "writes ob (uint_bytes i) (OutputBuffer_PutUInt bj i ob)"
proof -
  have w: "writes ob1 (uint_bytes i) (do { (pos, c) \<leftarrow> write_uint i (ob_pos ob1) (ob_buffer ob1); Some (ob1\<lparr>ob_buffer := c, ob_pos := pos\<rparr>) })"
    if "ob_ok ob1" "ob_pos ob1 + 5 \<le> ob_size ob1" for ob1
    using that uint_bytes_short [OF assms(2)] by (simp add: writes_def ob_ok_def ob_bytes_def write_uint_run)
  show ?thesis
  proof (cases "ob_pos ob + 5 \<ge> ob_size ob")
    case True
    show ?thesis
    proof (cases "ResizeBuffer bj ob")
      case None
      then show ?thesis using True ResizeBuffer_cases [OF assms(1), of bj] ob_ok_pos(1) [OF assms(1)] assms(2)
        by (simp add: OutputBuffer_PutUInt_def writes_def run_simps)
    next
      case (Some ob1)
      note r = ResizeBuffer_cases [OF assms(1), of bj, unfolded Some, simplified]
      have "ob_pos ob1 + 5 \<le> ob_size ob1" using r assms(1) by (auto simp: ob_ok_def)
      from w [OF _ this] show ?thesis using r Some True assms(2) by (intro writes_same [of ob1 ob]) (simp_all add: OutputBuffer_PutUInt_def run_simps)
    qed
  next
    case False
    then show ?thesis using w [OF assms(1)] assms(2) by (simp add: OutputBuffer_PutUInt_def run_simps)
  qed
qed

lemma resize_for_cases:
  assumes "ob_ok ob"
  shows "case resize_for bj n ob of
     Some ob' \<Rightarrow> ob_ok ob' \<and> n < ob_size ob' \<and> ob_bytes ob' = ob_bytes ob \<and> ob_pos ob' = ob_pos ob \<and> ob_locals ob' = ob_locals ob \<and>
       ob_count ob' = ob_count ob \<and> ob_lsize ob' = ob_lsize ob
   | None \<Rightarrow> STREAM_LIMIT < n"
  using assms
proof (induction "Suc n - ob_size ob" arbitrary: ob rule: less_induct)
  case less
  note run = resize_for.simps [of bj n ob]
  show ?case
  proof (cases "n \<ge> ob_size ob")
    case True
    show ?thesis
    proof (cases "ResizeBuffer bj ob")
      case None
      then show ?thesis using True run ResizeBuffer_cases [OF less.prems, of bj] by simp
    next
      case (Some ob1)
      note r = ResizeBuffer_cases [OF less.prems, of bj, unfolded Some, simplified]
      have "Suc n - ob_size ob1 < Suc n - ob_size ob" using r less.prems True by (auto simp: ob_ok_def)
      from less.hyps [OF this] r show ?thesis using Some True run by (auto split: option.splits)
    qed
  qed (use run less.prems in simp)
qed

lemma writes_PutBytes:
  assumes "ob_ok ob"
  shows "writes ob bs (OutputBuffer_PutBytes bj bs ob)"
proof (cases "resize_for bj (ob_pos ob + length bs) ob")
  case None
  then show ?thesis using resize_for_cases [OF assms, of "ob_pos ob + length bs" bj] ob_ok_pos(1) [OF assms]
    by (simp add: OutputBuffer_PutBytes_def writes_def)
next
  case (Some ob1)
  then show ?thesis using resize_for_cases [OF assms, of "ob_pos ob + length bs" bj]
    by (auto simp: OutputBuffer_PutBytes_def writes_def Let_def run_simps ob_ok_def ob_bytes_def)
qed

lemma PutLocal_vars:
  assumes "ob_ok ob" and "PutLocal bj lj ref ob = Some (n, ob')"
  shows "n = Suc (ob_count ob)" "ob_ok ob'" "ob_bytes ob' = ob_bytes ob @ uint_bytes (word_of_nat n)" "ob_vars ob' = ob_vars ob @ [(ref, n)]"
    "ob_count ob' = n" "n < 8388600"
proof -
  have grown: "ob_ok ob1 \<and> ob_bytes ob1 = ob_bytes ob \<and> ob_vars ob1 = ob_vars ob \<and> ob_count ob1 = ob_count ob \<and> 2 * (ob_count ob + 1) + 1 < ob_lsize ob1"
    if "(if (ob_count ob + 1) * 2 + 1 \<ge> ob_lsize ob then ResizeLocals lj ob else Some ob) = Some ob1" for ob1
  proof (cases "(ob_count ob + 1) * 2 + 1 \<ge> ob_lsize ob")
    case True
    define n where "n = length (ob_locals ob)"
    have n: "ob_lsize ob = 2 * n" "Suc (ob_count ob) \<le> n" "64 \<le> n" using assms(1) by (auto simp: ob_ok_def n_def)
    have "ResizeLocals lj ob = Some ob1" using True that by simp
    then have ob1: "ob1 = ob\<lparr>ob_lsize := 6 * n, ob_locals := take (Suc (ob_count ob)) (ob_locals ob) @ drop (Suc (ob_count ob)) (map lj [0..<3 * n])\<rparr>"
      "6 * n \<le> 16777200"
      by (auto simp: ResizeLocals_def locals_New_def Let_def n(1) run_elims copy_words_def split: if_splits)
    have l: "take (ob_count ob) (drop 1 (ob_locals ob1)) = take (ob_count ob) (drop 1 (ob_locals ob))" "ob_locals ob1 ! 0 = ob_locals ob ! 0" "length (ob_locals ob1) = 3 * n"
      using n(2,3) by (simp_all add: ob1(1) n_def nth_append drop_take)
    show ?thesis using assms(1) l ob1 n by (simp add: ob_ok_def ob_bytes_def ob_vars_def)
  next
    case False
    then show ?thesis using that assms(1) by simp
  qed
  obtain ob1 ob2 where ob1: "(if (ob_count ob + 1) * 2 + 1 \<ge> ob_lsize ob then ResizeLocals lj ob else Some ob) = Some ob1"
    and n: "n = Suc (ob_count ob)" "n < length (ob_locals ob1)"
    and ob2: "OutputBuffer_PutUInt bj (word_of_nat n) (ob1\<lparr>ob_locals := (ob_locals ob1)[n := (ref, n)]\<rparr>) = Some ob2" "ob' = ob2\<lparr>ob_count := n\<rparr>"
    using assms(2) by (auto simp: PutLocal_def Let_def run_elims)
  note g = grown [OF ob1]
  have small: "n < 8388600" using g n by (auto simp: ob_ok_def)
  then have "CanPickle (word_of_nat n)" by (simp add: CanPickle_iff unat_of_nat)
  moreover have "ob_ok (ob1\<lparr>ob_locals := (ob_locals ob1)[n := (ref, n)]\<rparr>)" using g n by (auto simp: ob_ok_def)
  ultimately have w: "ob_ok ob2" "ob_bytes ob2 = ob_bytes ob1 @ uint_bytes (word_of_nat n)" "ob_locals ob2 = (ob_locals ob1)[n := (ref, n)]"
    "ob_count ob2 = ob_count ob1" "ob_lsize ob2 = ob_lsize ob1"
    using writes_PutUInt [of "ob1\<lparr>ob_locals := (ob_locals ob1)[n := (ref, n)]\<rparr>" "word_of_nat n" bj] ob2(1)
    by (auto simp: writes_def ob_bytes_def)
  show "n = Suc (ob_count ob)" "n < 8388600" by (fact n(1), fact small)
  show "ob_ok ob'" using w(1,5) ob2(2) g n by (auto simp: ob_ok_def)
  show "ob_bytes ob' = ob_bytes ob @ uint_bytes (word_of_nat n)" using w(2) ob2(2) g by (simp add: ob_bytes_def)
  show "ob_count ob' = n" using ob2(2) by simp
  show "ob_vars ob' = ob_vars ob @ [(ref, n)]"
    using w(3) ob2(2) g n by (auto simp: ob_vars_def drop_update_swap take_Suc_conv_app_nth)
qed

section \<open>Sorting\<close>

text \<open>The entries from \<open>l\<close> to \<open>r\<close> are rearranged, the others stay.\<close>

definition shuffled :: "int \<Rightarrow> int \<Rightarrow> (nat \<times> nat) list \<Rightarrow> (nat \<times> nat) list \<Rightarrow> bool" where
  "shuffled l r b b' \<longleftrightarrow> length b' = length b \<and> mset b' = mset b \<and>
     (\<forall>k. 0 \<le> k \<longrightarrow> (k < l \<or> r < k) \<longrightarrow> b' ! nat k = b ! nat k) \<and>
     (\<forall>k. l \<le> k \<longrightarrow> k \<le> r \<longrightarrow> (\<exists>m. l \<le> m \<and> m \<le> r \<and> b' ! nat k = b ! nat m))"

lemma shuffled_refl [simp]: "shuffled l r b b"
  by (auto simp: shuffled_def)

lemma shuffled_trans: "shuffled l r b b' \<Longrightarrow> shuffled l r b' b'' \<Longrightarrow> shuffled l r b b''"
proof -
  assume a: "shuffled l r b b'" "shuffled l r b' b''"
  have "\<exists>m. l \<le> m \<and> m \<le> r \<and> b'' ! nat k = b ! nat m" if k: "l \<le> k" "k \<le> r" for k
  proof -
    obtain m where m: "l \<le> m" "m \<le> r" "b'' ! nat k = b' ! nat m" using a(2) k unfolding shuffled_def by blast
    then show ?thesis using a(1) unfolding shuffled_def by simp
  qed
  then show ?thesis using a unfolding shuffled_def by simp
qed

lemma shuffled_mono: "shuffled l r b b' \<Longrightarrow> 0 \<le> l \<Longrightarrow> l0 \<le> l \<Longrightarrow> r \<le> r0 \<Longrightarrow> 0 \<le> l0 \<Longrightarrow> shuffled l0 r0 b b'"
proof -
  assume a: "shuffled l r b b'" "0 \<le> l" "l0 \<le> l" "r \<le> r0" "0 \<le> l0"
  have "\<exists>m. l0 \<le> m \<and> m \<le> r0 \<and> b' ! nat k = b ! nat m" if k: "l0 \<le> k" "k \<le> r0" for k
  proof (cases "l \<le> k \<and> k \<le> r")
    case True
    then obtain m where "l \<le> m" "m \<le> r" "b' ! nat k = b ! nat m" using a(1) unfolding shuffled_def by blast
    then show ?thesis using a(3,4) by (intro exI [of _ m]) simp
  next
    case False
    then have "b' ! nat k = b ! nat k" using a(1,5) k unfolding shuffled_def by auto
    then show ?thesis using k by blast
  qed
  then show ?thesis using a unfolding shuffled_def by auto
qed

lemma Swap_run:
  assumes "0 \<le> l" and "l \<le> i" and "i \<le> r" and "l \<le> j" and "j \<le> r" and "nat r < length b"
  shows "Swap i j b = Some (b[nat i := b ! nat j, nat j := b ! nat i])" "shuffled l r b (b[nat i := b ! nat j, nat j := b ! nat i])"
proof -
  show "Swap i j b = Some (b[nat i := b ! nat j, nat j := b ! nat i])"
    using assms by (simp add: Swap_def entry_def run_simps)
  have "mset (b[nat i := b ! nat j, nat j := b ! nat i]) = mset b" using assms mset_swap [of "nat j" b "nat i"] by simp
  then show "shuffled l r b (b[nat i := b ! nat j, nat j := b ! nat i])"
    using assms unfolding shuffled_def by (auto simp: nth_list_update)
qed

lemma scan_up_spec:
  assumes "0 \<le> i + 1" and "i < w" and "nat w < length b" and "v \<le> fst (b ! nat w)"
  shows "\<exists>k. scan_up b v i = Some k \<and> i < k \<and> k \<le> w \<and> v \<le> fst (b ! nat k) \<and> (\<forall>m. i < m \<and> m < k \<longrightarrow> fst (b ! nat m) < v)"
  using assms
proof (induction "nat (w - i)" arbitrary: i rule: less_induct)
  case less
  have e: "entry b (i + 1) = Some (b ! nat (i + 1))" using less.prems by (simp add: entry_def run_simps)
  show ?case
  proof (cases "fst (b ! nat (i + 1)) < v")
    case True
    then have "i + 1 < w" using less.prems by (cases "i + 1 = w") auto
    then obtain k where "scan_up b v (i + 1) = Some k" "i + 1 < k" "k \<le> w" "v \<le> fst (b ! nat k)" "\<forall>m. i + 1 < m \<and> m < k \<longrightarrow> fst (b ! nat m) < v"
      using less.hyps [of "i + 1"] less.prems by auto
    moreover have "i < m \<and> m < k \<longrightarrow> m = i + 1 \<or> i + 1 < m" for m by auto
    ultimately show ?thesis using e True scan_up.simps [of b v i] by (intro exI [of _ k]) auto
  next
    case False
    then show ?thesis using e scan_up.simps [of b v i] less.prems by (intro exI [of _ "i + 1"]) auto
  qed
qed

lemma scan_down_spec:
  assumes "0 \<le> l" and "l < j" and "nat (j - 1) < length b"
  shows "\<exists>k. scan_down b v l j = Some k \<and> l \<le> k \<and> k < j \<and> (fst (b ! nat k) \<le> v \<or> k = l) \<and> (\<forall>m. k < m \<and> m < j \<longrightarrow> v < fst (b ! nat m))"
  using assms
proof (induction "nat (j - l)" arbitrary: j rule: less_induct)
  case less
  have e: "entry b (j - 1) = Some (b ! nat (j - 1))" using less.prems by (simp add: entry_def run_simps)
  show ?case
  proof (cases "v < fst (b ! nat (j - 1)) \<and> j - 1 \<noteq> l")
    case True
    then obtain k where "scan_down b v l (j - 1) = Some k" "l \<le> k" "k < j - 1" "fst (b ! nat k) \<le> v \<or> k = l" "\<forall>m. k < m \<and> m < j - 1 \<longrightarrow> v < fst (b ! nat m)"
      using less.hyps [of "j - 1"] less.prems nat_mono [of "j - 1 - 1" "j - 1"] by auto
    moreover have "k < m \<and> m < j \<longrightarrow> m = j - 1 \<or> m < j - 1" for m by auto
    ultimately show ?thesis using e True scan_down.simps [of b v l j] by (intro exI [of _ k]) auto
  next
    case False
    then show ?thesis using e scan_down.simps [of b v l j] less.prems by (intro exI [of _ "j - 1"]) auto
  qed
qed

lemma partition_loop_spec:
  assumes "0 \<le> l" and "l - 1 \<le> i" and "i < j" and "l < j" and "j \<le> r" and "nat r < length b" and "fst (b ! nat r) = v"
    and "\<forall>m. l \<le> m \<and> m \<le> i \<longrightarrow> fst (b ! nat m) \<le> v" and "\<forall>m. j \<le> m \<and> m \<le> r \<longrightarrow> v \<le> fst (b ! nat m)"
  shows "\<exists>k b'. partition_loop v l i j b = Some (k, b') \<and> l \<le> k \<and> k \<le> r \<and> shuffled l (r - 1) b b' \<and>
    (\<forall>m. l \<le> m \<and> m < k \<longrightarrow> fst (b' ! nat m) \<le> v) \<and> (\<forall>m. k \<le> m \<and> m \<le> r \<longrightarrow> v \<le> fst (b' ! nat m))"
  using assms
proof (induction "nat (r - i)" arbitrary: i j b rule: less_induct)
  case less
  obtain i' where i: "scan_up b v i = Some i'" "i < i'" "i' \<le> r" "v \<le> fst (b ! nat i')" "\<forall>m. i < m \<and> m < i' \<longrightarrow> fst (b ! nat m) < v"
    using scan_up_spec [of i r b v] less.prems by auto
  have "nat (j - 1) < length b" using less.prems by linarith
  then obtain j' where j: "scan_down b v l j = Some j'" "l \<le> j'" "j' < j" "fst (b ! nat j') \<le> v \<or> j' = l" "\<forall>m. j' < m \<and> m < j \<longrightarrow> v < fst (b ! nat m)"
    using scan_down_spec [OF less.prems(1,4)] by blast
  have low: "fst (b ! nat m) \<le> v" if "l \<le> m" "m < i'" for m
    using that less.prems(8) i(5) by (cases "m \<le> i") (auto intro: less_imp_le)
  have high: "v \<le> fst (b ! nat m)" if "j' < m" "m \<le> r" for m
    using that less.prems(9) j(5) by (cases "j \<le> m") (auto intro: less_imp_le)
  note run = partition_loop.simps [of v l i j b]
  show ?case
  proof (cases "i' \<ge> j'")
    case True
    have "v \<le> fst (b ! nat m)" if "i' \<le> m" "m \<le> r" for m using that True i(4) high [of m] by (cases "m = i'") auto
    then show ?thesis using run i j True low less.prems(2) by (intro exI [of _ i'] exI [of _ b]) simp
  next
    case False
    define b2 where b2: "b2 = b[nat i' := b ! nat j', nat j' := b ! nat i']"
    have inner: "0 \<le> l" "l \<le> i'" "i' \<le> r - 1" "l \<le> j'" "j' \<le> r - 1" "nat (r - 1) < length b" "nat i' < length b" "nat j' < length b"
      using less.prems i j False by linarith+
    note swap = Swap_run [OF inner(1-6), folded b2]
    have upd: "b2 ! nat m = (if m = i' then b ! nat j' else if m = j' then b ! nat i' else b ! nat m)" if "0 \<le> m" for m
      using that False inner by (auto simp: nth_list_update b2)
    have "fst (b2 ! nat m) \<le> v" if "l \<le> m" "m \<le> i'" for m
      using that False j(2,4) i(2) less.prems(1,2) low [of m] by (auto simp: upd)
    moreover have "v \<le> fst (b2 ! nat m)" if "j' \<le> m" "m \<le> r" for m
      using that False i(4) less.prems(1) j(2) high [of m] by (auto simp: upd)
    moreover have "nat (r - i') < nat (r - i)" "fst (b2 ! nat r) = v" using i(2,3) inner less.prems(1,5,7) j by (auto simp: upd)
    moreover have "nat r < length b2" using less.prems(6) by (simp add: b2)
    ultimately obtain k b' where "partition_loop v l i' j' b2 = Some (k, b')" "l \<le> k" "k \<le> r" "shuffled l (r - 1) b2 b'"
      "\<forall>m. l \<le> m \<and> m < k \<longrightarrow> fst (b' ! nat m) \<le> v" "\<forall>m. k \<le> m \<and> m \<le> r \<longrightarrow> v \<le> fst (b' ! nat m)"
      using less.hyps [of i' j' b2] inner False less.prems(6) by auto
    then show ?thesis using run i(1) j(1) False swap(1) shuffled_trans [OF swap(2)] by (intro exI [of _ k] exI [of _ b']) simp
  qed
qed

lemma Partition_spec:
  assumes "0 \<le> l" and "l < r" and "nat r < length b"
  shows "\<exists>k b'. Partition l r b = Some (k, b') \<and> l \<le> k \<and> k \<le> r \<and> shuffled l r b b' \<and>
    (\<forall>m. l \<le> m \<and> m < k \<longrightarrow> fst (b' ! nat m) \<le> fst (b' ! nat k)) \<and> (\<forall>m. k \<le> m \<and> m \<le> r \<longrightarrow> fst (b' ! nat k) \<le> fst (b' ! nat m))"
proof -
  let ?v = "fst (b ! nat r)"
  have e: "entry b r = Some (b ! nat r)" using assms by (simp add: entry_def run_simps)
  have "\<forall>m. r \<le> m \<and> m \<le> r \<longrightarrow> ?v \<le> fst (b ! nat m)" by (auto dest: order.antisym)
  then obtain k b1 where k: "partition_loop ?v l (l - 1) r b = Some (k, b1)" "l \<le> k" "k \<le> r" "shuffled l (r - 1) b b1"
    "\<forall>m. l \<le> m \<and> m < k \<longrightarrow> fst (b1 ! nat m) \<le> ?v" "\<forall>m. k \<le> m \<and> m \<le> r \<longrightarrow> ?v \<le> fst (b1 ! nat m)"
    using partition_loop_spec [of l "l - 1" r r b ?v] assms by auto
  have len: "nat r < length b1" "b1 ! nat r = b ! nat r" using k(4) assms by (auto simp: shuffled_def)
  define b2 where b2: "b2 = b1[nat k := b1 ! nat r, nat r := b1 ! nat k]"
  note swap = Swap_run [OF assms(1) k(2,3) _ order.refl len(1), folded b2]
  have upd: "b2 ! nat m = (if m = k then b1 ! nat r else if m = r then b1 ! nat k else b1 ! nat m)" if "0 \<le> m" "m \<le> r" for m
    using that k assms len(1) by (auto simp: nth_list_update b2)
  have "Partition l r b = Some (k, b2)" using e k(1) swap(1) assms(2) by (simp add: Partition_def)
  moreover have "shuffled l r b b2" using shuffled_trans [OF shuffled_mono [OF k(4)] swap(2)] assms by simp
  moreover have "\<forall>m. l \<le> m \<and> m < k \<longrightarrow> fst (b2 ! nat m) \<le> fst (b2 ! nat k)"
    using k(2,3,5) assms(1) len(2) by (auto simp: upd)
  moreover have "\<forall>m. k \<le> m \<and> m \<le> r \<longrightarrow> fst (b2 ! nat k) \<le> fst (b2 ! nat m)"
    using k(2,3,6) assms(1,2) len(2) by (auto simp: upd)
  ultimately show ?thesis using k(2,3) by blast
qed

lemma Sort_spec:
  assumes "0 \<le> l" and "nat r < length b" and "l \<le> r + 1"
  shows "\<exists>b'. Sort l r b = Some b' \<and> shuffled l r b b' \<and> (\<forall>m n. l \<le> m \<and> m \<le> n \<and> n \<le> r \<longrightarrow> fst (b' ! nat m) \<le> fst (b' ! nat n))"
  using assms
proof (induction "nat (r + 1 - l)" arbitrary: l r b rule: less_induct)
  case less
  show ?case
  proof (cases "r \<le> l")
    case True
    then show ?thesis using Sort.simps [of l r b] by (intro exI [of _ b]) (auto dest: order.antisym order.trans)
  next
    case False
    then obtain k b1 where k: "Partition l r b = Some (k, b1)" "l \<le> k" "k \<le> r" "shuffled l r b b1"
      "\<forall>m. l \<le> m \<and> m < k \<longrightarrow> fst (b1 ! nat m) \<le> fst (b1 ! nat k)" "\<forall>m. k \<le> m \<and> m \<le> r \<longrightarrow> fst (b1 ! nat k) \<le> fst (b1 ! nat m)"
      using Partition_spec [of l r b] less.prems by auto
    have "nat (k - 1 + 1 - l) < nat (r + 1 - l)" "nat (k - 1) < length b1" using k(2,3,4) less.prems by (auto simp: shuffled_def)
    then obtain b2 where b2: "Sort l (k - 1) b1 = Some b2" "shuffled l (k - 1) b1 b2"
      "\<forall>m n. l \<le> m \<and> m \<le> n \<and> n \<le> k - 1 \<longrightarrow> fst (b2 ! nat m) \<le> fst (b2 ! nat n)"
      using less.hyps [of "k - 1" l b1] less.prems k by auto
    have "nat (r + 1 - (k + 1)) < nat (r + 1 - l)" "nat r < length b2" using k(2,3,4) b2(2) less.prems by (auto simp: shuffled_def)
    then obtain b3 where b3: "Sort (k + 1) r b2 = Some b3" "shuffled (k + 1) r b2 b3"
      "\<forall>m n. k + 1 \<le> m \<and> m \<le> n \<and> n \<le> r \<longrightarrow> fst (b3 ! nat m) \<le> fst (b3 ! nat n)"
      using less.hyps [of r "k + 1" b2] less.prems k by auto
    have mid: "b3 ! nat k = b1 ! nat k" using b2(2) b3(2) k(2) less.prems(1) by (simp add: shuffled_def)
    have left: "fst (b3 ! nat m) \<le> fst (b1 ! nat k)" "b3 ! nat m = b2 ! nat m" if "l \<le> m" "m < k" for m
    proof -
      show eq: "b3 ! nat m = b2 ! nat m" using b3(2) that less.prems(1) by (simp add: shuffled_def)
      have "\<exists>m'. l \<le> m' \<and> m' \<le> k - 1 \<and> b2 ! nat m = b1 ! nat m'" using b2(2) that by (simp add: shuffled_def)
      then show "fst (b3 ! nat m) \<le> fst (b1 ! nat k)" using k(5) eq by auto
    qed
    have right: "fst (b1 ! nat k) \<le> fst (b3 ! nat m)" if m: "k < m" "m \<le> r" for m
    proof -
      have "k + 1 \<le> m" using m by simp
      then obtain m' where m': "k + 1 \<le> m'" "m' \<le> r" "b3 ! nat m = b2 ! nat m'" using b3(2) m(2) unfolding shuffled_def by blast
      have "b2 ! nat m' = b1 ! nat m'" using b2(2) m' k(2) less.prems(1) by (simp add: shuffled_def)
      then show ?thesis using k(6) m' by auto
    qed
    have "fst (b3 ! nat m) \<le> fst (b3 ! nat n)" if mn: "l \<le> m" "m \<le> n" "n \<le> r" for m n
    proof -
      consider "n < k" | "m < k" "k \<le> n" | "m = k" | "k < m" using mn by linarith
      then show ?thesis
      proof cases
        case 1 then show ?thesis using mn left(2) b2(3) by simp
      next
        case 2 then show ?thesis using mn left(1) [of m] right [of n] mid by (cases "n = k") auto
      next
        case 3 then show ?thesis using mn right [of n] mid by (cases "n = k") auto
      next
        case 4 then show ?thesis using mn b3(3) by simp
      qed
    qed
    moreover have "shuffled l r b b3"
      using k(2,3,4) less.prems(1) shuffled_mono [OF b2(2), of l r] shuffled_mono [OF b3(2), of l r] by (auto intro: shuffled_trans)
    ultimately show ?thesis using Sort.simps [of l r b] False k(1) b2(1) b3(1) by (intro exI [of _ b3]) simp
  qed
qed

lemma shuffled_prefix:
  assumes "shuffled 0 (int n) b b'" and "n < length b"
  shows "drop (Suc n) b' = drop (Suc n) b" "mset (take (Suc n) b') = mset (take (Suc n) b)"
proof -
  have len: "length b' = length b" "mset b' = mset b" using assms(1) by (auto simp: shuffled_def)
  have "b' ! k = b ! k" if "Suc n \<le> k" for k
    using assms(1) that unfolding shuffled_def by (metis nat_int not_less_eq_eq of_nat_0_le_iff of_nat_less_iff not_le)
  then show d: "drop (Suc n) b' = drop (Suc n) b" using len(1) by (intro nth_equalityI) auto
  have "mset (take (Suc n) b') + mset (drop (Suc n) b') = mset (take (Suc n) b) + mset (drop (Suc n) b)"
    using len(2) by (simp flip: mset_append)
  then show "mset (take (Suc n) b') = mset (take (Suc n) b)" using d by simp
qed

text \<open>
  C33: an unsigned integer of 31 bits takes at most five bytes, both the output streams and the output buffer append the
  same bytes for it, and an input stream reads the integer back from these bytes and stops behind them.
\<close>

theorem uint_roundtrip:
  assumes "CanPickle i"
  shows "length (uint_bytes i) \<le> 5 \<and>
    (os_ok os \<and> length (os_bytes os) + 5 \<le> STREAM_LIMIT \<longrightarrow>
       (\<exists>os'. OutputStream_PutUInt bj i os = Some os' \<and> os_ok os' \<and> os_bytes os' = os_bytes os @ uint_bytes i)) \<and>
    (ob_ok ob \<and> ob_pos ob + 5 \<le> STREAM_LIMIT \<longrightarrow>
       (\<exists>ob'. OutputBuffer_PutUInt bj i ob = Some ob' \<and> ob_ok ob' \<and> ob_bytes ob' = ob_bytes ob @ uint_bytes i)) \<and>
    (is_ok s \<and> is_rest s = uint_bytes i @ rest \<longrightarrow>
       (\<exists>s'. GetUInt s = Some (i, s') \<and> is_ok s' \<and> is_rest s' = rest))"
proof (intro conjI impI)
  note short = uint_bytes_short [OF assms]
  show "length (uint_bytes i) \<le> 5" by (rule short)
  show "\<exists>os'. OutputStream_PutUInt bj i os = Some os' \<and> os_ok os' \<and> os_bytes os' = os_bytes os @ uint_bytes i"
    if "os_ok os \<and> length (os_bytes os) + 5 \<le> STREAM_LIMIT"
    using that short appends_PutUInt [of os i bj] assms by (auto simp: appends_def split: option.splits)
  show "\<exists>ob'. OutputBuffer_PutUInt bj i ob = Some ob' \<and> ob_ok ob' \<and> ob_bytes ob' = ob_bytes ob @ uint_bytes i"
    if "ob_ok ob \<and> ob_pos ob + 5 \<le> STREAM_LIMIT"
    using that short writes_PutUInt [of ob i bj] assms by (auto simp: writes_def ob_ok_pos split: option.splits)
  show "\<exists>s'. GetUInt s = Some (i, s') \<and> is_ok s' \<and> is_rest s' = rest" if "is_ok s \<and> is_rest s = uint_bytes i @ rest"
    using that GetUInt_rest [of s i rest] assms by blast
qed

theorem uint_roundtrip_witness:
  "\<exists>s'. GetUInt (NewFromString [0xAC, 0x02, 0x07]) = Some (300, s') \<and> is_rest s' = [0x07]"
proof -
  have b: "uint_bytes 300 = [0xAC, 0x02]" by (simp add: uint_bytes.simps [of 300] uint_bytes.simps [of 2])
  have "is_ok (NewFromString [0xAC, 0x02, 0x07])" "is_rest (NewFromString [0xAC, 0x02, 0x07]) = uint_bytes 300 @ [0x07]"
    by (simp_all add: NewFromString_def is_ok_def is_rest_def b)
  moreover have "CanPickle 300" by (simp add: CanPickle_iff)
  ultimately show ?thesis using uint_roundtrip [of 300 _ _ _ "NewFromString [0xAC, 0x02, 0x07]" "[0x07]"] by blast
qed

lemma GetLocals_sorted:
  assumes "ob_ok ob"
  shows "\<exists>vars. GetLocals ob = Some (vars, ob\<lparr>ob_locals := vars\<rparr>) \<and> sorted (map fst (take (Suc (ob_count ob)) vars)) \<and> fst (vars ! 0) = 0 \<and>
    mset (take (Suc (ob_count ob)) vars) = mset (take (Suc (ob_count ob)) (ob_locals ob)) \<and>
    drop (Suc (ob_count ob)) vars = drop (Suc (ob_count ob)) (ob_locals ob)"
proof -
  have n: "ob_count ob < length (ob_locals ob)" "ob_locals ob ! 0 = (0, 0)" using assms by (auto simp: ob_ok_def)
  obtain vars where v: "Sort 0 (int (ob_count ob)) (ob_locals ob) = Some vars" "shuffled 0 (int (ob_count ob)) (ob_locals ob) vars"
    "\<forall>m k. 0 \<le> m \<and> m \<le> k \<and> k \<le> int (ob_count ob) \<longrightarrow> fst (vars ! nat m) \<le> fst (vars ! nat k)"
    using Sort_spec [of 0 "int (ob_count ob)" "ob_locals ob"] n by auto
  note pre = shuffled_prefix [OF v(2) n(1)]
  have le: "fst (vars ! i) \<le> fst (vars ! j)" if "i \<le> j" "j \<le> ob_count ob" for i j using v(3) [rule_format, of "int i" "int j"] that by simp
  have "length vars = length (ob_locals ob)" using v(2) by (simp add: shuffled_def)
  then have sorted: "sorted (map fst (take (Suc (ob_count ob)) vars))" using n(1) le by (auto simp: sorted_iff_nth_mono)
  have "(0, 0) \<in># mset (take (Suc (ob_count ob)) (ob_locals ob))" using n by (auto simp: in_set_conv_nth intro!: exI [of _ 0])
  then have "(0, 0) \<in> set (take (Suc (ob_count ob)) vars)" using pre(2) by (metis set_mset_mset)
  then obtain k where "k \<le> ob_count ob" "vars ! k = (0, 0)" by (auto simp: in_set_conv_nth less_Suc_eq_le)
  then have zero: "fst (vars ! 0) = 0" using le [of 0 k] by simp
  show ?thesis
  proof (cases "ob_count ob > 0")
    case True
    then show ?thesis using v(1) sorted zero pre by (intro exI [of _ vars]) (simp add: GetLocals_def)
  next
    case False
    then show ?thesis using n by (intro exI [of _ "ob_locals ob"]) (simp add: GetLocals_def take_Suc)
  qed
qed

text \<open>
  C34: the quicksort of the local variables ends, sorts the variables by the position where they are stored, keeps all of
  them with their numbers and touches nothing else; the variables with a position follow those that have none.
\<close>

theorem locals_sorted:
  assumes "ob_ok ob"
  shows "\<exists>vars. GetLocals ob = Some (vars, ob\<lparr>ob_locals := vars\<rparr>) \<and> sorted (map fst (take (Suc (ob_count ob)) vars)) \<and> fst (vars ! 0) = 0 \<and>
    mset (take (Suc (ob_count ob)) vars) = mset (take (Suc (ob_count ob)) (ob_locals ob)) \<and>
    drop (Suc (ob_count ob)) vars = drop (Suc (ob_count ob)) (ob_locals ob)"
  by (rule GetLocals_sorted [OF assms])

definition sample_buffer :: obuf where
  "sample_buffer = \<lparr>ob_buffer = replicate 8192 0, ob_locals = [(0, 0), (9, 1), (0, 2), (4, 3)] @ replicate 60 (0, 0), ob_pos = 20, ob_size = 8192,
     ob_count = 3, ob_lsize = 128\<rparr>"

theorem locals_sorted_witness:
  "\<exists>vars. GetLocals sample_buffer = Some (vars, sample_buffer\<lparr>ob_locals := vars\<rparr>) \<and> sorted (map fst (take 4 vars)) \<and>
    mset (take 4 vars) = {#(0, 0), (9, 1), (0, 2), (4, 3)#}"
proof -
  have "ob_ok sample_buffer" by (simp add: ob_ok_def sample_buffer_def)
  from locals_sorted [OF this] show ?thesis by (elim exE conjE) (auto simp: sample_buffer_def)
qed

end
