(* ===== verification/Pickle_Code.thy ===== *)
theory Pickle_Code
  imports Stream_Props
begin

text \<open>
  The pickler as a generator of instructions. Graphs without transforms and unique strings are plain; on them a round of
  the pickler writes the bytes of at most one instruction. \<open>astep\<close> is this view of a round: the stack, the sharing detector,
  the instructions written so far, the local variables and the simulated height of the unpickler's stack.
\<close>

section \<open>Plain graphs\<close>

fun plain_obj :: "pobj \<Rightarrow> bool" where
  "plain_obj (PBlock l m ws) \<longleftrightarrow> l \<notin> set sited_labels \<and> l \<notin> {UNIQUESTRING_NO, CONCRETE_NO, TRANSFORM_NO, CHUNK_NO} \<and> l \<le> MAX_STORE_LABEL \<and>
     (l = CLOSURE_NO \<longrightarrow> m) \<and> (l = TUPLE_NO \<longrightarrow> \<not> m) \<and> ws \<noteq> [] \<and> length ws \<le> unat MAX_BIGBLOCKSIZE \<and> alloc_size (length ws) = length ws"
| "plain_obj (PChunk m bs) \<longleftrightarrow> 1 + (length bs + 3) div 4 \<le> unat MAX_BIGBLOCKSIZE"

fun obj_words :: "pobj \<Rightarrow> store_word list" where
  "obj_words (PBlock l m ws) = ws"
| "obj_words (PChunk m bs) = []"

definition plain_word :: "pheap \<Rightarrow> addr set \<Rightarrow> store_word \<Rightarrow> bool" where
  "plain_word h A w \<longleftrightarrow> (\<exists>v. Deref (ph_trans h) w = Some v \<and>
     (case v of IntW i \<Rightarrow> MIN_VALID_INT \<le> i \<and> i \<le> MAX_VALID_INT | BlkW a \<Rightarrow> a \<in> A | TrW a \<Rightarrow> False))"

text \<open>The objects at \<open>A\<close> are plain and refer to each other only.\<close>

definition plain_graph :: "pheap \<Rightarrow> addr set \<Rightarrow> bool" where
  "plain_graph h A \<longleftrightarrow> (\<forall>a \<in> A. \<exists>ob. ph_objs h a = Some ob \<and> plain_obj ob \<and> (\<forall>w \<in> set (obj_words ob). plain_word h A w))"

section \<open>Instructions\<close>

datatype pinstr =
    I_Int int
  | I_Load nat
  | I_Store nat
  | I_Chunk bool bytes
  | I_Build nat bool nat
  | I_Announce nat bool nat nat
  | I_Fulfill nat

definition uint_of :: "nat \<Rightarrow> bytes" where "uint_of n = uint_bytes (word_of_nat n)"

fun encode :: "pinstr \<Rightarrow> bytes" where
  "encode (I_Int i) =
     (if i \<ge> 0 then tag_byte POSINT # uint_bytes (word_of_int i) else tag_byte NEGINT # uint_bytes (word_of_int (- (i + 1))))"
| "encode (I_Load n) = tag_byte LOAD # uint_of n"
| "encode (I_Store n) = tag_byte STORE # uint_of n"
| "encode (I_Chunk m bs) = tag_byte (if m then MCHUNK else CHUNK) # uint_of (length bs) @ bs"
| "encode (I_Build l m n) =
     (if l = CLOSURE_NO then tag_byte CLOSURE # uint_of n
      else if l = TUPLE_NO then tag_byte TUPLE # uint_of n
      else tag_byte (if m then MBLOCK else BLOCK) # uint_of l @ uint_of n)"
| "encode (I_Announce l m n v) =
     (if l = CLOSURE_NO then tag_byte aCLOSURE # uint_of n @ uint_of v
      else if l = TUPLE_NO then tag_byte aTUPLE # uint_of n @ uint_of v
      else tag_byte (if m then aMBLOCK else aBLOCK) # uint_of l @ uint_of n @ uint_of v)"
| "encode (I_Fulfill v) = tag_byte FULFILL # uint_of v"

definition code_bytes :: "pinstr list \<Rightarrow> bytes" where
  "code_bytes is = concat (map encode is)"

lemma code_bytes_append [simp]: "code_bytes (is @ js) = code_bytes is @ code_bytes js"
  by (simp add: code_bytes_def)

lemma code_bytes_simps [simp]: "code_bytes [] = []" "code_bytes (i # is) = encode i @ code_bytes is"
  by (simp_all add: code_bytes_def)

lemma encode_nonempty [simp]: "encode i \<noteq> []" "0 < length (encode i)"
  by (cases i; simp)+

section \<open>Rounds of the pickler\<close>

record astate =
  as_stack :: pstack
  as_seen :: seen
  as_code :: "pinstr list"
  as_vars :: "(nat \<times> nat) list"
  as_cur :: int
  as_max :: int

definition as_pos :: "astate \<Rightarrow> nat" where "as_pos A = length (code_bytes (as_code A))"

text \<open>Write an instruction; push a word on the unpickler's stack.\<close>

definition a_emit :: "pinstr \<Rightarrow> astate \<Rightarrow> astate" where
  "a_emit i A = A\<lparr>as_code := as_code A @ [i]\<rparr>"

definition a_push :: "astate \<Rightarrow> astate" where
  "a_push A = A\<lparr>as_cur := as_cur A + 1, as_max := max (as_max A) (as_cur A + 1), as_stack := tl (as_stack A)\<rparr>"

definition a_var :: "addr \<Rightarrow> int \<Rightarrow> astate \<Rightarrow> astate" where
  "a_var a i A = (let n = Suc (length (as_vars A)) in
     A\<lparr>as_vars := as_vars A @ [(nat i, n)], as_seen := (as_seen A)(a \<mapsto> (if i = 0 then NOT_WRITTEN else i, n))\<rparr>)"

definition a_index :: "addr \<Rightarrow> astate \<Rightarrow> astate" where
  "a_index a A = A\<lparr>as_seen := (as_seen A)(a \<mapsto> (int (as_pos A), 0))\<rparr>"

inductive astep :: "pheap \<Rightarrow> astate \<Rightarrow> astate \<Rightarrow> bool" for h where
  a_fulfill: "as_stack A = (w, True) # rest \<Longrightarrow> Deref (ph_trans h) w = Some (BlkW a) \<Longrightarrow> as_seen A a = Some (i, n) \<Longrightarrow> 0 < n \<Longrightarrow>
     ph_objs h a = Some (PBlock l m ws) \<Longrightarrow>
     astep h A ((a_emit (I_Fulfill n) A)\<lparr>as_cur := as_cur A - (int (length ws) - 1), as_stack := rest\<rparr>)"
| a_build: "as_stack A = (w, True) # rest \<Longrightarrow> Deref (ph_trans h) w = Some (BlkW a) \<Longrightarrow> as_seen A a = Some (i, 0) \<Longrightarrow>
     ph_objs h a = Some (PBlock l m ws) \<Longrightarrow>
     astep h A ((a_index a ((a_emit (I_Build l m (length ws)) A)\<lparr>as_cur := as_cur A - (int (length ws) - 1)\<rparr>))\<lparr>as_stack := rest\<rparr>)"
| a_int: "as_stack A = (w, False) # rest \<Longrightarrow> Deref (ph_trans h) w = Some (IntW i) \<Longrightarrow> astep h A (a_push (a_emit (I_Int i) A))"
| a_load: "as_stack A = (w, False) # rest \<Longrightarrow> Deref (ph_trans h) w = Some (BlkW a) \<Longrightarrow> as_seen A a = Some (i, n) \<Longrightarrow> 0 < n \<Longrightarrow>
     astep h A (a_push (a_emit (I_Load n) A))"
| a_announce: "as_stack A = (w, False) # rest \<Longrightarrow> Deref (ph_trans h) w = Some (BlkW a) \<Longrightarrow> as_seen A a = Some (NOT_WRITTEN, 0) \<Longrightarrow>
     ph_objs h a = Some (PBlock l m ws) \<Longrightarrow>
     astep h A (a_push (a_var a 0 (a_emit (I_Announce l m (length ws) (Suc (length (as_vars A)))) A)))"
| a_share: "as_stack A = (w, False) # rest \<Longrightarrow> Deref (ph_trans h) w = Some (BlkW a) \<Longrightarrow> as_seen A a = Some (i, 0) \<Longrightarrow> i \<noteq> NOT_WRITTEN \<Longrightarrow>
     astep h A (a_push (a_var a i (a_emit (I_Load (Suc (length (as_vars A)))) A)))"
| a_chunk: "as_stack A = (w, False) # rest \<Longrightarrow> Deref (ph_trans h) w = Some (BlkW a) \<Longrightarrow> as_seen A a = None \<Longrightarrow>
     ph_objs h a = Some (PChunk m bs) \<Longrightarrow> astep h A (a_push (a_index a (a_emit (I_Chunk m bs) A)))"
| a_visit: "as_stack A = (w, False) # rest \<Longrightarrow> Deref (ph_trans h) w = Some (BlkW a) \<Longrightarrow> as_seen A a = None \<Longrightarrow>
     ph_objs h a = Some (PBlock l m ws) \<Longrightarrow>
     astep h A (A\<lparr>as_seen := (as_seen A)(a \<mapsto> (NOT_WRITTEN, 0)), as_stack := map (\<lambda>w. (w, False)) (rev ws) @ (w, True) # rest\<rparr>)"

inductive_cases astepE: "astep h A A'"

text \<open>The state of the pickler that the view describes.\<close>

definition rep :: "pstate \<Rightarrow> astate \<Rightarrow> bool" where
  "rep st A \<longleftrightarrow> ob_ok (pi_buffer st) \<and> ob_bytes (pi_buffer st) = code_bytes (as_code A) \<and> ob_vars (pi_buffer st) = as_vars A \<and>
     pi_seen st = as_seen A \<and> pi_stack st = as_stack A \<and> pi_cur st = as_cur A \<and> pi_max st = as_max A"

lemma rep_pos: "rep st A \<Longrightarrow> ob_pos (pi_buffer st) = as_pos A" "rep st A \<Longrightarrow> ob_count (pi_buffer st) = length (as_vars A)"
  using ob_ok_pos [of "pi_buffer st"] by (auto simp: rep_def as_pos_def)

section \<open>A round of the pickler is a step\<close>

definition emitted :: "pstate \<Rightarrow> bytes \<Rightarrow> pstate \<Rightarrow> bool" where
  "emitted st bs st' \<longleftrightarrow> (\<exists>ob. st' = st\<lparr>pi_buffer := ob\<rparr> \<and> ob_ok ob \<and> ob_bytes ob = ob_bytes (pi_buffer st) @ bs \<and> ob_vars ob = ob_vars (pi_buffer st))"

lemma writes_Some:
  "writes ob bs (Some ob') \<Longrightarrow> ob_ok ob' \<and> ob_bytes ob' = ob_bytes ob @ bs \<and> ob_vars ob' = ob_vars ob"
  by (auto simp: writes_def ob_vars_def)

lemma writes_put_uints: "ob_ok ob \<Longrightarrow> \<forall>i \<in> set is. CanPickle i \<Longrightarrow> writes ob (concat (map uint_bytes is)) (put_uints pe is ob)"
proof (induction "is" arbitrary: ob)
  case (Cons i "is")
  have "writes ob (uint_bytes i @ concat (map uint_bytes is)) (OutputBuffer_PutUInt (pe_bj pe) i ob \<bind> put_uints pe is)"
    by (rule writes_bind [OF writes_PutUInt [OF Cons.prems(1)]]) (use Cons in auto)
  then show ?case by simp
qed (simp add: writes_def)

lemma emit_emitted:
  assumes "emit pe tag is st = Some st'" and "ob_ok (pi_buffer st)" and "\<forall>i \<in> set is. CanPickle i"
  shows "emitted st (tag_byte tag # concat (map uint_bytes is)) st'"
proof -
  have "writes (pi_buffer st) ([tag_byte tag] @ concat (map uint_bytes is))
      (OutputBuffer_PutByte (pe_bj pe) (tag_byte tag) (pi_buffer st) \<bind> put_uints pe is)"
    by (rule writes_bind [OF writes_PutByte [OF assms(2)]]) (rule writes_put_uints [OF _ assms(3)])
  then show ?thesis using assms(1) unfolding emit_def emitted_def
    by (cases "OutputBuffer_PutByte (pe_bj pe) (tag_byte tag) (pi_buffer st) \<bind> put_uints pe is") (auto simp: run_elims dest: writes_Some)
qed

lemma rep_emit: "rep st A \<Longrightarrow> emitted st (encode i) st' \<Longrightarrow> rep st' (a_emit i A)"
  by (auto simp: rep_def emitted_def a_emit_def)

lemma small_CanPickle: "n < 2 ^ 31 \<Longrightarrow> CanPickle (word_of_nat n)"
  by (simp add: CanPickle_iff unat_of_nat)

lemma rep_pop: "pop_again st = Some r \<Longrightarrow> rep st A \<Longrightarrow> \<exists>st'. r = Again st' \<and> rep st' (A\<lparr>as_stack := tl (as_stack A)\<rparr>) \<and> st' = st\<lparr>pi_stack := tl (pi_stack st)\<rparr>"
  by (auto simp: pop_again_def PickleStack_PopTopFrame_def rep_def split: list.splits)

lemma rep_push:
  assumes "pop_again (SimulatePush st) = Some r" and "rep st A"
  shows "\<exists>st'. r = Again st' \<and> rep st' (a_push A) \<and> pi_found st' = pi_found st \<and> pi_stream st' = pi_stream st \<and> pi_tasks st' = pi_tasks st"
proof -
  have "rep (SimulatePush st) (A\<lparr>as_cur := as_cur A + 1, as_max := max (as_max A) (as_cur A + 1)\<rparr>)"
    using assms(2) by (auto simp: rep_def SimulatePush_def Let_def max_def)
  from rep_pop [OF assms(1) this] show ?thesis by (auto simp: a_push_def SimulatePush_def Let_def)
qed

text \<open>The rest of a round that finishes a block: the simulated height, the position, the frame.\<close>

lemma rep_SimulatePop: "SimulatePop k st = Some st' \<Longrightarrow> rep st A \<Longrightarrow> rep st' (A\<lparr>as_cur := as_cur A - k\<rparr>) \<and> pi_found st' = pi_found st \<and> pi_stream st' = pi_stream st \<and> pi_tasks st' = pi_tasks st"
  by (auto simp: SimulatePop_def rep_def run_elims)

lemma rep_index:
  assumes "set_index a st = Some st'" and "rep st A" and "as_seen A a = Some (i, 0)"
  shows "rep st' (a_index a A) \<and> pi_found st' = pi_found st \<and> pi_stream st' = pi_stream st \<and> pi_tasks st' = pi_tasks st"
  using assms rep_pos(1) [OF assms(2)] by (auto simp: set_index_def Seen_SetIndex_def rep_def a_index_def run_elims)

definition continues :: "pheap \<Rightarrow> pstate \<Rightarrow> astate \<Rightarrow> pickle_out \<Rightarrow> bool" where
  "continues h st A r \<longleftrightarrow> (\<exists>st' A'. r = Again st' \<and> astep h A A' \<and> rep st' A' \<and> pi_found st' = pi_found st \<and> pi_stream st' = pi_stream st \<and> pi_tasks st' = pi_tasks st)"

lemma round_back:
  assumes "rep st A" and "as_stack A = (w, True) # rest" and "Deref (ph_trans h) w = Some (BlkW a)" and "ph_objs h a = Some (PBlock l m ws)"
    and "plain_obj (PBlock l m ws)" and "as_seen A a = Some (i, n)" and "n < 2 ^ 31" and "pickle_back pe h a st = Some r"
  shows "continues h st A r"
proof (cases "n = 0")
  case False
  obtain st1 st2 where s: "emit pe FULFILL [word_of_nat n] st = Some st1" "SimulatePop (int (length ws) - 1) st1 = Some st2" "pop_again st2 = Some r"
    using assms(1,4,6,8) False by (auto simp: pickle_back_def Seen_GetVarNo_def rep_def run_elims Let_def)
  have "emitted st (encode (I_Fulfill n)) st1"
    using emit_emitted [OF s(1)] assms(1) small_CanPickle [OF assms(7)] by (simp add: rep_def uint_of_def)
  from rep_pop [OF s(3) rep_SimulatePop [OF s(2) rep_emit [OF assms(1) this], THEN conjunct1]]
  show ?thesis using a_fulfill [OF assms(2,3,6) _ assms(4)] False assms(2) rep_SimulatePop [OF s(2) rep_emit [OF assms(1) \<open>emitted st (encode (I_Fulfill n)) st1\<close>]]
      \<open>emitted st (encode (I_Fulfill n)) st1\<close>
    by (auto simp: continues_def a_emit_def emitted_def)
next
  case True
  have size: "length ws < 2 ^ 31" "l < 2 ^ 31" using assms(5) by auto
  obtain st1 st2 st3 where s: "emitted st (encode (I_Build l m (length ws))) st1" "SimulatePop (int (length ws) - 1) st1 = Some st2"
    "set_index a st2 = Some st3" "pop_again st3 = Some r"
    using assms(1,4,5,6,8) True size
    by (auto simp: pickle_back_def Seen_GetVarNo_def rep_def run_elims Let_def small_CanPickle uint_of_def split: if_splits dest!: emit_emitted)
  note r1 = rep_emit [OF assms(1) s(1)]
  note r2 = rep_SimulatePop [OF s(2) r1]
  have "as_seen ((a_emit (I_Build l m (length ws)) A)\<lparr>as_cur := as_cur (a_emit (I_Build l m (length ws)) A) - (int (length ws) - 1)\<rparr>) a = Some (i, 0)"
    using assms(6) True by (simp add: a_emit_def)
  note r3 = rep_index [OF s(3) conjunct1 [OF r2] this]
  from rep_pop [OF s(4) conjunct1 [OF r3]] show ?thesis using a_build [OF assms(2,3) _ assms(4)] assms(2,6) True r2 r3 s(1)
    by (auto simp: continues_def a_emit_def a_index_def as_pos_def emitted_def)
qed

lemma round_load:
  assumes "rep st A" and "as_stack A = (w, False) # rest" and "Deref (ph_trans h) w = Some (BlkW a)" and "as_seen A a = Some (i, n)" and "0 < n"
    and "n < 2 ^ 31" and "pickle_known pe h a i st = Some r"
  shows "continues h st A r"
proof -
  have v: "Seen_GetVarNo a (pi_seen st) = Some n" using assms(1,4) by (simp add: rep_def Seen_GetVarNo_def)
  have "\<exists>st1. emitted st (encode (I_Load n)) st1 \<and> pop_again (SimulatePush st1) = Some r"
  proof (cases "i = NOT_WRITTEN")
    case True
    then show ?thesis using assms(1,5,6,7) v
      by (auto simp: pickle_known_def rep_def run_elims small_CanPickle uint_of_def dest!: emit_emitted)
  next
    case False
    obtain st1 ob where s: "emit pe LOAD [] st = Some st1" "put_uints pe [word_of_nat n] (pi_buffer st1) = Some ob"
      "pop_again ((SimulatePush st1)\<lparr>pi_buffer := ob\<rparr>) = Some r"
      using assms(5,7) v False by (auto simp: pickle_known_def run_elims Let_def SimulatePush_def)
    have e: "emitted st [tag_byte LOAD] st1" using emit_emitted [OF s(1)] assms(1) by (simp add: rep_def)
    then have "ob_ok (pi_buffer st1)" by (auto simp: emitted_def)
    from writes_put_uints [OF this, of "[word_of_nat n]" pe] s(2) have "writes (pi_buffer st1) (uint_of n) (Some ob)"
      using small_CanPickle [OF assms(6)] by (simp add: uint_of_def)
    then have "emitted st (encode (I_Load n)) (st1\<lparr>pi_buffer := ob\<rparr>)" using e by (auto simp: emitted_def dest!: writes_Some)
    moreover have "SimulatePush (st1\<lparr>pi_buffer := ob\<rparr>) = (SimulatePush st1)\<lparr>pi_buffer := ob\<rparr>" by (simp add: SimulatePush_def Let_def)
    ultimately show ?thesis using s(3) by auto
  qed
  then obtain st1 where s: "emitted st (encode (I_Load n)) st1" "pop_again (SimulatePush st1) = Some r" by blast
  from rep_push [OF s(2) rep_emit [OF assms(1) s(1)]] show ?thesis using a_load [OF assms(2-5)] s(1) by (auto simp: continues_def emitted_def)
qed

lemma round_announce:
  assumes "rep st A" and "as_stack A = (w, False) # rest" and "Deref (ph_trans h) w = Some (BlkW a)" and "as_seen A a = Some (NOT_WRITTEN, 0)"
    and "ph_objs h a = Some (PBlock l m ws)" and "plain_obj (PBlock l m ws)" and "pickle_known pe h a NOT_WRITTEN st = Some r"
  shows "continues h st A r"
proof -
  have v: "Seen_GetVarNo a (pi_seen st) = Some 0" using assms(1,4) by (simp add: rep_def Seen_GetVarNo_def)
  have size: "length ws < 2 ^ 31" "l < 2 ^ 31" using assms(6) by auto
  let ?n = "Suc (length (as_vars A))"
  obtain bs st1 st2 where s: "emitted st bs st1" "bs @ uint_of ?n = encode (I_Announce l m (length ws) ?n)" "new_local pe a 0 st1 = Some st2"
    "pop_again (SimulatePush st2) = Some r"
    using assms(1,5,6,7) v size
    by (auto simp: pickle_known_def pickle_announce_def rep_def run_elims Let_def small_CanPickle uint_of_def split: if_splits dest!: emit_emitted)
  have st1: "rep (st1\<lparr>pi_buffer := pi_buffer st\<rparr>) A" "pi_seen st1 = as_seen A" "ob_ok (pi_buffer st1)" "ob_vars (pi_buffer st1) = as_vars A"
    "ob_bytes (pi_buffer st1) = code_bytes (as_code A) @ bs" "pi_found st1 = pi_found st" "pi_stream st1 = pi_stream st \<and> pi_tasks st1 = pi_tasks st" "pi_stack st1 = as_stack A"
    "pi_cur st1 = as_cur A" "pi_max st1 = as_max A"
    using s(1) assms(1) by (auto simp: emitted_def rep_def)
  obtain k ob se where l: "PutLocal (pe_bj pe) (pe_lj pe) 0 (pi_buffer st1) = Some (k, ob)" "Seen_SetVarNo a k (pi_seen st1) = Some se"
    "st2 = st1\<lparr>pi_buffer := ob, pi_seen := se\<rparr>" using s(3) by (auto simp: new_local_def run_elims)
  note pv = PutLocal_vars [OF st1(3) l(1)]
  have k: "k = ?n" using pv(1) ob_ok_pos(2) [OF st1(3)] st1(4) by simp
  have "rep st2 (a_var a 0 (a_emit (I_Announce l m (length ws) ?n) A))"
    using pv st1 l k s(2) [symmetric] assms(4) by (auto simp: rep_def a_var_def a_emit_def Let_def Seen_SetVarNo_def uint_of_def simp del: encode.simps)
  from rep_push [OF s(4) this] show ?thesis using a_announce [OF assms(2-5)] st1(6,7) l(3) by (auto simp: continues_def)
qed

lemma SimulatePush_fields [simp]: "pi_buffer (SimulatePush st) = pi_buffer st" "pi_seen (SimulatePush st) = pi_seen st"
  by (simp_all add: SimulatePush_def Let_def)

lemma SimulatePush_swap: "(SimulatePush st)\<lparr>pi_buffer := ob, pi_seen := se\<rparr> = SimulatePush (st\<lparr>pi_buffer := ob, pi_seen := se\<rparr>)"
  by (cases st) (simp add: SimulatePush_def Let_def)

lemma round_share:
  assumes "rep st A" and "as_stack A = (w, False) # rest" and "Deref (ph_trans h) w = Some (BlkW a)" and "as_seen A a = Some (i, 0)" and "0 < i"
    and "pickle_known pe h a i st = Some r"
  shows "continues h st A r"
proof -
  have v: "Seen_GetVarNo a (pi_seen st) = Some 0" using assms(1,4) by (simp add: rep_def Seen_GetVarNo_def)
  have i: "i \<noteq> NOT_WRITTEN" using assms(5) by (simp add: NOT_WRITTEN_def)
  let ?n = "Suc (length (as_vars A))"
  obtain st1 k ob se where s: "emit pe LOAD [] st = Some st1" "PutLocal (pe_bj pe) (pe_lj pe) (nat i) (pi_buffer st1) = Some (k, ob)"
    "Seen_SetVarNo a k (pi_seen st1) = Some se" "pop_again (SimulatePush (st1\<lparr>pi_buffer := ob, pi_seen := se\<rparr>)) = Some r"
    using assms(6) v i by (auto simp: pickle_known_def run_elims Let_def new_local_def SimulatePush_swap)
  have "emitted st [tag_byte LOAD] st1" using emit_emitted [OF s(1)] assms(1) by (simp add: rep_def)
  then have st1: "pi_seen st1 = as_seen A" "ob_ok (pi_buffer st1)" "ob_vars (pi_buffer st1) = as_vars A"
    "ob_bytes (pi_buffer st1) = code_bytes (as_code A) @ [tag_byte LOAD]" "pi_found st1 = pi_found st" "pi_stream st1 = pi_stream st \<and> pi_tasks st1 = pi_tasks st" "pi_stack st1 = as_stack A"
    "pi_cur st1 = as_cur A" "pi_max st1 = as_max A"
    using assms(1) by (auto simp: emitted_def rep_def)
  note pv = PutLocal_vars [OF st1(2) s(2)]
  have k: "k = ?n" using pv(1) ob_ok_pos(2) [OF st1(2)] st1(3) by simp
  have "rep (st1\<lparr>pi_buffer := ob, pi_seen := se\<rparr>) (a_var a i (a_emit (I_Load ?n) A))"
    using pv st1 s(3) k assms(4,5) by (auto simp: rep_def a_var_def a_emit_def Let_def Seen_SetVarNo_def uint_of_def)
  from rep_push [OF s(4) this] show ?thesis using a_share [OF assms(2-4) i] st1(5,6) by (auto simp: continues_def)
qed

lemma round_int:
  assumes "rep st A" and "as_stack A = (w, False) # rest" and "Deref (ph_trans h) w = Some (IntW i)" and "MIN_VALID_INT \<le> i" and "i \<le> MAX_VALID_INT"
    and "do { st1 \<leftarrow> (if i \<ge> 0 then emit pe POSINT [word_of_int i] st else emit pe NEGINT [word_of_int (- (i + 1))] st); pop_again (SimulatePush st1) } = Some r"
  shows "continues h st A r"
proof -
  have can: "CanPickle (word_of_int k)" if "0 \<le> k" "k \<le> MAX_VALID_INT" for k
    using that small_CanPickle [of "nat k"] by (simp add: nat_less_iff)
  have n: "- (i + 1) \<le> MAX_VALID_INT" using assms(4) by simp
  obtain st1 where s: "emitted st (encode (I_Int i)) st1" "pop_again (SimulatePush st1) = Some r"
    using assms(1,6) can [of i] can [of "- (i + 1)"] assms(5) n
    by (auto simp: rep_def run_elims split: if_splits simp del: minus_add_distrib dest!: emit_emitted)
  from rep_push [OF s(2) rep_emit [OF assms(1) s(1)]] show ?thesis using a_int [OF assms(2,3)] s(1) by (auto simp: continues_def emitted_def)
qed

lemma push_all: "fold PickleStack_Push ws s = map (\<lambda>w. (w, False)) (rev ws) @ s"
  by (induction ws arbitrary: s) (auto simp: PickleStack_Push_def)

lemma round_new:
  assumes "rep st A" and "as_stack A = (w, False) # rest" and "Deref (ph_trans h) w = Some (BlkW a)" and "as_seen A a = None"
    and "ph_objs h a = Some ob" and "plain_obj ob" and "pickle_new pe h a st = Some r"
  shows "continues h st A r"
proof (cases ob)
  case (PBlock l m ws)
  have "visit a ws st = Some r" using assms(5-7) PBlock by (auto simp: pickle_new_def)
  then have "r = Again (st\<lparr>pi_seen := (as_seen A)(a \<mapsto> (NOT_WRITTEN, 0)), pi_stack := map (\<lambda>w. (w, False)) (rev ws) @ (w, True) # rest\<rparr>)"
    using assms(1,2) by (auto simp: visit_def PickleStack_SetBack_def push_all Seen_Add_def rep_def)
  then show ?thesis using a_visit [OF assms(2-4)] assms(1,5) PBlock unfolding continues_def
    by (intro exI conjI) (assumption | simp add: rep_def)+
next
  case (PChunk m bs)
  have size: "length bs < 2 ^ 31" using assms(6) PChunk by simp
  obtain st1 obf where s: "emit pe (if m then MCHUNK else CHUNK) [word_of_nat (length bs)] st = Some st1"
    "OutputBuffer_PutBytes (pe_bj pe) bs (pi_buffer st1) = Some obf"
    "pop_again (SimulatePush (st1\<lparr>pi_buffer := obf, pi_seen := Seen_Add a (int (ob_pos obf)) (pi_seen st1)\<rparr>)) = Some r"
    using assms(5,7) PChunk by (auto simp: pickle_new_def run_elims Let_def)
  have e: "emitted st (tag_byte (if m then MCHUNK else CHUNK) # uint_of (length bs)) st1"
    using emit_emitted [OF s(1)] assms(1) small_CanPickle [OF size] by (simp add: rep_def uint_of_def)
  then have "ob_ok (pi_buffer st1)" by (auto simp: emitted_def)
  from writes_PutBytes [OF this, of bs "pe_bj pe"] s(2) have w: "writes (pi_buffer st1) bs (Some obf)" by simp
  then have "emitted st (encode (I_Chunk m bs)) (st1\<lparr>pi_buffer := obf\<rparr>)" using e by (auto simp: emitted_def dest!: writes_Some)
  note rp = rep_emit [OF assms(1) this]
  have "ob_pos obf = as_pos (a_emit (I_Chunk m bs) A)" using rep_pos(1) [OF rp] by simp
  then have "rep (st1\<lparr>pi_buffer := obf, pi_seen := Seen_Add a (int (ob_pos obf)) (pi_seen st1)\<rparr>) (a_index a (a_emit (I_Chunk m bs) A))"
    using rp by (simp add: rep_def a_index_def Seen_Add_def as_pos_def)
  from rep_push [OF s(3) this] show ?thesis using a_chunk [OF assms(2-4)] assms(5) PChunk e by (auto simp: continues_def emitted_def)
qed

text \<open>What the rounds need to know of a state: the words on the stack are plain, the blocks on the way are known.\<close>

definition fit :: "pheap \<Rightarrow> addr set \<Rightarrow> astate \<Rightarrow> bool" where
  "fit h G A \<longleftrightarrow> (\<forall>(w, b) \<in> set (as_stack A). plain_word h G w \<and>
       (b \<longrightarrow> (\<exists>a l m ws i n. Deref (ph_trans h) w = Some (BlkW a) \<and> ph_objs h a = Some (PBlock l m ws) \<and> as_seen A a = Some (i, n)))) \<and>
     (\<forall>a i n. as_seen A a = Some (i, n) \<longrightarrow> (i = NOT_WRITTEN \<or> 0 < i) \<and> n < 2 ^ 31 \<and> (i = NOT_WRITTEN \<longrightarrow> (\<exists>l m ws. ph_objs h a = Some (PBlock l m ws))))"

lemma round_step:
  assumes "plain_graph h G" and "fit h G A" and "rep st A" and "as_stack A \<noteq> []" and "pickle_round pe h st = Some r"
  shows "continues h st A r"
proof -
  obtain w b rest where top: "as_stack A = (w, b) # rest" using assms(4) by (cases "as_stack A") auto
  have st: "pi_stack st = (w, b) # rest" "pi_seen st = as_seen A" using assms(3) top by (simp_all add: rep_def)
  have "plain_word h G w" using assms(2) top by (auto simp: fit_def)
  then obtain v where v: "Deref (ph_trans h) w = Some v"
    "case v of IntW i \<Rightarrow> MIN_VALID_INT \<le> i \<and> i \<le> MAX_VALID_INT | BlkW a \<Rightarrow> a \<in> G | TrW a \<Rightarrow> False" unfolding plain_word_def by blast
  consider i where "Deref (ph_trans h) w = Some (IntW i)" "MIN_VALID_INT \<le> i" "i \<le> MAX_VALID_INT"
    | a where "Deref (ph_trans h) w = Some (BlkW a)" "a \<in> G" using v by (cases v) auto
  then show ?thesis
  proof cases
    case (1 i)
    then have "\<not> b" using assms(2) top by (auto simp: fit_def)
    then show ?thesis using round_int [OF assms(3) _ 1, of rest pe r] top assms(5) st 1
      by (simp add: pickle_round_def WordToTransient_def WordToInt_def)
  next
    case (2 a)
    obtain ob where ob: "ph_objs h a = Some ob" "plain_obj ob" using assms(1) 2(2) by (auto simp: plain_graph_def)
    show ?thesis
    proof (cases b)
      case True
      then obtain l m ws i n where x: "ob = PBlock l m ws" "as_seen A a = Some (i, n)"
        using assms(2) top 2(1) ob(1) by (auto simp: fit_def)
      have "n < 2 ^ 31" using assms(2) x(2) by (auto simp: fit_def)
      then show ?thesis using round_back [OF assms(3) _ 2(1), of rest] x ob True top assms(5) st 2(1)
        by (simp add: pickle_round_def WordToBlock_def)
    next
      case False
      have run: "(if Seen_Find a (as_seen A) \<noteq> NOT_FOUND then pickle_known pe h a (Seen_Find a (as_seen A)) st else pickle_new pe h a st) = Some r"
        using assms(5) st 2(1) False by (simp add: pickle_round_def WordToTransient_def WordToInt_def WordToBlock_def Let_def)
      have top': "as_stack A = (w, False) # rest" using top False by simp
      show ?thesis
      proof (cases "as_seen A a")
        case None
        then show ?thesis using round_new [OF assms(3) top' 2(1) None ob] run by (simp add: Seen_Find_def)
      next
        case (Some p)
        obtain i n where p: "as_seen A a = Some (i, n)" using Some by (cases p) auto
        have k: "i = NOT_WRITTEN \<or> 0 < i" "n < 2 ^ 31" "i = NOT_WRITTEN \<Longrightarrow> \<exists>l m ws. ph_objs h a = Some (PBlock l m ws)"
          using assms(2) p unfolding fit_def by blast+
        have "i \<noteq> NOT_FOUND" using k(1) by (auto simp: NOT_FOUND_def NOT_WRITTEN_def)
        then have known: "pickle_known pe h a i st = Some r" using run p by (simp add: Seen_Find_def)
        consider "0 < n" | "n = 0" "i = NOT_WRITTEN" | "n = 0" "0 < i" using k(1) by auto
        then show ?thesis
        proof cases
          case 1 then show ?thesis using round_load [OF assms(3) top' 2(1) p _ k(2) known] by simp
        next
          case n: 2 then show ?thesis using round_announce [OF assms(3) top' 2(1)] p ob k(3) known by auto
        next
          case n: 3 then show ?thesis using round_share [OF assms(3) top' 2(1)] p known by auto
        qed
      qed
    qed
  qed
qed

end
