(* ===== verification/Pickle_Exec.thy ===== *)
theory Pickle_Exec
  imports Pickle_Code
begin

text \<open>
  The unpickler as a machine for the instructions of \<open>Pickle_Code\<close>. Its state is a stack, the local variables and a heap;
  \<open>vexec\<close> executes an instruction. A round of the unpickler whose stream starts with the bytes of an instruction executes it.
\<close>

section \<open>Frames\<close>

definition frame_of :: "nat \<Rightarrow> store_word list \<Rightarrow> store_word list \<Rightarrow> uframe \<Rightarrow> bool" where
  "frame_of cap us loc f \<longleftrightarrow> length us \<le> cap \<and> uf_locals f = length loc \<and> uf_top f = UF_SIZE + length loc + length us \<and>
     uf_size f = 1 + UF_SIZE + length (uf_args f) \<and> length (uf_args f) = length loc + cap \<and>
     (\<exists>rest. uf_args f = loc @ rev us @ rest)"

lemma frame_of_New: "frame_of cap [] (replicate n (IntW 0)) (UnpickleFrame_New cap n)"
  by (simp add: frame_of_def UnpickleFrame_New_def replicate_add add.commute [of cap])

lemma frame_Push:
  assumes "frame_of cap us loc f" and "length us < cap"
  shows "\<exists>f'. uf_Push w f = Some f' \<and> frame_of cap (w # us) loc f'"
proof -
  obtain rest where r: "uf_args f = loc @ rev us @ rest" using assms(1) by (auto simp: frame_of_def)
  obtain x xs where x: "rest = x # xs" using r assms by (cases rest) (auto simp: frame_of_def)
  have "(uf_args f)[length loc + length us := w] = loc @ rev (w # us) @ xs"
    unfolding r x by (simp add: list_update_append)
  then show ?thesis using assms r x by (auto simp: frame_of_def uf_Push_def uf_set_def run_simps UF_SIZE_def)
qed

lemma frame_Pop:
  assumes "frame_of cap (w # us) loc f"
  shows "\<exists>f'. uf_Pop f = Some (w, f') \<and> frame_of cap us loc f'"
proof -
  obtain rest where r: "uf_args f = loc @ rev us @ w # rest" using assms by (auto simp: frame_of_def)
  have "uf_args f ! (length loc + length us) = w" unfolding r by (simp add: nth_append)
  then show ?thesis using assms r by (auto simp: frame_of_def uf_Pop_def uf_get_def run_simps UF_SIZE_def)
qed

lemma frame_Top: "frame_of cap (w # us) loc f \<Longrightarrow> uf_Top f = Some w"
  using frame_Pop [of cap w us loc f] by (auto simp: uf_Pop_def uf_Top_def run_elims)

lemma frame_Store:
  assumes "frame_of cap us loc f" and "i < length loc" and "loc ! i = IntW 0"
  shows "\<exists>f'. uf_Store T i w f = Some f' \<and> frame_of cap us (loc[i := w]) f'"
proof -
  obtain rest where r: "uf_args f = loc @ rev us @ rest" using assms(1) by (auto simp: frame_of_def)
  have "uf_args f ! i = IntW 0" "(uf_args f)[i := w] = loc[i := w] @ rev us @ rest"
    unfolding r using assms(2,3) by (simp_all add: nth_append list_update_append)
  moreover have "WordToInt T (IntW 0) = Some (Some 0)" by (simp add: WordToInt_def Deref.simps)
  ultimately show ?thesis using assms r by (auto simp: frame_of_def uf_Store_def uf_get_def uf_set_def run_simps UF_SIZE_def)
qed

lemma frame_Load:
  assumes "frame_of cap us loc f" and "i < length loc" and "loc ! i = BlkW a"
  shows "uf_Load T i f = Some (BlkW a)"
proof -
  have "uf_args f ! i = BlkW a" using assms by (auto simp: frame_of_def nth_append)
  moreover have "WordToInt T (BlkW a) = Some None" by (simp add: WordToInt_def Deref.simps)
  ultimately show ?thesis using assms by (simp add: frame_of_def uf_Load_def uf_get_def run_simps UF_SIZE_def)
qed

lemma frame_Load_0:
  assumes "frame_of cap us loc f" and "0 < length loc" and "WordToInt T (loc ! 0) = Some n"
  shows "uf_Load T 0 f = Some (loc ! 0)"
proof -
  have "uf_args f ! 0 = loc ! 0" using assms by (auto simp: frame_of_def nth_append)
  then show ?thesis using assms by (simp add: frame_of_def uf_Load_def uf_get_def run_simps UF_SIZE_def)
qed

lemma frame_pop_args:
  assumes "frame_of cap (vs @ us) loc f" and "i + length vs \<le> length ws"
  shows "\<exists>f'. pop_args i (length vs) ws f = Some (take i ws @ vs @ drop (i + length vs) ws, f') \<and> frame_of cap us loc f'"
  using assms
proof (induction vs arbitrary: i ws f)
  case Nil
  then show ?case by simp
next
  case (Cons v vs)
  obtain f1 where f1: "uf_Pop f = Some (v, f1)" "frame_of cap (vs @ us) loc f1" using frame_Pop Cons.prems(1) by fastforce
  from Cons.IH [OF f1(2), of "Suc i" "ws[i := v]"] Cons.prems(2)
  show ?case using f1(1) by (auto simp: run_simps take_Suc_conv_app_nth)
qed

section \<open>Instructions\<close>

record vstate =
  vs_stack :: "store_word list"
  vs_locals :: "store_word list"
  vs_heap :: pheap

text \<open>Store a word in a local variable that is still free.\<close>

definition v_store :: "nat \<Rightarrow> store_word \<Rightarrow> vstate \<Rightarrow> vstate option" where
  "v_store n w V = do {
     Assert (n < length (vs_locals V) \<and> vs_locals V ! n = IntW 0);
     Some (V\<lparr>vs_locals := (vs_locals V)[n := w]\<rparr>) }"

definition v_push :: "store_word \<Rightarrow> vstate \<Rightarrow> vstate" where
  "v_push w V = V\<lparr>vs_stack := w # vs_stack V\<rparr>"

definition v_new :: "pobj \<Rightarrow> vstate \<Rightarrow> vstate" where
  "v_new ob V = v_push (BlkW (ph_next (vs_heap V))) (V\<lparr>vs_heap := snd (new_obj ob (vs_heap V))\<rparr>)"

definition raw_words :: "junk \<Rightarrow> nat \<Rightarrow> nat \<Rightarrow> store_word list" where
  "raw_words junk l n = (if l = CLOSURE_NO then (map junk [0..<n])[0 := IntW 0] else map junk [0..<n])"

definition v_load :: "nat \<Rightarrow> vstate \<Rightarrow> addr option" where
  "v_load n V = do {
     Assert (n < length (vs_locals V));
     case vs_locals V ! n of BlkW a \<Rightarrow> Some a | _ \<Rightarrow> None }"

fun vexec :: "junk \<Rightarrow> pinstr \<Rightarrow> vstate \<Rightarrow> vstate option" where
  "vexec j (I_Int i) V = Some (v_push (IntW i) V)"
| "vexec j (I_Load n) V = do { a \<leftarrow> v_load n V; Some (v_push (BlkW a) V) }"
| "vexec j (I_Store n) V = (case vs_stack V of [] \<Rightarrow> None | w # us \<Rightarrow> v_store n w V)"
| "vexec j (I_Chunk m bs) V = Some (v_new (PChunk m bs) V)"
| "vexec j (I_Build l m n) V = do {
     Assert (n \<le> length (vs_stack V));
     Some (v_new (PBlock l m (take n (vs_stack V))) (V\<lparr>vs_stack := drop n (vs_stack V)\<rparr>)) }"
| "vexec j (I_Announce l m n v) V = v_store v (BlkW (ph_next (vs_heap V))) (v_new (PBlock l m (raw_words j l n)) V)"
| "vexec j (I_Fulfill v) V = do {
     a \<leftarrow> v_load v V;
     case ph_objs (vs_heap V) a of Some (PBlock l m ws) \<Rightarrow> do {
         Assert (length ws \<le> length (vs_stack V));
         Some (v_push (BlkW a) (V\<lparr>vs_stack := drop (length ws) (vs_stack V),
           vs_heap := (vs_heap V)\<lparr>ph_objs := (ph_objs (vs_heap V))(a \<mapsto> PBlock l m (take (length ws) (vs_stack V)))\<rparr>\<rparr>)) }
     | _ \<Rightarrow> None }"

text \<open>The operands that the bytes of an instruction can hold and the unpickler accepts.\<close>

fun wf_instr :: "pinstr \<Rightarrow> bool" where
  "wf_instr (I_Int i) \<longleftrightarrow> MIN_VALID_INT \<le> i \<and> i \<le> MAX_VALID_INT"
| "wf_instr (I_Load n) \<longleftrightarrow> n < 2 ^ 30"
| "wf_instr (I_Store n) \<longleftrightarrow> n < 2 ^ 30"
| "wf_instr (I_Chunk m bs) \<longleftrightarrow> plain_obj (PChunk m bs)"
| "wf_instr (I_Build l m n) \<longleftrightarrow> (\<exists>ws. length ws = n \<and> plain_obj (PBlock l m ws))"
| "wf_instr (I_Announce l m n v) \<longleftrightarrow> (\<exists>ws. length ws = n \<and> plain_obj (PBlock l m ws)) \<and> v < 2 ^ 30"
| "wf_instr (I_Fulfill v) \<longleftrightarrow> v < 2 ^ 30"

section \<open>Rounds of the unpickler\<close>

definition u_rep :: "nat \<Rightarrow> vstate \<Rightarrow> bytes \<Rightarrow> ustate \<Rightarrow> bool" where
  "u_rep cap V rest u \<longleftrightarrow> is_ok (u_stream u) \<and> is_rest (u_stream u) = rest \<and> frame_of cap (vs_stack V) (vs_locals V) (u_frame u) \<and> u_heap u = vs_heap V"

definition executes :: "nat \<Rightarrow> vstate \<Rightarrow> bytes \<Rightarrow> utask list \<Rightarrow> unpickle_out option \<Rightarrow> bool" where
  "executes cap V rest ts r \<longleftrightarrow> (\<exists>u. (r = Some (UAgain u) \<or> r = Some (URet PREEMPT u)) \<and> u_rep cap V rest u \<and> u_tasks u = ts)"

lemma end_executes: "u_rep cap V rest u \<Longrightarrow> u_tasks u = ts \<Longrightarrow> executes cap V rest ts (end_round ue False u)"
  by (auto simp: executes_def end_round_def)

lemma push_executes:
  assumes "u_rep cap V rest u" and "u_tasks u = ts" and "length (vs_stack V) < cap" and "V' = v_push w V"
  shows "executes cap V' rest ts (push_round ue False w u)"
proof -
  obtain f where "uf_Push w (u_frame u) = Some f" "frame_of cap (w # vs_stack V) (vs_locals V) f"
    using frame_Push [of cap "vs_stack V" "vs_locals V" "u_frame u" w] assms(1,3) by (auto simp: u_rep_def)
  then show ?thesis using assms by (auto simp: push_round_def u_rep_def v_push_def intro!: end_executes)
qed

lemma read_uint_executes:
  assumes "u_rep cap V (uint_of n @ rest) u" and "n < 2 ^ 31" and "u_tasks u = ts"
    and "\<And>u'. u_rep cap V rest u' \<Longrightarrow> u_tasks u' = ts \<Longrightarrow> executes cap V' rest' ts (k (word_of_nat n) u')"
  shows "executes cap V' rest' ts (read_uint u k)"
proof -
  let ?s = "(u_stream u)\<lparr>is_rd := is_rd (u_stream u) + length (uint_of n)\<rparr>"
  have g: "GetUInt (u_stream u) = Some (word_of_nat n, ?s)" "is_ok ?s" "is_rest ?s = rest"
    using GetUInt_rest [of "u_stream u" "word_of_nat n" rest] assms(1) small_CanPickle [OF assms(2)] by (simp_all add: u_rep_def uint_of_def)
  have "u_rep cap V rest (u\<lparr>u_stream := ?s\<rparr>)" "\<not> is_eob ?s" using g assms(1) by (simp_all add: u_rep_def is_ok_def)
  then show ?thesis using assms(4) [of "u\<lparr>u_stream := ?s\<rparr>"] assms(3) g(1) by (simp add: read_uint_def)
qed

lemma read_byte_executes:
  assumes "u_rep cap V (b # rest) u" and "u_tasks u = ts"
    and "\<And>u'. u_rep cap V rest u' \<Longrightarrow> u_tasks u' = ts \<Longrightarrow> executes cap V' rest' ts (k b u')"
  shows "executes cap V' rest' ts (read_byte u k)"
proof -
  let ?s = "(u_stream u)\<lparr>is_rd := is_rd (u_stream u) + 1\<rparr>"
  have g: "GetByte (u_stream u) = Some (b, ?s)" "is_ok ?s" "is_rest ?s = rest"
    using GetByte_rest [of "u_stream u" b rest] assms(1) by (simp_all add: u_rep_def)
  have "u_rep cap V rest (u\<lparr>u_stream := ?s\<rparr>)" "\<not> is_eob ?s" using g assms(1) by (simp_all add: u_rep_def is_ok_def)
  then show ?thesis using assms(3) [of "u\<lparr>u_stream := ?s\<rparr>"] assms(2) g(1) by (simp add: read_byte_def)
qed

lemma read_bytes_executes:
  assumes "u_rep cap V (bs @ rest) u" and "rest \<noteq> []" and "u_tasks u = ts"
    and "\<And>u'. u_rep cap V rest u' \<Longrightarrow> u_tasks u' = ts \<Longrightarrow> executes cap V' rest' ts (k bs u')"
  shows "executes cap V' rest' ts (read_bytes (length bs) u k)"
proof -
  let ?s = "(u_stream u)\<lparr>is_rd := is_rd (u_stream u) + length bs\<rparr>"
  have s: "is_ok (u_stream u)" "is_rest (u_stream u) = bs @ rest" using assms(1) by (auto simp: u_rep_def)
  have "length (is_rest (u_stream u)) = is_tl (u_stream u) - is_rd (u_stream u)" using s(1) by (simp add: is_rest_def is_ok_def)
  then have room: "is_rd (u_stream u) + length bs < is_tl (u_stream u)" using s(2) assms(2) by (cases rest) auto
  have "bs = take (length bs) (is_rest (u_stream u))" using s(2) by simp
  also have "\<dots> = take (length bs) (drop (is_rd (u_stream u)) (is_buffer (u_stream u)))" using room by (simp add: is_rest_def drop_take)
  finally have g: "GetBytes (length bs) (u_stream u) = (bs, ?s)" using room by (simp add: GetBytes_def)
  have "is_rest ?s = drop (length bs) (is_rest (u_stream u))" by (simp add: is_rest_def add.commute)
  then have "u_rep cap V rest (u\<lparr>u_stream := ?s\<rparr>)" "\<not> is_eob ?s" using s room assms(1) by (auto simp: u_rep_def is_ok_def)
  then show ?thesis using assms(4) [of "u\<lparr>u_stream := ?s\<rparr>"] assms(3) g by (simp add: read_bytes_def)
qed

lemma u_commit_rep [simp, intro]: "u_rep cap V rest u \<Longrightarrow> u_rep cap V rest (u_commit u)"
  by (auto simp: u_rep_def u_commit_def Commit_def is_ok_def is_rest_def)

lemma u_commit_fields [simp]: "u_tasks (u_commit u) = u_tasks u" "u_frame (u_commit u) = u_frame u" "u_heap (u_commit u) = u_heap u"
  by (simp_all add: u_commit_def)

lemma byte_tag_byte [simp]: "byte_tag (tag_byte t) = Some t"
  by (cases t) (simp_all add: byte_tag_def pickle_tags_def run_simps)

declare tag_byte.simps [simp del]

lemma too_big_small: "n < 2 ^ 30 \<Longrightarrow> \<not> too_big (word_of_nat n)"
  by (simp add: too_big_def not_less word_le_nat_alt unat_of_nat)

lemma int_word: "MIN_VALID_INT \<le> i \<Longrightarrow> i \<le> MAX_VALID_INT \<Longrightarrow> sint (word_of_int i :: u_int) = i"
  by (simp add: sint_uint uint_word_of_int_eq signed_take_bit_take_bit signed_take_bit_int_eq_self)

lemma int_operand: "0 \<le> i \<Longrightarrow> uint_bytes (word_of_int i) = uint_of (nat i)" "0 \<le> i \<Longrightarrow> (word_of_nat (nat i) :: u_int) = word_of_int i"
  by (simp_all add: uint_of_def)

text \<open>Reading an operand that must be a valid integer.\<close>

lemma read_operand:
  assumes "u_rep cap V (uint_of n @ rest) u" and "n < 2 ^ 30" and "u_tasks u = ts"
    and "\<And>u'. u_rep cap V rest u' \<Longrightarrow> u_tasks u' = ts \<Longrightarrow> executes cap V' rest' ts (k (word_of_nat n) u')"
  shows "executes cap V' rest' ts (read_uint u (\<lambda>x st. let st = u_commit st in if too_big x then corrupt ue st else k x st))"
  by (rule read_uint_executes [OF assms(1) _ assms(3)]) (use assms(2,4) too_big_small [OF assms(2)] in auto)

text \<open>The round of a tag, with the stream behind it.\<close>

lemma round_read:
  assumes "u_rep cap V (tag_byte t # rest) u"
  obtains u' where "u_rep cap V rest u'" and "u_tasks u' = u_tasks u" and "\<And>k. read_byte u k = k (tag_byte t) u'"
proof
  let ?u = "u\<lparr>u_stream := (u_stream u)\<lparr>is_rd := is_rd (u_stream u) + 1\<rparr>\<rparr>"
  note g = GetByte_rest [of "u_stream u" "tag_byte t" rest]
  show "u_rep cap V rest ?u" "u_tasks ?u = u_tasks u" using g assms by (simp_all add: u_rep_def)
  show "read_byte u k = k (tag_byte t) ?u" for k using g assms by (simp add: read_byte_def u_rep_def is_ok_def)
qed

lemma exec_int:
  assumes "u_rep cap V (encode (I_Int i) @ rest) u" and "wf_instr (I_Int i)" and "length (vs_stack V) < cap"
  shows "executes cap (v_push (IntW i) V) rest (u_tasks u) (unpickle_round ue u)"
proof (cases "i \<ge> 0")
  case True
  have n: "nat i < 2 ^ 30" using assms(2) True by simp
  obtain u' where u: "u_rep cap V (uint_of (nat i) @ rest) u'" "u_tasks u' = u_tasks u" "\<And>k. read_byte u k = k (tag_byte POSINT) u'"
    using assms(1) True int_operand(1) by (auto elim: round_read)
  show ?thesis using read_operand [OF u(1) n u(2)] push_executes [OF _ _ assms(3) refl] assms(2) True
    by (simp add: unpickle_round_def u(3) int_operand int_word)
next
  case False
  let ?j = "- (i + 1)"
  have n: "nat ?j < 2 ^ 30" "0 \<le> ?j" using assms(2) False by simp_all
  have w: "- (word_of_nat (nat ?j) + 1) = (word_of_int i :: u_int)" unfolding int_operand(2) [OF n(2)] by simp
  obtain u' where u: "u_rep cap V (uint_of (nat ?j) @ rest) u'" "u_tasks u' = u_tasks u" "\<And>k. read_byte u k = k (tag_byte NEGINT) u'"
    using assms(1) False int_operand(1) [OF n(2)] by (auto simp del: minus_add_distrib elim: round_read)
  have s: "sint (- (word_of_nat (nat ?j) + 1) :: u_int) = i" unfolding w using assms(2) int_word by simp
  show ?thesis using read_operand [OF u(1) n(1) u(2)] push_executes [OF _ _ assms(3) refl] s
    by (simp add: unpickle_round_def u(3) del: minus_add_distrib)
qed

lemma exec_load:
  assumes "u_rep cap V (encode (I_Load n) @ rest) u" and "wf_instr (I_Load n)" and "v_load n V = Some a" and "length (vs_stack V) < cap"
  shows "executes cap (v_push (BlkW a) V) rest (u_tasks u) (unpickle_round ue u)"
proof -
  have a: "n < length (vs_locals V)" "vs_locals V ! n = BlkW a" using assms(3) by (auto simp: v_load_def run_elims split: store_word.splits)
  have l: "uf_Load T n (u_frame u') = Some (BlkW a)" if "u_rep cap V rest u'" for u' T
    using that frame_Load [OF _ a] by (auto simp: u_rep_def)
  have n: "n < 2 ^ 30" "unat (word_of_nat n :: u_int) = n" using assms(2) by (simp_all add: unat_of_nat)
  obtain u' where u: "u_rep cap V (uint_of n @ rest) u'" "u_tasks u' = u_tasks u" "\<And>k. read_byte u k = k (tag_byte LOAD) u'"
    using assms(1) by (auto elim: round_read)
  show ?thesis using read_operand [OF u(1) n(1) u(2)] push_executes [OF _ _ assms(4) refl] l n(2)
    by (simp add: unpickle_round_def u(3))
qed

lemma exec_store:
  assumes "u_rep cap V (encode (I_Store n) @ rest) u" and "wf_instr (I_Store n)" and "vs_stack V = w # us" and "v_store n w V = Some V'"
  shows "executes cap V' rest (u_tasks u) (unpickle_round ue u)"
proof -
  have a: "n < length (vs_locals V)" "vs_locals V ! n = IntW 0" "V' = V\<lparr>vs_locals := (vs_locals V)[n := w]\<rparr>" using assms(4) by (auto simp: v_store_def run_elims)
  have n: "n < 2 ^ 30" "unat (word_of_nat n :: u_int) = n" using assms(2) by (simp_all add: unat_of_nat)
  have l: "executes cap V' rest (u_tasks u) (do { x \<leftarrow> uf_Top (u_frame u'); f \<leftarrow> uf_Store (ph_trans (u_heap u')) n x (u_frame u'); end_round ue False (u'\<lparr>u_frame := f\<rparr>) })"
    if u': "u_rep cap V rest u'" "u_tasks u' = u_tasks u" for u'
  proof -
    have f: "frame_of cap (w # us) (vs_locals V) (u_frame u')" using u'(1) assms(3) by (simp add: u_rep_def)
    obtain f' where "uf_Store (ph_trans (u_heap u')) n w (u_frame u') = Some f'" "frame_of cap (w # us) ((vs_locals V)[n := w]) f'"
      using frame_Store [OF f a(1,2)] by blast
    then show ?thesis using u' a(3) assms(3) frame_Top [OF f] by (auto simp: u_rep_def intro!: end_executes)
  qed
  obtain u' where u: "u_rep cap V (uint_of n @ rest) u'" "u_tasks u' = u_tasks u" "\<And>k. read_byte u k = k (tag_byte STORE) u'"
    using assms(1) by (auto elim: round_read)
  show ?thesis using read_operand [OF u(1) n(1) u(2)] l n(2) by (simp add: unpickle_round_def u(3))
qed

lemma exec_chunk:
  assumes "u_rep cap V (encode (I_Chunk m bs) @ rest) u" and "wf_instr (I_Chunk m bs)" and "rest \<noteq> []" and "length (vs_stack V) < cap"
  shows "executes cap (v_new (PChunk m bs) V) rest (u_tasks u) (unpickle_round ue u)"
proof -
  let ?t = "if m then MCHUNK else CHUNK" and ?n = "length bs"
  have n: "?n < 2 ^ 31" "unat (word_of_nat ?n :: u_int) = ?n" "String_New (ue_bj ue) ?n = Some (map (ue_bj ue) [0..<?n])"
    using assms(2) by (simp_all add: unat_of_nat String_New_def run_simps)
  obtain u' where u: "u_rep cap V (uint_of ?n @ bs @ rest) u'" "u_tasks u' = u_tasks u" "\<And>k. read_byte u k = k (tag_byte ?t) u'"
    using assms(1) by (auto elim: round_read)
  let ?V = "V\<lparr>vs_heap := snd (new_obj (PChunk m bs) (vs_heap V))\<rparr>"
  have p: "executes cap (v_new (PChunk m bs) V) rest (u_tasks u)
      (push_round ue False (BlkW (fst (new_obj (PChunk m bs) (u_heap u1)))) (u1\<lparr>u_heap := snd (new_obj (PChunk m bs) (u_heap u1))\<rparr>))"
    if u1: "u_rep cap V rest u1" "u_tasks u1 = u_tasks u" for u1
    by (rule push_executes [of cap ?V]) (use u1 assms(4) in \<open>auto simp: u_rep_def v_new_def new_obj_def\<close>)
  have "executes cap (v_new (PChunk m bs) V) rest (u_tasks u) (u_chunk ue m u')"
    unfolding u_chunk_def
    by (rule read_uint_executes [OF u(1) n(1) u(2)], unfold n(2), rule read_bytes_executes [OF _ assms(3)])
      (use p [OF u_commit_rep] n(3) in \<open>auto simp: run_simps split_beta Let_def\<close>)
  then show ?thesis by (cases m) (simp_all add: unpickle_round_def u(3))
qed

text \<open>New blocks of plain objects.\<close>

lemma raw_object:
  assumes "plain_obj (PBlock l m ws)" and "l = CLOSURE_NO \<or> am = m"
  shows "(if l = CLOSURE_NO then raw_closure ue (length ws) else raw_block ue l am (length ws)) = Some (PBlock l m (raw_words (ue_junk ue) l (length ws)))"
  using assms by (auto simp: raw_closure_def raw_block_def raw_words_def run_simps)

lemma plain_block:
  assumes "plain_obj (PBlock l m ws)"
  shows "l \<noteq> TRANSFORM_NO" "0 < length ws" "length ws < 2 ^ 31" "l < 2 ^ 31"
  using assms by auto

lemma length_raw_words [simp]: "length (raw_words j l n) = n"
  by (simp add: raw_words_def)

lemma new_obj_update: "(snd (new_obj ob h))\<lparr>ph_objs := (ph_objs (snd (new_obj ob h)))(ph_next h \<mapsto> ob')\<rparr> = snd (new_obj ob' h)"
  by (cases h) (simp add: new_obj_def)

lemma fill_executes:
  assumes "u_rep cap V rest u" and "ph_objs (vs_heap V) a = Some (PBlock l m ws)" and "length ws \<le> length (vs_stack V)"
  shows "\<exists>u'. fill_block a (length ws) u = Some u' \<and> u_tasks u' = u_tasks u \<and>
    u_rep cap (V\<lparr>vs_stack := drop (length ws) (vs_stack V),
      vs_heap := (vs_heap V)\<lparr>ph_objs := (ph_objs (vs_heap V))(a \<mapsto> PBlock l m (take (length ws) (vs_stack V)))\<rparr>\<rparr>) rest u'"
proof -
  let ?vs = "take (length ws) (vs_stack V)" and ?us = "drop (length ws) (vs_stack V)"
  have f: "frame_of cap (?vs @ ?us) (vs_locals V) (u_frame u)" "length ?vs = length ws" using assms(1,3) by (simp_all add: u_rep_def)
  from frame_pop_args [OF f(1), of 0 ws] obtain f' where "pop_args 0 (length ws) ws (u_frame u) = Some (?vs, f')" "frame_of cap ?us (vs_locals V) f'"
    using f(2) by auto
  then show ?thesis using assms(1,2) by (auto simp: fill_block_def u_rep_def)
qed

lemma build_executes:
  assumes "u_rep cap V rest u" and "u_tasks u = ts" and "plain_obj (PBlock l m ws)" and "l = CLOSURE_NO \<or> am = m" and "length ws \<le> length (vs_stack V)"
  shows "executes cap (v_new (PBlock l m (take (length ws) (vs_stack V))) (V\<lparr>vs_stack := drop (length ws) (vs_stack V)\<rparr>)) rest ts (u_build ue l (length ws) am u)"
proof -
  note raw = raw_object [OF assms(3,4), of ue] and pl = plain_block [OF assms(3)]
  let ?ob = "PBlock l m (raw_words (ue_junk ue) l (length ws))" and ?a = "ph_next (vs_heap V)"
  let ?V = "V\<lparr>vs_heap := snd (new_obj ?ob (vs_heap V))\<rparr>" and ?u = "(u_commit u)\<lparr>u_heap := snd (new_obj ?ob (vs_heap V))\<rparr>"
  have r: "u_rep cap ?V rest ?u" using u_commit_rep [OF assms(1)] by (simp add: u_rep_def)
  have o: "ph_objs (vs_heap ?V) ?a = Some ?ob" by (simp add: new_obj_def)
  from fill_executes [OF r o] assms(5) obtain u' where u': "fill_block ?a (length ws) ?u = Some u'" "u_tasks u' = ts"
    "u_rep cap (V\<lparr>vs_stack := drop (length ws) (vs_stack V), vs_heap := snd (new_obj (PBlock l m (take (length ws) (vs_stack V))) (vs_heap V))\<rparr>) rest u'"
    using assms(2) by (auto simp: new_obj_update)
  have "u_heap (u_commit u) = vs_heap V" using assms(1) by (simp add: u_rep_def)
  then have "AllocBlock ue l (length ws) am (u_commit u) = Some (False, BlkW ?a, u')"
    unfolding AllocBlock_def raw using u'(1) pl(1) by (simp add: new_obj_def)
  moreover have "length (vs_stack V) \<le> cap" using assms(1) by (simp add: u_rep_def frame_of_def)
  then have "length (vs_stack V) - length ws < cap" using pl(2) assms(5) by linarith
  ultimately show ?thesis using push_executes [OF u'(3,2), where w = "BlkW ?a", OF _ refl] by (simp add: u_build_def v_new_def)
qed

lemma exec_build:
  assumes "u_rep cap V (encode (I_Build l m n) @ rest) u" and "wf_instr (I_Build l m n)" and "n \<le> length (vs_stack V)"
  shows "executes cap (v_new (PBlock l m (take n (vs_stack V))) (V\<lparr>vs_stack := drop n (vs_stack V)\<rparr>)) rest (u_tasks u) (unpickle_round ue u)"
proof -
  obtain ws where ws: "n = length ws" "plain_obj (PBlock l m ws)" using assms(2) by auto
  note raw = plain_block(3,4) [OF ws(2)]
  have sz: "unat (word_of_nat (length ws) :: u_int) = length ws" "unat (word_of_nat l :: u_int) = l" using raw by (simp_all add: unat_of_nat)
  note b = build_executes [OF _ _ ws(2) _ assms(3) [unfolded ws(1)], where ue = ue]
  consider "l = CLOSURE_NO" | "l = TUPLE_NO" "l \<noteq> CLOSURE_NO" | "l \<noteq> TUPLE_NO" "l \<noteq> CLOSURE_NO" by blast
  then show ?thesis
  proof cases
    case 1
    then obtain u' where u: "u_rep cap V (uint_of (length ws) @ rest) u'" "u_tasks u' = u_tasks u" "\<And>k. read_byte u k = k (tag_byte CLOSURE) u'"
      using assms(1) ws(1) by (auto elim: round_read)
    show ?thesis using read_uint_executes [OF u(1) raw(1) u(2)] b 1 sz by (simp add: unpickle_round_def u(3) ws(1))
  next
    case 2
    then obtain u' where u: "u_rep cap V (uint_of (length ws) @ rest) u'" "u_tasks u' = u_tasks u" "\<And>k. read_byte u k = k (tag_byte TUPLE) u'"
      using assms(1) ws(1) by (auto elim: round_read)
    have "\<not> m" using 2 ws(2) by simp
    then show ?thesis using read_uint_executes [OF u(1) raw(1) u(2)] b 2 sz by (simp add: unpickle_round_def u(3) ws(1))
  next
    case 3
    then obtain u' where u: "u_rep cap V (uint_of l @ uint_of (length ws) @ rest) u'" "u_tasks u' = u_tasks u"
        "\<And>k. read_byte u k = k (tag_byte (if m then MBLOCK else BLOCK)) u'"
      using assms(1) ws(1) by (auto elim: round_read)
    have "executes cap (v_new (PBlock l m (take (length ws) (vs_stack V))) (V\<lparr>vs_stack := drop (length ws) (vs_stack V)\<rparr>)) rest (u_tasks u)
        (read_uint u' (\<lambda>label st. read_uint st (\<lambda>size st. u_build ue (unat label) (unat size) m st)))"
      by (rule read_uint_executes [OF u(1) raw(2) u(2)], rule read_uint_executes [OF _ raw(1)]) (use sz in \<open>auto intro: b\<close>)
    then show ?thesis by (cases m) (simp_all add: unpickle_round_def u(3) ws(1))
  qed
qed

lemma announce_executes:
  assumes "u_rep cap V rest u" and "u_tasks u = ts" and "plain_obj (PBlock l m ws)" and "l = CLOSURE_NO \<or> am = m" and "length (vs_stack V) < cap"
    and "v_store v (BlkW (ph_next (vs_heap V))) (v_new (PBlock l m (raw_words (ue_junk ue) l (length ws))) V) = Some V'"
  shows "executes cap V' rest ts (u_announce ue l (length ws) am v u)"
proof -
  let ?ob = "PBlock l m (raw_words (ue_junk ue) l (length ws))" and ?a = "ph_next (vs_heap V)"
  let ?u = "(u_commit u)\<lparr>u_heap := snd (new_obj ?ob (vs_heap V))\<rparr>"
  note raw = raw_object [OF assms(3,4), of ue] and pl = plain_block [OF assms(3)]
  have h: "u_heap (u_commit u) = vs_heap V" using assms(1) by (simp add: u_rep_def)
  have ann: "AnnounceBlock ue l (length ws) am (u_commit u) = Some (BlkW ?a, ?u)"
    unfolding AnnounceBlock_def raw using pl(1) h by (simp add: new_obj_def)
  have s: "v < length (vs_locals V)" "vs_locals V ! v = IntW 0" "V' = (v_new ?ob V)\<lparr>vs_locals := (vs_locals V)[v := BlkW ?a]\<rparr>"
    using assms(6) by (auto simp: v_store_def v_new_def v_push_def run_elims)
  have f: "frame_of cap (vs_stack V) (vs_locals V) (u_frame u)" using assms(1) by (simp add: u_rep_def)
  obtain f1 where f1: "uf_Store (ph_trans (u_heap ?u)) v (BlkW ?a) (u_frame u) = Some f1" "frame_of cap (vs_stack V) ((vs_locals V)[v := BlkW ?a]) f1"
    using frame_Store [OF f s(1,2)] by blast
  obtain f2 where f2: "uf_Push (BlkW ?a) f1 = Some f2" "frame_of cap (BlkW ?a # vs_stack V) ((vs_locals V)[v := BlkW ?a]) f2"
    using frame_Push [OF f1(2) assms(5)] by blast
  have "u_rep cap V' rest (?u\<lparr>u_frame := f2\<rparr>)" using u_commit_rep [OF assms(1)] f2(2) s(3) by (simp add: u_rep_def v_new_def v_push_def)
  then show ?thesis using ann f1(1) f2(1) assms(2) by (auto simp: u_announce_def uf_PushStore_def intro!: end_executes)
qed

lemma exec_announce:
  assumes "u_rep cap V (encode (I_Announce l m n v) @ rest) u" and "wf_instr (I_Announce l m n v)" and "length (vs_stack V) < cap"
    and "vexec (ue_junk ue) (I_Announce l m n v) V = Some V'"
  shows "executes cap V' rest (u_tasks u) (unpickle_round ue u)"
proof -
  obtain ws where ws: "n = length ws" "plain_obj (PBlock l m ws)" "v < 2 ^ 31" using assms(2) by auto
  note raw = plain_block(3,4) [OF ws(2)]
  have sz: "unat (word_of_nat (length ws) :: u_int) = length ws" "unat (word_of_nat l :: u_int) = l" "unat (word_of_nat v :: u_int) = v"
    using raw ws(3) by (simp_all add: unat_of_nat)
  note b = announce_executes [OF _ _ ws(2) _ assms(3) assms(4) [unfolded ws(1) vexec.simps]]
  consider "l = CLOSURE_NO" | "l = TUPLE_NO" "l \<noteq> CLOSURE_NO" | "l \<noteq> TUPLE_NO" "l \<noteq> CLOSURE_NO" by blast
  then show ?thesis
  proof cases
    case 1
    then obtain u' where u: "u_rep cap V (uint_of (length ws) @ uint_of v @ rest) u'" "u_tasks u' = u_tasks u" "\<And>k. read_byte u k = k (tag_byte aCLOSURE) u'"
      using assms(1) ws(1) by (auto elim: round_read)
    have "executes cap V' rest (u_tasks u) (read_uint u' (\<lambda>size st. read_uint st (\<lambda>addr st. u_announce ue l (unat size) False (unat addr) st)))"
      by (rule read_uint_executes [OF u(1) raw(1) u(2)], rule read_uint_executes [OF _ ws(3)]) (assumption | (unfold sz, rule b [OF _ _ disjI1 [OF 1]]))+
    then show ?thesis using 1 by (simp add: unpickle_round_def u(3))
  next
    case 2
    then obtain u' where u: "u_rep cap V (uint_of (length ws) @ uint_of v @ rest) u'" "u_tasks u' = u_tasks u" "\<And>k. read_byte u k = k (tag_byte aTUPLE) u'"
      using assms(1) ws(1) by (auto elim: round_read)
    have "\<not> m" using 2 ws(2) by simp
    then have "executes cap V' rest (u_tasks u) (read_uint u' (\<lambda>size st. read_uint st (\<lambda>addr st. u_announce ue l (unat size) False (unat addr) st)))"
      by (intro read_uint_executes [OF u(1) raw(1) u(2)], intro read_uint_executes [OF _ ws(3)]) (use sz in \<open>auto intro: b\<close>)
    then show ?thesis using 2 by (simp add: unpickle_round_def u(3))
  next
    case 3
    then obtain u' where u: "u_rep cap V (uint_of l @ uint_of (length ws) @ uint_of v @ rest) u'" "u_tasks u' = u_tasks u"
        "\<And>k. read_byte u k = k (tag_byte (if m then aMBLOCK else aBLOCK)) u'"
      using assms(1) ws(1) by (auto elim: round_read)
    have "executes cap V' rest (u_tasks u)
        (read_uint u' (\<lambda>label st. read_uint st (\<lambda>size st. read_uint st (\<lambda>addr st. u_announce ue (unat label) (unat size) m (unat addr) st))))"
      by (rule read_uint_executes [OF u(1) raw(2) u(2)], rule read_uint_executes [OF _ raw(1)], assumption, assumption, rule read_uint_executes [OF _ ws(3)])
        (use sz in \<open>auto intro: b\<close>)
    then show ?thesis by (cases m) (simp_all add: unpickle_round_def u(3))
  qed
qed

lemma exec_fulfill:
  assumes "u_rep cap V (encode (I_Fulfill v) @ rest) u" and "wf_instr (I_Fulfill v)" and "vexec (ue_junk ue) (I_Fulfill v) V = Some V'"
    and "length (vs_stack V') \<le> cap"
  shows "executes cap V' rest (u_tasks u) (unpickle_round ue u)"
proof -
  obtain a ob where ob: "v_load v V = Some a" "ph_objs (vs_heap V) a = Some ob" using assms(3) by (auto simp: run_elims split: option.splits)
  obtain l m ws where ws: "ob = PBlock l m ws" using assms(3) ob by (cases ob) auto
  have a: "ph_objs (vs_heap V) a = Some (PBlock l m ws)" "length ws \<le> length (vs_stack V)"
    "V' = v_push (BlkW a) (V\<lparr>vs_stack := drop (length ws) (vs_stack V),
      vs_heap := (vs_heap V)\<lparr>ph_objs := (ph_objs (vs_heap V))(a \<mapsto> PBlock l m (take (length ws) (vs_stack V)))\<rparr>\<rparr>)"
    using assms(3) ob ws by (simp_all add: run_elims)
  have l: "v < length (vs_locals V)" "vs_locals V ! v = BlkW a" using ob(1) by (auto simp: v_load_def run_elims split: store_word.splits)
  have n: "v < 2 ^ 30" "unat (word_of_nat v :: u_int) = v" using assms(2) by (simp_all add: unat_of_nat)
  have x: "executes cap V' rest (u_tasks u) (do { future \<leftarrow> uf_Load (ph_trans (u_heap u')) v (u_frame u'); (must, w, st1) \<leftarrow> MakeFulfilledBlock ue future u'; push_round ue must w st1 })"
    if u': "u_rep cap V rest u'" "u_tasks u' = u_tasks u" for u'
  proof -
    have ld: "uf_Load (ph_trans (u_heap u')) v (u_frame u') = Some (BlkW a)" using u'(1) frame_Load [OF _ l] by (auto simp: u_rep_def)
    obtain u2 where u2: "fill_block a (length ws) u' = Some u2" "u_tasks u2 = u_tasks u'"
      "u_rep cap (V\<lparr>vs_stack := drop (length ws) (vs_stack V),
        vs_heap := (vs_heap V)\<lparr>ph_objs := (ph_objs (vs_heap V))(a \<mapsto> PBlock l m (take (length ws) (vs_stack V)))\<rparr>\<rparr>) rest u2"
      using fill_executes [OF u'(1) a(1,2)] by blast
    have "WordToTransient T (BlkW a) = Some None" for T by (simp add: WordToTransient_def Deref.simps)
    then have "MakeFulfilledBlock ue (BlkW a) u' = Some (False, BlkW a, u2)" using u'(1) u2(1) a(1) by (simp add: MakeFulfilledBlock_def u_rep_def)
    then show ?thesis using ld push_executes [OF u2(3), of "u_tasks u" V' "BlkW a" ue] u2(2) u'(2) a(3) assms(4) by (simp add: v_push_def)
  qed
  obtain u' where u: "u_rep cap V (uint_of v @ rest) u'" "u_tasks u' = u_tasks u" "\<And>k. read_byte u k = k (tag_byte FULFILL) u'"
    using assms(1) by (auto elim: round_read)
  show ?thesis using read_operand [OF u(1) n(1) u(2)] x n(2) by (simp add: unpickle_round_def u(3))
qed

text \<open>A round executes the instruction whose bytes come next.\<close>

lemma exec_round:
  assumes "u_rep cap V (encode i @ rest) u" and "wf_instr i" and "rest \<noteq> []" and "vexec (ue_junk ue) i V = Some V'" and "length (vs_stack V') \<le> cap"
  shows "executes cap V' rest (u_tasks u) (unpickle_round ue u)"
proof (cases i)
  case (I_Store n)
  then obtain w us where "vs_stack V = w # us" "v_store n w V = Some V'" using assms(4) by (auto split: list.splits)
  then show ?thesis using exec_store assms(1,2) I_Store by blast
next
  case (I_Build l m n)
  then show ?thesis using exec_build [of cap V l m n rest u ue] assms(1,2,4) by (simp add: run_elims del: encode.simps wf_instr.simps)
next
  case (I_Announce l m n v)
  then have "length (vs_stack V) < cap" using assms(4,5) by (auto simp: v_store_def v_new_def v_push_def run_elims)
  then show ?thesis using exec_announce assms(1,2,4) I_Announce by blast
next
  case (I_Fulfill v)
  then show ?thesis using exec_fulfill assms by blast
next
  case (I_Chunk m bs)
  moreover have "length (vs_stack V) < cap" using assms(4,5) I_Chunk by (auto simp: v_new_def v_push_def)
  ultimately show ?thesis using exec_chunk [of cap V m bs rest u ue] assms by (simp del: encode.simps wf_instr.simps)
qed (use assms exec_int [of cap V _ rest u ue] exec_load [of cap V _ rest u _ ue] in \<open>auto simp: run_elims v_push_def simp del: encode.simps wf_instr.simps\<close>)

section \<open>Running code\<close>

fun vexecs :: "nat \<Rightarrow> junk \<Rightarrow> pinstr list \<Rightarrow> vstate \<Rightarrow> vstate option" where
  "vexecs cap j [] V = Some V"
| "vexecs cap j (i # is) V = do { V1 \<leftarrow> vexec j i V; Assert (length (vs_stack V1) \<le> cap); vexecs cap j is V1 }"

lemma vexecs_append: "vexecs cap j (is @ js) V = vexecs cap j is V \<bind> vexecs cap j js"
proof (induction "is" arbitrary: V)
  case (Cons i "is")
  then show ?case by (cases "vexec j i V") (simp_all add: Assert_def)
qed simp

lemma unpickle_step:
  assumes "executes cap V rest (u_tasks u) (unpickle_round ue u)" and "u_tasks u = UnpickleTask # ts"
  shows "\<exists>u'. u_rep cap V rest u' \<and> u_tasks u' = u_tasks u \<and> unpickle_tasks ue u = unpickle_tasks ue u'"
proof -
  obtain u' where u': "unpickle_round ue u = Some (UAgain u') \<or> unpickle_round ue u = Some (URet PREEMPT u')" "u_rep cap V rest u'" "u_tasks u' = u_tasks u"
    using assms(1) by (auto simp: executes_def)
  have "unpickle_tasks ue u = unpickle_tasks ue u'" using u'(1)
  proof
    assume "unpickle_round ue u = Some (UAgain u')"
    then have "UnpickleWorker_Run ue u = UnpickleWorker_Run ue u'" by (subst UnpickleWorker_Run.simps) simp
    then show ?thesis using assms(2) u'(3) by (simp add: unpickle_tasks.simps [of ue u] unpickle_tasks.simps [of ue u'] unpickle_task_def)
  next
    assume "unpickle_round ue u = Some (URet PREEMPT u')"
    then have "UnpickleWorker_Run ue u = Some (PREEMPT, u')" by (subst UnpickleWorker_Run.simps) simp
    then show ?thesis using assms(2) by (simp add: unpickle_tasks.simps [of ue u] unpickle_task_def)
  qed
  then show ?thesis using u' by blast
qed

lemma unpickle_code:
  assumes "u_rep cap V (code_bytes is @ rest) u" and "\<forall>i \<in> set is. wf_instr i" and "rest \<noteq> []" and "u_tasks u = UnpickleTask # ts"
    and "vexecs cap (ue_junk ue) is V = Some V'"
  shows "\<exists>u'. u_rep cap V' rest u' \<and> u_tasks u' = u_tasks u \<and> unpickle_tasks ue u = unpickle_tasks ue u'"
  using assms
proof (induction "is" arbitrary: V u)
  case (Cons i "is")
  obtain V1 where V1: "vexec (ue_junk ue) i V = Some V1" "length (vs_stack V1) \<le> cap" "vexecs cap (ue_junk ue) is V1 = Some V'"
    using Cons.prems(5) by (auto simp: run_elims)
  have "executes cap V1 (code_bytes is @ rest) (u_tasks u) (unpickle_round ue u)"
    using exec_round [of cap V i "code_bytes is @ rest" u ue V1] Cons.prems(1-3) V1 by simp
  from unpickle_step [OF this Cons.prems(4)] obtain u1 where u1: "u_rep cap V1 (code_bytes is @ rest) u1" "u_tasks u1 = u_tasks u"
    "unpickle_tasks ue u = unpickle_tasks ue u1" by blast
  from Cons.IH [OF u1(1)] show ?case using Cons.prems u1 V1(3) by auto
qed auto

lemma unpickle_end:
  assumes "u_rep cap V (tag_byte ENDOFSTREAM # rest) u" and "u_tasks u = [UnpickleTask, LoadTask]" and "0 < length (vs_locals V)"
    and "WordToInt (ph_trans (vs_heap V)) (vs_locals V ! 0) = Some n"
  shows "\<exists>u'. unpickle_tasks ue u = Some (CONTINUE, u') \<and> u_tasks u' = [] \<and> u_heap u' = vs_heap V \<and> u_data u' = vs_locals V ! 0"
proof -
  obtain u' where u: "u_rep cap V rest u'" "u_tasks u' = u_tasks u" "\<And>k. read_byte u k = k (tag_byte ENDOFSTREAM) u'"
    using assms(1) by (auto elim: round_read)
  have "uf_Load (ph_trans (u_heap u')) 0 (u_frame u') = Some (vs_locals V ! 0)"
    using frame_Load_0 [OF _ assms(3,4)] u(1) by (auto simp: u_rep_def)
  then have "unpickle_round ue u = (let st1 = u'\<lparr>u_result := vs_locals V ! 0, u_tasks := [LoadTask]\<rparr> in
      Some (URet (if ue_status ue st1 then PREEMPT else CONTINUE) st1))"
    using u(2) assms(2) by (simp add: unpickle_round_def u(3) Let_def)
  then obtain r where r: "unpickle_round ue u = Some (URet r (u'\<lparr>u_result := vs_locals V ! 0, u_tasks := [LoadTask]\<rparr>))" "r = PREEMPT \<or> r = CONTINUE"
    by (auto simp: Let_def)
  have "UnpickleWorker_Run ue u = Some (r, u'\<lparr>u_result := vs_locals V ! 0, u_tasks := [LoadTask]\<rparr>)"
    using r(1) by (subst UnpickleWorker_Run.simps) simp
  then have "unpickle_tasks ue u = unpickle_tasks ue (u'\<lparr>u_result := vs_locals V ! 0, u_tasks := [LoadTask]\<rparr>)"
    using assms(2) r(2) by (subst unpickle_tasks.simps) (auto simp: unpickle_task_def)
  also have "\<dots> = Some (CONTINUE, u'\<lparr>u_result := vs_locals V ! 0, u_tasks := [], u_data := vs_locals V ! 0\<rparr>)"
    by (subst unpickle_tasks.simps) (simp add: unpickle_task_def PickleLoadWorker_Run_def unpickle_tasks.simps)
  finally show ?thesis using u(1) by (simp add: u_rep_def)
qed

section \<open>The header\<close>

definition header_bytes :: "nat \<Rightarrow> nat \<Rightarrow> bytes" where
  "header_bytes height locals = magic @ uint_bytes majorVersion @ uint_bytes minorVersion @ tag_byte INIT # uint_of height @ uint_of locals"

text \<open>A state of the unpickler with the heap and the frames of an earlier one, further on in the stream.\<close>

definition u_at :: "bytes \<Rightarrow> ustate \<Rightarrow> ustate \<Rightarrow> bool" where
  "u_at rest u0 u \<longleftrightarrow> is_ok (u_stream u) \<and> is_rest (u_stream u) = rest \<and> is_file (u_stream u) = None \<and> u_heap u = u_heap u0 \<and> u_tasks u = u_tasks u0"

lemma at_uint:
  assumes "u_at (uint_bytes i @ rest) u0 u" and "CanPickle i"
  obtains u' where "\<And>k. read_uint u k = k i u'" and "u_at rest u0 u'"
proof
  let ?u = "u\<lparr>u_stream := (u_stream u)\<lparr>is_rd := is_rd (u_stream u) + length (uint_bytes i)\<rparr>\<rparr>"
  have g: "is_ok (u_stream u)" "is_rest (u_stream u) = uint_bytes i @ rest" "is_file (u_stream u) = None" "u_heap u = u_heap u0" "u_tasks u = u_tasks u0"
    using assms(1) by (simp_all add: u_at_def)
  note r = GetUInt_rest [OF g(1,2) assms(2)]
  show "read_uint u k = k i ?u" for k using r by (simp add: read_uint_def is_ok_def)
  show "u_at rest u0 ?u" using r g unfolding u_at_def by simp
qed

lemma at_byte:
  assumes "u_at (b # rest) u0 u"
  obtains u' where "\<And>k. read_byte u k = k b u'" and "u_at rest u0 u'"
proof
  let ?u = "u\<lparr>u_stream := (u_stream u)\<lparr>is_rd := is_rd (u_stream u) + 1\<rparr>\<rparr>"
  have g: "is_ok (u_stream u)" "is_rest (u_stream u) = b # rest" "is_file (u_stream u) = None" "u_heap u = u_heap u0" "u_tasks u = u_tasks u0"
    using assms(1) by (simp_all add: u_at_def)
  note r = GetByte_rest [OF g(1,2)]
  show "read_byte u k = k b ?u" for k using r by (simp add: read_byte_def is_ok_def)
  show "u_at rest u0 ?u" using r g unfolding u_at_def by simp
qed

lemma at_commit: "u_at rest u0 u \<Longrightarrow> u_at rest u0 (u_commit u)"
  by (auto simp: u_at_def u_commit_def Commit_def is_ok_def is_rest_def)

lemma at_IsEOF: "u_at (b # rest) u0 u \<Longrightarrow> IsEOF (u_stream u) = (False, u_stream u)"
  by (auto simp: u_at_def IsEOF_def is_ok_def is_rest_def intro: ccontr)

lemma check_header:
  assumes "s = header_bytes height locals @ rest" and "rest \<noteq> []" and "height < 2 ^ 30" and "locals < 2 ^ 30"
  shows "\<exists>u. unpickle_tasks ue (Unpickler_Unpack s h d) = unpickle_tasks ue u \<and> u_tasks u = [UnpickleTask, LoadTask] \<and>
    u_rep height \<lparr>vs_stack = [], vs_locals = replicate locals (IntW 0), vs_heap = h\<rparr> rest u"
proof -
  let ?u0 = "Unpickler_Unpack s h d"
  have can: "CanPickle majorVersion" "CanPickle minorVersion" "CanPickle (word_of_nat height)" "CanPickle (word_of_nat locals)"
    using assms(3,4) by (simp_all add: CanPickle_iff majorVersion_def minorVersion_def unat_of_nat)
  have sz: "unat (word_of_nat height :: u_int) = height" "unat (word_of_nat locals :: u_int) = locals" using assms(3,4) by (simp_all add: unat_of_nat)
  let ?r4 = "uint_of locals @ rest"
  let ?r3 = "uint_of height @ ?r4"
  let ?r1 = "uint_bytes majorVersion @ uint_bytes minorVersion @ tag_byte INIT # ?r3"
  let ?u1 = "?u0\<lparr>u_stream := (u_stream ?u0)\<lparr>is_rd := 4\<rparr>\<rparr>"
  have s: "s = magic @ ?r1" "length magic = 4" "4 < length s" using assms(1) by (simp_all add: header_bytes_def magic_def)
  have m: "read_bytes 4 ?u0 k = k magic ?u1" for k using s by (simp add: read_bytes_def GetBytes_def Unpickler_Unpack_def NewFromString_def)
  have u1: "u_at ?r1 ?u0 ?u1" using s by (simp add: u_at_def is_ok_def is_rest_def Unpickler_Unpack_def NewFromString_def)
  obtain u2 where u2: "\<And>k. read_uint (u_commit ?u1) k = k majorVersion u2" "u_at (uint_bytes minorVersion @ tag_byte INIT # ?r3) ?u0 u2"
    using at_uint [OF at_commit [OF u1] can(1)] by blast
  obtain u3 where u3: "\<And>k. read_uint (u_commit u2) k = k minorVersion u3" "u_at (tag_byte INIT # ?r3) ?u0 u3"
    using at_uint [OF at_commit [OF u2(2)] can(2)] by blast
  obtain u4 where u4: "\<And>k. read_byte (u_commit u3) k = k (tag_byte INIT) u4" "u_at ?r3 ?u0 u4"
    using at_byte [OF at_commit [OF u3(2)]] by blast
  obtain u5 where u5: "\<And>k. read_uint (u_commit u4) k = k (word_of_nat height) u5" "u_at ?r4 ?u0 u5"
    using at_uint [OF at_commit [OF u4(2), unfolded uint_of_def [of height]] can(3)] by blast
  obtain b bs where b: "?r4 = b # bs" by (cases "uint_of locals") (auto simp: uint_of_def)
  have eof: "IsEOF (u_stream (u_commit u5)) = (False, u_stream (u_commit u5))" using at_IsEOF at_commit [OF u5(2)] b by metis
  obtain u6 where u6: "\<And>k. read_uint (u_commit u5) k = k (word_of_nat locals) u6" "u_at rest ?u0 u6"
    using at_uint [OF at_commit [OF u5(2), unfolded uint_of_def [of locals]] can(4)] by blast
  have "check_round ue ?u0 = check_done ue height locals (u_commit u6)"
    using too_big_small [OF assms(3)] too_big_small [OF assms(4)] sz eof u6(1) byte_tag_byte [of INIT]
    by (simp add: check_round_def m u2(1) u3(1) u4(1) u5(1) Let_def)
  moreover have "u_tasks ?u0 = [CheckTask]" by (simp add: Unpickler_Unpack_def)
  moreover have "u_tasks (u_commit u6) = [CheckTask]" "u_heap (u_commit u6) = h" "u_at rest ?u0 (u_commit u6)"
    using at_commit [OF u6(2)] by (simp_all add: u_at_def Unpickler_Unpack_def)
  moreover define u7 where "u7 = (u_commit u6)\<lparr>u_tasks := [UnpickleTask, LoadTask], u_frame := UnpickleFrame_New height locals\<rparr>"
  ultimately have "unpickle_tasks ue ?u0 = unpickle_tasks ue u7" "u_rep height \<lparr>vs_stack = [], vs_locals = replicate locals (IntW 0), vs_heap = h\<rparr> rest u7"
    using frame_of_New [of height locals] unpickle_tasks.simps [of ue ?u0]
    by (simp_all add: unpickle_task_def unpack_out_def check_done_def u_rep_def u_at_def)
  then show ?thesis by (intro exI [of _ u7]) (simp add: u7_def)
qed

end
