(* ===== verification/Pickle_Weave.thy ===== *)
theory Pickle_Weave
  imports Pickle_Exec
begin

text \<open>
  The instructions of a pickle: those that the pickler wrote, with a \<^verbatim>\<open>STORE\<close> woven in after each instruction that builds a
  block with a local variable. The bytes that \<^verbatim>\<open>WriteToStream\<close> writes are the bytes of this code.
\<close>

section \<open>Weaving\<close>

text \<open>The variables to store, by position; \<open>p\<close> is the position of the code.\<close>

fun weave :: "(nat \<Rightarrow> nat option) \<Rightarrow> nat \<Rightarrow> pinstr list \<Rightarrow> pinstr list" where
  "weave S p [] = []"
| "weave S p (i # is) = (let q = p + length (encode i) in
     i # (case S q of Some v \<Rightarrow> [I_Store v] | None \<Rightarrow> []) @ weave S q is)"

lemma weave_append: "weave S p (is @ js) = weave S p is @ weave S (p + length (code_bytes is)) js"
  by (induction "is" arbitrary: p) (auto simp: Let_def add.assoc)

lemma weave_cong: "(\<And>q. p < q \<Longrightarrow> S q = S' q) \<Longrightarrow> weave S p is = weave S' p is"
proof (induction "is" arbitrary: p)
  case (Cons i "is")
  have "S (p + length (encode i)) = S' (p + length (encode i))" "weave S (p + length (encode i)) is = weave S' (p + length (encode i)) is"
    using Cons by auto
  then show ?case by (simp add: Let_def)
qed simp

lemma weave_empty: "weave Map.empty p is = is"
  by (induction "is" arbitrary: p) (simp_all add: Let_def)

text \<open>The positions after instructions.\<close>

fun boundaries :: "nat \<Rightarrow> pinstr list \<Rightarrow> nat set" where
  "boundaries p [] = {}"
| "boundaries p (i # is) = insert (p + length (encode i)) (boundaries (p + length (encode i)) is)"

lemma boundaries_append: "boundaries p (is @ js) = boundaries p is \<union> boundaries (p + length (code_bytes is)) js"
  by (induction "is" arbitrary: p) (auto simp: add.assoc)

lemma boundaries_greater: "q \<in> boundaries p is \<Longrightarrow> p < q"
proof (induction "is" arbitrary: p)
  case (Cons i "is")
  then show ?case using encode_nonempty(2) [of i] by (fastforce dest: add_lessD1)
qed simp

lemma boundaries_le: "q \<in> boundaries p is \<Longrightarrow> q \<le> p + length (code_bytes is)"
  by (induction "is" arbitrary: p) fastforce+

text \<open>Bytes from position \<open>p\<close> with stores inserted.\<close>

fun insert_stores :: "(nat \<times> nat) list \<Rightarrow> nat \<Rightarrow> bytes \<Rightarrow> bytes" where
  "insert_stores [] p bs = bs"
| "insert_stores ((q, v) # ls) p bs = take (q - p) bs @ encode (I_Store v) @ insert_stores ls q (drop (q - p) bs)"

lemma insert_stores_code:
  assumes "sorted_wrt (<) (map fst ls)" and "\<forall>q \<in> set (map fst ls). q \<in> boundaries p is"
  shows "insert_stores ls p (code_bytes is) = code_bytes (weave (map_of ls) p is)"
  using assms
proof (induction "is" arbitrary: p ls)
  case Nil
  then show ?case by (cases ls) auto
next
  case (Cons i "is")
  let ?q = "p + length (encode i)"
  have later: "q \<in> boundaries ?q is \<Longrightarrow> ?q < q" for q by (rule boundaries_greater)
  show ?case
  proof (cases ls)
    case Nil
    then show ?thesis by (simp add: weave_empty)
  next
    case (Cons r ls')
    obtain q v where r: "r = (q, v)" by (cases r)
    have sorted: "sorted_wrt (<) (map fst ls')" "\<forall>x \<in> set (map fst ls'). q < x" using Cons.prems(1) \<open>ls = r # ls'\<close> r by auto
    show ?thesis
    proof (cases "q = ?q")
      case True
      have b: "\<forall>x \<in> set (map fst ls'). x \<in> boundaries ?q is" using Cons.prems(2) sorted(2) True \<open>ls = r # ls'\<close> by fastforce
      have "weave (map_of ls) ?q is = weave (map_of ls') ?q is" using \<open>ls = r # ls'\<close> r True by (intro weave_cong) auto
      then have "insert_stores ls' ?q (code_bytes is) = code_bytes (weave (map_of ls) ?q is)" using Cons.IH [OF sorted(1) b] by simp
      moreover have "map_of ls ?q = Some v" "insert_stores ls p (encode i @ code_bytes is) = encode i @ encode (I_Store v) @ insert_stores ls' ?q (code_bytes is)"
        using \<open>ls = r # ls'\<close> r True by simp_all
      ultimately show ?thesis by (simp add: Let_def del: insert_stores.simps)
    next
      case False
      then have q: "q \<in> boundaries ?q is" using Cons.prems(2) \<open>ls = r # ls'\<close> r by auto
      have b: "\<forall>x \<in> set (map fst ls). x \<in> boundaries ?q is" using Cons.prems(2) sorted(2) later [OF q] q \<open>ls = r # ls'\<close> r by fastforce
      have "map_of ls ?q = None" using sorted(2) later [OF q] \<open>ls = r # ls'\<close> r by (auto simp: map_of_eq_None_iff)
      then show ?thesis using Cons.IH [OF Cons.prems(1) b] later [OF q] \<open>ls = r # ls'\<close> r by (simp add: Let_def)
    qed
  qed
qed

section \<open>The bytes of a pickle\<close>

lemma appends_put_range:
  assumes "os_ok os" and "a \<le> b" and "b \<le> length c"
  shows "appends os (take (b - a) (drop a c)) (put_range bj c a b os)"
  using appends_PutBytes [OF assms(1)] assms(2,3) by (simp add: put_range_def run_simps)

lemma appends_store:
  assumes "os_ok os" and "v < 2 ^ 31"
  shows "appends os (encode (I_Store v)) (OutputStream_PutByte bj (tag_byte STORE) os \<bind> OutputStream_PutUInt bj (word_of_nat v))"
  using appends_bind [OF appends_PutByte [OF assms(1), of "tag_byte STORE" bj], of "uint_of v" "OutputStream_PutUInt bj (word_of_nat v)"]
    appends_PutUInt [of _ "word_of_nat v" bj] small_CanPickle [OF assms(2)] by (simp add: uint_of_def)

lemma appends_stores:
  assumes "os_ok os" and "sorted_wrt (<) (map fst (filter (\<lambda>l. 0 < fst l) ls))" and "\<forall>l \<in> set ls. 0 < fst l \<longrightarrow> cur < fst l \<and> fst l \<le> pos"
    and "cur \<le> pos" and "pos \<le> length c" and "\<forall>l \<in> set ls. snd l < 2 ^ 31"
  shows "appends os (insert_stores (filter (\<lambda>l. 0 < fst l) ls) cur (drop cur (take pos c)))
     (write_stores bj c ls cur os \<bind> (\<lambda>(p, os'). put_range bj c p pos os'))"
  using assms
proof (induction ls arbitrary: cur os)
  case Nil
  then show ?case using appends_put_range [of os cur pos c bj] by (simp add: drop_take)
next
  case (Cons l ls)
  obtain q v where l: "l = (q, v)" by (cases l)
  show ?case
  proof (cases "0 < q")
    case True
    have q: "cur < q" "q \<le> pos" "v < 2 ^ 31" using Cons.prems(3,6) True l by auto
    have rest: "appends os' (insert_stores (filter (\<lambda>l. 0 < fst l) ls) q (drop q (take pos c)))
        (write_stores bj c ls q os' \<bind> (\<lambda>(p, os'). put_range bj c p pos os'))" if "os_ok os'" for os'
    proof (rule Cons.IH [OF that])
      show "\<forall>l \<in> set ls. 0 < fst l \<longrightarrow> q < fst l \<and> fst l \<le> pos" using Cons.prems(2,3) True l by (auto simp: image_iff)
    qed (use Cons.prems True l q(2) in auto)
    have "appends os (take (q - cur) (drop cur c) @ encode (I_Store v) @ insert_stores (filter (\<lambda>l. 0 < fst l) ls) q (drop q (take pos c)))
       (put_range bj c cur q os \<bind> (\<lambda>os1. (OutputStream_PutByte bj (tag_byte STORE) os1 \<bind> OutputStream_PutUInt bj (word_of_nat v)) \<bind> (\<lambda>os3.
          write_stores bj c ls q os3 \<bind> (\<lambda>(p, os'). put_range bj c p pos os'))))"
      by (intro appends_bind [OF appends_put_range [OF Cons.prems(1)]] appends_bind [OF appends_store] rest) (use q Cons.prems(5) in auto)
    moreover have "drop (q - cur) (drop cur (take pos c)) = drop q (take pos c)" "take (q - cur) (drop cur (take pos c)) = take (q - cur) (drop cur c)"
      using q by (simp_all add: drop_take)
    ultimately show ?thesis using True l q(1) by (simp add: run_simps)
  next
    case False
    then show ?thesis using Cons l by auto
  qed
qed

lemma sorted_stores:
  assumes "ob_ok ob" and "distinct (map fst (filter (\<lambda>l. 0 < fst l) (ob_vars ob)))"
  obtains vars ls where "GetLocals ob = Some (vars, ob\<lparr>ob_locals := vars\<rparr>)" and "ob_count ob < length vars" and "ls = take (ob_count ob) (drop 1 vars)"
    and "sorted_wrt (<) (map fst (filter (\<lambda>l. 0 < fst l) ls))" and "map_of (filter (\<lambda>l. 0 < fst l) ls) = map_of (filter (\<lambda>l. 0 < fst l) (ob_vars ob))"
    and "set (filter (\<lambda>l. 0 < fst l) ls) = set (filter (\<lambda>l. 0 < fst l) (ob_vars ob))" and "set ls \<subseteq> insert (0, 0) (set (ob_vars ob))"
proof -
  let ?n = "ob_count ob" and ?P = "\<lambda>l. 0 < fst l"
  have n: "?n < length (ob_locals ob)" "ob_locals ob ! 0 = (0, 0)" using assms(1) by (auto simp: ob_ok_def)
  obtain vars where v: "GetLocals ob = Some (vars, ob\<lparr>ob_locals := vars\<rparr>)" "sorted (map fst (take (Suc ?n) vars))" "fst (vars ! 0) = 0"
    "mset (take (Suc ?n) vars) = mset (take (Suc ?n) (ob_locals ob))" using GetLocals_sorted [OF assms(1)] by blast
  have len: "?n < length vars" using arg_cong [OF v(4), of size] n(1) by simp
  let ?ls = "take ?n (drop 1 vars)"
  have split: "take (Suc ?n) xs = xs ! 0 # take ?n (drop 1 xs)" if "?n < length xs" for xs :: "(nat \<times> nat) list" using that by (cases xs) auto
  have locals: "take (Suc ?n) (ob_locals ob) = (0, 0) # ob_vars ob" using split [OF n(1)] n(2) by (simp add: ob_vars_def)
  have m: "mset (vars ! 0 # ?ls) = mset ((0, 0) # ob_vars ob)" using v(4) split [OF len] locals by simp
  have "mset (filter ?P (vars ! 0 # ?ls)) = mset (filter ?P ((0, 0) # ob_vars ob))" using m by (simp only: mset_filter)
  then have f: "mset (filter ?P ?ls) = mset (filter ?P (ob_vars ob))" using v(3) by simp
  have d: "distinct (map fst (filter ?P ?ls))" using assms(2) f by (metis mset_eq_imp_distinct_iff mset_map)
  have st: "set (filter ?P ?ls) = set (filter ?P (ob_vars ob))" using f by (metis set_mset_mset)
  have "sorted (map fst ?ls)" using v(2) split [OF len] by simp
  then have "sorted (map fst (filter ?P ?ls))" by (rule sorted_filter)
  then have "sorted_wrt (<) (map fst (filter ?P ?ls))" using d by (simp add: strict_sorted_iff)
  moreover have "map_of (filter ?P ?ls) = map_of (filter ?P (ob_vars ob))" using map_of_inject_set [OF d assms(2)] st by simp
  moreover have "set ?ls \<subseteq> insert (0, 0) (set (ob_vars ob))" using arg_cong [OF m, of set_mset] by auto
  ultimately show ?thesis using that [OF v(1) len refl] st by blast
qed

text \<open>The bytes of a whole pickle.\<close>

definition pickle_bytes :: "nat \<Rightarrow> (nat \<times> nat) list \<Rightarrow> pinstr list \<Rightarrow> bytes" where
  "pickle_bytes height vars is = header_bytes height (length vars + 1) @ code_bytes (weave (map_of (filter (\<lambda>l. 0 < fst l) vars)) 0 is) @
     encode (I_Store 0) @ [tag_byte ENDOFSTREAM]"

lemma write_pickle:
  assumes "ob_ok (pi_buffer st)" and "os_ok (pi_stream st)" and "ob_bytes (pi_buffer st) = code_bytes is" and "ob_vars (pi_buffer st) = vars"
    and "distinct (map fst (filter (\<lambda>l. 0 < fst l) vars))" and "\<forall>l \<in> set vars. 0 < fst l \<longrightarrow> fst l \<in> boundaries 0 is" and "\<forall>l \<in> set vars. snd l < 2 ^ 31"
    and "pi_max st = int height" and "height < 2 ^ 31"
  obtains r where "WriteToStream bj st = map_option (\<lambda>os. st\<lparr>pi_buffer := snd (the (GetLocals (pi_buffer st))), pi_stream := os\<rparr>) r"
    and "appends (pi_stream st) (pickle_bytes height vars is) r"
proof -
  let ?ob = "pi_buffer st" and ?P = "\<lambda>l. 0 < fst l"
  obtain lv ls where l: "GetLocals ?ob = Some (lv, ?ob\<lparr>ob_locals := lv\<rparr>)" "ob_count ?ob < length lv" "ls = take (ob_count ?ob) (drop 1 lv)"
    "sorted_wrt (<) (map fst (filter ?P ls))" "map_of (filter ?P ls) = map_of (filter ?P vars)"
    "set (filter ?P ls) = set (filter ?P vars)" "set ls \<subseteq> insert (0, 0) (set vars)"
    using sorted_stores [OF assms(1)] assms(4,5) by blast
  have pos: "length (code_bytes is) = ob_pos ?ob" "length vars = ob_count ?ob" "ob_pos ?ob \<le> length (ob_buffer ?ob)" "length vars < 2 ^ 30"
    using ob_ok_pos [OF assms(1)] assms(1,3,4) by (auto simp: ob_ok_def)
  have b: "fst l \<in> boundaries 0 is" if "l \<in> set ls" "0 < fst l" for l using that l(6) assms(6) by auto
  have in_code: "q \<in> boundaries 0 is \<Longrightarrow> q \<le> ob_pos ?ob" for q
    using pos(1) boundaries_le [of q 0 "is"] by simp
  have "insert_stores (filter ?P ls) 0 (code_bytes is) = code_bytes (weave (map_of (filter ?P vars)) 0 is)"
    using insert_stores_code [OF l(4), of 0 "is"] b l(5) by auto
  moreover have "\<forall>l \<in> set ls. snd l < 2 ^ 31" using l(7) assms(7) by force
  ultimately have stores: "appends os (code_bytes (weave (map_of (filter ?P vars)) 0 is))
     (write_stores bj (ob_buffer ?ob) ls 0 os \<bind> (\<lambda>(p, os'). put_range bj (ob_buffer ?ob) p (ob_pos ?ob) os'))" if "os_ok os" for os
    using appends_stores [OF that l(4), of 0 "ob_pos ?ob" "ob_buffer ?ob" bj] b in_code assms(3) pos(3) by (auto simp: ob_bytes_def)
  have "length vars + 1 < 2 ^ 31" using pos(4) by simp
  from small_CanPickle [OF this] have can1: "CanPickle (word_of_nat (length vars + 1))" .
  have can: "CanPickle (word_of_nat height)" "CanPickle majorVersion" "CanPickle minorVersion"
    using small_CanPickle [OF assms(9)] by (simp_all add: CanPickle_iff majorVersion_def minorVersion_def)
  let ?r = "OutputStream_PutBytes bj magic (pi_stream st) \<bind> (\<lambda>os1. OutputStream_PutUInt bj majorVersion os1 \<bind> (\<lambda>os2.
     OutputStream_PutUInt bj minorVersion os2 \<bind> (\<lambda>os3. OutputStream_PutByte bj (tag_byte INIT) os3 \<bind> (\<lambda>os4.
     OutputStream_PutUInt bj (word_of_nat height) os4 \<bind> (\<lambda>os5. OutputStream_PutUInt bj (word_of_nat (length vars + 1)) os5 \<bind> (\<lambda>os6.
     (write_stores bj (ob_buffer ?ob) ls 0 os6 \<bind> (\<lambda>(p, os'). put_range bj (ob_buffer ?ob) p (ob_pos ?ob) os')) \<bind> (\<lambda>os8.
     (OutputStream_PutByte bj (tag_byte STORE) os8 \<bind> OutputStream_PutUInt bj (word_of_nat 0)) \<bind> OutputStream_PutByte bj (tag_byte ENDOFSTREAM))))))))"
  have "WriteToStream bj st = map_option (\<lambda>os. st\<lparr>pi_buffer := snd (the (GetLocals (pi_buffer st))), pi_stream := os\<rparr>) ?r"
    using l(1,2,3) pos(2) assms(8) by (simp add: WriteToStream_def Let_def run_simps case_prod_unfold map_conv_bind_option comp_def)
  moreover have "appends (pi_stream st) (magic @ uint_bytes majorVersion @ uint_bytes minorVersion @ [tag_byte INIT] @ uint_of height @ uint_of (length vars + 1) @
      code_bytes (weave (map_of (filter ?P vars)) 0 is) @ encode (I_Store 0) @ [tag_byte ENDOFSTREAM]) ?r"
    unfolding uint_of_def
    by (intro appends_bind [OF appends_PutBytes [OF assms(2)]] appends_bind [OF appends_PutUInt] appends_bind [OF appends_PutByte] appends_bind [OF stores]
        appends_bind [OF appends_store] appends_PutByte)
      (assumption | rule can can1 | simp)+
  ultimately show ?thesis using that by (simp add: pickle_bytes_def header_bytes_def del: encode.simps)
qed

end
