(* ===== verification/Pickle_Inv.thy ===== *)
theory Pickle_Inv
  imports Pickle_Weave
begin

text \<open>
  The invariant of the pickler, on the view of \<open>Pickle_Code\<close>: every block that has been seen is on the way, announced or
  written, positions and local variables identify blocks, and the blocks on the way are those on the stack.
\<close>

section \<open>The blocks on the way\<close>

fun backs :: "tstore \<Rightarrow> pstack \<Rightarrow> addr list" where
  "backs T [] = []"
| "backs T ((w, b) # s) = (if b then (case Deref T w of Some (BlkW a) \<Rightarrow> [a] | _ \<Rightarrow> []) else []) @ backs T s"

lemma backs_append [simp]: "backs T (s @ t) = backs T s @ backs T t"
  by (induction s) auto

lemma backs_pending [simp]: "backs T (map (\<lambda>w. (w, False)) ws) = []"
  by (induction ws) auto

section \<open>The invariant\<close>

definition stack_ok :: "pheap \<Rightarrow> addr set \<Rightarrow> astate \<Rightarrow> bool" where
  "stack_ok h G A \<longleftrightarrow> (\<forall>(w, b) \<in> set (as_stack A). plain_word h G w \<and>
     (b \<longrightarrow> (\<exists>a l m ws i n. Deref (ph_trans h) w = Some (BlkW a) \<and> ph_objs h a = Some (PBlock l m ws) \<and> as_seen A a = Some (i, n))))"

text \<open>What the sharing detector notes of a block.\<close>

definition entry_ok :: "pheap \<Rightarrow> pinstr list \<Rightarrow> (nat \<times> nat) list \<Rightarrow> addr \<Rightarrow> int \<Rightarrow> nat \<Rightarrow> bool" where
  "entry_ok h is vars a i n \<longleftrightarrow>
     (i = NOT_WRITTEN \<and> (\<exists>l m ws. ph_objs h a = Some (PBlock l m ws)) \<or> 0 < i \<and> nat i \<in> boundaries 0 is) \<and>
     (0 < n \<longrightarrow> n \<le> length vars \<and> vars ! (n - 1) = (if i = NOT_WRITTEN then 0 else nat i, n))"

definition seen_ok :: "pheap \<Rightarrow> astate \<Rightarrow> bool" where
  "seen_ok h A \<longleftrightarrow> (\<forall>a i n. as_seen A a = Some (i, n) \<longrightarrow> entry_ok h (as_code A) (as_vars A) a i n)"

lemma entry_ok_code: "entry_ok h is vars a i n \<Longrightarrow> entry_ok h (is @ js) vars a i n"
  by (auto simp: entry_ok_def boundaries_append)

lemma entry_ok_vars: "entry_ok h is vars a i n \<Longrightarrow> entry_ok h is (vars @ vs) a i n"
  by (auto simp: entry_ok_def nth_append)

definition index_inj :: "seen \<Rightarrow> bool" where
  "index_inj s \<longleftrightarrow> (\<forall>a b i n k. s a = Some (i, n) \<and> s b = Some (i, k) \<and> 0 < i \<longrightarrow> a = b)"

definition var_inj :: "seen \<Rightarrow> bool" where
  "var_inj s \<longleftrightarrow> (\<forall>a b i k n. s a = Some (i, n) \<and> s b = Some (k, n) \<and> 0 < n \<longrightarrow> a = b)"

definition vars_ok :: "astate \<Rightarrow> bool" where
  "vars_ok A \<longleftrightarrow> (\<forall>k < length (as_vars A). snd (as_vars A ! k) = Suc k \<and> (\<exists>a i. as_seen A a = Some (i, Suc k)))"

definition backs_ok :: "pheap \<Rightarrow> astate \<Rightarrow> bool" where
  "backs_ok h A \<longleftrightarrow> distinct (backs (ph_trans h) (as_stack A)) \<and>
     (\<forall>a \<in> set (backs (ph_trans h) (as_stack A)). \<exists>n. as_seen A a = Some (NOT_WRITTEN, n)) \<and>
     (\<forall>a. as_seen A a = Some (NOT_WRITTEN, 0) \<longrightarrow> a \<in> set (backs (ph_trans h) (as_stack A)))"

definition awf :: "pheap \<Rightarrow> addr set \<Rightarrow> astate \<Rightarrow> bool" where
  "awf h G A \<longleftrightarrow> stack_ok h G A \<and> seen_ok h A \<and> index_inj (as_seen A) \<and> var_inj (as_seen A) \<and> vars_ok A \<and> backs_ok h A \<and>
     as_cur A \<le> as_max A \<and> 0 \<le> as_max A \<and> as_max A \<le> int (length (as_code A))"

text \<open>A frame on the stack.\<close>

definition frame_ok :: "pheap \<Rightarrow> addr set \<Rightarrow> seen \<Rightarrow> store_word \<times> bool \<Rightarrow> bool" where
  "frame_ok h G s f \<longleftrightarrow> plain_word h G (fst f) \<and>
     (snd f \<longrightarrow> (\<exists>a l m ws i n. Deref (ph_trans h) (fst f) = Some (BlkW a) \<and> ph_objs h a = Some (PBlock l m ws) \<and> s a = Some (i, n)))"

lemma stack_ok_frames: "stack_ok h G A \<longleftrightarrow> (\<forall>f \<in> set (as_stack A). frame_ok h G (as_seen A) f)"
  by (auto simp: stack_ok_def frame_ok_def)

lemma frame_ok_mono: "frame_ok h G s f \<Longrightarrow> dom s \<subseteq> dom s' \<Longrightarrow> frame_ok h G s' f"
  unfolding frame_ok_def by (metis domD domI old.prod.exhaust subsetD)

lemma awf_fit:
  assumes "awf h G A" and "length (as_vars A) < 2 ^ 31"
  shows "fit h G A"
proof -
  have s: "stack_ok h G A" "seen_ok h A" using assms(1) by (auto simp: awf_def)
  have "(i = NOT_WRITTEN \<or> 0 < i) \<and> n < 2 ^ 31 \<and> (i = NOT_WRITTEN \<longrightarrow> (\<exists>l m ws. ph_objs h a = Some (PBlock l m ws)))"
    if "as_seen A a = Some (i, n)" for a i n
    using s(2) [unfolded seen_ok_def entry_ok_def, rule_format, OF that] assms(2) by (cases "0 < n") (auto simp: NOT_WRITTEN_def)
  then show ?thesis using s(1) unfolding fit_def stack_ok_def by blast
qed

lemmas a_simps = a_emit_def a_push_def a_var_def a_index_def Let_def

declare encode.simps [simp del]

lemma pos_simps [simp]:
  "as_pos (A\<lparr>as_cur := c\<rparr>) = as_pos A" "as_pos (A\<lparr>as_max := c\<rparr>) = as_pos A" "as_pos (A\<lparr>as_stack := s\<rparr>) = as_pos A" "as_pos (A\<lparr>as_seen := se\<rparr>) = as_pos A"
  "as_pos (A\<lparr>as_vars := v\<rparr>) = as_pos A" "as_pos (A\<lparr>as_code := as_code A @ [i]\<rparr>) = as_pos A + length (encode i)"
  by (simp_all add: as_pos_def)

lemma not_written [simp]: "NOT_WRITTEN \<noteq> int n" "\<not> 0 < NOT_WRITTEN" "NOT_WRITTEN \<noteq> 0" "int n \<noteq> NOT_WRITTEN" "\<not> 0 \<le> NOT_WRITTEN"
  by (simp_all add: NOT_WRITTEN_def)

lemma boundaries_snoc [simp]: "boundaries p (is @ [i]) = insert (p + length (code_bytes is) + length (encode i)) (boundaries p is)"
  by (auto simp: boundaries_append)

lemma index_old:
  assumes "seen_ok h A" and "as_seen A a = Some (i, n)"
  shows "i \<le> int (as_pos A)"
proof -
  consider "i = NOT_WRITTEN" | "0 < i" "nat i \<in> boundaries 0 (as_code A)" using assms unfolding seen_ok_def entry_ok_def by blast
  then show ?thesis by cases (use boundaries_le [of "nat i" 0 "as_code A"] in \<open>auto simp: as_pos_def NOT_WRITTEN_def\<close>)
qed

lemma dom_seen_step: "astep h A A' \<Longrightarrow> dom (as_seen A) \<subseteq> dom (as_seen A')"
  by (erule astepE) (auto simp: a_simps)

lemma stack_ok_step:
  assumes "astep h A A'" and "stack_ok h G A" and "plain_graph h G"
  shows "stack_ok h G A'"
proof -
  have old: "frame_ok h G (as_seen A') f" if "f \<in> set (as_stack A)" for f
    using frame_ok_mono [OF _ dom_seen_step [OF assms(1)]] assms(2) that by (auto simp: stack_ok_frames)
  show ?thesis using assms(1)
  proof cases
    case (a_visit w rest a l m ws)
    have w: "frame_ok h G (as_seen A) (w, False)" using assms(2) a_visit by (simp add: stack_ok_frames)
    then have "a \<in> G" using a_visit by (auto simp: frame_ok_def plain_word_def)
    then have "\<forall>w \<in> set ws. frame_ok h G (as_seen A') (w, False)" using assms(3) a_visit by (auto simp: plain_graph_def frame_ok_def)
    moreover have "frame_ok h G (as_seen A') (w, True)" using w a_visit by (auto simp: frame_ok_def)
    ultimately show ?thesis using old a_visit unfolding stack_ok_frames by auto
  qed (use old in \<open>auto simp: stack_ok_frames a_simps\<close>)
qed

lemma heights_step:
  assumes "astep h A A'" and "awf h G A" and "\<And>a l m ws. ph_objs h a = Some (PBlock l m ws) \<Longrightarrow> a \<in> G \<Longrightarrow> ws \<noteq> []"
  shows "as_cur A' \<le> as_max A' \<and> 0 \<le> as_max A' \<and> as_max A' \<le> int (length (as_code A'))"
  using assms(1)
proof cases
  case (a_fulfill w rest a i n l m ws)
  then have "a \<in> G" using assms(2) by (auto simp: awf_def stack_ok_def plain_word_def)
  then show ?thesis using assms(2) a_fulfill assms(3) [of a l m ws] by (cases ws) (auto simp: awf_def a_simps)
next
  case (a_build w rest a i l m ws)
  then have "a \<in> G" using assms(2) by (auto simp: awf_def stack_ok_def plain_word_def)
  then show ?thesis using assms(2) a_build assms(3) [of a l m ws] by (cases ws) (auto simp: awf_def a_simps)
qed (use assms(2) in \<open>auto simp: awf_def a_simps\<close>)

lemma seen_ok_emit: "seen_ok h A \<Longrightarrow> seen_ok h (a_emit i A)"
  by (auto simp: seen_ok_def a_emit_def intro: entry_ok_code)

lemma seen_ok_index:
  assumes "seen_ok h A"
  shows "seen_ok h (a_index a (a_emit i A))"
proof -
  have "entry_ok h (as_code A @ [i]) (as_vars A) a (int (as_pos A + length (encode i))) 0"
    using encode_nonempty(2) [of i] by (simp add: entry_ok_def as_pos_def del: of_nat_add)
  then show ?thesis using seen_ok_emit [OF assms, of i] by (auto simp: seen_ok_def a_simps)
qed

lemma seen_ok_var:
  assumes "seen_ok h A" and "as_seen A a = Some (if i = 0 then NOT_WRITTEN else i, 0)" and "0 \<le> i"
  shows "seen_ok h (a_var a i (a_emit instr A))"
proof -
  let ?n = "length (as_vars A)" and ?j = "if i = 0 then NOT_WRITTEN else i"
  have old: "entry_ok h (as_code A @ [instr]) (as_vars A @ [(nat i, Suc ?n)]) b k n" if "as_seen A b = Some (k, n)" for b k n
    using assms(1) that by (auto simp: seen_ok_def intro!: entry_ok_code entry_ok_vars)
  have "entry_ok h (as_code A @ [instr]) (as_vars A @ [(nat i, Suc ?n)]) a ?j (Suc ?n)"
    using old [OF assms(2)] assms(3) by (auto simp: entry_ok_def nth_append)
  then show ?thesis using old by (auto simp: seen_ok_def a_simps)
qed

lemma seen_ok_step:
  assumes "astep h A A'" and "seen_ok h A"
  shows "seen_ok h A'"
  using assms(1)
proof cases
  case (a_build w rest a i l m ws)
  then show ?thesis using seen_ok_index [OF assms(2), of a "I_Build l m (length ws)"] by (auto simp: seen_ok_def a_simps)
next
  case (a_announce w rest a l m ws)
  then show ?thesis using seen_ok_var [OF assms(2), of a 0 "I_Announce l m (length ws) (Suc (length (as_vars A)))"] by (auto simp: seen_ok_def a_push_def)
next
  case (a_share w rest a i)
  have "0 < i" using assms(2) a_share by (auto simp: seen_ok_def entry_ok_def)
  then show ?thesis using seen_ok_var [OF assms(2), of a i "I_Load (Suc (length (as_vars A)))"] a_share by (auto simp: seen_ok_def a_push_def)
next
  case (a_chunk w rest a m bs)
  then show ?thesis using seen_ok_index [OF assms(2), of a "I_Chunk m bs"] by (auto simp: seen_ok_def a_push_def)
next
  case (a_visit w rest a l m ws)
  then show ?thesis using assms(2) by (auto simp: seen_ok_def entry_ok_def)
qed (use seen_ok_emit [OF assms(2)] in \<open>auto simp: seen_ok_def a_push_def a_emit_def\<close>)

lemma index_inj_new: "index_inj s \<Longrightarrow> (\<And>b k n. s b = Some (k, n) \<Longrightarrow> k < i) \<Longrightarrow> index_inj (s(a \<mapsto> (i, m)))"
  unfolding index_inj_def by (auto split: if_splits) (metis less_irrefl)+

lemma index_inj_same: "index_inj s \<Longrightarrow> s a = Some (i, n) \<or> i \<le> 0 \<Longrightarrow> index_inj (s(a \<mapsto> (i, m)))"
  unfolding index_inj_def by (auto split: if_splits)

lemma index_inj_step:
  assumes "astep h A A'" and "seen_ok h A" and "index_inj (as_seen A)"
  shows "index_inj (as_seen A')"
proof -
  have new: "k < int (as_pos A + length (encode i))" if "as_seen A b = Some (k, n)" for b k n i
    using index_old [OF assms(2) that] encode_nonempty(2) [of i] by linarith
  show ?thesis using assms(1)
  proof cases
    case (a_build w rest a i l m ws)
    then show ?thesis using index_inj_new [OF assms(3) new] by (simp add: a_simps)
  next
    case (a_chunk w rest a m bs)
    then show ?thesis using index_inj_new [OF assms(3) new] by (simp add: a_simps)
  qed (use assms(3) in \<open>auto simp: a_simps NOT_WRITTEN_def intro!: index_inj_same\<close>)
qed

lemma var_inj_new: "var_inj s \<Longrightarrow> (\<And>b i k. s b = Some (i, k) \<Longrightarrow> k < n) \<Longrightarrow> var_inj (s(a \<mapsto> (i, n)))"
  unfolding var_inj_def by (auto split: if_splits) (metis less_irrefl)+

lemma var_inj_zero: "var_inj s \<Longrightarrow> var_inj (s(a \<mapsto> (i, 0)))"
  unfolding var_inj_def by (auto split: if_splits)

lemma var_inj_step:
  assumes "astep h A A'" and "seen_ok h A" and "var_inj (as_seen A)"
  shows "var_inj (as_seen A')"
proof -
  have new: "k < Suc (length (as_vars A))" if "as_seen A b = Some (i, k)" for b i k
    using assms(2) that by (cases "0 < k") (fastforce simp: seen_ok_def entry_ok_def)+
  show ?thesis using assms(1) by (rule astepE) (use assms(3) new in \<open>auto simp: a_simps intro!: var_inj_new var_inj_zero\<close>)
qed

lemma vars_ok_step:
  assumes "astep h A A'" and "seen_ok h A" and "vars_ok A"
  shows "vars_ok A'"
proof -
  have keep: "\<exists>b i. ((as_seen A)(a \<mapsto> (j, n))) b = Some (i, Suc k)"
    if k: "k < length (as_vars A)" "as_seen A a = None \<or> (\<exists>i. as_seen A a = Some (i, 0))" for a j n k
  proof -
    obtain b i where "as_seen A b = Some (i, Suc k)" using assms(3) k(1) unfolding vars_ok_def by blast
    then show ?thesis using k(2) by (intro exI [of _ b]) auto
  qed
  show ?thesis using assms(1) by (rule astepE) (use assms(3) keep in \<open>auto simp: vars_ok_def a_simps nth_append less_Suc_eq\<close>)
qed

lemma backs_ok_step:
  assumes "astep h A A'" and "backs_ok h A"
  shows "backs_ok h A'"
  using assms(1)
proof cases
  case (a_fulfill w rest a i n l m ws)
  then show ?thesis using assms(2) by (auto simp: backs_ok_def a_simps)
next
  case (a_build w rest a i l m ws)
  then show ?thesis using assms(2) by (auto simp: backs_ok_def a_simps simp flip: of_nat_add)
next
  case (a_chunk w rest a m bs)
  then show ?thesis using assms(2) by (auto simp: backs_ok_def a_simps simp flip: of_nat_add)
next
  case (a_visit w rest a l m ws)
  then have "a \<notin> set (backs (ph_trans h) rest)" using assms(2) by (auto simp: backs_ok_def)
  then show ?thesis using assms(2) a_visit by (auto simp: backs_ok_def)
qed (use assms(2) in \<open>auto simp: backs_ok_def a_simps\<close>)

lemma awf_step:
  assumes "astep h A A'" and "awf h G A" and "plain_graph h G"
  shows "awf h G A'"
proof -
  have "ws \<noteq> []" if "ph_objs h a = Some (PBlock l m ws)" "a \<in> G" for a l m ws using assms(3) that by (auto simp: plain_graph_def)
  then show ?thesis using assms heights_step [OF assms(1,2)] stack_ok_step seen_ok_step index_inj_step var_inj_step vars_ok_step backs_ok_step
    unfolding awf_def by metis
qed

section \<open>The stacks\<close>

text \<open>
  The stack of the pickler and that of the unpickler. \<open>stk x fs us\<close>: the pickler works on the word \<open>x\<close>, with the frames \<open>fs\<close> below; \<open>us\<close>
  is the stack of the unpickler before the copy of \<open>x\<close> is pushed; \<open>P\<close> relates words with their copies.
\<close>

inductive stk :: "pheap \<Rightarrow> store_word \<Rightarrow> (store_word \<Rightarrow> store_word \<Rightarrow> bool) \<Rightarrow> store_word \<Rightarrow> pstack \<Rightarrow> store_word list \<Rightarrow> bool" for h root P where
  stk_root: "stk h root P root [] []"
| stk_arg: "stk h root P w fs us \<Longrightarrow> Deref (ph_trans h) w = Some (BlkW a) \<Longrightarrow> ph_objs h a = Some (PBlock l mu (pend @ x # dn)) \<Longrightarrow>
     list_all2 P dn vs \<Longrightarrow> stk h root P x (map (\<lambda>w. (w, False)) (rev pend) @ (w, True) # fs) (vs @ us)"

lemma stk_mono: "stk h root P x fs us \<Longrightarrow> (\<And>w v. P w v \<Longrightarrow> Q w v) \<Longrightarrow> stk h root Q x fs us"
  by (induction rule: stk.induct) (auto intro: stk.intros list_all2_mono)

inductive ready :: "pheap \<Rightarrow> store_word \<Rightarrow> (store_word \<Rightarrow> store_word \<Rightarrow> bool) \<Rightarrow> pstack \<Rightarrow> store_word list \<Rightarrow> bool" for h root P where
  ready_end: "P root v \<Longrightarrow> ready h root P [] [v]"
| ready_word: "stk h root P x fs us \<Longrightarrow> ready h root P ((x, False) # fs) us"
| ready_back: "stk h root P w fs us \<Longrightarrow> Deref (ph_trans h) w = Some (BlkW a) \<Longrightarrow> ph_objs h a = Some (PBlock l mu ws) \<Longrightarrow>
     list_all2 P ws vs \<Longrightarrow> ready h root P ((w, True) # fs) (vs @ us)"

inductive_cases ready_wordE: "ready h root P ((x, False) # fs) us"
inductive_cases ready_backE: "ready h root P ((w, True) # fs) us"
inductive_cases ready_endE: "ready h root P [] us"

text \<open>The copy of the word is pushed.\<close>

lemma stk_done:
  assumes "stk h root P x fs us" and "P x v"
  shows "ready h root P fs (v # us)"
  using assms(1)
proof cases
  case stk_root
  then show ?thesis using assms(2) by (auto intro: ready_end)
next
  case (stk_arg w fs' us' a l mu pend dn vs)
  have all: "list_all2 P (x # dn) (v # vs)" using assms(2) stk_arg by simp
  show ?thesis
  proof (cases pend rule: rev_cases)
    case Nil
    then show ?thesis using ready_back [OF stk_arg(3,4) _ all] stk_arg by simp
  next
    case (snoc ys y)
    then have "stk h root P y (map (\<lambda>w. (w, False)) (rev ys) @ (w, True) # fs') ((v # vs) @ us')"
      using stk.stk_arg [OF stk_arg(3,4) _ all, of l mu ys y] stk_arg(5) by simp
    then show ?thesis using stk_arg(1,2) snoc by (auto intro: ready_word)
  qed
qed

text \<open>A block is visited.\<close>

lemma stk_visit:
  assumes "stk h root P x fs us" and "Deref (ph_trans h) x = Some (BlkW a)" and "ph_objs h a = Some (PBlock l mu ws)" and "ws \<noteq> []"
  shows "ready h root P (map (\<lambda>w. (w, False)) (rev ws) @ (x, True) # fs) us"
proof -
  obtain ys y where ws: "ws = ys @ [y]" using assms(4) by (cases ws rule: rev_cases) auto
  have "stk h root P y (map (\<lambda>w. (w, False)) (rev ys) @ (x, True) # fs) ([] @ us)"
    using stk_arg [OF assms(1,2), of l mu ys y "[]" "[]"] assms(3) ws by simp
  then show ?thesis using ws by (auto intro: ready_word)
qed

text \<open>The simulated height is that of the unpickler's stack.\<close>

definition height_ok :: "pheap \<Rightarrow> store_word \<Rightarrow> astate \<Rightarrow> bool" where
  "height_ok h root A \<longleftrightarrow> (\<exists>us. ready h root (\<lambda>_ _. True) (as_stack A) us \<and> as_cur A = int (length us))"

lemma height_push:
  assumes "height_ok h root A" and "as_stack A = (w, False) # rest" and "as_stack A' = rest" and "as_cur A' = as_cur A + 1"
  shows "height_ok h root A'"
proof -
  obtain us where us: "stk h root (\<lambda>_ _. True) w rest us" "as_cur A = int (length us)" using assms(1,2) by (auto simp: height_ok_def elim: ready_wordE)
  from stk_done [OF us(1), of w] show ?thesis unfolding height_ok_def by (intro exI [of _ "w # us"]) (use assms(3,4) us(2) in simp)
qed

lemma height_back:
  assumes "height_ok h root A" and "as_stack A = (w, True) # rest" and "Deref (ph_trans h) w = Some (BlkW a)" and "ph_objs h a = Some (PBlock l m ws)"
  obtains us where "stk h root (\<lambda>_ _. True) w rest us" and "as_cur A = int (length ws) + int (length us)"
proof -
  obtain vs us where "stk h root (\<lambda>_ _. True) w rest us" "list_all2 (\<lambda>_ _. True) ws vs" "as_cur A = int (length (vs @ us))"
    using assms by (auto simp: height_ok_def elim!: ready_backE)
  then show ?thesis using that list_all2_lengthD by fastforce
qed

lemma height_done:
  assumes "height_ok h root A" and "as_stack A = (w, True) # rest" and "Deref (ph_trans h) w = Some (BlkW a)" and "ph_objs h a = Some (PBlock l m ws)"
    and "as_stack A' = rest" and "as_cur A' = as_cur A - (int (length ws) - 1)"
  shows "height_ok h root A'"
proof -
  obtain us where us: "stk h root (\<lambda>_ _. True) w rest us" "as_cur A = int (length ws) + int (length us)" using height_back [OF assms(1-4)] .
  from stk_done [OF us(1), of w] show ?thesis unfolding height_ok_def by (intro exI [of _ "w # us"]) (use assms(5,6) us(2) in simp)
qed

lemma height_step:
  assumes "astep h A A'" and "height_ok h root A" and "awf h G A" and "plain_graph h G"
  shows "height_ok h root A'"
  using assms(1)
proof cases
  case (a_fulfill w rest a i n l m ws)
  show ?thesis by (rule height_done [OF assms(2) a_fulfill(2,3,6)]) (simp_all add: a_fulfill(1) a_simps)
next
  case (a_build w rest a i l m ws)
  show ?thesis by (rule height_done [OF assms(2) a_build(2,3,5)]) (simp_all add: a_build(1) a_simps)
next
  case (a_visit w rest a l m ws)
  have "a \<in> G" using assms(3) a_visit by (auto simp: awf_def stack_ok_def plain_word_def)
  then have "ws \<noteq> []" using assms(4) a_visit by (auto simp: plain_graph_def)
  moreover obtain us where "stk h root (\<lambda>_ _. True) w rest us" "as_cur A = int (length us)"
    using assms(2) a_visit by (auto simp: height_ok_def elim: ready_wordE)
  ultimately show ?thesis using stk_visit [of h root "\<lambda>_ _. True" w rest us a l m ws] a_visit by (auto simp: height_ok_def)
next
  case (a_int w rest i)
  show ?thesis by (rule height_push [OF assms(2) a_int(2)]) (simp_all add: a_int(1,2) a_simps)
next
  case (a_load w rest a i n)
  show ?thesis by (rule height_push [OF assms(2) a_load(2)]) (simp_all add: a_load(1,2) a_simps)
next
  case (a_announce w rest a l m ws)
  show ?thesis by (rule height_push [OF assms(2) a_announce(2)]) (simp_all add: a_announce(1,2) a_simps)
next
  case (a_share w rest a i)
  show ?thesis by (rule height_push [OF assms(2) a_share(2)]) (simp_all add: a_share(1,2) a_simps)
next
  case (a_chunk w rest a m bs)
  show ?thesis by (rule height_push [OF assms(2) a_chunk(2)]) (simp_all add: a_chunk(1,2) a_simps)
qed

section \<open>Earlier and later states\<close>

definition grows :: "astate \<Rightarrow> astate \<Rightarrow> bool" where
  "grows A B \<longleftrightarrow> (\<exists>js. as_code B = as_code A @ js) \<and> as_max A \<le> as_max B \<and> length (as_vars A) \<le> length (as_vars B) \<and>
     (\<forall>a i n. as_seen A a = Some (i, n) \<longrightarrow> (\<exists>i' n'. as_seen B a = Some (i', n') \<and> (0 < i \<or> 0 < n \<longrightarrow> i' = i) \<and> (0 < n \<longrightarrow> n' = n))) \<and>
     (\<forall>a i n. as_seen B a = Some (i, n) \<and> 0 < i \<longrightarrow> (\<exists>n'. as_seen A a = Some (i, n')) \<or> int (as_pos A) < i)"

lemma grows_pos: "grows A B \<Longrightarrow> as_pos A \<le> as_pos B"
  by (auto simp: grows_def as_pos_def)

lemma grows_seen:
  assumes "grows A B" and "as_seen A a = Some (i, n)"
  obtains i' n' where "as_seen B a = Some (i', n')" and "0 < i \<or> 0 < n \<Longrightarrow> i' = i" and "0 < n \<Longrightarrow> n' = n"
  using assms unfolding grows_def by blast

lemma grows_refl [simp]: "grows A A"
  by (auto simp: grows_def)

lemma grows_trans:
  assumes "grows A B" and "grows B C"
  shows "grows A C"
proof -
  have "\<exists>i' n'. as_seen C a = Some (i', n') \<and> (0 < i \<or> 0 < n \<longrightarrow> i' = i) \<and> (0 < n \<longrightarrow> n' = n)" if s: "as_seen A a = Some (i, n)" for a i n
  proof -
    obtain j k where b: "as_seen B a = Some (j, k)" "0 < i \<or> 0 < n \<longrightarrow> j = i" "0 < n \<longrightarrow> k = n" using assms(1) s unfolding grows_def by blast
    obtain i' n' where "as_seen C a = Some (i', n')" "0 < j \<or> 0 < k \<longrightarrow> i' = j" "0 < k \<longrightarrow> n' = k" using assms(2) b(1) unfolding grows_def by blast
    then show ?thesis using b by auto
  qed
  moreover have "(\<exists>n'. as_seen A a = Some (i, n')) \<or> int (as_pos A) < i" if "as_seen C a = Some (i, n)" "0 < i" for a i n
    using assms that grows_pos [OF assms(1)] unfolding grows_def by (metis of_nat_le_iff order_le_less_trans)
  moreover have "\<exists>js. as_code C = as_code A @ js" "as_max A \<le> as_max C" "length (as_vars A) \<le> length (as_vars C)"
    using assms unfolding grows_def by (metis append.assoc, auto)
  ultimately show ?thesis unfolding grows_def by blast
qed

lemma grows_step:
  assumes "astep h A A'" and "backs_ok h A"
  shows "grows A A'"
  using assms(1)
proof cases
  case (a_build w rest a i l m ws)
  then have "i = NOT_WRITTEN" using assms(2) by (auto simp: backs_ok_def)
  then show ?thesis using a_build encode_nonempty(2) [of "I_Build l m (length ws)"] by (auto simp: grows_def a_simps)
next
  case (a_chunk w rest a m bs)
  then show ?thesis using encode_nonempty(2) [of "I_Chunk m bs"] by (auto simp: grows_def a_simps)
qed (auto simp: grows_def a_simps)

end
