(* ===== verification/Pickle_Sim.thy ===== *)
theory Pickle_Sim
  imports Pickle_Inv
begin

text \<open>
  The unpickler rebuilds what the pickler has visited. The simulation relates a state of the pickler with the state of the
  unpickler that has executed the code written so far, with the stores of the finished pickle woven in. A partial map takes
  the blocks that were written or announced to their copies.
\<close>

section \<open>Copies\<close>

text \<open>The copy of a word.\<close>

definition tr :: "tstore \<Rightarrow> (addr \<Rightarrow> addr option) \<Rightarrow> store_word \<Rightarrow> store_word option" where
  "tr T m w = (case Deref T w of Some (IntW i) \<Rightarrow> Some (IntW i) | Some (BlkW a) \<Rightarrow> map_option BlkW (m a) | _ \<Rightarrow> None)"

fun copied :: "tstore \<Rightarrow> (addr \<Rightarrow> addr option) \<Rightarrow> pobj \<Rightarrow> pobj \<Rightarrow> bool" where
  "copied T m (PBlock l mu ws) (PBlock l' mu' vs) \<longleftrightarrow> l' = l \<and> mu' = mu \<and> list_all2 (\<lambda>w v. tr T m w = Some v) ws vs"
| "copied T m (PChunk mu bs) (PChunk mu' bs') \<longleftrightarrow> mu' = mu \<and> bs' = bs"
| "copied T m _ _ \<longleftrightarrow> False"

text \<open>Same label, mutability and size.\<close>

fun shaped :: "pobj \<Rightarrow> pobj \<Rightarrow> bool" where
  "shaped (PBlock l mu ws) (PBlock l' mu' vs) \<longleftrightarrow> l' = l \<and> mu' = mu \<and> length vs = length ws"
| "shaped (PChunk mu bs) (PChunk mu' bs') \<longleftrightarrow> mu' = mu \<and> bs' = bs"
| "shaped _ _ \<longleftrightarrow> False"

lemma copied_shaped: "copied T m ob ob' \<Longrightarrow> shaped ob ob'"
  by (cases "(ob, ob')" rule: shaped.cases) (auto dest: list_all2_lengthD)

lemma tr_mono: "tr T m w = Some v \<Longrightarrow> m \<subseteq>\<^sub>m m' \<Longrightarrow> tr T m' w = Some v"
  by (auto simp: tr_def map_le_def split: option.splits store_word.splits) (metis domI option.inject)

lemma list_tr_mono: "list_all2 (\<lambda>w v. tr T m w = Some v) ws vs \<Longrightarrow> m \<subseteq>\<^sub>m m' \<Longrightarrow> list_all2 (\<lambda>w v. tr T m' w = Some v) ws vs"
  by (erule list_all2_mono) (rule tr_mono)

lemma copied_mono: "copied T m ob ob' \<Longrightarrow> m \<subseteq>\<^sub>m m' \<Longrightarrow> copied T m' ob ob'"
  by (cases "(ob, ob')" rule: shaped.cases) (auto intro: list_tr_mono)

text \<open>The relation between words and their copies.\<close>

abbreviation copy_of :: "pheap \<Rightarrow> (addr \<Rightarrow> addr option) \<Rightarrow> store_word \<Rightarrow> store_word \<Rightarrow> bool" where
  "copy_of h m \<equiv> (\<lambda>w v. tr (ph_trans h) m w = Some v)"

lemma stk_copy_mono: "stk h root (copy_of h m) x fs us \<Longrightarrow> m \<subseteq>\<^sub>m m' \<Longrightarrow> stk h root (copy_of h m') x fs us"
  by (erule stk_mono) (rule tr_mono)

section \<open>The heap\<close>

text \<open>The blocks at \<open>B\<close> are on the way: their copies are not filled yet.\<close>

definition heap_sim :: "pheap \<Rightarrow> pheap \<Rightarrow> (addr \<Rightarrow> addr option) \<Rightarrow> addr set \<Rightarrow> pheap \<Rightarrow> bool" where
  "heap_sim h h0 m B H \<longleftrightarrow> inj_on m (dom m) \<and>
     (\<forall>a x. m a = Some x \<longrightarrow> ph_next h0 \<le> x \<and> x < ph_next H \<and>
       (\<exists>ob ob'. ph_objs h a = Some ob \<and> ph_objs H x = Some ob' \<and> shaped ob ob' \<and> (a \<notin> B \<longrightarrow> copied (ph_trans h) m ob ob'))) \<and>
     ph_next h0 \<le> ph_next H \<and> (\<forall>x < ph_next h0. ph_objs H x = ph_objs h0 x) \<and> ph_trans H = ph_trans h0 \<and> ph_unique H = ph_unique h0"

lemma heap_new:
  assumes "heap_sim h h0 m B H" and "m a = None" and "ph_objs h a = Some ob" and "shaped ob ob'" and "B \<subseteq> insert a B'"
    and "a \<notin> B' \<Longrightarrow> copied (ph_trans h) (m(a \<mapsto> ph_next H)) ob ob'"
  shows "heap_sim h h0 (m(a \<mapsto> ph_next H)) B' (snd (new_obj ob' H))"
proof -
  let ?m = "m(a \<mapsto> ph_next H)"
  have mono: "m \<subseteq>\<^sub>m ?m" using assms(2) by (auto simp: map_le_def)
  have old: "x < ph_next H" if "m b = Some x" for b x using assms(1) that by (auto simp: heap_sim_def)
  have "inj_on ?m (dom ?m)" using assms(1) old unfolding heap_sim_def inj_on_def
    by (auto split: if_splits) (metis domI less_irrefl)+
  moreover have "ph_next h0 \<le> x \<and> x < ph_next (snd (new_obj ob' H)) \<and> (\<exists>o1 o2. ph_objs h b = Some o1 \<and> ph_objs (snd (new_obj ob' H)) x = Some o2 \<and> shaped o1 o2 \<and>
      (b \<notin> B' \<longrightarrow> copied (ph_trans h) ?m o1 o2))" if b: "?m b = Some x" for b x
  proof (cases "b = a")
    case True
    then show ?thesis using b assms by (auto simp: new_obj_def heap_sim_def)
  next
    case False
    then have x: "m b = Some x" using b by simp
    obtain o1 o2 where o: "ph_next h0 \<le> x" "x < ph_next H" "ph_objs h b = Some o1" "ph_objs H x = Some o2" "shaped o1 o2" "b \<notin> B \<longrightarrow> copied (ph_trans h) m o1 o2"
      using assms(1) x unfolding heap_sim_def by blast
    have "b \<notin> B' \<longrightarrow> copied (ph_trans h) ?m o1 o2" using o(6) assms(5) False mono by (auto intro: copied_mono)
    then show ?thesis using o by (auto simp: new_obj_def)
  qed
  moreover have "ph_next h0 \<le> ph_next (snd (new_obj ob' H))" "\<forall>x < ph_next h0. ph_objs (snd (new_obj ob' H)) x = ph_objs h0 x"
    "ph_trans (snd (new_obj ob' H)) = ph_trans h0" "ph_unique (snd (new_obj ob' H)) = ph_unique h0"
    using assms(1) by (auto simp: heap_sim_def new_obj_def)
  ultimately show ?thesis unfolding heap_sim_def by blast
qed

lemma heap_fill:
  assumes "heap_sim h h0 m B H" and "m a = Some x" and "ph_objs h a = Some ob" and "copied (ph_trans h) m ob ob'" and "B \<subseteq> insert a B'"
  shows "heap_sim h h0 m B' (H\<lparr>ph_objs := (ph_objs H)(x \<mapsto> ob')\<rparr>)"
proof -
  have x: "ph_next h0 \<le> x" "x < ph_next H" using assms(1,2) by (auto simp: heap_sim_def)
  have "ph_next h0 \<le> y \<and> y < ph_next H \<and> (\<exists>o1 o2. ph_objs h b = Some o1 \<and> ((ph_objs H)(x \<mapsto> ob')) y = Some o2 \<and> shaped o1 o2 \<and>
      (b \<notin> B' \<longrightarrow> copied (ph_trans h) m o1 o2))" if b: "m b = Some y" for b y
  proof (cases "b = a")
    case True
    then show ?thesis using b assms(2-4) x copied_shaped by auto
  next
    case False
    then have "y \<noteq> x" using assms(1,2) b unfolding heap_sim_def inj_on_def by (metis domI)
    then show ?thesis using assms(1,5) b False unfolding heap_sim_def by (metis fun_upd_apply insertE subsetD)
  qed
  then show ?thesis using assms(1) x unfolding heap_sim_def by auto
qed

section \<open>Local variables\<close>

text \<open>The variable of each copied block, if it has one in the end, holds the copy; the others are free.\<close>

definition locals_sim :: "seen \<Rightarrow> (addr \<Rightarrow> addr option) \<Rightarrow> store_word list \<Rightarrow> bool" where
  "locals_sim s m loc \<longleftrightarrow> (\<forall>a x i v. m a = Some x \<and> s a = Some (i, v) \<and> 0 < v \<longrightarrow> loc ! v = BlkW x) \<and>
     (\<forall>v < length loc. loc ! v = IntW 0 \<or> (\<exists>a x i. m a = Some x \<and> s a = Some (i, v) \<and> 0 < v))"

lemma locals_none:
  assumes "locals_sim s m loc" and "s a = Some (i, 0)" and "m a = None"
  shows "locals_sim s (m(a \<mapsto> x)) loc"
proof -
  have "loc ! n = BlkW y" if "(m(a \<mapsto> x)) b = Some y" "s b = Some (k, n)" "0 < n" for b y k n
  proof -
    have "b \<noteq> a" using that(2,3) assms(2) by auto
    then show ?thesis using that assms(1) unfolding locals_sim_def by auto
  qed
  moreover have "loc ! n = IntW 0 \<or> (\<exists>b y k. (m(a \<mapsto> x)) b = Some y \<and> s b = Some (k, n) \<and> 0 < n)" if "n < length loc" for n
    using assms(1,3) that unfolding locals_sim_def by (metis fun_upd_other option.simps(3))
  ultimately show ?thesis unfolding locals_sim_def by blast
qed

lemma locals_some:
  assumes "locals_sim s m loc" and "s a = Some (i, v)" and "0 < v" and "v < length loc" and "m a = None" and "var_inj s"
  shows "loc ! v = IntW 0" "locals_sim s (m(a \<mapsto> x)) (loc[v := BlkW x])"
proof -
  have other: "b = a" if "s b = Some (k, v)" for b k using assms(2,3,6) that unfolding var_inj_def by blast
  show "loc ! v = IntW 0" using assms(1,4,5) other unfolding locals_sim_def by (metis option.simps(3))
  have "loc[v := BlkW x] ! n = BlkW y" if "(m(a \<mapsto> x)) b = Some y" "s b = Some (k, n)" "0 < n" for b y k n
  proof (cases "b = a")
    case True
    then show ?thesis using that assms(2,4) by auto
  next
    case False
    then have "n \<noteq> v" using other that(2) by auto
    then show ?thesis using False that assms(1) unfolding locals_sim_def by auto
  qed
  moreover have "loc[v := BlkW x] ! n = IntW 0 \<or> (\<exists>b y k. (m(a \<mapsto> x)) b = Some y \<and> s b = Some (k, n) \<and> 0 < n)" if "n < length loc" for n
  proof (cases "n = v")
    case True
    then show ?thesis using assms(2,3) by (intro disjI2 exI [of _ a] exI [of _ x] exI [of _ i]) simp
  next
    case False
    then show ?thesis using assms(1,5) that unfolding locals_sim_def by (metis fun_upd_other nth_list_update_neq option.simps(3))
  qed
  ultimately show "locals_sim s (m(a \<mapsto> x)) (loc[v := BlkW x])" unfolding locals_sim_def by (metis length_list_update)
qed

section \<open>The simulation\<close>

text \<open>\<open>F\<close> is the last state of the pickler.\<close>

definition sim :: "pheap \<Rightarrow> store_word \<Rightarrow> pheap \<Rightarrow> astate \<Rightarrow> astate \<Rightarrow> (addr \<Rightarrow> addr option) \<Rightarrow> vstate \<Rightarrow> bool" where
  "sim h root h0 F A m V \<longleftrightarrow>
     (\<forall>a. m a \<noteq> None \<longleftrightarrow> (\<exists>i n. as_seen A a = Some (i, n) \<and> (0 < i \<or> 0 < n))) \<and>
     heap_sim h h0 m (set (backs (ph_trans h) (as_stack A))) (vs_heap V) \<and>
     length (vs_locals V) = Suc (length (as_vars F)) \<and> locals_sim (as_seen F) m (vs_locals V) \<and>
     ready h root (copy_of h m) (as_stack A) (vs_stack V) \<and> as_cur A = int (length (vs_stack V))"

definition stores :: "astate \<Rightarrow> nat \<Rightarrow> nat option" where
  "stores F = map_of (filter (\<lambda>l. 0 < fst l) (as_vars F))"

lemma vars_entry:
  assumes "awf h G F" and "k < length (as_vars F)" and "0 < fst (as_vars F ! k)"
  shows "\<exists>a. as_seen F a = Some (int (fst (as_vars F ! k)), Suc k)"
proof -
  obtain a i where a: "as_seen F a = Some (i, Suc k)" using assms(1,2) unfolding awf_def vars_ok_def by blast
  have "entry_ok h (as_code F) (as_vars F) a i (Suc k)" using assms(1) a by (auto simp: awf_def seen_ok_def)
  then show ?thesis using a assms(3) by (auto simp: entry_ok_def split: if_splits)
qed

lemma distinct_map_filter:
  assumes "\<And>j k. j < length xs \<Longrightarrow> k < length xs \<Longrightarrow> P (xs ! k) \<Longrightarrow> f (xs ! j) = f (xs ! k) \<Longrightarrow> j = k"
  shows "distinct (map f (filter P xs))"
  using assms
proof (induction xs)
  case (Cons x xs)
  have "distinct (map f (filter P xs))" using Cons.IH Cons.prems [of "Suc _" "Suc _"] by auto
  moreover have "f x \<notin> f ` set (filter P xs)" using Cons.prems [of 0 "Suc _"] by (auto simp: in_set_conv_nth)
  ultimately show ?case by auto
qed simp

lemma vars_distinct:
  assumes "awf h G F"
  shows "distinct (map fst (filter (\<lambda>l. 0 < fst l) (as_vars F)))"
proof (rule distinct_map_filter)
  fix j k
  assume jk: "j < length (as_vars F)" "k < length (as_vars F)" "0 < fst (as_vars F ! k)" "fst (as_vars F ! j) = fst (as_vars F ! k)"
  obtain a where a: "as_seen F a = Some (int (fst (as_vars F ! k)), Suc j)" using vars_entry [OF assms jk(1)] jk(3,4) by auto
  obtain b where b: "as_seen F b = Some (int (fst (as_vars F ! k)), Suc k)" using vars_entry [OF assms jk(2)] jk(3) by auto
  have "index_inj (as_seen F)" using assms by (simp add: awf_def)
  then have "a = b" using a b jk(3) unfolding index_inj_def by (metis of_nat_0_less_iff)
  then show "j = k" using a b by simp
qed

lemma stores_Some:
  assumes "awf h G F"
  shows "stores F q = Some v \<longleftrightarrow> 0 < q \<and> 0 < v \<and> (\<exists>a. as_seen F a = Some (int q, v))"
proof
  assume "stores F q = Some v"
  then have qv: "(q, v) \<in> set (as_vars F)" "0 < q" using map_of_SomeD [of "filter (\<lambda>l. 0 < fst l) (as_vars F)" q v] by (auto simp: stores_def)
  then obtain k where k: "k < length (as_vars F)" "as_vars F ! k = (q, v)" by (auto simp: in_set_conv_nth)
  have "v = Suc k" using assms k unfolding awf_def vars_ok_def by (metis snd_conv)
  then show "0 < q \<and> 0 < v \<and> (\<exists>a. as_seen F a = Some (int q, v))" using vars_entry [OF assms k(1)] k(2) qv(2) by auto
next
  assume a: "0 < q \<and> 0 < v \<and> (\<exists>a. as_seen F a = Some (int q, v))"
  then obtain a where "as_seen F a = Some (int q, v)" by blast
  then have "entry_ok h (as_code F) (as_vars F) a (int q) v" using assms by (auto simp: awf_def seen_ok_def)
  then have "(q, v) \<in> set (filter (\<lambda>l. 0 < fst l) (as_vars F))" using a nth_mem [of "v - 1" "as_vars F"] by (auto simp: entry_ok_def)
  then show "stores F q = Some v" unfolding stores_def using map_of_eq_Some_iff [OF vars_distinct [OF assms]] by blast
qed

text \<open>No store follows an instruction that builds nothing new; after the others it is that of the block.\<close>

lemma no_store:
  assumes "awf h G F" and "grows A' F" and "\<And>a n. as_seen A' a \<noteq> Some (int (as_pos A'), n)"
  shows "stores F (as_pos A') = None"
proof (rule ccontr)
  assume "stores F (as_pos A') \<noteq> None"
  then obtain v a where v: "0 < as_pos A'" "as_seen F a = Some (int (as_pos A'), v)" using stores_Some [OF assms(1)] by blast
  have "0 < int (as_pos A')" using v(1) by simp
  then show False using assms(2,3) v(2) unfolding grows_def by (metis less_irrefl)
qed

lemma block_store:
  assumes "awf h G F" and "grows A' F" and "as_seen A' a = Some (int (as_pos A'), 0)" and "0 < as_pos A'"
  obtains v where "as_seen F a = Some (int (as_pos A'), v)" and "stores F (as_pos A') = (if v = 0 then None else Some v)"
proof -
  obtain v where v: "as_seen F a = Some (int (as_pos A'), v)" using grows_seen [OF assms(2,3)] assms(4) by (metis of_nat_0_less_iff)
  have inj: "index_inj (as_seen F)" using assms(1) by (simp add: awf_def)
  have same: "n = v" if "as_seen F b = Some (int (as_pos A'), n)" for b n
    using inj v that assms(4) unfolding index_inj_def by (metis Pair_inject of_nat_0_less_iff option.inject)
  show ?thesis
  proof (cases "v = 0")
    case True
    have "stores F (as_pos A') \<noteq> Some n" for n
    proof
      assume "stores F (as_pos A') = Some n"
      then obtain b where "as_seen F b = Some (int (as_pos A'), n)" "0 < n" using stores_Some [OF assms(1)] by blast
      then show False using same True by blast
    qed
    then show ?thesis using that [OF v] True by auto
  next
    case False
    then have "stores F (as_pos A') = Some v" using stores_Some [OF assms(1)] v assms(4) by blast
    then show ?thesis using that [OF v] False by simp
  qed
qed

section \<open>Steps\<close>

text \<open>The part of the code that a step writes is executed.\<close>

definition runs :: "nat \<Rightarrow> junk \<Rightarrow> astate \<Rightarrow> astate \<Rightarrow> astate \<Rightarrow> vstate \<Rightarrow> vstate \<Rightarrow> bool" where
  "runs cap j F A A' V V' \<longleftrightarrow> (let is = weave (stores F) (as_pos A) (drop (length (as_code A)) (as_code A')) in
     vexecs cap j is V = Some V' \<and> (\<forall>i \<in> set is. wf_instr i))"

lemma runs_plain:
  assumes "as_code A' = as_code A @ [i]" and "stores F (as_pos A') = None" and "vexec j i V = Some V'" and "length (vs_stack V') \<le> cap" and "wf_instr i"
  shows "runs cap j F A A' V V'"
  using assms by (simp add: runs_def as_pos_def run_simps)

lemma runs_store:
  assumes "as_code A' = as_code A @ [i]" and "stores F (as_pos A') = Some v" and "vexec j i V = Some V1" and "length (vs_stack V1) \<le> cap" and "wf_instr i"
    and "vs_stack V1 = w # us" and "v_store v w V1 = Some V'" and "v < 2 ^ 30"
  shows "runs cap j F A A' V V'"
proof -
  have "vs_stack V' = vs_stack V1" using assms(7) by (auto simp: v_store_def run_elims)
  then show ?thesis using assms by (simp add: runs_def as_pos_def run_simps)
qed

lemma sim_dom: "sim h root h0 F A m V \<Longrightarrow> m a = None \<longleftrightarrow> \<not> (\<exists>i n. as_seen A a = Some (i, n) \<and> (0 < i \<or> 0 < n))"
  unfolding sim_def by blast

lemma sim_height: "sim h root h0 F A m V \<Longrightarrow> awf h G A \<Longrightarrow> grows A F \<Longrightarrow> as_max F \<le> int cap \<Longrightarrow> length (vs_stack V) \<le> cap"
  by (auto simp: sim_def awf_def grows_def)

text \<open>A word whose copy is known is pushed.\<close>

lemma sim_push:
  assumes "sim h root h0 F A m V" and "as_stack A = (w, False) # rest" and "tr (ph_trans h) m w = Some v"
    and "as_stack A' = rest" and "as_cur A' = as_cur A + 1"
    and "\<And>a. (\<exists>i n. as_seen A' a = Some (i, n) \<and> (0 < i \<or> 0 < n)) \<longleftrightarrow> (\<exists>i n. as_seen A a = Some (i, n) \<and> (0 < i \<or> 0 < n))"
  shows "sim h root h0 F A' m (v_push v V)"
proof -
  have "stk h root (copy_of h m) w rest (vs_stack V)" using assms(1,2) by (auto simp: sim_def elim: ready_wordE)
  then have "ready h root (copy_of h m) rest (v # vs_stack V)" using assms(3) by (rule stk_done)
  then show ?thesis using assms by (simp add: sim_def v_push_def)
qed

text \<open>A new copy is pushed.\<close>

lemma sim_new:
  assumes "sim h root h0 F A m V" and "awf h G F" and "m a = None" and "ph_objs h a = Some ob" and "Deref (ph_trans h) w = Some (BlkW a)"
    and "stk h root (copy_of h m) w rest us" and "as_stack A' = rest" and "as_cur A' = int (length us) + 1"
    and "set (backs (ph_trans h) (as_stack A)) \<subseteq> insert a (set (backs (ph_trans h) rest))"
    and "shaped ob ob'" and "a \<notin> set (backs (ph_trans h) rest) \<Longrightarrow> copied (ph_trans h) m ob ob'"
    and "as_seen F a = Some (i, v)" and "as_seen A' = (as_seen A)(a \<mapsto> (j, k))" and "0 < j \<or> 0 < k"
  defines "V1 \<equiv> v_new ob' (V\<lparr>vs_stack := us\<rparr>)"
  shows "\<exists>m' V'. sim h root h0 F A' m' V' \<and> (if v = 0 then V' = V1 else v_store v (BlkW (ph_next (vs_heap V))) V1 = Some V')"
proof -
  let ?x = "ph_next (vs_heap V)" and ?T = "ph_trans h"
  let ?m = "m(a \<mapsto> ?x)"
  have mono: "m \<subseteq>\<^sub>m ?m" using assms(3) by (auto simp: map_le_def)
  have s: "heap_sim h h0 m (set (backs ?T (as_stack A))) (vs_heap V)" "locals_sim (as_seen F) m (vs_locals V)" "length (vs_locals V) = Suc (length (as_vars F))"
    "\<And>b. m b \<noteq> None \<longleftrightarrow> (\<exists>i n. as_seen A b = Some (i, n) \<and> (0 < i \<or> 0 < n))"
    using assms(1) by (auto simp: sim_def)
  have H: "heap_sim h h0 ?m (set (backs ?T rest)) (snd (new_obj ob' (vs_heap V)))"
    by (rule heap_new [OF s(1) assms(3,4,10,9)]) (rule copied_mono [OF assms(11) mono])
  have "tr ?T ?m w = Some (BlkW ?x)" using assms(5) by (simp add: tr_def)
  then have R: "ready h root (copy_of h ?m) rest (BlkW ?x # us)" by (rule stk_done [OF stk_copy_mono [OF assms(6) mono]])
  have D: "?m b \<noteq> None \<longleftrightarrow> (\<exists>i n. as_seen A' b = Some (i, n) \<and> (0 < i \<or> 0 < n))" for b using s(4) [of b] assms(13,14) by simp
  show ?thesis
  proof (cases "v = 0")
    case True
    have "locals_sim (as_seen F) ?m (vs_locals V)" using locals_none [OF s(2) _ assms(3)] assms(12) True by simp
    then have "sim h root h0 F A' ?m V1" unfolding sim_def using H R D s(3) assms(7,8) by (simp add: V1_def v_new_def v_push_def)
    then show ?thesis using True by auto
  next
    case False
    have "entry_ok h (as_code F) (as_vars F) a i v" "var_inj (as_seen F)" using assms(2,12) by (auto simp: awf_def seen_ok_def)
    then have v: "v < length (vs_locals V)" using False s(3) by (simp add: entry_ok_def)
    note L = locals_some [OF s(2) assms(12) _ v assms(3) \<open>var_inj (as_seen F)\<close>]
    let ?V = "V1\<lparr>vs_locals := (vs_locals V)[v := BlkW ?x]\<rparr>"
    have "sim h root h0 F A' ?m ?V" unfolding sim_def using H R D s(3) assms(7,8) L(2) False by (simp add: V1_def v_new_def v_push_def)
    moreover have "v_store v (BlkW ?x) V1 = Some ?V" using L(1) v False by (simp add: v_store_def V1_def v_new_def v_push_def run_simps)
    ultimately show ?thesis using False by auto
  qed
qed

lemma top_block:
  assumes "awf h G A" and "plain_graph h G" and "as_stack A = (w, b) # rest" and "Deref (ph_trans h) w = Some (BlkW a)"
  obtains ob where "ph_objs h a = Some ob" and "plain_obj ob"
proof -
  have "a \<in> G" using assms(1,3,4) by (auto simp: awf_def stack_ok_def plain_word_def)
  then show ?thesis using assms(2) that by (auto simp: plain_graph_def)
qed

text \<open>No block has the position after an instruction that builds none.\<close>

lemma no_index:
  assumes "seen_ok h A" and "as_pos A < p" and "as_seen A' = as_seen A \<or> (\<exists>a i n k. as_seen A a = Some (i, n) \<and> as_seen A' = (as_seen A)(a \<mapsto> (i, k)))"
  shows "as_seen A' b \<noteq> Some (int p, n)"
proof
  assume "as_seen A' b = Some (int p, n)"
  then obtain k where "as_seen A b = Some (int p, k)" using assms(3) by (auto split: if_splits)
  from index_old [OF assms(1) this] show False using assms(2) by simp
qed

lemma pos_grows: "as_code A' = as_code A @ [i] \<Longrightarrow> as_pos A < as_pos A'"
  by (simp add: as_pos_def)

lemma sim_int:
  assumes "sim h root h0 F A m V" and "as_stack A = (w, False) # rest" and "Deref (ph_trans h) w = Some (IntW i)"
    and "awf h G A" and "A' = a_push (a_emit (I_Int i) A)" and "awf h G A'" and "awf h G F" and "grows A' F" and "as_max F \<le> int cap"
  shows "\<exists>m' V'. sim h root h0 F A' m' V' \<and> runs cap j F A A' V V'"
proof -
  have "tr (ph_trans h) m w = Some (IntW i)" using assms(3) by (simp add: tr_def)
  from sim_push [OF assms(1,2) this, of A'] have S: "sim h root h0 F A' m (v_push (IntW i) V)" using assms(2,5) by (simp add: a_simps)
  have code: "as_code A' = as_code A @ [I_Int i]" "as_seen A' = as_seen A" using assms(5) by (simp_all add: a_simps)
  have "wf_instr (I_Int i)" using assms(2,3,4) by (auto simp: awf_def stack_ok_def plain_word_def)
  moreover have "stores F (as_pos A') = None"
    by (rule no_store [OF assms(7,8)], rule no_index [OF _ pos_grows [OF code(1)]]) (use assms(4) code(2) in \<open>auto simp: awf_def\<close>)
  ultimately show ?thesis using S runs_plain [OF code(1)] sim_height [OF S assms(6,8,9)] by fastforce
qed

text \<open>Loading a block that has a local variable in the end.\<close>

lemma sim_load:
  assumes "sim h root h0 F A m V" and "as_stack A = (w, False) # rest" and "Deref (ph_trans h) w = Some (BlkW a)"
    and "as_seen A a = Some (i, n0)" and "0 < i \<or> 0 < n0" and "as_seen A' a = Some (i, n)" and "0 < n"
    and "as_seen A' = (as_seen A)(a \<mapsto> (i, n))" and "as_code A' = as_code A @ [I_Load n]" and "as_stack A' = rest" and "as_cur A' = as_cur A + 1"
    and "awf h G A" and "awf h G A'" and "awf h G F" and "grows A' F" and "as_max F \<le> int cap" and "length (as_vars F) < 2 ^ 30"
  shows "\<exists>m' V'. sim h root h0 F A' m' V' \<and> runs cap j F A A' V V'"
proof -
  obtain x where x: "m a = Some x" using assms(1,4,5) unfolding sim_def by blast
  obtain i' where f: "as_seen F a = Some (i', n)" using grows_seen [OF assms(15,6)] assms(7) by metis
  have "entry_ok h (as_code F) (as_vars F) a i' n" using assms(14) f by (auto simp: awf_def seen_ok_def)
  then have n: "n \<le> length (as_vars F)" using assms(7) by (simp add: entry_ok_def)
  have "vs_locals V ! n = BlkW x" using assms(1,7) x f unfolding sim_def locals_sim_def by blast
  then have "v_load n V = Some x" using assms(1) n by (simp add: v_load_def sim_def run_simps)
  then have e: "vexec j (I_Load n) V = Some (v_push (BlkW x) V)" by simp
  have "tr (ph_trans h) m w = Some (BlkW x)" using assms(3) x by (simp add: tr_def)
  from sim_push [OF assms(1,2) this assms(10,11)] have S: "sim h root h0 F A' m (v_push (BlkW x) V)" using assms(4,5,7,8) by auto
  have "stores F (as_pos A') = None"
    by (rule no_store [OF assms(14,15)], rule no_index [OF _ pos_grows [OF assms(9)]]) (use assms(4,8,12) in \<open>auto simp: awf_def\<close>)
  then show ?thesis using S runs_plain [OF assms(9) _ e] sim_height [OF S assms(13,15,16)] n assms(17) by fastforce
qed

lemma sim_built:
  assumes "sim h root h0 F A m V" and "ph_objs h a = Some ob" and "Deref (ph_trans h) w = Some (BlkW a)" and "m a = None"
    and "stk h root (copy_of h m) w rest us" and "as_stack A' = rest" and "as_cur A' = int (length us) + 1"
    and "set (backs (ph_trans h) (as_stack A)) \<subseteq> insert a (set (backs (ph_trans h) rest))" and "copied (ph_trans h) m ob ob'"
    and "as_seen A' = (as_seen A)(a \<mapsto> (int (as_pos A'), 0))" and "as_code A' = as_code A @ [i]" and "vexec j i V = Some (v_new ob' (V\<lparr>vs_stack := us\<rparr>))" and "wf_instr i"
    and "awf h G A'" and "awf h G F" and "grows A' F" and "as_max F \<le> int cap" and "length (as_vars F) < 2 ^ 30"
  shows "\<exists>m' V'. sim h root h0 F A' m' V' \<and> runs cap j F A A' V V'"
proof -
  have pos: "0 < as_pos A'" using pos_grows [OF assms(11)] by simp
  have "as_seen A' a = Some (int (as_pos A'), 0)" using assms(10) by simp
  from block_store [OF assms(15,16) this pos] obtain v where v: "as_seen F a = Some (int (as_pos A'), v)" "stores F (as_pos A') = (if v = 0 then None else Some v)" .
  let ?V1 = "v_new ob' (V\<lparr>vs_stack := us\<rparr>)"
  obtain m' V' where S: "sim h root h0 F A' m' V'" "if v = 0 then V' = ?V1 else v_store v (BlkW (ph_next (vs_heap V))) ?V1 = Some V'"
    using sim_new [OF assms(1,15,4,2,3,5,6,7,8) copied_shaped [OF assms(9)] assms(9) v(1) assms(10)] pos by auto
  have V1: "vs_stack ?V1 = BlkW (ph_next (vs_heap V)) # us" by (simp add: v_new_def v_push_def)
  have "vs_stack V' = vs_stack ?V1" using S(2) by (auto simp: v_store_def run_elims split: if_splits)
  then have cap: "length (vs_stack ?V1) \<le> cap" using sim_height [OF S(1) assms(14,16,17)] by simp
  have "runs cap j F A A' V V'"
  proof (cases "v = 0")
    case True
    then show ?thesis using runs_plain [OF assms(11) _ assms(12) cap assms(13)] v(2) S(2) by simp
  next
    case False
    have "entry_ok h (as_code F) (as_vars F) a (int (as_pos A')) v" using assms(15) v(1) by (auto simp: awf_def seen_ok_def)
    then have "v < 2 ^ 30" using False assms(18) by (simp add: entry_ok_def)
    then show ?thesis using runs_store [OF assms(11) _ assms(12) cap assms(13) V1] v(2) S(2) False by simp
  qed
  then show ?thesis using S(1) by blast
qed

lemma sim_announce:
  assumes "sim h root h0 F A m V" and "as_stack A = (w, False) # rest" and "Deref (ph_trans h) w = Some (BlkW a)" and "as_seen A a = Some (NOT_WRITTEN, 0)"
    and "ph_objs h a = Some (PBlock l mu ws)" and "plain_obj (PBlock l mu ws)"
    and "A' = a_push (a_var a 0 (a_emit (I_Announce l mu (length ws) (Suc (length (as_vars A)))) A))"
    and "awf h G A" and "awf h G A'" and "awf h G F" and "grows A' F" and "as_max F \<le> int cap" and "length (as_vars F) < 2 ^ 30"
  shows "\<exists>m' V'. sim h root h0 F A' m' V' \<and> runs cap j F A A' V V'"
proof -
  let ?n = "Suc (length (as_vars A))" and ?T = "ph_trans h"
  let ?i = "I_Announce l mu (length ws) ?n" and ?ob = "PBlock l mu (raw_words j l (length ws))"
  have A': "as_stack A' = rest" "as_cur A' = as_cur A + 1" "as_seen A' = (as_seen A)(a \<mapsto> (NOT_WRITTEN, ?n))" "as_code A' = as_code A @ [?i]"
    using assms(2,7) by (simp_all add: a_simps)
  have none: "m a = None" using sim_dom [OF assms(1)] assms(4) by simp
  have way: "a \<in> set (backs ?T rest)" using assms(2,4,8) by (auto simp: awf_def backs_ok_def)
  have st: "stk h root (copy_of h m) w rest (vs_stack V)" "as_cur A = int (length (vs_stack V))" using assms(1,2) by (auto simp: sim_def elim: ready_wordE)
  have "as_seen A' a = Some (NOT_WRITTEN, ?n)" using A'(3) by simp
  then have f: "as_seen F a = Some (NOT_WRITTEN, ?n)" using grows_seen [OF assms(11)] by (metis zero_less_Suc)
  have V: "V\<lparr>vs_stack := vs_stack V\<rparr> = V" by simp
  obtain m' V' where S: "sim h root h0 F A' m' V'" "v_store ?n (BlkW (ph_next (vs_heap V))) (v_new ?ob V) = Some V'"
    using sim_new [OF assms(1,10) none assms(5,3) st(1) A'(1) _ _ _ _ f A'(3), of ?ob] A'(2) st(2) assms(2) way V by auto
  then have e: "vexec j ?i V = Some V'" by simp
  have "entry_ok h (as_code F) (as_vars F) a NOT_WRITTEN ?n" using assms(10) f by (auto simp: awf_def seen_ok_def)
  then have "wf_instr ?i" using assms(6,13) by (auto simp: entry_ok_def)
  moreover have "stores F (as_pos A') = None"
    by (rule no_store [OF assms(10,11)], rule no_index [OF _ pos_grows [OF A'(4)]]) (use assms(4,8) A'(3) in \<open>auto simp: awf_def\<close>)
  ultimately show ?thesis using S(1) runs_plain [OF A'(4) _ e] sim_height [OF S(1) assms(9,11,12)] by blast
qed

lemma sim_fulfill:
  assumes "sim h root h0 F A m V" and "as_stack A = (w, True) # rest" and "Deref (ph_trans h) w = Some (BlkW a)" and "as_seen A a = Some (i, n)" and "0 < n"
    and "ph_objs h a = Some (PBlock l mu ws)"
    and "A' = (a_emit (I_Fulfill n) A)\<lparr>as_cur := as_cur A - (int (length ws) - 1), as_stack := rest\<rparr>"
    and "awf h G A" and "awf h G A'" and "awf h G F" and "grows A' F" and "as_max F \<le> int cap" and "length (as_vars F) < 2 ^ 30"
  shows "\<exists>m' V'. sim h root h0 F A' m' V' \<and> runs cap j F A A' V V'"
proof -
  let ?T = "ph_trans h"
  have A': "as_stack A' = rest" "as_cur A' = as_cur A - (int (length ws) - 1)" "as_seen A' = as_seen A" "as_code A' = as_code A @ [I_Fulfill n]"
    using assms(7) by (simp_all add: a_simps)
  obtain x where x: "m a = Some x" using assms(1,4,5) unfolding sim_def by blast
  obtain vs us where st: "vs_stack V = vs @ us" "list_all2 (\<lambda>w v. tr ?T m w = Some v) ws vs" "stk h root (copy_of h m) w rest us"
    using assms(1,2,3,6) by (auto simp: sim_def elim!: ready_backE)
  have len: "length vs = length ws" using st(2) by (simp add: list_all2_lengthD)
  have hs: "heap_sim h h0 m (set (backs ?T (as_stack A))) (vs_heap V)" using assms(1) by (simp add: sim_def)
  obtain ob' where "ph_objs (vs_heap V) x = Some ob'" "shaped (PBlock l mu ws) ob'" using hs x assms(6) unfolding heap_sim_def by fastforce
  then obtain ws' where ob: "ph_objs (vs_heap V) x = Some (PBlock l mu ws')" "length ws' = length ws" by (cases ob') auto
  obtain i' where f: "as_seen F a = Some (i', n)" using grows_seen [OF assms(11), of a i n] assms(4,5) A'(3) by metis
  have "entry_ok h (as_code F) (as_vars F) a i' n" using assms(10) f by (auto simp: awf_def seen_ok_def)
  then have n: "n \<le> length (as_vars F)" using assms(5) by (simp add: entry_ok_def)
  have "vs_locals V ! n = BlkW x" using assms(1,5) x f unfolding sim_def locals_sim_def by blast
  then have ld: "v_load n V = Some x" using assms(1) n by (simp add: v_load_def sim_def run_simps)
  let ?H = "(vs_heap V)\<lparr>ph_objs := (ph_objs (vs_heap V))(x \<mapsto> PBlock l mu vs)\<rparr>"
  let ?V = "v_push (BlkW x) (V\<lparr>vs_stack := us, vs_heap := ?H\<rparr>)"
  have e: "vexec j (I_Fulfill n) V = Some ?V" using ld ob len st(1) by (simp add: run_simps)
  have H: "heap_sim h h0 m (set (backs ?T rest)) ?H" by (rule heap_fill [OF hs x assms(6)]) (use st(2) assms(2,3) in auto)
  have "tr ?T m w = Some (BlkW x)" using assms(3) x by (simp add: tr_def)
  then have R: "ready h root (copy_of h m) rest (BlkW x # us)" by (rule stk_done [OF st(3)])
  have S: "sim h root h0 F A' m ?V" using assms(1) H R A' st(1) len by (simp add: sim_def v_push_def)
  have "stores F (as_pos A') = None"
    by (rule no_store [OF assms(10,11)], rule no_index [OF _ pos_grows [OF A'(4)]]) (use A'(3) assms(8) in \<open>auto simp: awf_def\<close>)
  then show ?thesis using S runs_plain [OF A'(4) _ e] sim_height [OF S assms(9,11,12)] n assms(13) by fastforce
qed

lemma heap_weaken: "heap_sim h h0 m B H \<Longrightarrow> B \<subseteq> B' \<Longrightarrow> heap_sim h h0 m B' H"
  unfolding heap_sim_def by blast

lemma sim_step:
  assumes "astep h A A'" and "sim h root h0 F A m V" and "plain_graph h G" and "awf h G A" and "awf h G F" and "grows A' F"
    and "as_max F \<le> int cap" and "length (as_vars F) < 2 ^ 30"
  shows "\<exists>m' V'. sim h root h0 F A' m' V' \<and> runs cap j F A A' V V'"
proof -
  have wf: "awf h G A'" by (rule awf_step [OF assms(1,4,3)])
  note doms = sim_dom [OF assms(2)]
  show ?thesis using assms(1)
  proof cases
    case (a_fulfill w rest a i n l mu ws)
    then show ?thesis using sim_fulfill [OF assms(2) a_fulfill(2-6,1) assms(4) wf assms(5-8)] by blast
  next
    case (a_build w fs a i l mu ws)
    have "i = NOT_WRITTEN" using a_build assms(4) by (auto simp: awf_def backs_ok_def)
    then have none: "m a = None" using a_build doms by auto
    obtain vs us where st: "vs_stack V = vs @ us" "list_all2 (\<lambda>w v. tr (ph_trans h) m w = Some v) ws vs" "stk h root (copy_of h m) w fs us"
      using assms(2) a_build by (auto simp: sim_def elim!: ready_backE)
    have len: "length vs = length ws" using st(2) by (simp add: list_all2_lengthD)
    have "plain_obj (PBlock l mu ws)" using top_block [OF assms(4,3) a_build(2,3)] a_build(5) by auto
    then have wfi: "wf_instr (I_Build l mu (length ws))" by auto
    have A': "as_stack A' = fs" "as_cur A' = as_cur A - (int (length ws) - 1)" "as_seen A' = (as_seen A)(a \<mapsto> (int (as_pos A'), 0))"
      "as_code A' = as_code A @ [I_Build l mu (length ws)]" using a_build by (simp_all add: a_simps)
    have cur: "as_cur A' = int (length us) + 1" using A'(2) assms(2) st(1) len by (simp add: sim_def)
    have e: "vexec j (I_Build l mu (length ws)) V = Some (v_new (PBlock l mu vs) (V\<lparr>vs_stack := us\<rparr>))" using st(1) len by (simp add: run_simps)
    show ?thesis
      by (rule sim_built [OF assms(2) a_build(5,3) none st(3) A'(1) cur _ _ A'(3,4) e wfi wf assms(5-8)]) (use a_build st(2) in auto)
  next
    case (a_int w fs i)
    then show ?thesis using sim_int [OF assms(2) a_int(2,3) assms(4) a_int(1) wf assms(5-7)] by blast
  next
    case (a_load w fs a i n)
    then show ?thesis using sim_load [OF assms(2) a_load(2,3,4) _ _ a_load(5) _ _ _ _ assms(4) wf assms(5-8)] map_upd_triv [of "as_seen A" a "(i, n)"]
      by (auto simp: a_simps)
  next
    case (a_announce w fs a l mu ws)
    have "plain_obj (PBlock l mu ws)" using top_block [OF assms(4,3) a_announce(2,3)] a_announce(5) by auto
    then show ?thesis using sim_announce [OF assms(2) a_announce(2-5) _ a_announce(1) assms(4) wf assms(5-8)] by blast
  next
    case (a_share w fs a i)
    have "0 < i" using assms(4) a_share by (auto simp: awf_def seen_ok_def entry_ok_def)
    then show ?thesis using sim_load [OF assms(2) a_share(2,3,4) _ _ _ _ _ _ _ assms(4) wf assms(5-8)] a_share by (auto simp: a_simps)
  next
    case (a_chunk w fs a mu bs)
    have "plain_obj (PChunk mu bs)" using top_block [OF assms(4,3) a_chunk(2,3)] a_chunk(5) by auto
    then have wfi: "wf_instr (I_Chunk mu bs)" by auto
    have st: "stk h root (copy_of h m) w fs (vs_stack V)" using assms(2) a_chunk by (auto simp: sim_def elim: ready_wordE)
    have A': "as_stack A' = fs" "as_cur A' = int (length (vs_stack V)) + 1" "as_seen A' = (as_seen A)(a \<mapsto> (int (as_pos A'), 0))"
      "as_code A' = as_code A @ [I_Chunk mu bs]" using a_chunk assms(2) by (simp_all add: a_simps sim_def)
    show ?thesis
      by (rule sim_built [OF assms(2) a_chunk(5,3) _ st A'(1,2) _ _ A'(3,4) _ wfi wf assms(5-8)]) (use a_chunk doms in auto)
  next
    case (a_visit w fs a l mu ws)
    have "plain_obj (PBlock l mu ws)" using top_block [OF assms(4,3) a_visit(2,3)] a_visit(5) by auto
    then have "ws \<noteq> []" by simp
    moreover have "stk h root (copy_of h m) w fs (vs_stack V)" using assms(2) a_visit by (auto simp: sim_def elim: ready_wordE)
    ultimately have "ready h root (copy_of h m) (as_stack A') (vs_stack V)" using stk_visit a_visit by simp
    moreover have "heap_sim h h0 m (set (backs (ph_trans h) (as_stack A'))) (vs_heap V)" using assms(2) a_visit by (auto simp: sim_def intro: heap_weaken)
    ultimately have "sim h root h0 F A' m V" using assms(2) a_visit doms by (auto simp: sim_def)
    moreover have "runs cap j F A A' V V" using a_visit by (simp add: runs_def)
    ultimately show ?thesis by blast
  qed
qed

end
