(* ===== verification/Pickle_Total.thy ===== *)
theory Pickle_Total
  imports Pickle_Sim
begin

text \<open>
  The pickler returns: a round fails only when the buffers are exhausted, and the graph bounds the number of rounds and of
  bytes.
\<close>

section \<open>Costs\<close>

text \<open>The bytes of a block apart from the at most sixteen bytes for a reference to it, and the number of rounds.\<close>

fun obj_cost :: "pobj \<Rightarrow> nat" where
  "obj_cost (PBlock l m ws) = 16 * length ws"
| "obj_cost (PChunk m bs) = length bs"

definition cost :: "pheap \<Rightarrow> addr \<Rightarrow> nat" where
  "cost h a = (case ph_objs h a of Some ob \<Rightarrow> obj_cost ob | None \<Rightarrow> 0)"

definition arity :: "pheap \<Rightarrow> addr \<Rightarrow> nat" where
  "arity h a = (case ph_objs h a of Some (PBlock l m ws) \<Rightarrow> Suc (length ws) | _ \<Rightarrow> 1)"

definition todo :: "pheap \<Rightarrow> addr set \<Rightarrow> astate \<Rightarrow> nat" where
  "todo h G A = 16 * length (as_stack A) + (\<Sum>a \<in> G - dom (as_seen A). cost h a)"

definition rounds :: "pheap \<Rightarrow> addr set \<Rightarrow> astate \<Rightarrow> nat" where
  "rounds h G A = length (as_stack A) + (\<Sum>a \<in> G - dom (as_seen A). arity h a)"

lemma uint_of_short: "n < 2 ^ 31 \<Longrightarrow> length (uint_of n) \<le> 5"
  using uint_bytes_short small_CanPickle by (simp add: uint_of_def)

lemma int_short: "MIN_VALID_INT \<le> i \<Longrightarrow> i \<le> MAX_VALID_INT \<Longrightarrow> length (encode (I_Int i)) \<le> 6"
  using uint_of_short [of "nat i"] uint_of_short [of "nat (- (i + 1))"] int_operand(1) [of i] int_operand(1) [of "- (i + 1)"]
  by (simp add: encode.simps nat_less_iff)

text \<open>An instruction for a reference to a block takes at most sixteen bytes.\<close>

lemma encode_short:
  assumes "wf_instr i"
  shows "length (encode i) \<le> 16 + (case i of I_Chunk m bs \<Rightarrow> length bs | _ \<Rightarrow> 0)"
proof (cases i)
  case (I_Build l m n)
  then show ?thesis using assms uint_of_short [of l] uint_of_short [of n] by (auto simp: encode.simps)
next
  case (I_Announce l m n v)
  then show ?thesis using assms uint_of_short [of l] uint_of_short [of n] uint_of_short [of v] by (auto simp: encode.simps)
next
  case (I_Chunk m bs)
  then have "length bs < 2 ^ 31" using assms by simp
  then show ?thesis using uint_of_short [of "length bs"] I_Chunk by (simp add: encode.simps)
next
  case (I_Int x)
  then show ?thesis using assms int_short [of x] by simp
qed (use assms uint_of_short [of "_ :: nat", THEN le_trans, of _ 15] in \<open>auto simp: encode.simps\<close>)

lemma sum_remove:
  fixes f :: "addr \<Rightarrow> nat"
  assumes "finite G" and "a \<in> G" and "a \<notin> D"
  shows "(\<Sum>b \<in> G - D. f b) = f a + (\<Sum>b \<in> G - insert a D. f b)"
proof -
  have "G - D - {a} = G - insert a D" by blast
  then show ?thesis using sum.remove [of "G - D" a f] assms by simp
qed

section \<open>Rounds succeed\<close>

lemma length_operands: "\<forall>i \<in> set is. CanPickle i \<Longrightarrow> length (concat (map uint_bytes is)) \<le> 5 * length is"
proof (induction "is")
  case (Cons i "is")
  then show ?case using uint_bytes_short [of i] by simp
qed simp

lemma emit_room:
  assumes "ob_ok (pi_buffer st)" and "\<forall>i \<in> set is. CanPickle i" and "length (ob_bytes (pi_buffer st)) + 1 + 5 * length is \<le> STREAM_LIMIT"
  obtains st' where "emit pe t is st = Some st'" and "emitted st (tag_byte t # concat (map uint_bytes is)) st'"
proof (cases "emit pe t is st")
  case None
  have "writes (pi_buffer st) ([tag_byte t] @ concat (map uint_bytes is)) (OutputBuffer_PutByte (pe_bj pe) (tag_byte t) (pi_buffer st) \<bind> put_uints pe is)"
    by (rule writes_bind [OF writes_PutByte [OF assms(1)]]) (rule writes_put_uints [OF _ assms(2)])
  then show ?thesis using None assms(3) length_operands [OF assms(2)] by (auto simp: emit_def writes_def split: option.splits bind_splits)
next
  case (Some st')
  then show ?thesis using that emit_emitted [OF Some assms(1,2)] by blast
qed

lemma PutLocal_room:
  assumes "ob_ok ob" and "ob_count ob < 2000000" and "length (ob_bytes ob) + 5 \<le> STREAM_LIMIT"
  shows "PutLocal bj lj ref ob \<noteq> None"
proof -
  let ?n = "Suc (ob_count ob)"
  have "\<exists>ob1. (if ?n * 2 + 1 \<ge> ob_lsize ob then ResizeLocals lj ob else Some ob) = Some ob1 \<and> ob_ok ob1 \<and> ob_bytes ob1 = ob_bytes ob \<and> ?n < length (ob_locals ob1)"
  proof (cases "?n * 2 + 1 \<ge> ob_lsize ob")
    case True
    define n where "n = length (ob_locals ob)"
    have n: "ob_lsize ob = 2 * n" "?n \<le> n" "64 \<le> n" "6 * n \<le> 16777200" using assms(1,2) True by (auto simp: ob_ok_def n_def)
    let ?ob = "ob\<lparr>ob_lsize := 6 * n, ob_locals := take ?n (ob_locals ob) @ drop ?n (map lj [0..<3 * n])\<rparr>"
    have "ResizeLocals lj ob = Some ?ob" using n n_def by (simp add: ResizeLocals_def locals_New_def Let_def run_simps)
    moreover have "ob_ok ?ob" using assms(1) n n_def by (auto simp: ob_ok_def nth_append)
    moreover have "?n < length (ob_locals ?ob)" using n n_def by simp
    ultimately show ?thesis using True by (auto simp: ob_bytes_def)
  next
    case False
    then show ?thesis using assms(1) by (auto simp: ob_ok_def)
  qed
  then obtain ob1 where ob1: "(if ?n * 2 + 1 \<ge> ob_lsize ob then ResizeLocals lj ob else Some ob) = Some ob1" "ob_ok ob1" "ob_bytes ob1 = ob_bytes ob" "?n < length (ob_locals ob1)"
    by blast
  let ?ob = "ob1\<lparr>ob_locals := (ob_locals ob1)[?n := (ref, ?n)]\<rparr>"
  define w :: u_int where "w = word_of_nat ?n"
  have ok: "ob_ok ?ob" "ob_bytes ?ob = ob_bytes ob" using ob1 by (auto simp: ob_ok_def ob_bytes_def)
  have can: "CanPickle w" unfolding w_def using assms(2) by (intro small_CanPickle) simp
  have "OutputBuffer_PutUInt bj w ?ob \<noteq> None"
  proof
    assume "OutputBuffer_PutUInt bj w ?ob = None"
    with writes_PutUInt [OF ok(1) can, of bj] show False using assms(3) uint_bytes_short [OF can] ok(2) by (simp add: writes_def)
  qed
  then show ?thesis using ob1(1,4) w_def by (auto simp: PutLocal_def Let_def run_simps bind_eq_None_conv)
qed

lemma emitted_fields:
  "emitted st bs st' \<Longrightarrow> pi_cur st' = pi_cur st \<and> pi_seen st' = pi_seen st \<and> pi_stack st' = pi_stack st \<and> ob_ok (pi_buffer st') \<and>
     ob_bytes (pi_buffer st') = ob_bytes (pi_buffer st) @ bs \<and> ob_vars (pi_buffer st') = ob_vars (pi_buffer st)"
  by (auto simp: emitted_def)

text \<open>The end of a round that writes an instruction.\<close>

lemma emit_then:
  assumes "ob_ok (pi_buffer st)" and "\<forall>i \<in> set is. CanPickle i" and "length is \<le> 2" and "length (ob_bytes (pi_buffer st)) + 16 \<le> STREAM_LIMIT"
    and "\<And>st'. emitted st (tag_byte t # concat (map uint_bytes is)) st' \<Longrightarrow> k st' \<noteq> None"
  shows "emit pe t is st \<bind> k \<noteq> None"
proof -
  obtain st' where "emit pe t is st = Some st'" "emitted st (tag_byte t # concat (map uint_bytes is)) st'"
    using emit_room [OF assms(1,2), of pe t] assms(3,4) by auto
  then show ?thesis using assms(5) by simp
qed

lemma done_total:
  assumes "0 < pi_cur st" and "pi_seen st a = Some p" and "pi_stack st \<noteq> []"
  shows "SimulatePop k st \<bind> (\<lambda>st2. set_index a st2 \<bind> pop_again) \<noteq> None" "SimulatePop k st \<bind> pop_again \<noteq> None"
    "pop_again st \<noteq> None" "pop_again (SimulatePush st) \<noteq> None"
  using assms by (cases p; auto simp: SimulatePop_def set_index_def Seen_SetIndex_def pop_again_def PickleStack_PopTopFrame_def SimulatePush_def Let_def run_simps split: list.splits)+

lemma back_total:
  assumes "rep st A" and "as_stack A \<noteq> []" and "ph_objs h a = Some (PBlock l m ws)" and "plain_obj (PBlock l m ws)" and "as_seen A a = Some (i, n)"
    and "n < 2 ^ 31" and "as_pos A + 16 \<le> STREAM_LIMIT" and "0 < as_cur A"
  shows "pickle_back pe h a st \<noteq> None"
proof -
  have st: "ob_ok (pi_buffer st)" "length (ob_bytes (pi_buffer st)) + 16 \<le> STREAM_LIMIT" "pi_seen st a = Some (i, n)" "pi_stack st \<noteq> []" "0 < pi_cur st"
    using assms by (auto simp: rep_def as_pos_def)
  have can: "CanPickle (word_of_nat n)" "CanPickle (word_of_nat (length ws))" "CanPickle (word_of_nat l)"
    using small_CanPickle plain_block(3,4) [OF assms(4)] assms(6) by auto
  have e: "emit pe t is st \<bind> (\<lambda>st1. SimulatePop k st1 \<bind> (\<lambda>st2. set_index a st2 \<bind> pop_again)) \<noteq> None" "emit pe t is st \<bind> (\<lambda>st1. SimulatePop k st1 \<bind> pop_again) \<noteq> None"
    if "\<forall>i \<in> set is. CanPickle i" "length is \<le> 2" for t "is" k
    by (rule emit_then [OF st(1) that st(2)], rule done_total, use st emitted_fields in \<open>fastforce+\<close>)+
  show ?thesis
  proof (cases "n = 0")
    case True
    then show ?thesis using assms(3,4,5) st(3) e(1) [of "[word_of_nat (length ws)]"] e(1) [of "[word_of_nat l, word_of_nat (length ws)]"] can
      by (auto simp: pickle_back_def Seen_GetVarNo_def Let_def)
  next
    case False
    then show ?thesis using assms(3,5) st(3) e(2) [of "[word_of_nat n]"] can by (auto simp: pickle_back_def Seen_GetVarNo_def Let_def)
  qed
qed

lemma int_total:
  assumes "rep st A" and "as_stack A \<noteq> []" and "MIN_VALID_INT \<le> i" and "i \<le> MAX_VALID_INT" and "as_pos A + 16 \<le> STREAM_LIMIT"
  shows "do { st1 \<leftarrow> (if i \<ge> 0 then emit pe POSINT [word_of_int i] st else emit pe NEGINT [word_of_int (- (i + 1))] st); pop_again (SimulatePush st1) } \<noteq> None"
proof -
  have st: "ob_ok (pi_buffer st)" "length (ob_bytes (pi_buffer st)) + 16 \<le> STREAM_LIMIT" "pi_stack st \<noteq> []" using assms by (auto simp: rep_def as_pos_def)
  have can: "CanPickle (word_of_int k)" if "0 \<le> k" "k \<le> MAX_VALID_INT" for k
    using that small_CanPickle [of "nat k"] by (simp add: nat_less_iff)
  have e: "emit pe t [k] st \<bind> (\<lambda>st1. pop_again (SimulatePush st1)) \<noteq> None" if "CanPickle k" for t k
    by (rule emit_then [OF st(1) _ _ st(2)]) (use that st emitted_fields in \<open>fastforce simp: pop_again_def PickleStack_PopTopFrame_def SimulatePush_def Let_def split: list.splits\<close>)+
  show ?thesis
  proof (cases "0 \<le> i")
    case True
    then show ?thesis using e [OF can [OF True assms(4)], of POSINT] by simp
  next
    case False
    then show ?thesis using e [OF can [of "- (i + 1)"], of NEGINT] assms(3) by (simp del: minus_add_distrib)
  qed
qed

lemma new_local_total:
  assumes "ob_ok (pi_buffer st)" and "length (ob_vars (pi_buffer st)) < 2000000" and "length (ob_bytes (pi_buffer st)) + 5 \<le> STREAM_LIMIT"
    and "pi_seen st a = Some p" and "pi_stack st \<noteq> []"
  shows "new_local pe a ref st \<bind> pop_again \<noteq> None" "new_local pe a ref st \<bind> (\<lambda>st2. pop_again (SimulatePush st2)) \<noteq> None"
proof -
  have "PutLocal (pe_bj pe) (pe_lj pe) ref (pi_buffer st) \<noteq> None" using PutLocal_room [OF assms(1)] ob_ok_pos(2) [OF assms(1)] assms(2,3) by simp
  then obtain n ob where pl: "PutLocal (pe_bj pe) (pe_lj pe) ref (pi_buffer st) = Some (n, ob)" by auto
  show "new_local pe a ref st \<bind> pop_again \<noteq> None" "new_local pe a ref st \<bind> (\<lambda>st2. pop_again (SimulatePush st2)) \<noteq> None"
    using pl assms(4,5) by (cases p; auto simp: new_local_def Seen_SetVarNo_def pop_again_def PickleStack_PopTopFrame_def SimulatePush_def Let_def split: list.splits)+
qed

lemma known_total:
  assumes "rep st A" and "as_stack A \<noteq> []" and "as_seen A a = Some (i, n)" and "n < 2 ^ 31" and "as_pos A + 16 \<le> STREAM_LIMIT" and "length (as_vars A) < 2000000"
    and "i = NOT_WRITTEN \<Longrightarrow> \<exists>l m ws. ph_objs h a = Some (PBlock l m ws) \<and> plain_obj (PBlock l m ws)"
  shows "pickle_known pe h a i st \<noteq> None"
proof -
  have st: "ob_ok (pi_buffer st)" "length (ob_bytes (pi_buffer st)) + 16 \<le> STREAM_LIMIT" "pi_seen st a = Some (i, n)" "pi_stack st \<noteq> []" "length (ob_vars (pi_buffer st)) < 2000000"
    using assms by (auto simp: rep_def as_pos_def)
  note can = small_CanPickle [OF assms(4)]
  show ?thesis
  proof (cases "i = NOT_WRITTEN")
    case True
    obtain l m ws where ob: "ph_objs h a = Some (PBlock l m ws)" "plain_obj (PBlock l m ws)" using assms(7) True by blast
    have sz: "CanPickle (word_of_nat (length ws))" "CanPickle (word_of_nat l)" using small_CanPickle plain_block(3,4) [OF ob(2)] by auto
    have a: "emit pe t is st \<bind> (\<lambda>st1. new_local pe a 0 st1 \<bind> (\<lambda>st2. pop_again (SimulatePush st2))) \<noteq> None" if "is": "\<forall>i \<in> set is. CanPickle i" "length is \<le> 2" for t "is"
    proof (rule emit_then [OF st(1) "is" st(2)])
      fix st1 assume "emitted st (tag_byte t # concat (map uint_bytes is)) st1"
      note f = emitted_fields [OF this]
      show "new_local pe a 0 st1 \<bind> (\<lambda>st2. pop_again (SimulatePush st2)) \<noteq> None"
        by (rule new_local_total(2)) (use f st length_operands [OF "is"(1)] "is"(2) in auto)
    qed
    have l: "emit pe LOAD [word_of_nat n] st \<bind> (\<lambda>st1. pop_again (SimulatePush st1)) \<noteq> None"
      by (rule emit_then [OF st(1) _ _ st(2)]) (use can st emitted_fields in \<open>fastforce simp: pop_again_def PickleStack_PopTopFrame_def SimulatePush_def Let_def split: list.splits\<close>)+
    show ?thesis
    proof (cases "0 < n")
      case True
      then show ?thesis using l st(3) \<open>i = NOT_WRITTEN\<close> by (simp add: pickle_known_def Seen_GetVarNo_def)
    next
      case False
      then show ?thesis using a [of "[word_of_nat (length ws)]"] a [of "[word_of_nat l, word_of_nat (length ws)]"] st(3) \<open>i = NOT_WRITTEN\<close> ob sz
        by (auto simp: pickle_known_def pickle_announce_def Seen_GetVarNo_def Let_def)
    qed
  next
    case False
    have "emit pe LOAD [] st \<bind> (\<lambda>st1. (if 0 < n then put_uints pe [word_of_nat n] (pi_buffer (SimulatePush st1)) \<bind> (\<lambda>ob. Some ((SimulatePush st1)\<lparr>pi_buffer := ob\<rparr>))
        else new_local pe a (nat i) (SimulatePush st1)) \<bind> pop_again) \<noteq> None"
    proof (rule emit_then [OF st(1) _ _ st(2)])
      fix st1 assume "emitted st (tag_byte LOAD # concat (map uint_bytes [])) st1"
      note f = emitted_fields [OF this]
      have "put_uints pe [word_of_nat n] (pi_buffer st1) \<noteq> None"
        using writes_put_uints [of "pi_buffer st1" "[word_of_nat n]" pe] can uint_bytes_short [OF can] f st by (auto simp: writes_def split: option.splits)
      then obtain ob where ob: "put_uints pe [word_of_nat n] (pi_buffer st1) = Some ob" by blast
      have "pop_again ((SimulatePush st1)\<lparr>pi_buffer := ob\<rparr>) \<noteq> None"
        using f st(4) by (auto simp: pop_again_def PickleStack_PopTopFrame_def SimulatePush_def Let_def split: list.splits)
      moreover have "new_local pe a (nat i) (SimulatePush st1) \<bind> pop_again \<noteq> None"
        by (rule new_local_total(1)) (use f st in \<open>auto simp: SimulatePush_def Let_def\<close>)
      ultimately show "(if 0 < n then put_uints pe [word_of_nat n] (pi_buffer (SimulatePush st1)) \<bind> (\<lambda>ob. Some ((SimulatePush st1)\<lparr>pi_buffer := ob\<rparr>))
        else new_local pe a (nat i) (SimulatePush st1)) \<bind> pop_again \<noteq> None"
        using ob by (cases "0 < n") (simp_all del: put_uints.simps)
    qed simp_all
    then show ?thesis using False st(3) by (simp add: pickle_known_def Seen_GetVarNo_def Let_def)
  qed
qed

lemma new_total:
  assumes "rep st A" and "as_stack A \<noteq> []" and "ph_objs h a = Some ob" and "plain_obj ob" and "as_pos A + 16 + (case ob of PChunk m bs \<Rightarrow> length bs | _ \<Rightarrow> 0) \<le> STREAM_LIMIT"
  shows "pickle_new pe h a st \<noteq> None"
proof (cases ob)
  case (PBlock l m ws)
  then show ?thesis using assms by (auto simp: pickle_new_def visit_def PickleStack_SetBack_def rep_def split: list.splits)
next
  case (PChunk m bs)
  have st: "ob_ok (pi_buffer st)" "length (ob_bytes (pi_buffer st)) + 16 \<le> STREAM_LIMIT" "pi_stack st \<noteq> []" "length (ob_bytes (pi_buffer st)) + 16 + length bs \<le> STREAM_LIMIT"
    using assms PChunk by (auto simp: rep_def as_pos_def)
  have can: "CanPickle (word_of_nat (length bs))" using assms(4) PChunk by (intro small_CanPickle) simp
  have "emit pe (if m then MCHUNK else CHUNK) [word_of_nat (length bs)] st \<bind> (\<lambda>st1. OutputBuffer_PutBytes (pe_bj pe) bs (pi_buffer st1) \<bind>
      (\<lambda>ob. pop_again (SimulatePush (st1\<lparr>pi_buffer := ob, pi_seen := Seen_Add a (int (ob_pos ob)) (pi_seen st1)\<rparr>)))) \<noteq> None"
  proof (rule emit_then [OF st(1) _ _ st(2)])
    fix st1 assume "emitted st (tag_byte (if m then MCHUNK else CHUNK) # concat (map uint_bytes [word_of_nat (length bs)])) st1"
    note f = emitted_fields [OF this]
    have "OutputBuffer_PutBytes (pe_bj pe) bs (pi_buffer st1) \<noteq> None"
      using writes_PutBytes [of "pi_buffer st1" bs "pe_bj pe"] uint_bytes_short [OF can] f st(4) by (auto simp: writes_def split: option.splits)
    then show "OutputBuffer_PutBytes (pe_bj pe) bs (pi_buffer st1) \<bind>
      (\<lambda>ob. pop_again (SimulatePush (st1\<lparr>pi_buffer := ob, pi_seen := Seen_Add a (int (ob_pos ob)) (pi_seen st1)\<rparr>))) \<noteq> None"
      using f st(3) by (auto simp: pop_again_def PickleStack_PopTopFrame_def SimulatePush_def Let_def split: list.splits)
  qed (use can in simp_all)
  then show ?thesis using assms(3) PChunk by (simp add: pickle_new_def Let_def)
qed


section \<open>The bounds along a run\<close>

text \<open>A step that writes the instruction \<open>i\<close> and goes on to the next frame.\<close>

lemma todo_next:
  assumes "as_stack A = f # rest" and "as_stack A' = rest" and "dom (as_seen A') = dom (as_seen A)" and "as_code A' = as_code A @ [i]"
    and "wf_instr i" and "\<forall>m bs. i \<noteq> I_Chunk m bs"
  shows "as_pos A' + todo h G A' \<le> as_pos A + todo h G A \<and> rounds h G A' < rounds h G A"
proof -
  have "length (encode i) \<le> 16" using encode_short [OF assms(5)] assms(6) by (cases i) auto
  then show ?thesis using assms(1-4) by (simp add: todo_def rounds_def as_pos_def)
qed

lemma var_bound: "awf h G A \<Longrightarrow> as_seen A a = Some (i, n) \<Longrightarrow> n \<le> length (as_vars A)"
  by (cases "n = 0") (auto simp: awf_def seen_ok_def entry_ok_def)

lemma top_graph: "awf h G A \<Longrightarrow> as_stack A = (w, b) # rest \<Longrightarrow> Deref (ph_trans h) w = Some (BlkW a) \<Longrightarrow> a \<in> G"
  by (auto simp: awf_def stack_ok_def plain_word_def)

lemma unseen:
  fixes f :: "addr \<Rightarrow> nat"
  assumes "finite G" and "a \<in> G" and "s a = None"
  shows "(\<Sum>b \<in> G - dom s. f b) = f a + (\<Sum>b \<in> G - insert a (dom s). f b)"
  using assms by (intro sum_remove) auto

lemma todo_step:
  assumes "astep h A A'" and "awf h G A" and "plain_graph h G" and "finite G" and "length (as_vars A) < 2000000"
  shows "as_pos A' + todo h G A' \<le> as_pos A + todo h G A \<and> rounds h G A' < rounds h G A"
  using assms(1)
proof cases
  case (a_fulfill w rest a i n l m ws)
  show ?thesis using var_bound [OF assms(2) a_fulfill(4)] assms(5) by (intro todo_next [OF a_fulfill(2), of A' "I_Fulfill n"]) (simp_all add: a_fulfill(1) a_simps)
next
  case (a_build w rest a i l m ws)
  have "plain_obj (PBlock l m ws)" using top_block [OF assms(2,3) a_build(2,3)] a_build(5) by auto
  then show ?thesis using a_build(4) by (intro todo_next [OF a_build(2), of A' "I_Build l m (length ws)"]) (auto simp: a_build(1) a_simps)
next
  case (a_int w rest i)
  then have "wf_instr (I_Int i)" using assms(2) by (auto simp: awf_def stack_ok_def plain_word_def)
  then show ?thesis by (intro todo_next [OF a_int(2), of A' "I_Int i"]) (simp_all add: a_int(1,2) a_simps)
next
  case (a_load w rest a i n)
  show ?thesis using var_bound [OF assms(2) a_load(4)] assms(5) by (intro todo_next [OF a_load(2), of A' "I_Load n"]) (simp_all add: a_load(1,2) a_simps)
next
  case (a_announce w rest a l m ws)
  have "plain_obj (PBlock l m ws)" using top_block [OF assms(2,3) a_announce(2,3)] a_announce(5) by auto
  then show ?thesis using assms(5) a_announce(4)
    by (intro todo_next [OF a_announce(2), of A' "I_Announce l m (length ws) (Suc (length (as_vars A)))"]) (auto simp: a_announce(1,2) a_simps)
next
  case (a_share w rest a i)
  show ?thesis using assms(5) a_share(4) by (intro todo_next [OF a_share(2), of A' "I_Load (Suc (length (as_vars A)))"]) (auto simp: a_share(1,2) a_simps)
next
  case (a_chunk w rest a m bs)
  have "plain_obj (PChunk m bs)" using top_block [OF assms(2,3) a_chunk(2,3)] a_chunk(5) by auto
  then have "length (encode (I_Chunk m bs)) \<le> 16 + length bs" using encode_short [of "I_Chunk m bs"] by simp
  moreover have "cost h a = length bs" "arity h a = 1" using a_chunk by (simp_all add: cost_def arity_def)
  ultimately show ?thesis using a_chunk(1,2) unseen [where s = "as_seen A", OF assms(4) top_graph [OF assms(2) a_chunk(2,3)] a_chunk(4)]
    by (simp add: todo_def rounds_def as_pos_def a_simps)
next
  case (a_visit w rest a l m ws)
  have "cost h a = 16 * length ws" "arity h a = Suc (length ws)" using a_visit by (simp_all add: cost_def arity_def)
  then show ?thesis using a_visit(1,2) unseen [where s = "as_seen A", OF assms(4) top_graph [OF assms(2) a_visit(2,3)] a_visit(4)] by (simp add: todo_def rounds_def as_pos_def)
qed

lemma code_length: "length is \<le> length (code_bytes is)"
proof (induction "is")
  case (Cons i "is")
  then show ?case by (cases "encode i") auto
qed simp

lemma vars_step:
  assumes "astep h A A'" and "length (as_vars A) \<le> as_pos A"
  shows "length (as_vars A') \<le> as_pos A'"
proof -
  have "\<exists>js. as_code A' = as_code A @ js \<and> length (as_vars A') \<le> length (as_vars A) + length js"
    by (rule astepE [OF assms(1)]) (simp_all add: a_simps)
  then obtain js where "as_code A' = as_code A @ js" "length (as_vars A') \<le> length (as_vars A) + length js" by blast
  then show ?thesis using assms(2) code_length [of js] by (simp add: as_pos_def)
qed

section \<open>Runs\<close>

text \<open>The states of the run of a graph that takes at most \<open>B\<close> bytes.\<close>

definition good :: "pheap \<Rightarrow> addr set \<Rightarrow> store_word \<Rightarrow> nat \<Rightarrow> astate \<Rightarrow> bool" where
  "good h G root B A \<longleftrightarrow> awf h G A \<and> height_ok h root A \<and> length (as_vars A) \<le> as_pos A \<and> as_pos A + todo h G A \<le> B"

lemma good_step:
  assumes "astep h A A'" and "good h G root B A" and "plain_graph h G" and "finite G" and "B < 2000000"
  shows "good h G root B A'" "rounds h G A' < rounds h G A" "grows A A'"
proof -
  have g: "awf h G A" "height_ok h root A" "length (as_vars A) \<le> as_pos A" "as_pos A + todo h G A \<le> B" using assms(2) by (auto simp: good_def)
  note t = todo_step [OF assms(1) g(1) assms(3,4)]
  show "good h G root B A'" "rounds h G A' < rounds h G A" "grows A A'"
    using t g assms(5) awf_step [OF assms(1) g(1) assms(3)] height_step [OF assms(1) g(2,1) assms(3)] vars_step [OF assms(1) g(3)]
      grows_step [OF assms(1)] by (auto simp: good_def awf_def)
qed


lemma good_room:
  assumes "good h G root B A" and "as_stack A \<noteq> []" and "B < 2000000"
  shows "as_pos A + 16 \<le> STREAM_LIMIT" "length (as_vars A) < 2000000"
    "finite G \<Longrightarrow> a \<in> G \<Longrightarrow> as_seen A a = None \<Longrightarrow> as_pos A + 16 + cost h a \<le> STREAM_LIMIT"
proof -
  have g: "length (as_vars A) \<le> as_pos A" "as_pos A + todo h G A \<le> B" "1 \<le> length (as_stack A)" using assms(1,2) by (auto simp: good_def Suc_le_eq)
  then show "as_pos A + 16 \<le> STREAM_LIMIT" "length (as_vars A) < 2000000" using assms(3) by (auto simp: todo_def STREAM_LIMIT_def)
  assume "finite G" "a \<in> G" "as_seen A a = None"
  from unseen [where s = "as_seen A", OF this, where f = "cost h"] show "as_pos A + 16 + cost h a \<le> STREAM_LIMIT"
    using g assms(3) by (auto simp: todo_def STREAM_LIMIT_def)
qed

lemma round_total:
  assumes "plain_graph h G" and "finite G" and "good h G root B A" and "B < 2000000" and "rep st A" and "as_stack A \<noteq> []"
  shows "pickle_round pe h st \<noteq> None"
proof -
  obtain w b rest where top: "as_stack A = (w, b) # rest" using assms(6) by (cases "as_stack A") auto
  have st: "pi_stack st = (w, b) # rest" "pi_seen st = as_seen A" using assms(5) top by (simp_all add: rep_def)
  have awf: "awf h G A" and ht: "height_ok h root A" using assms(3) by (simp_all add: good_def)
  note room = good_room [OF assms(3,6,4)]
  have fit: "fit h G A" by (rule awf_fit [OF awf]) (use room(2) in simp)
  have "plain_word h G w" using fit top by (auto simp: fit_def)
  then obtain v where v: "Deref (ph_trans h) w = Some v"
    "case v of IntW i \<Rightarrow> MIN_VALID_INT \<le> i \<and> i \<le> MAX_VALID_INT | BlkW a \<Rightarrow> a \<in> G | TrW a \<Rightarrow> False" unfolding plain_word_def by blast
  consider i where "Deref (ph_trans h) w = Some (IntW i)" "MIN_VALID_INT \<le> i" "i \<le> MAX_VALID_INT"
    | a where "Deref (ph_trans h) w = Some (BlkW a)" "a \<in> G" using v by (cases v) auto
  then show ?thesis
  proof cases
    case (1 i)
    then have "\<not> b" using fit top by (auto simp: fit_def)
    then show ?thesis using int_total [OF assms(5,6) 1(2,3) room(1)] top st 1 by (simp add: pickle_round_def WordToTransient_def WordToInt_def)
  next
    case (2 a)
    obtain ob where ob: "ph_objs h a = Some ob" "plain_obj ob" using assms(1) 2(2) by (auto simp: plain_graph_def)
    show ?thesis
    proof (cases b)
      case True
      then obtain l m ws i n where x: "ob = PBlock l m ws" "as_seen A a = Some (i, n)"
        using fit top 2(1) ob(1) by (auto simp: fit_def)
      have "n < 2 ^ 31" using fit x(2) by (auto simp: fit_def)
      moreover have "0 < as_cur A"
      proof (rule height_back [OF ht _ 2(1)])
        show "as_stack A = (w, True) # rest" "ph_objs h a = Some (PBlock l m ws)" using top True ob x(1) by simp_all
        show "0 < as_cur A" if "as_cur A = int (length ws) + int (length us)" for us :: "store_word list" using that ob(2) x(1) by (cases ws) auto
      qed
      ultimately have "pickle_back pe h a st \<noteq> None" using back_total [OF assms(5,6) _ _ x(2)] ob x(1) room(1) by simp
      then show ?thesis using True st 2(1) by (simp add: pickle_round_def WordToBlock_def)
    next
      case False
      have "(if Seen_Find a (as_seen A) \<noteq> NOT_FOUND then pickle_known pe h a (Seen_Find a (as_seen A)) st else pickle_new pe h a st) \<noteq> None"
      proof (cases "as_seen A a")
        case None
        have "as_pos A + 16 + (case ob of PChunk m bs \<Rightarrow> length bs | _ \<Rightarrow> 0) \<le> STREAM_LIMIT"
          using room(1) room(3) [OF assms(2) 2(2) None] ob(1) by (cases ob) (auto simp: cost_def)
        then show ?thesis using new_total [OF assms(5,6) ob] None by (simp add: Seen_Find_def)
      next
        case (Some p)
        obtain i n where p: "as_seen A a = Some (i, n)" using Some by (cases p) auto
        have k: "i = NOT_WRITTEN \<or> 0 < i" "n < 2 ^ 31" "i = NOT_WRITTEN \<Longrightarrow> \<exists>l m ws. ph_objs h a = Some (PBlock l m ws)"
          using fit p unfolding fit_def by blast+
        have "i \<noteq> NOT_FOUND" using k(1) by (auto simp: NOT_FOUND_def NOT_WRITTEN_def)
        moreover have "pickle_known pe h a i st \<noteq> None" by (rule known_total [OF assms(5,6) p k(2) room(1,2)]) (use k(3) ob in auto)
        ultimately show ?thesis using p by (simp add: Seen_Find_def)
      qed
      then show ?thesis using st 2(1) False by (simp add: pickle_round_def WordToTransient_def WordToInt_def WordToBlock_def Let_def)
    qed
  qed
qed

text \<open>The worker returns, with the whole graph written.\<close>

lemma run_total:
  assumes "plain_graph h G" and "finite G" and "B < 2000000" and "good h G root B A" and "rep st A" and "pi_tasks st \<noteq> []"
  shows "\<exists>A' st'. PickleWorker_Run pe h st = Some (if pe_status pe then PREEMPT else CONTINUE, st') \<and> (astep h)\<^sup>*\<^sup>* A A' \<and> good h G root B A' \<and> as_stack A' = [] \<and>
     rep st' A' \<and> pi_found st' = pi_found st \<and> pi_stream st' = pi_stream st \<and> pi_tasks st' = tl (pi_tasks st)"
  using assms(4-6)
proof (induction "rounds h G A" arbitrary: A st rule: less_induct)
  case less
  show ?case
  proof (cases "as_stack A = []")
    case True
    then have "pickle_round pe h st = Some (Ret (if pe_status pe then PREEMPT else CONTINUE) (st\<lparr>pi_tasks := tl (pi_tasks st)\<rparr>))"
      using less.prems by (simp add: pickle_round_def rep_def run_simps)
    then show ?thesis using True less.prems
      by (intro exI [of _ A] exI [of _ "st\<lparr>pi_tasks := tl (pi_tasks st)\<rparr>"]) (simp add: PickleWorker_Run.simps rep_def)
  next
    case False
    obtain r where r: "pickle_round pe h st = Some r" using round_total [OF assms(1,2) less.prems(1) assms(3) less.prems(2) False, of pe] by blast
    have "fit h G A" using less.prems(1) good_room(2) [OF less.prems(1) False assms(3)] by (intro awf_fit) (auto simp: good_def)
    from round_step [OF assms(1) this less.prems(2) False r] obtain st1 A1 where 1: "r = Again st1" "astep h A A1" "rep st1 A1" "pi_found st1 = pi_found st"
      "pi_stream st1 = pi_stream st" "pi_tasks st1 = pi_tasks st" by (auto simp: continues_def)
    note g = good_step [OF 1(2) less.prems(1) assms(1-3)]
    from less.hyps [OF g(2,1) 1(3)] less.prems(3) 1(6) obtain A' st' where 2: "PickleWorker_Run pe h st1 = Some (if pe_status pe then PREEMPT else CONTINUE, st')"
      "(astep h)\<^sup>*\<^sup>* A1 A'" "good h G root B A'" "as_stack A' = []" "rep st' A'" "pi_found st' = pi_found st1" "pi_stream st' = pi_stream st1" "pi_tasks st' = tl (pi_tasks st1)"
      by auto
    moreover have "PickleWorker_Run pe h st = PickleWorker_Run pe h st1" using r 1(1) by (simp add: PickleWorker_Run.simps)
    moreover have "(astep h)\<^sup>*\<^sup>* A A'" using 1(2) 2(2) by (rule converse_rtranclp_into_rtranclp)
    ultimately show ?thesis using 1(4-6) by auto
  qed
qed

end
