(* ===== verification/Pickle_Props.thy ===== *)
theory Pickle_Props
  imports Pickle_Total
begin

text \<open>
  Pickling and unpickling a graph: the pickler returns with a string, and unpickling the string builds an isomorphic copy
  of the graph, with its sharing and its cycles, next to the objects of the target heap.
\<close>

section \<open>Sizes\<close>

lemma weave_short:
  assumes "\<And>q v. S q = Some v \<Longrightarrow> v < 2 ^ 31"
  shows "length (code_bytes (weave S p is)) \<le> 7 * length (code_bytes is)"
proof (induction "is" arbitrary: p)
  case (Cons i "is")
  have "length (encode (I_Store v)) \<le> 6 * length (encode i)" if "S (p + length (encode i)) = Some v" for v
    using uint_of_short [of v] assms [OF that] encode_nonempty(2) [of i, unfolded Suc_le_eq [symmetric]] by (simp add: encode.simps)
  then show ?case using Cons.IH [of "p + length (encode i)"] by (auto simp: Let_def split: option.splits)
qed simp

lemma header_short: "height < 2 ^ 31 \<Longrightarrow> locals < 2 ^ 31 \<Longrightarrow> length (header_bytes height locals) \<le> 25"
  using uint_of_short [of height] uint_of_short [of locals] uint_bytes_short [of majorVersion] uint_bytes_short [of minorVersion]
  by (simp add: header_bytes_def magic_def CanPickle_iff majorVersion_def minorVersion_def)

section \<open>The start\<close>

definition start_state :: "store_word \<Rightarrow> astate" where
  "start_state root = \<lparr>as_stack = [(root, False)], as_seen = Map.empty, as_code = [], as_vars = [], as_cur = 0, as_max = 0\<rparr>"

lemma start_good:
  assumes "plain_word h G root" and "16 + (\<Sum>a \<in> G. cost h a) \<le> B"
  shows "good h G root B (start_state root)"
proof -
  have "awf h G (start_state root)" using assms(1)
    by (simp add: start_state_def awf_def stack_ok_def seen_ok_def index_inj_def var_inj_def vars_ok_def backs_ok_def)
  moreover have "height_ok h root (start_state root)" unfolding height_ok_def start_state_def
    by (intro exI [of _ "[]"]) (simp add: ready_word stk_root)
  ultimately show ?thesis using assms(2) by (simp add: good_def todo_def as_pos_def start_state_def)
qed

lemma start_rep:
  obtains st so where "Pickler_Pack pe root d = Some st" and "rep st (start_state root)" and "os_ok (pi_stream st)" and "os_bytes (pi_stream st) = []"
    and "pi_stream st = STRING_OUTPUT_STREAM so" and "\<not> pi_found st" and "pi_tasks st = [PickleTask, PicklePackTask]"
proof -
  let ?so = "\<lparr>so_pos = 0, so_size = 256, so_string = map (pe_bj pe) [0..<256]\<rparr>"
  let ?ob = "\<lparr>ob_buffer = map (pe_bj pe) [0..<8192], ob_locals = (map (pe_lj pe) [0..<64])[0 := (0, 0)], ob_pos = 0, ob_size = 8192, ob_count = 0, ob_lsize = 128\<rparr>"
  let ?st = "\<lparr>pi_stream = STRING_OUTPUT_STREAM ?so, pi_buffer = ?ob, pi_seen = Map.empty, pi_stack = [(root, False)], pi_root = root, pi_cur = 0, pi_max = 0,
    pi_found = False, pi_tasks = [PickleTask, PicklePackTask], pi_data = d\<rparr>"
  have "Pickler_Pack pe root d = Some ?st"
    by (simp add: Pickler_Pack_def StringOutputStream_New_def PickleArgs_New_def OutputBuffer_New_def String_New_room locals_New_def run_simps Block_SetArg_def
        INITIAL_SIZE_def initialSize_def locInitialSize_def PickleStack_Push_def del: upt_conv_Cons_Cons)
  moreover have "ob_ok ?ob" by (simp add: ob_ok_def)
  then have "rep ?st (start_state root)" by (simp add: rep_def start_state_def ob_bytes_def ob_vars_def)
  ultimately show ?thesis using that [of ?st ?so] by simp
qed

section \<open>Streams keep their kind\<close>

fun is_string :: "ostream \<Rightarrow> bool" where
  "is_string (STRING_OUTPUT_STREAM so) \<longleftrightarrow> True"
| "is_string (FILE_OUTPUT_STREAM f) \<longleftrightarrow> False"

lemma string_Put:
  "OutputStream_PutByte bj b os = Some os' \<Longrightarrow> is_string os \<Longrightarrow> is_string os'"
  "OutputStream_PutBytes bj bs os = Some os' \<Longrightarrow> is_string os \<Longrightarrow> is_string os'"
  "put_range bj bs m n os = Some os' \<Longrightarrow> is_string os \<Longrightarrow> is_string os'"
  by (cases os; auto simp: OutputStream_PutByte_def OutputStream_PutBytes_def put_range_def run_elims)+

lemma string_put_uint: "put_uint bj i os = Some os' \<Longrightarrow> is_string os \<Longrightarrow> is_string os'"
proof (induction bj i os rule: put_uint.induct)
  case (1 bj i os)
  then show ?case by (subst (asm) put_uint.simps) (auto simp: run_elims split: if_splits dest: string_Put)
qed

lemma string_PutUInt: "OutputStream_PutUInt bj i os = Some os' \<Longrightarrow> is_string os \<Longrightarrow> is_string os'"
  by (auto simp: OutputStream_PutUInt_def run_elims dest: string_put_uint)

lemmas string_keeps = string_Put string_PutUInt

lemma string_stores: "write_stores bj ibf ls p os = Some (q, os') \<Longrightarrow> is_string os \<Longrightarrow> is_string os'"
proof (induction ls arbitrary: p os)
  case (Cons l ls)
  obtain loc v where l: "l = (loc, v)" by (cases l)
  show ?case
  proof (cases "0 < loc")
    case True
    then obtain os1 os2 os3 where "put_range bj ibf p loc os = Some os1" "OutputStream_PutByte bj (tag_byte STORE) os1 = Some os2"
      "OutputStream_PutUInt bj (word_of_nat v) os2 = Some os3" "write_stores bj ibf ls loc os3 = Some (q, os')"
      using Cons.prems(1) l by (auto simp: run_elims)
    then show ?thesis using Cons.IH Cons.prems(2) string_keeps by blast
  qed (use Cons l in auto)
qed auto

lemma string_WriteToStream: "WriteToStream bj st = Some st' \<Longrightarrow> is_string (pi_stream st) \<Longrightarrow> is_string (pi_stream st')"
  by (clarsimp simp: WriteToStream_def Let_def run_elims) (blast dest: string_keeps string_stores)

section \<open>The end\<close>

text \<open>The pack worker returns the string; what follows the pickle in it is not initialized.\<close>

lemma pack_total:
  assumes "rep st F" and "awf h G F" and "length (as_vars F) \<le> as_pos F" and "as_pos F \<le> 140000" and "os_ok (pi_stream st)" and "os_bytes (pi_stream st) = []"
    and "is_string (pi_stream st)" and "\<not> pi_found st"
  obtains st' s n rest where "PicklePackWorker_Run pe st = Some ((CONTINUE, st'), Some (s, n))" and "pi_tasks st' = tl (pi_tasks st)"
    and "s = pickle_bytes (nat (as_max F)) (as_vars F) (as_code F) @ rest"
proof -
  let ?bs = "pickle_bytes (nat (as_max F)) (as_vars F) (as_code F)"
  have max: "0 \<le> as_max F" "as_max F \<le> int (length (as_code F))" using assms(2) by (auto simp: awf_def)
  have small: "length (as_vars F) \<le> 140000" "nat (as_max F) \<le> 140000" using assms(3,4) max code_length [of "as_code F"] by (auto simp: as_pos_def)
  have vars: "fst l \<in> boundaries 0 (as_code F)" if "l \<in> set (as_vars F)" "0 < fst l" for l
  proof -
    note l = that
    obtain k where k: "k < length (as_vars F)" "l = as_vars F ! k" using l(1) by (auto simp: in_set_conv_nth)
    obtain a where "as_seen F a = Some (int (fst l), Suc k)" using vars_entry [OF assms(2) k(1)] k(2) l(2) by auto
    then show ?thesis using assms(2) l(2) by (fastforce simp: awf_def seen_ok_def entry_ok_def)
  qed
  have nums: "snd l \<le> length (as_vars F)" if "l \<in> set (as_vars F)" for l
    using assms(2) that by (auto simp: awf_def vars_ok_def in_set_conv_nth)
  obtain r where r: "WriteToStream (pe_bj pe) st = map_option (\<lambda>os. st\<lparr>pi_buffer := snd (the (GetLocals (pi_buffer st))), pi_stream := os\<rparr>) r"
    "appends (pi_stream st) ?bs r"
    by (rule write_pickle [OF _ assms(5), of "as_code F" "as_vars F" "nat (as_max F)" "pe_bj pe"])
      (use assms(1) vars_distinct [OF assms(2)] vars nums small max in \<open>fastforce simp: rep_def\<close>)+
  have "v < 2 ^ 31" if "map_of (filter (\<lambda>l. 0 < fst l) (as_vars F)) q = Some v" for q v
    using map_of_SomeD [OF that] nums small(1) by fastforce
  then have "length (code_bytes (weave (map_of (filter (\<lambda>l. 0 < fst l) (as_vars F))) 0 (as_code F))) \<le> 7 * as_pos F" unfolding as_pos_def by (rule weave_short)
  then have len: "length ?bs \<le> 1000000"
    using header_short [of "nat (as_max F)" "length (as_vars F) + 1"] small uint_of_short [of 0] assms(4) by (simp add: pickle_bytes_def encode.simps)
  then obtain os where os: "r = Some os" "os_ok os" "os_bytes os = ?bs" using r(2) assms(6) by (cases r) (auto simp: appends_def STREAM_LIMIT_def)
  have "is_string os" using string_WriteToStream [of "pe_bj pe" st] r(1) os(1) assms(7) by simp
  then obtain so where so: "os = STRING_OUTPUT_STREAM so" by (cases os) auto
  have "so_pos so = length ?bs" using os(2) so arg_cong [OF os(3), of length] by (simp del: length_append)
  then have "StringOutputStream_Close so = Some (so_string so, so_pos so)" using len by (simp add: StringOutputStream_Close_def run_simps)
  moreover have "so_string so = ?bs @ drop (so_pos so) (so_string so)" using os(3) so append_take_drop_id [of "so_pos so" "so_string so"] by simp
  ultimately show ?thesis using that r(1) os(1) so assms(8) by (simp add: PicklePackWorker_Run_def)
qed

section \<open>The run of the unpickler\<close>

lemma runs_trans:
  assumes "runs cap j F A B V V1" and "runs cap j F B C V1 V'" and "grows A B" and "grows B C"
  shows "runs cap j F A C V V'"
proof -
  obtain js ks where c: "as_code B = as_code A @ js" "as_code C = as_code B @ ks" using assms(3,4) by (auto simp: grows_def)
  have "as_pos B = as_pos A + length (code_bytes js)" using c(1) by (simp add: as_pos_def)
  then show ?thesis using assms(1,2) c by (auto simp: runs_def Let_def weave_append vexecs_append)
qed

lemma good_run: "(astep h)\<^sup>*\<^sup>* A F \<Longrightarrow> good h G root B A \<Longrightarrow> plain_graph h G \<Longrightarrow> finite G \<Longrightarrow> B < 2000000 \<Longrightarrow> good h G root B F \<and> grows A F"
  by (induction rule: rtranclp_induct) (auto intro: good_step grows_trans)

lemma sim_run:
  assumes "(astep h)\<^sup>*\<^sup>* A F" and "good h G root B A" and "plain_graph h G" and "finite G" and "B < 2000000" and "sim h root h0 F A m V" and "as_max F \<le> int cap"
  shows "\<exists>m' V'. sim h root h0 F F m' V' \<and> runs cap j F A F V V'"
  using assms
proof (induction arbitrary: m V rule: converse_rtranclp_induct)
  case base
  then show ?case by (intro exI) (auto simp: runs_def)
next
  case (step A A1)
  note g = good_step [OF step.hyps(1) step.prems(1-4)]
  note gF = good_run [OF step.hyps(2) g(1) step.prems(2-4)]
  have "length (as_vars F) < 2 ^ 30" using gF step.prems(4) by (auto simp: good_def)
  then obtain m1 V1 where 1: "sim h root h0 F A1 m1 V1" "runs cap j F A A1 V V1"
    using sim_step [OF step.hyps(1) step.prems(5,2) _ _ _ step.prems(6), of j] gF step.prems(1) by (auto simp: good_def)
  from step.IH [OF g(1) step.prems(2-4) 1(1) step.prems(6)] obtain m' V' where "sim h root h0 F F m' V'" "runs cap j F A1 F V1 V'" by blast
  then show ?case using runs_trans [OF 1(2) _ g(3)] gF by blast
qed

lemma sim_start: "sim h root h0 F (start_state root) Map.empty \<lparr>vs_stack = [], vs_locals = replicate (Suc (length (as_vars F))) (IntW 0), vs_heap = h0\<rparr>"
  unfolding sim_def heap_sim_def locals_sim_def start_state_def by (auto simp: nth_Cons split: nat.splits intro: ready_word stk_root)


section \<open>The copy\<close>

text \<open>
  \<open>v\<close> in \<open>H\<close> is a copy of the graph of \<open>root\<close> in \<open>h\<close>: the map takes blocks one to one to new blocks with the same label, mutability
  and contents, and the heap \<open>h0\<close> is kept.
\<close>

definition rebuilt :: "pheap \<Rightarrow> store_word \<Rightarrow> pheap \<Rightarrow> pheap \<Rightarrow> (addr \<Rightarrow> addr option) \<Rightarrow> store_word \<Rightarrow> bool" where
  "rebuilt h root h0 H m v \<longleftrightarrow> tr (ph_trans h) m root = Some v \<and> inj_on m (dom m) \<and>
     (\<forall>a x. m a = Some x \<longrightarrow> ph_next h0 \<le> x \<and> (\<exists>ob ob'. ph_objs h a = Some ob \<and> ph_objs H x = Some ob' \<and> copied (ph_trans h) m ob ob')) \<and>
     (\<forall>x < ph_next h0. ph_objs H x = ph_objs h0 x) \<and> ph_trans H = ph_trans h0 \<and> ph_unique H = ph_unique h0"

lemma sim_end:
  assumes "sim h root h0 F F m V" and "as_stack F = []"
  obtains v where "vs_stack V = [v]" and "rebuilt h root h0 (vs_heap V) m v" and "vs_locals V \<noteq> []" and "vs_locals V ! 0 = IntW 0"
proof -
  have s: "ready h root (copy_of h m) [] (vs_stack V)" "heap_sim h h0 m {} (vs_heap V)" "length (vs_locals V) = Suc (length (as_vars F))"
    "locals_sim (as_seen F) m (vs_locals V)" using assms by (simp_all add: sim_def)
  obtain v where v: "vs_stack V = [v]" "tr (ph_trans h) m root = Some v" using s(1) by (auto elim: ready_endE)
  have "vs_locals V ! 0 = IntW 0" using s(3,4) unfolding locals_sim_def by (metis less_irrefl zero_less_Suc)
  moreover have "rebuilt h root h0 (vs_heap V) m v" using s(2) v(2) unfolding heap_sim_def rebuilt_def by blast
  ultimately show ?thesis using that v(1) s(3) by fastforce
qed

lemma unpickle_copy:
  assumes "good h G root B F" and "B < 2000000" and "sim h root h0 F F m V" and "as_stack F = []"
    and "runs (nat (as_max F)) (ue_junk ue) F (start_state root) F \<lparr>vs_stack = [], vs_locals = replicate (Suc (length (as_vars F))) (IntW 0), vs_heap = h0\<rparr> V"
    and "s = pickle_bytes (nat (as_max F)) (as_vars F) (as_code F) @ rest"
  shows "\<exists>u. unpickle_tasks ue (Unpickler_Unpack s h0 d) = Some (CONTINUE, u) \<and> u_tasks u = [] \<and> rebuilt h root h0 (u_heap u) m (u_data u)"
proof -
  let ?cap = "nat (as_max F)" and ?init = "\<lparr>vs_stack = [], vs_locals = replicate (Suc (length (as_vars F))) (IntW 0), vs_heap = h0\<rparr>"
  let ?is = "weave (stores F) 0 (as_code F)"
  have small: "?cap < 2 ^ 30" "length (as_vars F) + 1 < 2 ^ 30" using assms(1,2) code_length [of "as_code F"] by (auto simp: good_def awf_def as_pos_def)
  have ex: "vexecs ?cap (ue_junk ue) ?is ?init = Some V" "\<forall>i \<in> set ?is. wf_instr i" using assms(5) by (simp_all add: runs_def start_state_def as_pos_def Let_def)
  let ?eos = "tag_byte ENDOFSTREAM # rest"
  have s: "s = header_bytes ?cap (length (as_vars F) + 1) @ (code_bytes (?is @ [I_Store 0]) @ ?eos)" using assms(6) by (simp add: pickle_bytes_def stores_def)
  obtain u where u: "unpickle_tasks ue (Unpickler_Unpack s h0 d) = unpickle_tasks ue u" "u_tasks u = [UnpickleTask, LoadTask]"
    "u_rep ?cap \<lparr>vs_stack = [], vs_locals = replicate (length (as_vars F) + 1) (IntW 0), vs_heap = h0\<rparr> (code_bytes (?is @ [I_Store 0]) @ ?eos) u"
    using check_header [OF s _ small, of ue h0 d] by blast
  obtain v where v: "vs_stack V = [v]" "rebuilt h root h0 (vs_heap V) m v" "vs_locals V \<noteq> []" "vs_locals V ! 0 = IntW 0" using sim_end [OF assms(3,4)] .
  let ?V = "V\<lparr>vs_locals := (vs_locals V)[0 := v]\<rparr>"
  have "length (vs_stack V) \<le> ?cap" using sim_height [OF assms(3)] assms(1) by (auto simp: good_def awf_def)
  then have "vexecs ?cap (ue_junk ue) (?is @ [I_Store 0]) ?init = Some ?V" using ex(1) v by (simp add: vexecs_append v_store_def run_simps)
  moreover have "\<forall>i \<in> set (?is @ [I_Store 0]). wf_instr i" using ex(2) by simp
  ultimately obtain u1 where u1: "u_rep ?cap ?V ?eos u1" "u_tasks u1 = u_tasks u" "unpickle_tasks ue u = unpickle_tasks ue u1"
    using unpickle_code [of ?cap ?init "?is @ [I_Store 0]" ?eos u "[LoadTask]" ue ?V] u(2,3) by auto
  have "\<exists>n. WordToInt (ph_trans (vs_heap ?V)) (vs_locals ?V ! 0) = Some n"
    using v(2,3) by (auto simp: rebuilt_def tr_def WordToInt_def split: option.splits store_word.splits)
  then obtain u2 where "unpickle_tasks ue u1 = Some (CONTINUE, u2)" "u_tasks u2 = []" "u_heap u2 = vs_heap V" "u_data u2 = v"
    using unpickle_end [OF u1(1), of _ ue] u1(2) u(2) v(3) by auto
  then show ?thesis using u(1) u1(3) v(2) by auto
qed

section \<open>Round trip\<close>

text \<open>
  C35. Pickling a finite graph of blocks and chunks and unpickling the string in any heap gives a copy of the graph. The pickler
  terminates, so do the pack worker and the unpickler; shared blocks are shared in the copy, cycles are cycles, and the heap that the copy is
  built in is otherwise unchanged. The bound keeps the string below the size that a block header can hold.
\<close>

theorem pickle_roundtrip:
  assumes "plain_graph h G" and "finite G" and "plain_word h G root" and "16 + (\<Sum>a \<in> G. cost h a) \<le> 140000"
  shows "\<exists>st st1 st2 s n u m. Pickler_Pack pe root d = Some st \<and>
    PickleWorker_Run pe h st = Some (if pe_status pe then PREEMPT else CONTINUE, st1) \<and>
    PicklePackWorker_Run pe st1 = Some ((CONTINUE, st2), Some (s, n)) \<and> pi_tasks st2 = [] \<and>
    unpickle_tasks ue (Unpickler_Unpack s h0 d0) = Some (CONTINUE, u) \<and> u_tasks u = [] \<and> rebuilt h root h0 (u_heap u) m (u_data u)"
proof -
  have B: "(140000 :: nat) < 2000000" by simp
  note g0 = start_good [OF assms(3,4)]
  obtain st so where st: "Pickler_Pack pe root d = Some st" "rep st (start_state root)" "os_ok (pi_stream st)" "os_bytes (pi_stream st) = []"
    "pi_stream st = STRING_OUTPUT_STREAM so" "\<not> pi_found st" "pi_tasks st = [PickleTask, PicklePackTask]" using start_rep .
  obtain F st1 where F: "PickleWorker_Run pe h st = Some (if pe_status pe then PREEMPT else CONTINUE, st1)" "(astep h)\<^sup>*\<^sup>* (start_state root) F"
    "good h G root 140000 F" "as_stack F = []" "rep st1 F" "pi_found st1 = pi_found st" "pi_stream st1 = pi_stream st" "pi_tasks st1 = tl (pi_tasks st)"
    using run_total [OF assms(1,2) B g0 st(2), of pe] st(7) by auto
  have wf: "awf h G F" "length (as_vars F) \<le> as_pos F" "as_pos F \<le> 140000" "as_max F \<le> int (nat (as_max F))" using F(3) by (auto simp: good_def awf_def)
  obtain st2 s n rest where p: "PicklePackWorker_Run pe st1 = Some ((CONTINUE, st2), Some (s, n))" "pi_tasks st2 = tl (pi_tasks st1)"
    "s = pickle_bytes (nat (as_max F)) (as_vars F) (as_code F) @ rest"
    by (rule pack_total [OF F(5) wf(1-3), of pe]) (use st F(6,7) in auto)
  obtain m V where V: "sim h root h0 F F m V" "runs (nat (as_max F)) (ue_junk ue) F (start_state root) F \<lparr>vs_stack = [], vs_locals = replicate (Suc (length (as_vars F))) (IntW 0), vs_heap = h0\<rparr> V"
    using sim_run [OF F(2) g0 assms(1,2) B sim_start wf(4)] by blast
  show ?thesis using unpickle_copy [OF F(3) B V(1) F(4) V(2) p(3), of d0] st(1,7) F(1,8) p(1,2) by auto
qed

text \<open>A block that refers to itself and, twice, to a chunk.\<close>

definition ring_heap :: pheap where
  "ring_heap = \<lparr>ph_objs = [1 \<mapsto> PBlock 3 True [IntW 7, BlkW 1, BlkW 2, BlkW 2], 2 \<mapsto> PChunk False [1, 2, 3]], ph_next = 3, ph_trans = Map.empty, ph_unique = Map.empty\<rparr>"

lemma ring_plain: "plain_graph ring_heap {1, 2}"
proof -
  have "label_of n \<noteq> 3" for n
  proof
    assume "label_of n = 3"
    then have "map_of (CreateLabel_helper label_size @ CreateLabel_fixed label_size) n = Some 3" unfolding label_of_def by (auto split: option.splits)
    then have "3 \<in> set (map snd (CreateLabel_helper label_size @ CreateLabel_fixed label_size))" by (metis map_of_SomeD set_map image_eqI snd_conv)
    then show False unfolding CreateLabel_vals by simp
  qed
  then have "plain_obj (PBlock 3 True [IntW 7, BlkW 1, BlkW 2, BlkW 2])"
    by (auto simp: sited_labels_def UNIQUESTRING_NO_def CONCRETE_NO_def TRANSFORM_NO_def CHUNK_NO_def CLOSURE_NO_def TUPLE_NO_def alloc_size_def TranslateSize_def dest: sym)
  moreover have "plain_obj (PChunk False [1, 2, 3])" by simp
  ultimately show ?thesis by (simp add: plain_graph_def plain_word_def ring_heap_def)
qed

theorem pickle_roundtrip_witness:
  "\<forall>pe ue h0. \<exists>st st1 st2 s n u m. Pickler_Pack pe (BlkW 1) (IntW 0) = Some st \<and>
    PickleWorker_Run pe ring_heap st = Some (if pe_status pe then PREEMPT else CONTINUE, st1) \<and>
    PicklePackWorker_Run pe st1 = Some ((CONTINUE, st2), Some (s, n)) \<and> pi_tasks st2 = [] \<and>
    unpickle_tasks ue (Unpickler_Unpack s h0 (IntW 0)) = Some (CONTINUE, u) \<and> u_tasks u = [] \<and> rebuilt ring_heap (BlkW 1) h0 (u_heap u) m (u_data u)"
proof -
  have "plain_word ring_heap {1, 2} (BlkW 1)" by (simp add: plain_word_def)
  moreover have "16 + (\<Sum>a \<in> {1, 2}. cost ring_heap a) \<le> 140000" by (simp add: cost_def ring_heap_def)
  ultimately show ?thesis using pickle_roundtrip [OF ring_plain] by blast
qed

end
