(* ===== verification/Collector.thy ===== *)
theory Collector
  imports Dynamic_Array Base_Map
begin

text \<open>
  The collector: \<^verbatim>\<open>seam/store/Store.cc\<close>, \<^verbatim>\<open>seam/store/GCHelper.hh\<close>, \<^verbatim>\<open>Map::RehashAll\<close> of \<^verbatim>\<open>seam/store/Map.cc\<close> and the write
  barrier of \<^verbatim>\<open>seam/store/Value.hh\<close>.

  The heap is a map from addresses to cells. A cell is a block, its header fields decoded, or what \<^verbatim>\<open>GCHelper::MarkMoved\<close>
  leaves of a block: a forward pointer in place of the header and the old arguments. \<open>gs_roots\<close> lists the cells of each
  generation (\<^verbatim>\<open>Store::roots\<close>) in the order of allocation, which is the order in which \<^verbatim>\<open>CheneyScan\<close> walks through the chunks:
  a position in the list stands for a chunk and a scan pointer. Where chunks lie in memory is the business of \<open>Heap_Alloc\<close>; here
  new blocks get increasing addresses. The global sets \<^verbatim>\<open>intgenSet\<close>, \<^verbatim>\<open>wkDictSet\<close> and \<^verbatim>\<open>finSet\<close> are the lists of their members
  (\<open>Dynamic_Array\<close> has their representation). The sizes of the generations, which depend on the chunks, are a parameter.
\<close>

section \<open>The heap\<close>

record gblock =
  gb_gen :: nat
  gb_label :: nat
  gb_mutable :: bool
  gb_childish :: bool
  gb_args :: "store_word list"

datatype cell = Block gblock | Moved addr "store_word list"

record gstore =
  gs_cells :: "addr \<Rightarrow> cell option"
  gs_next :: addr
  gs_roots :: "nat \<Rightarrow> addr list"
  gs_limit :: "nat \<Rightarrow> u_int"
  gs_intgen :: "addr list"
  gs_wkdict :: "store_word list"
  gs_fin :: "store_word list"
  gs_mapLs :: store_word
  gs_status :: u_int

definition get_block :: "addr \<Rightarrow> gstore \<Rightarrow> gblock option" where
  "get_block p S = (case gs_cells S p of Some (Block b) \<Rightarrow> Some b | _ \<Rightarrow> None)"

definition put_block :: "addr \<Rightarrow> gblock \<Rightarrow> gstore \<Rightarrow> gstore" where
  "put_block p b S = S\<lparr>gs_cells := (gs_cells S)(p \<mapsto> Block b)\<rparr>"

definition get_arg :: "addr \<Rightarrow> nat \<Rightarrow> gstore \<Rightarrow> store_word option" where
  "get_arg p f S = do { b \<leftarrow> get_block p S; Block_GetArg (gb_args b) f }"

definition init_arg :: "addr \<Rightarrow> nat \<Rightarrow> store_word \<Rightarrow> gstore \<Rightarrow> gstore option" where
  "init_arg p f v S = do {
     b \<leftarrow> get_block p S;
     as \<leftarrow> Block_SetArg (gb_args b) f v;
     Some (put_block p (b\<lparr>gb_args := as\<rparr>) S) }"

fun RemoveTag :: "store_word \<Rightarrow> addr option" where
  "RemoveTag (IntW i) = None"
| "RemoveTag (BlkW a) = Some a"
| "RemoveTag (TrW a) = Some a"

text \<open>\<^verbatim>\<open>PointerOp::EncodeTag(sp, PointerOp::DecodeTag(p))\<close>.\<close>

fun retag :: "store_word \<Rightarrow> addr \<Rightarrow> store_word" where
  "retag (IntW i) sp = IntW i"
| "retag (BlkW a) sp = BlkW sp"
| "retag (TrW a) sp = TrW sp"

text \<open>The generation in the header: the spare semispace holds blocks of the oldest generation.\<close>

definition header_gen :: "nat \<Rightarrow> nat" where
  "header_gen g = (if g = STORE_GENERATION_NUM - 1 then STORE_GENERATION_NUM - 2 else g)"

definition gc_Alloc :: "nat \<Rightarrow> nat \<Rightarrow> bool \<Rightarrow> store_word list \<Rightarrow> gstore \<Rightarrow> addr \<times> gstore" where
  "gc_Alloc g l mut args S =
     (gs_next S, S\<lparr>gs_cells := (gs_cells S)(gs_next S \<mapsto> Block \<lparr>gb_gen = header_gen g, gb_label = l, gb_mutable = mut, gb_childish = False, gb_args = args\<rparr>),
        gs_next := gs_next S + SIZEOF_BLOCK (length args),
        gs_roots := (gs_roots S)(g := gs_roots S g @ [gs_next S])\<rparr>)"

section \<open>The write barrier\<close>

definition AddToIntgenSet :: "addr \<Rightarrow> gstore \<Rightarrow> gstore option" where
  "AddToIntgenSet v S = do {
     b \<leftarrow> get_block v S;
     Some ((put_block v (b\<lparr>gb_childish := True\<rparr>) S)\<lparr>gs_intgen := gs_intgen S @ [v]\<rparr>) }"

definition ClearChildishFlag :: "addr \<Rightarrow> gstore \<Rightarrow> gstore option" where
  "ClearChildishFlag v S = do { b \<leftarrow> get_block v S; Some (put_block v (b\<lparr>gb_childish := False\<rparr>) S) }"

definition ReplaceArgUnchecked :: "addr \<Rightarrow> nat \<Rightarrow> store_word \<Rightarrow> gstore \<Rightarrow> gstore option" where
  "ReplaceArgUnchecked p f v S = do {
     S1 \<leftarrow> init_arg p f v S;
     case RemoveTag v of
       None \<Rightarrow> Some S1
     | Some a \<Rightarrow> do {
         val \<leftarrow> get_block a S1;
         my \<leftarrow> get_block p S1;
         if gb_gen val < gb_gen my \<and> \<not> gb_childish my then AddToIntgenSet p S1 else Some S1 } }"

definition gc_ReplaceArg :: "addr \<Rightarrow> nat \<Rightarrow> store_word \<Rightarrow> gstore \<Rightarrow> gstore option" where
  "gc_ReplaceArg p f v S = do {
     b \<leftarrow> get_block p S;
     Assert (gb_mutable b);
     ReplaceArgUnchecked p f v S }"

text \<open>\<^verbatim>\<open>Store::JITReplaceArg\<close> tests the generations before it writes.\<close>

definition JITReplaceArg :: "nat \<Rightarrow> addr \<Rightarrow> store_word \<Rightarrow> gstore \<Rightarrow> gstore option" where
  "JITReplaceArg i p v S = do {
     S1 \<leftarrow> (case RemoveTag v of
       None \<Rightarrow> Some S
     | Some a \<Rightarrow> do {
         val \<leftarrow> get_block a S;
         my \<leftarrow> get_block p S;
         if gb_gen val < gb_gen my \<and> \<not> gb_childish my then AddToIntgenSet p S else Some S });
     init_arg p i v S1 }"

section \<open>Forwarding\<close>

definition CloneBlock :: "addr \<Rightarrow> nat \<Rightarrow> gstore \<Rightarrow> (addr \<times> gstore) option" where
  "CloneBlock p gen S = do {
     b \<leftarrow> get_block p S;
     let (newp, S1) = gc_Alloc gen (gb_label b) (gb_mutable b) (gb_args b) S;
     Some (newp, S1\<lparr>gs_cells := (gs_cells S1)(p \<mapsto> Moved newp (gb_args b))\<rparr>) }"

definition ForwardBlock :: "store_word \<Rightarrow> nat \<Rightarrow> gstore \<Rightarrow> (store_word \<times> gstore) option" where
  "ForwardBlock p gen S = do {
     sp \<leftarrow> RemoveTag p;
     c \<leftarrow> gs_cells S sp;
     case c of
       Moved np as \<Rightarrow> Some (retag p np, S)
     | Block b \<Rightarrow>
         if gb_gen b < gen then do { (np, S1) \<leftarrow> CloneBlock sp gen S; Some (retag p np, S1) }
         else Some (p, S) }"

definition FORWARD :: "store_word \<Rightarrow> nat \<Rightarrow> gstore \<Rightarrow> (store_word \<times> gstore) option" where
  "FORWARD p gen S = (if RemoveTag p = None then Some (p, S) else ForwardBlock p gen S)"

text \<open>\<^verbatim>\<open>GCHelper::Deref\<close>: follow references, but not through a block that has been moved.\<close>

partial_function (option) GCHelper_Deref :: "gstore \<Rightarrow> store_word \<Rightarrow> store_word option" where
  "GCHelper_Deref S v = (case v of
     TrW a \<Rightarrow> (case gs_cells S a of
         None \<Rightarrow> None
       | Some (Moved np as) \<Rightarrow> Some v
       | Some (Block b) \<Rightarrow> if gb_label b = REF_LABEL then Option.bind (Block_GetArg (gb_args b) 0) (GCHelper_Deref S) else Some v)
   | _ \<Rightarrow> Some v)"

declare GCHelper_Deref.simps [code]

text \<open>The number of arguments to scan; chunks and weak dictionaries are skipped.\<close>

definition GetScanSize :: "gblock \<Rightarrow> nat option" where
  "GetScanSize b = do {
     w \<leftarrow> Block_GetArg (gb_args b) 0;
     case w of IntW i \<Rightarrow> Some (nat i + 1) | _ \<Rightarrow> None }"

definition cheney_size :: "gblock \<Rightarrow> nat option" where
  "cheney_size b =
     (if gb_label b < CHUNK_LABEL then Some (length (gb_args b))
      else if gb_label b = DYNAMIC_LABEL then GetScanSize b
      else Some 0)"

fun scan_args :: "nat \<Rightarrow> addr \<Rightarrow> nat \<Rightarrow> gstore \<Rightarrow> gstore option" where
  "scan_args 0 p gen S = Some S"
| "scan_args (Suc i) p gen S = do {
     w \<leftarrow> get_arg p i S;
     item \<leftarrow> GCHelper_Deref S w;
     (v, S1) \<leftarrow> FORWARD item gen S;
     S2 \<leftarrow> init_arg p i v S1;
     scan_args i p gen S2 }"

partial_function (option) CheneyScan :: "nat \<Rightarrow> nat \<Rightarrow> gstore \<Rightarrow> gstore option" where
  "CheneyScan gen scan S =
     (if scan < length (gs_roots S gen) then
        Option.bind (get_block (gs_roots S gen ! scan) S) (\<lambda>b.
        Option.bind (cheney_size b) (\<lambda>size.
        Option.bind (scan_args size (gs_roots S gen ! scan) gen S) (CheneyScan gen (scan + 1))))
      else Some S)"

declare CheneyScan.simps [code]

section \<open>Pointers between generations\<close>

fun scan_entry :: "nat \<Rightarrow> addr \<Rightarrow> nat \<Rightarrow> nat \<Rightarrow> bool \<Rightarrow> gstore \<Rightarrow> (bool \<times> gstore) option" where
  "scan_entry 0 entry entryGen gen found S = Some (found, S)"
| "scan_entry (Suc k) entry entryGen gen found S = do {
     w \<leftarrow> get_arg entry k S;
     item \<leftarrow> GCHelper_Deref S w;
     (if RemoveTag item = None then do {
        S1 \<leftarrow> init_arg entry k item S;
        scan_entry k entry entryGen gen found S1 }
      else do {
        (v, S1) \<leftarrow> ForwardBlock item (gen + 1) S;
        S2 \<leftarrow> init_arg entry k v S1;
        p \<leftarrow> RemoveTag v;
        b \<leftarrow> get_block p S2;
        scan_entry k entry entryGen gen (found \<or> gb_gen b < entryGen) S2 }) }"

fun handle_entries :: "addr list \<Rightarrow> nat \<Rightarrow> gstore \<Rightarrow> gstore option" where
  "handle_entries [] gen S = Some S"
| "handle_entries (entry # es) gen S = do {
     c \<leftarrow> gs_cells S entry;
     S1 \<leftarrow> (case c of
       Moved np as \<Rightarrow> ClearChildishFlag np S
     | Block b \<Rightarrow>
         if gb_gen b > gen then do {
           entrySize \<leftarrow> (if gb_label b = DYNAMIC_LABEL then GetScanSize b else Some (length (gb_args b)));
           (found, S1) \<leftarrow> scan_entry entrySize entry (gb_gen b) gen False S;
           if found then Some (S1\<lparr>gs_intgen := gs_intgen S1 @ [entry]\<rparr>) else ClearChildishFlag entry S1 }
         else Some S);
     handle_entries es gen S1 }"

definition HandleInterGenerationalPointers :: "nat \<Rightarrow> gstore \<Rightarrow> gstore option" where
  "HandleInterGenerationalPointers gen S = handle_entries (gs_intgen S) gen (S\<lparr>gs_intgen := []\<rparr>)"

section \<open>Weak dictionaries\<close>

definition RegisterWeakDict :: "store_word \<Rightarrow> gstore \<Rightarrow> gstore" where
  "RegisterWeakDict v S = S\<lparr>gs_wkdict := gs_wkdict S @ [v]\<rparr>"

text \<open>The arguments of a hash table (\<^verbatim>\<open>BaseMap.hh\<close>) and of its nodes (\<^verbatim>\<open>MapNode.hh\<close>).\<close>

definition COUNTER_POS :: nat where "COUNTER_POS = 0"
definition TABLE_POS :: nat where "TABLE_POS = 2"
definition RESERVED_POS :: nat where "RESERVED_POS = 3"
definition KEY_POS :: nat where "KEY_POS = 0"
definition VALUE_POS :: nat where "VALUE_POS = 1"
definition NEXT_POS :: nat where "NEXT_POS = 2"

definition GetCounter :: "addr \<Rightarrow> gstore \<Rightarrow> int option" where
  "GetCounter p S = do { w \<leftarrow> get_arg p COUNTER_POS S; case w of IntW i \<Rightarrow> Some i | _ \<Rightarrow> None }"

definition DirectWordToBlock :: "store_word \<Rightarrow> addr option" where
  "DirectWordToBlock w = (case w of BlkW a \<Rightarrow> Some a | _ \<Rightarrow> None)"

definition block_size :: "addr \<Rightarrow> gstore \<Rightarrow> nat option" where
  "block_size p S = do { b \<leftarrow> get_block p S; Some (length (gb_args b)) }"

text \<open>\<^verbatim>\<open>BaseMap::RemoveEntry\<close>.\<close>

definition gc_RemoveEntry :: "addr \<Rightarrow> nat \<Rightarrow> store_word \<Rightarrow> addr \<Rightarrow> gstore \<Rightarrow> gstore option" where
  "gc_RemoveEntry dict i prev node S = do {
     nx \<leftarrow> get_arg node NEXT_POS S;
     S1 \<leftarrow> (if prev = IntW 0 then do {
              t \<leftarrow> get_arg dict TABLE_POS S;
              table \<leftarrow> DirectWordToBlock t;
              gc_ReplaceArg table i nx S }
            else do { pn \<leftarrow> DirectWordToBlock prev; gc_ReplaceArg pn NEXT_POS nx S });
     n \<leftarrow> GetCounter dict S1;
     gc_ReplaceArg dict COUNTER_POS (IntW (n - 1)) S1 }"

text \<open>Phase one: forward the dictionaries, their tables and the nodes.\<close>

partial_function (option) forward_nodes :: "nat \<Rightarrow> store_word \<Rightarrow> gstore \<Rightarrow> gstore option" where
  "forward_nodes gen nodes S =
     (if nodes = IntW 0 then Some S
      else Option.bind (DirectWordToBlock nodes) (\<lambda>node.
        Option.bind (get_arg node NEXT_POS S) (\<lambda>nx.
        Option.bind (FORWARD nx gen S) (\<lambda>(nodes', S1).
        Option.bind (init_arg node NEXT_POS nodes' S1) (forward_nodes gen nodes')))))"

declare forward_nodes.simps [code]

fun forward_table :: "nat \<Rightarrow> addr \<Rightarrow> nat \<Rightarrow> gstore \<Rightarrow> gstore option" where
  "forward_table 0 table gen S = Some S"
| "forward_table (Suc k) table gen S = do {
     w \<leftarrow> get_arg table k S;
     (nodes, S1) \<leftarrow> FORWARD w gen S;
     S2 \<leftarrow> init_arg table k nodes S1;
     S3 \<leftarrow> forward_nodes gen nodes S2;
     forward_table k table gen S3 }"

definition forward_dict :: "nat \<Rightarrow> store_word \<Rightarrow> gstore \<Rightarrow> (store_word \<times> gstore) option" where
  "forward_dict gen dict S = do {
     dp \<leftarrow> DirectWordToBlock dict;
     c \<leftarrow> gs_cells S dp;
     (ndict, S1) \<leftarrow> (case c of
         Moved np as \<Rightarrow> Some (BlkW np, S\<lparr>gs_wkdict := gs_wkdict S @ [BlkW np]\<rparr>)
       | Block b \<Rightarrow>
           if gb_gen b < gen then do {
             (newp, S1) \<leftarrow> CloneBlock dp gen S;
             counter \<leftarrow> GetCounter newp S1;
             (if counter = 0 then do {
                handler \<leftarrow> get_arg newp RESERVED_POS S1;
                Some (BlkW newp, S1\<lparr>gs_fin := gs_fin S1 @ [BlkW newp, handler]\<rparr>) }
              else Some (BlkW newp, S1\<lparr>gs_wkdict := gs_wkdict S1 @ [BlkW newp]\<rparr>)) }
           else Some (dict, S\<lparr>gs_wkdict := gs_wkdict S @ [dict]\<rparr>));
     p \<leftarrow> DirectWordToBlock ndict;
     t \<leftarrow> get_arg p TABLE_POS S1;
     tp \<leftarrow> DirectWordToBlock t;
     (arr, S2) \<leftarrow> ForwardBlock (BlkW tp) gen S1;
     S3 \<leftarrow> gc_ReplaceArg p TABLE_POS arr S2;
     table \<leftarrow> DirectWordToBlock arr;
     size \<leftarrow> block_size table S3;
     S4 \<leftarrow> forward_table size table gen S3;
     Some (ndict, S4) }"

text \<open>The loop runs from the last dictionary to the first; the list is in the order of the loop.\<close>

fun forward_dicts :: "nat \<Rightarrow> store_word list \<Rightarrow> gstore \<Rightarrow> (store_word list \<times> gstore) option" where
  "forward_dicts gen [] S = Some ([], S)"
| "forward_dicts gen (d # ds) S = do {
     (n, S1) \<leftarrow> forward_dict gen d S;
     (ns, S2) \<leftarrow> forward_dicts gen ds S1;
     Some (n # ns, S2) }"

text \<open>
  \<^verbatim>\<open>FINALIZE_PERMITTED\<close> is tested after \<^verbatim>\<open>ForwardBlock\<close> has replaced the header of the value by the forward pointer: the label is
  taken from the bits of the new address, and only if these happen to be those of \<^verbatim>\<open>WEAK_MAP_LABEL\<close> the counter is looked at.
\<close>

definition header_label :: "cell \<Rightarrow> nat" where
  "header_label c = (case c of Block b \<Rightarrow> gb_label b | Moved np as \<Rightarrow> unat (DecodeLabel (word_of_nat np)))"

definition FINALIZE_PERMITTED :: "addr \<Rightarrow> gstore \<Rightarrow> bool option" where
  "FINALIZE_PERMITTED p S = do {
     c \<leftarrow> gs_cells S p;
     if header_label c \<noteq> WEAK_MAP_LABEL then Some True
     else do {
       w \<leftarrow> Block_GetArg (case c of Block b \<Rightarrow> gb_args b | Moved np as \<Rightarrow> as) COUNTER_POS;
       Some (w = IntW 0) } }"

text \<open>Phase two: one node. The result says whether it was removed.\<close>

definition finalize_node :: "nat \<Rightarrow> addr \<Rightarrow> store_word \<Rightarrow> nat \<Rightarrow> store_word \<Rightarrow> addr \<Rightarrow> gstore \<Rightarrow> (bool \<times> gstore) option" where
  "finalize_node gen dict handler k prev node S = do {
     w \<leftarrow> get_arg node VALUE_POS S;
     val \<leftarrow> GCHelper_Deref S w;
     case RemoveTag val of
       None \<Rightarrow> do {
         S1 \<leftarrow> gc_RemoveEntry dict k prev node S;
         Some (True, S1\<lparr>gs_fin := gs_fin S1 @ [val, handler]\<rparr>) }
     | Some valp \<Rightarrow> do {
         c \<leftarrow> gs_cells S valp;
         case c of
           Moved np as \<Rightarrow> do { S1 \<leftarrow> gc_ReplaceArg node VALUE_POS (retag val np) S; Some (False, S1) }
         | Block b \<Rightarrow>
             if gb_gen b < gen then do {
               (fVal, S1) \<leftarrow> ForwardBlock val gen S;
               permitted \<leftarrow> FINALIZE_PERMITTED valp S1;
               (if permitted then do {
                  S2 \<leftarrow> gc_RemoveEntry dict k prev node S1;
                  Some (True, S2\<lparr>gs_fin := gs_fin S2 @ [fVal, handler]\<rparr>) }
                else do { S2 \<leftarrow> gc_ReplaceArg node VALUE_POS fVal S1; Some (False, S2) }) }
             else do { S1 \<leftarrow> gc_ReplaceArg node VALUE_POS val S; Some (False, S1) } } }"

partial_function (option) finalize_nodes :: "nat \<Rightarrow> addr \<Rightarrow> store_word \<Rightarrow> nat \<Rightarrow> store_word \<Rightarrow> store_word \<Rightarrow> gstore \<Rightarrow> gstore option" where
  "finalize_nodes gen dict handler k prev nodes S =
     (if nodes = IntW 0 then Some S
      else Option.bind (DirectWordToBlock nodes) (\<lambda>node.
        Option.bind (finalize_node gen dict handler k prev node S) (\<lambda>(deleted, S1).
        Option.bind (get_arg node NEXT_POS S1) (\<lambda>nx.
          finalize_nodes gen dict handler k (if deleted then prev else nodes) nx S1))))"

declare finalize_nodes.simps [code]

fun finalize_table :: "nat \<Rightarrow> nat \<Rightarrow> addr \<Rightarrow> store_word \<Rightarrow> addr \<Rightarrow> gstore \<Rightarrow> gstore option" where
  "finalize_table 0 gen dict handler table S = Some S"
| "finalize_table (Suc k) gen dict handler table S = do {
     nodes \<leftarrow> get_arg table k S;
     S1 \<leftarrow> finalize_nodes gen dict handler k (IntW 0) nodes S;
     finalize_table k gen dict handler table S1 }"

fun finalize_dicts :: "nat \<Rightarrow> store_word list \<Rightarrow> gstore \<Rightarrow> gstore option" where
  "finalize_dicts gen [] S = Some S"
| "finalize_dicts gen (d # ds) S = do {
     dict \<leftarrow> DirectWordToBlock d;
     handler \<leftarrow> get_arg dict RESERVED_POS S;
     t \<leftarrow> get_arg dict TABLE_POS S;
     table \<leftarrow> DirectWordToBlock t;
     size \<leftarrow> block_size table S;
     S1 \<leftarrow> finalize_table size gen dict handler table S;
     finalize_dicts gen ds S1 }"

text \<open>The second scan of a major collection distinguishes the semispaces by the chunks.\<close>

definition IsInFromSpace :: "gstore \<Rightarrow> addr \<Rightarrow> bool" where
  "IsInFromSpace S p \<longleftrightarrow> (\<exists>i \<in> set [0..<STORE_GENERATION_NUM - 1]. p \<in> set (gs_roots S i))"

definition finalize_forward :: "store_word \<Rightarrow> gstore \<Rightarrow> (store_word \<times> gstore) option" where
  "finalize_forward item S = (case RemoveTag item of
     None \<Rightarrow> Some (item, S)
   | Some sp \<Rightarrow> do {
       c \<leftarrow> gs_cells S sp;
       case c of
         Moved np as \<Rightarrow> Some (retag item np, S)
       | Block b \<Rightarrow>
           if IsInFromSpace S sp then do { (np, S1) \<leftarrow> CloneBlock sp (STORE_GENERATION_NUM - 1) S; Some (retag item np, S1) }
           else Some (item, S) })"

fun finalize_scan_args :: "nat \<Rightarrow> addr \<Rightarrow> gstore \<Rightarrow> gstore option" where
  "finalize_scan_args 0 p S = Some S"
| "finalize_scan_args (Suc i) p S = do {
     w \<leftarrow> get_arg p i S;
     item \<leftarrow> GCHelper_Deref S w;
     (v, S1) \<leftarrow> finalize_forward item S;
     S2 \<leftarrow> init_arg p i v S1;
     finalize_scan_args i p S2 }"

partial_function (option) FinalizeCheneyScan :: "nat \<Rightarrow> gstore \<Rightarrow> gstore option" where
  "FinalizeCheneyScan scan S =
     (if scan < length (gs_roots S (STORE_GENERATION_NUM - 1)) then
        Option.bind (get_block (gs_roots S (STORE_GENERATION_NUM - 1) ! scan) S) (\<lambda>b.
        Option.bind (cheney_size b) (\<lambda>size.
        Option.bind (finalize_scan_args size (gs_roots S (STORE_GENERATION_NUM - 1) ! scan) S) (FinalizeCheneyScan (scan + 1))))
      else Some S)"

declare FinalizeCheneyScan.simps [code]

definition HandleWeakDictionaries :: "nat \<Rightarrow> gstore \<Rightarrow> gstore option" where
  "HandleWeakDictionaries gen S = do {
     (db_set, S1) \<leftarrow> forward_dicts gen (rev (gs_wkdict S)) (S\<lparr>gs_wkdict := [], gs_fin := []\<rparr>);
     let scan = length (gs_roots S1 gen);
     S2 \<leftarrow> finalize_dicts gen db_set S1;
     if gen = STORE_GENERATION_NUM - 1 then FinalizeCheneyScan scan S2 else CheneyScan gen scan S2 }"

section \<open>Hash tables keyed by addresses\<close>

definition gc_Hash :: "store_word \<Rightarrow> nat \<Rightarrow> nat option" where
  "gc_Hash key sz = do { Assert (sz > 0); Some (unat (word_bits key) mod sz) }"

partial_function (option) rehash_nodes :: "addr \<Rightarrow> nat \<Rightarrow> nat \<Rightarrow> store_word \<Rightarrow> store_word \<Rightarrow> gstore \<Rightarrow> gstore option" where
  "rehash_nodes table sz i prev nodes S =
     (if nodes = IntW 0 then Some S
      else Option.bind (DirectWordToBlock nodes) (\<lambda>node.
        Option.bind (get_arg node KEY_POS S) (\<lambda>key.
        Option.bind (gc_Hash key sz) (\<lambda>hashedKey.
        Option.bind (get_arg node NEXT_POS S) (\<lambda>nx.
          if hashedKey \<noteq> i then
            Option.bind (if prev = IntW 0 then gc_ReplaceArg table i nx S
                         else Option.bind (DirectWordToBlock prev) (\<lambda>pn. gc_ReplaceArg pn NEXT_POS nx S)) (\<lambda>S1.
            Option.bind (get_arg table hashedKey S1) (\<lambda>chain.
            Option.bind (gc_ReplaceArg node NEXT_POS chain S1) (\<lambda>S2.
            Option.bind (gc_ReplaceArg table hashedKey (BlkW node) S2) (rehash_nodes table sz i prev nx))))
          else rehash_nodes table sz i nodes nx S)))))"

declare rehash_nodes.simps [code]

fun rehash_table :: "nat \<Rightarrow> addr \<Rightarrow> nat \<Rightarrow> gstore \<Rightarrow> gstore option" where
  "rehash_table 0 table sz S = Some S"
| "rehash_table (Suc i) table sz S = do {
     nodes \<leftarrow> get_arg table i S;
     S1 \<leftarrow> rehash_nodes table sz i (IntW 0) nodes S;
     rehash_table i table sz S1 }"

definition gc_Rehash :: "addr \<Rightarrow> gstore \<Rightarrow> gstore option" where
  "gc_Rehash mp S = do {
     t \<leftarrow> get_arg mp TABLE_POS S;
     table \<leftarrow> DirectWordToBlock t;
     sz \<leftarrow> block_size table S;
     rehash_table sz table sz S }"

text \<open>The list of all maps: its nodes hold the map and the next node.\<close>

partial_function (option) rehash_all :: "nat \<Rightarrow> store_word \<Rightarrow> gstore \<Rightarrow> gstore option" where
  "rehash_all gen oldMapLs S =
     (if oldMapLs = IntW 0 then Some S
      else Option.bind (DirectWordToBlock oldMapLs) (\<lambda>node.
        Option.bind (get_block node S) (\<lambda>nb.
        Option.bind (Block_GetArg (gb_args nb) 0) (\<lambda>m.
        Option.bind (DirectWordToBlock m) (\<lambda>mp.
        Option.bind (gs_cells S mp) (\<lambda>c.
        Option.bind
          (case (case c of Moved np as \<Rightarrow> Some np | Block b \<Rightarrow> if gb_gen b < gen then None else Some mp) of
             None \<Rightarrow> Some S
           | Some newMap \<Rightarrow> Option.bind (gc_Rehash newMap S) (\<lambda>S1.
               let (p, S2) = gc_Alloc gen MIN_DATA_LABEL False [BlkW newMap, gs_mapLs S1] S1 in Some (S2\<lparr>gs_mapLs := BlkW p\<rparr>))) (\<lambda>S3.
        Option.bind (get_arg node 1 S3) (\<lambda>nx. rehash_all gen nx S3))))))))"

declare rehash_all.simps [code]

definition RehashAll :: "nat \<Rightarrow> gstore \<Rightarrow> gstore option" where
  "RehashAll gen S = rehash_all gen (gs_mapLs S) (S\<lparr>gs_mapLs := IntW 0\<rparr>)"

section \<open>Collections\<close>

definition Store_GC :: "store_word \<Rightarrow> nat \<Rightarrow> gstore \<Rightarrow> (store_word \<times> gstore) option" where
  "Store_GC root gen S = do {
     let scan = length (gs_roots S gen);
     r \<leftarrow> DirectWordToBlock root;
     (newp, S1) \<leftarrow> CloneBlock r gen S;
     S2 \<leftarrow> CheneyScan gen scan S1;
     let scan2 = length (gs_roots S2 gen);
     S3 \<leftarrow> HandleInterGenerationalPointers (gen - 1) S2;
     S4 \<leftarrow> CheneyScan gen scan2 S3;
     S5 \<leftarrow> (if length (gs_wkdict S4) \<noteq> 0 then HandleWeakDictionaries gen S4 else Some S4);
     S6 \<leftarrow> RehashAll gen S5;
     Some (BlkW newp, S6) }"

text \<open>How many generations to collect: the oldest one that is over its limit, at least the youngest.\<close>

fun gc_range :: "(nat \<Rightarrow> u_int) \<Rightarrow> (nat \<Rightarrow> u_int) \<Rightarrow> nat \<Rightarrow> nat" where
  "gc_range sz limit 0 = 0"
| "gc_range sz limit (Suc gen) = (if sz (Suc gen) \<le> limit (Suc gen) then gc_range sz limit gen else Suc gen)"

text \<open>The limit for the next major collection, in unsigned arithmetic.\<close>

definition major_limit :: "u_int \<Rightarrow> u_int \<Rightarrow> u_int" where
  "major_limit usage memTolerance =
     (let wanted = max (usage * 2) (35 * 1024 * 1024);
          block_size = word_of_nat STORE_MEMCHUNK_SIZE;
          dist = wanted mod block_size;
          block_dist = (if sint dist > 0 then block_size - dist else dist)
      in wanted + min block_dist (wanted * memTolerance div 100))"

definition gc_Shrink :: "nat \<Rightarrow> gstore \<Rightarrow> gstore" where
  "gc_Shrink i S = S\<lparr>gs_cells := (\<lambda>a. if a \<in> set (gs_roots S i) then None else gs_cells S a), gs_roots := (gs_roots S)(i := [])\<rparr>"

definition switch_semispaces :: "gstore \<Rightarrow> gstore" where
  "switch_semispaces S =
     S\<lparr>gs_roots := (gs_roots S)(STORE_GEN_OLDEST := gs_roots S (STORE_GEN_OLDEST + 1), STORE_GEN_OLDEST + 1 := gs_roots S STORE_GEN_OLDEST),
       gs_limit := (gs_limit S)(STORE_GEN_OLDEST := gs_limit S (STORE_GEN_OLDEST + 1), STORE_GEN_OLDEST + 1 := gs_limit S STORE_GEN_OLDEST)\<rparr>"

definition DoGCWithoutFinalize :: "(gstore \<Rightarrow> nat \<Rightarrow> u_int) \<Rightarrow> u_int \<Rightarrow> store_word \<Rightarrow> gstore \<Rightarrow> (store_word \<times> gstore) option" where
  "DoGCWithoutFinalize sz memTolerance root S = do {
     let gen = gc_range (sz S) (gs_limit S) (STORE_GENERATION_NUM - 2);
     (root1, S1) \<leftarrow> Store_GC root (gen + 1) S;
     let S2 = (if gen = STORE_GEN_OLDEST
               then S1\<lparr>gs_limit := (gs_limit S1)(STORE_GEN_OLDEST + 1 := major_limit (sz S1 (STORE_GEN_OLDEST + 1)) memTolerance)\<rparr> else S1);
     let S3 = fold gc_Shrink (rev [0..<gen + 1]) S2;
     let S4 = (if gen = STORE_GEN_OLDEST then switch_semispaces S3 else S3);
     Some (root1, S4\<lparr>gs_status := ClearStatus (gs_status S4) GCStatus\<rparr>) }"

text \<open>\<^verbatim>\<open>Store::DoFinalize\<close>: the calls of handlers, each with its value, in the order in which they are made.\<close>

fun finalize_calls :: "store_word list \<Rightarrow> (store_word \<times> store_word) list" where
  "finalize_calls (handler # v # ws) = (handler, v) # finalize_calls ws"
| "finalize_calls ws = []"

definition DoFinalize :: "gstore \<Rightarrow> (store_word \<times> store_word) list" where
  "DoFinalize S = finalize_calls (rev (gs_fin S))"

definition DoGC :: "(gstore \<Rightarrow> nat \<Rightarrow> u_int) \<Rightarrow> u_int \<Rightarrow> store_word \<Rightarrow> gstore \<Rightarrow> (store_word \<times> (store_word \<times> store_word) list \<times> gstore) option" where
  "DoGC sz memTolerance root S = do {
     (root1, S1) \<leftarrow> DoGCWithoutFinalize sz memTolerance root S;
     Some (root1, DoFinalize S1, S1) }"

end
