(* ===== verification/Collector_Inv.thy ===== *)
theory Collector_Inv
  imports Collector
begin

text \<open>
  The copying phase of a collection: forwarding, scanning and the pointers between generations. The relation \<open>copying\<close>
  describes the heap during a collection by the heap \<open>S0\<close> before it, the map \<open>m\<close> from the moved blocks to their copies and the
  set of the arguments that have been scanned.
\<close>

section \<open>Dereferencing\<close>

inductive derefs :: "gstore \<Rightarrow> store_word \<Rightarrow> store_word \<Rightarrow> bool" for S where
  derefs_int: "derefs S (IntW i) (IntW i)"
| derefs_blk: "derefs S (BlkW a) (BlkW a)"
| derefs_moved: "gs_cells S a = Some (Moved np as) \<Longrightarrow> derefs S (TrW a) (TrW a)"
| derefs_stop: "gs_cells S a = Some (Block b) \<Longrightarrow> gb_label b \<noteq> REF_LABEL \<Longrightarrow> derefs S (TrW a) (TrW a)"
| derefs_ref: "gs_cells S a = Some (Block b) \<Longrightarrow> gb_label b = REF_LABEL \<Longrightarrow> gb_args b \<noteq> [] \<Longrightarrow> derefs S (gb_args b ! 0) v \<Longrightarrow> derefs S (TrW a) v"

inductive_cases derefs_TrE: "derefs S (TrW a) v"

inductive_simps derefs_simps [simp]: "derefs S (IntW i) v" "derefs S (BlkW a) v"

lemma Deref_derefs:
  assumes "GCHelper_Deref S w = Some v"
  shows "derefs S w v"
proof (rule GCHelper_Deref.raw_induct [where P = derefs, OF _ assms])
  fix D S w v
  assume "\<And>S w v. D S w = Some v \<Longrightarrow> derefs S w v"
    and "(case w of TrW a \<Rightarrow> (case gs_cells S a of None \<Rightarrow> None | Some (Moved np as) \<Rightarrow> Some w
        | Some (Block b) \<Rightarrow> if gb_label b = REF_LABEL then Option.bind (Block_GetArg (gb_args b) 0) (D S) else Some w) | _ \<Rightarrow> Some w) = Some v"
  then show "derefs S w v"
    by (auto split: store_word.splits option.splits cell.splits if_splits simp: run_elims intro: derefs.intros)
qed

lemma derefs_Deref: "derefs S w v \<Longrightarrow> GCHelper_Deref S w = Some v"
  by (induction rule: derefs.induct) (subst GCHelper_Deref.simps; simp add: Block_GetArg_def)+

lemma Deref_iff: "GCHelper_Deref S w = Some v \<longleftrightarrow> derefs S w v"
  using Deref_derefs derefs_Deref by blast

lemma derefs_unique: "derefs S w v \<Longrightarrow> derefs S w v' \<Longrightarrow> v' = v"
  by (drule derefs_Deref)+ simp

section \<open>Well-formed heaps\<close>

lemma get_block_Some: "get_block a S = Some b \<longleftrightarrow> gs_cells S a = Some (Block b)"
  by (auto simp: get_block_def split: option.splits cell.splits)

definition target_ok :: "gstore \<Rightarrow> store_word \<Rightarrow> bool" where
  "target_ok S v \<longleftrightarrow> (\<forall>t. RemoveTag v = Some t \<longrightarrow> (\<exists>b. get_block t S = Some b \<and> gb_label b \<noteq> REF_LABEL))"

definition word_ok :: "gstore \<Rightarrow> store_word \<Rightarrow> bool" where
  "word_ok S w \<longleftrightarrow> (\<exists>v. GCHelper_Deref S w = Some v \<and> target_ok S v)"

text \<open>Every argument that is scanned leads to a block.\<close>

definition closed :: "gstore \<Rightarrow> bool" where
  "closed S \<longleftrightarrow> (\<forall>a b. get_block a S = Some b \<longrightarrow> gb_gen b < STORE_GENERATION_NUM - 1 \<and>
     (\<exists>n. cheney_size b = Some n \<and> n \<le> length (gb_args b) \<and> (\<forall>i < n. word_ok S (gb_args b ! i)))) \<and>
     (\<forall>a. gs_cells S a \<noteq> None \<longrightarrow> a < gs_next S)"

text \<open>A block with a pointer to a younger one is in the set; the flag says which blocks are.\<close>

definition points_to :: "gstore \<Rightarrow> addr \<Rightarrow> addr \<Rightarrow> bool" where
  "points_to S a t \<longleftrightarrow> (\<exists>b n i. get_block a S = Some b \<and> cheney_size b = Some n \<and> i < n \<and> i < length (gb_args b) \<and> RemoveTag (gb_args b ! i) = Some t)"

definition barrier :: "gstore \<Rightarrow> bool" where
  "barrier S \<longleftrightarrow> (\<forall>a t b c. get_block a S = Some b \<and> points_to S a t \<and> get_block t S = Some c \<and> gb_gen c < gb_gen b \<longrightarrow> a \<in> set (gs_intgen S)) \<and>
     distinct (gs_intgen S) \<and> (\<forall>a \<in> set (gs_intgen S). \<exists>b. get_block a S = Some b \<and> (gb_label b < CHUNK_LABEL \<or> gb_label b = DYNAMIC_LABEL)) \<and>
     (\<forall>a b. get_block a S = Some b \<longrightarrow> (gb_childish b \<longleftrightarrow> a \<in> set (gs_intgen S)))"

text \<open>The generation in the header is the one the block was allocated in; the spare semispace is empty.\<close>

definition spaces :: "gstore \<Rightarrow> bool" where
  "spaces S \<longleftrightarrow> (\<forall>a b. get_block a S = Some b \<longrightarrow> a \<in> set (gs_roots S (gb_gen b))) \<and>
     (\<forall>g a b. a \<in> set (gs_roots S g) \<and> get_block a S = Some b \<longrightarrow> gb_gen b = g) \<and>
     (\<forall>g. \<forall>a \<in> set (gs_roots S g). a < gs_next S) \<and> gs_roots S (STORE_GENERATION_NUM - 1) = []"

definition heap_inv :: "gstore \<Rightarrow> bool" where
  "heap_inv S \<longleftrightarrow> closed S \<and> barrier S \<and> spaces S"

section \<open>The heap during a collection\<close>

text \<open>What a collection of the generations below \<open>g\<close> may move.\<close>

definition movable :: "gstore \<Rightarrow> nat \<Rightarrow> addr \<Rightarrow> addr set" where
  "movable S g r = {a. \<exists>b. get_block a S = Some b \<and> (gb_gen b < g \<or> a = r)}"

text \<open>The word \<open>v\<close> after forwarding.\<close>

definition renamed :: "(addr \<Rightarrow> addr option) \<Rightarrow> store_word \<Rightarrow> store_word" where
  "renamed m v = (case RemoveTag v of None \<Rightarrow> v | Some t \<Rightarrow> (case m t of None \<Rightarrow> v | Some x \<Rightarrow> retag v x))"

definition covered :: "addr set \<Rightarrow> (addr \<Rightarrow> addr option) \<Rightarrow> store_word \<Rightarrow> bool" where
  "covered C m v \<longleftrightarrow> (\<forall>t. RemoveTag v = Some t \<and> t \<in> C \<longrightarrow> m t \<noteq> None)"

definition forwarded :: "gstore \<Rightarrow> addr set \<Rightarrow> (addr \<Rightarrow> addr option) \<Rightarrow> store_word \<Rightarrow> store_word \<Rightarrow> bool" where
  "forwarded S0 C m w w' \<longleftrightarrow> (\<exists>v. derefs S0 w v \<and> covered C m v \<and> w' = renamed m v)"

text \<open>The block \<open>b\<close> of \<open>S0\<close> is now \<open>b'\<close>, at the address \<open>x\<close>.\<close>

definition same_block :: "gstore \<Rightarrow> addr set \<Rightarrow> (addr \<Rightarrow> addr option) \<Rightarrow> (addr \<times> nat) set \<Rightarrow> addr \<Rightarrow> gblock \<Rightarrow> gblock \<Rightarrow> bool" where
  "same_block S0 C m Dn x b b' \<longleftrightarrow> gb_label b' = gb_label b \<and> gb_mutable b' = gb_mutable b \<and> length (gb_args b') = length (gb_args b) \<and>
     (\<forall>i < length (gb_args b). if (x, i) \<in> Dn then forwarded S0 C m (gb_args b ! i) (gb_args b' ! i) else gb_args b' ! i = gb_args b ! i)"

text \<open>The moved blocks, those that may still be moved and those that stay; there are no other blocks.\<close>

definition moved_ok :: "gstore \<Rightarrow> nat \<Rightarrow> addr set \<Rightarrow> (addr \<Rightarrow> addr option) \<Rightarrow> (addr \<times> nat) set \<Rightarrow> gstore \<Rightarrow> bool" where
  "moved_ok S0 g C m Dn S \<longleftrightarrow> (\<forall>a x. m a = Some x \<longrightarrow> gs_next S0 \<le> x \<and> x < gs_next S \<and>
     (\<exists>b b'. get_block a S0 = Some b \<and> gb_label b \<noteq> REF_LABEL \<and> gs_cells S a = Some (Moved x (gb_args b)) \<and>
        get_block x S = Some b' \<and> gb_gen b' = header_gen g \<and> \<not> gb_childish b' \<and> same_block S0 C m Dn x b b'))"

definition unmoved_ok :: "gstore \<Rightarrow> addr set \<Rightarrow> (addr \<Rightarrow> addr option) \<Rightarrow> gstore \<Rightarrow> bool" where
  "unmoved_ok S0 C m S \<longleftrightarrow> (\<forall>a \<in> C. m a = None \<longrightarrow> gs_cells S a = gs_cells S0 a)"

definition old_ok :: "gstore \<Rightarrow> addr set \<Rightarrow> (addr \<Rightarrow> addr option) \<Rightarrow> (addr \<times> nat) set \<Rightarrow> gstore \<Rightarrow> bool" where
  "old_ok S0 C m Dn S \<longleftrightarrow> (\<forall>a b. a \<notin> C \<and> get_block a S0 = Some b \<longrightarrow>
     (\<exists>b'. get_block a S = Some b' \<and> gb_gen b' = gb_gen b \<and> same_block S0 C m Dn a b b'))"

definition source_ok :: "gstore \<Rightarrow> (addr \<Rightarrow> addr option) \<Rightarrow> gstore \<Rightarrow> bool" where
  "source_ok S0 m S \<longleftrightarrow> (\<forall>x. get_block x S \<noteq> None \<longrightarrow> x \<in> ran m \<or> get_block x S0 \<noteq> None) \<and> (\<forall>x. gs_cells S x \<noteq> None \<longrightarrow> x < gs_next S)"

text \<open>The block \<open>x\<close> of the heap stands for the block \<open>a\<close> of the heap before.\<close>

definition stands_for :: "gstore \<Rightarrow> nat \<Rightarrow> addr \<Rightarrow> (addr \<Rightarrow> addr option) \<Rightarrow> addr \<Rightarrow> addr \<Rightarrow> bool" where
  "stands_for S0 g r m x a \<longleftrightarrow> m a = Some x \<or> x = a \<and> a \<notin> movable S0 g r"

lemma stands_mono: "stands_for S0 g r m x a \<Longrightarrow> m \<subseteq>\<^sub>m m' \<Longrightarrow> stands_for S0 g r m' x a"
  unfolding stands_for_def map_le_def by (metis domIff option.distinct(1))

text \<open>The arguments of \<open>Dn\<close> are among those that are scanned.\<close>

definition scannable_args :: "gstore \<Rightarrow> nat \<Rightarrow> addr \<Rightarrow> (addr \<Rightarrow> addr option) \<Rightarrow> (addr \<times> nat) set \<Rightarrow> bool" where
  "scannable_args S0 g r m Dn \<longleftrightarrow> (\<forall>x i. (x, i) \<in> Dn \<longrightarrow> (\<exists>a b n. stands_for S0 g r m x a \<and> get_block a S0 = Some b \<and> cheney_size b = Some n \<and> i < n))"

definition copying :: "gstore \<Rightarrow> nat \<Rightarrow> addr \<Rightarrow> (addr \<Rightarrow> addr option) \<Rightarrow> (addr \<times> nat) set \<Rightarrow> gstore \<Rightarrow> bool" where
  "copying S0 g r m Dn S \<longleftrightarrow> dom m \<subseteq> movable S0 g r \<and> inj_on m (dom m) \<and> moved_ok S0 g (movable S0 g r) m Dn S \<and>
     unmoved_ok S0 (movable S0 g r) m S \<and> old_ok S0 (movable S0 g r) m Dn S \<and> source_ok S0 m S \<and>
     scannable_args S0 g r m Dn \<and> gs_next S0 \<le> gs_next S"

lemma renamed_simps [simp]:
  "renamed m (IntW i) = IntW i"
  "renamed m (BlkW t) = (case m t of None \<Rightarrow> BlkW t | Some x \<Rightarrow> BlkW x)"
  "renamed m (TrW t) = (case m t of None \<Rightarrow> TrW t | Some x \<Rightarrow> TrW x)"
  by (auto simp: renamed_def split: option.splits)

lemma renamed_mono: "covered C m v \<Longrightarrow> m \<subseteq>\<^sub>m m' \<Longrightarrow> dom m' \<subseteq> C \<Longrightarrow> renamed m' v = renamed m v"
  unfolding covered_def map_le_def by (cases v) (auto split: option.splits dest: bspec)

lemma covered_mono: "covered C m v \<Longrightarrow> m \<subseteq>\<^sub>m m' \<Longrightarrow> covered C m' v"
  unfolding covered_def map_le_def by (metis domIff)

lemma forwarded_mono: "forwarded S0 C m w w' \<Longrightarrow> m \<subseteq>\<^sub>m m' \<Longrightarrow> dom m' \<subseteq> C \<Longrightarrow> forwarded S0 C m' w w'"
  unfolding forwarded_def using renamed_mono covered_mono by metis

lemma same_block_mono: "same_block S0 C m Dn x b b' \<Longrightarrow> m \<subseteq>\<^sub>m m' \<Longrightarrow> dom m' \<subseteq> C \<Longrightarrow> same_block S0 C m' Dn x b b'"
  unfolding same_block_def using forwarded_mono by metis

lemma copying_moved:
  assumes "copying S0 g r m Dn S" and "m a = Some x"
  obtains b b' where "get_block a S0 = Some b" and "gb_label b \<noteq> REF_LABEL" and "gs_cells S a = Some (Moved x (gb_args b))" and "get_block x S = Some b'"
    and "gb_gen b' = header_gen g" and "\<not> gb_childish b'" and "same_block S0 (movable S0 g r) m Dn x b b'" and "gs_next S0 \<le> x" and "x < gs_next S"
  using assms unfolding copying_def moved_ok_def by blast

lemma copying_unmoved: "copying S0 g r m Dn S \<Longrightarrow> a \<in> movable S0 g r \<Longrightarrow> m a = None \<Longrightarrow> gs_cells S a = gs_cells S0 a"
  unfolding copying_def unmoved_ok_def by blast

lemma copying_old:
  assumes "copying S0 g r m Dn S" and "a \<notin> movable S0 g r" and "get_block a S0 = Some b"
  obtains b' where "get_block a S = Some b'" and "gb_gen b' = gb_gen b" and "same_block S0 (movable S0 g r) m Dn a b b'"
  using assms unfolding copying_def old_ok_def by blast

lemma block_next: "closed S \<Longrightarrow> get_block a S = Some b \<Longrightarrow> a < gs_next S"
  by (auto simp: closed_def get_block_Some)

lemma copying_scanned:
  assumes "copying S0 g r m Dn S" and "closed S0" and "(x, i) \<in> Dn"
  shows "x \<in> ran m \<or> x < gs_next S0"
proof -
  obtain a b where "stands_for S0 g r m x a" "get_block a S0 = Some b" using assms(1,3) unfolding copying_def scannable_args_def by blast
  then show ?thesis using block_next [OF assms(2)] by (auto simp: stands_for_def ran_def)
qed

lemma copying_dom: "copying S0 g r m Dn S \<Longrightarrow> dom m \<subseteq> movable S0 g r"
  unfolding copying_def by blast

lemma old_gen: "a \<notin> movable S0 g r \<Longrightarrow> get_block a S0 = Some b \<Longrightarrow> g \<le> gb_gen b"
  by (auto simp: movable_def)

lemma closed_gen: "closed S \<Longrightarrow> get_block a S = Some b \<Longrightarrow> gb_gen b \<le> 2"
  by (fastforce simp: closed_def)

text \<open>A word that has been forwarded is not forwarded again.\<close>

lemma derefs_renamed:
  assumes "copying S0 g r m Dn S" and "closed S0" and "target_ok S0 v" and "covered (movable S0 g r) m v"
  shows "derefs S (renamed m v) (renamed m v)"
proof (cases v)
  case (TrW t)
  obtain b where b: "get_block t S0 = Some b" "gb_label b \<noteq> REF_LABEL" using assms(3) TrW by (auto simp: target_ok_def)
  show ?thesis
  proof (cases "m t")
    case None
    then have "t \<notin> movable S0 g r" using assms(4) TrW by (auto simp: covered_def)
    then obtain b' where "get_block t S = Some b'" "gb_label b' = gb_label b"
      using copying_old [OF assms(1) _ b(1)] by (metis same_block_def)
    then show ?thesis using TrW None b(2) by (auto simp: get_block_Some intro: derefs_stop)
  next
    case (Some x)
    then obtain b' where "get_block x S = Some b'" "gb_label b' \<noteq> REF_LABEL" using copying_moved [OF assms(1) Some] by (metis same_block_def)
    then show ?thesis using TrW Some by (auto simp: get_block_Some intro: derefs_stop)
  qed
qed (auto split: option.splits)

text \<open>Dereferencing during the collection gives the word of the heap before, or this word forwarded.\<close>

lemma derefs_during:
  assumes "derefs S0 w v" and "copying S0 g r m Dn S" and "closed S0" and "target_ok S0 v"
  shows "\<exists>v'. derefs S w v' \<and> (v' = v \<or> g \<le> 2 \<and> covered (movable S0 g r) m v \<and> v' = renamed m v)"
  using assms
proof (induction rule: derefs.induct)
  case (derefs_moved a np as)
  then show ?case by (auto simp: target_ok_def get_block_Some)
next
  case (derefs_stop a b)
  have "derefs S (TrW a) (TrW a)"
  proof (cases "m a")
    case (Some x)
    then show ?thesis using copying_moved [OF derefs_stop.prems(1) Some] by (metis derefs.derefs_moved)
  next
    case None
    have b: "get_block a S0 = Some b" using derefs_stop by (simp add: get_block_Some)
    show ?thesis
    proof (cases "a \<in> movable S0 g r")
      case True
      then show ?thesis using copying_unmoved [OF derefs_stop.prems(1) True None] derefs_stop.hyps by (auto intro: derefs.derefs_stop)
    next
      case False
      then obtain b' where "get_block a S = Some b'" "gb_label b' = gb_label b" using copying_old [OF derefs_stop.prems(1) _ b] by (metis same_block_def)
      then show ?thesis using derefs_stop.hyps by (auto simp: get_block_Some intro: derefs.derefs_stop)
    qed
  qed
  then show ?case by blast
next
  case (derefs_ref a b v)
  note IH = derefs_ref.IH [OF derefs_ref.prems]
  have b: "get_block a S0 = Some b" using derefs_ref by (simp add: get_block_Some)
  have unmoved: "m a = None"
  proof (cases "m a")
    case (Some x)
    then show ?thesis using copying_moved [OF derefs_ref.prems(1) Some] b derefs_ref.hyps(2) by (metis option.inject)
  qed simp
  show ?case
  proof (cases "a \<in> movable S0 g r")
    case True
    then show ?thesis using IH copying_unmoved [OF derefs_ref.prems(1) True unmoved] derefs_ref.hyps by (metis derefs.derefs_ref)
  next
    case False
    then obtain b' where b': "get_block a S = Some b'" "same_block S0 (movable S0 g r) m Dn a b b'" using copying_old [OF derefs_ref.prems(1) _ b] by metis
    have s: "gs_cells S a = Some (Block b')" "gb_label b' = REF_LABEL" "gb_args b' \<noteq> []" using b' derefs_ref.hyps by (auto simp: same_block_def get_block_Some)
    show ?thesis
    proof (cases "(a, 0) \<in> Dn")
      case True
      then have "forwarded S0 (movable S0 g r) m (gb_args b ! 0) (gb_args b' ! 0)" using b'(2) derefs_ref.hyps(3) by (auto simp: same_block_def)
      then have f: "covered (movable S0 g r) m v" "gb_args b' ! 0 = renamed m v" using derefs_unique derefs_ref.hyps(4) by (auto simp: forwarded_def)
      have "derefs S (TrW a) (renamed m v)"
        using derefs.derefs_ref [OF s] derefs_renamed [OF derefs_ref.prems f(1)] f(2) by simp
      moreover have "g \<le> 2" using old_gen [OF False b] closed_gen [OF derefs_ref.prems(2) b] by simp
      ultimately show ?thesis using f(1) by blast
    next
      case False
      then have "gb_args b' ! 0 = gb_args b ! 0" using b'(2) derefs_ref.hyps(3) by (auto simp: same_block_def)
      then show ?thesis using IH derefs.derefs_ref [OF s] by metis
    qed
  qed
qed (auto intro: derefs.intros)

section \<open>Forwarding\<close>

text \<open>What else changes when blocks are moved: the copies are appended to the generation \<open>g\<close>.\<close>

definition same_rest :: "gstore \<Rightarrow> gstore \<Rightarrow> bool" where
  "same_rest S S' \<longleftrightarrow> gs_limit S' = gs_limit S \<and> gs_wkdict S' = gs_wkdict S \<and> gs_fin S' = gs_fin S \<and> gs_mapLs S' = gs_mapLs S \<and> gs_status S' = gs_status S"

definition grown :: "gstore \<Rightarrow> nat \<Rightarrow> addr \<Rightarrow> (addr \<Rightarrow> addr option) \<Rightarrow> gstore \<Rightarrow> (addr \<Rightarrow> addr option) \<Rightarrow> gstore \<Rightarrow> bool" where
  "grown S0 g r m S m' S' \<longleftrightarrow> m \<subseteq>\<^sub>m m' \<and> same_rest S S' \<and>
     (\<exists>new. gs_roots S' = (gs_roots S)(g := gs_roots S g @ new) \<and> distinct new \<and> set new = ran m' - ran m \<and> length new + card (movable S0 g r - dom m') = card (movable S0 g r - dom m))"

lemma grown_refl [simp]: "grown S0 g r m S m S"
  unfolding grown_def same_rest_def by (auto intro!: exI [of _ "[]"])

lemma ran_mono: "m \<subseteq>\<^sub>m m' \<Longrightarrow> ran m \<subseteq> ran m'"
  unfolding map_le_def ran_def by (auto simp: dom_def) metis

lemma grown_trans:
  assumes "grown S0 g r m S m1 S1" and "grown S0 g r m1 S1 m2 S2"
  shows "grown S0 g r m S m2 S2"
proof -
  obtain n1 n2 where n: "gs_roots S1 = (gs_roots S)(g := gs_roots S g @ n1)" "set n1 = ran m1 - ran m" "gs_roots S2 = (gs_roots S1)(g := gs_roots S1 g @ n2)"
    "set n2 = ran m2 - ran m1" "length n1 + card (movable S0 g r - dom m1) = card (movable S0 g r - dom m)"
    "length n2 + card (movable S0 g r - dom m2) = card (movable S0 g r - dom m1)" "distinct n1" "distinct n2" using assms unfolding grown_def by blast
  have "m \<subseteq>\<^sub>m m1" "m1 \<subseteq>\<^sub>m m2" using assms by (auto simp: grown_def)
  then have "m \<subseteq>\<^sub>m m2" "set (n1 @ n2) = ran m2 - ran m" using n(2,4) ran_mono [of m m1] ran_mono [of m1 m2] by (auto intro: map_le_trans)
  moreover have "gs_roots S2 = (gs_roots S)(g := gs_roots S g @ n1 @ n2)" "distinct (n1 @ n2)" using n by auto
  moreover have "length (n1 @ n2) + card (movable S0 g r - dom m2) = card (movable S0 g r - dom m)" using n(5,6) by simp
  moreover have "same_rest S S2" using assms by (auto simp: grown_def same_rest_def)
  ultimately show ?thesis unfolding grown_def by blast
qed

text \<open>Moreover the flags of the blocks that stay are kept.\<close>

definition childish :: "addr \<Rightarrow> gstore \<Rightarrow> bool option" where
  "childish a S = map_option gb_childish (get_block a S)"

definition extends :: "gstore \<Rightarrow> nat \<Rightarrow> addr \<Rightarrow> (addr \<Rightarrow> addr option) \<Rightarrow> gstore \<Rightarrow> (addr \<Rightarrow> addr option) \<Rightarrow> gstore \<Rightarrow> bool" where
  "extends S0 g r m S m' S' \<longleftrightarrow> grown S0 g r m S m' S' \<and> (\<forall>a. a \<notin> movable S0 g r \<and> get_block a S0 \<noteq> None \<longrightarrow> childish a S' = childish a S)"

lemma extends_refl [simp]: "extends S0 g r m S m S"
  by (simp add: extends_def)

lemma extends_trans: "extends S0 g r m S m1 S1 \<Longrightarrow> extends S0 g r m1 S1 m2 S2 \<Longrightarrow> extends S0 g r m S m2 S2"
  unfolding extends_def using grown_trans by metis

lemma extends_le: "extends S0 g r m S m' S' \<Longrightarrow> m \<subseteq>\<^sub>m m'"
  by (simp add: extends_def grown_def)

lemma SIZEOF_pos: "x < x + SIZEOF_BLOCK n"
  by (simp add: SIZEOF_BLOCK_def)

lemma movable_finite:
  assumes "closed S0"
  shows "finite (movable S0 g r)"
proof (rule finite_subset)
  show "movable S0 g r \<subseteq> {..<gs_next S0}" using block_next [OF assms] by (auto simp: movable_def)
qed simp

text \<open>A block is moved.\<close>

lemma clone_copying:
  assumes "copying S0 g r m Dn S" and "closed S0" and "a \<in> movable S0 g r" and "m a = None" and "get_block a S0 = Some b" and "gb_label b \<noteq> REF_LABEL"
  defines "x \<equiv> gs_next S"
  obtains S' where "CloneBlock a g S = Some (x, S')" and "copying S0 g r (m(a \<mapsto> x)) Dn S'" and "gs_roots S' = (gs_roots S)(g := gs_roots S g @ [x])"
    and "gs_intgen S' = gs_intgen S" and "same_rest S S'" and "x \<notin> ran m" and "\<forall>c. c < gs_next S0 \<and> c \<noteq> a \<longrightarrow> gs_cells S' c = gs_cells S c"
proof -
  let ?C = "movable S0 g r" and ?m = "m(a \<mapsto> x)"
  let ?b = "\<lparr>gb_gen = header_gen g, gb_label = gb_label b, gb_mutable = gb_mutable b, gb_childish = False, gb_args = gb_args b\<rparr>"
  let ?S = "S\<lparr>gs_cells := (gs_cells S)(x \<mapsto> Block ?b, a \<mapsto> Moved x (gb_args b)), gs_next := x + SIZEOF_BLOCK (length (gb_args b)),
    gs_roots := (gs_roots S)(g := gs_roots S g @ [x])\<rparr>"
  have nx: "gs_next S0 \<le> x" "x < gs_next ?S" and a: "a < gs_next S0" "a < x"
    using assms(1) block_next [OF assms(2,5)] SIZEOF_pos by (auto simp: copying_def x_def)
  have "get_block a S = Some b" using copying_unmoved [OF assms(1,3,4)] assms(5) by (simp add: get_block_Some)
  then have clone: "CloneBlock a g S = Some (x, ?S)" by (simp add: CloneBlock_def gc_Alloc_def x_def)
  have old: "y < x" "get_block c S0 \<noteq> None" if "m c = Some y" for c y using copying_moved [OF assms(1) that] by (auto simp: x_def)
  then have fresh: "x \<notin> ran m" by (auto simp: ran_def)
  have mono: "m \<subseteq>\<^sub>m ?m" "dom ?m \<subseteq> ?C" using assms(3,4) copying_dom [OF assms(1)] by (auto simp: map_le_def)
  have nd: "(x, i) \<notin> Dn" for i using copying_scanned [OF assms(1,2)] fresh nx(1) by (metis not_le)
  have low: "c < gs_next S0" if "get_block c S0 \<noteq> None" for c using assms(2) that by (auto simp: closed_def get_block_Some)
  have "moved_ok S0 g ?C ?m Dn ?S"
    unfolding moved_ok_def
  proof (intro allI impI)
    fix c y assume c: "?m c = Some y"
    show "gs_next S0 \<le> y \<and> y < gs_next ?S \<and> (\<exists>b b'. get_block c S0 = Some b \<and> gb_label b \<noteq> REF_LABEL \<and> gs_cells ?S c = Some (Moved y (gb_args b)) \<and>
        get_block y ?S = Some b' \<and> gb_gen b' = header_gen g \<and> \<not> gb_childish b' \<and> same_block S0 ?C ?m Dn y b b')"
    proof (cases "c = a")
      case True
      then show ?thesis using c assms(5,6) nx a nd by (auto simp: get_block_Some same_block_def)
    next
      case False
      then have y: "m c = Some y" using c by simp
      obtain b1 b2 where b12: "get_block c S0 = Some b1" "gb_label b1 \<noteq> REF_LABEL" "gs_cells S c = Some (Moved y (gb_args b1))" "get_block y S = Some b2"
        "gb_gen b2 = header_gen g" "\<not> gb_childish b2" "same_block S0 ?C m Dn y b1 b2" "gs_next S0 \<le> y" using copying_moved [OF assms(1) y] .
      have "c < gs_next S0" "y < x" "y \<noteq> a" using low [of c] b12(1,8) old [OF y] a by auto
      then show ?thesis using b12 False nx same_block_mono [OF b12(7) mono] by (auto simp: get_block_Some)
    qed
  qed
  moreover have "inj_on ?m (dom ?m)" using assms(1) fresh unfolding copying_def inj_on_def ran_def by (auto split: if_splits)
  moreover have "unmoved_ok S0 ?C ?m ?S" using copying_unmoved [OF assms(1)] low nx(1) unfolding unmoved_ok_def movable_def by (fastforce split: if_splits)
  moreover have "old_ok S0 ?C ?m Dn ?S" unfolding old_ok_def
  proof (intro allI impI)
    fix c d assume c: "c \<notin> ?C \<and> get_block c S0 = Some d"
    obtain d' where d: "get_block c S = Some d'" "gb_gen d' = gb_gen d" "same_block S0 ?C m Dn c d d'" using copying_old [OF assms(1)] c by blast
    have "c \<noteq> a" "c \<noteq> x" using c assms(3) low [of c] nx(1) by auto
    then show "\<exists>d'. get_block c ?S = Some d' \<and> gb_gen d' = gb_gen d \<and> same_block S0 ?C ?m Dn c d d'"
      using d same_block_mono [OF d(3) mono] by (auto simp: get_block_Some)
  qed
  moreover have "source_ok S0 ?m ?S"
    using assms(1,4) nx(2) a(2) fresh unfolding copying_def source_ok_def by (auto simp: get_block_def x_def intro: less_trans)
  moreover have "scannable_args S0 g r ?m Dn" using assms(1) stands_mono [OF _ mono(1)] unfolding copying_def scannable_args_def by metis
  ultimately have "copying S0 g r ?m Dn ?S" using mono(2) nx unfolding copying_def by (intro conjI) (assumption | simp)+
  moreover have "\<forall>c. c < gs_next S0 \<and> c \<noteq> a \<longrightarrow> gs_cells ?S c = gs_cells S c" using nx(1) by simp
  ultimately show ?thesis using that clone fresh by (simp add: same_rest_def)
qed

text \<open>Forwarding a word that was found by dereferencing.\<close>

lemma forward_copying:
  assumes "copying S0 g r m Dn S" and "closed S0" and "target_ok S0 v" and "v' = v \<or> g \<le> 2 \<and> covered (movable S0 g r) m v \<and> v' = renamed m v" and "m r \<noteq> None"
  obtains m' S' where "FORWARD v' g S = Some (renamed m' v, S')" and "copying S0 g r m' Dn S'" and "covered (movable S0 g r) m' v" and "extends S0 g r m S m' S'"
    and "gs_intgen S' = gs_intgen S"
proof (cases "RemoveTag v")
  case None
  then obtain i where "v = IntW i" by (cases v) auto
  then show ?thesis using that [of m S] assms(1,4) by (auto simp: FORWARD_def covered_def)
next
  case (Some t)
  let ?C = "movable S0 g r"
  obtain b where b: "get_block t S0 = Some b" "gb_label b \<noteq> REF_LABEL" using assms(3) Some by (auto simp: target_ok_def)
  have ptr: "RemoveTag (retag v y) = Some y" "retag (retag v y) z = retag v z" for y z using Some by (cases v; simp)+
  consider (copy) x where "m t = Some x" "v' = retag v x" "g \<le> 2" | (moved) x where "m t = Some x" "v' = v" | (old) "m t = None" "t \<notin> ?C" "v' = v" | (new) "m t = None" "t \<in> ?C" "v' = v"
    using assms(4) Some by (cases "m t") (auto simp: renamed_def covered_def)
  then show ?thesis
  proof cases
    case copy
    then obtain b' where b': "get_block x S = Some b'" "gb_gen b' = header_gen g" using copying_moved [OF assms(1)] by metis
    then have "FORWARD v' g S = Some (v', S)" using copy ptr by (simp add: FORWARD_def ForwardBlock_def get_block_Some header_gen_def)
    then show ?thesis using that [of m S] copy Some assms(1) by (simp add: renamed_def covered_def)
  next
    case moved
    obtain as where "gs_cells S t = Some (Moved x as)" using copying_moved [OF assms(1) moved(1)] .
    then have "FORWARD v' g S = Some (retag v x, S)" using moved Some by (simp add: FORWARD_def ForwardBlock_def)
    then show ?thesis using that [of m S] moved Some assms(1) by (simp add: renamed_def covered_def)
  next
    case old
    obtain b' where "get_block t S = Some b'" "gb_gen b' = gb_gen b" using copying_old [OF assms(1) old(2) b(1)] .
    then have "FORWARD v' g S = Some (v, S)" using old Some b(1) by (auto simp: FORWARD_def ForwardBlock_def get_block_Some movable_def)
    then show ?thesis using that [of m S] old Some assms(1) by (simp add: renamed_def covered_def)
  next
    case new
    let ?x = "gs_next S"
    obtain S' where S': "CloneBlock t g S = Some (?x, S')" "copying S0 g r (m(t \<mapsto> ?x)) Dn S'" "gs_roots S' = (gs_roots S)(g := gs_roots S g @ [?x])"
      "gs_intgen S' = gs_intgen S" "same_rest S S'" "?x \<notin> ran m" "\<forall>c. c < gs_next S0 \<and> c \<noteq> t \<longrightarrow> gs_cells S' c = gs_cells S c" using clone_copying [OF assms(1,2) new(2,1) b] .
    have "gs_cells S t = Some (Block b)" using copying_unmoved [OF assms(1) new(2,1)] b(1) by (simp add: get_block_Some)
    moreover have "gb_gen b < g" using new(1,2) b(1) assms(5) by (auto simp: movable_def)
    ultimately have "FORWARD v' g S = Some (retag v ?x, S')" using new(3) Some S'(1) by (simp add: FORWARD_def ForwardBlock_def)
    moreover have "ran (m(t \<mapsto> ?x)) - ran m = {?x}" using new(1) S'(6) by auto
    moreover have dom: "?C - dom (m(t \<mapsto> ?x)) = ?C - dom m - {t}" by auto
    have "Suc (card (?C - dom (m(t \<mapsto> ?x)))) = card (?C - dom m)"
      unfolding dom by (rule card_Suc_Diff1) (use new movable_finite [OF assms(2)] in auto)
    moreover have "m \<subseteq>\<^sub>m m(t \<mapsto> ?x)" using new(1) by (auto simp: map_le_def)
    ultimately have "grown S0 g r m S (m(t \<mapsto> ?x)) S'" using S'(3,5) unfolding grown_def by (intro conjI exI [of _ "[?x]"]) simp_all
    moreover have "childish c S' = childish c S" if "c \<notin> ?C" "get_block c S0 \<noteq> None" for c
      using that S'(7) new(2) block_next [OF assms(2), of c] by (auto simp: childish_def get_block_def)
    ultimately have "extends S0 g r m S (m(t \<mapsto> ?x)) S'" by (simp add: extends_def)
    then show ?thesis using that [of "m(t \<mapsto> ?x)" S'] \<open>FORWARD v' g S = _\<close> Some S'(2,4) by (simp add: renamed_def covered_def)
  qed
qed

text \<open>An argument is written.\<close>

lemma init_arg_Some: "get_block p S = Some b \<Longrightarrow> i < length (gb_args b) \<Longrightarrow> init_arg p i w S = Some (put_block p (b\<lparr>gb_args := (gb_args b)[i := w]\<rparr>) S)"
  by (simp add: init_arg_def run_simps)

lemma get_put_block [simp]: "get_block a (put_block p b S) = (if a = p then Some b else get_block a S)"
  by (simp add: get_block_def put_block_def)

lemma cells_put_block: "gs_cells (put_block p b S) a = (if a = p then Some (Block b) else gs_cells S a)"
  by (simp add: put_block_def)

lemma put_block_fields [simp]: "gs_next (put_block p b S) = gs_next S" "gs_roots (put_block p b S) = gs_roots S" "gs_intgen (put_block p b S) = gs_intgen S"
  by (simp_all add: put_block_def)

lemma stands_block:
  assumes "copying S0 g r m Dn S" and "stands_for S0 g r m x a" and "get_block a S0 = Some b"
  obtains b' where "get_block x S = Some b'" and "same_block S0 (movable S0 g r) m Dn x b b'" and "gb_gen b' = (if a \<in> movable S0 g r then header_gen g else gb_gen b)"
proof (cases "m a")
  case (Some y)
  then have "x = y" "a \<in> movable S0 g r" using assms(2) copying_dom [OF assms(1)] by (auto simp: stands_for_def)
  then show ?thesis using copying_moved [OF assms(1) Some] assms(3) that by (metis option.inject)
next
  case None
  then have "x = a" "a \<notin> movable S0 g r" using assms(2) by (auto simp: stands_for_def)
  then show ?thesis using copying_old [OF assms(1) _ assms(3)] that by (metis (full_types))
qed

lemma stands_unique:
  assumes "copying S0 g r m Dn S" and "closed S0" and "stands_for S0 g r m x a" and "stands_for S0 g r m x c" and "get_block a S0 = Some b" and "get_block c S0 = Some d"
  shows "c = a"
proof -
  have "inj_on m (dom m)" using assms(1) by (simp add: copying_def)
  moreover have "gs_next S0 \<le> x" if "m y = Some x" for y using copying_moved [OF assms(1) that] .
  ultimately show ?thesis using assms(3,4) block_next [OF assms(2,5)] block_next [OF assms(2,6)] unfolding stands_for_def inj_on_def by (metis domI not_le)
qed

lemma same_block_other: "y \<noteq> x \<Longrightarrow> same_block S0 C m (insert (x, i) Dn) y b b' \<longleftrightarrow> same_block S0 C m Dn y b b'"
  by (simp add: same_block_def)

lemma same_block_write:
  "same_block S0 C m Dn x b b' \<Longrightarrow> i < length (gb_args b) \<Longrightarrow> forwarded S0 C m (gb_args b ! i) w \<Longrightarrow>
     same_block S0 C m (insert (x, i) Dn) x b (b'\<lparr>gb_args := (gb_args b')[i := w]\<rparr>)"
  by (auto simp: same_block_def nth_list_update)

lemma write_copying:
  assumes "copying S0 g r m Dn S" and "closed S0" and "stands_for S0 g r m x a" and "get_block a S0 = Some b" and "get_block x S = Some b'"
    and "i < length (gb_args b)" and "forwarded S0 (movable S0 g r) m (gb_args b ! i) w" and "cheney_size b = Some n" and "i < n"
  shows "copying S0 g r m (insert (x, i) Dn) (put_block x (b'\<lparr>gb_args := (gb_args b')[i := w]\<rparr>) S)"
proof -
  let ?C = "movable S0 g r" and ?D = "insert (x, i) Dn" and ?b = "b'\<lparr>gb_args := (gb_args b')[i := w]\<rparr>"
  let ?S = "put_block x ?b S"
  have same: "same_block S0 ?C m Dn x b b'" using stands_block [OF assms(1,3,4)] assms(5) by (metis option.inject)
  note upd = same_block_write [OF same assms(6,7)]
  have uniq: "c = a" if "stands_for S0 g r m x c" "get_block c S0 = Some d" for c d using stands_unique [OF assms(1-3) that(1) assms(4) that(2)] .
  have out: "x \<notin> ?C"
  proof
    assume "x \<in> ?C"
    then obtain d where "get_block x S0 = Some d" by (auto simp: movable_def)
    moreover have "gs_next S0 \<le> x" if "m a = Some x" using copying_moved [OF assms(1) that] .
    ultimately show False using assms(3) \<open>x \<in> ?C\<close> block_next [OF assms(2)] unfolding stands_for_def by (metis not_le)
  qed
  have "moved_ok S0 g ?C m ?D ?S" unfolding moved_ok_def
  proof (intro allI impI)
    fix c y assume c: "m c = Some y"
    obtain b1 b2 where b12: "get_block c S0 = Some b1" "gb_label b1 \<noteq> REF_LABEL" "gs_cells S c = Some (Moved y (gb_args b1))" "get_block y S = Some b2"
      "gb_gen b2 = header_gen g" "\<not> gb_childish b2" "same_block S0 ?C m Dn y b1 b2" "gs_next S0 \<le> y" "y < gs_next S" using copying_moved [OF assms(1) c] .
    have "c \<noteq> x" using c out copying_dom [OF assms(1)] by auto
    then have cell: "gs_cells ?S c = Some (Moved y (gb_args b1))" using b12(3) by (simp add: put_block_def)
    show "gs_next S0 \<le> y \<and> y < gs_next ?S \<and> (\<exists>b b'. get_block c S0 = Some b \<and> gb_label b \<noteq> REF_LABEL \<and> gs_cells ?S c = Some (Moved y (gb_args b)) \<and>
        get_block y ?S = Some b' \<and> gb_gen b' = header_gen g \<and> \<not> gb_childish b' \<and> same_block S0 ?C m ?D y b b')"
    proof (cases "y = x")
      case True
      then have "c = a" using uniq [of c b1] c b12(1) by (simp add: stands_for_def)
      then show ?thesis using True b12 cell upd assms(4,5) by auto
    next
      case False
      then show ?thesis using b12 cell same_block_other [OF False] by auto
    qed
  qed
  moreover have "unmoved_ok S0 ?C m ?S" using copying_unmoved [OF assms(1)] out by (auto simp: unmoved_ok_def put_block_def)
  moreover have "old_ok S0 ?C m ?D ?S" unfolding old_ok_def
  proof (intro allI impI)
    fix c d assume c: "c \<notin> ?C \<and> get_block c S0 = Some d"
    obtain d' where d: "get_block c S = Some d'" "gb_gen d' = gb_gen d" "same_block S0 ?C m Dn c d d'" using copying_old [OF assms(1)] c by blast
    show "\<exists>d'. get_block c ?S = Some d' \<and> gb_gen d' = gb_gen d \<and> same_block S0 ?C m ?D c d d'"
    proof (cases "c = x")
      case True
      then have "c = a" using uniq [of c d] c by (simp add: stands_for_def)
      then show ?thesis using True d upd assms(4,5) c by auto
    next
      case False
      then show ?thesis using d same_block_other [OF False] by auto
    qed
  qed
  moreover have "gs_cells S x \<noteq> None" using assms(5) by (simp add: get_block_Some)
  then have "x < gs_next S" using assms(1) unfolding copying_def source_ok_def by blast
  moreover have "source_ok S0 m ?S" using assms(1,5) \<open>x < gs_next S\<close> unfolding copying_def source_ok_def by (auto simp: cells_put_block)
  moreover have "scannable_args S0 g r m ?D" using assms(1,3,4,8,9) unfolding copying_def scannable_args_def by auto
  ultimately show ?thesis using assms(1) unfolding copying_def by (intro conjI) (assumption | simp)+
qed

text \<open>One argument is scanned.\<close>

lemma scan_arg:
  assumes "copying S0 g r m Dn S" and "closed S0" and "m r \<noteq> None" and "stands_for S0 g r m x a" and "get_block a S0 = Some b"
    and "i < length (gb_args b)" and "(x, i) \<notin> Dn" and "word_ok S0 (gb_args b ! i)" and "cheney_size b = Some n" and "i < n"
  obtains v item m' S1 S2 where "get_arg x i S = Some (gb_args b ! i)" and "GCHelper_Deref S (gb_args b ! i) = Some item" and "FORWARD item g S = Some (renamed m' v, S1)"
    and "init_arg x i (renamed m' v) S1 = Some S2" and "copying S0 g r m' (insert (x, i) Dn) S2" and "extends S0 g r m S m' S2" and "gs_intgen S2 = gs_intgen S"
    and "derefs S0 (gb_args b ! i) v" and "target_ok S0 v" and "covered (movable S0 g r) m' v" and "RemoveTag item = None \<longleftrightarrow> RemoveTag v = None" and "RemoveTag item = None \<Longrightarrow> item = renamed m' v \<and> S1 = S"
proof -
  let ?C = "movable S0 g r" and ?w = "gb_args b ! i"
  obtain v where v: "derefs S0 ?w v" "target_ok S0 v" using assms(8) by (auto simp: word_ok_def Deref_iff)
  obtain b' where b': "get_block x S = Some b'" "same_block S0 ?C m Dn x b b'" using stands_block [OF assms(1,4,5)] .
  have arg: "get_arg x i S = Some ?w" using b' assms(6,7) by (auto simp: get_arg_def same_block_def run_simps)
  obtain item where item: "derefs S ?w item" "item = v \<or> g \<le> 2 \<and> covered ?C m v \<and> item = renamed m v" using derefs_during [OF v(1) assms(1,2) v(2)] by blast
  obtain m' S1 where f: "FORWARD item g S = Some (renamed m' v, S1)" "copying S0 g r m' Dn S1" "covered ?C m' v" "extends S0 g r m S m' S1" "gs_intgen S1 = gs_intgen S"
    using forward_copying [OF assms(1,2) v(2) item(2) assms(3)] .
  have st: "stands_for S0 g r m' x a" using stands_mono [OF assms(4)] extends_le [OF f(4)] by simp
  obtain b1 where b1: "get_block x S1 = Some b1" "same_block S0 ?C m' Dn x b b1" using stands_block [OF f(2) st assms(5)] .
  let ?S2 = "put_block x (b1\<lparr>gb_args := (gb_args b1)[i := renamed m' v]\<rparr>) S1"
  have "init_arg x i (renamed m' v) S1 = Some ?S2" using b1 assms(6) by (intro init_arg_Some) (simp_all add: same_block_def)
  moreover have "forwarded S0 ?C m' ?w (renamed m' v)" using v(1) f(3) by (auto simp: forwarded_def)
  then have "copying S0 g r m' (insert (x, i) Dn) ?S2" using write_copying [OF f(2) assms(2) st assms(5) b1(1) assms(6) _ assms(9,10)] by blast
  moreover have "childish c ?S2 = childish c S1" for c using b1(1) by (simp add: childish_def)
  then have "extends S0 g r m S m' ?S2" using f(4) by (simp add: extends_def grown_def same_rest_def put_block_def)
  moreover have "RemoveTag item = None \<longleftrightarrow> RemoveTag v = None" using item(2) by (cases v) (auto split: option.splits)
  moreover have "item = renamed m' v \<and> S1 = S" if "RemoveTag item = None" using that f(1) by (simp add: FORWARD_def)
  ultimately show ?thesis using that [of item m' v S1 ?S2] arg item(1) f v by (simp add: Deref_iff)
qed


lemma scan_args_copying:
  assumes "copying S0 g r m Dn S" and "closed S0" and "m r \<noteq> None" and "stands_for S0 g r m x a" and "get_block a S0 = Some b"
    and "n \<le> length (gb_args b)" and "\<forall>i < n. (x, i) \<notin> Dn \<and> word_ok S0 (gb_args b ! i)" and "cheney_size b = Some N" and "n \<le> N"
  shows "\<exists>m' S'. scan_args n x g S = Some S' \<and> copying S0 g r m' (Dn \<union> {x} \<times> {..<n}) S' \<and> extends S0 g r m S m' S' \<and> gs_intgen S' = gs_intgen S"
  using assms
proof (induction n arbitrary: m Dn S)
  case 0
  then show ?case by auto
next
  case (Suc n)
  obtain v item m1 S1 S2 where 1: "get_arg x n S = Some (gb_args b ! n)" "GCHelper_Deref S (gb_args b ! n) = Some item" "FORWARD item g S = Some (renamed m1 v, S1)"
    "init_arg x n (renamed m1 v) S1 = Some S2" "copying S0 g r m1 (insert (x, n) Dn) S2" "extends S0 g r m S m1 S2" "gs_intgen S2 = gs_intgen S"
    using scan_arg [OF Suc.prems(1-5) _ _ _ Suc.prems(8), of n] Suc.prems(6,7,9) by (metis Suc_le_eq lessI)
  have le: "m \<subseteq>\<^sub>m m1" using 1(6) by (rule extends_le)
  have "m1 r \<noteq> None" using le Suc.prems(3) by (metis domIff map_le_def)
  from Suc.IH [OF 1(5) assms(2) this stands_mono [OF Suc.prems(4) le] assms(5)] Suc.prems(6-9)
  obtain m' S' where "scan_args n x g S2 = Some S'" "copying S0 g r m' (insert (x, n) Dn \<union> {x} \<times> {..<n}) S'" "extends S0 g r m1 S2 m' S'" "gs_intgen S' = gs_intgen S2" by auto
  moreover have "insert (x, n) Dn \<union> {x} \<times> {..<n} = Dn \<union> {x} \<times> {..<Suc n}" by auto
  ultimately show ?case using 1 extends_trans by (auto 4 3)
qed

section \<open>Scanning the copies\<close>

text \<open>The copies from the position \<open>k\<close> on are as they were copied, the others have been scanned.\<close>

definition scan_state :: "gstore \<Rightarrow> nat \<Rightarrow> nat \<Rightarrow> (addr \<Rightarrow> addr option) \<Rightarrow> (addr \<times> nat) set \<Rightarrow> gstore \<Rightarrow> bool" where
  "scan_state S0 g k m Dn S \<longleftrightarrow> k \<le> length (gs_roots S g) \<and> distinct (drop k (gs_roots S g)) \<and>
     (\<forall>x \<in> set (drop k (gs_roots S g)). x \<in> ran m \<and> (\<forall>i. (x, i) \<notin> Dn)) \<and>
     (\<forall>a x b n i. m a = Some x \<and> x \<notin> set (drop k (gs_roots S g)) \<and> get_block a S0 = Some b \<and> cheney_size b = Some n \<and> i < n \<longrightarrow> (x, i) \<in> Dn)"

lemma unscanned_block: "same_block S0 C m Dn x b b' \<Longrightarrow> (\<forall>i. (x, i) \<notin> Dn) \<Longrightarrow> cheney_size b' = cheney_size b"
proof -
  assume s: "same_block S0 C m Dn x b b'" "\<forall>i. (x, i) \<notin> Dn"
  then have "gb_args b' = gb_args b" by (intro nth_equalityI) (auto simp: same_block_def)
  then show ?thesis using s(1) by (simp add: cheney_size_def GetScanSize_def same_block_def)
qed

lemma closed_block:
  assumes "closed S" and "get_block a S = Some b"
  obtains n where "cheney_size b = Some n" and "n \<le> length (gb_args b)" and "\<forall>i < n. word_ok S (gb_args b ! i)"
  using assms unfolding closed_def by blast

lemma scan_next:
  assumes "scan_state S0 g k m Dn S" and "k < length (gs_roots S g)" and "gs_roots S g ! k = x" and "m a = Some x" and "get_block a S0 = Some b" and "cheney_size b = Some n"
    and "extends S0 g r m S m' S'" and "copying S0 g r m Dn S" and "copying S0 g r m' (Dn \<union> {x} \<times> {..<n}) S'" and "closed S0"
  shows "scan_state S0 g (Suc k) m' (Dn \<union> {x} \<times> {..<n}) S'"
proof -
  let ?R = "gs_roots S g" and ?D = "Dn \<union> {x} \<times> {..<n}"
  obtain new where new: "gs_roots S' g = ?R @ new" "distinct new" "set new = ran m' - ran m" "m \<subseteq>\<^sub>m m'" using assms(7) unfolding extends_def grown_def by auto
  have drop: "drop k ?R = x # drop (Suc k) ?R" "drop (Suc k) (gs_roots S' g) = drop (Suc k) ?R @ new" using assms(2,3) new(1) Cons_nth_drop_Suc [of k ?R] by auto
  have st: "distinct (x # drop (Suc k) ?R)" "\<forall>y \<in> set (x # drop (Suc k) ?R). y \<in> ran m \<and> (\<forall>i. (y, i) \<notin> Dn)"
    "\<And>c y d l i. m c = Some y \<Longrightarrow> y \<notin> set (x # drop (Suc k) ?R) \<Longrightarrow> get_block c S0 = Some d \<Longrightarrow> cheney_size d = Some l \<Longrightarrow> i < l \<Longrightarrow> (y, i) \<in> Dn"
    using assms(1) unfolding scan_state_def drop by blast+
  have fresh: "(y, i) \<notin> Dn" if y: "y \<in> set new" for y i
  proof -
    obtain c where "m' c = Some y" using y new(3) by (auto simp: ran_def)
    from copying_moved [OF assms(9) this] have "gs_next S0 \<le> y" .
    then show ?thesis using y new(3) copying_scanned [OF assms(8) assms(10), of y i] by auto
  qed
  have inj: "inj_on m' (dom m')" using assms(9) by (simp add: copying_def)
  have xr: "x \<in> ran m" using assms(4) by (auto simp: ran_def)
  have "(y, i) \<in> ?D" if h: "m' c = Some y" "y \<notin> set (drop (Suc k) ?R @ new)" "get_block c S0 = Some d" "cheney_size d = Some l" "i < l" for c y d l i
  proof -
    have "y \<in> ran m" using h(1,2) new(3) by (auto simp: ran_def)
    then obtain c' where c': "m c' = Some y" by (auto simp: ran_def)
    then have "m' c' = Some y" using new(4) by (metis domI map_le_def)
    then have c: "m c = Some y" using h(1) c' inj by (metis domI inj_on_def)
    show ?thesis
    proof (cases "y = x")
      case True
      then have "c = a" using c assms(4) assms(8) unfolding copying_def inj_on_def by (metis domI)
      then show ?thesis using h True assms(5,6) by simp
    qed (use st(3) [OF c _ h(3-5)] h(2) in auto)
  qed
  then have "\<forall>c y d l i. m' c = Some y \<and> y \<notin> set (drop (Suc k) (gs_roots S' g)) \<and> get_block c S0 = Some d \<and> cheney_size d = Some l \<and> i < l \<longrightarrow> (y, i) \<in> ?D"
    unfolding drop by blast
  moreover have "distinct (drop (Suc k) (gs_roots S' g))" using st(1,2) new(2,3) unfolding drop by auto
  moreover have "\<forall>y \<in> set (drop (Suc k) (gs_roots S' g)). y \<in> ran m' \<and> (\<forall>i. (y, i) \<notin> ?D)"
    using st(1,2) new(3) fresh ran_mono [OF new(4)] xr unfolding drop by auto
  moreover have "Suc k \<le> length (gs_roots S' g)" using assms(2) new(1) by simp
  ultimately show ?thesis unfolding scan_state_def by blast
qed

lemma cheney_copying:
  assumes "copying S0 g r m Dn S" and "closed S0" and "m r \<noteq> None" and "scan_state S0 g k m Dn S"
  shows "\<exists>m' Dn' S'. CheneyScan g k S = Some S' \<and> copying S0 g r m' Dn' S' \<and> extends S0 g r m S m' S' \<and> gs_intgen S' = gs_intgen S \<and>
    scan_state S0 g (length (gs_roots S' g)) m' Dn' S' \<and> Dn \<subseteq> Dn' \<and> (\<forall>x i. (x, i) \<in> Dn' \<longrightarrow> (x, i) \<in> Dn \<or> x \<in> ran m')"
  using assms
proof (induction "length (gs_roots S g) + card (movable S0 g r - dom m) - k" arbitrary: k m Dn S rule: less_induct)
  case less
  let ?R = "gs_roots S g"
  show ?case
  proof (cases "k < length ?R")
    case False
    then have "k = length ?R" using less.prems(4) by (simp add: scan_state_def)
    then show ?thesis using less.prems(1,4) by (intro exI [of _ m] exI [of _ Dn] exI [of _ S]) (simp add: CheneyScan.simps)
  next
    case True
    let ?x = "?R ! k"
    have "?x \<in> set (drop k ?R)" using True by (metis Cons_nth_drop_Suc list.set_intros(1))
    then have x: "?x \<in> ran m" "\<forall>i. (?x, i) \<notin> Dn" using less.prems(4) by (auto simp: scan_state_def)
    then obtain a where a: "m a = Some ?x" by (auto simp: ran_def)
    obtain b b' where b: "get_block a S0 = Some b" "get_block ?x S = Some b'" "same_block S0 (movable S0 g r) m Dn ?x b b'" using copying_moved [OF less.prems(1) a] .
    obtain n where n: "cheney_size b = Some n" "n \<le> length (gb_args b)" "\<forall>i < n. word_ok S0 (gb_args b ! i)" using closed_block [OF assms(2) b(1)] .
    have "stands_for S0 g r m ?x a" using a by (simp add: stands_for_def)
    from scan_args_copying [OF less.prems(1-3) this b(1) n(2) _ n(1)] x(2) n(3)
    obtain m1 S1 where 1: "scan_args n ?x g S = Some S1" "copying S0 g r m1 (Dn \<union> {?x} \<times> {..<n}) S1" "extends S0 g r m S m1 S1" "gs_intgen S1 = gs_intgen S" by blast
    have run: "CheneyScan g k S = CheneyScan g (Suc k) S1" using True b(2) unscanned_block [OF b(3) x(2)] n(1) 1(1) by (simp add: CheneyScan.simps [of g k S])
    have le: "m \<subseteq>\<^sub>m m1" using 1(3) by (rule extends_le)
    have r: "m1 r \<noteq> None" using le less.prems(3) by (metis domIff map_le_def)
    note sc = scan_next [OF less.prems(4) True refl a b(1) n(1) 1(3) less.prems(1) 1(2) assms(2)]
    have "length (gs_roots S1 g) + card (movable S0 g r - dom m1) - Suc k < length ?R + card (movable S0 g r - dom m) - k"
      using 1(3) True unfolding extends_def grown_def by auto
    from less.hyps [OF this 1(2) assms(2) r sc] obtain m' Dn' S' where 2: "CheneyScan g (Suc k) S1 = Some S'" "copying S0 g r m' Dn' S'" "extends S0 g r m1 S1 m' S'"
      "gs_intgen S' = gs_intgen S1" "scan_state S0 g (length (gs_roots S' g)) m' Dn' S'" "Dn \<union> {?x} \<times> {..<n} \<subseteq> Dn'"
      "\<forall>x i. (x, i) \<in> Dn' \<longrightarrow> (x, i) \<in> Dn \<union> {?x} \<times> {..<n} \<or> x \<in> ran m'" by blast
    have "m \<subseteq>\<^sub>m m'" using le extends_le [OF 2(3)] by (auto intro: map_le_trans)
    then have "?x \<in> ran m'" using x(1) ran_mono by blast
    then have "\<forall>x i. (x, i) \<in> Dn' \<longrightarrow> (x, i) \<in> Dn \<or> x \<in> ran m'" using 2(7) by blast
    then show ?thesis using run 2 1(4) extends_trans [OF 1(3) 2(3)] by (intro exI [of _ m'] exI [of _ Dn'] exI [of _ S']) auto
  qed
qed

section \<open>Old blocks with young pointers\<close>

text \<open>The word leads to a block younger than \<open>eg\<close>, once what can be moved is in the generation \<open>g\<close>.\<close>

definition younger :: "gstore \<Rightarrow> nat \<Rightarrow> addr \<Rightarrow> nat \<Rightarrow> store_word \<Rightarrow> bool" where
  "younger S0 g r eg w \<longleftrightarrow> (\<exists>v t b. derefs S0 w v \<and> RemoveTag v = Some t \<and> get_block t S0 = Some b \<and> (if t \<in> movable S0 g r then header_gen g else gb_gen b) < eg)"

lemma renamed_target:
  assumes "copying S0 g r m Dn S" and "target_ok S0 v" and "covered (movable S0 g r) m v" and "RemoveTag v = Some t"
  obtains x b b' where "RemoveTag (renamed m v) = Some x" and "stands_for S0 g r m x t" and "get_block t S0 = Some b" and "get_block x S = Some b'" and "gb_label b' \<noteq> REF_LABEL"
    and "gb_gen b' = (if t \<in> movable S0 g r then header_gen g else gb_gen b)"
proof -
  obtain b where b: "get_block t S0 = Some b" "gb_label b \<noteq> REF_LABEL" using assms(2,4) by (auto simp: target_ok_def)
  define x where "x = (case m t of None \<Rightarrow> t | Some y \<Rightarrow> y)"
  have "RemoveTag (renamed m v) = Some x" using assms(4) by (cases v) (auto simp: x_def split: option.splits)
  moreover have st: "stands_for S0 g r m x t" using assms(3,4) by (auto simp: stands_for_def covered_def x_def split: option.splits)
  moreover obtain b' where "get_block x S = Some b'" "same_block S0 (movable S0 g r) m Dn x b b'" "gb_gen b' = (if t \<in> movable S0 g r then header_gen g else gb_gen b)"
    using stands_block [OF assms(1) st b(1)] .
  ultimately show ?thesis using that b by (auto simp: same_block_def)
qed

lemma scan_entry_copying:
  assumes "copying S0 g r m Dn S" and "closed S0" and "m r \<noteq> None" and "stands_for S0 g r m x a" and "get_block a S0 = Some b" and "g = Suc gen"
    and "n \<le> length (gb_args b)" and "\<forall>i < n. (x, i) \<notin> Dn \<and> word_ok S0 (gb_args b ! i)" and "cheney_size b = Some N" and "n \<le> N"
  shows "\<exists>m' found' S'. scan_entry n x eg gen found S = Some (found', S') \<and> copying S0 g r m' (Dn \<union> {x} \<times> {..<n}) S' \<and> extends S0 g r m S m' S' \<and> gs_intgen S' = gs_intgen S \<and>
    (found \<or> (\<exists>i < n. younger S0 g r eg (gb_args b ! i)) \<longrightarrow> found')"
  using assms
proof (induction n arbitrary: m Dn S found)
  case 0
  then show ?case by auto
next
  case (Suc n)
  obtain v item m1 S1 S2 where 1: "get_arg x n S = Some (gb_args b ! n)" "GCHelper_Deref S (gb_args b ! n) = Some item" "FORWARD item g S = Some (renamed m1 v, S1)"
    "init_arg x n (renamed m1 v) S1 = Some S2" "copying S0 g r m1 (insert (x, n) Dn) S2" "extends S0 g r m S m1 S2" "gs_intgen S2 = gs_intgen S"
    "derefs S0 (gb_args b ! n) v" "target_ok S0 v" "covered (movable S0 g r) m1 v" "RemoveTag item = None \<longleftrightarrow> RemoveTag v = None"
    "RemoveTag item = None \<Longrightarrow> item = renamed m1 v \<and> S1 = S"
    using scan_arg [OF Suc.prems(1-5) _ _ _ Suc.prems(9), of n] Suc.prems(7,8,10) by (metis Suc_le_eq lessI)
  have le: "m \<subseteq>\<^sub>m m1" using 1(6) by (rule extends_le)
  have r: "m1 r \<noteq> None" using le Suc.prems(3) by (metis domIff map_le_def)
  have set: "insert (x, n) Dn \<union> {x} \<times> {..<n} = Dn \<union> {x} \<times> {..<Suc n}" by auto
  have "\<exists>f. scan_entry (Suc n) x eg gen found S = scan_entry n x eg gen f S2 \<and> (found \<or> younger S0 g r eg (gb_args b ! n) \<longrightarrow> f)"
  proof (cases "RemoveTag v")
    case None
    then have "\<not> younger S0 g r eg (gb_args b ! n)" using derefs_unique [OF 1(8)] by (auto simp: younger_def)
    then show ?thesis using None 1 by (intro exI [of _ found]) simp
  next
    case (Some t)
    obtain y bt b' where y: "RemoveTag (renamed m1 v) = Some y" "get_block t S0 = Some bt" "get_block y S2 = Some b'" "gb_gen b' = (if t \<in> movable S0 g r then header_gen g else gb_gen bt)"
      using renamed_target [OF 1(5,9,10) Some] .
    have "younger S0 g r eg (gb_args b ! n) \<longrightarrow> gb_gen b' < eg" using derefs_unique [OF 1(8)] Some y(2,4) by (auto simp: younger_def)
    moreover have "ForwardBlock item g S = Some (renamed m1 v, S1)" using 1(3,11) Some by (simp add: FORWARD_def)
    ultimately show ?thesis using 1(1,2,4,11) Some y(1,3) Suc.prems(6) by (intro exI [of _ "found \<or> gb_gen b' < eg"]) auto
  qed
  then obtain f where f: "scan_entry (Suc n) x eg gen found S = scan_entry n x eg gen f S2" "found \<or> younger S0 g r eg (gb_args b ! n) \<longrightarrow> f" by blast
  from Suc.IH [OF 1(5) assms(2) r stands_mono [OF Suc.prems(4) le] assms(5,6), of f] Suc.prems(7-10)
  obtain m' f' S' where 2: "scan_entry n x eg gen f S2 = Some (f', S')" "copying S0 g r m' (insert (x, n) Dn \<union> {x} \<times> {..<n}) S'" "extends S0 g r m1 S2 m' S'"
    "gs_intgen S' = gs_intgen S2" "f \<or> (\<exists>i < n. younger S0 g r eg (gb_args b ! i)) \<longrightarrow> f'" by auto
  have "found \<or> (\<exists>i < Suc n. younger S0 g r eg (gb_args b ! i)) \<longrightarrow> f'" using f(2) 2(5) by (auto simp: less_Suc_eq)
  then show ?case using f(1) 2 1(7) extends_trans [OF 1(6) 2(3)] unfolding set by auto
qed

end
