(* ===== verification/Collector_Props.thy ===== *)
theory Collector_Props
  imports Collector_Inv
begin

text \<open>
  A collection preserves the heap: it ends, the graph that can be reached is the same up to the addresses of the moved blocks and
  references that were followed, no pointer leads to the released generations, and the set of old blocks with young pointers is
  complete again.
\<close>

section \<open>The set of old blocks with young pointers\<close>

lemma copying_fields [simp]:
  "copying S0 g r m Dn (S\<lparr>gs_intgen := es\<rparr>) = copying S0 g r m Dn S"
  by (simp add: copying_def moved_ok_def unmoved_ok_def old_ok_def source_ok_def get_block_def)

lemma grown_intgen [simp]: "grown S0 g r m S m' (S'\<lparr>gs_intgen := es\<rparr>) = grown S0 g r m S m' S'"
  by (simp add: grown_def same_rest_def)

lemma childish_intgen [simp]: "childish a (S\<lparr>gs_intgen := es\<rparr>) = childish a S"
  by (simp add: childish_def get_block_def)

lemma clear_noop: "get_block p S = Some b \<Longrightarrow> \<not> gb_childish b \<Longrightarrow> ClearChildishFlag p S = Some S"
proof -
  assume b: "get_block p S = Some b" "\<not> gb_childish b"
  have "b\<lparr>gb_childish := False\<rparr> = b" using b(2) by simp
  moreover have "gs_cells S p = Some (Block b)" using b(1) by (simp add: get_block_Some)
  ultimately show ?thesis using b(1) by (simp add: ClearChildishFlag_def put_block_def fun_upd_idem)
qed

text \<open>The flag of a block that stays is cleared.\<close>

lemma clear_copying:
  assumes "copying S0 g r m Dn S" and "closed S0" and "e \<notin> movable S0 g r" and "get_block e S0 = Some b"
  obtains S' where "ClearChildishFlag e S = Some S'" and "copying S0 g r m Dn S'" and "grown S0 g r m S m S'" and "gs_intgen S' = gs_intgen S"
    and "childish e S' = Some False" and "\<forall>a. a \<noteq> e \<longrightarrow> childish a S' = childish a S"
proof -
  let ?C = "movable S0 g r"
  obtain b' where b': "get_block e S = Some b'" "gb_gen b' = gb_gen b" "same_block S0 ?C m Dn e b b'" using copying_old [OF assms(1,3,4)] .
  let ?S = "put_block e (b'\<lparr>gb_childish := False\<rparr>) S"
  have ran: "e \<notin> ran m"
  proof
    assume "e \<in> ran m"
    then obtain a where "m a = Some e" by (auto simp: ran_def)
    from copying_moved [OF assms(1) this] have "gs_next S0 \<le> e" .
    then show False using block_next [OF assms(2,4)] by simp
  qed
  have "moved_ok S0 g ?C m Dn ?S" unfolding moved_ok_def
  proof (intro allI impI)
    fix c y assume c: "m c = Some y"
    have "y \<noteq> e" "c \<noteq> e" using c ran assms(3) copying_dom [OF assms(1)] by (auto simp: ran_def)
    then show "gs_next S0 \<le> y \<and> y < gs_next ?S \<and> (\<exists>b b'. get_block c S0 = Some b \<and> gb_label b \<noteq> REF_LABEL \<and> gs_cells ?S c = Some (Moved y (gb_args b)) \<and>
        get_block y ?S = Some b' \<and> gb_gen b' = header_gen g \<and> \<not> gb_childish b' \<and> same_block S0 ?C m Dn y b b')"
      using copying_moved [OF assms(1) c] by (simp add: cells_put_block) metis
  qed
  moreover have "unmoved_ok S0 ?C m ?S" using copying_unmoved [OF assms(1)] assms(3) by (auto simp: unmoved_ok_def cells_put_block)
  moreover have "old_ok S0 ?C m Dn ?S" using assms(1,4) b' unfolding copying_def old_ok_def by (auto simp: same_block_def)
  moreover have "gs_cells S e \<noteq> None" using b'(1) by (simp add: get_block_Some)
  then have "source_ok S0 m ?S" using assms(1,4) unfolding copying_def source_ok_def by (auto simp: cells_put_block)
  ultimately have "copying S0 g r m Dn ?S" using assms(1) unfolding copying_def by (intro conjI) (assumption | simp)+
  moreover have "grown S0 g r m S m ?S" by (auto simp: grown_def same_rest_def put_block_def intro!: exI [of _ "[]"])
  ultimately show ?thesis using that b'(1) by (simp add: ClearChildishFlag_def childish_def)
qed

definition scannable :: "gstore \<Rightarrow> addr \<Rightarrow> bool" where
  "scannable S e \<longleftrightarrow> (\<exists>b. get_block e S = Some b \<and> (gb_label b < CHUNK_LABEL \<or> gb_label b = DYNAMIC_LABEL))"

text \<open>The outcome of scanning the entries \<open>es\<close>: \<open>ks\<close> are kept in the set.\<close>

definition entries_done :: "gstore \<Rightarrow> nat \<Rightarrow> addr \<Rightarrow> addr list \<Rightarrow> addr list \<Rightarrow> (addr \<times> nat) set \<Rightarrow> (addr \<times> nat) set \<Rightarrow> gstore \<Rightarrow> gstore \<Rightarrow> bool" where
  "entries_done S0 g r es ks Dn Dn' S S' \<longleftrightarrow> gs_intgen S' = gs_intgen S @ ks \<and> set ks \<subseteq> set es - movable S0 g r \<and> distinct ks \<and> Dn \<subseteq> Dn' \<and>
     (\<forall>x i. (x, i) \<in> Dn' \<longrightarrow> (x, i) \<in> Dn \<or> x \<in> set es) \<and>
     (\<forall>e b n i. e \<in> set es - movable S0 g r \<and> get_block e S0 = Some b \<and> cheney_size b = Some n \<and> i < n \<longrightarrow>
        (e, i) \<in> Dn' \<and> (younger S0 g r (gb_gen b) (gb_args b ! i) \<longrightarrow> e \<in> set ks)) \<and>
     (\<forall>a. a \<notin> movable S0 g r \<and> get_block a S0 \<noteq> None \<longrightarrow> childish a S' = (if a \<in> set es - set ks then Some False else childish a S))"

lemma entries_skip:
  "e \<in> movable S0 g r \<Longrightarrow> entries_done S0 g r es ks Dn Dn' S S' \<Longrightarrow> entries_done S0 g r (e # es) ks Dn Dn' S S'"
  unfolding entries_done_def by auto

text \<open>One entry that stays.\<close>

lemma entry_copying:
  assumes "copying S0 g r m Dn S" and "closed S0" and "m r \<noteq> None" and "g = Suc gen" and "e \<notin> movable S0 g r" and "scannable S0 e" and "\<forall>i. (e, i) \<notin> Dn"
  shows "\<exists>m' Dn' ks S'. handle_entries (e # es) gen S = handle_entries es gen S' \<and> copying S0 g r m' Dn' S' \<and> grown S0 g r m S m' S' \<and> entries_done S0 g r [e] ks Dn Dn' S S'"
proof -
  let ?C = "movable S0 g r"
  obtain b where b: "get_block e S0 = Some b" "gb_label b < CHUNK_LABEL \<or> gb_label b = DYNAMIC_LABEL" using assms(6) by (auto simp: scannable_def)
  obtain b' where b': "get_block e S = Some b'" "gb_gen b' = gb_gen b" "same_block S0 ?C m Dn e b b'" using copying_old [OF assms(1,5) b(1)] .
  obtain n where n: "cheney_size b = Some n" "n \<le> length (gb_args b)" "\<forall>i < n. word_ok S0 (gb_args b ! i)" using closed_block [OF assms(2) b(1)] .
  have size: "(if gb_label b' = DYNAMIC_LABEL then GetScanSize b' else Some (length (gb_args b'))) = Some n"
    using unscanned_block [OF b'(3) assms(7)] n(1) b(2) b'(3) by (auto simp: cheney_size_def same_block_def split: if_splits)
  have "stands_for S0 g r m e e" using assms(5) by (simp add: stands_for_def)
  from scan_entry_copying [OF assms(1-3) this b(1) assms(4) n(2) _ n(1), of "gb_gen b" False] n(3) assms(7)
  obtain m1 found S1 where 1: "scan_entry n e (gb_gen b) gen False S = Some (found, S1)" "copying S0 g r m1 (Dn \<union> {e} \<times> {..<n}) S1" "extends S0 g r m S m1 S1"
    "gs_intgen S1 = gs_intgen S" "(\<exists>i < n. younger S0 g r (gb_gen b) (gb_args b ! i)) \<longrightarrow> found" by blast
  have cell: "gs_cells S e = Some (Block b')" "gen < gb_gen b'" using b' old_gen [OF assms(5) b(1)] assms(4) by (auto simp: get_block_Some)
  have flags: "\<forall>a. a \<notin> ?C \<and> get_block a S0 \<noteq> None \<longrightarrow> childish a S1 = childish a S" using 1(3) by (simp add: extends_def)
  show ?thesis
  proof (cases found)
    case True
    have "handle_entries (e # es) gen S = handle_entries es gen (S1\<lparr>gs_intgen := gs_intgen S1 @ [e]\<rparr>)" using cell size 1(1) True b'(2) by simp
    moreover have "entries_done S0 g r [e] [e] Dn (Dn \<union> {e} \<times> {..<n}) S (S1\<lparr>gs_intgen := gs_intgen S1 @ [e]\<rparr>)"
      using 1(4) b(1) n(1) flags assms(5) by (auto simp: entries_done_def)
    moreover have "grown S0 g r m S m1 S1" using 1(3) by (simp add: extends_def)
    ultimately show ?thesis using 1(2) by (metis copying_fields grown_intgen)
  next
    case False
    obtain S2 where S2: "ClearChildishFlag e S1 = Some S2" "copying S0 g r m1 (Dn \<union> {e} \<times> {..<n}) S2" "grown S0 g r m1 S1 m1 S2" "gs_intgen S2 = gs_intgen S1"
      "childish e S2 = Some False" "\<forall>a. a \<noteq> e \<longrightarrow> childish a S2 = childish a S1" using clear_copying [OF 1(2) assms(2,5) b(1)] .
    have "handle_entries (e # es) gen S = handle_entries es gen S2" using cell size 1(1) False b'(2) S2(1) by simp
    moreover have "entries_done S0 g r [e] [] Dn (Dn \<union> {e} \<times> {..<n}) S S2"
      using 1(4,5) b(1) n(1) flags S2(4-6) False by (auto simp: entries_done_def)
    moreover have "grown S0 g r m S m1 S2" using 1(3) S2(3) grown_trans by (auto simp: extends_def)
    ultimately show ?thesis using S2(2) by metis
  qed
qed

lemma entries_append:
  assumes "entries_done S0 g r [e] ks Dn Dn1 S S1" and "entries_done S0 g r es ks' Dn1 Dn' S1 S'" and "e \<notin> set es"
  shows "entries_done S0 g r (e # es) (ks @ ks') Dn Dn' S S'"
proof -
  note a = assms(1) [unfolded entries_done_def] and b = assms(2) [unfolded entries_done_def]
  have f: "gs_intgen S1 = gs_intgen S @ ks" "set ks \<subseteq> set [e] - movable S0 g r" "distinct ks" "Dn \<subseteq> Dn1"
    "gs_intgen S' = gs_intgen S1 @ ks'" "set ks' \<subseteq> set es - movable S0 g r" "distinct ks'" "Dn1 \<subseteq> Dn'" using a b by blast+
  have sub: "set ks \<subseteq> {e}" "set ks' \<subseteq> set es" "Dn1 \<subseteq> Dn'" using f by auto
  have "gs_intgen S' = gs_intgen S @ (ks @ ks')" using f by simp
  moreover have "set (ks @ ks') \<subseteq> set (e # es) - movable S0 g r" using f(2,6) by auto
  moreover have "distinct (ks @ ks')" using f(3,7) assms(3) sub by auto
  moreover have "Dn \<subseteq> Dn'" using f by blast
  moreover have "(x, i) \<in> Dn \<or> x \<in> set (e # es)" if "(x, i) \<in> Dn'" for x i
  proof -
    have "(x, i) \<in> Dn1 \<or> x \<in> set es" using b that by blast
    moreover have "(x, i) \<in> Dn1 \<longrightarrow> (x, i) \<in> Dn \<or> x \<in> set [e]" using a by blast
    ultimately show ?thesis by auto
  qed
  moreover have "(c, i) \<in> Dn' \<and> (younger S0 g r (gb_gen d) (gb_args d ! i) \<longrightarrow> c \<in> set (ks @ ks'))"
    if c: "c \<in> set (e # es) - movable S0 g r" "get_block c S0 = Some d" "cheney_size d = Some n" "i < n" for c d n i
  proof (cases "c = e")
    case True
    then have "(c, i) \<in> Dn1 \<and> (younger S0 g r (gb_gen d) (gb_args d ! i) \<longrightarrow> c \<in> set ks)" using a c by auto
    then show ?thesis using sub(3) by auto
  next
    case False
    then have "(c, i) \<in> Dn' \<and> (younger S0 g r (gb_gen d) (gb_args d ! i) \<longrightarrow> c \<in> set ks')" using b c by auto
    then show ?thesis by auto
  qed
  moreover have "childish c S' = (if c \<in> set (e # es) - set (ks @ ks') then Some False else childish c S)" if c: "c \<notin> movable S0 g r" "get_block c S0 \<noteq> None" for c
  proof -
    have "childish c S' = (if c \<in> set es - set ks' then Some False else childish c S1)" "childish c S1 = (if c \<in> set [e] - set ks then Some False else childish c S)"
      using a b c by blast+
    then show ?thesis using sub(1,2) assms(3) by auto
  qed
  ultimately show ?thesis unfolding entries_done_def by blast
qed

lemma handle_entries_copying:
  assumes "copying S0 g r m Dn S" and "closed S0" and "m r \<noteq> None" and "g = Suc gen" and "distinct es" and "\<forall>e \<in> set es. scannable S0 e"
    and "\<forall>e \<in> set es - movable S0 g r. \<forall>i. (e, i) \<notin> Dn"
  shows "\<exists>m' Dn' ks S'. handle_entries es gen S = Some S' \<and> copying S0 g r m' Dn' S' \<and> grown S0 g r m S m' S' \<and> entries_done S0 g r es ks Dn Dn' S S'"
  using assms
proof (induction es arbitrary: m Dn S)
  case Nil
  have "entries_done S0 g r [] [] Dn Dn S S" by (simp add: entries_done_def)
  then show ?case using Nil by (intro exI [of _ m] exI [of _ Dn] exI [of _ "[]"] exI [of _ S]) simp
next
  case (Cons e es)
  let ?C = "movable S0 g r"
  show ?case
  proof (cases "e \<in> ?C")
    case False
    obtain m1 Dn1 ks S1 where 1: "handle_entries (e # es) gen S = handle_entries es gen S1" "copying S0 g r m1 Dn1 S1" "grown S0 g r m S m1 S1" "entries_done S0 g r [e] ks Dn Dn1 S S1"
      using entry_copying [OF Cons.prems(1-4) False, of es] Cons.prems(6,7) False by auto
    have "m1 r \<noteq> None" using 1(3) Cons.prems(3) unfolding grown_def by (metis domIff map_le_def)
    moreover have "\<forall>c \<in> set es - ?C. \<forall>i. (c, i) \<notin> Dn1"
    proof (intro ballI allI notI)
      fix c i assume c: "c \<in> set es - ?C" "(c, i) \<in> Dn1"
      then have "(c, i) \<in> Dn \<or> c = e" using 1(4) by (auto simp: entries_done_def)
      then show False using Cons.prems(5,7) c by auto
    qed
    ultimately obtain m' Dn' ks' S' where 2: "handle_entries es gen S1 = Some S'" "copying S0 g r m' Dn' S'" "grown S0 g r m1 S1 m' S'" "entries_done S0 g r es ks' Dn1 Dn' S1 S'"
      using Cons.IH [OF 1(2) assms(2) _ assms(4)] Cons.prems(5,6) by auto
    then show ?thesis using 1(1) grown_trans [OF 1(3) 2(3)] entries_append [OF 1(4) 2(4)] Cons.prems(5) by auto
  next
    case True
    have "handle_entries (e # es) gen S = handle_entries es gen S"
    proof (cases "m e")
      case (Some x)
      obtain as b' where "gs_cells S e = Some (Moved x as)" "get_block x S = Some b'" "\<not> gb_childish b'" using copying_moved [OF Cons.prems(1) Some] by metis
      then show ?thesis using clear_noop by simp
    next
      case None
      then have "e \<noteq> r" using Cons.prems(3) by auto
      then obtain b where b: "get_block e S0 = Some b" "gb_gen b < g" using True by (auto simp: movable_def)
      then have "gs_cells S e = Some (Block b)" using copying_unmoved [OF Cons.prems(1) True None] by (simp add: get_block_Some)
      then show ?thesis using b(2) assms(4) by simp
    qed
    moreover obtain m' Dn' ks S' where "handle_entries es gen S = Some S'" "copying S0 g r m' Dn' S'" "grown S0 g r m S m' S'" "entries_done S0 g r es ks Dn Dn' S S'"
      using Cons.IH [OF Cons.prems(1) assms(2) Cons.prems(3) assms(4)] Cons.prems(5-7) by auto
    ultimately show ?thesis using entries_skip [OF True] by metis
  qed
qed

section \<open>A collection\<close>

lemma copying_start: "closed S0 \<Longrightarrow> copying S0 g r Map.empty {} S0"
  by (auto simp: copying_def moved_ok_def unmoved_ok_def old_ok_def source_ok_def scannable_args_def same_block_def closed_def)

text \<open>The copies that were made for the entries wait to be scanned.\<close>

lemma scan_state_entries:
  assumes "scan_state S0 g (length (gs_roots S g)) m Dn S" and "copying S0 g r m Dn S" and "copying S0 g r m' Dn' S'" and "grown S0 g r m S m' S'" and "closed S0"
    and "Dn \<subseteq> Dn'" and "\<forall>x i. (x, i) \<in> Dn' \<longrightarrow> (x, i) \<in> Dn \<or> x < gs_next S0"
  shows "scan_state S0 g (length (gs_roots S g)) m' Dn' S'"
proof -
  obtain new where new: "gs_roots S' g = gs_roots S g @ new" "distinct new" "set new = ran m' - ran m" "m \<subseteq>\<^sub>m m'" using assms(4) unfolding grown_def by auto
  have inj: "inj_on m' (dom m')" using assms(3) by (simp add: copying_def)
  have "(x, i) \<notin> Dn'" if x: "x \<in> set new" for x i
  proof -
    obtain c where "m' c = Some x" using x new(3) by (auto simp: ran_def)
    from copying_moved [OF assms(3) this] have "gs_next S0 \<le> x" .
    then show ?thesis using x new(3) copying_scanned [OF assms(2,5), of x i] assms(7) by (metis DiffD2 not_le)
  qed
  moreover have "(x, i) \<in> Dn'" if h: "m' a = Some x" "x \<notin> set new" "get_block a S0 = Some b" "cheney_size b = Some n" "i < n" for a x b n i
  proof -
    have "x \<in> ran m" using h(1,2) new(3) by (auto simp: ran_def)
    then obtain c where c: "m c = Some x" by (auto simp: ran_def)
    then have "m' c = Some x" using new(4) by (metis domI map_le_def)
    then have "m a = Some x" using h(1) c inj by (metis domI inj_on_def)
    then have "(x, i) \<in> Dn" using assms(1) h(3-5) unfolding scan_state_def by auto
    then show ?thesis using assms(6) by blast
  qed
  ultimately show ?thesis using new unfolding scan_state_def by auto
qed

text \<open>The heap after a collection, before anything is released.\<close>

definition collected :: "gstore \<Rightarrow> nat \<Rightarrow> addr \<Rightarrow> (addr \<Rightarrow> addr option) \<Rightarrow> (addr \<times> nat) set \<Rightarrow> gstore \<Rightarrow> bool" where
  "collected S0 g r m Dn S \<longleftrightarrow> copying S0 g r m Dn S \<and> grown S0 g r Map.empty S0 m S \<and>
     (\<forall>a x b n i. m a = Some x \<and> get_block a S0 = Some b \<and> cheney_size b = Some n \<and> i < n \<longrightarrow> (x, i) \<in> Dn) \<and>
     (\<forall>e b n i. e \<in> set (gs_intgen S0) - movable S0 g r \<and> get_block e S0 = Some b \<and> cheney_size b = Some n \<and> i < n \<longrightarrow>
        (e, i) \<in> Dn \<and> (younger S0 g r (gb_gen b) (gb_args b ! i) \<longrightarrow> e \<in> set (gs_intgen S))) \<and>
     (\<forall>x i. (x, i) \<in> Dn \<longrightarrow> x \<in> ran m \<or> x \<in> set (gs_intgen S0)) \<and>
     set (gs_intgen S) \<subseteq> set (gs_intgen S0) - movable S0 g r \<and> distinct (gs_intgen S) \<and>
     (\<forall>a. a \<notin> movable S0 g r \<and> get_block a S0 \<noteq> None \<longrightarrow>
        childish a S = (if a \<in> set (gs_intgen S0) - set (gs_intgen S) then Some False else childish a S0))"

lemma grown_start: "grown S0 g r m S m' S' \<Longrightarrow> gs_wkdict S' = gs_wkdict S \<and> gs_mapLs S' = gs_mapLs S"
  by (simp add: grown_def same_rest_def)

lemma GC_collected:
  assumes "heap_inv S0" and "get_block r S0 = Some b" and "gb_label b \<noteq> REF_LABEL" and "gs_wkdict S0 = []" and "gs_mapLs S0 = IntW 0" and "g = Suc gen"
  shows "\<exists>m Dn x S. Store_GC (BlkW r) g S0 = Some (BlkW x, S) \<and> m r = Some x \<and> collected S0 g r m Dn S"
proof -
  let ?C = "movable S0 g r" and ?es = "gs_intgen S0"
  have closed: "closed S0" and barrier: "barrier S0" using assms(1) by (auto simp: heap_inv_def)
  have r: "r \<in> ?C" using assms(2) by (simp add: movable_def)
  let ?x = "gs_next S0" and ?k = "length (gs_roots S0 g)"
  obtain S1 where 1: "CloneBlock r g S0 = Some (?x, S1)" "copying S0 g r [r \<mapsto> ?x] {} S1" "gs_roots S1 = (gs_roots S0)(g := gs_roots S0 g @ [?x])"
    "gs_intgen S1 = ?es" "same_rest S0 S1" "\<forall>c. c < gs_next S0 \<and> c \<noteq> r \<longrightarrow> gs_cells S1 c = gs_cells S0 c"
    using clone_copying [OF copying_start [OF closed] closed r _ assms(2,3)] by auto
  have "card ?C = Suc (card (?C - {r}))" using card_Suc_Diff1 [OF movable_finite [OF closed] r] by simp
  then have g1: "grown S0 g r Map.empty S0 [r \<mapsto> ?x] S1" using 1(3,5) unfolding grown_def by (intro conjI exI [of _ "[?x]"]) (simp_all add: map_le_def)
  have f1: "childish a S1 = childish a S0" if "a \<notin> ?C" "get_block a S0 \<noteq> None" for a
    using that 1(6) r block_next [OF closed, of a] by (auto simp: childish_def get_block_def)
  have "scan_state S0 g ?k [r \<mapsto> ?x] {} S1" using 1(3) by (auto simp: scan_state_def split: if_splits)
  from cheney_copying [OF 1(2) closed _ this] obtain m2 Dn2 S2 where 2: "CheneyScan g ?k S1 = Some S2" "copying S0 g r m2 Dn2 S2" "extends S0 g r [r \<mapsto> ?x] S1 m2 S2"
    "gs_intgen S2 = ?es" "scan_state S0 g (length (gs_roots S2 g)) m2 Dn2 S2" "\<forall>x i. (x, i) \<in> Dn2 \<longrightarrow> x \<in> ran m2" using 1(4) by auto
  have m2: "m2 r = Some ?x" using extends_le [OF 2(3)] by (simp add: map_le_def)
  have es: "distinct ?es" "\<forall>e \<in> set ?es. scannable S0 e" "\<forall>e \<in> set ?es. e < gs_next S0"
    using barrier closed by (auto simp: barrier_def scannable_def closed_def get_block_Some)
  have "\<forall>e \<in> set ?es - ?C. \<forall>i. (e, i) \<notin> Dn2"
  proof (intro ballI allI notI)
    fix e i assume e: "e \<in> set ?es - ?C" "(e, i) \<in> Dn2"
    then obtain a where "m2 a = Some e" using 2(6) by (auto simp: ran_def)
    from copying_moved [OF 2(2) this] have "gs_next S0 \<le> e" .
    then show False using es(3) e(1) by auto
  qed
  then obtain m3 Dn3 ks S3 where 3: "handle_entries ?es gen (S2\<lparr>gs_intgen := []\<rparr>) = Some S3" "copying S0 g r m3 Dn3 S3" "grown S0 g r m2 (S2\<lparr>gs_intgen := []\<rparr>) m3 S3"
    "entries_done S0 g r ?es ks Dn2 Dn3 (S2\<lparr>gs_intgen := []\<rparr>) S3"
    using handle_entries_copying [of S0 g r m2 Dn2 "S2\<lparr>gs_intgen := []\<rparr>" gen ?es] 2(2) closed m2 assms(6) es(1,2) by auto
  have H: "HandleInterGenerationalPointers gen S2 = Some S3" using 3(1) 2(4) by (simp add: HandleInterGenerationalPointers_def)
  have g3: "grown S0 g r m2 S2 m3 S3" using 3(3) by (simp add: grown_def same_rest_def)
  have m3: "m3 r = Some ?x" using g3 m2 by (metis domI grown_def map_le_def)
  note e3 = 3(4) [unfolded entries_done_def]
  have "scan_state S0 g (length (gs_roots S2 g)) m3 Dn3 S3"
  proof (rule scan_state_entries [OF 2(5,2) 3(2) g3 closed])
    show "Dn2 \<subseteq> Dn3" using e3 by blast
    show "\<forall>x i. (x, i) \<in> Dn3 \<longrightarrow> (x, i) \<in> Dn2 \<or> x < gs_next S0" using e3 es(3) by blast
  qed
  from cheney_copying [OF 3(2) closed _ this] m3 obtain m4 Dn4 S4 where 4: "CheneyScan g (length (gs_roots S2 g)) S3 = Some S4" "copying S0 g r m4 Dn4 S4" "extends S0 g r m3 S3 m4 S4"
    "gs_intgen S4 = gs_intgen S3" "scan_state S0 g (length (gs_roots S4 g)) m4 Dn4 S4" "Dn3 \<subseteq> Dn4" "\<forall>x i. (x, i) \<in> Dn4 \<longrightarrow> (x, i) \<in> Dn3 \<or> x \<in> ran m4" by auto
  have m4: "m4 r = Some ?x" using extends_le [OF 4(3)] m3 by (metis domI map_le_def)
  have g2: "grown S0 g r [r \<mapsto> ?x] S1 m2 S2" and g4: "grown S0 g r m3 S3 m4 S4" using 2(3) 4(3) by (simp_all add: extends_def)
  have g: "grown S0 g r Map.empty S0 m4 S4" using grown_trans [OF grown_trans [OF grown_trans [OF g1 g2] g3] g4] .
  have ks: "gs_intgen S4 = ks" using e3 4(4) by simp
  have "Store_GC (BlkW r) g S0 = Some (BlkW ?x, S4\<lparr>gs_mapLs := IntW 0\<rparr>)"
    using 1(1) 2(1) H 4(1) grown_start [OF g] assms(4-6) by (simp add: Store_GC_def DirectWordToBlock_def Let_def RehashAll_def rehash_all.simps)
  moreover have "S4\<lparr>gs_mapLs := IntW 0\<rparr> = S4" using grown_start [OF g] assms(5) by simp
  moreover have "collected S0 g r m4 Dn4 S4"
    unfolding collected_def ks
  proof (intro conjI)
    show "\<forall>a x b n i. m4 a = Some x \<and> get_block a S0 = Some b \<and> cheney_size b = Some n \<and> i < n \<longrightarrow> (x, i) \<in> Dn4" using 4(5) by (simp add: scan_state_def)
    show "\<forall>e b n i. e \<in> set ?es - ?C \<and> get_block e S0 = Some b \<and> cheney_size b = Some n \<and> i < n \<longrightarrow>
        (e, i) \<in> Dn4 \<and> (younger S0 g r (gb_gen b) (gb_args b ! i) \<longrightarrow> e \<in> set ks)" using e3 4(6) by blast
    show "\<forall>x i. (x, i) \<in> Dn4 \<longrightarrow> x \<in> ran m4 \<or> x \<in> set ?es"
    proof (intro allI impI)
      fix x i assume "(x, i) \<in> Dn4"
      then consider "x \<in> ran m4" | "(x, i) \<in> Dn2" | "x \<in> set ?es" using 4(7) e3 by blast
      moreover have "ran m2 \<subseteq> ran m4" using ran_mono [OF extends_le [OF 4(3)]] ran_mono [of m2 m3] g3 by (auto simp: grown_def)
      ultimately show "x \<in> ran m4 \<or> x \<in> set ?es" using 2(6) by cases auto
    qed
    show "\<forall>a. a \<notin> ?C \<and> get_block a S0 \<noteq> None \<longrightarrow> childish a S4 = (if a \<in> set ?es - set ks then Some False else childish a S0)"
    proof (intro allI impI)
      fix a assume a: "a \<notin> ?C \<and> get_block a S0 \<noteq> None"
      have "childish a S4 = childish a S3" "childish a S2 = childish a S1" using a 4(3) 2(3) by (auto simp: extends_def)
      moreover have "childish a S3 = (if a \<in> set ?es - set ks then Some False else childish a (S2\<lparr>gs_intgen := []\<rparr>))" using e3 a by blast
      ultimately show "childish a S4 = (if a \<in> set ?es - set ks then Some False else childish a S0)" using f1 a by simp
    qed
  qed (use 4(2) g e3 in blast)+
  ultimately show ?thesis using m4 by auto
qed

section \<open>The released heap\<close>

text \<open>The root set: a block that is new or that nothing refers to.\<close>

definition root_ok :: "gstore \<Rightarrow> addr \<Rightarrow> bool" where
  "root_ok S r \<longleftrightarrow> (\<exists>b. get_block r S = Some b \<and> gb_label b \<noteq> REF_LABEL \<and> (gb_gen b = 0 \<or> (\<forall>a. \<not> points_to S a r)))"

text \<open>The generations below \<open>g\<close> are released; a major collection exchanges the semispaces.\<close>

definition released :: "gstore \<Rightarrow> nat \<Rightarrow> gstore \<Rightarrow> gstore \<Rightarrow> bool" where
  "released S0 g S S' \<longleftrightarrow> (\<forall>a. gs_cells S' a = (if \<exists>i < g. a \<in> set (gs_roots S0 i) then None else gs_cells S a)) \<and> gs_next S' = gs_next S \<and> gs_intgen S' = gs_intgen S \<and>
     gs_wkdict S' = gs_wkdict S \<and> gs_mapLs S' = gs_mapLs S \<and>
     (\<forall>i. gs_roots S' i = (if g = 3 then (if i = 2 then gs_roots S 3 else if i \<le> 3 then [] else gs_roots S i) else if i < g then [] else gs_roots S i))"

definition landed :: "gstore \<Rightarrow> nat \<Rightarrow> addr \<Rightarrow> (addr \<Rightarrow> addr option) \<Rightarrow> (addr \<times> nat) set \<Rightarrow> gstore \<Rightarrow> bool" where
  "landed S0 g r m Dn S' \<longleftrightarrow> (\<forall>x a b. stands_for S0 g r m x a \<and> get_block a S0 = Some b \<longrightarrow>
     (\<exists>b'. get_block x S' = Some b' \<and> same_block S0 (movable S0 g r) m Dn x b b' \<and> gb_gen b' = (if a \<in> movable S0 g r then header_gen g else gb_gen b)))"

lemma landedE:
  assumes "landed S0 g r m Dn S'" and "stands_for S0 g r m x a" and "get_block a S0 = Some b"
  obtains b' where "get_block x S' = Some b'" and "same_block S0 (movable S0 g r) m Dn x b b'" and "gb_gen b' = (if a \<in> movable S0 g r then header_gen g else gb_gen b)"
  using assms unfolding landed_def by blast

lemma kept_cell:
  assumes "heap_inv S0" and "copying S0 g r m Dn S" and "released S0 g S S'" and "stands_for S0 g r m x a" and "get_block a S0 = Some b"
  shows "gs_cells S' x = gs_cells S x"
proof -
  have spaces: "spaces S0" using assms(1) by (simp add: heap_inv_def)
  have "x \<notin> set (gs_roots S0 i)" if i: "i < g" for i
  proof (cases "m a = Some x")
    case True
    from copying_moved [OF assms(2) this] have "gs_next S0 \<le> x" .
    then show ?thesis using spaces unfolding spaces_def by (metis not_le)
  next
    case False
    then have "x = a" "a \<notin> movable S0 g r" using assms(4) by (auto simp: stands_for_def)
    then show ?thesis using old_gen assms(5) spaces i unfolding spaces_def by (metis not_le)
  qed
  then show ?thesis using assms(3) by (auto simp: released_def)
qed

lemma landed_released:
  assumes "heap_inv S0" and "copying S0 g r m Dn S" and "released S0 g S S'"
  shows "landed S0 g r m Dn S'"
  unfolding landed_def
proof (intro allI impI)
  fix x a b assume h: "stands_for S0 g r m x a \<and> get_block a S0 = Some b"
  then have "gs_cells S' x = gs_cells S x" using kept_cell [OF assms] by blast
  then have "get_block x S' = get_block x S" by (simp add: get_block_def)
  then show "\<exists>b'. get_block x S' = Some b' \<and> same_block S0 (movable S0 g r) m Dn x b b' \<and> gb_gen b' = (if a \<in> movable S0 g r then header_gen g else gb_gen b)"
    using stands_block [OF assms(2)] h by metis
qed

text \<open>There are no other blocks.\<close>

lemma released_source:
  assumes "heap_inv S0" and "copying S0 g r m Dn S" and "released S0 g S S'" and "m r \<noteq> None" and "get_block x S' = Some b'"
  obtains a b where "stands_for S0 g r m x a" and "get_block a S0 = Some b"
proof -
  have S: "get_block x S = Some b'" "\<not> (\<exists>i < g. x \<in> set (gs_roots S0 i))" using assms(3,5) by (auto simp: released_def get_block_Some split: if_splits)
  have "source_ok S0 m S" using assms(2) by (simp add: copying_def)
  then have "x \<in> ran m \<or> get_block x S0 \<noteq> None" using S(1) by (simp add: source_ok_def)
  then consider a where "m a = Some x" | b where "get_block x S0 = Some b" by (auto simp: ran_def)
  then show ?thesis
  proof cases
    case (1 a)
    then show ?thesis using that copying_moved [OF assms(2) 1] by (metis stands_for_def)
  next
    case (2 b)
    have "x \<notin> movable S0 g r"
    proof
      assume x: "x \<in> movable S0 g r"
      show False
      proof (cases "m x")
        case None
        then have "gb_gen b < g" using x 2 assms(4) by (auto simp: movable_def)
        then show False using S(2) 2 assms(1) unfolding heap_inv_def spaces_def by blast
      next
        case (Some y)
        then show False using copying_moved [OF assms(2) Some] S(1) by (metis cell.distinct(1) get_block_Some option.inject)
      qed
    qed
    then show ?thesis using that [of x b] 2 by (simp add: stands_for_def)
  qed
qed

section \<open>The graph after a collection\<close>

lemma word_direct: "word_ok S w \<Longrightarrow> RemoveTag w = Some t \<Longrightarrow> \<exists>b. get_block t S = Some b"
  by (cases w) (auto simp: word_ok_def Deref_iff target_ok_def get_block_Some elim!: derefs_TrE)

text \<open>An argument that was not scanned does not lead to the released generations.\<close>

lemma not_scanned:
  assumes "heap_inv S0" and "root_ok S0 r" and "0 < g" and "collected S0 g r m Dn S" and "a \<notin> movable S0 g r" and "get_block a S0 = Some b" and "cheney_size b = Some n"
    and "i < n" and "(a, i) \<notin> Dn" and "RemoveTag (gb_args b ! i) = Some t"
  shows "t \<notin> movable S0 g r" "\<exists>c. get_block t S0 = Some c \<and> gb_gen b \<le> gb_gen c"
proof -
  have inv: "closed S0" "barrier S0" using assms(1) by (auto simp: heap_inv_def)
  have es: "a \<notin> set (gs_intgen S0)" using assms(4-9) unfolding collected_def by blast
  obtain k where k: "cheney_size b = Some k" "k \<le> length (gb_args b)" "\<forall>i < k. word_ok S0 (gb_args b ! i)" using closed_block [OF inv(1) assms(6)] .
  then have i: "i < length (gb_args b)" "word_ok S0 (gb_args b ! i)" using assms(7,8) by auto
  obtain c where c: "get_block t S0 = Some c" using word_direct [OF i(2) assms(10)] by blast
  have p: "points_to S0 a t" using assms(6,7,8,10) i(1) unfolding points_to_def by blast
  then have le: "gb_gen b \<le> gb_gen c" using inv(2) es assms(6) c unfolding barrier_def by (metis not_le)
  then show "\<exists>c. get_block t S0 = Some c \<and> gb_gen b \<le> gb_gen c" using c by blast
  have "g \<le> gb_gen c" using old_gen [OF assms(5,6)] le by simp
  then show "t \<notin> movable S0 g r" using c assms(2,3) p unfolding movable_def root_ok_def by auto
qed

lemma landed_renamed:
  assumes "landed S0 g r m Dn S'" and "target_ok S0 v" and "covered (movable S0 g r) m v"
  shows "derefs S' (renamed m v) (renamed m v)" "target_ok S' (renamed m v)"
proof -
  have "derefs S' (renamed m v) (renamed m v) \<and> target_ok S' (renamed m v)"
  proof (cases "RemoveTag v")
    case None
    then show ?thesis by (cases v) (auto simp: target_ok_def)
  next
    case (Some t)
    obtain b where b: "get_block t S0 = Some b" "gb_label b \<noteq> REF_LABEL" using assms(2) Some by (auto simp: target_ok_def)
    define x where "x = (case m t of None \<Rightarrow> t | Some y \<Rightarrow> y)"
    have x: "renamed m v = retag v x" using Some by (cases v) (auto simp: x_def split: option.splits)
    have "stands_for S0 g r m x t" using assms(3) Some by (auto simp: stands_for_def covered_def x_def split: option.splits)
    then obtain b' where b': "get_block x S' = Some b'" "gb_label b' \<noteq> REF_LABEL" using landedE [OF assms(1) _ b(1)] b(2) by (metis same_block_def)
    then have "derefs S' (TrW x) (TrW x)" using derefs_stop [of S' x b'] by (simp add: get_block_Some)
    then show ?thesis unfolding x using b' Some by (cases v) (auto simp: target_ok_def)
  qed
  then show "derefs S' (renamed m v) (renamed m v)" "target_ok S' (renamed m v)" by simp_all
qed

lemma collected_outside:
  assumes "collected S0 g r m Dn S" and "a \<notin> movable S0 g r"
  shows "m a = None"
proof -
  have "copying S0 g r m Dn S" using assms(1) by (simp add: collected_def)
  then have "dom m \<subseteq> movable S0 g r" by (rule copying_dom)
  then show ?thesis using assms(2) by auto
qed

text \<open>Chains of references within the old generations.\<close>

lemma derefs_old:
  assumes "derefs S0 w v" and "target_ok S0 v" and "heap_inv S0" and "root_ok S0 r" and "0 < g" and "collected S0 g r m Dn S" and "landed S0 g r m Dn S'"
    and "\<forall>t. RemoveTag w = Some t \<longrightarrow> t \<notin> movable S0 g r"
  shows "covered (movable S0 g r) m v \<and> derefs S' w (renamed m v)"
  using assms
proof (induction rule: derefs.induct)
  case (derefs_moved a np as)
  then show ?case by (auto simp: target_ok_def get_block_Some)
next
  case (derefs_ref a b v)
  have inv: "closed S0" using derefs_ref.prems(2) by (simp add: heap_inv_def)
  have b: "get_block a S0 = Some b" "a \<notin> movable S0 g r" using derefs_ref by (auto simp: get_block_Some)
  obtain b' where b': "get_block a S' = Some b'" "same_block S0 (movable S0 g r) m Dn a b b'"
    using landedE [OF derefs_ref.prems(6) _ b(1), of a] b(2) by (auto simp: stands_for_def)
  have s: "gs_cells S' a = Some (Block b')" "gb_label b' = REF_LABEL" "gb_args b' \<noteq> []" using b' derefs_ref.hyps by (auto simp: same_block_def get_block_Some)
  have n: "cheney_size b = Some (length (gb_args b))" "0 < length (gb_args b)" using derefs_ref.hyps(2,3) by (auto simp: cheney_size_def)
  show ?case
  proof (cases "(a, 0) \<in> Dn")
    case True
    then have "forwarded S0 (movable S0 g r) m (gb_args b ! 0) (gb_args b' ! 0)" using b'(2) n(2) by (auto simp: same_block_def)
    then have f: "covered (movable S0 g r) m v" "gb_args b' ! 0 = renamed m v" using derefs_unique derefs_ref.hyps(4) by (auto simp: forwarded_def)
    then show ?thesis using derefs.derefs_ref [OF s] landed_renamed [OF derefs_ref.prems(6,1)] by simp
  next
    case False
    then have "gb_args b' ! 0 = gb_args b ! 0" using b'(2) n(2) by (auto simp: same_block_def)
    moreover have "\<forall>t. RemoveTag (gb_args b ! 0) = Some t \<longrightarrow> t \<notin> movable S0 g r"
      using not_scanned(1) [OF derefs_ref.prems(2-5) b(2,1) n False] by blast
    ultimately show ?thesis using derefs_ref.IH [OF derefs_ref.prems(1-6)] derefs.derefs_ref [OF s] by simp
  qed
next
  case (derefs_stop a b)
  then have c: "covered (movable S0 g r) m (TrW a)" "m a = None" using collected_outside [OF derefs_stop.prems(5)] by (auto simp: covered_def)
  then show ?case using landed_renamed(1) [OF derefs_stop.prems(6,1) c(1)] by simp
next
  case (derefs_blk a)
  then show ?case using collected_outside [OF derefs_blk.prems(5)] by (auto simp: covered_def)
qed (auto simp: covered_def)

text \<open>The scanned arguments of a block, before and after.\<close>

lemma arg_after:
  assumes "heap_inv S0" and "root_ok S0 r" and "0 < g" and "collected S0 g r m Dn S" and "landed S0 g r m Dn S'" and "stands_for S0 g r m x a" and "get_block a S0 = Some b"
    and "get_block x S' = Some b'" and "cheney_size b = Some n" and "i < n"
  obtains v where "derefs S0 (gb_args b ! i) v" and "target_ok S0 v" and "covered (movable S0 g r) m v" and "derefs S' (gb_args b' ! i) (renamed m v)"
    and "(x, i) \<in> Dn \<Longrightarrow> gb_args b' ! i = renamed m v" and "(x, i) \<notin> Dn \<Longrightarrow> gb_args b' ! i = gb_args b ! i \<and> x = a \<and> a \<notin> movable S0 g r"
proof -
  have inv: "closed S0" using assms(1) by (simp add: heap_inv_def)
  obtain k where k: "cheney_size b = Some k" "k \<le> length (gb_args b)" "\<forall>i < k. word_ok S0 (gb_args b ! i)" using closed_block [OF inv assms(7)] .
  then have i: "i < length (gb_args b)" "word_ok S0 (gb_args b ! i)" using assms(9,10) by auto
  obtain v where v: "derefs S0 (gb_args b ! i) v" "target_ok S0 v" using i(2) by (auto simp: word_ok_def Deref_iff)
  have same: "same_block S0 (movable S0 g r) m Dn x b b'" using landedE [OF assms(5-7)] assms(8) by (metis option.inject)
  show ?thesis
  proof (cases "(x, i) \<in> Dn")
    case True
    then have "forwarded S0 (movable S0 g r) m (gb_args b ! i) (gb_args b' ! i)" using same i(1) by (auto simp: same_block_def)
    then have f: "covered (movable S0 g r) m v" "gb_args b' ! i = renamed m v" using derefs_unique v(1) by (auto simp: forwarded_def)
    then show ?thesis using that [OF v f(1)] landed_renamed(1) [OF assms(5) v(2) f(1)] True by simp
  next
    case False
    have raw: "gb_args b' ! i = gb_args b ! i" using same i(1) False by (auto simp: same_block_def)
    have "m a \<noteq> Some x" using assms(4,7,9,10) False unfolding collected_def by blast
    then have a: "x = a" "a \<notin> movable S0 g r" using assms(6) by (auto simp: stands_for_def)
    have "\<forall>t. RemoveTag (gb_args b ! i) = Some t \<longrightarrow> t \<notin> movable S0 g r"
      using not_scanned(1) [OF assms(1-4) a(2) assms(7,9,10)] False a(1) by blast
    from derefs_old [OF v assms(1-5) this] show ?thesis using that [OF v] raw a False by simp
  qed
qed

section \<open>The invariant after a collection\<close>

lemma forwarded_int: "forwarded S0 C m (IntW i) w \<Longrightarrow> w = IntW i"
  by (auto simp: forwarded_def)

lemma same_size:
  assumes "same_block S0 C m Dn x b b'" and "cheney_size b = Some n"
  shows "cheney_size b' = Some n"
proof (cases "gb_label b = DYNAMIC_LABEL")
  case True
  then obtain i where i: "gb_args b \<noteq> []" "gb_args b ! 0 = IntW i" "n = nat i + 1"
    using assms(2) by (auto simp: cheney_size_def GetScanSize_def run_elims split: store_word.splits)
  then have "if (x, 0) \<in> Dn then forwarded S0 C m (IntW i) (gb_args b' ! 0) else gb_args b' ! 0 = IntW i" using assms(1) unfolding same_block_def by (metis length_greater_0_conv)
  then have "gb_args b' ! 0 = IntW i" by (auto dest: forwarded_int split: if_splits)
  then show ?thesis using True i assms(1) by (auto simp: cheney_size_def GetScanSize_def same_block_def Block_GetArg_def)
next
  case False
  then show ?thesis using assms by (auto simp: cheney_size_def same_block_def)
qed

text \<open>What a block of the heap after the collection comes from.\<close>

lemma block_after:
  assumes "heap_inv S0" and "m r \<noteq> None" and "collected S0 g r m Dn S" and "released S0 g S S'" and "get_block x S' = Some b'"
  obtains a b n where "stands_for S0 g r m x a" and "get_block a S0 = Some b" and "same_block S0 (movable S0 g r) m Dn x b b'"
    and "gb_gen b' = (if a \<in> movable S0 g r then header_gen g else gb_gen b)" and "cheney_size b = Some n" and "cheney_size b' = Some n" and "n \<le> length (gb_args b')"
proof -
  have c: "copying S0 g r m Dn S" "closed S0" using assms(1,3) by (auto simp: collected_def heap_inv_def)
  obtain a b where ab: "stands_for S0 g r m x a" "get_block a S0 = Some b" using released_source [OF assms(1) c(1) assms(4,2,5)] .
  have same: "same_block S0 (movable S0 g r) m Dn x b b'" "gb_gen b' = (if a \<in> movable S0 g r then header_gen g else gb_gen b)"
    using landedE [OF landed_released [OF assms(1) c(1) assms(4)] ab] assms(5) by (metis option.inject)+
  obtain n where "cheney_size b = Some n" "n \<le> length (gb_args b)" using closed_block [OF c(2) ab(2)] .
  then show ?thesis using that ab same same_size [OF same(1)] by (auto simp: same_block_def)
qed

lemma header_gen_le: "0 < g \<Longrightarrow> g \<le> 3 \<Longrightarrow> header_gen g \<le> 2" "header_gen g \<le> g"
  by (auto simp: header_gen_def)

lemma closed_after:
  assumes "heap_inv S0" and "root_ok S0 r" and "0 < g" and "g \<le> 3" and "m r \<noteq> None" and "collected S0 g r m Dn S" and "released S0 g S S'"
  shows "closed S'"
  unfolding closed_def
proof (intro conjI allI impI)
  have c: "copying S0 g r m Dn S" "closed S0" using assms(1,6) by (auto simp: collected_def heap_inv_def)
  note land = landed_released [OF assms(1) c(1) assms(7)]
  {
    fix x b' assume x: "get_block x S' = Some b'"
    obtain a b n where s: "stands_for S0 g r m x a" "get_block a S0 = Some b" "gb_gen b' = (if a \<in> movable S0 g r then header_gen g else gb_gen b)" "cheney_size b = Some n"
      "cheney_size b' = Some n" "n \<le> length (gb_args b')" using block_after [OF assms(1,5-7) x] by metis
    show "gb_gen b' < STORE_GENERATION_NUM - 1" using s(3) header_gen_le(1) [OF assms(3,4)] closed_gen [OF c(2) s(2)] by auto
    have "word_ok S' (gb_args b' ! i)" if i: "i < n" for i
    proof -
      obtain v where v: "target_ok S0 v" "covered (movable S0 g r) m v" "derefs S' (gb_args b' ! i) (renamed m v)" using arg_after [OF assms(1-3,6) land s(1,2) x s(4) i] .
      then show ?thesis using landed_renamed(2) [OF land v(1,2)] by (auto simp: word_ok_def Deref_iff)
    qed
    then show "\<exists>n. cheney_size b' = Some n \<and> n \<le> length (gb_args b') \<and> (\<forall>i < n. word_ok S' (gb_args b' ! i))" using s(5,6) by blast
  }
  show "a < gs_next S'" if "gs_cells S' a \<noteq> None" for a
    using that c(1) assms(7) unfolding copying_def source_ok_def released_def by (metis (no_types, lifting))
qed

lemma barrier_points:
  assumes "heap_inv S0" and "root_ok S0 r" and "0 < g" and "m r \<noteq> None" and "collected S0 g r m Dn S" and "released S0 g S S'"
    and "get_block x S' = Some b'" and "points_to S' x t'" and "get_block t' S' = Some c'" and "gb_gen c' < gb_gen b'"
  shows "x \<in> set (gs_intgen S)"
proof -
  let ?C = "movable S0 g r"
  have c: "copying S0 g r m Dn S" "closed S0" "barrier S0" using assms(1,5) by (auto simp: collected_def heap_inv_def)
  note land = landed_released [OF assms(1) c(1) assms(6)]
  obtain a b n where s: "stands_for S0 g r m x a" "get_block a S0 = Some b" "gb_gen b' = (if a \<in> ?C then header_gen g else gb_gen b)" "cheney_size b = Some n"
    "cheney_size b' = Some n" using block_after [OF assms(1,4-7)] by metis
  obtain i where i: "i < n" "RemoveTag (gb_args b' ! i) = Some t'" using assms(7,8) s(5) by (auto simp: points_to_def)
  obtain v where v: "derefs S0 (gb_args b ! i) v" "target_ok S0 v" "covered ?C m v" "(x, i) \<in> Dn \<Longrightarrow> gb_args b' ! i = renamed m v"
    "(x, i) \<notin> Dn \<Longrightarrow> gb_args b' ! i = gb_args b ! i \<and> x = a \<and> a \<notin> ?C"
    using arg_after [OF assms(1-3,5) land s(1,2) assms(7) s(4) i(1)] by metis
  show ?thesis
  proof (cases "(x, i) \<in> Dn")
    case True
    then have w: "gb_args b' ! i = renamed m v" using v(4) by simp
    then obtain t where t: "RemoveTag v = Some t" using i(2) by (cases v) (auto split: option.splits)
    define y where "y = (case m t of None \<Rightarrow> t | Some z \<Rightarrow> z)"
    have y: "y = t'" using w i(2) t by (cases v) (auto simp: y_def split: option.splits)
    have st: "stands_for S0 g r m y t" using v(3) t by (auto simp: stands_for_def covered_def y_def split: option.splits)
    obtain bt where bt: "get_block t S0 = Some bt" using v(2) t by (auto simp: target_ok_def)
    have gen: "gb_gen c' = (if t \<in> ?C then header_gen g else gb_gen bt)" using landedE [OF land st bt] assms(9) y by (metis option.inject)
    have old: "a \<notin> ?C"
    proof
      assume "a \<in> ?C"
      then show False using s(3) gen assms(10) old_gen [OF _ bt] header_gen_le(2) [of g] by (fastforce split: if_splits)
    qed
    then have "x = a" using s(1) copying_dom [OF c(1)] by (auto simp: stands_for_def)
    have "(if t \<in> ?C then header_gen g else gb_gen bt) < gb_gen b" using gen assms(10) s(3) old by simp
    then have "younger S0 g r (gb_gen b) (gb_args b ! i)" using v(1) t bt unfolding younger_def by blast
    moreover have "x \<in> set (gs_intgen S0)"
    proof -
      have "x \<notin> ran m"
      proof
        assume "x \<in> ran m"
        then obtain d where "m d = Some x" by (auto simp: ran_def)
        from copying_moved [OF c(1) this] have "gs_next S0 \<le> x" .
        then show False using block_next [OF c(2) s(2)] \<open>x = a\<close> by simp
      qed
      then show ?thesis using assms(5) True unfolding collected_def by blast
    qed
    ultimately show ?thesis using assms(5) s(2,4) i(1) old \<open>x = a\<close> unfolding collected_def by blast
  next
    case False
    then have raw: "gb_args b' ! i = gb_args b ! i" "x = a" "a \<notin> ?C" using v(5) by auto
    obtain d where d: "get_block t' S0 = Some d" "gb_gen b \<le> gb_gen d" "t' \<notin> ?C"
      using not_scanned [OF assms(1-3,5) raw(3) s(2,4) i(1)] False raw i(2) by auto
    have "gb_gen c' = gb_gen d" using landedE [OF land _ d(1), of t'] d(3) assms(9) by (auto simp: stands_for_def)
    then show ?thesis using d(2) s(3) raw(3) assms(10) by simp
  qed
qed

lemma copy_high: "copying S0 g r m Dn S \<Longrightarrow> m a = Some x \<Longrightarrow> gs_next S0 \<le> x \<and> x < gs_next S"
  by (erule (1) copying_moved) simp

lemma barrier_after:
  assumes "heap_inv S0" and "root_ok S0 r" and "0 < g" and "m r \<noteq> None" and "collected S0 g r m Dn S" and "released S0 g S S'"
  shows "barrier S'"
proof -
  let ?C = "movable S0 g r"
  have c: "copying S0 g r m Dn S" "closed S0" "barrier S0" using assms(1,5) by (auto simp: collected_def heap_inv_def)
  note land = landed_released [OF assms(1) c(1) assms(6)]
  have set: "gs_intgen S' = gs_intgen S" using assms(6) by (simp add: released_def)
  have sub: "set (gs_intgen S) \<subseteq> set (gs_intgen S0) - ?C" "distinct (gs_intgen S)" using assms(5) by (auto simp: collected_def)
  have es: "\<forall>e \<in> set (gs_intgen S0). \<exists>b. get_block e S0 = Some b \<and> (gb_label b < CHUNK_LABEL \<or> gb_label b = DYNAMIC_LABEL)"
    "\<And>a b. get_block a S0 = Some b \<Longrightarrow> gb_childish b \<longleftrightarrow> a \<in> set (gs_intgen S0)" using c(3) unfolding barrier_def by blast+
  have "\<exists>b'. get_block e S' = Some b' \<and> (gb_label b' < CHUNK_LABEL \<or> gb_label b' = DYNAMIC_LABEL)" if e: "e \<in> set (gs_intgen S)" for e
  proof -
    obtain b where b: "get_block e S0 = Some b" "gb_label b < CHUNK_LABEL \<or> gb_label b = DYNAMIC_LABEL" using es(1) sub(1) e by blast
    have "stands_for S0 g r m e e" using sub(1) e by (auto simp: stands_for_def)
    from landedE [OF land this b(1)] show ?thesis using b(2) by (metis same_block_def)
  qed
  moreover have "gb_childish b' \<longleftrightarrow> x \<in> set (gs_intgen S)" if x: "get_block x S' = Some b'" for x b'
  proof -
    obtain a b where s: "stands_for S0 g r m x a" "get_block a S0 = Some b" using released_source [OF assms(1) c(1) assms(6,4) x] .
    have S: "get_block x S = Some b'" using x assms(6) by (auto simp: released_def get_block_Some split: if_splits)
    show ?thesis
    proof (cases "m a = Some x")
      case True
      then have "\<not> gb_childish b'" using copying_moved [OF c(1) True] S by (metis option.inject)
      moreover have "e < gs_next S0" if "e \<in> set (gs_intgen S)" for e using es(1) sub(1) that block_next [OF c(2)] by blast
      ultimately show ?thesis using copy_high [OF c(1) True] by (metis not_le)
    next
      case False
      then have a: "x = a" "a \<notin> ?C" using s(1) by (auto simp: stands_for_def)
      then have "childish a S = (if a \<in> set (gs_intgen S0) - set (gs_intgen S) then Some False else childish a S0)" using assms(5) s(2) unfolding collected_def by blast
      moreover have "childish a S = Some (gb_childish b')" "childish a S0 = Some (a \<in> set (gs_intgen S0))" using S a(1) s(2) es(2) by (simp_all add: childish_def)
      ultimately show ?thesis using sub(1) a(1) by (auto split: if_splits)
    qed
  qed
  ultimately show ?thesis using barrier_points [OF assms] sub(2) unfolding barrier_def set by blast
qed

text \<open>Membership in the generations after the collection.\<close>

lemma roots_after:
  assumes "spaces S0" and "0 < g" and "g \<le> 3" and "gs_roots S = (gs_roots S0)(g := gs_roots S0 g @ new)" and "released S0 g S S'"
  shows "x \<in> set (gs_roots S' i) \<longleftrightarrow> (if i = header_gen g then x \<in> set new \<or> g < 3 \<and> x \<in> set (gs_roots S0 i) else g \<le> i \<and> x \<in> set (gs_roots S0 i))"
proof (cases "g = 3")
  case True
  have "gs_roots S0 3 = []" using assms(1) by (simp add: spaces_def)
  then have "gs_roots S' i = (if i = 2 then new else if i \<le> 3 then [] else gs_roots S0 i)" using assms(4,5) True by (simp add: released_def)
  moreover have "i \<noteq> 3 \<Longrightarrow> \<not> i \<le> 3 \<longleftrightarrow> 3 \<le> i" by arith
  ultimately show ?thesis using True \<open>gs_roots S0 3 = []\<close> by (cases "i = 3") (simp_all add: header_gen_def)
next
  case False
  then have "gs_roots S' i = (if i < g then [] else if i = g then gs_roots S0 g @ new else gs_roots S0 i)" using assms(4,5) by (simp add: released_def)
  then show ?thesis using False assms(3) by (cases "i < g"; cases "i = g") (auto simp: header_gen_def)
qed

lemma spaces_after:
  assumes "heap_inv S0" and "0 < g" and "g \<le> 3" and "m r \<noteq> None" and "collected S0 g r m Dn S" and "released S0 g S S'"
  shows "spaces S'"
proof -
  let ?C = "movable S0 g r"
  have c: "copying S0 g r m Dn S" "closed S0" "spaces S0" using assms(1,5) by (auto simp: collected_def heap_inv_def)
  obtain new where new: "gs_roots S = (gs_roots S0)(g := gs_roots S0 g @ new)" "set new = ran m" using assms(5) unfolding collected_def grown_def by auto
  note roots = roots_after [OF c(3) assms(2,3) new(1) assms(6)]
  have low: "a < gs_next S0" if "a \<in> set (gs_roots S0 i)" for a i using c(3) that unfolding spaces_def by blast
  have at: "x \<in> set (gs_roots S' i) \<longleftrightarrow> gb_gen b' = i" if x: "get_block x S' = Some b'" for x b' i
  proof -
    obtain a b where s: "stands_for S0 g r m x a" "get_block a S0 = Some b" "gb_gen b' = (if a \<in> ?C then header_gen g else gb_gen b)" using block_after [OF assms(1,4-6) x] by metis
    show ?thesis
    proof (cases "m a = Some x")
      case True
      then have n: "x \<in> set new" "a \<in> ?C" using new(2) copying_dom [OF c(1)] by (auto simp: ran_def)
      have "x \<notin> set (gs_roots S0 i)" using low copy_high [OF c(1) True] by (metis not_le)
      then show ?thesis using n s(3) by (simp add: roots eq_commute)
    next
      case False
      then have a: "x = a" "a \<notin> ?C" using s(1) by (auto simp: stands_for_def)
      have g: "g \<le> gb_gen b" "gb_gen b \<le> 2" using old_gen [OF a(2) s(2)] closed_gen [OF c(2) s(2)] by auto
      then have h: "g < 3" "header_gen g = g" by (simp_all add: header_gen_def)
      have "y \<noteq> x" if "y \<in> set new" for y
      proof -
        obtain d where "m d = Some y" using \<open>y \<in> set new\<close> new(2) by (auto simp: ran_def)
        from copy_high [OF c(1) this] show ?thesis using block_next [OF c(2) s(2)] a(1) by auto
      qed
      then have "x \<notin> set new" by blast
      moreover have "x \<in> set (gs_roots S0 i) \<longleftrightarrow> gb_gen b = i" using c(3) s(2) a(1) unfolding spaces_def by blast
      ultimately show ?thesis using g(1) h s(3) a(2) by (auto simp: roots)
    qed
  qed
  have "a < gs_next S'" if a: "a \<in> set (gs_roots S' i)" for a i
  proof -
    have le: "gs_next S' = gs_next S" "gs_next S0 \<le> gs_next S" using assms(6) c(1) by (auto simp: released_def copying_def)
    have "a \<in> ran m \<or> a \<in> set (gs_roots S0 i)" using a new(2) by (auto simp: roots split: if_splits)
    then show ?thesis
    proof
      assume "a \<in> ran m"
      then obtain d where "m d = Some a" by (auto simp: ran_def)
      from copy_high [OF c(1) this] show ?thesis using le by simp
    next
      assume "a \<in> set (gs_roots S0 i)"
      from low [OF this] show ?thesis using le by simp
    qed
  qed
  moreover have "gs_roots S' (STORE_GENERATION_NUM - 1) = []"
  proof -
    have "x \<notin> set (gs_roots S' 3)" for x
    proof -
      have "header_gen g \<noteq> 3" by (simp add: header_gen_def)
      moreover have "gs_roots S0 3 = []" using c(3) by (simp add: spaces_def)
      ultimately show ?thesis by (simp add: roots)
    qed
    then have "gs_roots S' 3 = []" by (metis last_in_set)
    then show ?thesis by simp
  qed
  ultimately show ?thesis using at unfolding spaces_def by blast
qed

section \<open>Collections preserve the heap\<close>

text \<open>
  \<open>f\<close> takes the blocks of \<open>S\<close> that survive to their addresses in \<open>S'\<close>. Labels, mutability and the arguments that are not scanned are the
  same, and the scanned arguments lead to corresponding words when references are followed.
\<close>

definition preserved :: "gstore \<Rightarrow> (addr \<Rightarrow> addr option) \<Rightarrow> gstore \<Rightarrow> bool" where
  "preserved S f S' \<longleftrightarrow> inj_on f (dom f) \<and>
     (\<forall>a x. f a = Some x \<longrightarrow> (\<exists>b b' n. get_block a S = Some b \<and> get_block x S' = Some b' \<and> gb_label b' = gb_label b \<and> gb_mutable b' = gb_mutable b \<and>
        length (gb_args b') = length (gb_args b) \<and> cheney_size b = Some n \<and>
        (\<forall>i < length (gb_args b). if i < n
           then (\<exists>v. GCHelper_Deref S (gb_args b ! i) = Some v \<and> (\<forall>t. RemoveTag v = Some t \<longrightarrow> f t \<noteq> None) \<and> GCHelper_Deref S' (gb_args b' ! i) = Some (renamed f v))
           else gb_args b' ! i = gb_args b ! i)))"

definition survivors :: "gstore \<Rightarrow> nat \<Rightarrow> addr \<Rightarrow> (addr \<Rightarrow> addr option) \<Rightarrow> addr \<Rightarrow> addr option" where
  "survivors S0 g r m a = (case m a of Some x \<Rightarrow> Some x | None \<Rightarrow> if a \<notin> movable S0 g r \<and> get_block a S0 \<noteq> None then Some a else None)"

lemma survivors_stands:
  assumes "copying S0 g r m Dn S"
  shows "survivors S0 g r m a = Some x \<longleftrightarrow> stands_for S0 g r m x a \<and> get_block a S0 \<noteq> None"
proof (cases "m a")
  case None
  then show ?thesis by (auto simp: survivors_def stands_for_def)
next
  case (Some y)
  then have "a \<in> movable S0 g r" using copying_dom [OF assms] by auto
  moreover obtain b where "get_block a S0 = Some b" using copying_moved [OF assms Some] by metis
  ultimately show ?thesis using Some by (auto simp: survivors_def stands_for_def)
qed

lemma renamed_survivors: "target_ok S0 v \<Longrightarrow> covered (movable S0 g r) m v \<Longrightarrow> renamed (survivors S0 g r m) v = renamed m v \<and> (\<forall>t. RemoveTag v = Some t \<longrightarrow> survivors S0 g r m t \<noteq> None)"
  by (cases v) (auto simp: survivors_def target_ok_def covered_def split: option.splits)

lemma preserved_after:
  assumes "heap_inv S0" and "root_ok S0 r" and "0 < g" and "collected S0 g r m Dn S" and "released S0 g S S'"
  shows "preserved S0 (survivors S0 g r m) S'"
proof -
  let ?f = "survivors S0 g r m" and ?C = "movable S0 g r"
  have c: "copying S0 g r m Dn S" "closed S0" using assms(1,4) by (auto simp: collected_def heap_inv_def)
  note land = landed_released [OF assms(1) c(1) assms(5)]
  have "inj_on ?f (dom ?f)"
  proof (rule inj_onI)
    fix a d assume "a \<in> dom ?f" "d \<in> dom ?f" "?f a = ?f d"
    then obtain x where "?f a = Some x" "?f d = Some x" by auto
    then show "a = d" using stands_unique [OF c] unfolding survivors_stands [OF c(1)] by (metis option.exhaust)
  qed
  moreover have "\<exists>b b' n. get_block a S0 = Some b \<and> get_block x S' = Some b' \<and> gb_label b' = gb_label b \<and> gb_mutable b' = gb_mutable b \<and>
        length (gb_args b') = length (gb_args b) \<and> cheney_size b = Some n \<and>
        (\<forall>i < length (gb_args b). if i < n
           then (\<exists>v. GCHelper_Deref S0 (gb_args b ! i) = Some v \<and> (\<forall>t. RemoveTag v = Some t \<longrightarrow> ?f t \<noteq> None) \<and> GCHelper_Deref S' (gb_args b' ! i) = Some (renamed ?f v))
           else gb_args b' ! i = gb_args b ! i)" if x: "?f a = Some x" for a x
  proof -
    obtain b where s: "stands_for S0 g r m x a" "get_block a S0 = Some b" using x survivors_stands [OF c(1)] by auto
    obtain b' where b': "get_block x S' = Some b'" "same_block S0 ?C m Dn x b b'" using landedE [OF land s] .
    obtain n where n: "cheney_size b = Some n" using closed_block [OF c(2) s(2)] .
    have "if i < n then (\<exists>v. GCHelper_Deref S0 (gb_args b ! i) = Some v \<and> (\<forall>t. RemoveTag v = Some t \<longrightarrow> ?f t \<noteq> None) \<and> GCHelper_Deref S' (gb_args b' ! i) = Some (renamed ?f v))
           else gb_args b' ! i = gb_args b ! i" if i: "i < length (gb_args b)" for i
    proof (cases "i < n")
      case True
      obtain v where v: "derefs S0 (gb_args b ! i) v" "target_ok S0 v" "covered ?C m v" "derefs S' (gb_args b' ! i) (renamed m v)"
        using arg_after [OF assms(1-4) land s b'(1) n True] by metis
      then show ?thesis using True renamed_survivors [OF v(2,3)] by (auto simp: Deref_iff)
    next
      case False
      have "(x, i) \<notin> Dn"
      proof
        assume "(x, i) \<in> Dn"
        then obtain d e k where d: "stands_for S0 g r m x d" "get_block d S0 = Some e" "cheney_size e = Some k" "i < k"
          using c(1) unfolding copying_def scannable_args_def by blast
        then show False using stands_unique [OF c s(1) d(1) s(2) d(2)] s(2) n False by simp
      qed
      then show ?thesis using False b'(2) i by (auto simp: same_block_def)
    qed
    moreover have "gb_label b' = gb_label b" "gb_mutable b' = gb_mutable b" "length (gb_args b') = length (gb_args b)" using b'(2) by (auto simp: same_block_def)
    ultimately show ?thesis using s(2) b'(1) n by blast
  qed
  ultimately show ?thesis unfolding preserved_def by blast
qed

lemma only_survivors:
  assumes "heap_inv S0" and "m r \<noteq> None" and "collected S0 g r m Dn S" and "released S0 g S S'" and "get_block x S' = Some b'"
  shows "x \<in> ran (survivors S0 g r m)"
proof -
  have "copying S0 g r m Dn S" using assms(3) by (simp add: collected_def)
  moreover obtain a b where "stands_for S0 g r m x a" "get_block a S0 = Some b" using released_source [OF assms(1) calculation assms(4,2,5)] .
  ultimately show ?thesis using survivors_stands by (auto simp: ran_def)
qed

section \<open>Releasing the generations\<close>

lemma fold_Shrink:
  "fold gc_Shrink (rev [0..<g]) S = S\<lparr>gs_cells := (\<lambda>a. if \<exists>i < g. a \<in> set (gs_roots S i) then None else gs_cells S a), gs_roots := (\<lambda>i. if i < g then [] else gs_roots S i)\<rparr>"
proof (induction g arbitrary: S)
  case 0
  then show ?case by simp
next
  case (Suc g)
  have "(\<lambda>a. if \<exists>i < g. a \<in> set (gs_roots (gc_Shrink g S) i) then None else gs_cells (gc_Shrink g S) a) = (\<lambda>a. if \<exists>i < Suc g. a \<in> set (gs_roots S i) then None else gs_cells S a)"
    by (rule ext) (auto simp: gc_Shrink_def less_Suc_eq)
  moreover have "(\<lambda>i. if i < g then [] else gs_roots (gc_Shrink g S) i) = (\<lambda>i. if i < Suc g then [] else gs_roots S i)"
    by (rule ext) (auto simp: gc_Shrink_def)
  moreover have "fold gc_Shrink (rev [0..<Suc g]) S = fold gc_Shrink (rev [0..<g]) (gc_Shrink g S)" by simp
  moreover have "gc_Shrink g S\<lparr>gs_cells := c, gs_roots := rs\<rparr> = S\<lparr>gs_cells := c, gs_roots := rs\<rparr>" for c rs by (simp add: gc_Shrink_def)
  ultimately show ?case by (simp only: Suc.IH)
qed

lemma gc_range_le: "gc_range sz limit k \<le> k"
  by (induction k) auto

lemma DoGC_released:
  assumes "Store_GC root g S0 = Some (root', S)" and "gc_range (sz S0) (gs_limit S0) 2 = gen" and "g = gen + 1"
    and "gs_roots S = (gs_roots S0)(g := gs_roots S0 g @ new)" and "spaces S0"
  shows "\<exists>S'. DoGCWithoutFinalize sz memTolerance root S0 = Some (root', S') \<and> released S0 g S S'"
proof -
  have low: "gs_roots S i = gs_roots S0 i" if "i < g" for i using that assms(4) by simp
  have cells: "(\<exists>i < g. a \<in> set (gs_roots S i)) \<longleftrightarrow> (\<exists>i < g. a \<in> set (gs_roots S0 i))" for a using low by auto
  have gen: "gen \<le> 2" using assms(2) gc_range_le by metis
  show ?thesis
  proof (cases "gen = 2")
    case True
    then have g: "g = 3" using assms(3) by simp
    show ?thesis using assms(1,2) cells True unfolding g
      by (simp add: DoGCWithoutFinalize_def Let_def fold_Shrink released_def switch_semispaces_def del: upt_Suc) blast
  next
    case False
    then have "g \<noteq> 3" using assms(3) by simp
    then show ?thesis using assms(1,2) cells False unfolding assms(3)
      by (simp add: DoGCWithoutFinalize_def Let_def fold_Shrink released_def del: upt_Suc)
  qed
qed

lemma DoGC_collects:
  assumes "heap_inv S" and "root_ok S r" and "gs_wkdict S = []" and "gs_mapLs S = IntW 0"
  obtains S' r' f where "DoGCWithoutFinalize sz memTolerance (BlkW r) S = Some (BlkW r', S')" and "heap_inv S'" and "f r = Some r'" and "preserved S f S'"
    and "\<forall>a b. get_block a S = Some b \<and> gb_gen b \<le> gc_range (sz S) (gs_limit S) 2 \<longrightarrow> gs_cells S' a = None"
    and "\<forall>x b. get_block x S' = Some b \<longrightarrow> x \<in> ran f" and "gs_wkdict S' = []" and "gs_mapLs S' = IntW 0"
proof -
  let ?gen = "gc_range (sz S) (gs_limit S) 2"
  let ?g = "Suc ?gen"
  have g: "0 < ?g" "?g \<le> 3" using gc_range_le [of "sz S" "gs_limit S" 2] by simp_all
  have sp: "spaces S" using assms(1) by (simp add: heap_inv_def)
  obtain b where "get_block r S = Some b" "gb_label b \<noteq> REF_LABEL" using assms(2) by (auto simp: root_ok_def)
  from GC_collected [OF assms(1) this assms(3,4) refl, of ?gen] obtain m Dn x S1 where
    1: "Store_GC (BlkW r) ?g S = Some (BlkW x, S1)" "m r = Some x" "collected S ?g r m Dn S1" by blast
  obtain new where "gs_roots S1 = (gs_roots S)(?g := gs_roots S ?g @ new)" using 1(3) unfolding collected_def grown_def by blast
  from DoGC_released [OF 1(1) refl _ this sp] obtain S' where 2: "DoGCWithoutFinalize sz memTolerance (BlkW r) S = Some (BlkW x, S')" "released S ?g S1 S'" by auto
  have m: "m r \<noteq> None" using 1(2) by simp
  have "heap_inv S'" unfolding heap_inv_def
    using closed_after [OF assms(1,2) g m 1(3) 2(2)] barrier_after [OF assms(1,2) g(1) m 1(3) 2(2)] spaces_after [OF assms(1) g m 1(3) 2(2)] by blast
  moreover have "survivors S ?g r m r = Some x" using 1(2) by (simp add: survivors_def)
  moreover have "gs_cells S' a = None" if "get_block a S = Some b" "gb_gen b \<le> ?gen" for a b
  proof -
    have "a \<in> set (gs_roots S (gb_gen b))" "gb_gen b < ?g" using that sp by (auto simp: spaces_def)
    then show ?thesis using 2(2) unfolding released_def by auto
  qed
  moreover have "gs_wkdict S' = []" "gs_mapLs S' = IntW 0" using 1(3) 2(2) assms(3,4) unfolding collected_def grown_def same_rest_def released_def by simp_all
  ultimately show ?thesis using that [OF 2(1)] preserved_after [OF assms(1,2) g(1) 1(3) 2(2)] only_survivors [OF assms(1) m 1(3) 2(2)] by blast
qed


text \<open>
  A heap with an old cell at 0 that refers, through a reference at 24, to a young block at 40, and a root set at 64 that holds the
  old cell; the young cell at 80 is garbage.
\<close>

definition sample_heap :: gstore where
  "sample_heap = \<lparr>gs_cells = [0 \<mapsto> Block \<lparr>gb_gen = 1, gb_label = MIN_DATA_LABEL, gb_mutable = True, gb_childish = True, gb_args = [TrW 24, IntW 7]\<rparr>,
      24 \<mapsto> Block \<lparr>gb_gen = 0, gb_label = REF_LABEL, gb_mutable = True, gb_childish = False, gb_args = [BlkW 40]\<rparr>,
      40 \<mapsto> Block \<lparr>gb_gen = 0, gb_label = MIN_DATA_LABEL, gb_mutable = False, gb_childish = False, gb_args = [IntW 1, BlkW 0]\<rparr>,
      64 \<mapsto> Block \<lparr>gb_gen = 0, gb_label = MIN_DATA_LABEL, gb_mutable = True, gb_childish = False, gb_args = [BlkW 0]\<rparr>,
      80 \<mapsto> Block \<lparr>gb_gen = 0, gb_label = MIN_DATA_LABEL, gb_mutable = True, gb_childish = False, gb_args = [BlkW 80]\<rparr>],
    gs_next = 96, gs_roots = (\<lambda>i. if i = 0 then [24, 40, 64, 80] else if i = 1 then [0] else []), gs_limit = (\<lambda>_. 100),
    gs_intgen = [0], gs_wkdict = [], gs_fin = [], gs_mapLs = IntW 0, gs_status = 0\<rparr>"

lemma sample_blocks: "get_block a sample_heap = Some b \<longleftrightarrow>
    a = 0 \<and> b = \<lparr>gb_gen = 1, gb_label = 0, gb_mutable = True, gb_childish = True, gb_args = [TrW 24, IntW 7]\<rparr> \<or>
    a = 24 \<and> b = \<lparr>gb_gen = 0, gb_label = 122, gb_mutable = True, gb_childish = False, gb_args = [BlkW 40]\<rparr> \<or>
    a = 40 \<and> b = \<lparr>gb_gen = 0, gb_label = 0, gb_mutable = False, gb_childish = False, gb_args = [IntW 1, BlkW 0]\<rparr> \<or>
    a = 64 \<and> b = \<lparr>gb_gen = 0, gb_label = 0, gb_mutable = True, gb_childish = False, gb_args = [BlkW 0]\<rparr> \<or>
    a = 80 \<and> b = \<lparr>gb_gen = 0, gb_label = 0, gb_mutable = True, gb_childish = False, gb_args = [BlkW 80]\<rparr>"
  by (auto simp: get_block_Some sample_heap_def split: if_splits)

lemma sample_fields:
  "gs_next sample_heap = 96" "gs_roots sample_heap i = (if i = 0 then [24, 40, 64, 80] else if i = 1 then [0] else [])"
  "gs_intgen sample_heap = [0]" "gs_wkdict sample_heap = []" "gs_mapLs sample_heap = IntW 0"
  by (simp_all add: sample_heap_def)

lemma sample_deref: "derefs sample_heap (TrW 24) (BlkW 40)"
proof (rule derefs_ref)
  show "gs_cells sample_heap 24 = Some (Block \<lparr>gb_gen = 0, gb_label = 122, gb_mutable = True, gb_childish = False, gb_args = [BlkW 40]\<rparr>)"
    using sample_blocks by (simp flip: get_block_Some)
qed simp_all

lemma sample_words: "word_ok sample_heap (IntW i)" "word_ok sample_heap (BlkW 0)" "word_ok sample_heap (BlkW 40)" "word_ok sample_heap (BlkW 80)" "word_ok sample_heap (TrW 24)"
  using sample_deref by (auto simp: word_ok_def Deref_iff target_ok_def sample_blocks)

lemma sample_points:
  assumes "points_to sample_heap a t"
  shows "(a, t) \<in> {(0, 24), (24, 40), (40, 0), (64, 0), (80, 80)}"
proof -
  obtain b i where b: "get_block a sample_heap = Some b" "i < length (gb_args b)" "RemoveTag (gb_args b ! i) = Some t" using assms unfolding points_to_def by blast
  from b(1) [unfolded sample_blocks] b(2,3) show ?thesis by (elim disjE conjE) (auto simp: less_Suc_eq)
qed

lemma sample_closed: "closed sample_heap"
  unfolding closed_def
proof (intro conjI allI impI)
  fix a b assume b: "get_block a sample_heap = Some b"
  then show "gb_gen b < STORE_GENERATION_NUM - 1" by (auto simp: sample_blocks)
  have "cheney_size b = Some (length (gb_args b))" using b by (auto simp: sample_blocks cheney_size_def)
  moreover have "\<forall>w \<in> set (gb_args b). word_ok sample_heap w" using b sample_words by (auto simp: sample_blocks)
  ultimately show "\<exists>n. cheney_size b = Some n \<and> n \<le> length (gb_args b) \<and> (\<forall>i < n. word_ok sample_heap (gb_args b ! i))" by auto
qed (auto simp: sample_heap_def split: if_splits)

lemma sample_inv: "heap_inv sample_heap" "root_ok sample_heap 64"
proof -
  have "a \<in> set (gs_intgen sample_heap)" if "get_block a sample_heap = Some b" "points_to sample_heap a t" "get_block t sample_heap = Some c" "gb_gen c < gb_gen b" for a t b c
    using sample_points [OF that(2)] that(1,3,4) by (elim insertE) (simp_all add: sample_blocks sample_fields)
  moreover have "gb_childish b \<longleftrightarrow> a \<in> set (gs_intgen sample_heap)" if "get_block a sample_heap = Some b" for a b
    using that unfolding sample_fields by (auto simp: sample_blocks)
  moreover have "get_block 0 sample_heap = Some \<lparr>gb_gen = 1, gb_label = 0, gb_mutable = True, gb_childish = True, gb_args = [TrW 24, IntW 7]\<rparr>" by (simp add: sample_blocks)
  then have "\<exists>b. get_block a sample_heap = Some b \<and> (gb_label b < CHUNK_LABEL \<or> gb_label b = DYNAMIC_LABEL)" if "a \<in> set (gs_intgen sample_heap)" for a
    using that by (auto simp: sample_fields)
  moreover have "distinct (gs_intgen sample_heap)" by (simp add: sample_fields)
  ultimately have barrier: "barrier sample_heap" unfolding barrier_def by blast
  have "a \<in> set (gs_roots sample_heap g) \<longleftrightarrow> gb_gen b = g" if "get_block a sample_heap = Some b" for a b g
    using that unfolding sample_fields by (auto simp: sample_blocks)
  moreover have "\<forall>g. \<forall>a \<in> set (gs_roots sample_heap g). a < gs_next sample_heap" "gs_roots sample_heap (STORE_GENERATION_NUM - 1) = []" by (auto simp: sample_fields)
  ultimately have "spaces sample_heap" unfolding spaces_def by blast
  then show "heap_inv sample_heap" using sample_closed barrier by (simp add: heap_inv_def)
  show "root_ok sample_heap 64" by (simp add: root_ok_def sample_blocks)
qed


end
