(* ===== verification/Collector_Run.thy ===== *)
theory Collector_Run
  imports Collector_Props
begin

text \<open>
  The mutator and the collector together: the write barrier (\<^verbatim>\<open>Block::ReplaceArg\<close>, \<^verbatim>\<open>Store::JITReplaceArg\<close>) and allocation keep the
  heap well-formed, so that every collection of a run finds what it relies on.
\<close>

section \<open>The write barrier\<close>

lemma JITReplaceArg_eq: "JITReplaceArg i p v S = ReplaceArgUnchecked p i v S"
proof (cases "get_block p S")
  case None
  then show ?thesis by (cases "RemoveTag v"; cases "get_block (the (RemoveTag v)) S") (simp_all add: JITReplaceArg_def ReplaceArgUnchecked_def init_arg_def)
next
  case (Some b)
  show ?thesis
  proof (cases "i < length (gb_args b)")
    case True
    then show ?thesis using Some
      by (cases b; cases S; cases "RemoveTag v"; cases "get_block (the (RemoveTag v)) S")
        (auto simp: JITReplaceArg_def ReplaceArgUnchecked_def init_arg_def AddToIntgenSet_def Block_SetArg_def put_block_def get_block_def)
  next
    case False
    then show ?thesis using Some
      by (cases "RemoveTag v"; cases "get_block (the (RemoveTag v)) S")
        (auto simp: JITReplaceArg_def ReplaceArgUnchecked_def init_arg_def AddToIntgenSet_def Block_SetArg_def put_block_def get_block_def)
  qed
qed

text \<open>What a write changes, apart from references.\<close>

definition written :: "addr \<Rightarrow> nat \<Rightarrow> store_word \<Rightarrow> gblock \<Rightarrow> gstore \<Rightarrow> gstore" where
  "written p i v b S =
     (let younger = (\<exists>t c. RemoveTag v = Some t \<and> get_block t S = Some c \<and> gb_gen c < gb_gen b) \<and> \<not> gb_childish b
      in (put_block p (b\<lparr>gb_args := (gb_args b)[i := v], gb_childish := gb_childish b \<or> younger\<rparr>) S)\<lparr>gs_intgen := gs_intgen S @ (if younger then [p] else [])\<rparr>)"

lemma ReplaceArg_written:
  assumes "get_block p S = Some b" and "i < length (gb_args b)" and "\<forall>t. RemoveTag v = Some t \<longrightarrow> get_block t S \<noteq> None"
  shows "ReplaceArgUnchecked p i v S = Some (written p i v b S)"
proof (cases "RemoveTag v")
  case None
  then show ?thesis using assms by (simp add: ReplaceArgUnchecked_def init_arg_Some written_def Let_def put_block_def)
next
  case (Some t)
  then obtain c where c: "get_block t S = Some c" using assms(3) by auto
  then show ?thesis using assms(1,2) Some
    by (cases b) (auto simp: ReplaceArgUnchecked_def init_arg_Some written_def Let_def AddToIntgenSet_def put_block_def get_block_def)
qed

text \<open>References are not affected by a change of another block that keeps its label, nor by a new block.\<close>

lemma derefs_other:
  assumes "derefs S w v" and "\<And>a b. gs_cells S a = Some (Block b) \<Longrightarrow> gb_label b = REF_LABEL \<Longrightarrow> gs_cells S' a = Some (Block b)"
    and "\<And>a b. gs_cells S a = Some (Block b) \<Longrightarrow> gb_label b \<noteq> REF_LABEL \<Longrightarrow> \<exists>b'. gs_cells S' a = Some (Block b') \<and> gb_label b' \<noteq> REF_LABEL"
    and "\<And>a np as. gs_cells S a = Some (Moved np as) \<Longrightarrow> gs_cells S' a = Some (Moved np as)"
  shows "derefs S' w v"
  using assms(1)
proof (induction rule: derefs.induct)
  case (derefs_stop a b)
  then show ?case using assms(3) derefs.derefs_stop by metis
next
  case (derefs_ref a b v)
  then show ?case using assms(2) derefs.derefs_ref by metis
qed (auto intro: derefs.intros assms(4))

text \<open>A heap \<open>S'\<close> that has the blocks of \<open>S\<close>, apart from the arguments of \<open>p\<close> and from new blocks.\<close>

definition stable :: "gstore \<Rightarrow> gstore \<Rightarrow> bool" where
  "stable S S' \<longleftrightarrow> (\<forall>a np as. gs_cells S a = Some (Moved np as) \<longrightarrow> gs_cells S' a = Some (Moved np as)) \<and>
     (\<forall>a b. get_block a S = Some b \<longrightarrow> (\<exists>b'. get_block a S' = Some b' \<and> gb_label b' = gb_label b \<and> gb_gen b' = gb_gen b \<and> (gb_label b = REF_LABEL \<longrightarrow> b' = b)))"

lemma stable_word:
  assumes "stable S S'" and "word_ok S w"
  shows "word_ok S' w"
proof -
  obtain v where v: "derefs S w v" "target_ok S v" using assms(2) by (auto simp: word_ok_def Deref_iff)
  have st: "\<exists>b'. gs_cells S' a = Some (Block b') \<and> gb_label b' = gb_label b \<and> (gb_label b = REF_LABEL \<longrightarrow> b' = b)" if "gs_cells S a = Some (Block b)" for a b
    using assms(1) that unfolding stable_def get_block_Some by blast
  have "derefs S' w v"
  proof (rule derefs_other [OF v(1)])
    show "gs_cells S' a = Some (Block b)" if "gs_cells S a = Some (Block b)" "gb_label b = REF_LABEL" for a b using st [OF that(1)] that(2) by auto
    show "\<exists>b'. gs_cells S' a = Some (Block b') \<and> gb_label b' \<noteq> REF_LABEL" if "gs_cells S a = Some (Block b)" "gb_label b \<noteq> REF_LABEL" for a b using st [OF that(1)] that(2) by auto
    show "gs_cells S' a = Some (Moved np as)" if "gs_cells S a = Some (Moved np as)" for a np as using assms(1) that by (auto simp: stable_def)
  qed
  moreover have "target_ok S' v" using v(2) assms(1) unfolding target_ok_def stable_def by metis
  ultimately show ?thesis by (auto simp: word_ok_def Deref_iff)
qed

lemma size_write:
  assumes "cheney_size b = Some n" and "i < n" and "gb_label b = DYNAMIC_LABEL \<longrightarrow> 0 < i"
  shows "cheney_size (b\<lparr>gb_args := (gb_args b)[i := v], gb_childish := c\<rparr>) = Some n"
  using assms by (auto simp: cheney_size_def GetScanSize_def Block_GetArg_def run_elims split: if_splits)

lemma word_target: "word_ok S v \<Longrightarrow> RemoveTag v = Some t \<Longrightarrow> get_block t S \<noteq> None"
  using word_direct by fastforce

lemma written_fields:
  "gs_next (written p i v b S) = gs_next S" "gs_roots (written p i v b S) = gs_roots S"
  "gs_wkdict (written p i v b S) = gs_wkdict S" "gs_mapLs (written p i v b S) = gs_mapLs S"
  by (simp_all add: written_def Let_def put_block_def)

lemma written_block:
  assumes "get_block p S = Some b"
  obtains c where "get_block p (written p i v b S) = Some (b\<lparr>gb_args := (gb_args b)[i := v], gb_childish := c\<rparr>)"
    and "\<forall>a. a \<noteq> p \<longrightarrow> gs_cells (written p i v b S) a = gs_cells S a"
    and "gs_intgen (written p i v b S) = (if c \<and> \<not> gb_childish b then gs_intgen S @ [p] else gs_intgen S)"
    and "\<forall>t d. RemoveTag v = Some t \<and> get_block t S = Some d \<and> gb_gen d < gb_gen b \<longrightarrow> c"
    and "gb_childish b \<longrightarrow> c"
proof -
  let ?y = "\<exists>t c. RemoveTag v = Some t \<and> get_block t S = Some c \<and> gb_gen c < gb_gen b"
  have "gs_intgen (written p i v b S) = (if (gb_childish b \<or> ?y) \<and> \<not> gb_childish b then gs_intgen S @ [p] else gs_intgen S)"
    by (auto simp: written_def Let_def put_block_def)
  moreover have "get_block p (written p i v b S) = Some (b\<lparr>gb_args := (gb_args b)[i := v], gb_childish := gb_childish b \<or> ?y\<rparr>)"
    by (cases b) (auto simp: written_def Let_def put_block_def get_block_Some)
  moreover have "\<forall>a. a \<noteq> p \<longrightarrow> gs_cells (written p i v b S) a = gs_cells S a" by (simp add: written_def Let_def put_block_def)
  ultimately show ?thesis using that [of "gb_childish b \<or> ?y"] by blast
qed

text \<open>A write into a block \<open>b\<close> at \<open>p\<close> that is not a reference: the argument \<open>i\<close> is one of those that are scanned.\<close>

definition writable :: "gstore \<Rightarrow> addr \<Rightarrow> nat \<Rightarrow> gblock \<Rightarrow> bool" where
  "writable S p i b \<longleftrightarrow> get_block p S = Some b \<and> gb_label b \<noteq> REF_LABEL \<and> (gb_label b = DYNAMIC_LABEL \<longrightarrow> 0 < i) \<and> (\<exists>n. cheney_size b = Some n \<and> i < n)"

lemma written_other: "writable S p i b \<Longrightarrow> a \<noteq> p \<Longrightarrow> get_block a (written p i v b S) = get_block a S"
  by (simp add: written_def Let_def get_block_def put_block_def)

lemma written_stable:
  assumes "writable S p i b"
  shows "stable S (written p i v b S)"
  unfolding stable_def
proof (intro conjI allI impI)
  let ?S = "written p i v b S"
  have p: "get_block p S = Some b" "gb_label b \<noteq> REF_LABEL" using assms by (auto simp: writable_def)
  obtain c where c: "get_block p ?S = Some (b\<lparr>gb_args := (gb_args b)[i := v], gb_childish := c\<rparr>)" "\<forall>a. a \<noteq> p \<longrightarrow> gs_cells ?S a = gs_cells S a" using written_block [OF p(1), of i v] .
  show "\<exists>b'. get_block a ?S = Some b' \<and> gb_label b' = gb_label d \<and> gb_gen b' = gb_gen d \<and> (gb_label d = REF_LABEL \<longrightarrow> b' = d)" if "get_block a S = Some d" for a d
    using that c(1) written_other [OF assms, of a v] p by (cases "a = p") auto
  show "gs_cells ?S a = Some (Moved np as)" if "gs_cells S a = Some (Moved np as)" for a np as
    using that c(2) p(1) by (cases "a = p") (auto simp: get_block_Some)
qed

lemma written_old: "writable S p i b \<Longrightarrow> get_block a (written p i v b S) = Some d' \<Longrightarrow> \<exists>d. get_block a S = Some d"
  by (cases "a = p") (auto simp: written_other, simp add: writable_def)

lemma stable_gen: "stable S S' \<Longrightarrow> get_block a S = Some d \<Longrightarrow> get_block a S' = Some d' \<Longrightarrow> gb_gen d' = gb_gen d"
  unfolding stable_def by (metis option.inject)

lemma writable_block:
  assumes "writable S p i b" and "closed S"
  obtains n c where "get_block p (written p i v b S) = Some (b\<lparr>gb_args := (gb_args b)[i := v], gb_childish := c\<rparr>)" and "cheney_size b = Some n"
    and "cheney_size (b\<lparr>gb_args := (gb_args b)[i := v], gb_childish := c\<rparr>) = Some n" and "n \<le> length (gb_args b)" and "i < n" and "\<forall>j < n. word_ok S (gb_args b ! j)"
    and "gs_intgen (written p i v b S) = (if c \<and> \<not> gb_childish b then gs_intgen S @ [p] else gs_intgen S)"
    and "\<forall>t d. RemoveTag v = Some t \<and> get_block t S = Some d \<and> gb_gen d < gb_gen b \<longrightarrow> c" and "gb_childish b \<longrightarrow> c"
proof -
  have p: "get_block p S = Some b" using assms by (auto simp: writable_def)
  obtain k where k: "cheney_size b = Some k" "k \<le> length (gb_args b)" "\<forall>i < k. word_ok S (gb_args b ! i)" using closed_block [OF assms(2) p] .
  moreover have "i < k" "gb_label b = DYNAMIC_LABEL \<longrightarrow> 0 < i" using assms(1) k(1) by (auto simp: writable_def)
  moreover obtain c where "get_block p (written p i v b S) = Some (b\<lparr>gb_args := (gb_args b)[i := v], gb_childish := c\<rparr>)"
    "gs_intgen (written p i v b S) = (if c \<and> \<not> gb_childish b then gs_intgen S @ [p] else gs_intgen S)"
    "\<forall>t d. RemoveTag v = Some t \<and> get_block t S = Some d \<and> gb_gen d < gb_gen b \<longrightarrow> c" "gb_childish b \<longrightarrow> c" using written_block [OF p, of i v] .
  ultimately show ?thesis using that [of c k] size_write by blast
qed

lemma written_closed:
  assumes "writable S p i b" and "closed S" and "word_ok S v"
  shows "closed (written p i v b S)"
  unfolding closed_def
proof (intro conjI allI impI)
  let ?S = "written p i v b S"
  note st = written_stable [OF assms(1), of v]
  obtain n c where n: "get_block p ?S = Some (b\<lparr>gb_args := (gb_args b)[i := v], gb_childish := c\<rparr>)" "cheney_size (b\<lparr>gb_args := (gb_args b)[i := v], gb_childish := c\<rparr>) = Some n"
    "n \<le> length (gb_args b)" "i < n" "\<forall>j < n. word_ok S (gb_args b ! j)" using writable_block [OF assms(1,2), of v] .
  fix a
  show "gb_gen d < STORE_GENERATION_NUM - 1" if d: "get_block a ?S = Some d" for d
    using written_old [OF assms(1) d] stable_gen [OF st _ d] assms(2) unfolding closed_def by metis
  show "\<exists>n. cheney_size d = Some n \<and> n \<le> length (gb_args d) \<and> (\<forall>i < n. word_ok ?S (gb_args d ! i))" if d: "get_block a ?S = Some d" for d
  proof (cases "a = p")
    case True
    have "word_ok ?S ((gb_args b)[i := v] ! j)" if "j < n" for j using that stable_word [OF st] assms(3) n(3-5) by (cases "j = i") auto
    then show ?thesis using True d n(1-3) by auto
  next
    case False
    then show ?thesis using d written_other [OF assms(1) False] closed_block [OF assms(2), of a d] stable_word [OF st] by metis
  qed
  assume "gs_cells ?S a \<noteq> None"
  moreover have "gs_cells S p \<noteq> None" using assms(1) by (auto simp: writable_def get_block_Some)
  ultimately have "gs_cells S a \<noteq> None" by (cases "a = p") (auto simp: written_def Let_def cells_put_block)
  then show "a < gs_next ?S" using assms(2) by (simp add: closed_def written_fields)
qed

lemma barrierD:
  assumes "barrier S"
  shows "get_block a S = Some b \<Longrightarrow> points_to S a t \<Longrightarrow> get_block t S = Some c \<Longrightarrow> gb_gen c < gb_gen b \<Longrightarrow> a \<in> set (gs_intgen S)"
    and "distinct (gs_intgen S)" and "a \<in> set (gs_intgen S) \<Longrightarrow> \<exists>b. get_block a S = Some b \<and> (gb_label b < CHUNK_LABEL \<or> gb_label b = DYNAMIC_LABEL)"
    and "get_block a S = Some b \<Longrightarrow> gb_childish b \<longleftrightarrow> a \<in> set (gs_intgen S)"
  using assms unfolding barrier_def by blast+

text \<open>The only new pointer is the one that is written.\<close>

lemma written_points:
  assumes "writable S p i b" and "closed S" and "points_to (written p i v b S) a t"
  shows "points_to S a t \<or> a = p \<and> RemoveTag v = Some t"
proof (cases "a = p")
  case True
  obtain n c where n: "get_block p (written p i v b S) = Some (b\<lparr>gb_args := (gb_args b)[i := v], gb_childish := c\<rparr>)" "cheney_size b = Some n"
    "cheney_size (b\<lparr>gb_args := (gb_args b)[i := v], gb_childish := c\<rparr>) = Some n" "n \<le> length (gb_args b)" "i < n" using writable_block [OF assms(1,2), of v] .
  then obtain j where j: "j < n" "RemoveTag ((gb_args b)[i := v] ! j) = Some t" using assms(3) unfolding points_to_def True by auto
  show ?thesis
  proof (cases "j = i")
    case False
    then show ?thesis using j n(2,4) assms(1) unfolding points_to_def True writable_def by auto
  qed (use j n(4,5) True in auto)
next
  case False
  then show ?thesis using assms(3) written_other [OF assms(1) False] unfolding points_to_def by metis
qed

lemma written_barrier:
  assumes "writable S p i b" and "closed S" and "barrier S"
  shows "barrier (written p i v b S)"
proof -
  let ?S = "written p i v b S"
  note b = barrierD [OF assms(3)] and st = written_stable [OF assms(1), of v] and old = written_old [OF assms(1), of _ v]
  have p: "get_block p S = Some b" using assms(1) by (simp add: writable_def)
  obtain n c where n: "get_block p ?S = Some (b\<lparr>gb_args := (gb_args b)[i := v], gb_childish := c\<rparr>)" "cheney_size b = Some n" "i < n"
    "gs_intgen ?S = (if c \<and> \<not> gb_childish b then gs_intgen S @ [p] else gs_intgen S)"
    "\<forall>t d. RemoveTag v = Some t \<and> get_block t S = Some d \<and> gb_gen d < gb_gen b \<longrightarrow> c" "gb_childish b \<longrightarrow> c" using writable_block [OF assms(1,2), of v] .
  have set: "set (gs_intgen ?S) = set (gs_intgen S) \<union> (if c then {p} else {})" using n(4,6) b(4) [OF p] by auto
  have label: "gb_label b < CHUNK_LABEL \<or> gb_label b = DYNAMIC_LABEL" using n(2,3) by (auto simp: cheney_size_def split: if_splits)
  have "a \<in> set (gs_intgen ?S)" if h: "get_block a ?S = Some d" "points_to ?S a t" "get_block t ?S = Some e" "gb_gen e < gb_gen d" for a t d e
  proof -
    obtain d0 e0 where 0: "get_block a S = Some d0" "get_block t S = Some e0" using old h(1,3) by metis
    then have "gb_gen e0 < gb_gen d0" using h stable_gen [OF st] by metis
    then show ?thesis using written_points [OF assms(1,2) h(2)] b(1) [OF 0(1) _ 0(2)] n(5) 0 p set by auto
  qed
  moreover have "distinct (gs_intgen ?S)" using n(4) b(2) b(4) [OF p] by auto
  moreover have "\<exists>d. get_block a ?S = Some d \<and> (gb_label d < CHUNK_LABEL \<or> gb_label d = DYNAMIC_LABEL)" if a: "a \<in> set (gs_intgen ?S)" for a
  proof (cases "a = p")
    case True
    then show ?thesis using n(1) label by simp
  next
    case False
    then show ?thesis using a set b(3) written_other [OF assms(1) False] by (auto split: if_splits)
  qed
  moreover have "gb_childish d \<longleftrightarrow> a \<in> set (gs_intgen ?S)" if d: "get_block a ?S = Some d" for a d
  proof (cases "a = p")
    case True
    then show ?thesis using d n(1,6) set b(4) [OF p] by auto
  next
    case False
    then show ?thesis using d set b(4) written_other [OF assms(1) False] by (auto split: if_splits)
  qed
  ultimately show ?thesis unfolding barrier_def by blast
qed

lemma written_inv:
  assumes "heap_inv S" and "writable S p i b" and "word_ok S v"
  shows "heap_inv (written p i v b S)"
proof -
  let ?S = "written p i v b S"
  have inv: "closed S" "barrier S" "spaces S" using assms(1) by (simp_all add: heap_inv_def)
  have "gb_gen d = g \<longleftrightarrow> a \<in> set (gs_roots S g)" if d: "get_block a ?S = Some d" for a d g
  proof -
    obtain e where e: "get_block a S = Some e" using written_old [OF assms(2) d] by blast
    then have "gb_gen e = g \<longleftrightarrow> a \<in> set (gs_roots S g)" using inv(3) unfolding spaces_def by blast
    then show ?thesis using stable_gen [OF written_stable [OF assms(2)] e d] by simp
  qed
  then have "spaces ?S" using inv(3) unfolding spaces_def written_fields by blast
  then show ?thesis using written_closed [OF assms(2) inv(1) assms(3)] written_barrier [OF assms(2) inv(1,2)] by (simp add: heap_inv_def)
qed

section \<open>Allocation\<close>

text \<open>A new block is young, so there is nothing younger that it could refer to.\<close>

definition allocated :: "gstore \<Rightarrow> addr \<Rightarrow> gblock \<Rightarrow> gstore \<Rightarrow> bool" where
  "allocated S p b S' \<longleftrightarrow> p = gs_next S \<and> gb_gen b = 0 \<and> \<not> gb_childish b \<and> gb_label b < CHUNK_LABEL \<and> (\<forall>w \<in> set (gb_args b). word_ok S w) \<and>
     S' = S\<lparr>gs_cells := (gs_cells S)(p \<mapsto> Block b), gs_next := p + SIZEOF_BLOCK (length (gb_args b)), gs_roots := (gs_roots S)(0 := gs_roots S 0 @ [p])\<rparr>"

lemma alloc_allocated:
  "gc_Alloc 0 l mut args S = (p, S') \<Longrightarrow> l < CHUNK_LABEL \<Longrightarrow> \<forall>w \<in> set args. word_ok S w \<Longrightarrow>
    allocated S p \<lparr>gb_gen = 0, gb_label = l, gb_mutable = mut, gb_childish = False, gb_args = args\<rparr> S'"
  by (auto simp: gc_Alloc_def header_gen_def allocated_def)

lemma allocated_free: "allocated S p b S' \<Longrightarrow> closed S \<Longrightarrow> gs_cells S p = None"
  unfolding allocated_def closed_def by blast

lemma allocated_block: "allocated S p b S' \<Longrightarrow> get_block a S' = (if a = p then Some b else get_block a S)"
  by (auto simp: allocated_def get_block_def)

lemma allocated_stable:
  assumes "allocated S p b S'" and "closed S"
  shows "stable S S'"
  unfolding stable_def
proof (intro conjI allI impI)
  note free = allocated_free [OF assms]
  show "gs_cells S' a = Some (Moved np as)" if "gs_cells S a = Some (Moved np as)" for a np as using that free assms(1) by (auto simp: allocated_def)
  show "\<exists>b'. get_block a S' = Some b' \<and> gb_label b' = gb_label d \<and> gb_gen b' = gb_gen d \<and> (gb_label d = REF_LABEL \<longrightarrow> b' = d)" if "get_block a S = Some d" for a d
    using that free allocated_block [OF assms(1), of a] by (auto simp: get_block_Some)
qed

lemma allocated_closed:
  assumes "allocated S p b S'" and "closed S"
  shows "closed S'"
  unfolding closed_def
proof (intro conjI allI impI)
  note at = allocated_block [OF assms(1)] and keep = stable_word [OF allocated_stable [OF assms]]
  have b: "gb_gen b = 0" "gb_label b < CHUNK_LABEL" "\<forall>w \<in> set (gb_args b). word_ok S w" using assms(1) by (auto simp: allocated_def)
  fix a
  show "gb_gen d < STORE_GENERATION_NUM - 1" if "get_block a S' = Some d" for d using that at assms(2) b(1) unfolding closed_def by (cases "a = p") auto
  show "\<exists>n. cheney_size d = Some n \<and> n \<le> length (gb_args d) \<and> (\<forall>i < n. word_ok S' (gb_args d ! i))" if d: "get_block a S' = Some d" for d
  proof (cases "a = p")
    case True
    then show ?thesis using d at b keep by (auto simp: cheney_size_def)
  next
    case False
    then show ?thesis using d at closed_block [OF assms(2), of a d] keep by metis
  qed
  assume "gs_cells S' a \<noteq> None"
  then have "a = p \<or> a < p" using assms unfolding allocated_def closed_def by (auto split: if_splits)
  then show "a < gs_next S'" using assms(1) SIZEOF_pos [of p "length (gb_args b)"] unfolding allocated_def by auto
qed

lemma allocated_barrier:
  assumes "allocated S p b S'" and "closed S" and "barrier S"
  shows "barrier S'"
proof -
  note b = barrierD [OF assms(3)] and at = allocated_block [OF assms(1)]
  have free: "get_block p S = None" using allocated_free [OF assms(1,2)] by (simp add: get_block_def)
  have new: "gs_intgen S' = gs_intgen S" "gb_gen b = 0" "\<not> gb_childish b" using assms(1) by (auto simp: allocated_def)
  have in_old: "a \<noteq> p" if "a \<in> set (gs_intgen S)" for a using b(3) [OF that] free by auto
  have "a \<in> set (gs_intgen S)" if h: "get_block a S' = Some d" "points_to S' a t" "get_block t S' = Some e" "gb_gen e < gb_gen d" for a t d e
  proof -
    have a: "a \<noteq> p" "get_block a S = Some d" using h(1,4) at new(2) by (auto split: if_splits)
    then have pt: "points_to S a t" using h(2) at unfolding points_to_def by metis
    then obtain i where "RemoveTag (gb_args d ! i) = Some t" "word_ok S (gb_args d ! i)" using a(2) closed_block [OF assms(2) a(2)] unfolding points_to_def by (metis option.inject)
    then have "get_block t S \<noteq> None" by (rule word_target [rotated])
    then show ?thesis using b(1) [OF a(2) pt _ h(4)] h(3) at free by (auto split: if_splits)
  qed
  moreover have "gb_childish d \<longleftrightarrow> a \<in> set (gs_intgen S)" if "get_block a S' = Some d" for a d using that at new(3) b(4) in_old by (auto split: if_splits)
  moreover have "\<exists>d. get_block a S' = Some d \<and> (gb_label d < CHUNK_LABEL \<or> gb_label d = DYNAMIC_LABEL)" if "a \<in> set (gs_intgen S)" for a
    using b(3) [OF that] at in_old [OF that] by simp
  ultimately show ?thesis using b(2) unfolding barrier_def new(1) by blast
qed

lemma allocated_spaces:
  assumes "allocated S p b S'" and "spaces S"
  shows "spaces S'"
proof -
  have low: "a < p" if "a \<in> set (gs_roots S g)" for a g using that assms unfolding spaces_def allocated_def by blast
  have roots: "a \<in> set (gs_roots S' g) \<longleftrightarrow> a \<in> set (gs_roots S g) \<or> g = 0 \<and> a = p" for a g using assms(1) by (auto simp: allocated_def)
  have "a \<in> set (gs_roots S' g) \<longleftrightarrow> gb_gen d = g" if d: "get_block a S' = Some d" for a d g
  proof (cases "a = p")
    case True
    then have "a \<notin> set (gs_roots S g)" using low by blast
    then show ?thesis using True d allocated_block [OF assms(1)] roots assms(1) by (auto simp: allocated_def)
  next
    case False
    then have "get_block a S = Some d" using d allocated_block [OF assms(1)] by simp
    then show ?thesis using False assms(2) roots unfolding spaces_def by blast
  qed
  moreover have "a < gs_next S'" if "a \<in> set (gs_roots S' g)" for a g
  proof -
    have "a \<le> p" using that [unfolded roots] low [of a g] by auto
    then show ?thesis using SIZEOF_pos [of p "length (gb_args b)"] assms(1) unfolding allocated_def by auto
  qed
  moreover have "gs_roots S' (STORE_GENERATION_NUM - 1) = []" using assms unfolding spaces_def allocated_def by simp
  ultimately show ?thesis unfolding spaces_def by blast
qed

lemma alloc_inv: "heap_inv S \<Longrightarrow> allocated S p b S' \<Longrightarrow> heap_inv S'"
  by (simp add: heap_inv_def allocated_closed allocated_barrier allocated_spaces)

section \<open>Writing\<close>

lemma distinct_once: "distinct xs \<Longrightarrow> x \<in> set xs \<Longrightarrow> count_list xs x = 1"
  by (induction xs) (auto simp: count_list_0_iff)

text \<open>
  C37. The write barrier. A word that leads to a block is written into a mutable block of a well-formed heap, into one of the arguments that the
  collector scans. Then \<^verbatim>\<open>Block::ReplaceArg\<close> and \<^verbatim>\<open>Store::JITReplaceArg\<close>, which tests the generations before it writes, do the same; the
  block has the new argument and no other cell changes; and the heap is well-formed: if the word is a pointer to a younger
  generation then the block is now, exactly once, in the set of old blocks with young pointers.
\<close>

theorem write_barrier:
  assumes "heap_inv S" and "writable S p i b" and "gb_mutable b" and "word_ok S v"
  shows "\<exists>S' c. gc_ReplaceArg p i v S = Some S' \<and> JITReplaceArg i p v S = Some S' \<and> heap_inv S' \<and>
    get_block p S' = Some (b\<lparr>gb_args := (gb_args b)[i := v], gb_childish := c\<rparr>) \<and> (\<forall>a. a \<noteq> p \<longrightarrow> gs_cells S' a = gs_cells S a) \<and>
    (\<forall>t d. RemoveTag v = Some t \<and> get_block t S = Some d \<and> gb_gen d < gb_gen b \<longrightarrow> count_list (gs_intgen S') p = 1)"
proof -
  let ?S = "written p i v b S"
  have closed: "closed S" and p: "get_block p S = Some b" using assms(1,2) by (auto simp: heap_inv_def writable_def)
  obtain n c where n: "get_block p ?S = Some (b\<lparr>gb_args := (gb_args b)[i := v], gb_childish := c\<rparr>)" "n \<le> length (gb_args b)" "i < n"
    "\<forall>t d. RemoveTag v = Some t \<and> get_block t S = Some d \<and> gb_gen d < gb_gen b \<longrightarrow> c" using writable_block [OF assms(2) closed, of v] .
  have eq: "ReplaceArgUnchecked p i v S = Some ?S" using ReplaceArg_written [OF p] n(2,3) word_target [OF assms(4)] by auto
  have inv: "heap_inv ?S" using written_inv [OF assms(1,2,4)] .
  then have b: "distinct (gs_intgen ?S)" "c \<longleftrightarrow> p \<in> set (gs_intgen ?S)" using barrierD(2) [of ?S] barrierD(4) [OF _ n(1)] by (simp_all add: heap_inv_def)
  have "count_list (gs_intgen ?S) p = 1" if c using b that by (simp add: distinct_once)
  then show ?thesis using eq inv n(1,4) p assms(3) JITReplaceArg_eq by (intro exI [of _ ?S] exI [of _ c]) (auto simp: gc_ReplaceArg_def written_def Let_def cells_put_block)
qed

section \<open>Runs\<close>

text \<open>Allocations, writes and collections, in any order.\<close>

inductive heap_step :: "gstore \<Rightarrow> gstore \<Rightarrow> bool" where
  step_alloc: "gc_Alloc 0 l mut args S = (p, S') \<Longrightarrow> l < CHUNK_LABEL \<Longrightarrow> \<forall>w \<in> set args. word_ok S w \<Longrightarrow> heap_step S S'"
| step_write: "writable S p i b \<Longrightarrow> word_ok S v \<Longrightarrow> gc_ReplaceArg p i v S = Some S' \<Longrightarrow> heap_step S S'"
| step_collect: "root_ok S r \<Longrightarrow> DoGCWithoutFinalize sz memTolerance (BlkW r) S = Some (BlkW r', S') \<Longrightarrow> heap_step S S'"

definition run_inv :: "gstore \<Rightarrow> bool" where
  "run_inv S \<longleftrightarrow> heap_inv S \<and> gs_wkdict S = [] \<and> gs_mapLs S = IntW 0"

lemma ReplaceArg_cases:
  assumes "gc_ReplaceArg p i v S = Some S'" and "closed S" and "writable S p i b" and "word_ok S v"
  shows "S' = written p i v b S"
proof -
  have p: "get_block p S = Some b" using assms(3) by (simp add: writable_def)
  obtain n where "n \<le> length (gb_args b)" "i < n" using writable_block [OF assms(3,2), of v] .
  then have "ReplaceArgUnchecked p i v S = Some (written p i v b S)" using ReplaceArg_written [OF p] word_target [OF assms(4)] by auto
  then show ?thesis using assms(1) p by (auto simp: gc_ReplaceArg_def run_elims)
qed

lemma step_inv: "heap_step S S' \<Longrightarrow> run_inv S \<Longrightarrow> run_inv S'"
proof (induction rule: heap_step.induct)
  case (step_alloc l mut args S p S')
  from alloc_allocated [OF step_alloc.hyps] have a: "allocated S p \<lparr>gb_gen = 0, gb_label = l, gb_mutable = mut, gb_childish = False, gb_args = args\<rparr> S'" .
  then show ?case using alloc_inv [OF _ a] step_alloc.prems by (simp add: run_inv_def) (simp add: allocated_def)
next
  case (step_write S p i b v S')
  then have "S' = written p i v b S" using ReplaceArg_cases by (auto simp: run_inv_def heap_inv_def)
  then show ?case using written_inv step_write by (auto simp: run_inv_def written_fields)
next
  case (step_collect S r sz memTolerance r' S')
  then show ?case using DoGC_collects [of S r sz memTolerance] unfolding run_inv_def by (metis option.inject prod.inject)
qed


section \<open>Examples\<close>

lemma sample_writable:
  assumes "b = \<lparr>gb_gen = 1, gb_label = 0, gb_mutable = True, gb_childish = True, gb_args = [TrW 24, IntW 7]\<rparr>"
  shows "writable sample_heap 0 1 b" "word_ok sample_heap (BlkW 40)"
  using assms sample_words by (auto simp: writable_def sample_blocks cheney_size_def)

theorem write_barrier_witness:
  "\<exists>S' c. gc_ReplaceArg 0 1 (BlkW 40) sample_heap = Some S' \<and> JITReplaceArg 1 0 (BlkW 40) sample_heap = Some S' \<and> heap_inv S' \<and>
    get_block 0 S' = Some \<lparr>gb_gen = 1, gb_label = 0, gb_mutable = True, gb_childish = c, gb_args = [TrW 24, BlkW 40]\<rparr> \<and> count_list (gs_intgen S') 0 = 1"
proof -
  let ?b = "\<lparr>gb_gen = 1, gb_label = 0, gb_mutable = True, gb_childish = True, gb_args = [TrW 24, IntW 7]\<rparr>"
  have "get_block 40 sample_heap = Some \<lparr>gb_gen = 0, gb_label = 0, gb_mutable = False, gb_childish = False, gb_args = [IntW 1, BlkW 0]\<rparr>" by (simp add: sample_blocks)
  then show ?thesis using write_barrier [OF sample_inv(1) sample_writable(1) [OF refl] _ sample_writable(2) [OF refl]] by fastforce
qed


end
