(* ===== verification/Imp_Map.thy ===== *)
theory Imp_Map
  imports Alice_Data
begin

text \<open>
  The imperative maps of the library: \<^verbatim>\<open>alice/vm-seam/alice/lib/utility/UnsafeImpMap.cc\<close> and the maps and cells of
  \<^verbatim>\<open>UnsafeCell.cc\<close>, which has the same code for keys that are cells.

  A map is a hash table from keys to entries; the entries form a doubly linked list, the last one that was inserted first. Entries and maps are
  blocks of the state \<open>sched\<close> with the label of tuples, the table is one of its hash maps. The traversals are workers: their frames hold the
  entry, the closure and the operation, and the scheduler runs them again when the closure returns.

  \<open>store_debug\<close> says whether the assertions of the store (\<^verbatim>\<open>AssertStore\<close>) are compiled in; \<^verbatim>\<open>DECLARE_KEY\<close> encodes an integer that is
  out of range, where the two builds differ.
\<close>

section \<open>Entries\<close>

definition ENTRY_KEY :: nat where "ENTRY_KEY = 0"
definition ENTRY_VALUE :: nat where "ENTRY_VALUE = 1"
definition ENTRY_PREV :: nat where "ENTRY_PREV = 2"
definition ENTRY_NEXT :: nat where "ENTRY_NEXT = 3"
definition ENTRY_SIZE :: nat where "ENTRY_SIZE = 4"

definition ImpMapEntry_New :: "store_word \<Rightarrow> store_word \<Rightarrow> addr option \<Rightarrow> sched \<Rightarrow> (addr \<times> sched) option" where
  "ImpMapEntry_New key v nxt s = (case nxt of
     Some n \<Rightarrow> do {
       let (b, s1) = new_block TUPLE_LABEL [key, v, IntW 0, BlkW n] s;
       s2 \<leftarrow> block_set n ENTRY_PREV (BlkW b) s1;
       Some (b, s2) }
   | None \<Rightarrow> Some (new_block TUPLE_LABEL [key, v, IntW 0, IntW 0] s))"

definition ImpMapEntry_FromWordDirect :: "sched \<Rightarrow> store_word \<Rightarrow> addr option" where
  "ImpMapEntry_FromWordDirect s w = do {
     a \<leftarrow> DirectWordToBlock w;
     (l, ws) \<leftarrow> sc_blocks s a;
     Assert (l = TUPLE_LABEL \<and> length ws = ENTRY_SIZE);
     Some a }"

text \<open>The entry that a field leads to; \<open>None\<close> is \<^verbatim>\<open>INVALID_POINTER\<close>.\<close>

definition entry_or_zero :: "sched \<Rightarrow> store_word \<Rightarrow> addr option option" where
  "entry_or_zero s w = (if w = IntW 0 then Some None else do { a \<leftarrow> ImpMapEntry_FromWordDirect s w; Some (Some a) })"

definition ImpMapEntry_GetKey :: "addr \<Rightarrow> sched \<Rightarrow> store_word option" where
  "ImpMapEntry_GetKey e s = block_get e ENTRY_KEY s"

definition ImpMapEntry_GetValue :: "addr \<Rightarrow> sched \<Rightarrow> store_word option" where
  "ImpMapEntry_GetValue e s = block_get e ENTRY_VALUE s"

definition ImpMapEntry_SetValue :: "addr \<Rightarrow> store_word \<Rightarrow> sched \<Rightarrow> sched option" where
  "ImpMapEntry_SetValue e v s = block_set e ENTRY_VALUE v s"

definition ImpMapEntry_GetNext :: "addr \<Rightarrow> sched \<Rightarrow> addr option option" where
  "ImpMapEntry_GetNext e s = do { n \<leftarrow> block_get e ENTRY_NEXT s; entry_or_zero s n }"

definition ImpMapEntry_Unlink :: "addr \<Rightarrow> sched \<Rightarrow> (store_word \<times> sched) option" where
  "ImpMapEntry_Unlink e s = do {
     prv \<leftarrow> block_get e ENTRY_PREV s;
     nxt \<leftarrow> block_get e ENTRY_NEXT s;
     s1 \<leftarrow> (if nxt \<noteq> IntW 0 then do { n \<leftarrow> ImpMapEntry_FromWordDirect s nxt; block_set n ENTRY_PREV prv s } else Some s);
     if prv \<noteq> IntW 0 then do {
       p \<leftarrow> ImpMapEntry_FromWordDirect s1 prv;
       s2 \<leftarrow> block_set p ENTRY_NEXT nxt s1;
       Some (IntW 1, s2) }
     else Some (nxt, s1) }"

section \<open>Maps\<close>

definition HASHTABLE_POS :: nat where "HASHTABLE_POS = 0"
definition HEAD_POS :: nat where "HEAD_POS = 1"
definition IMPMAP_SIZE :: nat where "IMPMAP_SIZE = 2"
definition ImpMap_initialSize :: nat where "ImpMap_initialSize = 8"

text \<open>The operations of \<^verbatim>\<open>Map\<close> on the table at \<open>h\<close>.\<close>

definition table_put :: "addr \<Rightarrow> store_word \<Rightarrow> store_word \<Rightarrow> sched \<Rightarrow> sched option" where
  "table_put h key v s = do {
     m \<leftarrow> sc_maps s h;
     m' \<leftarrow> Map_Put WordKey_Hash WordKey_Equals no_transient key v m;
     Some (s\<lparr>sc_maps := (sc_maps s)(h \<mapsto> m')\<rparr>) }"

definition table_remove :: "addr \<Rightarrow> store_word \<Rightarrow> sched \<Rightarrow> sched option" where
  "table_remove h key s = do {
     m \<leftarrow> sc_maps s h;
     m' \<leftarrow> Map_Remove WordKey_Hash WordKey_Equals no_transient key m;
     Some (s\<lparr>sc_maps := (sc_maps s)(h \<mapsto> m')\<rparr>) }"

definition table_get :: "addr \<Rightarrow> store_word \<Rightarrow> sched \<Rightarrow> store_word option" where
  "table_get h key s = do { m \<leftarrow> sc_maps s h; Map_Get WordKey_Hash WordKey_Equals no_transient key m }"

definition table_member :: "addr \<Rightarrow> store_word \<Rightarrow> sched \<Rightarrow> bool option" where
  "table_member h key s = do { m \<leftarrow> sc_maps s h; Map_IsMember WordKey_Hash WordKey_Equals no_transient key m }"

definition ImpMap_GetHashTable :: "addr \<Rightarrow> sched \<Rightarrow> addr option" where
  "ImpMap_GetHashTable p s = do {
     w \<leftarrow> block_get p HASHTABLE_POS s;
     h \<leftarrow> DirectWordToBlock w;
     Assert (sc_maps s h \<noteq> None);
     Some h }"

definition ImpMap_New :: "sched \<Rightarrow> (addr \<times> sched) option" where
  "ImpMap_New s = do {
     let (b, s1) = new_block TUPLE_LABEL (replicate IMPMAP_SIZE (IntW 0)) s;
     (h, s2) \<leftarrow> new_map ImpMap_initialSize s1;
     s3 \<leftarrow> block_set b HASHTABLE_POS (BlkW h) s2;
     s4 \<leftarrow> block_set b HEAD_POS (IntW 0) s3;
     Some (b, s4) }"

definition ImpMap_FromWord :: "sched \<Rightarrow> store_word \<Rightarrow> addr option option" where
  "ImpMap_FromWord s w = do {
     b \<leftarrow> WordToBlock (sc_trans s) w;
     case b of None \<Rightarrow> Some None
     | Some a \<Rightarrow> do {
         (l, ws) \<leftarrow> sc_blocks s a;
         Assert (l = TUPLE_LABEL \<and> length ws = IMPMAP_SIZE);
         Some (Some a) } }"

definition ImpMap_GetHead :: "addr \<Rightarrow> sched \<Rightarrow> addr option option" where
  "ImpMap_GetHead p s = do { w \<leftarrow> block_get p HEAD_POS s; entry_or_zero s w }"

definition ImpMap_Insert :: "addr \<Rightarrow> store_word \<Rightarrow> store_word \<Rightarrow> sched \<Rightarrow> sched option" where
  "ImpMap_Insert p key v s = do {
     h \<leftarrow> ImpMap_GetHashTable p s;
     mem \<leftarrow> table_member h key s;
     Assert (\<not> mem);
     headEntry \<leftarrow> ImpMap_GetHead p s;
     (e, s1) \<leftarrow> ImpMapEntry_New key v headEntry s;
     s2 \<leftarrow> block_set p HEAD_POS (BlkW e) s1;
     table_put h key (BlkW e) s2 }"

definition ImpMap_LookupEntry :: "addr \<Rightarrow> store_word \<Rightarrow> sched \<Rightarrow> addr option" where
  "ImpMap_LookupEntry p key s = do {
     h \<leftarrow> ImpMap_GetHashTable p s;
     mem \<leftarrow> table_member h key s;
     Assert mem;
     w \<leftarrow> table_get h key s;
     ImpMapEntry_FromWordDirect s w }"

definition ImpMap_Remove :: "addr \<Rightarrow> store_word \<Rightarrow> sched \<Rightarrow> sched option" where
  "ImpMap_Remove p key s = do {
     h \<leftarrow> ImpMap_GetHashTable p s;
     e \<leftarrow> ImpMap_LookupEntry p key s;
     s1 \<leftarrow> table_remove h key s;
     (result, s2) \<leftarrow> ImpMapEntry_Unlink e s1;
     if result \<noteq> IntW 1 then block_set p HEAD_POS result s2 else Some s2 }"

definition ImpMap_RemoveAll :: "addr \<Rightarrow> sched \<Rightarrow> sched option" where
  "ImpMap_RemoveAll p s = do {
     h \<leftarrow> ImpMap_GetHashTable p s;
     m \<leftarrow> sc_maps s h;
     m' \<leftarrow> Map_Clear m;
     block_set p HEAD_POS (IntW 0) (s\<lparr>sc_maps := (sc_maps s)(h \<mapsto> m')\<rparr>) }"

definition ImpMap_Member :: "addr \<Rightarrow> store_word \<Rightarrow> sched \<Rightarrow> bool option" where
  "ImpMap_Member p key s = do { h \<leftarrow> ImpMap_GetHashTable p s; table_member h key s }"

definition ImpMap_Lookup :: "addr \<Rightarrow> store_word \<Rightarrow> sched \<Rightarrow> (store_word \<times> sched) option" where
  "ImpMap_Lookup p key s = do {
     h \<leftarrow> ImpMap_GetHashTable p s;
     mem \<leftarrow> table_member h key s;
     if mem then do {
       w \<leftarrow> table_get h key s;
       e \<leftarrow> ImpMapEntry_FromWordDirect s w;
       v \<leftarrow> ImpMapEntry_GetValue e s;
       (some, s1) \<leftarrow> TagVal_New 1 [v] s;
       Some (BlkW some, s1) }
     else Some (IntW 0, s) }"

definition ImpMap_IsEmpty :: "addr \<Rightarrow> sched \<Rightarrow> bool option" where
  "ImpMap_IsEmpty p s = do { h \<leftarrow> ImpMap_GetHashTable p s; m \<leftarrow> sc_maps s h; Some (Map_IsEmpty m) }"

definition ImpMap_GetSize :: "addr \<Rightarrow> sched \<Rightarrow> nat option" where
  "ImpMap_GetSize p s = do { h \<leftarrow> ImpMap_GetHashTable p s; m \<leftarrow> sc_maps s h; Some (Map_GetSize m) }"

section \<open>Arguments of the primitives\<close>

type_synonym prim_body = "sched \<Rightarrow> (worker_result \<times> sched) option"

definition DECLARE_IMP_MAP :: "senv \<Rightarrow> store_word \<Rightarrow> store_word \<Rightarrow> sched \<Rightarrow> (addr \<Rightarrow> (worker_result \<times> sched) option) \<Rightarrow> (worker_result \<times> sched) option" where
  "DECLARE_IMP_MAP env self x s k = do {
     p \<leftarrow> ImpMap_FromWord s x;
     case p of None \<Rightarrow> prim_REQUEST env self x s | Some a \<Rightarrow> k a }"

text \<open>\<^verbatim>\<open>Store::IntToWord\<close>: the encoding keeps the low 31 bits.\<close>

definition IntToWord :: "bool \<Rightarrow> int \<Rightarrow> store_word option" where
  "IntToWord store_debug i = do {
     Assert (store_debug \<longrightarrow> MIN_VALID_INT \<le> i \<and> i \<le> MAX_VALID_INT);
     Some (IntW (DirectDecodeInt (EncodeInt i))) }"

type_synonym key_macro = "senv \<Rightarrow> store_word \<Rightarrow> store_word \<Rightarrow> sched \<Rightarrow> (store_word \<Rightarrow> (worker_result \<times> sched) option) \<Rightarrow> (worker_result \<times> sched) option"

text \<open>The last statement of the macro is not in an \<^verbatim>\<open>else\<close> branch: it is run for blocks too.\<close>

definition DECLARE_KEY :: "bool \<Rightarrow> key_macro" where
  "DECLARE_KEY store_debug env self x s k = do {
     i \<leftarrow> WordToInt (sc_trans s) x;
     case i of
       None \<Rightarrow> do {
         p \<leftarrow> WordToBlock (sc_trans s) x;
         case p of None \<Rightarrow> prim_REQUEST env self x s
         | Some a \<Rightarrow> do { w \<leftarrow> IntToWord store_debug INVALID_INT; k w } }
     | Some j \<Rightarrow> do { w \<leftarrow> IntToWord store_debug j; k w } }"

definition DECLARE_CELL :: key_macro where
  "DECLARE_CELL env self x s k = DECLARE_BLOCK Alice_Cell env self x s (\<lambda>a. k (BlkW a))"

section \<open>Workers\<close>

definition call_or_overflow :: "sched option option \<Rightarrow> sched \<Rightarrow> (sched \<Rightarrow> (worker_result \<times> sched) option) \<Rightarrow> (worker_result \<times> sched) option" where
  "call_or_overflow r s k = do { r' \<leftarrow> r; case r' of None \<Rightarrow> Some (OVERFLOW, s) | Some s1 \<Rightarrow> k s1 }"

fun set_args :: "nat \<Rightarrow> store_word list \<Rightarrow> sched \<Rightarrow> sched option" where
  "set_args i [] s = Some s"
| "set_args i (w # ws) s = do { s1 \<leftarrow> SetCurrentArg i w s; set_args (Suc i) ws s1 }"

definition pass_args :: "store_word list \<Rightarrow> sched \<Rightarrow> sched option" where
  "pass_args ws s = do { s1 \<leftarrow> SetNArgs (length ws) s; set_args 0 ws s1 }"

text \<open>\<^verbatim>\<open>insertWithi\<close>: the worker stores the value that the closure returns.\<close>

definition ImpMapInsertWorker_Run :: prim_body where
  "ImpMapInsertWorker_Run s = do {
     w \<leftarrow> Frame_GetArg (sc_top s) 0 (sc_stack s);
     e \<leftarrow> ImpMapEntry_FromWordDirect s w;
     s1 \<leftarrow> Sched_PopFrame 2 s;
     s2 \<leftarrow> Construct s1;
     v \<leftarrow> GetCurrentArg 0 s2;
     s3 \<leftarrow> ImpMapEntry_SetValue e v s2;
     RETURN1 (IntW 0) s3 }"

datatype iterator_op = it_app | it_appi | it_fold | it_foldi

definition op_code :: "iterator_op \<Rightarrow> int" where
  "op_code p = (case p of it_app \<Rightarrow> 0 | it_appi \<Rightarrow> 1 | it_fold \<Rightarrow> 2 | it_foldi \<Rightarrow> 3)"

definition code_op :: "int \<Rightarrow> iterator_op option" where
  "code_op i = (if i = 0 then Some it_app else if i = 1 then Some it_appi else if i = 2 then Some it_fold else if i = 3 then Some it_foldi else None)"

definition ImpMapIteratorWorker_PushFrame :: "senv \<Rightarrow> store_word \<Rightarrow> addr \<Rightarrow> store_word \<Rightarrow> iterator_op \<Rightarrow> sched \<Rightarrow> sched option option" where
  "ImpMapIteratorWorker_PushFrame env worker e closure p s = new_frame env worker [BlkW e, closure, IntW (op_code p)] s"

definition set_frame_entry :: "addr \<Rightarrow> sched \<Rightarrow> sched option" where
  "set_frame_entry e s = do {
     st \<leftarrow> Frame_InitArg (sc_top s) 0 (BlkW e) (sc_stack s);
     Some (s\<lparr>sc_stack := st\<rparr>) }"

definition iterator_args :: "iterator_op \<Rightarrow> addr \<Rightarrow> sched \<Rightarrow> sched option" where
  "iterator_args p e s = do {
     k \<leftarrow> ImpMapEntry_GetKey e s;
     v \<leftarrow> ImpMapEntry_GetValue e s;
     case p of
       it_app \<Rightarrow> pass_args [v] s
     | it_appi \<Rightarrow> pass_args [k, v] s
     | it_fold \<Rightarrow> do {
         s1 \<leftarrow> Construct s;
         acc \<leftarrow> GetCurrentArg 0 s1;
         pass_args [v, acc] s1 }
     | it_foldi \<Rightarrow> do {
         s1 \<leftarrow> Construct s;
         acc \<leftarrow> GetCurrentArg 0 s1;
         pass_args [k, v, acc] s1 } }"

definition ImpMapIteratorWorker_Run :: "senv \<Rightarrow> prim_body" where
  "ImpMapIteratorWorker_Run env s = do {
     w \<leftarrow> Frame_GetArg (sc_top s) 0 (sc_stack s);
     e \<leftarrow> ImpMapEntry_FromWordDirect s w;
     closure \<leftarrow> Frame_GetArg (sc_top s) 1 (sc_stack s);
     c \<leftarrow> Frame_GetArg (sc_top s) 2 (sc_stack s);
     i \<leftarrow> DirectWordToInt c;
     p \<leftarrow> code_op i;
     nextEntry \<leftarrow> ImpMapEntry_GetNext e s;
     s1 \<leftarrow> (case nextEntry of Some n \<Rightarrow> set_frame_entry n s | None \<Rightarrow> Sched_PopFrame 4 s);
     s2 \<leftarrow> iterator_args p e s1;
     PushCall env closure s2 }"

definition ImpMapFindWorker_PushFrame :: "senv \<Rightarrow> store_word \<Rightarrow> addr \<Rightarrow> store_word \<Rightarrow> bool \<Rightarrow> sched \<Rightarrow> sched option option" where
  "ImpMapFindWorker_PushFrame env worker e closure with_key s = new_frame env worker [BlkW e, closure, IntW (if with_key then 1 else 0)] s"

definition find_args :: "bool \<Rightarrow> addr \<Rightarrow> sched \<Rightarrow> sched option" where
  "find_args with_key e s = do {
     k \<leftarrow> ImpMapEntry_GetKey e s;
     v \<leftarrow> ImpMapEntry_GetValue e s;
     pass_args (if with_key then [k, v] else [v]) s }"

definition find_result :: "bool \<Rightarrow> addr \<Rightarrow> sched \<Rightarrow> (store_word \<times> sched) option" where
  "find_result with_key e s = do {
     k \<leftarrow> ImpMapEntry_GetKey e s;
     v \<leftarrow> ImpMapEntry_GetValue e s;
     (if with_key then do {
        let (pair, s1) = Tuple_New [k, v] s;
        (some, s2) \<leftarrow> TagVal_New 1 [BlkW pair] s1;
        Some (BlkW some, s2) }
      else do { (some, s1) \<leftarrow> TagVal_New 1 [v] s; Some (BlkW some, s1) }) }"

definition ImpMapFindWorker_Run :: "senv \<Rightarrow> prim_body" where
  "ImpMapFindWorker_Run env s = do {
     w \<leftarrow> Frame_GetArg (sc_top s) 0 (sc_stack s);
     e \<leftarrow> ImpMapEntry_FromWordDirect s w;
     closure \<leftarrow> Frame_GetArg (sc_top s) 1 (sc_stack s);
     c \<leftarrow> Frame_GetArg (sc_top s) 2 (sc_stack s);
     Assert (c = IntW 0 \<or> c = IntW 1);
     Assert (sc_nArgs s = 1);
     arg \<leftarrow> GetCurrentArg 0 s;
     b \<leftarrow> WordToInt (sc_trans s) arg;
     case b of
       None \<Rightarrow> Some (REQUEST, s\<lparr>sc_data := arg\<rparr>)
     | Some i \<Rightarrow>
         if i = 0 then do {
           nxt \<leftarrow> ImpMapEntry_GetNext e s;
           case nxt of
             Some n \<Rightarrow> do {
               s1 \<leftarrow> set_frame_entry n s;
               s2 \<leftarrow> find_args (c = IntW 1) n s1;
               PushCall env closure s2 }
           | None \<Rightarrow> do { s1 \<leftarrow> Sched_PopFrame 4 s; RETURN1 (IntW 0) s1 } }
         else if i = 1 then do {
           s1 \<leftarrow> Sched_PopFrame 4 s;
           (some, s2) \<leftarrow> find_result (c = IntW 1) e s1;
           RETURN1 some s2 }
         else None }"

section \<open>Primitives\<close>

record map_workers =
  mw_insert :: store_word
  mw_iterate :: store_word
  mw_find :: store_word

partial_function (option) clone_loop :: "addr \<Rightarrow> addr option \<Rightarrow> sched \<Rightarrow> sched option" where
  "clone_loop new entry s = (case entry of
     None \<Rightarrow> Some s
   | Some e \<Rightarrow> Option.bind (ImpMapEntry_GetKey e s) (\<lambda>k.
       Option.bind (ImpMapEntry_GetValue e s) (\<lambda>v.
       Option.bind (ImpMap_Insert new k v s) (\<lambda>s1.
       Option.bind (ImpMapEntry_GetNext e s1) (\<lambda>n. clone_loop new n s1)))))"

declare clone_loop.simps [code]

definition ImpMap_clone :: "addr \<Rightarrow> sched \<Rightarrow> (addr \<times> sched) option" where
  "ImpMap_clone p s = do {
     (new, s1) \<leftarrow> ImpMap_New s;
     head \<leftarrow> ImpMap_GetHead p s1;
     s2 \<leftarrow> clone_loop new head s1;
     Some (new, s2) }"

definition UnsafeImpMap_map :: prim_body where
  "UnsafeImpMap_map s = do {
     (self, s1) \<leftarrow> POP_PRIM_SELF 0 s;
     (p, s2) \<leftarrow> ImpMap_New s1;
     RETURN1 (BlkW p) s2 }"

definition UnsafeImpMap_clone :: "senv \<Rightarrow> prim_body" where
  "UnsafeImpMap_clone env s = do {
     (self, s1) \<leftarrow> POP_PRIM_SELF 1 s;
     x0 \<leftarrow> GetCurrentArg 0 s1;
     DECLARE_IMP_MAP env self x0 s1 (\<lambda>p. do {
       (new, s2) \<leftarrow> ImpMap_clone p s1;
       RETURN1 (BlkW new) s2 }) }"

text \<open>The primitives with a key, for both kinds of keys.\<close>

definition map_insertWithi :: "key_macro \<Rightarrow> map_workers \<Rightarrow> senv \<Rightarrow> prim_body" where
  "map_insertWithi declare_key mw env s = do {
     (self, s1) \<leftarrow> POP_PRIM_SELF 4 s;
     closure \<leftarrow> GetCurrentArg 0 s1;
     x1 \<leftarrow> GetCurrentArg 1 s1;
     x2 \<leftarrow> GetCurrentArg 2 s1;
     v \<leftarrow> GetCurrentArg 3 s1;
     DECLARE_IMP_MAP env self x1 s1 (\<lambda>p. declare_key env self x2 s1 (\<lambda>key. do {
       mem \<leftarrow> ImpMap_Member p key s1;
       (if mem then do {
          e \<leftarrow> ImpMap_LookupEntry p key s1;
          call_or_overflow (new_frame env (mw_insert mw) [BlkW e] s1) s1 (\<lambda>s2. do {
            old \<leftarrow> ImpMapEntry_GetValue e s2;
            s3 \<leftarrow> pass_args [key, old, v] s2;
            PushCall env closure s3 }) }
        else do {
          s2 \<leftarrow> ImpMap_Insert p key v s1;
          RETURN1 (IntW 0) s2 }) })) }"

definition map_removeWith :: "key_macro \<Rightarrow> senv \<Rightarrow> prim_body" where
  "map_removeWith declare_key env s = do {
     (self, s1) \<leftarrow> POP_PRIM_SELF 3 s;
     closure \<leftarrow> GetCurrentArg 0 s1;
     x1 \<leftarrow> GetCurrentArg 1 s1;
     x2 \<leftarrow> GetCurrentArg 2 s1;
     DECLARE_IMP_MAP env self x1 s1 (\<lambda>p. declare_key env self x2 s1 (\<lambda>key. do {
       mem \<leftarrow> ImpMap_Member p key s1;
       (if mem then do { s2 \<leftarrow> ImpMap_Remove p key s1; RETURN1 (IntW 0) s2 }
        else do { s2 \<leftarrow> pass_args [key] s1; PushCall env closure s2 }) })) }"

definition map_lookup_prim :: "key_macro \<Rightarrow> senv \<Rightarrow> prim_body" where
  "map_lookup_prim declare_key env s = do {
     (self, s1) \<leftarrow> POP_PRIM_SELF 2 s;
     x0 \<leftarrow> GetCurrentArg 0 s1;
     x1 \<leftarrow> GetCurrentArg 1 s1;
     DECLARE_IMP_MAP env self x0 s1 (\<lambda>p. declare_key env self x1 s1 (\<lambda>key. do {
       (w, s2) \<leftarrow> ImpMap_Lookup p key s1;
       RETURN1 w s2 })) }"

definition UnsafeImpMap_insertWithi :: "bool \<Rightarrow> map_workers \<Rightarrow> senv \<Rightarrow> prim_body" where
  "UnsafeImpMap_insertWithi store_debug = map_insertWithi (DECLARE_KEY store_debug)"

definition UnsafeImpMap_removeWith :: "bool \<Rightarrow> senv \<Rightarrow> prim_body" where
  "UnsafeImpMap_removeWith store_debug = map_removeWith (DECLARE_KEY store_debug)"

definition UnsafeImpMap_lookup :: "bool \<Rightarrow> senv \<Rightarrow> prim_body" where
  "UnsafeImpMap_lookup store_debug = map_lookup_prim (DECLARE_KEY store_debug)"

definition UnsafeImpMap_removeAll :: "senv \<Rightarrow> prim_body" where
  "UnsafeImpMap_removeAll env s = do {
     (self, s1) \<leftarrow> POP_PRIM_SELF 1 s;
     x0 \<leftarrow> GetCurrentArg 0 s1;
     DECLARE_IMP_MAP env self x0 s1 (\<lambda>p. do { s2 \<leftarrow> ImpMap_RemoveAll p s1; RETURN1 (IntW 0) s2 }) }"

definition UnsafeImpMap_isEmpty :: "senv \<Rightarrow> prim_body" where
  "UnsafeImpMap_isEmpty env s = do {
     (self, s1) \<leftarrow> POP_PRIM_SELF 1 s;
     x0 \<leftarrow> GetCurrentArg 0 s1;
     DECLARE_IMP_MAP env self x0 s1 (\<lambda>p. do { b \<leftarrow> ImpMap_IsEmpty p s1; RETURN_BOOL b s1 }) }"

definition UnsafeImpMap_size :: "senv \<Rightarrow> prim_body" where
  "UnsafeImpMap_size env s = do {
     (self, s1) \<leftarrow> POP_PRIM_SELF 1 s;
     x0 \<leftarrow> GetCurrentArg 0 s1;
     DECLARE_IMP_MAP env self x0 s1 (\<lambda>p. do { n \<leftarrow> ImpMap_GetSize p s1; RETURN1 (IntW (int n)) s1 }) }"

text \<open>The traversals push the frame of the worker, which makes the calls, and return to it.\<close>

definition map_iterate :: "map_workers \<Rightarrow> iterator_op \<Rightarrow> senv \<Rightarrow> store_word \<Rightarrow> addr \<Rightarrow> store_word \<Rightarrow> prim_body" where
  "map_iterate mw p env closure m result s = do {
     head \<leftarrow> ImpMap_GetHead m s;
     case head of
       None \<Rightarrow> RETURN1 result s
     | Some e \<Rightarrow> call_or_overflow (ImpMapIteratorWorker_PushFrame env (mw_iterate mw) e closure p s) s (RETURN1 result) }"

definition map_app :: "map_workers \<Rightarrow> iterator_op \<Rightarrow> senv \<Rightarrow> prim_body" where
  "map_app mw p env s = do {
     (self, s1) \<leftarrow> POP_PRIM_SELF 2 s;
     closure \<leftarrow> GetCurrentArg 0 s1;
     x1 \<leftarrow> GetCurrentArg 1 s1;
     DECLARE_IMP_MAP env self x1 s1 (\<lambda>m. map_iterate mw p env closure m (IntW 0) s1) }"

definition map_fold :: "map_workers \<Rightarrow> iterator_op \<Rightarrow> senv \<Rightarrow> prim_body" where
  "map_fold mw p env s = do {
     (self, s1) \<leftarrow> POP_PRIM_SELF 3 s;
     closure \<leftarrow> GetCurrentArg 0 s1;
     zero \<leftarrow> GetCurrentArg 1 s1;
     x2 \<leftarrow> GetCurrentArg 2 s1;
     DECLARE_IMP_MAP env self x2 s1 (\<lambda>m. map_iterate mw p env closure m zero s1) }"

definition map_find :: "map_workers \<Rightarrow> bool \<Rightarrow> senv \<Rightarrow> prim_body" where
  "map_find mw with_key env s = do {
     (self, s1) \<leftarrow> POP_PRIM_SELF 2 s;
     closure \<leftarrow> GetCurrentArg 0 s1;
     x1 \<leftarrow> GetCurrentArg 1 s1;
     DECLARE_IMP_MAP env self x1 s1 (\<lambda>m. do {
       head \<leftarrow> ImpMap_GetHead m s1;
       case head of
         None \<Rightarrow> RETURN1 (IntW 0) s1
       | Some e \<Rightarrow> call_or_overflow (ImpMapFindWorker_PushFrame env (mw_find mw) e closure with_key s1) s1 (\<lambda>s2. do {
           s3 \<leftarrow> find_args with_key e s2;
           PushCall env closure s3 }) }) }"

definition UnsafeImpMap_app :: "map_workers \<Rightarrow> senv \<Rightarrow> prim_body" where "UnsafeImpMap_app mw = map_app mw it_app"
definition UnsafeImpMap_appi :: "map_workers \<Rightarrow> senv \<Rightarrow> prim_body" where "UnsafeImpMap_appi mw = map_app mw it_appi"
definition UnsafeImpMap_fold :: "map_workers \<Rightarrow> senv \<Rightarrow> prim_body" where "UnsafeImpMap_fold mw = map_fold mw it_fold"
definition UnsafeImpMap_foldi :: "map_workers \<Rightarrow> senv \<Rightarrow> prim_body" where "UnsafeImpMap_foldi mw = map_fold mw it_foldi"
definition UnsafeImpMap_find :: "map_workers \<Rightarrow> senv \<Rightarrow> prim_body" where "UnsafeImpMap_find mw = map_find mw False"
definition UnsafeImpMap_findi :: "map_workers \<Rightarrow> senv \<Rightarrow> prim_body" where "UnsafeImpMap_findi mw = map_find mw True"

text \<open>\<^verbatim>\<open>UnsafeCell.cc\<close>: cells, and the same operations on maps with cells as keys.\<close>

definition UnsafeCell_cell :: prim_body where
  "UnsafeCell_cell s = do {
     (self, s1) \<leftarrow> POP_PRIM_SELF 1 s;
     x0 \<leftarrow> GetCurrentArg 0 s1;
     let (c, s2) = Cell_New x0 s1;
     RETURN1 (BlkW c) s2 }"

definition UnsafeCell_content :: "senv \<Rightarrow> prim_body" where
  "UnsafeCell_content env s = do {
     (self, s1) \<leftarrow> POP_PRIM_SELF 1 s;
     x0 \<leftarrow> GetCurrentArg 0 s1;
     DECLARE_BLOCK Alice_Cell env self x0 s1 (\<lambda>c. do { v \<leftarrow> block_get c 0 s1; RETURN1 v s1 }) }"

definition UnsafeCell_replace :: "senv \<Rightarrow> prim_body" where
  "UnsafeCell_replace env s = do {
     (self, s1) \<leftarrow> POP_PRIM_SELF 2 s;
     x0 \<leftarrow> GetCurrentArg 0 s1;
     x1 \<leftarrow> GetCurrentArg 1 s1;
     DECLARE_BLOCK Alice_Cell env self x0 s1 (\<lambda>c. do { s2 \<leftarrow> block_set c 0 x1 s1; RETURN1 (IntW 0) s2 }) }"

definition UnsafeCell_Map_insertWithi :: "map_workers \<Rightarrow> senv \<Rightarrow> prim_body" where
  "UnsafeCell_Map_insertWithi = map_insertWithi DECLARE_CELL"

definition UnsafeCell_Map_removeWith :: "senv \<Rightarrow> prim_body" where
  "UnsafeCell_Map_removeWith = map_removeWith DECLARE_CELL"

definition UnsafeCell_Map_lookup :: "senv \<Rightarrow> prim_body" where
  "UnsafeCell_Map_lookup = map_lookup_prim DECLARE_CELL"

definition UnsafeCell_Map_map :: prim_body where "UnsafeCell_Map_map = UnsafeImpMap_map"
definition UnsafeCell_Map_clone :: "senv \<Rightarrow> prim_body" where "UnsafeCell_Map_clone = UnsafeImpMap_clone"
definition UnsafeCell_Map_removeAll :: "senv \<Rightarrow> prim_body" where "UnsafeCell_Map_removeAll = UnsafeImpMap_removeAll"
definition UnsafeCell_Map_isEmpty :: "senv \<Rightarrow> prim_body" where "UnsafeCell_Map_isEmpty = UnsafeImpMap_isEmpty"
definition UnsafeCell_Map_size :: "senv \<Rightarrow> prim_body" where "UnsafeCell_Map_size = UnsafeImpMap_size"
definition UnsafeCell_Map_app :: "map_workers \<Rightarrow> senv \<Rightarrow> prim_body" where "UnsafeCell_Map_app mw = map_app mw it_app"
definition UnsafeCell_Map_appi :: "map_workers \<Rightarrow> senv \<Rightarrow> prim_body" where "UnsafeCell_Map_appi mw = map_app mw it_appi"
definition UnsafeCell_Map_fold :: "map_workers \<Rightarrow> senv \<Rightarrow> prim_body" where "UnsafeCell_Map_fold mw = map_fold mw it_fold"
definition UnsafeCell_Map_foldi :: "map_workers \<Rightarrow> senv \<Rightarrow> prim_body" where "UnsafeCell_Map_foldi mw = map_fold mw it_foldi"
definition UnsafeCell_Map_find :: "map_workers \<Rightarrow> senv \<Rightarrow> prim_body" where "UnsafeCell_Map_find mw = map_find mw False"
definition UnsafeCell_Map_findi :: "map_workers \<Rightarrow> senv \<Rightarrow> prim_body" where "UnsafeCell_Map_findi mw = map_find mw True"

end
