(* ===== verification/Imp_Map_Props.thy ===== *)
theory Imp_Map_Props
  imports Imp_Map Scheduler_Props
begin

text \<open>
  The imperative maps refine association lists in the order of insertion, the newest binding first.
\<close>

section \<open>The list of entries\<close>

type_synonym mentry = "addr \<times> store_word \<times> store_word"

definition first_word :: "mentry list \<Rightarrow> store_word" where
  "first_word xs = (case xs of [] \<Rightarrow> IntW 0 | (e, k, v) # ys \<Rightarrow> BlkW e)"

text \<open>The entries are linked from the one before, \<open>prv\<close>, to the word behind the last one, \<open>nxt\<close>.\<close>

fun linked :: "(addr \<Rightarrow> (block_label \<times> store_word list) option) \<Rightarrow> store_word \<Rightarrow> mentry list \<Rightarrow> store_word \<Rightarrow> bool" where
  "linked B prv [] nxt \<longleftrightarrow> True"
| "linked B prv ((e, k, v) # xs) nxt \<longleftrightarrow>
     B e = Some (TUPLE_LABEL, [k, v, prv, if xs = [] then nxt else first_word xs]) \<and> linked B (BlkW e) xs nxt"

definition last_word :: "store_word \<Rightarrow> mentry list \<Rightarrow> store_word" where
  "last_word prv xs = (if xs = [] then prv else BlkW (fst (last xs)))"

lemma first_word_simps [simp]: "first_word [] = IntW 0" "first_word ((e, k, v) # xs) = BlkW e" "first_word (xs @ (e, k, v) # ys) = (if xs = [] then BlkW e else first_word xs)"
  by (auto simp: first_word_def split: list.splits)

lemma first_word_append: "first_word (xs @ ys) = (if xs = [] then first_word ys else first_word xs)"
  by (simp add: first_word_def split: list.splits)

lemma linked_append:
  "linked B prv (xs @ ys) nxt \<longleftrightarrow> linked B prv xs (if ys = [] then nxt else first_word ys) \<and> linked B (last_word prv xs) ys nxt"
proof (induction xs arbitrary: prv)
  case (Cons x xs)
  obtain e k v where "x = (e, k, v)" by (cases x)
  then show ?case using Cons by (cases "xs = []"; cases "ys = []") (simp_all add: last_word_def first_word_append)
qed (simp add: last_word_def)

lemma linked_other [simp]: "a \<notin> fst ` set xs \<Longrightarrow> linked (B(a := w)) prv xs nxt \<longleftrightarrow> linked B prv xs nxt"
  by (induction xs arbitrary: prv) auto

lemma linked_cong: "(\<And>a. a \<in> fst ` set xs \<Longrightarrow> B' a = B a) \<Longrightarrow> linked B' prv xs nxt \<longleftrightarrow> linked B prv xs nxt"
  by (induction xs arbitrary: prv) auto

text \<open>The abstract map: keys are the same when their bits are.\<close>

definition bindings :: "mentry list \<Rightarrow> (store_word \<times> store_word) list" where
  "bindings xs = map snd xs"

definition entry_words :: "mentry list \<Rightarrow> (store_word \<times> store_word) list" where
  "entry_words xs = map (\<lambda>(e, k, v). (k, BlkW e)) xs"

definition table_has :: "(store_word, store_word) basemap \<Rightarrow> mentry list \<Rightarrow> bool" where
  "table_has m xs \<longleftrightarrow> map_inv WordKey_Hash WordKey_Equals m \<and> Map_GetSize m = length xs \<and>
     (\<forall>k. map_lookup WordKey_Equals m k = assoc WordKey_Equals k (entry_words xs))"

definition imp_map :: "sched \<Rightarrow> addr \<Rightarrow> addr \<Rightarrow> mentry list \<Rightarrow> bool" where
  "imp_map s p h xs \<longleftrightarrow> sc_blocks s p = Some (TUPLE_LABEL, [BlkW h, first_word xs]) \<and> linked (sc_blocks s) (IntW 0) xs (IntW 0) \<and>
     distinct (p # map fst xs) \<and> (\<forall>a \<in> insert p (fst ` set xs). a < sc_next s) \<and> h < sc_next s \<and> (\<forall>(e, k, v) \<in> set xs. no_transient k) \<and>
     keys_distinct WordKey_Equals (bindings xs) \<and> (\<exists>m. sc_maps s h = Some m \<and> table_has m xs)"

lemmas map_defs = ImpMap_GetHashTable_def block_get_def Block_GetArg_def DirectWordToBlock_def HASHTABLE_POS_def HEAD_POS_def ENTRY_KEY_def ENTRY_VALUE_def
  ENTRY_PREV_def ENTRY_NEXT_def ENTRY_SIZE_def IMPMAP_SIZE_def

lemma imp_map_table: "imp_map s p h xs \<Longrightarrow> ImpMap_GetHashTable p s = Some h"
  by (auto simp: imp_map_def map_defs)

lemma imp_map_member:
  assumes "imp_map s p h xs" and "no_transient k"
  shows "table_member h k s = Some (assoc WordKey_Equals k (entry_words xs) \<noteq> None)" "table_get h k s = assoc WordKey_Equals k (entry_words xs)"
proof -
  obtain m where m: "sc_maps s h = Some m" "map_inv WordKey_Hash WordKey_Equals m" "map_lookup WordKey_Equals m k = assoc WordKey_Equals k (entry_words xs)"
    using assms(1) by (auto simp: imp_map_def table_has_def)
  then show "table_member h k s = Some (assoc WordKey_Equals k (entry_words xs) \<noteq> None)" "table_get h k s = assoc WordKey_Equals k (entry_words xs)"
    using word_key.lookups_spec [OF m(2) assms(2)] by (simp_all add: table_member_def table_get_def)
qed

lemma assoc_words: "assoc WordKey_Equals k (entry_words xs) = None \<longleftrightarrow> assoc WordKey_Equals k (bindings xs) = None"
  by (induction xs) (auto simp: entry_words_def bindings_def)

lemma assoc_entry:
  assumes "assoc WordKey_Equals k (entry_words xs) \<noteq> None"
  obtains ys e k' v zs where "xs = ys @ (e, k', v) # zs" and "WordKey_Equals k k'" and "assoc WordKey_Equals k (entry_words xs) = Some (BlkW e)"
    and "assoc WordKey_Equals k (bindings xs) = Some v" and "assoc WordKey_Equals k (bindings ys) = None"
  using assms
proof (induction xs arbitrary: thesis)
  case (Cons x xs)
  obtain e k' v where x: "x = (e, k', v)" by (cases x)
  show ?case
  proof (cases "WordKey_Equals k k'")
    case True
    show ?thesis by (rule Cons.prems(1) [of "[]" e k' v xs]) (use True x in \<open>simp_all add: entry_words_def bindings_def\<close>)
  next
    case False
    then have "assoc WordKey_Equals k (entry_words xs) \<noteq> None" using Cons.prems(2) x by (simp add: entry_words_def)
    then obtain ys e1 k1 v1 zs where 1: "xs = ys @ (e1, k1, v1) # zs" "WordKey_Equals k k1" "assoc WordKey_Equals k (entry_words xs) = Some (BlkW e1)"
      "assoc WordKey_Equals k (bindings xs) = Some v1" "assoc WordKey_Equals k (bindings ys) = None" using Cons.IH by blast
    show ?thesis by (rule Cons.prems(1) [of "x # ys" e1 k1 v1 zs]) (use False x 1 in \<open>simp_all add: entry_words_def bindings_def\<close>)
  qed
qed (simp add: entry_words_def)

section \<open>The size of the table\<close>

text \<open>As long as bindings are only added the size of the table is bounded by the number of bindings.\<close>

definition map_small :: "('k, 'v) basemap \<Rightarrow> bool" where
  "map_small m \<longleftrightarrow> 3 * length (bm_table m) div 4 \<le> bm_percent m \<and> length (bm_table m) \<le> 2 * bm_counter m + 16"

lemma SetEntry_fields: "SetEntry i c m = Some m' \<Longrightarrow> length (bm_table m') = length (bm_table m) \<and> bm_percent m' = bm_percent m"
  by (auto simp: SetEntry_def run_elims)

lemma reinsert_chain_fields: "reinsert_chain hash c m = Some m' \<Longrightarrow> length (bm_table m') = length (bm_table m) \<and> bm_percent m' = bm_percent m"
  by (induction hash c m rule: reinsert_chain.induct) (auto simp: run_elims Let_def dest: SetEntry_fields)

lemma reinsert_fields: "reinsert hash es m = Some m' \<Longrightarrow> length (bm_table m') = length (bm_table m) \<and> bm_percent m' = bm_percent m"
  by (induction hash es m rule: reinsert.induct) (auto simp: run_elims dest: reinsert_chain_fields)

lemma alloc_size_le: "n \<le> 16777200 \<Longrightarrow> alloc_size n \<le> n + 15"
  by (simp add: alloc_size_eq)

lemma Resize_fields:
  assumes "Resize hash m = Some m'"
  shows "length (bm_table m') \<le> 3 * length (bm_table m) div 2 + 15 \<and> bm_percent m' = 1 + length (bm_table m') * 3 div 4"
  using assms alloc_size_le [of "3 * length (bm_table m) div 2"] by (auto simp: Resize_def Let_def run_elims dest!: reinsert_fields)

lemma Put_small:
  assumes "Map_Put hash equals key_ok key v m = Some m'" and "map_small m" and "bm_counter m' = bm_counter m + 1"
  shows "map_small m'"
proof -
  obtain m1 where m1: "(if bm_counter m > bm_percent m then Resize hash m else Some m) = Some m1"
    and put: "length (bm_table m') = length (bm_table m1) \<and> bm_percent m' = bm_percent m1"
    using assms(1) by (auto simp: Map_Put_def Let_def run_elims split: option.splits dest!: SetEntry_fields)
  show ?thesis
  proof (cases "bm_counter m > bm_percent m")
    case True
    then have "length (bm_table m1) \<le> 3 * length (bm_table m) div 2 + 15" "bm_percent m1 = 1 + length (bm_table m1) * 3 div 4" using m1 Resize_fields by auto
    then show ?thesis using put assms(2,3) True by (auto simp: map_small_def)
  next
    case False
    then show ?thesis using m1 put assms(2,3) by (simp add: map_small_def)
  qed
qed

lemma small_room: "map_small m \<Longrightarrow> bm_counter m \<le> 5000000 \<Longrightarrow> map_room m"
  by (auto simp: map_small_def map_room_def)

lemma new_small: "BaseMap_New 8 = Some m \<Longrightarrow> map_small m"
  by (auto simp: BaseMap_New_def Let_def run_elims map_small_def alloc_size_eq)

section \<open>Insertion\<close>

lemma block_set_Some: "sc_blocks s a = Some (l, ws) \<Longrightarrow> i < length ws \<Longrightarrow> block_set a i w s = Some (s\<lparr>sc_blocks := (sc_blocks s)(a \<mapsto> (l, ws[i := w]))\<rparr>)"
  by (simp add: block_set_def Block_SetArg_def)

text \<open>What an operation on the map leaves alone: blocks outside, other tables, and everything else.\<close>

definition only_map :: "addr set \<Rightarrow> addr \<Rightarrow> sched \<Rightarrow> sched \<Rightarrow> bool" where
  "only_map A h s s' \<longleftrightarrow> (\<forall>a. a \<notin> A \<and> a < sc_next s \<longrightarrow> sc_blocks s' a = sc_blocks s a) \<and> (\<forall>i. i \<noteq> h \<and> i < sc_next s \<longrightarrow> sc_maps s' i = sc_maps s i) \<and>
     (\<exists>B M n. s' = s\<lparr>sc_blocks := B, sc_maps := M, sc_next := n\<rparr>) \<and> sc_next s \<le> sc_next s'"

abbreviation own_blocks :: "addr \<Rightarrow> mentry list \<Rightarrow> addr set" where
  "own_blocks p xs \<equiv> insert p (fst ` set xs)"

lemma entry_exists:
  assumes "linked B prv xs nxt" and "(e, k, v) \<in> set xs"
  shows "\<exists>l r. B e = Some (TUPLE_LABEL, [k, v, l, r])"
  using assms by (induction xs arbitrary: prv) auto

lemma head_entry:
  assumes "imp_map s p h xs"
  shows "ImpMap_GetHead p s = Some (case xs of [] \<Rightarrow> None | (e, k, v) # ys \<Rightarrow> Some e)"
proof (cases xs)
  case Nil
  then show ?thesis using assms by (simp add: imp_map_def ImpMap_GetHead_def map_defs entry_or_zero_def)
next
  case (Cons x ys)
  obtain e k v where x: "x = (e, k, v)" by (cases x)
  then show ?thesis using assms Cons by (simp add: imp_map_def ImpMap_GetHead_def map_defs entry_or_zero_def ImpMapEntry_FromWordDirect_def)
qed

text \<open>The new entry in front of the list.\<close>

lemma new_entry:
  assumes "imp_map s p h xs"
  obtains B where "ImpMapEntry_New k v (case xs of [] \<Rightarrow> None | (e, k, v) # ys \<Rightarrow> Some e) s = Some (sc_next s, s\<lparr>sc_blocks := B, sc_next := Suc (sc_next s)\<rparr>)"
    and "linked B (IntW 0) ((sc_next s, k, v) # xs) (IntW 0)" and "\<forall>a. a \<notin> fst ` set xs \<and> a \<noteq> sc_next s \<longrightarrow> B a = sc_blocks s a"
proof (cases xs)
  case Nil
  show ?thesis by (rule that [of "(sc_blocks s)(sc_next s \<mapsto> (TUPLE_LABEL, [k, v, IntW 0, IntW 0]))"]) (use Nil in \<open>simp_all add: ImpMapEntry_New_def new_block_def\<close>)
next
  case (Cons x ys)
  obtain e k1 v1 where x: "x = (e, k1, v1)" by (cases x)
  let ?n = "sc_next s" and ?r = "if ys = [] then IntW 0 else first_word ys"
  let ?B = "(sc_blocks s)(?n \<mapsto> (TUPLE_LABEL, [k, v, IntW 0, BlkW e]), e \<mapsto> (TUPLE_LABEL, [k1, v1, BlkW ?n, ?r]))"
  have own: "e < ?n" "sc_blocks s e = Some (TUPLE_LABEL, [k1, v1, IntW 0, ?r])" "linked (sc_blocks s) (BlkW e) ys (IntW 0)" "e \<notin> fst ` set ys" "\<forall>a \<in> fst ` set ys. a < ?n"
    using assms Cons x by (auto simp: imp_map_def)
  then have "?n \<notin> fst ` set ys" by auto
  then have l: "linked ?B (IntW 0) ((?n, k, v) # xs) (IntW 0)" using own Cons x by simp
  have "ImpMapEntry_New k v (Some e) s = Some (?n, s\<lparr>sc_blocks := ?B, sc_next := Suc ?n\<rparr>)"
    using own by (simp add: ImpMapEntry_New_def new_block_def block_set_Some ENTRY_PREV_def)
  then show ?thesis using that [of ?B] l Cons x by auto
qed

lemma keys_front:
  "keys_distinct WordKey_Equals (bindings ((e, k, v) # xs)) \<longleftrightarrow> assoc WordKey_Equals k (bindings xs) = None \<and> keys_distinct WordKey_Equals (bindings xs)"
  by (auto simp: keys_distinct_def bindings_def assoc_None)

lemma ImpMap_Insert_spec:
  assumes "imp_map s p h xs" and "no_transient k" and "assoc WordKey_Equals k (bindings xs) = None" and "\<And>m. sc_maps s h = Some m \<Longrightarrow> map_room m"
  obtains s' where "ImpMap_Insert p k v s = Some s'" and "imp_map s' p h ((sc_next s, k, v) # xs)" and "only_map (own_blocks p xs) h s s'" and "sc_next s' = Suc (sc_next s)"
    and "\<And>t. sc_maps s h = Some t \<Longrightarrow> map_small t \<Longrightarrow> \<exists>t'. sc_maps s' h = Some t' \<and> map_small t'"
proof -
  note m = assms(1) [unfolded imp_map_def]
  obtain t where t: "sc_maps s h = Some t" "table_has t xs" using m by blast
  let ?e = "sc_next s"
  obtain B where B: "ImpMapEntry_New k v (case xs of [] \<Rightarrow> None | (e, k, v) # ys \<Rightarrow> Some e) s = Some (?e, s\<lparr>sc_blocks := B, sc_next := Suc ?e\<rparr>)"
    "linked B (IntW 0) ((?e, k, v) # xs) (IntW 0)" "\<forall>a. a \<notin> fst ` set xs \<and> a \<noteq> ?e \<longrightarrow> B a = sc_blocks s a" using new_entry [OF assms(1)] .
  have p: "p \<noteq> ?e" "p \<notin> fst ` set xs" "?e \<notin> fst ` set xs" using m by auto
  have Bp: "B p = Some (TUPLE_LABEL, [BlkW h, first_word xs])" using B(3) p m by auto
  have none: "map_lookup WordKey_Equals t k = None" using t(2) assms(3) by (simp add: table_has_def assoc_words)
  obtain t' where t': "Map_Put WordKey_Hash WordKey_Equals no_transient k (BlkW ?e) t = Some t'" "map_inv WordKey_Hash WordKey_Equals t'"
    "\<forall>q. map_lookup WordKey_Equals t' q = (if WordKey_Equals q k then Some (BlkW ?e) else map_lookup WordKey_Equals t q)" "bm_counter t' = bm_counter t + 1"
    using word_key.Put_spec [of t k "BlkW ?e"] t(2) assms(2,4) t(1) none by (auto simp: table_has_def)
  let ?s = "s\<lparr>sc_blocks := B(p \<mapsto> (TUPLE_LABEL, [BlkW h, BlkW ?e])), sc_maps := (sc_maps s)(h \<mapsto> t'), sc_next := Suc ?e\<rparr>"
  have "table_has t' ((?e, k, v) # xs)" using t' t(2) by (auto simp: table_has_def Map_GetSize_def entry_words_def)
  moreover have "linked (sc_blocks ?s) (IntW 0) ((?e, k, v) # xs) (IntW 0)" using B(2) p by simp
  ultimately have "imp_map ?s p h ((?e, k, v) # xs)" using m p assms(2,3) keys_front [of ?e k v xs] by (auto simp: imp_map_def)
  moreover have "ImpMap_Insert p k v s = Some ?s"
    using imp_map_member(1) [OF assms(1,2)] assms(3) B(1) Bp t(1) t'(1)
    by (simp add: ImpMap_Insert_def imp_map_table [OF assms(1)] assoc_words head_entry [OF assms(1)] block_set_Some HEAD_POS_def table_put_def)
  moreover have "only_map (own_blocks p xs) h s ?s" using B(3) by (auto simp: only_map_def intro!: exI)
  moreover have "map_small t \<Longrightarrow> map_small t'" using Put_small [OF t'(1)] t'(4) by simp
  ultimately show ?thesis using that t(1) by simp
qed

section \<open>Removal\<close>

text \<open>The entry behind the removed one, and the entry before it.\<close>

lemma relink_first:
  assumes "linked B prv ((n, k, v) # zs) nxt" and "n \<notin> fst ` set zs"
  obtains r where "B n = Some (TUPLE_LABEL, [k, v, prv, r])" and "linked (B(n \<mapsto> (TUPLE_LABEL, [k, v, prv', r]))) prv' ((n, k, v) # zs) nxt"
  using assms that [of "if zs = [] then nxt else first_word zs"] by simp

lemma relink_last:
  assumes "linked B prv (ys @ [(q, k, v)]) nxt" and "q \<notin> fst ` set ys"
  obtains l where "B q = Some (TUPLE_LABEL, [k, v, l, nxt])" and "linked (B(q \<mapsto> (TUPLE_LABEL, [k, v, l, nxt']))) prv (ys @ [(q, k, v)]) nxt'"
  using assms that [of "last_word prv ys"] by (simp add: linked_append)

lemma unlink_next:
  assumes "linked (sc_blocks s) (BlkW e) zs (IntW 0)" and "distinct (map fst zs)"
  obtains B where "(if first_word zs \<noteq> IntW 0 then do { n \<leftarrow> ImpMapEntry_FromWordDirect s (first_word zs); block_set n ENTRY_PREV prv s } else Some s) = Some (s\<lparr>sc_blocks := B\<rparr>)"
    and "linked B prv zs (IntW 0)" and "\<forall>a. a \<notin> fst ` set zs \<longrightarrow> B a = sc_blocks s a"
proof (cases zs)
  case Nil
  show ?thesis by (rule that [of "sc_blocks s"]) (simp_all add: Nil)
next
  case (Cons x ws)
  obtain n k v where x: "x = (n, k, v)" by (cases x)
  have "linked (sc_blocks s) (BlkW e) ((n, k, v) # ws) (IntW 0)" "n \<notin> fst ` set ws" using assms Cons x by auto
  then obtain r where r: "sc_blocks s n = Some (TUPLE_LABEL, [k, v, BlkW e, r])" "linked ((sc_blocks s)(n \<mapsto> (TUPLE_LABEL, [k, v, prv, r]))) prv ((n, k, v) # ws) (IntW 0)"
    by (rule relink_first)
  show ?thesis
  proof (rule that)
    show "(if first_word zs \<noteq> IntW 0 then do { n \<leftarrow> ImpMapEntry_FromWordDirect s (first_word zs); block_set n ENTRY_PREV prv s } else Some s) =
        Some (s\<lparr>sc_blocks := (sc_blocks s)(n \<mapsto> (TUPLE_LABEL, [k, v, prv, r]))\<rparr>)"
      using r(1) by (simp add: Cons x ImpMapEntry_FromWordDirect_def map_defs block_set_Some)
    show "linked ((sc_blocks s)(n \<mapsto> (TUPLE_LABEL, [k, v, prv, r]))) prv zs (IntW 0)" using r(2) by (simp only: Cons x)
  qed (simp add: Cons x)
qed

lemma ImpMapEntry_Unlink_spec:
  assumes "linked (sc_blocks s) (IntW 0) (ys @ (e, k, v) # zs) (IntW 0)" and "distinct (map fst (ys @ (e, k, v) # zs))"
  obtains B where "ImpMapEntry_Unlink e s = Some (if ys = [] then first_word zs else IntW 1, s\<lparr>sc_blocks := B\<rparr>)"
    and "linked B (IntW 0) (ys @ zs) (IntW 0)" and "\<forall>a. a \<notin> fst ` set (ys @ zs) \<longrightarrow> B a = sc_blocks s a"
proof -
  let ?prv = "last_word (IntW 0) ys" and ?nxt = "if zs = [] then IntW 0 else first_word zs"
  have nxt: "?nxt = first_word zs" by simp
  have l: "linked (sc_blocks s) (IntW 0) ys (BlkW e)" "sc_blocks s e = Some (TUPLE_LABEL, [k, v, ?prv, first_word zs])" "linked (sc_blocks s) (BlkW e) zs (IntW 0)"
    using assms(1) by (auto simp: linked_append)
  have d: "distinct (map fst zs)" "distinct (map fst ys)" "fst ` set ys \<inter> fst ` set zs = {}" using assms(2) by auto
  obtain B where B: "(if first_word zs \<noteq> IntW 0 then do { n \<leftarrow> ImpMapEntry_FromWordDirect s (first_word zs); block_set n ENTRY_PREV ?prv s } else Some s) = Some (s\<lparr>sc_blocks := B\<rparr>)"
    "linked B ?prv zs (IntW 0)" "\<forall>a. a \<notin> fst ` set zs \<longrightarrow> B a = sc_blocks s a" using unlink_next [OF l(3) d(1)] .
  have run: "ImpMapEntry_Unlink e s = (if ?prv \<noteq> IntW 0 then do {
       p \<leftarrow> ImpMapEntry_FromWordDirect (s\<lparr>sc_blocks := B\<rparr>) ?prv;
       s2 \<leftarrow> block_set p ENTRY_NEXT (first_word zs) (s\<lparr>sc_blocks := B\<rparr>);
       Some (IntW 1, s2) }
     else Some (first_word zs, s\<lparr>sc_blocks := B\<rparr>))"
    using l(2) B(1) by (simp add: ImpMapEntry_Unlink_def block_get_def Block_GetArg_def ENTRY_PREV_def ENTRY_NEXT_def)
  have ys: "linked B (IntW 0) ys (BlkW e)" using linked_cong [of ys B "sc_blocks s"] l(1) B(3) d(3) by blast
  show ?thesis
  proof (cases ys rule: rev_cases)
    case Nil
    then show ?thesis using that [of B] run B by (simp add: last_word_def)
  next
    case (snoc us x)
    obtain q k1 v1 where x: "x = (q, k1, v1)" by (cases x)
    have "linked B (IntW 0) (us @ [(q, k1, v1)]) (BlkW e)" "q \<notin> fst ` set us" using ys d(2) snoc x by auto
    then obtain l1 where q: "B q = Some (TUPLE_LABEL, [k1, v1, l1, BlkW e])"
      "linked (B(q \<mapsto> (TUPLE_LABEL, [k1, v1, l1, first_word zs]))) (IntW 0) (us @ [(q, k1, v1)]) (first_word zs)" by (rule relink_last)
    let ?B = "B(q \<mapsto> (TUPLE_LABEL, [k1, v1, l1, first_word zs]))"
    have qz: "q \<notin> fst ` set zs" using d(3) snoc x by auto
    have prv: "?prv = BlkW q" by (simp add: last_word_def snoc x)
    have "linked ?B (IntW 0) (ys @ zs) (IntW 0)" using q(2) B(2) qz prv unfolding linked_append [of _ _ ys] by (simp add: snoc x nxt)
    moreover have "ImpMapEntry_Unlink e s = Some (IntW 1, s\<lparr>sc_blocks := ?B\<rparr>)"
      using run q(1) prv by (simp add: ImpMapEntry_FromWordDirect_def map_defs block_set_Some)
    moreover have "\<forall>a. a \<notin> fst ` set (ys @ zs) \<longrightarrow> ?B a = sc_blocks s a" using B(3) snoc x by auto
    ultimately show ?thesis using that [of ?B] snoc by simp
  qed
qed

lemma assoc_words_None: "assoc WordKey_Equals q (entry_words xs) = None \<longleftrightarrow> (\<forall>x \<in> set xs. \<not> WordKey_Equals q (fst (snd x)))"
  by (induction xs) (auto simp: entry_words_def)

text \<open>The binding that is removed is the only one for its key.\<close>

lemma assoc_without:
  assumes "keys_distinct WordKey_Equals (bindings (ys @ (e, k', v) # zs))" and "WordKey_Equals k k'"
  shows "assoc WordKey_Equals q (entry_words (ys @ zs)) = (if WordKey_Equals q k then None else assoc WordKey_Equals q (entry_words (ys @ (e, k', v) # zs)))"
    "assoc WordKey_Equals q (bindings (ys @ zs)) = (if WordKey_Equals q k then None else assoc WordKey_Equals q (bindings (ys @ (e, k', v) # zs)))"
    "keys_distinct WordKey_Equals (bindings (ys @ zs))"
proof -
  have d: "\<forall>x \<in> set ys \<union> set zs. \<not> WordKey_Equals k (fst (snd x))"
    using assms by (auto simp: keys_distinct_def bindings_def sorted_wrt_append WordKey_Equals_def)
  have qk: "WordKey_Equals q k' \<longleftrightarrow> WordKey_Equals q k" using assms(2) by (simp add: WordKey_Equals_def)
  have none: "assoc WordKey_Equals q (entry_words (ys @ zs)) = None" if "WordKey_Equals q k"
    unfolding assoc_words_None using d that by (simp add: WordKey_Equals_def)
  then show "assoc WordKey_Equals q (entry_words (ys @ zs)) = (if WordKey_Equals q k then None else assoc WordKey_Equals q (entry_words (ys @ (e, k', v) # zs)))"
    using qk by (cases "WordKey_Equals q k") (simp_all add: entry_words_def assoc_append split: option.split)
  show "assoc WordKey_Equals q (bindings (ys @ zs)) = (if WordKey_Equals q k then None else assoc WordKey_Equals q (bindings (ys @ (e, k', v) # zs)))"
    using qk none by (cases "WordKey_Equals q k") (simp_all add: assoc_words, simp add: bindings_def assoc_append split: option.split)
  show "keys_distinct WordKey_Equals (bindings (ys @ zs))" using assms(1) by (simp add: keys_distinct_def bindings_def sorted_wrt_append)
qed

lemma ImpMap_Remove_spec:
  assumes "imp_map s p h (ys @ (e, k', v) # zs)" and "no_transient k" and "WordKey_Equals k k'"
    and "assoc WordKey_Equals k (entry_words (ys @ (e, k', v) # zs)) = Some (BlkW e)"
  obtains s' where "ImpMap_Remove p k s = Some s'" and "imp_map s' p h (ys @ zs)" and "only_map (own_blocks p (ys @ (e, k', v) # zs)) h s s'" and "sc_next s' = sc_next s"
proof -
  let ?xs = "ys @ (e, k', v) # zs"
  note m = assms(1) [unfolded imp_map_def]
  obtain t where t: "sc_maps s h = Some t" "table_has t ?xs" using m by blast
  obtain t' where t': "Map_Remove WordKey_Hash WordKey_Equals no_transient k t = Some t'" "map_inv WordKey_Hash WordKey_Equals t'"
    "\<forall>q. map_lookup WordKey_Equals t' q = (if WordKey_Equals q k then None else map_lookup WordKey_Equals t q)" "bm_counter t' = bm_counter t - 1"
    using word_key.Remove_spec [of t k] t(2) assms(2,4) by (auto simp: table_has_def)
  let ?s1 = "s\<lparr>sc_maps := (sc_maps s)(h \<mapsto> t')\<rparr>"
  obtain B where B: "ImpMapEntry_Unlink e ?s1 = Some (if ys = [] then first_word zs else IntW 1, ?s1\<lparr>sc_blocks := B\<rparr>)"
    "linked B (IntW 0) (ys @ zs) (IntW 0)" "\<forall>a. a \<notin> fst ` set (ys @ zs) \<longrightarrow> B a = sc_blocks s a"
    using ImpMapEntry_Unlink_spec [of ?s1 ys e k' v zs] m by auto
  have p: "B p = Some (TUPLE_LABEL, [BlkW h, first_word ?xs])" "p \<notin> fst ` set (ys @ zs)" using B(3) m by auto
  let ?B = "B(p \<mapsto> (TUPLE_LABEL, [BlkW h, first_word (ys @ zs)]))"
  let ?s = "s\<lparr>sc_blocks := ?B, sc_maps := (sc_maps s)(h \<mapsto> t')\<rparr>"
  note w = assoc_without [of ys e k' v zs k]
  have keys: "keys_distinct WordKey_Equals (bindings ?xs)" using m by blast
  have "table_has t' (ys @ zs)" using t' t(2) w(1) [OF keys assms(3)] by (auto simp: table_has_def Map_GetSize_def)
  moreover have "linked ?B (IntW 0) (ys @ zs) (IntW 0)" using B(2) p(2) by simp
  ultimately have "imp_map ?s p h (ys @ zs)" using m w(3) [OF keys assms(3)] by (auto simp: imp_map_def)
  moreover have "ImpMap_LookupEntry p k s = Some e"
    using imp_map_table [OF assms(1)] imp_map_member [OF assms(1,2)] assms(4) m
    by (auto simp: ImpMap_LookupEntry_def ImpMapEntry_FromWordDirect_def map_defs linked_append)
  moreover have "(if (if ys = [] then first_word zs else IntW 1) \<noteq> IntW 1 then block_set p HEAD_POS (if ys = [] then first_word zs else IntW 1) (?s1\<lparr>sc_blocks := B\<rparr>)
      else Some (?s1\<lparr>sc_blocks := B\<rparr>)) = Some ?s"
  proof (cases "ys = []")
    case True
    moreover have "first_word zs \<noteq> IntW 1" by (simp add: first_word_def split: list.splits)
    ultimately show ?thesis using p(1) by (simp add: block_set_Some HEAD_POS_def)
  next
    case False
    then have "B p = Some (TUPLE_LABEL, [BlkW h, first_word (ys @ zs)])" using p(1) by (simp add: first_word_append)
    then have "?B = B" by auto
    then show ?thesis using False by simp
  qed
  ultimately have "ImpMap_Remove p k s = Some ?s" "imp_map ?s p h (ys @ zs)"
    using imp_map_table [OF assms(1)] t(1) t'(1) B(1) by (simp_all add: ImpMap_Remove_def table_remove_def)
  moreover have "only_map (own_blocks p ?xs) h s ?s" using B(3) by (auto simp: only_map_def intro!: exI [of _ ?B] exI [of _ "(sc_maps s)(h \<mapsto> t')"] exI [of _ "sc_next s"])
  ultimately show ?thesis using that by simp
qed

section \<open>The other operations\<close>

lemma ImpMap_New_spec:
  obtains s' h m where "ImpMap_New s = Some (sc_next s, s')" and "imp_map s' (sc_next s) h []" and "h = Suc (sc_next s)" and "only_map {} h s s'"
    and "sc_maps s' h = Some m" and "BaseMap_New 8 = Some m" and "sc_next s' = Suc (Suc (sc_next s))"
proof -
  obtain m :: "(store_word, store_word) basemap" where m: "BaseMap_New 8 = Some m" "map_inv WordKey_Hash WordKey_Equals m" "\<forall>q. map_lookup WordKey_Equals m q = None"
    using BaseMap_New_spec [of 8 WordKey_Hash WordKey_Equals] by (auto simp: alloc_size_eq)
  then have "bm_counter m = 0" by (auto simp: BaseMap_New_def Let_def run_elims)
  then have t: "table_has m []" using m by (simp add: table_has_def entry_words_def Map_GetSize_def)
  let ?s = "s\<lparr>sc_blocks := (sc_blocks s)(sc_next s \<mapsto> (TUPLE_LABEL, [BlkW (Suc (sc_next s)), IntW 0])), sc_maps := (sc_maps s)(Suc (sc_next s) \<mapsto> m), sc_next := Suc (Suc (sc_next s))\<rparr>"
  have "ImpMap_New s = Some (sc_next s, ?s)"
    using m(1) by (simp add: ImpMap_New_def new_block_def new_map_def ImpMap_initialSize_def IMPMAP_SIZE_def block_set_def Block_SetArg_def HASHTABLE_POS_def HEAD_POS_def numeral_2_eq_2)
  moreover have "imp_map ?s (sc_next s) (Suc (sc_next s)) []" using t by (simp add: imp_map_def bindings_def keys_distinct_def)
  moreover have "only_map {} (Suc (sc_next s)) s ?s" by (auto simp: only_map_def intro!: exI)
  ultimately show ?thesis using that [of ?s] m(1) by simp
qed

lemma ImpMap_RemoveAll_spec:
  assumes "imp_map s p h xs"
  obtains s' where "ImpMap_RemoveAll p s = Some s'" and "imp_map s' p h []" and "only_map {p} h s s'" and "sc_next s' = sc_next s"
proof -
  note m = assms [unfolded imp_map_def]
  obtain t where t: "sc_maps s h = Some t" "map_inv WordKey_Hash WordKey_Equals t" using m by (auto simp: table_has_def)
  obtain t' where t': "Map_Clear t = Some t'" "map_inv WordKey_Hash WordKey_Equals t'" "map_entries t' = []" "bm_counter t' = 0"
    using Map_Clear_spec [OF t(2)] by blast
  let ?s = "s\<lparr>sc_blocks := (sc_blocks s)(p \<mapsto> (TUPLE_LABEL, [BlkW h, IntW 0])), sc_maps := (sc_maps s)(h \<mapsto> t')\<rparr>"
  have "table_has t' []" using t'(2-4) by (auto simp: table_has_def entry_words_def Map_GetSize_def map_lookup_def)
  then have "imp_map ?s p h []" using m by (auto simp: imp_map_def bindings_def keys_distinct_def)
  moreover have "ImpMap_RemoveAll p s = Some ?s" using imp_map_table [OF assms] t(1) t'(1) m by (simp add: ImpMap_RemoveAll_def block_set_Some HEAD_POS_def)
  moreover have "only_map {p} h s ?s" by (auto simp: only_map_def intro!: exI [of _ "sc_blocks ?s"] exI [of _ "sc_maps ?s"] exI [of _ "sc_next s"])
  ultimately show ?thesis using that by simp
qed

lemma imp_map_entry:
  assumes "imp_map s p h xs" and "(e, k, v) \<in> set xs"
  shows "ImpMapEntry_FromWordDirect s (BlkW e) = Some e" "ImpMapEntry_GetValue e s = Some v" "ImpMapEntry_GetKey e s = Some k"
proof -
  have "linked (sc_blocks s) (IntW 0) xs (IntW 0)" using assms(1) by (simp add: imp_map_def)
  from entry_exists [OF this assms(2)] show "ImpMapEntry_FromWordDirect s (BlkW e) = Some e" "ImpMapEntry_GetValue e s = Some v" "ImpMapEntry_GetKey e s = Some k"
    by (auto simp: ImpMapEntry_FromWordDirect_def ImpMapEntry_GetValue_def ImpMapEntry_GetKey_def map_defs)
qed

lemma ImpMap_queries:
  assumes "imp_map s p h xs"
  shows "ImpMap_GetSize p s = Some (length xs)" "ImpMap_IsEmpty p s = Some (xs = [])"
    "no_transient k \<Longrightarrow> ImpMap_Member p k s = Some (assoc WordKey_Equals k (bindings xs) \<noteq> None)"
  using imp_map_table [OF assms] imp_map_member [OF assms] assms
  by (auto simp: ImpMap_GetSize_def ImpMap_IsEmpty_def ImpMap_Member_def imp_map_def table_has_def Map_GetSize_def Map_IsEmpty_def assoc_words)

text \<open>A lookup returns \<^verbatim>\<open>NONE\<close>, the integer 0, or a new block \<^verbatim>\<open>SOME v\<close>.\<close>

lemma ImpMap_Lookup_spec:
  assumes "imp_map s p h xs" and "no_transient k"
  shows "ImpMap_Lookup p k s = (case assoc WordKey_Equals k (bindings xs) of None \<Rightarrow> Some (IntW 0, s)
    | Some v \<Rightarrow> Some (BlkW (sc_next s), snd (new_block (DATA_LABEL (Alice_MIN_TAG + 1)) [v] s)))"
proof (cases "assoc WordKey_Equals k (entry_words xs)")
  case None
  then show ?thesis using imp_map_table [OF assms(1)] imp_map_member [OF assms] assoc_words [of k xs] by (simp add: ImpMap_Lookup_def)
next
  case (Some w)
  then obtain ys e k' v zs where e: "xs = ys @ (e, k', v) # zs" "assoc WordKey_Equals k (entry_words xs) = Some (BlkW e)" "assoc WordKey_Equals k (bindings xs) = Some v"
    by (metis assoc_entry option.distinct(1))
  then have "(e, k', v) \<in> set xs" by simp
  from imp_map_entry [OF assms(1) this] show ?thesis
    using imp_map_table [OF assms(1)] imp_map_member [OF assms] e(2,3)
    by (simp add: ImpMap_Lookup_def TagVal_New_def TagToLabel_def Alice_MIN_TAG_def Alice_MAX_TAG_def new_block_def)
qed

text \<open>The update of \<^verbatim>\<open>insertWithi\<close>: the value of an entry is replaced in its place.\<close>

lemma linked_value:
  assumes "linked B prv (ys @ (e, k, v) # zs) nxt" and "distinct (map fst (ys @ (e, k, v) # zs))" and "B e = Some (TUPLE_LABEL, [k, v, l, r])"
  shows "linked (B(e \<mapsto> (TUPLE_LABEL, [k, w, l, r]))) prv (ys @ (e, k, w) # zs) nxt"
proof -
  have "e \<notin> fst ` set ys" "e \<notin> fst ` set zs" using assms(2) by auto
  then show ?thesis using assms(1,3) by (auto simp: linked_append)
qed

lemma ImpMapEntry_SetValue_spec:
  assumes "imp_map s p h (ys @ (e, k, v) # zs)"
  obtains s' where "ImpMapEntry_SetValue e w s = Some s'" and "imp_map s' p h (ys @ (e, k, w) # zs)" and "only_map {e} h s s'" and "sc_next s' = sc_next s"
proof -
  note m = assms [unfolded imp_map_def]
  obtain l r where b: "sc_blocks s e = Some (TUPLE_LABEL, [k, v, l, r])" using entry_exists [of "sc_blocks s" "IntW 0" "ys @ (e, k, v) # zs" "IntW 0" e k v] m by auto
  let ?s = "s\<lparr>sc_blocks := (sc_blocks s)(e \<mapsto> (TUPLE_LABEL, [k, w, l, r]))\<rparr>"
  have "linked (sc_blocks ?s) (IntW 0) (ys @ (e, k, w) # zs) (IntW 0)" using linked_value [of "sc_blocks s" "IntW 0" ys e k v zs "IntW 0" l r w] b m by simp
  moreover have "table_has t (ys @ (e, k, w) # zs) \<longleftrightarrow> table_has t (ys @ (e, k, v) # zs)" for t by (simp add: table_has_def entry_words_def)
  moreover have "keys_distinct WordKey_Equals (bindings (ys @ (e, k, w) # zs))" using m by (simp add: keys_distinct_def bindings_def sorted_wrt_append)
  moreover have "first_word (ys @ (e, k, w) # zs) = first_word (ys @ (e, k, v) # zs)" "e \<noteq> p" using m by auto
  ultimately have "imp_map ?s p h (ys @ (e, k, w) # zs)" using m by (auto simp: imp_map_def)
  moreover have "ImpMapEntry_SetValue e w s = Some ?s" using b by (simp add: ImpMapEntry_SetValue_def block_set_Some ENTRY_VALUE_def)
  moreover have "only_map {e} h s ?s" by (auto simp: only_map_def intro!: exI [of _ "sc_blocks ?s"] exI [of _ "sc_maps s"] exI [of _ "sc_next s"])
  ultimately show ?thesis using that by simp
qed

section \<open>Copies\<close>

text \<open>A map is not affected by what happens to the blocks and the table of another one.\<close>

lemma imp_map_frame:
  assumes "imp_map s p h xs" and "only_map A i s s'" and "A \<inter> own_blocks p xs = {}" and "h \<noteq> i"
  shows "imp_map s' p h xs"
proof -
  note m = assms(1) [unfolded imp_map_def] and o = assms(2) [unfolded only_map_def]
  have same: "sc_blocks s' a = sc_blocks s a" if "a \<in> own_blocks p xs" for a using that m o assms(3) by blast
  have "linked (sc_blocks s') (IntW 0) xs (IntW 0)" using linked_cong [of xs "sc_blocks s'" "sc_blocks s"] same m by auto
  moreover have "sc_blocks s' p = sc_blocks s p" "sc_maps s' h = sc_maps s h" "sc_next s \<le> sc_next s'" using same o m assms(4) by auto
  ultimately show ?thesis using m unfolding imp_map_def by (metis (no_types, lifting) order_less_le_trans)
qed

lemma only_map_trans:
  assumes "only_map A h s s1" and "only_map A' h s1 s2" and "\<forall>a \<in> A'. a \<in> A \<or> sc_next s \<le> a"
  shows "only_map A h s s2"
proof -
  note 1 = assms(1) [unfolded only_map_def] and 2 = assms(2) [unfolded only_map_def]
  obtain B M n B' M' n' where "s1 = s\<lparr>sc_blocks := B, sc_maps := M, sc_next := n\<rparr>" "s2 = s1\<lparr>sc_blocks := B', sc_maps := M', sc_next := n'\<rparr>" using 1 2 by blast
  then have "s2 = s\<lparr>sc_blocks := B', sc_maps := M', sc_next := n'\<rparr>" by simp
  moreover have "sc_blocks s2 a = sc_blocks s a" if "a \<notin> A" "a < sc_next s" for a
  proof -
    have "a \<notin> A'" "a < sc_next s1" using that assms(3) 1 by auto
    then show ?thesis using that 1 2 by auto
  qed
  moreover have "sc_maps s2 i = sc_maps s i" if "i \<noteq> h" "i < sc_next s" for i
  proof -
    have "i < sc_next s1" using that(2) 1 by auto
    then show ?thesis using that 1 2 by auto
  qed
  moreover have "sc_next s \<le> sc_next s2" using 1 2 by auto
  ultimately show ?thesis unfolding only_map_def by blast
qed

lemma next_entry:
  assumes "imp_map s p h (ys @ (e, k, v) # zs)"
  shows "ImpMapEntry_GetNext e s = Some (case zs of [] \<Rightarrow> None | (n, k, v) # ws \<Rightarrow> Some n)"
proof -
  have "linked (sc_blocks s) (IntW 0) (ys @ (e, k, v) # zs) (IntW 0)" using assms by (simp add: imp_map_def)
  then have l: "sc_blocks s e = Some (TUPLE_LABEL, [k, v, last_word (IntW 0) ys, first_word zs])" "linked (sc_blocks s) (BlkW e) zs (IntW 0)" by (auto simp: linked_append)
  show ?thesis
  proof (cases zs)
    case Nil
    then show ?thesis using l by (simp add: ImpMapEntry_GetNext_def map_defs entry_or_zero_def)
  next
    case (Cons x ws)
    obtain n k1 v1 where "x = (n, k1, v1)" by (cases x)
    then show ?thesis using l Cons by (simp add: ImpMapEntry_GetNext_def map_defs entry_or_zero_def ImpMapEntry_FromWordDirect_def)
  qed
qed

lemma imp_map_keys: "imp_map s p h xs \<Longrightarrow> keys_distinct WordKey_Equals (bindings xs) \<and> (\<forall>e k v. (e, k, v) \<in> set xs \<longrightarrow> no_transient k)"
  unfolding imp_map_def by blast

lemma imp_map_low: "imp_map s p h xs \<Longrightarrow> a \<in> own_blocks p xs \<Longrightarrow> a < sc_next s"
  unfolding imp_map_def by blast

lemma clone_loop_spec:
  assumes "imp_map s p h (pre @ rest)" and "imp_map s q i ds" and "bindings ds = rev (bindings pre)" and "own_blocks q ds \<inter> own_blocks p (pre @ rest) = {}" and "h \<noteq> i"
    and "sc_maps s i = Some t" and "map_small t" and "length (pre @ rest) \<le> 5000000"
  shows "\<exists>s' ds'. clone_loop q (case rest of [] \<Rightarrow> None | (e, k, v) # ys \<Rightarrow> Some e) s = Some s' \<and> imp_map s' q i ds' \<and> bindings ds' = rev (bindings (pre @ rest)) \<and>
    imp_map s' p h (pre @ rest) \<and> only_map (own_blocks q ds) i s s'"
  using assms
proof (induction rest arbitrary: s pre ds t)
  case Nil
  have "only_map (own_blocks q ds) i s s" by (auto simp: only_map_def intro!: exI [of _ "sc_blocks s"] exI [of _ "sc_maps s"] exI [of _ "sc_next s"])
  then show ?case using Nil by (auto simp: clone_loop.simps)
next
  case (Cons x rest)
  obtain e k v where x: "x = (e, k, v)" by (cases x)
  let ?xs = "pre @ x # rest"
  have mem: "(e, k, v) \<in> set ?xs" using x by simp
  note en = imp_map_entry [OF Cons.prems(1) mem]
  have keys: "keys_distinct WordKey_Equals (bindings ?xs)" "no_transient k" using imp_map_keys [OF Cons.prems(1)] mem by blast+
  have new: "assoc WordKey_Equals k (bindings ds) = None"
    using keys(1) unfolding Cons.prems(3) by (auto simp: assoc_None bindings_def keys_distinct_def sorted_wrt_append x WordKey_Equals_def)
  have "length ds = length pre" "table_has t ds" using arg_cong [OF Cons.prems(3), of length] Cons.prems(2,6) by (auto simp: bindings_def imp_map_def)
  then have room: "map_room t" using small_room [OF Cons.prems(7)] Cons.prems(8) by (simp add: table_has_def Map_GetSize_def)
  obtain s1 where s1: "ImpMap_Insert q k v s = Some s1" "imp_map s1 q i ((sc_next s, k, v) # ds)" "only_map (own_blocks q ds) i s s1"
    "\<exists>t'. sc_maps s1 i = Some t' \<and> map_small t'"
    by (rule ImpMap_Insert_spec [OF Cons.prems(2) keys(2) new, of v]) (use room Cons.prems(6,7) in auto)
  have old: "imp_map s1 p h ((pre @ [x]) @ rest)" using imp_map_frame [OF Cons.prems(1) s1(3) Cons.prems(4,5)] by simp
  have "sc_next s \<notin> own_blocks p ?xs" using imp_map_low [OF Cons.prems(1)] by blast
  then have disj: "own_blocks q ((sc_next s, k, v) # ds) \<inter> own_blocks p ((pre @ [x]) @ rest) = {}" using Cons.prems(4) by auto
  obtain t1 where t1: "sc_maps s1 i = Some t1" "map_small t1" using s1(4) by blast
  have "bindings ((sc_next s, k, v) # ds) = rev (bindings (pre @ [x]))" using Cons.prems(3) x by (simp add: bindings_def)
  from Cons.IH [OF old s1(2) this disj Cons.prems(5) t1] obtain s' ds' where 2: "clone_loop q (case rest of [] \<Rightarrow> None | (e, k, v) # ys \<Rightarrow> Some e) s1 = Some s'" "imp_map s' q i ds'"
    "bindings ds' = rev (bindings ?xs)" "imp_map s' p h ?xs" "only_map (own_blocks q ((sc_next s, k, v) # ds)) i s1 s'" using Cons.prems(8) by auto
  have "ImpMapEntry_GetNext e s1 = Some (case rest of [] \<Rightarrow> None | (e, k, v) # ys \<Rightarrow> Some e)" using next_entry [of s1 p h pre e k v rest] old x by simp
  then have "clone_loop q (Some e) s = Some s'" using en s1(1) 2(1) by (subst clone_loop.simps) simp
  moreover have "only_map (own_blocks q ds) i s s'" using only_map_trans [OF s1(3) 2(5)] by auto
  ultimately show ?case using 2 x by auto
qed

lemma ImpMap_clone_spec:
  assumes "imp_map s p h xs" and "length xs \<le> 5000000"
  obtains s' ds where "ImpMap_clone p s = Some (sc_next s, s')" and "imp_map s' (sc_next s) (Suc (sc_next s)) ds" and "bindings ds = rev (bindings xs)"
    and "imp_map s' p h xs" and "only_map {} (Suc (sc_next s)) s s'"
proof -
  obtain s1 i t where 1: "ImpMap_New s = Some (sc_next s, s1)" "imp_map s1 (sc_next s) i []" "i = Suc (sc_next s)" "only_map {} i s s1" "sc_maps s1 i = Some t" "BaseMap_New 8 = Some t"
    using ImpMap_New_spec .
  have old: "imp_map s1 p h ([] @ xs)" using imp_map_frame [OF assms(1) 1(4)] assms(1) 1(3) by (auto simp: imp_map_def)
  have "own_blocks (sc_next s) [] \<inter> own_blocks p ([] @ xs) = {}" "h \<noteq> i" using assms(1) 1(3) by (auto simp: imp_map_def)
  from clone_loop_spec [OF old 1(2) _ this 1(5) new_small [OF 1(6)]] assms(2) obtain s' ds where
    2: "clone_loop (sc_next s) (case xs of [] \<Rightarrow> None | (e, k, v) # ys \<Rightarrow> Some e) s1 = Some s'" "imp_map s' (sc_next s) i ds" "bindings ds = rev (bindings xs)"
      "imp_map s' p h xs" "only_map (own_blocks (sc_next s) []) i s1 s'" by (auto simp: bindings_def)
  have "ImpMap_clone p s = Some (sc_next s, s')" using 1(1) head_entry [OF old] 2(1) by (simp add: ImpMap_clone_def)
  moreover have "only_map {} i s s'" using only_map_trans [OF 1(4) 2(5)] by auto
  ultimately show ?thesis using that 2 1(3) by blast
qed

section \<open>Properties\<close>

text \<open>The abstract operations, on lists of bindings.\<close>

definition without :: "store_word \<Rightarrow> (store_word \<times> store_word) list \<Rightarrow> (store_word \<times> store_word) list" where
  "without k bs = filter (\<lambda>(k', v). \<not> WordKey_Equals k k') bs"

definition represents :: "sched \<Rightarrow> addr \<Rightarrow> (store_word \<times> store_word) list \<Rightarrow> bool" where
  "represents s p bs \<longleftrightarrow> (\<exists>h xs. imp_map s p h xs \<and> bindings xs = bs)"

definition has_room :: "sched \<Rightarrow> addr \<Rightarrow> bool" where
  "has_room s p = (case do { h \<leftarrow> ImpMap_GetHashTable p s; sc_maps s h } of None \<Rightarrow> False | Some m \<Rightarrow> map_room m)"

lemma without_binding:
  assumes "keys_distinct WordKey_Equals (bindings (ys @ (e, k', v) # zs))" and "WordKey_Equals k k'"
  shows "without k (bindings (ys @ (e, k', v) # zs)) = bindings (ys @ zs)"
proof -
  have "\<forall>x \<in> set (bindings (ys @ zs)). \<not> WordKey_Equals k (fst x)"
    using assms by (auto simp: keys_distinct_def bindings_def sorted_wrt_append WordKey_Equals_def)
  then have "without k (bindings (ys @ zs)) = bindings (ys @ zs)" unfolding without_def by (intro filter_True) auto
  then show ?thesis using assms(2) by (simp add: without_def bindings_def)
qed

text \<open>
  C39. The imperative maps refine association lists: the bindings in the order of insertion, the newest first. A new map is empty. Inserting under a key
  that is not bound succeeds (also when the table is enlarged) and puts the binding in front; removing a bound key unlinks exactly its
  binding; lookups, membership, size and emptiness agree with the list; removing everything gives the empty list; a clone has the same
  bindings in the reverse order, and the map it was made from is as before. The operations change no block that does not belong to the map.
\<close>

theorem imp_map_refines:
  assumes "represents s p bs" and "no_transient k"
  shows "(\<exists>q s'. ImpMap_New s = Some (q, s') \<and> represents s' q [] \<and> represents s' p bs) \<and>
    (assoc WordKey_Equals k bs = None \<and> has_room s p \<longrightarrow> (\<exists>s'. ImpMap_Insert p k v s = Some s' \<and> represents s' p ((k, v) # bs))) \<and>
    (assoc WordKey_Equals k bs \<noteq> None \<longrightarrow> (\<exists>s'. ImpMap_Remove p k s = Some s' \<and> represents s' p (without k bs))) \<and>
    (\<exists>s'. ImpMap_RemoveAll p s = Some s' \<and> represents s' p []) \<and>
    ImpMap_Member p k s = Some (assoc WordKey_Equals k bs \<noteq> None) \<and> ImpMap_GetSize p s = Some (length bs) \<and> ImpMap_IsEmpty p s = Some (bs = []) \<and>
    ImpMap_Lookup p k s = (case assoc WordKey_Equals k bs of None \<Rightarrow> Some (IntW 0, s)
      | Some w \<Rightarrow> Some (BlkW (sc_next s), snd (new_block (DATA_LABEL (Alice_MIN_TAG + 1)) [w] s))) \<and>
    (length bs \<le> 5000000 \<longrightarrow> (\<exists>q s'. ImpMap_clone p s = Some (q, s') \<and> represents s' q (rev bs) \<and> represents s' p bs))"
proof -
  obtain h xs where m: "imp_map s p h xs" and bs: "bindings xs = bs" using assms(1) by (auto simp: represents_def)
  note keys = imp_map_keys [OF m]
  have 1: "\<exists>q s'. ImpMap_New s = Some (q, s') \<and> represents s' q [] \<and> represents s' p bs"
  proof -
    obtain s' i where n: "ImpMap_New s = Some (sc_next s, s')" "imp_map s' (sc_next s) i []" "i = Suc (sc_next s)" "only_map {} i s s'" using ImpMap_New_spec .
    moreover have "imp_map s' p h xs" using imp_map_frame [OF m n(4)] m n(3) by (auto simp: imp_map_def)
    ultimately show ?thesis using bs unfolding represents_def bindings_def by (metis list.map_disc_iff)
  qed
  have 2: "\<exists>s'. ImpMap_Insert p k v s = Some s' \<and> represents s' p ((k, v) # bs)" if "assoc WordKey_Equals k bs = None" "has_room s p"
  proof -
    have "map_room t" if "sc_maps s h = Some t" for t using that \<open>has_room s p\<close> imp_map_table [OF m] by (simp add: has_room_def)
    moreover have "assoc WordKey_Equals k (bindings xs) = None" using that(1) bs by simp
    ultimately obtain s' where "ImpMap_Insert p k v s = Some s'" "imp_map s' p h ((sc_next s, k, v) # xs)" using ImpMap_Insert_spec [OF m assms(2), of v] by blast
    moreover have "bindings ((sc_next s, k, v) # xs) = (k, v) # bs" using bs by (simp add: bindings_def)
    ultimately show ?thesis unfolding represents_def by blast
  qed
  have 3: "\<exists>s'. ImpMap_Remove p k s = Some s' \<and> represents s' p (without k bs)" if "assoc WordKey_Equals k bs \<noteq> None"
  proof -
    have "assoc WordKey_Equals k (entry_words xs) \<noteq> None" using that bs assoc_words by auto
    then obtain ys e k' w zs where e: "xs = ys @ (e, k', w) # zs" "WordKey_Equals k k'" "assoc WordKey_Equals k (entry_words xs) = Some (BlkW e)" by (rule assoc_entry)
    obtain s' where "ImpMap_Remove p k s = Some s'" "imp_map s' p h (ys @ zs)" using ImpMap_Remove_spec [of s p h ys e k' w zs k] m assms(2) e by metis
    moreover have "bindings (ys @ zs) = without k bs" using without_binding [of ys e k' w zs k] keys e(1,2) bs by simp
    ultimately show ?thesis unfolding represents_def by blast
  qed
  have 4: "\<exists>s'. ImpMap_RemoveAll p s = Some s' \<and> represents s' p []" using ImpMap_RemoveAll_spec [OF m] unfolding represents_def bindings_def by (metis list.map_disc_iff)
  have 5: "\<exists>q s'. ImpMap_clone p s = Some (q, s') \<and> represents s' q (rev bs) \<and> represents s' p bs" if "length bs \<le> 5000000"
  proof -
    have "length xs \<le> 5000000" using that bs by (auto simp: bindings_def)
    from ImpMap_clone_spec [OF m this] show ?thesis using bs unfolding represents_def by metis
  qed
  show ?thesis using 1 2 3 4 5 ImpMap_queries [OF m] ImpMap_Lookup_spec [OF m assms(2)] assms(2) bs by (auto simp: bindings_def)
qed

text \<open>A state with a map that binds 1 to 10.\<close>

definition sample_map :: "sched \<Rightarrow> sched" where
  "sample_map s = (case do { (p, s1) \<leftarrow> ImpMap_New s; ImpMap_Insert p (IntW 1) (IntW 10) s1 } of Some s' \<Rightarrow> s' | None \<Rightarrow> s)"

lemma sample_map_ok: "represents (sample_map s) (sc_next s) [(IntW 1, IntW 10)]" "has_room (sample_map s) (sc_next s)"
proof -
  obtain s1 h m where 1: "ImpMap_New s = Some (sc_next s, s1)" "imp_map s1 (sc_next s) h []" "sc_maps s1 h = Some m" "BaseMap_New 8 = Some m" using ImpMap_New_spec .
  have none: "no_transient (IntW 1)" "assoc WordKey_Equals (IntW 1) (bindings []) = None" by (simp_all add: no_transient_def bindings_def)
  have m: "map_small m" "table_has m []" using new_small [OF 1(4)] 1(2,3) by (auto simp: imp_map_def)
  then have "map_room m" using small_room [of m] by (simp add: table_has_def Map_GetSize_def)
  then have room: "\<And>t. sc_maps s1 h = Some t \<Longrightarrow> map_room t" using 1(3) by simp
  obtain s2 where 2: "ImpMap_Insert (sc_next s) (IntW 1) (IntW 10) s1 = Some s2" "imp_map s2 (sc_next s) h [(sc_next s1, IntW 1, IntW 10)]"
    "\<And>t. sc_maps s1 h = Some t \<Longrightarrow> map_small t \<Longrightarrow> \<exists>t'. sc_maps s2 h = Some t' \<and> map_small t'" using ImpMap_Insert_spec [OF 1(2) none room, of "IntW 10"] by blast
  have eq: "sample_map s = s2" using 1(1) 2(1) by (simp add: sample_map_def)
  then show "represents (sample_map s) (sc_next s) [(IntW 1, IntW 10)]" using 2(2) by (auto simp: represents_def bindings_def intro!: exI)
  obtain t where t: "sc_maps s2 h = Some t" "map_small t" using 2(3) [OF 1(3) m(1)] by blast
  moreover have "table_has t [(sc_next s1, IntW 1, IntW 10)]" using 2(2) t(1) by (simp add: imp_map_def)
  ultimately have "map_room t" using small_room [of t] by (simp add: table_has_def Map_GetSize_def)
  then show "has_room (sample_map s) (sc_next s)" using eq t(1) imp_map_table [OF 2(2)] by (simp add: has_room_def)
qed

theorem imp_map_refines_witness:
  "\<exists>s s'. represents s (sc_next no_objects) [(IntW 1, IntW 10)] \<and> ImpMap_Insert (sc_next no_objects) (IntW 2) (IntW 20) s = Some s' \<and>
    represents s' (sc_next no_objects) [(IntW 2, IntW 20), (IntW 1, IntW 10)]"
proof -
  have "\<not> WordKey_Equals (IntW 2) (IntW 1)" by (simp add: WordKey_Equals_def word_bits_def EncodeInt_eq)
  then have "assoc WordKey_Equals (IntW 2) [(IntW 1, IntW 10)] = None" by simp
  then show ?thesis using imp_map_refines [OF sample_map_ok(1) [of no_objects], of "IntW 2" "IntW 20"] sample_map_ok by (auto simp: no_transient_def)
qed

text \<open>
  C40. The keys of \<^verbatim>\<open>UnsafeImpMap\<close>. The macro \<^verbatim>\<open>DECLARE_KEY\<close> passes integers on as they are. For a block, however, it goes on to encode the result
  of the failed conversion to an integer: with the assertions of the store the encoding fails, and without them its bits are those of the integer
  0. So, without assertions, all blocks are the same key: what is inserted under the block \<open>x\<close> is found under every other block \<open>y\<close>, and under 0.
  Maps with cells as keys (\<^verbatim>\<open>UnsafeCell.Map\<close>, \<^verbatim>\<open>DECLARE_CELL\<close>) use the cell itself.
\<close>

theorem imp_map_block_keys:
  assumes "represents s p bs" and "WordToBlock (sc_trans s) x = Some (Some a)" and "WordToBlock (sc_trans s) y = Some (Some b)"
    and "assoc WordKey_Equals (IntW 0) bs = None" and "has_room s p"
  shows "DECLARE_KEY True env self x s k = None \<and> DECLARE_KEY False env self x s k = k (IntW 0) \<and>
    (MIN_VALID_INT \<le> i \<and> i \<le> MAX_VALID_INT \<longrightarrow> DECLARE_KEY store_debug env self (IntW i) s k = k (IntW i)) \<and>
    (\<exists>s'. DECLARE_KEY False env self x s (\<lambda>key. do { s' \<leftarrow> ImpMap_Insert p key v s; Some (CONTINUE, s') }) = Some (CONTINUE, s') \<and>
      DECLARE_KEY False env self y s' (\<lambda>key. do { (w, s2) \<leftarrow> ImpMap_Lookup p key s'; Some (CONTINUE, s2\<lparr>sc_data := w\<rparr>) }) =
        Some (CONTINUE, (snd (new_block (DATA_LABEL (Alice_MIN_TAG + 1)) [v] s'))\<lparr>sc_data := BlkW (sc_next s')\<rparr>))"
proof -
  have enc: "IntToWord False INVALID_INT = Some (IntW 0)" "IntToWord True INVALID_INT = None"
    by (simp_all add: IntToWord_def EncodeInt_eq DirectDecodeInt_eq)
  have blk: "WordToInt (sc_trans t) z = Some None" if "WordToBlock (sc_trans t) z = Some (Some c)" for t z c
    using that by (auto simp: WordToBlock_def WordToInt_def run_elims split: store_word.splits)
  have zero: "DECLARE_KEY False env self z t k = k (IntW 0)" if "WordToBlock (sc_trans t) z = Some (Some c)" for t z c k
    using blk [OF that] that enc by (simp add: DECLARE_KEY_def)
  obtain h xs where m: "imp_map s p h xs" "bindings xs = bs" using assms(1) by (auto simp: represents_def)
  have "no_transient (IntW 0)" "\<And>t. sc_maps s h = Some t \<Longrightarrow> map_room t" "assoc WordKey_Equals (IntW 0) (bindings xs) = None"
    using assms(4,5) imp_map_table [OF m(1)] m(2) by (simp_all add: no_transient_def has_room_def)
  then obtain s' where s': "ImpMap_Insert p (IntW 0) v s = Some s'" "imp_map s' p h ((sc_next s, IntW 0, v) # xs)" "only_map (own_blocks p xs) h s s'"
    using ImpMap_Insert_spec [OF m(1), of "IntW 0" v] by blast
  have trans: "sc_trans s' = sc_trans s" using s'(3) by (auto simp: only_map_def)
  have "ImpMap_Lookup p (IntW 0) s' = Some (BlkW (sc_next s'), snd (new_block (DATA_LABEL (Alice_MIN_TAG + 1)) [v] s'))"
    using ImpMap_Lookup_spec [OF s'(2), of "IntW 0"] by (simp add: no_transient_def bindings_def WordKey_Equals_def)
  moreover have "DECLARE_KEY store_debug env self (IntW i) s k = k (IntW i)" if "MIN_VALID_INT \<le> i \<and> i \<le> MAX_VALID_INT"
    using that by (simp add: DECLARE_KEY_def WordToInt_def IntToWord_def Deref.simps DirectDecodeInt_EncodeInt)
  moreover have "DECLARE_KEY True env self x s k = None" using blk [OF assms(2)] assms(2) enc(2) by (simp add: DECLARE_KEY_def)
  moreover have "WordToBlock (sc_trans s') y = Some (Some b)" using assms(3) trans by simp
  ultimately show ?thesis using s'(1) by (auto simp: zero [OF assms(2)] zero)
qed

theorem imp_map_block_keys_witness:
  "\<exists>s s'. represents s (sc_next no_objects) [(IntW 1, IntW 10)] \<and>
    DECLARE_KEY False bare_env (IntW 0) (BlkW 7) s (\<lambda>key. do { s' \<leftarrow> ImpMap_Insert (sc_next no_objects) key (IntW 5) s; Some (CONTINUE, s') }) = Some (CONTINUE, s') \<and>
    DECLARE_KEY False bare_env (IntW 0) (BlkW 9) s' (\<lambda>key. do { (w, s2) \<leftarrow> ImpMap_Lookup (sc_next no_objects) key s'; Some (CONTINUE, s2\<lparr>sc_data := w\<rparr>) }) =
      Some (CONTINUE, (snd (new_block (DATA_LABEL (Alice_MIN_TAG + 1)) [IntW 5] s'))\<lparr>sc_data := BlkW (sc_next s')\<rparr>)"
proof -
  have "\<not> WordKey_Equals (IntW 0) (IntW 1)" by (simp add: WordKey_Equals_def word_bits_def EncodeInt_eq)
  then have none: "assoc WordKey_Equals (IntW 0) [(IntW 1, IntW 10)] = None" by simp
  have blk: "WordToBlock T (BlkW a) = Some (Some a)" for T a by (simp add: WordToBlock_def Deref.simps)
  show ?thesis using imp_map_block_keys [OF sample_map_ok(1) [of no_objects] blk blk none sample_map_ok(2), of bare_env "IntW 0" 7 _ _ _ "IntW 5" 9] sample_map_ok(1) by blast
qed

end
