(* ===== verification/Sequences.thy ===== *)
theory Sequences
  imports Imp_Map
begin

text \<open>
  Vectors and arrays: the classes \<^verbatim>\<open>Vector\<close>, \<^verbatim>\<open>Array\<close>, \<^verbatim>\<open>CharVector\<close>, \<^verbatim>\<open>CharArray\<close>, \<^verbatim>\<open>Word8Vector\<close> and \<^verbatim>\<open>Word8Array\<close> of
  \<^verbatim>\<open>alice/vm-seam/alice/Data.hh\<close>, and their primitives in \<^verbatim>\<open>primitives/Vector.icc\<close> and \<^verbatim>\<open>primitives/Array.icc\<close>.

  The two \<^verbatim>\<open>.icc\<close> files are templates that are included three times each, with the class and \<^verbatim>\<open>REQUEST_ELEMS_INT\<close> as macros. Here the class
  is a record of its operations, \<open>xseq\<close>, and the primitives take it as an argument. A class with \<^verbatim>\<open>REQUEST_ELEMS_INT\<close> is kept in a chunk, its
  elements are integers that are requested, and parts of it are copied with \<^verbatim>\<open>InitChunk\<close>.

  A new object is not initialized. Its words are the ones that \<^verbatim>\<open>HeapChunk::HeapChunk\<close> fills the memory with, bytes of value 1: they are
  integers, so that the collector may see an object whose elements are still being computed (\<^verbatim>\<open>tabulate\<close>).
\<close>

section \<open>The classes\<close>

text \<open>The word of four bytes 1 is the integer 8421504.\<close>

definition fresh_word :: store_word where "fresh_word = IntW 8421504"

definition fresh_byte :: "8 word" where "fresh_byte = 1"

record xseq =
  xq_maxLen :: nat
  xq_New :: "nat \<Rightarrow> sched \<Rightarrow> (addr \<times> sched) option"
  xq_FromWord :: "sched \<Rightarrow> store_word \<Rightarrow> addr option option"
  xq_GetLength :: "addr \<Rightarrow> sched \<Rightarrow> nat option"
  xq_Init :: "addr \<Rightarrow> nat \<Rightarrow> store_word \<Rightarrow> sched \<Rightarrow> sched option"
  xq_Update :: "addr \<Rightarrow> nat \<Rightarrow> store_word \<Rightarrow> sched \<Rightarrow> sched option"
  xq_Sub :: "addr \<Rightarrow> nat \<Rightarrow> sched \<Rightarrow> store_word option"
  xq_request :: bool
  xq_InitChunk :: "addr \<Rightarrow> nat \<Rightarrow> 8 word list \<Rightarrow> sched \<Rightarrow> sched option"
  xq_GetValue :: "addr \<Rightarrow> sched \<Rightarrow> 8 word list option"

text \<open>Blocks: the length, then the elements, and the words that the allocator adds when it rounds the size up.\<close>

definition seq_block :: "nat \<Rightarrow> store_word list option" where
  "seq_block n = do {
     ws \<leftarrow> alloc_array (\<lambda>_. fresh_word) (1 + n);
     Block_SetArg ws 0 (IntW (int n)) }"

definition block_FromWord :: "block_label \<Rightarrow> sched \<Rightarrow> store_word \<Rightarrow> addr option option" where
  "block_FromWord lbl s w = do {
     b \<leftarrow> WordToBlock (sc_trans s) w;
     case b of None \<Rightarrow> Some None
     | Some a \<Rightarrow> do { (l, ws) \<leftarrow> sc_blocks s a; Assert (l = lbl); Some (Some a) } }"

definition block_GetLength :: "addr \<Rightarrow> sched \<Rightarrow> nat option" where
  "block_GetLength a s = do { w \<leftarrow> block_get a 0 s; DirectWordToNat w }"

definition Array_New :: "nat \<Rightarrow> sched \<Rightarrow> (addr \<times> sched) option" where
  "Array_New n s = do { ws \<leftarrow> seq_block n; Some (new_block Alice_Array ws s) }"

text \<open>The assertions of the arrays let the index be equal to the length.\<close>

definition Array_Init :: "addr \<Rightarrow> nat \<Rightarrow> store_word \<Rightarrow> sched \<Rightarrow> sched option" where
  "Array_Init a index v s = do { n \<leftarrow> block_GetLength a s; Assert (index \<le> n); block_set a (1 + index) v s }"

definition Array_Update :: "addr \<Rightarrow> nat \<Rightarrow> store_word \<Rightarrow> sched \<Rightarrow> sched option" where
  "Array_Update a index v s = do { n \<leftarrow> block_GetLength a s; Assert (index \<le> n); block_set a (1 + index) v s }"

definition Array_Sub :: "addr \<Rightarrow> nat \<Rightarrow> sched \<Rightarrow> store_word option" where
  "Array_Sub a index s = do { n \<leftarrow> block_GetLength a s; Assert (index \<le> n); block_get a (1 + index) s }"

definition Vector_New_length :: "alice_consts \<Rightarrow> nat \<Rightarrow> sched \<Rightarrow> (addr \<times> sched) option" where
  "Vector_New_length ac n s =
     (if n = 0 then do {
        a \<leftarrow> DirectWordToBlock (ac_emptyVector ac);
        (l, ws) \<leftarrow> sc_blocks s a;
        Assert (l = Alice_Vector);
        Some (a, s) }
      else do { ws \<leftarrow> seq_block n; Some (new_block Alice_Vector ws s) })"

definition Vector_Init_elem :: "addr \<Rightarrow> nat \<Rightarrow> store_word \<Rightarrow> sched \<Rightarrow> sched option" where
  "Vector_Init_elem a index v s = block_set a (1 + index) v s"

definition Vector_LateInit :: "addr \<Rightarrow> nat \<Rightarrow> store_word \<Rightarrow> sched \<Rightarrow> sched option" where
  "Vector_LateInit a index v s = block_set a (1 + index) v s"

definition Vector_Sub_elem :: "addr \<Rightarrow> nat \<Rightarrow> sched \<Rightarrow> store_word option" where
  "Vector_Sub_elem a index s = block_get a (1 + index) s"

definition seq_maxLen :: nat where "seq_maxLen = unat MAX_BIGBLOCKSIZE - 1"

definition Array_class :: xseq where
  "Array_class = \<lparr>xq_maxLen = seq_maxLen, xq_New = Array_New, xq_FromWord = block_FromWord Alice_Array, xq_GetLength = block_GetLength,
     xq_Init = Array_Init, xq_Update = Array_Update, xq_Sub = Array_Sub, xq_request = False,
     xq_InitChunk = (\<lambda>_ _ _ _. None), xq_GetValue = (\<lambda>_ _. None)\<rparr>"

definition Vector_class :: "alice_consts \<Rightarrow> xseq" where
  "Vector_class ac = \<lparr>xq_maxLen = seq_maxLen, xq_New = Vector_New_length ac, xq_FromWord = block_FromWord Alice_Vector, xq_GetLength = block_GetLength,
     xq_Init = Vector_Init_elem, xq_Update = Vector_LateInit, xq_Sub = Vector_Sub_elem, xq_request = False,
     xq_InitChunk = (\<lambda>_ _ _ _. None), xq_GetValue = (\<lambda>_ _. None)\<rparr>"

text \<open>Chunks: characters are bytes from 0 to 255, words of eight bits the integers from -128 to 127.\<close>

definition ALICE_STRING_MAX_SIZE :: nat where "ALICE_STRING_MAX_SIZE = (unat MAX_BIGBLOCKSIZE - 1) * 4"

definition chunk_FromWord :: "sched \<Rightarrow> store_word \<Rightarrow> addr option option" where
  "chunk_FromWord s w = do {
     b \<leftarrow> WordToBlock (sc_trans s) w;
     case b of None \<Rightarrow> Some None
     | Some a \<Rightarrow> do { Assert (sc_chunks s a \<noteq> None); Some (Some a) } }"

definition chunk_New :: "nat \<Rightarrow> sched \<Rightarrow> (addr \<times> sched) option" where
  "chunk_New n s = do { Assert (n \<le> ALICE_STRING_MAX_SIZE); Some (new_chunk (replicate n fresh_byte) s) }"

definition GetValue :: "addr \<Rightarrow> sched \<Rightarrow> 8 word list option" where
  "GetValue a s = sc_chunks s a"

definition chunk_GetLength :: "addr \<Rightarrow> sched \<Rightarrow> nat option" where
  "chunk_GetLength a s = do { bs \<leftarrow> sc_chunks s a; Some (length bs) }"

definition chunk_Init :: "int \<Rightarrow> int \<Rightarrow> addr \<Rightarrow> nat \<Rightarrow> store_word \<Rightarrow> sched \<Rightarrow> sched option" where
  "chunk_Init lo hi a index v s = do {
     bs \<leftarrow> sc_chunks s a;
     Assert (index < length bs);
     i \<leftarrow> WordToInt (sc_trans s) v;
     j \<leftarrow> i;
     Assert (lo \<le> j \<and> j \<le> hi);
     Some (s\<lparr>sc_chunks := (sc_chunks s)(a \<mapsto> bs[index := word_of_int j])\<rparr>) }"

definition InitChunk :: "addr \<Rightarrow> nat \<Rightarrow> 8 word list \<Rightarrow> sched \<Rightarrow> sched option" where
  "InitChunk a index chunk s = do {
     bs \<leftarrow> sc_chunks s a;
     Assert (index + length chunk \<le> length bs);
     Some (s\<lparr>sc_chunks := (sc_chunks s)(a \<mapsto> take index bs @ chunk @ drop (index + length chunk) bs)\<rparr>) }"

definition Char_Sub :: "addr \<Rightarrow> nat \<Rightarrow> sched \<Rightarrow> store_word option" where
  "Char_Sub a index s = do { bs \<leftarrow> sc_chunks s a; b \<leftarrow> Block_GetArg bs index; Some (IntW (uint b)) }"

definition Word8_Sub :: "addr \<Rightarrow> nat \<Rightarrow> sched \<Rightarrow> store_word option" where
  "Word8_Sub a index s = do { bs \<leftarrow> sc_chunks s a; b \<leftarrow> Block_GetArg bs index; Some (IntW (sint b)) }"

definition Char_class :: xseq where
  "Char_class = \<lparr>xq_maxLen = ALICE_STRING_MAX_SIZE, xq_New = chunk_New, xq_FromWord = chunk_FromWord, xq_GetLength = chunk_GetLength,
     xq_Init = chunk_Init 0 0xFF, xq_Update = chunk_Init 0 0xFF, xq_Sub = Char_Sub, xq_request = True,
     xq_InitChunk = InitChunk, xq_GetValue = GetValue\<rparr>"

definition Word8_class :: xseq where
  "Word8_class = \<lparr>xq_maxLen = ALICE_STRING_MAX_SIZE, xq_New = chunk_New, xq_FromWord = chunk_FromWord, xq_GetLength = chunk_GetLength,
     xq_Init = chunk_Init (-128) 127, xq_Update = chunk_Init (-128) 127, xq_Sub = Word8_Sub, xq_request = True,
     xq_InitChunk = InitChunk, xq_GetValue = GetValue\<rparr>"

section \<open>Macros\<close>

definition DEFINE3 :: "(store_word \<Rightarrow> store_word \<Rightarrow> store_word \<Rightarrow> store_word \<Rightarrow> prim_body) \<Rightarrow> prim_body" where
  "DEFINE3 body s = do {
     (self, s1) \<leftarrow> POP_PRIM_SELF 3 s;
     x0 \<leftarrow> GetCurrentArg 0 s1;
     x1 \<leftarrow> GetCurrentArg 1 s1;
     x2 \<leftarrow> GetCurrentArg 2 s1;
     body self x0 x1 x2 s1 }"

definition DECLARE_XSEQ :: "xseq \<Rightarrow> senv \<Rightarrow> store_word \<Rightarrow> store_word \<Rightarrow> sched \<Rightarrow> (addr \<Rightarrow> (worker_result \<times> sched) option) \<Rightarrow> (worker_result \<times> sched) option" where
  "DECLARE_XSEQ X env self x s k = do {
     p \<leftarrow> xq_FromWord X s x;
     case p of None \<Rightarrow> prim_REQUEST env self x s | Some a \<Rightarrow> k a }"

definition Types_cons :: nat where "Types_cons = 0"
definition Types_nil :: int where "Types_nil = 1"

text \<open>
  The loop of \<^verbatim>\<open>DECLARE_LIST_ELEMS\<close>: it gives the length of the list, or the word to be requested. The command for the elements answers with
  the word to be requested too, if any. The loop does not end on a cyclic list.
\<close>

partial_function (option) list_elems :: "(store_word \<Rightarrow> store_word option option) \<Rightarrow> sched \<Rightarrow> nat \<Rightarrow> store_word \<Rightarrow> (store_word + nat) option" where
  "list_elems cmd s n list =
     Option.bind (TagVal_FromWord s list) (\<lambda>t. case t of
       None \<Rightarrow> Option.bind (WordToInt (sc_trans s) list) (\<lambda>i. case i of
         None \<Rightarrow> Some (Inl list)
       | Some j \<Rightarrow> Option.bind (Assert (j = Types_nil)) (\<lambda>_. Some (Inr n)))
     | Some (tag, ws) \<Rightarrow> Option.bind (Assert (tag = Types_cons)) (\<lambda>_.
         Option.bind (Block_GetArg ws 0) (\<lambda>x. Option.bind (cmd x) (\<lambda>c. case c of
           Some w \<Rightarrow> Some (Inl w)
         | None \<Rightarrow> Option.bind (Block_GetArg ws 1) (list_elems cmd s (Suc n))))))"

declare list_elems.simps [code]

definition DECLARE_LIST_ELEMS ::
  "(store_word \<Rightarrow> store_word option option) \<Rightarrow> senv \<Rightarrow> store_word \<Rightarrow> store_word \<Rightarrow> sched \<Rightarrow> (nat \<Rightarrow> (worker_result \<times> sched) option) \<Rightarrow> (worker_result \<times> sched) option" where
  "DECLARE_LIST_ELEMS cmd env self x s k = do {
     r \<leftarrow> list_elems cmd s 0 x;
     case r of Inl w \<Rightarrow> prim_REQUEST env self w s | Inr n \<Rightarrow> k n }"

text \<open>The commands: none, \<^verbatim>\<open>DECLARE_INT\<close> and \<^verbatim>\<open>DECLARE_XVECTOR\<close>.\<close>

definition any_elem :: "store_word \<Rightarrow> store_word option option" where "any_elem x = Some None"

definition int_elem :: "sched \<Rightarrow> store_word \<Rightarrow> store_word option option" where
  "int_elem s x = do { i \<leftarrow> WordToInt (sc_trans s) x; Some (if i = None then Some x else None) }"

definition seq_elem :: "xseq \<Rightarrow> sched \<Rightarrow> store_word \<Rightarrow> store_word option option" where
  "seq_elem X s x = do { p \<leftarrow> xq_FromWord X s x; Some (if p = None then Some x else None) }"

text \<open>\<^verbatim>\<open>static_cast<u_int>\<close> of a signed integer.\<close>

definition as_u_int :: "int \<Rightarrow> nat" where "as_u_int i = unat (word_of_int i :: u_int)"

section \<open>Tabulation\<close>

text \<open>The frames of the workers: the object, the closure, the index and the number of elements.\<close>

definition TabulateWorker_PushFrame :: "senv \<Rightarrow> store_word \<Rightarrow> addr \<Rightarrow> store_word \<Rightarrow> nat \<Rightarrow> nat \<Rightarrow> sched \<Rightarrow> sched option option" where
  "TabulateWorker_PushFrame env worker a closure i n s = new_frame env worker [BlkW a, closure, IntW (int i), IntW (int n)] s"

definition TabulateFrame_UpdateIndex :: "nat \<Rightarrow> sched \<Rightarrow> sched option" where
  "TabulateFrame_UpdateIndex i s = do {
     st \<leftarrow> Frame_InitArg (sc_top s) 2 (IntW (int i)) (sc_stack s);
     Some (s\<lparr>sc_stack := st\<rparr>) }"

definition TabulateWorker_Run :: "xseq \<Rightarrow> senv \<Rightarrow> prim_body" where
  "TabulateWorker_Run X env s = do {
     w \<leftarrow> Frame_GetArg (sc_top s) 0 (sc_stack s);
     p \<leftarrow> xq_FromWord X s w;
     a \<leftarrow> p;
     closure \<leftarrow> Frame_GetArg (sc_top s) 1 (sc_stack s);
     wi \<leftarrow> Frame_GetArg (sc_top s) 2 (sc_stack s);
     i \<leftarrow> DirectWordToNat wi;
     wn \<leftarrow> Frame_GetArg (sc_top s) 3 (sc_stack s);
     n \<leftarrow> DirectWordToNat wn;
     s1 \<leftarrow> Construct s;
     v \<leftarrow> GetCurrentArg 0 s1;
     c \<leftarrow> (if xq_request X then int_elem s1 v else Some None);
     case c of
       Some x \<Rightarrow> Some (REQUEST, s1\<lparr>sc_data := x\<rparr>)
     | None \<Rightarrow> do {
         s2 \<leftarrow> xq_Update X a i v s1;
         (if Suc i = n then do {
            s3 \<leftarrow> Sched_PopFrame 5 s2;
            RETURN1 (BlkW a) s3 }
          else do {
            s3 \<leftarrow> TabulateFrame_UpdateIndex (Suc i) s2;
            s4 \<leftarrow> pass_args [IntW (int (Suc i))] s3;
            PushCall env closure s4 }) } }"

section \<open>Copying\<close>

text \<open>The loops that copy elements from the last one to the first, from \<open>src\<close> at \<open>so\<close> to \<open>dst\<close> at \<open>d\<close>.\<close>

fun copy_elems :: "xseq \<Rightarrow> xseq \<Rightarrow> addr \<Rightarrow> nat \<Rightarrow> addr \<Rightarrow> nat \<Rightarrow> nat \<Rightarrow> sched \<Rightarrow> sched option" where
  "copy_elems D S dst d src so 0 s = Some s"
| "copy_elems D S dst d src so (Suc j) s = do {
     w \<leftarrow> xq_Sub S src (so + j) s;
     s1 \<leftarrow> xq_Init D dst (d + j) w s;
     copy_elems D S dst d src so j s1 }"

text \<open>The two variants of copying a part to a new object.\<close>

definition copy_part :: "xseq \<Rightarrow> xseq \<Rightarrow> addr \<Rightarrow> addr \<Rightarrow> nat \<Rightarrow> nat \<Rightarrow> sched \<Rightarrow> sched option" where
  "copy_part D S dst src i n s =
     (if xq_request D then do {
        bs \<leftarrow> xq_GetValue S src s;
        Assert (i + n \<le> length bs);
        xq_InitChunk D dst 0 (take n (drop i bs)) s }
      else copy_elems D S dst 0 src i n s)"

fun fill_elems :: "xseq \<Rightarrow> addr \<Rightarrow> store_word \<Rightarrow> nat \<Rightarrow> sched \<Rightarrow> sched option" where
  "fill_elems X a v 0 s = Some s"
| "fill_elems X a v (Suc i) s = do { s1 \<leftarrow> xq_Init X a i v s; fill_elems X a v i s1 }"

text \<open>The list is walked again, now that it is known to end.\<close>

partial_function (option) fill_from_list :: "xseq \<Rightarrow> addr \<Rightarrow> nat \<Rightarrow> store_word \<Rightarrow> sched \<Rightarrow> (nat \<times> sched) option" where
  "fill_from_list X a i list s =
     Option.bind (TagVal_FromWord s list) (\<lambda>t. case t of
       None \<Rightarrow> Some (i, s)
     | Some (tag, ws) \<Rightarrow> Option.bind (Block_GetArg ws 0) (\<lambda>x. Option.bind (xq_Init X a i x s) (\<lambda>s1.
         Option.bind (Block_GetArg ws 1) (\<lambda>tl. fill_from_list X a (Suc i) tl s1))))"

declare fill_from_list.simps [code]

definition seq_fromList :: "xseq \<Rightarrow> senv \<Rightarrow> arith_exns \<Rightarrow> prim_body" where
  "seq_fromList X env ex = DEFINE1 (\<lambda>self x0 s.
     DECLARE_LIST_ELEMS (if xq_request X then int_elem s else any_elem) env self x0 s (\<lambda>length.
       if length > xq_maxLen X then prim_RAISE env self (General_Size ex) s
       else do {
         (a, s1) \<leftarrow> xq_New X length s;
         (i, s2) \<leftarrow> fill_from_list X a 0 x0 s1;
         Assert (i = length);
         RETURN1 (BlkW a) s2 }))"

definition seq_length :: "xseq \<Rightarrow> senv \<Rightarrow> prim_body" where
  "seq_length X env = DEFINE1 (\<lambda>self x0 s. DECLARE_XSEQ X env self x0 s (\<lambda>a. do {
     n \<leftarrow> xq_GetLength X a s;
     RETURN_INT (int n) s }))"

definition seq_sub :: "xseq \<Rightarrow> senv \<Rightarrow> store_word \<Rightarrow> prim_body" where
  "seq_sub X env General_Subscript = DEFINE2 (\<lambda>self x0 x1 s.
     DECLARE_XSEQ X env self x0 s (\<lambda>a. DECLARE_INT env self x1 s (\<lambda>index. do {
       n \<leftarrow> xq_GetLength X a s;
       (if as_u_int index \<ge> n then prim_RAISE env self General_Subscript s
        else do { w \<leftarrow> xq_Sub X a (as_u_int index) s; RETURN1 w s }) })))"

definition seq_extract :: "xseq \<Rightarrow> xseq \<Rightarrow> senv \<Rightarrow> store_word \<Rightarrow> prim_body" where
  "seq_extract D S env General_Subscript = DEFINE3 (\<lambda>self x0 x1 x2 s.
     DECLARE_XSEQ S env self x0 s (\<lambda>a. DECLARE_INT env self x1 s (\<lambda>i. DECLARE_INT env self x2 s (\<lambda>n. do {
       len \<leftarrow> xq_GetLength S a s;
       (if i < 0 \<or> n < 0 \<or> as_u_int (s32 (i + n)) > len then prim_RAISE env self General_Subscript s
        else do {
          (b, s1) \<leftarrow> xq_New D (nat n) s;
          s2 \<leftarrow> copy_part D S b a (nat i) (nat n) s1;
          RETURN1 (BlkW b) s2 }) }))))"

definition seq_tabulate :: "xseq \<Rightarrow> store_word \<Rightarrow> senv \<Rightarrow> arith_exns \<Rightarrow> prim_body" where
  "seq_tabulate X worker env ex = DEFINE2 (\<lambda>self x0 x1 s. DECLARE_INT env self x0 s (\<lambda>length.
     if length = 0 then do { (a, s1) \<leftarrow> xq_New X 0 s; RETURN1 (BlkW a) s1 }
     else if length < 0 \<or> as_u_int length > xq_maxLen X then prim_RAISE env self (General_Size ex) s
     else do {
       (a, s1) \<leftarrow> xq_New X (nat length) s;
       call_or_overflow (TabulateWorker_PushFrame env worker a x1 0 (nat length) s1) s1 (\<lambda>s2. do {
         s3 \<leftarrow> pass_args [IntW 0] s2;
         PushCall env x1 s3 }) }))"

text \<open>The list is built from the last element to the first.\<close>

fun list_of_elems :: "xseq \<Rightarrow> addr \<Rightarrow> nat \<Rightarrow> store_word \<Rightarrow> sched \<Rightarrow> (store_word \<times> sched) option" where
  "list_of_elems X a 0 list s = Some (list, s)"
| "list_of_elems X a (Suc i) list s = do {
     w \<leftarrow> xq_Sub X a i s;
     (c, s1) \<leftarrow> TagVal_New Types_cons [w, list] s;
     list_of_elems X a i (BlkW c) s1 }"

definition seq_toList :: "xseq \<Rightarrow> senv \<Rightarrow> prim_body" where
  "seq_toList X env = DEFINE1 (\<lambda>self x0 s. DECLARE_XSEQ X env self x0 s (\<lambda>a. do {
     n \<leftarrow> xq_GetLength X a s;
     (list, s1) \<leftarrow> list_of_elems X a n (IntW Types_nil) s;
     RETURN1 list s1 }))"

section \<open>Vectors\<close>

text \<open>\<^verbatim>\<open>Vector.concat\<close> compares the number of vectors, not the sum of their lengths, with the maximal length.\<close>

partial_function (option) total_length :: "xseq \<Rightarrow> sched \<Rightarrow> nat \<Rightarrow> store_word \<Rightarrow> nat option" where
  "total_length X s m list =
     Option.bind (TagVal_FromWord s list) (\<lambda>t. case t of
       None \<Rightarrow> Some m
     | Some (tag, ws) \<Rightarrow> Option.bind (Block_GetArg ws 0) (\<lambda>x. Option.bind (xq_FromWord X s x) (\<lambda>p. Option.bind p (\<lambda>a.
         Option.bind (xq_GetLength X a s) (\<lambda>n. Option.bind (Block_GetArg ws 1) (total_length X s (m + n)))))))"

declare total_length.simps [code]

partial_function (option) concat_loop :: "xseq \<Rightarrow> addr \<Rightarrow> nat \<Rightarrow> store_word \<Rightarrow> sched \<Rightarrow> (nat \<times> sched) option" where
  "concat_loop X v i list s =
     Option.bind (TagVal_FromWord s list) (\<lambda>t. case t of
       None \<Rightarrow> Some (i, s)
     | Some (tag, ws) \<Rightarrow> Option.bind (Block_GetArg ws 0) (\<lambda>x. Option.bind (xq_FromWord X s x) (\<lambda>p. Option.bind p (\<lambda>a.
         Option.bind (xq_GetLength X a s) (\<lambda>n. Option.bind (copy_elems X X v i a 0 n s) (\<lambda>s1.
           Option.bind (Block_GetArg ws 1) (\<lambda>tl. concat_loop X v (i + n) tl s1)))))))"

declare concat_loop.simps [code]

definition Vector_concat :: "xseq \<Rightarrow> senv \<Rightarrow> arith_exns \<Rightarrow> prim_body" where
  "Vector_concat X env ex = DEFINE1 (\<lambda>self x0 s. DECLARE_LIST_ELEMS (seq_elem X s) env self x0 s (\<lambda>length. do {
     totalLength \<leftarrow> total_length X s 0 x0;
     (if length > xq_maxLen X then prim_RAISE env self (General_Size ex) s
      else do {
        (v, s1) \<leftarrow> xq_New X totalLength s;
        (i, s2) \<leftarrow> concat_loop X v 0 x0 s1;
        Assert (i = totalLength);
        RETURN1 (BlkW v) s2 }) }))"

definition Vector_extract :: "xseq \<Rightarrow> senv \<Rightarrow> store_word \<Rightarrow> prim_body" where "Vector_extract X = seq_extract X X"
definition Vector_fromList :: "xseq \<Rightarrow> senv \<Rightarrow> arith_exns \<Rightarrow> prim_body" where "Vector_fromList = seq_fromList"
definition Vector_length :: "xseq \<Rightarrow> senv \<Rightarrow> prim_body" where "Vector_length = seq_length"
definition Vector_sub :: "xseq \<Rightarrow> senv \<Rightarrow> store_word \<Rightarrow> prim_body" where "Vector_sub = seq_sub"
definition Vector_tabulate :: "xseq \<Rightarrow> store_word \<Rightarrow> senv \<Rightarrow> arith_exns \<Rightarrow> prim_body" where "Vector_tabulate = seq_tabulate"
definition Vector_toList :: "xseq \<Rightarrow> senv \<Rightarrow> prim_body" where "Vector_toList = seq_toList"

section \<open>Arrays\<close>

text \<open>With \<^verbatim>\<open>REQUEST_ELEMS_INT\<close> the initial element is requested after the frame of the primitive has been popped.\<close>

definition Array_array :: "xseq \<Rightarrow> senv \<Rightarrow> arith_exns \<Rightarrow> prim_body" where
  "Array_array X env ex = DEFINE2 (\<lambda>self x0 x1 s. DECLARE_INT env self x0 s (\<lambda>length. do {
     c \<leftarrow> (if xq_request X then int_elem s x1 else Some None);
     case c of
       Some w \<Rightarrow> Some (REQUEST, s\<lparr>sc_data := w\<rparr>)
     | None \<Rightarrow>
         if as_u_int length > xq_maxLen X then prim_RAISE env self (General_Size ex) s
         else do {
           (a, s1) \<leftarrow> xq_New X (as_u_int length) s;
           s2 \<leftarrow> fill_elems X a x1 (as_u_int length) s1;
           RETURN1 (BlkW a) s2 } }))"

definition Array_extract :: "xseq \<Rightarrow> xseq \<Rightarrow> senv \<Rightarrow> store_word \<Rightarrow> prim_body" where "Array_extract V A = seq_extract V A"
definition Array_fromList :: "xseq \<Rightarrow> senv \<Rightarrow> arith_exns \<Rightarrow> prim_body" where "Array_fromList = seq_fromList"

definition Array_fromVector :: "xseq \<Rightarrow> xseq \<Rightarrow> senv \<Rightarrow> prim_body" where
  "Array_fromVector A V env = DEFINE1 (\<lambda>self x0 s. DECLARE_XSEQ V env self x0 s (\<lambda>v. do {
     Assert (xq_maxLen A = xq_maxLen V);
     n \<leftarrow> xq_GetLength V v s;
     (a, s1) \<leftarrow> xq_New A n s;
     s2 \<leftarrow> copy_part A V a v 0 n s1;
     RETURN1 (BlkW a) s2 }))"

definition Array_length :: "xseq \<Rightarrow> senv \<Rightarrow> prim_body" where "Array_length = seq_length"
definition Array_sub :: "xseq \<Rightarrow> senv \<Rightarrow> store_word \<Rightarrow> prim_body" where "Array_sub = seq_sub"
definition Array_tabulate :: "xseq \<Rightarrow> store_word \<Rightarrow> senv \<Rightarrow> arith_exns \<Rightarrow> prim_body" where "Array_tabulate = seq_tabulate"
definition Array_toList :: "xseq \<Rightarrow> senv \<Rightarrow> prim_body" where "Array_toList = seq_toList"

definition Array_update :: "xseq \<Rightarrow> senv \<Rightarrow> store_word \<Rightarrow> prim_body" where
  "Array_update X env General_Subscript = DEFINE3 (\<lambda>self x0 x1 x2 s.
     DECLARE_XSEQ X env self x0 s (\<lambda>a. DECLARE_INT env self x1 s (\<lambda>index. do {
       n \<leftarrow> xq_GetLength X a s;
       (if as_u_int index \<ge> n then prim_RAISE env self General_Subscript s
        else do { s1 \<leftarrow> xq_Update X a (as_u_int index) x2 s; RETURN1 (IntW 0) s1 }) })))"

end
