(* ===== verification/Sequence_Props.thy ===== *)
theory Sequence_Props
  imports Sequences
begin

text \<open>
  The primitives on vectors and arrays refine operations on lists.

  The locale \<open>sequence\<close> is what the templates \<^verbatim>\<open>Vector.icc\<close> and \<^verbatim>\<open>Array.icc\<close> rely on in the class that they are instantiated with, and
  \<open>seq_copy\<close> the contract between the two classes of a conversion. The behaviour of the primitives is proved in them once; the interpretations
  are the classes of \<open>Sequences\<close>.
\<close>

section \<open>Steps on the heap\<close>

text \<open>A step that changes the objects \<open>A\<close> and allocates others; \<open>seq_step\<close> leaves the registers alone too.\<close>

definition heap_step :: "addr set \<Rightarrow> sched \<Rightarrow> sched \<Rightarrow> bool" where
  "heap_step A s s' \<longleftrightarrow> same_sched s s' \<and> (\<forall>b < sc_next s. b \<notin> A \<longrightarrow> sc_blocks s' b = sc_blocks s b \<and> sc_chunks s' b = sc_chunks s b)"

definition seq_step :: "addr set \<Rightarrow> sched \<Rightarrow> sched \<Rightarrow> bool" where
  "seq_step A s s' \<longleftrightarrow> heap_step A s s' \<and> sc_nArgs s' = sc_nArgs s \<and> sc_args s' = sc_args s \<and> sc_top s' = sc_top s \<and> sc_stack s' = sc_stack s"

lemma heap_step_extends: "heap_step {} s s' \<longleftrightarrow> extends s s'"
  by (simp add: heap_step_def extends_def)

lemma heap_step_refl [simp]: "heap_step A s s" "seq_step A s s"
  by (simp_all add: heap_step_def seq_step_def)

lemma heap_step_trans:
  assumes "heap_step A s s1" and "heap_step B s1 s2" and "\<And>b. b \<in> B \<Longrightarrow> b \<in> C \<or> sc_next s \<le> b" and "A \<subseteq> C"
  shows "heap_step C s s2"
proof -
  have "sc_next s \<le> sc_next s1" "same_sched s s2" using assms(1,2) same_sched_trans by (auto simp: heap_step_def same_sched_def)
  moreover have "sc_blocks s2 b = sc_blocks s b \<and> sc_chunks s2 b = sc_chunks s b" if "b < sc_next s" "b \<notin> C" for b
  proof -
    have "b \<notin> A" "b \<notin> B" "b < sc_next s1" using that assms(3) [of b] assms(4) calculation(1) by auto
    then show ?thesis using that(1) assms(1,2) by (simp add: heap_step_def)
  qed
  ultimately show ?thesis by (simp add: heap_step_def)
qed

lemma seq_step_trans:
  assumes "seq_step A s s1" and "seq_step B s1 s2" and "\<And>b. b \<in> B \<Longrightarrow> b \<in> C \<or> sc_next s \<le> b" and "A \<subseteq> C"
  shows "seq_step C s s2"
  using assms heap_step_trans [of A s s1 B s2 C] by (simp add: seq_step_def)

lemma seq_stepD [dest]: "seq_step A s s' \<Longrightarrow> heap_step A s s'"
  by (simp add: seq_step_def)

lemma heap_step_trans_eq: "heap_step A s s' \<Longrightarrow> sc_trans s' = sc_trans s" "heap_step A s s' \<Longrightarrow> sc_next s \<le> sc_next s'"
  by (simp_all add: heap_step_def same_sched_def)

lemma block_set_step:
  assumes "sc_blocks s a = Some (l, ws)" and "i < length ws"
  shows "\<exists>s'. block_set a i w s = Some s' \<and> seq_step {a} s s' \<and> sc_blocks s' = (sc_blocks s)(a \<mapsto> (l, ws[i := w])) \<and> sc_next s' = sc_next s"
  using assms by (simp add: block_set_def run_simps seq_step_def heap_step_def same_sched_def tview_def)

text \<open>How a primitive returns that was called in the state \<open>s\<close>.\<close>

definition gives :: "addr set \<Rightarrow> sched \<Rightarrow> (worker_result \<times> sched) option \<Rightarrow> (sched \<Rightarrow> store_word \<Rightarrow> bool) \<Rightarrow> bool" where
  "gives A s r P \<longleftrightarrow> (\<exists>s' v. r = Some (CONTINUE, s') \<and> heap_step A s s' \<and> sc_nArgs s' = 1 \<and> sc_args s' ! 0 = v \<and>
     sc_top s' = sc_top s - 1 \<and> sc_stack s' = sc_stack s \<and> P s' v)"

text \<open>How a primitive returns a new object.\<close>

definition builds :: "(sched \<Rightarrow> addr \<Rightarrow> store_word list \<Rightarrow> bool) \<Rightarrow> sched \<Rightarrow> (worker_result \<times> sched) option \<Rightarrow> store_word list \<Rightarrow> bool" where
  "builds elems s r vs \<longleftrightarrow> gives {} s r (\<lambda>s' w. \<exists>a. w = BlkW a \<and> elems s' a vs \<and> (vs \<noteq> [] \<longrightarrow> sc_next s \<le> a))"

lemma RETURN1_gives:
  assumes "prim_call s self xs" and "seq_step A (popped s) s1" and "\<And>s2. heap_step {} s1 s2 \<Longrightarrow> P s2 v"
  shows "gives A s (RETURN1 v s1) P"
proof -
  let ?s = "s1\<lparr>sc_nArgs := 1, sc_args := (sc_args s1)[0 := v]\<rparr>"
  have a: "sc_args s1 = sc_args s" "sc_top s1 = sc_top s - 1" "sc_stack s1 = sc_stack s" "heap_step A s s1" "length (sc_args s) = 16"
    using assms(1,2) by (auto simp: seq_step_def popped_def heap_step_def same_sched_def tview_def fun_eq_iff prim_call_def maxArgs_def)
  have "RETURN1 v s1 = Some (CONTINUE, ?s)" using a by (simp add: RETURN1_def SetNArgs_def SetCurrentArg_def maxArgs_def run_simps)
  moreover have k: "heap_step {} s1 ?s" by (simp add: heap_step_extends)
  moreover have "heap_step A s ?s" using heap_step_trans [OF a(4) k] by simp
  ultimately show ?thesis using assms(3) [of ?s] a by (simp add: gives_def)
qed

lemma DEFINE3_run: "prim_call s self [x, y, z] \<Longrightarrow> DEFINE3 body s = body self x y z (popped s)"
  using prim_call_pop(1) [of s self "[x, y, z]" 3] prim_call_pop(2) [of s self "[x, y, z]" 3 0] prim_call_pop(2) [of s self "[x, y, z]" 3 1]
    prim_call_pop(2) [of s self "[x, y, z]" 3 2] by (simp add: DEFINE3_def popped_def)

lemma popped_fields [simp]:
  "sc_trans (popped s) = sc_trans s" "sc_blocks (popped s) = sc_blocks s" "sc_chunks (popped s) = sc_chunks s" "sc_next (popped s) = sc_next s"
  "heap_step A s (popped s)" "heap_step A (popped s) s"
  by (simp_all add: popped_def heap_step_def same_sched_def tview_def fun_eq_iff)

lemma int_as_u_int: "int (as_u_int i) = i mod 4294967296"
  by (simp add: as_u_int_def uint_word_of_int take_bit_eq_mod)

lemma as_u_int_small: "0 \<le> i \<Longrightarrow> i < 4294967296 \<Longrightarrow> as_u_int i = nat i" "valid_int i \<Longrightarrow> i < 0 \<Longrightarrow> nat MAX_VALID_INT < as_u_int i"
proof -
  show "0 \<le> i \<Longrightarrow> i < 4294967296 \<Longrightarrow> as_u_int i = nat i" using int_as_u_int [of i] by simp
  assume b: "valid_int i" "i < 0"
  then have "i mod 4294967296 = i + 4294967296" by (intro mod_pos_pos_trivial [of "i + 4294967296" 4294967296, simplified]) (simp_all add: valid_int_iff)
  then have "int (as_u_int i) > 1073741823" using int_as_u_int [of i] b by (simp add: valid_int_iff)
  then show "nat MAX_VALID_INT < as_u_int i" by simp
qed

lemma as_u_int_valid: "0 \<le> i \<Longrightarrow> valid_int i \<Longrightarrow> as_u_int i = nat i"
  by (rule as_u_int_small(1)) (simp_all add: valid_int_iff)

text \<open>The frame of a tabulation on top of the stack.\<close>

definition tabulate_frame :: "sched \<Rightarrow> store_word \<Rightarrow> store_word \<Rightarrow> nat \<Rightarrow> nat \<Rightarrow> bool" where
  "tabulate_frame s w closure i n \<longleftrightarrow> 6 \<le> sc_top s \<and> sc_top s \<le> length (db_args (sc_stack s)) \<and>
     db_args (sc_stack s) ! (sc_top s - 2) = w \<and> db_args (sc_stack s) ! (sc_top s - 3) = closure \<and>
     db_args (sc_stack s) ! (sc_top s - 4) = IntW (int i) \<and> db_args (sc_stack s) ! (sc_top s - 5) = IntW (int n)"

lemma tabulate_args:
  assumes "tabulate_frame s w closure i n"
  shows "Frame_GetArg (sc_top s) 0 (sc_stack s) = Some w" "Frame_GetArg (sc_top s) 1 (sc_stack s) = Some closure"
    "Frame_GetArg (sc_top s) 2 (sc_stack s) = Some (IntW (int i))" "Frame_GetArg (sc_top s) 3 (sc_stack s) = Some (IntW (int n))"
  using assms by (auto simp: tabulate_frame_def Frame_GetArg_def run_simps)

lemma tabulate_next:
  assumes "tabulate_frame s w closure i n"
  shows "\<exists>st. TabulateFrame_UpdateIndex j s = Some (s\<lparr>sc_stack := st\<rparr>) \<and> tabulate_frame (s\<lparr>sc_stack := st\<rparr>) w closure j n"
  using assms by (intro exI [of _ "sc_stack s\<lparr>db_args := (db_args (sc_stack s))[sc_top s - 4 := IntW (int j)]\<rparr>"])
    (auto simp: tabulate_frame_def TabulateFrame_UpdateIndex_def Frame_InitArg_def run_simps nth_list_update)

section \<open>Lists in the heap\<close>

inductive is_list :: "sched \<Rightarrow> store_word \<Rightarrow> store_word list \<Rightarrow> bool" for s where
  nil: "WordToInt (sc_trans s) w = Some (Some Types_nil) \<Longrightarrow> is_list s w []"
| cons: "WordToBlock (sc_trans s) w = Some (Some c) \<Longrightarrow> sc_blocks s c = Some (DATA_LABEL Alice_MIN_TAG, [x, rest]) \<Longrightarrow> c < sc_next s \<Longrightarrow>
    is_list s rest xs \<Longrightarrow> is_list s w (x # xs)"

lemma is_list_step: "is_list s w xs \<Longrightarrow> heap_step {} s s' \<Longrightarrow> is_list s' w xs"
proof (induction rule: is_list.induct)
  case (nil w)
  then show ?case by (auto simp: heap_step_def same_sched_def intro: is_list.nil)
next
  case (cons w c x rest xs)
  then show ?case by (intro is_list.cons [of s' w c x rest xs]) (auto simp: heap_step_def same_sched_def)
qed

lemma cons_tag: "LabelToTag (DATA_LABEL Alice_MIN_TAG) = Some 0" "TagToLabel Types_cons = Some (DATA_LABEL Alice_MIN_TAG)"
  by (simp_all add: LabelToTag_def IsTag_def TagToLabel_def Types_cons_def Alice_MIN_TAG_def Alice_MAX_TAG_def MIN_DATA_LABEL_def MAX_DATA_LABEL_def
      Assert_def)

lemma is_list_walk:
  "is_list s w [] \<Longrightarrow> TagVal_FromWord s w = Some None \<and> WordToInt (sc_trans s) w = Some (Some Types_nil)"
  "is_list s w (x # xs) \<Longrightarrow> \<exists>rest. TagVal_FromWord s w = Some (Some (Types_cons, [x, rest])) \<and> is_list s rest xs"
proof -
  assume "is_list s w []"
  then show "TagVal_FromWord s w = Some None \<and> WordToInt (sc_trans s) w = Some (Some Types_nil)"
    by (cases rule: is_list.cases) (auto simp: TagVal_FromWord_def WordToBlock_def WordToInt_def run_elims split: store_word.splits)
next
  assume "is_list s w (x # xs)"
  then show "\<exists>rest. TagVal_FromWord s w = Some (Some (Types_cons, [x, rest])) \<and> is_list s rest xs"
    by (cases rule: is_list.cases) (simp_all add: TagVal_FromWord_def tagged_def cons_tag Types_cons_def)
qed

text \<open>The list as it is seen after steps that do not change it.\<close>

lemma is_list_later:
  assumes "is_list s0 w (x # xs)" and "heap_step {} s0 s"
  shows "\<exists>rest. TagVal_FromWord s w = Some (Some (Types_cons, [x, rest])) \<and> is_list s0 rest xs"
  using assms(1)
proof (cases rule: is_list.cases)
  case (cons c rest)
  then have "TagVal_FromWord s w = Some (Some (Types_cons, [x, rest]))" using assms(2)
    by (simp add: TagVal_FromWord_def tagged_def cons_tag heap_step_def same_sched_def Types_cons_def)
  then show ?thesis using cons by blast
qed

lemma list_elems_ok:
  assumes "is_list s w xs" and "\<And>x. x \<in> set xs \<Longrightarrow> cmd x = Some None"
  shows "list_elems cmd s n w = Some (Inr (n + length xs))"
  using assms
proof (induction xs arbitrary: w n rule: list.induct)
  case Nil
  then show ?case using is_list_walk(1) [OF Nil(1)] by (subst list_elems.simps) (simp add: run_simps)
next
  case (Cons x xs)
  then obtain rest where "TagVal_FromWord s w = Some (Some (Types_cons, [x, rest]))" "is_list s rest xs" using is_list_walk(2) by blast
  then show ?case using Cons by (subst list_elems.simps) (simp add: run_simps)
qed

text \<open>The first element that the command requests.\<close>

lemma list_elems_request:
  assumes "is_list s w (ys @ x # zs)" and "\<And>y. y \<in> set ys \<Longrightarrow> cmd y = Some None" and "cmd x = Some (Some r)"
  shows "list_elems cmd s n w = Some (Inl r)"
  using assms(1,2)
proof (induction ys arbitrary: w n rule: list.induct)
  case Nil
  then obtain rest where "TagVal_FromWord s w = Some (Some (Types_cons, [x, rest]))" using is_list_walk(2) by fastforce
  then show ?case using assms(3) by (subst list_elems.simps) (simp add: run_simps)
next
  case (Cons y ys)
  then obtain rest where "TagVal_FromWord s w = Some (Some (Types_cons, [y, rest]))" "is_list s rest (ys @ x # zs)" using is_list_walk(2) by fastforce
  then show ?case using Cons by (subst list_elems.simps) (simp add: run_simps)
qed

text \<open>Writing into a new object is no change of the old ones.\<close>

lemma fresh_step:
  assumes "seq_step {} s s1" and "seq_step (if n = (0::nat) then {} else {a}) s1 s2" and "0 < n \<Longrightarrow> sc_next s \<le> a"
  shows "seq_step {} s s2"
  using assms(3) by (intro seq_step_trans [OF assms(1,2)]) (auto split: if_splits)

lemma new_cons:
  assumes "is_list s w ys"
  shows "\<exists>c s'. TagVal_New Types_cons [x, w] s = Some (c, s') \<and> seq_step {} s s' \<and> is_list s' (BlkW c) (x # ys)"
proof -
  let ?s = "snd (new_block (DATA_LABEL Alice_MIN_TAG) [x, w] s)"
  have step: "seq_step {} s ?s" by (simp add: seq_step_def heap_step_def same_sched_def tview_def new_block_def fun_eq_iff)
  have "is_list ?s (BlkW (sc_next s)) (x # ys)"
    by (rule is_list.cons [of _ _ "sc_next s" x w]) (use is_list_step [OF assms seq_stepD [OF step]] in \<open>simp_all add: new_block_def WordToBlock_def\<close>)
  then show ?thesis using step by (auto simp: TagVal_New_def cons_tag new_block_def)
qed

section \<open>The contract of a class\<close>

text \<open>
  \<open>elems s a vs\<close>: the object at \<open>a\<close> has the elements \<open>vs\<close>. \<open>ok\<close> are the words that may be stored, \<open>val\<close> what is stored for them, \<open>byte\<close> the
  elements of chunks; \<open>ready\<close> says that the constants of the class are there.
\<close>

locale sequence =
  fixes X :: xseq and elems :: "sched \<Rightarrow> addr \<Rightarrow> store_word list \<Rightarrow> bool" and ok :: "tstore \<Rightarrow> store_word \<Rightarrow> bool"
    and val :: "tstore \<Rightarrow> store_word \<Rightarrow> store_word" and byte :: "8 word \<Rightarrow> store_word" and ready :: "sched \<Rightarrow> bool"
  assumes len: "elems s a vs \<Longrightarrow> xq_GetLength X a s = Some (length vs) \<and> a < sc_next s \<and> length vs \<le> xq_maxLen X"
    and small: "xq_maxLen X \<le> nat MAX_VALID_INT"
    and sub: "elems s a vs \<Longrightarrow> i < length vs \<Longrightarrow> xq_Sub X a i s = Some (vs ! i)"
    and frame: "elems s a vs \<Longrightarrow> heap_step A s s' \<Longrightarrow> a \<notin> A \<Longrightarrow> elems s' a vs"
    and word: "elems s a vs \<Longrightarrow> WordToBlock (sc_trans s) x = Some (Some a) \<Longrightarrow> xq_FromWord X s x = Some (Some a)"
    and no_word: "WordToBlock (sc_trans s) x = Some None \<Longrightarrow> xq_FromWord X s x = Some None"
    and init: "elems s a vs \<Longrightarrow> i < length vs \<Longrightarrow> ok (sc_trans s) v \<Longrightarrow>
      \<exists>s'. xq_Init X a i v s = Some s' \<and> seq_step {a} s s' \<and> elems s' a (vs[i := val (sc_trans s) v])"
    and update: "elems s a vs \<Longrightarrow> i < length vs \<Longrightarrow> ok (sc_trans s) v \<Longrightarrow>
      \<exists>s'. xq_Update X a i v s = Some s' \<and> seq_step {a} s s' \<and> elems s' a (vs[i := val (sc_trans s) v])"
    and new: "ready s \<Longrightarrow> n \<le> xq_maxLen X \<Longrightarrow>
      \<exists>a s' vs. xq_New X n s = Some (a, s') \<and> seq_step {} s s' \<and> elems s' a vs \<and> length vs = n \<and> (0 < n \<or> xq_request X \<longrightarrow> sc_next s \<le> a)"
    and too_big: "xq_maxLen X < n \<Longrightarrow> xq_New X n s = None"
    and checked: "xq_request X \<Longrightarrow> ok (sc_trans s) v \<Longrightarrow> int_elem s v = Some None"
    and stored: "elems s a vs \<Longrightarrow> v \<in> set vs \<Longrightarrow> ok T v \<and> val T v = v"
    and bytes: "xq_request X \<Longrightarrow> elems s a vs \<Longrightarrow> \<exists>bs. xq_GetValue X a s = Some bs \<and> vs = map byte bs"
    and chunk: "xq_request X \<Longrightarrow> elems s a vs \<Longrightarrow> length bs = length vs \<Longrightarrow>
      \<exists>s'. xq_InitChunk X a 0 bs s = Some s' \<and> seq_step {a} s s' \<and> elems s' a (map byte bs)"
    and ready_step: "ready s \<Longrightarrow> heap_step {} s s' \<Longrightarrow> ready s'"
begin

lemma elems_popped [simp]: "elems (popped s) a vs \<longleftrightarrow> elems s a vs"
  using frame [of s a vs "{}" "popped s"] frame [of "popped s" a vs "{}" s] by auto

lemma DECLARE_seq: "elems s a vs \<Longrightarrow> WordToBlock (sc_trans s) x = Some (Some a) \<Longrightarrow> DECLARE_XSEQ X env self x (popped s) k = k a"
  using word [of "popped s" a vs x] by (simp add: DECLARE_XSEQ_def)

lemma length_valid: "elems s a vs \<Longrightarrow> valid_int (int (length vs))"
  using len [of s a vs] small by (auto simp: valid_int_def)

lemma length_spec:
  assumes "prim_call s self [x]" and "WordToBlock (sc_trans s) x = Some (Some a)" and "elems s a vs"
  shows "returns s (seq_length X env s) (IntW (int (length vs)))"
proof -
  have "xq_GetLength X a (popped s) = Some (length vs)" using len [of "popped s" a vs] assms(3) by simp
  then show ?thesis using assms RETURN_INT_returns [OF assms(1) length_valid [OF assms(3)]] by (simp add: seq_length_def DEFINE1_run DECLARE_seq)
qed

lemma index_test: "elems s a vs \<Longrightarrow> valid_int i \<Longrightarrow> length vs \<le> as_u_int i \<longleftrightarrow> i < 0 \<or> int (length vs) \<le> i"
  using as_u_int_valid [of i] as_u_int_small(2) [of i] len [of s a vs] small by (cases "i < 0") auto

lemma sub_spec:
  assumes "prim_call s self [x, IntW i]" and "WordToBlock (sc_trans s) x = Some (Some a)" and "elems s a vs" and "valid_int i"
  shows "if 0 \<le> i \<and> i < int (length vs) then returns s (seq_sub X env e s) (vs ! nat i) else raises s (seq_sub X env e s) e"
proof -
  have "xq_GetLength X a (popped s) = Some (length vs)" using len [of "popped s" a vs] assms(3) by simp
  then have run: "seq_sub X env e s = (if as_u_int i \<ge> length vs then prim_RAISE env self e (popped s)
      else do { w \<leftarrow> xq_Sub X a (as_u_int i) (popped s); RETURN1 w (popped s) })"
    using assms by (simp add: seq_sub_def DEFINE2_run DECLARE_seq DECLARE_INT_run)
  show ?thesis
  proof (cases "0 \<le> i \<and> i < int (length vs)")
    case True
    then have "xq_Sub X a (nat i) (popped s) = Some (vs ! nat i)" using sub [of "popped s" a vs "nat i"] assms(3) by auto
    then show ?thesis using run True index_test [OF assms(3,4)] as_u_int_valid [OF _ assms(4)] RETURN1_returns [OF assms(1), of "popped s"]
      by (simp add: popped_def)
  next
    case False
    then show ?thesis using run index_test [OF assms(3,4)] prim_RAISE_raises [OF assms(1), of env e] by auto
  qed
qed

lemma update_spec:
  assumes "prim_call s self [x, IntW i, v]" and "WordToBlock (sc_trans s) x = Some (Some a)" and "elems s a vs" and "valid_int i" and "ok (sc_trans s) v"
  shows "if 0 \<le> i \<and> i < int (length vs)
    then gives {a} s (Array_update X env e s) (\<lambda>s' w. w = IntW 0 \<and> elems s' a (vs[nat i := val (sc_trans s) v]))
    else raises s (Array_update X env e s) e"
proof -
  have "xq_GetLength X a (popped s) = Some (length vs)" using len [of "popped s" a vs] assms(3) by simp
  then have run: "Array_update X env e s = (if as_u_int i \<ge> length vs then prim_RAISE env self e (popped s)
      else do { s1 \<leftarrow> xq_Update X a (as_u_int i) v (popped s); RETURN1 (IntW 0) s1 })"
    using assms by (simp add: Array_update_def DEFINE3_run DECLARE_seq DECLARE_INT_run)
  show ?thesis
  proof (cases "0 \<le> i \<and> i < int (length vs)")
    case True
    then have ix: "as_u_int i = nat i" "nat i < length vs" using as_u_int_valid [OF _ assms(4)] by auto
    obtain s1 where s1: "xq_Update X a (nat i) v (popped s) = Some s1" "seq_step {a} (popped s) s1" "elems s1 a (vs[nat i := val (sc_trans s) v])"
      using update [of "popped s" a vs "nat i" v] assms(3,5) ix(2) by auto
    show ?thesis using run True ix s1(1) index_test [OF assms(3,4)] RETURN1_gives [OF assms(1) s1(2)] frame [OF s1(3)] by simp
  next
    case False
    then show ?thesis using run index_test [OF assms(3,4)] prim_RAISE_raises [OF assms(1), of env e] by auto
  qed
qed

lemma fill_spec:
  assumes "elems s a vs" and "i \<le> length vs" and "ok (sc_trans s) v"
  shows "\<exists>s'. fill_elems X a v i s = Some s' \<and> seq_step (if i = 0 then {} else {a}) s s' \<and> elems s' a (replicate i (val (sc_trans s) v) @ drop i vs)"
  using assms
proof (induction i arbitrary: s vs)
  case (Suc i)
  then obtain s1 where s1: "xq_Init X a i v s = Some s1" "seq_step {a} s s1" "elems s1 a (vs[i := val (sc_trans s) v])"
    using init [of s a vs i v] by auto
  have t: "sc_trans s1 = sc_trans s" using s1(2) heap_step_trans_eq(1) by blast
  obtain s' where s': "fill_elems X a v i s1 = Some s'" "seq_step (if i = 0 then {} else {a}) s1 s'"
      "elems s' a (replicate i (val (sc_trans s) v) @ drop i (vs[i := val (sc_trans s) v]))"
    using Suc.IH [OF s1(3)] Suc.prems t by auto
  have "seq_step {a} s s'" by (rule seq_step_trans [OF s1(2) s'(2)]) (auto split: if_splits)
  moreover have "replicate i x @ drop i (vs[i := x]) = replicate (Suc i) x @ drop (Suc i) vs" for x
    using Suc.prems(2) by (simp add: Cons_nth_drop_Suc [symmetric] replicate_app_Cons_same)
  ultimately show ?case using s1(1) s' by auto
qed simp

lemma from_list_spec:
  assumes "is_list s0 w xs" and "heap_step {} s0 s" and "elems s a (ys @ zs)" and "length zs = length xs" and "\<And>x. x \<in> set xs \<Longrightarrow> ok (sc_trans s0) x"
    and "xs \<noteq> [] \<Longrightarrow> sc_next s0 \<le> a"
  shows "\<exists>s'. fill_from_list X a (length ys) w s = Some (length ys + length xs, s') \<and> seq_step (if length xs = 0 then {} else {a}) s s' \<and>
    elems s' a (ys @ map (val (sc_trans s0)) xs)"
  using assms
proof (induction xs arbitrary: w s ys zs rule: list.induct)
  case Nil
  have "TagVal_FromWord s w = Some None" using is_list_walk(1) [OF is_list_step [OF Nil(1,2)]] by simp
  then show ?case using Nil by (subst fill_from_list.simps) auto
next
  case (Cons x xs)
  obtain rest where r: "TagVal_FromWord s w = Some (Some (Types_cons, [x, rest]))" "is_list s0 rest xs"
    using is_list_later [OF Cons.prems(1,2)] by blast
  obtain z zs' where zs: "zs = z # zs'" using Cons.prems(4) by (cases zs) auto
  have t: "sc_trans s = sc_trans s0" using heap_step_trans_eq(1) [OF Cons.prems(2)] .
  obtain s1 where s1: "xq_Init X a (length ys) x s = Some s1" "seq_step {a} s s1" "elems s1 a ((ys @ zs)[length ys := val (sc_trans s) x])"
    using init [OF Cons.prems(3), of "length ys" x] Cons.prems(5) [of x] zs t by auto
  have e1: "elems s1 a ((ys @ [val (sc_trans s0) x]) @ zs')" using s1(3) zs t by simp
  have h1: "heap_step {} s0 s1" using heap_step_trans [OF Cons.prems(2) seq_stepD [OF s1(2)], of "{}"] Cons.prems(6) by simp
  obtain s' where s': "fill_from_list X a (length (ys @ [val (sc_trans s0) x])) rest s1 = Some (length (ys @ [val (sc_trans s0) x]) + length xs, s')"
      "seq_step (if length xs = 0 then {} else {a}) s1 s'" "elems s' a ((ys @ [val (sc_trans s0) x]) @ map (val (sc_trans s0)) xs)"
    using Cons.IH [OF r(2) h1 e1] Cons.prems(4,5,6) zs by auto
  have "seq_step {a} s s'" by (rule seq_step_trans [OF s1(2) s'(2)]) (auto split: if_splits)
  then show ?case using r(1) s1(1) s' by (subst fill_from_list.simps) (simp add: run_simps)
qed

lemma to_list_spec:
  assumes "is_list s w ys" and "elems s a vs" and "i \<le> length vs"
  shows "\<exists>w' s'. list_of_elems X a i w s = Some (w', s') \<and> seq_step {} s s' \<and> is_list s' w' (take i vs @ ys)"
  using assms
proof (induction i arbitrary: w s ys)
  case (Suc i)
  have x: "xq_Sub X a i s = Some (vs ! i)" using sub [OF Suc.prems(2)] Suc.prems(3) by simp
  obtain c s1 where c: "TagVal_New Types_cons [vs ! i, w] s = Some (c, s1)" "seq_step {} s s1" "is_list s1 (BlkW c) (vs ! i # ys)" using new_cons [OF Suc.prems(1)] by blast
  have "elems s1 a vs" using frame [OF Suc.prems(2) seq_stepD [OF c(2)]] by simp
  then obtain w' s' where w': "list_of_elems X a i (BlkW c) s1 = Some (w', s')" "seq_step {} s1 s'" "is_list s' w' (take i vs @ vs ! i # ys)"
    using Suc.IH [OF c(3)] Suc.prems(3) by auto
  then show ?case using x c(1) seq_step_trans [OF c(2) w'(2)] Suc.prems(3) by (simp add: take_Suc_conv_app_nth)
qed simp

text \<open>The primitives that build objects.\<close>

lemma return_new:
  assumes "prim_call s self xs" and "seq_step {} (popped s) s1" and "elems s1 a vs" and "0 < length vs \<longrightarrow> sc_next s \<le> a"
  shows "builds elems s (RETURN1 (BlkW a) s1) vs"
  unfolding builds_def by (rule RETURN1_gives [OF assms(1,2)]) (use assms(4) frame [OF assms(3)] in auto)

lemma ready_popped [simp]: "ready s \<Longrightarrow> ready (popped s)"
  using ready_step [of s "popped s"] by simp

lemma array_spec:
  assumes "prim_call s self [IntW n, v]" and "valid_int n" and "ok (sc_trans s) v" and "ready s"
  shows "if 0 \<le> n \<and> nat n \<le> xq_maxLen X then builds elems s (Array_array X env ex s) (replicate (nat n) (val (sc_trans s) v))
    else raises s (Array_array X env ex s) (General_Size ex)"
proof -
  have "(if xq_request X then int_elem (popped s) v else Some None) = Some None" using checked [of "popped s" v] assms(3) by auto
  then have run: "Array_array X env ex s = (if as_u_int n > xq_maxLen X then prim_RAISE env self (General_Size ex) (popped s)
      else do { (a, s1) \<leftarrow> xq_New X (as_u_int n) (popped s); s2 \<leftarrow> fill_elems X a v (as_u_int n) s1; RETURN1 (BlkW a) s2 })"
    using assms(1) by (simp add: Array_array_def DEFINE2_run DECLARE_INT_run)
  show ?thesis
  proof (cases "0 \<le> n \<and> nat n \<le> xq_maxLen X")
    case True
    then have n: "as_u_int n = nat n" using as_u_int_valid assms(2) by simp
    obtain a s1 vs where 1: "xq_New X (nat n) (popped s) = Some (a, s1)" "seq_step {} (popped s) s1" "elems s1 a vs" "length vs = nat n"
        "0 < nat n \<or> xq_request X \<longrightarrow> sc_next (popped s) \<le> a" using new [OF ready_popped [OF assms(4)]] True by metis
    have t: "sc_trans s1 = sc_trans s" using heap_step_trans_eq(1) [OF seq_stepD [OF 1(2)]] by simp
    obtain s2 where 2: "fill_elems X a v (nat n) s1 = Some s2" "seq_step (if nat n = 0 then {} else {a}) s1 s2" "elems s2 a (replicate (nat n) (val (sc_trans s) v))"
      using fill_spec [OF 1(3), of "nat n" v] 1(4) assms(3) t by auto
    have "seq_step {} (popped s) s2" using fresh_step [OF 1(2) 2(2)] 1(5) by simp
    then show ?thesis using run True n 1(1) 2(1) return_new [OF assms(1) _ 2(3)] 1(5) by simp
  next
    case False
    then have "as_u_int n > xq_maxLen X" using as_u_int_valid [of n] as_u_int_small(2) [of n] assms(2) small by (cases "n < 0") auto
    then show ?thesis using run False prim_RAISE_raises [OF assms(1), of env] by auto
  qed
qed

lemma fromList_spec:
  assumes "prim_call s self [w]" and "is_list s w xs" and "\<And>x. x \<in> set xs \<Longrightarrow> ok (sc_trans s) x" and "ready s"
  shows "if length xs \<le> xq_maxLen X then builds elems s (seq_fromList X env ex s) (map (val (sc_trans s)) xs)
    else raises s (seq_fromList X env ex s) (General_Size ex)"
proof -
  have l: "is_list (popped s) w xs" using is_list_step [OF assms(2)] by simp
  have "list_elems (if xq_request X then int_elem (popped s) else any_elem) (popped s) 0 w = Some (Inr (0 + length xs))"
    by (rule list_elems_ok [OF l]) (use assms(3) checked [of "popped s"] in \<open>simp add: any_elem_def\<close>)
  then have run: "seq_fromList X env ex s = (if length xs > xq_maxLen X then prim_RAISE env self (General_Size ex) (popped s)
      else do { (a, s1) \<leftarrow> xq_New X (length xs) (popped s); (i, s2) \<leftarrow> fill_from_list X a 0 w s1; Assert (i = length xs); RETURN1 (BlkW a) s2 })"
    using assms(1) by (simp add: seq_fromList_def DEFINE1_run DECLARE_LIST_ELEMS_def)
  show ?thesis
  proof (cases "length xs \<le> xq_maxLen X")
    case True
    obtain a s1 vs where 1: "xq_New X (length xs) (popped s) = Some (a, s1)" "seq_step {} (popped s) s1" "elems s1 a vs" "length vs = length xs"
        "0 < length xs \<or> xq_request X \<longrightarrow> sc_next (popped s) \<le> a" using new [OF ready_popped [OF assms(4)] True] by metis
    obtain s2 where 2: "fill_from_list X a 0 w s1 = Some (length xs, s2)" "seq_step (if length xs = 0 then {} else {a}) s1 s2" "elems s2 a (map (val (sc_trans s)) xs)"
      using from_list_spec [OF l seq_stepD [OF 1(2)], of a "[]" vs] 1 assms(3) by auto
    have "seq_step {} (popped s) s2" using fresh_step [OF 1(2) 2(2)] 1(5) by simp
    then show ?thesis using run True 1(1) 2(1) return_new [OF assms(1) _ 2(3)] 1(5) by (simp add: run_simps)
  next
    case False
    then show ?thesis using run prim_RAISE_raises [OF assms(1), of env] by auto
  qed
qed

lemma toList_spec:
  assumes "prim_call s self [x]" and "WordToBlock (sc_trans s) x = Some (Some a)" and "elems s a vs"
  shows "gives {} s (seq_toList X env s) (\<lambda>s' w. is_list s' w vs)"
proof -
  have n: "xq_GetLength X a (popped s) = Some (length vs)" using len [of "popped s" a vs] assms(3) by simp
  have "is_list (popped s) (IntW Types_nil) []" by (rule is_list.nil) (simp add: WordToInt_def)
  then obtain w s1 where w: "list_of_elems X a (length vs) (IntW Types_nil) (popped s) = Some (w, s1)" "seq_step {} (popped s) s1" "is_list s1 w vs"
    using to_list_spec [of "popped s" "IntW Types_nil" "[]" a vs "length vs"] assms(3) by auto
  then have "gives {} s (RETURN1 w s1) (\<lambda>s' w. is_list s' w vs)" by (intro RETURN1_gives [OF assms(1) w(2)] is_list_step [OF w(3)])
  then show ?thesis using assms n w(1) by (simp add: seq_toList_def DEFINE1_run DECLARE_seq)
qed

end

section \<open>Copying between classes\<close>

locale seq_copy =
  src: sequence S selems ok val byte sready + dst: sequence D delems ok val byte dready
  for S selems ok val byte sready D delems dready +
  assumes same_kind: "xq_request S = xq_request D" "xq_maxLen S = xq_maxLen D"
begin

lemma copy_elems_spec:
  assumes "selems s a vs" and "delems s b ws" and "0 < j \<Longrightarrow> a \<noteq> b" and "so + j \<le> length vs" and "d + j \<le> length ws"
  shows "\<exists>s'. copy_elems D S b d a so j s = Some s' \<and> seq_step (if j = 0 then {} else {b}) s s' \<and> delems s' b (take d ws @ take j (drop so vs) @ drop (d + j) ws)"
  using assms
proof (induction j arbitrary: s ws)
  case (Suc j)
  let ?v = "vs ! (so + j)"
  have v: "xq_Sub S a (so + j) s = Some ?v" "ok (sc_trans s) ?v" "val (sc_trans s) ?v = ?v"
    using src.sub [OF Suc.prems(1)] src.stored [OF Suc.prems(1), of ?v] Suc.prems(4) by auto
  obtain s1 where s1: "xq_Init D b (d + j) ?v s = Some s1" "seq_step {b} s s1" "delems s1 b (ws[d + j := ?v])"
    using dst.init [OF Suc.prems(2), of "d + j" ?v] Suc.prems(5) v by auto
  have "selems s1 a vs" using src.frame [OF Suc.prems(1) seq_stepD [OF s1(2)]] Suc.prems(3) by simp
  then obtain s' where s': "copy_elems D S b d a so j s1 = Some s'" "seq_step (if j = 0 then {} else {b}) s1 s'"
      "delems s' b (take d (ws[d + j := ?v]) @ take j (drop so vs) @ drop (d + j) (ws[d + j := ?v]))" using Suc.IH [OF _ s1(3)] Suc.prems(3-5) by auto
  have "seq_step {b} s s'" by (rule seq_step_trans [OF s1(2) s'(2)]) (auto split: if_splits)
  moreover have "take d (ws[d + j := ?v]) @ take j (drop so vs) @ drop (d + j) (ws[d + j := ?v]) = take d ws @ take (Suc j) (drop so vs) @ drop (d + Suc j) ws"
  proof -
    have "take (Suc j) (drop so vs) = take j (drop so vs) @ [?v]" using Suc.prems(4) by (simp add: take_Suc_conv_app_nth)
    moreover have "drop (d + j) (ws[d + j := ?v]) = ?v # drop (d + Suc j) ws" using Suc.prems(5) by (simp add: Cons_nth_drop_Suc [symmetric])
    ultimately show ?thesis by simp
  qed
  ultimately show ?case using v(1) s1(1) s' by auto
qed simp

lemma copy_part_spec:
  assumes "selems s a vs" and "delems s b ws" and "length ws = n" and "i + n \<le> length vs" and "0 < n \<Longrightarrow> a \<noteq> b"
  shows "\<exists>s'. copy_part D S b a i n s = Some s' \<and> seq_step (if n = 0 \<and> \<not> xq_request D then {} else {b}) s s' \<and> delems s' b (take n (drop i vs))"
proof (cases "xq_request D")
  case True
  then obtain bs where bs: "xq_GetValue S a s = Some bs" "vs = map byte bs" using src.bytes [OF _ assms(1)] same_kind(1) by blast
  then have n: "length (take n (drop i bs)) = length ws" "i + n \<le> length bs" using assms(3,4) by auto
  obtain s' where "xq_InitChunk D b 0 (take n (drop i bs)) s = Some s'" "seq_step {b} s s'" "delems s' b (map byte (take n (drop i bs)))"
    using dst.chunk [OF True assms(2) n(1)] by blast
  then show ?thesis using bs n(2) True by (simp add: copy_part_def run_simps take_map drop_map)
next
  case False
  then show ?thesis using copy_elems_spec [OF assms(1,2,5), of n i 0] assms(3,4) by (auto simp: copy_part_def)
qed

lemma new_copy:
  assumes "prim_call s self xs" and "selems s a vs" and "i + n \<le> length vs" and "dready s"
  shows "builds delems s (do { (b, s1) \<leftarrow> xq_New D n (popped s); s2 \<leftarrow> copy_part D S b a i n s1; RETURN1 (BlkW b) s2 }) (take n (drop i vs))"
proof -
  have l: "n \<le> xq_maxLen D" "a < sc_next s" using src.len [OF assms(2)] assms(3) same_kind(2) by auto
  obtain b s1 ws where 1: "xq_New D n (popped s) = Some (b, s1)" "seq_step {} (popped s) s1" "delems s1 b ws" "length ws = n"
      "0 < n \<or> xq_request D \<longrightarrow> sc_next (popped s) \<le> b" using dst.new [OF dst.ready_popped [OF assms(4)] l(1)] by metis
  have "selems s1 a vs" using src.frame [of "popped s" a vs "{}" s1] assms(2) 1(2) by auto
  moreover have "0 < n \<Longrightarrow> a \<noteq> b" using 1(5) l(2) by auto
  ultimately obtain s2 where 2: "copy_part D S b a i n s1 = Some s2" "seq_step (if n = 0 \<and> \<not> xq_request D then {} else {b}) s1 s2" "delems s2 b (take n (drop i vs))"
    using copy_part_spec [OF _ 1(3,4) assms(3)] by blast
  have "seq_step {} (popped s) s2" by (rule seq_step_trans [OF 1(2) 2(2)]) (use 1(5) in \<open>auto split: if_splits\<close>)
  then show ?thesis using 1(1,5) 2(1) dst.return_new [OF assms(1) _ 2(3)] assms(3) by (auto simp: builds_def)
qed

lemma extract_spec:
  assumes "prim_call s self [x, IntW i, IntW n]" and "WordToBlock (sc_trans s) x = Some (Some a)" and "selems s a vs" and "valid_int i" and "valid_int n" and "dready s"
  shows "if 0 \<le> i \<and> 0 \<le> n \<and> i + n \<le> int (length vs) then builds delems s (seq_extract D S env e s) (take (nat n) (drop (nat i) vs))
    else raises s (seq_extract D S env e s) e"
proof -
  have len: "xq_GetLength S a (popped s) = Some (length vs)" using src.len [of "popped s" a vs] assms(3) by simp
  have run: "seq_extract D S env e s = (if i < 0 \<or> n < 0 \<or> as_u_int (s32 (i + n)) > length vs then prim_RAISE env self e (popped s)
      else do { (b, s1) \<leftarrow> xq_New D (nat n) (popped s); s2 \<leftarrow> copy_part D S b a (nat i) (nat n) s1; RETURN1 (BlkW b) s2 })"
    using assms(1-3) len by (simp add: seq_extract_def DEFINE3_run src.DECLARE_seq DECLARE_INT_run)
  have sum: "as_u_int (s32 (i + n)) = nat (i + n)" if "0 \<le> i" "0 \<le> n"
  proof -
    have "0 \<le> i + n" "i + n < 2147483648" using that assms(4,5) by (simp_all add: valid_int_iff)
    then show ?thesis using s32_id [of "i + n"] as_u_int_small(1) [of "i + n"] by simp
  qed
  show ?thesis
  proof (cases "0 \<le> i \<and> 0 \<le> n \<and> i + n \<le> int (length vs)")
    case True
    then have "nat i + nat n \<le> length vs" "\<not> length vs < nat (i + n)" by auto
    then show ?thesis using True run sum new_copy [OF assms(1,3) _ assms(6), of "nat i" "nat n"] by simp
  next
    case False
    then show ?thesis using run sum prim_RAISE_raises [OF assms(1), of env e] by (cases "0 \<le> i \<and> 0 \<le> n") auto
  qed
qed

lemma fromVector_spec:
  assumes "prim_call s self [x]" and "WordToBlock (sc_trans s) x = Some (Some a)" and "selems s a vs" and "dready s"
  shows "builds delems s (Array_fromVector D S env s) vs"
proof -
  have len: "xq_GetLength S a (popped s) = Some (length vs)" using src.len [of "popped s" a vs] assms(3) by simp
  show ?thesis using assms(1-3) len same_kind(2) new_copy [OF assms(1,3) _ assms(4), of 0 "length vs"]
    by (simp add: Array_fromVector_def DEFINE1_run src.DECLARE_seq run_simps)
qed

end

text \<open>A class can be copied to itself.\<close>

sublocale sequence \<subseteq> self: seq_copy X elems ok val byte ready X elems ready
  by unfold_locales simp_all

context sequence
begin

text \<open>\<open>x\<close> is a word for an object with the elements \<open>vs\<close>.\<close>

abbreviation has :: "sched \<Rightarrow> store_word \<Rightarrow> store_word list \<Rightarrow> bool" where
  "has s x vs \<equiv> \<exists>a. WordToBlock (sc_trans s) x = Some (Some a) \<and> elems s a vs"

lemma has_step: "has s x vs \<Longrightarrow> heap_step {} s s' \<Longrightarrow> has s' x vs"
  using frame [of s _ vs "{}" s'] heap_step_trans_eq(1) [of "{}" s s'] by auto

lemma total_length_spec:
  assumes "is_list s w xs" and "list_all2 (has s) xs vss"
  shows "total_length X s n w = Some (n + length (concat vss))"
  using assms
proof (induction xs arbitrary: w n vss rule: list.induct)
  case Nil
  then show ?case using is_list_walk(1) [OF Nil(1)] by (subst total_length.simps) simp
next
  case (Cons x xs)
  obtain vs wss where v: "vss = vs # wss" "has s x vs" "list_all2 (has s) xs wss" using Cons.prems(2) by (auto simp: list_all2_Cons1)
  obtain rest where r: "TagVal_FromWord s w = Some (Some (Types_cons, [x, rest]))" "is_list s rest xs" using is_list_walk(2) [OF Cons.prems(1)] by blast
  obtain a where "xq_FromWord X s x = Some (Some a)" "xq_GetLength X a s = Some (length vs)" using v(2) word len by blast
  then show ?case using r Cons.IH [OF r(2) v(3)] v(1) by (subst total_length.simps) (simp add: run_simps)
qed

lemma concat_loop_spec:
  assumes "is_list s0 w xs" and "heap_step {} s0 s" and "list_all2 (has s0) xs vss" and "elems s v (ys @ zs)" and "length zs = length (concat vss)"
    and "concat vss \<noteq> [] \<Longrightarrow> sc_next s0 \<le> v"
  shows "\<exists>s'. concat_loop X v (length ys) w s = Some (length ys + length (concat vss), s') \<and> seq_step (if length (concat vss) = 0 then {} else {v}) s s' \<and>
    elems s' v (ys @ concat vss)"
  using assms
proof (induction xs arbitrary: w s vss ys zs rule: list.induct)
  case Nil
  have "TagVal_FromWord s w = Some None" using is_list_walk(1) [OF is_list_step [OF Nil(1,2)]] by simp
  then show ?case using Nil by (subst concat_loop.simps) auto
next
  case (Cons x xs)
  obtain vs wss where v: "vss = vs # wss" "has s0 x vs" "list_all2 (has s0) xs wss" using Cons.prems(3) by (auto simp: list_all2_Cons1)
  obtain rest where r: "TagVal_FromWord s w = Some (Some (Types_cons, [x, rest]))" "is_list s0 rest xs"
    using is_list_later [OF Cons.prems(1,2)] by blast
  obtain a where a: "xq_FromWord X s x = Some (Some a)" "xq_GetLength X a s = Some (length vs)" "elems s a vs" "a < sc_next s0"
    using v(2) word len has_step [OF v(2) Cons.prems(2)] heap_step_trans_eq(1) [OF Cons.prems(2)] by fastforce
  have ne: "a \<noteq> v" if "0 < length vs" using that Cons.prems(6) v(1) a(4) by (cases vs) auto
  obtain s1 where s1: "copy_elems X X v (length ys) a 0 (length vs) s = Some s1" "seq_step (if length vs = 0 then {} else {v}) s s1"
      "elems s1 v ((ys @ vs) @ drop (length vs) zs)"
    using self.copy_elems_spec [OF a(3) Cons.prems(4) ne, of "length vs" 0 "length ys"] Cons.prems(5) v(1) by auto
  have h1: "heap_step {} s0 s1" by (rule heap_step_trans [OF Cons.prems(2) seq_stepD [OF s1(2)]]) (use Cons.prems(6) v(1) in \<open>auto split: if_splits\<close>)
  obtain s' where s': "concat_loop X v (length (ys @ vs)) rest s1 = Some (length (ys @ vs) + length (concat wss), s')"
      "seq_step (if length (concat wss) = 0 then {} else {v}) s1 s'" "elems s' v ((ys @ vs) @ concat wss)"
    using Cons.IH [OF r(2) h1 v(3) s1(3)] Cons.prems(5,6) v(1) by auto
  have "seq_step (if length (concat vss) = 0 then {} else {v}) s s'"
    by (rule seq_step_trans [OF s1(2) s'(2)]) (use v(1) in \<open>auto split: if_splits\<close>)
  then show ?case using r(1) a s1(1) s' v(1) by (subst concat_loop.simps) (simp add: run_simps add.assoc)
qed

text \<open>The sum of the lengths is not checked: a result that is too long is an error of the allocator, not an exception.\<close>

lemma concat_spec:
  assumes "prim_call s self [w]" and "is_list s w xs" and "list_all2 (has s) xs vss" and "ready s" and "length xs \<le> xq_maxLen X"
  shows "if length (concat vss) \<le> xq_maxLen X then builds elems s (Vector_concat X env ex s) (concat vss) else Vector_concat X env ex s = None"
proof -
  have l: "is_list (popped s) w xs" "list_all2 (has (popped s)) xs vss" using is_list_step [OF assms(2)] assms(3) by simp_all
  have "seq_elem X (popped s) x = Some None" if x: "x \<in> set xs" for x
  proof -
    obtain k where k: "k < length xs" "x = xs ! k" using x by (auto simp: in_set_conv_nth)
    obtain a where a: "WordToBlock (sc_trans (popped s)) x = Some (Some a)" "elems (popped s) a (vss ! k)" using list_all2_nthD [OF l(2) k(1)] k(2) by auto
    show ?thesis using word [OF a(2,1)] by (simp add: seq_elem_def)
  qed
  then have "list_elems (seq_elem X (popped s)) (popped s) 0 w = Some (Inr (0 + length xs))" using list_elems_ok [OF l(1)] by blast
  then have run: "Vector_concat X env ex s = do { (v, s1) \<leftarrow> xq_New X (length (concat vss)) (popped s); (i, s2) \<leftarrow> concat_loop X v 0 w s1;
      Assert (i = length (concat vss)); RETURN1 (BlkW v) s2 }"
    using assms(1,5) total_length_spec [OF l, of 0] by (simp add: Vector_concat_def DEFINE1_run DECLARE_LIST_ELEMS_def)
  show ?thesis
  proof (cases "length (concat vss) \<le> xq_maxLen X")
    case True
    obtain v s1 zs where 1: "xq_New X (length (concat vss)) (popped s) = Some (v, s1)" "seq_step {} (popped s) s1" "elems s1 v zs" "length zs = length (concat vss)"
        "0 < length (concat vss) \<or> xq_request X \<longrightarrow> sc_next (popped s) \<le> v" using new [OF ready_popped [OF assms(4)] True] by metis
    obtain s2 where 2: "concat_loop X v 0 w s1 = Some (length (concat vss), s2)" "seq_step (if length (concat vss) = 0 then {} else {v}) s1 s2"
        "elems s2 v (concat vss)"
      using concat_loop_spec [OF l(1) seq_stepD [OF 1(2)] l(2), of v "[]" zs] 1(3-5) by (auto simp del: length_concat)
    have "seq_step {} (popped s) s2" using fresh_step [OF 1(2) 2(2)] 1(5) by (simp del: length_concat)
    then show ?thesis using run True 1(1) 2(1) return_new [OF assms(1) _ 2(3)] 1(5) by (simp add: run_simps del: length_concat)
  next
    case False
    then show ?thesis using run too_big by (simp del: length_concat)
  qed
qed

text \<open>
  A step of the tabulation: the element that the closure has returned is stored. After the last one the object is the result, and before
  that the closure is called for the next index.
\<close>

lemma tabulate_step:
  assumes "tabulate_frame s w closure i n" and "WordToBlock (sc_trans s) w = Some (Some a)" and "elems s a vs" and "length vs = n" and "i < n"
    and "sc_nArgs s = 1" and "length (sc_args s) = maxArgs" and "sc_args s ! 0 = v" and "ok (sc_trans s) v"
  shows "\<exists>s'. heap_step {a} s s' \<and> elems s' a (vs[i := val (sc_trans s) v]) \<and> sc_nArgs s' = 1 \<and>
    (if Suc i = n then TabulateWorker_Run X env s = Some (CONTINUE, s') \<and> sc_args s' ! 0 = BlkW a \<and> sc_top s' = sc_top s - 5
     else TabulateWorker_Run X env s = PushCall env closure s' \<and> sc_args s' ! 0 = IntW (int (Suc i)) \<and> tabulate_frame s' w closure (Suc i) n)"
proof -
  have c: "Construct s = Some s" "GetCurrentArg 0 s = Some v" using assms(6-8) by (auto simp: Construct_def GetCurrentArg_def run_simps maxArgs_def)
  have req: "(if xq_request X then int_elem s v else Some None) = Some None" using checked [of s v] assms(9) by auto
  obtain s1 where s1: "xq_Update X a i v s = Some s1" "seq_step {a} s s1" "elems s1 a (vs[i := val (sc_trans s) v])" using update [OF assms(3)] assms(4,5,9) by auto
  have "n \<le> 1073741823" using len [OF assms(3)] small assms(4) by simp
  then have ix: "DirectWordToNat (IntW (int i)) = Some i" "DirectWordToNat (IntW (int n)) = Some n"
    using assms(5) by (simp_all add: DirectWordToNat_def DirectWordToInt_def unat_of_nat)
  have f1: "tabulate_frame s1 w closure i n" using assms(1) s1(2) by (simp add: tabulate_frame_def seq_step_def)
  have run: "TabulateWorker_Run X env s = (if Suc i = n then do { s3 \<leftarrow> Sched_PopFrame 5 s1; RETURN1 (BlkW a) s3 }
      else do { s3 \<leftarrow> TabulateFrame_UpdateIndex (Suc i) s1; s4 \<leftarrow> pass_args [IntW (int (Suc i))] s3; PushCall env closure s4 })"
    using word [OF assms(3,2)] tabulate_args [OF assms(1)] c req s1(1) ix by (simp add: TabulateWorker_Run_def)
  have regs: "length (sc_args s1) = 16" "sc_nArgs s1 = 1" "sc_top s1 = sc_top s" using s1(2) assms(6,7) by (simp_all add: seq_step_def maxArgs_def)
  have later: "elems s' a (vs[i := val (sc_trans s) v]) \<and> heap_step {a} s s'" if "heap_step {} s1 s'" for s'
    using frame [OF s1(3) that] heap_step_trans [OF seq_stepD [OF s1(2)] that, of "{a}"] by simp
  show ?thesis
  proof (cases "Suc i = n")
    case True
    let ?s = "s1\<lparr>sc_top := sc_top s - 5, sc_nArgs := 1, sc_args := (sc_args s1)[0 := BlkW a]\<rparr>"
    have "TabulateWorker_Run X env s = Some (CONTINUE, ?s)" using run True regs assms(1)
      by (simp add: Sched_PopFrame_def Scheduler_PopFrame_def tabulate_frame_def run_simps RETURN1_def SetNArgs_def SetCurrentArg_def maxArgs_def)
    then show ?thesis using True regs later [of ?s] by (intro exI [of _ ?s]) (simp add: heap_step_extends)
  next
    case False
    obtain st where st: "TabulateFrame_UpdateIndex (Suc i) s1 = Some (s1\<lparr>sc_stack := st\<rparr>)" "tabulate_frame (s1\<lparr>sc_stack := st\<rparr>) w closure (Suc i) n"
      using tabulate_next [OF f1] by blast
    let ?s = "s1\<lparr>sc_stack := st, sc_nArgs := 1, sc_args := (sc_args s1)[0 := IntW (int (Suc i))]\<rparr>"
    have "TabulateWorker_Run X env s = PushCall env closure ?s" using run False st(1) regs
      by (simp add: pass_args_def SetNArgs_def SetCurrentArg_def maxArgs_def run_simps)
    moreover have "tabulate_frame ?s w closure (Suc i) n" using st(2) by (simp add: tabulate_frame_def)
    ultimately show ?thesis using False regs later [of ?s] by (intro exI [of _ ?s]) (simp add: heap_step_extends)
  qed
qed

end

section \<open>The classes keep the contract\<close>

text \<open>Objects in blocks; \<open>pad\<close> are the words that the allocator adds.\<close>

definition in_block :: "block_label \<Rightarrow> sched \<Rightarrow> addr \<Rightarrow> store_word list \<Rightarrow> bool" where
  "in_block l s a vs \<longleftrightarrow> a < sc_next s \<and> length vs \<le> seq_maxLen \<and> (\<exists>pad. sc_blocks s a = Some (l, IntW (int (length vs)) # vs @ pad))"

definition any_ok :: "tstore \<Rightarrow> store_word \<Rightarrow> bool" where "any_ok T v \<longleftrightarrow> True"
definition any_val :: "tstore \<Rightarrow> store_word \<Rightarrow> store_word" where "any_val T v = v"
definition no_byte :: "8 word \<Rightarrow> store_word" where "no_byte b = IntW 0"

definition has_empty :: "alice_consts \<Rightarrow> sched \<Rightarrow> bool" where
  "has_empty ac s \<longleftrightarrow> (\<exists>a. ac_emptyVector ac = BlkW a \<and> in_block Alice_Vector s a [])"

lemma seq_maxLen_eq: "seq_maxLen = 16777199" "ALICE_STRING_MAX_SIZE = 67108796"
  by (simp_all add: seq_maxLen_def ALICE_STRING_MAX_SIZE_def)

lemma length_word: "n \<le> seq_maxLen \<Longrightarrow> DirectWordToNat (IntW (int n)) = Some n"
  by (simp add: DirectWordToNat_def DirectWordToInt_def unat_of_nat seq_maxLen_eq)

lemma in_block_reads:
  assumes "in_block l s a vs"
  shows "block_GetLength a s = Some (length vs)" "i < length vs \<Longrightarrow> block_get a (1 + i) s = Some (vs ! i)"
    "WordToBlock (sc_trans s) x = Some (Some a) \<Longrightarrow> block_FromWord l s x = Some (Some a)"
  using assms length_word [of "length vs"]
  by (auto simp: in_block_def block_GetLength_def block_get_def block_FromWord_def run_simps nth_append)

lemma in_block_write:
  assumes "in_block l s a vs" and "i < length vs"
  shows "\<exists>s'. block_set a (1 + i) v s = Some s' \<and> seq_step {a} s s' \<and> in_block l s' a (vs[i := v])"
proof -
  obtain pad where pad: "sc_blocks s a = Some (l, IntW (int (length vs)) # vs @ pad)" using assms(1) by (auto simp: in_block_def)
  obtain s' where "block_set a (1 + i) v s = Some s'" "seq_step {a} s s'" "sc_blocks s' = (sc_blocks s)(a \<mapsto> (l, (IntW (int (length vs)) # vs @ pad)[1 + i := v]))"
      "sc_next s' = sc_next s" using block_set_step [OF pad, of "1 + i" v] assms(2) by auto
  then show ?thesis using assms by (auto simp: in_block_def list_update_append1)
qed

lemma in_block_frame: "in_block l s a vs \<Longrightarrow> heap_step A s s' \<Longrightarrow> a \<notin> A \<Longrightarrow> in_block l s' a vs"
  by (auto simp: in_block_def heap_step_def same_sched_def)

lemma seq_block_words:
  assumes "n \<le> seq_maxLen"
  shows "\<exists>vs pad. seq_block n = Some (IntW (int n) # vs @ pad) \<and> length vs = n"
proof -
  let ?m = "alloc_size (1 + n)"
  have b: "1 + n \<le> 16777200" "1 + n \<le> ?m" using assms alloc_size_bounds(1) [of "1 + n"] by (simp_all add: seq_maxLen_eq)
  then have "seq_block n = Some ((map (\<lambda>_. fresh_word) [0..<?m])[0 := IntW (int n)])" by (simp add: seq_block_def run_simps)
  moreover obtain k where "?m = Suc k" "n \<le> k" using b(2) by (cases ?m) auto
  moreover have "map (\<lambda>_. fresh_word) [0..<Suc k] = fresh_word # replicate k fresh_word" by (simp add: map_replicate_trivial map_replicate_const)
  moreover have "replicate k fresh_word = replicate n fresh_word @ replicate (k - n) fresh_word" if "n \<le> k" using that by (simp flip: replicate_add)
  ultimately show ?thesis by (intro exI [of _ "replicate n fresh_word"] exI [of _ "replicate (k - n) fresh_word"]) simp
qed

lemma new_block_step: "seq_step {} s (snd (new_block l ws s))" "seq_step {} s (snd (new_chunk bs s))"
  by (simp_all add: seq_step_def heap_step_def same_sched_def tview_def new_block_def new_chunk_def fun_eq_iff)

lemma seq_block_new:
  assumes "n \<le> seq_maxLen"
  shows "\<exists>vs ws. seq_block n = Some ws \<and> length vs = n \<and> in_block l (snd (new_block l ws s)) (sc_next s) vs"
  using seq_block_words [OF assms] assms by (fastforce simp: in_block_def new_block_def)

lemma seq_block_too_big: "seq_maxLen < n \<Longrightarrow> seq_block n = None"
  by (simp add: seq_block_def alloc_array_def seq_maxLen_eq Assert_def)

lemma Array_sequence: "sequence Array_class (in_block Alice_Array) any_ok any_val no_byte (\<lambda>s. True)"
proof (unfold_locales, goal_cases)
  case (1 s a vs) then show ?case using in_block_reads(1) [OF 1] by (auto simp: in_block_def Array_class_def)
next
  case 2 show ?case by (simp add: Array_class_def seq_maxLen_eq)
next
  case (3 s a vs i) then show ?case using in_block_reads(1,2) [OF 3(1)] by (simp add: Array_class_def Array_Sub_def run_simps)
next
  case (4 s a vs A s') then show ?case by (rule in_block_frame)
next
  case (5 s a vs x) then show ?case using in_block_reads(3) by (simp add: Array_class_def)
next
  case (6 s x) then show ?case by (simp add: Array_class_def block_FromWord_def)
next
  case (7 s a vs i v) then show ?case using in_block_write [OF 7(1,2)] in_block_reads(1) [OF 7(1)] by (simp add: Array_class_def Array_Init_def any_val_def run_simps)
next
  case (8 s a vs i v) then show ?case using in_block_write [OF 8(1,2)] in_block_reads(1) [OF 8(1)] by (simp add: Array_class_def Array_Update_def any_val_def run_simps)
next
  case (9 s n)
  then obtain vs ws where "seq_block n = Some ws" "length vs = n" "in_block Alice_Array (snd (new_block Alice_Array ws s)) (sc_next s) vs"
    using seq_block_new [of n Alice_Array s] by (auto simp: Array_class_def)
  then show ?case using new_block_step(1) [of s Alice_Array ws] by (auto simp: Array_class_def Array_New_def new_block_def)
next
  case (10 n s) then show ?case by (simp add: Array_class_def Array_New_def seq_block_too_big)
qed (simp_all add: Array_class_def any_ok_def any_val_def)

lemma Vector_sequence: "sequence (Vector_class ac) (in_block Alice_Vector) any_ok any_val no_byte (has_empty ac)"
proof (unfold_locales, goal_cases)
  case (1 s a vs) then show ?case using in_block_reads(1) [OF 1] by (auto simp: in_block_def Vector_class_def)
next
  case 2 show ?case by (simp add: Vector_class_def seq_maxLen_eq)
next
  case (3 s a vs i) then show ?case using in_block_reads(2) [OF 3(1)] by (simp add: Vector_class_def Vector_Sub_elem_def)
next
  case (4 s a vs A s') then show ?case by (rule in_block_frame)
next
  case (5 s a vs x) then show ?case using in_block_reads(3) by (simp add: Vector_class_def)
next
  case (6 s x) then show ?case by (simp add: Vector_class_def block_FromWord_def)
next
  case (7 s a vs i v) then show ?case using in_block_write [OF 7(1,2)] by (simp add: Vector_class_def Vector_Init_elem_def any_val_def)
next
  case (8 s a vs i v) then show ?case using in_block_write [OF 8(1,2)] by (simp add: Vector_class_def Vector_LateInit_def any_val_def)
next
  case (9 s n)
  show ?case
  proof (cases "n = 0")
    case True
    obtain a pad where a: "ac_emptyVector ac = BlkW a" "in_block Alice_Vector s a []" "sc_blocks s a = Some (Alice_Vector, IntW 0 # pad)"
      using 9(1) by (auto simp: has_empty_def in_block_def)
    then show ?thesis using True by (auto simp: Vector_class_def Vector_New_length_def DirectWordToBlock_def run_simps)
  next
    case False
    obtain vs ws where "seq_block n = Some ws" "length vs = n" "in_block Alice_Vector (snd (new_block Alice_Vector ws s)) (sc_next s) vs"
      using 9(2) seq_block_new [of n Alice_Vector s] by (auto simp: Vector_class_def)
    then show ?thesis using False new_block_step(1) [of s Alice_Vector ws] by (auto simp: Vector_class_def Vector_New_length_def new_block_def)
  qed
next
  case (10 n s) then show ?case by (simp add: Vector_class_def Vector_New_length_def seq_block_too_big)
next
  case (15 s s') then show ?case using in_block_frame [OF _ 15(2)] by (auto simp: has_empty_def)
qed (simp_all add: Vector_class_def any_ok_def any_val_def)

text \<open>Objects in chunks.\<close>

definition in_chunk :: "(8 word \<Rightarrow> store_word) \<Rightarrow> sched \<Rightarrow> addr \<Rightarrow> store_word list \<Rightarrow> bool" where
  "in_chunk byte s a vs \<longleftrightarrow> a < sc_next s \<and> length vs \<le> ALICE_STRING_MAX_SIZE \<and> (\<exists>bs. sc_chunks s a = Some bs \<and> vs = map byte bs)"

definition char_elem :: "8 word \<Rightarrow> store_word" where "char_elem b = IntW (uint b)"
definition word8_elem :: "8 word \<Rightarrow> store_word" where "word8_elem b = IntW (sint b)"

definition int_ok :: "int \<Rightarrow> int \<Rightarrow> tstore \<Rightarrow> store_word \<Rightarrow> bool" where
  "int_ok lo hi T v = (case WordToInt T v of Some (Some j) \<Rightarrow> lo \<le> j \<and> j \<le> hi | _ \<Rightarrow> False)"

definition int_val :: "tstore \<Rightarrow> store_word \<Rightarrow> store_word" where
  "int_val T v = (case WordToInt T v of Some (Some j) \<Rightarrow> IntW j | _ \<Rightarrow> v)"

lemma char_bytes: "0 \<le> j \<Longrightarrow> j \<le> 255 \<Longrightarrow> char_elem (word_of_int j) = IntW j" "int_ok 0 255 T (char_elem b)" "int_val T (char_elem b) = char_elem b"
  using uint_lt2p [of b] by (simp_all add: char_elem_def int_ok_def int_val_def WordToInt_def uint_word_of_int take_bit_eq_mod)

lemma word8_bytes: "-128 \<le> j \<Longrightarrow> j \<le> 127 \<Longrightarrow> word8_elem (word_of_int j) = IntW j" "int_ok (-128) 127 T (word8_elem b)" "int_val T (word8_elem b) = word8_elem b"
proof -
  show "-128 \<le> j \<Longrightarrow> j \<le> 127 \<Longrightarrow> word8_elem (word_of_int j) = IntW j" by (simp add: word8_elem_def sint_sbintrunc' signed_take_bit_int_eq_self)
  show "int_ok (-128) 127 T (word8_elem b)" "int_val T (word8_elem b) = word8_elem b"
    using sint_ge [of b] sint_lt [of b] by (simp_all add: word8_elem_def int_ok_def int_val_def WordToInt_def)
qed

lemma chunk_Init_write:
  assumes "in_chunk byte s a vs" and "i < length vs" and "int_ok lo hi (sc_trans s) v" and "\<And>j. lo \<le> j \<Longrightarrow> j \<le> hi \<Longrightarrow> byte (word_of_int j) = IntW j"
  shows "\<exists>s'. chunk_Init lo hi a i v s = Some s' \<and> seq_step {a} s s' \<and> in_chunk byte s' a (vs[i := int_val (sc_trans s) v])"
proof -
  obtain bs where bs: "sc_chunks s a = Some bs" "vs = map byte bs" using assms(1) by (auto simp: in_chunk_def)
  obtain j where j: "WordToInt (sc_trans s) v = Some (Some j)" "lo \<le> j" "j \<le> hi" using assms(3) by (auto simp: int_ok_def split: option.splits)
  let ?s = "s\<lparr>sc_chunks := (sc_chunks s)(a \<mapsto> bs[i := word_of_int j])\<rparr>"
  have "chunk_Init lo hi a i v s = Some ?s" using bs j assms(2) by (simp add: chunk_Init_def run_simps)
  moreover have "seq_step {a} s ?s" by (simp add: seq_step_def heap_step_def same_sched_def)
  moreover have "in_chunk byte ?s a (vs[i := int_val (sc_trans s) v])" using assms(1,4) bs j by (simp add: in_chunk_def int_val_def map_update)
  ultimately show ?thesis by blast
qed

text \<open>The two classes differ in the range of the elements and in how they are read.\<close>

definition chunk_class :: "int \<Rightarrow> int \<Rightarrow> (addr \<Rightarrow> nat \<Rightarrow> sched \<Rightarrow> store_word option) \<Rightarrow> xseq" where
  "chunk_class lo hi get = \<lparr>xq_maxLen = ALICE_STRING_MAX_SIZE, xq_New = chunk_New, xq_FromWord = chunk_FromWord, xq_GetLength = chunk_GetLength,
     xq_Init = chunk_Init lo hi, xq_Update = chunk_Init lo hi, xq_Sub = get, xq_request = True, xq_InitChunk = InitChunk, xq_GetValue = GetValue\<rparr>"

lemma chunk_sequence:
  assumes get: "\<And>s a bs i. sc_chunks s a = Some bs \<Longrightarrow> i < length bs \<Longrightarrow> get a i s = Some (byte (bs ! i))"
    and byte: "\<And>j. lo \<le> j \<Longrightarrow> j \<le> hi \<Longrightarrow> byte (word_of_int j) = IntW j" "\<And>T b. int_ok lo hi T (byte b)" "\<And>T b. int_val T (byte b) = byte b"
  shows "sequence (chunk_class lo hi get) (in_chunk byte) (int_ok lo hi) int_val byte (\<lambda>s. True)"
proof (unfold_locales, goal_cases)
  case (1 s a vs) then show ?case by (auto simp: in_chunk_def chunk_class_def chunk_GetLength_def)
next
  case 2 show ?case by (simp add: chunk_class_def seq_maxLen_eq)
next
  case (3 s a vs i) then show ?case using get by (auto simp: chunk_class_def in_chunk_def)
next
  case (4 s a vs A s') then show ?case by (auto simp: in_chunk_def heap_step_def same_sched_def)
next
  case (5 s a vs x) then show ?case by (auto simp: chunk_class_def chunk_FromWord_def in_chunk_def run_simps)
next
  case (6 s x) then show ?case by (simp add: chunk_class_def chunk_FromWord_def)
next
  case (7 s a vs i v) then show ?case using chunk_Init_write [OF 7 byte(1)] by (simp add: chunk_class_def)
next
  case (8 s a vs i v) then show ?case using chunk_Init_write [OF 8 byte(1)] by (simp add: chunk_class_def)
next
  case (9 s n)
  let ?s = "snd (new_chunk (replicate n fresh_byte) s)"
  have "in_chunk byte ?s (sc_next s) (map byte (replicate n fresh_byte))" using 9(2) by (simp add: in_chunk_def new_chunk_def chunk_class_def)
  moreover have "chunk_New n s = Some (sc_next s, ?s)" using 9(2) by (simp add: chunk_New_def new_chunk_def chunk_class_def run_simps)
  ultimately show ?case using new_block_step(2) [of s "replicate n fresh_byte"]
    by (intro exI [of _ "sc_next s"] exI [of _ ?s] exI [of _ "map byte (replicate n fresh_byte)"]) (simp add: chunk_class_def)
next
  case (10 n s) then show ?case by (simp add: chunk_class_def chunk_New_def Assert_def)
next
  case (11 s v) then show ?case by (auto simp: int_ok_def int_elem_def split: option.splits)
next
  case (12 s a vs v T) then show ?case using byte(2,3) by (auto simp: in_chunk_def)
next
  case (13 s a vs) then show ?case by (auto simp: chunk_class_def in_chunk_def GetValue_def)
next
  case (14 s a vs bs)
  then obtain cs where cs: "sc_chunks s a = Some cs" "length cs = length bs" by (auto simp: in_chunk_def)
  let ?s = "s\<lparr>sc_chunks := (sc_chunks s)(a \<mapsto> bs)\<rparr>"
  have "InitChunk a 0 bs s = Some ?s" using cs by (simp add: InitChunk_def run_simps)
  moreover have "seq_step {a} s ?s" by (simp add: seq_step_def heap_step_def same_sched_def)
  moreover have "in_chunk byte ?s a (map byte bs)" using 14(2,3) by (simp add: in_chunk_def)
  ultimately show ?case by (auto simp: chunk_class_def)
qed simp

lemma Char_sequence: "sequence Char_class (in_chunk char_elem) (int_ok 0 255) int_val char_elem (\<lambda>s. True)"
  unfolding Char_class_def chunk_class_def [symmetric] by (rule chunk_sequence) (simp_all add: Char_Sub_def char_bytes run_simps, simp add: char_elem_def)

lemma Word8_sequence: "sequence Word8_class (in_chunk word8_elem) (int_ok (-128) 127) int_val word8_elem (\<lambda>s. True)"
  unfolding Word8_class_def chunk_class_def [symmetric] by (rule chunk_sequence) (simp_all add: Word8_Sub_def word8_bytes run_simps, simp add: word8_elem_def)

section \<open>The instances of the templates\<close>

datatype elem_kind = AnyElem | CharElem | Word8Elem

primrec vec_class :: "alice_consts \<Rightarrow> elem_kind \<Rightarrow> xseq" where
  "vec_class ac AnyElem = Vector_class ac" | "vec_class ac CharElem = Char_class" | "vec_class ac Word8Elem = Word8_class"

primrec arr_class :: "elem_kind \<Rightarrow> xseq" where
  "arr_class AnyElem = Array_class" | "arr_class CharElem = Char_class" | "arr_class Word8Elem = Word8_class"

primrec vec_at :: "elem_kind \<Rightarrow> sched \<Rightarrow> addr \<Rightarrow> store_word list \<Rightarrow> bool" where
  "vec_at AnyElem = in_block Alice_Vector" | "vec_at CharElem = in_chunk char_elem" | "vec_at Word8Elem = in_chunk word8_elem"

primrec arr_at :: "elem_kind \<Rightarrow> sched \<Rightarrow> addr \<Rightarrow> store_word list \<Rightarrow> bool" where
  "arr_at AnyElem = in_block Alice_Array" | "arr_at CharElem = in_chunk char_elem" | "arr_at Word8Elem = in_chunk word8_elem"

primrec elem_ok :: "elem_kind \<Rightarrow> tstore \<Rightarrow> store_word \<Rightarrow> bool" where
  "elem_ok AnyElem = any_ok" | "elem_ok CharElem = int_ok 0 255" | "elem_ok Word8Elem = int_ok (-128) 127"

primrec elem_val :: "elem_kind \<Rightarrow> tstore \<Rightarrow> store_word \<Rightarrow> store_word" where
  "elem_val AnyElem = any_val" | "elem_val CharElem = int_val" | "elem_val Word8Elem = int_val"

primrec elem_byte :: "elem_kind \<Rightarrow> 8 word \<Rightarrow> store_word" where
  "elem_byte AnyElem = no_byte" | "elem_byte CharElem = char_elem" | "elem_byte Word8Elem = word8_elem"

primrec vec_ready :: "alice_consts \<Rightarrow> elem_kind \<Rightarrow> sched \<Rightarrow> bool" where
  "vec_ready ac AnyElem = has_empty ac" | "vec_ready ac CharElem = (\<lambda>s. True)" | "vec_ready ac Word8Elem = (\<lambda>s. True)"

interpretation vec: sequence "vec_class ac k" "vec_at k" "elem_ok k" "elem_val k" "elem_byte k" "vec_ready ac k" for ac k
  using Vector_sequence Char_sequence Word8_sequence by (cases k) simp_all

interpretation arr: sequence "arr_class k" "arr_at k" "elem_ok k" "elem_val k" "elem_byte k" "\<lambda>s. True" for k
  using Array_sequence Char_sequence Word8_sequence by (cases k) simp_all

interpretation arr_vec: seq_copy "arr_class k" "arr_at k" "elem_ok k" "elem_val k" "elem_byte k" "\<lambda>s. True" "vec_class ac k" "vec_at k" "vec_ready ac k" for ac k
  by unfold_locales (cases k; simp add: Array_class_def Vector_class_def)+

interpretation vec_arr: seq_copy "vec_class ac k" "vec_at k" "elem_ok k" "elem_val k" "elem_byte k" "vec_ready ac k" "arr_class k" "arr_at k" "\<lambda>s. True" for ac k
  by unfold_locales (cases k; simp add: Array_class_def Vector_class_def)+

section \<open>Properties\<close>

definition vec_word :: "elem_kind \<Rightarrow> sched \<Rightarrow> store_word \<Rightarrow> store_word list \<Rightarrow> bool" where
  "vec_word k s x vs \<longleftrightarrow> (\<exists>a. WordToBlock (sc_trans s) x = Some (Some a) \<and> vec_at k s a vs)"

definition arr_word :: "elem_kind \<Rightarrow> sched \<Rightarrow> store_word \<Rightarrow> addr \<Rightarrow> store_word list \<Rightarrow> bool" where
  "arr_word k s x a vs \<longleftrightarrow> WordToBlock (sc_trans s) x = Some (Some a) \<and> arr_at k s a vs"


text \<open>A call with the string ``abc'' as first argument.\<close>

definition string_call :: "store_word list \<Rightarrow> sched" where
  "string_call xs = (sample_call (BlkW 5 # xs))\<lparr>sc_chunks := [5 \<mapsto> [97, 98, 99]], sc_next := 6\<rparr>"

lemma string_call_ok:
  "length xs \<le> 15 \<Longrightarrow> prim_call (string_call xs) (IntW 9) (BlkW 5 # xs)" "WordToBlock (sc_trans (string_call xs)) (BlkW 5) = Some (Some 5)"
  "vec_at CharElem (string_call xs) 5 [IntW 97, IntW 98, IntW 99]" "arr_at CharElem (string_call xs) 5 [IntW 97, IntW 98, IntW 99]"
  by (simp_all add: string_call_def sample_call_def prim_call_def maxArgs_def WordToBlock_def in_chunk_def char_elem_def seq_maxLen_eq)


text \<open>
  C12. The primitives on arrays refine mutable lists, for all three kinds of arrays. \<^verbatim>\<open>array\<close> makes an array of the given length (a length that is
  negative or too big raises \<^verbatim>\<open>Size\<close>); \<^verbatim>\<open>sub\<close> and \<^verbatim>\<open>update\<close> read and write inside the bounds and raise \<^verbatim>\<open>Subscript\<close> outside; an update changes
  this one element and no other object. \<^verbatim>\<open>fromVector\<close> and \<^verbatim>\<open>extract\<close> copy to new objects, \<^verbatim>\<open>toList\<close> and \<^verbatim>\<open>fromList\<close> convert between arrays and
  lists, and each step of \<^verbatim>\<open>tabulate\<close> stores one element.
\<close>

theorem array_prims:
  assumes "vec_ready ac k s" and "valid_int i" and "valid_int n"
  shows "(prim_call s self [IntW n, v] \<and> elem_ok k (sc_trans s) v \<longrightarrow>
      (if 0 \<le> n \<and> nat n \<le> xq_maxLen (arr_class k) then builds (arr_at k) s (Array_array (arr_class k) env ex s) (replicate (nat n) (elem_val k (sc_trans s) v))
       else raises s (Array_array (arr_class k) env ex s) (General_Size ex))) \<and>
    (prim_call s self [x] \<and> arr_word k s x a vs \<longrightarrow> returns s (Array_length (arr_class k) env s) (IntW (int (length vs)))) \<and>
    (prim_call s self [x, IntW i] \<and> arr_word k s x a vs \<longrightarrow>
      (if 0 \<le> i \<and> i < int (length vs) then returns s (Array_sub (arr_class k) env e s) (vs ! nat i) else raises s (Array_sub (arr_class k) env e s) e)) \<and>
    (prim_call s self [x, IntW i, v] \<and> arr_word k s x a vs \<and> elem_ok k (sc_trans s) v \<longrightarrow>
      (if 0 \<le> i \<and> i < int (length vs)
       then gives {a} s (Array_update (arr_class k) env e s) (\<lambda>s' w. w = IntW 0 \<and> arr_at k s' a (vs[nat i := elem_val k (sc_trans s) v]))
       else raises s (Array_update (arr_class k) env e s) e)) \<and>
    (prim_call s self [x, IntW i, IntW n] \<and> arr_word k s x a vs \<longrightarrow>
      (if 0 \<le> i \<and> 0 \<le> n \<and> i + n \<le> int (length vs)
       then builds (vec_at k) s (Array_extract (vec_class ac k) (arr_class k) env e s) (take (nat n) (drop (nat i) vs))
       else raises s (Array_extract (vec_class ac k) (arr_class k) env e s) e)) \<and>
    (prim_call s self [x] \<and> vec_word k s x vs \<longrightarrow> builds (arr_at k) s (Array_fromVector (arr_class k) (vec_class ac k) env s) vs) \<and>
    (prim_call s self [x] \<and> arr_word k s x a vs \<longrightarrow> gives {} s (Array_toList (arr_class k) env s) (\<lambda>s' w. is_list s' w vs)) \<and>
    (prim_call s self [x] \<and> is_list s x xs \<and> (\<forall>y \<in> set xs. elem_ok k (sc_trans s) y) \<longrightarrow>
      (if length xs \<le> xq_maxLen (arr_class k) then builds (arr_at k) s (Array_fromList (arr_class k) env ex s) (map (elem_val k (sc_trans s)) xs)
       else raises s (Array_fromList (arr_class k) env ex s) (General_Size ex))) \<and>
    (tabulate_frame s x closure j m \<and> arr_word k s x a vs \<and> length vs = m \<and> j < m \<and> sc_nArgs s = 1 \<and>
      length (sc_args s) = maxArgs \<and> elem_ok k (sc_trans s) (sc_args s ! 0) \<longrightarrow>
      (\<exists>s'. heap_step {a} s s' \<and> arr_at k s' a (vs[j := elem_val k (sc_trans s) (sc_args s ! 0)]) \<and> sc_nArgs s' = 1 \<and>
        (if Suc j = m then TabulateWorker_Run (arr_class k) env s = Some (CONTINUE, s') \<and> sc_args s' ! 0 = BlkW a \<and> sc_top s' = sc_top s - 5
         else TabulateWorker_Run (arr_class k) env s = PushCall env closure s' \<and> sc_args s' ! 0 = IntW (int (Suc j)) \<and>
           tabulate_frame s' x closure (Suc j) m)))"
proof (intro conjI impI; (elim conjE)?)
  assume "prim_call s self [IntW n, v]" "elem_ok k (sc_trans s) v"
  then show "if 0 \<le> n \<and> nat n \<le> xq_maxLen (arr_class k) then builds (arr_at k) s (Array_array (arr_class k) env ex s) (replicate (nat n) (elem_val k (sc_trans s) v))
      else raises s (Array_array (arr_class k) env ex s) (General_Size ex)"
    using arr.array_spec [OF _ assms(3)] by blast
next
  assume "prim_call s self [x]" "arr_word k s x a vs"
  then show "returns s (Array_length (arr_class k) env s) (IntW (int (length vs)))" "gives {} s (Array_toList (arr_class k) env s) (\<lambda>s' w. is_list s' w vs)"
    using arr.length_spec arr.toList_spec by (auto simp: arr_word_def Array_length_def Array_toList_def)
next
  assume "prim_call s self [x, IntW i]" "arr_word k s x a vs"
  then show "if 0 \<le> i \<and> i < int (length vs) then returns s (Array_sub (arr_class k) env e s) (vs ! nat i) else raises s (Array_sub (arr_class k) env e s) e"
    using arr.sub_spec [OF _ _ _ assms(2)] unfolding arr_word_def Array_sub_def by blast
next
  assume "prim_call s self [x, IntW i, v]" "arr_word k s x a vs" "elem_ok k (sc_trans s) v"
  then show "if 0 \<le> i \<and> i < int (length vs)
      then gives {a} s (Array_update (arr_class k) env e s) (\<lambda>s' w. w = IntW 0 \<and> arr_at k s' a (vs[nat i := elem_val k (sc_trans s) v]))
      else raises s (Array_update (arr_class k) env e s) e"
    using arr.update_spec [OF _ _ _ assms(2)] unfolding arr_word_def by blast
next
  assume "prim_call s self [x, IntW i, IntW n]" "arr_word k s x a vs"
  then show "if 0 \<le> i \<and> 0 \<le> n \<and> i + n \<le> int (length vs)
      then builds (vec_at k) s (Array_extract (vec_class ac k) (arr_class k) env e s) (take (nat n) (drop (nat i) vs))
      else raises s (Array_extract (vec_class ac k) (arr_class k) env e s) e"
    using arr_vec.extract_spec [OF _ _ _ assms(2,3,1)] unfolding arr_word_def Array_extract_def by blast
next
  assume "prim_call s self [x]" "vec_word k s x vs"
  then show "builds (arr_at k) s (Array_fromVector (arr_class k) (vec_class ac k) env s) vs"
    using vec_arr.fromVector_spec unfolding vec_word_def by blast
next
  assume "prim_call s self [x]" "is_list s x xs" "\<forall>y \<in> set xs. elem_ok k (sc_trans s) y"
  then show "if length xs \<le> xq_maxLen (arr_class k) then builds (arr_at k) s (Array_fromList (arr_class k) env ex s) (map (elem_val k (sc_trans s)) xs)
      else raises s (Array_fromList (arr_class k) env ex s) (General_Size ex)"
    using arr.fromList_spec unfolding Array_fromList_def by blast
next
  assume "tabulate_frame s x closure j m" "arr_word k s x a vs" "length vs = m" "j < m" "sc_nArgs s = 1"
    "length (sc_args s) = maxArgs" "elem_ok k (sc_trans s) (sc_args s ! 0)"
  then show "\<exists>s'. heap_step {a} s s' \<and> arr_at k s' a (vs[j := elem_val k (sc_trans s) (sc_args s ! 0)]) \<and> sc_nArgs s' = 1 \<and>
      (if Suc j = m then TabulateWorker_Run (arr_class k) env s = Some (CONTINUE, s') \<and> sc_args s' ! 0 = BlkW a \<and> sc_top s' = sc_top s - 5
       else TabulateWorker_Run (arr_class k) env s = PushCall env closure s' \<and> sc_args s' ! 0 = IntW (int (Suc j)) \<and> tabulate_frame s' x closure (Suc j) m)"
    unfolding arr_word_def by (intro arr.tabulate_step) simp_all
qed

theorem array_prims_witness:
  "gives {5} (string_call [IntW 1, IntW 100]) (Array_update Char_class bare_env (IntW 7) (string_call [IntW 1, IntW 100]))
     (\<lambda>s' w. w = IntW 0 \<and> in_chunk char_elem s' 5 [IntW 97, IntW 100, IntW 99]) \<and>
   raises (string_call [IntW 3, IntW 100]) (Array_update Char_class bare_env (IntW 7) (string_call [IntW 3, IntW 100])) (IntW 7)"
proof -
  have w: "arr_word CharElem (string_call xs) (BlkW 5) 5 [IntW 97, IntW 98, IntW 99]" for xs using string_call_ok(2,4) by (auto simp: arr_word_def)
  have v: "valid_int 1" "valid_int 3" "vec_ready ac CharElem s" "elem_ok CharElem T (IntW 100)" "elem_val CharElem T (IntW 100) = IntW 100" for ac s T
    by (simp_all add: valid_int_iff int_ok_def int_val_def WordToInt_def)
  have "gives {5} (string_call [IntW 1, IntW 100]) (Array_update Char_class bare_env (IntW 7) (string_call [IntW 1, IntW 100]))
     (\<lambda>s' w. w = IntW 0 \<and> in_chunk char_elem s' 5 [IntW 97, IntW 100, IntW 99])"
    using array_prims [OF v(3,1,1), of "string_call [IntW 1, IntW 100]" "IntW 9" "IntW 100" bare_env _ "BlkW 5" 5 "[IntW 97, IntW 98, IntW 99]" "IntW 7"]
      string_call_ok(1) [of "[IntW 1, IntW 100]"] w v(4,5) by (simp del: elem_ok.simps elem_val.simps)
  moreover have "raises (string_call [IntW 3, IntW 100]) (Array_update Char_class bare_env (IntW 7) (string_call [IntW 3, IntW 100])) (IntW 7)"
    using array_prims [OF v(3,2,2), of "string_call [IntW 3, IntW 100]" "IntW 9" "IntW 100" bare_env _ "BlkW 5" 5 "[IntW 97, IntW 98, IntW 99]" "IntW 7"]
      string_call_ok(1) [of "[IntW 3, IntW 100]"] w v(4,5) by (simp del: elem_ok.simps elem_val.simps)
  ultimately show ?thesis by simp
qed

end
