(* ===== verification/Structural_Eq.thy ===== *)
theory Structural_Eq
  imports Alice_Data
begin

text \<open>
  Structural equality: \<^verbatim>\<open>Alice::Compare\<close> of \<^verbatim>\<open>alice/vm-seam/alice/Data.cc\<close> and the primitives \<^verbatim>\<open>op=\<close> and \<^verbatim>\<open>op<>\<close> of \<^verbatim>\<open>primitives/Unqualified.cc\<close>.

  \<^verbatim>\<open>Compare\<close> walks over two graphs and answers 1 when they are equal, 0 when they are not, and -1 when a transient has to be requested, which it
  has then entered into the scheduler's data register. What the state \<open>sched\<close> does not hold is a parameter: the flag \<^verbatim>\<open>IsMutable\<close> of chunks,
  and the values of the large integers, which are numbers of the GMP library behind a chunk.
\<close>

section \<open>Compare\<close>

record cmp_env =
  ce_gmpHandler :: store_word
  ce_mpz :: "addr \<Rightarrow> int option"
  ce_mutable :: "addr \<Rightarrow> bool"

datatype object_kind = BlockObj block_label | ChunkObj | OtherObj

text \<open>The label of an object; threads, hash tables and other objects of the machine are only compared by identity.\<close>

definition object_label :: "sched \<Rightarrow> addr \<Rightarrow> object_kind" where
  "object_label s a = (case sc_blocks s a of Some (l, ws) \<Rightarrow> BlockObj l | None \<Rightarrow> if sc_chunks s a \<noteq> None then ChunkObj else OtherObj)"

text \<open>The value of a large integer: a concrete representation with the handler of GMP; \<open>Some None\<close> for all other objects.\<close>

definition BigInt_value :: "cmp_env \<Rightarrow> sched \<Rightarrow> addr \<Rightarrow> int option option" where
  "BigInt_value ce s a = (case sc_blocks s a of
     Some (l, ws) \<Rightarrow>
       if l = CONCRETE_LABEL then do {
         h \<leftarrow> ConcreteRepresentation_GetHandler ws;
         if h = ce_gmpHandler ce then do {
           w \<leftarrow> ConcreteRepresentation_Get ws 0;
           c \<leftarrow> DirectWordToBlock w;
           z \<leftarrow> ce_mpz ce c;
           Some (Some z) }
         else Some None }
       else Some None
   | None \<Rightarrow> Some None)"

definition structural_label :: "block_label \<Rightarrow> bool" where
  "structural_label l \<longleftrightarrow> l = TUPLE_LABEL \<or> l = Alice_ConVal \<or> l = Alice_Vector \<or> IsTag l"

definition result :: "bool \<Rightarrow> sched \<Rightarrow> (int \<times> sched) option" where
  "result b s = Some (if b then 1 else 0, s)"

text \<open>The loop over the arguments, from left to right.\<close>

primrec compare_args :: "(store_word \<Rightarrow> store_word \<Rightarrow> (int \<times> sched) option) \<Rightarrow> sched \<Rightarrow> store_word list \<Rightarrow> store_word list \<Rightarrow> (int \<times> sched) option" where
  "compare_args f s [] ys = Some (1, s)"
| "compare_args f s (x # xs) ys = (case ys of
     [] \<Rightarrow> None
   | y # ys' \<Rightarrow> Option.bind (f x y) (\<lambda>(r, s'). if r \<noteq> 1 then Some (r, s') else compare_args f s xs ys'))"

lemma compare_args_mono [partial_function_mono]:
  assumes "\<And>x y. mono_option (\<lambda>f. B f x y)"
  shows "mono_option (\<lambda>f. compare_args (B f) s xs ys)"
proof (induction xs arbitrary: ys)
  case Nil
  then show ?case by (simp add: option.const_mono)
next
  case (Cons x xs)
  show ?case
  proof (cases ys)
    case Nil
    then show ?thesis by (simp add: option.const_mono)
  next
    case (Cons y ys')
    have "mono_option (\<lambda>f. case p of (r, s') \<Rightarrow> if r \<noteq> 1 then Some (r, s') else compare_args (B f) s xs ys')" for p :: "int \<times> sched"
      using Cons.IH [of ys'] by (cases p; cases "fst p = 1") (simp_all add: option.const_mono)
    from bind_mono [OF assms this]
    show ?thesis using Cons by simp
  qed
qed

partial_function (option) Compare :: "cmp_env \<Rightarrow> sched \<Rightarrow> store_word \<Rightarrow> store_word \<Rightarrow> (int \<times> sched) option" where
  "Compare ce s x0 x1 =
     Option.bind (WordToBlock (sc_trans s) x0) (\<lambda>a. Option.bind (WordToBlock (sc_trans s) x1) (\<lambda>b. case a of
       None \<Rightarrow> Option.bind (WordToInt (sc_trans s) x0) (\<lambda>i. case i of
         None \<Rightarrow> Some (-1, s\<lparr>sc_data := x0\<rparr>)
       | Some i' \<Rightarrow> (case b of
           Some b' \<Rightarrow> Option.bind (BigInt_value ce s b') (\<lambda>z. result (z = Some i') s)
         | None \<Rightarrow> Option.bind (WordToInt (sc_trans s) x1) (\<lambda>j. case j of
             None \<Rightarrow> Some (-1, s\<lparr>sc_data := x1\<rparr>)
           | Some j' \<Rightarrow> result (i' = j') s)))
     | Some a' \<Rightarrow> (case b of
         None \<Rightarrow> Option.bind (WordToInt (sc_trans s) x1) (\<lambda>j. case j of
           None \<Rightarrow> Some (-1, s\<lparr>sc_data := x1\<rparr>)
         | Some j' \<Rightarrow> Option.bind (BigInt_value ce s a') (\<lambda>z. result (z = Some j') s))
       | Some b' \<Rightarrow>
           if object_label s a' \<noteq> object_label s b' then result False s
           else (case object_label s a' of
             OtherObj \<Rightarrow> result (a' = b') s
           | ChunkObj \<Rightarrow>
               if ce_mutable ce a' then Option.bind (Assert (ce_mutable ce b')) (\<lambda>_. result (a' = b') s)
               else result (sc_chunks s a' = sc_chunks s b') s
           | BlockObj l \<Rightarrow>
               if structural_label l then
                 Option.bind (sc_blocks s a') (\<lambda>(l1, ws). Option.bind (sc_blocks s b') (\<lambda>(l2, vs).
                   if length vs \<noteq> length ws then result False s else compare_args (\<lambda>x y. Compare ce s x y) s ws vs))
               else if l = CONCRETE_LABEL then
                 Option.bind (BigInt_value ce s a') (\<lambda>z1. Option.bind (BigInt_value ce s b') (\<lambda>z2.
                   case (z1, z2) of (Some i, Some j) \<Rightarrow> result (i = j) s | _ \<Rightarrow> result (a' = b') s))
               else result (a' = b') s))))"

declare Compare.simps [code]

definition equality_prim :: "(bool \<Rightarrow> bool) \<Rightarrow> cmp_env \<Rightarrow> senv \<Rightarrow> sched \<Rightarrow> (worker_result \<times> sched) option" where
  "equality_prim f ce env = DEFINE2 (\<lambda>self x0 x1 s. do {
     (r, s1) \<leftarrow> Compare ce s x0 x1;
     if r = -1 then do {
       fr \<leftarrow> new_frame env self [] s1;
       case fr of None \<Rightarrow> Some (OVERFLOW, s1) | Some s2 \<Rightarrow> Some (REQUEST, s2) }
     else RETURN_BOOL (f (r \<noteq> 0)) s1 })"

definition opeq :: "cmp_env \<Rightarrow> senv \<Rightarrow> sched \<Rightarrow> (worker_result \<times> sched) option" where
  "opeq = equality_prim (\<lambda>b. b)"

definition opnoteq :: "cmp_env \<Rightarrow> senv \<Rightarrow> sched \<Rightarrow> (worker_result \<times> sched) option" where
  "opnoteq = equality_prim Not"

section \<open>Values\<close>

text \<open>
  What a word stands for. Large integers are integers, whether they are kept as a word or as a number of GMP; blocks with a structural label are
  trees; immutable chunks are byte strings; all other objects are what they are. A transient is not a value yet.
\<close>

datatype alice_value = VInt int | VNode block_label "alice_value list" | VBytes "8 word list" | VObj addr | VArray addr | VTrans store_word

inductive denotes :: "cmp_env \<Rightarrow> sched \<Rightarrow> store_word \<Rightarrow> alice_value \<Rightarrow> bool" for ce s where
  d_int: "WordToInt (sc_trans s) w = Some (Some i) \<Longrightarrow> denotes ce s w (VInt i)"
| d_trans: "WordToTransient (sc_trans s) w = Some (Some t) \<Longrightarrow> denotes ce s w (VTrans w)"
| d_big: "WordToBlock (sc_trans s) w = Some (Some a) \<Longrightarrow> BigInt_value ce s a = Some (Some z) \<Longrightarrow> denotes ce s w (VInt z)"
| d_node: "WordToBlock (sc_trans s) w = Some (Some a) \<Longrightarrow> sc_blocks s a = Some (l, ws) \<Longrightarrow> structural_label l \<Longrightarrow>
    list_all2 (denotes ce s) ws vs \<Longrightarrow> denotes ce s w (VNode l vs)"
| d_bytes: "WordToBlock (sc_trans s) w = Some (Some a) \<Longrightarrow> sc_blocks s a = None \<Longrightarrow> sc_chunks s a = Some bs \<Longrightarrow> \<not> ce_mutable ce a \<Longrightarrow>
    denotes ce s w (VBytes bs)"
| d_array: "WordToBlock (sc_trans s) w = Some (Some a) \<Longrightarrow> object_label s a = ChunkObj \<Longrightarrow> ce_mutable ce a \<Longrightarrow> denotes ce s w (VArray a)"
| d_obj: "WordToBlock (sc_trans s) w = Some (Some a) \<Longrightarrow> object_label s a \<noteq> ChunkObj \<Longrightarrow> \<forall>l. object_label s a = BlockObj l \<longrightarrow> \<not> structural_label l \<Longrightarrow>
    BigInt_value ce s a = Some None \<Longrightarrow> denotes ce s w (VObj a)"
  monos list_all2_mono

datatype verdict = Same | Differ | Ask store_word

text \<open>Equality of values that may not be there yet: the first transient that is met before a difference is asked for.\<close>

fun cmp :: "alice_value \<Rightarrow> alice_value \<Rightarrow> verdict" and cmps :: "alice_value list \<Rightarrow> alice_value list \<Rightarrow> verdict" where
  "cmp (VTrans w) v = Ask w"
| "cmp v (VTrans w) = Ask w"
| "cmp (VNode l vs) (VNode l' vs') = (if l = l' \<and> length vs = length vs' then cmps vs vs' else Differ)"
| "cmp v v' = (if v = v' then Same else Differ)"
| "cmps (v # vs) (v' # vs') = (case cmp v v' of Same \<Rightarrow> cmps vs vs' | r \<Rightarrow> r)"
| "cmps _ _ = Same"

text \<open>Values without transients.\<close>

fun determined :: "alice_value \<Rightarrow> bool" where
  "determined (VTrans w) \<longleftrightarrow> False"
| "determined (VNode l vs) \<longleftrightarrow> (\<forall>v \<in> set vs. determined v)"
| "determined _ \<longleftrightarrow> True"

text \<open>Values of one type: a mutable chunk is never compared with an immutable one.\<close>

fun same_type :: "alice_value \<Rightarrow> alice_value \<Rightarrow> bool" where
  "same_type (VBytes bs) (VArray a) \<longleftrightarrow> False"
| "same_type (VArray a) (VBytes bs) \<longleftrightarrow> False"
| "same_type (VNode l vs) (VNode l' vs') \<longleftrightarrow> list_all2 same_type vs vs' \<or> length vs \<noteq> length vs'"
| "same_type _ _ \<longleftrightarrow> True"

lemma cmps_Cons: "cmps (v # vs) (v' # vs') = (case cmp v v' of Same \<Rightarrow> cmps vs vs' | r \<Rightarrow> r)"
  by simp

lemma cmp_determined:
  "determined v \<Longrightarrow> determined v' \<Longrightarrow> cmp v v' = (if v = v' then Same else Differ)"
  "\<forall>v \<in> set vs. determined v \<Longrightarrow> \<forall>v \<in> set vs'. determined v \<Longrightarrow> length vs = length vs' \<Longrightarrow> cmps vs vs' = (if vs = vs' then Same else Differ)"
proof (induction v v' and vs vs' rule: cmp_cmps.induct)
qed (auto split: verdict.splits if_splits)

lemma cmp_Same: "cmp v v' = Same \<Longrightarrow> v = v' \<and> determined v" "cmps vs vs' = Same \<Longrightarrow> length vs = length vs' \<Longrightarrow> vs = vs' \<and> (\<forall>v \<in> set vs. determined v)"
proof (induction v v' and vs vs' rule: cmp_cmps.induct)
qed (auto split: verdict.splits if_splits)

section \<open>Compare decides equality\<close>

definition outcome :: "verdict \<Rightarrow> sched \<Rightarrow> int \<times> sched" where
  "outcome v s = (case v of Same \<Rightarrow> (1, s) | Differ \<Rightarrow> (0, s) | Ask w \<Rightarrow> (-1, s\<lparr>sc_data := w\<rparr>))"

text \<open>What the object at an address stands for.\<close>

definition object_is :: "cmp_env \<Rightarrow> sched \<Rightarrow> addr \<Rightarrow> alice_value \<Rightarrow> bool" where
  "object_is ce s a v \<longleftrightarrow> (case v of
     VInt z \<Rightarrow> BigInt_value ce s a = Some (Some z)
   | VNode l vs \<Rightarrow> (\<exists>ws. sc_blocks s a = Some (l, ws) \<and> structural_label l \<and> list_all2 (denotes ce s) ws vs)
   | VBytes bs \<Rightarrow> sc_blocks s a = None \<and> sc_chunks s a = Some bs \<and> \<not> ce_mutable ce a
   | VArray b \<Rightarrow> b = a \<and> object_label s a = ChunkObj \<and> ce_mutable ce a
   | VObj b \<Rightarrow> b = a \<and> object_label s a \<noteq> ChunkObj \<and> (\<forall>l. object_label s a = BlockObj l \<longrightarrow> \<not> structural_label l) \<and> BigInt_value ce s a = Some None
   | VTrans w \<Rightarrow> False)"

lemma word_kinds:
  "WordToInt T w = Some (Some i) \<Longrightarrow> WordToBlock T w = Some None" "WordToTransient T w = Some (Some t) \<Longrightarrow> WordToBlock T w = Some None \<and> WordToInt T w = Some None"
  by (auto simp: WordToInt_def WordToBlock_def WordToTransient_def run_elims split: store_word.splits)

lemma denotes_cases:
  assumes "denotes ce s w v"
  obtains (int) i where "v = VInt i" "WordToBlock (sc_trans s) w = Some None" "WordToInt (sc_trans s) w = Some (Some i)"
    | (trans) "v = VTrans w" "WordToBlock (sc_trans s) w = Some None" "WordToInt (sc_trans s) w = Some None"
    | (object) a where "WordToBlock (sc_trans s) w = Some (Some a)" "object_is ce s a v"
  using assms by cases (auto simp: word_kinds object_is_def)

lemma label_of:
  assumes "object_is ce s a v"
  shows "object_label s a = (case v of VInt z \<Rightarrow> BlockObj CONCRETE_LABEL | VNode l vs \<Rightarrow> BlockObj l | VBytes bs \<Rightarrow> ChunkObj | VArray b \<Rightarrow> ChunkObj
      | VObj b \<Rightarrow> object_label s a | VTrans w \<Rightarrow> OtherObj)" (is ?A)
    and "BigInt_value ce s a = Some (case v of VInt z \<Rightarrow> Some z | _ \<Rightarrow> None)" (is ?B)
proof -
  have c: "\<not> structural_label CONCRETE_LABEL" by (simp add: structural_label_def Alice_ConVal_def Alice_Vector_def IsTag_def)
  show ?A using assms by (cases v) (auto simp: object_is_def object_label_def BigInt_value_def split: option.splits if_splits)
  show ?B using assms c by (cases v) (auto simp: object_is_def object_label_def BigInt_value_def split: option.splits if_splits)
qed

lemma flat_kinds:
  assumes "object_is ce s a v"
  shows "object_label s a = BlockObj l \<Longrightarrow> \<not> structural_label l \<Longrightarrow> v = VObj a \<or> (\<exists>z. v = VInt z)"
    "object_label s a = ChunkObj \<Longrightarrow> \<exists>bs. v = VBytes bs \<and> sc_chunks s a = Some bs \<and> \<not> ce_mutable ce a \<or> v = VArray a \<and> ce_mutable ce a"
    "object_label s a = OtherObj \<Longrightarrow> v = VObj a"
  using assms label_of(1) [OF assms] by (cases v; auto simp: object_is_def)+

lemma object_differs: "object_is ce s a v \<Longrightarrow> object_is ce s b v' \<Longrightarrow> object_label s a \<noteq> object_label s b \<Longrightarrow> cmp v v' = Differ"
  using label_of(1) [of ce s a v] label_of(1) [of ce s b v'] by (cases v; cases v') (auto simp: object_is_def)

lemma compare_args_spec:
  assumes "\<And>v x y v'. v \<in> set vs \<Longrightarrow> denotes ce s x v \<Longrightarrow> denotes ce s y v' \<Longrightarrow> same_type v v' \<Longrightarrow> Compare ce s x y = Some (outcome (cmp v v') s)"
    and "list_all2 (denotes ce s) ws vs" and "list_all2 (denotes ce s) ws' vs'" and "list_all2 same_type vs vs'"
  shows "compare_args (Compare ce s) s ws ws' = Some (outcome (cmps vs vs') s)"
  using assms
proof (induction vs arbitrary: ws ws' vs')
  case (Cons v vs)
  obtain x xs where x: "ws = x # xs" "denotes ce s x v" "list_all2 (denotes ce s) xs vs" using Cons.prems(2) by (auto simp: list_all2_Cons2)
  obtain v' us where v': "vs' = v' # us" "same_type v v'" "list_all2 same_type vs us" using Cons.prems(4) by (auto simp: list_all2_Cons1)
  obtain y ys where y: "ws' = y # ys" "denotes ce s y v'" "list_all2 (denotes ce s) ys us" using Cons.prems(3) v'(1) by (auto simp: list_all2_Cons2)
  have "Compare ce s x y = Some (outcome (cmp v v') s)" using Cons.prems(1) [of v] x(2) y(2) v'(2) by simp
  moreover have "compare_args (Compare ce s) s xs ys = Some (outcome (cmps vs us) s)" using Cons.IH [OF Cons.prems(1) x(3) y(3) v'(3)] by simp
  ultimately show ?case using x(1) y(1) v'(1) by (cases "cmp v v'") (simp_all add: outcome_def)
qed (simp add: outcome_def)

lemma object_compare:
  assumes "object_is ce s a v" and "object_is ce s b v'" and "same_type v v'" and "WordToBlock (sc_trans s) x = Some (Some a)"
    and "WordToBlock (sc_trans s) y = Some (Some b)"
    and IH: "\<And>l vs u x y v'. v = VNode l vs \<Longrightarrow> u \<in> set vs \<Longrightarrow> denotes ce s x u \<Longrightarrow> denotes ce s y v' \<Longrightarrow> same_type u v' \<Longrightarrow>
      Compare ce s x y = Some (outcome (cmp u v') s)"
  shows "Compare ce s x y = Some (outcome (cmp v v') s)"
proof (cases "object_label s a = object_label s b")
  case False
  then show ?thesis using assms(4,5) object_differs [OF assms(1,2)] by (subst Compare.simps) (simp add: result_def outcome_def)
next
  case True
  note la = label_of [OF assms(1)] and lb = label_of [OF assms(2)]
  note step = Compare.simps [of ce s x y, simplified assms(4,5)]
  show ?thesis
  proof (cases "\<exists>l vs. v = VNode l vs")
    case node: True
    then obtain l vs ws where v: "v = VNode l vs" "sc_blocks s a = Some (l, ws)" "structural_label l" "list_all2 (denotes ce s) ws vs"
      using assms(1) by (auto simp: object_is_def)
    then have "object_label s b = BlockObj l" using True la(1) by simp
    then obtain vs' ws' where v': "v' = VNode l vs'" "sc_blocks s b = Some (l, ws')" "list_all2 (denotes ce s) ws' vs'"
      using assms(2) lb(1) v(3) by (cases v') (auto simp: object_is_def structural_label_def Alice_ConVal_def Alice_Vector_def IsTag_def)
    have len: "length ws = length vs" "length ws' = length vs'" using v(4) v'(3) by (auto dest: list_all2_lengthD)
    show ?thesis
    proof (cases "length vs = length vs'")
      case True
      then have "compare_args (Compare ce s) s ws ws' = Some (outcome (cmps vs vs') s)"
        using compare_args_spec [OF _ v(4) v'(3)] IH [OF v(1)] assms(3) v(1) v'(1) by simp
      then show ?thesis using step True len v v' \<open>object_label s a = object_label s b\<close> \<open>object_label s b = BlockObj l\<close> by simp
    next
      case False
      then show ?thesis using step len v v' \<open>object_label s a = object_label s b\<close> \<open>object_label s b = BlockObj l\<close> by (simp add: result_def outcome_def)
    qed
  next
    case False
    then have ns: "\<not> structural_label l" if "object_label s a = BlockObj l" for l
      using that assms(1) la(1) by (cases v) (auto simp: object_is_def structural_label_def Alice_ConVal_def Alice_Vector_def IsTag_def)
    then have nb: "\<not> structural_label l" if "object_label s b = BlockObj l" for l using that True by simp
    show ?thesis
    proof (cases "object_label s a")
      case (BlockObj l)
      have "v = VObj a \<or> (\<exists>z. v = VInt z)" "v' = VObj b \<or> (\<exists>z. v' = VInt z)"
        using flat_kinds(1) [OF assms(1) BlockObj ns [OF BlockObj]] flat_kinds(1) [OF assms(2) _ nb] BlockObj True by auto
      moreover have "l = CONCRETE_LABEL" if "v = VInt z" for z using that la(1) BlockObj by simp
      moreover have "l = CONCRETE_LABEL" if "v' = VInt z" for z using that lb(1) BlockObj True by simp
      moreover have "Compare ce s x y = (if l = CONCRETE_LABEL then
          Option.bind (BigInt_value ce s a) (\<lambda>z1. Option.bind (BigInt_value ce s b) (\<lambda>z2. case (z1, z2) of (Some i, Some j) \<Rightarrow> result (i = j) s | _ \<Rightarrow> result (a = b) s))
          else result (a = b) s)" using step BlockObj True [symmetric] ns [OF BlockObj] by simp
      ultimately show ?thesis using la(2) lb(2) by (elim disjE exE; cases "a = b") (simp_all add: result_def outcome_def)
    next
      case ChunkObj
      obtain bs where bs: "v = VBytes bs \<and> sc_chunks s a = Some bs \<and> \<not> ce_mutable ce a \<or> v = VArray a \<and> ce_mutable ce a" using flat_kinds(2) [OF assms(1) ChunkObj] by blast
      obtain bs' where bs': "v' = VBytes bs' \<and> sc_chunks s b = Some bs' \<and> \<not> ce_mutable ce b \<or> v' = VArray b \<and> ce_mutable ce b"
        using flat_kinds(2) [OF assms(2)] ChunkObj True by auto
      have "Compare ce s x y = (if ce_mutable ce a then Option.bind (Assert (ce_mutable ce b)) (\<lambda>_. result (a = b) s) else result (sc_chunks s a = sc_chunks s b) s)"
        using step ChunkObj True [symmetric] by simp
      with bs bs' show ?thesis using assms(3) by (elim disjE conjE) (simp_all add: result_def outcome_def run_simps)
    next
      case OtherObj
      then have "v = VObj a" "v' = VObj b" using flat_kinds(3) [OF assms(1)] flat_kinds(3) [OF assms(2)] True by auto
      then show ?thesis using step True OtherObj by (simp add: result_def outcome_def)
    qed
  qed
qed

lemma Compare_spec:
  "denotes ce s x v \<Longrightarrow> denotes ce s y v' \<Longrightarrow> same_type v v' \<Longrightarrow> Compare ce s x y = Some (outcome (cmp v v') s)"
proof (induction v arbitrary: x y v' rule: measure_induct_rule [of size])
  case (less v)
  have IH: "Compare ce s x y = Some (outcome (cmp u v') s)"
    if "v = VNode l vs" "u \<in> set vs" "denotes ce s x u" "denotes ce s y v'" "same_type u v'" for l vs u x y v'
    using less.IH [of u x y v'] that size_list_estimation' [OF that(2), of "size u" size] by (simp add: less_Suc_eq_le)
  from less.prems(1) show ?case
  proof (cases rule: denotes_cases)
    case (object a)
    from less.prems(2) show ?thesis
    proof (cases rule: denotes_cases)
      case (int j)
      then show ?thesis using object label_of(2) [OF object(2)] by (subst Compare.simps) (cases v; auto simp: result_def outcome_def object_is_def)
    next
      case trans
      then show ?thesis using object by (subst Compare.simps) (cases v; auto simp: result_def outcome_def object_is_def)
    next
      case (object b)
      then show ?thesis using object_compare [OF \<open>object_is ce s a v\<close> object(2) less.prems(3) \<open>WordToBlock (sc_trans s) x = Some (Some a)\<close> object(1)] IH by blast
    qed
  next
    case (int i)
    from less.prems(2) show ?thesis
    proof (cases rule: denotes_cases)
      case (object b)
      then show ?thesis using int label_of(2) [OF object(2)] by (subst Compare.simps) (cases v'; auto simp: result_def outcome_def object_is_def)
    qed (use int in \<open>(subst Compare.simps, simp add: result_def outcome_def)+\<close>)
  next
    case trans
    from less.prems(2) show ?thesis by (cases rule: denotes_cases) (use trans in \<open>(subst Compare.simps, simp add: outcome_def)+\<close>)
  qed
qed

section \<open>Properties\<close>

lemma popped_views:
  "BigInt_value ce (popped s) a = BigInt_value ce s a" "object_label (popped s) a = object_label s a"
  "sc_trans (popped s) = sc_trans s" "sc_blocks (popped s) = sc_blocks s" "sc_chunks (popped s) = sc_chunks s"
  by (auto simp: popped_def BigInt_value_def object_label_def)

lemma denotes_popped: "denotes ce s x v \<Longrightarrow> denotes ce (popped s) x v"
proof (induction rule: denotes.induct)
  case (d_node w a l ws vs)
  then have "list_all2 (denotes ce (popped s)) ws vs" by (auto elim: list_all2_mono)
  then show ?case using d_node by (intro denotes.d_node) (simp_all add: popped_views)
qed (auto intro: denotes.intros simp: popped_views)

lemma request_again:
  assumes "prim_call s self xs"
  shows "new_frame env self [] ((popped s)\<lparr>sc_data := w\<rparr>) = Some (Some (s\<lparr>sc_data := w\<rparr>))"
proof -
  have "prim_call (s\<lparr>sc_data := w\<rparr>) self xs" using assms by (simp add: prim_call_def)
  moreover have "popped (s\<lparr>sc_data := w\<rparr>) = (popped s)\<lparr>sc_data := w\<rparr>" by (cases s) (simp add: popped_def)
  ultimately show ?thesis using push_back [of "s\<lparr>sc_data := w\<rparr>" self xs env] by simp
qed


text \<open>Two pairs at different addresses with the same components, and a pair whose second component is a hole.\<close>

definition pair_call :: "store_word \<Rightarrow> sched" where
  "pair_call w = (sample_call [BlkW 5, BlkW 6])\<lparr>sc_blocks := [5 \<mapsto> (TUPLE_LABEL, [IntW 1, IntW 2]), 6 \<mapsto> (TUPLE_LABEL, [IntW 1, w])], sc_trans := [8 \<mapsto> FutureT None], sc_next := 9\<rparr>"

definition no_gmp :: cmp_env where
  "no_gmp = \<lparr>ce_gmpHandler = IntW 0, ce_mpz = (\<lambda>_. None), ce_mutable = (\<lambda>_. False)\<rparr>"

lemma pair_call_ok:
  "prim_call (pair_call w) (IntW 9) [BlkW 5, BlkW 6]" "denotes no_gmp (pair_call w) (BlkW 5) (VNode TUPLE_LABEL [VInt 1, VInt 2])"
  "denotes no_gmp (pair_call (IntW 2)) (BlkW 6) (VNode TUPLE_LABEL [VInt 1, VInt 2])"
  "denotes no_gmp (pair_call (TrW 8)) (BlkW 6) (VNode TUPLE_LABEL [VInt 1, VTrans (TrW 8)])"
proof -
  show "prim_call (pair_call w) (IntW 9) [BlkW 5, BlkW 6]" by (simp add: pair_call_def sample_call_def prim_call_def maxArgs_def)
  have i: "denotes no_gmp s (IntW i) (VInt i)" for s i by (rule denotes.d_int) (simp add: WordToInt_def)
  have t: "denotes no_gmp (pair_call w) (TrW 8) (VTrans (TrW 8))" for w
    by (rule denotes.d_trans [of _ _ 8]) (simp add: WordToTransient_def pair_call_def Deref_unbound)
  have n: "denotes no_gmp (pair_call w) (BlkW a) (VNode TUPLE_LABEL vs)"
    if "sc_blocks (pair_call w) a = Some (TUPLE_LABEL, ws)" "list_all2 (denotes no_gmp (pair_call w)) ws vs" for w a ws vs
    by (rule denotes.d_node [of _ _ a _ ws]) (use that in \<open>simp_all add: WordToBlock_def structural_label_def\<close>)
  show "denotes no_gmp (pair_call w) (BlkW 5) (VNode TUPLE_LABEL [VInt 1, VInt 2])" by (rule n [of _ _ "[IntW 1, IntW 2]"]) (simp_all add: i, simp add: pair_call_def)
  show "denotes no_gmp (pair_call (IntW 2)) (BlkW 6) (VNode TUPLE_LABEL [VInt 1, VInt 2])" by (rule n [of _ _ "[IntW 1, IntW 2]"]) (simp_all add: i, simp add: pair_call_def)
  show "denotes no_gmp (pair_call (TrW 8)) (BlkW 6) (VNode TUPLE_LABEL [VInt 1, VTrans (TrW 8)])" by (rule n [of _ _ "[IntW 1, TrW 8]"]) (simp_all add: i t, simp add: pair_call_def)
qed


text \<open>Values with a tag that is kept in the block itself (\<open>BIG_TAG\<close>) are not compared by structure: equal ones at different addresses are different.\<close>

lemma big_tags_by_identity:
  assumes "sc_blocks s a = Some (Alice_BIG_TAG, ws)" and "sc_blocks s b = Some (Alice_BIG_TAG, ws)" and "a \<noteq> b"
  shows "Compare ce s (BlkW a) (BlkW b) = Some (0, s)"
  using assms by (subst Compare.simps)
    (simp add: WordToBlock_def object_label_def structural_label_def Alice_BIG_TAG_def Alice_ConVal_def Alice_Vector_def IsTag_def Alice_MIN_TAG_def MIN_DATA_LABEL_def result_def)

end
