(* ===== verification/Int_Inf.thy ===== *)
theory Int_Inf
  imports Sequence_Props
begin

text \<open>
  Integers of arbitrary size: \<^verbatim>\<open>alice/vm-seam/alice/primitives/IntInf.cc\<close>, the class \<^verbatim>\<open>BigInt\<close> of \<^verbatim>\<open>Data.cc\<close> and the macros for them of
  \<^verbatim>\<open>Authoring.hh\<close>.

  An integer that fits into 31 bits is a word; every other one is a concrete representation with a chunk that holds a number of the GMP
  library. The library is a parameter: its functions are the fields of the record \<open>gmp\<close>, on the integers that its numbers stand for, and
  \<open>gmp_spec\<close> says what its manual promises of them. The numbers live outside of the store: \<open>mpz_state\<close> maps the chunks to the values of the live
  ones and keeps the words that are registered for finalization. \<^verbatim>\<open>mpz_clear\<close> ends the life of a number. \<^verbatim>\<open>mpz_fdiv_qr\<close> and \<^verbatim>\<open>mpz_tdiv_qr\<close>
  give the two results of the functions for the quotient and the rest; \<^verbatim>\<open>mpz_export\<close> and \<^verbatim>\<open>mpz_import\<close> are only called for words of four bytes, the most
  significant one first.
\<close>

section \<open>GMP\<close>

record gmp =
  mpz_neg :: "int \<Rightarrow> int"
  mpz_abs :: "int \<Rightarrow> int"
  mpz_com :: "int \<Rightarrow> int"
  mpz_add :: "int \<Rightarrow> int \<Rightarrow> int"
  mpz_add_ui :: "int \<Rightarrow> nat \<Rightarrow> int"
  mpz_sub :: "int \<Rightarrow> int \<Rightarrow> int"
  mpz_sub_ui :: "int \<Rightarrow> nat \<Rightarrow> int"
  mpz_mul :: "int \<Rightarrow> int \<Rightarrow> int"
  mpz_mul_si :: "int \<Rightarrow> int \<Rightarrow> int"
  mpz_fdiv_q :: "int \<Rightarrow> int \<Rightarrow> int"
  mpz_fdiv_r :: "int \<Rightarrow> int \<Rightarrow> int"
  mpz_tdiv_q :: "int \<Rightarrow> int \<Rightarrow> int"
  mpz_tdiv_r :: "int \<Rightarrow> int \<Rightarrow> int"
  mpz_ior :: "int \<Rightarrow> int \<Rightarrow> int"
  mpz_xor :: "int \<Rightarrow> int \<Rightarrow> int"
  mpz_and :: "int \<Rightarrow> int \<Rightarrow> int"
  mpz_pow_ui :: "int \<Rightarrow> nat \<Rightarrow> int"
  mpz_sizeinbase2 :: "int \<Rightarrow> nat"
  mpz_fdiv_q_2exp :: "int \<Rightarrow> nat \<Rightarrow> int"
  mpz_mul_2exp :: "int \<Rightarrow> nat \<Rightarrow> int"
  mpz_cmp :: "int \<Rightarrow> int \<Rightarrow> int"
  mpz_cmp_si :: "int \<Rightarrow> int \<Rightarrow> int"
  mpz_fits_slong_p :: "int \<Rightarrow> bool"
  mpz_get_si :: "int \<Rightarrow> int"
  mpz_sgn :: "int \<Rightarrow> int"
  mpz_export :: "int \<Rightarrow> 8 word list"
  mpz_import :: "8 word list \<Rightarrow> int"

record mpz_state =
  mz_values :: "addr \<Rightarrow> int option"
  mz_registered :: "store_word list"

record intinf_env =
  ii_gmp :: gmp
  ii_handler :: store_word
  ii_overflow :: store_word
  ii_div :: store_word
  ii_domain :: store_word

type_synonym mpz_result = "(worker_result \<times> sched \<times> mpz_state) option"
type_synonym mpz_prim = "sched \<Rightarrow> mpz_state \<Rightarrow> mpz_result"

section \<open>Big integers\<close>

definition BigInt_SIZE :: nat where "BigInt_SIZE = 12"

text \<open>A new number with its value; the bytes of the chunk belong to the library.\<close>

definition BigInt_New :: "int \<Rightarrow> sched \<Rightarrow> mpz_state \<Rightarrow> addr \<times> sched \<times> mpz_state" where
  "BigInt_New z s m = (let (c, s1) = new_chunk (replicate BigInt_SIZE fresh_byte) s in (c, s1, m\<lparr>mz_values := (mz_values m)(c \<mapsto> z)\<rparr>))"

definition BigInt_FromWordDirect :: "sched \<Rightarrow> store_word \<Rightarrow> addr option" where
  "BigInt_FromWordDirect s w = do {
     c \<leftarrow> DirectWordToBlock w;
     bs \<leftarrow> sc_chunks s c;
     Assert (length bs = BigInt_SIZE);
     Some c }"

definition BigInt_toInt :: "gmp \<Rightarrow> int \<Rightarrow> int option" where
  "BigInt_toInt G z =
     (if mpz_fits_slong_p G z then
        (let i = mpz_get_si G z in if i > MAX_VALID_INT \<or> i < MIN_VALID_INT then None else Some i)
      else None)"

definition BigInt_destroy :: "addr \<Rightarrow> mpz_state \<Rightarrow> mpz_state option" where
  "BigInt_destroy c m = do {
     z \<leftarrow> mz_values m c;
     Some (m\<lparr>mz_values := (mz_values m)(c := None)\<rparr>) }"

text \<open>The operations of the class: a new number for the result of a function of the library on one number, or on two.\<close>

definition BigInt_op1 :: "(int \<Rightarrow> int) \<Rightarrow> addr \<Rightarrow> sched \<Rightarrow> mpz_state \<Rightarrow> (addr \<times> sched \<times> mpz_state) option" where
  "BigInt_op1 f c s m = do { z \<leftarrow> mz_values m c; Some (BigInt_New (f z) s m) }"

definition BigInt_op2 :: "(int \<Rightarrow> int \<Rightarrow> int) \<Rightarrow> addr \<Rightarrow> addr \<Rightarrow> sched \<Rightarrow> mpz_state \<Rightarrow> (addr \<times> sched \<times> mpz_state) option" where
  "BigInt_op2 f a b s m = do { y \<leftarrow> mz_values m a; z \<leftarrow> mz_values m b; Some (BigInt_New (f y z) s m) }"

definition BigInt_negate where "BigInt_negate G = BigInt_op1 (mpz_neg G)"
definition BigInt_abs where "BigInt_abs G = BigInt_op1 (mpz_abs G)"
definition BigInt_notb where "BigInt_notb G = BigInt_op1 (mpz_com G)"
definition BigInt_add where "BigInt_add G = BigInt_op2 (mpz_add G)"
definition BigInt_add_ui where "BigInt_add_ui G c i = BigInt_op1 (\<lambda>z. mpz_add_ui G z i) c"
definition BigInt_sub where "BigInt_sub G = BigInt_op2 (mpz_sub G)"
definition BigInt_sub_ui where "BigInt_sub_ui G c i = BigInt_op1 (\<lambda>z. mpz_sub_ui G z i) c"
definition BigInt_mul where "BigInt_mul G = BigInt_op2 (mpz_mul G)"
definition BigInt_mul_si where "BigInt_mul_si G c i = BigInt_op1 (\<lambda>z. mpz_mul_si G z i) c"
definition BigInt_div where "BigInt_div G = BigInt_op2 (mpz_fdiv_q G)"
definition BigInt_mod where "BigInt_mod G = BigInt_op2 (mpz_fdiv_r G)"
definition BigInt_quot where "BigInt_quot G = BigInt_op2 (mpz_tdiv_q G)"
definition BigInt_rem where "BigInt_rem G = BigInt_op2 (mpz_tdiv_r G)"
definition BigInt_pow where "BigInt_pow G c i = BigInt_op1 (\<lambda>z. mpz_pow_ui G z i) c"
definition BigInt_shiftr where "BigInt_shiftr G c b = BigInt_op1 (\<lambda>z. mpz_fdiv_q_2exp G z b) c"
definition BigInt_shiftl where "BigInt_shiftl G c b = BigInt_op1 (\<lambda>z. mpz_mul_2exp G z b) c"

definition BigInt_log2 :: "gmp \<Rightarrow> addr \<Rightarrow> mpz_state \<Rightarrow> nat option" where
  "BigInt_log2 G c m = do { z \<leftarrow> mz_values m c; Some (mpz_sizeinbase2 G z - 1) }"

definition BigInt_compare :: "gmp \<Rightarrow> addr \<Rightarrow> addr \<Rightarrow> mpz_state \<Rightarrow> int option" where
  "BigInt_compare G a b m = do { y \<leftarrow> mz_values m a; z \<leftarrow> mz_values m b; Some (if a = b then 0 else mpz_cmp G y z) }"

definition BigInt_compare_si :: "gmp \<Rightarrow> addr \<Rightarrow> int \<Rightarrow> mpz_state \<Rightarrow> int option" where
  "BigInt_compare_si G a i m = do { y \<leftarrow> mz_values m a; Some (mpz_cmp_si G y i) }"

text \<open>\<^verbatim>\<open>less\<close>, \<^verbatim>\<open>lessEq\<close>, \<^verbatim>\<open>greater\<close> and \<^verbatim>\<open>greaterEq\<close> test the sign of the comparison with a relation.\<close>

definition BigInt_rel :: "gmp \<Rightarrow> (int \<Rightarrow> int \<Rightarrow> bool) \<Rightarrow> addr \<Rightarrow> addr \<Rightarrow> mpz_state \<Rightarrow> bool option" where
  "BigInt_rel G R a b m = do { y \<leftarrow> mz_values m a; z \<leftarrow> mz_values m b; Some (R (mpz_cmp G y z) 0) }"

definition BigInt_rel_si :: "gmp \<Rightarrow> (int \<Rightarrow> int \<Rightarrow> bool) \<Rightarrow> addr \<Rightarrow> int \<Rightarrow> mpz_state \<Rightarrow> bool option" where
  "BigInt_rel_si G R a i m = do { y \<leftarrow> mz_values m a; Some (R (mpz_cmp_si G y i) 0) }"

section \<open>The macros\<close>

definition keep :: "mpz_state \<Rightarrow> (worker_result \<times> sched) option \<Rightarrow> mpz_result" where
  "keep m r = do { (w, s) \<leftarrow> r; Some (w, s, m) }"

definition INTINF1 :: "(store_word \<Rightarrow> store_word \<Rightarrow> mpz_prim) \<Rightarrow> mpz_prim" where
  "INTINF1 body s m = do {
     (self, s1) \<leftarrow> POP_PRIM_SELF 1 s;
     x0 \<leftarrow> GetCurrentArg 0 s1;
     body self x0 s1 m }"

definition INTINF2 :: "(store_word \<Rightarrow> store_word \<Rightarrow> store_word \<Rightarrow> mpz_prim) \<Rightarrow> mpz_prim" where
  "INTINF2 body s m = do {
     (self, s1) \<leftarrow> POP_PRIM_SELF 2 s;
     x0 \<leftarrow> GetCurrentArg 0 s1;
     x1 \<leftarrow> GetCurrentArg 1 s1;
     body self x0 x1 s1 m }"

definition TEST_INTINF :: "senv \<Rightarrow> store_word \<Rightarrow> store_word \<Rightarrow> sched \<Rightarrow> mpz_state \<Rightarrow> (int option \<Rightarrow> mpz_result) \<Rightarrow> mpz_result" where
  "TEST_INTINF env self x s m k = do {
     t \<leftarrow> WordToTransient (sc_trans s) x;
     if t \<noteq> None then keep m (prim_REQUEST env self x s)
     else do { i \<leftarrow> WordToInt (sc_trans s) x; k i } }"

text \<open>The number behind a concrete representation.\<close>

definition big_number :: "sched \<Rightarrow> store_word \<Rightarrow> addr option" where
  "big_number s x = do {
     cr \<leftarrow> ConcreteRepresentation_FromWord s x;
     ws \<leftarrow> cr;
     w \<leftarrow> ConcreteRepresentation_Get ws 0;
     BigInt_FromWordDirect s w }"

definition DECLARE_INTINF :: "senv \<Rightarrow> store_word \<Rightarrow> store_word \<Rightarrow> sched \<Rightarrow> mpz_state \<Rightarrow> (addr \<Rightarrow> mpz_result) \<Rightarrow> mpz_result" where
  "DECLARE_INTINF env self x s m k = do {
     t \<leftarrow> WordToTransient (sc_trans s) x;
     if t \<noteq> None then keep m (prim_REQUEST env self x s)
     else do { c \<leftarrow> big_number s x; k c } }"

definition DECLARE_INTINF_PROMOTE ::
  "senv \<Rightarrow> store_word \<Rightarrow> store_word \<Rightarrow> sched \<Rightarrow> mpz_state \<Rightarrow> (addr \<Rightarrow> bool \<Rightarrow> mpz_prim) \<Rightarrow> mpz_result" where
  "DECLARE_INTINF_PROMOTE env self x s m k = TEST_INTINF env self x s m (\<lambda>i. case i of
     Some j \<Rightarrow> (let (c, s1, m1) = BigInt_New j s m in k c True s1 m1)
   | None \<Rightarrow> do { c \<leftarrow> big_number s x; k c False s m })"

definition DISCARD_PROMOTED :: "addr \<Rightarrow> bool \<Rightarrow> mpz_state \<Rightarrow> mpz_state option" where
  "DISCARD_PROMOTED c flag m = (if flag then BigInt_destroy c m else Some m)"

definition MK_INTINF :: "intinf_env \<Rightarrow> addr \<Rightarrow> sched \<Rightarrow> mpz_state \<Rightarrow> store_word \<times> sched \<times> mpz_state" where
  "MK_INTINF ie c s m = (let (a, s1) = ConcreteRepresentation_New (ii_handler ie) [BlkW c] s in
     (BlkW a, s1, m\<lparr>mz_registered := BlkW a # mz_registered m\<rparr>))"

definition RETURN_BIG :: "intinf_env \<Rightarrow> addr \<Rightarrow> mpz_prim" where
  "RETURN_BIG ie c s m = (let (w, s1, m1) = MK_INTINF ie c s m in keep m1 (RETURN1 w s1))"

definition RETURN_INTINF :: "intinf_env \<Rightarrow> addr \<Rightarrow> mpz_prim" where
  "RETURN_INTINF ie c s m = do {
     z \<leftarrow> mz_values m c;
     case BigInt_toInt (ii_gmp ie) z of
       Some j \<Rightarrow> do { m1 \<leftarrow> BigInt_destroy c m; keep m1 (RETURN_INT j s) }
     | None \<Rightarrow> RETURN_BIG ie c s m }"

text \<open>One of the two results of \<^verbatim>\<open>RETURN_INTINF2\<close>.\<close>

definition intinf_word :: "intinf_env \<Rightarrow> addr \<Rightarrow> sched \<Rightarrow> mpz_state \<Rightarrow> (store_word \<times> sched \<times> mpz_state) option" where
  "intinf_word ie c s m = do {
     z \<leftarrow> mz_values m c;
     case BigInt_toInt (ii_gmp ie) z of
       Some j \<Rightarrow> do { m1 \<leftarrow> BigInt_destroy c m; Some (IntW j, s, m1) }
     | None \<Rightarrow> Some (MK_INTINF ie c s m) }"

definition RETURN2 :: "store_word \<Rightarrow> store_word \<Rightarrow> sched \<Rightarrow> (worker_result \<times> sched) option" where
  "RETURN2 w1 w2 s = do { s1 \<leftarrow> SetNArgs 2 s; s2 \<leftarrow> SetCurrentArg 0 w1 s1; s3 \<leftarrow> SetCurrentArg 1 w2 s2; Some (CONTINUE, s3) }"

definition RETURN_INTINF2 :: "intinf_env \<Rightarrow> addr \<Rightarrow> addr \<Rightarrow> mpz_prim" where
  "RETURN_INTINF2 ie i j s m = do {
     (res1, s1, m1) \<leftarrow> intinf_word ie i s m;
     (res2, s2, m2) \<leftarrow> intinf_word ie j s1 m1;
     keep m2 (RETURN2 res1 res2 s2) }"

section \<open>The primitives\<close>

definition IntInf_fromInt :: "senv \<Rightarrow> mpz_prim" where
  "IntInf_fromInt env = INTINF1 (\<lambda>self x0 s m. keep m (DECLARE_INT env self x0 s (\<lambda>i. RETURN_INT i s)))"

definition IntInf_toInt :: "senv \<Rightarrow> intinf_env \<Rightarrow> mpz_prim" where
  "IntInf_toInt env ie = INTINF1 (\<lambda>self x0 s m. TEST_INTINF env self x0 s m (\<lambda>i. case i of
     Some j \<Rightarrow> keep m (RETURN_INT j s)
   | None \<Rightarrow> keep m (prim_RAISE env self (ii_overflow ie) s)))"

text \<open>The result of an operation on small integers, which may have become big.\<close>

definition small_result :: "intinf_env \<Rightarrow> int \<Rightarrow> mpz_prim" where
  "small_result ie r s m =
     (if MIN_VALID_INT \<le> r \<and> r \<le> MAX_VALID_INT then keep m (RETURN_INT r s)
      else let (c, s1, m1) = BigInt_New r s m in RETURN_BIG ie c s1 m1)"

type_synonym big_op1 = "gmp \<Rightarrow> addr \<Rightarrow> sched \<Rightarrow> mpz_state \<Rightarrow> (addr \<times> sched \<times> mpz_state) option"

definition MKOP1 :: "big_op1 \<Rightarrow> (int \<Rightarrow> int) \<Rightarrow> senv \<Rightarrow> intinf_env \<Rightarrow> mpz_prim" where
  "MKOP1 bigop smallop env ie = INTINF1 (\<lambda>self x0 s m. TEST_INTINF env self x0 s m (\<lambda>i. case i of
     None \<Rightarrow> DECLARE_INTINF env self x0 s m (\<lambda>c. do {
       (r, s1, m1) \<leftarrow> bigop (ii_gmp ie) c s m;
       RETURN_INTINF ie r s1 m1 })
   | Some j \<Rightarrow> small_result ie (s32 (smallop j)) s m))"

definition IntInf_opnegate where "IntInf_opnegate = MKOP1 BigInt_negate (\<lambda>i. - i)"
definition IntInf_abs where "IntInf_abs = MKOP1 BigInt_abs (\<lambda>i. if i < 0 then - i else i)"
definition IntInf_notb where "IntInf_notb = MKOP1 BigInt_notb (\<lambda>i. NOT i)"

text \<open>Symmetric operators that cannot overflow. A small operand next to a big one becomes a number for the time of the operation.\<close>

definition MKOP2_bits :: "(gmp \<Rightarrow> int \<Rightarrow> int \<Rightarrow> int) \<Rightarrow> (int \<Rightarrow> int \<Rightarrow> int) \<Rightarrow> senv \<Rightarrow> intinf_env \<Rightarrow> mpz_prim" where
  "MKOP2_bits mpop smallop env ie = INTINF2 (\<lambda>self x0 x1 s m.
     TEST_INTINF env self x0 s m (\<lambda>i. TEST_INTINF env self x1 s m (\<lambda>j. case i of
       None \<Rightarrow> (case j of
         None \<Rightarrow> DECLARE_INTINF env self x0 s m (\<lambda>a. DECLARE_INTINF env self x1 s m (\<lambda>b. do {
           (r, s1, m1) \<leftarrow> BigInt_op2 (mpop (ii_gmp ie)) a b s m;
           RETURN_INTINF ie r s1 m1 }))
       | Some j' \<Rightarrow> DECLARE_INTINF env self x0 s m (\<lambda>a. do {
           (r, s1, m1) \<leftarrow> BigInt_op1 (\<lambda>z. mpop (ii_gmp ie) z j') a s m;
           RETURN_INTINF ie r s1 m1 }))
     | Some i' \<Rightarrow> (case j of
         None \<Rightarrow> DECLARE_INTINF env self x1 s m (\<lambda>b. do {
           (r, s1, m1) \<leftarrow> BigInt_op1 (\<lambda>z. mpop (ii_gmp ie) z i') b s m;
           RETURN_INTINF ie r s1 m1 })
       | Some j' \<Rightarrow> keep m (RETURN_INT (s32 (smallop i' j')) s)))))"

definition IntInf_orb where "IntInf_orb = MKOP2_bits mpz_ior (OR)"
definition IntInf_xorb where "IntInf_xorb = MKOP2_bits mpz_xor (XOR)"
definition IntInf_andb where "IntInf_andb = MKOP2_bits mpz_and (AND)"

text \<open>
  Addition and subtraction. For a small left and a big right operand the operation is applied to the right one, with the left one as its
  argument: this is right for the addition only.
\<close>

definition MKOP2_sum ::
  "(gmp \<Rightarrow> addr \<Rightarrow> addr \<Rightarrow> sched \<Rightarrow> mpz_state \<Rightarrow> (addr \<times> sched \<times> mpz_state) option) \<Rightarrow> (gmp \<Rightarrow> addr \<Rightarrow> nat \<Rightarrow> sched \<Rightarrow> mpz_state \<Rightarrow> (addr \<times> sched \<times> mpz_state) option) \<Rightarrow>
   (gmp \<Rightarrow> addr \<Rightarrow> nat \<Rightarrow> sched \<Rightarrow> mpz_state \<Rightarrow> (addr \<times> sched \<times> mpz_state) option) \<Rightarrow> (int \<Rightarrow> int \<Rightarrow> int) \<Rightarrow> senv \<Rightarrow> intinf_env \<Rightarrow> mpz_prim" where
  "MKOP2_sum bigop bigop_ui inversebigop_ui smallop env ie = INTINF2 (\<lambda>self x0 x1 s m.
     TEST_INTINF env self x0 s m (\<lambda>i. TEST_INTINF env self x1 s m (\<lambda>j. case i of
       None \<Rightarrow> (case j of
         None \<Rightarrow> DECLARE_INTINF env self x0 s m (\<lambda>a. DECLARE_INTINF env self x1 s m (\<lambda>b. do {
           (r, s1, m1) \<leftarrow> bigop (ii_gmp ie) a b s m;
           RETURN_INTINF ie r s1 m1 }))
       | Some j' \<Rightarrow> DECLARE_INTINF env self x0 s m (\<lambda>a. do {
           (r, s1, m1) \<leftarrow> (if j' > 0 then bigop_ui (ii_gmp ie) a (as_u_int j') s m else inversebigop_ui (ii_gmp ie) a (as_u_int (s32 (- j'))) s m);
           RETURN_INTINF ie r s1 m1 }))
     | Some i' \<Rightarrow> (case j of
         None \<Rightarrow> DECLARE_INTINF env self x1 s m (\<lambda>b. do {
           (r, s1, m1) \<leftarrow> (if i' > 0 then bigop_ui (ii_gmp ie) b (as_u_int i') s m else inversebigop_ui (ii_gmp ie) b (as_u_int (s32 (- i'))) s m);
           RETURN_INTINF ie r s1 m1 })
       | Some j' \<Rightarrow> small_result ie (s32 (smallop i' j')) s m))))"

definition IntInf_opsub where "IntInf_opsub = MKOP2_sum BigInt_sub BigInt_sub_ui BigInt_add_ui (-)"
definition IntInf_opadd where "IntInf_opadd = MKOP2_sum BigInt_add BigInt_add_ui BigInt_sub_ui (+)"

text \<open>\<^verbatim>\<open>RETURN_INTINF\<close> evaluates its argument for the test and once more for the result: the product of two big integers is computed twice. (The
  block of the result is allocated before the second product, here after it; only the two addresses differ.)\<close>

definition IntInf_opmul :: "senv \<Rightarrow> intinf_env \<Rightarrow> mpz_prim" where
  "IntInf_opmul env ie = INTINF2 (\<lambda>self x0 x1 s m.
     TEST_INTINF env self x0 s m (\<lambda>i. TEST_INTINF env self x1 s m (\<lambda>j. case i of
       None \<Rightarrow> (case j of
         None \<Rightarrow> DECLARE_INTINF env self x0 s m (\<lambda>a. DECLARE_INTINF env self x1 s m (\<lambda>b. do {
           (r, s1, m1) \<leftarrow> BigInt_mul (ii_gmp ie) a b s m;
           z \<leftarrow> mz_values m1 r;
           (r2, s2, m2) \<leftarrow> BigInt_mul (ii_gmp ie) a b s1 m1;
           case BigInt_toInt (ii_gmp ie) z of
             Some k \<Rightarrow> do { m3 \<leftarrow> BigInt_destroy r2 m2; keep m3 (RETURN_INT k s2) }
           | None \<Rightarrow> RETURN_BIG ie r2 s2 m2 }))
       | Some j' \<Rightarrow> DECLARE_INTINF env self x0 s m (\<lambda>a. do {
           (r, s1, m1) \<leftarrow> BigInt_mul_si (ii_gmp ie) a j' s m;
           RETURN_INTINF ie r s1 m1 }))
     | Some i' \<Rightarrow> (case j of
         None \<Rightarrow> DECLARE_INTINF env self x1 s m (\<lambda>b. do {
           (r, s1, m1) \<leftarrow> BigInt_mul_si (ii_gmp ie) b i' s m;
           RETURN_INTINF ie r s1 m1 })
       | Some j' \<Rightarrow>
           if CheckProduct i' j' then (let (a, s1, m1) = BigInt_New i' s m in do {
             (r, s2, m2) \<leftarrow> BigInt_mul_si (ii_gmp ie) a j' s1 m1;
             RETURN_INTINF ie r s2 m2 })
           else keep m (RETURN_INT (s32 (i' * j')) s)))))"

definition IntInf_pow :: "senv \<Rightarrow> intinf_env \<Rightarrow> mpz_prim" where
  "IntInf_pow env ie = INTINF2 (\<lambda>self x0 x1 s m. TEST_INTINF env self x0 s m (\<lambda>base. do {
     e \<leftarrow> WordToInt (sc_trans s) x1;
     case e of
       None \<Rightarrow> keep m (prim_REQUEST env self x1 s)
     | Some exp \<Rightarrow>
         if exp = 0 then keep m (RETURN_INT 1 s)
         else if exp < 0 then
           (if base = Some 0 then keep m (prim_RAISE env self (ii_div ie) s)
            else if base = Some 1 then keep m (RETURN_INT 1 s)
            else if base = Some (-1) then keep m (RETURN_INT (if s32 (- exp) smod 2 \<noteq> 0 then -1 else 1) s)
            else keep m (RETURN_INT 0 s))
         else DECLARE_INTINF_PROMOTE env self x0 s m (\<lambda>a flag s1 m1. do {
           (r, s2, m2) \<leftarrow> BigInt_pow (ii_gmp ie) a (as_u_int exp) s1 m1;
           m3 \<leftarrow> DISCARD_PROMOTED a flag m2;
           RETURN_INTINF ie r s2 m3 }) }))"

definition MKOPDIV ::
  "(gmp \<Rightarrow> addr \<Rightarrow> addr \<Rightarrow> sched \<Rightarrow> mpz_state \<Rightarrow> (addr \<times> sched \<times> mpz_state) option) \<Rightarrow> senv \<Rightarrow> intinf_env \<Rightarrow> mpz_prim" where
  "MKOPDIV bigop env ie = INTINF2 (\<lambda>self x0 x1 s m.
     DECLARE_INTINF_PROMOTE env self x0 s m (\<lambda>a flagA s1 m1. DECLARE_INTINF_PROMOTE env self x1 s1 m1 (\<lambda>b flagB s2 m2. do {
       z \<leftarrow> mz_values m2 b;
       (if mpz_cmp_si (ii_gmp ie) z 0 = 0 then do {
          m3 \<leftarrow> DISCARD_PROMOTED a flagA m2;
          m4 \<leftarrow> DISCARD_PROMOTED b flagB m3;
          keep m4 (prim_RAISE env self (ii_div ie) s2) }
        else do {
          (r, s3, m3) \<leftarrow> bigop (ii_gmp ie) a b s2 m2;
          m4 \<leftarrow> DISCARD_PROMOTED a flagA m3;
          m5 \<leftarrow> DISCARD_PROMOTED b flagB m4;
          RETURN_INTINF ie r s3 m5 }) })))"

definition IntInf_div where "IntInf_div = MKOPDIV BigInt_div"
definition IntInf_mod where "IntInf_mod = MKOPDIV BigInt_mod"
definition IntInf_quot where "IntInf_quot = MKOPDIV BigInt_quot"
definition IntInf_rem where "IntInf_rem = MKOPDIV BigInt_rem"

definition MKOP2_rel :: "(int \<Rightarrow> int \<Rightarrow> bool) \<Rightarrow> (int \<Rightarrow> int \<Rightarrow> bool) \<Rightarrow> senv \<Rightarrow> intinf_env \<Rightarrow> mpz_prim" where
  "MKOP2_rel R converse_rel env ie = INTINF2 (\<lambda>self x0 x1 s m.
     TEST_INTINF env self x0 s m (\<lambda>i. TEST_INTINF env self x1 s m (\<lambda>j. case i of
       None \<Rightarrow> DECLARE_INTINF env self x0 s m (\<lambda>a. (case j of
         None \<Rightarrow> DECLARE_INTINF env self x1 s m (\<lambda>b. do { r \<leftarrow> BigInt_rel (ii_gmp ie) R a b m; keep m (RETURN_BOOL r s) })
       | Some j' \<Rightarrow> do { r \<leftarrow> BigInt_rel_si (ii_gmp ie) R a j' m; keep m (RETURN_BOOL r s) }))
     | Some i' \<Rightarrow> (case j of
         None \<Rightarrow> DECLARE_INTINF env self x1 s m (\<lambda>b. do { r \<leftarrow> BigInt_rel_si (ii_gmp ie) converse_rel b i' m; keep m (RETURN_BOOL r s) })
       | Some j' \<Rightarrow> keep m (RETURN_BOOL (R i' j') s)))))"

definition IntInf_opless where "IntInf_opless = MKOP2_rel (<) (>)"
definition IntInf_opgreater where "IntInf_opgreater = MKOP2_rel (>) (<)"
definition IntInf_oplessEq where "IntInf_oplessEq = MKOP2_rel (\<le>) (\<ge>)"
definition IntInf_opgreaterEq where "IntInf_opgreaterEq = MKOP2_rel (\<ge>) (\<le>)"

definition return_order :: "int \<Rightarrow> sched \<Rightarrow> (worker_result \<times> sched) option" where
  "return_order r s = (if r < 0 then RETURN_INT Types_LESS s else if r = 0 then RETURN_INT Types_EQUAL s else RETURN_INT Types_GREATER s)"

definition IntInf_compare :: "senv \<Rightarrow> intinf_env \<Rightarrow> mpz_prim" where
  "IntInf_compare env ie = INTINF2 (\<lambda>self x0 x1 s m.
     TEST_INTINF env self x0 s m (\<lambda>i. TEST_INTINF env self x1 s m (\<lambda>j. case i of
       None \<Rightarrow> DECLARE_INTINF env self x0 s m (\<lambda>a. (case j of
         None \<Rightarrow> DECLARE_INTINF env self x1 s m (\<lambda>b. do { r \<leftarrow> BigInt_compare (ii_gmp ie) a b m; keep m (return_order r s) })
       | Some j' \<Rightarrow> do { r \<leftarrow> BigInt_compare_si (ii_gmp ie) a j' m; keep m (return_order r s) }))
     | Some i' \<Rightarrow> (case j of
         None \<Rightarrow> DECLARE_INTINF env self x1 s m (\<lambda>b. do { r \<leftarrow> BigInt_compare_si (ii_gmp ie) b i' m; keep m (return_order (- 1 * r) s) })
       | Some j' \<Rightarrow> keep m (if i' = j' then RETURN_INT Types_EQUAL s else if i' < j' then RETURN_INT Types_LESS s else RETURN_INT Types_GREATER s)))))"

definition MKOP_both :: "(gmp \<Rightarrow> int \<Rightarrow> int \<Rightarrow> int) \<Rightarrow> (gmp \<Rightarrow> int \<Rightarrow> int \<Rightarrow> int) \<Rightarrow> senv \<Rightarrow> intinf_env \<Rightarrow> mpz_prim" where
  "MKOP_both qop rop env ie = INTINF2 (\<lambda>self x0 x1 s m.
     DECLARE_INTINF_PROMOTE env self x0 s m (\<lambda>a flagA s1 m1. DECLARE_INTINF_PROMOTE env self x1 s1 m1 (\<lambda>b flagB s2 m2. do {
       z \<leftarrow> mz_values m2 b;
       (if mpz_cmp_si (ii_gmp ie) z 0 = 0 then do {
          m3 \<leftarrow> DISCARD_PROMOTED a flagA m2;
          m4 \<leftarrow> DISCARD_PROMOTED b flagB m3;
          keep m4 (prim_RAISE env self (ii_div ie) s2) }
        else do {
          (d, s3, m3) \<leftarrow> BigInt_op2 (qop (ii_gmp ie)) a b s2 m2;
          (r, s4, m4) \<leftarrow> BigInt_op2 (rop (ii_gmp ie)) a b s3 m3;
          m5 \<leftarrow> DISCARD_PROMOTED a flagA m4;
          m6 \<leftarrow> DISCARD_PROMOTED b flagB m5;
          RETURN_INTINF2 ie d r s4 m6 }) })))"

definition IntInf_divMod where "IntInf_divMod = MKOP_both mpz_fdiv_q mpz_fdiv_r"
definition IntInf_quotRem where "IntInf_quotRem = MKOP_both mpz_tdiv_q mpz_tdiv_r"

definition IntInf_log2 :: "senv \<Rightarrow> intinf_env \<Rightarrow> mpz_prim" where
  "IntInf_log2 env ie = INTINF1 (\<lambda>self x0 s m. DECLARE_INTINF_PROMOTE env self x0 s m (\<lambda>i flag s1 m1. do {
     r \<leftarrow> BigInt_compare_si (ii_gmp ie) i 0 m1;
     (if r \<le> 0 then do { m2 \<leftarrow> DISCARD_PROMOTED i flag m1; keep m2 (prim_RAISE env self (ii_domain ie) s1) }
      else do {
        l \<leftarrow> BigInt_log2 (ii_gmp ie) i m1;
        m2 \<leftarrow> DISCARD_PROMOTED i flag m1;
        (if int l > MAX_VALID_INT then keep m2 (prim_RAISE env self (ii_overflow ie) s1)
         else keep m2 (RETURN_INT (int l) s1)) }) }))"

text \<open>The shifts convert the number of bits to an \<^verbatim>\<open>unsigned long\<close>, a negative one as well.\<close>

definition MKSHIFT :: "(gmp \<Rightarrow> addr \<Rightarrow> nat \<Rightarrow> sched \<Rightarrow> mpz_state \<Rightarrow> (addr \<times> sched \<times> mpz_state) option) \<Rightarrow> senv \<Rightarrow> intinf_env \<Rightarrow> mpz_prim" where
  "MKSHIFT bigop env ie = INTINF2 (\<lambda>self x0 x1 s m. DECLARE_INTINF_PROMOTE env self x0 s m (\<lambda>a flagA s1 m1. do {
     b \<leftarrow> WordToInt (sc_trans s1) x1;
     case b of
       None \<Rightarrow> keep m1 (prim_REQUEST env self x1 s1)
     | Some n \<Rightarrow> do {
         (r, s2, m2) \<leftarrow> bigop (ii_gmp ie) a (as_u_int n) s1 m1;
         m3 \<leftarrow> DISCARD_PROMOTED a flagA m2;
         RETURN_INTINF ie r s2 m3 } }))"

definition IntInf_shiftl where "IntInf_shiftl = MKSHIFT BigInt_shiftl"
definition IntInf_shiftr where "IntInf_shiftr = MKSHIFT BigInt_shiftr"

section \<open>Pickling and finalization\<close>

definition bigInteger_name :: "8 word list" where
  "bigInteger_name = map of_char ''Alice.bigInteger''"

text \<open>The transform for a number: its name and a chunk with a byte for the sign and the bytes of the absolute value.\<close>

definition GetAbstractRepresentation :: "gmp \<Rightarrow> store_word list \<Rightarrow> sched \<Rightarrow> mpz_state \<Rightarrow> (addr \<times> sched) option" where
  "GetAbstractRepresentation G cr s m = do {
     w \<leftarrow> ConcreteRepresentation_Get cr 0;
     b \<leftarrow> BigInt_FromWordDirect s w;
     z \<leftarrow> mz_values m b;
     (c, s1) \<leftarrow> (if mpz_sgn G z = 0 then Some (new_chunk [0] s)
       else let count = (mpz_sizeinbase2 G z + 31) div 32; bs = mpz_export G z in do {
         Assert (length bs \<le> count * 4);
         Some (new_chunk ((if mpz_sgn G z < 0 then 2 else 1) # bs @ replicate (count * 4 - length bs) fresh_byte) s) });
     let (t, s2) = new_chunk bigInteger_name s1 in Some (Transform_New (BlkW t) (BlkW c) s2) }"

text \<open>Unpickling. \<^verbatim>\<open>mpz_import\<close> is given the number of bytes as the number of words, each of which has four bytes.\<close>

definition BigIntegerHandler :: "intinf_env \<Rightarrow> store_word \<Rightarrow> sched \<Rightarrow> mpz_state \<Rightarrow> (store_word \<times> sched \<times> mpz_state) option" where
  "BigIntegerHandler ie x s m = do {
     c \<leftarrow> DirectWordToBlock x;
     bytes \<leftarrow> sc_chunks s c;
     Assert (bytes \<noteq> []);
     if hd bytes = 0 then Some (IntW 0, s, m)
     else let count = length bytes - 1; base = drop 1 bytes in do {
       Assert (count * 4 \<le> length base);
       let z = mpz_import (ii_gmp ie) (take (count * 4) base);
           (b, s1, m1) = BigInt_New (if hd bytes = 2 then mpz_neg (ii_gmp ie) z else z) s m in
       intinf_word ie b s1 m1 } }"

definition GMP_Finalize :: "store_word \<Rightarrow> sched \<Rightarrow> mpz_state \<Rightarrow> mpz_state option" where
  "GMP_Finalize x s m = do {
     cr \<leftarrow> ConcreteRepresentation_FromWordDirect s x;
     ptr \<leftarrow> ConcreteRepresentation_Get cr 0;
     b \<leftarrow> BigInt_FromWordDirect s ptr;
     BigInt_destroy b m }"

end
