(* ===== verification/Int_Inf_Props.thy ===== *)
theory Int_Inf_Props
  imports Int_Inf
begin

text \<open>The primitives on integers of arbitrary size compute the results of the integers, in the representation that fits, and clear the numbers that they do not return.\<close>

section \<open>What the library promises\<close>

definition gmp_spec :: "gmp \<Rightarrow> bool" where
  "gmp_spec G \<longleftrightarrow> (\<forall>y z n. mpz_neg G y = - y \<and> mpz_abs G y = \<bar>y\<bar> \<and> mpz_com G y = - y - 1 \<and>
     mpz_add G y z = y + z \<and> mpz_add_ui G y n = y + int n \<and> mpz_sub G y z = y - z \<and> mpz_sub_ui G y n = y - int n \<and>
     mpz_mul G y z = y * z \<and> mpz_mul_si G y z = y * z \<and>
     (z \<noteq> 0 \<longrightarrow> mpz_fdiv_q G y z = y div z \<and> mpz_fdiv_r G y z = y mod z \<and> mpz_tdiv_q G y z = y sdiv z \<and> mpz_tdiv_r G y z = y smod z) \<and>
     mpz_ior G y z = y OR z \<and> mpz_xor G y z = y XOR z \<and> mpz_and G y z = y AND z \<and>
     mpz_pow_ui G y n = y ^ n \<and> (0 < y \<longrightarrow> 0 < mpz_sizeinbase2 G y \<and> 2 ^ (mpz_sizeinbase2 G y - 1) \<le> y \<and> y < 2 ^ mpz_sizeinbase2 G y) \<and>
     mpz_fdiv_q_2exp G y n = y div 2 ^ n \<and> mpz_mul_2exp G y n = y * 2 ^ n \<and>
     sgn (mpz_cmp G y z) = sgn (y - z) \<and> sgn (mpz_cmp_si G y z) = sgn (y - z) \<and>
     (mpz_fits_slong_p G y \<longleftrightarrow> -2147483648 \<le> y \<and> y < 2147483648) \<and> (mpz_fits_slong_p G y \<longrightarrow> mpz_get_si G y = y) \<and>
     mpz_sgn G y = sgn y)"

lemma toInt_spec: "gmp_spec G \<Longrightarrow> BigInt_toInt G z = (if valid_int z then Some z else None)"
proof -
  assume "gmp_spec G"
  then have "mpz_fits_slong_p G z \<longleftrightarrow> -2147483648 \<le> z \<and> z < 2147483648" "mpz_fits_slong_p G z \<Longrightarrow> mpz_get_si G z = z" by (simp_all add: gmp_spec_def)
  then show ?thesis by (auto simp: BigInt_toInt_def valid_int_iff)
qed

section \<open>Words for integers\<close>

definition big_word :: "intinf_env \<Rightarrow> sched \<Rightarrow> mpz_state \<Rightarrow> store_word \<Rightarrow> addr \<Rightarrow> int \<Rightarrow> bool" where
  "big_word ie s m w c z \<longleftrightarrow> (\<exists>a bs. WordToBlock (sc_trans s) w = Some (Some a) \<and> a < sc_next s \<and> sc_blocks s a = Some (CONCRETE_LABEL, [ii_handler ie, BlkW c]) \<and>
     c < sc_next s \<and> sc_chunks s c = Some bs \<and> length bs = BigInt_SIZE \<and> mz_values m c = Some z \<and> \<not> valid_int z)"

definition int_word :: "intinf_env \<Rightarrow> sched \<Rightarrow> mpz_state \<Rightarrow> store_word \<Rightarrow> int \<Rightarrow> bool" where
  "int_word ie s m w z \<longleftrightarrow> WordToInt (sc_trans s) w = Some (Some z) \<and> valid_int z \<or> (\<exists>c. big_word ie s m w c z)"

lemma big_word_step:
  "big_word ie s m w c z \<Longrightarrow> heap_step {} s s' \<Longrightarrow> \<forall>c < sc_next s. mz_values m' c = mz_values m c \<Longrightarrow> big_word ie s' m' w c z"
  by (auto simp: big_word_def heap_step_def same_sched_def)

lemma int_word_step:
  "int_word ie s m w z \<Longrightarrow> heap_step {} s s' \<Longrightarrow> \<forall>c < sc_next s. mz_values m' c = mz_values m c \<Longrightarrow> int_word ie s' m' w z"
  using big_word_step [of ie s m w _ z s' m'] heap_step_trans_eq(1) [of "{}" s s'] by (auto simp: int_word_def)

text \<open>The steps of a primitive: objects and numbers that were there are kept, and \<open>L\<close> are the new numbers that are alive.\<close>

definition istep :: "sched \<Rightarrow> mpz_state \<Rightarrow> sched \<Rightarrow> mpz_state \<Rightarrow> addr set \<Rightarrow> bool" where
  "istep s m s1 m1 L \<longleftrightarrow> seq_step {} s s1 \<and> (\<forall>c < sc_next s. mz_values m1 c = mz_values m c) \<and> {c. sc_next s \<le> c \<and> mz_values m1 c \<noteq> None} = L \<and>
     (\<forall>c \<in> L. c < sc_next s1 \<and> sc_chunks s1 c = Some (replicate BigInt_SIZE fresh_byte))"

definition mpz_ok :: "sched \<Rightarrow> mpz_state \<Rightarrow> bool" where
  "mpz_ok s m \<longleftrightarrow> (\<forall>c \<ge> sc_next s. mz_values m c = None)"

lemma istep_refl: "mpz_ok s m \<Longrightarrow> istep s m s m {}"
  by (auto simp: istep_def mpz_ok_def)

lemma istep_mem: "istep s m s1 m1 L \<Longrightarrow> c \<in> L \<longleftrightarrow> sc_next s \<le> c \<and> (\<exists>z. mz_values m1 c = Some z)"
  by (auto simp: istep_def)

lemma istep_finite: "istep s m s1 m1 L \<Longrightarrow> finite L"
  by (rule finite_subset [of _ "{..<sc_next s1}"]) (auto simp: istep_def)

lemma istep_chunks: "istep s m s1 m1 L \<Longrightarrow> c \<in> L \<Longrightarrow> c < sc_next s1 \<and> sc_chunks s1 c = Some (replicate BigInt_SIZE fresh_byte)"
  by (auto simp: istep_def)

lemma istep_new:
  assumes "istep s m s1 m1 L"
  shows "\<exists>s2 m2. BigInt_New z s1 m1 = (sc_next s1, s2, m2) \<and> istep s m s2 m2 (insert (sc_next s1) L) \<and> mz_values m2 = (mz_values m1)(sc_next s1 \<mapsto> z) \<and>
    sc_next s1 \<notin> L \<and> sc_next s \<le> sc_next s1 \<and> mz_registered m2 = mz_registered m1"
proof -
  let ?c = "sc_next s1"
  let ?s = "snd (new_chunk (replicate BigInt_SIZE fresh_byte) s1)" and ?m = "m1\<lparr>mz_values := (mz_values m1)(?c \<mapsto> z)\<rparr>"
  have n: "sc_next s \<le> ?c" using assms by (auto simp: istep_def seq_step_def heap_step_def same_sched_def)
  have "seq_step {} s ?s" using seq_step_trans [of "{}" s s1 "{}" ?s "{}"] assms new_block_step(2) by (simp add: istep_def)
  moreover have "{c. sc_next s \<le> c \<and> mz_values ?m c \<noteq> None} = insert ?c L" using assms n by (auto simp: istep_def)
  moreover have "\<forall>c \<in> insert ?c L. c < sc_next ?s \<and> sc_chunks ?s c = Some (replicate BigInt_SIZE fresh_byte)"
    using istep_chunks [OF assms] by (auto simp: new_chunk_def less_SucI)
  ultimately have "istep s m ?s ?m (insert ?c L)" using assms n by (simp add: istep_def)
  then show ?thesis using n assms by (auto simp: BigInt_New_def new_chunk_def istep_def)
qed

lemma istep_destroy:
  assumes "istep s m s1 m1 L" and "c \<in> L"
  shows "\<exists>m2. BigInt_destroy c m1 = Some m2 \<and> istep s m s1 m2 (L - {c}) \<and> mz_values m2 = (mz_values m1)(c := None)"
proof -
  obtain z where "mz_values m1 c = Some z" "sc_next s \<le> c" using assms istep_mem by blast
  then show ?thesis using assms by (auto simp: BigInt_destroy_def istep_def)
qed

lemma istep_op1: 
  assumes "istep s m s1 m1 L" and "mz_values m1 a = Some y"
  shows "\<exists>s2 m2. BigInt_op1 f a s1 m1 = Some (sc_next s1, s2, m2) \<and> istep s m s2 m2 (insert (sc_next s1) L) \<and> mz_values m2 = (mz_values m1)(sc_next s1 \<mapsto> f y) \<and> sc_next s1 \<notin> L"
  using istep_new [OF assms(1), of "f y"] assms(2) by (auto simp: BigInt_op1_def)

lemma istep_op2: 
  assumes "istep s m s1 m1 L" and "mz_values m1 a = Some y" and "mz_values m1 b = Some z"
  shows "\<exists>s2 m2. BigInt_op2 f a b s1 m1 = Some (sc_next s1, s2, m2) \<and> istep s m s2 m2 (insert (sc_next s1) L) \<and> mz_values m2 = (mz_values m1)(sc_next s1 \<mapsto> f y z) \<and> sc_next s1 \<notin> L"
  using istep_new [OF assms(1), of "f y z"] assms(2,3) by (auto simp: BigInt_op2_def)

section \<open>Results\<close>

text \<open>A primitive returns the integer \<open>z\<close>; \<open>n\<close> numbers are left behind beside the result.\<close>

definition igives :: "intinf_env \<Rightarrow> sched \<Rightarrow> mpz_state \<Rightarrow> mpz_result \<Rightarrow> int \<Rightarrow> nat \<Rightarrow> bool" where
  "igives ie s m r z n \<longleftrightarrow> (\<exists>s' m'. r = Some (CONTINUE, s', m') \<and> extends s s' \<and> sc_nArgs s' = 1 \<and> int_word ie s' m' (sc_args s' ! 0) z \<and>
     sc_top s' = sc_top s - 1 \<and> sc_stack s' = sc_stack s \<and> (\<forall>c < sc_next s. mz_values m' c = mz_values m c) \<and>
     card {c. sc_next s \<le> c \<and> mz_values m' c \<noteq> None} = n + (if valid_int z then 0 else 1))"

definition iraises :: "sched \<Rightarrow> mpz_state \<Rightarrow> mpz_result \<Rightarrow> store_word \<Rightarrow> bool" where
  "iraises s m r e \<longleftrightarrow> (\<exists>s' m'. r = Some (RAISE, s', m') \<and> extends s s' \<and> sc_data s' = e \<and> sc_top s' = sc_top s \<and> sc_stack s' = sc_stack s \<and>
     (\<forall>c < sc_next s. mz_values m' c = mz_values m c) \<and> {c. sc_next s \<le> c \<and> mz_values m' c \<noteq> None} = {})"

lemma returned:
  assumes "prim_call s self xs" and "istep (popped s) m s1 m1 L" and "int_word ie s1 m1 w z" and "card L = n + (if valid_int z then 0 else 1)"
  shows "igives ie s m (keep m1 (RETURN1 w s1)) z n"
proof -
  let ?s = "s1\<lparr>sc_nArgs := 1, sc_args := (sc_args s1)[0 := w]\<rparr>"
  have st: "seq_step {} (popped s) s1" "\<forall>c < sc_next s. mz_values m1 c = mz_values m c" "{c. sc_next s \<le> c \<and> mz_values m1 c \<noteq> None} = L"
    using assms(2) by (auto simp: istep_def)
  have a: "length (sc_args s1) = 16" "sc_top s1 = sc_top s - 1" "sc_stack s1 = sc_stack s"
    using assms(1) st(1) by (auto simp: seq_step_def popped_def prim_call_def maxArgs_def)
  have k: "heap_step {} s1 ?s" by (simp add: heap_step_extends)
  have "heap_step {} s s1" by (rule heap_step_trans [of "{}" s "popped s" "{}"]) (use st(1) in auto)
  then have "extends s ?s" using heap_step_trans [OF _ k, of "{}" s "{}"] by (simp add: heap_step_extends)
  moreover have "int_word ie ?s m1 w z" using int_word_step [OF assms(3) k] by simp
  moreover have "RETURN1 w s1 = Some (CONTINUE, ?s)" using a by (simp add: RETURN1_def SetNArgs_def SetCurrentArg_def maxArgs_def run_simps)
  ultimately show ?thesis using a st assms(4) by (simp add: igives_def keep_def)
qed

lemma returned_small:
  assumes "prim_call s self xs" and "istep (popped s) m s1 m1 L" and "valid_int z" and "card L = n"
  shows "igives ie s m (keep m1 (RETURN_INT z s1)) z n"
  using returned [OF assms(1,2), of ie "IntW z" z n] assms(3,4) by (simp add: RETURN_INT_def run_simps int_word_def WordToInt_def)

lemma MK_INTINF_word:
  assumes "istep s m s1 m1 L" and "c \<in> L" and "mz_values m1 c = Some z" and "\<not> valid_int z"
  shows "\<exists>w s2 m2. MK_INTINF ie c s1 m1 = (w, s2, m2) \<and> istep s m s2 m2 L \<and> big_word ie s2 m2 w c z \<and> mz_values m2 = mz_values m1 \<and> w \<in> set (mz_registered m2)"
proof -
  let ?b = "(CONCRETE_LABEL, [ii_handler ie, BlkW c])" and ?a = "sc_next s1"
  let ?s = "snd (new_block (fst ?b) (snd ?b) s1)" and ?m = "m1\<lparr>mz_registered := BlkW ?a # mz_registered m1\<rparr>"
  have c: "c < sc_next s1" "sc_chunks s1 c = Some (replicate BigInt_SIZE fresh_byte)" using assms(1,2) by (auto simp: istep_def)
  have "seq_step {} s ?s" using seq_step_trans [of "{}" s s1 "{}" ?s "{}"] assms(1) new_block_step(1) by (simp add: istep_def)
  moreover have "\<forall>d \<in> L. d < sc_next ?s \<and> sc_chunks ?s d = Some (replicate BigInt_SIZE fresh_byte)"
    using istep_chunks [OF assms(1)] by (auto simp: new_block_def less_SucI)
  ultimately have "istep s m ?s ?m L" using assms(1) by (simp add: istep_def)
  moreover have "big_word ie ?s ?m (BlkW ?a) c z" using c assms(3,4) by (simp add: big_word_def new_block_def WordToBlock_def)
  moreover have "MK_INTINF ie c s1 m1 = (BlkW ?a, ?s, ?m)" by (simp add: MK_INTINF_def ConcreteRepresentation_New_def new_block_def)
  ultimately show ?thesis by auto
qed

lemma returned_big:
  assumes "prim_call s self xs" and "istep (popped s) m s1 m1 L" and "c \<in> L" and "mz_values m1 c = Some z" and "\<not> valid_int z" and "card L = n + 1"
  shows "igives ie s m (RETURN_BIG ie c s1 m1) z n"
proof -
  obtain w s2 m2 where w: "MK_INTINF ie c s1 m1 = (w, s2, m2)" "istep (popped s) m s2 m2 L" "int_word ie s2 m2 w z" using MK_INTINF_word [OF assms(2-5), of ie] unfolding int_word_def by blast
  then show ?thesis using returned [OF assms(1) w(2,3)] assms(5,6) by (simp add: RETURN_BIG_def)
qed

lemma returned_intinf:
  assumes "gmp_spec (ii_gmp ie)" and "prim_call s self xs" and "istep (popped s) m s1 m1 L" and "c \<in> L" and "mz_values m1 c = Some z" and "card L = n + 1"
  shows "igives ie s m (RETURN_INTINF ie c s1 m1) z n"
proof (cases "valid_int z")
  case True
  obtain m2 where m2: "BigInt_destroy c m1 = Some m2" "istep (popped s) m s1 m2 (L - {c})" using istep_destroy [OF assms(3,4)] by blast
  have "card (L - {c}) = n" using assms(4,6) istep_finite [OF assms(3)] by simp
  then show ?thesis using True m2(1) returned_small [OF assms(2) m2(2) True, of n ie] assms(5) by (simp add: RETURN_INTINF_def toInt_spec [OF assms(1)])
next
  case False
  then show ?thesis using returned_big [OF assms(2-5) _ assms(6)] assms(5) by (simp add: RETURN_INTINF_def toInt_spec [OF assms(1)])
qed

lemma small_returned:
  assumes "prim_call s self xs" and "mpz_ok s m"
  shows "igives ie s m (small_result ie z (popped s) m) z 0"
proof (cases "valid_int z")
  case True
  have "istep (popped s) m (popped s) m {}" using istep_refl [of "popped s" m] assms(2) by (simp add: mpz_ok_def)
  then show ?thesis using True returned_small [OF assms(1) _ True, of m "popped s" m "{}" 0 ie] by (simp add: small_result_def valid_int_def)
next
  case False
  have "istep (popped s) m (popped s) m {}" using istep_refl [of "popped s" m] assms(2) by (simp add: mpz_ok_def)
  then obtain s2 m2 where n: "BigInt_New z (popped s) m = (sc_next (popped s), s2, m2)" "istep (popped s) m s2 m2 {sc_next (popped s)}"
      "mz_values m2 = (mz_values m)(sc_next (popped s) \<mapsto> z)" using istep_new [of "popped s" m "popped s" m "{}" z] by auto
  then have "igives ie s m (RETURN_BIG ie (sc_next (popped s)) s2 m2) z 0" using returned_big [OF assms(1) n(2) _ _ False] by simp
  then show ?thesis using n(1) False by (auto simp: small_result_def valid_int_def)
qed

text \<open>Raising after objects have been allocated.\<close>

lemma raised:
  assumes "prim_call s self xs" and "istep (popped s) m s1 m1 {}"
  shows "iraises s m (keep m1 (prim_RAISE env self e s1)) e"
proof -
  have st: "heap_step {} (popped s) s1" "sc_top s1 = sc_top s - 1" "sc_stack s1 = sc_stack s" using assms(2) by (auto simp: istep_def seq_step_def popped_def)
  have "Scheduler_PushFrame j e 1 (sc_top s - 1) (sc_stack s) = Some (sc_top s, Enlarged (sc_stack s))" for j e
    using assms(1) by (subst Scheduler_PushFrame.simps) (auto simp: prim_call_def)
  moreover have "Frame_New (sc_top s) self (sc_stack s) = Some (sc_stack s)"
    using assms(1) by (auto simp: prim_call_def Frame_New_def run_simps)
  ultimately have f: "new_frame env self [] s1 = Some (Some (s1\<lparr>sc_stack := sc_stack s, sc_top := sc_top s\<rparr>))"
    using st(2,3) by (simp add: new_frame_def Sched_PushFrame_def)
  obtain q where "Queue_New (ev_junk env) initialBacktraceSize = Some q"
    using Queue_New_spec [of initialBacktraceSize "ev_junk env"] by (auto simp: initialBacktraceSize_def)
  then obtain s2 where s2: "prim_RAISE env self e s1 = Some (RAISE, s2)" "extends s1 s2" "sc_data s2 = e" "sc_top s2 = sc_top s" "sc_stack s2 = sc_stack s"
    using f by (auto simp: prim_RAISE_def Backtrace_New_def extends_def same_sched_def tview_def fun_eq_iff)
  have "heap_step {} s s1" by (rule heap_step_trans [of "{}" s "popped s" "{}"]) (use st(1) in auto)
  then have "extends s s2" using heap_step_trans [of "{}" s s1 "{}" s2 "{}"] s2(2) by (simp add: heap_step_extends)
  then show ?thesis using s2 assms(2) by (simp add: iraises_def keep_def istep_def)
qed

section \<open>Operands\<close>

lemma INTINF1_run: "prim_call s self [x] \<Longrightarrow> INTINF1 body s m = body self x (popped s) m"
  using prim_call_pop(1) [of s self "[x]" 1] prim_call_pop(2) [of s self "[x]" 1 0] by (simp add: INTINF1_def popped_def)

lemma INTINF2_run: "prim_call s self [x, y] \<Longrightarrow> INTINF2 body s m = body self x y (popped s) m"
  using prim_call_pop(1) [of s self "[x, y]" 2] prim_call_pop(2) [of s self "[x, y]" 2 0] prim_call_pop(2) [of s self "[x, y]" 2 1]
  by (simp add: INTINF2_def popped_def)

lemma no_transient_word:
  "WordToInt T x = Some (Some z) \<Longrightarrow> WordToTransient T x = Some None" "WordToBlock T x = Some (Some a) \<Longrightarrow> WordToTransient T x = Some None \<and> WordToInt T x = Some None"
  by (auto simp: WordToInt_def WordToBlock_def WordToTransient_def run_elims split: store_word.splits)

lemma test_small: "WordToInt (sc_trans s) x = Some (Some z) \<Longrightarrow> TEST_INTINF env self x s m k = k (Some z)"
  by (simp add: TEST_INTINF_def no_transient_word)

lemma test_big:
  assumes "big_word ie s m x c z"
  shows "TEST_INTINF env self x s m' k = k None" "DECLARE_INTINF env self x s m' h = h c" "big_number s x = Some c" "mz_values m c = Some z"
proof -
  obtain a bs where a: "WordToBlock (sc_trans s) x = Some (Some a)" "sc_blocks s a = Some (CONCRETE_LABEL, [ii_handler ie, BlkW c])" "sc_chunks s c = Some bs"
      "length bs = BigInt_SIZE" "mz_values m c = Some z" using assms by (auto simp: big_word_def)
  show n: "big_number s x = Some c" using a
    by (simp add: big_number_def ConcreteRepresentation_FromWord_def FromWord_def ConcreteRepresentation_Get_def BigInt_FromWordDirect_def DirectWordToBlock_def run_simps)
  show "TEST_INTINF env self x s m' k = k None" "DECLARE_INTINF env self x s m' h = h c" "mz_values m c = Some z"
    using no_transient_word(2) [OF a(1)] n a(5) by (simp_all add: TEST_INTINF_def DECLARE_INTINF_def)
qed

lemma word_cases:
  assumes "int_word ie s m x z"
  obtains (small) "WordToInt (sc_trans (popped s)) x = Some (Some z)" "valid_int z" | (big) c where "big_word ie (popped s) m x c z" "\<not> valid_int z"
  using assms by (auto simp: int_word_def big_word_def)

lemma start: "mpz_ok s m \<Longrightarrow> istep (popped s) m (popped s) m {}"
  using istep_refl [of "popped s" m] by (simp add: mpz_ok_def)

text \<open>A promoted operand: a new number for a small integer, which is to be discarded.\<close>

lemma promote:
  assumes "istep (popped s) m s1 m1 L" and "int_word ie s m x z"
  obtains c flag s2 m2 where "\<And>k. DECLARE_INTINF_PROMOTE env self x s1 m1 k = k c flag s2 m2" and "istep (popped s) m s2 m2 (if flag then insert c L else L)"
    and "mz_values m2 c = Some z" and "flag \<Longrightarrow> c \<notin> L" and "\<not> flag \<Longrightarrow> c < sc_next s" and "\<And>d y. mz_values m1 d = Some y \<Longrightarrow> mz_values m2 d = Some y \<and> (flag \<longrightarrow> d \<noteq> c)"
    and "sc_trans s2 = sc_trans s"
proof -
  have st: "heap_step {} (popped s) s1" "\<forall>c < sc_next s. mz_values m1 c = mz_values m c" using assms(1) by (auto simp: istep_def)
  have t: "sc_trans s1 = sc_trans s" using heap_step_trans_eq(1) [OF st(1)] by simp
  from assms(2) show ?thesis
  proof (cases rule: word_cases)
    case small
    obtain s2 m2 where n: "BigInt_New z s1 m1 = (sc_next s1, s2, m2)" "istep (popped s) m s2 m2 (insert (sc_next s1) L)"
        "mz_values m2 = (mz_values m1)(sc_next s1 \<mapsto> z)" "sc_next s1 \<notin> L" "sc_next (popped s) \<le> sc_next s1" using istep_new [OF assms(1), of z] by blast
    have "DECLARE_INTINF_PROMOTE env self x s1 m1 k = k (sc_next s1) True s2 m2" for k
      using test_small [of s1 x z] small(1) t n(1) by (simp add: DECLARE_INTINF_PROMOTE_def)
    moreover have "d \<noteq> sc_next s1" if "mz_values m1 d = Some y" for d y using that n(4,5) istep_mem [OF assms(1), of d] by auto
    moreover have "sc_trans s2 = sc_trans s" using n(2) by (auto simp: istep_def seq_step_def heap_step_def same_sched_def)
    ultimately show ?thesis using that [of "sc_next s1" True s2 m2] n by simp
  next
    case (big c)
    have b: "big_word ie s1 m1 x c z" using big_word_step [OF big(1) st(1)] st(2) by simp
    have "DECLARE_INTINF_PROMOTE env self x s1 m1 k = k c False s1 m1" for k using test_big(1,3) [OF b] by (simp add: DECLARE_INTINF_PROMOTE_def)
    moreover have "c < sc_next s" using big(1) by (auto simp: big_word_def)
    ultimately show ?thesis using that [of c False s1 m1] assms(1) test_big(4) [OF b] t by simp
  qed
qed

lemma discard:
  assumes "istep s m s1 m1 L" and "flag \<Longrightarrow> c \<in> L"
  obtains m2 where "DISCARD_PROMOTED c flag m1 = Some m2" and "istep s m s1 m2 (if flag then L - {c} else L)"
    and "mz_values m2 = (if flag then (mz_values m1)(c := None) else mz_values m1)"
  using istep_destroy [OF assms(1)] assms by (cases flag) (auto simp: DISCARD_PROMOTED_def)

section \<open>The operations\<close>

lemma MKOP1_spec:
  assumes "gmp_spec (ii_gmp ie)" and "prim_call s self [x]" and "mpz_ok s m" and "int_word ie s m x z"
    and "bigop (ii_gmp ie) = BigInt_op1 f" and "f z = R" and "valid_int z \<Longrightarrow> s32 (smallop z) = R"
  shows "igives ie s m (MKOP1 bigop smallop env ie s m) R 0"
  using assms(4)
proof (cases rule: word_cases)
  case small
  then show ?thesis using small_returned [OF assms(2,3), of ie R] assms(2,7) by (simp add: MKOP1_def INTINF1_run test_small)
next
  case (big c)
  obtain s2 m2 where r: "BigInt_op1 f c (popped s) m = Some (sc_next (popped s), s2, m2)" "istep (popped s) m s2 m2 {sc_next (popped s)}"
      "mz_values m2 = (mz_values m)(sc_next (popped s) \<mapsto> R)" using istep_op1 [OF start [OF assms(3)] test_big(4) [OF big(1)], of f] assms(6) by auto
  then show ?thesis using returned_intinf [OF assms(1,2) r(2)] assms(2,5) test_big(1,2) [OF big(1)] by (simp add: MKOP1_def INTINF1_run)
qed

text \<open>A big operand and an argument that is no number of the library.\<close>

lemma one_big:
  assumes "gmp_spec (ii_gmp ie)" and "prim_call s self xs" and "mpz_ok s m" and "big_word ie (popped s) m x c z" and "op = BigInt_op1 f" and "f z = R"
  shows "igives ie s m (do { (r, s1, m1) \<leftarrow> op c (popped s) m; RETURN_INTINF ie r s1 m1 }) R 0"
proof -
  obtain s2 m2 where r: "op c (popped s) m = Some (sc_next (popped s), s2, m2)" "istep (popped s) m s2 m2 {sc_next (popped s)}"
      "mz_values m2 = (mz_values m)(sc_next (popped s) \<mapsto> R)" using istep_op1 [OF start [OF assms(3)] test_big(4) [OF assms(4)], of f] assms(5,6) by auto
  then show ?thesis using returned_intinf [OF assms(1,2) r(2)] by simp
qed

lemma two_big:
  assumes "gmp_spec (ii_gmp ie)" and "prim_call s self xs" and "mpz_ok s m" and "big_word ie (popped s) m x a y" and "big_word ie (popped s) m x' b z"
  shows "igives ie s m (do { (r, s1, m1) \<leftarrow> BigInt_op2 f a b (popped s) m; RETURN_INTINF ie r s1 m1 }) (f y z) 0"
proof -
  obtain s2 m2 where r: "BigInt_op2 f a b (popped s) m = Some (sc_next (popped s), s2, m2)" "istep (popped s) m s2 m2 {sc_next (popped s)}"
      "mz_values m2 = (mz_values m)(sc_next (popped s) \<mapsto> f y z)" using istep_op2 [OF start [OF assms(3)] test_big(4) [OF assms(4)] test_big(4) [OF assms(5)], of f] by auto
  then show ?thesis using returned_intinf [OF assms(1,2) r(2)] by simp
qed

lemma MKOP2_bits_spec:
  assumes "gmp_spec (ii_gmp ie)" and "prim_call s self [x, x']" and "mpz_ok s m" and "int_word ie s m x y" and "int_word ie s m x' z"
    and "mpop (ii_gmp ie) = f" and "f z y = f y z" and "valid_int y \<Longrightarrow> valid_int z \<Longrightarrow> s32 (smallop y z) = f y z \<and> valid_int (f y z)"
  shows "igives ie s m (MKOP2_bits mpop smallop env ie s m) (f y z) 0"
  using assms(4)
proof (cases rule: word_cases)
  case small: small
  from assms(5) show ?thesis
  proof (cases rule: word_cases)
    case small': small
    then show ?thesis using small assms(6,8) returned_small [OF assms(2) start [OF assms(3)], of "f y z" 0 ie] assms(2)
      by (simp add: MKOP2_bits_def INTINF2_run test_small)
  next
    case (big c)
    then show ?thesis using small one_big [OF assms(1-3) big(1), of _ "\<lambda>u. f u y"] assms(2,6,7) by (simp add: MKOP2_bits_def INTINF2_run test_small test_big [OF big(1)])
  qed
next
  case (big c)
  from assms(5) show ?thesis
  proof (cases rule: word_cases)
    case small
    then show ?thesis using one_big [OF assms(1-3) big(1), of _ "\<lambda>u. f u z"] assms(2,6) by (simp add: MKOP2_bits_def INTINF2_run test_small test_big [OF big(1)])
  next
    case big': (big d)
    then show ?thesis using two_big [OF assms(1-3) big(1) big'(1)] assms(2,6) by (simp add: MKOP2_bits_def INTINF2_run test_big [OF big(1)] test_big [OF big'(1)])
  qed
qed

lemma MKOP2_sum_spec:
  assumes "gmp_spec (ii_gmp ie)" and "prim_call s self [x, x']" and "mpz_ok s m" and "int_word ie s m x y" and "int_word ie s m x' z"
    and "bigop (ii_gmp ie) = BigInt_op2 f" and "\<And>c n. bigop_ui (ii_gmp ie) c n = BigInt_op1 (\<lambda>u. f u (int n)) c"
    and "\<And>c n. inversebigop_ui (ii_gmp ie) c n = BigInt_op1 (\<lambda>u. f u (- int n)) c" and "valid_int y \<Longrightarrow> valid_int z \<Longrightarrow> s32 (smallop y z) = f y z"
  shows "igives ie s m (MKOP2_sum bigop bigop_ui inversebigop_ui smallop env ie s m) (if valid_int y \<and> \<not> valid_int z then f z y else f y z) 0"
proof -
  have arg: "(if 0 < j then bigop_ui (ii_gmp ie) c (as_u_int j) else inversebigop_ui (ii_gmp ie) c (as_u_int (s32 (- j)))) = BigInt_op1 (\<lambda>u. f u j) c"
    if "valid_int j" for j c
    using that as_u_int_valid [of j] as_u_int_small(1) [of "- j"] s32_valid(2) [of j] by (auto simp: assms(7,8) valid_int_iff)
  have ite: "(if b then f1 s m else f2 s m) = (if b then f1 else f2) s m" for b and f1 f2 :: "sched \<Rightarrow> mpz_state \<Rightarrow> 'z" and s m by simp
  note run = MKOP2_sum_def INTINF2_run [OF assms(2)] ite
  from assms(4) show ?thesis
  proof (cases rule: word_cases)
    case small: small
    from assms(5) show ?thesis
    proof (cases rule: word_cases)
      case small': small
      then show ?thesis using small assms(9) small_returned [OF assms(2,3), of ie "f y z"] by (simp add: run test_small)
    next
      case (big c)
      then show ?thesis using small one_big [OF assms(1-3) big(1), of _ "\<lambda>u. f u y"] by (simp add: run test_small test_big [OF big(1)] arg)
    qed
  next
    case (big c)
    from assms(5) show ?thesis
    proof (cases rule: word_cases)
      case small
      then show ?thesis using big one_big [OF assms(1-3) big(1), of _ "\<lambda>u. f u z"] by (simp add: run test_small test_big [OF big(1)] arg)
    next
      case big': (big d)
      then show ?thesis using big two_big [OF assms(1-3) big(1) big'(1)] assms(6) by (simp add: run test_big [OF big(1)] test_big [OF big'(1)])
    qed
  qed
qed

text \<open>The product of two big integers is computed twice and the first result left behind; so is the operand that was made for two small ones.\<close>

lemma opmul_spec:
  assumes "gmp_spec (ii_gmp ie)" and "prim_call s self [x, x']" and "mpz_ok s m" and "int_word ie s m x y" and "int_word ie s m x' z"
  shows "igives ie s m (IntInf_opmul env ie s m) (y * z) (if valid_int y = valid_int z \<and> \<not> valid_int (y * z) then 1 else 0)"
proof -
  have G: "mpz_mul (ii_gmp ie) u v = u * v" "mpz_mul_si (ii_gmp ie) u v = u * v" for u v using assms(1) by (simp_all add: gmp_spec_def)
  note run = IntInf_opmul_def INTINF2_run [OF assms(2)] BigInt_mul_si_def BigInt_mul_def
  from assms(4) show ?thesis
  proof (cases rule: word_cases)
    case small: small
    from assms(5) show ?thesis
    proof (cases rule: word_cases)
      case small': small
      note check = CheckProduct_iff [OF small(2) small'(2)]
      show ?thesis
      proof (cases "valid_int (y * z)")
        case True
        then show ?thesis using small small' check returned_small [OF assms(2) start [OF assms(3)] True, of 0 ie] s32_valid(1) [OF True] by (simp add: run test_small)
      next
        case False
        obtain s1 m1 where n: "BigInt_New y (popped s) m = (sc_next (popped s), s1, m1)" "istep (popped s) m s1 m1 {sc_next (popped s)}"
            "mz_values m1 = (mz_values m)(sc_next (popped s) \<mapsto> y)" using istep_new [OF start [OF assms(3)], of y] by auto
        have y: "mz_values m1 (sc_next (popped s)) = Some y" using n(3) by simp
        obtain s2 m2 where r: "BigInt_op1 (\<lambda>u. mpz_mul_si (ii_gmp ie) u z) (sc_next (popped s)) s1 m1 = Some (sc_next s1, s2, m2)"
            "istep (popped s) m s2 m2 {sc_next s1, sc_next (popped s)}" "mz_values m2 = (mz_values m1)(sc_next s1 \<mapsto> y * z)" "sc_next s1 \<noteq> sc_next (popped s)"
          using istep_op1 [OF n(2) y, of "\<lambda>u. mpz_mul_si (ii_gmp ie) u z"] G(2) by auto
        have "card {sc_next s1, sc_next (popped s)} = 1 + 1" using r(4) by simp
        then have "igives ie s m (RETURN_INTINF ie (sc_next s1) s2 m2) (y * z) 1" using returned_intinf [OF assms(1,2) r(2)] r(3) by simp
        then show ?thesis using small small' check False n(1) r(1) by (simp add: run test_small)
      qed
    next
      case (big c)
      then show ?thesis using small one_big [OF assms(1-3) big(1), of _ "\<lambda>u. mpz_mul_si (ii_gmp ie) u y" "y * z"] G(2)
        by (simp add: run test_small test_big [OF big(1)] mult.commute)
    qed
  next
    case (big c)
    from assms(5) show ?thesis
    proof (cases rule: word_cases)
      case small
      then show ?thesis using big one_big [OF assms(1-3) big(1), of _ "\<lambda>u. mpz_mul_si (ii_gmp ie) u z" "y * z"] G(2)
        by (simp add: run test_small test_big [OF big(1)])
    next
      case big': (big d)
      have v: "mz_values m c = Some y" "mz_values m d = Some z" using test_big(4) big(1) big'(1) by auto
      let ?f = "mpz_mul (ii_gmp ie)" and ?p = "sc_next (popped s)"
      obtain s1 m1 where 1: "BigInt_op2 ?f c d (popped s) m = Some (?p, s1, m1)" "istep (popped s) m s1 m1 {?p}" "mz_values m1 = (mz_values m)(?p \<mapsto> y * z)"
        using istep_op2 [OF start [OF assms(3)] v, of ?f] G(1) by auto
      have "c \<noteq> ?p" "d \<noteq> ?p" using big(1) big'(1) by (auto simp: big_word_def)
      then have v1: "mz_values m1 c = Some y" "mz_values m1 d = Some z" using v 1(3) by auto
      obtain s2 m2 where 2: "BigInt_op2 ?f c d s1 m1 = Some (sc_next s1, s2, m2)" "istep (popped s) m s2 m2 {sc_next s1, ?p}"
          "mz_values m2 = (mz_values m1)(sc_next s1 \<mapsto> y * z)" "sc_next s1 \<noteq> ?p" using istep_op2 [OF 1(2) v1, of ?f] G(1) by auto
      have big_product: "\<not> valid_int (y * z)"
      proof
        assume "valid_int (y * z)"
        moreover have "1073741824 \<le> \<bar>y\<bar>" "1073741824 \<le> \<bar>z\<bar>" using big(2) big'(2) by (auto simp: valid_int_iff)
        then have "1073741824 * 1073741824 \<le> \<bar>y\<bar> * \<bar>z\<bar>" by (intro mult_mono) auto
        ultimately show False by (cases "0 \<le> y * z") (auto simp: valid_int_iff abs_mult [symmetric])
      qed
      have "card {sc_next s1, ?p} = 1 + 1" using 2(4) by simp
      then have "igives ie s m (RETURN_BIG ie (sc_next s1) s2 m2) (y * z) 1" using returned_big [OF assms(2) 2(2) _ _ big_product] 2(3) by simp
      then show ?thesis using big big' big_product 1 2(1) by (simp add: run test_big [OF big(1)] test_big [OF big'(1)] toInt_spec [OF assms(1)])
    qed
  qed
qed

lemma promoted_op1:
  assumes "gmp_spec (ii_gmp ie)" and "prim_call s self xs" and "mpz_ok s m" and "int_word ie s m x y"
    and "\<And>c flag s1 m1. sc_trans s1 = sc_trans s \<Longrightarrow> k c flag s1 m1 = do { (r, s2, m2) \<leftarrow> BigInt_op1 f c s1 m1; m3 \<leftarrow> DISCARD_PROMOTED c flag m2; RETURN_INTINF ie r s2 m3 }"
  shows "igives ie s m (DECLARE_INTINF_PROMOTE env self x (popped s) m k) (f y) 0"
proof -
  obtain c flag s1 m1 where 1: "\<And>k. DECLARE_INTINF_PROMOTE env self x (popped s) m k = k c flag s1 m1" "istep (popped s) m s1 m1 (if flag then {c} else {})"
      "mz_values m1 c = Some y" "sc_trans s1 = sc_trans s" using promote [OF start [OF assms(3)] assms(4), of env self] by metis
  obtain s2 m2 where 2: "BigInt_op1 f c s1 m1 = Some (sc_next s1, s2, m2)" "istep (popped s) m s2 m2 (insert (sc_next s1) (if flag then {c} else {}))"
      "mz_values m2 = (mz_values m1)(sc_next s1 \<mapsto> f y)" "sc_next s1 \<notin> (if flag then {c} else {})" using istep_op1 [OF 1(2,3), of f] by auto
  obtain m3 where 3: "DISCARD_PROMOTED c flag m2 = Some m3" "istep (popped s) m s2 m3 (if flag then insert (sc_next s1) (if flag then {c} else {}) - {c} else insert (sc_next s1) (if flag then {c} else {}))"
      "mz_values m3 = (if flag then (mz_values m2)(c := None) else mz_values m2)" using discard [OF 2(2), of flag c] by auto
  have L: "istep (popped s) m s2 m3 {sc_next s1}" "mz_values m3 (sc_next s1) = Some (f y)" using 3(2,3) 2(3,4) by (auto split: if_splits simp: insert_Diff_if)
  show ?thesis using returned_intinf [OF assms(1,2) L(1) _ L(2)] 1(1,4) 2(1) 3(1) assms(5) by simp
qed

lemma promoted_two:
  assumes "mpz_ok s m" and "int_word ie s m x y" and "int_word ie s m x' z"
  obtains a fa s1 m1 b fb s2 m2 where "\<And>k. DECLARE_INTINF_PROMOTE env self x (popped s) m k = k a fa s1 m1" and "\<And>k. DECLARE_INTINF_PROMOTE env self x' s1 m1 k = k b fb s2 m2"
    and "istep (popped s) m s2 m2 ((if fa then {a} else {}) \<union> (if fb then {b} else {}))" and "mz_values m2 a = Some y" and "mz_values m2 b = Some z" and "fa \<and> fb \<longrightarrow> a \<noteq> b"
    and "\<not> fa \<longrightarrow> a < sc_next s" and "\<not> fb \<longrightarrow> b < sc_next s" and "fb \<longrightarrow> a \<noteq> b" and "fa \<longrightarrow> sc_next s \<le> a"
proof -
  obtain a fa s1 m1 where 1: "\<And>k. DECLARE_INTINF_PROMOTE env self x (popped s) m k = k a fa s1 m1" "istep (popped s) m s1 m1 (if fa then insert a {} else {})"
      "mz_values m1 a = Some y" "\<not> fa \<Longrightarrow> a < sc_next s" using promote [OF start [OF assms(1)] assms(2), of env self] by metis
  obtain b fb s2 m2 where 2: "\<And>k. DECLARE_INTINF_PROMOTE env self x' s1 m1 k = k b fb s2 m2" "istep (popped s) m s2 m2 (if fb then insert b (if fa then insert a {} else {}) else (if fa then insert a {} else {}))"
      "mz_values m2 b = Some z" "fb \<Longrightarrow> b \<notin> (if fa then insert a {} else {})" "\<not> fb \<Longrightarrow> b < sc_next s"
      "\<And>d y. mz_values m1 d = Some y \<Longrightarrow> mz_values m2 d = Some y \<and> (fb \<longrightarrow> d \<noteq> b)" "sc_trans s2 = sc_trans s"
    by (rule promote [OF 1(2) assms(3), of env self]) (rule that, (assumption | blast)+)
  have "(if fb then insert b (if fa then insert a {} else {}) else (if fa then insert a {} else {})) = (if fa then {a} else {}) \<union> (if fb then {b} else {})" by auto
  then have "istep (popped s) m s2 m2 ((if fa then {a} else {}) \<union> (if fb then {b} else {}))" using 2(2) by simp
  moreover have "fa \<longrightarrow> sc_next s \<le> a" using istep_mem [OF 1(2), of a] by (auto split: if_splits)
  moreover have "mz_values m2 a = Some y" "fb \<longrightarrow> a \<noteq> b" using 2(6) [OF 1(3)] by auto
  ultimately show ?thesis using that [OF 1(1) 2(1)] 1(4) 2(3,5) by blast
qed

text \<open>After both operands have been discarded only the new numbers are alive.\<close>

lemma discard_two:
  assumes "istep (popped s) m s2 m2 (N \<union> ((if fa then {a} else {}) \<union> (if fb then {b} else {})))" and "fa \<and> fb \<longrightarrow> a \<noteq> b"
    and "fa \<longrightarrow> a \<notin> N" and "fb \<longrightarrow> b \<notin> N"
  obtains m3 m4 where "DISCARD_PROMOTED a fa m2 = Some m3" and "DISCARD_PROMOTED b fb m3 = Some m4" and "istep (popped s) m s2 m4 N"
    and "\<And>c. c \<in> N \<Longrightarrow> mz_values m4 c = mz_values m2 c"
proof -
  let ?L = "N \<union> ((if fa then {a} else {}) \<union> (if fb then {b} else {}))"
  obtain m3 where 3: "DISCARD_PROMOTED a fa m2 = Some m3" "istep (popped s) m s2 m3 (if fa then ?L - {a} else ?L)"
      "mz_values m3 = (if fa then (mz_values m2)(a := None) else mz_values m2)" using discard [OF assms(1), of fa a] by auto
  have b: "fb \<Longrightarrow> b \<in> (if fa then ?L - {a} else ?L)" using assms(2) by auto
  obtain m4 where 4: "DISCARD_PROMOTED b fb m3 = Some m4" "istep (popped s) m s2 m4 (if fb then (if fa then ?L - {a} else ?L) - {b} else (if fa then ?L - {a} else ?L))"
      "mz_values m4 = (if fb then (mz_values m3)(b := None) else mz_values m3)" using discard [OF 3(2) b] by blast
  have "(if fb then (if fa then ?L - {a} else ?L) - {b} else (if fa then ?L - {a} else ?L)) = N" using assms(2-4) by auto
  then have N: "istep (popped s) m s2 m4 N" using 4(2) by simp
  have "mz_values m4 c = mz_values m2 c" if "c \<in> N" for c using that 3(3) 4(3) assms(3,4) by auto
  then show ?thesis using that [OF 3(1) 4(1) N] by blast
qed

lemma cmp_zero: "gmp_spec G \<Longrightarrow> mpz_cmp_si G z i = 0 \<longleftrightarrow> z = i"
  unfolding gmp_spec_def by (metis right_minus_eq sgn_0_0)

lemma raise_div:
  assumes "prim_call s self xs" and "istep (popped s) m s2 m2 ((if fa then {a} else {}) \<union> (if fb then {b} else {}))" and "fa \<and> fb \<longrightarrow> a \<noteq> b"
  shows "iraises s m (do { m3 \<leftarrow> DISCARD_PROMOTED a fa m2; m4 \<leftarrow> DISCARD_PROMOTED b fb m3; keep m4 (prim_RAISE env self e s2) }) e"
proof -
  obtain m3 m4 where "DISCARD_PROMOTED a fa m2 = Some m3" "DISCARD_PROMOTED b fb m3 = Some m4" "istep (popped s) m s2 m4 {}"
    using discard_two [of s m s2 m2 "{}" fa a fb b] assms(2,3) by auto
  then show ?thesis using raised [OF assms(1)] by simp
qed

lemma MKOPDIV_spec:
  assumes "gmp_spec (ii_gmp ie)" and "prim_call s self [x, x']" and "mpz_ok s m" and "int_word ie s m x y" and "int_word ie s m x' z" and "bigop (ii_gmp ie) = BigInt_op2 f"
  shows "if z = 0 then iraises s m (MKOPDIV bigop env ie s m) (ii_div ie) else igives ie s m (MKOPDIV bigop env ie s m) (f y z) 0"
proof -
  obtain a fa s1 m1 b fb s2 m2 where p: "\<And>k. DECLARE_INTINF_PROMOTE env self x (popped s) m k = k a fa s1 m1" "\<And>k. DECLARE_INTINF_PROMOTE env self x' s1 m1 k = k b fb s2 m2"
    "istep (popped s) m s2 m2 ((if fa then {a} else {}) \<union> (if fb then {b} else {}))" "mz_values m2 a = Some y" "mz_values m2 b = Some z" "fa \<and> fb \<longrightarrow> a \<noteq> b"
    "\<not> fa \<longrightarrow> a < sc_next s" "\<not> fb \<longrightarrow> b < sc_next s" "fb \<longrightarrow> a \<noteq> b" "fa \<longrightarrow> sc_next s \<le> a"
    by (rule promoted_two [OF assms(3-5), of env self]) (rule that, (assumption | blast)+)
  note run = MKOPDIV_def INTINF2_run [OF assms(2)] p(1,2,5) cmp_zero [OF assms(1)] assms(6)
  show ?thesis
  proof (cases "z = 0")
    case True
    then show ?thesis using raise_div [OF assms(2) p(3,6), of env "ii_div ie"] by (simp add: run)
  next
    case False
    let ?r = "sc_next s2"
    obtain s3 m3 where r: "BigInt_op2 f a b s2 m2 = Some (?r, s3, m3)" "istep (popped s) m s3 m3 ({?r} \<union> ((if fa then {a} else {}) \<union> (if fb then {b} else {})))"
        "mz_values m3 = (mz_values m2)(?r \<mapsto> f y z)" "?r \<notin> (if fa then {a} else {}) \<union> (if fb then {b} else {})" using istep_op2 [OF p(3-5), of f] by auto
    obtain m4 m5 where d: "DISCARD_PROMOTED a fa m3 = Some m4" "DISCARD_PROMOTED b fb m4 = Some m5" "istep (popped s) m s3 m5 {?r}" "mz_values m5 ?r = mz_values m3 ?r"
      using discard_two [OF r(2) p(6)] r(4) by (auto split: if_splits)
    then have "igives ie s m (RETURN_INTINF ie ?r s3 m5) (f y z) 0" using returned_intinf [OF assms(1,2) d(3)] r(3) by simp
    then show ?thesis using False r(1) d(1,2) by (simp add: run)
  qed
qed

text \<open>Two results.\<close>

definition igives2 :: "intinf_env \<Rightarrow> sched \<Rightarrow> mpz_state \<Rightarrow> mpz_result \<Rightarrow> int \<Rightarrow> int \<Rightarrow> bool" where
  "igives2 ie s m r z1 z2 \<longleftrightarrow> (\<exists>s' m'. r = Some (CONTINUE, s', m') \<and> extends s s' \<and> sc_nArgs s' = 2 \<and> int_word ie s' m' (sc_args s' ! 0) z1 \<and>
     int_word ie s' m' (sc_args s' ! 1) z2 \<and> sc_top s' = sc_top s - 1 \<and> sc_stack s' = sc_stack s \<and> (\<forall>c < sc_next s. mz_values m' c = mz_values m c) \<and>
     card {c. sc_next s \<le> c \<and> mz_values m' c \<noteq> None} = (if valid_int z1 then 0 else 1) + (if valid_int z2 then 0 else 1))"

lemma intinf_word_spec:
  assumes "gmp_spec (ii_gmp ie)" and "istep s m s1 m1 L" and "c \<in> L" and "mz_values m1 c = Some z"
  obtains w s2 m2 where "intinf_word ie c s1 m1 = Some (w, s2, m2)" and "istep s m s2 m2 (if valid_int z then L - {c} else L)"
    and "\<And>m'. valid_int z \<or> mz_values m' c = Some z \<Longrightarrow> int_word ie s2 m' w z"
    and "\<And>d. d \<noteq> c \<or> \<not> valid_int z \<Longrightarrow> mz_values m2 d = mz_values m1 d" and "heap_step {} s1 s2"
proof (cases "valid_int z")
  case True
  obtain m2 where "BigInt_destroy c m1 = Some m2" "istep s m s1 m2 (L - {c})" "mz_values m2 = (mz_values m1)(c := None)" using istep_destroy [OF assms(2,3)] by blast
  then show ?thesis using that [of "IntW z" s1 m2] True assms(4) by (simp add: intinf_word_def toInt_spec [OF assms(1)] int_word_def WordToInt_def)
next
  case False
  obtain w s2 m2 where w: "MK_INTINF ie c s1 m1 = (w, s2, m2)" "istep s m s2 m2 L" "big_word ie s2 m2 w c z" "mz_values m2 = mz_values m1" using MK_INTINF_word [OF assms(2-4) False] by blast
  have "heap_step {} s1 s2" using w(1) new_block_step(1) [of s1 CONCRETE_LABEL "[ii_handler ie, BlkW c]"]
    by (auto simp: MK_INTINF_def ConcreteRepresentation_New_def new_block_def)
  moreover have "int_word ie s2 m' w z" if "mz_values m' c = Some z" for m' using w(3) that by (auto simp: int_word_def big_word_def)
  ultimately show ?thesis using that [of w s2 m2] False w assms(4) by (simp add: intinf_word_def toInt_spec [OF assms(1)])
qed

lemma returned_two:
  assumes "gmp_spec (ii_gmp ie)" and "prim_call s self xs" and "istep (popped s) m s1 m1 {d, r}" and "d \<noteq> r" and "mz_values m1 d = Some y" and "mz_values m1 r = Some z"
  shows "igives2 ie s m (RETURN_INTINF2 ie d r s1 m1) y z"
proof -
  obtain w1 s2 m2 where 1: "intinf_word ie d s1 m1 = Some (w1, s2, m2)" "istep (popped s) m s2 m2 (if valid_int y then {d, r} - {d} else {d, r})"
      "\<And>m'. valid_int y \<or> mz_values m' d = Some y \<Longrightarrow> int_word ie s2 m' w1 y" "\<And>e. e \<noteq> d \<or> \<not> valid_int y \<Longrightarrow> mz_values m2 e = mz_values m1 e"
    by (rule intinf_word_spec [OF assms(1,3) _ assms(5)]) (simp, rule that, (assumption | blast)+)
  have r: "r \<in> (if valid_int y then {d, r} - {d} else {d, r})" "mz_values m2 r = Some z" using assms(4,6) 1(4) [of r] by auto
  obtain w2 s3 m3 where 2: "intinf_word ie r s2 m2 = Some (w2, s3, m3)" "\<And>m'. valid_int z \<or> mz_values m' r = Some z \<Longrightarrow> int_word ie s3 m' w2 z" "\<And>e. e \<noteq> r \<or> \<not> valid_int z \<Longrightarrow> mz_values m3 e = mz_values m2 e" "heap_step {} s2 s3"
      "istep (popped s) m s3 m3 (if valid_int z then (if valid_int y then {d, r} - {d} else {d, r}) - {r} else (if valid_int y then {d, r} - {d} else {d, r}))"
    by (rule intinf_word_spec [OF assms(1) 1(2) r]) (rule that, (assumption | blast)+)
  have card: "card (if valid_int z then (if valid_int y then {d, r} - {d} else {d, r}) - {r} else (if valid_int y then {d, r} - {d} else {d, r})) =
      (if valid_int y then 0 else 1) + (if valid_int z then 0 else 1)" using assms(4) by (auto simp: insert_Diff_if)
  have st: "seq_step {} (popped s) s3" "\<forall>c < sc_next s. mz_values m3 c = mz_values m c"
      "{c. sc_next s \<le> c \<and> mz_values m3 c \<noteq> None} = (if valid_int z then (if valid_int y then {d, r} - {d} else {d, r}) - {r} else (if valid_int y then {d, r} - {d} else {d, r}))"
    using 2(5) by (auto simp: istep_def)
  have val_d: "valid_int y \<or> mz_values m2 d = Some y \<and> mz_values m3 d = Some y" using 1(4) [of d] 2(3) [of d] assms(4,5) by auto
  have val_r: "valid_int z \<or> mz_values m3 r = Some z" using 2(3) [of r] r(2) by auto
  let ?s = "s3\<lparr>sc_nArgs := 2, sc_args := (sc_args s3)[0 := w1, 1 := w2]\<rparr>"
  have a: "length (sc_args s3) = 16" "sc_top s3 = sc_top s - 1" "sc_stack s3 = sc_stack s"
    using assms(2) st(1) by (auto simp: seq_step_def popped_def prim_call_def maxArgs_def)
  have k: "heap_step {} s3 ?s" by (simp add: heap_step_extends)
  have "heap_step {} s s3" by (rule heap_step_trans [of "{}" s "popped s" "{}"]) (use st(1) in auto)
  then have "extends s ?s" using heap_step_trans [OF _ k, of "{}" s "{}"] by (simp add: heap_step_extends)
  moreover have "int_word ie ?s m3 w2 z"
  proof -
    have "valid_int z \<or> mz_values m3 r = Some z" using val_r by blast
    then show ?thesis using int_word_step [OF 2(2) k] by simp
  qed
  moreover have "int_word ie ?s m3 w1 y"
  proof -
    have "valid_int y \<or> mz_values m2 d = Some y" "valid_int y \<or> mz_values m3 d = Some y" using val_d by auto
    then have "int_word ie s2 m3 w1 y" using 1(3) [of m3] by simp
    then have "int_word ie s3 m3 w1 y" using int_word_step [OF _ 2(4), of ie m3 w1 y m3] by simp
    then show ?thesis using int_word_step [OF _ k, of ie m3 w1 y m3] by simp
  qed
  moreover have "RETURN2 w1 w2 s3 = Some (CONTINUE, ?s)" using a by (simp add: RETURN2_def SetNArgs_def SetCurrentArg_def maxArgs_def run_simps)
  ultimately show ?thesis using a st card 1(1) 2(1) k by (simp add: igives2_def keep_def RETURN_INTINF2_def)
qed

lemma MKOP_both_spec:
  assumes "gmp_spec (ii_gmp ie)" and "prim_call s self [x, x']" and "mpz_ok s m" and "int_word ie s m x y" and "int_word ie s m x' z"
  shows "if z = 0 then iraises s m (MKOP_both qop rop env ie s m) (ii_div ie) else igives2 ie s m (MKOP_both qop rop env ie s m) (qop (ii_gmp ie) y z) (rop (ii_gmp ie) y z)"
proof -
  obtain a fa s1 m1 b fb s2 m2 where p: "\<And>k. DECLARE_INTINF_PROMOTE env self x (popped s) m k = k a fa s1 m1" "\<And>k. DECLARE_INTINF_PROMOTE env self x' s1 m1 k = k b fb s2 m2"
    "istep (popped s) m s2 m2 ((if fa then {a} else {}) \<union> (if fb then {b} else {}))" "mz_values m2 a = Some y" "mz_values m2 b = Some z" "fa \<and> fb \<longrightarrow> a \<noteq> b"
    "\<not> fa \<longrightarrow> a < sc_next s" "\<not> fb \<longrightarrow> b < sc_next s" "fb \<longrightarrow> a \<noteq> b" "fa \<longrightarrow> sc_next s \<le> a"
    by (rule promoted_two [OF assms(3-5), of env self]) (rule that, (assumption | blast)+)
  note run = MKOP_both_def INTINF2_run [OF assms(2)] p(1,2,5) cmp_zero [OF assms(1)]
  show ?thesis
  proof (cases "z = 0")
    case True
    then show ?thesis using raise_div [OF assms(2) p(3,6), of env "ii_div ie"] by (simp add: run)
  next
    case False
    let ?q = "qop (ii_gmp ie)" and ?r = "rop (ii_gmp ie)" and ?P = "(if fa then {a} else {}) \<union> (if fb then {b} else {})"
    obtain s3 m3 where 3: "BigInt_op2 ?q a b s2 m2 = Some (sc_next s2, s3, m3)" "istep (popped s) m s3 m3 (insert (sc_next s2) ?P)"
        "mz_values m3 = (mz_values m2)(sc_next s2 \<mapsto> ?q y z)" "sc_next s2 \<notin> ?P" using istep_op2 [OF p(3-5), of ?q] by blast
    have n: "sc_next s \<le> sc_next s2" using p(3) by (auto simp: istep_def seq_step_def heap_step_def same_sched_def)
    have "a \<noteq> sc_next s2" "b \<noteq> sc_next s2" using 3(4) p(7,8) n by (auto split: if_splits)
    then have v: "mz_values m3 a = Some y" "mz_values m3 b = Some z" using 3(3) p(4,5) by auto
    obtain s4 m4 where 4: "BigInt_op2 ?r a b s3 m3 = Some (sc_next s3, s4, m4)" "istep (popped s) m s4 m4 (insert (sc_next s3) (insert (sc_next s2) ?P))"
        "mz_values m4 = (mz_values m3)(sc_next s3 \<mapsto> ?r y z)" "sc_next s3 \<notin> insert (sc_next s2) ?P" using istep_op2 [OF 3(2) v, of ?r] by blast
    have L: "istep (popped s) m s4 m4 ({sc_next s2, sc_next s3} \<union> ?P)" using 4(2) by (simp add: insert_commute)
    obtain m5 m6 where d: "DISCARD_PROMOTED a fa m4 = Some m5" "DISCARD_PROMOTED b fb m5 = Some m6" "istep (popped s) m s4 m6 {sc_next s2, sc_next s3}"
        "\<And>c. c \<in> {sc_next s2, sc_next s3} \<Longrightarrow> mz_values m6 c = mz_values m4 c"
      by (rule discard_two [OF L p(6)]) (use 3(4) 4(4) in \<open>auto split: if_splits\<close>)
    have "igives2 ie s m (RETURN_INTINF2 ie (sc_next s2) (sc_next s3) s4 m6) (?q y z) (?r y z)"
      by (rule returned_two [OF assms(1,2) d(3)]) (use 4(3,4) 3(3) d(4) in auto)
    then show ?thesis using False 3(1) 4(1) d(1,2) by (simp add: run)
  qed
qed

text \<open>Comparisons do not allocate.\<close>

lemma sign_rel:
  assumes "sgn (c :: int) = sgn (y - z)"
  shows "c < 0 \<longleftrightarrow> y < z" "c \<le> 0 \<longleftrightarrow> y \<le> z" "0 < c \<longleftrightarrow> z < y" "0 \<le> c \<longleftrightarrow> z \<le> y" "c = 0 \<longleftrightarrow> y = z"
  using assms by (auto simp: sgn_if split: if_splits)

lemma MKOP2_rel_spec:
  assumes "gmp_spec (ii_gmp ie)" and "prim_call s self [x, x']" and "int_word ie s m x y" and "int_word ie s m x' z"
    and "\<And>c y z. sgn c = sgn (y - z) \<Longrightarrow> R c 0 = R y z" and "\<And>c y z. sgn c = sgn (y - z) \<Longrightarrow> R' c 0 = R z y"
  shows "MKOP2_rel R R' env ie s m = keep m (RETURN_BOOL (R y z) (popped s))"
proof -
  have G: "sgn (mpz_cmp (ii_gmp ie) u v) = sgn (u - v)" "sgn (mpz_cmp_si (ii_gmp ie) u v) = sgn (u - v)" for u v using assms(1) by (simp_all add: gmp_spec_def)
  note run = MKOP2_rel_def INTINF2_run [OF assms(2)] test_small BigInt_rel_def BigInt_rel_si_def assms(5) [OF G(1)] assms(5) [OF G(2)] assms(6) [OF G(2)]
  from assms(3) show ?thesis
  proof (cases rule: word_cases)
    case small
    from assms(4) show ?thesis by (cases rule: word_cases) (use small in \<open>simp add: run\<close>, use small in \<open>simp add: run test_big\<close>)
  next
    case (big c)
    from assms(4) show ?thesis by (cases rule: word_cases) (use big in \<open>simp add: run test_big [OF big(1)]\<close>, use big in \<open>simp add: run test_big [OF big(1)] test_big\<close>)
  qed
qed

lemma compare_spec:
  assumes "gmp_spec (ii_gmp ie)" and "prim_call s self [x, x']" and "int_word ie s m x y" and "int_word ie s m x' z"
  shows "IntInf_compare env ie s m = keep m (RETURN_INT (if y = z then Types_EQUAL else if y < z then Types_LESS else Types_GREATER) (popped s))"
proof -
  have G: "sgn (mpz_cmp (ii_gmp ie) u v) = sgn (u - v)" "sgn (mpz_cmp_si (ii_gmp ie) u v) = sgn (u - v)" for u v using assms(1) by (simp_all add: gmp_spec_def)
  have order: "return_order c t = RETURN_INT (if u = v then Types_EQUAL else if u < v then Types_LESS else Types_GREATER) t"
    if "sgn c = sgn (u - v)" for c u v t using sign_rel [OF that] by (auto simp: return_order_def)
  have order': "return_order (- mpz_cmp_si (ii_gmp ie) u v) t = RETURN_INT (if v = u then Types_EQUAL else if v < u then Types_LESS else Types_GREATER) t" for u v t
    by (rule order) (use G(2) [of u v] in \<open>auto simp: sgn_if split: if_splits\<close>)
  note run = IntInf_compare_def INTINF2_run [OF assms(2)] test_small BigInt_compare_def BigInt_compare_si_def order [OF G(1)] order [OF G(2)] order'
  from assms(3) show ?thesis
  proof (cases rule: word_cases)
    case small
    from assms(4) show ?thesis by (cases rule: word_cases) (use small in \<open>simp add: run\<close>, use small in \<open>simp add: run test_big\<close>)
  next
    case (big c)
    from assms(4) show ?thesis
    proof (cases rule: word_cases)
      case big': (big d)
      have "return_order 0 t = RETURN_INT Types_EQUAL t" for t by (simp add: return_order_def)
      then show ?thesis using big test_big(4) [OF big(1)] test_big(4) [OF big'(1)] by (cases "c = d") (simp_all add: run test_big [OF big(1)] test_big [OF big'(1)])
    qed (use big in \<open>simp add: run test_big [OF big(1)]\<close>)
  qed
qed

lemma DECLARE_small: "WordToInt (sc_trans s1) (IntW n) = Some (Some n)"
  by (simp add: WordToInt_def)

lemma shift_spec:
  assumes "gmp_spec (ii_gmp ie)" and "prim_call s self [x, IntW n]" and "mpz_ok s m" and "int_word ie s m x y"
    and "\<And>c k. bigop (ii_gmp ie) c k = BigInt_op1 (\<lambda>z. f z k) c"
  shows "igives ie s m (MKSHIFT bigop env ie s m) (f y (as_u_int n)) 0"
  using promoted_op1 [OF assms(1-4), where f = "\<lambda>z. f z (as_u_int n)"] by (simp add: MKSHIFT_def INTINF2_run [OF assms(2)] DECLARE_small assms(5))

lemma pow_spec:
  assumes "gmp_spec (ii_gmp ie)" and "prim_call s self [x, IntW e]" and "mpz_ok s m" and "int_word ie s m x y" and "valid_int e"
  shows "if 0 \<le> e then igives ie s m (IntInf_pow env ie s m) (y ^ nat e) 0
    else if y = 0 then iraises s m (IntInf_pow env ie s m) (ii_div ie)
    else igives ie s m (IntInf_pow env ie s m) (if y = 1 then 1 else if y = -1 then (if even e then 1 else -1) else 0) 0"
proof -
  have G: "mpz_pow_ui (ii_gmp ie) u n = u ^ n" for u n using assms(1) by (simp add: gmp_spec_def)
  have small: "igives ie s m (keep m (RETURN_INT z (popped s))) z 0" if "valid_int z" for z using returned_small [OF assms(2) start [OF assms(3)] that, of 0 ie] by simp
  have v: "valid_int 0" "valid_int 1" "valid_int (-1)" by (simp_all add: valid_int_iff)
  obtain base where base: "\<And>k. TEST_INTINF env self x (popped s) m k = k base" "base = (if valid_int y then Some y else None)"
    using assms(4) by (cases rule: word_cases) (use test_small test_big(1) in \<open>fastforce\<close>)+
  note run = IntInf_pow_def INTINF2_run [OF assms(2)] base(1) DECLARE_small
  show ?thesis
  proof (cases "0 < e")
    case True
    have "igives ie s m (IntInf_pow env ie s m) (mpz_pow_ui (ii_gmp ie) y (as_u_int e)) 0"
      using promoted_op1 [OF assms(1-4), where f = "\<lambda>z. mpz_pow_ui (ii_gmp ie) z (as_u_int e)"] True by (simp add: run BigInt_pow_def)
    then show ?thesis using True G as_u_int_valid [OF _ assms(5)] by simp
  next
    case False
    have sm: "s32 (- e) smod 2 \<noteq> 0 \<longleftrightarrow> odd e" if "e < 0"
    proof -
      have "s32 (- e) = - e" "(- e) smod 2 = (- e) mod 2" using that s32_valid(2) [OF assms(5)] by (simp_all add: signed_modulo_int_def sgn_if)
      then show ?thesis by presburger
    qed
    show ?thesis
    proof (cases "e = 0")
      case True
      then show ?thesis using small [OF v(2)] by (simp add: run)
    next
      case False
      then have e: "e < 0" using \<open>\<not> 0 < e\<close> by simp
      have *: "base = Some 0 \<longleftrightarrow> y = 0" "base = Some 1 \<longleftrightarrow> y = 1" "base = Some (-1) \<longleftrightarrow> y = -1" using base(2) v by auto
      show ?thesis using e * small [OF v(1)] small [OF v(2)] small [OF v(3)] sm [OF e] raised [OF assms(2) start [OF assms(3)], of env "ii_div ie"] by (auto simp: run)
    qed
  qed
qed

lemma log2_spec:
  assumes "gmp_spec (ii_gmp ie)" and "prim_call s self [x]" and "mpz_ok s m" and "int_word ie s m x y"
  shows "if y \<le> 0 then iraises s m (IntInf_log2 env ie s m) (ii_domain ie)
    else \<exists>l. 2 ^ l \<le> y \<and> y < 2 ^ Suc l \<and>
      (if valid_int (int l) then igives ie s m (IntInf_log2 env ie s m) (int l) 0 else iraises s m (IntInf_log2 env ie s m) (ii_overflow ie))"
proof -
  obtain c flag s1 m1 where 1: "\<And>k. DECLARE_INTINF_PROMOTE env self x (popped s) m k = k c flag s1 m1" "istep (popped s) m s1 m1 (if flag then {c} else {})"
      "mz_values m1 c = Some y" "flag \<Longrightarrow> c \<notin> {}" "\<not> flag \<Longrightarrow> c < sc_next s"
      "\<And>d y. mz_values m d = Some y \<Longrightarrow> mz_values m1 d = Some y \<and> (flag \<longrightarrow> d \<noteq> c)" "sc_trans s1 = sc_trans s"
    by (rule promote [OF start [OF assms(3)] assms(4), of env self]) (rule that, (assumption | blast)+)
  obtain m2 where 2: "DISCARD_PROMOTED c flag m1 = Some m2" "istep (popped s) m s1 m2 {}"
    by (rule discard [OF 1(2), of flag c]) (simp, rule that, assumption, cases flag, simp_all)
  have G: "sgn (mpz_cmp_si (ii_gmp ie) y 0) = sgn (y - 0)" "0 < y \<Longrightarrow> 0 < mpz_sizeinbase2 (ii_gmp ie) y \<and> 2 ^ (mpz_sizeinbase2 (ii_gmp ie) y - 1) \<le> y \<and> y < 2 ^ mpz_sizeinbase2 (ii_gmp ie) y"
    using assms(1) by (simp_all add: gmp_spec_def)
  note run = IntInf_log2_def INTINF1_run [OF assms(2)] 1(1,3) 2(1) BigInt_compare_si_def BigInt_log2_def sign_rel(2) [OF G(1)]
  show ?thesis
  proof (cases "y \<le> 0")
    case True
    then show ?thesis using raised [OF assms(2) 2(2), of env "ii_domain ie"] by (simp add: run)
  next
    case False
    let ?l = "mpz_sizeinbase2 (ii_gmp ie) y - 1"
    have l: "2 ^ ?l \<le> y" "y < 2 ^ Suc ?l" using G(2) False by auto
    have "if valid_int (int ?l) then igives ie s m (IntInf_log2 env ie s m) (int ?l) 0 else iraises s m (IntInf_log2 env ie s m) (ii_overflow ie)"
      using False raised [OF assms(2) 2(2), of env "ii_overflow ie"] returned_small [OF assms(2) 2(2), of "int ?l" 0 ie] by (auto simp: run valid_int_def)
    then show ?thesis using l False by auto
  qed
qed

lemma signed_take_bit_bits:
  fixes y z :: int
  shows "signed_take_bit n (y OR z) = signed_take_bit n y OR signed_take_bit n z" "signed_take_bit n (y AND z) = signed_take_bit n y AND signed_take_bit n z"
    "signed_take_bit n (y XOR z) = signed_take_bit n y XOR signed_take_bit n z"
  by (rule bit_eqI, simp add: bit_signed_take_bit_iff bit_or_iff bit_and_iff bit_xor_iff)+

lemma valid_bits:
  assumes "valid_int y" and "valid_int z"
  shows "valid_int (y OR z)" "valid_int (y AND z)" "valid_int (y XOR z)"
proof -
  have v: "valid_int u \<longleftrightarrow> signed_take_bit 30 u = u" for u by (auto simp: valid_int_iff signed_take_bit_int_eq_self_iff)
  show "valid_int (y OR z)" "valid_int (y AND z)" "valid_int (y XOR z)" using assms unfolding v by (simp_all add: signed_take_bit_bits)
qed

lemma toInt_prim_spec:
  assumes "prim_call s self [x]" and "mpz_ok s m" and "int_word ie s m x y"
  shows "if valid_int y then igives ie s m (IntInf_toInt env ie s m) y 0 else iraises s m (IntInf_toInt env ie s m) (ii_overflow ie)"
  using assms(3)
proof (cases rule: word_cases)
  case small
  then show ?thesis using returned_small [OF assms(1) start [OF assms(2)] small(2), of 0 ie] by (simp add: IntInf_toInt_def INTINF1_run [OF assms(1)] test_small)
next
  case (big c)
  then show ?thesis using raised [OF assms(1) start [OF assms(2)], of env "ii_overflow ie"] by (simp add: IntInf_toInt_def INTINF1_run [OF assms(1)] test_big [OF big(1)])
qed

lemma unary_spec:
  assumes "gmp_spec (ii_gmp ie)" and "prim_call s self [x]" and "mpz_ok s m" and "int_word ie s m x y"
  shows "igives ie s m (IntInf_opnegate env ie s m) (- y) 0" "igives ie s m (IntInf_abs env ie s m) \<bar>y\<bar> 0" "igives ie s m (IntInf_notb env ie s m) (- y - 1) 0"
proof -
  have G: "mpz_neg (ii_gmp ie) y = - y" "mpz_abs (ii_gmp ie) y = \<bar>y\<bar>" "mpz_com (ii_gmp ie) y = - y - 1" using assms(1) by (simp_all add: gmp_spec_def)
  have s: "s32 (- y) = - y" "s32 (- y - 1) = - y - 1" "s32 y = y" if "valid_int y" using that s32_valid [OF that] s32_id [of "- y - 1"] by (auto simp: valid_int_iff)
  show "igives ie s m (IntInf_opnegate env ie s m) (- y) 0"
    unfolding IntInf_opnegate_def by (rule MKOP1_spec [OF assms, where f = "mpz_neg (ii_gmp ie)"]) (simp_all add: BigInt_negate_def G s)
  show "igives ie s m (IntInf_abs env ie s m) \<bar>y\<bar> 0"
    unfolding IntInf_abs_def by (rule MKOP1_spec [OF assms, where f = "mpz_abs (ii_gmp ie)"]) (auto simp: BigInt_abs_def G s)
  show "igives ie s m (IntInf_notb env ie s m) (- y - 1) 0"
    unfolding IntInf_notb_def by (rule MKOP1_spec [OF assms, where f = "mpz_com (ii_gmp ie)"]) (simp_all add: BigInt_notb_def G s not_int_def)
qed

lemma bits_spec:
  assumes "gmp_spec (ii_gmp ie)" and "prim_call s self [x, x']" and "mpz_ok s m" and "int_word ie s m x y" and "int_word ie s m x' z"
  shows "igives ie s m (IntInf_orb env ie s m) (y OR z) 0" "igives ie s m (IntInf_xorb env ie s m) (y XOR z) 0" "igives ie s m (IntInf_andb env ie s m) (y AND z) 0"
proof -
  have G: "mpz_ior (ii_gmp ie) = (OR)" "mpz_xor (ii_gmp ie) = (XOR)" "mpz_and (ii_gmp ie) = (AND)" using assms(1) by (simp_all add: gmp_spec_def fun_eq_iff)
  show "igives ie s m (IntInf_orb env ie s m) (y OR z) 0"
    unfolding IntInf_orb_def by (rule MKOP2_bits_spec [OF assms, where f = "(OR)"]) (simp_all add: G or.commute s32_valid(1) valid_bits)
  show "igives ie s m (IntInf_xorb env ie s m) (y XOR z) 0"
    unfolding IntInf_xorb_def by (rule MKOP2_bits_spec [OF assms, where f = "(XOR)"]) (simp_all add: G xor.commute s32_valid(1) valid_bits)
  show "igives ie s m (IntInf_andb env ie s m) (y AND z) 0"
    unfolding IntInf_andb_def by (rule MKOP2_bits_spec [OF assms, where f = "(AND)"]) (simp_all add: G and.commute s32_valid(1) valid_bits)
qed

lemma sum_spec:
  assumes "gmp_spec (ii_gmp ie)" and "prim_call s self [x, x']" and "mpz_ok s m" and "int_word ie s m x y" and "int_word ie s m x' z"
  shows "igives ie s m (IntInf_opadd env ie s m) (y + z) 0" "igives ie s m (IntInf_opsub env ie s m) (if valid_int y \<and> \<not> valid_int z then z - y else y - z) 0"
proof -
  have G: "mpz_add (ii_gmp ie) = (+)" "mpz_sub (ii_gmp ie) = (-)" "mpz_add_ui (ii_gmp ie) u n = u + int n" "mpz_sub_ui (ii_gmp ie) u n = u - int n" for u n
    using assms(1) by (simp_all add: gmp_spec_def fun_eq_iff)
  note ops = BigInt_add_def BigInt_sub_def BigInt_add_ui_def BigInt_sub_ui_def G
  have s: "s32 (y + z) = y + z" "s32 (y - z) = y - z" if "valid_int y" "valid_int z" using that s32_id [of "y + z"] s32_id [of "y - z"] by (auto simp: valid_int_iff)
  have "igives ie s m (IntInf_opadd env ie s m) (if valid_int y \<and> \<not> valid_int z then z + y else y + z) 0"
    unfolding IntInf_opadd_def by (rule MKOP2_sum_spec [OF assms, where f = "(+)"]) (simp_all add: ops s)
  then show "igives ie s m (IntInf_opadd env ie s m) (y + z) 0" by (cases "valid_int y \<and> \<not> valid_int z") (simp_all add: add.commute)
  show "igives ie s m (IntInf_opsub env ie s m) (if valid_int y \<and> \<not> valid_int z then z - y else y - z) 0"
    unfolding IntInf_opsub_def by (rule MKOP2_sum_spec [OF assms, where f = "(-)"]) (simp_all add: ops s)
qed

lemma division_spec:
  assumes "gmp_spec (ii_gmp ie)" and "prim_call s self [x, x']" and "mpz_ok s m" and "int_word ie s m x y" and "int_word ie s m x' z"
  shows "if z = 0 then iraises s m (IntInf_div env ie s m) (ii_div ie) else igives ie s m (IntInf_div env ie s m) (y div z) 0"
    "if z = 0 then iraises s m (IntInf_mod env ie s m) (ii_div ie) else igives ie s m (IntInf_mod env ie s m) (y mod z) 0"
    "if z = 0 then iraises s m (IntInf_quot env ie s m) (ii_div ie) else igives ie s m (IntInf_quot env ie s m) (y sdiv z) 0"
    "if z = 0 then iraises s m (IntInf_rem env ie s m) (ii_div ie) else igives ie s m (IntInf_rem env ie s m) (y smod z) 0"
    "if z = 0 then iraises s m (IntInf_divMod env ie s m) (ii_div ie) else igives2 ie s m (IntInf_divMod env ie s m) (y div z) (y mod z)"
    "if z = 0 then iraises s m (IntInf_quotRem env ie s m) (ii_div ie) else igives2 ie s m (IntInf_quotRem env ie s m) (y sdiv z) (y smod z)"
proof -
  have G: "z \<noteq> 0 \<Longrightarrow> mpz_fdiv_q (ii_gmp ie) y z = y div z" "z \<noteq> 0 \<Longrightarrow> mpz_fdiv_r (ii_gmp ie) y z = y mod z"
      "z \<noteq> 0 \<Longrightarrow> mpz_tdiv_q (ii_gmp ie) y z = y sdiv z" "z \<noteq> 0 \<Longrightarrow> mpz_tdiv_r (ii_gmp ie) y z = y smod z"
    using assms(1) unfolding gmp_spec_def by blast+
  note one = MKOPDIV_spec [OF assms, where env = env] and two = MKOP_both_spec [OF assms, where env = env]
  show "if z = 0 then iraises s m (IntInf_div env ie s m) (ii_div ie) else igives ie s m (IntInf_div env ie s m) (y div z) 0"
    using one [where bigop = BigInt_div and f = "mpz_fdiv_q (ii_gmp ie)"] G(1) by (simp add: IntInf_div_def BigInt_div_def split: if_splits)
  show "if z = 0 then iraises s m (IntInf_mod env ie s m) (ii_div ie) else igives ie s m (IntInf_mod env ie s m) (y mod z) 0"
    using one [where bigop = BigInt_mod and f = "mpz_fdiv_r (ii_gmp ie)"] G(2) by (simp add: IntInf_mod_def BigInt_mod_def split: if_splits)
  show "if z = 0 then iraises s m (IntInf_quot env ie s m) (ii_div ie) else igives ie s m (IntInf_quot env ie s m) (y sdiv z) 0"
    using one [where bigop = BigInt_quot and f = "mpz_tdiv_q (ii_gmp ie)"] G(3) by (simp add: IntInf_quot_def BigInt_quot_def split: if_splits)
  show "if z = 0 then iraises s m (IntInf_rem env ie s m) (ii_div ie) else igives ie s m (IntInf_rem env ie s m) (y smod z) 0"
    using one [where bigop = BigInt_rem and f = "mpz_tdiv_r (ii_gmp ie)"] G(4) by (simp add: IntInf_rem_def BigInt_rem_def split: if_splits)
  show "if z = 0 then iraises s m (IntInf_divMod env ie s m) (ii_div ie) else igives2 ie s m (IntInf_divMod env ie s m) (y div z) (y mod z)"
    using two [where qop = mpz_fdiv_q and rop = mpz_fdiv_r] G(1,2) by (simp add: IntInf_divMod_def split: if_splits)
  show "if z = 0 then iraises s m (IntInf_quotRem env ie s m) (ii_div ie) else igives2 ie s m (IntInf_quotRem env ie s m) (y sdiv z) (y smod z)"
    using two [where qop = mpz_tdiv_q and rop = mpz_tdiv_r] G(3,4) by (simp add: IntInf_quotRem_def split: if_splits)
qed

lemma relations_spec:
  assumes "gmp_spec (ii_gmp ie)" and "prim_call s self [x, x']" and "int_word ie s m x y" and "int_word ie s m x' z"
  shows "IntInf_opless env ie s m = keep m (RETURN_BOOL (y < z) (popped s))" "IntInf_opgreater env ie s m = keep m (RETURN_BOOL (y > z) (popped s))"
    "IntInf_oplessEq env ie s m = keep m (RETURN_BOOL (y \<le> z) (popped s))" "IntInf_opgreaterEq env ie s m = keep m (RETURN_BOOL (y \<ge> z) (popped s))"
  unfolding IntInf_opless_def IntInf_opgreater_def IntInf_oplessEq_def IntInf_opgreaterEq_def
  subgoal by (rule MKOP2_rel_spec [OF assms, where R = "(<)" and R' = "(>)"]; erule sign_rel)
  subgoal by (rule MKOP2_rel_spec [OF assms, where R = "(>)" and R' = "(<)"]; erule sign_rel)
  subgoal by (rule MKOP2_rel_spec [OF assms, where R = "(\<le>)" and R' = "(\<ge>)"]; erule sign_rel)
  subgoal by (rule MKOP2_rel_spec [OF assms, where R = "(\<ge>)" and R' = "(\<le>)"]; erule sign_rel)
  done

lemma shifts_spec:
  assumes "gmp_spec (ii_gmp ie)" and "prim_call s self [x, IntW n]" and "mpz_ok s m" and "int_word ie s m x y" and "valid_int n" and "0 \<le> n"
  shows "igives ie s m (IntInf_shiftl env ie s m) (y * 2 ^ nat n) 0" "igives ie s m (IntInf_shiftr env ie s m) (y div 2 ^ nat n) 0"
proof -
  have G: "mpz_mul_2exp (ii_gmp ie) u k = u * 2 ^ k" "mpz_fdiv_q_2exp (ii_gmp ie) u k = u div 2 ^ k" for u k using assms(1) by (simp_all add: gmp_spec_def)
  have n: "as_u_int n = nat n" using as_u_int_valid [OF assms(6,5)] .
  show "igives ie s m (IntInf_shiftl env ie s m) (y * 2 ^ nat n) 0" "igives ie s m (IntInf_shiftr env ie s m) (y div 2 ^ nat n) 0"
    using shift_spec [OF assms(1-4), of BigInt_shiftl "mpz_mul_2exp (ii_gmp ie)" env] shift_spec [OF assms(1-4), of BigInt_shiftr "mpz_fdiv_q_2exp (ii_gmp ie)" env]
    by (simp_all add: IntInf_shiftl_def IntInf_shiftr_def BigInt_shiftl_def BigInt_shiftr_def G n)
qed

text \<open>Finalization clears the number behind a word that is not reachable any more, and no other.\<close>

lemma finalize_clears: "big_word ie s m (BlkW a) c z \<Longrightarrow> \<exists>m'. GMP_Finalize (BlkW a) s m = Some m' \<and> mz_values m' = (mz_values m)(c := None)"
  by (auto simp: big_word_def WordToBlock_def GMP_Finalize_def ConcreteRepresentation_FromWordDirect_def FromWordDirect_def ConcreteRepresentation_Get_def
      BigInt_FromWordDirect_def DirectWordToBlock_def BigInt_destroy_def run_simps)

text \<open>
  No pickled number can be read: the handler has the library read four times as many bytes as there are. (The library reads what lies
  behind the chunk.)
\<close>

lemma unpickle_out_of_bounds:
  assumes "GetAbstractRepresentation (ii_gmp ie) cr s m = Some (t, s')" and "Transform_GetArgument s' (BlkW t) = Some x"
    and "ConcreteRepresentation_Get cr 0 = Some (BlkW b)" and "mz_values m b = Some z" and "mpz_sgn (ii_gmp ie) z \<noteq> 0" and "0 < mpz_sizeinbase2 (ii_gmp ie) z"
  shows "BigIntegerHandler ie x s' m' = None"
proof -
  let ?n = "(mpz_sizeinbase2 (ii_gmp ie) z + 31) div 32"
  have n: "0 < ?n" using assms(6) by simp
  obtain sign bs where r: "sc_chunks s' (sc_next s) = Some (sign # bs)" "sign \<noteq> 0" "length bs = ?n * 4" "x = BlkW (sc_next s)"
  proof -
    let ?bs = "mpz_export (ii_gmp ie) z" and ?sign = "if mpz_sgn (ii_gmp ie) z < 0 then 2 else 1 :: 8 word"
    have l: "length ?bs \<le> ?n * 4" "BigInt_FromWordDirect s (BlkW b) = Some b"
      using assms(1,3-5) by (auto simp: GetAbstractRepresentation_def Let_def run_elims BigInt_FromWordDirect_def DirectWordToBlock_def)
    let ?s1 = "snd (new_chunk (?sign # ?bs @ replicate (?n * 4 - length ?bs) fresh_byte) s)"
    have "Transform_New (BlkW (sc_next ?s1)) (BlkW (sc_next s)) (snd (new_chunk bigInteger_name ?s1)) = (t, s')"
      using assms(1,3-5) l by (simp add: GetAbstractRepresentation_def Let_def new_chunk_def run_simps)
    then have "t = Suc (Suc (sc_next s))" "sc_blocks s' t = Some (TRANSFORM_LABEL, [BlkW (Suc (sc_next s)), BlkW (sc_next s)])"
        "sc_chunks s' (sc_next s) = Some (?sign # ?bs @ replicate (?n * 4 - length ?bs) fresh_byte)"
      by (auto simp: Transform_New_def new_chunk_def new_block_def)
    then show ?thesis using that [of ?sign "?bs @ replicate (?n * 4 - length ?bs) fresh_byte"] l(1) assms(2)
      by (simp add: Transform_GetArgument_def FromWordDirect_def DirectWordToBlock_def run_simps)
  qed
  then show ?thesis using n by (simp add: BigIntegerHandler_def DirectWordToBlock_def run_simps Let_def)
qed

text \<open>
  C16. The primitives on integers of arbitrary size compute the results of the integers, on words and on numbers of the library alike. The result is a word if
  it fits into 31 bits and otherwise a new number; the operands and all other numbers stay as they are, and of the numbers that the
  primitive has made only the result is left. Division by zero raises \<^verbatim>\<open>Div\<close>, the logarithm of a number that is not positive \<^verbatim>\<open>Domain\<close>, and
  \<^verbatim>\<open>toInt\<close> of a number that does not fit \<^verbatim>\<open>Overflow\<close>; the numbers made for the operands are cleared then, too. There are two exceptions. The difference of a small
  and a big integer comes out with the wrong sign: the code subtracts the small one from the big one. And a product that does not fit, of two small
  or of two big integers, leaves a second number behind that is never cleared.
\<close>

theorem intinf_exact:
  assumes "gmp_spec (ii_gmp ie)" and "mpz_ok s m" and "int_word ie s m x y" and "int_word ie s m x' z" and "valid_int n"
  shows "(prim_call s self [x] \<longrightarrow>
      (if valid_int y then igives ie s m (IntInf_toInt env ie s m) y 0 else iraises s m (IntInf_toInt env ie s m) (ii_overflow ie)) \<and>
      igives ie s m (IntInf_opnegate env ie s m) (- y) 0 \<and> igives ie s m (IntInf_abs env ie s m) \<bar>y\<bar> 0 \<and> igives ie s m (IntInf_notb env ie s m) (- y - 1) 0 \<and>
      (if y \<le> 0 then iraises s m (IntInf_log2 env ie s m) (ii_domain ie)
       else \<exists>l. 2 ^ l \<le> y \<and> y < 2 ^ Suc l \<and>
         (if valid_int (int l) then igives ie s m (IntInf_log2 env ie s m) (int l) 0 else iraises s m (IntInf_log2 env ie s m) (ii_overflow ie)))) \<and>
    (prim_call s self [x, x'] \<longrightarrow>
      igives ie s m (IntInf_opadd env ie s m) (y + z) 0 \<and>
      igives ie s m (IntInf_opsub env ie s m) (if valid_int y \<and> \<not> valid_int z then z - y else y - z) 0 \<and>
      igives ie s m (IntInf_opmul env ie s m) (y * z) (if valid_int y = valid_int z \<and> \<not> valid_int (y * z) then 1 else 0) \<and>
      igives ie s m (IntInf_orb env ie s m) (y OR z) 0 \<and> igives ie s m (IntInf_xorb env ie s m) (y XOR z) 0 \<and> igives ie s m (IntInf_andb env ie s m) (y AND z) 0 \<and>
      IntInf_opless env ie s m = keep m (RETURN_BOOL (y < z) (popped s)) \<and> IntInf_opgreater env ie s m = keep m (RETURN_BOOL (y > z) (popped s)) \<and>
      IntInf_oplessEq env ie s m = keep m (RETURN_BOOL (y \<le> z) (popped s)) \<and> IntInf_opgreaterEq env ie s m = keep m (RETURN_BOOL (y \<ge> z) (popped s)) \<and>
      IntInf_compare env ie s m = keep m (RETURN_INT (if y = z then Types_EQUAL else if y < z then Types_LESS else Types_GREATER) (popped s))) \<and>
    (prim_call s self [x, x'] \<and> z \<noteq> 0 \<longrightarrow>
      igives ie s m (IntInf_div env ie s m) (y div z) 0 \<and> igives ie s m (IntInf_mod env ie s m) (y mod z) 0 \<and>
      igives ie s m (IntInf_quot env ie s m) (y sdiv z) 0 \<and> igives ie s m (IntInf_rem env ie s m) (y smod z) 0 \<and>
      igives2 ie s m (IntInf_divMod env ie s m) (y div z) (y mod z) \<and> igives2 ie s m (IntInf_quotRem env ie s m) (y sdiv z) (y smod z)) \<and>
    (prim_call s self [x, x'] \<and> z = 0 \<longrightarrow>
      (\<forall>f \<in> {IntInf_div, IntInf_mod, IntInf_quot, IntInf_rem, IntInf_divMod, IntInf_quotRem}. iraises s m (f env ie s m) (ii_div ie))) \<and>
    (prim_call s self [x, IntW n] \<longrightarrow>
      (if 0 \<le> n then igives ie s m (IntInf_pow env ie s m) (y ^ nat n) 0
       else if y = 0 then iraises s m (IntInf_pow env ie s m) (ii_div ie)
       else igives ie s m (IntInf_pow env ie s m) (if y = 1 then 1 else if y = -1 then (if even n then 1 else -1) else 0) 0)) \<and>
    (prim_call s self [x, IntW n] \<and> 0 \<le> n \<longrightarrow>
      igives ie s m (IntInf_shiftl env ie s m) (y * 2 ^ nat n) 0 \<and> igives ie s m (IntInf_shiftr env ie s m) (y div 2 ^ nat n) 0)"
proof (intro conjI impI, goal_cases)
  case 1 then show ?case by (rule toInt_prim_spec [OF _ assms(2,3)])
next
  case 2 then show ?case by (rule unary_spec(1) [OF assms(1) _ assms(2,3)])
next
  case 3 then show ?case by (rule unary_spec(2) [OF assms(1) _ assms(2,3)])
next
  case 4 then show ?case by (rule unary_spec(3) [OF assms(1) _ assms(2,3)])
next
  case 5 then show ?case by (rule log2_spec [OF assms(1) _ assms(2,3)])
next
  case 6 then show ?case by (rule sum_spec(1) [OF assms(1) _ assms(2-4)])
next
  case 7 then show ?case by (rule sum_spec(2) [OF assms(1) _ assms(2-4)])
next
  case 8 then show ?case by (rule opmul_spec [OF assms(1) _ assms(2-4)])
next
  case 9 then show ?case by (rule bits_spec(1) [OF assms(1) _ assms(2-4)])
next
  case 10 then show ?case by (rule bits_spec(2) [OF assms(1) _ assms(2-4)])
next
  case 11 then show ?case by (rule bits_spec(3) [OF assms(1) _ assms(2-4)])
next
  case 12 then show ?case by (rule relations_spec(1) [OF assms(1) _ assms(3,4)])
next
  case 13 then show ?case by (rule relations_spec(2) [OF assms(1) _ assms(3,4)])
next
  case 14 then show ?case by (rule relations_spec(3) [OF assms(1) _ assms(3,4)])
next
  case 15 then show ?case by (rule relations_spec(4) [OF assms(1) _ assms(3,4)])
next
  case 16 then show ?case by (rule compare_spec [OF assms(1) _ assms(3,4)])
next
  case 17 then show ?case using division_spec(1) [OF assms(1) _ assms(2-4), of self env] by simp
next
  case 18 then show ?case using division_spec(2) [OF assms(1) _ assms(2-4), of self env] by simp
next
  case 19 then show ?case using division_spec(3) [OF assms(1) _ assms(2-4), of self env] by simp
next
  case 20 then show ?case using division_spec(4) [OF assms(1) _ assms(2-4), of self env] by simp
next
  case 21 then show ?case using division_spec(5) [OF assms(1) _ assms(2-4), of self env] by simp
next
  case 22 then show ?case using division_spec(6) [OF assms(1) _ assms(2-4), of self env] by simp
next
  case 23 then show ?case using division_spec [OF assms(1) _ assms(2-4), of self env] by simp
next
  case 24 then show ?case by (rule pow_spec [OF assms(1) _ assms(2,3,5)])
next
  case 25 then show ?case using shifts_spec(1) [OF assms(1) _ assms(2,3,5)] by blast
next
  case 26 then show ?case using shifts_spec(2) [OF assms(1) _ assms(2,3,5)] by blast
qed

text \<open>A library that computes with integers, and the integers \<open>1\<close> and \<open>2 ^ 40\<close> as arguments.\<close>

fun bit_length :: "nat \<Rightarrow> nat" where
  "bit_length n = (if n = 0 then 0 else Suc (bit_length (n div 2)))"

declare bit_length.simps [simp del]

lemma bit_length_bounds: "0 < n \<Longrightarrow> 0 < bit_length n \<and> 2 ^ (bit_length n - 1) \<le> n \<and> n < 2 ^ bit_length n"
proof (induction n rule: bit_length.induct)
  case (1 n)
  show ?case
  proof (cases "n div 2 = 0")
    case True
    then have "n = 1" using 1(2) by simp
    then show ?thesis using bit_length.simps [of 1] bit_length.simps [of 0] by simp
  next
    case False
    then have "0 < bit_length (n div 2)" "2 ^ (bit_length (n div 2) - 1) \<le> n div 2" "n div 2 < 2 ^ bit_length (n div 2)" using 1 by auto
    moreover from this(1) have "2 ^ bit_length (n div 2) = 2 * (2 ^ (bit_length (n div 2) - 1) :: nat)" by (cases "bit_length (n div 2)") simp_all
    moreover have "2 * (n div 2) \<le> n" "n < 2 * (n div 2) + 2" by presburger+
    ultimately have "2 ^ bit_length (n div 2) \<le> n" "n < 2 * 2 ^ bit_length (n div 2)" by linarith+
    moreover have "bit_length n = Suc (bit_length (n div 2))" using 1(2) by (subst bit_length.simps) simp
    ultimately show ?thesis by simp
  qed
qed

definition be_bytes :: "nat \<Rightarrow> nat \<Rightarrow> 8 word list" where
  "be_bytes k n = map (\<lambda>i. word_of_nat (n div 256 ^ (k - 1 - i))) [0..<k]"

definition exact_gmp :: gmp where
  "exact_gmp = \<lparr>mpz_neg = uminus, mpz_abs = abs, mpz_com = (\<lambda>y. - y - 1), mpz_add = (+), mpz_add_ui = (\<lambda>y n. y + int n), mpz_sub = (-), mpz_sub_ui = (\<lambda>y n. y - int n),
     mpz_mul = (*), mpz_mul_si = (*), mpz_fdiv_q = (div), mpz_fdiv_r = (mod), mpz_tdiv_q = (sdiv), mpz_tdiv_r = (smod), mpz_ior = (OR), mpz_xor = (XOR), mpz_and = (AND),
     mpz_pow_ui = (^), mpz_sizeinbase2 = (\<lambda>y. bit_length (nat \<bar>y\<bar>)), mpz_fdiv_q_2exp = (\<lambda>y n. y div 2 ^ n), mpz_mul_2exp = (\<lambda>y n. y * 2 ^ n),
     mpz_cmp = (\<lambda>y z. sgn (y - z)), mpz_cmp_si = (\<lambda>y z. sgn (y - z)), mpz_fits_slong_p = (\<lambda>y. -2147483648 \<le> y \<and> y < 2147483648), mpz_get_si = (\<lambda>y. y),
     mpz_sgn = sgn, mpz_export = (\<lambda>y. be_bytes (4 * ((bit_length (nat \<bar>y\<bar>) + 31) div 32)) (nat \<bar>y\<bar>)), mpz_import = foldl (\<lambda>n b. n * 256 + uint b) 0\<rparr>"

lemma exact_gmp_spec: "gmp_spec exact_gmp"
proof -
  have "0 < bit_length (nat y) \<and> 2 ^ (bit_length (nat y) - 1) \<le> y \<and> y < 2 ^ bit_length (nat y)" if "0 < y" for y
    using bit_length_bounds [of "nat y"] that by (auto simp: le_nat_iff nat_less_iff)
  then show ?thesis by (simp add: gmp_spec_def exact_gmp_def)
qed

definition exact_env :: intinf_env where
  "exact_env = \<lparr>ii_gmp = exact_gmp, ii_handler = IntW 3, ii_overflow = IntW 4, ii_div = IntW 5, ii_domain = IntW 6\<rparr>"

definition big_call :: "store_word list \<Rightarrow> sched" where
  "big_call xs = (sample_call xs)\<lparr>sc_blocks := [5 \<mapsto> (CONCRETE_LABEL, [IntW 3, BlkW 6])], sc_chunks := [6 \<mapsto> replicate 12 fresh_byte], sc_next := 7\<rparr>"

definition one_number :: mpz_state where
  "one_number = \<lparr>mz_values = [6 \<mapsto> 2 ^ 40], mz_registered = [BlkW 5]\<rparr>"

lemma big_call_ok:
  "length xs \<le> 16 \<Longrightarrow> prim_call (big_call xs) (IntW 9) xs" "mpz_ok (big_call xs) one_number" "int_word exact_env (big_call xs) one_number (IntW 1) 1"
  "int_word exact_env (big_call xs) one_number (BlkW 5) (2 ^ 40)"
  by (simp_all add: big_call_def one_number_def exact_env_def sample_call_def prim_call_def maxArgs_def mpz_ok_def int_word_def big_word_def WordToInt_def WordToBlock_def
      BigInt_SIZE_def valid_int_iff)

theorem intinf_exact_witness:
  "igives exact_env (big_call [IntW 1, BlkW 5]) one_number (IntInf_opadd bare_env exact_env (big_call [IntW 1, BlkW 5]) one_number) 1099511627777 0 \<and>
   igives exact_env (big_call [IntW 1, BlkW 5]) one_number (IntInf_opsub bare_env exact_env (big_call [IntW 1, BlkW 5]) one_number) 1099511627775 0 \<and>
   igives exact_env (big_call [BlkW 5, BlkW 5]) one_number (IntInf_opmul bare_env exact_env (big_call [BlkW 5, BlkW 5]) one_number) 1208925819614629174706176 1 \<and>
   igives exact_env (big_call [BlkW 5, IntW 20]) one_number (IntInf_shiftr bare_env exact_env (big_call [BlkW 5, IntW 20]) one_number) 1048576 0"
proof -
  have g: "gmp_spec (ii_gmp exact_env)" using exact_gmp_spec by (simp add: exact_env_def)
  have v: "valid_int 1" "valid_int 20" "\<not> valid_int 1099511627776" "\<not> valid_int 1208925819614629174706176" by (simp_all add: valid_int_iff)
  have "igives exact_env (big_call [IntW 1, BlkW 5]) one_number (IntInf_opadd bare_env exact_env (big_call [IntW 1, BlkW 5]) one_number) 1099511627777 0"
      "igives exact_env (big_call [IntW 1, BlkW 5]) one_number (IntInf_opsub bare_env exact_env (big_call [IntW 1, BlkW 5]) one_number) 1099511627775 0"
    using intinf_exact [OF g big_call_ok(2,3,4) v(1), of "[IntW 1, BlkW 5]" "IntW 9" bare_env] big_call_ok(1) [of "[IntW 1, BlkW 5]"] v by simp_all
  moreover have "igives exact_env (big_call [BlkW 5, BlkW 5]) one_number (IntInf_opmul bare_env exact_env (big_call [BlkW 5, BlkW 5]) one_number) 1208925819614629174706176 1"
    using intinf_exact [OF g big_call_ok(2,4,4) v(1), of "[BlkW 5, BlkW 5]" "IntW 9" bare_env] big_call_ok(1) [of "[BlkW 5, BlkW 5]"] v by simp
  moreover have "igives exact_env (big_call [BlkW 5, IntW 20]) one_number (IntInf_shiftr bare_env exact_env (big_call [BlkW 5, IntW 20]) one_number) 1048576 0"
    using intinf_exact [OF g big_call_ok(2,4,4) v(2), of "[BlkW 5, IntW 20]" "IntW 9" bare_env] big_call_ok(1) [of "[BlkW 5, IntW 20]"] by simp
  ultimately show ?thesis by simp
qed

end
