(* ===== verification/Spec2Isabelle.thy ===== *)
theory Spec2Isabelle
  imports Queue_Adt Stack_Adt Dynamic_Array Base_Map Code_Props Pickle_Props Collector_Run Imp_Map_Props Sequence_Props Structural_Eq Int_Inf_Props
begin

text \<open>
  Verification of the SEAM virtual machine and its Alice ML language layer.

  Alice ML is compiled to abstract code that runs on SEAM, a virtual machine in C++. SEAM has three layers, all of them
  under \<^verbatim>\<open>src/seam\<close>: the \<^emph>\<open>store\<close> (\<^verbatim>\<open>store\<close>), a tagged heap with generations; \<^emph>\<open>data types\<close> on the store (\<^verbatim>\<open>adt\<close>); and the
  \<^emph>\<open>generic\<close> layer (\<^verbatim>\<open>generic\<close>), with transients (futures and holes), threads, task stacks, workers and the scheduler. The
  language layer \<^verbatim>\<open>src/alice/vm-seam/alice\<close> adds Alice values, the primitives of the library and the interpreter of
  abstract code. Workers are the interface between the scheduler and interpreters: the scheduler runs the worker of the
  frame on top of the current thread's stack, and the worker answers with a result (continue, preempt, suspend, raise,
  request a transient, terminate, exit).

  \<^bold>\<open>The store.\<close>
  \<^item> \<open>Prelude\<close>: blocks as lists of words with checked access, copying, the collections of rules.
  \<^item> \<open>Store_Config\<close>, \<open>Header_Op\<close>, \<open>Pointer_Op\<close>: layout of headers and tagged words, on 32-bit words
    (\<^verbatim>\<open>StoreConfig.cc\<close>, \<^verbatim>\<open>Parameter.hh\<close>, \<^verbatim>\<open>HeaderOp.hh\<close>, \<^verbatim>\<open>PointerOp.hh\<close>). Fields and tagged words decode to what was
    encoded (C1, C3).
  \<^item> \<open>Heap_Alloc\<close>: heap chunks and the allocator (\<^verbatim>\<open>Heap.cc\<close>, \<^verbatim>\<open>Heap.hh\<close>, \<^verbatim>\<open>Store.hh\<close>, parts of \<^verbatim>\<open>Store.cc\<close>) on a memory of
    words; malloc is a parameter. The allocation loop has fuel; two rounds are enough for the sizes where it ends (C4),
    and no fuel is enough for the others (C5).
  \<^item> \<open>Store_Array\<close>: arrays of words as the allocator makes them, sizes rounded up (\<^verbatim>\<open>Value.hh\<close>).

  \<^bold>\<open>The collector.\<close>
  \<^item> \<open>Collector\<close> (\<^verbatim>\<open>Store.cc\<close>, \<^verbatim>\<open>GCHelper.hh\<close>, \<^verbatim>\<open>Map.cc\<close>, the write barrier of \<^verbatim>\<open>Value.hh\<close>): the generational copying collector, with
    weak dictionaries, finalization and the rehashing of maps. The heap is a map from addresses to blocks and forward pointers; a
    generation is the list of its blocks in the order of allocation. Loops over the heap are partial functions, since a chain
    of references or nodes could be cyclic; that the copying ends is part of C36.
  \<^item> \<open>Collector_Inv\<close>: the heap during a collection, described by the heap before it, the map of the moved blocks and the set of the
    scanned arguments. \<open>Collector_Props\<close>: a collection without weak dictionaries preserves the heap (C36).
  \<^item> \<open>Collector_Run\<close>: the write barrier keeps the set of old blocks with young pointers complete (C37), and in runs of
    allocations, writes and collections the heap stays well-formed (C38).

  \<^bold>\<open>Data types on the store.\<close>
  \<^item> \<open>Queue_Adt\<close> (\<^verbatim>\<open>Queue.hh\<close>): the ring buffer refines a list (C6); blanking is safe (\<open>queue_blank_safe\<close>).
  \<^item> \<open>Stack_Adt\<close> (\<^verbatim>\<open>Stack.hh\<close>), \<open>Dynamic_Array\<close> (\<^verbatim>\<open>DynamicArray.cc\<close>, \<^verbatim>\<open>Set.hh\<close>): C8--C11.
  \<^item> \<open>Base_Map\<close> (\<^verbatim>\<open>BaseMap.cc\<close>, \<^verbatim>\<open>Map.cc\<close>, \<^verbatim>\<open>MapNode.hh\<close>, \<^verbatim>\<open>IntMap.hh\<close>, \<^verbatim>\<open>ChunkMap.cc\<close>): hash tables for all key classes refine
    finite maps; resizing, rehashing and traversals (C13--C15, C17). The table operations are proved once, in a locale over the
    hash function and the equality of keys, and interpreted for words, integers and chunks.

  \<^bold>\<open>Threads.\<close>
  \<^item> \<open>Task_Stack\<close> (\<^verbatim>\<open>TaskStack.cc\<close>, \<^verbatim>\<open>StackFrame.hh\<close>, the handlers of \<^verbatim>\<open>Thread.hh\<close>): pushing a frame ends (C18), handlers refine a
    list (C19).
  \<^item> \<open>Transients\<close> (\<^verbatim>\<open>Transients.hh\<close>): dereferencing is partial, since a chain could be cyclic; \<open>refs_ok\<close> excludes cycles and
    binding keeps it (C20).
  \<^item> \<open>Scheduler\<close> (\<^verbatim>\<open>Scheduler.cc\<close>, \<^verbatim>\<open>Thread.hh\<close>, \<^verbatim>\<open>ThreadQueue.hh\<close>, \<^verbatim>\<open>Worker.cc\<close>, \<^verbatim>\<open>BindFutureWorker.cc\<close>, \<^verbatim>\<open>PushCallWorker.cc\<close>): the loop
    as a step function \<open>sched_step\<close> on the record \<open>sched\<close>; a mode says where in \<^verbatim>\<open>Scheduler::Run\<close> the machine is. What the
    scheduler calls in interpreters is the record \<open>senv\<close>.
  \<^item> \<open>Scheduler_Inv\<close>, \<open>Scheduler_Ops\<close>: the invariant \<open>sched_ok\<close> (ready queue, wait queues, states of threads, no cyclic
    references) and that every operation keeps it.
  \<^item> \<open>Thread_Prims\<close> (\<^verbatim>\<open>Thread.cc\<close>, \<^verbatim>\<open>Future.cc\<close>, \<^verbatim>\<open>Hole.cc\<close>, \<^verbatim>\<open>Promise.cc\<close>, \<^verbatim>\<open>Ref.cc\<close>, \<^verbatim>\<open>Exn.cc\<close>, \<^verbatim>\<open>Primitive.cc\<close>): the primitives of
    concurrency and the interpreter that runs primitives. The locale \<open>scheduler_client\<close> states what the scheduler needs of
    its workers; it is interpreted for the primitives here and for the abstract code in \<open>Abstract_Machine\<close>.
  \<^item> \<open>Scheduler_Props\<close>: every reachable state satisfies the invariant (C21), waiting threads are woken (C22), suspending and
    resuming, flushing and switching (C23, C24), holes and promises (C25, C26).

  \<^bold>\<open>The language layer.\<close>
  \<^item> \<open>Arith_Prims\<close> (\<^verbatim>\<open>Int.cc\<close>, \<^verbatim>\<open>Word.icc\<close>, \<^verbatim>\<open>Word32.cc\<close>): integers of 31 bits with exact results or \<^verbatim>\<open>Overflow\<close> (C27), words of up
    to 31 bits and of 32 bits as arithmetic modulo a power of two (C28, C29).
  \<^item> \<open>Alice_Data\<close> (\<^verbatim>\<open>Data.hh\<close>, \<^verbatim>\<open>Data.cc\<close>): tagged values, vectors, records, constructors as labelled blocks.
  \<^item> \<open>Abstract_Code\<close>, \<open>Abstract_Interp\<close> (\<^verbatim>\<open>AbstractCodeInterpreter.cc\<close>, \<^verbatim>\<open>AbstractCodeFrame.hh\<close>, \<^verbatim>\<open>AliceConcreteCode.cc\<close>,
    \<^verbatim>\<open>LazySelInterpreter.cc\<close>): code objects, frames, one definition per instruction, and the loop of the interpreter as a
    partial function, since code may loop.
  \<^item> \<open>Abstract_Machine\<close>: the interpreters as workers of the scheduler. \<open>Code_Props\<close>: threads that run any abstract code keep
    the scheduler's invariant (C30); compact tests are tests (C31); exceptions reach the handlers of their frame (C32).
  \<^item> \<open>Imp_Map\<close> (\<^verbatim>\<open>UnsafeImpMap.cc\<close>, \<^verbatim>\<open>UnsafeCell.cc\<close>): imperative maps, hash tables of doubly linked entries, with the primitives of the
    library and the workers of the traversals. \<open>Imp_Map_Props\<close>: they refine association lists in the order of insertion (C39), but
    for keys that are blocks (C40).
  \<^item> \<open>Sequences\<close> (\<^verbatim>\<open>Vector.icc\<close>, \<^verbatim>\<open>Array.icc\<close>, the sequence classes of \<^verbatim>\<open>Data.hh\<close>): the templates of the primitives on vectors and arrays, on the
    operations of a class of sequences (the record \<open>xseq\<close>), which stands for the macros \<^verbatim>\<open>XVector\<close> and \<^verbatim>\<open>XArray\<close>; six classes are
    given. Walks over lists are partial functions. \<open>Sequence_Props\<close>: the locale \<open>sequence\<close> has the laws of a class and the specification of the
    templates; interpreted for the classes it gives that vectors refine lists (C2) and arrays mutable lists (C12).
  \<^item> \<open>Structural_Eq\<close> (\<^verbatim>\<open>Alice::Compare\<close> of \<^verbatim>\<open>Data.cc\<close>, \<^verbatim>\<open>Unqualified.cc\<close>): structural equality. The recursion is a partial function, since data can be
    cyclic; on data without cycles it returns and decides equality (C7).
  \<^item> \<open>Int_Inf\<close> (\<^verbatim>\<open>IntInf.cc\<close>, \<^verbatim>\<open>BigInt\<close> of \<^verbatim>\<open>Data.cc\<close>): integers of arbitrary size. The GMP library is the record \<open>gmp\<close>; the numbers that are alive are the
    state \<open>mpz_state\<close>. \<open>Int_Inf_Props\<close>: the results are those of the integers and no number is left behind, with two exceptions (C16).

  \<^bold>\<open>Pickling.\<close>
  \<^item> \<open>Pickle_Stream\<close> (\<^verbatim>\<open>Pickle.hh\<close>, the streams of \<^verbatim>\<open>Pickler.cc\<close> and \<^verbatim>\<open>Unpickler.cc\<close>): tags, output streams, the output buffer
    with its local variables and their quicksort, input streams.
  \<^item> \<open>Pickler\<close> (\<^verbatim>\<open>Pickler.cc\<close>): the depth-first walk over the graph of a value that writes code for a stack machine; \<open>Unpickler\<close>
    (\<^verbatim>\<open>Unpickler.cc\<close>): the workers that run this code. Both are partial functions; a round of the loop is a definition of its own.
  \<^item> \<open>Stream_Props\<close>: integers are read as they were written (C33), the local variables are sorted (C34).
  \<^item> \<open>Pickle_Code\<close>: on plain graphs (no transforms and unique strings) a round of the pickler writes at most one instruction of
    a small language; \<open>Pickle_Exec\<close>: the unpickler executes these instructions; \<open>Pickle_Weave\<close>: the stores of shared blocks are
    woven into the code; \<open>Pickle_Inv\<close>: the invariant of the pickler; \<open>Pickle_Sim\<close>: the unpickler simulates the pickler;
    \<open>Pickle_Total\<close>: the graph bounds the rounds and the bytes, so the pickler returns; \<open>Pickle_Props\<close>: unpickling a pickle
    gives a copy of the graph (C35).

  \<^bold>\<open>Conventions.\<close> A failed assertion, an access out of bounds or an unknown label is \<open>None\<close>; a theorem that says that an
  operation has a result therefore says that it does none of this. An error that the code handles is a value (\<^verbatim>\<open>RAISE\<close> with
  the exception, an overflow of the stack). The word width is 32 bits, as in the released system. The layers above
  \<open>Heap_Alloc\<close> see the heap as maps from addresses to objects, one map for each kind of object, with fresh addresses from a
  counter; addresses are never reused, and by C36 a collection changes nothing
  but addresses and references that are followed.

  \<^bold>\<open>Not modelled.\<close> Minimization (\<^verbatim>\<open>Minimizer.cc\<close>), a transformation of data that is used for sharing only. The byte code compiler and interpreter
  (\<^verbatim>\<open>ByteCodeJitter.cc\<close>, \<^verbatim>\<open>ByteCodeInterpreter.cc\<close>), a second implementation of the abstract code that is modelled here. Weak dictionaries and the
  rehashing of maps during a collection are modelled, but C36 is about collections without them; the debugging checks of the collector are
  left out. Native code generation goes through macros of a library outside the repository; the operating system (\<^verbatim>\<open>IODesc.cc\<close>,
  \<^verbatim>\<open>IOHandler.cc\<close>, \<^verbatim>\<open>SignalHandler.cc\<close>), the debugger and the profiler (conditional code), strings and floating-point numbers, whose primitives call
  the C library, and the compiler, which is written in Alice ML, stay outside.
\<close>

end
